(* ===== verification/Xls_Prelude.thy ===== *)
theory Xls_Prelude
  imports Main "HOL-Library.Word" "HOL-Library.Monad_Syntax"
begin

text \<open>
  Shared vocabulary of the development.

  The C++ code signals a broken precondition with \<^verbatim>\<open>CHECK\<close> and \<^verbatim>\<open>DCHECK\<close>, which end the
  process, and a recoverable error with \<^verbatim>\<open>absl::StatusOr\<close>. The model uses the option
  monad for the first (\<open>None\<close>: the process has stopped; the build modelled has its
  DCHECKs on) and the sum type \<open>status_or\<close> for the second. Out-of-range accesses to a
  vector, undefined in C++, are \<open>None\<close> as well. Loops are folds in the option monad:
  \<open>foldM\<close> for a loop that runs to its end, \<open>loop\<close> for one that may return early.
  The proof rules for both are proved here once.
\<close>

unbundle bit_operations_syntax

named_theorems bm_spec \<open>operations on canonical bit vectors, as rewrite rules\<close>
named_theorems loop_rules \<open>evaluation of loops whose body cannot fail\<close>

section \<open>Aborts and status values\<close>

datatype status_code = InvalidArgument | Internal | OutOfRange | Unimplemented

type_synonym 'a status_or = "status_code + 'a"

definition CHECK :: "bool \<Rightarrow> unit option" where
  "CHECK b = (if b then Some () else None)"

lemma CHECK_bind [simp]: "Option.bind (CHECK b) f = (if b then f () else None)"
  by (simp add: CHECK_def)

lemma CHECK_eq_Some [simp]: "(CHECK b = Some u) = b"
  by (simp add: CHECK_def)

text \<open>\<^verbatim>\<open>StatusOr::value()\<close> ends the process on a non-OK status.\<close>

definition StatusOr_value :: "'a status_or \<Rightarrow> 'a option" where
  "StatusOr_value r = (case r of Inl e \<Rightarrow> None | Inr x \<Rightarrow> Some x)"

lemma StatusOr_value_simps [simp]:
  "StatusOr_value (Inr x) = Some x" "StatusOr_value (Inl e) = None"
  by (simp_all add: StatusOr_value_def)

section \<open>Vector accesses\<close>

definition nth_opt :: "'a list \<Rightarrow> nat \<Rightarrow> 'a option" where
  "nth_opt xs i = (if i < length xs then Some (xs ! i) else None)"

definition set_opt :: "'a list \<Rightarrow> nat \<Rightarrow> 'a \<Rightarrow> 'a list option" where
  "set_opt xs i v = (if i < length xs then Some (xs[i := v]) else None)"

lemma nth_opt_Some [simp]: "i < length xs \<Longrightarrow> nth_opt xs i = Some (xs ! i)"
  by (simp add: nth_opt_def)

lemma set_opt_Some [simp]: "i < length xs \<Longrightarrow> set_opt xs i v = Some (xs[i := v])"
  by (simp add: set_opt_def)

section \<open>Bits of natural numbers\<close>

lemma nat_lt_exp_iff_bits: "(m::nat) < 2 ^ n \<longleftrightarrow> (\<forall>i\<ge>n. \<not> bit m i)"
proof
  assume "m < 2 ^ n"
  then have "take_bit n m = m" by (simp add: take_bit_nat_eq_self_iff)
  moreover have "\<not> bit (take_bit n m) i" if "n \<le> i" for i
    using that by (simp add: bit_take_bit_iff)
  ultimately show "\<forall>i\<ge>n. \<not> bit m i" by simp
next
  assume "\<forall>i\<ge>n. \<not> bit m i"
  then have "take_bit n m = m"
    by (intro bit_eqI) (auto simp: bit_take_bit_iff not_le[symmetric])
  then show "m < 2 ^ n" by (simp add: take_bit_nat_eq_self_iff)
qed

lemma nat_bit_imp_ge: "bit (m::nat) i \<Longrightarrow> 2 ^ i \<le> m"
  using nat_lt_exp_iff_bits[of m i] by (auto simp: not_le[symmetric])

text \<open>The number of bits of a number: the least \<open>k\<close> with \<open>m < 2 ^ k\<close>.\<close>

fun nat_len :: "nat \<Rightarrow> nat" where
  "nat_len m = (if m = 0 then 0 else Suc (nat_len (m div 2)))"

declare nat_len.simps [simp del]

lemma nat_len_le_iff: "nat_len m \<le> k \<longleftrightarrow> m < 2 ^ k"
proof (induction m arbitrary: k rule: nat_len.induct)
  case (1 m)
  show ?case
  proof (cases "m = 0")
    case True
    then show ?thesis by (simp add: nat_len.simps)
  next
    case False
    then show ?thesis using 1[OF False]
      by (cases k) (auto simp: nat_len.simps[of m] less_mult_imp_div_less mult.commute
          div_less_iff_less_mult)
  qed
qed

lemma nat_len_0 [simp]: "nat_len 0 = 0" by (simp add: nat_len.simps)

lemma nat_len_eq_0_iff [simp]: "nat_len m = 0 \<longleftrightarrow> m = 0" by (simp add: nat_len.simps)

lemma nat_lt_exp_len: "m < 2 ^ nat_len m" using nat_len_le_iff[of m "nat_len m"] by simp

lemma nat_len_eqI: "m < 2 ^ Suc k \<Longrightarrow> 2 ^ k \<le> m \<Longrightarrow> nat_len m = Suc k"
  using nat_len_le_iff[of m k] nat_len_le_iff[of m "Suc k"] by simp

lemma bit_nat_len:
  assumes "m \<noteq> 0"
  shows "bit m (nat_len m - 1)"
proof (rule ccontr)
  assume "\<not> bit m (nat_len m - 1)"
  moreover have "\<forall>i\<ge>nat_len m. \<not> bit m i"
    using nat_lt_exp_len[of m] by (simp only: nat_lt_exp_iff_bits)
  moreover have "\<forall>i\<ge>nat_len m - 1. \<not> bit m i"
  proof (intro allI impI)
    fix i assume "nat_len m - 1 \<le> i"
    then have "i = nat_len m - 1 \<or> nat_len m \<le> i" by linarith
    then show "\<not> bit m i" using calculation by blast
  qed
  ultimately have "m < 2 ^ (nat_len m - 1)" by (simp only: nat_lt_exp_iff_bits)
  then show False using assms nat_len_eq_0_iff[of m] unfolding nat_len_le_iff[symmetric] by linarith
qed

section \<open>Loops\<close>

primrec foldM :: "('a \<Rightarrow> 's \<Rightarrow> 's option) \<Rightarrow> 'a list \<Rightarrow> 's \<Rightarrow> 's option" where
  "foldM f [] s = Some s"
| "foldM f (x # xs) s = Option.bind (f x s) (foldM f xs)"

datatype ('r, 's) step = Return 'r | Continue 's

primrec loop :: "('a \<Rightarrow> 's \<Rightarrow> ('r, 's) step option) \<Rightarrow> 'a list \<Rightarrow> 's \<Rightarrow> ('r, 's) step option" where
  "loop f [] s = Some (Continue s)"
| "loop f (x # xs) s =
     Option.bind (f x s) (\<lambda>r. case r of Return v \<Rightarrow> Some (Return v) | Continue s' \<Rightarrow> loop f xs s')"

primrec mapM :: "('a \<Rightarrow> 'b option) \<Rightarrow> 'a list \<Rightarrow> 'b list option" where
  "mapM f [] = Some []"
| "mapM f (x # xs) = do { y \<leftarrow> f x; ys \<leftarrow> mapM f xs; Some (y # ys) }"

lemma foldM_append: "foldM f (xs @ ys) s = Option.bind (foldM f xs s) (foldM f ys)"
  by (induction xs arbitrary: s) (auto split: Option.bind_splits)

lemma foldM_pure [loop_rules]:
  "(\<And>x s. x \<in> set xs \<Longrightarrow> f x s = Some (g x s)) \<Longrightarrow> foldM f xs s = Some (fold g xs s)"
  by (induction xs arbitrary: s) auto

lemma mapM_pure [loop_rules]:
  "(\<And>x. x \<in> set xs \<Longrightarrow> f x = Some (g x)) \<Longrightarrow> mapM f xs = Some (map g xs)"
  by (induction xs) auto

lemma mapM_cong [fundef_cong]:
  "xs = ys \<Longrightarrow> (\<And>x. x \<in> set ys \<Longrightarrow> f x = g x) \<Longrightarrow> mapM f xs = mapM g ys"
  by (induction xs arbitrary: ys) auto

lemma foldM_cong [fundef_cong]:
  "xs = ys \<Longrightarrow> s = t \<Longrightarrow> (\<And>x u. x \<in> set ys \<Longrightarrow> f x u = g x u) \<Longrightarrow> foldM f xs s = foldM g ys t"
proof (induction xs arbitrary: ys s t)
  case (Cons x xs)
  then show ?case by (auto split: Option.bind_splits)
qed simp

text \<open>The invariant rules: an index loop returns, and keeps its invariant.\<close>

lemma foldM_upt_inv:
  assumes "lo \<le> hi" and "P lo s"
    and "\<And>i s. lo \<le> i \<Longrightarrow> i < hi \<Longrightarrow> P i s \<Longrightarrow> \<exists>s'. f i s = Some s' \<and> P (Suc i) s'"
  shows "\<exists>s'. foldM f [lo..<hi] s = Some s' \<and> P hi s'"
  using assms
proof (induction "hi - lo" arbitrary: lo s)
  case 0
  then show ?case by auto
next
  case (Suc n)
  then have lt: "lo < hi" by linarith
  obtain s' where s': "f lo s = Some s'" "P (Suc lo) s'"
    using Suc.prems(3)[of lo s] lt Suc.prems(2) by auto
  have "\<exists>s''. foldM f [Suc lo..<hi] s' = Some s'' \<and> P hi s''"
    using Suc.hyps(2) Suc.prems(3) lt s'(2) by (intro Suc.hyps(1)) auto
  then show ?case using lt s'(1) by (auto simp: upt_conv_Cons)
qed

lemma foldM_inv:
  assumes "P xs s"
    and "\<And>x xs s. P (x # xs) s \<Longrightarrow> \<exists>s'. f x s = Some s' \<and> P xs s'"
  shows "\<exists>s'. foldM f xs s = Some s' \<and> P [] s'"
  using assms(1)
proof (induction xs arbitrary: s)
  case Nil
  then show ?case by simp
next
  case (Cons x xs)
  obtain s' where "f x s = Some s'" "P xs s'" using assms(2)[OF Cons.prems] by blast
  with Cons.IH[of s'] show ?case by simp
qed

text \<open>A loop that looks for the first element with a property and returns from there.\<close>

lemma loop_find [loop_rules]:
  assumes "\<And>x. x \<in> set xs \<Longrightarrow> f x s = Some (if P x then Return (r x) else Continue s)"
  shows "loop f xs s =
    Some (case find P xs of None \<Rightarrow> Continue s | Some x \<Rightarrow> Return (r x))"
  using assms by (induction xs) auto

lemma loop_any [loop_rules]:
  assumes "\<And>x. x \<in> set xs \<Longrightarrow> f x s = Some (if P x then Return r else Continue s)"
  shows "loop f xs s = Some (if \<exists>x\<in>set xs. P x then Return r else Continue s)"
  using assms by (induction xs) auto

text \<open>Counting loops: the index of the first element that stops the loop.\<close>

lemma find_upt_takeWhile:
  "(case find P [lo..<n] of None \<Rightarrow> max lo n | Some i \<Rightarrow> i) =
     lo + length (takeWhile (\<lambda>i. \<not> P i) [lo..<n])"
proof (induction "n - lo" arbitrary: lo)
  case (Suc k)
  then have "[lo..<n] = lo # [Suc lo..<n]" "k = n - Suc lo" by (auto simp: upt_conv_Cons)
  then show ?case using Suc.hyps(1)[of "Suc lo"] Suc.hyps(2)
    by (auto simp: max_def split: option.splits if_splits)
qed auto

text \<open>The value of a loop whose only effect is a search.\<close>

definition step_result :: "('s \<Rightarrow> 'r) \<Rightarrow> ('r, 's) step \<Rightarrow> 'r" where
  "step_result k r = (case r of Return v \<Rightarrow> v | Continue s \<Rightarrow> k s)"

lemma step_result_simps [simp]:
  "step_result k (Return v) = v" "step_result k (Continue s) = k s"
  by (simp_all add: step_result_def)

section \<open>Status values in code that may abort\<close>

text \<open>\<^verbatim>\<open>XLS_ASSIGN_OR_RETURN\<close> and \<^verbatim>\<open>XLS_RETURN_IF_ERROR\<close>: an error is passed on, a value goes to the rest of the function.\<close>

definition ASSIGN_OR_RETURN ::
    "'a status_or option \<Rightarrow> ('a \<Rightarrow> 'b status_or option) \<Rightarrow> 'b status_or option" where
  "ASSIGN_OR_RETURN r k = Option.bind r (\<lambda>s. case s of Inl e \<Rightarrow> Some (Inl e) | Inr x \<Rightarrow> k x)"

lemma ASSIGN_OR_RETURN_simps [simp]:
  "ASSIGN_OR_RETURN None k = None"
  "ASSIGN_OR_RETURN (Some (Inl e)) k = Some (Inl e)"
  "ASSIGN_OR_RETURN (Some (Inr x)) k = k x"
  by (simp_all add: ASSIGN_OR_RETURN_def)

lemma ASSIGN_OR_RETURN_ok:
  "ASSIGN_OR_RETURN r k = Some (Inr y) \<longleftrightarrow> (\<exists>x. r = Some (Inr x) \<and> k x = Some (Inr y))"
  by (cases r; cases "the r") auto

lemma ASSIGN_OR_RETURN_cong [fundef_cong]:
  "r = r' \<Longrightarrow> (\<And>x. r' = Some (Inr x) \<Longrightarrow> k x = k' x) \<Longrightarrow> ASSIGN_OR_RETURN r k = ASSIGN_OR_RETURN r' k'"
  by (auto simp: ASSIGN_OR_RETURN_def split: Option.bind_splits sum.splits)

text \<open>\<^verbatim>\<open>XLS_RET_CHECK\<close> returns an internal error.\<close>

definition RET_CHECK :: "bool \<Rightarrow> unit status_or option" where
  "RET_CHECK b = Some (if b then Inr () else Inl Internal)"

lemma RET_CHECK_bind [simp]: "ASSIGN_OR_RETURN (RET_CHECK b) k = (if b then k () else Some (Inl Internal))"
  by (simp add: RET_CHECK_def)

text \<open>Loops whose body returns a status, and a search that stops at the first \<open>False\<close>.\<close>

primrec mapS :: "('a \<Rightarrow> 'b status_or option) \<Rightarrow> 'a list \<Rightarrow> 'b list status_or option" where
  "mapS f [] = Some (Inr [])"
| "mapS f (x # xs) =
     ASSIGN_OR_RETURN (f x) (\<lambda>y. ASSIGN_OR_RETURN (mapS f xs) (\<lambda>ys. Some (Inr (y # ys))))"

primrec foldS :: "('a \<Rightarrow> 's \<Rightarrow> 's status_or option) \<Rightarrow> 'a list \<Rightarrow> 's \<Rightarrow> 's status_or option" where
  "foldS f [] s = Some (Inr s)"
| "foldS f (x # xs) s = ASSIGN_OR_RETURN (f x s) (foldS f xs)"

primrec allM :: "('a \<Rightarrow> bool option) \<Rightarrow> 'a list \<Rightarrow> bool option" where
  "allM f [] = Some True"
| "allM f (x # xs) = do { b \<leftarrow> f x; if b then allM f xs else Some False }"

lemma mapS_cong [fundef_cong]:
  "xs = ys \<Longrightarrow> (\<And>x. x \<in> set ys \<Longrightarrow> f x = g x) \<Longrightarrow> mapS f xs = mapS g ys"
  by (induction xs arbitrary: ys) auto

lemma foldS_cong [fundef_cong]:
  "xs = ys \<Longrightarrow> s = t \<Longrightarrow> (\<And>x u. x \<in> set ys \<Longrightarrow> f x u = g x u) \<Longrightarrow> foldS f xs s = foldS g ys t"
proof (induction xs arbitrary: ys s t)
  case (Cons x xs)
  then show ?case by (auto intro!: ASSIGN_OR_RETURN_cong)
qed simp

lemma allM_cong [fundef_cong]:
  "xs = ys \<Longrightarrow> (\<And>x. x \<in> set ys \<Longrightarrow> f x = g x) \<Longrightarrow> allM f xs = allM g ys"
proof (induction xs arbitrary: ys)
  case (Cons x xs)
  then show ?case by (cases "g x") auto
qed simp

lemma mapS_pure [loop_rules]:
  "(\<And>x. x \<in> set xs \<Longrightarrow> f x = Some (Inr (g x))) \<Longrightarrow> mapS f xs = Some (Inr (map g xs))"
  by (induction xs) auto

lemma mapS_ok: "mapS f xs = Some (Inr ys) \<longleftrightarrow> list_all2 (\<lambda>x y. f x = Some (Inr y)) xs ys"
  by (induction xs arbitrary: ys) (auto simp: ASSIGN_OR_RETURN_ok list_all2_Cons1)

lemma foldS_append: "foldS f (xs @ ys) s = ASSIGN_OR_RETURN (foldS f xs s) (foldS f ys)"
  by (induction xs arbitrary: s) (auto simp: ASSIGN_OR_RETURN_def split: Option.bind_splits sum.splits)

lemma allM_pure [loop_rules]:
  "(\<And>x. x \<in> set xs \<Longrightarrow> f x = Some (P x)) \<Longrightarrow> allM f xs = Some (list_all P xs)"
  by (induction xs) auto

section \<open>Signed indices, erasing and joining\<close>

text \<open>An access with a signed index: a negative one converts to a large unsigned one and is out of range.\<close>

definition int_at :: "'a list \<Rightarrow> int \<Rightarrow> 'a option" where
  "int_at xs i = (if 0 \<le> i then nth_opt xs (nat i) else None)"

lemma int_at_Some: "int_at xs i = Some x \<longleftrightarrow> 0 \<le> i \<and> nat i < length xs \<and> xs ! nat i = x"
  by (auto simp: int_at_def nth_opt_def)

lemma int_at_eq [simp]: "0 \<le> i \<Longrightarrow> nat i < length xs \<Longrightarrow> int_at xs i = Some (xs ! nat i)"
  by (simp add: int_at_Some)

primrec filterM :: "('a \<Rightarrow> bool option) \<Rightarrow> 'a list \<Rightarrow> 'a list option" where
  "filterM f [] = Some []"
| "filterM f (x # xs) = do { b \<leftarrow> f x; ys \<leftarrow> filterM f xs; Some (if b then x # ys else ys) }"

lemma filterM_pure [loop_rules]:
  "(\<And>x. x \<in> set xs \<Longrightarrow> f x = Some (P x)) \<Longrightarrow> filterM f xs = Some (filter P xs)"
  by (induction xs) auto

text \<open>\<^verbatim>\<open>absl::StrJoin\<close>.\<close>

primrec str_join :: "string \<Rightarrow> string list \<Rightarrow> string" where
  "str_join sep [] = []"
| "str_join sep (x # xs) = (if xs = [] then x else x @ sep @ str_join sep xs)"

end
