(* ===== verification/Math_Util.thy ===== *)
theory Math_Util
  imports Xls_Prelude "HOL-Library.Signed_Division"
begin

text \<open>
  The integer helpers of \<^verbatim>\<open>xls/common/math_util.h\<close> and \<^verbatim>\<open>xls/common/bits_util.h\<close>: ratios
  rounded up and down with C++'s truncating division, logarithms and powers of two on
  \<^verbatim>\<open>uint64_t\<close>, saturating arithmetic at the width of an integer type, and the masks of
  the bitmap code. \<^verbatim>\<open>uint64_t\<close> is a \<open>64 word\<close>; the result of a count is a \<open>nat\<close>.
  Debug checks, which a release build does not run, are preconditions of the definitions here:
  a mask has at most 64 bits, and the ratio of the least integer of a type and -1 is not asked for. Every
  call in the other theories satisfies them.
\<close>

section \<open>Masks\<close>

text \<open>The DCHECK bounds the argument by 64, which every caller of the model respects.\<close>

definition Mask :: "nat \<Rightarrow> 64 word" where
  "Mask bit_count = (if bit_count = 64 then - 1 else push_bit bit_count 1 - 1)"

lemma Mask_eq_mask: "n \<le> 64 \<Longrightarrow> Mask n = mask n"
  by (auto simp: Mask_def mask_eq_decr_exp push_bit_eq_mult)

lemma bit_Mask [simp]: "n \<le> 64 \<Longrightarrow> bit (Mask n) i = (i < n)"
  by (auto simp: Mask_eq_mask bit_mask_iff)

section \<open>Ratios\<close>

definition CeilOrFloorOfRatio :: "bool \<Rightarrow> int \<Rightarrow> int \<Rightarrow> int" where
  "CeilOrFloorOfRatio ceil numerator denominator =
     (let rounded_toward_zero = numerator sdiv denominator;
          needs_round = (numerator smod denominator \<noteq> 0);
          same_sign = ((numerator \<ge> 0) = (denominator \<ge> 0))
      in if ceil then rounded_toward_zero + of_bool (same_sign \<and> needs_round)
         else rounded_toward_zero - of_bool (\<not> same_sign \<and> needs_round))"

definition CeilOfRatio :: "int \<Rightarrow> int \<Rightarrow> int" where
  "CeilOfRatio numerator denominator = CeilOrFloorOfRatio True numerator denominator"

definition FloorOfRatio :: "int \<Rightarrow> int \<Rightarrow> int" where
  "FloorOfRatio numerator denominator = CeilOrFloorOfRatio False numerator denominator"

definition RoundUpToNearest :: "int \<Rightarrow> int \<Rightarrow> int" where
  "RoundUpToNearest v divisor = CeilOfRatio v divisor * divisor"

definition RoundDownToNearest :: "int \<Rightarrow> int \<Rightarrow> int" where
  "RoundDownToNearest v divisor = (v sdiv divisor) * divisor"

section \<open>Powers of two and logarithms\<close>

definition IsPowerOfTwo :: "64 word \<Rightarrow> bool" where
  "IsPowerOfTwo x = (x \<noteq> 0 \<and> x AND (x - 1) = 0)"

definition IsEven :: "64 word \<Rightarrow> bool" where
  "IsEven x = (x AND 1 = 0)"

definition Exp2 :: "nat \<Rightarrow> int \<Rightarrow> int option" where
  "Exp2 digits n = do { CHECK (n < int digits); CHECK (n \<ge> 0); Some (2 ^ nat n) }"

function FactorizePowerOfTwo_loop :: "64 word \<Rightarrow> nat \<Rightarrow> 64 word \<times> nat" where
  "FactorizePowerOfTwo_loop x pow =
     (if IsEven x \<and> x > 0 then FactorizePowerOfTwo_loop (x div 2) (pow + 1) else (x, pow))"
  by pat_completeness auto
termination
proof (relation "measure (unat o fst)")
  fix x :: "64 word" and p :: nat
  assume "IsEven x \<and> x > 0"
  then have "0 < unat x" by (simp add: word_gt_0 unat_gt_0)
  then have "unat (x div 2) < unat x" by (simp add: unat_div)
  then show "((x div 2, p + 1), x, p) \<in> measure (unat o fst)" by simp
qed simp

definition FactorizePowerOfTwo :: "64 word \<Rightarrow> 64 word \<times> nat" where
  "FactorizePowerOfTwo x = FactorizePowerOfTwo_loop x 0"

text \<open>The portable branch of \<^verbatim>\<open>Clz\<close>: the loop from the most significant bit down.\<close>

definition Clz :: "64 word \<Rightarrow> nat" where
  "Clz v = (case find (\<lambda>i. drop_bit (64 - i - 1) v AND 1 \<noteq> 0) [0..<64] of
              Some i \<Rightarrow> i | None \<Rightarrow> 64)"

definition FloorOfLog2 :: "64 word \<Rightarrow> nat" where
  "FloorOfLog2 v = (if v = 0 then 0 else 63 - Clz v)"

definition CeilOfLog2 :: "64 word \<Rightarrow> nat" where
  "CeilOfLog2 v =
     (if v = 0 then 0
      else let fl = FloorOfLog2 v in if IsPowerOfTwo v then fl else fl + 1)"

section \<open>Saturating arithmetic\<close>

text \<open>
  The integral type is a parameter of the C++ templates: its width and its signedness.
  The overflow builtins return the exact result wrapped to the type and whether it had
  to be wrapped.
\<close>

record int_type =
  it_bits :: nat
  it_signed :: bool

definition int64_type :: int_type where "int64_type = \<lparr>it_bits = 64, it_signed = True\<rparr>"

definition it_min :: "int_type \<Rightarrow> int" where
  "it_min t = (if it_signed t then - (2 ^ (it_bits t - 1)) else 0)"

definition it_max :: "int_type \<Rightarrow> int" where
  "it_max t = (if it_signed t then 2 ^ (it_bits t - 1) - 1 else 2 ^ it_bits t - 1)"

definition it_wrap :: "int_type \<Rightarrow> int \<Rightarrow> int" where
  "it_wrap t x = (if it_signed t then signed_take_bit (it_bits t - 1) x else take_bit (it_bits t) x)"

definition builtin_overflow :: "int_type \<Rightarrow> int \<Rightarrow> int \<times> bool" where
  "builtin_overflow t x = (it_wrap t x, x < it_min t \<or> it_max t < x)"

record SaturatedResult =
  sr_result :: int
  sr_did_overflow :: bool

definition SaturatingSub :: "int_type \<Rightarrow> int \<Rightarrow> int \<Rightarrow> SaturatedResult" where
  "SaturatingSub t l r =
     (let (res, did_overflow) = builtin_overflow t (l - r)
      in if did_overflow
         then \<lparr>sr_result = (if r < 0 then it_max t else it_min t), sr_did_overflow = True\<rparr>
         else \<lparr>sr_result = res, sr_did_overflow = False\<rparr>)"

definition SaturatingAdd :: "int_type \<Rightarrow> int \<Rightarrow> int \<Rightarrow> SaturatedResult" where
  "SaturatingAdd t l r =
     (let (res, did_overflow) = builtin_overflow t (l + r)
      in if did_overflow
         then \<lparr>sr_result = (if r < 0 then it_min t else it_max t), sr_did_overflow = True\<rparr>
         else \<lparr>sr_result = res, sr_did_overflow = False\<rparr>)"

definition SaturatingMul :: "int_type \<Rightarrow> int \<Rightarrow> int \<Rightarrow> SaturatedResult" where
  "SaturatingMul t l r =
     (let (res, did_overflow) = builtin_overflow t (l * r)
      in if did_overflow
         then \<lparr>sr_result = (if (l < 0) \<noteq> (r < 0) then it_min t else it_max t),
               sr_did_overflow = True\<rparr>
         else \<lparr>sr_result = res, sr_did_overflow = False\<rparr>)"

definition SaturatingLeftShift :: "int_type \<Rightarrow> int \<Rightarrow> int \<Rightarrow> SaturatedResult option" where
  "SaturatingLeftShift t l r = do {
     CHECK (r \<ge> 0);
     if l = 0 \<or> r = 0 then Some \<lparr>sr_result = l, sr_did_overflow = False\<rparr>
     else let usable_bits = it_bits t - (if it_signed t then 1 else 0) in
       if r \<ge> int usable_bits then Some \<lparr>sr_result = it_max t, sr_did_overflow = True\<rparr>
       else let bits_remaining = usable_bits - nat r;
                msk = it_wrap t (push_bit bits_remaining (- 1))
            in if l AND msk \<noteq> 0 then Some \<lparr>sr_result = it_max t, sr_did_overflow = True\<rparr>
               else Some \<lparr>sr_result = it_wrap t (push_bit (nat r) l), sr_did_overflow = False\<rparr>
   }"

section \<open>Lemmas\<close>

lemma div_minus_cases:
  fixes n d :: int
  assumes "d \<noteq> 0"
  shows "(- n) div d = (if d dvd n then - (n div d) else - (n div d) - 1)"
    and "n div (- d) = (if d dvd n then - (n div d) else - (n div d) - 1)"
  using assms zdiv_zminus1_eq_if[OF assms, of n] zdiv_zminus2_eq_if[OF assms, of n]
  by (simp_all add: dvd_eq_mod_eq_0)

lemma sdiv_int_cases:
  fixes n d :: int
  assumes "d \<noteq> 0"
  shows "n sdiv d = (if (n \<ge> 0) = (d \<ge> 0) \<or> d dvd n then n div d else n div d + 1)"
  using assms div_minus_cases[OF assms, of n]
  by (cases "n = 0"; cases "n < 0"; cases "d < 0")
     (simp_all add: signed_divide_int_def sgn_if abs_if)

lemma smod_int_zero_iff:
  fixes n d :: int
  assumes "d \<noteq> 0"
  shows "(n smod d = 0) = (d dvd n)"
proof
  assume "n smod d = 0"
  then show "d dvd n" using sdiv_mult_smod_eq[of n d] by (metis add.right_neutral dvd_triv_right)
next
  assume "d dvd n"
  then show "n smod d = 0"
    using sdiv_mult_smod_eq[of n d] by (simp add: sdiv_int_cases[OF assms])
qed

text \<open>\<^verbatim>\<open>FloorOfRatio\<close> and \<^verbatim>\<open>CeilOfRatio\<close> return the exact floor and ceiling of the
  quotient, for every sign of numerator and denominator, although they are computed from a
  division that truncates towards zero.\<close>

theorem ratio_correct:
  assumes "d \<noteq> 0"
  shows "FloorOfRatio n d = n div d \<and> CeilOfRatio n d = - ((- n) div d)"
  using div_minus_cases(1)[OF assms, of n]
  by (simp add: FloorOfRatio_def CeilOfRatio_def CeilOrFloorOfRatio_def Let_def
        sdiv_int_cases[OF assms] smod_int_zero_iff[OF assms])

lemma CeilOfRatio_nat:
  assumes d: "0 < d"
  shows "nat (CeilOfRatio (int n) (int d)) = (n + d - 1) div d"
proof -
  have "CeilOfRatio (int n) (int d) = (if d dvd n then int (n div d) else int (n div d) + 1)"
    using d div_minus_cases(1)[of "int d" "int n"]
    by (simp add: CeilOfRatio_def CeilOrFloorOfRatio_def Let_def sdiv_int_cases smod_int_zero_iff
        zdiv_int)
  moreover have "(n + d - 1) div d = (if d dvd n then n div d else n div d + 1)"
  proof (cases "d dvd n")
    case True
    then obtain k where "n = d * k" by (elim dvdE)
    then have "n + d - 1 = (d - 1) + d * k" using d by simp
    moreover have "((d - 1) + d * k) div d = k" using d by (simp only: div_mult_self2) simp
    ultimately show ?thesis using d \<open>n = d * k\<close> by simp
  next
    case False
    then have "0 < n mod d" by (simp add: mod_greater_zero_iff_not_dvd)
    then have "n + d - 1 = (n mod d - 1) + d * (n div d + 1)"
      using mult_div_mod_eq[of d n] by (simp only: distrib_left mult_1_right)
    moreover have "n mod d - 1 < d" using d by (meson less_imp_diff_less mod_less_divisor)
    then have "((n mod d - 1) + d * (n div d + 1)) div d = n div d + 1"
      using d div_mult_self2[of d "n mod d - 1" "n div d + 1"] by simp
    ultimately show ?thesis using False by metis
  qed
  ultimately show ?thesis by (simp add: nat_add_distrib)
qed

lemma drop_bit_and_1_iff: "(drop_bit m (v::64 word) AND 1 \<noteq> 0) = bit v m"
  by (simp add: and_one_eq mod_2_eq_odd bit_iff_odd_drop_bit)

lemma Clz_nonzero:
  assumes "v \<noteq> 0"
  shows "Clz v < 64 \<and> bit v (63 - Clz v) \<and> (\<forall>j. 63 - Clz v < j \<longrightarrow> \<not> bit v j)"
proof -
  let ?P = "\<lambda>i. bit v (63 - i)"
  have P: "(\<lambda>i. drop_bit (64 - i - 1) v AND 1 \<noteq> 0) = ?P"
    by (simp add: drop_bit_and_1_iff)
  obtain k where k: "k < 64" "bit v k"
    using assms bit_word_eqI[of v 0] by auto
  then have "?P (63 - k)" "63 - k < 64" by auto
  then have "find ?P [0..<64] \<noteq> None" by (auto simp: find_None_iff)
  then obtain i where i: "find ?P [0..<64] = Some i" by auto
  then have i': "i < 64" "?P i" "\<And>j. j < i \<Longrightarrow> \<not> ?P j"
    by (auto simp: find_Some_iff)
  have "\<not> bit v j" if "63 - i < j" for j
  proof (cases "j < 64")
    case True
    then have "\<not> ?P (63 - j)" using that by (intro i'(3)) linarith
    then show ?thesis using True by simp
  next
    case False
    then show ?thesis using bit_imp_le_length[of v j] by auto
  qed
  moreover have "Clz v = i" unfolding Clz_def P using i by simp
  ultimately show ?thesis using i' by simp
qed

lemma FloorOfLog2_bounds:
  assumes "v \<noteq> 0"
  shows "2 ^ FloorOfLog2 v \<le> unat v \<and> unat v < 2 ^ (FloorOfLog2 v + 1)"
proof -
  have "bit (unat v) (FloorOfLog2 v)" "\<forall>j\<ge>FloorOfLog2 v + 1. \<not> bit (unat v) j"
    using assms Clz_nonzero[OF assms] by (auto simp: FloorOfLog2_def bit_unsigned_iff)
  then show ?thesis by (blast intro: nat_bit_imp_ge nat_lt_exp_iff_bits[THEN iffD2])
qed

lemma nat_and_pred_eq_0_iff: "0 < (m::nat) \<Longrightarrow> (m AND (m - 1) = 0) = (\<exists>k. m = 2 ^ k)"
proof (induction m rule: less_induct)
  case (less m)
  show ?case
  proof (cases "even m")
    case True
    then obtain h where h: "m = 2 * h" by (elim evenE)
    have "m AND (m - 1) = 2 * (h AND (h - 1))"
      using h less.prems by (subst and_rec) (cases h; simp)
    also have "(\<dots> = 0) = (\<exists>k. h = 2 ^ k)" using less h by auto
    also have "\<dots> = (\<exists>k. m = 2 ^ k)"
      using h less.prems
      by (metis True even_power odd_one power_0 power_Suc nat_mult_eq_cancel1 old.nat.exhaust zero_less_numeral)
    finally show ?thesis .
  next
    case False
    then obtain h where h: "m = 2 * h + 1" by (elim oddE)
    have "m AND (m - 1) = 2 * h" using h by (subst and_rec) simp
    also have "(\<dots> = 0) = (m = 2 ^ 0)" using h by simp
    also have "\<dots> = (\<exists>k. m = 2 ^ k)"
      using False by (metis even_power even_numeral power_0 neq0_conv)
    finally show ?thesis .
  qed
qed

lemma IsPowerOfTwo_iff: "IsPowerOfTwo x = (\<exists>k. unat x = 2 ^ k)"
proof (cases "x = 0")
  case True
  then show ?thesis by (simp add: IsPowerOfTwo_def)
next
  case False
  then have "unat (x AND (x - 1)) = unat x AND (unat x - 1)"
    by (simp add: unsigned_and_eq unat_minus_one)
  then show ?thesis using False
    by (metis IsPowerOfTwo_def nat_and_pred_eq_0_iff unat_eq_zero unat_gt_0)
qed

lemma CeilOfLog2_least:
  assumes "v \<noteq> 0"
  shows "CeilOfLog2 v = (LEAST k. unat v \<le> 2 ^ k)"
proof (rule sym, rule Least_equality)
  note fl = FloorOfLog2_bounds[OF assms]
  have pow: "IsPowerOfTwo v = (unat v = 2 ^ FloorOfLog2 v)"
  proof
    assume "IsPowerOfTwo v"
    then obtain k where k: "unat v = 2 ^ k" by (auto simp: IsPowerOfTwo_iff)
    with fl have "(2::nat) ^ FloorOfLog2 v \<le> 2 ^ k" "(2::nat) ^ k < 2 ^ (FloorOfLog2 v + 1)"
      by simp_all
    then have "FloorOfLog2 v \<le> k" "k < FloorOfLog2 v + 1"
      by (simp_all only: power_increasing_iff power_strict_increasing_iff rel_simps)
    then have "k = FloorOfLog2 v" by simp
    with k show "unat v = 2 ^ FloorOfLog2 v" by simp
  qed (auto simp: IsPowerOfTwo_iff)
  show "unat v \<le> 2 ^ CeilOfLog2 v" using assms fl pow by (simp add: CeilOfLog2_def Let_def)
  fix k assume k: "unat v \<le> 2 ^ k"
  show "CeilOfLog2 v \<le> k"
  proof (rule ccontr)
    assume "\<not> CeilOfLog2 v \<le> k"
    then have "k \<le> FloorOfLog2 v" "k < FloorOfLog2 v \<or> \<not> IsPowerOfTwo v"
      using assms by (auto simp: CeilOfLog2_def Let_def split: if_splits)
    then have "(2::nat) ^ k < unat v"
    proof (cases "k < FloorOfLog2 v")
      case True
      then have "(2::nat) ^ k < 2 ^ FloorOfLog2 v" by simp
      then show ?thesis using fl by linarith
    next
      case False
      then show ?thesis using \<open>k \<le> FloorOfLog2 v\<close> \<open>_ \<or> _\<close> fl pow by (auto simp: le_less)
    qed
    then show False using k by simp
  qed
qed

text \<open>For a non-zero word, \<^verbatim>\<open>FloorOfLog2\<close> is the largest exponent whose power of two does not
  exceed it and \<^verbatim>\<open>CeilOfLog2\<close> the least one whose power of two reaches it.\<close>

theorem Log2_correct:
  assumes "v \<noteq> 0"
  shows "2 ^ FloorOfLog2 v \<le> unat v \<and> unat v < 2 ^ (FloorOfLog2 v + 1) \<and>
    CeilOfLog2 v = (LEAST k. unat v \<le> 2 ^ k)"
  using FloorOfLog2_bounds[OF assms] CeilOfLog2_least[OF assms] by blast

section \<open>Saturation\<close>

lemma it_wrap_in_range:
  assumes "0 < it_bits t" "it_min t \<le> x" "x \<le> it_max t"
  shows "it_wrap t x = x"
  using assms
  by (auto simp: it_wrap_def it_min_def it_max_def signed_take_bit_int_eq_self take_bit_int_eq_self
      split: if_splits)

definition clamp :: "int_type \<Rightarrow> int \<Rightarrow> int" where
  "clamp t x = max (it_min t) (min (it_max t) x)"

definition in_type :: "int_type \<Rightarrow> int \<Rightarrow> bool" where
  "in_type t x = (it_min t \<le> x \<and> x \<le> it_max t)"

lemma it_min_max_sign: "0 < it_bits t \<Longrightarrow> it_min t \<le> 0 \<and> 0 \<le> it_max t"
  by (auto simp: it_min_def it_max_def)

text \<open>The saturating operations return the exact result clamped to the range of the integer
  type, and report an overflow exactly when clamping changed it.\<close>

theorem saturating_correct:
  assumes "0 < it_bits t" "in_type t l" "in_type t r"
  shows "SaturatingAdd t l r = \<lparr>sr_result = clamp t (l + r), sr_did_overflow = \<not> in_type t (l + r)\<rparr> \<and>
    SaturatingSub t l r = \<lparr>sr_result = clamp t (l - r), sr_did_overflow = \<not> in_type t (l - r)\<rparr> \<and>
    SaturatingMul t l r = \<lparr>sr_result = clamp t (l * r), sr_did_overflow = \<not> in_type t (l * r)\<rparr>"
proof -
  note s = it_min_max_sign[OF assms(1)]
  have mul: "(l * r < it_min t \<longrightarrow> (l < 0) \<noteq> (r < 0)) \<and> (it_max t < l * r \<longrightarrow> (l < 0) = (r < 0))"
    using s by (metis le_less_trans less_le_trans less_irrefl linorder_not_less mult_neg_neg mult_nonneg_nonneg
        mult_nonneg_nonpos mult_nonpos_nonneg not_le order.asym)
  show ?thesis
    using assms s mul it_wrap_in_range[OF assms(1), of "l + r"] it_wrap_in_range[OF assms(1), of "l - r"]
      it_wrap_in_range[OF assms(1), of "l * r"]
    by (auto simp: SaturatingAdd_def SaturatingSub_def SaturatingMul_def builtin_overflow_def in_type_def
        clamp_def max_def min_def Let_def)
qed

end
