(* ===== verification/Inline_Bitmap.thy ===== *)
theory Inline_Bitmap
  imports Math_Util
begin

text \<open>
  \<^verbatim>\<open>xls/data_structures/inline_bitmap.h\<close> and \<^verbatim>\<open>inline_bitmap.cc\<close>: a bitmap stored in 64-bit
  words. The record has the class's two fields. Byte accesses go through the words as
  they do in memory on the little-endian machines the class requires.

  The contract of the class is a number: a well-formed bitmap of width \<open>n\<close> is
  \<open>mkBitmap n v\<close> for its unsigned value \<open>v\<close>, and every operation is shown to compute
  on the words what the corresponding operation computes on the numbers.
\<close>

abbreviation kWordBits :: nat where "kWordBits \<equiv> 64"

record inline_bitmap =
  ib_bit_count :: nat
  ib_data :: "64 word list"

section \<open>Words and masks\<close>

definition word_count :: "inline_bitmap \<Rightarrow> nat" where
  "word_count bm = length (ib_data bm)"

definition byte_count :: "inline_bitmap \<Rightarrow> nat" where
  "byte_count bm = nat (CeilOfRatio (int (ib_bit_count bm)) 8)"

definition MaskForWord :: "inline_bitmap \<Rightarrow> nat \<Rightarrow> 64 word" where
  "MaskForWord bm wordno =
     (let remainder = ib_bit_count bm mod kWordBits
      in if wordno + 1 < word_count bm \<or> remainder = 0 then Mask kWordBits else Mask remainder)"

definition MaskLastWord :: "inline_bitmap \<Rightarrow> inline_bitmap" where
  "MaskLastWord bm =
     (if word_count bm = 0 then bm
      else let last_wordno = word_count bm - 1
           in bm\<lparr>ib_data := (ib_data bm)
                  [last_wordno := ib_data bm ! last_wordno AND MaskForWord bm last_wordno]\<rparr>)"

definition GetWord :: "inline_bitmap \<Rightarrow> nat \<Rightarrow> 64 word option" where
  "GetWord bm wordno =
     (if wordno = 0 \<and> word_count bm = 0 then Some 0 else nth_opt (ib_data bm) wordno)"

definition SetWord :: "inline_bitmap \<Rightarrow> nat \<Rightarrow> 64 word \<Rightarrow> inline_bitmap option" where
  "SetWord bm wordno v = do {
     d \<leftarrow> set_opt (ib_data bm) wordno (v AND MaskForWord bm wordno);
     Some (bm\<lparr>ib_data := d\<rparr>) }"

section \<open>Memory bytes of the words\<close>

definition word_byte :: "64 word \<Rightarrow> nat \<Rightarrow> 8 word" where
  "word_byte w k = ucast (drop_bit (8 * k) w)"

definition word_with_byte :: "64 word \<Rightarrow> nat \<Rightarrow> 8 word \<Rightarrow> 64 word" where
  "word_with_byte w k b = (w AND NOT (push_bit (8 * k) 255)) OR push_bit (8 * k) (ucast b)"

definition load_byte :: "64 word list \<Rightarrow> nat \<Rightarrow> 8 word" where
  "load_byte ws j = word_byte (ws ! (j div 8)) (j mod 8)"

definition store_byte :: "64 word list \<Rightarrow> nat \<Rightarrow> 8 word \<Rightarrow> 64 word list" where
  "store_byte ws j b = ws[j div 8 := word_with_byte (ws ! (j div 8)) (j mod 8) b]"

text \<open>\<^verbatim>\<open>memcpy\<close> of \<open>n\<close> bytes into the words, lowest address first.\<close>

definition memcpy_words :: "64 word list \<Rightarrow> 8 word list \<Rightarrow> nat \<Rightarrow> 64 word list" where
  "memcpy_words ws bytes n = fold (\<lambda>j d. store_byte d j (bytes ! j)) [0..<n] ws"

section \<open>Construction\<close>

definition InlineBitmap :: "nat \<Rightarrow> bool \<Rightarrow> inline_bitmap" where
  "InlineBitmap bit_count fill =
     (let bm = \<lparr>ib_bit_count = bit_count,
                ib_data = replicate (nat (CeilOfRatio (int bit_count) (int kWordBits)))
                            (if fill then NOT 0 else 0)\<rparr>
      in if fill then MaskLastWord bm else bm)"

definition FromWord :: "64 word \<Rightarrow> nat \<Rightarrow> bool \<Rightarrow> inline_bitmap" where
  "FromWord word bit_count fill =
     (let result = InlineBitmap bit_count fill
      in if bit_count \<noteq> 0
         then result\<lparr>ib_data := (ib_data result)[0 := word AND MaskForWord result 0]\<rparr>
         else result)"

definition InlineBitmap_FromBytes :: "nat \<Rightarrow> 8 word list \<Rightarrow> inline_bitmap option" where
  "InlineBitmap_FromBytes bit_count bytes = do {
     let result = InlineBitmap bit_count False;
     let n = nat (CeilOfRatio (int bit_count) 8);
     CHECK (length bytes \<ge> n);
     let result = (if ib_data result \<noteq> []
                   then result\<lparr>ib_data := memcpy_words (ib_data result) bytes n\<rparr> else result);
     Some (MaskLastWord result) }"

definition InlineBitmap_FromBytes_string :: "8 word list \<Rightarrow> inline_bitmap" where
  "InlineBitmap_FromBytes_string bytes =
     (let result = InlineBitmap (length bytes * 8) False;
          result = (if ib_data result \<noteq> []
                    then result\<lparr>ib_data := memcpy_words (ib_data result) bytes (length bytes)\<rparr>
                    else result)
      in MaskLastWord result)"

text \<open>The loop of \<^verbatim>\<open>FromBitsLsbIs0\<close> keeps the bits it has written to the current word and the
  position inside it; moving to the next word is an increment of the word index.\<close>

definition FromBitsLsbIs0_step ::
    "bool \<Rightarrow> 64 word list \<times> nat \<times> nat \<Rightarrow> (64 word list \<times> nat \<times> nat) option" where
  "FromBitsLsbIs0_step b = (\<lambda>(ws, word, bit_idx). do {
     w \<leftarrow> nth_opt ws word;
     ws \<leftarrow> set_opt ws word (w OR push_bit bit_idx (of_bool b));
     Some (if bit_idx + 1 \<ge> kWordBits then (ws, word + 1, 0) else (ws, word, bit_idx + 1)) })"

definition FromBitsLsbIs0 :: "bool list \<Rightarrow> inline_bitmap option" where
  "FromBitsLsbIs0 bits = do {
     let result = InlineBitmap (length bits) False;
     (ws, word, bit_idx) \<leftarrow> foldM FromBitsLsbIs0_step bits (ib_data result, 0, 0);
     Some (result\<lparr>ib_data := ws\<rparr>) }"

section \<open>Bits\<close>

definition InlineBitmap_Get :: "inline_bitmap \<Rightarrow> nat \<Rightarrow> bool option" where
  "InlineBitmap_Get bm index = do {
     CHECK (index < ib_bit_count bm);
     word \<leftarrow> nth_opt (ib_data bm) (index div kWordBits);
     let bitno = index mod kWordBits;
     Some (drop_bit bitno word AND 1 \<noteq> 0) }"

definition InlineBitmap_Set :: "inline_bitmap \<Rightarrow> nat \<Rightarrow> bool \<Rightarrow> inline_bitmap option" where
  "InlineBitmap_Set bm index v = do {
     CHECK (index < ib_bit_count bm);
     word \<leftarrow> nth_opt (ib_data bm) (index div kWordBits);
     let bitno = index mod kWordBits;
     d \<leftarrow> set_opt (ib_data bm) (index div kWordBits)
            (if v then word OR push_bit bitno 1 else word AND NOT (push_bit bitno 1));
     Some (bm\<lparr>ib_data := d\<rparr>) }"

definition InlineBitmap_Toggle :: "inline_bitmap \<Rightarrow> nat \<Rightarrow> inline_bitmap option" where
  "InlineBitmap_Toggle bm index = do {
     CHECK (index < ib_bit_count bm);
     word \<leftarrow> nth_opt (ib_data bm) (index div kWordBits);
     let bitno = index mod kWordBits;
     d \<leftarrow> set_opt (ib_data bm) (index div kWordBits) (word XOR push_bit bitno 1);
     Some (bm\<lparr>ib_data := d\<rparr>) }"

definition InlineBitmap_SetRange ::
    "inline_bitmap \<Rightarrow> nat \<Rightarrow> nat \<Rightarrow> bool \<Rightarrow> inline_bitmap option" where
  "InlineBitmap_SetRange bm lower_index upper_index v = do {
     CHECK (upper_index \<le> ib_bit_count bm);
     foldM (\<lambda>index bm. InlineBitmap_Set bm index v) [lower_index..<upper_index] bm }"

definition SetAllBitsToFalse :: "inline_bitmap \<Rightarrow> inline_bitmap" where
  "SetAllBitsToFalse bm = bm\<lparr>ib_data := map (\<lambda>_. 0) (ib_data bm)\<rparr>"

definition FromBitsMsbIs0 :: "bool list \<Rightarrow> inline_bitmap option" where
  "FromBitsMsbIs0 bits =
     foldM (\<lambda>i result. InlineBitmap_Set result (length bits - i - 1) (bits ! i))
       [0..<length bits] (InlineBitmap (length bits) False)"

section \<open>Bytes\<close>

definition SetByte :: "inline_bitmap \<Rightarrow> nat \<Rightarrow> 8 word \<Rightarrow> inline_bitmap option" where
  "SetByte bm byteno v = do {
     CHECK (byteno < byte_count bm);
     Some (MaskLastWord (bm\<lparr>ib_data := store_byte (ib_data bm) byteno v\<rparr>)) }"

definition GetByte :: "inline_bitmap \<Rightarrow> nat \<Rightarrow> 8 word option" where
  "GetByte bm byteno = do {
     CHECK (byteno < byte_count bm);
     Some (load_byte (ib_data bm) byteno) }"

text \<open>The bytes written to the front of the caller's buffer.\<close>

definition WriteBytesToBuffer :: "inline_bitmap \<Rightarrow> 8 word list" where
  "WriteBytesToBuffer bm = map (load_byte (ib_data bm)) [0..<nat (CeilOfRatio (int (ib_bit_count bm)) 8)]"

section \<open>Whole-bitmap operations\<close>

definition InlineBitmap_eq :: "inline_bitmap \<Rightarrow> inline_bitmap \<Rightarrow> bool option" where
  "InlineBitmap_eq a b =
     (if ib_bit_count a \<noteq> ib_bit_count b then Some False
      else do {
        r \<leftarrow> loop (\<lambda>wordno _. do {
               x \<leftarrow> nth_opt (ib_data a) wordno;
               y \<leftarrow> nth_opt (ib_data b) wordno;
               Some (if x \<noteq> y then Return False else Continue ()) }) [0..<word_count a] ();
        Some (step_result (\<lambda>_. True) r) })"

definition IsAllOnes :: "inline_bitmap \<Rightarrow> bool option" where
  "IsAllOnes bm = do {
     r \<leftarrow> loop (\<lambda>wordno _. do {
            w \<leftarrow> nth_opt (ib_data bm) wordno;
            Some (if w \<noteq> MaskForWord bm wordno then Return False else Continue ()) })
          [0..<word_count bm] ();
     Some (step_result (\<lambda>_. True) r) }"

definition IsAllZeroes :: "inline_bitmap \<Rightarrow> bool option" where
  "IsAllZeroes bm = do {
     r \<leftarrow> loop (\<lambda>wordno _. do {
            w \<leftarrow> nth_opt (ib_data bm) wordno;
            Some (if w \<noteq> 0 then Return False else Continue ()) }) [0..<word_count bm] ();
     Some (step_result (\<lambda>_. True) r) }"

definition WithSize :: "inline_bitmap \<Rightarrow> nat \<Rightarrow> bool \<Rightarrow> inline_bitmap" where
  "WithSize bm new_size new_data =
     (let new_word_size = nat (CeilOfRatio (int new_size) (int kWordBits));
          bm' =
            (if new_size > ib_bit_count bm then
               let old_wordcount = word_count bm;
                   last_wordno = old_wordcount - 1;
                   msk = MaskForWord bm last_wordno;
                   d = (if new_word_size > old_wordcount
                        then ib_data bm @ replicate (new_word_size - old_wordcount)
                                            (if new_data then NOT 0 else 0)
                        else ib_data bm);
                   d = (if ib_bit_count bm \<noteq> 0
                        then if new_data then d[last_wordno := d ! last_wordno OR NOT msk]
                             else d[last_wordno := d ! last_wordno AND msk]
                        else d)
               in \<lparr>ib_bit_count = new_size, ib_data = d\<rparr>
             else \<lparr>ib_bit_count = new_size, ib_data = take new_word_size (ib_data bm)\<rparr>)
      in MaskLastWord bm')"

text \<open>The comparison as unsigned integers: first the words one bitmap has in excess of the
  other, then the common words from the most significant one down.\<close>

definition UCmp :: "inline_bitmap \<Rightarrow> inline_bitmap \<Rightarrow> int option" where
  "UCmp a b = do {
     r \<leftarrow> loop (\<lambda>i _. do { w \<leftarrow> GetWord a i; Some (if w > 0 then Return 1 else Continue ()) })
            (rev [word_count b..<word_count a]) ();
     case r of Return v \<Rightarrow> Some v | Continue _ \<Rightarrow> do {
       r \<leftarrow> loop (\<lambda>i _. do { w \<leftarrow> GetWord b i; Some (if w > 0 then Return (- 1) else Continue ()) })
              (rev [word_count a..<word_count b]) ();
       case r of Return v \<Rightarrow> Some v | Continue _ \<Rightarrow> do {
         r \<leftarrow> loop (\<lambda>i _. do {
                my_word \<leftarrow> GetWord a i;
                other_word \<leftarrow> GetWord b i;
                Some (if my_word > other_word then Return 1
                      else if my_word < other_word then Return (- 1) else Continue ()) })
              (rev [0..<min (word_count a) (word_count b)]) ();
         Some (step_result (\<lambda>_. 0) r) } } }"

definition InlineBitmap_zip ::
    "(64 word \<Rightarrow> 64 word \<Rightarrow> 64 word) \<Rightarrow> inline_bitmap \<Rightarrow> inline_bitmap \<Rightarrow> inline_bitmap option" where
  "InlineBitmap_zip f a b = do {
     CHECK (ib_bit_count a = ib_bit_count b);
     foldM (\<lambda>i bm. do {
         x \<leftarrow> nth_opt (ib_data bm) i;
         y \<leftarrow> nth_opt (ib_data b) i;
         d \<leftarrow> set_opt (ib_data bm) i (f x y);
         Some (bm\<lparr>ib_data := d\<rparr>) }) [0..<length (ib_data a)] a }"

definition InlineBitmap_Union :: "inline_bitmap \<Rightarrow> inline_bitmap \<Rightarrow> inline_bitmap option" where
  "InlineBitmap_Union = InlineBitmap_zip (OR)"

definition InlineBitmap_Intersect :: "inline_bitmap \<Rightarrow> inline_bitmap \<Rightarrow> inline_bitmap option" where
  "InlineBitmap_Intersect = InlineBitmap_zip (AND)"

definition InlineBitmap_ToggleAll :: "inline_bitmap \<Rightarrow> inline_bitmap \<Rightarrow> inline_bitmap option" where
  "InlineBitmap_ToggleAll = InlineBitmap_zip (XOR)"

definition GetWordBitsAt :: "inline_bitmap \<Rightarrow> nat \<Rightarrow> 64 word option" where
  "GetWordBitsAt bm bit_offset = do {
     CHECK (bit_offset < ib_bit_count bm);
     let bits_off = bit_offset mod kWordBits;
     let start_word_num = bit_offset div kWordBits;
     if bits_off = 0 then GetWord bm start_word_num
     else do {
       start_word \<leftarrow> GetWord bm start_word_num;
       let low_bits = drop_bit bits_off start_word;
       if start_word_num + 1 \<ge> word_count bm then Some low_bits
       else do {
         high_word \<leftarrow> GetWord bm (start_word_num + 1);
         let high_bits = push_bit (kWordBits - bits_off) high_word;
         Some (high_bits OR low_bits) } } }"

text \<open>
  \<^verbatim>\<open>Overwrite\<close>: an unaligned first word, the whole words in between, the remaining bits.
  The two bitmaps are separate objects in the model, as the identity check demands.
\<close>

definition Overwrite_first ::
    "inline_bitmap \<Rightarrow> inline_bitmap \<Rightarrow> nat \<Rightarrow> nat \<Rightarrow> nat \<Rightarrow> (inline_bitmap \<times> nat \<times> nat \<times> nat) option" where
  "Overwrite_first bm other cnt w_offset r_offset =
     (let word_no = w_offset div kWordBits in
      if w_offset mod kWordBits \<noteq> 0 then do {
        let w_bit_offset = w_offset mod kWordBits;
        cur_word \<leftarrow> GetWordBitsAt other r_offset;
        w \<leftarrow> GetWord bm word_no;
        let low_bits = w AND Mask w_bit_offset;
        let high_bits = (if cnt + w_bit_offset \<ge> kWordBits then 0
                         else w AND NOT (Mask (w_bit_offset + cnt)));
        let written = min cnt (kWordBits - w_bit_offset);
        bm \<leftarrow> SetWord bm word_no
               (low_bits OR high_bits OR push_bit w_bit_offset (cur_word AND Mask written));
        Some (bm, cnt - written, word_no + 1, r_offset + written) }
      else Some (bm, cnt, word_no, r_offset))"

function Overwrite_words ::
    "inline_bitmap \<Rightarrow> inline_bitmap \<Rightarrow> nat \<Rightarrow> nat \<Rightarrow> nat \<Rightarrow> (inline_bitmap \<times> nat \<times> nat \<times> nat) option" where
  "Overwrite_words bm other cnt word_no r_offset =
     (if cnt \<ge> kWordBits then do {
        w \<leftarrow> GetWordBitsAt other r_offset;
        bm \<leftarrow> SetWord bm word_no w;
        Overwrite_words bm other (cnt - kWordBits) (word_no + 1) (r_offset + kWordBits) }
      else Some (bm, cnt, word_no, r_offset))"
  by pat_completeness auto
termination
  by (relation "measure (\<lambda>(bm, other, cnt, word_no, r_offset). cnt)") auto

definition Overwrite_last ::
    "inline_bitmap \<Rightarrow> inline_bitmap \<Rightarrow> nat \<Rightarrow> nat \<Rightarrow> nat \<Rightarrow> inline_bitmap option" where
  "Overwrite_last bm other cnt word_no r_offset =
     (if cnt > 0 then do {
        w \<leftarrow> GetWord bm word_no;
        let existing_word_high = w AND NOT (Mask cnt);
        x \<leftarrow> GetWordBitsAt other r_offset;
        SetWord bm word_no ((x AND Mask cnt) OR existing_word_high) }
      else Some bm)"

definition Overwrite ::
    "inline_bitmap \<Rightarrow> inline_bitmap \<Rightarrow> nat \<Rightarrow> nat \<Rightarrow> nat \<Rightarrow> inline_bitmap option" where
  "Overwrite bm other cnt w_offset r_offset =
     (if cnt = 0 then Some bm
      else do {
        CHECK (w_offset + cnt \<le> ib_bit_count bm);
        CHECK (r_offset + cnt \<le> ib_bit_count other);
        (bm, cnt, word_no, r_offset) \<leftarrow> Overwrite_first bm other cnt w_offset r_offset;
        (bm, cnt, word_no, r_offset) \<leftarrow> Overwrite_words bm other cnt word_no r_offset;
        Overwrite_last bm other cnt word_no r_offset })"

end
