(* ===== verification/Bitmap_Spec.thy ===== *)
theory Bitmap_Spec
  imports Inline_Bitmap
begin

text \<open>
  What the bitmap operations compute. \<open>bm_repr bm n f\<close> says that the words of \<open>bm\<close> hold the
  bits \<open>f 0, \<dots>, f (n - 1)\<close> and zeros above them; \<open>mkBitmap n v\<close> is the bitmap whose bits are
  those of the number \<open>v\<close>, and \<open>wf_bitmap\<close> the class invariant (right number of words,
  padding bits zero). Every operation is related to \<open>bm_repr\<close> first and then stated as a
  rewrite rule on \<open>mkBitmap\<close>, which is all the components above use.
\<close>

declare Overwrite_words.simps [simp del]

abbreviation nwords :: "nat \<Rightarrow> nat" where
  "nwords n \<equiv> (n + 63) div 64"

abbreviation nbytes :: "nat \<Rightarrow> nat" where
  "nbytes n \<equiv> (n + 7) div 8"

lemma CeilOfRatio_words [simp]:
  "nat (CeilOfRatio (int n) 64) = nwords n" "nat (CeilOfRatio (int n) 8) = nbytes n"
  using CeilOfRatio_nat[of 64 n] CeilOfRatio_nat[of 8 n] by simp_all

definition words_bit :: "64 word list \<Rightarrow> nat \<Rightarrow> bool" where
  "words_bit ws i = (i div 64 < length ws \<and> bit (ws ! (i div 64)) (i mod 64))"

definition bm_repr :: "inline_bitmap \<Rightarrow> nat \<Rightarrow> (nat \<Rightarrow> bool) \<Rightarrow> bool" where
  "bm_repr bm n f \<longleftrightarrow>
     ib_bit_count bm = n \<and> length (ib_data bm) = nwords n \<and>
     (\<forall>i. words_bit (ib_data bm) i = (i < n \<and> f i))"

definition wf_bitmap :: "inline_bitmap \<Rightarrow> bool" where
  "wf_bitmap bm \<longleftrightarrow>
     length (ib_data bm) = nwords (ib_bit_count bm) \<and> MaskLastWord bm = bm"

definition mkBitmap :: "nat \<Rightarrow> nat \<Rightarrow> inline_bitmap" where
  "mkBitmap n v =
     \<lparr>ib_bit_count = n,
      ib_data = map (\<lambda>k. word_of_nat (drop_bit (64 * k) (take_bit n v))) [0..<nwords n]\<rparr>"

definition bm_val :: "inline_bitmap \<Rightarrow> nat" where
  "bm_val bm = horner_sum of_bool 2 (map (words_bit (ib_data bm)) [0..<ib_bit_count bm])"

section \<open>Representation\<close>

lemma nwords_lt: "i < n \<Longrightarrow> i div 64 < nwords n"
  by linarith

lemma words_bit_update:
  "k < length ws \<Longrightarrow>
   words_bit (ws[k := w]) i = (if i div 64 = k then bit w (i mod 64) else words_bit ws i)"
  by (auto simp: words_bit_def nth_list_update)

lemma words_bit_ext:
  assumes "length xs = length ys" and "\<And>i. words_bit xs i = words_bit ys i"
  shows "xs = ys"
proof (rule nth_equalityI)
  fix k assume k: "k < length xs"
  show "xs ! k = ys ! k"
  proof (rule bit_word_eqI)
    fix j assume "j < LENGTH(64)"
    then have "(64 * k + j) div 64 = k" "(64 * k + j) mod 64 = j" by simp_all
    then show "bit (xs ! k) j = bit (ys ! k) j"
      using assms k by (metis words_bit_def)
  qed
qed (rule assms)

lemma bm_repr_unique:
  assumes "bm_repr a n f" "bm_repr b n g" "\<And>i. i < n \<Longrightarrow> f i = g i"
  shows "a = b"
  using assms by (auto simp: bm_repr_def intro!: inline_bitmap.equality words_bit_ext)

lemma bm_repr_cong:
  "bm_repr bm n f \<Longrightarrow> (\<And>i. i < n \<Longrightarrow> f i = g i) \<Longrightarrow> bm_repr bm n g"
  by (auto simp: bm_repr_def)

lemma bm_repr_mkBitmap: "bm_repr (mkBitmap n v) n (bit v)"
proof -
  have "words_bit (ib_data (mkBitmap n v)) i = (i < n \<and> bit v i)" for i
  proof (cases "i < n")
    case True
    then show ?thesis using nwords_lt[OF True]
      by (simp add: words_bit_def mkBitmap_def bit_simps)
  next
    case False
    then show ?thesis
      by (auto simp: words_bit_def mkBitmap_def bit_simps)
  qed
  then show ?thesis by (simp add: bm_repr_def mkBitmap_def)
qed

lemma mkBitmap_eqI:
  "bm_repr bm n f \<Longrightarrow> (\<And>i. i < n \<Longrightarrow> f i = bit v i) \<Longrightarrow> bm = mkBitmap n v"
  using bm_repr_unique bm_repr_mkBitmap by blast

lemma bm_repr_val:
  assumes "bm_repr bm n f"
  shows "bm = mkBitmap n (bm_val bm)"
  using assms
  by (rule mkBitmap_eqI) (use assms in \<open>auto simp: bm_val_def bit_horner_sum_bit_iff bm_repr_def\<close>)

lemma last_word_index:
  assumes "\<not> k + 1 < nwords n" "n mod 64 \<noteq> 0" "k < nwords n"
  shows "k = n div 64"
  using assms mult_div_mod_eq[of 64 n] by linarith

lemma full_word_bits:
  assumes "k + 1 < nwords n \<or> n mod 64 = 0" "k < nwords n" "j < 64"
  shows "64 * k + j < n"
proof (cases "n mod 64 = 0")
  case True
  then obtain q where q: "n = 64 * q" by (meson dvd_eq_mod_eq_0 dvdE)
  then show ?thesis using assms by simp
next
  case False
  then show ?thesis using assms by linarith
qed

lemma bit_MaskForWord:
  assumes "length (ib_data bm) = nwords (ib_bit_count bm)" "k < nwords (ib_bit_count bm)"
  shows "bit (MaskForWord bm k) j = (j < 64 \<and> 64 * k + j < ib_bit_count bm)"
proof (cases "k + 1 < nwords (ib_bit_count bm) \<or> ib_bit_count bm mod 64 = 0")
  case True
  then show ?thesis using assms full_word_bits[OF True assms(2)]
    by (auto simp: MaskForWord_def word_count_def Let_def)
next
  case False
  let ?n = "ib_bit_count bm"
  have "?n mod 64 < 64" by simp
  moreover have "64 * k + ?n mod 64 = ?n"
    using False last_word_index[of k ?n] assms(2) mult_div_mod_eq[of 64 ?n] by simp
  ultimately show ?thesis using False assms
    by (auto simp: MaskForWord_def word_count_def Let_def)
qed

lemma words_bit_MaskLastWord:
  assumes "length (ib_data bm) = nwords (ib_bit_count bm)"
  shows "words_bit (ib_data (MaskLastWord bm)) i = (i < ib_bit_count bm \<and> words_bit (ib_data bm) i)"
proof (cases "ib_bit_count bm = 0")
  case True
  then show ?thesis using assms by (simp add: MaskLastWord_def word_count_def words_bit_def)
next
  case False
  let ?n = "ib_bit_count bm" and ?k = "nwords (ib_bit_count bm) - 1"
  have k: "?k < nwords ?n" using False by linarith
  have upd: "words_bit (ib_data (MaskLastWord bm)) i =
    (if i div 64 = ?k then bit (ib_data bm ! ?k) (i mod 64) \<and> bit (MaskForWord bm ?k) (i mod 64)
     else words_bit (ib_data bm) i)"
  proof -
    have "nwords ?n \<noteq> 0" using k by linarith
    then show ?thesis using k assms
      by (simp add: MaskLastWord_def word_count_def Let_def words_bit_update bit_and_iff)
  qed
  show ?thesis
  proof (cases "i div 64 = ?k")
    case True
    then have "64 * ?k + i mod 64 = i" using mult_div_mod_eq[of 64 i] by simp
    then show ?thesis using True k assms upd bit_MaskForWord[OF assms k, of "i mod 64"]
      by (auto simp: words_bit_def)
  next
    case ne: False
    then have "i < ?n" if "i div 64 < nwords ?n" using that by linarith
    then show ?thesis using ne upd assms by (auto simp: words_bit_def)
  qed
qed

lemma MaskLastWord_simps [simp]:
  "ib_bit_count (MaskLastWord bm) = ib_bit_count bm"
  "length (ib_data (MaskLastWord bm)) = length (ib_data bm)"
  by (simp_all add: MaskLastWord_def Let_def)

lemma bm_repr_MaskLastWord:
  assumes "length (ib_data bm) = nwords (ib_bit_count bm)"
    and "\<And>i. i < ib_bit_count bm \<Longrightarrow> words_bit (ib_data bm) i = f i"
  shows "bm_repr (MaskLastWord bm) (ib_bit_count bm) f"
  using assms by (auto simp: bm_repr_def words_bit_MaskLastWord)

text \<open>The class invariant describes exactly the canonical bitmaps.\<close>

lemma wf_bitmap_iff_repr: "wf_bitmap bm = (\<exists>f. bm_repr bm (ib_bit_count bm) f)"
proof
  assume "wf_bitmap bm"
  then have len: "length (ib_data bm) = nwords (ib_bit_count bm)" and fix_: "MaskLastWord bm = bm"
    by (simp_all add: wf_bitmap_def)
  have "bm_repr (MaskLastWord bm) (ib_bit_count bm) (words_bit (ib_data bm))"
    by (rule bm_repr_MaskLastWord[OF len]) simp
  then show "\<exists>f. bm_repr bm (ib_bit_count bm) f" by (auto simp: fix_)
next
  assume "\<exists>f. bm_repr bm (ib_bit_count bm) f"
  then obtain f where f: "bm_repr bm (ib_bit_count bm) f" ..
  then have "bm_repr (MaskLastWord bm) (ib_bit_count bm) f"
    by (intro bm_repr_MaskLastWord) (auto simp: bm_repr_def)
  then have "MaskLastWord bm = bm" using f by (rule bm_repr_unique) simp
  then show "wf_bitmap bm" using f by (simp add: wf_bitmap_def bm_repr_def)
qed

lemma wf_bitmap_mkBitmap [simp]: "wf_bitmap (mkBitmap n v)"
  using bm_repr_mkBitmap by (auto simp: wf_bitmap_iff_repr bm_repr_def)

lemma ib_bit_count_mkBitmap [simp]: "ib_bit_count (mkBitmap n v) = n"
  by (simp add: mkBitmap_def)

lemma word_count_mkBitmap [simp]: "word_count (mkBitmap n v) = nwords n"
  by (simp add: mkBitmap_def word_count_def)

lemma words_bit_mkBitmap [simp]: "words_bit (ib_data (mkBitmap n v)) i = (i < n \<and> bit v i)"
  using bm_repr_mkBitmap[of n v] by (simp add: bm_repr_def)

lemma bm_val_mkBitmap [simp]: "bm_val (mkBitmap n v) = take_bit n v"
  by (rule bit_eqI) (auto simp: bm_val_def bit_horner_sum_bit_iff bit_take_bit_iff)

lemma mkBitmap_take_bit [simp]: "mkBitmap n (take_bit n v) = mkBitmap n v"
  by (simp add: mkBitmap_def)

lemma mkBitmap_eq_iff: "mkBitmap n v = mkBitmap m w \<longleftrightarrow> n = m \<and> take_bit n v = take_bit n w"
  by (metis bm_val_mkBitmap ib_bit_count_mkBitmap mkBitmap_take_bit)

lemma wf_bitmap_val: "wf_bitmap bm \<Longrightarrow> mkBitmap (ib_bit_count bm) (bm_val bm) = bm"
  using bm_repr_val by (metis wf_bitmap_iff_repr)

lemma bm_val_less: "bm_val bm < 2 ^ ib_bit_count bm"
  by (auto simp: bm_val_def nat_lt_exp_iff_bits bit_horner_sum_bit_iff)

lemma wf_bitmapE:
  assumes "wf_bitmap bm"
  obtains n v where "bm = mkBitmap n v" "v < 2 ^ n"
  using assms wf_bitmap_val bm_val_less by metis

section \<open>Operations on the representation\<close>

lemma bm_repr_InlineBitmap: "bm_repr (InlineBitmap n fill) n (\<lambda>_. fill)"
proof (cases fill)
  case True
  let ?bm = "\<lparr>ib_bit_count = n, ib_data = replicate (nwords n) (NOT 0)\<rparr>"
  have "bm_repr (MaskLastWord ?bm) (ib_bit_count ?bm) (\<lambda>_. True)"
    by (rule bm_repr_MaskLastWord) (auto simp: words_bit_def nwords_lt bit_not_iff)
  then show ?thesis using True by (simp add: InlineBitmap_def Let_def)
next
  case False
  then show ?thesis by (auto simp: InlineBitmap_def Let_def bm_repr_def words_bit_def)
qed

lemma bm_reprD:
  assumes "bm_repr bm n f"
  shows "ib_bit_count bm = n" "length (ib_data bm) = nwords n" "word_count bm = nwords n"
    "words_bit (ib_data bm) i = (i < n \<and> f i)"
  using assms by (simp_all add: bm_repr_def word_count_def)

lemma bm_repr_word:
  assumes "bm_repr bm n f" "k < nwords n" "j < 64"
  shows "bit (ib_data bm ! k) j = (64 * k + j < n \<and> f (64 * k + j))"
proof -
  have "(64 * k + j) div 64 = k" "(64 * k + j) mod 64 = j" using assms(3) by simp_all
  then have "bit (ib_data bm ! k) j = words_bit (ib_data bm) (64 * k + j)"
    using assms(2) by (simp add: words_bit_def bm_reprD(2)[OF assms(1)])
  then show ?thesis by (simp add: bm_reprD(4)[OF assms(1)])
qed

lemma bm_repr_update_word:
  assumes repr: "bm_repr bm n f" and k: "k < nwords n"
    and w: "\<And>j. j < 64 \<Longrightarrow> bit w j = (64 * k + j < n \<and> g (64 * k + j))"
    and rest: "\<And>i. i < n \<Longrightarrow> i div 64 \<noteq> k \<Longrightarrow> g i = f i"
  shows "bm_repr (bm\<lparr>ib_data := (ib_data bm)[k := w]\<rparr>) n g"
proof -
  have "words_bit ((ib_data bm)[k := w]) i = (i < n \<and> g i)" for i
  proof (cases "i div 64 = k")
    case True
    then have "64 * k + i mod 64 = i" using mult_div_mod_eq[of 64 i] by simp
    then show ?thesis using True k w[of "i mod 64"]
      by (simp add: words_bit_update bm_reprD(2)[OF repr])
  next
    case False
    then show ?thesis using k rest[of i]
      by (auto simp: words_bit_update bm_reprD(2)[OF repr] bm_reprD(4)[OF repr])
  qed
  then show ?thesis using repr by (simp add: bm_repr_def)
qed

lemma bit_MaskForWord_repr:
  "bm_repr bm n f \<Longrightarrow> k < nwords n \<Longrightarrow> bit (MaskForWord bm k) j = (j < 64 \<and> 64 * k + j < n)"
  using bit_MaskForWord[of bm k j] by (simp add: bm_repr_def)

lemma bm_repr_FromWord:
  "bm_repr (FromWord w n fill) n (\<lambda>i. if i < 64 then bit w i else fill)"
proof (cases "n = 0")
  case True
  then show ?thesis
    using bm_repr_InlineBitmap[of n fill] bm_repr_cong by (fastforce simp: FromWord_def Let_def)
next
  case False
  then have "0 < nwords n" by linarith
  then have "bm_repr (InlineBitmap n fill
      \<lparr>ib_data := (ib_data (InlineBitmap n fill))[0 := w AND MaskForWord (InlineBitmap n fill) 0]\<rparr>)
      n (\<lambda>i. if i < 64 then bit w i else fill)"
    by (rule bm_repr_update_word[OF bm_repr_InlineBitmap])
       (auto simp: bit_and_iff bit_MaskForWord_repr[OF bm_repr_InlineBitmap \<open>0 < nwords n\<close>])
  then show ?thesis using False by (simp add: FromWord_def Let_def)
qed

lemma GetWord_repr:
  assumes "bm_repr bm n f" "k < nwords n"
  shows "\<exists>w. GetWord bm k = Some w \<and> (\<forall>j<64. bit w j = (64 * k + j < n \<and> f (64 * k + j)))"
  using assms(2) bm_repr_word[OF assms]
  by (auto simp: GetWord_def bm_reprD[OF assms(1)])

lemma SetWord_repr:
  assumes "bm_repr bm n f" "k < nwords n"
    and "\<And>j. j < 64 \<Longrightarrow> 64 * k + j < n \<Longrightarrow> bit w j = g (64 * k + j)"
    and "\<And>i. i < n \<Longrightarrow> i div 64 \<noteq> k \<Longrightarrow> g i = f i"
  shows "\<exists>bm'. SetWord bm k w = Some bm' \<and> bm_repr bm' n g"
proof -
  have "bm_repr (bm\<lparr>ib_data := (ib_data bm)[k := w AND MaskForWord bm k]\<rparr>) n g"
    using assms
    by (intro bm_repr_update_word) (auto simp: bit_and_iff bit_MaskForWord_repr[OF assms(1,2)])
  then show ?thesis using assms(2) by (simp add: SetWord_def bm_reprD(2)[OF assms(1)])
qed

lemma InlineBitmap_Get_repr [simp]:
  assumes "bm_repr bm n f" "i < n"
  shows "InlineBitmap_Get bm i = Some (f i)"
  using nwords_lt[OF assms(2)] bm_repr_word[OF assms(1) nwords_lt[OF assms(2)], of "i mod 64"] assms(2)
  by (simp add: InlineBitmap_Get_def bm_reprD[OF assms(1)] drop_bit_and_1_iff)

lemma word_position: "j < 64 \<Longrightarrow> (64 * (k div 64) + j = k) = (j = k mod (64::nat))"
  by (metis add_left_cancel mult_div_mod_eq)

lemma bm_repr_update_bit:
  assumes "bm_repr bm n f" "k < n"
    and "\<And>j. j < 64 \<Longrightarrow> bit w j = (if j = k mod 64 then v else bit (ib_data bm ! (k div 64)) j)"
  shows "bm_repr (bm\<lparr>ib_data := (ib_data bm)[k div 64 := w]\<rparr>) n (f(k := v))"
  using assms(1) nwords_lt[OF assms(2)]
  by (rule bm_repr_update_word)
     (use assms(2,3) in \<open>auto simp: bm_repr_word[OF assms(1) nwords_lt[OF assms(2)]] word_position\<close>)

lemma InlineBitmap_Set_repr:
  assumes "bm_repr bm n f" "k < n"
  shows "\<exists>bm'. InlineBitmap_Set bm k v = Some bm' \<and> bm_repr bm' n (f(k := v))"
proof -
  let ?w = "ib_data bm ! (k div 64)" and ?b = "push_bit (k mod 64) 1"
  let ?u = "if v then ?w OR ?b else ?w AND NOT ?b"
  have "bm_repr (bm\<lparr>ib_data := (ib_data bm)[k div 64 := ?u]\<rparr>) n (f(k := v))"
    using assms by (rule bm_repr_update_bit) (auto simp: bit_simps)
  then show ?thesis
    using assms(2) nwords_lt[OF assms(2)]
    by (simp add: InlineBitmap_Set_def bm_reprD[OF assms(1)] Let_def)
qed

lemma InlineBitmap_Toggle_repr:
  assumes "bm_repr bm n f" "k < n"
  shows "\<exists>bm'. InlineBitmap_Toggle bm k = Some bm' \<and> bm_repr bm' n (f(k := \<not> f k))"
proof -
  let ?w = "ib_data bm ! (k div 64)" and ?b = "push_bit (k mod 64) 1"
  have "bm_repr (bm\<lparr>ib_data := (ib_data bm)[k div 64 := ?w XOR ?b]\<rparr>) n (f(k := \<not> f k))"
    using assms
    by (rule bm_repr_update_bit)
       (use assms(2) bm_repr_word[OF assms(1) nwords_lt[OF assms(2)], of "k mod 64"]
        in \<open>auto simp: bit_simps\<close>)
  then show ?thesis
    using assms(2) nwords_lt[OF assms(2)]
    by (simp add: InlineBitmap_Toggle_def bm_reprD[OF assms(1)] Let_def)
qed

lemma GetWordBitsAt_repr:
  assumes repr: "bm_repr bm n f" and off: "p < n"
  shows "\<exists>w. GetWordBitsAt bm p = Some w \<and> (\<forall>j<64. bit w j = (p + j < n \<and> f (p + j)))"
proof -
  define q s where "q = p mod 64" and "s = p div 64"
  have p: "p = 64 * s + q" "q < 64" by (simp_all add: q_def s_def)
  have s: "s < nwords n" using nwords_lt[OF off] by (simp add: s_def)
  obtain w0 where w0: "GetWord bm s = Some w0"
    "\<And>j. j < 64 \<Longrightarrow> bit w0 j = (64 * s + j < n \<and> f (64 * s + j))"
    using GetWord_repr[OF repr s] by blast
  have low: "bit (drop_bit q w0) j = (q + j < 64 \<and> p + j < n \<and> f (p + j))" for j
    using w0(2)[of "q + j"] bit_imp_le_length[of w0 "q + j"] p
    by (auto simp: bit_drop_bit_eq add.assoc)
  show ?thesis
  proof (cases "q = 0")
    case True
    then show ?thesis using off w0 p
      by (simp add: GetWordBitsAt_def bm_reprD[OF repr] Let_def flip: q_def s_def)
  next
    case q: False
    show ?thesis
    proof (cases "s + 1 < nwords n")
      case False
      then have "\<not> p + j < n" if "64 \<le> q + j" for j using that p by linarith
      then have "bit (drop_bit q w0) j = (p + j < n \<and> f (p + j))" for j
        using low[of j] by (cases "q + j < 64") auto
      then show ?thesis using False q off w0(1)
        by (simp add: GetWordBitsAt_def bm_reprD[OF repr] Let_def flip: q_def s_def)
    next
      case True
      obtain w1 where w1: "GetWord bm (s + 1) = Some w1"
        "\<And>j. j < 64 \<Longrightarrow> bit w1 j = (64 * (s + 1) + j < n \<and> f (64 * (s + 1) + j))"
        using GetWord_repr[OF repr True] by blast
      have high: "bit (push_bit (64 - q) w1) j = (64 \<le> q + j \<and> p + j < n \<and> f (p + j))"
        if "j < 64" for j
      proof (cases "64 \<le> q + j")
        case le: True
        then have eq: "64 * (s + 1) + (j - (64 - q)) = p + j" using p by simp
        have "bit w1 (j - (64 - q)) = (p + j < n \<and> f (p + j))"
          using w1(2)[of "j - (64 - q)"] that p(2) unfolding eq by simp
        then show ?thesis using le that p(2) by (auto simp: bit_push_bit_iff)
      next
        case False
        then show ?thesis by (auto simp: bit_push_bit_iff)
      qed
      have "bit (push_bit (64 - q) w1 OR drop_bit q w0) j = (p + j < n \<and> f (p + j))"
        if "j < 64" for j
        using low[of j] high[OF that] by (auto simp: bit_or_iff)
      then show ?thesis using True q off w0(1) w1(1)
        by (simp add: GetWordBitsAt_def bm_reprD[OF repr] Let_def flip: q_def s_def)
    qed
  qed
qed

text \<open>Bits \<open>w, \<dots>, w + cnt - 1\<close> of \<open>f\<close> replaced by the bits of \<open>g\<close> from \<open>r\<close> on.\<close>

definition overlay :: "(nat \<Rightarrow> bool) \<Rightarrow> (nat \<Rightarrow> bool) \<Rightarrow> nat \<Rightarrow> nat \<Rightarrow> nat \<Rightarrow> nat \<Rightarrow> bool" where
  "overlay f g cnt w r i = (if w \<le> i \<and> i < w + cnt then g (r + (i - w)) else f i)"

lemma overlay_overlay:
  "overlay (overlay f g c w r) g d (w + c) (r + c) = overlay f g (c + d) w r"
  by (auto simp: overlay_def fun_eq_iff)

lemma overlay_0 [simp]: "overlay f g 0 w r = f"
  by (auto simp: overlay_def fun_eq_iff)

lemma Overwrite_first_repr:
  assumes "bm_repr bm n f" "bm_repr other m g" "w + c \<le> n" "r + c \<le> m" "0 < c"
  shows "\<exists>bm' c1 k. Overwrite_first bm other c w r = Some (bm', c - c1, k, r + c1) \<and>
    c1 \<le> c \<and> (c1 < c \<longrightarrow> w + c1 = 64 * k) \<and> bm_repr bm' n (overlay f g c1 w r)"
proof (cases "w mod 64 = 0")
  case True
  then have "Overwrite_first bm other c w r = Some (bm, c - 0, w div 64, r + 0)"
    by (simp add: Overwrite_first_def)
  moreover have "w = 64 * (w div 64)" using True mult_div_mod_eq[of 64 w] by simp
  ultimately show ?thesis using assms(1) by (intro exI[of _ bm] exI[of _ 0] exI[of _ "w div 64"]) auto
next
  case False
  define q k d where "q = w mod 64" and "k = w div 64" and "d = min c (64 - q)"
  have wq: "w = 64 * k + q" "q < 64" "0 < d" "q + d \<le> 64" "d \<le> c"
    using assms(5) by (simp_all add: q_def k_def d_def)
  have k: "k < nwords n" using assms(3,5) wq by linarith
  obtain x where x: "GetWordBitsAt other r = Some x"
    "\<And>j. j < 64 \<Longrightarrow> bit x j = (r + j < m \<and> g (r + j))"
    using GetWordBitsAt_repr[OF assms(2), of r] assms(4,5) by auto
  obtain v where v: "GetWord bm k = Some v"
    "\<And>j. j < 64 \<Longrightarrow> bit v j = (64 * k + j < n \<and> f (64 * k + j))"
    using GetWord_repr[OF assms(1) k] by blast
  let ?v = "v AND Mask q OR (if c + q \<ge> 64 then 0 else v AND NOT (Mask (q + c)))
    OR push_bit q (x AND Mask d)"
  have "\<exists>bm'. SetWord bm k ?v = Some bm' \<and> bm_repr bm' n (overlay f g d w r)"
  proof (rule SetWord_repr[OF assms(1) k])
    fix j :: nat assume j: "j < 64" "64 * k + j < n"
    show "bit ?v j = overlay f g d w r (64 * k + j)"
      using j wq assms(4) v(2)[OF j(1)] x(2)[of "j - q"] by (auto simp: overlay_def bit_simps d_def)
  next
    fix i :: nat assume "i < n" "i div 64 \<noteq> k"
    then have "\<not> (w \<le> i \<and> i < w + d)" using wq by linarith
    then show "overlay f g d w r i = f i" by (auto simp: overlay_def)
  qed
  then obtain bm' where "SetWord bm k ?v = Some bm'" "bm_repr bm' n (overlay f g d w r)" by blast
  moreover have "w + d = 64 * (k + 1)" if "d < c" using that wq by (auto simp: d_def)
  ultimately show ?thesis using False x(1) v(1) wq(5)
    by (intro exI[of _ bm'] exI[of _ d] exI[of _ "k + 1"])
       (simp add: Overwrite_first_def Let_def d_def flip: q_def k_def)
qed

lemma Overwrite_words_repr:
  assumes "bm_repr bm n f" "bm_repr other m g" "64 * k + c \<le> n" "r + c \<le> m"
  shows "\<exists>bm'. Overwrite_words bm other c k r =
      Some (bm', c mod 64, k + c div 64, r + 64 * (c div 64)) \<and>
    bm_repr bm' n (overlay f g (64 * (c div 64)) (64 * k) r)"
  using assms
proof (induction bm other c k r arbitrary: f rule: Overwrite_words.induct)
  case (1 bm other c k r)
  show ?case
  proof (cases "64 \<le> c")
    case True
    have k: "k < nwords n" using 1(4) True by linarith
    obtain x where x: "GetWordBitsAt other r = Some x"
      "\<And>j. j < 64 \<Longrightarrow> bit x j = (r + j < m \<and> g (r + j))"
      using GetWordBitsAt_repr[OF 1(3), of r] 1(5) True by auto
    have "\<exists>bm'. SetWord bm k x = Some bm' \<and> bm_repr bm' n (overlay f g 64 (64 * k) r)"
      using x(2) 1(5) True
      by (intro SetWord_repr[OF 1(2) k]) (auto simp: overlay_def)
    then obtain bm1 where bm1: "SetWord bm k x = Some bm1"
      "bm_repr bm1 n (overlay f g 64 (64 * k) r)" by blast
    have "\<exists>bm'. Overwrite_words bm1 other (c - 64) (k + 1) (r + 64) =
        Some (bm', (c - 64) mod 64, k + 1 + (c - 64) div 64, r + 64 + 64 * ((c - 64) div 64)) \<and>
      bm_repr bm' n (overlay (overlay f g 64 (64 * k) r) g (64 * ((c - 64) div 64)) (64 * (k + 1)) (r + 64))"
      using 1(1)[OF True x(1) bm1(1) bm1(2) 1(3)] 1(4,5) True by simp
    moreover have "overlay (overlay f g 64 (64 * k) r) g (64 * ((c - 64) div 64)) (64 * (k + 1)) (r + 64)
        = overlay f g (64 * (c div 64)) (64 * k) r"
      using overlay_overlay[of f g 64 "64 * k" r "64 * ((c - 64) div 64)"] True
      by (simp add: le_div_geq[of 64 c] algebra_simps)
    ultimately show ?thesis using True x(1) bm1(1)
      by (subst Overwrite_words.simps) (auto simp: le_div_geq[of 64 c] le_mod_geq[of 64 c])
  next
    case False
    then have "overlay f g (64 * (c div 64)) (64 * k) r = f" by (auto simp: overlay_def fun_eq_iff)
    then show ?thesis using False 1(2) by (subst Overwrite_words.simps) simp
  qed
qed

lemma Overwrite_last_repr:
  assumes "bm_repr bm n f" "bm_repr other m g" "64 * k + c \<le> n" "r + c \<le> m" "c < 64"
  shows "\<exists>bm'. Overwrite_last bm other c k r = Some bm' \<and> bm_repr bm' n (overlay f g c (64 * k) r)"
proof (cases "c = 0")
  case True
  then show ?thesis using assms(1) by (simp add: Overwrite_last_def)
next
  case False
  have k: "k < nwords n" using assms(3) False by linarith
  obtain x where x: "GetWordBitsAt other r = Some x"
    "\<And>j. j < 64 \<Longrightarrow> bit x j = (r + j < m \<and> g (r + j))"
    using GetWordBitsAt_repr[OF assms(2), of r] assms(4) False by auto
  obtain v where v: "GetWord bm k = Some v"
    "\<And>j. j < 64 \<Longrightarrow> bit v j = (64 * k + j < n \<and> f (64 * k + j))"
    using GetWord_repr[OF assms(1) k] by blast
  have "\<exists>bm'. SetWord bm k ((x AND Mask c) OR (v AND NOT (Mask c))) = Some bm' \<and>
    bm_repr bm' n (overlay f g c (64 * k) r)"
    using assms(4,5) v(2) x(2)
    by (intro SetWord_repr[OF assms(1) k]) (auto simp: overlay_def bit_simps)
  then show ?thesis using False x(1) v(1) by (simp add: Overwrite_last_def Let_def)
qed

lemma Overwrite_repr:
  assumes bm: "bm_repr bm n f" and other: "bm_repr other m g" and w: "w + c \<le> n" and r: "r + c \<le> m"
  shows "\<exists>bm'. Overwrite bm other c w r = Some bm' \<and> bm_repr bm' n (overlay f g c w r)"
proof (cases "c = 0")
  case True
  then show ?thesis using bm by (simp add: Overwrite_def)
next
  case c: False
  obtain bm1 c1 k where 1: "Overwrite_first bm other c w r = Some (bm1, c - c1, k, r + c1)"
    "c1 \<le> c" "c1 < c \<Longrightarrow> w + c1 = 64 * k" "bm_repr bm1 n (overlay f g c1 w r)"
    using Overwrite_first_repr[OF bm other w r] c by blast
  show ?thesis
  proof (cases "c1 < c")
    case False
    then have "c1 = c" using 1(2) by simp
    then show ?thesis using 1 c w r
      by (simp add: Overwrite_def bm_reprD(1)[OF bm] bm_reprD(1)[OF other] Overwrite_words.simps
          Overwrite_last_def)
  next
    case True
    let ?d = "c - c1"
    have wk: "w + c1 = 64 * k" using 1(3) True by simp
    have bounds: "64 * k + ?d \<le> n" "r + c1 + ?d \<le> m" using True wk w r by linarith+
    obtain bm2 where 2: "Overwrite_words bm1 other ?d k (r + c1) =
        Some (bm2, ?d mod 64, k + ?d div 64, r + c1 + 64 * (?d div 64))"
      "bm_repr bm2 n (overlay (overlay f g c1 w r) g (64 * (?d div 64)) (64 * k) (r + c1))"
      using Overwrite_words_repr[OF 1(4) other bounds] by auto
    have 2: "Overwrite_words bm1 other ?d k (r + c1) =
        Some (bm2, ?d mod 64, k + ?d div 64, r + (c1 + 64 * (?d div 64)))"
      "bm_repr bm2 n (overlay f g (c1 + 64 * (?d div 64)) w r)"
      using 2 overlay_overlay[of f g c1 w r] wk by (simp_all add: add.assoc)
    have e: "?d mod 64 + 64 * (?d div 64) = ?d" "64 * (k + ?d div 64) = w + (c1 + 64 * (?d div 64))"
      using wk by simp_all
    obtain bm3 where 3: "Overwrite_last bm2 other (?d mod 64) (k + ?d div 64) (r + (c1 + 64 * (?d div 64))) = Some bm3"
      "bm_repr bm3 n (overlay (overlay f g (c1 + 64 * (?d div 64)) w r) g (?d mod 64)
         (w + (c1 + 64 * (?d div 64))) (r + (c1 + 64 * (?d div 64))))"
      using Overwrite_last_repr[OF 2(2) other, of "k + ?d div 64" "?d mod 64" "r + (c1 + 64 * (?d div 64))"]
        e w r 1(2) by (auto simp: add.assoc)
    have "c1 + 64 * (?d div 64) + ?d mod 64 = c" using e 1(2) by linarith
    then have "bm_repr bm3 n (overlay f g c w r)" using 3(2) by (simp add: overlay_overlay)
    then show ?thesis using c w r 1(1) 2(1) 3(1)
      by (simp add: Overwrite_def bm_reprD(1)[OF bm] bm_reprD(1)[OF other])
  qed
qed

end
