(* ===== verification/Bitmap_Rules.thy ===== *)
theory Bitmap_Rules
  imports Bitmap_Spec
begin

text \<open>
  The bitmap operations as rewrite rules over \<open>mkBitmap\<close> (the collection \<open>bm_spec\<close>): what
  each computes on the number the bitmap holds, and that none of its CHECKs fails.
\<close>

definition nat_of_bits :: "nat \<Rightarrow> (nat \<Rightarrow> bool) \<Rightarrow> nat" where
  "nat_of_bits n f = horner_sum of_bool 2 (map f [0..<n])"

lemma bit_nat_of_bits [simp]: "bit (nat_of_bits n f) i = (i < n \<and> f i)"
  by (auto simp: nat_of_bits_def bit_horner_sum_bit_iff)

lemma nat_of_bits_less: "nat_of_bits n f < 2 ^ n"
  by (simp add: nat_lt_exp_iff_bits)

lemma take_bit_nat_of_bits [simp]: "take_bit n (nat_of_bits n f) = nat_of_bits n f"
  by (simp add: take_bit_nat_eq_self_iff nat_of_bits_less)

lemma nat_of_bits_bit [simp]: "nat_of_bits n (bit v) = take_bit n v"
  by (rule bit_eqI) (auto simp: bit_take_bit_iff)

lemma nat_of_bits_cong: "(\<And>i. i < n \<Longrightarrow> f i = g i) \<Longrightarrow> nat_of_bits n f = nat_of_bits n g"
  by (rule bit_eqI) auto

lemma bm_repr_mkBitmap_bits: "bm_repr (mkBitmap n (nat_of_bits n f)) n f"
  by (rule bm_repr_cong[OF bm_repr_mkBitmap]) simp

lemma repr_SomeI:
  assumes "\<exists>bm. x = Some bm \<and> bm_repr bm n f" and "\<And>i. i < n \<Longrightarrow> f i = bit v i"
  shows "x = Some (mkBitmap n v)"
  using assms mkBitmap_eqI by blast

lemmas mk_repr = bm_repr_mkBitmap

lemma InlineBitmap_mk [bm_spec]: "InlineBitmap n fill = mkBitmap n (if fill then mask n else 0)"
  by (rule mkBitmap_eqI[OF bm_repr_InlineBitmap]) (auto simp: bit_mask_iff)

lemma FromWord_False_mk [bm_spec]: "FromWord w n False = mkBitmap n (unat w)"
  by (rule mkBitmap_eqI[OF bm_repr_FromWord]) (auto simp: bit_unsigned_iff dest: bit_imp_le_length)

lemma FromWord_sint_mk: "FromWord w n (sint w < 0) = mkBitmap n (nat (take_bit n (sint w)))"
proof (rule mkBitmap_eqI[OF bm_repr_FromWord])
  fix i assume i: "i < n"
  have "(sint w < 0) = bit w 63" using bit_last_iff[of w] by simp
  then show "(if i < 64 then bit w i else sint w < 0) = bit (nat (take_bit n (sint w))) i"
    using i bit_imp_le_length[of w i] by (auto simp: bit_nat_iff bit_take_bit_iff bit_sint_iff)
qed

lemma InlineBitmap_Get_mk [bm_spec]: "i < n \<Longrightarrow> InlineBitmap_Get (mkBitmap n v) i = Some (bit v i)"
  by (simp add: InlineBitmap_Get_repr[OF mk_repr])

lemma InlineBitmap_Set_mk [bm_spec]:
  "i < n \<Longrightarrow> InlineBitmap_Set (mkBitmap n v) i b =
     Some (mkBitmap n (if b then set_bit i v else unset_bit i v))"
  by (rule repr_SomeI[OF InlineBitmap_Set_repr[OF mk_repr]])
     (auto simp: bit_simps possible_bit_def)

lemma InlineBitmap_Toggle_mk [bm_spec]:
  "i < n \<Longrightarrow> InlineBitmap_Toggle (mkBitmap n v) i = Some (mkBitmap n (flip_bit i v))"
  by (rule repr_SomeI[OF InlineBitmap_Toggle_repr[OF mk_repr]])
     (auto simp: bit_simps possible_bit_def)

lemma GetWord_mk [bm_spec]:
  assumes "k < nwords n"
  shows "GetWord (mkBitmap n v) k = Some (word_of_nat (drop_bit (64 * k) (take_bit n v)))"
  using assms by (auto simp: GetWord_def mkBitmap_def word_count_def)

lemma Overwrite_mk [bm_spec]:
  assumes "w + c \<le> n" "r + c \<le> m"
  shows "Overwrite (mkBitmap n a) (mkBitmap m b) c w r =
    Some (mkBitmap n (take_bit w a OR push_bit w (take_bit c (drop_bit r b))
                      OR push_bit (w + c) (drop_bit (w + c) a)))"
  by (rule repr_SomeI[OF Overwrite_repr[OF mk_repr mk_repr assms]])
     (auto simp: overlay_def bit_simps)

lemma WithSize_repr:
  assumes "bm_repr bm n f"
  shows "bm_repr (WithSize bm m d) m (\<lambda>i. if i < n then f i else d)"
proof (cases "m > n")
  case False
  let ?bm = "\<lparr>ib_bit_count = m, ib_data = take (nwords m) (ib_data bm)\<rparr>"
  have "bm_repr (MaskLastWord ?bm) (ib_bit_count ?bm) (\<lambda>i. if i < n then f i else d)"
  proof (rule bm_repr_MaskLastWord)
    have "nwords m \<le> nwords n" using False by (intro div_le_mono) simp
    then show len: "length (ib_data ?bm) = nwords (ib_bit_count ?bm)"
      by (simp add: bm_reprD(2)[OF assms])
    fix i assume "i < ib_bit_count ?bm"
    then show "words_bit (ib_data ?bm) i = (if i < n then f i else d)"
      using False nwords_lt[of i m] bm_reprD(4)[OF assms, of i] by (auto simp: words_bit_def)
  qed
  then show ?thesis using False by (simp add: WithSize_def Let_def bm_reprD[OF assms])
next
  case True
  let ?ext = "replicate (nwords m - nwords n) (if d then NOT 0 else 0) :: 64 word list"
  have mono: "nwords n \<le> nwords m" using True by (intro div_le_mono) simp
  have app: "(if nwords m > nwords n then ib_data bm @ ?ext else ib_data bm) = ib_data bm @ ?ext"
    using mono by auto
  define k where "k = nwords n - 1"
  let ?msk = "MaskForWord bm k"
  define u where "u = (if n \<noteq> 0 then if d
      then (ib_data bm @ ?ext)[k := (ib_data bm @ ?ext) ! k OR NOT ?msk]
      else (ib_data bm @ ?ext)[k := (ib_data bm @ ?ext) ! k AND ?msk] else ib_data bm @ ?ext)"
  have len: "length u = nwords m" using mono by (simp add: u_def bm_reprD(2)[OF assms])
  have bits: "words_bit u i = (if i < n then f i else d)" if i: "i < m" for i
  proof (cases "i div 64 < nwords n")
    case False
    then have "\<not> i < n" using nwords_lt by blast
    moreover have "i div 64 < nwords m" using nwords_lt[OF i] .
    moreover have "i div 64 - nwords n < nwords m - nwords n"
      using calculation False by (simp add: diff_less_mono)
    ultimately show ?thesis using False mono
      by (auto simp: u_def words_bit_def nth_append bm_reprD(2)[OF assms] k_def bit_not_iff)
  next
    case lt: True
    then have n: "n \<noteq> 0" "k < nwords n" by (auto simp: k_def)
    have nth: "(ib_data bm @ ?ext) ! j = ib_data bm ! j" if "j < nwords n" for j
      using that by (simp add: nth_append bm_reprD(2)[OF assms])
    have old: "bit (ib_data bm ! (i div 64)) (i mod 64) = (i < n \<and> f i)"
      using bm_repr_word[OF assms lt, of "i mod 64"] by simp
    show ?thesis
    proof (cases "i div 64 = k")
      case True
      have "bit ?msk (i mod 64) = (i < n)"
        using bit_MaskForWord_repr[OF assms n(2), of "i mod 64"] mult_div_mod_eq[of 64 i]
        unfolding True by simp
      then show ?thesis using True n lt old nth[OF n(2)] mono
        by (auto simp: u_def words_bit_def bit_simps bm_reprD(2)[OF assms])
    next
      case False
      then have "i < n" using lt by (simp add: k_def)
      then show ?thesis using False n lt old nth[OF lt] mono
        by (auto simp: u_def words_bit_def bm_reprD(2)[OF assms])
    qed
  qed
  have "bm_repr (MaskLastWord \<lparr>ib_bit_count = m, ib_data = u\<rparr>)
      (ib_bit_count \<lparr>ib_bit_count = m, ib_data = u\<rparr>) (\<lambda>i. if i < n then f i else d)"
    using len bits by (intro bm_repr_MaskLastWord) simp_all
  moreover have "WithSize bm m d = MaskLastWord \<lparr>ib_bit_count = m, ib_data = u\<rparr>"
    using True
    by (simp only: WithSize_def Let_def bm_reprD[OF assms] of_nat_numeral CeilOfRatio_words if_True
        app u_def k_def)
  ultimately show ?thesis by simp
qed

lemma WithSize_mk [bm_spec]:
  "WithSize (mkBitmap n v) m False = mkBitmap m (take_bit n v)"
  "WithSize (mkBitmap n v) m True = mkBitmap m (take_bit n v OR push_bit n (mask (m - n)))"
  by (rule mkBitmap_eqI[OF WithSize_repr[OF mk_repr]], auto simp: bit_simps)+

section \<open>Searches over the words\<close>

lemma word_eq_0_iff_bits: "(w = 0) = (\<forall>j<64. \<not> bit (w::64 word) j)"
  using bit_word_eqI[of w 0] by auto

lemma all_words_iff_all_bits:
  "(\<forall>k<nwords n. \<forall>j<64. 64 * k + j < n \<longrightarrow> P (64 * k + j)) = (\<forall>i<n. P i)"
proof
  assume h: "\<forall>k<nwords n. \<forall>j<64. 64 * k + j < n \<longrightarrow> P (64 * k + j)"
  show "\<forall>i<n. P i"
  proof (intro allI impI)
    fix i assume i: "i < n"
    show "P i"
      using h[rule_format, OF nwords_lt[OF i], of "i mod 64"] i by simp
  qed
qed auto

lemma word_eq_iff_bits: "(w = u) = (\<forall>j<64. bit (w::64 word) j = bit u j)"
  using bit_word_eqI[of w u] by auto

lemma take_bit_eq_iff_bits: "(take_bit n v = take_bit n w) = (\<forall>i<n. bit v i = bit w i)"
  for v w :: nat
  by (auto simp: bit_eq_iff bit_take_bit_iff)

lemma InlineBitmap_eq_mk [bm_spec]:
  "InlineBitmap_eq (mkBitmap n v) (mkBitmap m w) = Some (n = m \<and> take_bit n v = take_bit n w)"
proof (cases "n = m")
  case True
  let ?a = "ib_data (mkBitmap n v)" and ?b = "ib_data (mkBitmap n w)"
  have "(\<exists>k\<in>set [0..<nwords n]. ?a ! k \<noteq> ?b ! k) = (\<exists>i<n. bit v i \<noteq> bit w i)"
    using all_words_iff_all_bits[of n "\<lambda>i. bit v i = bit w i"]
    by (auto simp: word_eq_iff_bits bm_repr_word[OF mk_repr])
  moreover have "InlineBitmap_eq (mkBitmap n v) (mkBitmap n w) =
      Some (\<not> (\<exists>k\<in>set [0..<nwords n]. ?a ! k \<noteq> ?b ! k))"
    unfolding InlineBitmap_eq_def
    by (subst loop_any[where P = "\<lambda>k. ?a ! k \<noteq> ?b ! k" and r = False])
       (auto simp: bm_reprD[OF mk_repr])
  ultimately show ?thesis using True by (simp add: take_bit_eq_iff_bits)
qed (simp add: InlineBitmap_eq_def)

lemma IsAllZeroes_mk [bm_spec]: "IsAllZeroes (mkBitmap n v) = Some (take_bit n v = 0)"
proof -
  let ?a = "ib_data (mkBitmap n v)"
  have "(\<exists>k\<in>set [0..<nwords n]. ?a ! k \<noteq> 0) = (\<exists>i<n. bit v i)"
    using all_words_iff_all_bits[of n "\<lambda>i. \<not> bit v i"]
    by (auto simp: word_eq_iff_bits bm_repr_word[OF mk_repr])
  moreover have "IsAllZeroes (mkBitmap n v) = Some (\<not> (\<exists>k\<in>set [0..<nwords n]. ?a ! k \<noteq> 0))"
    unfolding IsAllZeroes_def
    by (subst loop_any[where P = "\<lambda>k. ?a ! k \<noteq> 0" and r = False]) (auto simp: bm_reprD[OF mk_repr])
  ultimately show ?thesis using take_bit_eq_iff_bits[of n v 0] by simp
qed

lemma IsAllOnes_mk [bm_spec]: "IsAllOnes (mkBitmap n v) = Some (take_bit n v = mask n)"
proof -
  let ?bm = "mkBitmap n v"
  let ?a = "ib_data ?bm"
  have "(\<exists>k\<in>set [0..<nwords n]. ?a ! k \<noteq> MaskForWord ?bm k) = (\<exists>i<n. \<not> bit v i)"
    using all_words_iff_all_bits[of n "\<lambda>i. bit v i"]
    by (auto simp: word_eq_iff_bits bm_repr_word[OF mk_repr] bit_MaskForWord_repr[OF mk_repr])
  moreover have "IsAllOnes ?bm = Some (\<not> (\<exists>k\<in>set [0..<nwords n]. ?a ! k \<noteq> MaskForWord ?bm k))"
    unfolding IsAllOnes_def
    by (subst loop_any[where P = "\<lambda>k. ?a ! k \<noteq> MaskForWord ?bm k" and r = False])
       (auto simp: bm_reprD[OF mk_repr])
  ultimately show ?thesis using take_bit_eq_iff_bits[of n v "mask n"] by (simp add: bit_mask_iff)
qed

section \<open>Comparison\<close>

lemma drop_bit_split: "drop_bit (64 * k) V = 2 ^ 64 * drop_bit (64 * Suc k) V + unat (word_of_nat (drop_bit (64 * k) V) :: 64 word)"
  for V :: nat
proof -
  have "drop_bit (64 * Suc k) V = drop_bit 64 (drop_bit (64 * k) V)"
    by (simp add: drop_bit_drop_bit)
  then have "drop_bit (64 * Suc k) V = drop_bit (64 * k) V div 2 ^ 64"
    by (simp only: drop_bit_eq_div)
  moreover have "unat (word_of_nat (drop_bit (64 * k) V) :: 64 word) = drop_bit (64 * k) V mod 2 ^ 64"
    by (simp add: unat_of_nat)
  ultimately show ?thesis using mult_div_mod_eq[of "2 ^ 64" "drop_bit (64 * k) V"] by presburger
qed

lemma drop_bit_less_imp: "drop_bit k V < drop_bit k W \<Longrightarrow> V < W" for V W :: nat
  by (metis drop_bit_eq_div div_le_mono not_le)

lemma UCmp_loop_mk:
  assumes "k \<le> nwords n" "k \<le> nwords m" "drop_bit (64 * k) (take_bit n v) = drop_bit (64 * k) (take_bit m w)"
  shows "Option.bind (loop (\<lambda>i _. do {
        my_word \<leftarrow> GetWord (mkBitmap n v) i;
        other_word \<leftarrow> GetWord (mkBitmap m w) i;
        Some (if my_word > other_word then Return 1
              else if my_word < other_word then Return (- 1) else Continue ()) }) (rev [0..<k]) ())
      (\<lambda>r. Some (step_result (\<lambda>_. 0) r)) =
    Some (sgn (int (take_bit n v) - int (take_bit m w)))"
  using assms
proof (induction k)
  case 0
  then show ?case by simp
next
  case (Suc k)
  let ?V = "take_bit n v" and ?W = "take_bit m w"
  let ?x = "word_of_nat (drop_bit (64 * k) ?V) :: 64 word"
  let ?y = "word_of_nat (drop_bit (64 * k) ?W) :: 64 word"
  obtain h where word: "drop_bit (64 * k) ?V = h + unat ?x" "drop_bit (64 * k) ?W = h + unat ?y"
    using drop_bit_split[of k ?V] drop_bit_split[of k ?W] unfolding Suc.prems(3) by blast
  have gt: "?W < ?V" if "?y < ?x"
  proof (rule drop_bit_less_imp)
    show "drop_bit (64 * k) ?W < drop_bit (64 * k) ?V"
      using that word unfolding word_less_nat_alt by linarith
  qed
  have lt: "?V < ?W" if "?x < ?y"
  proof (rule drop_bit_less_imp)
    show "drop_bit (64 * k) ?V < drop_bit (64 * k) ?W"
      using that word unfolding word_less_nat_alt by linarith
  qed
  have eq: "drop_bit (64 * k) ?V = drop_bit (64 * k) ?W" if "?x = ?y"
    using word that by simp
  have get: "GetWord (mkBitmap n v) k = Some ?x" "GetWord (mkBitmap m w) k = Some ?y"
    using Suc.prems by (auto simp: bm_spec)
  consider "?y < ?x" | "?x < ?y" | "?x = ?y" by fastforce
  then show ?case
  proof cases
    case 1
    then show ?thesis using gt by (simp add: get)
  next
    case 2
    then show ?thesis using lt by (simp add: get not_less_iff_gr_or_eq)
  next
    case 3
    then show ?thesis using Suc eq by (simp add: get)
  qed
qed

lemma excess_words_iff:
  "(\<exists>k\<in>set (rev [lo..<nwords n]). (word_of_nat (drop_bit (64 * k) (take_bit n v)) :: 64 word) > 0) =
   (drop_bit (64 * lo) (take_bit n v) \<noteq> 0)"
proof
  assume "drop_bit (64 * lo) (take_bit n v) \<noteq> 0"
  then obtain i where "bit (take_bit n v) (64 * lo + i)"
    using bit_eqI[of "drop_bit (64 * lo) (take_bit n v)" 0] by (auto simp: bit_drop_bit_eq)
  then obtain q where q: "bit (take_bit n v) q" "64 * lo \<le> q" by (meson le_add1)
  let ?k = "q div 64"
  have k: "?k < nwords n" "lo \<le> ?k" using q by (auto simp: bit_take_bit_iff intro: nwords_lt)
  have "bit (word_of_nat (drop_bit (64 * ?k) (take_bit n v)) :: 64 word) (q mod 64)"
    using q by (simp add: bit_simps)
  then have "(word_of_nat (drop_bit (64 * ?k) (take_bit n v)) :: 64 word) \<noteq> 0" by auto
  then show "\<exists>k\<in>set (rev [lo..<nwords n]). (word_of_nat (drop_bit (64 * k) (take_bit n v)) :: 64 word) > 0"
    using k by (intro bexI[of _ ?k]) (auto simp: word_gt_0)
next
  assume "\<exists>k\<in>set (rev [lo..<nwords n]). (word_of_nat (drop_bit (64 * k) (take_bit n v)) :: 64 word) > 0"
  then obtain k where k: "lo \<le> k" "drop_bit (64 * k) (take_bit n v) \<noteq> 0" by force
  have "drop_bit (64 * k) (take_bit n v) = drop_bit (64 * (k - lo)) (drop_bit (64 * lo) (take_bit n v))"
    using k(1) by (simp add: drop_bit_drop_bit diff_mult_distrib2)
  then show "drop_bit (64 * lo) (take_bit n v) \<noteq> 0" using k(2) by (metis drop_bit_of_0)
qed

lemma take_bit_below_words: "drop_bit (64 * nwords m) (take_bit m w) = 0" for w :: nat
  by (rule bit_eqI) (auto simp: bit_simps)

lemma UCmp_mk [bm_spec]:
  "UCmp (mkBitmap n v) (mkBitmap m w) = Some (sgn (int (take_bit n v) - int (take_bit m w)))"
proof -
  let ?V = "take_bit n v" and ?W = "take_bit m w"
  have exc: "loop (\<lambda>i _. do { w \<leftarrow> GetWord (mkBitmap p u) i; Some (if w > 0 then Return r else Continue ()) })
        (rev [lo..<nwords p]) () =
      Some (if drop_bit (64 * lo) (take_bit p u) \<noteq> 0 then Return r else Continue ())"
    for p u lo and r :: int
    unfolding excess_words_iff[symmetric] by (rule loop_any) (simp add: bm_spec)
  consider "drop_bit (64 * nwords m) ?V \<noteq> 0" | "drop_bit (64 * nwords n) ?W \<noteq> 0"
      "drop_bit (64 * nwords m) ?V = 0"
    | "drop_bit (64 * nwords m) ?V = 0" "drop_bit (64 * nwords n) ?W = 0" by blast
  then show ?thesis
  proof cases
    case 1
    then have "drop_bit (64 * nwords m) ?W < drop_bit (64 * nwords m) ?V"
      using take_bit_below_words[of m w] by linarith
    then have "?W < ?V" by (rule drop_bit_less_imp)
    then show ?thesis using 1 by (simp only: UCmp_def word_count_mkBitmap exc) simp
  next
    case 2
    then have "drop_bit (64 * nwords n) ?V < drop_bit (64 * nwords n) ?W"
      using take_bit_below_words[of n v] by linarith
    then have "?V < ?W" by (rule drop_bit_less_imp)
    then show ?thesis using 2 by (simp only: UCmp_def word_count_mkBitmap exc) simp
  next
    case 3
    have "drop_bit (64 * min (nwords n) (nwords m)) ?V = drop_bit (64 * min (nwords n) (nwords m)) ?W"
      using 3 take_bit_below_words[of n v] take_bit_below_words[of m w] by (auto simp: min_def)
    from UCmp_loop_mk[OF _ _ this] show ?thesis
      using 3 by (simp only: UCmp_def word_count_mkBitmap exc) simp
  qed
qed

end
