(* ===== verification/Bitmap_Bytes.thy ===== *)
theory Bitmap_Bytes
  imports Bitmap_Rules
begin

text \<open>
  The bitmap operations that go through the bytes of the words or through lists of bits,
  and the word-wise set operations, again as rewrite rules over \<open>mkBitmap\<close>.
\<close>

section \<open>Word-wise operations\<close>

lemma InlineBitmap_zip_eq:
  assumes "ib_bit_count a = ib_bit_count b" "length (ib_data a) = length (ib_data b)"
  shows "InlineBitmap_zip f a b = Some (a\<lparr>ib_data := map2 f (ib_data a) (ib_data b)\<rparr>)"
proof -
  let ?x = "ib_data a" and ?y = "ib_data b"
  define upd where "upd i = map (\<lambda>k. if k < i then f (?x ! k) (?y ! k) else ?x ! k) [0..<length ?x]" for i
  have "\<exists>bm. foldM (\<lambda>i bm. do {
         x \<leftarrow> nth_opt (ib_data bm) i;
         y \<leftarrow> nth_opt (ib_data b) i;
         d \<leftarrow> set_opt (ib_data bm) i (f x y);
         Some (bm\<lparr>ib_data := d\<rparr>) }) [0..<length ?x] a = Some bm \<and> bm = a\<lparr>ib_data := upd (length ?x)\<rparr>"
  proof (rule foldM_upt_inv)
    show "a = a\<lparr>ib_data := upd 0\<rparr>" by (simp add: upd_def map_nth)
    fix i bm assume "i < length ?x" "bm = a\<lparr>ib_data := upd i\<rparr>"
    moreover have "(upd i)[i := f (upd i ! i) (?y ! i)] = upd (Suc i)"
      using \<open>i < length ?x\<close> by (intro nth_equalityI) (auto simp: upd_def nth_list_update less_Suc_eq)
    ultimately show "\<exists>bm'. do {
         x \<leftarrow> nth_opt (ib_data bm) i;
         y \<leftarrow> nth_opt (ib_data b) i;
         d \<leftarrow> set_opt (ib_data bm) i (f x y);
         Some (bm\<lparr>ib_data := d\<rparr>) } = Some bm' \<and> bm' = a\<lparr>ib_data := upd (Suc i)\<rparr>"
      using assms(2) by (simp add: upd_def)
  qed simp
  moreover have "upd (length ?x) = map2 f ?x ?y"
    using assms(2) by (intro nth_equalityI) (auto simp: upd_def)
  ultimately show ?thesis using assms by (simp add: InlineBitmap_zip_def)
qed

lemma InlineBitmap_zip_mk:
  assumes bits: "\<And>x y j. j < 64 \<Longrightarrow> bit (f x y) j = F (bit x j) (bit y j)"
    and zero: "\<not> F False False" and res: "\<And>i. bit r i = F (bit v i) (bit w i)"
  shows "InlineBitmap_zip f (mkBitmap n v) (mkBitmap n w) = Some (mkBitmap n r)"
proof -
  let ?a = "mkBitmap n v" and ?b = "mkBitmap n w"
  have len: "length (ib_data ?a) = nwords n" "length (ib_data ?b) = nwords n"
    by (rule bm_reprD(2)[OF mk_repr])+
  have "words_bit (map2 f (ib_data ?a) (ib_data ?b)) i = (i < n \<and> bit r i)" for i
  proof (cases "i div 64 < nwords n")
    case True
    then show ?thesis using len bits[of "i mod 64"] zero
      by (cases "i < n") (simp_all add: words_bit_def bm_repr_word[OF mk_repr True] res)
  next
    case False
    then show ?thesis using len nwords_lt[of i n] by (auto simp: words_bit_def)
  qed
  then have "bm_repr (?a\<lparr>ib_data := map2 f (ib_data ?a) (ib_data ?b)\<rparr>) n (bit r)"
    using len by (simp add: bm_repr_def)
  then show ?thesis using len by (simp add: InlineBitmap_zip_eq mkBitmap_eqI)
qed

lemma InlineBitmap_zip_ops_mk [bm_spec]:
  "InlineBitmap_Union (mkBitmap n v) (mkBitmap n w) = Some (mkBitmap n (v OR w))"
  "InlineBitmap_Intersect (mkBitmap n v) (mkBitmap n w) = Some (mkBitmap n (v AND w))"
  "InlineBitmap_ToggleAll (mkBitmap n v) (mkBitmap n w) = Some (mkBitmap n (v XOR w))"
  unfolding InlineBitmap_Union_def InlineBitmap_Intersect_def InlineBitmap_ToggleAll_def
  by (rule InlineBitmap_zip_mk[where F = "(\<or>)"] InlineBitmap_zip_mk[where F = "(\<and>)"]
      InlineBitmap_zip_mk[where F = "(\<noteq>)"], auto simp: bit_simps)+

section \<open>Loops over the bits\<close>

lemma InlineBitmap_SetRange_repr:
  assumes "bm_repr bm n f" "hi \<le> n"
  shows "\<exists>bm'. InlineBitmap_SetRange bm lo hi b = Some bm' \<and>
    bm_repr bm' n (\<lambda>j. if lo \<le> j \<and> j < hi then b else f j)"
proof (cases "lo \<le> hi")
  case False
  then show ?thesis using assms
    by (auto simp: InlineBitmap_SetRange_def bm_reprD(1)[OF assms(1)] intro!: bm_repr_cong[OF assms(1)])
next
  case True
  have "\<exists>bm'. foldM (\<lambda>index bm. InlineBitmap_Set bm index b) [lo..<hi] bm = Some bm' \<and>
    bm_repr bm' n (\<lambda>j. if lo \<le> j \<and> j < hi then b else f j)"
  proof (rule foldM_upt_inv[OF True])
    show "bm_repr bm n (\<lambda>j. if lo \<le> j \<and> j < lo then b else f j)"
      by (rule bm_repr_cong[OF assms(1)]) auto
    fix i s assume i: "lo \<le> i" "i < hi" and s: "bm_repr s n (\<lambda>j. if lo \<le> j \<and> j < i then b else f j)"
    from InlineBitmap_Set_repr[OF s, of i b] i assms(2)
    show "\<exists>s'. InlineBitmap_Set s i b = Some s' \<and>
      bm_repr s' n (\<lambda>j. if lo \<le> j \<and> j < Suc i then b else f j)"
      by (auto elim!: bm_repr_cong simp: less_Suc_eq split: if_splits)
  qed
  then show ?thesis using assms by (simp add: InlineBitmap_SetRange_def bm_reprD(1)[OF assms(1)])
qed

lemma FromBitsMsbIs0_mk [bm_spec]:
  "FromBitsMsbIs0 bs = Some (mkBitmap (length bs) (horner_sum of_bool 2 (rev bs)))"
proof (rule repr_SomeI)
  let ?n = "length bs"
  show "\<exists>bm. FromBitsMsbIs0 bs = Some bm \<and>
      bm_repr bm ?n (\<lambda>j. j < ?n \<and> ?n - ?n \<le> j \<and> bs ! (?n - 1 - j))"
    unfolding FromBitsMsbIs0_def
  proof (rule foldM_upt_inv[where P = "\<lambda>i bm. bm_repr bm ?n (\<lambda>j. j < ?n \<and> ?n - i \<le> j \<and> bs ! (?n - 1 - j))"])
    show "bm_repr (InlineBitmap ?n False) ?n (\<lambda>j. j < ?n \<and> ?n - 0 \<le> j \<and> bs ! (?n - 1 - j))"
      by (rule bm_repr_cong[OF bm_repr_InlineBitmap]) simp
    fix i s assume i: "i < ?n" and s: "bm_repr s ?n (\<lambda>j. j < ?n \<and> ?n - i \<le> j \<and> bs ! (?n - 1 - j))"
    have pos: "?n - i - 1 < ?n" "?n - 1 - (?n - i - 1) = i" using i by auto
    have split: "?n - Suc i \<le> j \<longleftrightarrow> j = ?n - i - 1 \<or> ?n - i \<le> j" for j using i by auto
    from InlineBitmap_Set_repr[OF s pos(1), of "bs ! i"] i pos(2)
    show "\<exists>s'. InlineBitmap_Set s (?n - i - 1) (bs ! i) = Some s' \<and>
      bm_repr s' ?n (\<lambda>j. j < ?n \<and> ?n - Suc i \<le> j \<and> bs ! (?n - 1 - j))"
      unfolding split by (auto elim!: bm_repr_cong split: if_splits) arith
  qed simp
qed (auto simp: bit_horner_sum_bit_iff rev_nth)

lemma Suc_div_64_mod:
  "(if 64 \<le> k mod 64 + 1 then (ws, k div 64 + 1, 0) else (ws, k div 64, k mod 64 + 1)) =
   (ws, Suc k div 64, Suc k mod 64)"
  using mod_less_divisor[of 64 k] by (auto simp: div_Suc mod_Suc)

lemma FromBitsLsbIs0_mk [bm_spec]:
  "FromBitsLsbIs0 bs = Some (mkBitmap (length bs) (horner_sum of_bool 2 bs))"
proof -
  let ?n = "length bs" and ?d = "ib_data (InlineBitmap (length bs) False)"
  define P where "P rest s \<longleftrightarrow> (case s of (ws, word, bi) \<Rightarrow>
      length rest \<le> ?n \<and> rest = drop (?n - length rest) bs \<and>
      length ws = nwords ?n \<and> word = (?n - length rest) div 64 \<and> bi = (?n - length rest) mod 64 \<and>
      (\<forall>i. words_bit ws i = (i < ?n - length rest \<and> bs ! i)))" for rest s
  have "\<exists>s. foldM FromBitsLsbIs0_step bs (?d, 0, 0) = Some s \<and> P [] s"
  proof (rule foldM_inv[of P])
    show "P bs (?d, 0, 0)" using bm_reprD[OF bm_repr_InlineBitmap[of ?n False]] by (simp add: P_def)
    fix b rest and s :: "64 word list \<times> nat \<times> nat" assume "P (b # rest) s"
    then obtain ws where s: "s = (ws, (?n - Suc (length rest)) div 64, (?n - Suc (length rest)) mod 64)"
      and h: "Suc (length rest) \<le> ?n" "b # rest = drop (?n - Suc (length rest)) bs"
        "length ws = nwords ?n" "\<forall>i. words_bit ws i = (i < ?n - Suc (length rest) \<and> bs ! i)"
      by (cases s) (auto simp: P_def)
    define k where "k = ?n - Suc (length rest)"
    have k: "k < ?n" "?n - length rest = Suc k" using h(1) by (auto simp: k_def)
    have b: "b = bs ! k" and rest: "rest = drop (Suc k) bs"
      using h(2) k(1) unfolding k_def[symmetric] by (metis Cons_nth_drop_Suc list.inject)+
    let ?w = "ws ! (k div 64) OR push_bit (k mod 64) (of_bool b)"
    have lt: "k div 64 < length ws" using nwords_lt[OF k(1)] h(3) by simp
    have step: "FromBitsLsbIs0_step b s = Some (ws[k div 64 := ?w], Suc k div 64, Suc k mod 64)"
      using lt by (auto simp: FromBitsLsbIs0_step_def s k_def[symmetric] Suc_div_64_mod[simplified])
    have "words_bit (ws[k div 64 := ?w]) i = (words_bit ws i \<or> (i = k \<and> b))" for i
    proof (cases "i div 64 = k div 64")
      case True
      then have "(i mod 64 = k mod 64) = (i = k)" by (metis mult_div_mod_eq)
      then show ?thesis using True lt
        by (auto simp: words_bit_update[OF lt] words_bit_def bit_simps)
    qed (auto simp: words_bit_update[OF lt])
    then have "words_bit (ws[k div 64 := ?w]) i = (i < Suc k \<and> bs ! i)" for i
      using h(4)[rule_format, of i] b by (auto simp: k_def[symmetric] less_Suc_eq)
    then show "\<exists>s'. FromBitsLsbIs0_step b s = Some s' \<and> P rest s'"
      using step rest k h(1,3) by (auto simp: P_def)
  qed
  then obtain ws w bi where fm: "foldM FromBitsLsbIs0_step bs (?d, 0, 0) = Some (ws, w, bi)"
    and "length ws = nwords ?n" "\<forall>i. words_bit ws i = (i < ?n \<and> bs ! i)"
    by (auto simp: P_def)
  then have "bm_repr (InlineBitmap ?n False\<lparr>ib_data := ws\<rparr>) ?n ((!) bs)"
    using bm_reprD(1)[OF bm_repr_InlineBitmap[of ?n False]] by (simp add: bm_repr_def)
  then have "InlineBitmap ?n False\<lparr>ib_data := ws\<rparr> = mkBitmap ?n (horner_sum of_bool 2 bs)"
    by (rule mkBitmap_eqI) (simp add: bit_horner_sum_bit_iff)
  then show ?thesis by (simp add: FromBitsLsbIs0_def fm Let_def)
qed

section \<open>Bytes\<close>

lemma bit_word_with_byte:
  assumes "k < 8" "j < 64"
  shows "bit (word_with_byte w k b) j = (if j div 8 = k then bit b (j mod 8) else bit w j)"
proof -
  have m: "(255 :: 64 word) = mask 8" by (simp add: mask_eq_exp_minus_1)
  have "j div 8 = k \<longleftrightarrow> 8 * k \<le> j \<and> j - 8 * k < 8" using div_le_dividend by linarith
  moreover have "j - 8 * k = j mod 8" if "j div 8 = k" using mult_div_mod_eq[of 8 j] that by linarith
  moreover have "\<not> bit b (j - 8 * k)" if "\<not> j - 8 * k < 8"
    using that bit_imp_le_length[of b "j - 8 * k"] by auto
  ultimately show ?thesis using assms(2)
    unfolding word_with_byte_def m by (auto simp: bit_simps)
qed

lemma byte_position:
  "i div 64 = (i div 8) div (8::nat)" "i mod 64 div 8 = (i div 8) mod (8::nat)"
  "i mod 64 mod 8 = i mod (8::nat)"
  using mod_mult2_eq[of i 8 8] div_mult2_eq[of i 8 8] by simp_all

lemma words_bit_store_byte:
  assumes "j div 8 < length ws"
  shows "words_bit (store_byte ws j b) i = (if i div 8 = j then bit b (i mod 8) else words_bit ws i)"
proof (cases "i div 64 = j div 8")
  case True
  then have eq: "(i mod 64 div 8 = j mod 8) = (i div 8 = j)"
    unfolding byte_position by (metis mult_div_mod_eq)
  have "words_bit (store_byte ws j b) i = bit (word_with_byte (ws ! (j div 8)) (j mod 8) b) (i mod 64)"
    using True by (simp add: store_byte_def words_bit_update[OF assms])
  also have "\<dots> = (if i div 8 = j then bit b (i mod 8) else words_bit ws i)"
    using True assms by (subst bit_word_with_byte) (auto simp: eq byte_position(3) words_bit_def)
  finally show ?thesis .
next
  case False
  then show ?thesis by (auto simp: store_byte_def words_bit_update[OF assms] byte_position(1))
qed

lemma length_store_byte [simp]: "length (store_byte ws j b) = length ws"
  by (simp add: store_byte_def)

lemma words_bit_memcpy:
  assumes "n \<le> 8 * length ws"
  shows "length (memcpy_words ws bytes n) = length ws \<and>
    words_bit (memcpy_words ws bytes n) i =
      (if i div 8 < n then bit (bytes ! (i div 8)) (i mod 8) else words_bit ws i)"
  using assms
proof (induction n)
  case (Suc n)
  then have "n div 8 < length (memcpy_words ws bytes n)" by auto
  then show ?case using Suc
    by (auto simp: memcpy_words_def words_bit_store_byte less_Suc_eq)
qed (simp add: memcpy_words_def)

lemma bit_load_byte:
  assumes "j div 8 < length ws"
  shows "bit (load_byte ws j) i = (i < 8 \<and> words_bit ws (8 * j + i))"
proof (cases "i < 8")
  case True
  then have p: "(8 * j + i) div 64 = j div 8" "(8 * j + i) mod 64 = 8 * (j mod 8) + i"
    using mod_mult2_eq[of "8 * j + i" 8 8] div_mult2_eq[of "8 * j + i" 8 8] by simp_all
  show ?thesis using True assms p
    by (simp add: load_byte_def word_byte_def bit_simps words_bit_def p)
next
  case False
  then show ?thesis using bit_imp_le_length[of "load_byte ws j" i] by auto
qed

lemma nbytes_words: "j < nbytes n \<Longrightarrow> j div 8 < nwords n"
  by linarith

lemma load_byte_mk:
  assumes "j < nbytes n"
  shows "load_byte (ib_data (mkBitmap n v)) j = word_of_nat (drop_bit (8 * j) (take_bit n v))"
proof (rule bit_word_eqI)
  fix i assume "i < LENGTH(8)"
  then show "bit (load_byte (ib_data (mkBitmap n v)) j) i =
      bit (word_of_nat (drop_bit (8 * j) (take_bit n v)) :: 8 word) i"
    using nbytes_words[OF assms] by (simp add: bit_load_byte bm_reprD(2)[OF mk_repr] bit_simps)
qed

lemma byte_count_mk [simp]: "byte_count (mkBitmap n v) = nbytes n"
  by (simp add: byte_count_def)

lemma GetByte_mk [bm_spec]:
  "j < nbytes n \<Longrightarrow> GetByte (mkBitmap n v) j = Some (word_of_nat (drop_bit (8 * j) (take_bit n v)))"
  by (simp add: GetByte_def load_byte_mk)

lemma SetByte_mk [bm_spec]:
  assumes "j < nbytes n"
  shows "SetByte (mkBitmap n v) j b =
    Some (mkBitmap n (take_bit (8 * j) v OR push_bit (8 * j) (unat b)
                      OR push_bit (8 * j + 8) (drop_bit (8 * j + 8) v)))"
proof -
  let ?bm = "mkBitmap n v\<lparr>ib_data := store_byte (ib_data (mkBitmap n v)) j b\<rparr>"
  have len: "j div 8 < length (ib_data (mkBitmap n v))"
    using nbytes_words[OF assms] by (simp add: bm_reprD(2)[OF mk_repr])
  let ?f = "\<lambda>i. if i div 8 = j then bit b (i mod 8) else bit v i"
  have "bm_repr (MaskLastWord ?bm) (ib_bit_count ?bm) ?f"
    using len by (intro bm_repr_MaskLastWord) (auto simp: bm_reprD(2)[OF mk_repr] words_bit_store_byte)
  then have "bm_repr (MaskLastWord ?bm) n ?f" by simp
  then have "MaskLastWord ?bm = mkBitmap n (take_bit (8 * j) v OR push_bit (8 * j) (unat b)
      OR push_bit (8 * j + 8) (drop_bit (8 * j + 8) v))"
  proof (rule mkBitmap_eqI)
    fix i
    consider "i < 8 * j" | "i div 8 = j" "8 * j \<le> i" "i - 8 * j = i mod 8" "i < 8 * j + 8" | "8 * j + 8 \<le> i"
    proof -
      have "i div 8 = j \<and> i - 8 * j = i mod 8" if "8 * j \<le> i" "i < 8 * j + 8"
      proof
        show "i div 8 = j" using that by linarith
        then show "i - 8 * j = i mod 8" using mult_div_mod_eq[of 8 i] by linarith
      qed
      then show thesis using that by (meson not_le)
    qed
    then show "(if i div 8 = j then bit b (i mod 8) else bit v i) =
      bit (take_bit (8 * j) v OR push_bit (8 * j) (unat b) OR push_bit (8 * j + 8) (drop_bit (8 * j + 8) v)) i"
    proof cases
      case 3
      then have "\<not> bit b (i - 8 * j)" using bit_imp_le_length[of b "i - 8 * j"] by auto
      then show ?thesis using 3 by (auto simp: bit_simps)
    qed (auto simp: bit_simps)
  qed
  then show ?thesis using assms by (simp add: SetByte_def)
qed

lemma WriteBytesToBuffer_mk [bm_spec]:
  "WriteBytesToBuffer (mkBitmap n v) =
     map (\<lambda>j. word_of_nat (drop_bit (8 * j) (take_bit n v))) [0..<nbytes n]"
  by (simp add: WriteBytesToBuffer_def load_byte_mk)

text \<open>The number a little-endian byte string denotes.\<close>

definition bytes_val :: "8 word list \<Rightarrow> nat" where
  "bytes_val bytes = horner_sum unat 256 bytes"

lemma bytes_val_simps [simp]: "bytes_val [] = 0" "bytes_val (b # bs) = unat b + 256 * bytes_val bs"
  by (simp_all add: bytes_val_def)

lemma bit_bytes_val: "bit (bytes_val bs) i = (i div 8 < length bs \<and> bit (bs ! (i div 8)) (i mod 8))"
proof (induction bs arbitrary: i)
  case (Cons b bs)
  have b: "unat b < 2 ^ 8" using unsigned_less[of b] by simp
  have "unat b + 256 * bytes_val bs = unat b OR push_bit 8 (bytes_val bs)"
  proof -
    have "unat b + push_bit 8 (bytes_val bs) = unat b OR push_bit 8 (bytes_val bs)"
      using nat_lt_exp_iff_bits[of "unat b" 8] b
      by (intro disjunctive_add) (auto simp: bit_simps not_le[symmetric])
    then show ?thesis by (simp add: push_bit_eq_mult mult.commute)
  qed
  then have *: "bit (bytes_val (b # bs)) i = (bit b i \<or> 8 \<le> i \<and> bit (bytes_val bs) (i - 8))"
    by (simp add: bit_simps)
  show ?case
  proof (cases "i < 8")
    case True
    then show ?thesis using * by simp
  next
    case False
    then have "i div 8 = Suc ((i - 8) div 8)" "i mod 8 = (i - 8) mod 8" "\<not> bit b i"
      using bit_imp_le_length[of b i] by (auto simp: le_div_geq le_mod_geq)
    then show ?thesis using * Cons[of "i - 8"] False by simp
  qed
qed simp

lemma InlineBitmap_FromBytes_mk [bm_spec]:
  assumes "nbytes n \<le> length bytes"
  shows "InlineBitmap_FromBytes n bytes = Some (mkBitmap n (bytes_val bytes))"
proof (cases "n = 0")
  case True
  have "InlineBitmap_FromBytes n bytes = Some (MaskLastWord (InlineBitmap 0 False))"
    using True CeilOfRatio_words[of 0]
    by (simp add: InlineBitmap_FromBytes_def InlineBitmap_def Let_def del: CeilOfRatio_words)
  then show ?thesis using True by (simp add: bm_spec MaskLastWord_def mkBitmap_eq_iff)
next
  case False
  let ?r = "InlineBitmap n False"
  let ?bm = "?r\<lparr>ib_data := memcpy_words (ib_data ?r) bytes (nbytes n)\<rparr>"
  note r = bm_reprD[OF bm_repr_InlineBitmap[of n False]]
  have le: "nbytes n \<le> 8 * length (ib_data ?r)" unfolding r(2) by linarith
  note m = words_bit_memcpy[OF le, of bytes]
  have "bm_repr (MaskLastWord ?bm) (ib_bit_count ?bm) (bit (bytes_val bytes))"
  proof (rule bm_repr_MaskLastWord)
    show "length (ib_data ?bm) = nwords (ib_bit_count ?bm)" using m by (simp add: r)
    fix i assume "i < ib_bit_count ?bm"
    then have "i < n" by (simp add: r)
    then have "i div 8 < nbytes n" by linarith
    then show "words_bit (ib_data ?bm) i = bit (bytes_val bytes) i"
      using m assms by (simp add: bit_bytes_val)
  qed
  then have "MaskLastWord ?bm = mkBitmap n (bytes_val bytes)" by (simp add: r mkBitmap_eqI)
  moreover have "ib_data ?r \<noteq> []" using False r(2) by auto
  ultimately show ?thesis using assms by (simp add: InlineBitmap_FromBytes_def Let_def)
qed

lemma bytes_val_write:
  "bytes_val (map (\<lambda>j. word_of_nat (drop_bit (8 * j) (take_bit n v))) [0..<nbytes n]) = take_bit n v"
proof (rule bit_eqI)
  fix i
  have "i div 8 < nbytes n" if "i < n" using that by linarith
  then show "bit (bytes_val (map (\<lambda>j. word_of_nat (drop_bit (8 * j) (take_bit n v))) [0..<nbytes n])) i =
      bit (take_bit n v) i"
    by (cases "i div 8 < nbytes n") (auto simp: bit_bytes_val bit_simps)
qed

end
