(* ===== verification/Xls_Bits.thy ===== *)
theory Xls_Bits
  imports Bitmap_Bytes
begin

text \<open>
  \<^verbatim>\<open>xls/ir/bits.h\<close>, \<^verbatim>\<open>bits.cc\<close> and \<^verbatim>\<open>bit_push_buffer\<close>: the arbitrary-width bit vector of the
  IR. The class wraps one \<^verbatim>\<open>InlineBitmap\<close>, so a \<open>bits\<close> value is a bitmap. \<^verbatim>\<open>uint64_t\<close> and
  \<^verbatim>\<open>int64_t\<close> values are \<open>64 word\<close>s (the latter read with \<open>sint\<close>); widths and indices are
  \<open>nat\<close>. The second half gives each operation as a rewrite rule on the number the vector
  holds, read as unsigned (\<open>bm_val\<close>) or in two's complement (\<open>sval\<close>).
\<close>

type_synonym bits = inline_bitmap

section \<open>Construction\<close>

definition Bits :: "nat \<Rightarrow> bits" where
  "Bits bit_count = InlineBitmap bit_count False"

definition Bits_of_span :: "bool list \<Rightarrow> bits option" where
  "Bits_of_span bs = FromBitsLsbIs0 bs"

definition MinBitCountUnsigned :: "64 word \<Rightarrow> nat" where
  "MinBitCountUnsigned v = (if v = 0 then 0 else FloorOfLog2 v + 1)"

definition MinBitCountSigned :: "64 word \<Rightarrow> nat" where
  "MinBitCountSigned v =
     (if v = 0 then 0
      else if sint v < 0 then MinBitCountUnsigned (- (v + 1)) + 1
      else MinBitCountUnsigned v + 1)"

definition UBitsWithStatus :: "64 word \<Rightarrow> nat \<Rightarrow> bits status_or" where
  "UBitsWithStatus v bit_count =
     (if MinBitCountUnsigned v > bit_count then Inl InvalidArgument
      else Inr (FromWord v bit_count False))"

definition SBitsWithStatus :: "64 word \<Rightarrow> nat \<Rightarrow> bits status_or" where
  "SBitsWithStatus v bit_count =
     (if MinBitCountSigned v > bit_count then Inl InvalidArgument
      else let fill = (signed_drop_bit 63 v \<noteq> 0) in Inr (FromWord v bit_count fill))"

definition UBits :: "64 word \<Rightarrow> nat \<Rightarrow> bits option" where
  "UBits v bit_count = StatusOr_value (UBitsWithStatus v bit_count)"

definition SBits :: "64 word \<Rightarrow> nat \<Rightarrow> bits option" where
  "SBits v bit_count = StatusOr_value (SBitsWithStatus v bit_count)"

definition AllOnes :: "nat \<Rightarrow> bits" where
  "AllOnes bit_count = InlineBitmap bit_count True"

definition PowerOfTwo :: "nat \<Rightarrow> nat \<Rightarrow> bits option" where
  "PowerOfTwo set_bit_index bit_count = InlineBitmap_Set (Bits bit_count) set_bit_index True"

definition UpdateWithSet :: "bits \<Rightarrow> nat \<Rightarrow> bool \<Rightarrow> bits option" where
  "UpdateWithSet b index v = InlineBitmap_Set b index v"

definition Bits_SetRange :: "bits \<Rightarrow> nat \<Rightarrow> nat \<Rightarrow> bool \<Rightarrow> bits option" where
  "Bits_SetRange b start_index end_index v = InlineBitmap_SetRange b start_index end_index v"

definition MaxSigned :: "nat \<Rightarrow> bits option" where
  "MaxSigned bit_count =
     (if bit_count = 0 then SBits 0 0 else UpdateWithSet (AllOnes bit_count) (bit_count - 1) False)"

definition MinSigned :: "nat \<Rightarrow> bits option" where
  "MinSigned bit_count =
     (if bit_count = 0 then SBits 0 0 else PowerOfTwo (bit_count - 1) bit_count)"

definition FromBytes :: "8 word list \<Rightarrow> nat \<Rightarrow> bits option" where
  "FromBytes bytes bit_count = InlineBitmap_FromBytes bit_count bytes"

definition FromBitSet :: "bool list \<Rightarrow> bits option" where
  "FromBitSet bs =
     foldM (\<lambda>i bm. InlineBitmap_Set bm i (bs ! i)) [0..<length bs] (InlineBitmap (length bs) False)"

section \<open>Reading bits\<close>

definition Get :: "bits \<Rightarrow> nat \<Rightarrow> bool option" where
  "Get b index = InlineBitmap_Get b index"

definition msb :: "bits \<Rightarrow> bool option" where
  "msb b = (if ib_bit_count b = 0 then Some False else Get b (ib_bit_count b - 1))"

definition GetFromMsb :: "bits \<Rightarrow> nat \<Rightarrow> bool option" where
  "GetFromMsb b index = do {
     CHECK (index < ib_bit_count b);
     InlineBitmap_Get b (ib_bit_count b - index - 1) }"

definition ToBitVector :: "bits \<Rightarrow> bool list option" where
  "ToBitVector b = mapM (Get b) [0..<ib_bit_count b]"

definition ToBytes :: "bits \<Rightarrow> 8 word list" where
  "ToBytes b = WriteBytesToBuffer b"

definition FillBitSet :: "nat \<Rightarrow> bits \<Rightarrow> bool list status_or option" where
  "FillBitSet n b =
     (if n \<noteq> ib_bit_count b then Some (Inl InvalidArgument)
      else do { bs \<leftarrow> mapM (Get b) [0..<n]; Some (Inr bs) })"

definition ToDebugString :: "bits \<Rightarrow> string option" where
  "ToDebugString b = do {
     bs \<leftarrow> ToBitVector b;
     Some (''0b'' @ map (\<lambda>x. if x then CHR ''1'' else CHR ''0'') (rev bs)) }"

definition IsZero :: "bits \<Rightarrow> bool option" where
  "IsZero b = IsAllZeroes b"

definition Bits_IsAllOnes :: "bits \<Rightarrow> bool option" where
  "Bits_IsAllOnes b = IsAllOnes b"

definition Bits_eq :: "bits \<Rightarrow> bits \<Rightarrow> bool option" where
  "Bits_eq a b = InlineBitmap_eq a b"

definition PopCount :: "bits \<Rightarrow> nat option" where
  "PopCount b =
     foldM (\<lambda>i cnt. do { x \<leftarrow> Get b i; Some (if x then cnt + 1 else cnt) }) [0..<ib_bit_count b] 0"

definition IsOne :: "bits \<Rightarrow> bool option" where
  "IsOne b = do { c \<leftarrow> PopCount b; if c = 1 then Get b 0 else Some False }"

definition Bits_IsPowerOfTwo :: "bits \<Rightarrow> bool option" where
  "Bits_IsPowerOfTwo b = do { c \<leftarrow> PopCount b; Some (c = 1) }"

text \<open>The four counting loops differ in the bit they read and in the value that stops them.\<close>

definition CountLeadingZeros :: "bits \<Rightarrow> nat option" where
  "CountLeadingZeros b = do {
     r \<leftarrow> loop (\<lambda>i _. do { x \<leftarrow> Get b (ib_bit_count b - 1 - i);
                        Some (if x then Return i else Continue ()) }) [0..<ib_bit_count b] ();
     Some (step_result (\<lambda>_. ib_bit_count b) r) }"

definition CountLeadingOnes :: "bits \<Rightarrow> nat option" where
  "CountLeadingOnes b = do {
     r \<leftarrow> loop (\<lambda>i _. do { x \<leftarrow> Get b (ib_bit_count b - 1 - i);
                        Some (if \<not> x then Return i else Continue ()) }) [0..<ib_bit_count b] ();
     Some (step_result (\<lambda>_. ib_bit_count b) r) }"

definition CountTrailingZeros :: "bits \<Rightarrow> nat option" where
  "CountTrailingZeros b = do {
     r \<leftarrow> loop (\<lambda>i _. do { x \<leftarrow> Get b i; Some (if x then Return i else Continue ()) })
            [0..<ib_bit_count b] ();
     Some (step_result (\<lambda>_. ib_bit_count b) r) }"

definition CountTrailingOnes :: "bits \<Rightarrow> nat option" where
  "CountTrailingOnes b = do {
     r \<leftarrow> loop (\<lambda>i _. do { x \<leftarrow> Get b i; Some (if \<not> x then Return i else Continue ()) })
            [0..<ib_bit_count b] ();
     Some (step_result (\<lambda>_. ib_bit_count b) r) }"

text \<open>The three output parameters, when the function returns true.\<close>

definition HasSingleRunOfSetBits :: "bits \<Rightarrow> (nat \<times> nat \<times> nat) option option" where
  "HasSingleRunOfSetBits b = do {
     leading_zeros \<leftarrow> CountLeadingZeros b;
     trailing_zeros \<leftarrow> CountTrailingZeros b;
     if ib_bit_count b = trailing_zeros
     then do { CHECK (leading_zeros = ib_bit_count b); Some None }
     else do {
       r \<leftarrow> loop (\<lambda>i _. do { x \<leftarrow> Get b i; Some (if \<not> x then Return None else Continue ()) })
              [trailing_zeros..<ib_bit_count b - leading_zeros] ();
       case r of
         Return v \<Rightarrow> Some v
       | Continue _ \<Rightarrow> do {
           CHECK (leading_zeros + trailing_zeros \<le> ib_bit_count b);
           Some (Some (leading_zeros, ib_bit_count b - leading_zeros - trailing_zeros,
                       trailing_zeros)) } } }"

section \<open>Conversions to machine integers\<close>

definition FitsInNBitsUnsigned :: "bits \<Rightarrow> nat \<Rightarrow> bool option" where
  "FitsInNBitsUnsigned b n = do {
     r \<leftarrow> loop (\<lambda>i _. do { x \<leftarrow> Get b i; Some (if x then Return False else Continue ()) })
            [n..<ib_bit_count b] ();
     Some (step_result (\<lambda>_. True) r) }"

definition FitsInNBitsSigned :: "bits \<Rightarrow> nat \<Rightarrow> bool option" where
  "FitsInNBitsSigned b n =
     (if n = 0 then IsZero b
      else do {
        r \<leftarrow> loop (\<lambda>i _. do { x \<leftarrow> Get b i; m \<leftarrow> msb b;
                           Some (if x \<noteq> m then Return False else Continue ()) })
               [n - 1..<ib_bit_count b] ();
        Some (step_result (\<lambda>_. True) r) })"

definition FitsInUint64 :: "bits \<Rightarrow> bool option" where
  "FitsInUint64 b = FitsInNBitsUnsigned b 64"

definition FitsInInt64Unsigned :: "bits \<Rightarrow> bool option" where
  "FitsInInt64Unsigned b = FitsInNBitsUnsigned b 63"

definition FitsInInt64 :: "bits \<Rightarrow> bool option" where
  "FitsInInt64 b = FitsInNBitsSigned b 64"

definition ToUint64 :: "bits \<Rightarrow> 64 word status_or option" where
  "ToUint64 b =
     (if ib_bit_count b = 0 then Some (Inr 0)
      else do {
        fits \<leftarrow> FitsInUint64 b;
        if \<not> fits then Some (Inl InvalidArgument)
        else do { w \<leftarrow> GetWord b 0; Some (Inr w) } })"

definition WordToUint64 :: "bits \<Rightarrow> nat \<Rightarrow> 64 word status_or option" where
  "WordToUint64 b word_number =
     (if ib_bit_count b = 0 then Some (Inr 0)
      else do { w \<leftarrow> GetWord b word_number; Some (Inr w) })"

definition ToInt64 :: "bits \<Rightarrow> 64 word status_or option" where
  "ToInt64 b = do {
     fits \<leftarrow> FitsInInt64 b;
     if \<not> fits then Some (Inl InvalidArgument)
     else do {
       word \<leftarrow> GetWord b 0;
       m \<leftarrow> msb b;
       Some (Inr (if m \<and> ib_bit_count b < 64 then word OR push_bit (ib_bit_count b) (- 1) else word)) } }"

definition UnsignedToInt64 :: "bits \<Rightarrow> 64 word status_or option" where
  "UnsignedToInt64 b =
     (if ib_bit_count b = 0 then Some (Inr 0)
      else do {
        fits \<leftarrow> FitsInInt64Unsigned b;
        if \<not> fits then Some (Inl InvalidArgument)
        else do {
          w \<leftarrow> GetWord b 0;
          CHECK (w \<le> 0x7FFFFFFFFFFFFFFF);
          Some (Inr w) } })"

definition ToBool :: "bits \<Rightarrow> bool status_or option" where
  "ToBool b =
     (if ib_bit_count b \<noteq> 1 then Some (Inl InvalidArgument)
      else do { x \<leftarrow> Get b 0; Some (Inr x) })"

text \<open>The callers' \<^verbatim>\<open>.value()\<close> on a converted value.\<close>

definition ToUint64_value :: "bits \<Rightarrow> 64 word option" where
  "ToUint64_value b = Option.bind (ToUint64 b) StatusOr_value"

definition ToInt64_value :: "bits \<Rightarrow> 64 word option" where
  "ToInt64_value b = Option.bind (ToInt64 b) StatusOr_value"

section \<open>Slices and ropes\<close>

definition Slice :: "bits \<Rightarrow> nat \<Rightarrow> nat \<Rightarrow> bits option" where
  "Slice b start width = do {
     CHECK (start + width \<le> ib_bit_count b);
     if start = 0 then Some (WithSize b width False)
     else Overwrite (InlineBitmap width False) b width 0 start }"

record bits_rope =
  rope_bitmap :: inline_bitmap
  rope_index :: nat

definition BitsRope :: "nat \<Rightarrow> bits_rope" where
  "BitsRope total_bit_count = \<lparr>rope_bitmap = InlineBitmap total_bit_count False, rope_index = 0\<rparr>"

definition rope_push_back :: "bits_rope \<Rightarrow> bits \<Rightarrow> bits_rope option" where
  "rope_push_back r b = do {
     bm \<leftarrow> Overwrite (rope_bitmap r) b (ib_bit_count b) (rope_index r) 0;
     Some \<lparr>rope_bitmap = bm, rope_index = rope_index r + ib_bit_count b\<rparr> }"

definition rope_push_back_bit :: "bits_rope \<Rightarrow> bool \<Rightarrow> bits_rope option" where
  "rope_push_back_bit r b = do {
     bm \<leftarrow> InlineBitmap_Set (rope_bitmap r) (rope_index r) b;
     Some \<lparr>rope_bitmap = bm, rope_index = rope_index r + 1\<rparr> }"

definition rope_Build :: "bits_rope \<Rightarrow> bits option" where
  "rope_Build r = do {
     CHECK (rope_index r = ib_bit_count (rope_bitmap r));
     Some (rope_bitmap r) }"

section \<open>Bit push buffer\<close>

type_synonym bit_push_buffer = "bool list"

definition PushBit :: "bit_push_buffer \<Rightarrow> bool \<Rightarrow> bit_push_buffer" where
  "PushBit buf b = buf @ [b]"

definition FlattenTo :: "bits \<Rightarrow> bit_push_buffer \<Rightarrow> bit_push_buffer option" where
  "FlattenTo b buf =
     foldM (\<lambda>i buf. do { x \<leftarrow> Get b (ib_bit_count b - i - 1); Some (PushBit buf x) })
       [0..<ib_bit_count b] buf"

definition ToBitmap :: "bit_push_buffer \<Rightarrow> inline_bitmap option" where
  "ToBitmap buf = FromBitsMsbIs0 buf"

definition size_in_bytes :: "bit_push_buffer \<Rightarrow> nat" where
  "size_in_bytes buf = nat (CeilOfRatio (int (length buf)) 8)"

definition GetUint8DataWithLsbPadding :: "bit_push_buffer \<Rightarrow> 8 word list option" where
  "GetUint8DataWithLsbPadding buf =
     foldM (\<lambda>i result. do {
         x \<leftarrow> nth_opt result (i div 8);
         set_opt result (i div 8) (x OR push_bit (7 - i mod 8) (of_bool (buf ! i))) })
       [0..<length buf] (replicate (nat (CeilOfRatio (int (length buf)) 8)) 0)"

definition GetUint8DataWithMsbPadding :: "bit_push_buffer \<Rightarrow> 8 word list option" where
  "GetUint8DataWithMsbPadding buf =
     (let n = length buf;
          msbyte_padding_bits = (if n mod 8 = 0 then 0 else 8 - n mod 8);
          msbyte_populated_bits = 8 - msbyte_padding_bits
      in foldM (\<lambda>i result.
           let target_bit_index =
                 (if i < msbyte_populated_bits then msbyte_populated_bits - i - 1
                  else 7 - (i + msbyte_padding_bits) mod 8);
               target_byte_index =
                 (if i < msbyte_populated_bits then 0 else (i + msbyte_padding_bits) div 8)
           in do {
             x \<leftarrow> nth_opt result target_byte_index;
             set_opt result target_byte_index (x OR push_bit target_bit_index (of_bool (buf ! i))) })
         [0..<n] (replicate (nat (CeilOfRatio (int n) 8)) 0))"

definition BitPushBuffer_ToString :: "bit_push_buffer \<Rightarrow> string" where
  "BitPushBuffer_ToString buf = ''0b'' @ map (\<lambda>b. if b then CHR ''1'' else CHR ''0'') buf"

end
