(* ===== verification/Bits_Rules.thy ===== *)
theory Bits_Rules
  imports Xls_Bits
begin

text \<open>
  The operations of \<^verbatim>\<open>Bits\<close> as rewrite rules over the number the vector holds. \<open>sv n v\<close>
  reads \<open>n\<close> bits in two's complement, \<open>bits_of_int n k\<close> writes an integer to \<open>n\<close> bits, and
  \<open>fits_signed n k\<close> says that nothing is lost.
\<close>

section \<open>Two's complement\<close>

definition sv :: "nat \<Rightarrow> nat \<Rightarrow> int" where
  "sv n v = (if n = 0 then 0 else signed_take_bit (n - 1) (int v))"

definition sval :: "bits \<Rightarrow> int" where
  "sval b = sv (ib_bit_count b) (bm_val b)"

definition bits_of_int :: "nat \<Rightarrow> int \<Rightarrow> bits" where
  "bits_of_int n k = mkBitmap n (nat (take_bit n k))"

definition fits_signed :: "nat \<Rightarrow> int \<Rightarrow> bool" where
  "fits_signed n k = (if n = 0 then k = 0 else - (2 ^ (n - 1)) \<le> k \<and> k < 2 ^ (n - 1))"

lemma sv_0 [simp]: "sv 0 v = 0" by (simp add: sv_def)

lemma sv_take_bit [simp]: "sv n (take_bit n v) = sv n v"
  by (cases n) (simp_all add: sv_def of_nat_take_bit signed_take_bit_take_bit)

lemma sval_mk [simp]: "sval (mkBitmap n v) = sv n v"
  by (simp add: sval_def)

lemma sv_cases:
  "sv n v = (if 0 < n \<and> bit v (n - 1) then int (take_bit n v) - 2 ^ n else int (take_bit n v))"
proof (cases n)
  case (Suc m)
  have "signed_take_bit m (int v) = int (take_bit (Suc m) v) - 2 ^ Suc m * of_bool (bit v m)"
    by (simp add: signed_take_bit_eq_take_bit_minus take_bit_of_nat bit_of_nat_iff_bit)
  then show ?thesis using Suc by (simp add: sv_def)
qed (simp add: sv_def)

lemma sv_fits: "fits_signed n (sv n v)"
  by (auto simp: fits_signed_def sv_def signed_take_bit_int_greater_eq_minus_exp
      signed_take_bit_int_less_exp)

lemma sv_neg_iff: "sv n v < 0 \<longleftrightarrow> 0 < n \<and> bit v (n - 1)"
  by (simp add: sv_def bit_of_nat_iff_bit)

lemma take_bit_sv [simp]: "take_bit n (sv n v) = int (take_bit n v)"
  by (cases n) (simp_all add: sv_def take_bit_signed_take_bit take_bit_of_nat)

lemma bits_of_int_sv [simp]: "bits_of_int n (sv n v) = mkBitmap n v"
  by (simp add: bits_of_int_def)

lemma bits_of_int_nat [simp]: "bits_of_int n (int v) = mkBitmap n v"
  by (simp add: bits_of_int_def take_bit_of_nat)

lemma ib_bit_count_bits_of_int [simp]: "ib_bit_count (bits_of_int n k) = n"
  by (simp add: bits_of_int_def)

lemma bits_of_int_cong: "take_bit n k = take_bit n l \<Longrightarrow> bits_of_int n k = bits_of_int n l"
  by (simp add: bits_of_int_def)

lemma fits_signed_mono: "fits_signed n k \<Longrightarrow> n \<le> m \<Longrightarrow> fits_signed m k"
proof (cases "n = 0")
  case True
  then show "fits_signed n k \<Longrightarrow> fits_signed m k" by (simp add: fits_signed_def)
next
  case False
  assume k: "fits_signed n k" "n \<le> m"
  then have "(2::int) ^ (n - 1) \<le> 2 ^ (m - 1)" by (intro power_increasing) auto
  moreover have "m \<noteq> 0" using k(2) False by simp
  ultimately show "fits_signed m k"
    using k(1) False unfolding fits_signed_def by (simp only: if_False) linarith
qed

lemma sv_of_int: "sv n (nat (take_bit n k)) = (if n = 0 then 0 else signed_take_bit (n - 1) k)"
  by (cases n) (simp_all add: sv_def signed_take_bit_take_bit)

lemma sv_of_int_fits: "fits_signed n k \<Longrightarrow> sv n (nat (take_bit n k)) = k"
  by (auto simp: sv_of_int fits_signed_def signed_take_bit_int_eq_self split: if_splits)

lemma sval_bits_of_int: "fits_signed n k \<Longrightarrow> sval (bits_of_int n k) = k"
  by (simp add: bits_of_int_def sv_of_int_fits)

lemma fits_signed_iff_bits:
  "fits_signed (Suc m) k \<longleftrightarrow> (\<forall>i\<ge>m. bit k i = (k < 0))"
proof
  assume "fits_signed (Suc m) k"
  then have eq: "signed_take_bit m k = k"
    by (simp add: fits_signed_def signed_take_bit_int_eq_self)
  have "bit k i = bit k m" if "m \<le> i" for i
    using that by (subst eq[symmetric]) (simp add: bit_signed_take_bit_iff min_def)
  moreover have "bit k m = (k < 0)" using eq by (metis signed_take_bit_negative_iff)
  ultimately show "\<forall>i\<ge>m. bit k i = (k < 0)" by blast
next
  assume h: "\<forall>i\<ge>m. bit k i = (k < 0)"
  have "signed_take_bit m k = k"
    using h by (intro bit_eqI) (auto simp: bit_signed_take_bit_iff min_def)
  then show "fits_signed (Suc m) k"
    by (metis fits_signed_def nat.simps(3) diff_Suc_1 signed_take_bit_int_greater_eq_minus_exp
        signed_take_bit_int_less_exp)
qed

section \<open>Construction\<close>

lemma FloorOfLog2_nat_len: "v \<noteq> 0 \<Longrightarrow> nat_len (unat v) = FloorOfLog2 v + 1"
  using FloorOfLog2_bounds[of v] nat_len_eqI[of "unat v" "FloorOfLog2 v"] by simp

lemma MinBitCountUnsigned_nat_len: "MinBitCountUnsigned v = nat_len (unat v)"
  by (simp add: MinBitCountUnsigned_def FloorOfLog2_nat_len)

lemma Bits_mk [bm_spec]: "Bits n = mkBitmap n 0"
  by (simp add: Bits_def bm_spec)

lemma AllOnes_mk [bm_spec]: "AllOnes n = mkBitmap n (mask n)"
  by (simp add: AllOnes_def bm_spec)

lemma UBits_mk: "unat v < 2 ^ n \<Longrightarrow> UBits v n = Some (mkBitmap n (unat v))"
  using nat_len_le_iff[of "unat v" n]
  by (simp add: UBits_def UBitsWithStatus_def MinBitCountUnsigned_nat_len bm_spec)

lemma UBits_None: "\<not> unat v < 2 ^ n \<Longrightarrow> UBits v n = None"
  using nat_len_le_iff[of "unat v" n]
  by (simp add: UBits_def UBitsWithStatus_def MinBitCountUnsigned_nat_len)

lemma UBits_0 [bm_spec]: "UBits 0 n = Some (mkBitmap n 0)"
  by (simp add: UBits_mk)

lemma UBits_1 [bm_spec]: "0 < n \<Longrightarrow> UBits 1 n = Some (mkBitmap n 1)"
  using UBits_mk[of 1 n] one_less_power[of "2::nat" n] by simp

lemma MinBitCountSigned_le_iff: "MinBitCountSigned v \<le> n \<longleftrightarrow> fits_signed n (sint v)"
proof -
  consider "v = 0" | "v \<noteq> 0" "sint v < 0" | "v \<noteq> 0" "0 \<le> sint v" by linarith
  then show ?thesis
  proof cases
    case 1
    then show ?thesis by (simp add: MinBitCountSigned_def fits_signed_def)
  next
    case 2
    have "int (unat (- (v + 1))) = - sint v - 1"
    proof -
      have "- (v + 1) = word_of_int (- sint v - 1)" by simp
      moreover have "0 \<le> - sint v - 1" "- sint v - 1 < 2 ^ 64"
        using 2 sint_greater_eq[of v] by auto
      moreover have "uint (word_of_int (- sint v - 1) :: 64 word) = take_bit 64 (- sint v - 1)"
        by (simp only: unsigned_of_int) simp
      ultimately show ?thesis by (simp only: take_bit_int_eq_self) simp
    qed
    then have "unat (- (v + 1)) < 2 ^ m \<longleftrightarrow> - (2 ^ m) \<le> sint v" for m
      using of_nat_less_iff[of "unat (- (v + 1))" "2 ^ m", where ?'a = int] by simp linarith
    then show ?thesis using 2 nat_len_le_iff[of "unat (- (v + 1))" "n - 1"]
      by (cases n) (auto simp: MinBitCountSigned_def MinBitCountUnsigned_nat_len fits_signed_def
          intro: less_le_trans[of _ 0])
  next
    case 3
    then have "\<not> bit v 63" using bit_last_iff[of v] by simp
    then have "int (unat v) = sint v"
      by (intro bit_eqI) (auto simp: bit_of_nat_iff_bit bit_unsigned_iff bit_sint_iff not_less
          dest: bit_imp_le_length)
    then have "unat v < 2 ^ m \<longleftrightarrow> sint v < 2 ^ m" for m
      by (metis of_nat_less_iff of_nat_numeral of_nat_power)
    moreover have "sint v \<noteq> 0" using 3 by (metis sint_0 signed_word_eqI)
    ultimately show ?thesis using 3 nat_len_le_iff[of "unat v" "n - 1"]
      by (cases n) (auto simp: MinBitCountSigned_def MinBitCountUnsigned_nat_len fits_signed_def
          intro: order_trans[of _ 0])
  qed
qed

lemma SBits_mk: "fits_signed n (sint v) \<Longrightarrow> SBits v n = Some (bits_of_int n (sint v))"
proof -
  have "(signed_drop_bit 63 v \<noteq> 0) = bit v 63"
  proof
    assume "signed_drop_bit 63 v \<noteq> 0"
    then obtain k where "bit (signed_drop_bit 63 v) k"
      using bit_word_eqI[of "signed_drop_bit 63 v" 0] by auto
    then show "bit v 63"
      by (cases k) (auto simp: bit_signed_drop_bit_iff dest: bit_imp_le_length split: if_splits)
  next
    assume "bit v 63"
    then have "bit (signed_drop_bit 63 v) 0" by (simp add: bit_signed_drop_bit_iff)
    then show "signed_drop_bit 63 v \<noteq> 0" by auto
  qed
  then have "(signed_drop_bit 63 v \<noteq> 0) = (sint v < 0)" using bit_last_iff[of v] by simp
  then show "fits_signed n (sint v) \<Longrightarrow> ?thesis"
    using MinBitCountSigned_le_iff[of v n]
    by (simp add: SBits_def SBitsWithStatus_def FromWord_sint_mk bits_of_int_def not_less[symmetric])
qed


section \<open>Reading bits\<close>

lemma SBits_None: "\<not> fits_signed n (sint v) \<Longrightarrow> SBits v n = None"
  using MinBitCountSigned_le_iff[of v n] by (simp add: SBits_def SBitsWithStatus_def)

lemma Get_mk [bm_spec]: "i < n \<Longrightarrow> Get (mkBitmap n v) i = Some (bit v i)"
  by (simp add: Get_def bm_spec)

lemma msb_mk [bm_spec]: "msb (mkBitmap n v) = Some (0 < n \<and> bit v (n - 1))"
  by (simp add: msb_def bm_spec)

lemma GetFromMsb_mk [bm_spec]: "i < n \<Longrightarrow> GetFromMsb (mkBitmap n v) i = Some (bit v (n - i - 1))"
  by (simp add: GetFromMsb_def bm_spec)

lemma PowerOfTwo_mk [bm_spec]: "i < n \<Longrightarrow> PowerOfTwo i n = Some (mkBitmap n (2 ^ i))"
  by (simp add: PowerOfTwo_def bm_spec set_bit_eq)

lemma UpdateWithSet_mk [bm_spec]:
  "i < n \<Longrightarrow> UpdateWithSet (mkBitmap n v) i b =
     Some (mkBitmap n (if b then set_bit i v else unset_bit i v))"
  by (simp add: UpdateWithSet_def bm_spec)

lemma MaxSigned_mk [bm_spec]: "MaxSigned n = Some (mkBitmap n (mask (n - 1)))"
proof (cases n)
  case 0
  then show ?thesis by (simp add: MaxSigned_def SBits_mk fits_signed_def bits_of_int_def)
next
  case (Suc m)
  have "unset_bit m (mask (Suc m)) = (mask m :: nat)"
    by (rule bit_eqI) (auto simp: bit_simps)
  then show ?thesis using Suc by (simp add: MaxSigned_def bm_spec)
qed

lemma MinSigned_mk [bm_spec]: "0 < n \<Longrightarrow> MinSigned n = Some (mkBitmap n (2 ^ (n - 1)))"
  by (simp add: MinSigned_def bm_spec)

lemma ToBytes_mk [bm_spec]:
  "ToBytes (mkBitmap n v) = map (\<lambda>j. word_of_nat (drop_bit (8 * j) (take_bit n v))) [0..<nbytes n]"
  by (simp add: ToBytes_def bm_spec)

lemma FromBytes_mk [bm_spec]:
  "nbytes n \<le> length bytes \<Longrightarrow> FromBytes bytes n = Some (mkBitmap n (bytes_val bytes))"
  by (simp add: FromBytes_def bm_spec)

lemma ToBitVector_mk [bm_spec]: "ToBitVector (mkBitmap n v) = Some (map (bit v) [0..<n])"
  by (simp add: ToBitVector_def, rule mapM_pure) (simp add: bm_spec)

lemma IsZero_mk [bm_spec]: "IsZero (mkBitmap n v) = Some (take_bit n v = 0)"
  by (simp add: IsZero_def bm_spec)

lemma Bits_IsAllOnes_mk [bm_spec]: "Bits_IsAllOnes (mkBitmap n v) = Some (take_bit n v = mask n)"
  by (simp add: Bits_IsAllOnes_def bm_spec)

lemma Bits_eq_mk [bm_spec]:
  "Bits_eq (mkBitmap n v) (mkBitmap m w) = Some (n = m \<and> take_bit n v = take_bit n w)"
  by (simp add: Bits_eq_def bm_spec)

lemma PopCount_mk [bm_spec]: "PopCount (mkBitmap n v) = Some (card {i. i < n \<and> bit v i})"
proof -
  have "k \<le> n \<Longrightarrow> foldM (\<lambda>i cnt. do { x \<leftarrow> Get (mkBitmap n v) i; Some (if x then cnt + 1 else cnt) })
      [0..<k] 0 = Some (card {i. i < k \<and> bit v i})" for k
  proof (induction k)
    case (Suc k)
    have "{i. i < Suc k \<and> bit v i} = (if bit v k then insert k else id) {i. i < k \<and> bit v i}"
      by (auto simp: less_Suc_eq)
    then show ?case using Suc by (simp add: foldM_append bm_spec)
  qed simp
  from this[of n] show ?thesis by (simp add: PopCount_def)
qed

lemma count_loop_mk:
  assumes "\<And>i. i < n \<Longrightarrow> f i () = Some (if P i then Return i else Continue ())"
  shows "Option.bind (loop f [0..<n] ()) (\<lambda>r. Some (step_result (\<lambda>_. n) r)) =
    Some (length (takeWhile (\<lambda>i. \<not> P i) [0..<n]))"
proof -
  have "loop f [0..<n] () = Some (case find P [0..<n] of None \<Rightarrow> Continue () | Some i \<Rightarrow> Return i)"
    by (rule loop_find) (simp add: assms)
  then show ?thesis using find_upt_takeWhile[where P = P and lo = 0 and n = n] by (simp split: option.splits)
qed

lemma CountTrailingZeros_mk [bm_spec]:
  "CountTrailingZeros (mkBitmap n v) = Some (length (takeWhile (\<lambda>i. \<not> bit v i) [0..<n]))"
  unfolding CountTrailingZeros_def ib_bit_count_mkBitmap by (rule count_loop_mk) (simp add: bm_spec)

lemma CountTrailingOnes_mk [bm_spec]:
  "CountTrailingOnes (mkBitmap n v) = Some (length (takeWhile (\<lambda>i. bit v i) [0..<n]))"
  unfolding CountTrailingOnes_def ib_bit_count_mkBitmap
  using count_loop_mk[where P = "\<lambda>i. \<not> bit v i" and n = n] by (simp add: bm_spec)

lemma CountLeadingOnes_mk [bm_spec]:
  "CountLeadingOnes (mkBitmap n v) = Some (length (takeWhile (\<lambda>i. bit v (n - 1 - i)) [0..<n]))"
  unfolding CountLeadingOnes_def ib_bit_count_mkBitmap
  using count_loop_mk[where P = "\<lambda>i. \<not> bit v (n - 1 - i)" and n = n] by (simp add: bm_spec)

lemma length_takeWhile_upt:
  assumes "k \<le> n" "\<And>i. i < k \<Longrightarrow> P i" "k < n \<Longrightarrow> \<not> P k"
  shows "length (takeWhile P [0..<n]) = k"
proof -
  have "[0..<n] = [0..<k] @ [k..<n]" using assms(1) by (metis upt_add_eq_append le_add_diff_inverse zero_le)
  moreover have "takeWhile P [k..<n] = []" using assms(3) by (cases "k < n") (simp_all add: upt_conv_Cons)
  moreover have "takeWhile P [0..<k] = [0..<k]" using assms(2) by (simp add: takeWhile_eq_all_conv)
  ultimately show ?thesis by (simp add: takeWhile_append)
qed

lemma CountLeadingZeros_mk [bm_spec]:
  "CountLeadingZeros (mkBitmap n v) = Some (n - nat_len (take_bit n v))"
proof -
  let ?V = "take_bit n v"
  have le: "nat_len ?V \<le> n" by (simp add: nat_len_le_iff)
  have "length (takeWhile (\<lambda>i. \<not> bit v (n - 1 - i)) [0..<n]) = n - nat_len ?V"
  proof (rule length_takeWhile_upt)
    fix i assume i: "i < n - nat_len ?V"
    then have "nat_len ?V \<le> n - 1 - i" by linarith
    then have "\<not> bit ?V (n - 1 - i)" using nat_lt_exp_len[of ?V] nat_lt_exp_iff_bits by blast
    then show "\<not> bit v (n - 1 - i)" using i by (simp add: bit_take_bit_iff)
  next
    assume "n - nat_len ?V < n"
    then have "nat_len ?V \<noteq> 0" by linarith
    then have "?V \<noteq> 0" by simp
    then have "bit ?V (nat_len ?V - 1)" by (rule bit_nat_len)
    moreover have "n - 1 - (n - nat_len ?V) = nat_len ?V - 1" using le by linarith
    ultimately show "\<not> \<not> bit v (n - 1 - (n - nat_len ?V))" by (simp add: bit_take_bit_iff)
  qed simp
  then show ?thesis unfolding CountLeadingZeros_def ib_bit_count_mkBitmap
    by (subst count_loop_mk[where P = "\<lambda>i. bit v (n - 1 - i)"]) (simp_all add: bm_spec)
qed

section \<open>Conversions\<close>

lemma FitsInNBitsUnsigned_mk [bm_spec]:
  "FitsInNBitsUnsigned (mkBitmap n v) k = Some (take_bit n v < 2 ^ k)"
proof -
  have "(\<exists>i\<in>set [k..<n]. bit v i) = (\<not> take_bit n v < 2 ^ k)"
    by (auto simp: nat_lt_exp_iff_bits bit_take_bit_iff)
  then show ?thesis unfolding FitsInNBitsUnsigned_def
    by (subst loop_any[where P = "bit v" and r = False]) (auto simp: bm_spec)
qed

lemma bit_sv: "0 < n \<Longrightarrow> bit (sv n v) i = bit v (min (n - 1) i)"
  by (simp add: sv_def bit_signed_take_bit_iff bit_of_nat_iff_bit)

lemma all_ge_if_iff:
  "(\<forall>i\<ge>m. (if i < n then P i else Q) = Q) = (\<forall>i\<in>set [m..<n::nat]. P i = Q)"
proof
  assume h: "\<forall>i\<ge>m. (if i < n then P i else Q) = Q"
  show "\<forall>i\<in>set [m..<n]. P i = Q" using h by (metis atLeastLessThan_iff set_upt)
qed simp

lemma FitsInNBitsSigned_mk [bm_spec]:
  "FitsInNBitsSigned (mkBitmap n v) k = Some (fits_signed k (sv n v))"
proof (cases k)
  case 0
  have "(sv n v = 0) = (take_bit n v = 0)"
  proof
    assume "sv n v = 0"
    then show "take_bit n v = 0" using take_bit_sv[of n v] by simp
  next
    assume "take_bit n v = 0"
    then have "sv n v = sv n 0" using sv_take_bit[of n v] by simp
    then show "sv n v = 0" by (simp add: sv_def)
  qed
  then show ?thesis using 0 by (simp add: FitsInNBitsSigned_def bm_spec fits_signed_def)
next
  case (Suc m)
  have "fits_signed k (sv n v) = (\<not> (\<exists>i\<in>set [m..<n]. bit v i \<noteq> (0 < n \<and> bit v (n - 1))))"
  proof (cases "n = 0")
    case True
    then show ?thesis by (simp add: fits_signed_def)
  next
    case False
    have "bit (sv n v) i = (if i < n then bit v i else bit v (n - 1))" for i
      using False by (cases "i < n - 1"; cases "i = n - 1") (auto simp: bit_sv min_def)
    then have "(\<forall>i\<ge>m. bit (sv n v) i = (sv n v < 0)) = (\<forall>i\<in>set [m..<n]. bit v i = bit v (n - 1))"
      using False
      by (auto simp: sv_neg_iff all_ge_if_iff[of m n "bit v" "bit v (n - 1)", simplified])
    then show ?thesis using Suc False by (simp add: fits_signed_iff_bits)
  qed
  then show ?thesis using Suc unfolding FitsInNBitsSigned_def
    by (subst loop_any[where P = "\<lambda>i. bit v i \<noteq> (0 < n \<and> bit v (n - 1))" and r = False])
       (auto simp: bm_spec)
qed


lemma GetWord_0_mk:
  "GetWord (mkBitmap n v) 0 = Some (word_of_nat (take_bit n v))"
  by (cases "n = 0") (simp_all add: bm_spec, simp add: GetWord_def)

lemma word_of_nat_take_bit_min:
  "(word_of_nat (take_bit n v) :: 64 word) = word_of_int (take_bit n (int v))"
  by (simp add: take_bit_of_nat)

lemma ToUint64_mk [bm_spec]:
  "ToUint64 (mkBitmap n v) =
     Some (if take_bit n v < 2 ^ 64 then Inr (word_of_nat (take_bit n v)) else Inl InvalidArgument)"
  by (cases "n = 0") (auto simp: ToUint64_def FitsInUint64_def FitsInNBitsUnsigned_mk GetWord_0_mk)

lemma take_bit_lt_word: "n \<le> 64 \<Longrightarrow> take_bit n (v::nat) < 2 ^ 64"
  by (rule less_le_trans[OF take_bit_nat_less_exp power_increasing]) auto

lemma ToUint64_value_mk [bm_spec]:
  "n \<le> 64 \<Longrightarrow> ToUint64_value (mkBitmap n v) = Some (word_of_nat (take_bit n v))"
  using take_bit_lt_word[of n v] by (simp add: ToUint64_value_def ToUint64_mk)

lemma ToInt64_mk [bm_spec]:
  "ToInt64 (mkBitmap n v) =
     Some (if fits_signed 64 (sv n v) then Inr (word_of_int (sv n v)) else Inl InvalidArgument)"
proof -
  let ?w = "word_of_nat (take_bit n v) :: 64 word"
  have "(if (0 < n \<and> bit v (n - 1)) \<and> n < 64 then ?w OR push_bit n (- 1) else ?w) = word_of_int (sv n v)"
    if "fits_signed 64 (sv n v)"
  proof (rule bit_word_eqI)
    fix i assume i: "i < LENGTH(64)"
    show "bit (if (0 < n \<and> bit v (n - 1)) \<and> n < 64 then ?w OR push_bit n (- 1) else ?w) i =
      bit (word_of_int (sv n v) :: 64 word) i"
    proof (cases "n = 0")
      case False
      then consider "i < n - 1" | "i = n - 1" | "n \<le> i" by linarith
      then show ?thesis using i False by cases (auto simp: bit_simps bit_sv min_def)
    qed simp
  qed
  then show ?thesis
    by (cases "fits_signed 64 (sv n v)")
       (auto simp add: ToInt64_def FitsInInt64_def FitsInNBitsSigned_mk GetWord_0_mk msb_mk
          simp del: push_bit_minus_one_eq_not_mask split: if_splits)
qed

lemma ToInt64_value_mk [bm_spec]:
  "n \<le> 64 \<Longrightarrow> ToInt64_value (mkBitmap n v) = Some (word_of_int (sv n v))"
  using fits_signed_mono[OF sv_fits, of n 64 v] by (simp add: ToInt64_value_def ToInt64_mk)

lemma sint_word_of_int_fits: "fits_signed 64 k \<Longrightarrow> sint (word_of_int k :: 64 word) = k"
  by (simp add: fits_signed_def signed_take_bit_int_eq_self sint_sbintrunc' flip: signed_take_bit_eq)

lemma UnsignedToInt64_mk [bm_spec]:
  "UnsignedToInt64 (mkBitmap n v) =
     Some (if take_bit n v < 2 ^ 63 then Inr (word_of_nat (take_bit n v)) else Inl InvalidArgument)"
proof -
  have "(word_of_nat (take_bit n v) :: 64 word) \<le> 0x7FFFFFFFFFFFFFFF" if "take_bit n v < 2 ^ 63"
  proof -
    have "unat (word_of_nat (take_bit n v) :: 64 word) = take_bit n v"
      using that by (simp add: unat_of_nat)
    then show ?thesis using that by (simp add: word_le_nat_alt)
  qed
  then show ?thesis
    by (cases "n = 0") (auto simp: UnsignedToInt64_def FitsInInt64Unsigned_def FitsInNBitsUnsigned_mk GetWord_0_mk)
qed

section \<open>Slices and concatenation\<close>

lemma Slice_mk [bm_spec]:
  assumes "s + w \<le> n"
  shows "Slice (mkBitmap n v) s w = Some (mkBitmap w (drop_bit s v))"
proof (cases "s = 0")
  case True
  then show ?thesis using assms by (simp add: Slice_def bm_spec mkBitmap_eq_iff)
next
  case False
  then show ?thesis using assms by (simp add: Slice_def bm_spec mkBitmap_eq_iff)
qed

lemma Slice_None: "\<not> s + w \<le> n \<Longrightarrow> Slice (mkBitmap n v) s w = None"
  by (simp add: Slice_def)

text \<open>A rope of width \<open>n\<close> that holds the number \<open>v\<close> in its first \<open>k\<close> bits.\<close>

definition mkRope :: "nat \<Rightarrow> nat \<Rightarrow> nat \<Rightarrow> bits_rope" where
  "mkRope n k v = \<lparr>rope_bitmap = mkBitmap n (take_bit k v), rope_index = k\<rparr>"

lemma BitsRope_mk [bm_spec]: "BitsRope n = mkRope n 0 0"
  by (simp add: BitsRope_def mkRope_def bm_spec)

lemma rope_push_back_mk [bm_spec]:
  assumes "k + m \<le> n"
  shows "rope_push_back (mkRope n k v) (mkBitmap m w) =
    Some (mkRope n (k + m) (take_bit k v OR push_bit k w))"
proof -
  have "take_bit k (take_bit k v) OR push_bit k (take_bit m (drop_bit 0 w)) OR
      push_bit (k + m) (drop_bit (k + m) (take_bit k v)) = take_bit (k + m) (take_bit k v OR push_bit k w)"
    by (rule bit_eqI) (auto simp: bit_simps)
  then show ?thesis using assms by (simp add: rope_push_back_def mkRope_def bm_spec)
qed

lemma rope_push_back_bit_mk [bm_spec]:
  assumes "k < n"
  shows "rope_push_back_bit (mkRope n k v) b = Some (mkRope n (k + 1) (take_bit k v OR push_bit k (of_bool b)))"
proof -
  have "mkBitmap n (if b then set_bit k (take_bit k v) else unset_bit k (take_bit k v)) =
      mkBitmap n (take_bit (k + 1) (take_bit k v OR push_bit k (of_bool b)))"
    by (rule arg_cong, rule bit_eqI) (auto simp: bit_simps possible_bit_def)
  then show ?thesis using assms by (simp add: rope_push_back_bit_def mkRope_def bm_spec)
qed

lemma rope_Build_mk [bm_spec]: "rope_Build (mkRope n n v) = Some (mkBitmap n v)"
  by (simp add: rope_Build_def mkRope_def)


lemma FlattenTo_mk [bm_spec]:
  "FlattenTo (mkBitmap n v) buf = Some (buf @ map (bit v) (rev [0..<n]))"
proof -
  have "k \<le> n \<Longrightarrow> foldM (\<lambda>i buf. do { x \<leftarrow> Get (mkBitmap n v) (n - i - 1); Some (PushBit buf x) })
      [0..<k] buf = Some (buf @ map (\<lambda>i. bit v (n - i - 1)) [0..<k])" for k
    by (induction k) (auto simp: foldM_append bm_spec PushBit_def)
  moreover have "map (\<lambda>i. bit v (n - i - 1)) [0..<n] = map (bit v) (rev [0..<n])"
    by (intro nth_equalityI) (auto simp: rev_nth)
  ultimately show ?thesis by (simp add: FlattenTo_def)
qed

lemma horner_bits: "horner_sum of_bool 2 (map (bit v) [0..<n]) = take_bit n (v::nat)"
  by (rule bit_eqI) (auto simp: bit_horner_sum_bit_iff bit_take_bit_iff)

lemma ToBitmap_Flatten: "ToBitmap (map (bit v) (rev [0..<n])) = Some (mkBitmap n v)"
  by (simp add: ToBitmap_def FromBitsMsbIs0_mk rev_map horner_bits)

text \<open>A vector with a single run of ones is a shifted mask.\<close>

lemma run_mask_iff:
  fixes V :: nat
  assumes "\<And>i. i < t \<Longrightarrow> \<not> bit V i" "\<And>i. l \<le> i \<Longrightarrow> \<not> bit V i"
  shows "(\<forall>i\<in>{t..<l}. bit V i) = (V = push_bit t (mask (l - t)))"
proof -
  have "(V = push_bit t (mask (l - t))) = (\<forall>i. bit V i = (t \<le> i \<and> i < l))"
  proof -
    have "bit (push_bit t (mask (l - t)) :: nat) i = (t \<le> i \<and> i < l)" for i
      by (auto simp: bit_simps)
    then show ?thesis by (simp add: bit_eq_iff[of V])
  qed
  also have "\<dots> = (\<forall>i\<in>{t..<l}. bit V i)"
    using assms by (metis atLeastLessThan_iff not_le)
  finally show ?thesis by simp
qed

lemma trailing_zero_bits: "i < length (takeWhile (\<lambda>i. \<not> bit v i) [0..<n]) \<Longrightarrow> \<not> bit (v::nat) i"
proof -
  assume lt: "i < length (takeWhile (\<lambda>i. \<not> bit v i) [0..<n])"
  then have "[0..<n] ! i = i" using length_takeWhile_le[of "\<lambda>i. \<not> bit v i" "[0..<n]"] by simp
  then show "\<not> bit v i" using takeWhile_nth[OF lt] nth_mem[OF lt] set_takeWhileD by metis
qed

text \<open>The three counts of \<^verbatim>\<open>HasSingleRunOfSetBits\<close>: it answers exactly on shifted masks.\<close>

lemma HasSingleRunOfSetBits_mk:
  fixes n v
  defines "V \<equiv> take_bit n v"
  defines "t \<equiv> length (takeWhile (\<lambda>i. \<not> bit v i) [0..<n])" and "l \<equiv> nat_len (take_bit n v)"
  shows "HasSingleRunOfSetBits (mkBitmap n v) =
    Some (if V \<noteq> 0 \<and> V = push_bit t (mask (l - t)) then Some (n - l, l - t, t) else None)"
proof (cases "V = 0")
  case True
  then have "\<not> bit v i" if "i < n" for i using that
    by (metis V_def bit_take_bit_iff bit_0_eq bot_apply bot_bool_def)
  then have "t = n" unfolding t_def by (intro length_takeWhile_upt) auto
  then show ?thesis using True
    by (simp add: HasSingleRunOfSetBits_def bm_spec t_def V_def)
next
  case False
  have ln: "l \<le> n" by (simp add: l_def nat_len_le_iff)
  have bl: "bit V (l - 1)" using bit_nat_len[OF False] by (simp add: l_def V_def)
  have low: "\<not> bit V i" if "i < t" for i
    using that trailing_zero_bits[of i v n] by (auto simp: t_def V_def bit_take_bit_iff)
  have high: "\<not> bit V i" if "l \<le> i" for i
    using that nat_lt_exp_len[of V] nat_lt_exp_iff_bits unfolding l_def V_def by blast
  have "l \<noteq> 0" using False by (simp add: l_def V_def)
  then have tl: "t < l" using low[of "l - 1"] bl by (cases "t < l") auto
  have any: "loop (\<lambda>i _. do { x \<leftarrow> Get (mkBitmap n v) i; Some (if \<not> x then Return None else Continue ()) })
      [t..<l] () = Some (if \<exists>i\<in>set [t..<l]. \<not> bit v i then Return (None :: (nat \<times> nat \<times> nat) option) else Continue ())"
    using ln by (intro loop_any) (simp add: bm_spec)
  have iff: "(\<exists>i\<in>set [t..<l]. \<not> bit v i) = (V \<noteq> push_bit t (mask (l - t)))"
  proof -
    have "(\<forall>i\<in>{t..<l}. bit V i) = (\<forall>i\<in>{t..<l}. bit v i)" using ln by (auto simp: V_def bit_take_bit_iff)
    then show ?thesis using run_mask_iff[of t V l, OF low high] by auto
  qed
  have nl: "n - (n - l) = l" using ln by simp
  show ?thesis unfolding HasSingleRunOfSetBits_def ib_bit_count_mkBitmap CountLeadingZeros_mk
      CountTrailingZeros_mk t_def[symmetric] l_def[symmetric]
    using False tl ln iff by (auto simp: nl any)
qed

end
