(* ===== verification/Big_Int.thy ===== *)
theory Big_Int
  imports Bits_Rules
begin

text \<open>
  \<^verbatim>\<open>xls/ir/big_int.h\<close> and \<^verbatim>\<open>big_int.cc\<close>: signed integers of any size over the BIGNUM library
  of BoringSSL. The library is not part of the repository, so its functions are a
  parameter, the record \<open>bn_lib\<close>: a value of it is what the C++ code calls. The locale
  \<open>bignum\<close> states what the library documents about them, in terms of the integer
  \<open>bv x\<close> a BIGNUM denotes, with allocations that succeed. Its lemmas say what the class
  computes; they hold for every library with these laws, and the integers of HOL are one.
\<close>

section \<open>The library's interface\<close>

record 'bn bn_lib =
  BN_init :: "'bn"
  BN_bin2bn :: "8 word list \<Rightarrow> 'bn option"
  BN_bn2bin_padded :: "nat \<Rightarrow> 'bn \<Rightarrow> 8 word list option"
  BN_add_word :: "'bn \<Rightarrow> 64 word \<Rightarrow> 'bn option"
  BN_sub_word :: "'bn \<Rightarrow> 64 word \<Rightarrow> 'bn option"
  BN_set_negative :: "'bn \<Rightarrow> bool \<Rightarrow> 'bn"
  BN_is_negative :: "'bn \<Rightarrow> bool"
  BN_is_zero :: "'bn \<Rightarrow> bool"
  BN_is_odd :: "'bn \<Rightarrow> bool"
  BN_num_bits :: "'bn \<Rightarrow> nat"
  BN_num_bytes :: "'bn \<Rightarrow> nat"
  BN_cmp :: "'bn \<Rightarrow> 'bn \<Rightarrow> int"
  BN_one :: "'bn option"
  BN_add :: "'bn \<Rightarrow> 'bn \<Rightarrow> 'bn option"
  BN_sub :: "'bn \<Rightarrow> 'bn \<Rightarrow> 'bn option"
  BN_mul :: "'bn \<Rightarrow> 'bn \<Rightarrow> 'bn option"
  BN_div :: "'bn \<Rightarrow> 'bn \<Rightarrow> ('bn \<times> 'bn) option"
  BN_lshift :: "'bn \<Rightarrow> nat \<Rightarrow> 'bn"
  BN_bn2dec :: "'bn \<Rightarrow> string option"
  BN_bn2hex :: "'bn \<Rightarrow> string option"

section \<open>The class\<close>

definition BigInt_eq :: "'bn bn_lib \<Rightarrow> 'bn \<Rightarrow> 'bn \<Rightarrow> bool" where
  "BigInt_eq bn x y = (BN_cmp bn x y = 0)"

definition MakeUnsigned :: "'bn bn_lib \<Rightarrow> bits \<Rightarrow> 'bn option" where
  "MakeUnsigned bn b = BN_bin2bn bn (rev (ToBytes b))"

definition MakeSigned :: "'bn bn_lib \<Rightarrow> bits \<Rightarrow> 'bn option" where
  "MakeSigned bn b = do {
     m \<leftarrow> msb b;
     if ib_bit_count b = 0 \<or> \<not> m then MakeUnsigned bn b
     else do {
       let byte_vector = map (\<lambda>x. NOT x) (rev (ToBytes b));
       let bits_in_msb = ib_bit_count b mod 8;
       byte_vector \<leftarrow> (if bits_in_msb \<noteq> 0 then do {
                         x \<leftarrow> nth_opt byte_vector 0;
                         set_opt byte_vector 0 (x AND ucast (Mask bits_in_msb)) }
                       else Some byte_vector);
       v \<leftarrow> BN_bin2bn bn byte_vector;
       v \<leftarrow> BN_add_word bn v 1;
       Some (BN_set_negative bn v True) } }"

definition BigInt_Zero :: "'bn bn_lib \<Rightarrow> 'bn" where
  "BigInt_Zero bn = BN_init bn"

definition BigInt_One :: "'bn bn_lib \<Rightarrow> 'bn option" where
  "BigInt_One bn = BN_one bn"

definition BigInt_Negate :: "'bn bn_lib \<Rightarrow> 'bn \<Rightarrow> 'bn" where
  "BigInt_Negate bn x = BN_set_negative bn x (\<not> BN_is_negative bn x)"

definition BigInt_Absolute :: "'bn bn_lib \<Rightarrow> 'bn \<Rightarrow> 'bn" where
  "BigInt_Absolute bn x = BN_set_negative bn x False"

definition SignedBitCount :: "'bn bn_lib \<Rightarrow> 'bn \<Rightarrow> nat option" where
  "SignedBitCount bn x =
     (if BN_is_zero bn x then Some 0
      else if BN_is_negative bn x then do {
        magnitude \<leftarrow> BN_sub_word bn (BigInt_Negate bn x) 1;
        Some (BN_num_bits bn magnitude + 1) }
      else Some (BN_num_bits bn x + 1))"

definition UnsignedBitCount :: "'bn bn_lib \<Rightarrow> 'bn \<Rightarrow> nat option" where
  "UnsignedBitCount bn x = do {
     CHECK (\<not> BN_is_negative bn x);
     Some (if BN_is_negative bn x then 0 else BN_num_bits bn x) }"

definition ToSignedBits :: "'bn bn_lib \<Rightarrow> 'bn \<Rightarrow> bits option" where
  "ToSignedBits bn x =
     (if BN_is_zero bn x then Some (Bits 0)
      else do {
        let is_negative = BN_is_negative bn x;
        let d = BN_set_negative bn x False;
        d \<leftarrow> (if is_negative then BN_sub_word bn d 1 else Some d);
        byte_vector \<leftarrow> BN_bn2bin_padded bn (BN_num_bytes bn d) d;
        let byte_vector = (if is_negative then map (\<lambda>b. NOT b) byte_vector else byte_vector);
        result_bit_count \<leftarrow> SignedBitCount bn x;
        let rope = BitsRope result_bit_count;
        b \<leftarrow> FromBytes (rev byte_vector) (result_bit_count - 1);
        rope \<leftarrow> rope_push_back rope b;
        rope \<leftarrow> rope_push_back rope (if is_negative then AllOnes 1 else Bits 1);
        rope_Build rope })"

definition ToUnsignedBits :: "'bn bn_lib \<Rightarrow> 'bn \<Rightarrow> bits option" where
  "ToUnsignedBits bn x = do {
     CHECK (\<not> BN_is_negative bn x);
     let bit_count = BN_num_bits bn x;
     byte_vector \<leftarrow> BN_bn2bin_padded bn (BN_num_bytes bn x) x;
     FromBytes (rev byte_vector) bit_count }"

definition ToSignedBitsWithBitCount :: "'bn bn_lib \<Rightarrow> 'bn \<Rightarrow> nat \<Rightarrow> bits status_or option" where
  "ToSignedBitsWithBitCount bn x bit_count = do {
     min_bit_count \<leftarrow> SignedBitCount bn x;
     if bit_count < min_bit_count then Some (Inl InvalidArgument)
     else do {
       let rope = BitsRope bit_count;
       b \<leftarrow> ToSignedBits bn x;
       rope \<leftarrow> rope_push_back rope b;
       rope \<leftarrow> rope_push_back rope
                 (if BN_is_negative bn x then AllOnes (bit_count - min_bit_count)
                  else Bits (bit_count - min_bit_count));
       r \<leftarrow> rope_Build rope;
       Some (Inr r) } }"

definition ToUnsignedBitsWithBitCount :: "'bn bn_lib \<Rightarrow> 'bn \<Rightarrow> nat \<Rightarrow> bits status_or option" where
  "ToUnsignedBitsWithBitCount bn x bit_count = do {
     min_bit_count \<leftarrow> UnsignedBitCount bn x;
     if bit_count < min_bit_count then Some (Inl InvalidArgument)
     else do {
       let rope = BitsRope bit_count;
       b \<leftarrow> ToUnsignedBits bn x;
       rope \<leftarrow> rope_push_back rope b;
       rope \<leftarrow> rope_push_back rope (Bits (bit_count - min_bit_count));
       r \<leftarrow> rope_Build rope;
       Some (Inr r) } }"

definition BigInt_ToDecimalString :: "'bn bn_lib \<Rightarrow> 'bn \<Rightarrow> string option" where
  "BigInt_ToDecimalString bn x = BN_bn2dec bn x"

definition BigInt_ToHexString :: "'bn bn_lib \<Rightarrow> 'bn \<Rightarrow> string option" where
  "BigInt_ToHexString bn x = BN_bn2hex bn x"

definition BigInt_Add :: "'bn bn_lib \<Rightarrow> 'bn \<Rightarrow> 'bn \<Rightarrow> 'bn option" where
  "BigInt_Add bn x y = BN_add bn x y"

definition BigInt_Sub :: "'bn bn_lib \<Rightarrow> 'bn \<Rightarrow> 'bn \<Rightarrow> 'bn option" where
  "BigInt_Sub bn x y = BN_sub bn x y"

definition BigInt_Mul :: "'bn bn_lib \<Rightarrow> 'bn \<Rightarrow> 'bn \<Rightarrow> 'bn option" where
  "BigInt_Mul bn x y = BN_mul bn x y"

definition BigInt_Div :: "'bn bn_lib \<Rightarrow> 'bn \<Rightarrow> 'bn \<Rightarrow> 'bn option" where
  "BigInt_Div bn x y = do { (q, r) \<leftarrow> BN_div bn x y; Some q }"

definition BigInt_Mod :: "'bn bn_lib \<Rightarrow> 'bn \<Rightarrow> 'bn \<Rightarrow> 'bn option" where
  "BigInt_Mod bn x y = do { (q, r) \<leftarrow> BN_div bn x y; Some r }"

definition BigInt_Exp2 :: "'bn bn_lib \<Rightarrow> nat \<Rightarrow> 'bn option" where
  "BigInt_Exp2 bn e = do {
     one \<leftarrow> BigInt_One bn;
     if e = 0 then Some one
     else do {
       CHECK (e \<le> 2147483647);
       Some (BN_lshift bn one e) } }"

definition BigInt_LessThan :: "'bn bn_lib \<Rightarrow> 'bn \<Rightarrow> 'bn \<Rightarrow> bool" where
  "BigInt_LessThan bn x y = (BN_cmp bn x y < 0)"

definition BigInt_GreaterThan :: "'bn bn_lib \<Rightarrow> 'bn \<Rightarrow> 'bn \<Rightarrow> bool" where
  "BigInt_GreaterThan bn x y = (BN_cmp bn x y > 0)"

definition BigInt_le :: "'bn bn_lib \<Rightarrow> 'bn \<Rightarrow> 'bn \<Rightarrow> bool" where
  "BigInt_le bn x y = (BN_cmp bn x y \<le> 0)"

definition BigInt_ge :: "'bn bn_lib \<Rightarrow> 'bn \<Rightarrow> 'bn \<Rightarrow> bool" where
  "BigInt_ge bn x y = (BN_cmp bn x y \<ge> 0)"

definition BigInt_IsEven :: "'bn bn_lib \<Rightarrow> 'bn \<Rightarrow> bool" where
  "BigInt_IsEven bn x = (\<not> BN_is_odd bn x)"

definition BigInt_IsPowerOfTwo :: "'bn bn_lib \<Rightarrow> 'bn \<Rightarrow> bool option" where
  "BigInt_IsPowerOfTwo bn x = do {
     one \<leftarrow> BigInt_One bn;
     if BigInt_LessThan bn x one then Some False
     else do {
       let num_significant_bits = BN_num_bits bn x;
       p \<leftarrow> BigInt_Exp2 bn (num_significant_bits - 1);
       Some (BigInt_eq bn p x) } }"

text \<open>\<open>None\<close> inside the result stands for the smallest \<^verbatim>\<open>int64_t\<close>, returned for zero.\<close>

definition BigInt_CeilingLog2 :: "'bn bn_lib \<Rightarrow> 'bn \<Rightarrow> nat option option" where
  "BigInt_CeilingLog2 bn x = do {
     CHECK (\<not> BN_is_negative bn x);
     if BigInt_eq bn x (BigInt_Zero bn) then Some None
     else do {
       one \<leftarrow> BigInt_One bn;
       if BigInt_eq bn x one then Some (Some 0)
       else do {
         let num_significant_bits = BN_num_bits bn x;
         p \<leftarrow> BigInt_Exp2 bn (num_significant_bits - 1);
         Some (Some (if BigInt_eq bn p x then num_significant_bits - 1 else num_significant_bits)) } } }"

partial_function (option) BigInt_FactorizePowerOfTwo_loop ::
    "'bn bn_lib \<Rightarrow> 'bn \<Rightarrow> 'bn \<Rightarrow> 'bn \<Rightarrow> nat \<Rightarrow> ('bn \<times> nat) option" where
  "BigInt_FactorizePowerOfTwo_loop bn zero two x pow =
     (if BigInt_IsEven bn x \<and> \<not> BigInt_eq bn x zero then
        Option.bind (BigInt_Div bn x two)
          (\<lambda>x'. BigInt_FactorizePowerOfTwo_loop bn zero two x' (pow + 1))
      else Some (x, pow))"

definition BigInt_FactorizePowerOfTwo :: "'bn bn_lib \<Rightarrow> 'bn \<Rightarrow> ('bn \<times> nat) option" where
  "BigInt_FactorizePowerOfTwo bn input = do {
     two \<leftarrow> BigInt_Exp2 bn 1;
     BigInt_FactorizePowerOfTwo_loop bn (BigInt_Zero bn) two input 0 }"

definition BigInt_ostream :: "'bn bn_lib \<Rightarrow> 'bn \<Rightarrow> string option" where
  "BigInt_ostream bn x =
     (if BigInt_LessThan bn x (BN_init bn) then do {
        b \<leftarrow> ToUnsignedBits bn (BigInt_Negate bn x);
        s \<leftarrow> ToDebugString b;
        Some (''-'' @ s) }
      else do {
        b \<leftarrow> ToUnsignedBits bn x;
        ToDebugString b })"

section \<open>Widths of integers\<close>

definition signed_len :: "int \<Rightarrow> nat" where
  "signed_len k =
     (if k = 0 then 0 else if k < 0 then nat_len (nat (- k - 1)) + 1 else nat_len (nat k) + 1)"

lemma signed_len_le_iff: "signed_len k \<le> n \<longleftrightarrow> fits_signed n k"
proof (cases n)
  case 0
  then show ?thesis by (simp add: signed_len_def fits_signed_def)
next
  case (Suc m)
  consider "k = 0" | "k < 0" | "0 < k" by linarith
  then show ?thesis
  proof cases
    case 2
    then have "nat (- k - 1) < 2 ^ m \<longleftrightarrow> - (2 ^ m) \<le> k"
      by (simp add: nat_less_iff) linarith
    then show ?thesis using 2 Suc nat_len_le_iff[of "nat (- k - 1)" m]
      by (auto simp: signed_len_def fits_signed_def intro: less_le_trans[of _ 0])
  next
    case 3
    then have "nat k < 2 ^ m \<longleftrightarrow> k < 2 ^ m" by (simp add: nat_less_iff)
    then show ?thesis using 3 Suc nat_len_le_iff[of "nat k" m]
      by (auto simp: signed_len_def fits_signed_def intro: order_trans[of _ 0])
  qed (simp add: signed_len_def fits_signed_def)
qed


lemma signed_len_pos: "k \<noteq> 0 \<Longrightarrow> 0 < signed_len k"
  by (simp add: signed_len_def)

lemma take_bit_nat_len: "take_bit (nat_len m) m = m"
  by (simp add: take_bit_nat_eq_self_iff nat_lt_exp_len)

section \<open>Bytes of inverted values\<close>

lemma bit_bytes_val_not:
  "bit (bytes_val (map (\<lambda>b. NOT b) bs)) i = (i div 8 < length bs \<and> \<not> bit (bytes_val bs) i)"
  by (auto simp: bit_bytes_val bit_not_iff)

lemma nat_of_bits_not: "int (nat_of_bits n (\<lambda>i. \<not> bit v i)) = 2 ^ n - 1 - int (take_bit n v)"
proof -
  have "nat_of_bits n (\<lambda>i. \<not> bit v i) + take_bit n v = nat_of_bits n (\<lambda>i. \<not> bit v i) OR take_bit n v"
    by (rule disjunctive_add) (auto simp: bit_take_bit_iff)
  also have "\<dots> = mask n" by (rule bit_eqI) (auto simp: bit_simps)
  finally have "int (nat_of_bits n (\<lambda>i. \<not> bit v i)) + int (take_bit n v) = int (mask n)"
    by (metis of_nat_add)
  then show ?thesis by (simp add: mask_eq_exp_minus_1 of_nat_diff)
qed

lemma inverted_bytes:
  fixes n v
  defines "L \<equiv> map (\<lambda>x. NOT x) (rev (ToBytes (mkBitmap n v)))"
  assumes n: "0 < n"
  shows "\<exists>bs. (if n mod 8 \<noteq> 0 then do {
        x \<leftarrow> nth_opt L 0;
        set_opt L 0 (x AND ucast (Mask (n mod 8))) } else Some L) = Some bs \<and>
      bytes_val (rev bs) = nat_of_bits n (\<lambda>i. \<not> bit v i)"
proof -
  let ?T = "ToBytes (mkBitmap n v)"
  have len: "length L = nbytes n" by (simp add: L_def bm_spec)
  have T: "bit (?T ! (i div 8)) (i mod 8) = (i < n \<and> bit v i)" if "i div 8 < nbytes n" for i
    using that by (simp add: bm_spec bit_simps)
  have rL: "rev L = map (\<lambda>x. NOT x) ?T" by (simp add: L_def rev_map)
  have lenT: "length ?T = nbytes n" by (simp add: bm_spec)
  show ?thesis
  proof (cases "n mod 8 = 0")
    case True
    then obtain q where q: "n = 8 * q" by (meson dvd_eq_mod_eq_0 dvdE)
    have "bytes_val (rev L) = nat_of_bits n (\<lambda>i. \<not> bit v i)"
    proof (rule bit_eqI)
      fix i
      have "i div 8 < nbytes n \<longleftrightarrow> i < n" unfolding q by (simp add: div_less_iff_less_mult mult.commute)
      then show "bit (bytes_val (rev L)) i = bit (nat_of_bits n (\<lambda>i. \<not> bit v i)) i"
        using T[of i] lenT by (auto simp: rL bit_bytes_val bit_not_iff)
    qed
    then show ?thesis using True by simp
  next
    case False
    let ?m = "ucast (Mask (n mod 8)) :: 8 word"
    let ?k = "n div 8"
    have "0 < n mod 8" using False by simp
    then have "n + 7 = (n mod 8 - 1) + 8 * (?k + 1)" using mult_div_mod_eq[of 8 n] by simp
    moreover have "((n mod 8 - 1) + 8 * (?k + 1)) div 8 = ?k + 1"
      by (subst div_mult_self2) (simp_all add: less_imp_diff_less)
    ultimately have nb: "nbytes n = Suc ?k" by (simp only: Suc_eq_plus1)
    let ?bs = "L[0 := L ! 0 AND ?m]"
    have L0: "L ! 0 = NOT (?T ! ?k)" using lenT nb by (simp add: L_def rev_nth)
    have rb: "rev ?bs = (map (\<lambda>x. NOT x) ?T)[?k := NOT (?T ! ?k) AND ?m]"
      using len nb by (simp add: rev_update rL L0)
    have m: "bit ?m j = (j < n mod 8)" for j
    proof -
      have "n mod 8 < 8" by simp
      then show ?thesis by (auto simp: bit_simps)
    qed
    have "bytes_val (rev ?bs) = nat_of_bits n (\<lambda>i. \<not> bit v i)"
    proof (rule bit_eqI)
      fix i
      consider "i div 8 < ?k" | "i div 8 = ?k" | "?k < i div 8" by linarith
      then show "bit (bytes_val (rev ?bs)) i = bit (nat_of_bits n (\<lambda>i. \<not> bit v i)) i"
      proof cases
        case 1
        then have "i < n" "i div 8 < nbytes n" using nb by linarith+
        then show ?thesis using 1 T[of i] lenT nb by (auto simp: rb bit_bytes_val bit_not_iff)
      next
        case 2
        have "i mod 8 < n mod 8 \<longleftrightarrow> i < n"
          using 2 mult_div_mod_eq[of 8 i] mult_div_mod_eq[of 8 n] by linarith
        then show ?thesis using 2 T[of i] lenT nb m by (auto simp: rb bit_bytes_val bit_not_iff bit_and_iff)
      next
        case 3
        then have "\<not> i < n" by linarith
        then show ?thesis using 3 lenT nb by (auto simp: rb bit_bytes_val)
      qed
    qed
    then show ?thesis using False len nb by simp
  qed
qed

section \<open>Digits\<close>

definition digit_char :: "nat \<Rightarrow> char" where
  "digit_char d = char_of (if d < 10 then 48 + d else 87 + d)"

fun nat_dec :: "nat \<Rightarrow> string" where
  "nat_dec m = (if m < 10 then [digit_char m] else nat_dec (m div 10) @ [digit_char (m mod 10)])"

declare nat_dec.simps [simp del]

definition dec_string :: "int \<Rightarrow> string" where
  "dec_string k = (if k < 0 then ''-'' else []) @ nat_dec (nat \<bar>k\<bar>)"

section \<open>What the class computes\<close>

locale bignum =
  fixes bn :: "'bn bn_lib" and bv :: "'bn \<Rightarrow> int"
  assumes init_val: "bv (BN_init bn) = 0"
    and bin2bn: "\<exists>x. BN_bin2bn bn bytes = Some x \<and> bv x = int (bytes_val (rev bytes))"
    and bn2bin: "nat \<bar>bv x\<bar> < 2 ^ (8 * k) \<Longrightarrow>
      \<exists>bytes. BN_bn2bin_padded bn k x = Some bytes \<and> length bytes = k \<and>
        bytes_val (rev bytes) = nat \<bar>bv x\<bar>"
    and add_word: "\<exists>y. BN_add_word bn x w = Some y \<and> bv y = bv x + uint w"
    and sub_word: "\<exists>y. BN_sub_word bn x w = Some y \<and> bv y = bv x - uint w"
    and set_negative: "bv (BN_set_negative bn x b) = (if b then - \<bar>bv x\<bar> else \<bar>bv x\<bar>)"
    and is_negative: "BN_is_negative bn x = (bv x < 0)"
    and is_zero: "BN_is_zero bn x = (bv x = 0)"
    and is_odd: "BN_is_odd bn x = odd (bv x)"
    and num_bits: "BN_num_bits bn x = nat_len (nat \<bar>bv x\<bar>)"
    and num_bytes: "BN_num_bytes bn x = nbytes (nat_len (nat \<bar>bv x\<bar>))"
    and cmp: "sgn (BN_cmp bn x y) = sgn (bv x - bv y)"
    and one: "\<exists>x. BN_one bn = Some x \<and> bv x = 1"
    and add: "\<exists>z. BN_add bn x y = Some z \<and> bv z = bv x + bv y"
    and sub: "\<exists>z. BN_sub bn x y = Some z \<and> bv z = bv x - bv y"
    and mul: "\<exists>z. BN_mul bn x y = Some z \<and> bv z = bv x * bv y"
    and div_mod: "bv y \<noteq> 0 \<Longrightarrow>
      \<exists>q r. BN_div bn x y = Some (q, r) \<and> bv q = bv x sdiv bv y \<and> bv r = bv x smod bv y"
    and lshift: "bv (BN_lshift bn x k) = bv x * 2 ^ k"
    and bn2dec: "BN_bn2dec bn x = Some (dec_string (bv x))"
begin

lemma cmp_iff:
  "BigInt_eq bn x y = (bv x = bv y)" "BigInt_LessThan bn x y = (bv x < bv y)"
  "BigInt_GreaterThan bn x y = (bv x > bv y)"
  "BigInt_le bn x y = (bv x \<le> bv y)" "BigInt_ge bn x y = (bv x \<ge> bv y)"
  using cmp[of x y]
  by (auto simp: BigInt_eq_def BigInt_LessThan_def BigInt_GreaterThan_def BigInt_le_def BigInt_ge_def
      sgn_if split: if_splits)

lemma Negate_val: "bv (BigInt_Negate bn x) = - bv x"
  by (simp add: BigInt_Negate_def set_negative is_negative)

lemma Absolute_val: "bv (BigInt_Absolute bn x) = \<bar>bv x\<bar>"
  by (simp add: BigInt_Absolute_def set_negative)

lemma MakeUnsigned_val: "\<exists>x. MakeUnsigned bn (mkBitmap n v) = Some x \<and> bv x = int (take_bit n v)"
  using bin2bn[of "rev (ToBytes (mkBitmap n v))"] by (simp add: MakeUnsigned_def bm_spec bytes_val_write)

lemma MakeSigned_val: "\<exists>x. MakeSigned bn (mkBitmap n v) = Some x \<and> bv x = sv n v"
proof (cases "0 < n \<and> bit v (n - 1)")
  case False
  then show ?thesis using MakeUnsigned_val[of n v]
    by (auto simp: MakeSigned_def msb_mk sv_cases)
next
  case True
  then obtain bs where bs: "(if n mod 8 \<noteq> 0 then do {
        x \<leftarrow> nth_opt (map (\<lambda>x. NOT x) (rev (ToBytes (mkBitmap n v)))) 0;
        set_opt (map (\<lambda>x. NOT x) (rev (ToBytes (mkBitmap n v)))) 0 (x AND ucast (Mask (n mod 8))) }
      else Some (map (\<lambda>x. NOT x) (rev (ToBytes (mkBitmap n v))))) = Some bs"
      and val: "bytes_val (rev bs) = nat_of_bits n (\<lambda>i. \<not> bit v i)"
    using inverted_bytes[of n v] by blast
  obtain x where x: "BN_bin2bn bn bs = Some x" "bv x = 2 ^ n - 1 - int (take_bit n v)"
    using bin2bn[of bs] val nat_of_bits_not[of n v] by auto
  obtain y where y: "BN_add_word bn x 1 = Some y" "bv y = 2 ^ n - int (take_bit n v)"
    using add_word[of x 1] x(2) by auto
  have "int (take_bit n v) < 2 ^ n"
    by (metis of_nat_less_iff of_nat_numeral of_nat_power take_bit_nat_less_exp)
  then have "\<bar>bv y\<bar> = 2 ^ n - int (take_bit n v)" using y(2) by linarith
  then have "bv (BN_set_negative bn y True) = sv n v" using True by (simp add: set_negative sv_cases)
  then show ?thesis using True bs x y by (simp add: MakeSigned_def msb_mk Let_def)
qed

lemma SignedBitCount_val: "SignedBitCount bn x = Some (signed_len (bv x))"
  using sub_word[of "BigInt_Negate bn x" 1]
  by (auto simp: SignedBitCount_def is_zero is_negative num_bits Negate_val signed_len_def abs_if)

lemma UnsignedBitCount_val: "0 \<le> bv x \<Longrightarrow> UnsignedBitCount bn x = Some (nat_len (nat (bv x)))"
  by (simp add: UnsignedBitCount_def is_negative num_bits)

lemma bn2bin_bytes:
  "\<exists>bytes. BN_bn2bin_padded bn (BN_num_bytes bn x) x = Some bytes \<and>
    length bytes = nbytes (nat_len (nat \<bar>bv x\<bar>)) \<and> bytes_val (rev bytes) = nat \<bar>bv x\<bar>"
proof -
  let ?m = "nat \<bar>bv x\<bar>"
  have "nat_len ?m \<le> 8 * nbytes (nat_len ?m)" by linarith
  then have "?m < 2 ^ (8 * nbytes (nat_len ?m))" by (simp only: nat_len_le_iff)
  then show ?thesis using bn2bin[of x "nbytes (nat_len ?m)"] by (simp add: num_bytes)
qed

lemma ToUnsignedBits_val:
  assumes "0 \<le> bv x"
  shows "ToUnsignedBits bn x = Some (mkBitmap (nat_len (nat (bv x))) (nat (bv x)))"
  using bn2bin_bytes[of x] assms
  by (auto simp: ToUnsignedBits_def is_negative num_bits bm_spec)

lemma ToSignedBits_val: "ToSignedBits bn x = Some (bits_of_int (signed_len (bv x)) (bv x))"
proof -
  consider (zero) "bv x = 0" | (neg) "bv x < 0" | (pos) "0 < bv x" by linarith
  then show ?thesis
  proof cases
    case zero
    then show ?thesis by (simp add: ToSignedBits_def is_zero signed_len_def bm_spec bits_of_int_def)
  next
    case neg
    define d where "d = nat (- bv x - 1)"
    obtain y where y: "BN_sub_word bn (BN_set_negative bn x False) 1 = Some y" "bv y = int d"
      using sub_word[of "BN_set_negative bn x False" 1] neg by (auto simp: set_negative d_def)
    obtain bytes where b: "BN_bn2bin_padded bn (BN_num_bytes bn y) y = Some bytes"
        "length bytes = nbytes (nat_len d)" "bytes_val (rev bytes) = d"
      using bn2bin_bytes[of y] y(2) by auto
    have len: "signed_len (bv x) = nat_len d + 1" using neg by (simp add: signed_len_def d_def)
    have k: "bv x = NOT (int d)" using neg by (simp add: d_def not_int_def)
    have hi: "\<not> bit d i" if "nat_len d \<le> i" for i
      using that nat_lt_exp_len[of d] nat_lt_exp_iff_bits by blast
    have "mkBitmap (nat_len d + 1) (take_bit (nat_len d) (bytes_val (map (\<lambda>b. NOT b) (rev bytes)))
        OR push_bit (nat_len d) (mask 1)) = bits_of_int (nat_len d + 1) (bv x)"
      unfolding bits_of_int_def
    proof (rule mkBitmap_eqI[OF mk_repr])
      fix i assume i: "i < nat_len d + 1"
      have "i div 8 < length bytes" if "i < nat_len d" unfolding b(2) using that by linarith
      then show "bit (take_bit (nat_len d) (bytes_val (map (\<lambda>b. NOT b) (rev bytes))) OR
          push_bit (nat_len d) (mask 1)) i = bit (nat (take_bit (nat_len d + 1) (bv x))) i"
        using i hi[of i] b(3)
        by (cases "i < nat_len d") (auto simp: bit_simps bit_bytes_val_not k bit_nat_iff)
    qed
    then show ?thesis using neg y b(1,2)
      by (simp add: ToSignedBits_def is_zero is_negative SignedBitCount_val len bm_spec rev_map)
  next
    case pos
    define d where "d = nat (bv x)"
    have y: "bv (BN_set_negative bn x False) = int d" using pos by (simp add: set_negative d_def)
    obtain bytes where b: "BN_bn2bin_padded bn (BN_num_bytes bn (BN_set_negative bn x False))
          (BN_set_negative bn x False) = Some bytes"
        "length bytes = nbytes (nat_len d)" "bytes_val (rev bytes) = d"
      using bn2bin_bytes[of "BN_set_negative bn x False"] y by auto
    have len: "signed_len (bv x) = nat_len d + 1" using pos by (simp add: signed_len_def d_def)
    have "mkBitmap (nat_len d + 1) (take_bit (nat_len d) d) = bits_of_int (nat_len d + 1) (bv x)"
      using pos bits_of_int_nat[of "nat_len d + 1" d] d_def by (simp only: take_bit_nat_len nat_0_le less_imp_le)
    then show ?thesis using pos b
      by (simp add: ToSignedBits_def is_zero is_negative SignedBitCount_val len bm_spec)
  qed
qed

lemma ToSignedBitsWithBitCount_val:
  "ToSignedBitsWithBitCount bn x n =
     Some (if fits_signed n (bv x) then Inr (bits_of_int n (bv x)) else Inl InvalidArgument)"
proof (cases "fits_signed n (bv x)")
  case False
  then show ?thesis using signed_len_le_iff[of "bv x" n]
    by (simp add: ToSignedBitsWithBitCount_def SignedBitCount_val)
next
  case True
  let ?l = "signed_len (bv x)"
  have le: "?l \<le> n" using True by (simp add: signed_len_le_iff)
  have fits: "fits_signed ?l (bv x)" by (simp flip: signed_len_le_iff)
  have high: "bit (bv x) i = (bv x < 0)" if "?l \<le> i" for i
  proof (cases ?l)
    case 0
    then show ?thesis using fits by (simp add: fits_signed_def)
  next
    case (Suc m)
    then show ?thesis using fits that by (simp add: fits_signed_iff_bits)
  qed
  have "mkBitmap n (take_bit ?l (nat (take_bit ?l (bv x))) OR
      push_bit ?l (if bv x < 0 then mask (n - ?l) else 0)) = bits_of_int n (bv x)"
    unfolding bits_of_int_def
  proof (rule mkBitmap_eqI[OF mk_repr])
    fix i assume "i < n"
    then show "bit (take_bit ?l (nat (take_bit ?l (bv x))) OR
        push_bit ?l (if bv x < 0 then mask (n - ?l) else 0)) i = bit (nat (take_bit n (bv x))) i"
      using high[of i] le by (cases "i < ?l") (auto simp: bit_simps bit_nat_iff)
  qed
  then show ?thesis using True le
    by (cases "bv x < 0") (simp_all add: ToSignedBitsWithBitCount_def SignedBitCount_val ToSignedBits_val
        is_negative bits_of_int_def bm_spec)
qed

lemma ToUnsignedBitsWithBitCount_val:
  assumes "0 \<le> bv x"
  shows "ToUnsignedBitsWithBitCount bn x n =
    Some (if bv x < 2 ^ n then Inr (mkBitmap n (nat (bv x))) else Inl InvalidArgument)"
proof -
  have iff: "nat_len (nat (bv x)) \<le> n \<longleftrightarrow> bv x < 2 ^ n"
    using assms by (simp add: nat_len_le_iff nat_less_iff)
  show ?thesis using iff assms
    by (auto simp: take_bit_nat_len ToUnsignedBitsWithBitCount_def UnsignedBitCount_val ToUnsignedBits_val bm_spec)
qed

lemma Exp2_val: "e \<le> 2147483647 \<Longrightarrow> \<exists>x. BigInt_Exp2 bn e = Some x \<and> bv x = 2 ^ e"
  using one by (auto simp: BigInt_Exp2_def BigInt_One_def lshift)

lemma FactorizePowerOfTwo_loop_val:
  assumes "bv zero = 0" "bv two = 2"
  shows "\<exists>y p. BigInt_FactorizePowerOfTwo_loop bn zero two x q = Some (y, p) \<and>
    bv x * 2 ^ q = bv y * 2 ^ p \<and> (odd (bv y) \<or> bv y = 0)"
proof (induction "nat \<bar>bv x\<bar>" arbitrary: x q rule: less_induct)
  case less
  show ?case
  proof (cases "even (bv x) \<and> bv x \<noteq> 0")
    case False
    then show ?thesis
      by (subst BigInt_FactorizePowerOfTwo_loop.simps)
         (auto simp: BigInt_IsEven_def is_odd cmp_iff assms)
  next
    case True
    then obtain h where h: "bv x = 2 * h" by (elim conjE evenE)
    obtain z r where z: "BN_div bn x two = Some (z, r)" "bv z = bv x sdiv 2"
      using div_mod[of two x] assms(2) by auto
    have zh: "bv z = h" using z(2) h by (simp add: sdiv_int_cases)
    then have "nat \<bar>bv z\<bar> < nat \<bar>bv x\<bar>" using True h by simp
    from less[OF this, of "q + 1"] show ?thesis using True z(1) h zh
      by (subst BigInt_FactorizePowerOfTwo_loop.simps)
         (auto simp: BigInt_IsEven_def is_odd cmp_iff assms BigInt_Div_def)
  qed
qed

lemma IsPowerOfTwo_val:
  assumes "nat_len (nat \<bar>bv x\<bar>) \<le> 2147483647"
  shows "BigInt_IsPowerOfTwo bn x = Some (\<exists>k. bv x = 2 ^ k)"
proof -
  let ?l = "nat_len (nat \<bar>bv x\<bar>)"
  obtain o1 where o1: "BN_one bn = Some o1" "bv o1 = 1" using one by blast
  obtain p where p: "BigInt_Exp2 bn (?l - 1) = Some p" "bv p = 2 ^ (?l - 1)"
    using Exp2_val[OF order_trans[OF diff_le_self assms]] by blast
  have "(\<exists>k. bv x = 2 ^ k) = (1 \<le> bv x \<and> 2 ^ (?l - 1) = bv x)"
  proof
    assume "\<exists>k. bv x = 2 ^ k"
    then obtain k where k: "bv x = 2 ^ k" by blast
    then have "nat \<bar>bv x\<bar> = 2 ^ k" by (simp add: nat_power_eq)
    then have "?l = Suc k" using nat_len_eqI[of "2 ^ k" k] by (simp only: power_Suc) simp
    then show "1 \<le> bv x \<and> 2 ^ (?l - 1) = bv x" using k by simp
  qed (metis)
  then show ?thesis using o1 p
    by (auto simp: BigInt_IsPowerOfTwo_def BigInt_One_def cmp_iff num_bits)
qed

end

section \<open>The integers as a library\<close>

text \<open>The integers of HOL satisfy the laws, with the big-endian bytes of the magnitude.\<close>

definition int_bytes :: "nat \<Rightarrow> nat \<Rightarrow> 8 word list" where
  "int_bytes k m = rev (map (\<lambda>j. word_of_nat (drop_bit (8 * j) m)) [0..<k])"

definition hex_string :: "int \<Rightarrow> string" where
  "hex_string x = (if x < 0 then ''-'' else []) @
     concat (map (\<lambda>b. [digit_char (unat b div 16), digit_char (unat b mod 16)])
       (int_bytes (nbytes (nat_len (nat \<bar>x\<bar>))) (nat \<bar>x\<bar>)))"

definition int_bn :: "int bn_lib" where
  "int_bn = \<lparr>
     BN_init = 0,
     BN_bin2bn = (\<lambda>bytes. Some (int (bytes_val (rev bytes)))),
     BN_bn2bin_padded = (\<lambda>k x. if nat \<bar>x\<bar> < 2 ^ (8 * k) then Some (int_bytes k (nat \<bar>x\<bar>)) else None),
     BN_add_word = (\<lambda>x w. Some (x + uint w)),
     BN_sub_word = (\<lambda>x w. Some (x - uint w)),
     BN_set_negative = (\<lambda>x b. if b then - \<bar>x\<bar> else \<bar>x\<bar>),
     BN_is_negative = (\<lambda>x. x < 0),
     BN_is_zero = (\<lambda>x. x = 0),
     BN_is_odd = odd,
     BN_num_bits = (\<lambda>x. nat_len (nat \<bar>x\<bar>)),
     BN_num_bytes = (\<lambda>x. nbytes (nat_len (nat \<bar>x\<bar>))),
     BN_cmp = (\<lambda>x y. sgn (x - y)),
     BN_one = Some 1,
     BN_add = (\<lambda>x y. Some (x + y)),
     BN_sub = (\<lambda>x y. Some (x - y)),
     BN_mul = (\<lambda>x y. Some (x * y)),
     BN_div = (\<lambda>x y. if y = 0 then None else Some (x sdiv y, x smod y)),
     BN_lshift = (\<lambda>x k. x * 2 ^ k),
     BN_bn2dec = (\<lambda>x. Some (dec_string x)),
     BN_bn2hex = (\<lambda>x. Some (hex_string x))\<rparr>"

lemma length_int_bytes [simp]: "length (int_bytes k m) = k"
  by (simp add: int_bytes_def)

lemma bytes_val_int_bytes:
  assumes "m < 2 ^ (8 * k)"
  shows "bytes_val (rev (int_bytes k m)) = m"
proof -
  have "take_bit (8 * k) m = m" using assms by (simp add: take_bit_nat_eq_self_iff)
  then show ?thesis using bytes_val_write[of "8 * k" m] by (simp add: int_bytes_def)
qed

interpretation int_bn: bignum int_bn id
  by unfold_locales (auto simp: int_bn_def bytes_val_int_bytes nat_less_iff)

end
