(* ===== verification/Bits_Ops.thy ===== *)
theory Bits_Ops
  imports Big_Int
begin

text \<open>
  \<^verbatim>\<open>xls/ir/bits_ops.cc\<close>: the operations of the IR on bit vectors. Up to 64 bits they go
  through a machine word; wider vectors go through their bytes or through \<^verbatim>\<open>BigInt\<close>, whose
  library is the argument \<open>bn\<close>. Operations that end the process on a failed CHECK return
  \<open>None\<close> there.
\<close>

section \<open>Conversions\<close>

definition ZeroExtend :: "bits \<Rightarrow> nat \<Rightarrow> bits option" where
  "ZeroExtend b new_bit_count = do {
     CHECK (new_bit_count \<ge> ib_bit_count b);
     Some (WithSize b new_bit_count False) }"

definition SignExtend :: "bits \<Rightarrow> nat \<Rightarrow> bits option" where
  "SignExtend b new_bit_count = do {
     CHECK (new_bit_count \<ge> ib_bit_count b);
     sign_bit \<leftarrow> (if ib_bit_count b > 0 then GetFromMsb b 0 else Some False);
     Some (WithSize b new_bit_count sign_bit) }"

definition Truncate :: "bits \<Rightarrow> nat \<Rightarrow> bits option" where
  "Truncate b new_size = do { CHECK (ib_bit_count b \<ge> new_size); Slice b 0 new_size }"

definition TruncateOrSignExtend :: "bits \<Rightarrow> nat \<Rightarrow> bits option" where
  "TruncateOrSignExtend b bit_count =
     (if ib_bit_count b = bit_count then Some b
      else if ib_bit_count b < bit_count then SignExtend b bit_count
      else Truncate b bit_count)"

definition TryUnsignedBitsToInt64 :: "bits \<Rightarrow> 64 word option option" where
  "TryUnsignedBitsToInt64 b = do {
     fits \<leftarrow> FitsInNBitsUnsigned b 63;
     if fits then do { r \<leftarrow> UnsignedToInt64 b; w \<leftarrow> StatusOr_value r; Some (Some w) }
     else Some None }"

definition UnsignedBitsToSaturatedInt64 :: "bits \<Rightarrow> 64 word option" where
  "UnsignedBitsToSaturatedInt64 b = do {
     r \<leftarrow> TryUnsignedBitsToInt64 b;
     Some (case r of Some w \<Rightarrow> w | None \<Rightarrow> 0x7FFFFFFFFFFFFFFF) }"

section \<open>Bitwise operations\<close>

definition And :: "bits \<Rightarrow> bits \<Rightarrow> bits option" where
  "And lhs rhs = do {
     CHECK (ib_bit_count lhs = ib_bit_count rhs);
     if ib_bit_count lhs \<le> 64 then do {
       x \<leftarrow> ToUint64_value lhs; y \<leftarrow> ToUint64_value rhs;
       UBits (x AND y) (ib_bit_count lhs) }
     else FromBytes (map2 (AND) (ToBytes lhs) (ToBytes rhs)) (ib_bit_count lhs) }"

definition Or :: "bits \<Rightarrow> bits \<Rightarrow> bits option" where
  "Or lhs rhs = do {
     CHECK (ib_bit_count lhs = ib_bit_count rhs);
     if ib_bit_count lhs \<le> 64 then do {
       x \<leftarrow> ToUint64_value lhs; y \<leftarrow> ToUint64_value rhs;
       UBits (x OR y) (ib_bit_count lhs) }
     else FromBytes (map2 (OR) (ToBytes lhs) (ToBytes rhs)) (ib_bit_count lhs) }"

definition Xor :: "bits \<Rightarrow> bits \<Rightarrow> bits option" where
  "Xor lhs rhs = do {
     CHECK (ib_bit_count lhs = ib_bit_count rhs);
     if ib_bit_count lhs \<le> 64 then do {
       x \<leftarrow> ToUint64_value lhs; y \<leftarrow> ToUint64_value rhs;
       UBits (x XOR y) (ib_bit_count lhs) }
     else FromBytes (map2 (XOR) (ToBytes lhs) (ToBytes rhs)) (ib_bit_count lhs) }"

definition Nand :: "bits \<Rightarrow> bits \<Rightarrow> bits option" where
  "Nand lhs rhs = do {
     CHECK (ib_bit_count lhs = ib_bit_count rhs);
     if ib_bit_count lhs \<le> 64 then do {
       x \<leftarrow> ToUint64_value lhs; y \<leftarrow> ToUint64_value rhs;
       UBits (NOT (x AND y) AND Mask (ib_bit_count lhs)) (ib_bit_count lhs) }
     else FromBytes (map2 (\<lambda>x y. NOT (x AND y)) (ToBytes lhs) (ToBytes rhs)) (ib_bit_count lhs) }"

definition Nor :: "bits \<Rightarrow> bits \<Rightarrow> bits option" where
  "Nor lhs rhs = do {
     CHECK (ib_bit_count lhs = ib_bit_count rhs);
     if ib_bit_count lhs \<le> 64 then do {
       x \<leftarrow> ToUint64_value lhs; y \<leftarrow> ToUint64_value rhs;
       UBits (NOT (x OR y) AND Mask (ib_bit_count lhs)) (ib_bit_count lhs) }
     else FromBytes (map2 (\<lambda>x y. NOT (x OR y)) (ToBytes lhs) (ToBytes rhs)) (ib_bit_count lhs) }"

definition Not :: "bits \<Rightarrow> bits option" where
  "Not b =
     (if ib_bit_count b \<le> 64 then do {
        x \<leftarrow> ToUint64_value b;
        UBits (NOT x AND Mask (ib_bit_count b)) (ib_bit_count b) }
      else FromBytes (map (\<lambda>x. NOT x) (ToBytes b)) (ib_bit_count b))"

definition NaryAnd :: "bits list \<Rightarrow> bits option" where
  "NaryAnd operands = do {
     accum \<leftarrow> nth_opt operands 0;
     foldM (\<lambda>i accum. And accum (operands ! i)) [1..<length operands] accum }"

definition NaryOr :: "bits list \<Rightarrow> bits option" where
  "NaryOr operands = do {
     accum \<leftarrow> nth_opt operands 0;
     foldM (\<lambda>i accum. Or accum (operands ! i)) [1..<length operands] accum }"

definition NaryXor :: "bits list \<Rightarrow> bits option" where
  "NaryXor operands = do {
     accum \<leftarrow> nth_opt operands 0;
     foldM (\<lambda>i accum. Xor accum (operands ! i)) [1..<length operands] accum }"

definition NaryNand :: "bits list \<Rightarrow> bits option" where
  "NaryNand operands = do {
     accum \<leftarrow> nth_opt operands 0;
     accum \<leftarrow> foldM (\<lambda>i accum. And accum (operands ! i)) [1..<length operands] accum;
     Not accum }"

definition NaryNor :: "bits list \<Rightarrow> bits option" where
  "NaryNor operands = do {
     accum \<leftarrow> nth_opt operands 0;
     accum \<leftarrow> foldM (\<lambda>i accum. Or accum (operands ! i)) [1..<length operands] accum;
     Not accum }"

definition AndReduce :: "bits \<Rightarrow> bits option" where
  "AndReduce operand = do { a \<leftarrow> Bits_IsAllOnes operand; if a then UBits 1 1 else UBits 0 1 }"

definition OrReduce :: "bits \<Rightarrow> bits option" where
  "OrReduce operand = do { z \<leftarrow> IsZero operand; if z then UBits 0 1 else UBits 1 1 }"

definition XorReduce :: "bits \<Rightarrow> bits option" where
  "XorReduce operand = do { c \<leftarrow> PopCount operand; if odd c then UBits 1 1 else UBits 0 1 }"

datatype logical_op = kAnd | kOr | kXor | kNand | kNor | kOtherOp

definition LogicalOpIdentity :: "logical_op \<Rightarrow> nat \<Rightarrow> bits option" where
  "LogicalOpIdentity opc width =
     (case opc of
        kAnd \<Rightarrow> Some (AllOnes width) | kNand \<Rightarrow> Some (AllOnes width)
      | kOr \<Rightarrow> Some (Bits width) | kNor \<Rightarrow> Some (Bits width) | kXor \<Rightarrow> Some (Bits width)
      | kOtherOp \<Rightarrow> None)"

definition DoLogicalOp :: "logical_op \<Rightarrow> bits list \<Rightarrow> bits option" where
  "DoLogicalOp opc operands = do {
     CHECK (length operands > 0);
     case opc of
       kAnd \<Rightarrow> NaryAnd operands | kOr \<Rightarrow> NaryOr operands | kXor \<Rightarrow> NaryXor operands
     | kNand \<Rightarrow> NaryNand operands | kNor \<Rightarrow> NaryNor operands | kOtherOp \<Rightarrow> None }"

section \<open>Arithmetic\<close>

definition Add :: "'bn bn_lib \<Rightarrow> bits \<Rightarrow> bits \<Rightarrow> bits option" where
  "Add bn lhs rhs = do {
     CHECK (ib_bit_count lhs = ib_bit_count rhs);
     if ib_bit_count lhs \<le> 64 then do {
       x \<leftarrow> ToUint64_value lhs; y \<leftarrow> ToUint64_value rhs;
       UBits ((x + y) AND Mask (ib_bit_count lhs)) (ib_bit_count lhs) }
     else do {
       x \<leftarrow> MakeSigned bn lhs; y \<leftarrow> MakeSigned bn rhs;
       z \<leftarrow> BigInt_Add bn x y;
       sum \<leftarrow> ToSignedBits bn z;
       TruncateOrSignExtend sum (ib_bit_count lhs) } }"

definition Sub :: "'bn bn_lib \<Rightarrow> bits \<Rightarrow> bits \<Rightarrow> bits option" where
  "Sub bn lhs rhs = do {
     CHECK (ib_bit_count lhs = ib_bit_count rhs);
     if ib_bit_count lhs \<le> 64 then do {
       x \<leftarrow> ToUint64_value lhs; y \<leftarrow> ToUint64_value rhs;
       UBits ((x - y) AND Mask (ib_bit_count lhs)) (ib_bit_count lhs) }
     else do {
       x \<leftarrow> MakeSigned bn lhs; y \<leftarrow> MakeSigned bn rhs;
       z \<leftarrow> BigInt_Sub bn x y;
       diff \<leftarrow> ToSignedBits bn z;
       TruncateOrSignExtend diff (ib_bit_count lhs) } }"

definition Increment :: "bits \<Rightarrow> bits option" where
  "Increment x = do {
     r \<leftarrow> loop (\<lambda>i result. do {
            word \<leftarrow> GetWord result i;
            if word < - 1 then do { result \<leftarrow> SetWord result i (word + 1); Some (Return result) }
            else do { result \<leftarrow> SetWord result i 0; Some (Continue result) } })
          [0..<word_count x] x;
     Some (step_result (\<lambda>result. result) r) }"

definition Decrement :: "bits \<Rightarrow> bits option" where
  "Decrement x = do {
     r \<leftarrow> loop (\<lambda>i result. do {
            word \<leftarrow> GetWord result i;
            if word > 0 then do { result \<leftarrow> SetWord result i (word - 1); Some (Return result) }
            else do { result \<leftarrow> SetWord result i (NOT 0); Some (Continue result) } })
          [0..<word_count x] x;
     Some (step_result (\<lambda>result. result) r) }"

definition SMul :: "'bn bn_lib \<Rightarrow> bits \<Rightarrow> bits \<Rightarrow> bits option" where
  "SMul bn lhs rhs =
     (let result_width = ib_bit_count lhs + ib_bit_count rhs in
      if result_width \<le> 64 then do {
        x \<leftarrow> ToInt64_value lhs; y \<leftarrow> ToInt64_value rhs;
        SBits (x * y) result_width }
      else do {
        x \<leftarrow> MakeSigned bn lhs; y \<leftarrow> MakeSigned bn rhs;
        product \<leftarrow> BigInt_Mul bn x y;
        r \<leftarrow> ToSignedBitsWithBitCount bn product result_width;
        StatusOr_value r })"

definition UMul :: "'bn bn_lib \<Rightarrow> bits \<Rightarrow> bits \<Rightarrow> bits option" where
  "UMul bn lhs rhs =
     (let result_width = ib_bit_count lhs + ib_bit_count rhs in
      if result_width \<le> 64 then do {
        x \<leftarrow> ToUint64_value lhs; y \<leftarrow> ToUint64_value rhs;
        UBits (x * y) result_width }
      else do {
        x \<leftarrow> MakeUnsigned bn lhs; y \<leftarrow> MakeUnsigned bn rhs;
        product \<leftarrow> BigInt_Mul bn x y;
        r \<leftarrow> ToUnsignedBitsWithBitCount bn product result_width;
        StatusOr_value r })"

definition UDiv :: "'bn bn_lib \<Rightarrow> bits \<Rightarrow> bits \<Rightarrow> bits option" where
  "UDiv bn lhs rhs = do {
     z \<leftarrow> IsZero rhs;
     if z then Some (AllOnes (ib_bit_count lhs))
     else do {
       x \<leftarrow> MakeUnsigned bn lhs; y \<leftarrow> MakeUnsigned bn rhs;
       quotient \<leftarrow> BigInt_Div bn x y;
       q \<leftarrow> ToUnsignedBits bn quotient;
       ZeroExtend q (ib_bit_count lhs) } }"

definition UMod :: "'bn bn_lib \<Rightarrow> bits \<Rightarrow> bits \<Rightarrow> bits option" where
  "UMod bn lhs rhs = do {
     z \<leftarrow> IsZero rhs;
     if z then Some (Bits (ib_bit_count rhs))
     else do {
       x \<leftarrow> MakeUnsigned bn lhs; y \<leftarrow> MakeUnsigned bn rhs;
       modulo \<leftarrow> BigInt_Mod bn x y;
       m \<leftarrow> ToUnsignedBits bn modulo;
       ZeroExtend m (ib_bit_count rhs) } }"

section \<open>Comparisons\<close>

definition bits_UCmp :: "bits \<Rightarrow> bits \<Rightarrow> int option" where
  "bits_UCmp lhs rhs = UCmp lhs rhs"

definition UEqual :: "bits \<Rightarrow> bits \<Rightarrow> bool option" where
  "UEqual lhs rhs = do { c \<leftarrow> bits_UCmp lhs rhs; Some (c = 0) }"

definition UGreaterThanOrEqual :: "bits \<Rightarrow> bits \<Rightarrow> bool option" where
  "UGreaterThanOrEqual lhs rhs = do { c \<leftarrow> bits_UCmp lhs rhs; Some (c \<ge> 0) }"

definition UGreaterThan :: "bits \<Rightarrow> bits \<Rightarrow> bool option" where
  "UGreaterThan lhs rhs = do { c \<leftarrow> bits_UCmp lhs rhs; Some (c > 0) }"

definition ULessThanOrEqual :: "bits \<Rightarrow> bits \<Rightarrow> bool option" where
  "ULessThanOrEqual lhs rhs = do { c \<leftarrow> bits_UCmp lhs rhs; Some (c \<le> 0) }"

definition ULessThan :: "bits \<Rightarrow> bits \<Rightarrow> bool option" where
  "ULessThan lhs rhs = do { c \<leftarrow> bits_UCmp lhs rhs; Some (c < 0) }"

text \<open>The scan of \<^verbatim>\<open>UAtLeastPredecessor\<close>: \<^verbatim>\<open>lhs >= rhs - 1\<close> without computing the difference.\<close>

definition UAtLeastPredecessor :: "bits \<Rightarrow> bits \<Rightarrow> bool option" where
  "UAtLeastPredecessor lhs rhs = do {
     CHECK (ib_bit_count lhs = ib_bit_count rhs);
     let w_count = word_count lhs;
     if w_count = 0 then Some True
     else do {
       r \<leftarrow> loop (\<lambda>i _. do {
              b_word \<leftarrow> GetWord lhs i;
              c_word \<leftarrow> GetWord rhs i;
              if b_word > c_word then Some (Return True)
              else if b_word = c_word then Some (Continue ())
              else if c_word \<noteq> b_word + 1 then Some (Return False)
              else do {
                r \<leftarrow> loop (\<lambda>j _. do {
                       b \<leftarrow> GetWord lhs j;
                       c \<leftarrow> GetWord rhs j;
                       Some (if b \<noteq> NOT 0 \<or> c \<noteq> 0 then Return False else Continue ()) })
                     (rev [0..<i]) ();
                Some (Return (step_result (\<lambda>_. True) r)) } })
            (rev [0..<w_count]) ();
       Some (step_result (\<lambda>_. True) r) } }"

definition UMin :: "bits \<Rightarrow> bits \<Rightarrow> bits option" where
  "UMin lhs rhs = do { l \<leftarrow> ULessThan lhs rhs; Some (if l then lhs else rhs) }"

definition UMax :: "bits \<Rightarrow> bits \<Rightarrow> bits option" where
  "UMax lhs rhs = do { l \<leftarrow> ULessThan lhs rhs; Some (if l then rhs else lhs) }"

text \<open>Comparisons with an \<^verbatim>\<open>int64_t\<close>.\<close>

definition UEqual_int64 :: "bits \<Rightarrow> 64 word \<Rightarrow> bool option" where
  "UEqual_int64 lhs rhs = do {
     CHECK (sint rhs \<ge> 0);
     l \<leftarrow> TryUnsignedBitsToInt64 lhs;
     Some (case l of None \<Rightarrow> False | Some x \<Rightarrow> sint x = sint rhs) }"

definition UGreaterThanOrEqual_int64 :: "bits \<Rightarrow> 64 word \<Rightarrow> bool option" where
  "UGreaterThanOrEqual_int64 lhs rhs = do {
     CHECK (sint rhs \<ge> 0);
     l \<leftarrow> TryUnsignedBitsToInt64 lhs;
     Some (case l of None \<Rightarrow> True | Some x \<Rightarrow> sint x \<ge> sint rhs) }"

definition UGreaterThan_int64 :: "bits \<Rightarrow> 64 word \<Rightarrow> bool option" where
  "UGreaterThan_int64 lhs rhs = do {
     CHECK (sint rhs \<ge> 0);
     l \<leftarrow> TryUnsignedBitsToInt64 lhs;
     Some (case l of None \<Rightarrow> True | Some x \<Rightarrow> sint x > sint rhs) }"

definition ULessThanOrEqual_int64 :: "bits \<Rightarrow> 64 word \<Rightarrow> bool option" where
  "ULessThanOrEqual_int64 lhs rhs = do {
     CHECK (sint rhs \<ge> 0);
     l \<leftarrow> TryUnsignedBitsToInt64 lhs;
     Some (case l of None \<Rightarrow> False | Some x \<Rightarrow> sint x \<le> sint rhs) }"

definition ULessThan_int64 :: "bits \<Rightarrow> 64 word \<Rightarrow> bool option" where
  "ULessThan_int64 lhs rhs = do {
     CHECK (sint rhs \<ge> 0);
     l \<leftarrow> TryUnsignedBitsToInt64 lhs;
     Some (case l of None \<Rightarrow> False | Some x \<Rightarrow> sint x < sint rhs) }"

definition SEqual :: "'bn bn_lib \<Rightarrow> bits \<Rightarrow> bits \<Rightarrow> bool option" where
  "SEqual bn lhs rhs = do {
     x \<leftarrow> MakeSigned bn lhs; y \<leftarrow> MakeSigned bn rhs;
     Some (BigInt_eq bn x y) }"

definition SLessThan :: "'bn bn_lib \<Rightarrow> bits \<Rightarrow> bits \<Rightarrow> bool option" where
  "SLessThan bn lhs rhs =
     (if ib_bit_count lhs \<le> 64 \<and> ib_bit_count rhs \<le> 64 then do {
        x \<leftarrow> ToInt64_value lhs; y \<leftarrow> ToInt64_value rhs;
        Some (sint x < sint y) }
      else do {
        x \<leftarrow> MakeSigned bn lhs; y \<leftarrow> MakeSigned bn rhs;
        Some (BigInt_LessThan bn x y) })"

definition SLessThanOrEqual :: "'bn bn_lib \<Rightarrow> bits \<Rightarrow> bits \<Rightarrow> bool option" where
  "SLessThanOrEqual bn lhs rhs = do {
     e \<leftarrow> SEqual bn lhs rhs;
     if e then Some True else SLessThan bn lhs rhs }"

definition SGreaterThanOrEqual :: "'bn bn_lib \<Rightarrow> bits \<Rightarrow> bits \<Rightarrow> bool option" where
  "SGreaterThanOrEqual bn lhs rhs = do { l \<leftarrow> SLessThan bn lhs rhs; Some (\<not> l) }"

definition SGreaterThan :: "'bn bn_lib \<Rightarrow> bits \<Rightarrow> bits \<Rightarrow> bool option" where
  "SGreaterThan bn lhs rhs = do { l \<leftarrow> SLessThanOrEqual bn lhs rhs; Some (\<not> l) }"

definition SEqual_int64 :: "bits \<Rightarrow> 64 word \<Rightarrow> bool option" where
  "SEqual_int64 lhs rhs = do {
     fits \<leftarrow> FitsInInt64 lhs;
     if \<not> fits then Some False
     else do { x \<leftarrow> ToInt64_value lhs; Some (sint x = sint rhs) } }"

definition SGreaterThanOrEqual_int64 :: "bits \<Rightarrow> 64 word \<Rightarrow> bool option" where
  "SGreaterThanOrEqual_int64 lhs rhs = do {
     fits \<leftarrow> FitsInInt64 lhs;
     if fits then do { x \<leftarrow> ToInt64_value lhs; Some (sint x \<ge> sint rhs) }
     else do { m \<leftarrow> msb lhs; Some (\<not> m) } }"

definition SGreaterThan_int64 :: "bits \<Rightarrow> 64 word \<Rightarrow> bool option" where
  "SGreaterThan_int64 lhs rhs = do {
     fits \<leftarrow> FitsInInt64 lhs;
     if fits then do { x \<leftarrow> ToInt64_value lhs; Some (sint x > sint rhs) }
     else do { m \<leftarrow> msb lhs; Some (\<not> m) } }"

definition SLessThanOrEqual_int64 :: "bits \<Rightarrow> 64 word \<Rightarrow> bool option" where
  "SLessThanOrEqual_int64 lhs rhs = do {
     fits \<leftarrow> FitsInInt64 lhs;
     if fits then do { x \<leftarrow> ToInt64_value lhs; Some (sint x \<le> sint rhs) }
     else msb lhs }"

definition SLessThan_int64 :: "bits \<Rightarrow> 64 word \<Rightarrow> bool option" where
  "SLessThan_int64 lhs rhs = do {
     fits \<leftarrow> FitsInInt64 lhs;
     if fits then do { x \<leftarrow> ToInt64_value lhs; Some (sint x < sint rhs) }
     else msb lhs }"

section \<open>Concatenation, shifts, division with sign\<close>

definition Concat :: "bits list \<Rightarrow> bits option" where
  "Concat inputs = do {
     let new_bit_count = fold (\<lambda>b c. c + ib_bit_count b) inputs 0;
     rope \<leftarrow> foldM (\<lambda>i rope. rope_push_back rope (inputs ! (length inputs - i - 1)))
               [0..<length inputs] (BitsRope new_bit_count);
     rope_Build rope }"

definition SDiv :: "'bn bn_lib \<Rightarrow> bits \<Rightarrow> bits \<Rightarrow> bits option" where
  "SDiv bn lhs rhs = do {
     z \<leftarrow> IsZero rhs;
     if z then
       if ib_bit_count lhs = 0 then UBits 0 0
       else do {
         zero \<leftarrow> UBits 0 (ib_bit_count lhs);
         neg \<leftarrow> SLessThan bn lhs zero;
         if neg then do {
           one \<leftarrow> UBits 1 1;
           rest \<leftarrow> UBits 0 (ib_bit_count lhs - 1);
           Concat [one, rest] }
         else ZeroExtend (AllOnes (ib_bit_count lhs - 1)) (ib_bit_count lhs) }
     else do {
       x \<leftarrow> MakeSigned bn lhs; y \<leftarrow> MakeSigned bn rhs;
       quotient \<leftarrow> BigInt_Div bn x y;
       q \<leftarrow> ToSignedBits bn quotient;
       TruncateOrSignExtend q (ib_bit_count lhs) } }"

definition SMod :: "'bn bn_lib \<Rightarrow> bits \<Rightarrow> bits \<Rightarrow> bits option" where
  "SMod bn lhs rhs = do {
     z \<leftarrow> IsZero rhs;
     if z then Some (Bits (ib_bit_count rhs))
     else do {
       x \<leftarrow> MakeSigned bn lhs; y \<leftarrow> MakeSigned bn rhs;
       modulo \<leftarrow> BigInt_Mod bn x y;
       m \<leftarrow> ToSignedBits bn modulo;
       TruncateOrSignExtend m (ib_bit_count rhs) } }"

definition Negate :: "'bn bn_lib \<Rightarrow> bits \<Rightarrow> bits option" where
  "Negate bn b =
     (if ib_bit_count b < 64 then do {
        x \<leftarrow> ToInt64_value b;
        UBits ((- x) AND Mask (ib_bit_count b)) (ib_bit_count b) }
      else do {
        x \<leftarrow> MakeSigned bn b;
        negated \<leftarrow> ToSignedBits bn (BigInt_Negate bn x);
        TruncateOrSignExtend negated (ib_bit_count b) })"

definition Abs :: "'bn bn_lib \<Rightarrow> bits \<Rightarrow> bits option" where
  "Abs bn b = do { s \<leftarrow> GetFromMsb b 0; if s then Negate bn b else Some b }"

definition ShiftLeftLogical :: "bits \<Rightarrow> nat \<Rightarrow> bits option" where
  "ShiftLeftLogical b shift_amount = do {
     let shift_amount = min shift_amount (ib_bit_count b);
     hi \<leftarrow> Slice b 0 (ib_bit_count b - shift_amount);
     lo \<leftarrow> UBits 0 shift_amount;
     Concat [hi, lo] }"

definition ShiftRightLogical :: "bits \<Rightarrow> nat \<Rightarrow> bits option" where
  "ShiftRightLogical b shift_amount = do {
     let shift_amount = min shift_amount (ib_bit_count b);
     hi \<leftarrow> UBits 0 shift_amount;
     lo \<leftarrow> Slice b shift_amount (ib_bit_count b - shift_amount);
     Concat [hi, lo] }"

definition ShiftRightArith :: "bits \<Rightarrow> nat \<Rightarrow> bits option" where
  "ShiftRightArith b shift_amount = do {
     let shift_amount = min shift_amount (ib_bit_count b);
     m \<leftarrow> msb b;
     hi \<leftarrow> (if m then Some (AllOnes shift_amount) else UBits 0 shift_amount);
     lo \<leftarrow> Slice b shift_amount (ib_bit_count b - shift_amount);
     Concat [hi, lo] }"

definition MulpOffsetForSimulation :: "nat \<Rightarrow> nat \<Rightarrow> bits option" where
  "MulpOffsetForSimulation result_size shift_size = do {
     let offset_lsbs_size = result_size - 2;
     let msbs_size = result_size - offset_lsbs_size;
     let offset_lsbs_shift_amount = min (offset_lsbs_size - 1) shift_size;
     offset_bits \<leftarrow> ShiftRightLogical (AllOnes offset_lsbs_size) offset_lsbs_shift_amount;
     if msbs_size > 0 then do {
       m \<leftarrow> MaxSigned msbs_size;
       Concat [m, offset_bits] }
     else Some offset_bits }"

section \<open>Bit manipulation\<close>

definition OneHotLsbToMsb :: "bits \<Rightarrow> bits option" where
  "OneHotLsbToMsb b = do {
     z \<leftarrow> IsZero b;
     if z then PowerOfTwo (ib_bit_count b) (ib_bit_count b + 1)
     else do {
       r \<leftarrow> loop (\<lambda>i result. do {
              x \<leftarrow> Get b i;
              if x then do { result \<leftarrow> InlineBitmap_Set result i True; Some (Return result) }
              else Some (Continue result) })
            [0..<ib_bit_count b] (InlineBitmap (ib_bit_count b + 1) False);
       Some (step_result (\<lambda>result. result) r) } }"

definition OneHotMsbToLsb :: "bits \<Rightarrow> bits option" where
  "OneHotMsbToLsb b = do {
     z \<leftarrow> IsZero b;
     if z then PowerOfTwo (ib_bit_count b) (ib_bit_count b + 1)
     else do {
       r \<leftarrow> loop (\<lambda>i result. do {
              x \<leftarrow> Get b i;
              if x then do { result \<leftarrow> InlineBitmap_Set result i True; Some (Return result) }
              else Some (Continue result) })
            (rev [0..<ib_bit_count b]) (InlineBitmap (ib_bit_count b + 1) False);
       Some (step_result (\<lambda>result. result) r) } }"

definition Reverse :: "bits \<Rightarrow> bits option" where
  "Reverse b =
     foldM (\<lambda>i reversed_bitmap. do {
         x \<leftarrow> Get b i;
         if x then InlineBitmap_Set reversed_bitmap (ib_bit_count b - 1 - i) True
         else Some reversed_bitmap })
       [0..<ib_bit_count b] (InlineBitmap (ib_bit_count b) False)"

definition DropLeadingZeroes :: "bits \<Rightarrow> bits option" where
  "DropLeadingZeroes b = do {
     z \<leftarrow> IsZero b;
     if z then Some (Bits 0)
     else do {
       r \<leftarrow> loop (\<lambda>first_one _. do {
              x \<leftarrow> Get b first_one;
              Some (if x then Return (first_one + 1) else Continue ()) })
            (rev [0..<ib_bit_count b]) ();
       Slice b 0 (step_result (\<lambda>_. 0) r) } }"

definition BitSliceUpdate :: "bits \<Rightarrow> nat \<Rightarrow> bits \<Rightarrow> bits option" where
  "BitSliceUpdate to_update start update_value =
     (if start \<ge> ib_bit_count to_update then Some to_update
      else do {
        lsb_slice \<leftarrow> Slice to_update 0 start;
        update_slice \<leftarrow> Slice update_value 0
          (min (ib_bit_count update_value) (ib_bit_count to_update - start));
        let msb_start = min (ib_bit_count to_update) (start + ib_bit_count update_value);
        msb_slice \<leftarrow> Slice to_update msb_start (ib_bit_count to_update - msb_start);
        Concat [msb_slice, update_slice, lsb_slice] })"

definition LongestCommonPrefixLSB :: "bits list \<Rightarrow> bits option" where
  "LongestCommonPrefixLSB bits_span =
     (case bits_span of
        [] \<Rightarrow> Some (Bits 0)
      | b0 # rest \<Rightarrow> do {
          let input_size = ib_bit_count b0;
          CHECK (\<forall>b\<in>set bits_span. ib_bit_count b = input_size);
          r \<leftarrow> loop (\<lambda>i _. do {
                 x0 \<leftarrow> Get b0 i;
                 loop (\<lambda>b _. do {
                   x \<leftarrow> Get b i;
                   Some (if x \<noteq> x0 then Return i else Continue ()) }) rest () })
               [0..<input_size] ();
          Slice b0 0 (step_result (\<lambda>_. input_size) r) })"

definition LongestCommonPrefixMSB :: "bits list \<Rightarrow> bits option" where
  "LongestCommonPrefixMSB bits_span =
     (case bits_span of
        [] \<Rightarrow> Some (Bits 0)
      | b0 # rest \<Rightarrow> do {
          let input_size = ib_bit_count b0;
          CHECK (\<forall>b\<in>set bits_span. ib_bit_count b = input_size);
          r \<leftarrow> loop (\<lambda>i _. do {
                 base_word \<leftarrow> GetWord b0 i;
                 diff \<leftarrow> foldM (\<lambda>b diff. do {
                           w \<leftarrow> GetWord b i;
                           Some (diff OR (base_word XOR w)) }) rest 0;
                 if diff \<noteq> 0 then do {
                   let common_prefix_start = 1 + FloorOfLog2 diff + i * kWordBits;
                   p \<leftarrow> Slice b0 common_prefix_start (input_size - common_prefix_start);
                   Some (Return p) }
                 else Some (Continue ()) })
               (rev [0..<word_count b0]) ();
          Some (step_result (\<lambda>_. b0) r) })"

section \<open>Printing\<close>

datatype format_preference =
    kDefault | kBinary | kSignedDecimal | kUnsignedDecimal | kHex
  | kPlainBinary | kPlainHex | kZeroPaddedBinary | kZeroPaddedHex

definition BitsToRawDigits ::
    "'bn bn_lib \<Rightarrow> bits \<Rightarrow> format_preference \<Rightarrow> bool \<Rightarrow> string option" where
  "BitsToRawDigits bn b preference emit_leading_zeros = do {
     CHECK (preference \<noteq> kDefault);
     let emit_leading_zeros =
       (emit_leading_zeros \<or> preference = kZeroPaddedBinary \<or> preference = kZeroPaddedHex);
     if preference = kSignedDecimal then do {
       CHECK (\<not> emit_leading_zeros);
       x \<leftarrow> MakeSigned bn b;
       BigInt_ToDecimalString bn x }
     else if preference = kUnsignedDecimal then do {
       CHECK (\<not> emit_leading_zeros);
       x \<leftarrow> MakeUnsigned bn b;
       BigInt_ToDecimalString bn x }
     else if ib_bit_count b = 0 then Some ''0''
     else do {
       let binary_format = (preference \<in> {kBinary, kPlainBinary, kZeroPaddedBinary});
       let hex_format = (preference \<in> {kHex, kPlainHex, kZeroPaddedHex});
       let plain_format = (preference \<in> {kPlainBinary, kPlainHex});
       CHECK (binary_format \<or> hex_format);
       let digit_width = (if binary_format then 1 else 4);
       let digit_count = nat (CeilOfRatio (int (ib_bit_count b)) (int digit_width));
       let include_separators = (\<not> plain_format);
       (result, eliding) \<leftarrow> foldM (\<lambda>digit_no (result, eliding). do {
            let result = (if include_separators \<and> (digit_no + 1) mod 4 = 0 \<and> result \<noteq> []
                          then result @ ''_'' else result);
            let start = digit_no * digit_width;
            let width = min digit_width (ib_bit_count b - start);
            s \<leftarrow> Slice b start width;
            digit_value \<leftarrow> ToUint64_value s;
            if digit_value = 0 \<and> eliding \<and> digit_no \<noteq> 0 then Some (result, eliding)
            else Some (result @ [digit_char (unat digit_value)], False) })
          (rev [0..<digit_count]) ([], \<not> emit_leading_zeros);
       Some result } }"

definition BitsToString :: "'bn bn_lib \<Rightarrow> bits \<Rightarrow> format_preference \<Rightarrow> bool \<Rightarrow> string option" where
  "BitsToString bn b preference include_bit_count = do {
     let preference =
       (if preference = kDefault
        then if ib_bit_count b \<le> 64 then kUnsignedDecimal else kHex else preference);
     let prefix = (if preference = kBinary then ''0b'' else if preference = kHex then ''0x'' else []);
     digits \<leftarrow> BitsToRawDigits bn b preference False;
     Some (prefix @ digits @
       (if include_bit_count then '' ['' @ nat_dec (ib_bit_count b) @ '' bits]'' else [])) }"

end
