(* ===== verification/Bits_Ops_Rules.thy ===== *)
theory Bits_Ops_Rules
  imports Bits_Ops
begin

text \<open>
  What each operation of \<^verbatim>\<open>bits_ops.cc\<close> computes, as rewrite rules on numbers, whichever
  of its branches (machine word, bytes, \<^verbatim>\<open>BigInt\<close>) it takes. The rules of the operations
  that use \<^verbatim>\<open>BigInt\<close> are lemmas of the locale \<open>bignum\<close>.
\<close>

section \<open>Extension and truncation\<close>

lemma ZeroExtend_mk [bm_spec]:
  "n \<le> m \<Longrightarrow> ZeroExtend (mkBitmap n v) m = Some (mkBitmap m (take_bit n v))"
  by (simp add: ZeroExtend_def bm_spec)

lemma sign_extended:
  "n \<le> m \<Longrightarrow> WithSize (mkBitmap n v) m (0 < n \<and> bit v (n - 1)) = bits_of_int m (sv n v)"
  unfolding bits_of_int_def
proof (rule mkBitmap_eqI[OF WithSize_repr[OF mk_repr]])
  fix i assume "n \<le> m" "i < m"
  then consider "n = 0" | "0 < n" "i < n - 1" | "0 < n" "i = n - 1" | "0 < n" "n \<le> i" by linarith
  then show "(if i < n then bit v i else 0 < n \<and> bit v (n - 1)) = bit (nat (take_bit m (sv n v))) i"
    using \<open>i < m\<close> by cases (auto simp: bit_nat_iff bit_take_bit_iff bit_sv min_def)
qed

lemma SignExtend_mk [bm_spec]:
  "n \<le> m \<Longrightarrow> SignExtend (mkBitmap n v) m = Some (bits_of_int m (sv n v))"
  using sign_extended[of n m v] by (cases "n = 0") (simp_all add: SignExtend_def GetFromMsb_mk)

lemma Truncate_mk [bm_spec]: "m \<le> n \<Longrightarrow> Truncate (mkBitmap n v) m = Some (mkBitmap m v)"
  by (simp add: Truncate_def bm_spec)

lemma take_bit_sv_le: "m \<le> n \<Longrightarrow> take_bit m (sv n v) = int (take_bit m v)"
proof -
  assume "m \<le> n"
  then have "take_bit m (sv n v) = take_bit m (take_bit n (sv n v))"
    by (simp only: take_bit_take_bit min.absorb1)
  also have "\<dots> = int (take_bit m v)" using \<open>m \<le> n\<close> by (simp add: take_bit_of_nat min_def)
  finally show ?thesis .
qed

lemma TruncateOrSignExtend_mk [bm_spec]:
  "TruncateOrSignExtend (mkBitmap n v) m = Some (bits_of_int m (sv n v))"
proof (cases "m < n")
  case True
  then show ?thesis
    by (simp add: TruncateOrSignExtend_def bm_spec bits_of_int_def take_bit_sv_le)
qed (auto simp: TruncateOrSignExtend_def bm_spec)

lemma TruncateOrSignExtend_of_int [bm_spec]:
  "fits_signed n k \<Longrightarrow> TruncateOrSignExtend (bits_of_int n k) m = Some (bits_of_int m k)"
  unfolding bits_of_int_def[of n] by (simp add: TruncateOrSignExtend_mk sv_of_int_fits)

lemma fits_signed_len [simp]: "fits_signed (signed_len k) k"
  by (simp flip: signed_len_le_iff)

section \<open>The word path\<close>

lemma UBits_masked: "n \<le> 64 \<Longrightarrow> UBits (word_of_int k AND Mask n) n = Some (bits_of_int n k)"
proof -
  assume n: "n \<le> 64"
  have u: "unat (word_of_int k AND Mask n :: 64 word) = nat (take_bit n k)"
  proof (rule bit_eqI)
    fix i
    show "bit (unat (word_of_int k AND Mask n :: 64 word)) i = bit (nat (take_bit n k)) i"
      using n by (auto simp: bit_simps bit_nat_iff)
  qed
  moreover have "nat (take_bit n k) < 2 ^ n" by (simp add: nat_less_iff)
  ultimately show "UBits (word_of_int k AND Mask n) n = Some (bits_of_int n k)"
    by (simp add: UBits_mk bits_of_int_def)
qed

lemma UBits_of_nat: "n \<le> 64 \<Longrightarrow> v < 2 ^ n \<Longrightarrow> UBits (word_of_nat v) n = Some (mkBitmap n v)"
proof -
  assume n: "n \<le> 64" and v: "v < 2 ^ n"
  have "v < 2 ^ 64" using v power_increasing[OF n, of "2::nat"] by linarith
  then have "unat (word_of_nat v :: 64 word) = v" by (simp add: unat_of_nat)
  then show ?thesis using v UBits_mk[of "word_of_nat v" n] by simp
qed

lemma word_of_nat_and: "(word_of_nat a AND word_of_nat b :: 64 word) = word_of_nat (a AND b)"
  and word_of_nat_or: "(word_of_nat a OR word_of_nat b :: 64 word) = word_of_nat (a OR b)"
  and word_of_nat_xor: "(word_of_nat a XOR word_of_nat b :: 64 word) = word_of_nat (a XOR b)"
  by (rule bit_word_eqI; simp add: bit_simps)+

lemma word_of_nat_not: "(NOT (word_of_nat a) :: 64 word) = word_of_int (NOT (int a))"
  by (rule bit_word_eqI) (simp add: bit_simps)

section \<open>The byte path\<close>

lemma FromBytes_bytewise:
  assumes "length bs = nbytes n"
    and "\<And>i. i < n \<Longrightarrow> bit (bs ! (i div 8)) (i mod 8) = bit r i"
  shows "FromBytes bs n = Some (mkBitmap n r)"
proof -
  have "mkBitmap n (bytes_val bs) = mkBitmap n r"
  proof (rule mkBitmap_eqI[OF mk_repr])
    fix i assume "i < n"
    moreover then have "i div 8 < nbytes n" by linarith
    ultimately show "bit (bytes_val bs) i = bit r i" using assms by (simp add: bit_bytes_val)
  qed
  then show ?thesis using assms(1) by (simp add: FromBytes_mk)
qed

lemma bit_ToBytes:
  assumes "i < n"
  shows "bit (ToBytes (mkBitmap n v) ! (i div 8)) (i mod 8) = bit v i"
proof -
  have "i div 8 < nbytes n" using assms by linarith
  then show ?thesis using assms by (simp add: bm_spec bit_simps)
qed

lemma length_ToBytes [simp]: "length (ToBytes (mkBitmap n v)) = nbytes n"
  by (simp add: bm_spec)

lemma nth_ToBytes_map2:
  "i < n \<Longrightarrow> map2 f (ToBytes (mkBitmap n v)) (ToBytes (mkBitmap n w)) ! (i div 8) =
     f (ToBytes (mkBitmap n v) ! (i div 8)) (ToBytes (mkBitmap n w) ! (i div 8))"
proof -
  assume "i < n"
  then have "i div 8 < nbytes n" by linarith
  then show ?thesis by (simp del: ToBytes_mk)
qed

section \<open>Bitwise operations\<close>

lemma And_mk [bm_spec]: "And (mkBitmap n v) (mkBitmap n w) = Some (mkBitmap n (v AND w))"
proof (cases "n \<le> 64")
  case True
  have "take_bit n v AND take_bit n w < 2 ^ n" by (simp add: nat_lt_exp_iff_bits bit_simps)
  then show ?thesis using True
    by (simp add: And_def bm_spec word_of_nat_and UBits_of_nat flip: take_bit_and)
next
  case False
  then show ?thesis unfolding And_def
    by (simp, intro FromBytes_bytewise) (simp_all add: nth_ToBytes_map2 bit_simps bit_ToBytes)
qed

lemma Or_mk [bm_spec]: "Or (mkBitmap n v) (mkBitmap n w) = Some (mkBitmap n (v OR w))"
proof (cases "n \<le> 64")
  case True
  have "take_bit n v OR take_bit n w < 2 ^ n" by (simp add: nat_lt_exp_iff_bits bit_simps)
  then show ?thesis using True
    by (simp add: Or_def bm_spec word_of_nat_or UBits_of_nat flip: take_bit_or)
next
  case False
  then show ?thesis unfolding Or_def
    by (simp, intro FromBytes_bytewise) (simp_all add: nth_ToBytes_map2 bit_simps bit_ToBytes)
qed

lemma Xor_mk [bm_spec]: "Xor (mkBitmap n v) (mkBitmap n w) = Some (mkBitmap n (v XOR w))"
proof (cases "n \<le> 64")
  case True
  have "take_bit n v XOR take_bit n w < 2 ^ n" by (simp add: nat_lt_exp_iff_bits bit_simps)
  then show ?thesis using True
    by (simp add: Xor_def bm_spec word_of_nat_xor UBits_of_nat flip: take_bit_xor)
next
  case False
  then show ?thesis unfolding Xor_def
    by (simp, intro FromBytes_bytewise) (simp_all add: nth_ToBytes_map2 bit_simps bit_ToBytes)
qed

definition nat_not :: "nat \<Rightarrow> nat \<Rightarrow> nat" where
  "nat_not n v = nat_of_bits n (\<lambda>i. \<not> bit v i)"

lemma bit_nat_not [simp]: "bit (nat_not n v) i = (i < n \<and> \<not> bit v i)"
  by (simp add: nat_not_def)

lemma bits_of_int_not: "bits_of_int n (NOT (int v)) = mkBitmap n (nat_not n v)"
  unfolding bits_of_int_def
  by (rule mkBitmap_eqI[OF mk_repr]) (auto simp: bit_simps bit_nat_iff)

lemma mkBitmap_not_cong: "(\<And>i. i < n \<Longrightarrow> bit v i = bit w i) \<Longrightarrow> nat_not n v = nat_not n w"
  by (rule bit_eqI) auto

lemma Not_mk [bm_spec]: "Not (mkBitmap n v) = Some (mkBitmap n (nat_not n v))"
proof (cases "n \<le> 64")
  case True
  then show ?thesis
    by (simp add: Not_def bm_spec word_of_nat_not UBits_masked bits_of_int_not)
       (simp add: mkBitmap_eq_iff mkBitmap_not_cong[of n "take_bit n v" v] bit_take_bit_iff)
next
  case False
  then show ?thesis unfolding Not_def
  proof (simp, intro FromBytes_bytewise)
    fix i assume "i < n"
    then have "i div 8 < nbytes n" by linarith
    then show "bit (map (\<lambda>x. NOT x) (ToBytes (mkBitmap n v)) ! (i div 8)) (i mod 8) = bit (nat_not n v) i"
      using \<open>i < n\<close> by (simp add: bit_not_iff bit_ToBytes)
  qed simp
qed

lemma Nand_mk [bm_spec]: "Nand (mkBitmap n v) (mkBitmap n w) = Some (mkBitmap n (nat_not n (v AND w)))"
proof (cases "n \<le> 64")
  case True
  then show ?thesis
    by (simp add: Nand_def bm_spec word_of_nat_and word_of_nat_not UBits_masked bits_of_int_not
          del: bit.de_Morgan_conj)
       (simp add: mkBitmap_eq_iff mkBitmap_not_cong[of n "take_bit n v AND take_bit n w" "v AND w"]
         bit_simps)
next
  case False
  then show ?thesis unfolding Nand_def
    by (simp, intro FromBytes_bytewise) (simp_all add: nth_ToBytes_map2 bit_simps bit_ToBytes)
qed

lemma Nor_mk [bm_spec]: "Nor (mkBitmap n v) (mkBitmap n w) = Some (mkBitmap n (nat_not n (v OR w)))"
proof (cases "n \<le> 64")
  case True
  then show ?thesis
    by (simp add: Nor_def bm_spec word_of_nat_or word_of_nat_not UBits_masked bits_of_int_not
          del: bit.de_Morgan_disj)
       (simp add: mkBitmap_eq_iff mkBitmap_not_cong[of n "take_bit n v OR take_bit n w" "v OR w"]
         bit_simps)
next
  case False
  then show ?thesis unfolding Nor_def
    by (simp, intro FromBytes_bytewise) (simp_all add: nth_ToBytes_map2 bit_simps bit_ToBytes)
qed

lemma Reduce_mk [bm_spec]:
  "AndReduce (mkBitmap n v) = Some (mkBitmap 1 (of_bool (take_bit n v = mask n)))"
  "OrReduce (mkBitmap n v) = Some (mkBitmap 1 (of_bool (take_bit n v \<noteq> 0)))"
  "XorReduce (mkBitmap n v) = Some (mkBitmap 1 (of_bool (odd (card {i. i < n \<and> bit v i}))))"
  by (simp_all add: AndReduce_def OrReduce_def XorReduce_def bm_spec)


section \<open>Comparisons\<close>

lemma UCmp_ops_mk [bm_spec]:
  "bits_UCmp (mkBitmap n v) (mkBitmap m w) = Some (sgn (int (take_bit n v) - int (take_bit m w)))"
  "UEqual (mkBitmap n v) (mkBitmap m w) = Some (take_bit n v = take_bit m w)"
  "UGreaterThanOrEqual (mkBitmap n v) (mkBitmap m w) = Some (take_bit n v \<ge> take_bit m w)"
  "UGreaterThan (mkBitmap n v) (mkBitmap m w) = Some (take_bit n v > take_bit m w)"
  "ULessThanOrEqual (mkBitmap n v) (mkBitmap m w) = Some (take_bit n v \<le> take_bit m w)"
  "ULessThan (mkBitmap n v) (mkBitmap m w) = Some (take_bit n v < take_bit m w)"
  by (simp_all add: bits_UCmp_def UEqual_def UGreaterThanOrEqual_def UGreaterThan_def
      ULessThanOrEqual_def ULessThan_def UCmp_mk sgn_if del: of_nat_take_bit)

lemma UMin_UMax_mk [bm_spec]:
  "UMin (mkBitmap n v) (mkBitmap n w) = Some (mkBitmap n (min (take_bit n v) (take_bit n w)))"
  "UMax (mkBitmap n v) (mkBitmap n w) = Some (mkBitmap n (max (take_bit n v) (take_bit n w)))"
  by (auto simp: UMin_def UMax_def UCmp_ops_mk min_def max_def)

lemma sint_of_take_bit: "V < 2 ^ 63 \<Longrightarrow> sint (word_of_nat V :: 64 word) = int V"
proof -
  assume "V < 2 ^ 63"
  then have "int V < 2 ^ 63" by (metis of_nat_less_iff of_nat_numeral of_nat_power)
  then have "fits_signed 64 (int V)" by (simp add: fits_signed_def)
  then have "sint (word_of_int (int V) :: 64 word) = int V" by (rule sint_word_of_int_fits)
  then show ?thesis by simp
qed

lemma TryUnsignedBitsToInt64_mk [bm_spec]:
  "TryUnsignedBitsToInt64 (mkBitmap n v) =
     Some (if take_bit n v < 2 ^ 63 then Some (word_of_nat (take_bit n v)) else None)"
  by (simp add: TryUnsignedBitsToInt64_def FitsInNBitsUnsigned_mk UnsignedToInt64_mk)

lemma int64_bound: "sint (w :: 64 word) < 2 ^ 63"
  using sint_less[of w] by simp

lemma U_int64_mk [bm_spec]:
  assumes "sint r \<ge> 0"
  shows "UEqual_int64 (mkBitmap n v) r = Some (int (take_bit n v) = sint r)"
    "UGreaterThanOrEqual_int64 (mkBitmap n v) r = Some (int (take_bit n v) \<ge> sint r)"
    "UGreaterThan_int64 (mkBitmap n v) r = Some (int (take_bit n v) > sint r)"
    "ULessThanOrEqual_int64 (mkBitmap n v) r = Some (int (take_bit n v) \<le> sint r)"
    "ULessThan_int64 (mkBitmap n v) r = Some (int (take_bit n v) < sint r)"
proof -
  let ?V = "take_bit n v"
  have big: "sint r < int ?V" if "\<not> ?V < 2 ^ 63"
  proof -
    have "int (2 ^ 63) \<le> int ?V" using that by (simp only: of_nat_le_iff not_less)
    then show ?thesis using int64_bound[of r] by simp
  qed
  note defs = UEqual_int64_def UGreaterThanOrEqual_int64_def UGreaterThan_int64_def
    ULessThanOrEqual_int64_def ULessThan_int64_def TryUnsignedBitsToInt64_mk
  show "UEqual_int64 (mkBitmap n v) r = Some (int ?V = sint r)"
    "UGreaterThanOrEqual_int64 (mkBitmap n v) r = Some (int ?V \<ge> sint r)"
    "UGreaterThan_int64 (mkBitmap n v) r = Some (int ?V > sint r)"
    "ULessThanOrEqual_int64 (mkBitmap n v) r = Some (int ?V \<le> sint r)"
    "ULessThan_int64 (mkBitmap n v) r = Some (int ?V < sint r)"
    unfolding defs using assms big
    by (cases "?V < 2 ^ 63"; simp add: sint_of_take_bit del: of_nat_take_bit; linarith)+
qed

lemma S_int64_mk [bm_spec]:
  "SEqual_int64 (mkBitmap n v) r = Some (sv n v = sint r)"
  "SGreaterThanOrEqual_int64 (mkBitmap n v) r = Some (sv n v \<ge> sint r)"
  "SGreaterThan_int64 (mkBitmap n v) r = Some (sv n v > sint r)"
  "SLessThanOrEqual_int64 (mkBitmap n v) r = Some (sv n v \<le> sint r)"
  "SLessThan_int64 (mkBitmap n v) r = Some (sv n v < sint r)"
proof -
  have r: "- (2 ^ 63) \<le> sint r" "sint r < 2 ^ 63" using sint_greater_eq[of r] int64_bound[of r] by simp_all
  have fits: "fits_signed 64 (sv n v) = (- (2 ^ 63) \<le> sv n v \<and> sv n v < 2 ^ 63)"
    by (simp add: fits_signed_def)
  have neg: "(0 < n \<and> bit v (n - 1)) = (sv n v < 0)" by (simp add: sv_neg_iff)
  note defs = SEqual_int64_def SGreaterThanOrEqual_int64_def SGreaterThan_int64_def
    SLessThanOrEqual_int64_def SLessThan_int64_def FitsInInt64_def FitsInNBitsSigned_mk
    ToInt64_value_def ToInt64_mk msb_mk
  show "SEqual_int64 (mkBitmap n v) r = Some (sv n v = sint r)"
    "SGreaterThanOrEqual_int64 (mkBitmap n v) r = Some (sv n v \<ge> sint r)"
    "SGreaterThan_int64 (mkBitmap n v) r = Some (sv n v > sint r)"
    "SLessThanOrEqual_int64 (mkBitmap n v) r = Some (sv n v \<le> sint r)"
    "SLessThan_int64 (mkBitmap n v) r = Some (sv n v < sint r)"
    unfolding defs neg using r fits
    by (cases "fits_signed 64 (sv n v)"; simp add: sint_word_of_int_fits; linarith)+
qed


section \<open>Concatenation and shifts\<close>

fun concat_val :: "(nat \<times> nat) list \<Rightarrow> nat" where
  "concat_val [] = 0"
| "concat_val ((n, v) # xs) =
     push_bit (sum_list (map fst xs)) (take_bit n v) OR concat_val xs"

lemma concat_val_less: "concat_val xs < 2 ^ sum_list (map fst xs)"
proof (induction xs)
  case (Cons x xs)
  then show ?case by (cases x) (auto simp: nat_lt_exp_iff_bits bit_simps)
qed simp

lemma fold_widths: "fold (\<lambda>b c. c + ib_bit_count b) bs k = k + sum_list (map ib_bit_count bs)"
  by (induction bs arbitrary: k) simp_all

lemma Concat_rope:
  "\<lbrakk>k \<le> length xs; sum_list (map fst xs) = N\<rbrakk> \<Longrightarrow>
   foldM (\<lambda>i rope. rope_push_back rope (map (\<lambda>(n, v). mkBitmap n v) xs ! (length xs - i - 1)))
     [0..<k] (BitsRope N) =
   Some (mkRope N (sum_list (map fst (drop (length xs - k) xs))) (concat_val (drop (length xs - k) xs)))"
proof (induction k)
  case 0
  then show ?case by (simp add: bm_spec)
next
  case (Suc k)
  let ?i = "length xs - Suc k"
  obtain n v where nv: "xs ! ?i = (n, v)" by fastforce
  have d: "drop ?i xs = (n, v) # drop (length xs - k) xs"
    using Suc.prems(1) nv Cons_nth_drop_Suc[of ?i xs] by (simp add: Suc_diff_Suc)
  let ?s = "sum_list (map fst (drop (length xs - k) xs))" and ?c = "concat_val (drop (length xs - k) xs)"
  have "sum_list (map fst (take ?i xs)) + sum_list (map fst (drop ?i xs)) = N"
    using Suc.prems(2) by (metis append_take_drop_id map_append sum_list.append)
  then have le: "?s + n \<le> N" by (simp add: d)
  have t: "take_bit ?s ?c = ?c" using concat_val_less by (simp add: take_bit_nat_eq_self_iff)
  have m: "mkRope N (?s + n) (?c OR push_bit ?s v) = mkRope N (n + ?s) (push_bit ?s (take_bit n v) OR ?c)"
  proof -
    have hi: "\<not> bit ?c i" if "?s \<le> i" for i
      using that concat_val_less[of "drop (length xs - k) xs"] nat_lt_exp_iff_bits by blast
    have "take_bit (?s + n) (?c OR push_bit ?s v) = take_bit (n + ?s) (push_bit ?s (take_bit n v) OR ?c)"
      by (rule bit_eqI) (auto simp: bit_simps)
    then show ?thesis by (simp add: mkRope_def add.commute)
  qed
  show ?case using Suc le nv
    by (simp add: foldM_append rope_push_back_mk[OF le] t m d)
qed

lemma Concat_mk:
  "Concat (map (\<lambda>(n, v). mkBitmap n v) xs) =
     Some (mkBitmap (sum_list (map fst xs)) (concat_val xs))"
proof -
  have w: "fold (\<lambda>b c. c + ib_bit_count b) (map (\<lambda>(n, v). mkBitmap n v) xs) 0 = sum_list (map fst xs)"
    by (simp add: fold_widths comp_def case_prod_beta)
  show ?thesis unfolding Concat_def w Let_def
    using Concat_rope[of "length xs" xs "sum_list (map fst xs)"] by (simp add: bm_spec)
qed

lemma Concat2_mk [bm_spec]:
  "Concat [mkBitmap n v, mkBitmap m w] = Some (mkBitmap (n + m) (push_bit m v OR take_bit m w))"
proof -
  have "mkBitmap (n + m) (push_bit m (take_bit n v) OR take_bit m w) = mkBitmap (n + m) (push_bit m v OR take_bit m w)"
    by (rule mkBitmap_eqI[OF mk_repr]) (auto simp: bit_simps)
  then show ?thesis using Concat_mk[of "[(n, v), (m, w)]"] by simp
qed

lemma Concat3_mk [bm_spec]:
  "Concat [mkBitmap n v, mkBitmap m w, mkBitmap k u] =
     Some (mkBitmap (n + (m + k)) (push_bit (m + k) v OR push_bit k (take_bit m w) OR take_bit k u))"
proof -
  have "mkBitmap (n + (m + k)) (push_bit (m + k) (take_bit n v) OR (push_bit k (take_bit m w) OR take_bit k u)) =
      mkBitmap (n + (m + k)) (push_bit (m + k) v OR push_bit k (take_bit m w) OR take_bit k u)"
    by (rule mkBitmap_eqI[OF mk_repr]) (auto simp: bit_simps)
  then show ?thesis using Concat_mk[of "[(n, v), (m, w), (k, u)]"] by simp
qed

lemma ShiftLeftLogical_mk [bm_spec]:
  "ShiftLeftLogical (mkBitmap n v) k = Some (mkBitmap n (push_bit k v))"
proof -
  have "mkBitmap n (push_bit (min k n) v) = mkBitmap n (push_bit k v)"
    by (rule mkBitmap_eqI[OF mk_repr]) (auto simp: bit_simps min_def)
  then show ?thesis by (simp add: ShiftLeftLogical_def bm_spec)
qed

lemma ShiftRightLogical_mk [bm_spec]:
  "ShiftRightLogical (mkBitmap n v) k = Some (mkBitmap n (drop_bit k (take_bit n v)))"
proof -
  have "mkBitmap n (take_bit (n - min k n) (drop_bit (min k n) v)) = mkBitmap n (drop_bit k (take_bit n v))"
    by (rule mkBitmap_eqI[OF mk_repr]) (auto simp: bit_simps min_def)
  then show ?thesis by (simp add: ShiftRightLogical_def bm_spec)
qed

lemma ShiftRightArith_mk [bm_spec]:
  "ShiftRightArith (mkBitmap n v) k = Some (bits_of_int n (drop_bit k (sv n v)))"
proof (cases "n = 0")
  case True
  then show ?thesis by (simp add: ShiftRightArith_def bm_spec bits_of_int_def)
next
  case False
  let ?s = "min k n"
  have "mkBitmap n (push_bit (n - ?s) (if bit v (n - 1) then mask ?s else 0) OR take_bit (n - ?s) (drop_bit ?s v)) =
      bits_of_int n (drop_bit k (sv n v))"
    unfolding bits_of_int_def
  proof (rule mkBitmap_eqI[OF mk_repr])
    fix i assume "i < n"
    then have "bit (nat (take_bit n (drop_bit k (sv n v)))) i = bit v (min (n - 1) (k + i))"
      using False by (simp add: bit_nat_iff bit_simps bit_sv add.commute)
    moreover have "min (n - 1) (k + i) = (if k + i < n then k + i else n - 1)" by simp
    ultimately show "bit (push_bit (n - ?s) (if bit v (n - 1) then mask ?s else 0) OR
        take_bit (n - ?s) (drop_bit ?s v)) i = bit (nat (take_bit n (drop_bit k (sv n v)))) i"
      using \<open>i < n\<close> by (cases "k + i < n"; cases "k \<le> n") (auto simp: bit_simps min_def)
  qed
  then show ?thesis using False
    by (cases "bit v (n - 1)") (simp_all add: ShiftRightArith_def bm_spec Let_def)
qed


section \<open>Bit manipulation\<close>

lemma OneHot_loop:
  assumes "\<exists>x\<in>set xs. bit v x" "\<forall>x\<in>set xs. x < n"
  shows "\<exists>i. find (bit v) xs = Some i \<and>
    loop (\<lambda>i result. do {
        x \<leftarrow> Get (mkBitmap n v) i;
        if x then do { result \<leftarrow> InlineBitmap_Set result i True; Some (Return result) }
        else Some (Continue result) }) xs (mkBitmap (n + 1) 0) = Some (Return (mkBitmap (n + 1) (2 ^ i)))"
  using assms
proof (induction xs)
  case (Cons x xs)
  then show ?case by (auto simp: bm_spec set_bit_eq)
qed simp

lemma find_upt_least:
  "find P [0..<n] = Some i \<Longrightarrow> i < n \<and> P i \<and> (\<forall>j<i. \<not> P j)"
  by (auto simp: find_Some_iff)

lemma OneHotLsbToMsb_mk:
  "OneHotLsbToMsb (mkBitmap n v) =
     Some (mkBitmap (n + 1) (2 ^ length (takeWhile (\<lambda>i. \<not> bit v i) [0..<n])))"
proof (cases "take_bit n v = 0")
  case True
  then have "\<not> bit v i" if "i < n" for i
    using that take_bit_eq_iff_bits[of n v 0] by simp
  then have "length (takeWhile (\<lambda>i. \<not> bit v i) [0..<n]) = n" by (intro length_takeWhile_upt) auto
  then show ?thesis using True by (simp add: OneHotLsbToMsb_def bm_spec)
next
  case False
  then have "\<exists>x\<in>set [0..<n]. bit v x"
    using take_bit_eq_iff_bits[of n v 0] by auto
  from OneHot_loop[OF this, of n] obtain i where i: "find (bit v) [0..<n] = Some i"
    and l: "loop (\<lambda>i result. do {
        x \<leftarrow> Get (mkBitmap n v) i;
        if x then do { result \<leftarrow> InlineBitmap_Set result i True; Some (Return result) }
        else Some (Continue result) }) [0..<n] (mkBitmap (n + 1) 0) = Some (Return (mkBitmap (n + 1) (2 ^ i)))"
    by auto
  have "length (takeWhile (\<lambda>i. \<not> bit v i) [0..<n]) = i"
    using find_upt_takeWhile[where P = "bit v" and lo = 0 and n = n] i by simp
  then show ?thesis using False l by (simp add: OneHotLsbToMsb_def IsZero_mk InlineBitmap_mk)
qed

lemma find_rev_upt: "find P (rev [0..<n]) = Some i \<longleftrightarrow> i < n \<and> P i \<and> (\<forall>j. i < j \<and> j < n \<longrightarrow> \<not> P j)"
proof (induction n)
  case (Suc n)
  then show ?case by (auto simp: less_Suc_eq)
qed simp

lemma top_bit_unique:
  assumes "i < n" "bit v i" "\<forall>j. i < j \<and> j < n \<longrightarrow> \<not> bit v j"
  shows "nat_len (take_bit n v) = Suc i"
proof (rule nat_len_eqI)
  show "take_bit n v < 2 ^ Suc i"
    using assms(3) by (auto simp: nat_lt_exp_iff_bits bit_take_bit_iff Suc_le_eq simp del: power_Suc)
  show "2 ^ i \<le> take_bit n v" using assms(1,2) by (intro nat_bit_imp_ge) (simp add: bit_take_bit_iff)
qed

lemma OneHotMsbToLsb_mk:
  "OneHotMsbToLsb (mkBitmap n v) =
     Some (mkBitmap (n + 1) (if take_bit n v = 0 then 2 ^ n else 2 ^ (nat_len (take_bit n v) - 1)))"
proof (cases "take_bit n v = 0")
  case True
  then show ?thesis by (simp add: OneHotMsbToLsb_def bm_spec)
next
  case False
  then have "\<exists>x\<in>set (rev [0..<n]). bit v x"
    using take_bit_eq_iff_bits[of n v 0] by auto
  from OneHot_loop[OF this, of n] obtain i where i: "find (bit v) (rev [0..<n]) = Some i"
    and l: "loop (\<lambda>i result. do {
        x \<leftarrow> Get (mkBitmap n v) i;
        if x then do { result \<leftarrow> InlineBitmap_Set result i True; Some (Return result) }
        else Some (Continue result) }) (rev [0..<n]) (mkBitmap (n + 1) 0) = Some (Return (mkBitmap (n + 1) (2 ^ i)))"
    by auto
  have "nat_len (take_bit n v) = Suc i" using i unfolding find_rev_upt by (auto intro: top_bit_unique)
  then show ?thesis using False l by (simp add: OneHotMsbToLsb_def IsZero_mk InlineBitmap_mk)
qed

lemma Reverse_mk [bm_spec]:
  "Reverse (mkBitmap n v) = Some (mkBitmap n (nat_of_bits n (\<lambda>i. bit v (n - 1 - i))))"
proof (rule repr_SomeI)
  show "\<exists>bm. Reverse (mkBitmap n v) = Some bm \<and>
      bm_repr bm n (\<lambda>j. n - 1 - j < n \<and> bit v (n - 1 - j))"
    unfolding Reverse_def ib_bit_count_mkBitmap
  proof (rule foldM_upt_inv[where P = "\<lambda>i bm. bm_repr bm n (\<lambda>j. n - 1 - j < i \<and> bit v (n - 1 - j))"])
    show "bm_repr (InlineBitmap n False) n (\<lambda>j. n - 1 - j < 0 \<and> bit v (n - 1 - j))"
      by (rule bm_repr_cong[OF bm_repr_InlineBitmap]) simp
    fix i s assume i: "i < n" and s: "bm_repr s n (\<lambda>j. n - 1 - j < i \<and> bit v (n - 1 - j))"
    have lt: "n - 1 - i < n" using i by linarith
    have e: "n - 1 - j < Suc i \<longleftrightarrow> n - 1 - j < i \<or> j = n - 1 - i" if "j < n" for j using that i by auto
    show "\<exists>s'. Option.bind (Get (mkBitmap n v) i)
          (\<lambda>x. if x then InlineBitmap_Set s (n - 1 - i) True else Some s) = Some s' \<and>
        bm_repr s' n (\<lambda>j. n - 1 - j < Suc i \<and> bit v (n - 1 - j))"
    proof (cases "bit v i")
      case True
      from InlineBitmap_Set_repr[OF s lt, of True] obtain s' where
        "InlineBitmap_Set s (n - 1 - i) True = Some s'"
        and r: "bm_repr s' n ((\<lambda>j. n - 1 - j < i \<and> bit v (n - 1 - j))(n - 1 - i := True))" by blast
      moreover have "bm_repr s' n (\<lambda>j. n - 1 - j < Suc i \<and> bit v (n - 1 - j))"
        using r by (rule bm_repr_cong) (use True i in \<open>auto simp: e\<close>)
      ultimately show ?thesis using True i by (simp add: Get_mk)
    next
      case False
      have "bm_repr s n (\<lambda>j. n - 1 - j < Suc i \<and> bit v (n - 1 - j))"
        using s by (rule bm_repr_cong) (use False in \<open>auto simp: less_Suc_eq\<close>)
      then show ?thesis using False i by (simp add: Get_mk)
    qed
  qed simp
qed auto

lemma DropLeadingZeroes_mk [bm_spec]:
  "DropLeadingZeroes (mkBitmap n v) = Some (mkBitmap (nat_len (take_bit n v)) v)"
proof (cases "take_bit n v = 0")
  case True
  then show ?thesis by (simp add: DropLeadingZeroes_def bm_spec mkBitmap_eq_iff)
next
  case False
  then have "find (bit v) (rev [0..<n]) \<noteq> None"
    using take_bit_eq_iff_bits[of n v 0] by (auto simp: find_None_iff)
  then obtain i where i: "find (bit v) (rev [0..<n]) = Some i" by auto
  then have len: "nat_len (take_bit n v) = Suc i" "i < n"
    unfolding find_rev_upt by (auto intro: top_bit_unique)
  have "loop (\<lambda>first_one _. do {
      x \<leftarrow> Get (mkBitmap n v) first_one;
      Some (if x then Return (first_one + 1) else Continue ()) }) (rev [0..<n]) () =
    Some (case find (bit v) (rev [0..<n]) of None \<Rightarrow> Continue () | Some x \<Rightarrow> Return (x + 1))"
    by (rule loop_find) (simp add: Get_mk)
  then show ?thesis using False i len by (simp add: DropLeadingZeroes_def IsZero_mk Slice_mk)
qed


lemma BitSliceUpdate_mk [bm_spec]:
  "BitSliceUpdate (mkBitmap n v) s (mkBitmap m w) =
     Some (mkBitmap n (nat_of_bits n (\<lambda>i. if s \<le> i \<and> i < s + m then bit w (i - s) else bit v i)))"
proof (cases "n \<le> s")
  case True
  have "mkBitmap n v = mkBitmap n (nat_of_bits n (\<lambda>i. if s \<le> i \<and> i < s + m then bit w (i - s) else bit v i))"
    using True by (intro mkBitmap_eqI[OF mk_repr]) auto
  then show ?thesis using True by (simp add: BitSliceUpdate_def)
next
  case False
  let ?e = "min n (s + m)" and ?u = "min m (n - s)"
  have w: "n - ?e + (?u + s) = n" using False by linarith
  have "mkBitmap n (push_bit (?u + s) (drop_bit ?e v) OR push_bit s (take_bit ?u w) OR take_bit s v) =
      mkBitmap n (nat_of_bits n (\<lambda>i. if s \<le> i \<and> i < s + m then bit w (i - s) else bit v i))"
  proof (rule mkBitmap_eqI[OF mk_repr])
    fix i assume "i < n"
    then consider "i < s" | "s \<le> i" "i < s + m" | "s + m \<le> i" by linarith
    then show "bit (push_bit (?u + s) (drop_bit ?e v) OR push_bit s (take_bit ?u w) OR take_bit s v) i =
      bit (nat_of_bits n (\<lambda>i. if s \<le> i \<and> i < s + m then bit w (i - s) else bit v i)) i"
      using \<open>i < n\<close> by cases (auto simp: bit_simps min_def)
  qed
  then show ?thesis using False w
    by (simp add: BitSliceUpdate_def Slice_mk Concat3_mk)
qed

section \<open>Increment, decrement, predecessor test\<close>

lemma word_split: "u = take_bit (64 * k) u + 2 ^ (64 * k) * drop_bit (64 * k) u" for u :: nat
  by (simp add: take_bit_eq_mod drop_bit_eq_div)

lemma word_split3:
  fixes u :: nat
  shows "u = take_bit (64 * k) u +
    2 ^ (64 * k) * (unat (word_of_nat (drop_bit (64 * k) u) :: 64 word) + 2 ^ 64 * drop_bit (64 * Suc k) u)"
  using word_split[of u k] drop_bit_split[of k u] by (simp only: add.commute)

lemma SetWord_mk:
  assumes "k < nwords n"
  shows "SetWord (mkBitmap n u) k x =
    Some (mkBitmap n (take_bit (64 * k) u + 2 ^ (64 * k) * (unat x + 2 ^ 64 * drop_bit (64 * Suc k) u)))"
    (is "_ = Some (mkBitmap n ?r)")
proof (rule repr_SomeI)
  let ?g = "\<lambda>i. if i div 64 = k then bit x (i mod 64) else bit u i"
  show "\<exists>bm. SetWord (mkBitmap n u) k x = Some bm \<and> bm_repr bm n ?g"
    by (rule SetWord_repr[OF mk_repr assms]) auto
  fix i assume "i < n"
  have r: "?r = take_bit (64 * k) u OR push_bit (64 * k) (unat x) OR push_bit (64 * k + 64) (drop_bit (64 * Suc k) u)"
  proof -
    have x: "\<not> bit (unat x) j" if "64 \<le> j" for j
      using that bit_imp_le_length[of x j] by (auto simp: bit_unsigned_iff)
    have "unat x + push_bit 64 (drop_bit (64 * Suc k) u) = unat x OR push_bit 64 (drop_bit (64 * Suc k) u)"
      using x by (intro disjunctive_add) (auto simp: bit_simps)
    moreover have "take_bit (64 * k) u + push_bit (64 * k) y = take_bit (64 * k) u OR push_bit (64 * k) y" for y
      by (intro disjunctive_add) (auto simp: bit_simps)
    moreover have "?r = take_bit (64 * k) u + push_bit (64 * k) (unat x + push_bit 64 (drop_bit (64 * Suc k) u))"
      by (simp add: push_bit_eq_mult mult.commute)
    ultimately have "?r = take_bit (64 * k) u OR
        push_bit (64 * k) (unat x OR push_bit 64 (drop_bit (64 * Suc k) u))" by (simp only:)
    then show ?thesis by (simp only: push_bit_or push_bit_push_bit or.assoc)
  qed
  have e: "i div 64 = k \<longleftrightarrow> 64 * k \<le> i \<and> i < 64 * k + 64" by linarith
  have m: "i - 64 * k = i mod 64" if "i div 64 = k" using mult_div_mod_eq[of 64 i] that by linarith
  consider "i < 64 * k" | "i div 64 = k" | "64 * k + 64 \<le> i" using e by linarith
  then show "?g i = bit ?r i"
  proof cases
    case 1
    then show ?thesis using e unfolding r by (auto simp: bit_simps)
  next
    case 2
    then show ?thesis using e m unfolding r by (auto simp: bit_simps)
  next
    case 3
    then have "\<not> bit x (i - 64 * k)" using bit_imp_le_length[of x "i - 64 * k"] by auto
    then show ?thesis using 3 e unfolding r by (auto simp: bit_simps)
  qed
qed

lemma mkBitmap_add_exp: "n \<le> m \<Longrightarrow> mkBitmap n (u + 2 ^ m) = mkBitmap n u"
proof -
  assume "n \<le> m"
  then have "(2::nat) ^ m = 2 ^ n * 2 ^ (m - n)" by (simp flip: power_add)
  then show "mkBitmap n (u + 2 ^ m) = mkBitmap n u" by (simp add: mkBitmap_eq_iff take_bit_eq_mod)
qed

lemma Increment_loop:
  assumes "u < 2 ^ n" "k \<le> nwords n"
  shows "Option.bind (loop (\<lambda>i result. do {
        word \<leftarrow> GetWord result i;
        if word < - 1 then do { result \<leftarrow> SetWord result i (word + 1); Some (Return result) }
        else do { result \<leftarrow> SetWord result i 0; Some (Continue result) } }) [k..<nwords n] (mkBitmap n u))
      (\<lambda>r. Some (step_result (\<lambda>result. result) r)) = Some (mkBitmap n (u + 2 ^ (64 * k)))"
  using assms
proof (induction "nwords n - k" arbitrary: k u)
  case 0
  then have "k = nwords n" "n \<le> 64 * k" by linarith+
  then show ?case by (simp add: mkBitmap_add_exp)
next
  case (Suc m)
  then have k: "k < nwords n" by linarith
  let ?w = "word_of_nat (drop_bit (64 * k) u) :: 64 word"
  have tu: "take_bit n u = u" using Suc.prems by (simp add: take_bit_nat_eq_self_iff)
  note s3 = word_split3[of u k]
  show ?case
  proof (cases "?w = - 1")
    case False
    then have lt: "?w < - 1" using word_order.not_eq_extremum[of ?w] by simp
    have "1 + ?w \<noteq> 0" using False by (metis add.commute eq_neg_iff_add_eq_0)
    then have "unat (?w + 1) = unat ?w + 1" using unatSuc[of ?w] by (simp add: add.commute)
    then have "take_bit (64 * k) u + 2 ^ (64 * k) * (unat (?w + 1) + 2 ^ 64 * drop_bit (64 * Suc k) u) =
        u + 2 ^ (64 * k)"
      using s3 by (simp add: distrib_left)
    then show ?thesis using lt k by (simp add: upt_conv_Cons GetWord_mk tu SetWord_mk)
  next
    case True
    let ?u = "take_bit (64 * k) u + 2 ^ (64 * k) * (unat (0 :: 64 word) + 2 ^ 64 * drop_bit (64 * Suc k) u)"
    have "unat (- 1 :: 64 word) + 1 = 2 ^ 64" by (simp add: unsigned_minus_1_eq_mask mask_eq_exp_minus_1)
    then have eq: "?u + 2 ^ (64 * Suc k) = u + 2 ^ (64 * k)" and le: "?u \<le> u"
      using s3 unfolding True by (simp_all add: distrib_left power_add)
    have "?u < 2 ^ n" using le Suc.prems by linarith
    from Suc.hyps(1)[OF _ this, of "Suc k"] Suc.hyps(2) k show ?thesis
      using True eq by (simp add: upt_conv_Cons GetWord_mk tu SetWord_mk)
  qed
qed


lemma Increment_mk [bm_spec]: "Increment (mkBitmap n v) = Some (mkBitmap n (v + 1))"
proof -
  have "mkBitmap n (take_bit n v + 1) = mkBitmap n (v + 1)"
    by (simp add: mkBitmap_eq_iff take_bit_eq_mod mod_simps)
  then show ?thesis using Increment_loop[of "take_bit n v" n 0]
    by (simp add: Increment_def)
qed

lemma bits_of_int_diff_exp: "n \<le> m \<Longrightarrow> bits_of_int n (k - 2 ^ m) = bits_of_int n k"
proof -
  assume "n \<le> m"
  then have "(2::int) ^ m = 2 ^ n * 2 ^ (m - n)" by (simp flip: power_add)
  then show "bits_of_int n (k - 2 ^ m) = bits_of_int n k"
    by (intro bits_of_int_cong) (simp add: take_bit_eq_mod mod_diff_right_eq[symmetric])
qed

lemma bits_of_int_take_bit_diff:
  "bits_of_int n (int (take_bit n u) - k) = bits_of_int n (int u - k)"
  by (intro bits_of_int_cong) (simp add: take_bit_eq_mod zmod_int mod_simps)

lemma word_split_pred: "u = t + p * (x + q) \<Longrightarrow> x = y + 1 \<Longrightarrow> t + p * (y + q) + p = u" for u :: nat
  by (simp add: algebra_simps)

lemma mkBitmap_minus_exp: "x + 2 ^ m = u \<Longrightarrow> mkBitmap n x = bits_of_int n (int u - 2 ^ m)"
  by (auto simp flip: bits_of_int_nat)

lemma Decrement_loop:
  assumes "u < 2 ^ n" "k \<le> nwords n"
  shows "Option.bind (loop (\<lambda>i result. do {
        word \<leftarrow> GetWord result i;
        if word > 0 then do { result \<leftarrow> SetWord result i (word - 1); Some (Return result) }
        else do { result \<leftarrow> SetWord result i (NOT 0); Some (Continue result) } }) [k..<nwords n] (mkBitmap n u))
      (\<lambda>r. Some (step_result (\<lambda>result. result) r)) = Some (bits_of_int n (int u - 2 ^ (64 * k)))"
  using assms
proof (induction "nwords n - k" arbitrary: k u)
  case 0
  then have "k = nwords n" "n \<le> 64 * k" by linarith+
  then show ?case by (simp add: bits_of_int_diff_exp)
next
  case (Suc m)
  then have k: "k < nwords n" by linarith
  let ?w = "word_of_nat (drop_bit (64 * k) u) :: 64 word"
  have tu: "take_bit n u = u" using Suc.prems by (simp add: take_bit_nat_eq_self_iff)
  note s3 = word_split3[of u k]
  show ?case
  proof (cases "?w = 0")
    case False
    then have lt: "0 < ?w" by (simp add: word_gt_0)
    have "unat ?w \<noteq> 0" using False unat_eq_zero by blast
    then have "unat ?w = unat (?w - 1) + 1" using False by (simp add: unat_minus_one)
    then have "take_bit (64 * k) u + 2 ^ (64 * k) * (unat (?w - 1) + 2 ^ 64 * drop_bit (64 * Suc k) u) + 2 ^ (64 * k) = u"
      (is "?x + _ = u") by (rule word_split_pred[OF s3])
    then have "mkBitmap n ?x = bits_of_int n (int u - 2 ^ (64 * k))" by (rule mkBitmap_minus_exp)
    then show ?thesis using lt k by (simp add: upt_conv_Cons GetWord_mk tu SetWord_mk)
  next
    case True
    let ?u = "take_bit (64 * k) u + 2 ^ (64 * k) * (unat (NOT 0 :: 64 word) + 2 ^ 64 * drop_bit (64 * Suc k) u)"
    have m1: "unat (NOT 0 :: 64 word) + 1 = 2 ^ 64" by (simp add: unsigned_minus_1_eq_mask mask_eq_exp_minus_1)
    have "?u + 2 ^ (64 * k) = u + 2 ^ (64 * Suc k)"
    proof -
      have "?u + 2 ^ (64 * k) = take_bit (64 * k) u + 2 ^ (64 * k) * ((unat (NOT 0 :: 64 word) + 1) + 2 ^ 64 * drop_bit (64 * Suc k) u)"
        by (simp add: distrib_left)
      also have "\<dots> = u + 2 ^ (64 * Suc k)" unfolding m1 using s3 unfolding True
        by (simp add: distrib_left power_add)
      finally show ?thesis .
    qed
    then have eq: "int ?u - 2 ^ (64 * Suc k) = int u - 2 ^ (64 * k)"
      by (simp only: of_nat_add of_nat_power of_nat_numeral flip: of_nat_eq_iff[where 'a = int])
    have "take_bit n ?u < 2 ^ n" by simp
    from Suc.hyps(1)[OF _ this, of "Suc k"] Suc.hyps(2) k show ?thesis
      using True eq by (simp add: upt_conv_Cons GetWord_mk tu SetWord_mk bits_of_int_take_bit_diff)
  qed
qed


lemma Decrement_mk [bm_spec]: "Decrement (mkBitmap n v) = Some (bits_of_int n (int v - 1))"
  using Decrement_loop[of "take_bit n v" n 0] by (simp add: Decrement_def bits_of_int_take_bit_diff)

lemma low_words_iff:
  assumes "k \<le> nwords n" "k \<le> nwords m"
  shows "(\<exists>j\<in>set (rev [0..<k]). (word_of_nat (drop_bit (64 * j) (take_bit n v)) :: 64 word) \<noteq> NOT 0 \<or>
        (word_of_nat (drop_bit (64 * j) (take_bit m w)) :: 64 word) \<noteq> 0) =
     (\<not> (take_bit (64 * k) (take_bit n v) = mask (64 * k) \<and> take_bit (64 * k) (take_bit m w) = 0))"
proof -
  have all: "(\<forall>j<k. \<forall>i<64. P (64 * j + i)) = (\<forall>i<64 * k. P i)" for P :: "nat \<Rightarrow> bool"
    using all_words_iff_all_bits[of "64 * k" P] by (auto dest: spec)
  have ones: "(\<forall>j<k. (word_of_nat (drop_bit (64 * j) V) :: 64 word) = NOT 0) =
      (take_bit (64 * k) V = mask (64 * k))" for V :: nat
  proof -
    have "(take_bit (64 * k) V = mask (64 * k)) = (\<forall>i<64 * k. bit V i)"
      using take_bit_eq_iff_bits[of "64 * k" V "mask (64 * k)"] by (auto simp: bit_simps)
    then show ?thesis using all[of "bit V"] by (auto simp: word_eq_iff_bits bit_simps)
  qed
  have zeros: "(\<forall>j<k. (word_of_nat (drop_bit (64 * j) V) :: 64 word) = 0) =
      (take_bit (64 * k) V = 0)" for V :: nat
  proof -
    have "(take_bit (64 * k) V = 0) = (\<forall>i<64 * k. \<not> bit V i)"
      using take_bit_eq_iff_bits[of "64 * k" V 0] by simp
    then show ?thesis using all[of "\<lambda>i. \<not> bit V i"] by (auto simp: word_eq_iff_bits bit_simps)
  qed
  show ?thesis unfolding ones[symmetric] zeros[symmetric] by auto
qed

text \<open>Two numbers with the same high part differ by one across a word boundary.\<close>

lemma carry_iff:
  fixes p h x y l r :: nat
  assumes "x < y" "l < p" "r < p"
  shows "(p * (h + y) + r \<le> p * (h + x) + l + 1) = (y = x + 1 \<and> l = p - 1 \<and> r = 0)"
proof
  obtain d where d: "y = x + Suc d" using assms(1) by (metis less_imp_Suc_add add_Suc_right)
  assume "p * (h + y) + r \<le> p * (h + x) + l + 1"
  then have "p + p * d + r \<le> l + 1" by (simp add: d algebra_simps)
  moreover have "p \<le> p * d" if "d \<noteq> 0" using that by simp
  ultimately have "d = 0" "r = 0" "l + 1 = p" using assms by fastforce+
  then show "y = x + 1 \<and> l = p - 1 \<and> r = 0" using d by simp
next
  assume "y = x + 1 \<and> l = p - 1 \<and> r = 0"
  then show "p * (h + y) + r \<le> p * (h + x) + l + 1" using assms by (simp add: algebra_simps)
qed

lemma pred_iff:
  fixes p :: nat
  assumes "V = p * (h + x) + l" "W = p * (h + y) + r" "x < y" "l < p" "r < p"
  shows "(W \<le> V + 1) = (y = x + 1 \<and> l = p - 1 \<and> r = 0)"
  unfolding assms(1,2) by (rule carry_iff[OF assms(3-5)])

lemma UAtLeastPredecessor_loop:
  fixes n v w
  defines "V \<equiv> take_bit n v" and "W \<equiv> take_bit n w"
  assumes "k \<le> nwords n" "drop_bit (64 * k) V = drop_bit (64 * k) W"
  shows "Option.bind (loop (\<lambda>i _. do {
      b_word \<leftarrow> GetWord (mkBitmap n v) i;
      c_word \<leftarrow> GetWord (mkBitmap n w) i;
      if b_word > c_word then Some (Return True)
      else if b_word = c_word then Some (Continue ())
      else if c_word \<noteq> b_word + 1 then Some (Return False)
      else do {
        r \<leftarrow> loop (\<lambda>j _. do {
               b \<leftarrow> GetWord (mkBitmap n v) j;
               c \<leftarrow> GetWord (mkBitmap n w) j;
               Some (if b \<noteq> NOT 0 \<or> c \<noteq> 0 then Return False else Continue ()) })
             (rev [0..<i]) ();
        Some (Return (step_result (\<lambda>_. True) r)) } }) (rev [0..<k]) ())
    (\<lambda>r. Some (step_result (\<lambda>_. True) r)) = Some (W \<le> V + 1)"
  using assms(3,4)
proof (induction k)
  case 0
  then show ?case by simp
next
  case (Suc k)
  let ?x = "word_of_nat (drop_bit (64 * k) V) :: 64 word"
  let ?y = "word_of_nat (drop_bit (64 * k) W) :: 64 word"
  let ?l = "take_bit (64 * k) V" and ?r = "take_bit (64 * k) W" and ?p = "2 ^ (64 * k) :: nat"
  obtain h where hx: "drop_bit (64 * k) V = h + unat ?x" and hy: "drop_bit (64 * k) W = h + unat ?y"
    using drop_bit_split[of k V] drop_bit_split[of k W] unfolding Suc.prems(2) by blast
  have V: "V = ?p * (h + unat ?x) + ?l" and W: "W = ?p * (h + unat ?y) + ?r"
    using word_split[of V k] arg_cong[OF hx, of "\<lambda>x. ?p * x"]
      word_split[of W k] arg_cong[OF hy, of "\<lambda>x. ?p * x"] by linarith+
  have lt: "?l < ?p" "?r < ?p" by simp_all
  have get: "GetWord (mkBitmap n v) k = Some ?x" "GetWord (mkBitmap n w) k = Some ?y"
    using Suc.prems(1) by (auto simp: bm_spec V_def W_def)
  have inner: "loop (\<lambda>j _. do {
               b \<leftarrow> GetWord (mkBitmap n v) j;
               c \<leftarrow> GetWord (mkBitmap n w) j;
               Some (if b \<noteq> NOT 0 \<or> c \<noteq> 0 then Return False else Continue ()) })
             (rev [0..<k]) () = Some (if ?l = mask (64 * k) \<and> ?r = 0 then Continue () else Return False)"
    using low_words_iff[of k n n v w] Suc.prems(1) unfolding V_def W_def
    by (subst loop_any[where P = "\<lambda>j. (word_of_nat (drop_bit (64 * j) (take_bit n v)) :: 64 word) \<noteq> NOT 0 \<or>
        (word_of_nat (drop_bit (64 * j) (take_bit n w)) :: 64 word) \<noteq> 0" and r = False])
       (auto simp: bm_spec)
  consider "?y < ?x" | "?x = ?y" | "?x < ?y" by fastforce
  then show ?case
  proof cases
    case 1
    then have "drop_bit (64 * k) W < drop_bit (64 * k) V" using hx hy unfolding word_less_nat_alt by linarith
    then have "W < V" by (rule drop_bit_less_imp)
    then show ?thesis using 1 by (simp add: get)
  next
    case 2
    then show ?thesis using Suc hx hy by (simp add: get)
  next
    case 3
    then have xy: "unat ?x < unat ?y" by (simp add: word_less_nat_alt)
    have "(?y = ?x + 1) = (unat ?y = unat ?x + 1)"
    proof -
      have "?x \<noteq> - 1" using 3 word_order.extremum_strict by auto
      then have "1 + ?x \<noteq> 0" by (metis add.commute eq_neg_iff_add_eq_0)
      then have "unat (?x + 1) = unat ?x + 1" using unatSuc[of ?x] by (simp add: add.commute)
      then show ?thesis by (metis unsigned_word_eqI)
    qed
    moreover have "(W \<le> V + 1) = (unat ?y = unat ?x + 1 \<and> ?l = ?p - 1 \<and> ?r = 0)"
      by (rule pred_iff[OF V W xy lt])
    ultimately have res: "(W \<le> V + 1) = (?y = ?x + 1 \<and> ?l = mask (64 * k) \<and> ?r = 0)"
      by (simp only: mask_eq_exp_minus_1)
    have "\<not> ?y < ?x" "?x \<noteq> ?y" using 3 by auto
    then show ?thesis using inner res
      by (cases "?y = ?x + 1"; cases "?l = mask (64 * k) \<and> ?r = 0") (simp_all add: get)
  qed
qed

lemma UAtLeastPredecessor_mk [bm_spec]:
  "UAtLeastPredecessor (mkBitmap n v) (mkBitmap n w) = Some (take_bit n w \<le> take_bit n v + 1)"
proof -
  have "drop_bit (64 * nwords n) (take_bit n v) = drop_bit (64 * nwords n) (take_bit n w)"
    by (simp add: take_bit_below_words)
  from UAtLeastPredecessor_loop[OF order_refl this] show ?thesis
    by (cases "nwords n = 0") (simp_all add: UAtLeastPredecessor_def Let_def)
qed


section \<open>N-ary operations\<close>

lemma nary_fold:
  assumes "\<And>v w. f (mkBitmap n v) (mkBitmap n w) = Some (mkBitmap n (g v w))"
    and "\<And>i. i < length vs \<Longrightarrow> bs ! i = mkBitmap n (vs ! i)" "vs \<noteq> []" "length bs = length vs"
  shows "Option.bind (nth_opt bs 0) (\<lambda>a. foldM (\<lambda>i a. f a (bs ! i)) [1..<length bs] a) =
    Some (mkBitmap n (foldl g (hd vs) (tl vs)))"
proof -
  have "k < length vs \<Longrightarrow> foldM (\<lambda>i a. f a (bs ! i)) [1..<Suc k] (mkBitmap n (hd vs)) =
      Some (mkBitmap n (foldl g (hd vs) (take k (tl vs))))" for k
  proof (induction k)
    case (Suc k)
    then have "tl vs ! k = vs ! Suc k" "take (Suc k) (tl vs) = take k (tl vs) @ [tl vs ! k]"
      by (simp_all add: nth_tl take_Suc_conv_app_nth)
    then show ?case using Suc assms(1,2) by (simp add: foldM_append)
  qed simp
  from this[of "length vs - 1"] show ?thesis
    using assms(2)[of 0] assms(3,4) by (cases vs) simp_all
qed

lemma Nary_mk:
  fixes n vs
  assumes "vs \<noteq> []"
  defines "bs \<equiv> map (mkBitmap n) vs"
  shows "NaryAnd bs = Some (mkBitmap n (foldl (AND) (hd vs) (tl vs)))"
    "NaryOr bs = Some (mkBitmap n (foldl (OR) (hd vs) (tl vs)))"
    "NaryXor bs = Some (mkBitmap n (foldl (XOR) (hd vs) (tl vs)))"
    "NaryNand bs = Some (mkBitmap n (nat_not n (foldl (AND) (hd vs) (tl vs))))"
    "NaryNor bs = Some (mkBitmap n (nat_not n (foldl (OR) (hd vs) (tl vs))))"
proof -
  note nf = nary_fold[of _ n _ vs bs, OF _ _ assms(1)]
  show a: "NaryAnd bs = Some (mkBitmap n (foldl (AND) (hd vs) (tl vs)))"
    unfolding NaryAnd_def by (rule nf) (simp_all add: bm_spec bs_def)
  show o: "NaryOr bs = Some (mkBitmap n (foldl (OR) (hd vs) (tl vs)))"
    unfolding NaryOr_def by (rule nf) (simp_all add: bm_spec bs_def)
  show "NaryXor bs = Some (mkBitmap n (foldl (XOR) (hd vs) (tl vs)))"
    unfolding NaryXor_def by (rule nf) (simp_all add: bm_spec bs_def)
  have "NaryNand bs = Option.bind (NaryAnd bs) Not" "NaryNor bs = Option.bind (NaryOr bs) Not"
    by (simp_all add: NaryNand_def NaryNor_def NaryAnd_def NaryOr_def)
  then show "NaryNand bs = Some (mkBitmap n (nat_not n (foldl (AND) (hd vs) (tl vs))))"
    "NaryNor bs = Some (mkBitmap n (nat_not n (foldl (OR) (hd vs) (tl vs))))"
    by (simp_all add: a o bm_spec)
qed

section \<open>Common prefixes\<close>

definition common_low :: "nat \<Rightarrow> nat list \<Rightarrow> nat" where
  "common_low n vs = length (takeWhile (\<lambda>i. \<forall>v\<in>set vs. bit v i = bit (hd vs) i) [0..<n])"

lemma LongestCommonPrefixLSB_mk:
  assumes "vs \<noteq> []"
  shows "LongestCommonPrefixLSB (map (mkBitmap n) vs) = Some (mkBitmap (common_low n vs) (hd vs))"
proof -
  obtain v rest where vs: "vs = v # rest" using assms by (cases vs) auto
  let ?P = "\<lambda>i. \<exists>w\<in>set rest. bit w i \<noteq> bit v i"
  have inner: "loop (\<lambda>b _. do { x \<leftarrow> Get b i; Some (if x \<noteq> bit v i then Return i else Continue ()) })
      (map (mkBitmap n) rest) () = Some (if ?P i then Return i else Continue ())" if "i < n" for i
    using that by (induction rest) (auto simp: Get_mk)
  have "Option.bind (loop (\<lambda>i _. do {
        x0 \<leftarrow> Get (mkBitmap n v) i;
        loop (\<lambda>b _. do { x \<leftarrow> Get b i; Some (if x \<noteq> x0 then Return i else Continue ()) })
          (map (mkBitmap n) rest) () }) [0..<n] ()) (\<lambda>r. Some (step_result (\<lambda>_. n) r)) =
      Some (length (takeWhile (\<lambda>i. \<not> ?P i) [0..<n]))"
    by (rule count_loop_mk) (simp only: Get_mk Option.bind_lunit inner)
  moreover have "(\<lambda>i. \<not> ?P i) = (\<lambda>i. \<forall>w\<in>set vs. bit w i = bit (hd vs) i)" by (auto simp: vs)
  ultimately have "Option.bind (loop (\<lambda>i _. do {
        x0 \<leftarrow> Get (mkBitmap n v) i;
        loop (\<lambda>b _. do { x \<leftarrow> Get b i; Some (if x \<noteq> x0 then Return i else Continue ()) })
          (map (mkBitmap n) rest) () }) [0..<n] ()) (\<lambda>r. Some (step_result (\<lambda>_. n) r)) =
      Some (common_low n vs)" (is "Option.bind ?l _ = _")
    unfolding common_low_def by (simp only:)
  then obtain r where r: "?l = Some r" "step_result (\<lambda>_. n) r = common_low n vs"
    by (cases ?l) auto
  have "common_low n vs \<le> n"
    unfolding common_low_def using length_takeWhile_le[of _ "[0..<n]"] by simp
  then show ?thesis using r by (simp add: LongestCommonPrefixLSB_def vs Slice_mk)
qed


lemma nat_len_drop_bit:
  assumes "drop_bit s D \<noteq> 0"
  shows "nat_len D = s + nat_len (drop_bit s D)"
proof -
  have iff: "nat_len D \<le> s + k \<longleftrightarrow> nat_len (drop_bit s D) \<le> k" for k
    by (simp add: nat_len_le_iff drop_bit_eq_div div_less_iff_less_mult power_add mult.commute)
  have "s \<le> nat_len D"
    using assms nat_len_le_iff[of D s] by (auto simp: drop_bit_eq_div not_less[symmetric] intro: ccontr)
  then show ?thesis using iff[of "nat_len D - s"] iff[of "nat_len (drop_bit s D)"] by linarith
qed

definition differing :: "nat \<Rightarrow> nat list \<Rightarrow> nat" where
  "differing n vs = take_bit n (fold (\<lambda>w d. d OR (hd vs XOR w)) (tl vs) 0)"

lemma diff_word_fold:
  assumes "i < nwords n"
  shows "foldM (\<lambda>b diff. do { w \<leftarrow> GetWord b i; Some (diff OR (word_of_nat (drop_bit (64 * i) (take_bit n v)) XOR w)) })
      (map (mkBitmap n) ws) (word_of_nat (drop_bit (64 * i) (take_bit n d)) :: 64 word) =
    Some (word_of_nat (drop_bit (64 * i) (take_bit n (fold (\<lambda>w d. d OR (v XOR w)) ws d))))"
proof (induction ws arbitrary: d)
  case (Cons w ws)
  have "(word_of_nat (drop_bit (64 * i) (take_bit n d)) OR
      (word_of_nat (drop_bit (64 * i) (take_bit n v)) XOR word_of_nat (drop_bit (64 * i) (take_bit n w))) :: 64 word) =
      word_of_nat (drop_bit (64 * i) (take_bit n (d OR (v XOR w))))"
    by (rule bit_word_eqI) (auto simp: bit_simps)
  then show ?case using Cons[of "d OR (v XOR w)"] assms by (simp add: GetWord_mk)
qed simp

lemma LongestCommonPrefixMSB_mk:
  assumes "vs \<noteq> []"
  shows "LongestCommonPrefixMSB (map (mkBitmap n) vs) =
    Some (mkBitmap (n - nat_len (differing n vs)) (drop_bit (nat_len (differing n vs)) (hd vs)))"
proof -
  obtain v rest where vs: "vs = v # rest" using assms by (cases vs) auto
  let ?D = "differing n vs"
  have le: "nat_len ?D \<le> n" by (simp add: nat_len_le_iff differing_def)
  have "\<lbrakk>k \<le> nwords n; drop_bit (64 * k) ?D = 0\<rbrakk> \<Longrightarrow>
    Option.bind (loop (\<lambda>i _. do {
         base_word \<leftarrow> GetWord (mkBitmap n v) i;
         diff \<leftarrow> foldM (\<lambda>b diff. do { w \<leftarrow> GetWord b i; Some (diff OR (base_word XOR w)) })
                  (map (mkBitmap n) rest) 0;
         if diff \<noteq> 0 then do {
           let common_prefix_start = 1 + FloorOfLog2 diff + i * kWordBits;
           p \<leftarrow> Slice (mkBitmap n v) common_prefix_start (n - common_prefix_start);
           Some (Return p) }
         else Some (Continue ()) }) (rev [0..<k]) ()) (\<lambda>r. Some (step_result (\<lambda>_. mkBitmap n v) r)) =
    Some (mkBitmap (n - nat_len ?D) (drop_bit (nat_len ?D) v))" for k
  proof (induction k)
    case 0
    then show ?case by simp
  next
    case (Suc k)
    let ?w = "word_of_nat (drop_bit (64 * k) ?D) :: 64 word"
    have k: "k < nwords n" using Suc.prems by simp
    have fold: "foldM (\<lambda>b diff. do { w \<leftarrow> GetWord b k; Some (diff OR (word_of_nat (drop_bit (64 * k) (take_bit n v)) XOR w)) })
        (map (mkBitmap n) rest) 0 = Some ?w"
      using diff_word_fold[OF k, of v rest 0] by (simp add: differing_def vs)
    have eq: "drop_bit (64 * k) ?D = unat ?w" using drop_bit_split[of k ?D] Suc.prems(2) by simp
    show ?case
    proof (cases "?w = 0")
      case True
      then have "drop_bit (64 * k) ?D = 0" using eq by simp
      then show ?thesis using Suc True k fold by (simp add: GetWord_mk)
    next
      case False
      then have "unat ?w \<noteq> 0" by (simp only: unat_eq_zero not_False_eq_True)
      then have "drop_bit (64 * k) ?D \<noteq> 0" using eq by linarith
      then have "nat_len ?D = 64 * k + nat_len (unat ?w)" using nat_len_drop_bit eq by metis
      then have len: "nat_len ?D = 1 + FloorOfLog2 ?w + k * 64" using FloorOfLog2_nat_len[OF False] by simp
      then show ?thesis using False k fold le by (simp add: GetWord_mk Slice_mk)
    qed
  qed
  from this[of "nwords n"] show ?thesis
    by (simp add: LongestCommonPrefixMSB_def vs) (simp add: differing_def take_bit_below_words)
qed

end
