(* ===== verification/Bits_Arith.thy ===== *)
theory Bits_Arith
  imports Bits_Ops_Rules
begin

text \<open>
  The arithmetic of \<^verbatim>\<open>bits_ops.cc\<close>. Each lemma covers both paths of the operation: the
  machine word for vectors of up to 64 bits and \<^verbatim>\<open>BigInt\<close> for wider ones.
\<close>

lemma word_of_take_bit: "(word_of_nat (take_bit n v) :: 64 word) = word_of_int (int (take_bit n v))"
  by simp

lemma take_bit_int_cong:
  fixes a b :: int
  shows "take_bit n (take_bit n a + take_bit n b) = take_bit n (a + b)"
    "take_bit n (take_bit n a - take_bit n b) = take_bit n (a - b)"
    "take_bit n (take_bit n a * take_bit n b) = take_bit n (a * b)"
  by (simp_all add: take_bit_eq_mod mod_simps)

lemma bits_of_int_ops:
  "bits_of_int n (int (take_bit n v) + int (take_bit n w)) = mkBitmap n (v + w)"
  "bits_of_int n (int (take_bit n v) - int (take_bit n w)) = bits_of_int n (int v - int w)"
  "bits_of_int n (sv n v + sv n w) = mkBitmap n (v + w)"
  "bits_of_int n (sv n v - sv n w) = bits_of_int n (int v - int w)"
  "bits_of_int n (- sv n v) = bits_of_int n (- int v)"
proof -
  have s: "take_bit n (sv n v) = take_bit n (int v)" for v by (simp add: take_bit_of_nat)
  have i: "take_bit n (int (take_bit n v)) = take_bit n (int v)" for v by (simp add: take_bit_of_nat)
  have add: "take_bit n (a + b) = take_bit n (c + d)"
    if "take_bit n a = take_bit n c" "take_bit n b = take_bit n d" for a b c d :: int
    using that by (metis take_bit_int_cong(1))
  have sub: "take_bit n (a - b) = take_bit n (c - d)"
    if "take_bit n a = take_bit n c" "take_bit n b = take_bit n d" for a b c d :: int
    using that by (metis take_bit_int_cong(2))
  show "bits_of_int n (int (take_bit n v) + int (take_bit n w)) = mkBitmap n (v + w)"
    "bits_of_int n (sv n v + sv n w) = mkBitmap n (v + w)"
    using bits_of_int_cong[OF add[OF i i]] bits_of_int_cong[OF add[OF s s]]
    by (metis bits_of_int_nat of_nat_add)+
  show "bits_of_int n (int (take_bit n v) - int (take_bit n w)) = bits_of_int n (int v - int w)"
    "bits_of_int n (sv n v - sv n w) = bits_of_int n (int v - int w)"
    using bits_of_int_cong[OF sub[OF i i]] bits_of_int_cong[OF sub[OF s s]] by blast+
  show "bits_of_int n (- sv n v) = bits_of_int n (- int v)"
    using bits_of_int_cong[OF sub[OF refl[of "take_bit n 0"] s]] by simp
qed

lemma sv_eq_0_iff: "sv n v = 0 \<longleftrightarrow> take_bit n v = 0"
proof
  assume "sv n v = 0"
  then show "take_bit n v = 0" using take_bit_sv[of n v] by simp
next
  assume "take_bit n v = 0"
  then have "sv n v = sv n 0" using sv_take_bit[of n v] by simp
  then show "sv n v = 0" by (simp add: sv_def)
qed

lemma sdiv_nat: "int a sdiv int b = int (a div b)" if "b \<noteq> 0"
  using that by (simp add: sdiv_int_cases zdiv_int)

lemma smod_nat: "int a smod int b = int (a mod b)" if "b \<noteq> 0"
proof -
  have "int a smod int b = int a - int (a div b) * int b"
    using sdiv_mult_smod_eq[of "int a" "int b"] sdiv_nat[OF that, of a] by (simp add: algebra_simps)
  then show ?thesis by (simp add: zmod_int minus_div_mult_eq_mod[symmetric] zdiv_int)
qed

lemma fits_signed_abs: "fits_signed n k \<Longrightarrow> 0 < n \<Longrightarrow> \<bar>k\<bar> \<le> 2 ^ (n - 1)"
  by (auto simp: fits_signed_def)

lemma fits_signed_mult:
  assumes "fits_signed n a" "fits_signed m b"
  shows "fits_signed (n + m) (a * b)"
proof (cases "n = 0 \<or> m = 0")
  case True
  then have "a * b = 0" using assms by (auto simp: fits_signed_def)
  then show ?thesis by (simp only: fits_signed_def) simp
next
  case False
  then obtain i j where ij: "n = Suc i" "m = Suc j" by (metis not0_implies_Suc)
  have "\<bar>a\<bar> \<le> 2 ^ i" "\<bar>b\<bar> \<le> 2 ^ j"
    using fits_signed_abs[OF assms(1)] fits_signed_abs[OF assms(2)] ij by simp_all
  then have "\<bar>a * b\<bar> \<le> 2 ^ (i + j)" unfolding abs_mult power_add by (intro mult_mono) auto
  also have "(2::int) ^ (i + j) < 2 ^ (n + m - 1)" using ij by simp
  finally have "\<bar>a * b\<bar> < 2 ^ (n + m - 1)" .
  moreover have "n + m \<noteq> 0" using ij by simp
  ultimately show ?thesis unfolding fits_signed_def by (simp only: if_False) linarith
qed

context bignum
begin

lemma Add_mk: "Add bn (mkBitmap n v) (mkBitmap n w) = Some (mkBitmap n (v + w))"
proof (cases "n \<le> 64")
  case True
  have "(word_of_nat (take_bit n v) + word_of_nat (take_bit n w) :: 64 word) =
      word_of_int (int (take_bit n v) + int (take_bit n w))" by simp
  then show ?thesis using True UBits_masked[OF True, of "int (take_bit n v) + int (take_bit n w)"]
    unfolding bits_of_int_ops by (simp add: Add_def ToUint64_value_mk)
next
  case False
  obtain x where x: "MakeSigned bn (mkBitmap n v) = Some x" "bv x = sv n v" using MakeSigned_val by blast
  obtain y where y: "MakeSigned bn (mkBitmap n w) = Some y" "bv y = sv n w" using MakeSigned_val by blast
  obtain z where z: "BN_add bn x y = Some z" "bv z = sv n v + sv n w" using add x y by metis
  show ?thesis using False x y z
    by (simp add: Add_def BigInt_Add_def ToSignedBits_val TruncateOrSignExtend_of_int bits_of_int_ops)
qed

lemma Sub_mk: "Sub bn (mkBitmap n v) (mkBitmap n w) = Some (bits_of_int n (int v - int w))"
proof (cases "n \<le> 64")
  case True
  have "(word_of_nat (take_bit n v) - word_of_nat (take_bit n w) :: 64 word) =
      word_of_int (int (take_bit n v) - int (take_bit n w))" by simp
  then show ?thesis using True UBits_masked[OF True, of "int (take_bit n v) - int (take_bit n w)"]
    unfolding bits_of_int_ops by (simp add: Sub_def ToUint64_value_mk)
next
  case False
  obtain x where x: "MakeSigned bn (mkBitmap n v) = Some x" "bv x = sv n v" using MakeSigned_val by blast
  obtain y where y: "MakeSigned bn (mkBitmap n w) = Some y" "bv y = sv n w" using MakeSigned_val by blast
  obtain z where z: "BN_sub bn x y = Some z" "bv z = sv n v - sv n w" using sub x y by metis
  show ?thesis using False x y z
    by (simp add: Sub_def BigInt_Sub_def ToSignedBits_val TruncateOrSignExtend_of_int bits_of_int_ops)
qed

lemma Negate_mk: "Negate bn (mkBitmap n v) = Some (bits_of_int n (- int v))"
proof (cases "n < 64")
  case True
  have "(- word_of_int (sv n v) :: 64 word) = word_of_int (- sv n v)" by simp
  then show ?thesis using True UBits_masked[of n "- sv n v"]
    by (simp add: Negate_def ToInt64_value_mk bits_of_int_ops)
next
  case False
  obtain x where x: "MakeSigned bn (mkBitmap n v) = Some x" "bv x = sv n v" using MakeSigned_val by blast
  show ?thesis using False x
    by (simp add: Negate_def ToSignedBits_val Negate_val TruncateOrSignExtend_of_int bits_of_int_ops)
qed

lemma Abs_mk: "0 < n \<Longrightarrow> Abs bn (mkBitmap n v) = Some (bits_of_int n \<bar>sv n v\<bar>)"
proof (cases "bit v (n - 1)")
  assume n: "0 < n"
  case True
  then have "\<bar>sv n v\<bar> = - sv n v" using n sv_neg_iff[of n v] by simp
  then show ?thesis using True n by (simp add: Abs_def GetFromMsb_mk Negate_mk bits_of_int_ops)
next
  assume n: "0 < n"
  case False
  then have "\<bar>sv n v\<bar> = sv n v" using n sv_neg_iff[of n v] by simp
  then show ?thesis using False n by (simp add: Abs_def GetFromMsb_mk)
qed

lemma UMul_mk:
  "UMul bn (mkBitmap n v) (mkBitmap m w) = Some (mkBitmap (n + m) (take_bit n v * take_bit m w))"
proof -
  let ?V = "take_bit n v" and ?W = "take_bit m w"
  have lt: "?V * ?W < 2 ^ (n + m)" by (simp add: power_add mult_strict_mono)
  show ?thesis
  proof (cases "n + m \<le> 64")
    case True
    have "(word_of_nat ?V * word_of_nat ?W :: 64 word) = word_of_nat (?V * ?W)" by simp
    then show ?thesis using True lt UBits_of_nat[OF True lt]
      by (simp add: UMul_def ToUint64_value_mk del: of_nat_mult)
  next
    case False
    obtain x where x: "MakeUnsigned bn (mkBitmap n v) = Some x" "bv x = int ?V" using MakeUnsigned_val by blast
    obtain y where y: "MakeUnsigned bn (mkBitmap m w) = Some y" "bv y = int ?W" using MakeUnsigned_val by blast
    obtain z where z: "BN_mul bn x y = Some z" "bv z = int (?V * ?W)" using mul[of x y] x y by auto
    have "bv z < 2 ^ (n + m)" using lt z(2) by (metis of_nat_less_iff of_nat_numeral of_nat_power)
    then show ?thesis using False x y z
      by (simp add: UMul_def BigInt_Mul_def ToUnsignedBitsWithBitCount_val del: of_nat_mult)
  qed
qed

lemma SMul_mk:
  "SMul bn (mkBitmap n v) (mkBitmap m w) = Some (bits_of_int (n + m) (sv n v * sv m w))"
proof -
  let ?k = "sv n v * sv m w"
  have fits: "fits_signed (n + m) ?k" by (intro fits_signed_mult sv_fits)
  show ?thesis
  proof (cases "n + m \<le> 64")
    case True
    have "fits_signed 64 ?k" using fits_signed_mono[OF fits True] .
    then have "sint (word_of_int ?k :: 64 word) = ?k" by (rule sint_word_of_int_fits)
    then have "sint (word_of_int (sv n v) * word_of_int (sv m w) :: 64 word) = ?k" by simp
    then show ?thesis using True fits SBits_mk[of "n + m" "word_of_int (sv n v) * word_of_int (sv m w)"]
      by (simp add: SMul_def ToInt64_value_mk del: of_int_mult)
  next
    case False
    obtain x where x: "MakeSigned bn (mkBitmap n v) = Some x" "bv x = sv n v" using MakeSigned_val by blast
    obtain y where y: "MakeSigned bn (mkBitmap m w) = Some y" "bv y = sv m w" using MakeSigned_val by blast
    obtain z where z: "BN_mul bn x y = Some z" "bv z = ?k" using mul[of x y] x y by auto
    show ?thesis using False x y z fits
      by (simp add: SMul_def BigInt_Mul_def ToSignedBitsWithBitCount_val)
  qed
qed

lemma UDiv_mk:
  "UDiv bn (mkBitmap n v) (mkBitmap m w) =
     Some (mkBitmap n (if take_bit m w = 0 then mask n else take_bit n v div take_bit m w))"
proof (cases "take_bit m w = 0")
  case True
  then show ?thesis by (simp add: UDiv_def bm_spec)
next
  case False
  let ?V = "take_bit n v" and ?W = "take_bit m w"
  obtain x where x: "MakeUnsigned bn (mkBitmap n v) = Some x" "bv x = int ?V" using MakeUnsigned_val by blast
  obtain y where y: "MakeUnsigned bn (mkBitmap m w) = Some y" "bv y = int ?W" using MakeUnsigned_val by blast
  obtain q r where q: "BN_div bn x y = Some (q, r)" "bv q = int (?V div ?W)"
    using div_mod[of y x] x y False sdiv_nat[OF False, of ?V] by auto
  have "?V div ?W < 2 ^ n" by (meson div_le_dividend le_less_trans take_bit_nat_less_exp)
  then have "nat_len (?V div ?W) \<le> n" by (simp add: nat_len_le_iff)
  then show ?thesis using False x y q
    by (simp add: UDiv_def IsZero_mk BigInt_Div_def ToUnsignedBits_val ZeroExtend_mk take_bit_nat_len
        del: of_nat_take_bit)
qed

lemma UMod_mk:
  "UMod bn (mkBitmap n v) (mkBitmap m w) =
     Some (mkBitmap m (if take_bit m w = 0 then 0 else take_bit n v mod take_bit m w))"
proof (cases "take_bit m w = 0")
  case True
  then show ?thesis by (simp add: UMod_def bm_spec)
next
  case False
  let ?V = "take_bit n v" and ?W = "take_bit m w"
  obtain x where x: "MakeUnsigned bn (mkBitmap n v) = Some x" "bv x = int ?V" using MakeUnsigned_val by blast
  obtain y where y: "MakeUnsigned bn (mkBitmap m w) = Some y" "bv y = int ?W" using MakeUnsigned_val by blast
  obtain q r where q: "BN_div bn x y = Some (q, r)" "bv r = int (?V mod ?W)"
    using div_mod[of y x] x y False smod_nat[OF False, of ?V] by auto
  have "?V mod ?W < 2 ^ m"
    using False by (meson less_trans mod_less_divisor neq0_conv take_bit_nat_less_exp)
  then have "nat_len (?V mod ?W) \<le> m" by (simp add: nat_len_le_iff)
  then show ?thesis using False x y q
    by (simp add: UMod_def IsZero_mk BigInt_Mod_def ToUnsignedBits_val ZeroExtend_mk take_bit_nat_len
        del: of_nat_take_bit)
qed

lemma SCmp_mk:
  "SEqual bn (mkBitmap n v) (mkBitmap m w) = Some (sv n v = sv m w)"
  "SLessThan bn (mkBitmap n v) (mkBitmap m w) = Some (sv n v < sv m w)"
  "SLessThanOrEqual bn (mkBitmap n v) (mkBitmap m w) = Some (sv n v \<le> sv m w)"
  "SGreaterThanOrEqual bn (mkBitmap n v) (mkBitmap m w) = Some (sv n v \<ge> sv m w)"
  "SGreaterThan bn (mkBitmap n v) (mkBitmap m w) = Some (sv n v > sv m w)"
proof -
  obtain x where x: "MakeSigned bn (mkBitmap n v) = Some x" "bv x = sv n v" using MakeSigned_val by blast
  obtain y where y: "MakeSigned bn (mkBitmap m w) = Some y" "bv y = sv m w" using MakeSigned_val by blast
  have s: "sint (word_of_int (sv k u) :: 64 word) = sv k u" if "k \<le> 64" for k u
    using sint_word_of_int_fits[OF fits_signed_mono[OF sv_fits that]] .
  show e: "SEqual bn (mkBitmap n v) (mkBitmap m w) = Some (sv n v = sv m w)"
    using x y by (simp add: SEqual_def cmp_iff)
  show l: "SLessThan bn (mkBitmap n v) (mkBitmap m w) = Some (sv n v < sv m w)"
    using x y by (auto simp: SLessThan_def ToInt64_value_mk s cmp_iff)
  show le: "SLessThanOrEqual bn (mkBitmap n v) (mkBitmap m w) = Some (sv n v \<le> sv m w)"
    by (auto simp: SLessThanOrEqual_def e l)
  show "SGreaterThanOrEqual bn (mkBitmap n v) (mkBitmap m w) = Some (sv n v \<ge> sv m w)"
    "SGreaterThan bn (mkBitmap n v) (mkBitmap m w) = Some (sv n v > sv m w)"
    by (auto simp: SGreaterThanOrEqual_def SGreaterThan_def l le)
qed

lemma SDiv_mk:
  "SDiv bn (mkBitmap n v) (mkBitmap m w) =
     Some (if sv m w = 0 then if sv n v < 0 then mkBitmap n (2 ^ (n - 1)) else mkBitmap n (mask (n - 1))
           else bits_of_int n (sv n v sdiv sv m w))"
proof (cases "sv m w = 0")
  case True
  have zero: "sv n 0 = 0" by (simp add: sv_def)
  have "push_bit (n - 1) 1 OR take_bit (n - 1) 0 = (2::nat) ^ (n - 1)" by (simp add: push_bit_eq_mult)
  then show ?thesis using True sv_eq_0_iff[of m w]
    by (cases "n = 0"; cases "sv n v < 0")
       (simp_all add: SDiv_def IsZero_mk UBits_0 UBits_1 SCmp_mk zero Concat2_mk AllOnes_mk ZeroExtend_mk)
next
  case False
  obtain x where x: "MakeSigned bn (mkBitmap n v) = Some x" "bv x = sv n v" using MakeSigned_val by blast
  obtain y where y: "MakeSigned bn (mkBitmap m w) = Some y" "bv y = sv m w" using MakeSigned_val by blast
  obtain q r where q: "BN_div bn x y = Some (q, r)" "bv q = sv n v sdiv sv m w"
    using div_mod[of y x] x y False by auto
  show ?thesis using False x y q sv_eq_0_iff[of m w]
    by (simp add: SDiv_def IsZero_mk BigInt_Div_def ToSignedBits_val TruncateOrSignExtend_of_int)
qed

lemma SMod_mk:
  "SMod bn (mkBitmap n v) (mkBitmap m w) =
     Some (if sv m w = 0 then mkBitmap m 0 else bits_of_int m (sv n v smod sv m w))"
proof (cases "sv m w = 0")
  case True
  then show ?thesis using sv_eq_0_iff[of m w] by (simp add: SMod_def bm_spec)
next
  case False
  obtain x where x: "MakeSigned bn (mkBitmap n v) = Some x" "bv x = sv n v" using MakeSigned_val by blast
  obtain y where y: "MakeSigned bn (mkBitmap m w) = Some y" "bv y = sv m w" using MakeSigned_val by blast
  obtain q r where q: "BN_div bn x y = Some (q, r)" "bv r = sv n v smod sv m w"
    using div_mod[of y x] x y False by auto
  show ?thesis using False x y q sv_eq_0_iff[of m w]
    by (simp add: SMod_def IsZero_mk BigInt_Mod_def ToSignedBits_val TruncateOrSignExtend_of_int)
qed

end

end
