(* ===== verification/Ternary_Ops.thy ===== *)
theory Ternary_Ops
  imports Bits_Arith
begin

text \<open>
  \<^verbatim>\<open>xls/ir/ternary.h\<close> and \<^verbatim>\<open>ternary.cc\<close>: vectors of bits that are zero, one or unknown. The
  element 0 of a vector is its least significant bit. A vector denotes the set of the
  numbers it is compatible with (\<open>tern_ok\<close>).
\<close>

datatype TernaryValue = kKnownZero | kKnownOne | kUnknown

type_synonym TernaryVector = "TernaryValue list"

section \<open>Strings\<close>

definition ternary_symbol :: "TernaryValue \<Rightarrow> string" where
  "ternary_symbol v = (case v of kKnownZero \<Rightarrow> ''0'' | kKnownOne \<Rightarrow> ''1'' | kUnknown \<Rightarrow> ''X'')"

definition Ternary_ToString :: "TernaryVector \<Rightarrow> string" where
  "Ternary_ToString v =
     fold (\<lambda>i result. result @ ternary_symbol (v ! i) @ (if i \<noteq> 0 \<and> i mod 4 = 0 then ''_'' else []))
       (rev [0..<length v]) ''0b''"

definition TernaryValue_ToString :: "TernaryValue \<Rightarrow> string" where
  "TernaryValue_ToString v =
     (case v of kKnownZero \<Rightarrow> ''TernaryValue::kKnownZero'' | kKnownOne \<Rightarrow> ''TernaryValue::kKnownOne''
      | kUnknown \<Rightarrow> ''TernaryValue::kUnknown'')"

fun parse_ternary :: "string \<Rightarrow> TernaryVector \<Rightarrow> TernaryVector status_or" where
  "parse_ternary [] result = Inr result"
| "parse_ternary (c # cs) result =
     (if c = CHR ''0'' then parse_ternary cs (result @ [kKnownZero])
      else if c = CHR ''1'' then parse_ternary cs (result @ [kKnownOne])
      else if c = CHR ''X'' \<or> c = CHR ''x'' then parse_ternary cs (result @ [kUnknown])
      else if c = CHR ''_'' then parse_ternary cs result
      else Inl InvalidArgument)"

definition StringToTernaryVector :: "string \<Rightarrow> TernaryVector status_or" where
  "StringToTernaryVector s =
     (if take 2 s \<noteq> ''0b'' then Inl InvalidArgument
      else case parse_ternary (drop 2 s) [] of Inl e \<Rightarrow> Inl e | Inr result \<Rightarrow> Inr (rev result))"

section \<open>Known bits\<close>

definition FromKnownBits :: "bits \<Rightarrow> bits \<Rightarrow> TernaryVector option" where
  "FromKnownBits known_bits known_bits_values = do {
     CHECK (ib_bit_count known_bits = ib_bit_count known_bits_values);
     mapM (\<lambda>i. do {
       is_known \<leftarrow> Get known_bits i;
       known_value \<leftarrow> Get known_bits_values i;
       Some (if is_known then if known_value then kKnownOne else kKnownZero else kUnknown) })
       [0..<ib_bit_count known_bits] }"

definition ToKnownBits :: "TernaryVector \<Rightarrow> bits option" where
  "ToKnownBits t =
     foldM (\<lambda>i bitmap. if t ! i \<noteq> kUnknown then InlineBitmap_Set bitmap i True else Some bitmap)
       [0..<length t] (InlineBitmap (length t) False)"

definition ToKnownBitsValues :: "TernaryVector \<Rightarrow> bool \<Rightarrow> bits option" where
  "ToKnownBitsValues t default_set =
     foldM (\<lambda>i bitmap. if t ! i = kKnownOne \<or> (default_set \<and> t ! i = kUnknown)
                       then InlineBitmap_Set bitmap i True else Some bitmap)
       [0..<length t] (InlineBitmap (length t) False)"

section \<open>Lattice operations\<close>

text \<open>\<open>Some None\<close> is \<^verbatim>\<open>std::nullopt\<close>; the outer \<open>None\<close> is the failed CHECK on the lengths.\<close>

definition Difference :: "TernaryVector \<Rightarrow> TernaryVector \<Rightarrow> TernaryVector option option" where
  "Difference lhs rhs = do {
     CHECK (length lhs = length rhs);
     r \<leftarrow> loop (\<lambda>(l, r) result.
            Some (if l \<noteq> kUnknown then
                    if r = kUnknown then Continue (result @ [l])
                    else if l \<noteq> r then Return None else Continue (result @ [kUnknown])
                  else Continue (result @ [kUnknown]))) (zip lhs rhs) [];
     Some (step_result Some r) }"

definition ternary_Union :: "TernaryVector \<Rightarrow> TernaryVector \<Rightarrow> TernaryVector status_or option" where
  "ternary_Union lhs rhs = do {
     CHECK (length lhs = length rhs);
     r \<leftarrow> loop (\<lambda>(l, r) result.
            Some (if l = kUnknown then Continue (result @ [r])
                  else if r = kUnknown then Continue (result @ [l])
                  else if l = r then Continue (result @ [l])
                  else Return (Inl InvalidArgument))) (zip lhs rhs) [];
     Some (step_result Inr r) }"

text \<open>The returned flag, the updated vector and whether it changed.\<close>

definition TryUpdateWithUnion ::
    "TernaryVector \<Rightarrow> TernaryVector \<Rightarrow> (bool \<times> TernaryVector \<times> bool) option" where
  "TryUpdateWithUnion lhs rhs = do {
     CHECK (length lhs = length rhs);
     r \<leftarrow> loop (\<lambda>i (lhs, changed).
            if rhs ! i = kUnknown then Some (Continue (lhs, changed))
            else if lhs ! i = kUnknown then Some (Continue (lhs[i := rhs ! i], True))
            else if lhs ! i \<noteq> rhs ! i then Some (Return (False, lhs, changed))
            else Some (Continue (lhs, changed))) [0..<length lhs] (lhs, False);
     Some (step_result (\<lambda>(lhs, changed). (True, lhs, changed)) r) }"

definition UpdateWithUnion ::
    "TernaryVector \<Rightarrow> TernaryVector \<Rightarrow> (unit status_or \<times> TernaryVector) option" where
  "UpdateWithUnion lhs rhs = do {
     CHECK (length lhs = length rhs);
     r \<leftarrow> loop (\<lambda>i lhs.
            if rhs ! i = kUnknown then Some (Continue lhs)
            else if lhs ! i = kUnknown then Some (Continue (lhs[i := rhs ! i]))
            else if lhs ! i \<noteq> rhs ! i then Some (Return (Inl InvalidArgument, lhs))
            else Some (Continue lhs)) [0..<length lhs] lhs;
     Some (step_result (\<lambda>lhs. (Inr (), lhs)) r) }"

definition Intersection :: "TernaryVector \<Rightarrow> TernaryVector \<Rightarrow> TernaryVector option" where
  "Intersection lhs rhs = do {
     CHECK (length lhs = length rhs);
     Some (map2 (\<lambda>l r. if l \<noteq> r then kUnknown else l) lhs rhs) }"

definition IsCompatible_bits :: "TernaryVector \<Rightarrow> bits \<Rightarrow> bool option" where
  "IsCompatible_bits pattern b =
     (if length pattern \<noteq> ib_bit_count b then Some False
      else do {
        r \<leftarrow> loop (\<lambda>i _.
               if pattern ! i = kUnknown then Some (Continue ())
               else do {
                 x \<leftarrow> Get b i;
                 Some (if x \<noteq> (pattern ! i = kKnownOne) then Return False else Continue ()) })
             [0..<length pattern] ();
        Some (step_result (\<lambda>_. True) r) })"

definition IsCompatible :: "TernaryVector \<Rightarrow> TernaryVector \<Rightarrow> bool" where
  "IsCompatible a b =
     (length a = length b \<and>
      list_all (\<lambda>(x, y). \<not> (x \<noteq> y \<and> x \<noteq> kUnknown \<and> y \<noteq> kUnknown)) (zip a b))"

fun MinimumUnsignedBitCount_from :: "TernaryVector \<Rightarrow> nat \<Rightarrow> nat" where
  "MinimumUnsignedBitCount_from t 0 = 0"
| "MinimumUnsignedBitCount_from t (Suc k) =
     (if t ! k \<noteq> kKnownZero then Suc k else MinimumUnsignedBitCount_from t k)"

definition MinimumUnsignedBitCount :: "TernaryVector \<Rightarrow> nat" where
  "MinimumUnsignedBitCount t = MinimumUnsignedBitCount_from t (length t)"

definition UpdateWithIntersection :: "TernaryVector \<Rightarrow> TernaryVector \<Rightarrow> TernaryVector option" where
  "UpdateWithIntersection lhs rhs = do {
     CHECK (length lhs = length rhs);
     Some (fold (\<lambda>i lhs. if lhs ! i \<noteq> rhs ! i then lhs[i := kUnknown] else lhs) [0..<length lhs] lhs) }"

definition UpdateWithIntersection_bits :: "TernaryVector \<Rightarrow> bits \<Rightarrow> TernaryVector option" where
  "UpdateWithIntersection_bits lhs rhs = do {
     CHECK (length lhs = ib_bit_count rhs);
     foldM (\<lambda>i lhs.
       if lhs ! i = kUnknown then Some lhs
       else do {
         x \<leftarrow> Get rhs i;
         Some (if x \<noteq> (lhs ! i = kKnownOne) then lhs[i := kUnknown] else lhs) }) [0..<length lhs] lhs }"

definition NumberOfKnownBits :: "TernaryVector \<Rightarrow> nat" where
  "NumberOfKnownBits vec = fold (\<lambda>x n. if x \<noteq> kUnknown then n + 1 else n) vec 0"

definition BitsToTernary :: "bits \<Rightarrow> TernaryVector option" where
  "BitsToTernary b =
     mapM (\<lambda>i. do { x \<leftarrow> Get b i; Some (if x then kKnownOne else kKnownZero) }) [0..<ib_bit_count b]"

definition IsKnown :: "TernaryValue \<Rightarrow> bool" where "IsKnown t = (t \<noteq> kUnknown)"
definition IsUnknown :: "TernaryValue \<Rightarrow> bool" where "IsUnknown t = (t = kUnknown)"
definition IsFullyKnown :: "TernaryVector \<Rightarrow> bool" where "IsFullyKnown t = list_all IsKnown t"
definition AllUnknown :: "TernaryVector \<Rightarrow> bool" where "AllUnknown v = list_all IsUnknown v"
definition AnyKnown :: "TernaryVector \<Rightarrow> bool" where "AnyKnown v = list_ex IsKnown v"
definition IsKnownOne :: "TernaryVector \<Rightarrow> bool" where "IsKnownOne t = list_all (\<lambda>v. v = kKnownOne) t"
definition IsKnownZero :: "TernaryVector \<Rightarrow> bool" where "IsKnownZero t = list_all (\<lambda>v. v = kKnownZero) t"

section \<open>Logic\<close>

definition ternary_And :: "TernaryValue \<Rightarrow> TernaryValue \<Rightarrow> TernaryValue" where
  "ternary_And a b =
     (if a = kKnownZero \<or> b = kKnownZero then kKnownZero
      else if a = kKnownOne \<and> b = kKnownOne then kKnownOne else kUnknown)"

definition ternary_Or :: "TernaryValue \<Rightarrow> TernaryValue \<Rightarrow> TernaryValue" where
  "ternary_Or a b =
     (if a = kKnownOne \<or> b = kKnownOne then kKnownOne
      else if a = kKnownZero \<and> b = kKnownZero then kKnownZero else kUnknown)"

definition ternary_Not :: "TernaryValue \<Rightarrow> TernaryValue" where
  "ternary_Not a = (case a of kKnownZero \<Rightarrow> kKnownOne | kKnownOne \<Rightarrow> kKnownZero | kUnknown \<Rightarrow> kUnknown)"

definition ternary_Xor :: "TernaryValue \<Rightarrow> TernaryValue \<Rightarrow> TernaryValue" where
  "ternary_Xor a b =
     (if a = kUnknown \<or> b = kUnknown then kUnknown else if a = b then kKnownZero else kKnownOne)"

definition ternary_And_vec :: "TernaryVector \<Rightarrow> TernaryVector \<Rightarrow> TernaryVector option" where
  "ternary_And_vec a b = do { CHECK (length a = length b); Some (map2 ternary_And a b) }"

definition ternary_Or_vec :: "TernaryVector \<Rightarrow> TernaryVector \<Rightarrow> TernaryVector option" where
  "ternary_Or_vec a b = do { CHECK (length a = length b); Some (map2 ternary_Or a b) }"

definition ternary_Xor_vec :: "TernaryVector \<Rightarrow> TernaryVector \<Rightarrow> TernaryVector option" where
  "ternary_Xor_vec a b = do { CHECK (length a = length b); Some (map2 ternary_Xor a b) }"

definition ternary_Not_vec :: "TernaryVector \<Rightarrow> TernaryVector" where
  "ternary_Not_vec a = map ternary_Not a"

section \<open>The iterator over the values of a vector\<close>

record RealizedTernaryIterator =
  ti_finished :: bool
  ti_value :: bits
  ti_unknown_bit_offsets :: "nat list"

definition FindUnknownOffsets :: "TernaryVector \<Rightarrow> nat list" where
  "FindUnknownOffsets span = filter (\<lambda>i. span ! i = kUnknown) [0..<length span]"

definition ternary_begin :: "TernaryVector \<Rightarrow> RealizedTernaryIterator option" where
  "ternary_begin span = do {
     v \<leftarrow> ToKnownBitsValues span False;
     Some \<lparr>ti_finished = False, ti_value = v, ti_unknown_bit_offsets = FindUnknownOffsets span\<rparr> }"

definition ternary_end :: RealizedTernaryIterator where
  "ternary_end = \<lparr>ti_finished = True, ti_value = Bits 0, ti_unknown_bit_offsets = []\<rparr>"

definition ternary_deref :: "RealizedTernaryIterator \<Rightarrow> bits option" where
  "ternary_deref it = do { CHECK (\<not> ti_finished it); Some (ti_value it) }"

definition ternary_iterator_eq :: "RealizedTernaryIterator \<Rightarrow> RealizedTernaryIterator \<Rightarrow> bool option" where
  "ternary_iterator_eq a b =
     (if ti_finished a \<noteq> ti_finished b then Some False
      else if ti_finished a \<and> ti_finished b then Some True
      else Bits_eq (ti_value a) (ti_value b))"

definition IncrementOnOffsets :: "inline_bitmap \<Rightarrow> nat list \<Rightarrow> (bool \<times> inline_bitmap) option" where
  "IncrementOnOffsets bm offsets = do {
     r \<leftarrow> loop (\<lambda>off bm. do {
            x \<leftarrow> InlineBitmap_Get bm off;
            if x = False then do { bm \<leftarrow> InlineBitmap_Set bm off True; Some (Return (False, bm)) }
            else do { bm \<leftarrow> InlineBitmap_Set bm off False; Some (Continue bm) } }) offsets bm;
     Some (step_result (\<lambda>bm. (True, bm)) r) }"

text \<open>\<^verbatim>\<open>absl::Span::subspan\<close> ends the program when the position is past the end.\<close>

definition subspan :: "'a list \<Rightarrow> nat \<Rightarrow> 'a list option" where
  "subspan xs pos = (if pos \<le> length xs then Some (drop pos xs) else None)"

definition Advance_step ::
    "nat list \<Rightarrow> nat \<Rightarrow> bool \<times> inline_bitmap \<Rightarrow> (bool \<times> inline_bitmap) option" where
  "Advance_step offsets i = (\<lambda>(finished, bm). do {
     s \<leftarrow> subspan offsets i;
     IncrementOnOffsets bm s })"

definition Advance_bits :: "RealizedTernaryIterator \<Rightarrow> bits \<Rightarrow> RealizedTernaryIterator option" where
  "Advance_bits it amnt = do {
     z \<leftarrow> IsZero amnt;
     if ib_bit_count (ti_value it) = 0 \<and> \<not> z then Some (it\<lparr>ti_finished := True\<rparr>)
     else do {
       lz \<leftarrow> CountLeadingZeros amnt;
       (finished, bm) \<leftarrow> foldM (\<lambda>i (finished, bm).
           if finished then Some (finished, bm)
           else do {
             x \<leftarrow> Get amnt i;
             if x then Advance_step (ti_unknown_bit_offsets it) i (finished, bm)
             else Some (finished, bm) })
         [0..<ib_bit_count amnt - lz] (ti_finished it, ti_value it);
       Some (it\<lparr>ti_finished := finished, ti_value := bm\<rparr>) } }"

fun Advance_loop ::
    "nat list \<Rightarrow> nat \<Rightarrow> 64 word \<Rightarrow> bool \<times> inline_bitmap \<Rightarrow> (bool \<times> inline_bitmap) option" where
  "Advance_loop offsets 0 amnt s = Some s"
| "Advance_loop offsets (Suc k) amnt s =
     (if amnt \<noteq> 0 \<and> \<not> fst s then do {
        s \<leftarrow> (if amnt AND 1 \<noteq> 0 then Advance_step offsets (64 - Suc k) s else Some s);
        Advance_loop offsets k (signed_drop_bit 1 amnt) s }
      else Some s)"

definition Advance :: "RealizedTernaryIterator \<Rightarrow> 64 word \<Rightarrow> RealizedTernaryIterator option" where
  "Advance it amnt = do {
     CHECK (sint amnt \<ge> 0);
     if ib_bit_count (ti_value it) = 0 \<and> amnt \<noteq> 0 then Some (it\<lparr>ti_finished := True\<rparr>)
     else do {
       (finished, bm) \<leftarrow> Advance_loop (ti_unknown_bit_offsets it) 64 amnt (ti_finished it, ti_value it);
       Some (it\<lparr>ti_finished := finished, ti_value := bm\<rparr>) } }"

end
