(* ===== verification/Ternary_Rules.thy ===== *)
theory Ternary_Rules
  imports Ternary_Ops
begin

text \<open>
  What the ternary operations mean: a vector stands for the set of numbers it is
  compatible with. \<^verbatim>\<open>Union\<close> is the intersection of these sets, \<^verbatim>\<open>Intersection\<close> the best
  approximation of their union, the logic operations are the best approximations of the
  boolean ones, and the iterator enumerates the set in increasing order.
\<close>

definition tern_bit :: "TernaryValue \<Rightarrow> bool \<Rightarrow> bool" where
  "tern_bit t b = (t = kUnknown \<or> (t = kKnownOne) = b)"

definition tern_ok :: "TernaryVector \<Rightarrow> nat \<Rightarrow> bool" where
  "tern_ok t v = (\<forall>i<length t. tern_bit (t ! i) (bit v i))"

lemma tern_bit_simps [simp]:
  "tern_bit kUnknown b" "tern_bit kKnownOne b = b" "tern_bit kKnownZero b = (\<not> b)"
  by (auto simp: tern_bit_def)

section \<open>Strings\<close>

lemma fold_append: "fold (\<lambda>i r. r @ f i) xs acc = acc @ concat (map f xs)"
  by (induction xs arbitrary: acc) simp_all

lemma parse_ternary_append:
  "parse_ternary (concat (map (\<lambda>i. ternary_symbol (f i) @ (if P i then ''_'' else [])) is)) acc =
     Inr (acc @ map f is)"
  by (induction "is" arbitrary: acc) (auto simp: ternary_symbol_def split: TernaryValue.splits)

lemma StringToTernaryVector_ToString: "StringToTernaryVector (Ternary_ToString t) = Inr t"
proof -
  have "Ternary_ToString t = ''0b'' @ concat (map (\<lambda>i. ternary_symbol (t ! i) @
      (if i \<noteq> 0 \<and> i mod 4 = 0 then ''_'' else [])) (rev [0..<length t]))"
    by (simp add: Ternary_ToString_def fold_append)
  moreover have "rev (map ((!) t) (rev [0..<length t])) = t" by (simp add: rev_map map_nth)
  ultimately show ?thesis by (simp add: StringToTernaryVector_def parse_ternary_append)
qed

section \<open>Known bits\<close>

lemma set_bits_loop:
  "\<exists>bm. foldM (\<lambda>i bitmap. if P i then InlineBitmap_Set bitmap i True else Some bitmap)
      [0..<n] (InlineBitmap n False) = Some bm \<and> bm_repr bm n P"
proof -
  have "\<exists>bm. foldM (\<lambda>i bitmap. if P i then InlineBitmap_Set bitmap i True else Some bitmap)
      [0..<n] (InlineBitmap n False) = Some bm \<and> bm_repr bm n (\<lambda>j. j < n \<and> P j)"
  proof (rule foldM_upt_inv[where P = "\<lambda>i bm. bm_repr bm n (\<lambda>j. j < i \<and> P j)"])
    show "bm_repr (InlineBitmap n False) n (\<lambda>j. j < 0 \<and> P j)"
      by (rule bm_repr_cong[OF bm_repr_InlineBitmap]) simp
    fix i s assume i: "i < n" and s: "bm_repr s n (\<lambda>j. j < i \<and> P j)"
    show "\<exists>s'. (if P i then InlineBitmap_Set s i True else Some s) = Some s' \<and>
        bm_repr s' n (\<lambda>j. j < Suc i \<and> P j)"
      using InlineBitmap_Set_repr[OF s i, of True] s
      by (cases "P i") (auto elim!: bm_repr_cong simp: less_Suc_eq split: if_splits)
  qed simp
  then show ?thesis by (auto elim!: bm_repr_cong)
qed

lemma ToKnownBits_mk: "ToKnownBits t = Some (mkBitmap (length t) (nat_of_bits (length t) (\<lambda>i. t ! i \<noteq> kUnknown)))"
  unfolding ToKnownBits_def by (rule repr_SomeI[OF set_bits_loop]) simp

lemma ToKnownBitsValues_mk:
  "ToKnownBitsValues t d = Some (mkBitmap (length t)
     (nat_of_bits (length t) (\<lambda>i. t ! i = kKnownOne \<or> (d \<and> t ! i = kUnknown))))"
  unfolding ToKnownBitsValues_def by (rule repr_SomeI[OF set_bits_loop]) simp

lemma FromKnownBits_mk:
  "FromKnownBits (mkBitmap n k) (mkBitmap n v) =
     Some (map (\<lambda>i. if bit k i then if bit v i then kKnownOne else kKnownZero else kUnknown) [0..<n])"
  unfolding FromKnownBits_def by (simp, rule mapM_pure) (simp add: Get_mk)

section \<open>Element-wise loops\<close>

lemma mapM_Some_iff: "mapM f xs = Some ys \<longleftrightarrow> list_all2 (\<lambda>x y. f x = Some y) xs ys"
proof (induction xs arbitrary: ys)
  case (Cons x xs)
  show ?case by (cases ys) (auto simp: Cons.IH bind_eq_Some_conv)
qed (auto)

lemma mapM_None_iff: "mapM f xs = None \<longleftrightarrow> (\<exists>x\<in>set xs. f x = None)"
  by (induction xs) (auto split: Option.bind_splits)

lemma loop_push_back:
  assumes "\<And>x res. body x res = Some (case f x of None \<Rightarrow> Return e | Some y \<Rightarrow> Continue (res @ [y]))"
  shows "loop body xs acc = Some (case mapM f xs of None \<Rightarrow> Return e | Some ys \<Rightarrow> Continue (acc @ ys))"
  by (induction xs arbitrary: acc) (auto simp: assms split: option.splits Option.bind_splits)

definition union_elem :: "TernaryValue \<Rightarrow> TernaryValue \<Rightarrow> TernaryValue option" where
  "union_elem l r = (if l = kUnknown then Some r else if r = kUnknown then Some l
                     else if l = r then Some l else None)"

lemma union_elem_Some: "union_elem l r = Some u \<Longrightarrow> tern_bit u b = (tern_bit l b \<and> tern_bit r b)"
  by (cases l; cases r) (auto simp: union_elem_def split: if_splits)

lemma union_elem_None: "union_elem l r = None \<Longrightarrow> \<not> (tern_bit l b \<and> tern_bit r b)"
  by (cases l; cases r) (auto simp: union_elem_def split: if_splits)

lemma ternary_Union_mapM:
  assumes "length l = length r"
  shows "ternary_Union l r =
    Some (case mapM (\<lambda>(x, y). union_elem x y) (zip l r) of None \<Rightarrow> Inl InvalidArgument | Some u \<Rightarrow> Inr u)"
proof -
  have "loop (\<lambda>(l, r) result.
            Some (if l = kUnknown then Continue (result @ [r])
                  else if r = kUnknown then Continue (result @ [l])
                  else if l = r then Continue (result @ [l])
                  else Return (Inl InvalidArgument))) (zip l r) [] =
      Some (case mapM (\<lambda>(x, y). union_elem x y) (zip l r) of
         None \<Rightarrow> Return (Inl InvalidArgument :: TernaryVector status_or) | Some ys \<Rightarrow> Continue ([] @ ys))"
    by (rule loop_push_back) (auto simp: union_elem_def split: option.splits if_splits)
  then show ?thesis using assms by (simp add: ternary_Union_def split: option.splits)
qed

lemma zip_all2_nth:
  assumes "list_all2 (\<lambda>(x, y) u. P x y u) (zip l r) us" "length l = length r"
  shows "length us = length l" "i < length l \<Longrightarrow> P (l ! i) (r ! i) (us ! i)"
  using assms by (auto simp: list_all2_conv_all_nth)

section \<open>Approximating unions\<close>

lemma Intersection_nth:
  assumes "length l = length r"
  shows "Intersection l r = Some (map2 (\<lambda>l r. if l \<noteq> r then kUnknown else l) l r)"
  using assms by (simp add: Intersection_def)

definition tern_value :: "TernaryVector \<Rightarrow> nat \<Rightarrow> nat" where
  "tern_value t d = nat_of_bits (length t) (\<lambda>i. if t ! i = kUnknown then bit d i else t ! i = kKnownOne)"

lemma tern_ok_value: "tern_ok t (tern_value t d)"
  by (auto simp: tern_ok_def tern_value_def tern_bit_def)

section \<open>Logic\<close>

lemma ternary_logic_best:
  "tern_bit (ternary_And s t) b \<longleftrightarrow> (\<exists>x y. tern_bit s x \<and> tern_bit t y \<and> b = (x \<and> y))"
  "tern_bit (ternary_Or s t) b \<longleftrightarrow> (\<exists>x y. tern_bit s x \<and> tern_bit t y \<and> b = (x \<or> y))"
  "tern_bit (ternary_Xor s t) b \<longleftrightarrow> (\<exists>x y. tern_bit s x \<and> tern_bit t y \<and> b = (x \<noteq> y))"
  "tern_bit (ternary_Not s) b \<longleftrightarrow> (\<exists>x. tern_bit s x \<and> b = (\<not> x))"
  by (cases s; cases t; cases b; auto simp: ternary_And_def ternary_Or_def ternary_Xor_def ternary_Not_def)+

section \<open>Enumeration\<close>

text \<open>\<open>deposit t r\<close> is the value of \<open>t\<close> whose unknown bits hold the number \<open>r\<close>, \<open>extract_bits t v\<close>
  the number in the unknown bits of \<open>v\<close>.\<close>

fun deposit :: "TernaryVector \<Rightarrow> nat \<Rightarrow> nat" where
  "deposit [] r = 0"
| "deposit (x # t) r =
     (if x = kUnknown then r mod 2 + 2 * deposit t (r div 2) else of_bool (x = kKnownOne) + 2 * deposit t r)"

fun extract_bits :: "TernaryVector \<Rightarrow> nat \<Rightarrow> nat" where
  "extract_bits [] v = 0"
| "extract_bits (x # t) v =
     (if x = kUnknown then v mod 2 + 2 * extract_bits t (v div 2) else extract_bits t (v div 2))"

definition unknowns :: "TernaryVector \<Rightarrow> nat" where
  "unknowns t = length (filter (\<lambda>x. x = kUnknown) t)"

lemma unknowns_simps [simp]:
  "unknowns [] = 0" "unknowns (x # t) = (if x = kUnknown then Suc (unknowns t) else unknowns t)"
  by (simp_all add: unknowns_def)

lemma tern_ok_Cons: "tern_ok (x # t) v \<longleftrightarrow> tern_bit x (odd v) \<and> tern_ok t (v div 2)"
  by (auto simp: tern_ok_def nth_Cons bit_Suc bit_0 less_Suc_eq_0_disj split: nat.splits)

lemma mod2_double_less: "(a::nat) < m \<Longrightarrow> r mod 2 + 2 * a < 2 * m"
  using mod_less_divisor[of 2 r] by linarith

lemma extract_bits_less: "extract_bits t v < 2 ^ unknowns t"
proof (induction t arbitrary: v)
  case (Cons x t)
  have "extract_bits t (v div 2) < 2 ^ unknowns t" by (rule Cons)
  then show ?case by (simp add: mod2_double_less)
qed simp

lemma deposit_less: "deposit t r < 2 ^ length t"
proof (induction t arbitrary: r)
  case (Cons x t)
  have "deposit t (r div 2) < 2 ^ length t" "deposit t r < 2 ^ length t" by (rule Cons)+
  then show ?case by (simp add: of_bool_def mod2_double_less)
qed simp

lemma tern_ok_deposit: "tern_ok t (deposit t r)"
proof (induction t arbitrary: r)
  case (Cons x t)
  then show ?case
    by (cases x) (auto simp: tern_ok_Cons)
qed (simp add: tern_ok_def)

lemma extract_bits_deposit: "r < 2 ^ unknowns t \<Longrightarrow> extract_bits t (deposit t r) = r"
proof (induction t arbitrary: r)
  case (Cons x t)
  then show ?case by (cases x) (auto simp: less_mult_imp_div_less mult.commute)
qed simp

lemma deposit_extract_bits: "tern_ok t v \<Longrightarrow> deposit t (extract_bits t v) = take_bit (length t) v"
proof (induction t arbitrary: v)
  case (Cons x t)
  then have "tern_bit x (odd v)" "deposit t (extract_bits t (v div 2)) = take_bit (length t) (v div 2)"
    by (auto simp: tern_ok_Cons)
  then show ?case
    by (cases x) (auto simp: take_bit_Suc mod_2_eq_odd)
qed simp

lemma deposit_mono: "r < s \<Longrightarrow> s < 2 ^ unknowns t \<Longrightarrow> deposit t r < deposit t s"
proof (induction t arbitrary: r s)
  case (Cons x t)
  show ?case
  proof (cases "x = kUnknown")
    case True
    then have half: "s div 2 < 2 ^ unknowns t" using Cons.prems by (simp add: less_mult_imp_div_less mult.commute)
    show ?thesis
    proof (cases "r div 2 = s div 2")
      case True
      then have "r mod 2 < s mod 2" using Cons.prems(1) by (metis div_mult_mod_eq nat_add_left_cancel_less)
      then show ?thesis using True \<open>x = kUnknown\<close> by simp
    next
      case False
      then have "r div 2 < s div 2" using Cons.prems(1) by (simp add: div_le_mono le_neq_implies_less)
      from Cons.IH[OF this half] show ?thesis using \<open>x = kUnknown\<close> by (simp; linarith)
    qed
  next
    case False
    then show ?thesis using Cons by simp
  qed
qed simp


lemma FindUnknownOffsets_Cons:
  "FindUnknownOffsets (x # t) = (if x = kUnknown then [0] else []) @ map Suc (FindUnknownOffsets t)"
proof -
  have "[0..<length (x # t)] = 0 # map Suc [0..<length t]" by (simp add: upt_conv_Cons map_Suc_upt del: upt_Suc)
  then show ?thesis unfolding FindUnknownOffsets_def by (simp add: filter_map comp_def)
qed

lemma extract_bits_offsets:
  "horner_sum of_bool 2 (map (bit v) (FindUnknownOffsets t)) = extract_bits t v"
proof (induction t arbitrary: v)
  case Nil
  then show ?case by (simp add: FindUnknownOffsets_def)
next
  case (Cons x t)
  have "map (bit v) (map Suc (FindUnknownOffsets t)) = map (bit (v div 2)) (FindUnknownOffsets t)"
    by (simp add: bit_Suc)
  then show ?case using Cons[of "v div 2"]
    by (simp add: FindUnknownOffsets_Cons bit_0 mod_2_eq_odd del: map_map)
qed

lemma offsets_props:
  "distinct (FindUnknownOffsets t)" "\<forall>i\<in>set (FindUnknownOffsets t). i < length t \<and> t ! i = kUnknown"
  "length (FindUnknownOffsets t) = unknowns t"
proof -
  show "length (FindUnknownOffsets t) = unknowns t"
  proof (induction t)
    case Nil
    then show ?case by (simp add: FindUnknownOffsets_def)
  qed (simp add: FindUnknownOffsets_Cons)
qed (auto simp: FindUnknownOffsets_def)

lemma IncrementOnOffsets_mk:
  assumes "distinct offs" "\<forall>i\<in>set offs. i < n"
  shows "\<exists>ov w. IncrementOnOffsets (mkBitmap n v) offs = Some (ov, mkBitmap n w) \<and>
    (\<forall>i. i \<notin> set offs \<longrightarrow> bit w i = bit v i) \<and>
    horner_sum of_bool 2 (map (bit w) offs) + of_bool ov * 2 ^ length offs =
      horner_sum of_bool 2 (map (bit v) offs) + (1::nat)"
  using assms
proof (induction offs arbitrary: v)
  case Nil
  then show ?case by (auto simp: IncrementOnOffsets_def)
next
  case (Cons i offs)
  then have i: "i < n" "i \<notin> set offs" by auto
  show ?case
  proof (cases "bit v i")
    case False
    let ?w = "set_bit i v"
    have w: "bit ?w j = (j = i \<or> bit v j)" for j by (auto simp: bit_simps)
    then have m: "map (bit ?w) offs = map (bit v) offs" using i by auto
    have "bit ?w i" by (simp add: w)
    moreover have "\<forall>j. j \<notin> set (i # offs) \<longrightarrow> bit ?w j = bit v j" by (simp add: w)
    ultimately show ?thesis using False i
      by (intro exI[of _ False] exI[of _ ?w])
         (simp add: IncrementOnOffsets_def InlineBitmap_Get_mk InlineBitmap_Set_mk m)
  next
    case True
    let ?u = "unset_bit i v"
    have u: "bit ?u j = (j \<noteq> i \<and> bit v j)" for j by (auto simp: bit_simps)
    obtain ov w where w: "IncrementOnOffsets (mkBitmap n ?u) offs = Some (ov, mkBitmap n w)"
        "\<forall>j. j \<notin> set offs \<longrightarrow> bit w j = bit ?u j"
        "horner_sum of_bool 2 (map (bit w) offs) + of_bool ov * 2 ^ length offs =
          horner_sum of_bool 2 (map (bit ?u) offs) + (1::nat)"
      using Cons.IH[of ?u] Cons.prems by auto
    have m: "map (bit ?u) offs = map (bit v) offs" using i u by auto
    have wi: "\<not> bit w i" using w(2) i u by auto
    have step: "IncrementOnOffsets (mkBitmap n v) (i # offs) = IncrementOnOffsets (mkBitmap n ?u) offs"
      using True i by (simp add: IncrementOnOffsets_def InlineBitmap_Get_mk InlineBitmap_Set_mk)
    have "horner_sum of_bool 2 (map (bit w) (i # offs)) + of_bool ov * 2 ^ length (i # offs) =
        horner_sum of_bool 2 (map (bit v) (i # offs)) + (1::nat)"
      using w(3) True wi unfolding m by (cases ov) simp_all
    moreover have "\<forall>j. j \<notin> set (i # offs) \<longrightarrow> bit w j = bit v j" using w(2) u by simp
    ultimately show ?thesis
      by (intro exI[of _ ov] exI[of _ w] conjI) (simp_all only: step w(1))
  qed
qed

text \<open>One step of \<^verbatim>\<open>Advance\<close> at bit \<open>i\<close> adds \<open>2 ^ i\<close> to the number in the unknown bits.\<close>

lemma Advance_step_mk:
  assumes "i \<le> unknowns t" "tern_ok t v"
  shows "\<exists>ov w. Advance_step (FindUnknownOffsets t) i (False, mkBitmap (length t) v) =
      Some (ov, mkBitmap (length t) w) \<and> tern_ok t w \<and>
      extract_bits t w + of_bool ov * 2 ^ unknowns t = extract_bits t v + 2 ^ i"
proof -
  let ?o = "FindUnknownOffsets t"
  note pr = offsets_props[of t]
  have d: "distinct (drop i ?o)" "\<forall>j\<in>set (drop i ?o). j < length t"
    using pr by (auto dest: in_set_dropD)
  from IncrementOnOffsets_mk[OF d, of v] obtain ov w where
    inc: "IncrementOnOffsets (mkBitmap (length t) v) (drop i ?o) = Some (ov, mkBitmap (length t) w)"
    and same: "\<forall>j. j \<notin> set (drop i ?o) \<longrightarrow> bit w j = bit v j"
    and sum: "horner_sum of_bool 2 (map (bit w) (drop i ?o)) + of_bool ov * 2 ^ (unknowns t - i) =
      horner_sum of_bool 2 (map (bit v) (drop i ?o)) + (1::nat)"
    using pr(3) by auto
  have ok: "tern_ok t w" unfolding tern_ok_def
  proof (intro allI impI)
    fix j assume j: "j < length t"
    show "tern_bit (t ! j) (bit w j)"
      using j same pr(2) assms(2) in_set_dropD[of j i ?o] by (cases "j \<in> set (drop i ?o)") (auto simp: tern_ok_def)
  qed
  have split: "extract_bits t x = horner_sum of_bool 2 (map (bit x) (take i ?o)) +
      2 ^ i * horner_sum of_bool 2 (map (bit x) (drop i ?o))" for x
  proof -
    have "map (bit x) ?o = map (bit x) (take i ?o) @ map (bit x) (drop i ?o)"
      by (metis append_take_drop_id map_append)
    then have "extract_bits t x = horner_sum of_bool 2 (map (bit x) (take i ?o) @ map (bit x) (drop i ?o))"
      using extract_bits_offsets[of x t] by simp
    then show ?thesis using assms(1) pr(3) by (simp add: horner_sum_append min_def)
  qed
  have "j \<notin> set (drop i ?o)" if "j \<in> set (take i ?o)" for j
    using that pr(1) by (metis IntI append_take_drop_id distinct_append empty_iff)
  then have low: "map (bit w) (take i ?o) = map (bit v) (take i ?o)" using same by simp
  have "2 ^ i * (horner_sum of_bool 2 (map (bit w) (drop i ?o)) + of_bool ov * 2 ^ (unknowns t - i)) =
      2 ^ i * (horner_sum of_bool 2 (map (bit v) (drop i ?o)) + (1::nat))" by (simp only: sum)
  moreover have "(2::nat) ^ i * 2 ^ (unknowns t - i) = 2 ^ unknowns t"
    using assms(1) by (simp flip: power_add)
  ultimately have "extract_bits t w + of_bool ov * 2 ^ unknowns t = extract_bits t v + 2 ^ i"
    unfolding split low by (auto simp: distrib_left split: if_splits)
  then show ?thesis using inc ok assms(1) pr(3)
    by (auto simp: Advance_step_def subspan_def)
qed


lemma horner_sum_False: "horner_sum of_bool 2 (map (\<lambda>_. False) xs) = (0::nat)"
  by (induction xs) simp_all

lemma ternary_begin_mk:
  "ternary_begin t = Some \<lparr>ti_finished = False, ti_value = mkBitmap (length t) (deposit t 0),
     ti_unknown_bit_offsets = FindUnknownOffsets t\<rparr>"
proof -
  let ?v = "nat_of_bits (length t) (\<lambda>i. t ! i = kKnownOne)"
  have "tern_ok t ?v" by (auto simp: tern_ok_def tern_bit_def)
  moreover have "map (bit ?v) (FindUnknownOffsets t) = map (\<lambda>_. False) (FindUnknownOffsets t)"
    using offsets_props(2)[of t] by auto
  then have "extract_bits t ?v = 0"
    using extract_bits_offsets[of ?v t] horner_sum_False[of "FindUnknownOffsets t"] by (simp only:)
  ultimately have "deposit t 0 = take_bit (length t) ?v" using deposit_extract_bits by metis
  then show ?thesis by (simp add: ternary_begin_def ToKnownBitsValues_mk)
qed

text \<open>The state of an iterator over \<open>t\<close> that stands at the value with number \<open>r\<close>.\<close>

definition at_rank :: "TernaryVector \<Rightarrow> nat \<Rightarrow> RealizedTernaryIterator" where
  "at_rank t r = \<lparr>ti_finished = False, ti_value = mkBitmap (length t) (deposit t r),
     ti_unknown_bit_offsets = FindUnknownOffsets t\<rparr>"

lemma mkBitmap_deposit:
  "tern_ok t w \<Longrightarrow> mkBitmap (length t) w = mkBitmap (length t) (deposit t (extract_bits t w))"
  by (simp add: deposit_extract_bits)

lemma Advance_step_rank:
  assumes "r + 2 ^ k < 2 ^ unknowns t"
  shows "Advance_step (FindUnknownOffsets t) k (False, mkBitmap (length t) (deposit t r)) =
    Some (False, mkBitmap (length t) (deposit t (r + 2 ^ k)))"
proof -
  have "(2::nat) ^ k < 2 ^ unknowns t" using assms by linarith
  then have k: "k \<le> unknowns t" by simp
  obtain ov w where w: "Advance_step (FindUnknownOffsets t) k (False, mkBitmap (length t) (deposit t r)) =
      Some (ov, mkBitmap (length t) w)" "tern_ok t w"
      "extract_bits t w + of_bool ov * 2 ^ unknowns t = extract_bits t (deposit t r) + 2 ^ k"
    using Advance_step_mk[OF k tern_ok_deposit] by blast
  have "extract_bits t (deposit t r) = r" using assms by (intro extract_bits_deposit) linarith
  then have "\<not> ov" "extract_bits t w = r + 2 ^ k" using w(3) assms by (cases ov; simp)+
  then show ?thesis using w(1) mkBitmap_deposit[OF w(2)] by simp
qed

lemma Advance_bits_loop:
  assumes "r + take_bit k a < 2 ^ unknowns t" "k \<le> m"
  shows "foldM (\<lambda>i (finished, bm).
           if finished then Some (finished, bm)
           else do {
             x \<leftarrow> Get (mkBitmap m a) i;
             if x then Advance_step (FindUnknownOffsets t) i (finished, bm)
             else Some (finished, bm) })
         [0..<k] (False, mkBitmap (length t) (deposit t r)) =
       Some (False, mkBitmap (length t) (deposit t (r + take_bit k a)))"
  using assms
proof (induction k)
  case (Suc k)
  have ts: "take_bit (Suc k) a = take_bit k a + of_bool (bit a k) * 2 ^ k"
    by (simp add: take_bit_Suc_from_most)
  then have IH: "foldM (\<lambda>i (finished, bm).
           if finished then Some (finished, bm)
           else do {
             x \<leftarrow> Get (mkBitmap m a) i;
             if x then Advance_step (FindUnknownOffsets t) i (finished, bm)
             else Some (finished, bm) })
         [0..<k] (False, mkBitmap (length t) (deposit t r)) =
       Some (False, mkBitmap (length t) (deposit t (r + take_bit k a)))"
    using Suc by (cases "bit a k") simp_all
  show ?case
  proof (cases "bit a k")
    case False
    then show ?thesis using IH Suc.prems ts by (simp add: foldM_append Get_mk)
  next
    case True
    let ?r = "r + take_bit k a"
    have lt: "?r + 2 ^ k < 2 ^ unknowns t" using Suc.prems(1) ts True by simp
    have eq: "?r + 2 ^ k = r + take_bit (Suc k) a" using ts True by simp
    from Advance_step_rank[OF lt]
    have "Advance_step (FindUnknownOffsets t) k (False, mkBitmap (length t) (deposit t ?r)) =
        Some (False, mkBitmap (length t) (deposit t (r + take_bit (Suc k) a)))" unfolding eq .
    then show ?thesis using IH True Suc.prems(2) by (simp add: foldM_append Get_mk)
  qed
qed simp

lemma take_bit_nat_len_take: "take_bit (nat_len (take_bit m a)) a = take_bit m a"
proof -
  have "nat_len (take_bit m a) \<le> m" by (simp add: nat_len_le_iff)
  then have "take_bit (nat_len (take_bit m a)) a = take_bit (nat_len (take_bit m a)) (take_bit m a)"
    by (simp only: take_bit_take_bit min.absorb1)
  then show ?thesis using take_bit_nat_len[of "take_bit m a"] by (simp only:)
qed

lemma Advance_bits_mk:
  assumes "r + take_bit m a < 2 ^ unknowns t"
  shows "Advance_bits (at_rank t r) (mkBitmap m a) = Some (at_rank t (r + take_bit m a))"
proof -
  let ?l = "nat_len (take_bit m a)"
  have le: "?l \<le> m" by (simp add: nat_len_le_iff)
  have len: "m - (m - ?l) = ?l" using le by simp
  have "\<not> (length t = 0 \<and> take_bit m a \<noteq> 0)" using assms by auto
  moreover have "r + take_bit ?l a < 2 ^ unknowns t" using assms by (simp add: take_bit_nat_len_take)
  note Advance_bits_loop[OF this le]
  ultimately show ?thesis
    unfolding Advance_bits_def at_rank_def RealizedTernaryIterator.simps
    by (simp add: IsZero_mk CountLeadingZeros_mk len take_bit_nat_len_take)
qed


lemma signed_half: "sint (a :: 64 word) \<ge> 0 \<Longrightarrow> signed_drop_bit 1 a = drop_bit 1 a"
proof -
  assume "sint a \<ge> 0"
  then have "\<not> bit a 63" using bit_last_iff[of a] by simp
  then show "signed_drop_bit 1 a = drop_bit 1 a"
    by (intro bit_word_eqI) (auto simp: bit_signed_drop_bit_iff bit_drop_bit_eq dest: bit_imp_le_length)
qed

lemma split_step: "u = b + 2 * h \<Longrightarrow> q = 2 * p \<Longrightarrow> r + b * p + q * h = r + p * u" for u :: nat
  by (simp add: algebra_simps)

lemma Advance_loop_mk:
  assumes "r + 2 ^ (64 - k) * unat a < 2 ^ unknowns t" "k \<le> 64" "unat a < 2 ^ k" "sint a \<ge> 0"
  shows "Advance_loop (FindUnknownOffsets t) k a (False, mkBitmap (length t) (deposit t r)) =
    Some (False, mkBitmap (length t) (deposit t (r + 2 ^ (64 - k) * unat a)))"
  using assms
proof (induction k arbitrary: r a)
  case 0
  then show ?case by simp
next
  case (Suc k)
  show ?case
  proof (cases "a = 0")
    case True
    then show ?thesis by simp
  next
    case False
    let ?i = "64 - Suc k" and ?h = "drop_bit 1 a" and ?b = "odd (unat a)"
    have half: "unat ?h = unat a div 2" by (simp add: drop_bit_eq_div unat_div)
    have par: "unat a = of_bool ?b + 2 * unat ?h" unfolding half by (simp add: mod_2_eq_odd[symmetric])
    have pow: "(2::nat) ^ (64 - k) = 2 * 2 ^ ?i" using Suc.prems(2) by (simp flip: power_Suc add: Suc_diff_Suc)
    have bit: "(a AND 1 \<noteq> 0) = ?b"
      using drop_bit_and_1_iff[of 0 a] by (simp add: bit_unsigned_iff flip: bit_0)
    let ?r = "r + of_bool ?b * 2 ^ ?i"
    have tot: "?r + 2 ^ (64 - k) * unat ?h = r + 2 ^ ?i * unat a"
      by (rule split_step[OF par pow])
    have s1: "(if ?b then Advance_step (FindUnknownOffsets t) ?i (False, mkBitmap (length t) (deposit t r))
        else Some (False, mkBitmap (length t) (deposit t r))) = Some (False, mkBitmap (length t) (deposit t ?r))"
      using Advance_step_rank[of r ?i t] Suc.prems(1) tot by (cases ?b) simp_all
    have "\<not> bit ?h 63" using bit_imp_le_length[of a 64] by (auto simp: bit_drop_bit_eq)
    then have "sint ?h \<ge> 0" using bit_last_iff[of ?h] by simp
    moreover have "unat ?h < 2 ^ k" using Suc.prems(3) half by simp
    ultimately have "Advance_loop (FindUnknownOffsets t) k ?h (False, mkBitmap (length t) (deposit t ?r)) =
        Some (False, mkBitmap (length t) (deposit t (?r + 2 ^ (64 - k) * unat ?h)))"
      using Suc.prems(1,2) tot by (intro Suc.IH) simp_all
    then have "Advance_loop (FindUnknownOffsets t) k ?h (False, mkBitmap (length t) (deposit t ?r)) =
        Some (False, mkBitmap (length t) (deposit t (r + 2 ^ ?i * unat a)))" by (simp only: tot)
    then show ?thesis using False s1 bit signed_half[OF Suc.prems(4)] by (cases ?b) simp_all
  qed
qed


lemma Advance_mk:
  assumes "r + unat a < 2 ^ unknowns t" "sint a \<ge> 0"
  shows "Advance (at_rank t r) a = Some (at_rank t (r + unat a))"
proof -
  have "unat a < 2 ^ 64" using unsigned_less[of a] by simp
  then have "Advance_loop (FindUnknownOffsets t) 64 a (False, mkBitmap (length t) (deposit t r)) =
      Some (False, mkBitmap (length t) (deposit t (r + unat a)))"
    using Advance_loop_mk[of r 64 a t] assms by simp
  moreover have "\<not> (length t = 0 \<and> a \<noteq> 0)" using assms(1) by (auto simp: unat_eq_0)
  ultimately show ?thesis using assms(2)
    unfolding Advance_def at_rank_def RealizedTernaryIterator.simps by simp
qed

text \<open>The increment at the last value ends the iteration.\<close>

lemma Advance_1_end:
  assumes "r + 1 = 2 ^ unknowns t"
  shows "\<exists>it. Advance (at_rank t r) 1 = Some it \<and> ti_finished it"
proof (cases "length t = 0")
  case True
  then show ?thesis by (simp add: Advance_def at_rank_def)
next
  case False
  obtain ov w where w: "Advance_step (FindUnknownOffsets t) 0 (False, mkBitmap (length t) (deposit t r)) =
      Some (ov, mkBitmap (length t) w)"
      "extract_bits t w + of_bool ov * 2 ^ unknowns t = extract_bits t (deposit t r) + 2 ^ 0"
    using Advance_step_mk[OF _ tern_ok_deposit, of 0 t r] by auto
  have "extract_bits t (deposit t r) = r" using assms by (intro extract_bits_deposit) linarith
  then have ov: "ov" using w(2) assms extract_bits_less[of t w] by (cases ov) auto
  have "Advance_loop (FindUnknownOffsets t) (Suc 63) 1 (False, mkBitmap (length t) (deposit t r)) =
      Some (True, mkBitmap (length t) w)"
  proof -
    have "Advance_loop offs k b (True, bm) = Some (True, bm)" for offs k b bm by (cases k) simp_all
    then show ?thesis using w(1) ov by (subst Advance_loop.simps(2)) simp
  qed
  then show ?thesis using False unfolding Advance_def at_rank_def RealizedTernaryIterator.simps by simp
qed

text \<open>Advancing beyond the end by a power of two above all unknown bits ends the process.\<close>

lemma Advance_far_past_end: "Advance (at_rank [kUnknown] 0) 4 = None"
  by code_simp

end
