(* ===== verification/Bits_Theorems.thy ===== *)
theory Bits_Theorems
  imports Bits_Arith
begin

text \<open>
  The contract of the bit vectors. \<open>is_bits b n v\<close> is the abstraction relation: \<open>b\<close> satisfies
  the invariant of its class, has width \<open>n\<close> and holds the unsigned number \<open>v\<close>; \<open>is_sbits\<close>
  is the same for the two's complement reading. Every theorem says that the operation
  returns (no CHECK fails) and what its result holds.
\<close>

definition is_bits :: "bits \<Rightarrow> nat \<Rightarrow> nat \<Rightarrow> bool" where
  "is_bits b n v = (wf_bitmap b \<and> ib_bit_count b = n \<and> bm_val b = v)"

definition is_sbits :: "bits \<Rightarrow> nat \<Rightarrow> int \<Rightarrow> bool" where
  "is_sbits b n k = (wf_bitmap b \<and> ib_bit_count b = n \<and> sval b = k)"

lemma is_bits_iff: "is_bits b n v \<longleftrightarrow> b = mkBitmap n v \<and> v < 2 ^ n"
proof
  assume "is_bits b n v"
  then have wf: "wf_bitmap b" and eqs: "ib_bit_count b = n" "bm_val b = v" by (auto simp: is_bits_def)
  from wf_bitmap_val[OF wf] eqs bm_val_less[of b] show "b = mkBitmap n v \<and> v < 2 ^ n" by simp
next
  assume "b = mkBitmap n v \<and> v < 2 ^ n"
  then show "is_bits b n v" by (simp add: is_bits_def take_bit_nat_eq_self_iff)
qed

lemma is_bits_mk [simp]: "is_bits (mkBitmap n v) n w \<longleftrightarrow> take_bit n v = w"
  by (auto simp: is_bits_def)

lemma is_bitsD: "is_bits b n v \<Longrightarrow> b = mkBitmap n v" "is_bits b n v \<Longrightarrow> take_bit n v = v"
  by (auto simp: is_bits_iff take_bit_nat_eq_self_iff)

lemma is_sbits_iff: "is_sbits b n k \<longleftrightarrow> b = bits_of_int n k \<and> fits_signed n k"
proof
  assume h: "is_sbits b n k"
  then have "is_bits b n (bm_val b)" by (simp add: is_bits_def is_sbits_def)
  then have b: "b = mkBitmap n (bm_val b)" by (rule is_bitsD)
  have "k = sv n (bm_val b)" using h by (auto simp: is_sbits_def sval_def)
  then show "b = bits_of_int n k \<and> fits_signed n k" using b sv_fits by simp
next
  assume "b = bits_of_int n k \<and> fits_signed n k"
  then show "is_sbits b n k" by (simp add: is_sbits_def sval_bits_of_int) (simp add: bits_of_int_def)
qed

lemma is_sbitsE:
  assumes "is_sbits b n k"
  obtains v where "b = mkBitmap n v" "sv n v = k"
  using assms by (auto simp: is_sbits_iff bits_of_int_def sv_of_int_fits)

lemma is_bits_of_int: "is_bits (bits_of_int n k) n (nat (k mod 2 ^ n))"
  by (simp add: bits_of_int_def take_bit_nat_eq_self_iff nat_less_iff take_bit_eq_mod)

lemma mod_take: "is_bits (mkBitmap n v) n (v mod 2 ^ n)"
  by (simp add: take_bit_eq_mod)

section \<open>Arithmetic\<close>

text \<open>C1. Addition, subtraction and negation of equally wide vectors are the ring operations
  modulo \<open>2 ^ n\<close>, on the machine-word path and on the \<^verbatim>\<open>BigInt\<close> path alike.\<close>

theorem add_sub_correct:
  assumes "bignum bn bv" "is_bits a n v" "is_bits b n w"
  shows "(\<exists>c. Add bn a b = Some c \<and> is_bits c n ((v + w) mod 2 ^ n)) \<and>
    (\<exists>c. Sub bn a b = Some c \<and> is_bits c n (nat ((int v - int w) mod 2 ^ n))) \<and>
    (\<exists>c. Negate bn a = Some c \<and> is_bits c n (nat ((- int v) mod 2 ^ n)))"
  using assms(2,3) mod_take[of n "v + w"] is_bits_of_int[of n "int v - int w"] is_bits_of_int[of n "- int v"]
  by (auto simp: is_bits_iff bignum.Add_mk[OF assms(1)] bignum.Sub_mk[OF assms(1)]
      bignum.Negate_mk[OF assms(1)] simp del: is_bits_mk)

theorem add_sub_correct_witness:
  "\<exists>c. Add int_bn (mkBitmap 70 (2 ^ 70 - 1)) (mkBitmap 70 5) = Some c \<and> is_bits c 70 4"
  using add_sub_correct[OF int_bn.bignum_axioms, of "mkBitmap 70 (2 ^ 70 - 1)" 70 "2 ^ 70 - 1" "mkBitmap 70 5" 5]
  by (simp add: take_bit_eq_mod)

text \<open>C22. The products are exact: the result has the sum of the widths and no bit is lost.\<close>

theorem mul_correct:
  assumes "bignum bn bv"
  shows "(is_bits a n v \<and> is_bits b m w \<longrightarrow> (\<exists>c. UMul bn a b = Some c \<and> is_bits c (n + m) (v * w))) \<and>
    (is_sbits a n j \<and> is_sbits b m k \<longrightarrow> (\<exists>c. SMul bn a b = Some c \<and> is_sbits c (n + m) (j * k)))"
proof (intro conjI impI)
  assume h: "is_bits a n v \<and> is_bits b m w"
  then have "v * w < 2 ^ (n + m)" by (auto simp: is_bits_iff power_add mult_strict_mono)
  then show "\<exists>c. UMul bn a b = Some c \<and> is_bits c (n + m) (v * w)"
    using h by (auto simp: is_bits_iff bignum.UMul_mk[OF assms] take_bit_nat_eq_self)
next
  assume h: "is_sbits a n j \<and> is_sbits b m k"
  then obtain v w where "a = mkBitmap n v" "sv n v = j" "b = mkBitmap m w" "sv m w = k"
    by (meson is_sbitsE)
  moreover have "fits_signed (n + m) (j * k)" using h by (auto simp: is_sbits_iff intro: fits_signed_mult)
  ultimately show "\<exists>c. SMul bn a b = Some c \<and> is_sbits c (n + m) (j * k)"
    by (auto simp: bignum.SMul_mk[OF assms] is_sbits_iff)
qed

theorem mul_correct_witness:
  "\<exists>c. UMul int_bn (mkBitmap 40 (2 ^ 40 - 1)) (mkBitmap 40 3) = Some c \<and> is_bits c 80 (3 * (2 ^ 40 - 1))"
  using mul_correct[OF int_bn.bignum_axioms, of "mkBitmap 40 (2 ^ 40 - 1)" 40 "2 ^ 40 - 1" "mkBitmap 40 3" 40 3]
  by (simp add: take_bit_eq_mod)

text \<open>C23. Unsigned division and remainder, with the results the IR defines for a zero divisor:
  all ones for the quotient, zero for the remainder.\<close>

theorem udiv_correct:
  assumes "bignum bn bv" "is_bits a n v" "is_bits b m w"
  shows "(\<exists>c. UDiv bn a b = Some c \<and> is_bits c n (if w = 0 then 2 ^ n - 1 else v div w)) \<and>
    (\<exists>c. UMod bn a b = Some c \<and> is_bits c m (if w = 0 then 0 else v mod w))"
proof -
  have vw: "v < 2 ^ n" "w < 2 ^ m" using assms(2,3) by (auto simp: is_bits_iff)
  have "v div w < 2 ^ n" using vw(1) by (meson div_le_dividend le_less_trans)
  moreover have "v mod w < 2 ^ m" if "w \<noteq> 0" using that vw(2) by (meson less_trans mod_less_divisor neq0_conv)
  ultimately show ?thesis using assms(2,3) vw
    by (auto simp: is_bits_iff bignum.UDiv_mk[OF assms(1)] bignum.UMod_mk[OF assms(1)]
        take_bit_nat_eq_self mask_eq_exp_minus_1)
qed

theorem udiv_correct_witness:
  "\<exists>c. UDiv int_bn (mkBitmap 70 1000) (mkBitmap 8 7) = Some c \<and> is_bits c 70 142"
  using udiv_correct[OF int_bn.bignum_axioms, of "mkBitmap 70 1000" 70 1000 "mkBitmap 8 7" 8 7]
  by (simp add: take_bit_eq_mod)

text \<open>C24. Signed division truncates towards zero and the remainder takes the sign of the dividend;
  the only quotient that does not fit wraps around, and a zero divisor gives the largest or the
  smallest value by the sign of the dividend.\<close>

theorem sdiv_correct:
  assumes "bignum bn bv" "is_sbits a n j" "is_sbits b m k"
  shows "(\<exists>c. SDiv bn a b = Some c \<and>
      c = (if k = 0 then if j < 0 then bits_of_int n (- (2 ^ (n - 1))) else bits_of_int n (2 ^ (n - 1) - 1)
           else bits_of_int n (j sdiv k))) \<and>
    (\<exists>c. SMod bn a b = Some c \<and> is_sbits c m (if k = 0 then 0 else j smod k))"
proof -
  obtain v w where a: "a = mkBitmap n v" "sv n v = j" and b: "b = mkBitmap m w" "sv m w = k"
    using assms(2,3) by (meson is_sbitsE)
  have jn: "0 < n" if "j < 0" using assms(2) that by (auto simp: is_sbits_iff fits_signed_def split: if_splits)
  have low: "bits_of_int n (- (2 ^ (n - 1))) = mkBitmap n (2 ^ (n - 1))" if "0 < n"
  proof -
    have "- (2 ^ (n - 1)) = (2 ^ (n - 1) - 2 ^ n :: int)" using that by (cases n) simp_all
    then have "bits_of_int n (- (2 ^ (n - 1))) = bits_of_int n (2 ^ (n - 1))"
      using bits_of_int_diff_exp[of n n "2 ^ (n - 1)"] by (simp only: order_refl)
    then show ?thesis using bits_of_int_nat[of n "2 ^ (n - 1)"] by simp
  qed
  have high: "bits_of_int n (2 ^ (n - 1) - 1) = mkBitmap n (mask (n - 1))"
    using bits_of_int_nat[of n "mask (n - 1)"] by (simp add: mask_eq_exp_minus_1 of_nat_diff)
  have fits: "fits_signed m (j smod k)" if "k \<noteq> 0"
  proof -
    have "\<bar>j smod k\<bar> < \<bar>k\<bar>" using that by (simp add: signed_modulo_int_def abs_mult abs_sgn_eq)
    then show ?thesis using assms(3) that by (auto simp: is_sbits_iff fits_signed_def split: if_splits)
  qed
  have "is_sbits (mkBitmap m 0) m 0" by (simp add: is_sbits_def sv_def)
  then show ?thesis using a b jn low high fits
    by (auto simp: bignum.SDiv_mk[OF assms(1)] bignum.SMod_mk[OF assms(1)] is_sbits_iff)
qed

theorem sdiv_correct_witness:
  "\<exists>c. SMod int_bn (bits_of_int 70 (- 7)) (bits_of_int 8 2) = Some c \<and> is_sbits c 8 (- 1)"
  using sdiv_correct[OF int_bn.bignum_axioms, of "bits_of_int 70 (- 7)" 70 "- 7" "bits_of_int 8 2" 8 2]
  by (simp add: is_sbits_iff fits_signed_def signed_modulo_int_def)


text \<open>\<^verbatim>\<open>Increment\<close> and \<^verbatim>\<open>Decrement\<close>, which walk the words with an early exit, add and
  subtract one modulo \<open>2 ^ n\<close>.\<close>

theorem increment_correct:
  assumes "is_bits a n v"
  shows "(\<exists>c. Increment a = Some c \<and> is_bits c n ((v + 1) mod 2 ^ n)) \<and>
    (\<exists>c. Decrement a = Some c \<and> is_bits c n (nat ((int v - 1) mod 2 ^ n)))"
  using assms mod_take[of n "v + 1"] is_bits_of_int[of n "int v - 1"]
  by (auto simp: is_bits_iff Increment_mk Decrement_mk simp del: is_bits_mk)

section \<open>Comparisons\<close>

text \<open>The unsigned comparisons are those of the numbers, also between vectors of different
  widths, and \<^verbatim>\<open>UAtLeastPredecessor\<close> decides \<open>v >= w - 1\<close> without overflow.\<close>

theorem unsigned_compare_correct:
  assumes "is_bits a n v" "is_bits b m w"
  shows "bits_UCmp a b = Some (sgn (int v - int w)) \<and> UEqual a b = Some (v = w) \<and>
    ULessThan a b = Some (v < w) \<and> ULessThanOrEqual a b = Some (v \<le> w) \<and>
    UGreaterThan a b = Some (v > w) \<and> UGreaterThanOrEqual a b = Some (v \<ge> w) \<and>
    (n = m \<longrightarrow> UAtLeastPredecessor a b = Some (int v \<ge> int w - 1))"
  using assms by (auto simp: is_bits_iff UCmp_ops_mk UAtLeastPredecessor_mk take_bit_nat_eq_self)

text \<open>The signed comparisons are those of the two's complement values, between vectors of
  any widths and against an \<^verbatim>\<open>int64_t\<close>.\<close>

theorem signed_compare_correct:
  assumes "bignum bn bv" "is_sbits a n j" "is_sbits b m k"
  shows "SEqual bn a b = Some (j = k) \<and> SLessThan bn a b = Some (j < k) \<and>
    SLessThanOrEqual bn a b = Some (j \<le> k) \<and> SGreaterThan bn a b = Some (j > k) \<and>
    SGreaterThanOrEqual bn a b = Some (j \<ge> k) \<and>
    SLessThan_int64 a r = Some (j < sint r) \<and> SEqual_int64 a r = Some (j = sint r) \<and>
    SGreaterThan_int64 a r = Some (j > sint r)"
proof -
  obtain v w where "a = mkBitmap n v" "sv n v = j" "b = mkBitmap m w" "sv m w = k"
    using assms(2,3) by (meson is_sbitsE)
  then show ?thesis by (simp add: bignum.SCmp_mk[OF assms(1)] S_int64_mk)
qed

section \<open>Bits, slices, shifts\<close>

text \<open>The bitwise operations act on every bit, whichever path computes them.\<close>

theorem bitwise_correct:
  assumes "is_bits a n v" "is_bits b n w"
  shows "(\<exists>c. And a b = Some c \<and> is_bits c n (v AND w)) \<and>
    (\<exists>c. Or a b = Some c \<and> is_bits c n (v OR w)) \<and>
    (\<exists>c. Xor a b = Some c \<and> is_bits c n (v XOR w)) \<and>
    (\<exists>c. Not a = Some c \<and> is_bits c n (2 ^ n - 1 - v)) \<and>
    (\<exists>c. Nand a b = Some c \<and> is_bits c n (2 ^ n - 1 - (v AND w))) \<and>
    (\<exists>c. Nor a b = Some c \<and> is_bits c n (2 ^ n - 1 - (v OR w)))"
proof -
  have t: "take_bit n v = v" "take_bit n w = w" and ab: "a = mkBitmap n v" "b = mkBitmap n w"
    using assms is_bitsD by blast+
  have nn: "take_bit n (nat_not n x) = 2 ^ n - 1 - take_bit n x" for x
  proof -
    have "int (nat_not n x) = 2 ^ n - 1 - int (take_bit n x)" using nat_of_bits_not by (simp add: nat_not_def)
    then have "int (nat_not n x + take_bit n x + 1) = int (2 ^ n)" by simp
    then have "nat_not n x + take_bit n x + 1 = 2 ^ n" by (simp only: of_nat_eq_iff)
    then have "nat_not n x = 2 ^ n - 1 - take_bit n x" by linarith
    moreover have "take_bit n (nat_not n x) = nat_not n x" by (simp add: nat_not_def)
    ultimately show ?thesis by simp
  qed
  show ?thesis
    by (simp add: ab And_mk Or_mk Xor_mk Not_mk Nand_mk Nor_mk nn t)
qed

lemma fits_signed_drop_bit: "fits_signed n k \<Longrightarrow> fits_signed n (drop_bit s k)"
proof (cases n)
  case 0
  then show "fits_signed n k \<Longrightarrow> fits_signed n (drop_bit s k)" by (simp add: fits_signed_def)
next
  case (Suc m)
  then show "fits_signed n k \<Longrightarrow> fits_signed n (drop_bit s k)"
    by (auto simp: fits_signed_iff_bits bit_drop_bit_eq)
qed

text \<open>The shifts by any amount: multiplication by a power of two modulo \<open>2 ^ n\<close>, and
  division by one, rounding down, for unsigned and for signed values.\<close>

theorem shift_correct:
  shows "(is_bits a n v \<longrightarrow> (\<exists>c. ShiftLeftLogical a s = Some c \<and> is_bits c n ((v * 2 ^ s) mod 2 ^ n)) \<and>
      (\<exists>c. ShiftRightLogical a s = Some c \<and> is_bits c n (v div 2 ^ s))) \<and>
    (is_sbits a n k \<longrightarrow> (\<exists>c. ShiftRightArith a s = Some c \<and> is_sbits c n (k div 2 ^ s)))"
proof (intro conjI impI)
  assume h: "is_bits a n v"
  show "\<exists>c. ShiftLeftLogical a s = Some c \<and> is_bits c n ((v * 2 ^ s) mod 2 ^ n)"
    using is_bitsD[OF h] by (simp add: ShiftLeftLogical_mk push_bit_eq_mult take_bit_eq_mod)
  have "v div 2 ^ s < 2 ^ n" using h by (meson div_le_dividend is_bits_iff le_less_trans)
  then show "\<exists>c. ShiftRightLogical a s = Some c \<and> is_bits c n (v div 2 ^ s)"
    using is_bitsD[OF h] by (simp add: ShiftRightLogical_mk drop_bit_eq_div take_bit_nat_eq_self)
next
  assume h: "is_sbits a n k"
  then obtain v where v: "a = mkBitmap n v" "sv n v = k" by (rule is_sbitsE)
  have "fits_signed n (k div 2 ^ s)"
    using fits_signed_drop_bit[of n k s] h by (simp add: is_sbits_iff drop_bit_eq_div)
  then show "\<exists>c. ShiftRightArith a s = Some c \<and> is_sbits c n (k div 2 ^ s)"
    using v by (simp add: ShiftRightArith_mk drop_bit_eq_div is_sbits_iff)
qed


text \<open>Slicing and concatenation are inverse: \<^verbatim>\<open>Concat\<close> puts its first argument in the most
  significant bits, \<^verbatim>\<open>Slice\<close> recovers each part, and the two slices of a vector at any position
  concatenate to the vector.\<close>

theorem slice_concat_roundtrip:
  assumes "is_bits a n v" "is_bits b m w" "s \<le> n"
  shows "(\<exists>c. Concat [a, b] = Some c \<and> is_bits c (n + m) (v * 2 ^ m + w) \<and>
            Slice c m n = Some a \<and> Slice c 0 m = Some b) \<and>
    (\<exists>hi lo. Slice a s (n - s) = Some hi \<and> Slice a 0 s = Some lo \<and> Concat [hi, lo] = Some a)"
proof -
  have a: "a = mkBitmap n v" "take_bit n v = v" and b: "b = mkBitmap m w" "take_bit m w = w"
    using assms is_bitsD by blast+
  have vw: "v < 2 ^ n" "w < 2 ^ m" using assms by (auto simp: is_bits_iff)
  have plus: "push_bit m v OR w = v * 2 ^ m + w"
  proof -
    have "push_bit m v + w = push_bit m v OR w"
      using vw(2) nat_lt_exp_iff_bits[of w m] by (intro disjunctive_add) (auto simp: bit_simps)
    then show ?thesis by (simp add: push_bit_eq_mult)
  qed
  have lt: "v * 2 ^ m + w < 2 ^ (n + m)"
  proof -
    have "v * 2 ^ m + w < (v + 1) * 2 ^ m" using vw(2) by simp
    also have "\<dots> \<le> 2 ^ n * 2 ^ m" using vw(1) by (intro mult_right_mono) auto
    finally show ?thesis by (simp add: power_add)
  qed
  have hi: "mkBitmap n (drop_bit m (push_bit m v OR w)) = mkBitmap n v"
    using vw(2) nat_lt_exp_iff_bits[of w m] by (intro mkBitmap_eqI[OF mk_repr]) (auto simp: bit_simps)
  have lo: "mkBitmap m (push_bit m v OR w) = mkBitmap m w"
    by (intro mkBitmap_eqI[OF mk_repr]) (auto simp: bit_simps)
  have joined: "mkBitmap n (push_bit s (drop_bit s v) OR take_bit s v) = mkBitmap n v"
    by (intro mkBitmap_eqI[OF mk_repr]) (auto simp: bit_simps)
  define u where "u = push_bit m v OR w"
  have c: "Concat [a, b] = Some (mkBitmap (n + m) u)" by (simp add: a b Concat2_mk u_def)
  have u: "is_bits (mkBitmap (n + m) u) (n + m) (v * 2 ^ m + w)"
    using lt by (simp add: u_def plus is_bits_iff)
  have "Slice (mkBitmap (n + m) u) m n = Some a" "Slice (mkBitmap (n + m) u) 0 m = Some b"
    using hi lo by (simp_all add: Slice_mk a b u_def)
  moreover have "Concat [mkBitmap (n - s) (drop_bit s v), mkBitmap s v] = Some a"
    using joined assms(3) by (simp add: Concat2_mk a)
  moreover have "Slice a s (n - s) = Some (mkBitmap (n - s) (drop_bit s v))" "Slice a 0 s = Some (mkBitmap s v)"
    using assms(3) by (simp_all add: Slice_mk a)
  ultimately show ?thesis using c u by blast
qed

text \<open>\<^verbatim>\<open>BitSliceUpdate\<close> replaces exactly the bits of the window that lie inside the vector.\<close>

theorem bit_slice_update_correct:
  assumes "is_bits a n v" "is_bits u m w"
  shows "\<exists>c r. BitSliceUpdate a s u = Some c \<and> is_bits c n r \<and>
    (\<forall>i<n. bit r i = (if s \<le> i \<and> i < s + m then bit w (i - s) else bit v i))"
  using assms by (auto simp: is_bits_iff BitSliceUpdate_mk nat_of_bits_less)

text \<open>\<^verbatim>\<open>Reverse\<close> is an involution that mirrors the bits.\<close>

theorem reverse_correct:
  assumes "is_bits a n v"
  shows "\<exists>c r. Reverse a = Some c \<and> is_bits c n r \<and> (\<forall>i<n. bit r i = bit v (n - 1 - i)) \<and> Reverse c = Some a"
proof -
  let ?r = "nat_of_bits n (\<lambda>i. bit v (n - 1 - i))"
  have "mkBitmap n (nat_of_bits n (\<lambda>i. bit ?r (n - 1 - i))) = mkBitmap n v"
    by (intro mkBitmap_eqI[OF mk_repr]) auto
  then show ?thesis using assms
    by (intro exI[of _ "mkBitmap n ?r"] exI[of _ ?r]) (auto simp: is_bits_iff Reverse_mk nat_of_bits_less)
qed

text \<open>The one-hot operations set one bit: the lowest or the highest bit that is set in the
  operand, or the extra bit when there is none.\<close>

theorem one_hot_correct:
  assumes "is_bits a n v"
  shows "(\<exists>c k. OneHotLsbToMsb a = Some c \<and> is_bits c (n + 1) (2 ^ k) \<and> k \<le> n \<and>
      (\<forall>i<k. \<not> bit v i) \<and> (k < n \<longrightarrow> bit v k)) \<and>
    (\<exists>c k. OneHotMsbToLsb a = Some c \<and> is_bits c (n + 1) (2 ^ k) \<and> k \<le> n \<and>
      (\<forall>i<n. k < i \<longrightarrow> \<not> bit v i) \<and> (if v = 0 then k = n else bit v k))"
proof (intro conjI)
  have a: "a = mkBitmap n v" "take_bit n v = v" using assms is_bitsD by blast+
  let ?k = "length (takeWhile (\<lambda>i. \<not> bit v i) [0..<n])"
  have k: "?k \<le> n" using length_takeWhile_le[of _ "[0..<n]"] by simp
  have "bit v ?k" if "?k < n"
    using nth_length_takeWhile[of "\<lambda>i. \<not> bit v i" "[0..<n]"] that by simp
  then show "\<exists>c k. OneHotLsbToMsb a = Some c \<and> is_bits c (n + 1) (2 ^ k) \<and> k \<le> n \<and>
      (\<forall>i<k. \<not> bit v i) \<and> (k < n \<longrightarrow> bit v k)"
    using k trailing_zero_bits[of _ v n] by (auto simp: a OneHotLsbToMsb_mk take_bit_nat_eq_self intro!: exI[of _ ?k])
  let ?m = "if v = 0 then n else nat_len v - 1"
  have "nat_len v \<le> n" using a(2) by (metis nat_len_le_iff take_bit_nat_less_exp)
  moreover have "\<not> bit v i" if "nat_len v \<le> i" for i using that nat_lt_exp_len[of v] nat_lt_exp_iff_bits by blast
  ultimately have "?m \<le> n" "\<forall>i<n. ?m < i \<longrightarrow> \<not> bit v i" "if v = 0 then ?m = n else bit v ?m"
    using bit_nat_len[of v] by auto
  then show "\<exists>c k. OneHotMsbToLsb a = Some c \<and> is_bits c (n + 1) (2 ^ k) \<and> k \<le> n \<and>
      (\<forall>i<n. k < i \<longrightarrow> \<not> bit v i) \<and> (if v = 0 then k = n else bit v k)"
    using a by (intro exI[of _ "mkBitmap (n + 1) (2 ^ ?m)"] exI[of _ ?m])
      (auto simp: OneHotMsbToLsb_mk take_bit_nat_eq_self)
qed

end
