(* ===== verification/Ternary_Theorems.thy ===== *)
theory Ternary_Theorems
  imports Ternary_Rules Bits_Theorems
begin

text \<open>
  The contract of the ternary vectors: \<open>tern_ok t v\<close> says that the number \<open>v\<close> is one of the
  values the vector \<open>t\<close> stands for. The operations of \<^verbatim>\<open>ternary.cc\<close> are the lattice operations
  of that reading, and the iterator enumerates exactly its values.
\<close>

section \<open>Conversions\<close>

text \<open>\<^verbatim>\<open>StringToTernaryVector\<close> parses what \<^verbatim>\<open>ToString\<close> prints, and a vector is recovered from its
  mask of known bits and their values; both conversions to bit vectors are defined for every vector.\<close>

theorem ternary_roundtrip:
  "StringToTernaryVector (Ternary_ToString t) = Inr t \<and>
   (\<exists>k v. ToKnownBits t = Some k \<and> ToKnownBitsValues t False = Some v \<and> FromKnownBits k v = Some t)"
proof -
  have "map (\<lambda>i. if t ! i \<noteq> kUnknown then if t ! i = kKnownOne then kKnownOne else kKnownZero else kUnknown)
      [0..<length t] = t"
    by (rule nth_equalityI) (auto, metis TernaryValue.exhaust)
  moreover have "map (\<lambda>i. if bit (nat_of_bits (length t) (\<lambda>i. t ! i \<noteq> kUnknown)) i
        then if bit (nat_of_bits (length t) (\<lambda>i. t ! i = kKnownOne)) i then kKnownOne else kKnownZero
        else kUnknown) [0..<length t] =
      map (\<lambda>i. if t ! i \<noteq> kUnknown then if t ! i = kKnownOne then kKnownOne else kKnownZero else kUnknown)
      [0..<length t]"
    by simp
  ultimately show ?thesis
    by (simp add: StringToTernaryVector_ToString ToKnownBits_mk ToKnownBitsValues_mk FromKnownBits_mk)
qed

section \<open>The lattice operations\<close>

text \<open>\<^verbatim>\<open>Union\<close> combines two pieces of knowledge about one value: its result stands for exactly the
  values that both vectors allow, and it is an error exactly when no value is left.\<close>

theorem union_correct:
  assumes "length l = length r"
  shows "(\<exists>u. ternary_Union l r = Some (Inr u) \<and> length u = length l \<and>
            (\<forall>v. tern_ok u v = (tern_ok l v \<and> tern_ok r v))) \<or>
         (ternary_Union l r = Some (Inl InvalidArgument) \<and> (\<nexists>v. tern_ok l v \<and> tern_ok r v))"
proof (cases "mapM (\<lambda>(x, y). union_elem x y) (zip l r)")
  case None
  then obtain x y where "(x, y) \<in> set (zip l r)" "union_elem x y = None"
    by (auto simp: mapM_None_iff)
  then obtain i where "i < length l" "union_elem (l ! i) (r ! i) = None"
    using assms by (auto simp: set_zip)
  then have "\<not> (tern_ok l v \<and> tern_ok r v)" for v
    using union_elem_None assms unfolding tern_ok_def by metis
  then show ?thesis using None assms by (simp add: ternary_Union_mapM)
next
  case (Some u)
  then have all: "list_all2 (\<lambda>(x, y) u. union_elem x y = Some u) (zip l r) u"
    by (simp add: mapM_Some_iff case_prod_unfold)
  note nth = zip_all2_nth[OF all assms]
  have "tern_ok u v = (tern_ok l v \<and> tern_ok r v)" for v
    using union_elem_Some[OF nth(2)] nth(1) assms by (auto simp: tern_ok_def)
  then show ?thesis using Some nth(1) assms by (simp add: ternary_Union_mapM)
qed

text \<open>\<^verbatim>\<open>Intersection\<close> joins two vectors: its result stands for the values of either, and it is
  the most precise vector that does.\<close>

theorem intersection_correct:
  assumes "length l = length r"
  shows "\<exists>u. Intersection l r = Some u \<and>
     (\<forall>v. tern_ok l v \<or> tern_ok r v \<longrightarrow> tern_ok u v) \<and>
     (\<forall>t. length t = length l \<and> (\<forall>v. tern_ok l v \<or> tern_ok r v \<longrightarrow> tern_ok t v) \<longrightarrow>
          (\<forall>v. tern_ok u v \<longrightarrow> tern_ok t v))"
proof -
  let ?u = "map2 (\<lambda>l r. if l \<noteq> r then kUnknown else l) l r"
  have nth: "?u ! i = (if l ! i \<noteq> r ! i then kUnknown else l ! i)" if "i < length l" for i
    using that assms by simp
  have up: "tern_ok ?u v" if "tern_ok l v \<or> tern_ok r v" for v
    using that assms by (auto simp: tern_ok_def)
  have least: "tern_ok t v"
    if t: "length t = length l" "\<And>v. tern_ok l v \<or> tern_ok r v \<Longrightarrow> tern_ok t v" and v: "tern_ok ?u v" for t v
    unfolding tern_ok_def
  proof (intro allI impI)
    fix i assume i: "i < length t"
    have "tern_bit (t ! i) (bit v i)" if e: "l ! i = r ! i"
    proof -
      have "tern_bit (l ! i) (bit v i)" using v i t(1) e nth[of i] assms by (auto simp: tern_ok_def)
      then have "bit (tern_value l v) i = bit v i"
        using i t(1) by (auto simp: tern_value_def tern_bit_def)
      moreover have "tern_ok t (tern_value l v)" using t(2) tern_ok_value by blast
      ultimately show ?thesis using i by (auto simp: tern_ok_def)
    qed
    moreover have "t ! i = kUnknown" if ne: "l ! i \<noteq> r ! i"
    proof -
      have val: "tern_bit (t ! i) (bit (tern_value l d) i)" "tern_bit (t ! i) (bit (tern_value r d) i)" for d
        using t(2) tern_ok_value i unfolding tern_ok_def by blast+
      have "bit (tern_value x d) i = (if x ! i = kUnknown then bit d i else x ! i = kKnownOne)"
        if "length x = length l" for x d using that i t(1) by (simp add: tern_value_def)
      note b = this[OF refl] this[OF assms[symmetric]]
      show ?thesis
        using ne val[of 0] val[of "2 ^ i"] b[of 0] b[of "2 ^ i"]
        by (cases "l ! i"; cases "r ! i"; cases "t ! i") (auto simp: bit_exp_iff)
    qed
    ultimately show "tern_bit (t ! i) (bit v i)" by (cases "l ! i = r ! i") auto
  qed
  show ?thesis
    using Intersection_nth[OF assms] up least by (intro exI[of _ ?u]) blast
qed

section \<open>The iterator\<close>

text \<open>
  A range-for loop over \<^verbatim>\<open>AllBitsValues(span)\<close>: it collects the values from \<open>it\<close> to the end
  iterator. The fuel bounds the number of steps; running out of it is \<open>None\<close>, as is an abort
  of an operation.
\<close>

fun range_for :: "nat \<Rightarrow> RealizedTernaryIterator \<Rightarrow> bits list option" where
  "range_for 0 it = None"
| "range_for (Suc fuel) it = do {
     at_end \<leftarrow> ternary_iterator_eq it ternary_end;
     if at_end then Some []
     else do {
       x \<leftarrow> ternary_deref it;
       it \<leftarrow> Advance it 1;
       xs \<leftarrow> range_for fuel it;
       Some (x # xs) } }"

lemma range_for_step:
  "range_for (Suc f) (at_rank t r) = do {
     it \<leftarrow> Advance (at_rank t r) 1;
     xs \<leftarrow> range_for f it;
     Some (mkBitmap (length t) (deposit t r) # xs) }"
  by (simp add: ternary_iterator_eq_def ternary_end_def at_rank_def ternary_deref_def)

lemma range_for_end: "ti_finished it \<Longrightarrow> range_for (Suc k) it = Some []"
  by (simp add: ternary_iterator_eq_def ternary_end_def)

lemma range_for_from:
  assumes "r + d = 2 ^ unknowns t" "d < fuel" "0 < d"
  shows "range_for fuel (at_rank t r) = Some (map (\<lambda>r. mkBitmap (length t) (deposit t r)) [r..<2 ^ unknowns t])"
  using assms
proof (induction d arbitrary: r fuel)
  case (Suc d)
  then obtain f where f: "fuel = Suc f" "d < f" by (cases fuel) auto
  have upt: "[r..<2 ^ unknowns t] = r # [r + 1..<2 ^ unknowns t]" using Suc.prems(1) by (simp add: upt_rec[of r])
  show ?case
  proof (cases "d = 0")
    case True
    then have last: "r + 1 = 2 ^ unknowns t" using Suc.prems(1) by simp
    then obtain it where "Advance (at_rank t r) 1 = Some it" "ti_finished it" using Advance_1_end by blast
    moreover obtain k where "f = Suc k" using f(2) by (cases f) auto
    ultimately show ?thesis using range_for_end[of it k] last f(1) upt by (simp add: range_for_step del: range_for.simps)
  next
    case False
    have "Advance (at_rank t r) 1 = Some (at_rank t (r + 1))"
      using Advance_mk[of r 1 t] Suc.prems(1) False by simp
    moreover have "range_for f (at_rank t (r + 1)) =
        Some (map (\<lambda>r. mkBitmap (length t) (deposit t r)) [r + 1..<2 ^ unknowns t])"
      using Suc.prems(1) f(2) False by (intro Suc.IH) auto
    ultimately show ?thesis using f(1) upt by (simp add: range_for_step del: range_for.simps)
  qed
qed simp

lemma ternary_values: "deposit t ` {..<2 ^ unknowns t} = {v. v < 2 ^ length t \<and> tern_ok t v}"
proof (intro equalityI subsetI)
  fix v assume "v \<in> {v. v < 2 ^ length t \<and> tern_ok t v}"
  then have "v = deposit t (extract_bits t v)" by (simp add: deposit_extract_bits take_bit_nat_eq_self)
  then show "v \<in> deposit t ` {..<2 ^ unknowns t}" using extract_bits_less[of t v] by blast
qed (auto simp: tern_ok_deposit deposit_less)

text \<open>C25. Iterating over \<^verbatim>\<open>AllBitsValues\<close> ends, after as many steps as the vector has values, and visits
  exactly the values the vector stands for, each once, from the smallest to the largest.\<close>

theorem all_bits_values_correct:
  "\<exists>it vs. ternary_begin t = Some it \<and>
    range_for (2 ^ unknowns t + 1) it = Some (map (mkBitmap (length t)) vs) \<and>
    sorted_wrt (<) vs \<and> set vs = {v. v < 2 ^ length t \<and> tern_ok t v}"
proof -
  let ?vs = "map (deposit t) [0..<2 ^ unknowns t]"
  have "range_for (2 ^ unknowns t + 1) (at_rank t 0) = Some (map (mkBitmap (length t)) ?vs)"
    using range_for_from[of 0 "2 ^ unknowns t" t "2 ^ unknowns t + 1"] by (simp add: comp_def)
  moreover have "sorted_wrt (<) ?vs"
    by (simp add: sorted_wrt_map sorted_wrt_iff_nth_less deposit_mono)
  moreover have "set ?vs = {v. v < 2 ^ length t \<and> tern_ok t v}"
    using ternary_values[of t] by (simp add: lessThan_atLeast0)
  moreover have "ternary_begin t = Some (at_rank t 0)" by (simp add: ternary_begin_mk at_rank_def)
  ultimately show ?thesis by blast
qed

text \<open>Advancing the iterator by any amount that stays inside the range, given as an \<^verbatim>\<open>int64_t\<close> or
  as a bit vector of any width, is that many single steps: it reaches the value of that rank.\<close>

theorem advance_correct:
  assumes "r + unat a < 2 ^ unknowns t" "sint a \<ge> 0"
  shows "Advance (at_rank t r) a = Some (at_rank t (r + unat a)) \<and>
    Advance_bits (at_rank t r) (mkBitmap m (take_bit m (unat a))) = Some (at_rank t (r + take_bit m (unat a)))"
  using Advance_mk[OF assms] Advance_bits_mk[of r m "take_bit m (unat a)" t] assms(1)
  by (simp add: le_less_trans[OF add_left_mono[OF take_bit_nat_less_eq_self]])

end
