(* ===== verification/Bits_Contracts.thy ===== *)
theory Bits_Contracts
  imports Bits_Theorems
begin

text \<open>
  The contracts of the storage and conversion layers, in terms of the abstraction relations
  \<open>is_bits\<close> and \<open>is_sbits\<close>: copying between bitmaps, machine integers, byte strings, the push
  buffer, big integers, and the searches for runs and common prefixes.
\<close>

section \<open>Storage\<close>

text \<open>\<^verbatim>\<open>InlineBitmap::Overwrite\<close> copies exactly the requested window, at any two alignments, and
  keeps every other bit; it aborts exactly when a non-empty window leaves one of the bitmaps.\<close>

theorem overwrite_correct:
  assumes "is_bits a n v" "is_bits b m u"
  shows "(w + c \<le> n \<and> r + c \<le> m \<longrightarrow> (\<exists>x y. Overwrite a b c w r = Some x \<and> is_bits x n y \<and>
      (\<forall>i<n. bit y i = (if w \<le> i \<and> i < w + c then bit u (i - w + r) else bit v i)))) \<and>
    (c > 0 \<and> (n < w + c \<or> m < r + c) \<longrightarrow> Overwrite a b c w r = None)"
proof (intro conjI impI)
  assume le: "w + c \<le> n \<and> r + c \<le> m"
  let ?y = "take_bit w v OR push_bit w (take_bit c (drop_bit r u)) OR push_bit (w + c) (drop_bit (w + c) v)"
  have "Overwrite a b c w r = Some (mkBitmap n ?y)"
    using le is_bitsD(1)[OF assms(1)] is_bitsD(1)[OF assms(2)] by (simp add: Overwrite_mk)
  moreover have "\<forall>i<n. bit (take_bit n ?y) i = (if w \<le> i \<and> i < w + c then bit u (i - w + r) else bit v i)"
    by (auto simp: bit_simps add.commute)
  ultimately show "\<exists>x y. Overwrite a b c w r = Some x \<and> is_bits x n y \<and>
      (\<forall>i<n. bit y i = (if w \<le> i \<and> i < w + c then bit u (i - w + r) else bit v i))"
    using is_bits_mk by blast
next
  assume "c > 0 \<and> (n < w + c \<or> m < r + c)"
  then show "Overwrite a b c w r = None" using assms by (auto simp: is_bits_def Overwrite_def CHECK_def)
qed

text \<open>A bit vector survives the conversion to bytes and back, whatever its width, and the bytes
  are in little-endian order: byte \<open>j\<close> holds the bits from \<open>8 * j\<close> on.\<close>

theorem bytes_roundtrip:
  assumes "is_bits a n v"
  shows "FromBytes (ToBytes a) n = Some a \<and> length (ToBytes a) = (n + 7) div 8 \<and>
    (\<forall>j<(n + 7) div 8. unat (ToBytes a ! j) = (v div 2 ^ (8 * j)) mod 256)"
proof -
  have a: "a = mkBitmap n v" "take_bit n v = v" using assms is_bitsD by blast+
  have "mkBitmap n (take_bit n v) = mkBitmap n v" by (simp add: a(2))
  moreover have "ToBytes a = map (\<lambda>j. word_of_nat (drop_bit (8 * j) v)) [0..<nbytes n]"
    using WriteBytesToBuffer_mk[of n v] by (simp add: ToBytes_def a(1)) (simp add: a(2))
  ultimately show ?thesis using bytes_val_write[of n v] a
    by (simp add: FromBytes_def InlineBitmap_FromBytes_mk unat_of_nat drop_bit_eq_div)
qed

text \<open>Flattening a vector into an empty push buffer and rebuilding the bitmap gives the vector back.\<close>

theorem push_buffer_roundtrip:
  assumes "is_bits a n v"
  shows "\<exists>buf. FlattenTo a [] = Some buf \<and> length buf = n \<and> ToBitmap buf = Some a \<and>
    (\<forall>i<n. buf ! i = bit v (n - 1 - i))"
  using is_bitsD(1)[OF assms] ToBitmap_Flatten[of v n] by (simp add: FlattenTo_mk rev_nth)

section \<open>Machine integers\<close>

text \<open>\<^verbatim>\<open>UBits\<close> and \<^verbatim>\<open>SBits\<close> succeed exactly for the values the width can hold, read back by
  \<^verbatim>\<open>ToUint64\<close> and \<^verbatim>\<open>ToInt64\<close>; for any vector these return the value exactly when 64 bits can
  hold it and an error otherwise.\<close>

theorem int64_conversions:
  "(if unat x < 2 ^ n then \<exists>b. UBits x n = Some b \<and> is_bits b n (unat x) \<and> ToUint64 b = Some (Inr x)
    else UBits x n = None) \<and>
   (if fits_signed n (sint x) then \<exists>b. SBits x n = Some b \<and> is_sbits b n (sint x) \<and> ToInt64 b = Some (Inr x)
    else SBits x n = None) \<and>
   ToUint64 (mkBitmap m v) =
     Some (if v mod 2 ^ m < 2 ^ 64 then Inr (word_of_nat (v mod 2 ^ m)) else Inl InvalidArgument) \<and>
   ToInt64 (mkBitmap m v) =
     Some (if fits_signed 64 (sv m v) then Inr (word_of_int (sv m v)) else Inl InvalidArgument)"
proof (intro conjI)
  have x: "unat x < 2 ^ 64" using unsigned_less[of x] by simp
  show "if unat x < 2 ^ n then \<exists>b. UBits x n = Some b \<and> is_bits b n (unat x) \<and> ToUint64 b = Some (Inr x)
    else UBits x n = None"
    using x by (simp add: UBits_mk UBits_None ToUint64_mk take_bit_nat_eq_self)
  have "fits_signed 64 (sint x)" using sint_less[of x] sint_ge[of x] by (simp add: fits_signed_def)
  then show "if fits_signed n (sint x) then \<exists>b. SBits x n = Some b \<and> is_sbits b n (sint x) \<and> ToInt64 b = Some (Inr x)
    else SBits x n = None"
    by (auto simp: SBits_mk SBits_None is_sbits_iff bits_of_int_def ToInt64_mk sv_of_int_fits)
  show "ToUint64 (mkBitmap m v) =
     Some (if v mod 2 ^ m < 2 ^ 64 then Inr (word_of_nat (v mod 2 ^ m)) else Inl InvalidArgument)"
    by (simp add: ToUint64_mk take_bit_eq_mod)
  show "ToInt64 (mkBitmap m v) =
     Some (if fits_signed 64 (sv m v) then Inr (word_of_int (sv m v)) else Inl InvalidArgument)"
    by (simp add: ToInt64_mk)
qed

section \<open>Big integers\<close>

text \<open>A bit vector of any width denotes its unsigned or its two's complement value as a big
  integer, and converting back at that width returns it; converting without a width gives the
  narrowest vector that holds the value.\<close>

theorem bigint_roundtrip:
  assumes "bignum bn bv" "is_bits a n v" "is_sbits b m k"
  shows "(\<exists>x. MakeUnsigned bn a = Some x \<and> bv x = int v \<and>
      ToUnsignedBitsWithBitCount bn x n = Some (Inr a) \<and>
      (\<exists>c. ToUnsignedBits bn x = Some c \<and> (\<forall>w. (v < 2 ^ w) = (ib_bit_count c \<le> w)))) \<and>
    (\<exists>y. MakeSigned bn b = Some y \<and> bv y = k \<and>
      ToSignedBitsWithBitCount bn y m = Some (Inr b) \<and>
      (\<exists>c. ToSignedBits bn y = Some c \<and> is_sbits c (ib_bit_count c) k \<and>
        (\<forall>w. fits_signed w k = (ib_bit_count c \<le> w))))"
proof (intro conjI)
  have a: "a = mkBitmap n v" "take_bit n v = v" using assms(2) is_bitsD by blast+
  obtain x where x: "MakeUnsigned bn a = Some x" "bv x = int v"
    using bignum.MakeUnsigned_val[OF assms(1), of n v] a by auto
  have "int v < 2 ^ n" using assms(2) by (simp add: is_bits_iff)
  then show "\<exists>x. MakeUnsigned bn a = Some x \<and> bv x = int v \<and>
      ToUnsignedBitsWithBitCount bn x n = Some (Inr a) \<and>
      (\<exists>c. ToUnsignedBits bn x = Some c \<and> (\<forall>w. (v < 2 ^ w) = (ib_bit_count c \<le> w)))"
    using x a by (simp add: bignum.ToUnsignedBitsWithBitCount_val[OF assms(1)]
        bignum.ToUnsignedBits_val[OF assms(1)] nat_len_le_iff)
  obtain u where u: "b = mkBitmap m u" "sv m u = k" using assms(3) by (rule is_sbitsE)
  obtain y where y: "MakeSigned bn b = Some y" "bv y = k"
    using bignum.MakeSigned_val[OF assms(1), of m u] u by auto
  have "fits_signed m k" "b = bits_of_int m k" using assms(3) by (auto simp: is_sbits_iff)
  then show "\<exists>y. MakeSigned bn b = Some y \<and> bv y = k \<and>
      ToSignedBitsWithBitCount bn y m = Some (Inr b) \<and>
      (\<exists>c. ToSignedBits bn y = Some c \<and> is_sbits c (ib_bit_count c) k \<and>
        (\<forall>w. fits_signed w k = (ib_bit_count c \<le> w)))"
    using y signed_len_le_iff[of k "signed_len k"]
    by (simp add: bignum.ToSignedBitsWithBitCount_val[OF assms(1)] bignum.ToSignedBits_val[OF assms(1)]
        signed_len_le_iff is_sbits_iff bits_of_int_def)
qed

text \<open>\<^verbatim>\<open>BigInt::FactorizePowerOfTwo\<close> returns for every value, and the pair it returns is the
  factorization into an odd number and a power of two, with zero as the one exception.\<close>

theorem bigint_factorize_correct:
  assumes "bignum bn bv"
  shows "\<exists>y p. BigInt_FactorizePowerOfTwo bn x = Some (y, p) \<and> bv x = bv y * 2 ^ p \<and> (odd (bv y) \<or> bv y = 0)"
proof -
  obtain two where two: "BigInt_Exp2 bn 1 = Some two" "bv two = 2"
    using bignum.Exp2_val[OF assms, of 1] by auto
  have "bv (BigInt_Zero bn) = 0" by (simp add: BigInt_Zero_def bignum.init_val[OF assms])
  from bignum.FactorizePowerOfTwo_loop_val[OF assms this two(2), of x 0] two(1)
  show ?thesis by (simp add: BigInt_FactorizePowerOfTwo_def)
qed

section \<open>Runs and prefixes\<close>

text \<open>\<^verbatim>\<open>HasSingleRunOfSetBits\<close> holds exactly when the set bits are consecutive and there is one, and
  then the three counts describe the run.\<close>

theorem single_run_correct:
  assumes "is_bits a n v"
  shows "(\<exists>r. HasSingleRunOfSetBits a = Some r) \<and>
    (HasSingleRunOfSetBits a = Some (Some (leading, run, trailing)) \<longleftrightarrow>
      leading + run + trailing = n \<and> run > 0 \<and> v = (2 ^ run - 1) * 2 ^ trailing)"
proof -
  have a: "a = mkBitmap n v" "take_bit n v = v" using assms is_bitsD by blast+
  let ?t = "length (takeWhile (\<lambda>i. \<not> bit v i) [0..<n])" and ?l = "nat_len v"
  have res: "HasSingleRunOfSetBits a =
      Some (if v \<noteq> 0 \<and> v = push_bit ?t (mask (?l - ?t)) then Some (n - ?l, ?l - ?t, ?t) else None)"
    using HasSingleRunOfSetBits_mk[of n v] a by simp
  have ln: "?l \<le> n" using a(2) by (metis nat_len_le_iff take_bit_nat_less_exp)
  have v_run: "v = (2 ^ r - 1) * 2 ^ t \<longleftrightarrow> v = push_bit t (mask r)" for r t
    by (simp add: push_bit_eq_mult mask_eq_exp_minus_1)
  have bwd: "?t = trailing \<and> ?l = run + trailing \<and> v \<noteq> 0"
    if v: "v = push_bit trailing (mask run)" "run > 0" "leading + run + trailing = n"
  proof -
    have b: "bit v i = (trailing \<le> i \<and> i < run + trailing)" for i
      using v(1) by (auto simp: bit_simps)
    have "[0..<n] = [0..<trailing] @ [trailing..<n]" using v(3) upt_add_eq_append[of 0 trailing "leading + run"]
      by (simp add: ac_simps)
    moreover have "[trailing..<n] = trailing # [Suc trailing..<n]" using v(2,3) by (simp add: upt_rec)
    ultimately have t: "?t = trailing" using v(2) by (simp add: b takeWhile_append)
    have "?l \<le> run + trailing" "\<not> ?l \<le> run + trailing - 1"
      using v(2) b[of "run + trailing - 1"] by (auto simp: nat_len_le_iff nat_lt_exp_iff_bits b)
    moreover have "bit v trailing" using b[of trailing] v(2) by simp
    ultimately show ?thesis using t by (cases "v = 0") auto
  qed
  have fwd: "?t + (?l - ?t) = ?l \<and> 0 < ?l - ?t" if "v \<noteq> 0" "v = push_bit ?t (mask (?l - ?t))"
    using that by (metis add_diff_inverse_nat diff_is_0_eq' mask_0 nat_less_le not_gr_zero push_bit_of_0
        not_less zero_less_diff le_add_diff_inverse linorder_not_le)
  show ?thesis unfolding res v_run using bwd fwd ln by auto
qed

lemma bit_differing: "bit (differing n vs) i = (i < n \<and> (\<exists>w\<in>set (tl vs). bit w i \<noteq> bit (hd vs) i))"
proof -
  have "bit (fold (\<lambda>w d. d OR (x XOR w)) ws e) i = (bit e i \<or> (\<exists>w\<in>set ws. bit w i \<noteq> bit x i))" for ws e and x :: nat
    by (induction ws arbitrary: e) (auto simp: bit_simps)
  then show ?thesis by (simp add: differing_def bit_take_bit_iff)
qed

text \<open>\<^verbatim>\<open>LongestCommonPrefixMSB\<close> returns the most significant bits that all its arguments share, and as
  many of them as they share.\<close>

theorem longest_common_prefix_correct:
  assumes "vs \<noteq> []"
  shows "\<exists>k\<le>n. LongestCommonPrefixMSB (map (mkBitmap n) vs) = Some (mkBitmap k (drop_bit (n - k) (hd vs))) \<and>
    (\<forall>v\<in>set vs. \<forall>i<n. n - k \<le> i \<longrightarrow> bit v i = bit (hd vs) i) \<and>
    (k < n \<longrightarrow> (\<exists>v\<in>set vs. bit v (n - k - 1) \<noteq> bit (hd vs) (n - k - 1)))"
proof -
  let ?l = "nat_len (differing n vs)"
  have le: "?l \<le> n" by (simp add: nat_len_le_iff differing_def)
  obtain v ws where vs: "vs = v # ws" using assms by (cases vs) auto
  have above: "\<not> bit (differing n vs) i" if "?l \<le> i" for i
    using that nat_lt_exp_len[of "differing n vs"] nat_lt_exp_iff_bits by blast
  have same: "\<forall>u\<in>set vs. \<forall>i<n. ?l \<le> i \<longrightarrow> bit u i = bit (hd vs) i"
    using above by (auto simp: bit_differing vs)
  have differ: "\<exists>u\<in>set vs. bit u (?l - 1) \<noteq> bit (hd vs) (?l - 1)" if "0 < ?l"
  proof -
    have "differing n vs \<noteq> 0" using that nat_len_eq_0_iff[of "differing n vs"] by linarith
    then have "bit (differing n vs) (?l - 1)" by (rule bit_nat_len)
    then show ?thesis by (auto simp: bit_differing vs)
  qed
  show ?thesis
    using same differ le by (intro exI[of _ "n - ?l"]) (auto simp: LongestCommonPrefixMSB_mk[OF assms])
qed

end
