(* ===== verification/Abstract_Evaluator.thy ===== *)
theory Abstract_Evaluator
  imports Ternary_Ops
begin

text \<open>
  \<^verbatim>\<open>xls/ir/abstract_evaluator.h\<close>: the operations of the IR computed bit by bit over any type of
  bits. The derived class is a record: the elements \<open>One\<close> and \<open>Zero\<close>, the operations \<open>Not\<close>, \<open>And\<close>,
  \<open>Or\<close> and \<open>If\<close>, the equality of elements, and the option \<open>kIsITEFundamental\<close> that chooses
  between two implementations of the selects and the reductions. A vector has its least
  significant bit first. An access past the end of a span, undefined in C++, is \<open>None\<close>.
\<close>

record 'e evaluator =
  ev_One :: 'e
  ev_Zero :: 'e
  ev_Not :: "'e \<Rightarrow> 'e"
  ev_And :: "'e \<Rightarrow> 'e \<Rightarrow> 'e"
  ev_Or :: "'e \<Rightarrow> 'e \<Rightarrow> 'e"
  ev_If :: "'e \<Rightarrow> 'e \<Rightarrow> 'e \<Rightarrow> 'e"
  ev_eq :: "'e \<Rightarrow> 'e \<Rightarrow> bool"
  kIsITEFundamental :: bool

definition span_back :: "'a list \<Rightarrow> 'a option" where
  "span_back xs = (if xs = [] then None else Some (last xs))"

section \<open>Single bits\<close>

definition ae_IfBits :: "'e evaluator \<Rightarrow> 'e \<Rightarrow> 'e list \<Rightarrow> 'e list \<Rightarrow> 'e list option" where
  "ae_IfBits ev sel consequent alternate = do {
     CHECK (length consequent = length alternate);
     Some (map2 (ev_If ev sel) consequent alternate) }"

definition ae_Xor :: "'e evaluator \<Rightarrow> 'e \<Rightarrow> 'e \<Rightarrow> 'e" where
  "ae_Xor ev a b = ev_If ev a (ev_Not ev b) b"

definition ae_Xnor :: "'e evaluator \<Rightarrow> 'e \<Rightarrow> 'e \<Rightarrow> 'e" where
  "ae_Xnor ev a b = ev_If ev a b (ev_Not ev b)"

definition ae_Implies :: "'e evaluator \<Rightarrow> 'e \<Rightarrow> 'e \<Rightarrow> 'e" where
  "ae_Implies ev a b = ev_If ev a b (ev_One ev)"

record 'e AdderResult =
  ar_sum :: 'e
  ar_carry :: 'e

definition ae_HalfAdder :: "'e evaluator \<Rightarrow> 'e \<Rightarrow> 'e \<Rightarrow> 'e AdderResult" where
  "ae_HalfAdder ev a b = \<lparr>ar_sum = ae_Xor ev a b, ar_carry = ev_And ev a b\<rparr>"

definition ae_FullAdder :: "'e evaluator \<Rightarrow> 'e \<Rightarrow> 'e \<Rightarrow> 'e \<Rightarrow> 'e AdderResult" where
  "ae_FullAdder ev a b carry_in =
     (let first_result = ae_HalfAdder ev a b;
          second_result = ae_HalfAdder ev (ar_sum first_result) carry_in
      in \<lparr>ar_sum = ar_sum second_result,
          ar_carry = ev_Or ev (ar_carry first_result) (ar_carry second_result)\<rparr>)"

text \<open>The reductions: a left fold, or a balanced tree when \<^verbatim>\<open>If\<close> is the fundamental operation.\<close>

function ae_ReduceOp_tree :: "('e \<Rightarrow> 'e \<Rightarrow> 'e) \<Rightarrow> 'e list \<Rightarrow> 'e \<Rightarrow> 'e" where
  "ae_ReduceOp_tree op input ident =
     (if input = [] then ident
      else if length input = 1 then hd input
      else if length input = 2 then op (input ! 0) (input ! 1)
      else let mid = length input div 2
           in op (ae_ReduceOp_tree op (take mid input) ident) (ae_ReduceOp_tree op (drop mid input) ident))"
  by pat_completeness auto
termination
  by (relation "measure (\<lambda>(op, input, ident). length input)") (auto simp: neq_Nil_conv)

declare ae_ReduceOp_tree.simps [simp del]

definition ae_ReduceOp :: "'e evaluator \<Rightarrow> ('e \<Rightarrow> 'e \<Rightarrow> 'e) \<Rightarrow> 'e list \<Rightarrow> 'e \<Rightarrow> 'e" where
  "ae_ReduceOp ev op input ident =
     (if kIsITEFundamental ev then ae_ReduceOp_tree op input ident
      else fold (\<lambda>e result. op result e) input ident)"

definition ae_AndReduce :: "'e evaluator \<Rightarrow> 'e list \<Rightarrow> 'e list" where
  "ae_AndReduce ev a = [ae_ReduceOp ev (ev_And ev) a (ev_One ev)]"

definition ae_OrReduce :: "'e evaluator \<Rightarrow> 'e list \<Rightarrow> 'e list" where
  "ae_OrReduce ev a = [ae_ReduceOp ev (ev_Or ev) a (ev_Zero ev)]"

definition ae_XorReduce :: "'e evaluator \<Rightarrow> 'e list \<Rightarrow> 'e list" where
  "ae_XorReduce ev a = [ae_ReduceOp ev (ae_Xor ev) a (ev_Zero ev)]"

record 'e SubtractorResult =
  sub_diff :: 'e
  sub_borrow :: 'e

definition ae_HalfSubtractor :: "'e evaluator \<Rightarrow> 'e \<Rightarrow> 'e \<Rightarrow> 'e SubtractorResult" where
  "ae_HalfSubtractor ev a b =
     (let diff = ae_Xor ev a b in \<lparr>sub_diff = diff, sub_borrow = ev_And ev diff b\<rparr>)"

definition ae_FullSubtractor :: "'e evaluator \<Rightarrow> 'e \<Rightarrow> 'e \<Rightarrow> 'e \<Rightarrow> 'e SubtractorResult" where
  "ae_FullSubtractor ev a b borrow_in =
     (let not_a = ev_Not ev a
      in \<lparr>sub_diff = hd (ae_XorReduce ev [a, b, borrow_in]),
          sub_borrow = hd (ae_OrReduce ev
             [ev_And ev not_a borrow_in, ev_And ev not_a b, ev_And ev b borrow_in])\<rparr>)"

section \<open>Vectors: bitwise operations, slices, extension\<close>

definition ae_BitsToVector :: "'e evaluator \<Rightarrow> bits \<Rightarrow> 'e list option" where
  "ae_BitsToVector ev b =
     mapM (\<lambda>i. do { x \<leftarrow> Get b i; Some (if x then ev_One ev else ev_Zero ev) }) [0..<ib_bit_count b]"

definition ae_BitwiseNot :: "'e evaluator \<Rightarrow> 'e list \<Rightarrow> 'e list" where
  "ae_BitwiseNot ev input = map (ev_Not ev) input"

definition ae_NaryOp :: "('e \<Rightarrow> 'e \<Rightarrow> 'e) \<Rightarrow> 'e list list \<Rightarrow> 'e list option" where
  "ae_NaryOp f inputs = do {
     CHECK (inputs \<noteq> []);
     foldM (\<lambda>input result. if length input < length result then None else Some (map2 f result input))
       (tl inputs) (hd inputs) }"

definition ae_BitwiseAnd :: "'e evaluator \<Rightarrow> 'e list list \<Rightarrow> 'e list option" where
  "ae_BitwiseAnd ev inputs = ae_NaryOp (ev_And ev) inputs"

definition ae_BitwiseOr :: "'e evaluator \<Rightarrow> 'e list list \<Rightarrow> 'e list option" where
  "ae_BitwiseOr ev inputs = ae_NaryOp (ev_Or ev) inputs"

definition ae_BitwiseXor :: "'e evaluator \<Rightarrow> 'e list list \<Rightarrow> 'e list option" where
  "ae_BitwiseXor ev inputs = ae_NaryOp (ae_Xor ev) inputs"

definition ae_BitSlice :: "'e list \<Rightarrow> nat \<Rightarrow> nat \<Rightarrow> 'e list option" where
  "ae_BitSlice input start width = do {
     CHECK (start + width \<le> length input);
     Some (take width (drop start input)) }"

definition ae_Concat :: "'e list list \<Rightarrow> 'e list" where
  "ae_Concat inputs = concat (rev inputs)"

definition ae_ZeroExtend :: "'e evaluator \<Rightarrow> 'e list \<Rightarrow> nat \<Rightarrow> 'e list option" where
  "ae_ZeroExtend ev input new_width = do {
     CHECK (new_width \<ge> length input);
     Some (ae_Concat [replicate (new_width - length input) (ev_Zero ev), input]) }"

definition ae_SignExtend :: "'e list \<Rightarrow> nat \<Rightarrow> 'e list option" where
  "ae_SignExtend input new_width = do {
     CHECK (length input \<ge> 1);
     CHECK (new_width \<ge> length input);
     sign \<leftarrow> span_back input;
     Some (ae_Concat [replicate (new_width - length input) sign, input]) }"

definition ae_Gate :: "'e evaluator \<Rightarrow> 'e \<Rightarrow> 'e list \<Rightarrow> 'e list option" where
  "ae_Gate ev a b = do { x \<leftarrow> ae_SignExtend [a] (length b); ae_BitwiseAnd ev [x, b] }"

section \<open>Comparisons\<close>

definition ae_Equals :: "'e evaluator \<Rightarrow> 'e list \<Rightarrow> 'e list \<Rightarrow> 'e option" where
  "ae_Equals ev a b = do { x \<leftarrow> ae_BitwiseXor ev [a, b]; Some (ev_Not ev (hd (ae_OrReduce ev x))) }"

definition ae_ULessThan :: "'e evaluator \<Rightarrow> 'e list \<Rightarrow> 'e list \<Rightarrow> 'e option" where
  "ae_ULessThan ev a b = do {
     CHECK (length a = length b);
     let (result, upper_bits_lte) =
       fold (\<lambda>(x, y) (result, upper_bits_lte).
           (ev_Or ev result (ev_And ev upper_bits_lte (ev_And ev (ev_Not ev x) y)),
            ev_And ev upper_bits_lte (ev_Or ev (ev_Not ev x) y)))
         (rev (zip a b)) (ev_Zero ev, ev_One ev);
     Some result }"

definition ae_ULessThanOrEqual :: "'e evaluator \<Rightarrow> 'e list \<Rightarrow> 'e list \<Rightarrow> 'e option" where
  "ae_ULessThanOrEqual ev a b = map_option (ev_Not ev) (ae_ULessThan ev b a)"

definition ae_UGreaterThan :: "'e evaluator \<Rightarrow> 'e list \<Rightarrow> 'e list \<Rightarrow> 'e option" where
  "ae_UGreaterThan ev a b = ae_ULessThan ev b a"

definition ae_UGreaterThanOrEqual :: "'e evaluator \<Rightarrow> 'e list \<Rightarrow> 'e list \<Rightarrow> 'e option" where
  "ae_UGreaterThanOrEqual ev a b = map_option (ev_Not ev) (ae_ULessThan ev a b)"

definition ae_SLessThan :: "'e evaluator \<Rightarrow> 'e list \<Rightarrow> 'e list \<Rightarrow> 'e option" where
  "ae_SLessThan ev a b = do {
     CHECK (length a = length b);
     sa \<leftarrow> span_back a; sb \<leftarrow> span_back b;
     let same_sign = ae_Xnor ev sa sb;
     if length a = 1 then Some (ev_If ev same_sign (ev_Zero ev) sa)
     else do {
       lt \<leftarrow> ae_ULessThan ev (take (length a - 1) a) (take (length b - 1) b);
       Some (ev_If ev same_sign lt sa) } }"

section \<open>Selects\<close>

definition ae_OneHotSelectInternal ::
    "'e evaluator \<Rightarrow> 'e list \<Rightarrow> 'e list list \<Rightarrow> bool \<Rightarrow> 'e list option" where
  "ae_OneHotSelectInternal ev selector cases selector_can_be_zero = do {
     CHECK (length selector = length cases);
     CHECK (length selector > 0);
     let width = length (hd cases);
     result \<leftarrow> foldM (\<lambda>(s, c) result. do {
            CHECK (width \<le> length c);
            Some (map2 (\<lambda>r x. ev_Or ev r (ev_And ev x s)) result c) })
          (zip selector cases) (replicate width (ev_Zero ev));
     if \<not> selector_can_be_zero then do {
       and_reduction \<leftarrow> foldM (\<lambda>(s, c) r.
            if \<not> ev_eq ev s (ev_Zero ev) then do {
              CHECK (width \<le> length c);
              Some (map2 (ev_And ev) r c) }
            else Some r)
          (zip selector cases) (replicate width (ev_One ev));
       ae_BitwiseOr ev [and_reduction, result] }
     else Some result }"

definition ae_OneHotSelect ::
    "'e evaluator \<Rightarrow> 'e list \<Rightarrow> 'e list list \<Rightarrow> bool \<Rightarrow> 'e list option" where
  "ae_OneHotSelect ev selector cases selector_can_be_zero =
     ae_OneHotSelectInternal ev selector cases selector_can_be_zero"

definition ae_PrioritySelectInternal ::
    "'e evaluator \<Rightarrow> 'e list \<Rightarrow> 'e list list \<Rightarrow> bool \<Rightarrow> 'e list \<Rightarrow> 'e list option" where
  "ae_PrioritySelectInternal ev selector cases selector_can_be_zero default_value = do {
     CHECK (length selector = length cases);
     if selector = [] then Some default_value
     else do {
       let width = length default_value;
       CHECK (list_all (\<lambda>c. length c = width) cases);
       let (default_value, selector, cases) =
         (if \<not> selector_can_be_zero then (last cases, butlast selector, butlast cases)
          else (default_value, selector, cases));
       foldM (\<lambda>(s, c) result. ae_IfBits ev s c result) (rev (zip selector cases)) default_value } }"

definition ae_PrioritySelect ::
    "'e evaluator \<Rightarrow> 'e list \<Rightarrow> 'e list list \<Rightarrow> bool \<Rightarrow> 'e list \<Rightarrow> 'e list option" where
  "ae_PrioritySelect ev selector cases selector_can_be_zero default_value =
     ae_PrioritySelectInternal ev selector cases selector_can_be_zero default_value"

text \<open>
  \<^verbatim>\<open>SelectInternal\<close> without a fundamental \<^verbatim>\<open>If\<close>: the loop that turns the selector into a one-hot
  selector stops at the first case the selector cannot name.
\<close>

definition ae_one_hot_selector :: "'e evaluator \<Rightarrow> 'e list \<Rightarrow> nat \<Rightarrow> 'e list option" where
  "ae_one_hot_selector ev selector case_count =
     mapM (\<lambda>i. do {
         u \<leftarrow> UBits (word_of_nat i) (length selector);
         v \<leftarrow> ae_BitsToVector ev u;
         ae_Equals ev selector v })
       (takeWhile (\<lambda>i. \<not> MinBitCountUnsigned (word_of_nat i) > length selector) [0..<case_count])"

definition ae_SelectInternal_one_hot ::
    "'e evaluator \<Rightarrow> 'e list \<Rightarrow> 'e list list \<Rightarrow> 'e list option \<Rightarrow> 'e list option" where
  "ae_SelectInternal_one_hot ev selector cases_vec default_value = do {
     one_hot_selector \<leftarrow> ae_one_hot_selector ev selector (length cases_vec);
     let max_cases = length one_hot_selector;
     let (default_value, cases) =
       (if length cases_vec > max_cases then (None, take max_cases cases_vec)
        else (default_value, cases_vec));
     case default_value of
       Some d \<Rightarrow> do {
         u \<leftarrow> UBits (word_of_nat (length cases_vec) - 1) (length selector);
         v \<leftarrow> ae_BitsToVector ev u;
         lt \<leftarrow> ae_ULessThan ev v selector;
         ae_OneHotSelectInternal ev (one_hot_selector @ [lt]) (cases @ [d]) False }
     | None \<Rightarrow> ae_OneHotSelectInternal ev one_hot_selector cases False }"

text \<open>\<^verbatim>\<open>1 << n\<close> has the type \<^verbatim>\<open>int\<close>: 31 makes it negative, a huge number once it is converted to \<^verbatim>\<open>size_t\<close>, and more
  is undefined.\<close>

definition int_shl_size :: "nat \<Rightarrow> nat option" where
  "int_shl_size n = (if n < 31 then Some (2 ^ n) else if n = 31 then Some (2 ^ 64 - 2 ^ 31) else None)"

text \<open>With a fundamental \<^verbatim>\<open>If\<close>: a tree of selections on the bits of the selector.\<close>

function ae_SelectInternal_ite ::
    "'e evaluator \<Rightarrow> 'e list \<Rightarrow> 'e list list \<Rightarrow> 'e list option \<Rightarrow> 'e list option" where
  "ae_SelectInternal_ite ev selector cases default_value =
     (if cases = [] then default_value
      else
        let case_bits = MinBitCountUnsigned
              (word_of_nat (length cases - (if default_value \<noteq> None then 0 else 1)));
            selector_bits = length selector
        in if selector_bits > case_bits then do {
             let high_bit_set = hd (ae_OrReduce ev (drop case_bits selector));
             d \<leftarrow> default_value;
             r \<leftarrow> ae_SelectInternal_ite ev (take case_bits selector) cases default_value;
             ae_IfBits ev high_bit_set d r }
           else do {
             (cases, default_value) \<leftarrow>
               (if case_bits > selector_bits then do { k \<leftarrow> int_shl_size selector_bits; Some (take k cases, None) }
                else Some (cases, default_value));
             if selector_bits = 1 then do {
               CHECK (length cases \<ge> 2 \<or> default_value \<noteq> None);
               c \<leftarrow> (if length cases \<ge> 2 then Some (cases ! 1) else default_value);
               ae_IfBits ev (hd selector) c (hd cases) }
             else if selector = [] then None
             else do {
               let msb = last selector;
               let tail = butlast selector;
               k \<leftarrow> int_shl_size (length tail);
               high_cases \<leftarrow> subspan cases k;
               h \<leftarrow> ae_SelectInternal_ite ev tail high_cases default_value;
               l \<leftarrow> ae_SelectInternal_ite ev tail (take k cases) None;
               ae_IfBits ev msb h l } })"
  by pat_completeness auto
termination
  by (relation "measure (\<lambda>(ev, selector, cases, d). length selector)") auto

declare ae_SelectInternal_ite.simps [simp del]

definition ae_SelectInternal ::
    "'e evaluator \<Rightarrow> 'e list \<Rightarrow> 'e list list \<Rightarrow> 'e list option \<Rightarrow> 'e list option" where
  "ae_SelectInternal ev selector cases default_value =
     (if kIsITEFundamental ev then ae_SelectInternal_ite ev selector cases default_value
      else ae_SelectInternal_one_hot ev selector cases default_value)"

definition ae_Select ::
    "'e evaluator \<Rightarrow> 'e list \<Rightarrow> 'e list list \<Rightarrow> 'e list option \<Rightarrow> 'e list option" where
  "ae_Select ev selector cases default_value = ae_SelectInternal ev selector cases default_value"

section \<open>One-hot, shifts, dynamic slices\<close>

definition ae_one_hot_step :: "'e evaluator \<Rightarrow> 'e \<Rightarrow> 'e list \<times> 'e \<times> 'e \<Rightarrow> 'e list \<times> 'e \<times> 'e" where
  "ae_one_hot_step ev x = (\<lambda>(result, all_zero, any_one).
     (result @ [ev_And ev all_zero x], ev_And ev all_zero (ev_Not ev x), ev_Or ev any_one x))"

definition ae_OneHotMsbToLsb :: "'e evaluator \<Rightarrow> 'e list \<Rightarrow> 'e list" where
  "ae_OneHotMsbToLsb ev input =
     (let (result, all_zero, any_one) = fold (ae_one_hot_step ev) (rev input) ([], ev_One ev, ev_Zero ev)
      in rev result @ [all_zero])"

definition ae_OneHotLsbToMsb :: "'e evaluator \<Rightarrow> 'e list \<Rightarrow> 'e list" where
  "ae_OneHotLsbToMsb ev input =
     (let (result, all_zero, any_one) = fold (ae_one_hot_step ev) input ([], ev_One ev, ev_Zero ev)
      in result @ [all_zero])"

definition ae_Shift :: "'e evaluator \<Rightarrow> 'e list \<Rightarrow> 'e list \<Rightarrow> bool \<Rightarrow> bool \<Rightarrow> 'e list option" where
  "ae_Shift ev input amount right arithmetic =
     (if input = [] then Some []
      else
        let case_cnt = length input + 1;
            cases =
              (if right then
                 let extended = input @ replicate (case_cnt - 1) (if arithmetic then last input else ev_Zero ev)
                 in map (\<lambda>i. take (length input) (drop i extended)) [0..<case_cnt]
               else
                 let extended = replicate (case_cnt - 1) (ev_Zero ev) @ input
                 in map (\<lambda>i. take (length input) (drop (case_cnt - 1 - i) extended)) [0..<case_cnt])
        in ae_SelectInternal ev amount (take (length cases - 1) cases) (Some (last cases)))"

definition ae_ShiftRightLogical :: "'e evaluator \<Rightarrow> 'e list \<Rightarrow> 'e list \<Rightarrow> 'e list option" where
  "ae_ShiftRightLogical ev input amount = ae_Shift ev input amount True False"

definition ae_ShiftRightArith :: "'e evaluator \<Rightarrow> 'e list \<Rightarrow> 'e list \<Rightarrow> 'e list option" where
  "ae_ShiftRightArith ev input amount = ae_Shift ev input amount True True"

definition ae_ShiftLeftLogical :: "'e evaluator \<Rightarrow> 'e list \<Rightarrow> 'e list \<Rightarrow> 'e list option" where
  "ae_ShiftLeftLogical ev input amount = ae_Shift ev input amount False False"

definition ae_DynamicBitSlice :: "'e evaluator \<Rightarrow> 'e list \<Rightarrow> 'e list \<Rightarrow> nat \<Rightarrow> 'e list option" where
  "ae_DynamicBitSlice ev input start width =
     (if kIsITEFundamental ev then do {
        ext \<leftarrow> ae_ZeroExtend ev input (length input + width);
        let cases = map (\<lambda>i. take width (drop i ext)) [0..<length input];
        ae_SelectInternal ev start cases (Some (replicate width (ev_Zero ev))) }
      else do {
        s \<leftarrow> ae_ShiftRightLogical ev input start;
        ae_BitSlice s 0 width })"

definition ae_BitSliceUpdate :: "'e list \<Rightarrow> nat \<Rightarrow> 'e list \<Rightarrow> 'e list" where
  "ae_BitSliceUpdate input start v =
     (if start > length input then input
      else let remaining = (if start + length v > length input then length input - start else length v)
           in take start input @ take remaining v @ drop (start + remaining) input)"

definition ae_BitSliceUpdate_dynamic ::
    "'e evaluator \<Rightarrow> 'e list \<Rightarrow> 'e list \<Rightarrow> 'e list \<Rightarrow> 'e list option" where
  "ae_BitSliceUpdate_dynamic ev input start v =
     (if kIsITEFundamental ev then
        let v = (if length v > length input then take (length input) v else v);
            cases = map (\<lambda>i. let n = min (length v) (length input - i)
                             in take i input @ take n v @ drop (i + n) input) [0..<length input]
        in ae_SelectInternal ev start cases (Some input)
      else do {
        let num_ones = min (length input) (length v);
        start_ones \<leftarrow> ZeroExtend (AllOnes num_ones) (length input);
        ones \<leftarrow> ae_BitsToVector ev start_ones;
        shifted \<leftarrow> ae_ShiftLeftLogical ev ones start;
        let msk = ae_BitwiseNot ev shifted;
        adjusted_value \<leftarrow> (if length v \<ge> length input then ae_BitSlice v 0 (length input)
                            else ae_ZeroExtend ev v (length input));
        kept \<leftarrow> ae_BitwiseAnd ev [msk, input];
        moved \<leftarrow> ae_ShiftLeftLogical ev adjusted_value start;
        ae_BitwiseOr ev [kept, moved] })"

section \<open>Encode and decode\<close>

text \<open>The width \<^verbatim>\<open>1 << input.size()\<close> is an \<^verbatim>\<open>int\<close> again: with 31 bits it is negative and the recursion never ends, with
  more it is undefined.\<close>

function ae_Decode :: "'e evaluator \<Rightarrow> 'e list \<Rightarrow> nat \<Rightarrow> 'e list option" where
  "ae_Decode ev input result_width =
     (let used_bits = MinBitCountUnsigned (word_of_nat result_width) + 1 in
      if used_bits < length input then do {
        r \<leftarrow> ae_Decode ev (take used_bits input) result_width;
        ae_IfBits ev (last (ae_OrReduce ev (drop used_bits input)))
          (replicate result_width (ev_Zero ev)) r }
      else if length input < 64 \<and> 2 ^ length input < result_width then do {
        CHECK (length input < 31);
        r \<leftarrow> ae_Decode ev input (2 ^ length input);
        ae_ZeroExtend ev r result_width }
      else mapM (\<lambda>i. do {
          u \<leftarrow> UBits (word_of_nat i) (length input);
          v \<leftarrow> ae_BitsToVector ev u;
          ae_Equals ev input v }) [0..<result_width])"
  by pat_completeness auto
termination
  by (relation "measure (\<lambda>(ev, input, w). length input + w)") auto

declare ae_Decode.simps [simp del]

definition ae_Encode :: "'e evaluator \<Rightarrow> 'e list \<Rightarrow> 'e list" where
  "ae_Encode ev input =
     (let result_width = CeilOfLog2 (word_of_nat (length input))
      in fold (\<lambda>i result. map (\<lambda>j. if bit i j then ev_Or ev (result ! j) (input ! i) else result ! j)
             [0..<result_width])
           [0..<length input] (replicate result_width (ev_Zero ev)))"

section \<open>Addition and subtraction\<close>

record 'e OverflowResult =
  or_overflow :: 'e
  or_result :: "'e list"

fun ae_add_loop :: "'e evaluator \<Rightarrow> 'e list \<Rightarrow> 'e list \<Rightarrow> 'e \<Rightarrow> 'e OverflowResult option" where
  "ae_add_loop ev [] bs carry = Some \<lparr>or_overflow = carry, or_result = []\<rparr>"
| "ae_add_loop ev (a # as) [] carry = None"
| "ae_add_loop ev (a # as) (b # bs) carry = do {
     let r = ae_FullAdder ev a b carry;
     rest \<leftarrow> ae_add_loop ev as bs (ar_carry r);
     Some (rest\<lparr>or_result := ar_sum r # or_result rest\<rparr>) }"

definition ae_AddWithCarry :: "'e evaluator \<Rightarrow> 'e list \<Rightarrow> 'e list \<Rightarrow> 'e OverflowResult option" where
  "ae_AddWithCarry ev a b = ae_add_loop ev a b (ev_Zero ev)"

definition ae_Add :: "'e evaluator \<Rightarrow> 'e list \<Rightarrow> 'e list \<Rightarrow> 'e list option" where
  "ae_Add ev a b = map_option or_result (ae_AddWithCarry ev a b)"

definition ae_AddWithSignedOverflow :: "'e evaluator \<Rightarrow> 'e list \<Rightarrow> 'e list \<Rightarrow> 'e OverflowResult option" where
  "ae_AddWithSignedOverflow ev a b = do {
     res \<leftarrow> ae_AddWithCarry ev a b;
     sa \<leftarrow> span_back a; sb \<leftarrow> span_back b; sr \<leftarrow> span_back (or_result res);
     same \<leftarrow> ae_Equals ev [sa] [sb];
     kept \<leftarrow> ae_Equals ev [sr] [sa];
     Some (res\<lparr>or_overflow := ev_And ev same (ev_Not ev kept)\<rparr>) }"

fun ae_sub_loop :: "'e evaluator \<Rightarrow> 'e list \<Rightarrow> 'e list \<Rightarrow> 'e \<Rightarrow> 'e OverflowResult option" where
  "ae_sub_loop ev [] bs borrow = Some \<lparr>or_overflow = borrow, or_result = []\<rparr>"
| "ae_sub_loop ev (a # as) [] borrow = None"
| "ae_sub_loop ev (a # as) (b # bs) borrow = do {
     let r = ae_FullSubtractor ev a b borrow;
     rest \<leftarrow> ae_sub_loop ev as bs (sub_borrow r);
     Some (rest\<lparr>or_result := sub_diff r # or_result rest\<rparr>) }"

definition ae_SubWithUnsignedUnderflow :: "'e evaluator \<Rightarrow> 'e list \<Rightarrow> 'e list \<Rightarrow> 'e OverflowResult option" where
  "ae_SubWithUnsignedUnderflow ev a b = ae_sub_loop ev a b (ev_Zero ev)"

definition ae_Sub :: "'e evaluator \<Rightarrow> 'e list \<Rightarrow> 'e list \<Rightarrow> 'e list option" where
  "ae_Sub ev a b = map_option or_result (ae_SubWithUnsignedUnderflow ev a b)"

definition ae_SubWithSignedUnderflow :: "'e evaluator \<Rightarrow> 'e list \<Rightarrow> 'e list \<Rightarrow> 'e OverflowResult option" where
  "ae_SubWithSignedUnderflow ev a b = do {
     sub \<leftarrow> ae_SubWithUnsignedUnderflow ev a b;
     sa \<leftarrow> span_back a; sb \<leftarrow> span_back b; sr \<leftarrow> span_back (or_result sub);
     let is_int_min = ev_And ev sb (ev_Not ev (last (ae_OrReduce ev (take (length b - 1) b))));
     same \<leftarrow> ae_Equals ev [sa] [sb];
     eq_b \<leftarrow> ae_Equals ev [sr] [sb];
     Some (sub\<lparr>or_overflow := ev_And ev (ev_Not ev same) (ev_Or ev eq_b is_int_min)\<rparr>) }"

definition ae_Neg :: "'e evaluator \<Rightarrow> 'e list \<Rightarrow> 'e list option" where
  "ae_Neg ev x = (if x = [] then Some x else ae_Sub ev (replicate (length x) (ev_Zero ev)) x)"

definition ae_Abs :: "'e evaluator \<Rightarrow> 'e list \<Rightarrow> 'e list option" where
  "ae_Abs ev x = do { s \<leftarrow> span_back x; n \<leftarrow> ae_Neg ev x; ae_IfBits ev s n x }"

end
