(* ===== verification/Abstract_Multiplier.thy ===== *)
theory Abstract_Multiplier
  imports Abstract_Evaluator
begin

text \<open>
  The multiplication and division of \<^verbatim>\<open>xls/ir/abstract_evaluator.h\<close>: the Dadda multiplier, long
  division, and the signed operations built on them. A column of partial products is a list
  used as a queue (front first); the array of columns is a list, the column of weight one first,
  so that a pass over the array recurses over the list and pushes its carries onto the next
  column. A carry out of the last column is an access past the end of the array.
\<close>

section \<open>The Dadda multiplier\<close>

definition ae_partial_products :: "'e evaluator \<Rightarrow> 'e list \<Rightarrow> 'e list \<Rightarrow> 'e list list" where
  "ae_partial_products ev a b =
     fold (\<lambda>(i, j) cols. cols[i + j := cols ! (i + j) @ [ev_And ev (a ! i) (b ! j)]])
       (List.product [0..<length a] [0..<length b]) (replicate (length a + length b) [])"

text \<open>The first limit of the sequence 2, 3, 4, 6, 9, \<dots> that is at least the larger width.\<close>

partial_function (option) ae_dadda_limit :: "nat \<Rightarrow> nat \<Rightarrow> nat option" where
  "ae_dadda_limit width max_height =
     (if max_height < width then ae_dadda_limit width (nat (FloorOfRatio (3 * int max_height) 2))
      else Some max_height)"

text \<open>One column: full adders while it is too high by two or more, then at most one half adder.\<close>

function ae_reduce_full :: "'e evaluator \<Rightarrow> nat \<Rightarrow> 'e list \<Rightarrow> 'e list \<Rightarrow> ('e list \<times> 'e list) option" where
  "ae_reduce_full ev max_height column next_column =
     (if length column > max_height + 1 then
        case column of
          a # b # c # rest \<Rightarrow>
            let r = ae_FullAdder ev a b c
            in ae_reduce_full ev max_height (rest @ [ar_sum r]) (next_column @ [ar_carry r])
        | _ \<Rightarrow> None
      else Some (column, next_column))"
  by pat_completeness auto
termination
  by (relation "measure (\<lambda>(ev, h, column, n). length column)") auto

declare ae_reduce_full.simps [simp del]

definition ae_reduce_column ::
    "'e evaluator \<Rightarrow> nat \<Rightarrow> 'e list \<Rightarrow> 'e list \<Rightarrow> ('e list \<times> 'e list) option" where
  "ae_reduce_column ev max_height column next_column = do {
     (column, next_column) \<leftarrow> ae_reduce_full ev max_height column next_column;
     if length column > max_height then
       case column of
         a # b # rest \<Rightarrow>
           let r = ae_HalfAdder ev a b
           in Some (rest @ [ar_sum r], next_column @ [ar_carry r])
       | _ \<Rightarrow> None
     else Some (column, next_column) }"

text \<open>One stage: every column is reduced to the limit, from the least significant one up.\<close>

function ae_dadda_stage :: "'e evaluator \<Rightarrow> nat \<Rightarrow> 'e list list \<Rightarrow> 'e list list option" where
  "ae_dadda_stage ev max_height [] = Some []"
| "ae_dadda_stage ev max_height (column # rest) =
     (if length column \<le> max_height then do {
        rest \<leftarrow> ae_dadda_stage ev max_height rest;
        Some (column # rest) }
      else case rest of
          [] \<Rightarrow> None
        | next_column # rest \<Rightarrow> do {
            (column, next_column) \<leftarrow> ae_reduce_column ev max_height column next_column;
            rest \<leftarrow> ae_dadda_stage ev max_height (next_column # rest);
            Some (column # rest) })"
  by pat_completeness auto
termination
  by (relation "measure (\<lambda>(ev, h, cols). length cols)") auto

function ae_dadda_stages :: "'e evaluator \<Rightarrow> nat \<Rightarrow> 'e list list \<Rightarrow> 'e list list option" where
  "ae_dadda_stages ev max_height cols =
     (if max_height > 2 then
        let max_height = nat (CeilOfRatio (2 * int max_height) 3)
        in do {
          cols \<leftarrow> ae_dadda_stage ev max_height cols;
          ae_dadda_stages ev max_height cols }
      else Some cols)"
  by pat_completeness auto
termination
proof (relation "measure (\<lambda>(ev, h, cols). h)")
  fix ev :: "'e evaluator" and h x :: nat and cols c :: "'e list list"
  assume "2 < h" and x: "x = nat (CeilOfRatio (2 * int h) 3)"
  have "x = (2 * h + 3 - 1) div 3" using CeilOfRatio_nat[of 3 "2 * h"] x by simp
  then have "x < h" using \<open>2 < h\<close> by linarith
  then show "((ev, x, c), ev, h, cols) \<in> measure (\<lambda>(ev, h, cols). h)" by simp
qed simp

declare ae_dadda_stages.simps [simp del]

text \<open>The final ripple-carry adder: every column becomes one element.\<close>

definition ae_push_carry :: "'e list list \<Rightarrow> 'e \<Rightarrow> 'e list list option" where
  "ae_push_carry cols carry =
     (case cols of [] \<Rightarrow> None | column # rest \<Rightarrow> Some ((column @ [carry]) # rest))"

function ae_ripple :: "'e evaluator \<Rightarrow> 'e list list \<Rightarrow> 'e list option" where
  "ae_ripple ev [] = Some []"
| "ae_ripple ev (column # rest) =
     (case column of
        [] \<Rightarrow> do { r \<leftarrow> ae_ripple ev rest; Some (ev_Zero ev # r) }
      | [a] \<Rightarrow> do { r \<leftarrow> ae_ripple ev rest; Some (a # r) }
      | [a, b] \<Rightarrow> do {
          let s = ae_HalfAdder ev a b;
          rest \<leftarrow> ae_push_carry rest (ar_carry s);
          r \<leftarrow> ae_ripple ev rest;
          Some (ar_sum s # r) }
      | [a, b, c] \<Rightarrow> do {
          let s = ae_FullAdder ev a b c;
          rest \<leftarrow> ae_push_carry rest (ar_carry s);
          r \<leftarrow> ae_ripple ev rest;
          Some (ar_sum s # r) }
      | _ \<Rightarrow> None)"
  by pat_completeness auto
termination
  by (relation "measure (\<lambda>(ev, cols). length cols)") (auto simp: ae_push_carry_def split: list.splits)

definition ae_UMul :: "'e evaluator \<Rightarrow> 'e list \<Rightarrow> 'e list \<Rightarrow> 'e list option" where
  "ae_UMul ev a b = do {
     max_height \<leftarrow> ae_dadda_limit (max (length a) (length b)) 2;
     cols \<leftarrow> ae_dadda_stages ev max_height (ae_partial_products ev a b);
     ae_ripple ev cols }"

definition ae_UMulWithOverflow ::
    "'e evaluator \<Rightarrow> 'e list \<Rightarrow> 'e list \<Rightarrow> nat \<Rightarrow> 'e OverflowResult option" where
  "ae_UMulWithOverflow ev a b output_width = do {
     mul \<leftarrow> ae_UMul ev a b;
     if output_width \<ge> length a + length b then
       Some \<lparr>or_overflow = ev_Zero ev,
             or_result = mul @ replicate (output_width - length mul) (ev_Zero ev)\<rparr>
     else
       Some \<lparr>or_overflow = last (ae_OrReduce ev (drop output_width mul)),
             or_result = take output_width mul\<rparr> }"

text \<open>\<^verbatim>\<open>SMul\<close> keeps the greater width and its double in an \<^verbatim>\<open>int\<close>; a double past its range is undefined.\<close>

definition ae_SMul :: "'e evaluator \<Rightarrow> 'e list \<Rightarrow> 'e list \<Rightarrow> 'e list option" where
  "ae_SMul ev a b = do {
     let mx = max (length a) (length b);
     CHECK (mx * 2 < 2 ^ 31);
     temp_a \<leftarrow> ae_SignExtend a (mx * 2);
     temp_b \<leftarrow> ae_SignExtend b (mx * 2);
     result \<leftarrow> ae_UMul ev temp_a temp_b;
     ae_BitSlice result 0 (length a + length b) }"

definition ae_SMulWithOverflow ::
    "'e evaluator \<Rightarrow> 'e list \<Rightarrow> 'e list \<Rightarrow> nat \<Rightarrow> 'e OverflowResult option" where
  "ae_SMulWithOverflow ev a b output_width = do {
     mul \<leftarrow> ae_SMul ev a b;
     if output_width \<ge> length a + length b then do {
       sign \<leftarrow> span_back mul;
       Some \<lparr>or_overflow = ev_Zero ev, or_result = mul @ replicate (output_width - length mul) sign\<rparr> }
     else do {
       let any_zero = ev_Or ev (ev_Not ev (last (ae_OrReduce ev a))) (ev_Not ev (last (ae_OrReduce ev b)));
       sa \<leftarrow> span_back a; sb \<leftarrow> span_back b;
       let expected_sign = ev_And ev (ev_Not ev any_zero) (ae_Xor ev sa sb);
       let high_bits_expected = replicate (1 + length a + length b - output_width) expected_sign;
       CHECK (output_width > 0);
       eq \<leftarrow> ae_Equals ev high_bits_expected (drop (output_width - 1) mul);
       Some \<lparr>or_overflow = ev_Not ev eq, or_result = take output_width mul\<rparr> } }"

section \<open>Division\<close>

record 'e DivisionResult =
  quotient :: "'e list"
  remainder :: "'e list"

definition ae_div_step ::
    "'e evaluator \<Rightarrow> 'e list \<Rightarrow> 'e list \<Rightarrow> 'e \<Rightarrow> 'e list \<times> 'e list \<Rightarrow> ('e list \<times> 'e list) option" where
  "ae_div_step ev divisor neg_divisor x = (\<lambda>(q, r). do {
     let r = x # r;
     lt \<leftarrow> ae_ULessThan ev r divisor;
     let qi = ev_Not ev lt;
     s \<leftarrow> ae_Add ev r neg_divisor;
     r \<leftarrow> ae_IfBits ev qi s r;
     Some (qi # q, butlast r) })"

definition ae_UDivMod :: "'e evaluator \<Rightarrow> 'e list \<Rightarrow> 'e list \<Rightarrow> 'e DivisionResult option" where
  "ae_UDivMod ev n d = do {
     let nonzero_divisor = hd (ae_OrReduce ev d);
     divisor \<leftarrow> ae_ZeroExtend ev d (length d + 1);
     neg_divisor \<leftarrow> ae_Neg ev divisor;
     (q, r) \<leftarrow> foldM (ae_div_step ev divisor neg_divisor) (rev n) ([], replicate (length d) (ev_Zero ev));
     q \<leftarrow> ae_IfBits ev nonzero_divisor q (replicate (length q) (ev_One ev));
     r \<leftarrow> ae_IfBits ev nonzero_divisor r (replicate (length r) (ev_Zero ev));
     Some \<lparr>quotient = q, remainder = r\<rparr> }"

definition ae_UDiv :: "'e evaluator \<Rightarrow> 'e list \<Rightarrow> 'e list \<Rightarrow> 'e list option" where
  "ae_UDiv ev n d = map_option quotient (ae_UDivMod ev n d)"

definition ae_UMod :: "'e evaluator \<Rightarrow> 'e list \<Rightarrow> 'e list \<Rightarrow> 'e list option" where
  "ae_UMod ev n d = map_option remainder (ae_UDivMod ev n d)"

definition ae_SDivMod :: "'e evaluator \<Rightarrow> 'e list \<Rightarrow> 'e list \<Rightarrow> 'e DivisionResult option" where
  "ae_SDivMod ev n d = do {
     let nonzero_divisor = last (ae_OrReduce ev d);
     let n_negative = (if n = [] then ev_Zero ev else last n);
     let d_negative = (if d = [] then ev_Zero ev else last d);
     an \<leftarrow> ae_Abs ev n; ad \<leftarrow> ae_Abs ev d;
     res \<leftarrow> ae_UDivMod ev an ad;
     nr \<leftarrow> ae_Neg ev (remainder res);
     r \<leftarrow> ae_IfBits ev n_negative nr (remainder res);
     nq \<leftarrow> ae_Neg ev (quotient res);
     q \<leftarrow> ae_IfBits ev (ae_Xor ev n_negative d_negative) nq (quotient res);
     let w = length q;
     let largest_positive =
       (if w > 0 then replicate (w - 1) (ev_One ev) @ [ev_Zero ev] else replicate w (ev_One ev));
     let largest_negative =
       (if w > 0 then replicate (w - 1) (ev_Zero ev) @ [ev_One ev] else replicate w (ev_Zero ev));
     q \<leftarrow> ae_Select ev [n_negative, nonzero_divisor] [largest_positive, largest_negative] (Some q);
     Some \<lparr>quotient = q, remainder = r\<rparr> }"

definition ae_SDiv :: "'e evaluator \<Rightarrow> 'e list \<Rightarrow> 'e list \<Rightarrow> 'e list option" where
  "ae_SDiv ev n d = map_option quotient (ae_SDivMod ev n d)"

definition ae_SMod :: "'e evaluator \<Rightarrow> 'e list \<Rightarrow> 'e list \<Rightarrow> 'e list option" where
  "ae_SMod ev n d = map_option remainder (ae_SDivMod ev n d)"

section \<open>The ternary evaluator\<close>

text \<open>\<^verbatim>\<open>xls/passes/ternary_evaluator.h\<close>; it keeps the default options of the base class.\<close>

definition TernaryEvaluator_If :: "TernaryValue \<Rightarrow> TernaryValue \<Rightarrow> TernaryValue \<Rightarrow> TernaryValue" where
  "TernaryEvaluator_If sel consequent alternate =
     (if consequent = alternate then consequent
      else if sel = kKnownOne then consequent
      else if sel = kKnownZero then alternate
      else kUnknown)"

definition TernaryEvaluator_Not :: "TernaryValue \<Rightarrow> TernaryValue" where
  "TernaryEvaluator_Not input =
     (case input of kKnownZero \<Rightarrow> kKnownOne | kKnownOne \<Rightarrow> kKnownZero | kUnknown \<Rightarrow> kUnknown)"

definition TernaryEvaluator :: "TernaryValue evaluator" where
  "TernaryEvaluator =
     \<lparr>ev_One = kKnownOne, ev_Zero = kKnownZero, ev_Not = TernaryEvaluator_Not,
      ev_And = ternary_And, ev_Or = ternary_Or, ev_If = TernaryEvaluator_If,
      ev_eq = (=), kIsITEFundamental = False\<rparr>"

text \<open>The evaluator of plain booleans, with either choice of the option.\<close>

definition BoolEvaluator :: "bool \<Rightarrow> bool evaluator" where
  "BoolEvaluator ite =
     \<lparr>ev_One = True, ev_Zero = False, ev_Not = (\<lambda>a. \<not> a), ev_And = (\<and>), ev_Or = (\<or>),
      ev_If = (\<lambda>s c a. if s then c else a), ev_eq = (=), kIsITEFundamental = ite\<rparr>"

end
