(* ===== verification/Evaluator_Sound.thy ===== *)
theory Evaluator_Sound
  imports Abstract_Multiplier Ternary_Rules
begin

text \<open>
  The contract between the evaluator template and the classes derived from it. \<open>rel e b\<close> says
  that the element \<open>e\<close> may stand for the bit \<open>b\<close>; the locale states that the primitive operations
  respect it. Everything the template builds is then proved once: when the operands may stand for
  the bits of some numbers, the result may stand for the bits of the result of the arithmetic
  operation on them. The interpretations are the ternary evaluator, where this is the soundness
  of the ternary analysis, and the boolean evaluator, where it is functional correctness.

  \<open>vrel rel xs v\<close> relates a vector with an integer read modulo \<open>2 ^ length xs\<close> (two's complement).
\<close>

definition vrel :: "('e \<Rightarrow> bool \<Rightarrow> bool) \<Rightarrow> 'e list \<Rightarrow> int \<Rightarrow> bool" where
  "vrel rel xs v = (\<forall>i<length xs. rel (xs ! i) (bit v i))"

named_theorems ev_intro \<open>primitive operations respect the relation\<close>

locale evaluator_laws =
  fixes ev :: "'e evaluator" and rel :: "'e \<Rightarrow> bool \<Rightarrow> bool"
  assumes rel_One [ev_intro]: "rel (ev_One ev) True"
    and rel_Zero [ev_intro]: "rel (ev_Zero ev) False"
    and rel_Not [ev_intro]: "rel a x \<Longrightarrow> rel (ev_Not ev a) (\<not> x)"
    and rel_And [ev_intro]: "rel a x \<Longrightarrow> rel b y \<Longrightarrow> rel (ev_And ev a b) (x \<and> y)"
    and rel_Or [ev_intro]: "rel a x \<Longrightarrow> rel b y \<Longrightarrow> rel (ev_Or ev a b) (x \<or> y)"
    and rel_If [ev_intro]: "rel s z \<Longrightarrow> rel a x \<Longrightarrow> rel b y \<Longrightarrow> rel (ev_If ev s a b) (if z then x else y)"
    and eq_Zero: "ev_eq ev a (ev_Zero ev) \<Longrightarrow> rel a x \<Longrightarrow> \<not> x"
begin

lemma vrel_Nil [simp]: "vrel rel [] v"
  by (simp add: vrel_def)

lemma vrel_Cons [simp]: "vrel rel (x # xs) v \<longleftrightarrow> rel x (odd v) \<and> vrel rel xs (v div 2)"
  by (auto simp: vrel_def nth_Cons bit_Suc bit_0 split: nat.splits)

lemma vrelD: "vrel rel xs v \<Longrightarrow> i < length xs \<Longrightarrow> rel (xs ! i) (bit v i)"
  by (simp add: vrel_def)

lemma vrel_cong: "(\<And>i. i < length xs \<Longrightarrow> bit v i = bit w i) \<Longrightarrow> vrel rel xs v = vrel rel xs w"
  by (simp add: vrel_def)

lemma vrel_bits: "vrel rel xs v \<Longrightarrow> (\<And>i. i < length xs \<Longrightarrow> bit v i = bit w i) \<Longrightarrow> vrel rel xs w"
  by (simp add: vrel_def)

lemma vrel_take_bit: "vrel rel xs (take_bit (length xs) v) = vrel rel xs v"
  by (rule vrel_cong) (simp add: bit_take_bit_iff)

lemma vrel_append: "vrel rel (xs @ ys) v \<longleftrightarrow> vrel rel xs v \<and> vrel rel ys (drop_bit (length xs) v)"
  by (induction xs arbitrary: v) (auto simp: drop_bit_Suc)

lemma vrel_map2:
  assumes "vrel rel xs v" "vrel rel ys w" "length xs = length ys"
    and "\<And>a b x y. rel a x \<Longrightarrow> rel b y \<Longrightarrow> rel (f a b) (g x y)"
    and "\<And>i. i < length xs \<Longrightarrow> bit u i = g (bit v i) (bit w i)"
  shows "vrel rel (map2 f xs ys) u"
  using assms by (auto simp: vrel_def)

lemma vrel_map:
  assumes "vrel rel xs v" "\<And>a x. rel a x \<Longrightarrow> rel (f a) (g x)" "\<And>i. i < length xs \<Longrightarrow> bit u i = g (bit v i)"
  shows "vrel rel (map f xs) u"
  using assms by (auto simp: vrel_def)

lemma vrel_last: "vrel rel xs v \<Longrightarrow> xs \<noteq> [] \<Longrightarrow> rel (last xs) (bit v (length xs - 1))"
  by (simp add: vrel_def last_conv_nth)

lemma vrel_take: "vrel rel xs v \<Longrightarrow> vrel rel (take n xs) v"
  by (simp add: vrel_def)

lemma vrel_drop: "vrel rel xs v \<Longrightarrow> vrel rel (drop n xs) (drop_bit n v)"
  by (auto simp: vrel_def bit_drop_bit_eq)

lemma vrel_replicate: "rel e b \<Longrightarrow> (\<And>i. i < n \<Longrightarrow> bit v i = b) \<Longrightarrow> vrel rel (replicate n e) v"
  by (simp add: vrel_def)

lemma vrel_zeros: "vrel rel (replicate n (ev_Zero ev)) 0"
  by (rule vrel_replicate[OF rel_Zero]) simp

section \<open>Primitive operations on one bit\<close>

lemma rel_Xor [ev_intro]: "rel a x \<Longrightarrow> rel b y \<Longrightarrow> rel (ae_Xor ev a b) (x \<noteq> y)"
  using rel_If[of a x "ev_Not ev b" "\<not> y" b y] rel_Not[of b y] by (cases x) (auto simp: ae_Xor_def)

lemma rel_Xnor [ev_intro]: "rel a x \<Longrightarrow> rel b y \<Longrightarrow> rel (ae_Xnor ev a b) (x = y)"
  using rel_If[of a x b y "ev_Not ev b" "\<not> y"] rel_Not[of b y] by (cases x) (auto simp: ae_Xnor_def)

lemma rel_Implies: "rel a x \<Longrightarrow> rel b y \<Longrightarrow> rel (ae_Implies ev a b) (x \<longrightarrow> y)"
  using rel_If[of a x b y "ev_One ev" True] rel_One by (cases x) (auto simp: ae_Implies_def)

lemma HalfAdder_rel:
  assumes "rel a x" "rel b y"
  shows "rel (ar_sum (ae_HalfAdder ev a b)) (x \<noteq> y)" "rel (ar_carry (ae_HalfAdder ev a b)) (x \<and> y)"
  using rel_Xor[OF assms] rel_And[OF assms] by (simp_all add: ae_HalfAdder_def)

lemma FullAdder_rel:
  assumes "rel a x" "rel b y" "rel c z"
  shows "rel (ar_sum (ae_FullAdder ev a b c)) ((x \<noteq> y) \<noteq> z)"
    "rel (ar_carry (ae_FullAdder ev a b c)) ((x \<and> y) \<or> ((x \<noteq> y) \<and> z))"
proof -
  note h = HalfAdder_rel[OF assms(1,2)]
  note g = HalfAdder_rel[OF h(1) assms(3)]
  show "rel (ar_sum (ae_FullAdder ev a b c)) ((x \<noteq> y) \<noteq> z)" using g(1) by (simp add: ae_FullAdder_def Let_def)
  show "rel (ar_carry (ae_FullAdder ev a b c)) ((x \<and> y) \<or> ((x \<noteq> y) \<and> z))"
    using rel_Or[OF h(2) g(2)] by (simp add: ae_FullAdder_def Let_def)
qed

section \<open>Reductions\<close>

lemma vrel_list_all2: "vrel rel xs v = list_all2 rel xs (map (bit v) [0..<length xs])"
  by (simp add: vrel_def list_all2_conv_all_nth)

lemma ReduceOp_tree_rel:
  assumes "\<And>a b x y. rel a x \<Longrightarrow> rel b y \<Longrightarrow> rel (op a b) (g x y)"
    and "\<And>x y z. g (g x y) z = g x (g y z)" and unit: "\<And>x. g e x = x" "\<And>x. g x e = x"
    and "rel ident e" "list_all2 rel xs bs"
  shows "rel (ae_ReduceOp_tree op xs ident) (foldr g bs e)"
  using assms(6)
proof (induction "length xs" arbitrary: xs bs rule: less_induct)
  case less
  have split: "foldr g (cs @ ds) e = g (foldr g cs e) (foldr g ds e)" for cs ds
    by (induction cs) (simp_all add: assms)
  consider "xs = []" | a where "xs = [a]" | a b where "xs = [a, b]" | "length xs > 2"
    by (cases xs rule: remdups_adj.cases) (auto simp: Suc_lessI)
  then show ?case
  proof cases
    case 1
    then show ?thesis using less.prems assms(5) by (simp add: ae_ReduceOp_tree.simps)
  next
    case 2
    then show ?thesis using less.prems by (auto simp: ae_ReduceOp_tree.simps[of op "[_]"] list_all2_Cons1 unit)
  next
    case 3
    then show ?thesis using less.prems assms(1)
      by (auto simp: ae_ReduceOp_tree.simps[of op "[_, _]"] list_all2_Cons1 unit)
  next
    case 4
    let ?m = "length xs div 2"
    have "rel (ae_ReduceOp_tree op (take ?m xs) ident) (foldr g (take ?m bs) e)"
      "rel (ae_ReduceOp_tree op (drop ?m xs) ident) (foldr g (drop ?m bs) e)"
      using 4 less.prems by (auto intro!: less.hyps list_all2_takeI list_all2_dropI)
    then have "rel (op (ae_ReduceOp_tree op (take ?m xs) ident) (ae_ReduceOp_tree op (drop ?m xs) ident))
        (foldr g (take ?m bs @ drop ?m bs) e)" unfolding split by (rule assms(1))
    then show ?thesis using 4 by (subst ae_ReduceOp_tree.simps) (auto simp: Let_def)
  qed
qed

lemma ReduceOp_rel:
  assumes "\<And>a b x y. rel a x \<Longrightarrow> rel b y \<Longrightarrow> rel (op a b) (g x y)"
    and "\<And>x y z. g (g x y) z = g x (g y z)" and unit: "\<And>x. g e x = x" "\<And>x. g x e = x"
    and "rel ident e" "list_all2 rel xs bs"
  shows "rel (ae_ReduceOp ev op xs ident) (foldr g bs e)"
proof -
  have "rel i y \<Longrightarrow> list_all2 rel xs bs \<Longrightarrow> rel (fold (\<lambda>e result. op result e) xs i) (g y (foldr g bs e))" for i y
  proof (induction xs arbitrary: i y bs)
    case (Cons x xs)
    then obtain b cs where bs: "bs = b # cs" "rel x b" "list_all2 rel xs cs" by (auto simp: list_all2_Cons1)
    then show ?case using Cons.IH[of "op i x" "g y b" cs] Cons.prems(1) assms(1,2) by simp
  qed (simp add: unit)
  from this[of ident e] show ?thesis using assms ReduceOp_tree_rel by (simp add: ae_ReduceOp_def unit)
qed

lemma foldr_bools:
  "foldr (\<or>) bs False = (\<exists>i<length bs. bs ! i)" "foldr (\<and>) bs True = (\<forall>i<length bs. bs ! i)"
  by (induction bs) (auto simp: less_Suc_eq_0_disj)

lemma ex_nth_bits: "(\<exists>i<n. map f [0..<n] ! i) = (\<exists>i<n. f i)"
  by auto

lemma OrReduce_bits:
  assumes "vrel rel xs v"
  shows "rel (hd (ae_OrReduce ev xs)) (\<exists>i<length xs. bit v i)" "rel (last (ae_OrReduce ev xs)) (\<exists>i<length xs. bit v i)"
  using ReduceOp_rel[of "ev_Or ev" "(\<or>)" False "ev_Zero ev" xs "map (bit v) [0..<length xs]"]
    assms rel_Or rel_Zero
  by (simp_all add: ae_OrReduce_def vrel_list_all2 foldr_bools ex_nth_bits)

lemma AndReduce_bits:
  assumes "vrel rel xs v"
  shows "rel (hd (ae_AndReduce ev xs)) (\<forall>i<length xs. bit v i)"
  using ReduceOp_rel[of "ev_And ev" "(\<and>)" True "ev_One ev" xs "map (bit v) [0..<length xs]"]
    assms rel_And rel_One
  by (simp add: ae_AndReduce_def vrel_list_all2 foldr_bools)

lemma XorReduce_rel:
  assumes "list_all2 rel xs bs"
  shows "rel (hd (ae_XorReduce ev xs)) (foldr (\<noteq>) bs False)"
  using ReduceOp_rel[of "ae_Xor ev" "(\<noteq>)" False "ev_Zero ev" xs bs] assms rel_Xor rel_Zero
  by (auto simp: ae_XorReduce_def)

lemma exists_bit_iff: "(\<exists>i<n. bit (v::int) i) = (take_bit n v \<noteq> 0)"
  by (auto simp: bit_eq_iff bit_take_bit_iff)

lemmas OrReduce_rel = OrReduce_bits[unfolded exists_bit_iff]

lemma FullSubtractor_rel:
  assumes "rel a x" "rel b y" "rel c z"
  shows "rel (sub_diff (ae_FullSubtractor ev a b c)) ((x \<noteq> y) \<noteq> z)"
    "rel (sub_borrow (ae_FullSubtractor ev a b c)) ((\<not> x \<and> z) \<or> (\<not> x \<and> y) \<or> (y \<and> z))"
proof -
  have "list_all2 rel [a, b, c] [x, y, z]" using assms by simp
  from XorReduce_rel[OF this] show "rel (sub_diff (ae_FullSubtractor ev a b c)) ((x \<noteq> y) \<noteq> z)"
    by (simp add: ae_FullSubtractor_def Let_def) (cases x; cases y; cases z; simp)
  have "list_all2 rel [ev_And ev (ev_Not ev a) c, ev_And ev (ev_Not ev a) b, ev_And ev b c]
      [\<not> x \<and> z, \<not> x \<and> y, y \<and> z]"
    using assms rel_And rel_Not by simp
  from ReduceOp_rel[of "ev_Or ev" "(\<or>)" False "ev_Zero ev", OF rel_Or _ _ _ rel_Zero this]
  show "rel (sub_borrow (ae_FullSubtractor ev a b c)) ((\<not> x \<and> z) \<or> (\<not> x \<and> y) \<or> (y \<and> z))"
    by (simp add: ae_FullSubtractor_def Let_def ae_OrReduce_def)
qed

end

end
