(* ===== verification/Evaluator_Add.thy ===== *)
theory Evaluator_Add
  imports Evaluator_Sound
begin

text \<open>
  Bitwise operations, extension, comparison, addition and subtraction of the evaluator template,
  against the integers the vectors stand for.
\<close>

lemma back_eq: "xs \<noteq> [] \<Longrightarrow> span_back xs = Some (last xs)"
  by (simp add: span_back_def)

lemma NaryOp_pair: "length a \<le> length b \<Longrightarrow> ae_NaryOp f [a, b] = Some (map2 f a b)"
  by (simp add: ae_NaryOp_def)

lemma wrap_signed:
  fixes x :: int
  assumes "- (2 * 2 ^ m) \<le> x" "x < 2 * 2 ^ m"
  shows "signed_take_bit m x =
    (if x < - (2 ^ m) then x + 2 * 2 ^ m else if x \<ge> 2 ^ m then x - 2 * 2 ^ m else x)"
proof -
  have eq: "signed_take_bit m (x + c * (2 * 2 ^ m)) = signed_take_bit m x" for c :: int
    by (rule signed_take_bit_eq_iff_take_bit_eq[THEN iffD2]) (simp add: take_bit_eq_mod)
  have "signed_take_bit m (x + 2 * 2 ^ m) = x + 2 * 2 ^ m" if "x < - (2 ^ m)"
    using assms that by (intro signed_take_bit_int_eq_self) auto
  moreover have "signed_take_bit m (x - 2 * 2 ^ m) = x - 2 * 2 ^ m" if "x \<ge> 2 ^ m"
    using assms that by (intro signed_take_bit_int_eq_self) auto
  moreover have "signed_take_bit m x = x" if "\<not> x < - (2 ^ m)" "\<not> x \<ge> 2 ^ m"
    using that by (intro signed_take_bit_int_eq_self) auto
  ultimately show ?thesis using eq[of 1] eq[of "- 1"] by auto
qed

lemma take_bit_signed: "n > 0 \<Longrightarrow> take_bit n (signed_take_bit (n - 1) v) = take_bit n v" for v :: int
  by (simp add: take_bit_signed_take_bit)

lemma signed_bounds: "- (2 ^ m) \<le> signed_take_bit m v" "signed_take_bit m v < 2 ^ m" for v :: int
  by (simp_all add: signed_take_bit_int_greater_eq_minus_exp signed_take_bit_int_less_exp)

lemma signed_sign: "bit v m \<longleftrightarrow> signed_take_bit m v < 0" for v :: int
  by (simp add: signed_take_bit_negative_iff)

lemma signed_overflow_iff:
  fixes V W p R :: int
  assumes "- p \<le> V" "V < p" "- p \<le> W" "W < p"
    and "R = (if x < - p then x + 2 * p else if x \<ge> p then x - 2 * p else x)"
  shows "x = V + W \<Longrightarrow> ((V < 0) = (W < 0) \<and> (R < 0) \<noteq> (V < 0)) = (\<not> (- p \<le> x \<and> x < p))"
    "x = V - W \<Longrightarrow> (z \<longrightarrow> W = - p) \<Longrightarrow>
      ((V < 0) \<noteq> (W < 0) \<and> ((R < 0) = (W < 0) \<or> z)) = (\<not> (- p \<le> x \<and> x < p))"
  using assms by (auto split: if_splits)

lemma signed_flags:
  fixes v w :: int and m :: nat
  defines "V \<equiv> signed_take_bit m v" and "W \<equiv> signed_take_bit m w"
  shows "(bit v m = bit w m \<and> \<not> (bit (v + w) m = bit v m)) = (\<not> fits_signed (Suc m) (V + W))"
    "(z \<longrightarrow> W = - (2 ^ m)) \<Longrightarrow>
      (\<not> (bit v m = bit w m) \<and> (bit (v - w) m = bit w m \<or> z)) = (\<not> fits_signed (Suc m) (V - W))"
proof -
  have b: "- (2 ^ m) \<le> V" "V < 2 ^ m" "- (2 ^ m) \<le> W" "W < 2 ^ m"
    unfolding V_def W_def by (rule signed_bounds)+
  have sg: "bit v m = (V < 0)" "bit w m = (W < 0)" unfolding V_def W_def by (rule signed_sign)+
  have "signed_take_bit m (v + w) = signed_take_bit m (V + W)" "signed_take_bit m (v - w) = signed_take_bit m (V - W)"
    by (simp_all add: V_def W_def signed_take_bit_add signed_take_bit_diff)
  then have res: "bit (v + w) m = (signed_take_bit m (V + W) < 0)" "bit (v - w) m = (signed_take_bit m (V - W) < 0)"
    using signed_sign[of "v + w" m] signed_sign[of "v - w" m] by (simp_all only:)
  have "- (2 * 2 ^ m) \<le> V + W" "V + W < 2 * 2 ^ m" "- (2 * 2 ^ m) \<le> V - W" "V - W < 2 * 2 ^ m" using b by linarith+
  note wrap = wrap_signed[OF this(1,2)] wrap_signed[OF this(3,4)]
  show "(bit v m = bit w m \<and> \<not> (bit (v + w) m = bit v m)) = (\<not> fits_signed (Suc m) (V + W))"
    using signed_overflow_iff(1)[OF b wrap(1) refl] by (simp only: sg res fits_signed_def) simp
  show "(\<not> (bit v m = bit w m) \<and> (bit (v - w) m = bit w m \<or> z)) = (\<not> fits_signed (Suc m) (V - W))"
    if "z \<longrightarrow> W = - (2 ^ m)"
    using signed_overflow_iff(2)[OF b wrap(2) refl that] by (simp only: sg res fits_signed_def) simp
qed

context evaluator_laws
begin

section \<open>Bitwise operations and extension\<close>

lemma IfBits_rel:
  assumes "rel s z" "vrel rel xs v" "vrel rel ys w" "length xs = length ys"
  shows "\<exists>r. ae_IfBits ev s xs ys = Some r \<and> length r = length ys \<and> vrel rel r (if z then v else w)"
proof -
  have "vrel rel (map2 (ev_If ev s) xs ys) (if z then v else w)"
    using assms rel_If[OF assms(1)] by (intro vrel_map2[where g = "\<lambda>x y. if z then x else y"]) auto
  then show ?thesis using assms(4) by (simp add: ae_IfBits_def)
qed

lemma Bitwise_rel:
  assumes "vrel rel xs v" "vrel rel ys w" "length xs = length ys"
  shows "\<exists>r. ae_BitwiseAnd ev [xs, ys] = Some r \<and> length r = length xs \<and> vrel rel r (v AND w)"
    "\<exists>r. ae_BitwiseOr ev [xs, ys] = Some r \<and> length r = length xs \<and> vrel rel r (v OR w)"
    "\<exists>r. ae_BitwiseXor ev [xs, ys] = Some r \<and> length r = length xs \<and> vrel rel r (v XOR w)"
  using assms vrel_map2[OF assms rel_And, where u = "v AND w"] vrel_map2[OF assms rel_Or, where u = "v OR w"]
    vrel_map2[OF assms rel_Xor, where u = "v XOR w"]
  by (simp_all add: ae_BitwiseAnd_def ae_BitwiseOr_def ae_BitwiseXor_def NaryOp_pair bit_simps)

lemma BitwiseNot_rel: "vrel rel xs v \<Longrightarrow> vrel rel (ae_BitwiseNot ev xs) (NOT v)"
  unfolding ae_BitwiseNot_def by (erule vrel_map[OF _ rel_Not]) (auto simp: bit_not_iff)

lemma BitsToVector_rel:
  "\<exists>r. ae_BitsToVector ev (mkBitmap n v) = Some r \<and> length r = n \<and> vrel rel r (int v)"
proof -
  have "ae_BitsToVector ev (mkBitmap n v) = Some (map (\<lambda>i. if bit v i then ev_One ev else ev_Zero ev) [0..<n])"
    by (simp add: ae_BitsToVector_def, rule mapM_pure) (simp add: Get_mk)
  then show ?thesis using rel_One rel_Zero by (auto simp: vrel_def bit_of_nat_iff)
qed

lemma ZeroExtend_rel:
  assumes "vrel rel xs v" "length xs \<le> n"
  shows "\<exists>r. ae_ZeroExtend ev xs n = Some r \<and> length r = n \<and> vrel rel r (take_bit (length xs) v)"
  using assms vrel_zeros[of "n - length xs"]
  by (simp add: ae_ZeroExtend_def ae_Concat_def vrel_append vrel_take_bit drop_bit_take_bit)

lemma SignExtend_rel:
  assumes "vrel rel xs v" "xs \<noteq> []" "length xs \<le> n"
  shows "\<exists>r. ae_SignExtend xs n = Some r \<and> length r = n \<and> vrel rel r (signed_take_bit (length xs - 1) v)"
proof -
  have "vrel rel xs (signed_take_bit (length xs - 1) v)"
    using vrel_take_bit[of xs "signed_take_bit (length xs - 1) v"] vrel_take_bit[of xs v] assms(1,2)
      take_bit_signed[of "length xs" v] by simp
  moreover have "vrel rel (replicate (n - length xs) (last xs)) (drop_bit (length xs) (signed_take_bit (length xs - 1) v))"
    by (rule vrel_replicate[OF vrel_last[OF assms(1,2)]]) (auto simp: bit_drop_bit_eq bit_signed_take_bit_iff min_def)
  moreover have "length xs \<ge> 1" using assms(2) by (cases xs) auto
  ultimately show ?thesis using assms(2,3)
    by (simp add: ae_SignExtend_def ae_Concat_def back_eq vrel_append)
qed

lemma Gate_rel:
  assumes "rel a x" "vrel rel b v" "b \<noteq> []"
  shows "\<exists>r. ae_Gate ev a b = Some r \<and> length r = length b \<and> vrel rel r (if x then v else 0)"
proof -
  have "1 \<le> length b" using assms(3) by (cases b) auto
  then obtain s where s: "ae_SignExtend [a] (length b) = Some s" "length s = length b"
      "vrel rel s (signed_take_bit 0 (of_bool x))"
    using SignExtend_rel[of "[a]" "of_bool x" "length b"] assms(1) by auto
  have "signed_take_bit 0 (of_bool x) = (if x then - 1 else (0::int))" by (cases x) simp_all
  then show ?thesis using s Bitwise_rel(1)[OF s(3) assms(2) s(2)] by (auto simp: ae_Gate_def)
qed

section \<open>Comparisons\<close>

lemma Equals_rel:
  assumes "vrel rel xs v" "vrel rel ys w" "length xs = length ys"
  shows "\<exists>e. ae_Equals ev xs ys = Some e \<and> rel e (take_bit (length xs) v = take_bit (length xs) w)"
proof -
  obtain r where r: "ae_BitwiseXor ev [xs, ys] = Some r" "length r = length xs" "vrel rel r (v XOR w)"
    using Bitwise_rel(3)[OF assms] by blast
  have "(\<not> (\<exists>i<length xs. bit (v XOR w) i)) = (take_bit (length xs) v = take_bit (length xs) w)"
    by (auto simp: bit_eq_iff bit_simps)
  then show ?thesis using r rel_Not[OF OrReduce_bits(1)[OF r(3)]] by (simp add: ae_Equals_def)
qed

lemma ULessThan_fold_rel:
  assumes "vrel rel xs v" "vrel rel ys w" "length xs = length ys"
  shows "\<exists>e l z. foldr (\<lambda>(x, y) (result, upper_bits_lte).
           (ev_Or ev result (ev_And ev upper_bits_lte (ev_And ev (ev_Not ev x) y)),
            ev_And ev upper_bits_lte (ev_Or ev (ev_Not ev x) y))) (zip xs ys) (ev_Zero ev, ev_One ev) = (e, l) \<and>
      rel e (take_bit (length xs) v < take_bit (length xs) w) \<and> rel l z \<and>
      (take_bit (length xs) v < take_bit (length xs) w \<or> z = (take_bit (length xs) v = take_bit (length xs) w))"
  using assms(3,1,2)
proof (induction xs ys arbitrary: v w rule: list_induct2)
  case Nil
  then show ?case using rel_Zero rel_One by auto
next
  case (Cons x xs y ys)
  let ?V = "take_bit (length xs) (v div 2)" and ?W = "take_bit (length xs) (w div 2)"
  obtain e l z where h: "foldr (\<lambda>(x, y) (result, upper_bits_lte).
           (ev_Or ev result (ev_And ev upper_bits_lte (ev_And ev (ev_Not ev x) y)),
            ev_And ev upper_bits_lte (ev_Or ev (ev_Not ev x) y))) (zip xs ys) (ev_Zero ev, ev_One ev) = (e, l)"
      "rel e (?V < ?W)" "rel l z" "?V < ?W \<or> z = (?V = ?W)"
    using Cons.IH[of "v div 2" "w div 2"] Cons.prems by auto
  have xy: "rel x (odd v)" "rel y (odd w)" using Cons.prems by auto
  have res: "rel (ev_Or ev e (ev_And ev l (ev_And ev (ev_Not ev x) y))) (?V < ?W \<or> z \<and> \<not> odd v \<and> odd w)"
    "rel (ev_And ev l (ev_Or ev (ev_Not ev x) y)) (z \<and> (\<not> odd v \<or> odd w))"
    by (rule rel_Or[OF h(2) rel_And[OF h(3) rel_And[OF rel_Not[OF xy(1)] xy(2)]]],
        rule rel_And[OF h(3) rel_Or[OF rel_Not[OF xy(1)] xy(2)]])
  have "take_bit (Suc (length xs)) v = 2 * ?V + of_bool (odd v)" "take_bit (Suc (length xs)) w = 2 * ?W + of_bool (odd w)"
    by (simp_all add: take_bit_Suc mod_2_eq_odd)
  then have "(?V < ?W \<or> z \<and> \<not> odd v \<and> odd w) = (take_bit (Suc (length xs)) v < take_bit (Suc (length xs)) w)"
    "take_bit (Suc (length xs)) v < take_bit (Suc (length xs)) w \<or>
      (z \<and> (\<not> odd v \<or> odd w)) = (take_bit (Suc (length xs)) v = take_bit (Suc (length xs)) w)"
    using h(4) by auto
  then show ?case using h(1) res by auto
qed

lemma ULessThan_rel:
  assumes "vrel rel xs v" "vrel rel ys w" "length xs = length ys"
  shows "\<exists>e. ae_ULessThan ev xs ys = Some e \<and> rel e (take_bit (length xs) v < take_bit (length xs) w)"
  using ULessThan_fold_rel[OF assms] assms(3) by (auto simp: ae_ULessThan_def foldr_conv_fold)

lemma U_compare_rel:
  assumes "vrel rel xs v" "vrel rel ys w" "length xs = length ys"
  shows "\<exists>e. ae_ULessThanOrEqual ev xs ys = Some e \<and> rel e (take_bit (length xs) v \<le> take_bit (length xs) w)"
    "\<exists>e. ae_UGreaterThan ev xs ys = Some e \<and> rel e (take_bit (length xs) v > take_bit (length xs) w)"
    "\<exists>e. ae_UGreaterThanOrEqual ev xs ys = Some e \<and> rel e (take_bit (length xs) v \<ge> take_bit (length xs) w)"
  using ULessThan_rel[OF assms] ULessThan_rel[OF assms(2,1) assms(3)[symmetric]] assms(3) rel_Not
  by (fastforce simp: ae_ULessThanOrEqual_def ae_UGreaterThan_def ae_UGreaterThanOrEqual_def not_less)+

lemma SLessThan_rel:
  assumes "vrel rel xs v" "vrel rel ys w" "length xs = length ys" "xs \<noteq> []"
  shows "\<exists>e. ae_SLessThan ev xs ys = Some e \<and>
    rel e (signed_take_bit (length xs - 1) v < signed_take_bit (length xs - 1) w)"
proof -
  let ?m = "length xs - 1"
  have ne: "ys \<noteq> []" using assms by auto
  have sg: "rel (last xs) (bit v ?m)" "rel (last ys) (bit w ?m)"
    using vrel_last[OF assms(1,4)] vrel_last[OF assms(2) ne] assms(3) by auto
  obtain lt where lt: "ae_ULessThan ev (take ?m xs) (take (length ys - 1) ys) = Some lt"
      "rel lt (take_bit ?m v < take_bit ?m w)"
    using ULessThan_rel[OF vrel_take[OF assms(1)] vrel_take[OF assms(2)], of ?m "length ys - 1"] assms(3,4)
    by (auto simp: min.absorb2)
  let ?r = "if bit v ?m = bit w ?m then take_bit ?m v < take_bit ?m w else bit v ?m"
  have val: "?r = (signed_take_bit ?m v < signed_take_bit ?m w)"
    by (auto simp: signed_take_bit_eq_take_bit_minus take_bit_Suc_from_most split: if_splits)
      (use take_bit_nonnegative take_bit_int_less_exp in \<open>smt (verit)\<close>)+
  have "rel (ev_If ev (ae_Xnor ev (last xs) (last ys)) lt (last xs)) ?r"
    using rel_If[OF rel_Xnor[OF sg] lt(2) sg(1)] .
  moreover have "rel (ev_If ev (ae_Xnor ev (last xs) (last ys)) (ev_Zero ev) (last xs)) ?r" if "?m = 0"
    using rel_If[OF rel_Xnor[OF sg] rel_Zero sg(1)] unfolding that by (cases "bit v 0"; cases "bit w 0") simp_all
  ultimately show ?thesis using lt(1) assms(3,4) ne val by (cases "length xs = 1") (auto simp: ae_SLessThan_def back_eq)
qed

section \<open>Addition and subtraction\<close>

lemma add_loop_rel:
  assumes "vrel rel xs v" "vrel rel ys w" "length xs \<le> length ys" "rel c k"
  shows "\<exists>s. ae_add_loop ev xs ys c = Some s \<and> length (or_result s) = length xs \<and>
    vrel rel (or_result s) (v + w + of_bool k) \<and>
    rel (or_overflow s) (take_bit (length xs) v + take_bit (length xs) w + of_bool k \<ge> 2 ^ length xs)"
  using assms
proof (induction xs arbitrary: ys v w c k)
  case Nil
  then show ?case by (cases k) simp_all
next
  case (Cons x xs)
  obtain y zs where ys: "ys = y # zs" "length xs \<le> length zs" using Cons.prems(3) by (cases ys) auto
  let ?k = "(odd v \<and> odd w) \<or> ((odd v \<noteq> odd w) \<and> k)"
  have xy: "rel x (odd v)" "rel y (odd w)" using Cons.prems ys by auto
  note fa = FullAdder_rel[OF xy Cons.prems(4)]
  obtain s where s: "ae_add_loop ev xs zs (ar_carry (ae_FullAdder ev x y c)) = Some s"
      "length (or_result s) = length xs" "vrel rel (or_result s) (v div 2 + w div 2 + of_bool ?k)"
      "rel (or_overflow s) (take_bit (length xs) (v div 2) + take_bit (length xs) (w div 2) + of_bool ?k \<ge> 2 ^ length xs)"
    using Cons.IH[OF _ _ ys(2) fa(2), of "v div 2" "w div 2"] Cons.prems ys by auto
  have half: "v div 2 + w div 2 + of_bool ?k = (v + w + of_bool k) div 2"
    by (cases "odd v"; cases "odd w"; cases k) (auto elim!: oddE evenE)
  have "odd (v + w + of_bool k) = ((odd v \<noteq> odd w) \<noteq> k)" by auto
  then have "vrel rel (ar_sum (ae_FullAdder ev x y c) # or_result s) (v + w + of_bool k)"
    using fa(1) s(3) half by simp
  moreover have "(take_bit (length xs) (v div 2) + take_bit (length xs) (w div 2) + of_bool ?k \<ge> 2 ^ length xs) =
      (take_bit (Suc (length xs)) v + take_bit (Suc (length xs)) w + of_bool k \<ge> 2 ^ Suc (length xs))"
    by (auto simp: take_bit_Suc mod_2_eq_odd)
  ultimately show ?case using s ys(1) by (simp add: Let_def)
qed

lemma AddWithCarry_rel:
  assumes "vrel rel xs v" "vrel rel ys w" "length xs \<le> length ys"
  shows "\<exists>s. ae_AddWithCarry ev xs ys = Some s \<and> length (or_result s) = length xs \<and>
    vrel rel (or_result s) (v + w) \<and>
    rel (or_overflow s) (take_bit (length xs) v + take_bit (length xs) w \<ge> 2 ^ length xs)"
  using add_loop_rel[OF assms rel_Zero] by (simp add: ae_AddWithCarry_def)

lemma Add_rel:
  assumes "vrel rel xs v" "vrel rel ys w" "length xs \<le> length ys"
  shows "\<exists>r. ae_Add ev xs ys = Some r \<and> length r = length xs \<and> vrel rel r (v + w)"
  using AddWithCarry_rel[OF assms] by (auto simp: ae_Add_def)

lemma sub_loop_rel:
  assumes "vrel rel xs v" "vrel rel ys w" "length xs \<le> length ys" "rel c k"
  shows "\<exists>s. ae_sub_loop ev xs ys c = Some s \<and> length (or_result s) = length xs \<and>
    vrel rel (or_result s) (v - w - of_bool k) \<and>
    rel (or_overflow s) (take_bit (length xs) v < take_bit (length xs) w + of_bool k)"
  using assms
proof (induction xs arbitrary: ys v w c k)
  case Nil
  then show ?case by (cases k) simp_all
next
  case (Cons x xs)
  obtain y zs where ys: "ys = y # zs" "length xs \<le> length zs" using Cons.prems(3) by (cases ys) auto
  let ?k = "(\<not> odd v \<and> k) \<or> (\<not> odd v \<and> odd w) \<or> (odd w \<and> k)"
  have xy: "rel x (odd v)" "rel y (odd w)" using Cons.prems ys by auto
  note fs = FullSubtractor_rel[OF xy Cons.prems(4)]
  obtain s where s: "ae_sub_loop ev xs zs (sub_borrow (ae_FullSubtractor ev x y c)) = Some s"
      "length (or_result s) = length xs" "vrel rel (or_result s) (v div 2 - w div 2 - of_bool ?k)"
      "rel (or_overflow s) (take_bit (length xs) (v div 2) < take_bit (length xs) (w div 2) + of_bool ?k)"
    using Cons.IH[OF _ _ ys(2) fs(2), of "v div 2" "w div 2"] Cons.prems ys by auto
  have half: "v div 2 - w div 2 - of_bool ?k = (v - w - of_bool k) div 2"
    by (cases "odd v"; cases "odd w"; cases k) (auto elim!: oddE evenE)
  have "odd (v - w - of_bool k) = ((odd v \<noteq> odd w) \<noteq> k)" by auto
  then have "vrel rel (sub_diff (ae_FullSubtractor ev x y c) # or_result s) (v - w - of_bool k)"
    using fs(1) s(3) half by simp
  moreover have "(take_bit (length xs) (v div 2) < take_bit (length xs) (w div 2) + of_bool ?k) =
      (take_bit (Suc (length xs)) v < take_bit (Suc (length xs)) w + of_bool k)"
    by (auto simp: take_bit_Suc mod_2_eq_odd)
  ultimately show ?case using s ys(1) by (simp add: Let_def)
qed

lemma SubWithUnsignedUnderflow_rel:
  assumes "vrel rel xs v" "vrel rel ys w" "length xs \<le> length ys"
  shows "\<exists>s. ae_SubWithUnsignedUnderflow ev xs ys = Some s \<and> length (or_result s) = length xs \<and>
    vrel rel (or_result s) (v - w) \<and> rel (or_overflow s) (take_bit (length xs) v < take_bit (length xs) w)"
  using sub_loop_rel[OF assms rel_Zero] by (simp add: ae_SubWithUnsignedUnderflow_def)

lemma Sub_rel:
  assumes "vrel rel xs v" "vrel rel ys w" "length xs \<le> length ys"
  shows "\<exists>r. ae_Sub ev xs ys = Some r \<and> length r = length xs \<and> vrel rel r (v - w)"
  using SubWithUnsignedUnderflow_rel[OF assms] by (auto simp: ae_Sub_def)

lemma Neg_rel:
  assumes "vrel rel xs v"
  shows "\<exists>r. ae_Neg ev xs = Some r \<and> length r = length xs \<and> vrel rel r (- v)"
  using Sub_rel[OF vrel_zeros[of "length xs"] assms] by (auto simp: ae_Neg_def)

lemma Abs_rel:
  assumes "vrel rel xs v" "xs \<noteq> []"
  shows "\<exists>r. ae_Abs ev xs = Some r \<and> length r = length xs \<and> vrel rel r \<bar>signed_take_bit (length xs - 1) v\<bar>"
proof -
  obtain n where n: "ae_Neg ev xs = Some n" "length n = length xs" "vrel rel n (- v)"
    using Neg_rel[OF assms(1)] by blast
  let ?b = "bit v (length xs - 1)" and ?s = "signed_take_bit (length xs - 1) v"
  obtain r where r: "ae_IfBits ev (last xs) n xs = Some r" "length r = length xs"
      "vrel rel r (if ?b then - v else v)"
    using IfBits_rel[OF vrel_last[OF assms] n(3) assms(1) n(2)] by blast
  have "take_bit (length xs) ?s = take_bit (length xs) v"
    using assms(2) by (intro take_bit_signed) simp
  then have "take_bit (length xs) (if ?b then - v else v) = take_bit (length xs) \<bar>?s\<bar>"
    using signed_sign[of v "length xs - 1"] take_bit_minus[of "length xs" v] take_bit_minus[of "length xs" ?s]
    by (auto simp: abs_if)
  then have "vrel rel r \<bar>?s\<bar>" using r by (metis vrel_take_bit)
  then show ?thesis using n(1) r assms(2) by (simp add: ae_Abs_def back_eq)
qed

lemma Equals1_rel: "rel a x \<Longrightarrow> rel b y \<Longrightarrow> \<exists>e. ae_Equals ev [a] [b] = Some e \<and> rel e (x = y)"
  using Equals_rel[of "[a]" "of_bool x" "[b]" "of_bool y"] by (cases x; cases y) auto

lemma AddWithSignedOverflow_rel:
  assumes "vrel rel xs v" "vrel rel ys w" "length xs = length ys" "xs \<noteq> []"
  shows "\<exists>s. ae_AddWithSignedOverflow ev xs ys = Some s \<and> length (or_result s) = length xs \<and>
    vrel rel (or_result s) (v + w) \<and>
    rel (or_overflow s) (\<not> fits_signed (length xs)
      (signed_take_bit (length xs - 1) v + signed_take_bit (length xs - 1) w))"
proof -
  let ?m = "length xs - 1"
  obtain s where s: "ae_AddWithCarry ev xs ys = Some s" "length (or_result s) = length xs" "vrel rel (or_result s) (v + w)"
    using AddWithCarry_rel[OF assms(1,2)] assms(3) by auto
  have ne: "ys \<noteq> []" "or_result s \<noteq> []" using assms(3,4) s(2) by auto
  have sg: "rel (last xs) (bit v ?m)" "rel (last ys) (bit w ?m)" "rel (last (or_result s)) (bit (v + w) ?m)"
    using vrel_last[OF assms(1,4)] vrel_last[OF assms(2) ne(1)] vrel_last[OF s(3) ne(2)] assms(3) s(2) by auto
  obtain e f where ef: "ae_Equals ev [last xs] [last ys] = Some e" "rel e (bit v ?m = bit w ?m)"
      "ae_Equals ev [last (or_result s)] [last xs] = Some f" "rel f (bit (v + w) ?m = bit v ?m)"
    using Equals1_rel[OF sg(1,2)] Equals1_rel[OF sg(3,1)] by blast
  let ?V = "signed_take_bit ?m v" and ?W = "signed_take_bit ?m w"
  have "(bit v ?m = bit w ?m \<and> \<not> (bit (v + w) ?m = bit v ?m)) = (\<not> fits_signed (length xs) (?V + ?W))"
    using signed_flags(1)[of v ?m w] assms(4) by simp
  then show ?thesis using s ef rel_And[OF ef(2) rel_Not[OF ef(4)]] assms(4) ne
    by (simp add: ae_AddWithSignedOverflow_def back_eq)
qed

lemma SubWithSignedUnderflow_rel:
  assumes "vrel rel xs v" "vrel rel ys w" "length xs = length ys" "xs \<noteq> []"
  shows "\<exists>s. ae_SubWithSignedUnderflow ev xs ys = Some s \<and> length (or_result s) = length xs \<and>
    vrel rel (or_result s) (v - w) \<and>
    rel (or_overflow s) (\<not> fits_signed (length xs)
      (signed_take_bit (length xs - 1) v - signed_take_bit (length xs - 1) w))"
proof -
  let ?m = "length xs - 1"
  obtain s where s: "ae_SubWithUnsignedUnderflow ev xs ys = Some s" "length (or_result s) = length xs"
      "vrel rel (or_result s) (v - w)"
    using SubWithUnsignedUnderflow_rel[OF assms(1,2)] assms(3) by auto
  have ne: "ys \<noteq> []" "or_result s \<noteq> []" using assms(3,4) s(2) by auto
  have sg: "rel (last xs) (bit v ?m)" "rel (last ys) (bit w ?m)" "rel (last (or_result s)) (bit (v - w) ?m)"
    using vrel_last[OF assms(1,4)] vrel_last[OF assms(2) ne(1)] vrel_last[OF s(3) ne(2)] assms(3) s(2) by auto
  obtain e f where ef: "ae_Equals ev [last xs] [last ys] = Some e" "rel e (bit v ?m = bit w ?m)"
      "ae_Equals ev [last (or_result s)] [last ys] = Some f" "rel f (bit (v - w) ?m = bit w ?m)"
    using Equals1_rel[OF sg(1,2)] Equals1_rel[OF sg(3,2)] by blast
  let ?V = "signed_take_bit ?m v" and ?W = "signed_take_bit ?m w"
  have min: "rel (ev_And ev (last ys) (ev_Not ev (last (ae_OrReduce ev (take (length ys - 1) ys)))))
      (bit w ?m \<and> \<not> take_bit ?m w \<noteq> 0)"
    using rel_And[OF sg(2) rel_Not[OF OrReduce_rel(2)[OF vrel_take[OF assms(2), of "length ys - 1"]]]] assms(3)
    by (simp add: min.absorb2)
  have "(bit w ?m \<and> \<not> take_bit ?m w \<noteq> 0) \<longrightarrow> ?W = - (2 ^ ?m)"
    by (auto simp: signed_take_bit_eq_take_bit_minus take_bit_Suc_from_most)
  from signed_flags(2)[OF this, of v]
  have "(\<not> (bit v ?m = bit w ?m) \<and> (bit (v - w) ?m = bit w ?m \<or> (bit w ?m \<and> \<not> take_bit ?m w \<noteq> 0))) =
      (\<not> fits_signed (length xs) (?V - ?W))"
    using assms(4) by simp
  then show ?thesis using s ef rel_And[OF rel_Not[OF ef(2)] rel_Or[OF ef(4) min]] assms(4) ne
    by (simp add: ae_SubWithSignedUnderflow_def back_eq)
qed

end

end
