(* ===== verification/Evaluator_Select.thy ===== *)
theory Evaluator_Select
  imports Evaluator_Add
begin

text \<open>
  The selects of the evaluator template, in both implementations, and the shifts and dynamic
  slices built on them. \<open>select_value s vs d\<close> is the contract: the case the selector names, or the
  default when there is none.
\<close>

definition select_value :: "int \<Rightarrow> int list \<Rightarrow> int \<Rightarrow> int" where
  "select_value s vs d = (if s < int (length vs) then vs ! nat s else d)"

lemma select_value_nat: "select_value (int k) vs d = (if k < length vs then vs ! k else d)"
  by (simp add: select_value_def)

lemma select_value_split:
  assumes "0 \<le> t" "t < int p" "p \<le> length vs"
  shows "select_value (t + (if b then int p else 0)) vs d =
    (if b then select_value t (drop p vs) d else select_value t (take p vs) d)"
proof -
  obtain k where k: "t = int k" using assms(1) by (rule nonneg_int_cases)
  have "select_value (int k + int p) vs d = select_value (int k) (drop p vs) d"
    using select_value_nat[of "k + p"] assms(3) by (auto simp: select_value_nat add.commute)
  then show ?thesis using k assms by (auto simp: select_value_nat)
qed

definition one_hot_value :: "bool list \<Rightarrow> int list \<Rightarrow> int" where
  "one_hot_value bs vs = foldr (\<lambda>(b, v) r. (if b then v else 0) OR r) (zip bs vs) 0"

lemma bit_one_hot_value:
  "length bs = length vs \<Longrightarrow> bit (one_hot_value bs vs) j = (\<exists>i<length bs. bs ! i \<and> bit (vs ! i) j)"
proof (induction bs vs rule: list_induct2)
  case (Cons b bs v vs)
  then show ?case by (auto simp: one_hot_value_def bit_or_iff Ex_less_Suc2)
qed (simp add: one_hot_value_def)

lemma one_hot_value_single:
  assumes "length bs = length vs" "p < length bs" "\<And>i. i < length bs \<Longrightarrow> bs ! i = (i = p)"
  shows "one_hot_value bs vs = vs ! p"
  by (rule bit_eqI) (use assms in \<open>auto simp: bit_one_hot_value\<close>)

lemma mapM_rel:
  assumes "\<And>x. x \<in> set xs \<Longrightarrow> \<exists>y. f x = Some y \<and> P x y"
  shows "\<exists>ys. mapM f xs = Some ys \<and> list_all2 P xs ys"
  using assms
proof (induction xs)
  case (Cons x xs)
  obtain y where "f x = Some y" "P x y" using Cons.prems by auto
  moreover obtain ys where "mapM f xs = Some ys" "list_all2 P xs ys" using Cons by auto
  ultimately show ?case by simp
qed simp

lemma takeWhile_upt: "takeWhile (\<lambda>i. i < m) [0..<k] = [0..<min k m]"
proof (induction k)
  case (Suc k)
  then show ?case by (cases "k < m") (auto simp: takeWhile_append min_def)
qed simp

lemma MinBitCountUnsigned_le: "k < 2 ^ 64 \<Longrightarrow> MinBitCountUnsigned (word_of_nat k) \<le> n \<longleftrightarrow> k < 2 ^ n"
  by (simp add: MinBitCountUnsigned_nat_len nat_len_le_iff unat_of_nat)

lemma UBits_nat: "k < 2 ^ 64 \<Longrightarrow> k < 2 ^ n \<Longrightarrow> UBits (word_of_nat k) n = Some (mkBitmap n k)"
  by (simp add: UBits_mk unat_of_nat)

lemma div_exp_nonzero_iff: "0 \<le> x \<Longrightarrow> (x div 2 ^ c \<noteq> 0) = (2 ^ c \<le> x)" for x :: int
  using pos_imp_zdiv_pos_iff[of "2 ^ c" x] pos_imp_zdiv_nonneg_iff[of "2 ^ c" x] by auto

context evaluator_laws
begin

section \<open>One-hot select\<close>

definition cases_rel :: "nat \<Rightarrow> 'e list list \<Rightarrow> int list \<Rightarrow> bool" where
  "cases_rel w cs vs = list_all2 (\<lambda>c v. length c = w \<and> vrel rel c v) cs vs"

lemma one_hot_or_loop:
  assumes "list_all2 rel ss bs" "cases_rel w cs vs" "length ss = length cs" "vrel rel r u" "length r = w"
  shows "\<exists>t. foldM (\<lambda>(s, c) result. do {
            CHECK (w \<le> length c);
            Some (map2 (\<lambda>r x. ev_Or ev r (ev_And ev x s)) result c) }) (zip ss cs) r = Some t \<and>
      length t = w \<and> vrel rel t (u OR one_hot_value bs vs)"
  using assms(3,1,2,4,5)
proof (induction ss cs arbitrary: bs vs r u rule: list_induct2)
  case Nil
  then show ?case by (simp add: one_hot_value_def cases_rel_def)
next
  case (Cons s ss c cs)
  obtain b bs' v vs' where bv: "bs = b # bs'" "rel s b" "list_all2 rel ss bs'"
      "vs = v # vs'" "length c = w" "vrel rel c v" "cases_rel w cs vs'"
    using Cons.prems by (auto simp: list_all2_Cons1 cases_rel_def)
  let ?u = "u OR (if b then v else 0)"
  have "vrel rel (map2 (\<lambda>r x. ev_Or ev r (ev_And ev x s)) r c) ?u"
    using Cons.prems bv rel_Or rel_And
    by (intro vrel_map2[where g = "\<lambda>x y. x \<or> (y \<and> b)"]) (auto simp: bit_or_iff)
  from Cons.IH[OF bv(3,7) this] show ?case
    using bv Cons.prems by (simp add: one_hot_value_def or.assoc)
qed

lemma one_hot_and_loop:
  assumes "list_all2 rel ss bs" "cases_rel w cs vs" "length ss = length cs" "vrel rel r u" "length r = w"
  shows "\<exists>t x. foldM (\<lambda>(s, c) r.
            if \<not> ev_eq ev s (ev_Zero ev) then do {
              CHECK (w \<le> length c);
              Some (map2 (ev_And ev) r c) }
            else Some r) (zip ss cs) r = Some t \<and> length t = w \<and> vrel rel t x \<and>
      (\<forall>j. bit x j \<longrightarrow> bit u j \<and> (\<forall>i<length bs. bs ! i \<longrightarrow> bit (vs ! i) j))"
  using assms(3,1,2,4,5)
proof (induction ss cs arbitrary: bs vs r u rule: list_induct2)
  case Nil
  then show ?case by auto
next
  case (Cons s ss c cs)
  obtain b bs' v vs' where bv: "bs = b # bs'" "rel s b" "list_all2 rel ss bs'"
      "vs = v # vs'" "length c = w" "vrel rel c v" "cases_rel w cs vs'"
    using Cons.prems by (auto simp: list_all2_Cons1 cases_rel_def)
  let ?z = "ev_eq ev s (ev_Zero ev)"
  let ?r = "if ?z then r else map2 (ev_And ev) r c" and ?u = "if ?z then u else u AND v"
  have "vrel rel (map2 (ev_And ev) r c) (u AND v)"
    using Cons.prems bv rel_And by (intro vrel_map2[where g = "(\<and>)"]) (auto simp: bit_and_iff)
  then have r: "vrel rel ?r ?u" "length ?r = w" using Cons.prems bv by auto
  have "\<not> b" if ?z using eq_Zero[OF that bv(2)] .
  moreover obtain t x where tx: "foldM (\<lambda>(s, c) r.
            if \<not> ev_eq ev s (ev_Zero ev) then do {
              CHECK (w \<le> length c);
              Some (map2 (ev_And ev) r c) }
            else Some r) (zip ss cs) ?r = Some t" "length t = w" "vrel rel t x"
      "\<forall>j. bit x j \<longrightarrow> bit ?u j \<and> (\<forall>i<length bs'. bs' ! i \<longrightarrow> bit (vs' ! i) j)"
    using Cons.IH[OF bv(3,7) r] by blast
  ultimately have "\<forall>j. bit x j \<longrightarrow> bit u j \<and> (\<forall>i<length bs. bs ! i \<longrightarrow> bit (vs ! i) j)"
    by (auto simp: bv All_less_Suc2 bit_and_iff split: if_splits)
  then show ?case using tx bv(5) by (cases ?z) auto
qed

lemma OneHotSelect_rel:
  assumes "list_all2 rel ss bs" "cases_rel w cs vs" "length ss = length cs" "ss \<noteq> []"
    and some: "can_be_zero \<or> (\<exists>i<length bs. bs ! i)"
  shows "\<exists>r. ae_OneHotSelectInternal ev ss cs can_be_zero = Some r \<and> length r = w \<and>
    vrel rel r (one_hot_value bs vs)"
proof -
  have lens: "length bs = length ss" "length vs = length cs" using assms(1,2)
    by (auto simp: cases_rel_def dest: list_all2_lengthD)
  have w: "length (hd cs) = w" using assms by (cases cs) (auto simp: cases_rel_def list_all2_Cons1)
  obtain t where t: "foldM (\<lambda>(s, c) result. do {
            CHECK (w \<le> length c);
            Some (map2 (\<lambda>r x. ev_Or ev r (ev_And ev x s)) result c) }) (zip ss cs) (replicate w (ev_Zero ev)) = Some t"
      "length t = w" "vrel rel t (one_hot_value bs vs)"
    using one_hot_or_loop[OF assms(1-3) vrel_zeros[of w]] by auto
  have ones: "vrel rel (replicate w (ev_One ev)) (- 1)" by (rule vrel_replicate[OF rel_One]) simp
  obtain a x where a: "foldM (\<lambda>(s, c) r.
            if \<not> ev_eq ev s (ev_Zero ev) then do {
              CHECK (w \<le> length c);
              Some (map2 (ev_And ev) r c) }
            else Some r) (zip ss cs) (replicate w (ev_One ev)) = Some a" "length a = w" "vrel rel a x"
      "\<forall>j. bit x j \<longrightarrow> (\<forall>i<length bs. bs ! i \<longrightarrow> bit (vs ! i) j)"
    using one_hot_and_loop[OF assms(1-3) ones] by auto
  obtain r where r: "ae_BitwiseOr ev [a, t] = Some r" "length r = w" "vrel rel r (x OR one_hot_value bs vs)"
    using Bitwise_rel(2)[OF a(3) t(3)] a(2) t(2) by auto
  have "x OR one_hot_value bs vs = one_hot_value bs vs" if "\<not> can_be_zero"
  proof (rule bit_eqI)
    fix j
    show "bit (x OR one_hot_value bs vs) j = bit (one_hot_value bs vs) j"
      using a(4) some that lens assms(3) by (auto simp: bit_or_iff bit_one_hot_value)
  qed
  then show ?thesis using assms(3,4) t a r w by (auto simp: ae_OneHotSelectInternal_def)
qed

section \<open>Binary select\<close>

lemma select_one_hot_rel:
  assumes sel: "vrel rel selector s" and cs: "cases_rel w cs vs" "cs \<noteq> []" "length cs < 2 ^ 64"
    and dflt: "case dv of None \<Rightarrow> 2 ^ length selector \<le> length cs | Some e \<Rightarrow> length e = w \<and> vrel rel e d"
  shows "\<exists>r. ae_SelectInternal_one_hot ev selector cs dv = Some r \<and> length r = w \<and>
    vrel rel r (select_value (take_bit (length selector) s) vs d)"
proof -
  let ?n = "length selector" and ?k = "length cs"
  let ?s = "take_bit ?n s" and ?m = "min ?k (2 ^ ?n)"
  have s: "0 \<le> ?s" "?s < 2 ^ ?n" by simp_all
  have vs: "length vs = ?k" using cs(1) by (auto simp: cases_rel_def dest: list_all2_lengthD)
  have "MinBitCountUnsigned (word_of_nat i) > ?n \<longleftrightarrow> \<not> i < 2 ^ ?n" if "i \<in> set [0..<?k]" for i
    using MinBitCountUnsigned_le[of i ?n] that cs(3) by auto
  then have tw: "takeWhile (\<lambda>i. \<not> MinBitCountUnsigned (word_of_nat i) > ?n) [0..<?k] = [0..<?m]"
    using takeWhile_cong[of "[0..<?k]" "[0..<?k]" _ "\<lambda>i. i < 2 ^ ?n"] takeWhile_upt[of "2 ^ ?n" ?k] by simp
  obtain oh where oh: "ae_one_hot_selector ev selector ?k = Some oh" "list_all2 (\<lambda>i e. rel e (?s = int i)) [0..<?m] oh"
  proof -
    have "\<exists>e. (do { u \<leftarrow> UBits (word_of_nat i) ?n; v \<leftarrow> ae_BitsToVector ev u; ae_Equals ev selector v }) = Some e \<and>
        rel e (?s = int i)" if "i \<in> set [0..<?m]" for i
    proof -
      have i: "i < 2 ^ ?n" "i < 2 ^ 64" using that cs(3) by auto
      obtain v where v: "ae_BitsToVector ev (mkBitmap ?n i) = Some v" "length v = ?n" "vrel rel v (int i)"
        using BitsToVector_rel by blast
      have "take_bit ?n (int i) = int i" using i(1) by (simp add: take_bit_int_eq_self)
      then show ?thesis using Equals_rel[OF sel v(3)] v i by (simp add: UBits_nat)
    qed
    then have "\<exists>ys. mapM (\<lambda>i. do { u \<leftarrow> UBits (word_of_nat i) ?n; v \<leftarrow> ae_BitsToVector ev u; ae_Equals ev selector v }) [0..<?m] = Some ys \<and>
        list_all2 (\<lambda>i e. rel e (?s = int i)) [0..<?m] ys" by (rule mapM_rel)
    then show ?thesis using that unfolding ae_one_hot_selector_def tw by blast
  qed
  have len: "length oh = ?m" using list_all2_lengthD[OF oh(2)] by simp
  let ?bs = "map (\<lambda>i. ?s = int i) [0..<?m]"
  have "\<forall>i<length oh. i < ?k \<and> i < 2 ^ ?n" using len by (metis min_less_iff_conj)
  then have ohb: "list_all2 rel oh ?bs" using oh(2) len by (auto simp: list_all2_conv_all_nth)
  have single: "?bs ! i = (i = nat ?s)" if "i < ?m" for i using that s by auto
  show ?thesis
  proof (cases "dv = None \<or> ?k > 2 ^ ?n")
    case True
    then have big: "?m = 2 ^ ?n" using dflt by (auto simp: min_def)
    have in_range: "nat ?s < ?m" using s big by (simp add: nat_less_iff)
    have tk: "cases_rel w (take ?m cs) (take ?m vs)" using cs(1) by (simp add: cases_rel_def list_all2_takeI)
    have "\<exists>r. ae_OneHotSelectInternal ev oh (take ?m cs) False = Some r \<and> length r = w \<and>
        vrel rel r (one_hot_value ?bs (take ?m vs))"
    proof (rule OneHotSelect_rel[OF ohb tk])
      show "length oh = length (take ?m cs)" using len by simp
      show "oh \<noteq> []" using len in_range by (metis length_0_conv not_less0)
      show "False \<or> (\<exists>i<length ?bs. ?bs ! i)" using single[OF in_range] in_range by (intro disjI2 exI[of _ "nat ?s"]) simp
    qed
    moreover have "one_hot_value ?bs (take ?m vs) = select_value ?s vs d"
    proof -
      obtain p where p: "?s = int p" using s(1) by (rule nonneg_int_cases)
      have "one_hot_value ?bs (take ?m vs) = take ?m vs ! p"
        using in_range p vs by (intro one_hot_value_single) auto
      then show ?thesis using in_range p vs by (simp add: select_value_nat)
    qed
    moreover have "ae_SelectInternal_one_hot ev selector cs dv = ae_OneHotSelectInternal ev oh (take ?m cs) False"
      unfolding ae_SelectInternal_one_hot_def oh(1) Option.bind_lunit Let_def len
      using True big by (cases "?k > 2 ^ ?n") auto
    ultimately show ?thesis by simp
  next
    case False
    then obtain e where e: "dv = Some e" "length e = w" "vrel rel e d" and le: "?k \<le> 2 ^ ?n" using dflt by auto
    then have m: "?m = ?k" by simp
    have k1: "word_of_nat ?k - 1 = (word_of_nat (?k - 1) :: 64 word)" using cs(2) by (cases cs) simp_all
    have kb: "?k - 1 < 2 ^ 64" "?k - 1 < 2 ^ ?n" using cs(2,3) le by (cases cs; simp)+
    obtain v where v: "ae_BitsToVector ev (mkBitmap ?n (?k - 1)) = Some v" "length v = ?n" "vrel rel v (int (?k - 1))"
      using BitsToVector_rel by blast
    have "take_bit ?n (int (?k - 1)) = int (?k - 1)" using kb(2) by (intro take_bit_int_eq_self) auto
    then obtain lt where lt: "ae_ULessThan ev v selector = Some lt" "rel lt (int (?k - 1) < ?s)"
      using ULessThan_rel[OF v(3) sel] v(2) by auto
    let ?bs' = "?bs @ [int (?k - 1) < ?s]"
    let ?p = "if ?s < int ?k then nat ?s else ?k"
    have one: "?bs' ! i = (i = ?p)" if "i < length ?bs'" for i
    proof -
      obtain q where q: "?s = int q" using s(1) by (rule nonneg_int_cases)
      have "(int (?k - 1) < int q) = (?k \<le> q)" using cs(2) by (cases cs) auto
      then show ?thesis using that m by (cases "i < ?k") (auto simp: nth_append q)
    qed
    have p: "?p < length ?bs'" using m s by (auto simp: nat_less_iff)
    have "\<exists>r. ae_OneHotSelectInternal ev (oh @ [lt]) (cs @ [e]) False = Some r \<and> length r = w \<and>
        vrel rel r (one_hot_value ?bs' (vs @ [d]))"
      using ohb lt(2) cs(1) e len m p one[OF p]
      by (intro OneHotSelect_rel) (auto simp: cases_rel_def list_all2_appendI intro!: exI[of _ ?p])
    moreover have "one_hot_value ?bs' (vs @ [d]) = select_value ?s vs d"
      using one_hot_value_single[of ?bs' "vs @ [d]" ?p] one p m vs s
      by (auto simp: select_value_def nth_append nat_less_iff)
    ultimately show ?thesis using oh(1) e(1) k1 kb v(1) lt(1) len m
      by (simp add: ae_SelectInternal_one_hot_def UBits_nat)
  qed
qed

lemma cases_rel_take: "cases_rel w cs vs \<Longrightarrow> cases_rel w (take k cs) (take k vs)"
  by (simp add: cases_rel_def list_all2_takeI)

lemma cases_rel_drop: "cases_rel w cs vs \<Longrightarrow> cases_rel w (drop k cs) (drop k vs)"
  by (simp add: cases_rel_def list_all2_dropI)

lemma cases_rel_nth: "cases_rel w cs vs \<Longrightarrow> i < length cs \<Longrightarrow> length (cs ! i) = w \<and> vrel rel (cs ! i) (vs ! i)"
  by (simp add: cases_rel_def list_all2_conv_all_nth)

lemma cases_rel_length: "cases_rel w cs vs \<Longrightarrow> length vs = length cs"
  by (auto simp: cases_rel_def dest: list_all2_lengthD)

lemma int_shl_size_small: "2 ^ n < (2 :: nat) ^ 31 \<Longrightarrow> int_shl_size n = Some (2 ^ n)"
  unfolding int_shl_size_def by (simp only: power_strict_increasing_iff[of "2 :: nat" n 31]) simp

text \<open>What is left once the selector is not wider than the number of cases asks for.\<close>

lemma select_ite_step:
  assumes IH: "\<And>selector cs vs dv. length selector < n \<Longrightarrow> selector \<noteq> [] \<Longrightarrow> vrel rel selector s \<Longrightarrow>
      cases_rel w cs vs \<Longrightarrow> length cs < 2 ^ 31 \<Longrightarrow>
      (case dv of None \<Rightarrow> 2 ^ length selector \<le> length cs | Some e \<Rightarrow> length e = w \<and> vrel rel e d) \<Longrightarrow>
      \<exists>r. ae_SelectInternal_ite ev selector cs dv = Some r \<and> length r = w \<and>
        vrel rel r (select_value (take_bit (length selector) s) vs d)"
    and sel: "vrel rel selector s" "length selector = n" "n > 0"
    and cs: "cases_rel w cs vs" "2 ^ (n - 1) \<le> length cs" "length cs < 2 ^ 31"
    and dflt: "case dv of None \<Rightarrow> 2 ^ n \<le> length cs | Some e \<Rightarrow> length e = w \<and> vrel rel e d"
  shows "\<exists>r. (if n = 1 then do {
                  CHECK (length cs \<ge> 2 \<or> dv \<noteq> None);
                  c \<leftarrow> (if length cs \<ge> 2 then Some (cs ! 1) else dv);
                  ae_IfBits ev (hd selector) c (hd cs) }
                else if selector = [] then None
                else do {
                  let msb = last selector;
                  let tail = butlast selector;
                  k \<leftarrow> int_shl_size (length tail);
                  high_cases \<leftarrow> subspan cs k;
                  h \<leftarrow> ae_SelectInternal_ite ev tail high_cases dv;
                  l \<leftarrow> ae_SelectInternal_ite ev tail (take k cs) None;
                  ae_IfBits ev msb h l }) = Some r \<and> length r = w \<and>
      vrel rel r (select_value (take_bit n s) vs d)"
proof -
  have vs: "length vs = length cs" using cs(1) by (rule cases_rel_length)
  have top: "take_bit n s = take_bit (n - 1) s + (if bit s (n - 1) then 2 ^ (n - 1) else 0)"
    using sel(3) take_bit_Suc_from_most[of "n - 1" s] by simp
  show ?thesis
  proof (cases "n = 1")
    case True
    then obtain x where x: "selector = [x]" "rel x (odd s)" using sel by (cases selector) auto
    have ne: "cs \<noteq> []" using cs(2) True by auto
    have hd: "length (hd cs) = w" "vrel rel (hd cs) (vs ! 0)" using cases_rel_nth[OF cs(1), of 0] ne
      by (auto simp: hd_conv_nth)
    have "\<exists>c. (length cs \<ge> 2 \<or> dv \<noteq> None) \<and> (if length cs \<ge> 2 then Some (cs ! 1) else dv) = Some c \<and>
        length c = w \<and> vrel rel c (if length cs \<ge> 2 then vs ! 1 else d)"
      using cases_rel_nth[OF cs(1), of 1] dflt True by (auto split: option.splits)
    then obtain c where c: "length cs \<ge> 2 \<or> dv \<noteq> None" "(if length cs \<ge> 2 then Some (cs ! 1) else dv) = Some c"
        "length c = w" "vrel rel c (if length cs \<ge> 2 then vs ! 1 else d)" by blast
    have "select_value (take_bit 1 s) vs d = (if odd s then if length cs \<ge> 2 then vs ! 1 else d else vs ! 0)"
      using ne vs by (auto simp: select_value_def take_bit_Suc mod_2_eq_odd not_le)
    then show ?thesis using True IfBits_rel[OF x(2) c(4) hd(2)] c hd(1) x(1) by (auto simp del: One_nat_def)
  next
    case False
    let ?t = "butlast selector" and ?p = "2 ^ (n - 1) :: nat"
    have t: "length ?t = n - 1" "?t \<noteq> []" "length ?t < n" "vrel rel ?t s"
      using sel False by (auto simp: butlast_conv_take vrel_take)
    have ne: "selector \<noteq> []" using sel by auto
    have sub: "subspan cs ?p = Some (drop ?p cs)" using cs(2) by (simp add: subspan_def)
    have shl: "int_shl_size (n - 1) = Some ?p" by (rule int_shl_size_small[OF le_less_trans[OF cs(2,3)]])
    have hd: "case dv of None \<Rightarrow> 2 ^ length ?t \<le> length (drop ?p cs) | Some e \<Rightarrow> length e = w \<and> vrel rel e d"
      using dflt sel(3) t(1) by (cases n) (auto split: option.splits)
    have "length (drop ?p cs) < 2 ^ 31" using cs(3) by simp
    then obtain h where h: "ae_SelectInternal_ite ev ?t (drop ?p cs) dv = Some h" "length h = w"
        "vrel rel h (select_value (take_bit (n - 1) s) (drop ?p vs) d)"
      using IH[OF t(3,2,4) cases_rel_drop[OF cs(1), of ?p] _ hd] t(1) by auto
    obtain l where l: "ae_SelectInternal_ite ev ?t (take ?p cs) None = Some l" "length l = w"
        "vrel rel l (select_value (take_bit (n - 1) s) (take ?p vs) d)"
      using IH[OF t(3,2,4) cases_rel_take[OF cs(1), of ?p], where dv = None] cs(2,3) t(1) by auto
    have small: "0 \<le> take_bit (n - 1) s" "take_bit (n - 1) s < int ?p" by simp_all
    have "select_value (take_bit n s) vs d =
        (if bit s (n - 1) then select_value (take_bit (n - 1) s) (drop ?p vs) d
         else select_value (take_bit (n - 1) s) (take ?p vs) d)"
      using select_value_split[OF small, of vs "bit s (n - 1)" d] cs(2) vs unfolding top
      by (cases "bit s (n - 1)") simp_all
    moreover have "rel (last selector) (bit s (n - 1))" using vrel_last[OF sel(1) ne] sel(2) by simp
    ultimately show ?thesis
      using False ne sub shl h l t(1) IfBits_rel[of "last selector" "bit s (n - 1)" h _ l] by (auto simp: Let_def)
  qed
qed

lemma select_ite_rel:
  assumes "vrel rel selector s" "selector \<noteq> [] \<or> cs = []" "cases_rel w cs vs" "length cs < 2 ^ 31"
    and "case dv of None \<Rightarrow> 2 ^ length selector \<le> length cs | Some e \<Rightarrow> length e = w \<and> vrel rel e d"
  shows "\<exists>r. ae_SelectInternal_ite ev selector cs dv = Some r \<and> length r = w \<and>
    vrel rel r (select_value (take_bit (length selector) s) vs d)"
  using assms
proof (induction "length selector" arbitrary: selector cs vs dv rule: less_induct)
  case less
  let ?n = "length selector" and ?k = "length cs"
  let ?cb = "nat_len (?k - (if dv \<noteq> None then 0 else 1))"
  have vs: "length vs = ?k" using less.prems(3) by (rule cases_rel_length)
  have cb: "MinBitCountUnsigned (word_of_nat (?k - (if dv \<noteq> None then 0 else 1))) = ?cb"
    using less.prems(4) by (simp add: MinBitCountUnsigned_nat_len unat_of_nat)
  have s: "0 \<le> take_bit ?n s" "take_bit ?n s < 2 ^ ?n" by simp_all
  show ?case
  proof (cases "cs = []")
    case True
    then show ?thesis using less.prems(5) vs
      by (subst ae_SelectInternal_ite.simps) (auto simp: select_value_def split: option.splits)
  next
    case ne: False
    then have n: "?n > 0" using less.prems(2) by auto
    have full: "?n \<le> ?cb" if "dv = None"
    proof (rule ccontr)
      assume "\<not> ?n \<le> ?cb"
      then have "?k - 1 < 2 ^ (?n - 1)" using nat_len_le_iff[of "?k - 1" "?n - 1"] that by auto
      moreover have "2 ^ ?n \<le> ?k" using less.prems(5) that by simp
      moreover have "(2::nat) ^ ?n = 2 * 2 ^ (?n - 1)" using n by (cases ?n) auto
      ultimately show False by linarith
    qed
    show ?thesis
    proof (cases "?n > ?cb")
      case True
      then obtain e where e: "dv = Some e" "length e = w" "vrel rel e d" using full less.prems(5) by (cases dv) auto
      have "nat_len ?k \<noteq> 0" using ne by simp
      then have cbk: "?cb = nat_len ?k" "0 < ?cb" "?k < 2 ^ ?cb"
        using e(1) nat_lt_exp_len[of ?k] by (simp_all only: neq0_conv option.discI if_True diff_zero not_False_eq_True)
      have tk: "length (take ?cb selector) = ?cb" using True by simp
      have take: "take ?cb selector \<noteq> []" using tk cbk(2) by auto
      obtain r where r: "ae_SelectInternal_ite ev (take ?cb selector) cs dv = Some r" "length r = w"
          "vrel rel r (select_value (take_bit ?cb s) vs d)"
        using less.hyps[of "take ?cb selector" cs vs dv] take less.prems vrel_take True e tk by auto
      let ?hi = "take_bit (?n - ?cb) (drop_bit ?cb s)"
      have hi: "rel (hd (ae_OrReduce ev (drop ?cb selector))) (?hi \<noteq> 0)"
        using OrReduce_rel(1)[OF vrel_drop[OF less.prems(1)]] by simp
      have "?hi = take_bit ?n s div 2 ^ ?cb" using drop_bit_take_bit[of ?cb ?n s] drop_bit_eq_div[of ?cb "take_bit ?n s"] by (simp only:)
      then have hi_iff: "(?hi \<noteq> 0) = (2 ^ ?cb \<le> take_bit ?n s)"
        using div_exp_nonzero_iff[OF s(1)] by (simp only:)
      have "take_bit ?cb s = take_bit ?n s" if "take_bit ?n s < 2 ^ ?cb"
        using take_bit_int_eq_self[OF s(1) that] True by (simp add: min_def)
      moreover have "int ?k < 2 ^ ?cb" using cbk(3) by (metis of_nat_less_iff of_nat_numeral of_nat_power)
      then have "\<not> take_bit ?n s < int ?k" if "2 ^ ?cb \<le> take_bit ?n s" using that by linarith
      ultimately have "select_value (take_bit ?n s) vs d = (if ?hi \<noteq> 0 then d else select_value (take_bit ?cb s) vs d)"
        unfolding hi_iff using vs by (auto simp: select_value_def)
      moreover obtain x where x: "ae_IfBits ev (hd (ae_OrReduce ev (drop ?cb selector))) e r = Some x" "length x = w"
          "vrel rel x (if ?hi \<noteq> 0 then d else select_value (take_bit ?cb s) vs d)"
        using IfBits_rel[OF hi e(3) r(3)] e(2) r(2) by metis
      moreover have "ae_SelectInternal_ite ev selector cs dv = do {
          d \<leftarrow> dv;
          r \<leftarrow> ae_SelectInternal_ite ev (take ?cb selector) cs dv;
          ae_IfBits ev (hd (ae_OrReduce ev (drop ?cb selector))) d r }"
        using True ne by (subst ae_SelectInternal_ite.simps) (simp only: cb Let_def if_True if_False)
      ultimately show ?thesis using e(1) r(1) by (simp only: Option.bind_lunit) auto
    next
      case False
      define core where "core cs' dv' = (if ?n = 1 then do {
                  CHECK (length cs' \<ge> 2 \<or> dv' \<noteq> None);
                  c \<leftarrow> (if length cs' \<ge> 2 then Some (cs' ! 1) else dv');
                  ae_IfBits ev (hd selector) c (hd cs') }
                else if selector = [] then None
                else do {
                  let msb = last selector;
                  let tail = butlast selector;
                  k \<leftarrow> int_shl_size (length tail);
                  high_cases \<leftarrow> subspan cs' k;
                  h \<leftarrow> ae_SelectInternal_ite ev tail high_cases dv';
                  l \<leftarrow> ae_SelectInternal_ite ev tail (take k cs') None;
                  ae_IfBits ev msb h l })" for cs' and dv' :: "'e list option"
      have step: "\<exists>r. core cs' dv' = Some r \<and> length r = w \<and> vrel rel r (select_value (take_bit ?n s) vs' d)"
        if "cases_rel w cs' vs'" "2 ^ (?n - 1) \<le> length cs'" "length cs' < 2 ^ 31"
          "case dv' of None \<Rightarrow> 2 ^ ?n \<le> length cs' | Some e \<Rightarrow> length e = w \<and> vrel rel e d" for cs' vs' dv'
        unfolding core_def
        by (rule select_ite_step[OF _ less.prems(1) refl n that]) (use less.hyps in blast)
      have unf: "ae_SelectInternal_ite ev selector cs dv =
          do { (cases, default_value) \<leftarrow>
                 (if ?cb > ?n then do { k \<leftarrow> int_shl_size ?n; Some (take k cs, None) } else Some (cs, dv));
               core cases default_value }"
        using False ne by (subst ae_SelectInternal_ite.simps) (simp only: cb core_def Let_def if_True if_False case_prod_unfold)
      show ?thesis
      proof (cases "?cb > ?n")
        case True
        then have k: "2 ^ ?n \<le> ?k" using nat_len_le_iff[of "?k - (if dv \<noteq> None then 0 else 1)" ?n]
          by (auto split: if_splits)
        have "(2::nat) ^ (?n - 1) \<le> 2 ^ ?n" by (rule power_increasing) auto
        then have lens: "2 ^ (?n - 1) \<le> length (take (2 ^ ?n) cs)" "length (take (2 ^ ?n) cs) < 2 ^ 31"
          "case None of None \<Rightarrow> 2 ^ ?n \<le> length (take (2 ^ ?n) cs) | Some e \<Rightarrow> length e = w \<and> vrel rel e d"
          using k less.prems(4) by (simp_all add: min_def)
        have "(2::int) ^ ?n \<le> int ?k" using of_nat_mono[OF k, where 'a = int] by simp
        then have "take_bit ?n s < int ?k" using s(2) by linarith
        then have "select_value (take_bit ?n s) (take (2 ^ ?n) vs) d = select_value (take_bit ?n s) vs d"
          using s vs k by (auto simp: select_value_def nat_less_iff min_def)
        moreover have "int_shl_size ?n = Some (2 ^ ?n)" by (rule int_shl_size_small[OF le_less_trans[OF k less.prems(4)]])
        ultimately show ?thesis using step[OF cases_rel_take[OF less.prems(3), of "2 ^ ?n"] lens] unf True by simp
      next
        case eq: False
        have "2 ^ (?n - 1) \<le> ?k" using False eq n nat_len_le_iff[of "?k - (if dv \<noteq> None then 0 else 1)" "?n - 1"]
          by (auto split: if_splits)
        then show ?thesis using step[OF less.prems(3) _ less.prems(4,5)] unf eq by simp
      qed
    qed
  qed
qed

lemma Select_rel:
  assumes "vrel rel selector s" "selector \<noteq> [] \<or> \<not> kIsITEFundamental ev" "cases_rel w cs vs" "cs \<noteq> []"
    "length cs < 2 ^ 64" "kIsITEFundamental ev \<longrightarrow> length cs < 2 ^ 31"
    and "case dv of None \<Rightarrow> 2 ^ length selector \<le> length cs | Some e \<Rightarrow> length e = w \<and> vrel rel e d"
  shows "\<exists>r. ae_SelectInternal ev selector cs dv = Some r \<and> length r = w \<and>
    vrel rel r (select_value (take_bit (length selector) s) vs d)"
  using select_one_hot_rel[OF assms(1,3,4,5,7)] select_ite_rel[OF assms(1) _ assms(3) _ assms(7)] assms(2,6)
  by (auto simp: ae_SelectInternal_def)

end

end
