(* ===== verification/Evaluator_Shift.thy ===== *)
theory Evaluator_Shift
  imports Evaluator_Select
begin

text \<open>
  The operations of the evaluator template that are selections in disguise: shifts by a vector,
  slices and slice updates at a position given by a vector, one-hot encodings and the priority
  select, decoding and encoding.
\<close>

text \<open>The bits of \<open>v\<close> with the window of \<open>m\<close> bits at \<open>s\<close> replaced by the bits of \<open>u\<close>.\<close>

definition window_value :: "int \<Rightarrow> nat \<Rightarrow> int \<Rightarrow> nat \<Rightarrow> int" where
  "window_value v s u m = take_bit s v OR push_bit s (take_bit m u) OR push_bit (s + m) (drop_bit (s + m) v)"

lemma bit_window_value:
  "bit (window_value v s u m) i = (if s \<le> i \<and> i < s + m then bit u (i - s) else bit v i)"
  by (auto simp: window_value_def bit_simps)

lemma push_drop_bit: "i \<le> n \<Longrightarrow> drop_bit (n - i) (push_bit n v) = push_bit i v" for v :: int
  by (rule bit_eqI) (auto simp: bit_simps)

lemma Shift_unfold:
  assumes "xs \<noteq> []"
  shows "ae_Shift ev xs amount right arith =
    (let f = (if right then (\<lambda>i. take (length xs) (drop i (xs @ replicate (length xs) (if arith then last xs else ev_Zero ev))))
              else (\<lambda>i. take (length xs) (drop (length xs - i) (replicate (length xs) (ev_Zero ev) @ xs))));
         cs = map f [0..<length xs + 1]
     in ae_SelectInternal ev amount (take (length cs - 1) cs) (Some (last cs)))"
  using assms by (simp only: ae_Shift_def Let_def if_False add_diff_cancel_right' if_distrib[of "\<lambda>f. map f _"])

context evaluator_laws
begin

section \<open>Shifts\<close>

lemma window_rel:
  assumes "vrel rel ext V" "i + n \<le> length ext"
  shows "length (take n (drop i ext)) = n \<and> vrel rel (take n (drop i ext)) (drop_bit i V)"
  using assms by (simp add: vrel_take vrel_drop)

lemma Shift_select_rel:
  assumes amt: "vrel rel amount a" "amount \<noteq> [] \<or> \<not> kIsITEFundamental ev"
    and n: "0 < n" "n < 2 ^ 63" "kIsITEFundamental ev \<longrightarrow> n < 2 ^ 31"
    and f: "\<And>i. i \<le> n \<Longrightarrow> length (f i) = n \<and> vrel rel (f i) (g i)"
    and sat: "\<And>i j. n \<le> i \<Longrightarrow> j < n \<Longrightarrow> bit (g i) j = bit (g n) j"
  shows "\<exists>r. ae_SelectInternal ev amount (take (length (map f [0..<n + 1]) - 1) (map f [0..<n + 1]))
      (Some (last (map f [0..<n + 1]))) = Some r \<and> length r = n \<and>
    vrel rel r (g (nat (take_bit (length amount) a)))"
proof -
  let ?s = "nat (take_bit (length amount) a)"
  have cs: "take (length (map f [0..<n + 1]) - 1) (map f [0..<n + 1]) = map f [0..<n]"
    "last (map f [0..<n + 1]) = f n"
    by (simp_all add: take_map)
  have "cases_rel n (map f [0..<n]) (map g [0..<n])" using f by (simp add: cases_rel_def list_all2_conv_all_nth)
  moreover have "case Some (f n) of None \<Rightarrow> 2 ^ length amount \<le> length (map f [0..<n])
      | Some e \<Rightarrow> length e = n \<and> vrel rel e (g n)" using f by simp
  ultimately obtain r where r: "ae_SelectInternal ev amount (map f [0..<n]) (Some (f n)) = Some r" "length r = n"
      "vrel rel r (select_value (take_bit (length amount) a) (map g [0..<n]) (g n))"
    using Select_rel[OF amt, where cs = "map f [0..<n]" and vs = "map g [0..<n]" and dv = "Some (f n)" and d = "g n" and w = n] n
    by auto
  obtain q where q: "take_bit (length amount) a = int q" by (rule nonneg_int_cases[OF take_bit_nonnegative])
  have "vrel rel r (g q)"
    using r(2,3) sat[of q] by (cases "q < n") (auto simp: q select_value_nat cong: vrel_cong)
  then show ?thesis using r(1,2) cs q by simp
qed

lemma Shift_rel:
  assumes v: "vrel rel xs v" "xs \<noteq> []" "length xs < 2 ^ 63"
    and amt: "vrel rel amount a" "amount \<noteq> [] \<or> \<not> kIsITEFundamental ev"
    and small: "kIsITEFundamental ev \<longrightarrow> length xs < 2 ^ 31"
  defines "s \<equiv> nat (take_bit (length amount) a)"
  shows "\<exists>r. ae_ShiftRightLogical ev xs amount = Some r \<and> length r = length xs \<and>
      vrel rel r (drop_bit s (take_bit (length xs) v))"
    "\<exists>r. ae_ShiftRightArith ev xs amount = Some r \<and> length r = length xs \<and>
      vrel rel r (drop_bit s (signed_take_bit (length xs - 1) v))"
    "\<exists>r. ae_ShiftLeftLogical ev xs amount = Some r \<and> length r = length xs \<and> vrel rel r (push_bit s v)"
proof -
  let ?n = "length xs"
  have n: "0 < ?n" using v(2) by simp
  note sel = Shift_select_rel[OF amt n v(3) small]
  let ?U = "take_bit ?n v" and ?S = "signed_take_bit (?n - 1) v"
  have zext: "vrel rel (xs @ replicate ?n (ev_Zero ev)) ?U"
    using v(1) vrel_zeros[of ?n] by (simp add: vrel_append vrel_take_bit drop_bit_take_bit)
  have "vrel rel xs ?S" using vrel_take_bit[of xs ?S] vrel_take_bit[of xs v] v(1) take_bit_signed[OF n, of v] by simp
  moreover have "vrel rel (replicate ?n (last xs)) (drop_bit ?n ?S)"
    by (rule vrel_replicate[OF vrel_last[OF v(1,2)]]) (auto simp: bit_simps min_def)
  ultimately have sext: "vrel rel (xs @ replicate ?n (last xs)) ?S" by (simp add: vrel_append)
  have lext: "vrel rel (replicate ?n (ev_Zero ev) @ xs) (push_bit ?n v)"
    using v(1) vrel_replicate[OF rel_Zero, of ?n "push_bit ?n v"] push_drop_bit[of 0 ?n v]
    by (simp add: vrel_append bit_push_bit_iff)
  note unf = Shift_unfold[OF v(2), of ev amount, unfolded Let_def]
  show "\<exists>r. ae_ShiftRightLogical ev xs amount = Some r \<and> length r = ?n \<and> vrel rel r (drop_bit s ?U)"
    unfolding ae_ShiftRightLogical_def unf if_True if_False s_def
  proof (rule sel)
    show "length (take ?n (drop i (xs @ replicate ?n (ev_Zero ev)))) = ?n \<and>
        vrel rel (take ?n (drop i (xs @ replicate ?n (ev_Zero ev)))) (drop_bit i ?U)" if "i \<le> ?n" for i
      using that by (intro window_rel[OF zext]) simp
  qed (auto simp: bit_simps)
  show "\<exists>r. ae_ShiftRightArith ev xs amount = Some r \<and> length r = ?n \<and> vrel rel r (drop_bit s ?S)"
    unfolding ae_ShiftRightArith_def unf if_True if_False s_def
  proof (rule sel)
    show "length (take ?n (drop i (xs @ replicate ?n (last xs)))) = ?n \<and>
        vrel rel (take ?n (drop i (xs @ replicate ?n (last xs)))) (drop_bit i ?S)" if "i \<le> ?n" for i
      using that by (intro window_rel[OF sext]) simp
  qed (auto simp: bit_simps min_def)
  show "\<exists>r. ae_ShiftLeftLogical ev xs amount = Some r \<and> length r = ?n \<and> vrel rel r (push_bit s v)"
    unfolding ae_ShiftLeftLogical_def unf if_True if_False s_def
  proof (rule sel)
    show "length (take ?n (drop (?n - i) (replicate ?n (ev_Zero ev) @ xs))) = ?n \<and>
        vrel rel (take ?n (drop (?n - i) (replicate ?n (ev_Zero ev) @ xs))) (push_bit i v)" if "i \<le> ?n" for i
      using window_rel[OF lext, of "?n - i" ?n] push_drop_bit[OF that, of v] by (simp del: take_append drop_append)
  qed (auto simp: bit_simps)
qed

section \<open>Slices at a position given by a vector\<close>

lemma BitSlice_rel: "vrel rel xs v \<Longrightarrow> s + w \<le> length xs \<Longrightarrow>
    \<exists>r. ae_BitSlice xs s w = Some r \<and> length r = w \<and> vrel rel r (drop_bit s v)"
  using window_rel[of xs v s w] by (simp add: ae_BitSlice_def)

lemma DynamicBitSlice_rel:
  assumes v: "vrel rel xs v" "xs \<noteq> []" "length xs < 2 ^ 63" "width \<le> length xs"
    and st: "vrel rel start a" "start \<noteq> [] \<or> \<not> kIsITEFundamental ev"
    and small: "kIsITEFundamental ev \<longrightarrow> length xs < 2 ^ 31"
  shows "\<exists>r. ae_DynamicBitSlice ev xs start width = Some r \<and> length r = width \<and>
    vrel rel r (drop_bit (nat (take_bit (length start) a)) (take_bit (length xs) v))"
proof (cases "kIsITEFundamental ev")
  case False
  then show ?thesis using Shift_rel(1)[OF v(1-3) st small] v(4) BitSlice_rel[of _ _ 0 width]
    by (auto simp: ae_DynamicBitSlice_def)
next
  case True
  let ?n = "length xs" and ?U = "take_bit (length xs) v"
  obtain ext where ext: "ae_ZeroExtend ev xs (?n + width) = Some ext" "length ext = ?n + width" "vrel rel ext ?U"
    using ZeroExtend_rel[OF v(1), of "?n + width"] by auto
  let ?cs = "map (\<lambda>i. take width (drop i ext)) [0..<?n]"
  have "cases_rel width ?cs (map (\<lambda>i. drop_bit i ?U) [0..<?n])"
    using window_rel[OF ext(3), of _ width] ext(2) by (auto simp: cases_rel_def list_all2_conv_all_nth)
  moreover have "case Some (replicate width (ev_Zero ev)) of None \<Rightarrow> 2 ^ length start \<le> length ?cs
      | Some e \<Rightarrow> length e = width \<and> vrel rel e 0" using vrel_zeros by simp
  ultimately obtain r where r: "ae_SelectInternal ev start ?cs (Some (replicate width (ev_Zero ev))) = Some r"
      "length r = width"
      "vrel rel r (select_value (take_bit (length start) a) (map (\<lambda>i. drop_bit i ?U) [0..<?n]) 0)"
    using Select_rel[OF st, where cs = ?cs and vs = "map (\<lambda>i. drop_bit i ?U) [0..<?n]" and w = width
        and dv = "Some (replicate width (ev_Zero ev))" and d = 0] v(2,3) small by auto
  obtain q where q: "take_bit (length start) a = int q" by (rule nonneg_int_cases[OF take_bit_nonnegative])
  have "drop_bit q ?U = 0" if "?n \<le> q" using that by (simp add: drop_bit_take_bit)
  then have "select_value (int q) (map (\<lambda>i. drop_bit i ?U) [0..<?n]) 0 = drop_bit q ?U"
    by (simp add: select_value_nat)
  then show ?thesis using True ext(1) r q by (simp add: ae_DynamicBitSlice_def)
qed

lemma splice_rel:
  assumes "vrel rel xs v" "vrel rel ys u" "i + k \<le> length xs" "k \<le> length ys"
  shows "length (take i xs @ take k ys @ drop (i + k) xs) = length xs \<and>
    vrel rel (take i xs @ take k ys @ drop (i + k) xs) (window_value v i u k)"
  using assms by (auto simp: vrel_def nth_append bit_window_value not_less)

lemma BitSliceUpdate_rel:
  assumes "vrel rel xs v" "vrel rel ys u"
  shows "length (ae_BitSliceUpdate xs s ys) = length xs \<and>
    vrel rel (ae_BitSliceUpdate xs s ys) (window_value v s u (length ys))"
proof (cases "s > length xs")
  case True
  then show ?thesis using assms(1) by (auto simp: ae_BitSliceUpdate_def vrel_def bit_window_value)
next
  case False
  define k where "k = (if s + length ys > length xs then length xs - s else length ys)"
  have k: "s + k \<le> length xs" "k \<le> length ys" using False by (auto simp: k_def)
  note sp = splice_rel[OF assms k]
  have "ae_BitSliceUpdate xs s ys = take s xs @ take k ys @ drop (s + k) xs"
    using False by (simp add: ae_BitSliceUpdate_def k_def Let_def)
  moreover have "vrel rel (take s xs @ take k ys @ drop (s + k) xs) (window_value v s u (length ys))"
    by (rule vrel_bits[OF sp[THEN conjunct2]]) (use sp[THEN conjunct1] in \<open>auto simp: bit_window_value k_def\<close>)
  ultimately show ?thesis using sp by simp
qed

lemma BitSliceUpdate_dynamic_rel:
  assumes v: "vrel rel xs v" "xs \<noteq> []" "length xs < 2 ^ 63" and u: "vrel rel ys u"
    and st: "vrel rel start a" "start \<noteq> [] \<or> \<not> kIsITEFundamental ev"
    and small: "kIsITEFundamental ev \<longrightarrow> length xs < 2 ^ 31"
  shows "\<exists>r. ae_BitSliceUpdate_dynamic ev xs start ys = Some r \<and> length r = length xs \<and>
    vrel rel r (window_value v (nat (take_bit (length start) a)) u (length ys))"
proof -
  let ?n = "length xs" and ?m = "length ys"
  obtain q where q: "take_bit (length start) a = int q" by (rule nonneg_int_cases[OF take_bit_nonnegative])
  show ?thesis
  proof (cases "kIsITEFundamental ev")
    case True
    define zs where "zs = (if ?m > ?n then take ?n ys else ys)"
    have zs: "vrel rel zs u" "length zs = min ?m ?n" using u by (auto simp: zs_def vrel_take)
    let ?f = "\<lambda>i. let n = min (length zs) (?n - i) in take i xs @ take n zs @ drop (i + n) xs"
    let ?w = "\<lambda>i. window_value v i u ?m"
    have "length (?f i) = ?n \<and> vrel rel (?f i) (?w i)" if "i < ?n" for i
    proof -
      have "i + min (length zs) (?n - i) \<le> ?n" "min (length zs) (?n - i) \<le> length zs" using that by auto
      note sp = splice_rel[OF v(1) zs(1) this]
      have "vrel rel (?f i) (?w i)" unfolding Let_def
        by (rule vrel_bits[OF sp[THEN conjunct2]]) (use sp[THEN conjunct1] in \<open>auto simp: bit_window_value zs(2)\<close>)
      then show ?thesis using sp[THEN conjunct1] unfolding Let_def by blast
    qed
    then have "cases_rel ?n (map ?f [0..<?n]) (map ?w [0..<?n])" by (simp add: cases_rel_def list_all2_conv_all_nth)
    then obtain r where r: "ae_SelectInternal ev start (map ?f [0..<?n]) (Some xs) = Some r" "length r = ?n"
        "vrel rel r (select_value (take_bit (length start) a) (map ?w [0..<?n]) v)"
      using Select_rel[OF st, where cs = "map ?f [0..<?n]" and vs = "map ?w [0..<?n]" and w = ?n
          and dv = "Some xs" and d = v] v small by auto
    have "bit (?w q) j = bit v j" if "?n \<le> q" "j < ?n" for j using that by (auto simp: bit_window_value)
    then have "vrel rel r (?w q)"
      using r(2,3) by (cases "q < ?n") (auto simp: q select_value_nat vrel_def)
    then show ?thesis using True r q by (simp add: ae_BitSliceUpdate_dynamic_def zs_def Let_def)
  next
    case False
    let ?k = "min ?n ?m"
    have ze: "ZeroExtend (AllOnes ?k) ?n = Some (mkBitmap ?n (mask ?k))"
      by (simp add: AllOnes_mk ZeroExtend_mk)
    obtain ones where ones: "ae_BitsToVector ev (mkBitmap ?n (mask ?k)) = Some ones" "length ones = ?n"
        "vrel rel ones (int (mask ?k))" using BitsToVector_rel by blast
    obtain sh where sh: "ae_ShiftLeftLogical ev ones start = Some sh" "length sh = ?n" "vrel rel sh (push_bit q (int (mask ?k)))"
      using Shift_rel(3)[OF ones(3) _ _ st] False ones(2) v(2,3) q by (cases "ones = []") auto
    have msk: "vrel rel (ae_BitwiseNot ev sh) (NOT (push_bit q (int (mask ?k))))" "length (ae_BitwiseNot ev sh) = ?n"
      using BitwiseNot_rel[OF sh(3)] sh(2) by (simp_all add: ae_BitwiseNot_def)
    obtain adj U where adj: "(if ?m \<ge> ?n then ae_BitSlice ys 0 ?n else ae_ZeroExtend ev ys ?n) = Some adj"
        "length adj = ?n" "vrel rel adj U" "\<And>i. i < ?n \<Longrightarrow> bit U i = (i < ?m \<and> bit u i)"
    proof (cases "?m \<ge> ?n")
      case True
      then show ?thesis using that BitSlice_rel[OF u, of 0 ?n] by auto
    next
      case False
      then show ?thesis using that ZeroExtend_rel[OF u, of ?n] by (auto simp: bit_take_bit_iff)
    qed
    obtain kept where kept: "ae_BitwiseAnd ev [ae_BitwiseNot ev sh, xs] = Some kept" "length kept = ?n"
        "vrel rel kept (NOT (push_bit q (int (mask ?k))) AND v)"
      using Bitwise_rel(1)[OF msk(1) v(1)] msk(2) by auto
    obtain mv where mv: "ae_ShiftLeftLogical ev adj start = Some mv" "length mv = ?n" "vrel rel mv (push_bit q U)"
      using Shift_rel(3)[OF adj(3) _ _ st] False adj(2) v(2,3) q by (cases "adj = []") auto
    obtain r where r: "ae_BitwiseOr ev [kept, mv] = Some r" "length r = ?n"
        "vrel rel r ((NOT (push_bit q (int (mask ?k))) AND v) OR push_bit q U)"
      using Bitwise_rel(2)[OF kept(3) mv(3)] kept(2) mv(2) by auto
    have "bit ((NOT (push_bit q (int (mask ?k))) AND v) OR push_bit q U) i = bit (window_value v q u ?m) i"
      if "i < ?n" for i
      using that adj(4)[of "i - q"] by (auto simp: bit_simps bit_window_value)
    then have "vrel rel r (window_value v q u ?m)" using r(2,3) by (simp add: vrel_def)
    then show ?thesis using False ze ones(1) sh(1) adj(1) kept(1) mv(1) r(1,2) q
      by (simp add: ae_BitSliceUpdate_dynamic_def Let_def)
  qed
qed

end

end
