(* ===== verification/Evaluator_Codes.thy ===== *)
theory Evaluator_Codes
  imports Evaluator_Shift
begin

text \<open>
  One-hot encodings, the priority select, decoding and encoding of the evaluator template.
\<close>

definition priority_value :: "bool list \<Rightarrow> int list \<Rightarrow> int \<Rightarrow> int" where
  "priority_value bs vs d = foldr (\<lambda>(b, v) r. if b then v else r) (zip bs vs) d"

lemma priority_value_snoc:
  "length bs = length vs \<Longrightarrow> priority_value (bs @ [b]) (vs @ [v]) d = priority_value bs vs (if b then v else d)"
  by (simp add: priority_value_def)

lemma priority_value_found:
  "length bs = length vs \<Longrightarrow> i < length bs \<Longrightarrow> bs ! i \<Longrightarrow> priority_value bs vs d = priority_value bs vs e"
proof (induction bs vs arbitrary: i rule: list_induct2)
  case (Cons b bs v vs)
  then show ?case by (cases i) (auto simp: priority_value_def)
qed simp

lemma one_hot_step_eq:
  "ae_one_hot_step ev x (res, az, ao) = (res @ [ev_And ev az x], ev_And ev az (ev_Not ev x), ev_Or ev ao x)"
  by (simp add: ae_one_hot_step_def)

context evaluator_laws
begin

section \<open>One-hot encodings\<close>

lemma one_hot_fold_rel:
  assumes "list_all2 rel xs bs" "rel az p"
  shows "\<exists>r az' ao. fold (ae_one_hot_step ev) xs (res, az, ao0) = (res @ r, az', ao) \<and> length r = length xs \<and>
    (\<forall>i<length xs. rel (r ! i) (p \<and> bs ! i \<and> (\<forall>j<i. \<not> bs ! j))) \<and> rel az' (p \<and> (\<forall>j<length xs. \<not> bs ! j))"
  using assms
proof (induction xs bs arbitrary: res az ao0 p rule: list_all2_induct)
  case Nil
  then show ?case by simp
next
  case (Cons x xs b bs)
  have az: "rel (ev_And ev az (ev_Not ev x)) (p \<and> \<not> b)" using rel_And[OF Cons.prems rel_Not[OF Cons.hyps(1)]] .
  obtain r az' ao where r: "fold (ae_one_hot_step ev) xs (res @ [ev_And ev az x], ev_And ev az (ev_Not ev x), ev_Or ev ao0 x) =
        ((res @ [ev_And ev az x]) @ r, az', ao)" "length r = length xs"
      "\<forall>i<length xs. rel (r ! i) ((p \<and> \<not> b) \<and> bs ! i \<and> (\<forall>j<i. \<not> bs ! j))"
      "rel az' ((p \<and> \<not> b) \<and> (\<forall>j<length xs. \<not> bs ! j))"
    using Cons.IH[OF az] by blast
  let ?r = "ev_And ev az x # r"
  have all: "rel (?r ! i) (p \<and> (b # bs) ! i \<and> (\<forall>j<i. \<not> (b # bs) ! j))" if i: "i < length (x # xs)" for i
  proof (cases i)
    case 0
    then show ?thesis using rel_And[OF Cons.prems Cons.hyps(1)] by simp
  next
    case (Suc k)
    have eq: "((p \<and> \<not> b) \<and> bs ! k \<and> (\<forall>j<k. \<not> bs ! j)) =
        (p \<and> (b # bs) ! Suc k \<and> (\<forall>j<Suc k. \<not> (b # bs) ! j))"
      by (auto simp: All_less_Suc2)
    have "rel (?r ! Suc k) ((p \<and> \<not> b) \<and> bs ! k \<and> (\<forall>j<k. \<not> bs ! j))" using r(3) i Suc by simp
    then show ?thesis unfolding eq Suc .
  qed
  have "((p \<and> \<not> b) \<and> (\<forall>j<length xs. \<not> bs ! j)) = (p \<and> (\<forall>j<length (x # xs). \<not> (b # bs) ! j))"
    by (auto simp: All_less_Suc2)
  then have "rel az' (p \<and> (\<forall>j<length (x # xs). \<not> (b # bs) ! j))" using r(4) by (simp only:)
  moreover have "fold (ae_one_hot_step ev) (x # xs) (res, az, ao0) = (res @ ?r, az', ao)" "length ?r = length (x # xs)"
    using r(1,2) by (simp_all add: one_hot_step_eq)
  ultimately show ?case using all by blast
qed

lemma OneHotLsbToMsb_rel:
  assumes "vrel rel xs v"
  shows "length (ae_OneHotLsbToMsb ev xs) = length xs + 1 \<and>
    (\<forall>i<length xs. rel (ae_OneHotLsbToMsb ev xs ! i) (bit v i \<and> (\<forall>j<i. \<not> bit v j))) \<and>
    rel (ae_OneHotLsbToMsb ev xs ! length xs) (\<forall>j<length xs. \<not> bit v j)"
proof -
  have "list_all2 rel xs (map (bit v) [0..<length xs])" using assms by (simp add: vrel_list_all2)
  from one_hot_fold_rel[OF this rel_One, of "[]" "ev_Zero ev"] obtain r az ao where
    r: "fold (ae_one_hot_step ev) xs ([], ev_One ev, ev_Zero ev) = (r, az, ao)" "length r = length xs"
      "\<forall>i<length xs. rel (r ! i) (map (bit v) [0..<length xs] ! i \<and> (\<forall>j<i. \<not> map (bit v) [0..<length xs] ! j))"
      "rel az (\<forall>j<length xs. \<not> map (bit v) [0..<length xs] ! j)"
    by auto
  have "(\<forall>j<i. \<not> map (bit v) [0..<length xs] ! j) = (\<forall>j<i. \<not> bit v j)" if "i \<le> length xs" for i
    using that by auto
  then show ?thesis using r by (auto simp: ae_OneHotLsbToMsb_def nth_append)
qed

lemma OneHotMsbToLsb_rel:
  assumes "vrel rel xs v"
  shows "length (ae_OneHotMsbToLsb ev xs) = length xs + 1 \<and>
    (\<forall>i<length xs. rel (ae_OneHotMsbToLsb ev xs ! i) (bit v i \<and> (\<forall>j<length xs. i < j \<longrightarrow> \<not> bit v j))) \<and>
    rel (ae_OneHotMsbToLsb ev xs ! length xs) (\<forall>j<length xs. \<not> bit v j)"
proof -
  let ?n = "length xs" and ?bs = "rev (map (bit v) [0..<length xs])"
  have "list_all2 rel (rev xs) ?bs" using assms by (simp add: vrel_list_all2 del: rev_map)
  from one_hot_fold_rel[OF this rel_One, of "[]" "ev_Zero ev"] obtain r az ao where
    r: "fold (ae_one_hot_step ev) (rev xs) ([], ev_One ev, ev_Zero ev) = (r, az, ao)" "length r = ?n"
      "\<forall>i<?n. rel (r ! i) (?bs ! i \<and> (\<forall>j<i. \<not> ?bs ! j))" "rel az (\<forall>j<?n. \<not> ?bs ! j)"
    by auto
  have nth: "?bs ! j = bit v (?n - 1 - j)" if "j < ?n" for j using that by (simp add: rev_nth)
  have "rel (rev r ! i) (bit v i \<and> (\<forall>j<?n. i < j \<longrightarrow> \<not> bit v j))" if i: "i < ?n" for i
  proof -
    let ?k = "?n - 1 - i"
    have "(\<forall>j<?k. \<not> ?bs ! j) = (\<forall>j<?n. i < j \<longrightarrow> \<not> bit v j)"
    proof
      assume h: "\<forall>j<?k. \<not> ?bs ! j"
      show "\<forall>j<?n. i < j \<longrightarrow> \<not> bit v j"
      proof (intro allI impI)
        fix j assume "j < ?n" "i < j"
        then show "\<not> bit v j" using h[rule_format, of "?n - 1 - j"] nth[of "?n - 1 - j"] by simp
      qed
    next
      assume h: "\<forall>j<?n. i < j \<longrightarrow> \<not> bit v j"
      show "\<forall>j<?k. \<not> ?bs ! j" using h i by (auto simp: nth)
    qed
    then show ?thesis using r(2) r(3)[rule_format, of ?k] nth[of ?k] i by (simp add: rev_nth)
  qed
  moreover have "(\<forall>j<?n. \<not> ?bs ! j) = (\<forall>j<?n. \<not> bit v j)"
  proof
    assume h: "\<forall>j<?n. \<not> ?bs ! j"
    show "\<forall>j<?n. \<not> bit v j"
    proof (intro allI impI)
      fix j assume "j < ?n"
      then show "\<not> bit v j" using h[rule_format, of "?n - 1 - j"] nth[of "?n - 1 - j"] by simp
    qed
  qed (auto simp: nth)
  ultimately show ?thesis using r(1,2,4) by (auto simp: ae_OneHotMsbToLsb_def nth_append)
qed

section \<open>Priority select\<close>

lemma priority_fold_rel:
  assumes "list_all2 rel ss bs" "cases_rel w cs vs" "length ss = length cs" "vrel rel e d" "length e = w"
  shows "\<exists>r. foldM (\<lambda>(s, c) result. ae_IfBits ev s c result) (rev (zip ss cs)) e = Some r \<and> length r = w \<and>
    vrel rel r (priority_value bs vs d)"
  using assms(3,1,2)
proof (induction ss cs arbitrary: bs vs rule: list_induct2)
  case Nil
  then show ?case using assms(4,5) by (simp add: priority_value_def)
next
  case (Cons s ss c cs)
  obtain b bs' v vs' where bv: "bs = b # bs'" "rel s b" "list_all2 rel ss bs'"
      "vs = v # vs'" "length c = w" "vrel rel c v" "cases_rel w cs vs'"
    using Cons.prems by (auto simp: list_all2_Cons1 cases_rel_def)
  obtain r where r: "foldM (\<lambda>(s, c) result. ae_IfBits ev s c result) (rev (zip ss cs)) e = Some r" "length r = w"
      "vrel rel r (priority_value bs' vs' d)" using Cons.IH[OF bv(3,7)] by blast
  obtain x where "ae_IfBits ev s c r = Some x" "length x = w" "vrel rel x (if b then v else priority_value bs' vs' d)"
    using IfBits_rel[OF bv(2,6) r(3)] bv(5) r(2) by auto
  then show ?case using r(1) bv(1,4) by (cases b) (simp_all add: foldM_append priority_value_def)
qed

lemma PrioritySelect_rel:
  assumes "list_all2 rel ss bs" "cases_rel w cs vs" "length ss = length cs" "vrel rel e d" "length e = w"
    and some: "can_be_zero \<or> ss = [] \<or> (\<exists>i<length bs. bs ! i)"
  shows "\<exists>r. ae_PrioritySelect ev ss cs can_be_zero e = Some r \<and> length r = w \<and>
    vrel rel r (priority_value bs vs d)"
proof (cases "ss = []")
  case True
  then show ?thesis using assms by (simp add: ae_PrioritySelect_def ae_PrioritySelectInternal_def priority_value_def)
next
  case False
  have lens: "length bs = length ss" "length vs = length cs" using assms(1,2)
    by (auto simp: cases_rel_def dest: list_all2_lengthD)
  have ws: "list_all (\<lambda>c. length c = length e) cs"
    using assms(2,5) by (auto simp: cases_rel_def list_all_length list_all2_conv_all_nth)
  show ?thesis
  proof (cases can_be_zero)
    case True
    then show ?thesis using priority_fold_rel[OF assms(1-5)] False ws assms(3)
      by (auto simp: ae_PrioritySelect_def ae_PrioritySelectInternal_def)
  next
    case nz: False
    obtain ss' s cs' c where sc: "ss = ss' @ [s]" "cs = cs' @ [c]" using False assms(3)
      by (metis length_0_conv rev_exhaust)
    obtain bs' b where b: "bs = bs' @ [b]" "rel s b" "list_all2 rel ss' bs'"
      using assms(1) unfolding sc(1) by (auto simp: list_all2_append1 list_all2_Cons1)
    obtain vs' v where v: "vs = vs' @ [v]" "length c = w" "vrel rel c v" "cases_rel w cs' vs'"
      using assms(2) unfolding sc(2) by (auto simp: cases_rel_def list_all2_append1 list_all2_Cons1)
    have len: "length ss' = length cs'" "length bs' = length vs'" using assms(3) lens sc b v by auto
    obtain r where r: "foldM (\<lambda>(s, c) result. ae_IfBits ev s c result) (rev (zip ss' cs')) c = Some r" "length r = w"
        "vrel rel r (priority_value bs' vs' v)"
      using priority_fold_rel[OF b(3) v(4) len(1) v(3,2)] by blast
    have "priority_value bs vs d = priority_value bs' vs' v"
    proof (cases b)
      case True
      then show ?thesis using priority_value_snoc[OF len(2)] b v by simp
    next
      case False
      then obtain i where "i < length bs'" "bs' ! i"
        using some nz \<open>ss \<noteq> []\<close> b by (auto simp: nth_append less_Suc_eq split: if_splits)
      then show ?thesis using priority_value_snoc[OF len(2)] priority_value_found[OF len(2)] b v False by metis
    qed
    then show ?thesis using r nz False ws sc assms(3)
      by (auto simp: ae_PrioritySelect_def ae_PrioritySelectInternal_def)
  qed
qed

section \<open>Decode and encode\<close>

lemma Decode_rel:
  assumes "vrel rel xs v" "w < 2 ^ 31"
  shows "\<exists>r. ae_Decode ev xs w = Some r \<and> length r = w \<and>
    vrel rel r (push_bit (nat (take_bit (length xs) v)) 1)"
  using assms
proof (induction "length xs + w" arbitrary: xs w rule: less_induct)
  case less
  let ?n = "length xs" and ?u = "nat_len w + 1"
  obtain q where q: "take_bit ?n v = int q" by (rule nonneg_int_cases[OF take_bit_nonnegative])
  have u: "MinBitCountUnsigned (word_of_nat w) + 1 = ?u" using less.prems(2)
    by (simp add: MinBitCountUnsigned_nat_len unat_of_nat)
  consider "?u < ?n" | "\<not> ?u < ?n" "?n < 64 \<and> 2 ^ ?n < w" | "\<not> ?u < ?n" "\<not> (?n < 64 \<and> 2 ^ ?n < w)" by blast
  then show ?case
  proof cases
    case 1
    obtain r where r: "ae_Decode ev (take ?u xs) w = Some r" "length r = w"
        "vrel rel r (push_bit (nat (take_bit ?u v)) 1)"
      using less.hyps[of "take ?u xs" w] vrel_take[OF less.prems(1), of ?u] less.prems(2) 1 by (auto simp: min_absorb2)
    have hi: "rel (last (ae_OrReduce ev (drop ?u xs))) (take_bit (?n - ?u) (drop_bit ?u v) \<noteq> 0)"
      using OrReduce_rel(2)[OF vrel_drop[OF less.prems(1)]] by simp
    have "take_bit (?n - ?u) (drop_bit ?u v) = int q div 2 ^ ?u"
      using drop_bit_take_bit[of ?u ?n v] drop_bit_eq_div[of ?u "take_bit ?n v"] q by (simp only:)
    then have hi_iff: "(take_bit (?n - ?u) (drop_bit ?u v) \<noteq> 0) = (2 ^ ?u \<le> int q)"
      using div_exp_nonzero_iff[of "int q"] by (simp only: of_nat_0_le_iff)
    obtain x where x: "ae_IfBits ev (last (ae_OrReduce ev (drop ?u xs))) (replicate w (ev_Zero ev)) r = Some x" "length x = w"
        "vrel rel x (if 2 ^ ?u \<le> int q then 0 else push_bit (nat (take_bit ?u v)) 1)"
      using IfBits_rel[OF hi vrel_zeros r(3)] r(2) unfolding hi_iff by auto
    have "vrel rel x (push_bit q 1)"
    proof (cases "2 ^ ?u \<le> int q")
      case True
      have "w < 2 ^ ?u" using nat_lt_exp_len[of w] by simp
      moreover have "2 ^ ?u \<le> q" using True by (metis of_nat_le_iff of_nat_numeral of_nat_power)
      ultimately have "w \<le> q" by linarith
      then have "bit (0::int) i = bit (push_bit q 1 :: int) i" if "i < w" for i
        using that bit_push_bit_iff[of q "1::int" i] by simp
      moreover have "vrel rel x 0" using x(3) True by (simp only: if_True)
      ultimately show ?thesis using x(2) vrel_bits[of x 0 "push_bit q 1"] by simp
    next
      case False
      then have "take_bit ?u v = int q"
        using take_bit_int_eq_self[of "int q" ?u] take_bit_take_bit[of ?u ?n v] 1 unfolding q by (simp add: min_def)
      then show ?thesis using x(3) False by simp
    qed
    then show ?thesis using r(1) x(1,2) 1 q by (subst ae_Decode.simps) (simp only: Let_def u if_True Option.bind_lunit, simp)
  next
    case 2
    obtain r where r: "ae_Decode ev xs (2 ^ ?n) = Some r" "length r = 2 ^ ?n" "vrel rel r (push_bit q 1)"
      using less.hyps[of xs "2 ^ ?n"] less.prems 2 q by auto
    obtain x where x: "ae_ZeroExtend ev r w = Some x" "length x = w" "vrel rel x (take_bit (2 ^ ?n) (push_bit q 1))"
      using ZeroExtend_rel[OF r(3), of w] r(2) 2 by auto
    have "int q < 2 ^ ?n" using q take_bit_int_less_exp[of ?n v] by simp
    then have "q < 2 ^ ?n" by (metis of_nat_less_iff of_nat_numeral of_nat_power)
    then have "take_bit (2 ^ ?n) (push_bit q 1) = (push_bit q 1 :: int)"
      by (intro bit_eqI) (auto simp: bit_simps)
    moreover have "(2::nat) ^ ?n < 2 ^ 31" using 2 less.prems(2) by linarith
    then have "?n < 31" using power_strict_increasing_iff[of "2 :: nat" ?n 31] by simp
    ultimately show ?thesis using r(1) x 2 q
      by (subst ae_Decode.simps) (simp only: Let_def u if_True if_False Option.bind_lunit CHECK_def, simp)
  next
    case 3
    have "\<exists>e. (do { u \<leftarrow> UBits (word_of_nat i) ?n; y \<leftarrow> ae_BitsToVector ev u; ae_Equals ev xs y }) = Some e \<and>
        rel e (q = i)" if "i \<in> set [0..<w]" for i
    proof -
      have i: "i < 2 ^ 64" using that less.prems(2) by simp
      have fit: "i < 2 ^ ?n"
      proof (cases "?n < 64")
        case False
        then have "(2::nat) ^ 64 \<le> 2 ^ ?n" by (intro power_increasing) auto
        then show ?thesis using i by linarith
      qed (use 3 that in auto)
      obtain y where y: "ae_BitsToVector ev (mkBitmap ?n i) = Some y" "length y = ?n" "vrel rel y (int i)"
        using BitsToVector_rel by blast
      have "take_bit ?n (int i) = int i" using fit by (simp add: take_bit_int_eq_self)
      then show ?thesis using Equals_rel[OF less.prems(1) y(3)] y fit i by (simp add: UBits_nat q)
    qed
    then have "\<exists>r. mapM (\<lambda>i. do { u \<leftarrow> UBits (word_of_nat i) ?n; y \<leftarrow> ae_BitsToVector ev u; ae_Equals ev xs y }) [0..<w] =
        Some r \<and> list_all2 (\<lambda>i e. rel e (q = i)) [0..<w] r" by (rule mapM_rel)
    then obtain r where r: "mapM (\<lambda>i. do { u \<leftarrow> UBits (word_of_nat i) ?n; y \<leftarrow> ae_BitsToVector ev u; ae_Equals ev xs y }) [0..<w] =
        Some r" "list_all2 (\<lambda>i e. rel e (q = i)) [0..<w] r" by blast
    have "length r = w" using list_all2_lengthD[OF r(2)] by simp
    moreover have "vrel rel r (push_bit q 1)"
      using r(2) \<open>length r = w\<close> by (auto simp: vrel_def list_all2_conv_all_nth bit_simps eq_commute[of q])
    ultimately show ?thesis using 3 r(1) q by (subst ae_Decode.simps) (simp only: Let_def u if_False, simp)
  qed
qed

lemma Encode_rel:
  assumes "vrel rel xs v"
  defines "w \<equiv> CeilOfLog2 (word_of_nat (length xs))"
  shows "length (ae_Encode ev xs) = w \<and>
    (\<forall>j<w. rel (ae_Encode ev xs ! j) (\<exists>i<length xs. bit v i \<and> bit i j))"
proof -
  let ?f = "\<lambda>i result. map (\<lambda>j. if bit i j then ev_Or ev (result ! j) (xs ! i) else result ! j) [0..<w]"
  have "length (fold ?f [0..<k] (replicate w (ev_Zero ev))) = w \<and>
      (\<forall>j<w. rel (fold ?f [0..<k] (replicate w (ev_Zero ev)) ! j) (\<exists>i<k. bit v i \<and> bit i j))" if "k \<le> length xs" for k
    using that
  proof (induction k)
    case 0
    then show ?case using rel_Zero by simp
  next
    case (Suc k)
    let ?r = "fold ?f [0..<k] (replicate w (ev_Zero ev))"
    have IH: "rel (?r ! j) (\<exists>i<k. bit v i \<and> bit i j)" if "j < w" for j using Suc that by auto
    have "rel (?f k ?r ! j) (\<exists>i<Suc k. bit v i \<and> bit i j)" if j: "j < w" for j
    proof (cases "bit k j")
      case True
      then have "((\<exists>i<k. bit v i \<and> bit i j) \<or> bit v k) = (\<exists>i<Suc k. bit v i \<and> bit i j)"
        by (auto simp: less_Suc_eq)
      then show ?thesis using rel_Or[OF IH[OF j] vrelD[OF assms(1), of k]] Suc.prems True j by simp
    next
      case False
      then have "(\<exists>i<k. bit v i \<and> bit i j) = (\<exists>i<Suc k. bit v i \<and> bit i j)" by (auto simp: less_Suc_eq)
      then show ?thesis using IH[OF j] False j by simp
    qed
    then show ?case by simp
  qed
  then show ?thesis by (simp add: ae_Encode_def w_def Let_def)
qed

end

end
