(* ===== verification/Evaluator_Mul.thy ===== *)
theory Evaluator_Mul
  imports Evaluator_Codes
begin

text \<open>
  The Dadda multiplier returns for every pair of widths, and its result stands for the exact
  product. Two facts carry the proof. The weighted sum of the columns does not change. And the
  columns stay low near the top: with limit \<open>H\<close>, the column at distance \<open>k\<close> from the last one has
  at most \<open>k\<close> elements when \<open>k + 2 \<le> H\<close> and at most \<open>H\<close> otherwise; a stage with limit \<open>d\<close> pushes
  at most \<open>min (H - d) (k + 1 - d)\<close> carries out of that column, so the last column never needs a
  reduction and no carry leaves the array.
\<close>

primrec col_rel :: "('e \<Rightarrow> bool \<Rightarrow> bool) \<Rightarrow> 'e list \<Rightarrow> nat \<Rightarrow> bool" where
  "col_rel rel [] s = (s = 0)"
| "col_rel rel (x # xs) s = (\<exists>b t. rel x b \<and> col_rel rel xs t \<and> s = of_bool b + t)"

primrec cols_rel :: "('e \<Rightarrow> bool \<Rightarrow> bool) \<Rightarrow> 'e list list \<Rightarrow> nat \<Rightarrow> bool" where
  "cols_rel rel [] V = (V = 0)"
| "cols_rel rel (c # cs) V = (\<exists>s W. col_rel rel c s \<and> cols_rel rel cs W \<and> V = s + 2 * W)"

lemma col_rel_snoc: "col_rel rel xs a \<Longrightarrow> rel x b \<Longrightarrow> col_rel rel (xs @ [x]) (a + of_bool b)"
proof (induction xs arbitrary: a)
  case Nil
  then have "rel x b \<and> col_rel rel [] 0 \<and> a + of_bool b = of_bool b + 0" by simp
  then show ?case unfolding append_Nil col_rel.simps(2) by blast
next
  case (Cons y ys)
  from Cons.prems(1) obtain c t where c: "rel y c" "col_rel rel ys t" "a = of_bool c + t" unfolding col_rel.simps by blast
  have "a + of_bool b = of_bool c + (t + of_bool b)" using c(3) by simp
  then show ?case using c(1) Cons.IH[OF c(2) Cons.prems(2)] unfolding append_Cons col_rel.simps(2) by blast
qed

lemma col_rel_ConsE:
  assumes "col_rel rel (x # xs) s"
  obtains b t where "rel x b" "col_rel rel xs t" "s = of_bool b + t"
  using assms unfolding col_rel.simps by blast

declare col_rel.simps(2) [simp del]

lemma cols_relI: "col_rel rel c s \<Longrightarrow> cols_rel rel cs W \<Longrightarrow> V = s + 2 * W \<Longrightarrow> cols_rel rel (c # cs) V"
  by auto

section \<open>Heights\<close>

definition height_bound :: "nat \<Rightarrow> nat \<Rightarrow> nat" where
  "height_bound H k = (if k + 2 \<le> H then k else H)"

primrec heights_ok :: "nat \<Rightarrow> 'e list list \<Rightarrow> bool" where
  "heights_ok H [] = True"
| "heights_ok H (c # cs) = (length c \<le> height_bound H (length cs) \<and> heights_ok H cs)"

lemma heights_ok_nth:
  "heights_ok H cols \<longleftrightarrow> (\<forall>k<length cols. length (cols ! k) \<le> height_bound H (length cols - 1 - k))"
proof (induction cols)
  case (Cons c cs)
  show ?case by (auto simp: Cons.IH All_less_Suc2)
qed simp

text \<open>The carries out of a column, as arithmetic on heights.\<close>

lemma carry_bound:
  assumes "2 \<le> d" "d \<le> H" "h \<le> height_bound H (Suc k) + min (H - d) (Suc k + 2 - d)" "d < h"
    and "2 * n' + d \<le> 2 * n + h + 1" "n \<le> height_bound H k"
  shows "n' \<le> height_bound H k + min (H - d) (k + 2 - d)"
proof (cases "Suc k + 2 \<le> H")
  case True
  then have "h \<le> Suc k + (Suc k + 2 - d)" using assms(3) by (simp add: height_bound_def)
  then show ?thesis using assms True by (auto simp: height_bound_def min_def)
next
  case False
  then have "h \<le> H + (H - d)" using assms(3) by (simp add: height_bound_def)
  then show ?thesis using assms False by (auto simp: height_bound_def min_def)
qed

lemma FloorOfRatio_nat: "0 < d \<Longrightarrow> nat (FloorOfRatio (int n) (int d)) = n div d"
  by (simp add: FloorOfRatio_def CeilOrFloorOfRatio_def Let_def sdiv_int_cases zdiv_int[symmetric])

lemma dadda_limit_returns:
  "2 \<le> m \<Longrightarrow> \<exists>H. ae_dadda_limit w m = Some H \<and> w \<le> H \<and> 2 \<le> H"
proof (induction "w - m" arbitrary: m rule: less_induct)
  case less
  have step: "nat (FloorOfRatio (3 * int m) 2) = (3 * m) div 2" using FloorOfRatio_nat[of 2 "3 * m"] by simp
  show ?case
  proof (cases "m < w")
    case True
    have "m < (3 * m) div 2" using less.prems by linarith
    then show ?thesis using less.hyps[of "(3 * m) div 2"] True less.prems step
      by (subst ae_dadda_limit.simps) auto
  qed (use less.prems in \<open>simp add: ae_dadda_limit.simps\<close>)
qed

context evaluator_laws
begin

section \<open>Reducing a column\<close>

lemma full_adder_cols:
  assumes "col_rel rel (a # b # c # rest) s" "col_rel rel next_column t"
  shows "\<exists>s' t'. col_rel rel (rest @ [ar_sum (ae_FullAdder ev a b c)]) s' \<and>
    col_rel rel (next_column @ [ar_carry (ae_FullAdder ev a b c)]) t' \<and> s' + 2 * t' = s + 2 * t"
proof -
  obtain x y z u where h: "rel a x" "rel b y" "rel c z" "col_rel rel rest u"
      "s = of_bool x + (of_bool y + (of_bool z + u))"
    using assms(1) by (elim col_rel_ConsE) simp
  note fa = FullAdder_rel[OF h(1-3)]
  note s' = col_rel_snoc[OF h(4) fa(1)] and t' = col_rel_snoc[OF assms(2) fa(2)]
  have "u + of_bool ((x \<noteq> y) \<noteq> z) + 2 * (t + of_bool (x \<and> y \<or> (x \<noteq> y) \<and> z)) = s + 2 * t"
    using h(5) by (cases x; cases y; cases z) simp_all
  then show ?thesis using s' t' by blast
qed

lemma half_adder_cols:
  assumes "col_rel rel (a # b # rest) s" "col_rel rel next_column t"
  shows "\<exists>s' t'. col_rel rel (rest @ [ar_sum (ae_HalfAdder ev a b)]) s' \<and>
    col_rel rel (next_column @ [ar_carry (ae_HalfAdder ev a b)]) t' \<and> s' + 2 * t' = s + 2 * t"
proof -
  obtain x y u where h: "rel a x" "rel b y" "col_rel rel rest u" "s = of_bool x + (of_bool y + u)"
    using assms(1) by (elim col_rel_ConsE) simp
  note ha = HalfAdder_rel[OF h(1,2)]
  note s' = col_rel_snoc[OF h(3) ha(1)] and t' = col_rel_snoc[OF assms(2) ha(2)]
  have "u + of_bool (x \<noteq> y) + 2 * (t + of_bool (x \<and> y)) = s + 2 * t"
    using h(4) by (cases x; cases y) simp_all
  then show ?thesis using s' t' by blast
qed

lemma reduce_full_rel:
  assumes "1 \<le> d" "col_rel rel column s" "col_rel rel next_column t"
  shows "\<exists>c n s' t'. ae_reduce_full ev d column next_column = Some (c, n) \<and> col_rel rel c s' \<and> col_rel rel n t' \<and>
    s' + 2 * t' = s + 2 * t \<and> length c \<le> d + 1 \<and> length c + 2 * length n = length column + 2 * length next_column \<and>
    length next_column \<le> length n \<and> (d < length column \<longrightarrow> d \<le> length c)"
  using assms(2,3)
proof (induction "length column" arbitrary: column next_column s t rule: less_induct)
  case less
  show ?case
  proof (cases "length column > d + 1")
    case False
    then show ?thesis using less.prems by (subst ae_reduce_full.simps) auto
  next
    case True
    then obtain a b c rest where col: "column = a # b # c # rest"
      using assms(1) by (metis (no_types, lifting) One_nat_def Suc_eq_plus1 length_Cons list.size(3)
          neq_Nil_conv not_less_eq not_less_zero le_less_trans less_trans_Suc Suc_lessD add_2_eq_Suc' le_Suc_eq not_le)
    obtain s' t' where st: "col_rel rel (rest @ [ar_sum (ae_FullAdder ev a b c)]) s'"
        "col_rel rel (next_column @ [ar_carry (ae_FullAdder ev a b c)]) t'" "s' + 2 * t' = s + 2 * t"
      using full_adder_cols less.prems unfolding col by blast
    have eq: "ae_reduce_full ev d column next_column =
        ae_reduce_full ev d (rest @ [ar_sum (ae_FullAdder ev a b c)]) (next_column @ [ar_carry (ae_FullAdder ev a b c)])"
      using True by (subst ae_reduce_full.simps) (simp add: col Let_def)
    obtain c' n s'' t'' where IH: "ae_reduce_full ev d column next_column = Some (c', n)" "col_rel rel c' s''" "col_rel rel n t''"
        "s'' + 2 * t'' = s' + 2 * t'" "length c' \<le> d + 1"
        "length c' + 2 * length n = length rest + 1 + 2 * (length next_column + 1)" "length next_column + 1 \<le> length n"
        "d < length rest + 1 \<longrightarrow> d \<le> length c'"
      using less.hyps[OF _ st(1,2)] unfolding eq by (auto simp: col)
    have "d \<le> length c'"
    proof (cases "d < length rest + 1")
      case False
      then have "length rest + 1 = d" using True by (simp add: col)
      then show ?thesis using IH(6,7) less.hyps[OF _ st(1,2)] eq IH(1)
        by (subst (asm) ae_reduce_full.simps) (auto simp: col)
    qed (use IH(8) in simp)
    then show ?thesis using IH st(3) by (intro exI[of _ c'] exI[of _ n] exI[of _ s''] exI[of _ t'']) (auto simp: col)
  qed
qed

lemma reduce_column_rel:
  assumes "1 \<le> d" "d < length column" "col_rel rel column s" "col_rel rel next_column t"
  shows "\<exists>c n s' t'. ae_reduce_column ev d column next_column = Some (c, n) \<and> col_rel rel c s' \<and> col_rel rel n t' \<and>
    s' + 2 * t' = s + 2 * t \<and> length c \<le> d \<and> 2 * length n + d \<le> 2 * length next_column + length column + 1"
proof -
  obtain c n s' t' where r: "ae_reduce_full ev d column next_column = Some (c, n)" "col_rel rel c s'" "col_rel rel n t'"
      "s' + 2 * t' = s + 2 * t" "length c \<le> d + 1" "length c + 2 * length n = length column + 2 * length next_column"
      "d \<le> length c"
    using reduce_full_rel[OF assms(1,3,4)] assms(2) by blast
  show ?thesis
  proof (cases "length c > d")
    case False
    then show ?thesis using r
      by (intro exI[of _ c] exI[of _ n] exI[of _ s'] exI[of _ t']) (auto simp: ae_reduce_column_def)
  next
    case True
    then obtain a b rest where c: "c = a # b # rest" using assms(1)
      by (cases c rule: remdups_adj.cases) auto
    obtain s'' t'' where st: "col_rel rel (rest @ [ar_sum (ae_HalfAdder ev a b)]) s''"
        "col_rel rel (n @ [ar_carry (ae_HalfAdder ev a b)]) t''" "s'' + 2 * t'' = s' + 2 * t'"
      using half_adder_cols r(2,3) unfolding c by blast
    have "ae_reduce_column ev d column next_column =
        Some (rest @ [ar_sum (ae_HalfAdder ev a b)], n @ [ar_carry (ae_HalfAdder ev a b)])"
      using r(1) True by (simp add: ae_reduce_column_def c Let_def)
    moreover have "length (rest @ [ar_sum (ae_HalfAdder ev a b)]) \<le> d"
      "2 * length (n @ [ar_carry (ae_HalfAdder ev a b)]) + d \<le> 2 * length next_column + length column + 1"
      using r(5,6) True by (auto simp: c)
    ultimately show ?thesis using st r(4) by (metis (no_types, lifting))
  qed
qed

section \<open>Stages\<close>

lemma stage_rel:
  assumes "2 \<le> d" "d \<le> H"
    and "length c \<le> height_bound H (length cs) + min (H - d) (length cs + 2 - d)" "heights_ok H cs"
    and "cols_rel rel (c # cs) V"
  shows "\<exists>r. ae_dadda_stage ev d (c # cs) = Some r \<and> length r = length (c # cs) \<and> heights_ok d r \<and> cols_rel rel r V"
  using assms(3-5)
proof (induction cs arbitrary: c V)
  case Nil
  then have "length c = 0" using assms(1,2) by (auto simp: height_bound_def)
  then show ?case using Nil.prems assms(1) by simp
next
  case (Cons next_column rest)
  let ?k = "length rest"
  obtain s W where sW: "col_rel rel c s" "cols_rel rel (next_column # rest) W" "V = s + 2 * W"
    using Cons.prems(3) by auto
  have low: "length next_column \<le> height_bound H ?k" "heights_ok H rest" using Cons.prems(2) by auto
  show ?case
  proof (cases "length c \<le> d")
    case True
    obtain r where r: "ae_dadda_stage ev d (next_column # rest) = Some r" "length r = Suc ?k" "heights_ok d r" "cols_rel rel r W"
      using Cons.IH[OF _ low(2) sW(2)] low(1) by auto
    have "length c \<le> height_bound d (Suc ?k)"
      using True Cons.prems(1) assms(1,2) by (auto simp: height_bound_def split: if_splits)
    then show ?thesis using True r sW(1,3) by auto
  next
    case False
    obtain t X where tX: "col_rel rel next_column t" "cols_rel rel rest X" "W = t + 2 * X" using sW(2) by auto
    obtain c' n s' t' where red: "ae_reduce_column ev d c next_column = Some (c', n)" "col_rel rel c' s'" "col_rel rel n t'"
        "s' + 2 * t' = s + 2 * t" "length c' \<le> d" "2 * length n + d \<le> 2 * length next_column + length c + 1"
      using reduce_column_rel[OF _ _ sW(1) tX(1), of d] False assms(1) by auto
    have n: "length n \<le> height_bound H ?k + min (H - d) (?k + 2 - d)"
      using carry_bound[OF assms(1,2) _ _ red(6) low(1)] Cons.prems(1) False by simp
    have "cols_rel rel (n # rest) (t' + 2 * X)" using red(3) tX(2) by auto
    then obtain r where r: "ae_dadda_stage ev d (n # rest) = Some r" "length r = Suc ?k" "heights_ok d r"
        "cols_rel rel r (t' + 2 * X)"
      using Cons.IH[OF n low(2)] by auto
    have "d < Suc ?k + 2" using False Cons.prems(1) assms(1,2) by (auto simp: height_bound_def split: if_splits)
    then have "heights_ok d (c' # r)" using r(2,3) red(5) by (simp add: height_bound_def)
    moreover have "cols_rel rel (c' # r) V" using red(4) sW(3) tX(3) by (intro cols_relI[OF red(2) r(4)]) simp
    ultimately show ?thesis using False red(1) r(1,2) by simp
  qed
qed

lemma stages_rel:
  assumes "2 \<le> H" "heights_ok H cols" "cols_rel rel cols V"
  shows "\<exists>r. ae_dadda_stages ev H cols = Some r \<and> length r = length cols \<and> heights_ok 2 r \<and> cols_rel rel r V"
  using assms
proof (induction H arbitrary: cols rule: less_induct)
  case (less H)
  show ?case
  proof (cases "H > 2")
    case False
    then have "H = 2" using less.prems(1) by simp
    then show ?thesis using less.prems by (subst ae_dadda_stages.simps) simp
  next
    case True
    let ?d = "(2 * H + 3 - 1) div 3"
    have d: "nat (CeilOfRatio (2 * int H) 3) = ?d" using CeilOfRatio_nat[of 3 "2 * H"] by simp
    have d2: "2 \<le> ?d" "?d \<le> H" "?d < H" using True by linarith+
    obtain r where r: "ae_dadda_stage ev ?d cols = Some r" "length r = length cols" "heights_ok ?d r" "cols_rel rel r V"
    proof (cases cols)
      case Nil
      then show ?thesis using that[of "[]"] less.prems by simp
    next
      case (Cons c cs)
      then show ?thesis using that stage_rel[OF d2(1,2), of c cs V] less.prems by auto
    qed
    have "ae_dadda_stages ev H cols = ae_dadda_stages ev ?d r"
      using True r(1) by (subst ae_dadda_stages.simps) (simp only: d Let_def if_True Option.bind_lunit)
    then show ?thesis using less.IH[OF d2(3,1) r(3,4)] r(2) by simp
  qed
qed

section \<open>The final adder\<close>

declare ae_ripple.simps(2) [simp del]

lemma ripple_step:
  "ae_ripple ev ([] # rest) = map_option ((#) (ev_Zero ev)) (ae_ripple ev rest)"
  "ae_ripple ev ([a] # rest) = map_option ((#) a) (ae_ripple ev rest)"
  "ae_ripple ev ([a, b] # n # rest) =
     map_option ((#) (ar_sum (ae_HalfAdder ev a b))) (ae_ripple ev ((n @ [ar_carry (ae_HalfAdder ev a b)]) # rest))"
  "ae_ripple ev ([a, b, c] # n # rest) =
     map_option ((#) (ar_sum (ae_FullAdder ev a b c))) (ae_ripple ev ((n @ [ar_carry (ae_FullAdder ev a b c)]) # rest))"
  by (simp_all only: ae_ripple.simps(2)[of ev] list.case ae_push_carry_def Let_def Option.bind_lunit
      map_conv_bind_option comp_def)

lemmas ripple_simps = ripple_step ae_ripple.simps(1)

lemma ripple_rel:
  assumes "length c \<le> height_bound 2 (length cs) + 1" "heights_ok 2 cs" "cols_rel rel (c # cs) V"
  shows "\<exists>r. ae_ripple ev (c # cs) = Some r \<and> length r = length (c # cs) \<and> vrel rel r (int V)"
  using assms
proof (induction cs arbitrary: c V)
  case Nil
  then have "length c \<le> 1" by (simp add: height_bound_def)
  then show ?case using Nil.prems rel_Zero by (cases c) (auto simp: ripple_simps bit_0 elim!: col_rel_ConsE)
next
  case (Cons n rest)
  obtain s t X where h: "col_rel rel c s" "col_rel rel n t" "cols_rel rel rest X" "V = s + 2 * (t + 2 * X)"
    using Cons.prems(3) by auto
  have low: "length n \<le> height_bound 2 (length rest)" "heights_ok 2 rest" using Cons.prems(2) by auto
  have IH: "\<exists>r. ae_ripple ev (m # rest) = Some r \<and> length r = Suc (length rest) \<and> vrel rel r (int (u + 2 * X))"
    if "length m \<le> height_bound 2 (length rest) + 1" "col_rel rel m u" for m u
  proof -
    have "cols_rel rel (m # rest) (u + 2 * X)" using that(2) h(3) by auto
    from Cons.IH[OF that(1) low(2) this] show ?thesis by (simp only: list.size add_0_right add_0_left Suc_eq_plus1)
  qed
  have push: "\<exists>r. ae_ripple ev ((n @ [e]) # rest) = Some r \<and> length r = Suc (length rest) \<and>
      vrel rel r (int (t + of_bool b + 2 * X))" if "rel e b" for e b
    using IH[OF _ col_rel_snoc[OF h(2) that]] low(1) by simp
  note keep = IH[OF le_trans[OF low(1) le_add1] h(2)]
  have V: "int V div 2 = int (t + s div 2 + 2 * X)" "odd (int V) = odd s"
    using h(4) by (auto simp: zdiv_int)
  have "length c \<le> 3" using Cons.prems(1) by (simp add: height_bound_def)
  then consider "c = []" | a where "c = [a]" | a b where "c = [a, b]" | a b d where "c = [a, b, d]"
    by (cases c rule: remdups_adj.cases; cases "tl (tl c)") (auto simp: Suc_le_eq)
  then show ?case
  proof cases
    case 1
    then show ?thesis using keep h(1) V rel_Zero by (auto simp: ripple_step bit_0)
  next
    case 2
    then obtain x where "rel a x" "s = of_bool x" using h(1) by (auto elim!: col_rel_ConsE)
    then show ?thesis using keep 2 V by (cases x) (auto simp: ripple_step bit_0)
  next
    case 3
    then obtain x y where xy: "rel a x" "rel b y" "s = of_bool x + of_bool y" using h(1) by (auto elim!: col_rel_ConsE)
    note ha = HalfAdder_rel[OF xy(1,2)]
    have s: "s div 2 = of_bool (x \<and> y)" "odd s = (x \<noteq> y)" using xy(3) by (cases x; cases y; simp)+
    show ?thesis using push[OF ha(2)] ha(1) V unfolding s 3
      by (auto simp: ripple_step bit_0)
  next
    case 4
    then obtain x y z where xy: "rel a x" "rel b y" "rel d z" "s = of_bool x + (of_bool y + of_bool z)"
      using h(1) by (auto elim!: col_rel_ConsE)
    note fa = FullAdder_rel[OF xy(1-3)]
    have s: "s div 2 = of_bool ((x \<and> y) \<or> ((x \<noteq> y) \<and> z))" "odd s = ((x \<noteq> y) \<noteq> z)"
      using xy(4) by (cases x; cases y; cases z; simp)+
    show ?thesis using push[OF fa(2)] fa(1) V unfolding s 4
      by (auto simp: ripple_step bit_0)
  qed
qed

section \<open>The partial products\<close>

lemma cols_update:
  "cols_rel rel cols V \<Longrightarrow> p < length cols \<Longrightarrow> rel e b \<Longrightarrow>
   cols_rel rel (cols[p := cols ! p @ [e]]) (V + of_bool b * 2 ^ p)"
proof (induction cols arbitrary: p V)
  case (Cons c cs)
  obtain s W where h: "col_rel rel c s" "cols_rel rel cs W" "V = s + 2 * W" using Cons.prems(1) by auto
  show ?case
  proof (cases p)
    case 0
    have "cols_rel rel ((c @ [e]) # cs) (V + of_bool b)"
      by (rule cols_relI[OF col_rel_snoc[OF h(1) Cons.prems(3)] h(2)]) (simp add: h(3))
    then show ?thesis by (simp only: 0 list_update.simps(2) nth_Cons_0 nat.case power_0 mult_1_right)
  next
    case (Suc q)
    then have "cols_rel rel (cs[q := cs ! q @ [e]]) (W + of_bool b * 2 ^ q)" using Cons.IH[OF h(2)] Cons.prems by simp
    then have "cols_rel rel (c # cs[q := cs ! q @ [e]]) (V + of_bool b * 2 ^ Suc q)"
      by (rule cols_relI[OF h(1)]) (simp add: h(3))
    then show ?thesis by (simp only: Suc list_update.simps(2) nth_Cons_Suc nat.case)
  qed
qed simp

lemma products_fold:
  assumes "vrel rel a v" "vrel rel b w"
    and "\<forall>(i, j)\<in>set ps. i < length a \<and> j < length b" "length cols = length a + length b" "cols_rel rel cols V"
  shows "length (fold (\<lambda>(i, j) cols. cols[i + j := cols ! (i + j) @ [ev_And ev (a ! i) (b ! j)]]) ps cols) = length cols \<and>
    cols_rel rel (fold (\<lambda>(i, j) cols. cols[i + j := cols ! (i + j) @ [ev_And ev (a ! i) (b ! j)]]) ps cols)
      (V + (\<Sum>(i, j)\<leftarrow>ps. of_bool (bit v i \<and> bit w j) * 2 ^ (i + j))) \<and>
    (\<forall>k<length cols. length (fold (\<lambda>(i, j) cols. cols[i + j := cols ! (i + j) @ [ev_And ev (a ! i) (b ! j)]]) ps cols ! k) =
      length (cols ! k) + length (filter (\<lambda>(i, j). i + j = k) ps))"
  using assms(3-5)
proof (induction ps arbitrary: cols V)
  case (Cons p ps)
  obtain i j where p: "p = (i, j)" by (cases p)
  have ij: "i < length a" "j < length b" "i + j < length cols" using Cons.prems(1,2) by (auto simp: p)
  let ?cols = "cols[i + j := cols ! (i + j) @ [ev_And ev (a ! i) (b ! j)]]"
  have "cols_rel rel ?cols (V + of_bool (bit v i \<and> bit w j) * 2 ^ (i + j))"
    by (rule cols_update[OF Cons.prems(3) ij(3)]) (intro rel_And vrelD assms(1,2) ij(1,2))+
  note IH = Cons.IH[OF _ _ this]
  have nth: "length (?cols ! k) = length (cols ! k) + (if i + j = k then 1 else 0)" if "k < length cols" for k
    using that by (simp add: nth_list_update)
  show ?case using IH Cons.prems(1,2) nth by (simp add: p add.assoc)
qed simp

lemma products_sum:
  "int (\<Sum>(i, j)\<leftarrow>List.product [0..<n] [0..<m]. of_bool (bit v i \<and> bit w j) * 2 ^ (i + j)) =
   take_bit n (v :: int) * take_bit m (w :: int)"
proof -
  have "int (\<Sum>(i, j)\<leftarrow>List.product [0..<n] [0..<m]. of_bool (bit v i \<and> bit w j) * 2 ^ (i + j)) =
      (\<Sum>(i, j)\<in>{0..<n} \<times> {0..<m}. (of_bool (bit v i) * 2 ^ i) * (of_bool (bit w j) * 2 ^ j))"
    by (subst sum_list_distinct_conv_sum_set)
      (auto simp: distinct_product of_bool_conj power_add intro!: sum.cong)
  also have "\<dots> = (\<Sum>i = 0..<n. of_bool (bit v i) * 2 ^ i) * (\<Sum>j = 0..<m. of_bool (bit w j) * 2 ^ j)"
    by (simp only: sum_product sum.cartesian_product)
  also have "\<dots> = take_bit n v * take_bit m w"
    by (simp only: take_bit_sum push_bit_eq_mult)
  finally show ?thesis .
qed

lemma products_height:
  assumes "k < n + m"
  shows "length (filter (\<lambda>(i, j). i + j = k) (List.product [0..<n] [0..<m])) \<le> min n (n + m - 1 - k)"
proof -
  let ?ps = "filter (\<lambda>(i, j). i + j = k) (List.product [0..<n] [0..<m])"
  have "length ?ps = card (set ?ps)" by (rule distinct_card[symmetric]) (simp add: distinct_product)
  also have "\<dots> \<le> card {k + 1 - m..<n}"
    by (rule card_inj_on_le[where f = fst]) (auto simp: inj_on_def)
  finally have "length ?ps \<le> n - (k + 1 - m)" by simp
  moreover have "n - (k + 1 - m) \<le> n + m - 1 - k" using assms by linarith
  ultimately show ?thesis by linarith
qed

lemma partial_products_rel:
  assumes "vrel rel a v" "vrel rel b w" "length a \<le> H"
  shows "\<exists>V. cols_rel rel (ae_partial_products ev a b) V \<and> int V = take_bit (length a) v * take_bit (length b) w \<and>
    length (ae_partial_products ev a b) = length a + length b \<and> heights_ok H (ae_partial_products ev a b)"
proof -
  let ?ps = "List.product [0..<length a] [0..<length b]"
  have "cols_rel rel (replicate k []) 0" for k by (induction k) auto
  from products_fold[OF assms(1,2) _ _ this, of ?ps "length a + length b"]
  have f: "length (ae_partial_products ev a b) = length a + length b"
    "cols_rel rel (ae_partial_products ev a b) (\<Sum>(i, j)\<leftarrow>?ps. of_bool (bit v i \<and> bit w j) * 2 ^ (i + j))"
    "\<And>k. k < length a + length b \<Longrightarrow>
      length (ae_partial_products ev a b ! k) = length (filter (\<lambda>(i, j). i + j = k) ?ps)"
    unfolding ae_partial_products_def by auto
  have "heights_ok H (ae_partial_products ev a b)"
    unfolding heights_ok_nth f(1)
  proof (intro allI impI)
    fix k assume k: "k < length a + length b"
    show "length (ae_partial_products ev a b ! k) \<le> height_bound H (length a + length b - 1 - k)"
      using products_height[OF k] f(3)[OF k] assms(3) by (simp add: height_bound_def)
  qed
  then show ?thesis using f(1,2) products_sum by blast
qed

section \<open>Multiplication\<close>

lemma UMul_rel:
  assumes "vrel rel a v" "vrel rel b w"
  shows "\<exists>r. ae_UMul ev a b = Some r \<and> length r = length a + length b \<and>
    vrel rel r (take_bit (length a) v * take_bit (length b) w)"
proof -
  obtain H where H: "ae_dadda_limit (max (length a) (length b)) 2 = Some H" "max (length a) (length b) \<le> H" "2 \<le> H"
    using dadda_limit_returns[OF order_refl] by blast
  obtain V where V: "cols_rel rel (ae_partial_products ev a b) V" "int V = take_bit (length a) v * take_bit (length b) w"
      "length (ae_partial_products ev a b) = length a + length b" "heights_ok H (ae_partial_products ev a b)"
    using partial_products_rel[OF assms] H(2) by (meson max.boundedE)
  obtain cols where cols: "ae_dadda_stages ev H (ae_partial_products ev a b) = Some cols"
      "length cols = length a + length b" "heights_ok 2 cols" "cols_rel rel cols V"
    using stages_rel[OF H(3) V(4,1)] V(3) by auto
  have "\<exists>r. ae_ripple ev cols = Some r \<and> length r = length cols \<and> vrel rel r (int V)"
  proof (cases cols)
    case (Cons c cs)
    then show ?thesis using ripple_rel[of c cs V] cols(3,4) by simp
  qed simp
  then show ?thesis using H(1) cols(1,2) V(2) by (auto simp: ae_UMul_def)
qed

end

end
