(* ===== verification/Evaluator_Div.thy ===== *)
theory Evaluator_Div
  imports Evaluator_Mul "HOL-Library.Signed_Division"
begin

text \<open>
  Multiplication with overflow flags and the division of the evaluator template. Unsigned
  division is long division from the most significant bit: after each step the partial dividend
  is the partial quotient times the divisor plus the remainder. Signed multiplication and
  division are reduced to the unsigned ones, with the results the template documents for a zero
  divisor.
\<close>

section \<open>Arithmetic\<close>

lemma ex_bit_iff: "(\<exists>i<n. bit v i) \<longleftrightarrow> take_bit n v \<noteq> 0" for v :: int
  by (auto simp: bit_eq_iff bit_take_bit_iff)

lemma signed_zero_iff: "0 < n \<Longrightarrow> signed_take_bit (n - 1) v = 0 \<longleftrightarrow> take_bit n v = 0" for v :: int
  by (metis Suc_diff_1 signed_take_bit_eq_iff_take_bit_eq signed_take_bit_of_0 take_bit_of_0)

lemma take_bit_abs_signed: "0 < n \<Longrightarrow> take_bit n \<bar>signed_take_bit (n - 1) v\<bar> = \<bar>signed_take_bit (n - 1) v\<bar>" for v :: int
proof (rule take_bit_int_eq_self)
  assume "0 < n"
  then have "(2::int) ^ (n - 1) < 2 ^ n" by simp
  then show "\<bar>signed_take_bit (n - 1) v\<bar> < 2 ^ n" using signed_bounds[of "n - 1" v] by linarith
qed simp

lemma le_div_int_iff: "0 < b \<Longrightarrow> a \<le> c div b \<longleftrightarrow> a * b \<le> c" for a b c :: int
proof
  assume b: "0 < b" "a \<le> c div b"
  then have "a * b \<le> c div b * b" by simp
  also have "\<dots> \<le> c" using b(1) by (metis div_mult_mod_eq pos_mod_sign le_add_same_cancel1)
  finally show "a * b \<le> c" .
next
  assume "0 < b" "a * b \<le> c"
  then show "a \<le> c div b" using zdiv_mono1[of "a * b" c b] by simp
qed

lemma drop_bit_const_iff:
  fixes P :: int
  assumes "fits_signed N P" "0 < k" "k \<le> N"
  shows "take_bit (Suc N - k) (if P < 0 then - 1 else 0) = take_bit (Suc N - k) (drop_bit (k - 1) P) \<longleftrightarrow> fits_signed k P"
proof -
  let ?q = "P div 2 ^ (k - 1)" and ?L = "Suc N - k"
  have L: "2 ^ (N - 1) = (2::int) ^ (k - 1) * 2 ^ (?L - 1)" using assms(2,3) by (simp flip: power_add)
  have b: "- (2 ^ (N - 1)) \<le> P" "P < 2 ^ (N - 1)" using assms by (auto simp: fits_signed_def)
  have "- (2 ^ (?L - 1)) \<le> ?q" using b(1) unfolding L by (simp add: le_div_int_iff mult.commute)
  moreover have "?q < 2 ^ (?L - 1)" using b(2) unfolding L not_le[symmetric] by (simp add: le_div_int_iff mult.commute)
  ultimately have q: "signed_take_bit (?L - 1) ?q = ?q" by (simp add: signed_take_bit_int_eq_self)
  have "take_bit ?L x = take_bit ?L y \<longleftrightarrow> signed_take_bit (?L - 1) x = signed_take_bit (?L - 1) y" for x y :: int
    using assms(2,3) signed_take_bit_eq_iff_take_bit_eq[of "?L - 1" x y] by (simp add: Suc_diff_le)
  then have "take_bit ?L (if P < 0 then - 1 else 0) = take_bit ?L (drop_bit (k - 1) P) \<longleftrightarrow> (if P < 0 then - 1 else 0) = ?q"
    using q by (auto simp: drop_bit_eq_div)
  also have "\<dots> \<longleftrightarrow> - (2 ^ (k - 1)) \<le> P \<and> P < 2 ^ (k - 1)"
  proof -
    have "?q = 0 \<longleftrightarrow> 0 \<le> P \<and> P < 2 ^ (k - 1)" 
      using zdiv_eq_0_iff[of P "2 ^ (k - 1)"] zero_less_power[of "2::int" "k - 1"] by linarith
    moreover have "?q = - 1 \<longleftrightarrow> - (2 ^ (k - 1)) \<le> P \<and> P < 0"
      using le_div_int_iff[of "2 ^ (k - 1)" "- 1" P] le_div_int_iff[of "2 ^ (k - 1)" 0 P]
        zero_less_power[of "2::int" "k - 1"] by linarith
    moreover have "0 < (2::int) ^ (k - 1)" by simp
    ultimately show ?thesis by (smt (verit))
  qed
  finally show ?thesis using assms(2) by (simp add: fits_signed_def)
qed

context evaluator_laws
begin

section \<open>Multiplication with overflow\<close>

lemma UMulWithOverflow_rel:
  assumes "vrel rel a v" "vrel rel b w"
  defines "P \<equiv> take_bit (length a) v * take_bit (length b) w"
  shows "\<exists>s. ae_UMulWithOverflow ev a b k = Some s \<and> length (or_result s) = k \<and>
    vrel rel (or_result s) P \<and> rel (or_overflow s) (P \<ge> 2 ^ k)"
proof -
  obtain r where r: "ae_UMul ev a b = Some r" "length r = length a + length b" "vrel rel r P"
    using UMul_rel[OF assms(1,2)] unfolding P_def by blast
  have P: "0 \<le> P" "P < 2 ^ (length a + length b)"
    unfolding P_def power_add by (auto intro!: mult_strict_mono' simp: take_bit_int_less_exp)
  show ?thesis
  proof (cases "length a + length b \<le> k")
    case True
    then have "P < 2 ^ k" using P(2) by (meson less_le_trans one_le_numeral power_increasing)
    then have "drop_bit (length r) P = 0" using P r(2) by (simp add: drop_bit_eq_div)
    then show ?thesis using True r rel_Zero \<open>P < 2 ^ k\<close> vrel_zeros
      by (simp add: ae_UMulWithOverflow_def vrel_append not_le)
  next
    case False
    have "drop_bit k P div 2 ^ (length r - k) = 0"
      using False P r(2) by (simp add: drop_bit_eq_div zdiv_zmult2_eq[symmetric] flip: power_add)
    then have "take_bit (length r - k) (drop_bit k P) = drop_bit k P"
      by (metis div_mult_mod_eq mult_zero_left add_0 take_bit_eq_mod)
    moreover have "drop_bit k P \<noteq> 0 \<longleftrightarrow> P \<ge> 2 ^ k"
      using P(1) by (simp add: drop_bit_eq_div zdiv_eq_0_iff not_less)
    ultimately have "rel (last (ae_OrReduce ev (drop k r))) (P \<ge> 2 ^ k)"
      using OrReduce_bits(2)[OF vrel_drop[OF r(3)], of k] by (simp add: ex_bit_iff)
    then show ?thesis using False r vrel_take[OF r(3), of k] by (simp add: ae_UMulWithOverflow_def)
  qed
qed

lemma SMul_rel:
  assumes "vrel rel a v" "vrel rel b w" "a \<noteq> []" "b \<noteq> []" "length a < 2 ^ 30" "length b < 2 ^ 30"
  shows "\<exists>r. ae_SMul ev a b = Some r \<and> length r = length a + length b \<and>
    vrel rel r (signed_take_bit (length a - 1) v * signed_take_bit (length b - 1) w)"
proof -
  let ?m = "max (length a) (length b)" and ?V = "signed_take_bit (length a - 1) v"
    and ?W = "signed_take_bit (length b - 1) w"
  have m: "length a \<le> ?m * 2" "length b \<le> ?m * 2" by linarith+
  obtain x where x: "ae_SignExtend a (?m * 2) = Some x" "length x = ?m * 2" "vrel rel x ?V"
    using SignExtend_rel[OF assms(1,3), of "?m * 2"] m by auto
  obtain y where y: "ae_SignExtend b (?m * 2) = Some y" "length y = ?m * 2" "vrel rel y ?W"
    using SignExtend_rel[OF assms(2,4), of "?m * 2"] m by auto
  obtain r where r: "ae_UMul ev x y = Some r" "length r = ?m * 2 + ?m * 2"
      "vrel rel r (take_bit (?m * 2) ?V * take_bit (?m * 2) ?W)"
    using UMul_rel[OF x(3) y(3)] x(2) y(2) by auto
  let ?n = "length a + length b"
  have n: "0 + ?n \<le> length r" using r(2) by linarith
  obtain s where s: "ae_BitSlice r 0 ?n = Some s" "length s = ?n"
      "vrel rel s (take_bit (?m * 2) ?V * take_bit (?m * 2) ?W)"
    using BitSlice_rel[OF r(3), of 0 ?n] m n by auto
  have "take_bit ?n (take_bit (?m * 2) ?V * take_bit (?m * 2) ?W) = take_bit ?n (?V * ?W)"
  proof -
    have "take_bit ?n (take_bit (?m * 2) z) = take_bit ?n z" for z :: int
      by (simp add: take_bit_take_bit min_absorb1)
    then show ?thesis by (metis take_bit_mult)
  qed
  then have "vrel rel s (?V * ?W)" using s(2,3) vrel_take_bit by metis
  then show ?thesis using x(1) y(1) r(1) s(1,2) assms(5,6) by (simp add: ae_SMul_def Let_def CHECK_def)
qed

lemma SMulWithOverflow_rel:
  assumes "vrel rel a v" "vrel rel b w" "a \<noteq> []" "b \<noteq> []" "0 < k" "length a < 2 ^ 30" "length b < 2 ^ 30"
  defines "P \<equiv> signed_take_bit (length a - 1) v * signed_take_bit (length b - 1) w"
  shows "\<exists>s. ae_SMulWithOverflow ev a b k = Some s \<and> length (or_result s) = k \<and>
    vrel rel (or_result s) P \<and> rel (or_overflow s) (\<not> fits_signed k P)"
proof -
  let ?N = "length a + length b" and ?V = "signed_take_bit (length a - 1) v" and ?W = "signed_take_bit (length b - 1) w"
  obtain r where r: "ae_SMul ev a b = Some r" "length r = ?N" "vrel rel r P"
    using SMul_rel[OF assms(1-4,6,7)] unfolding P_def by blast
  have r0: "r \<noteq> []" "?N > 0" using r(2) assms(3) by auto
  have fit: "fits_signed ?N P"
    unfolding P_def by (rule fits_signed_mult) (use assms(3,4) signed_bounds in \<open>simp_all add: fits_signed_def\<close>)
  show ?thesis
  proof (cases "?N \<le> k")
    case True
    have bits: "bit P i = bit P (?N - 1)" if "?N - 1 \<le> i" for i
    proof -
      have "signed_take_bit (?N - 1) P = P" using fit assms(3)
        by (intro signed_take_bit_int_eq_self) (simp_all add: fits_signed_def)
      moreover have "bit (signed_take_bit (?N - 1) P) i = bit P (?N - 1)" using that by (simp add: bit_signed_take_bit_iff min_absorb1)
      ultimately show ?thesis by (simp only:)
    qed
    have "vrel rel (replicate (k - ?N) (last r)) (drop_bit ?N P)"
      using vrel_last[OF r(3) r0(1)] 
    proof (rule vrel_replicate)
      fix i
      show "bit (drop_bit ?N P) i = bit P (length r - 1)" using bits[of "?N + i"] r(2) by (simp add: bit_drop_bit_eq)
    qed
    then show ?thesis using True r r0 rel_Zero fits_signed_mono[OF fit True]
      by (simp add: ae_SMulWithOverflow_def span_back_def vrel_append)
  next
    case False
    let ?neg = "P < 0" and ?H = "1 + ?N - k"
    let ?az = "ev_Or ev (ev_Not ev (last (ae_OrReduce ev a))) (ev_Not ev (last (ae_OrReduce ev b)))"
    let ?es = "ev_And ev (ev_Not ev ?az) (ae_Xor ev (last a) (last b))"
    have "rel ?es (\<not> (\<not> (\<exists>i<length a. bit v i) \<or> \<not> (\<exists>i<length b. bit w i)) \<and> bit v (length a - 1) \<noteq> bit w (length b - 1))"
      by (intro ev_intro OrReduce_bits(2) vrel_last assms(1-4))
    moreover have "(\<not> (\<not> (\<exists>i<length a. bit v i) \<or> \<not> (\<exists>i<length b. bit w i)) \<and> bit v (length a - 1) \<noteq> bit w (length b - 1)) = ?neg"
    proof -
      have "(\<exists>i<length a. bit v i) = (?V \<noteq> 0)" "(\<exists>i<length b. bit w i) = (?W \<noteq> 0)"
        using signed_zero_iff[of "length a" v] signed_zero_iff[of "length b" w] assms(3,4) by (simp_all add: ex_bit_iff)
      note ex = this
      show ?thesis unfolding ex unfolding signed_sign P_def mult_less_0_iff by linarith
    qed
    ultimately have es: "rel ?es ?neg" by simp
    have "vrel rel (replicate ?H ?es) (if ?neg then - 1 else 0)"
      using es by (rule vrel_replicate) simp
    from Equals_rel[OF this vrel_drop[OF r(3), of "k - 1"]]
    obtain e where e: "ae_Equals ev (replicate ?H ?es) (drop (k - 1) r) = Some e"
        "rel e (take_bit ?H (if ?neg then - 1 else 0) = take_bit ?H (drop_bit (k - 1) P))"
      using False assms(5) r(2) by (auto simp: Suc_diff_le)
    have "rel e (fits_signed k P)"
      using e(2) drop_bit_const_iff[OF fit assms(5)] False by simp
    then show ?thesis using False r(1,2) e(1) assms(3-5) rel_Not vrel_take[OF r(3), of k]
      by (simp add: ae_SMulWithOverflow_def span_back_def Let_def CHECK_def)
  qed
qed

section \<open>Long division\<close>

lemma div_step_rel:
  assumes "rel x b" "vrel rel q Q" "vrel rel r R" "length r = m" "0 \<le> R" "R < 2 ^ m"
    and "vrel rel divisor D" "vrel rel negd (- D)" "length divisor = Suc m" "length negd = Suc m" "0 \<le> D" "D < 2 ^ m"
  defines "X \<equiv> of_bool b + 2 * R"
  shows "\<exists>q' r'. ae_div_step ev divisor negd x (q, r) = Some (q', r') \<and> length q' = Suc (length q) \<and> length r' = m \<and>
    vrel rel q' (of_bool (D \<le> X) + 2 * Q) \<and> vrel rel r' (if D \<le> X then X - D else X)"
proof -
  have X: "vrel rel (x # r) X" using assms(1,3) by (cases b) (auto simp: X_def)
  have range: "take_bit (Suc m) X = X" "take_bit (Suc m) D = D"
    using assms(5,6,11,12) by (auto simp: X_def intro!: take_bit_int_eq_self)
  obtain lt where lt: "ae_ULessThan ev (x # r) divisor = Some lt" "rel lt (X < D)"
    using ULessThan_rel[OF X assms(7)] assms(4,9) range by auto
  obtain s where s: "ae_Add ev (x # r) negd = Some s" "length s = Suc m" "vrel rel s (X - D)"
    using Add_rel[OF X assms(8)] assms(4,10) by auto
  have qi: "rel (ev_Not ev lt) (D \<le> X)" using rel_Not[OF lt(2)] by (simp add: not_less)
  obtain r' where r': "ae_IfBits ev (ev_Not ev lt) s (x # r) = Some r'" "length r' = Suc m"
      "vrel rel r' (if D \<le> X then X - D else X)"
    using IfBits_rel[OF qi s(3) X] s(2) assms(4) by auto
  have "vrel rel (butlast r') (if D \<le> X then X - D else X)" using vrel_take[OF r'(3)] by (simp add: butlast_conv_take)
  moreover have "vrel rel (ev_Not ev lt # q) (of_bool (D \<le> X) + 2 * Q)" using qi assms(2) by (cases "D \<le> X") auto
  ultimately show ?thesis using lt(1) s(1) r'(1,2) by (simp add: ae_div_step_def Let_def)
qed

lemma div_loop_rel:
  assumes "vrel rel n v"
    and "vrel rel divisor D" "vrel rel negd (- D)" "length divisor = Suc m" "length negd = Suc m" "0 < D" "D < 2 ^ m"
  shows "\<exists>q r. foldM (ae_div_step ev divisor negd) (rev n) ([], replicate m (ev_Zero ev)) = Some (q, r) \<and>
    length q = length n \<and> length r = m \<and> vrel rel q (take_bit (length n) v div D) \<and>
    vrel rel r (take_bit (length n) v mod D)"
  using assms(1)
proof (induction n arbitrary: v)
  case Nil
  show ?case using vrel_zeros[of m] by simp
next
  case (Cons x n)
  let ?V = "take_bit (length n) (v div 2)"
  obtain q r where IH: "foldM (ae_div_step ev divisor negd) (rev n) ([], replicate m (ev_Zero ev)) = Some (q, r)"
      "length q = length n" "length r = m" "vrel rel q (?V div D)" "vrel rel r (?V mod D)"
    using Cons.IH[of "v div 2"] Cons.prems by auto
  have R: "0 \<le> ?V mod D" "?V mod D < 2 ^ m"
    using pos_mod_sign[OF assms(6)] less_trans[OF pos_mod_bound[OF assms(6)] assms(7)] by blast+
  let ?X = "of_bool (odd v) + 2 * (?V mod D)"
  have x: "rel x (odd v)" using Cons.prems by simp
  obtain q' r' where s: "ae_div_step ev divisor negd x (q, r) = Some (q', r')" "length q' = Suc (length n)" "length r' = m"
      "vrel rel q' (of_bool (D \<le> ?X) + 2 * (?V div D))" "vrel rel r' (if D \<le> ?X then ?X - D else ?X)"
    using div_step_rel[OF x IH(4,5,3) R assms(2-5) less_imp_le[OF assms(6)] assms(7)] IH(2) by auto
  have V: "take_bit (Suc (length n)) v = of_bool (odd v) + 2 * ?V" by (simp add: take_bit_Suc mod_2_eq_odd)
  have b: "0 \<le> ?X" "?X < 2 * D" using R(1) pos_mod_bound[OF assms(6), of ?V] by (auto simp: of_bool_def)
  have "2 * ?V = 2 * (?V div D) * D + 2 * (?V mod D)"
    by (metis div_mult_mod_eq distrib_left mult.assoc)
  then have "take_bit (Suc (length n)) v = (of_bool (D \<le> ?X) + 2 * (?V div D)) * D + (if D \<le> ?X then ?X - D else ?X)"
    unfolding V distrib_right by (cases "D \<le> ?X") simp_all
  then have eq: "take_bit (Suc (length n)) v = D * (of_bool (D \<le> ?X) + 2 * (?V div D)) + (if D \<le> ?X then ?X - D else ?X)"
    by (simp only: mult.commute)
  have "0 \<le> (if D \<le> ?X then ?X - D else ?X)" "(if D \<le> ?X then ?X - D else ?X) < D"
    using b by auto
  note eqs = int_div_pos_eq[OF eq this] int_mod_pos_eq[OF eq this]
  show ?case unfolding length_Cons eqs using IH(1) s by (simp add: foldM_append)
qed

text \<open>With a zero divisor the loop still returns vectors of the right lengths.\<close>

lemma div_loop_zero_rel:
  assumes "vrel rel n v"
    and "vrel rel divisor 0" "vrel rel negd 0" "length divisor = Suc m" "length negd = Suc m"
  shows "\<exists>q r Q R. foldM (ae_div_step ev divisor negd) (rev n) ([], replicate m (ev_Zero ev)) = Some (q, r) \<and>
    length q = length n \<and> length r = m \<and> vrel rel q Q \<and> vrel rel r R \<and> 0 \<le> R \<and> R < 2 ^ m"
  using assms(1)
proof (induction n arbitrary: v)
  case Nil
  show ?case using vrel_zeros[of m] by (auto intro!: exI[of _ "0::int"])
next
  case (Cons x n)
  obtain q r Q R where IH: "foldM (ae_div_step ev divisor negd) (rev n) ([], replicate m (ev_Zero ev)) = Some (q, r)"
      "length q = length n" "length r = m" "vrel rel q Q" "vrel rel r R" "0 \<le> R" "R < 2 ^ m"
    using Cons.IH[of "v div 2"] Cons.prems by auto
  have x: "rel x (odd v)" using Cons.prems by simp
  obtain q' r' where s: "ae_div_step ev divisor negd x (q, r) = Some (q', r')" "length q' = Suc (length n)" "length r' = m"
      "vrel rel q' (1 + 2 * Q)" "vrel rel r' (of_bool (odd v) + 2 * R)"
    using div_step_rel[OF x IH(4,5,3,6,7) assms(2) _ assms(4,5)] assms(3) IH(2,6) by auto
  have "vrel rel r' (take_bit m (of_bool (odd v) + 2 * R))" using s(3,5) vrel_take_bit by metis
  moreover have "foldM (ae_div_step ev divisor negd) (rev (x # n)) ([], replicate m (ev_Zero ev)) = Some (q', r')"
    using IH(1) s(1) by (simp add: foldM_append)
  ultimately show ?case using s(2-4)
    by (intro exI[of _ q'] exI[of _ r'] exI[of _ "1 + 2 * Q"] exI[of _ "take_bit m (of_bool (odd v) + 2 * R)"])
      (simp add: take_bit_int_less_exp)
qed

lemma UDivMod_rel:
  assumes "vrel rel n v" "vrel rel d w"
  defines "N \<equiv> take_bit (length n) v" and "D \<equiv> take_bit (length d) w"
  shows "\<exists>s. ae_UDivMod ev n d = Some s \<and> length (quotient s) = length n \<and> length (remainder s) = length d \<and>
    vrel rel (quotient s) (if D = 0 then - 1 else N div D) \<and> vrel rel (remainder s) (if D = 0 then 0 else N mod D)"
proof -
  obtain dv where dv: "ae_ZeroExtend ev d (Suc (length d)) = Some dv" "length dv = Suc (length d)" "vrel rel dv D"
    using ZeroExtend_rel[OF assms(2), of "Suc (length d)"] unfolding D_def by auto
  obtain nd where nd: "ae_Neg ev dv = Some nd" "length nd = Suc (length d)" "vrel rel nd (- D)"
    using Neg_rel[OF dv(3)] dv(2) by auto
  have D: "0 \<le> D" "D < 2 ^ length d" by (simp_all add: D_def take_bit_int_less_exp)
  obtain q r Q R where qr: "foldM (ae_div_step ev dv nd) (rev n) ([], replicate (length d) (ev_Zero ev)) = Some (q, r)"
      "length q = length n" "length r = length d" "vrel rel q Q" "vrel rel r R" "D \<noteq> 0 \<longrightarrow> Q = N div D \<and> R = N mod D"
  proof (cases "D = 0")
    case True
    then show ?thesis using that div_loop_zero_rel[OF assms(1), of dv nd "length d"] dv nd by auto
  next
    case False
    then show ?thesis using that div_loop_rel[OF assms(1) dv(3) nd(3) dv(2) nd(2)] D by (auto simp: N_def)
  qed
  have nz: "rel (hd (ae_OrReduce ev d)) (D \<noteq> 0)" using OrReduce_bits(1)[OF assms(2)] by (simp add: ex_bit_iff D_def)
  have ones: "vrel rel (replicate (length n) (ev_One ev)) (- 1)" by (rule vrel_replicate[OF rel_One]) simp
  obtain q' where q': "ae_IfBits ev (hd (ae_OrReduce ev d)) q (replicate (length n) (ev_One ev)) = Some q'"
      "length q' = length n" "vrel rel q' (if D \<noteq> 0 then Q else - 1)"
    using IfBits_rel[OF nz qr(4) ones] qr(2) by auto
  obtain r' where r': "ae_IfBits ev (hd (ae_OrReduce ev d)) r (replicate (length d) (ev_Zero ev)) = Some r'"
      "length r' = length d" "vrel rel r' (if D \<noteq> 0 then R else 0)"
    using IfBits_rel[OF nz qr(5) vrel_zeros] qr(3) by auto
  have "ae_UDivMod ev n d = Some \<lparr>quotient = q', remainder = r'\<rparr>"
    using dv(1) nd(1) qr(1-3) q'(1) r'(1) by (simp add: ae_UDivMod_def Let_def)
  then show ?thesis using q' r' qr(6) by (cases "D = 0") auto
qed

lemma SDivMod_rel:
  assumes "vrel rel n v" "vrel rel d w" "n \<noteq> []" "d \<noteq> []"
  defines "N \<equiv> signed_take_bit (length n - 1) v" and "D \<equiv> signed_take_bit (length d - 1) w"
  shows "\<exists>s. ae_SDivMod ev n d = Some s \<and> length (quotient s) = length n \<and> length (remainder s) = length d \<and>
    vrel rel (quotient s) (if D = 0 then if N < 0 then - (2 ^ (length n - 1)) else 2 ^ (length n - 1) - 1 else N sdiv D) \<and>
    vrel rel (remainder s) (if D = 0 then 0 else N smod D)"
proof -
  have len: "0 < length n" "0 < length d" using assms(3,4) by auto
  have neg: "rel (last n) (N < 0)" "rel (last d) (D < 0)"
    using vrel_last[OF assms(1,3)] vrel_last[OF assms(2,4)] unfolding N_def D_def signed_sign by simp_all
  have nz: "rel (last (ae_OrReduce ev d)) (D \<noteq> 0)"
    using OrReduce_bits(2)[OF assms(2)] signed_zero_iff[OF len(2), of w] by (simp add: ex_bit_iff D_def)
  obtain an where an: "ae_Abs ev n = Some an" "length an = length n" "vrel rel an \<bar>N\<bar>"
    using Abs_rel[OF assms(1,3)] unfolding N_def by blast
  obtain ad where ad: "ae_Abs ev d = Some ad" "length ad = length d" "vrel rel ad \<bar>D\<bar>"
    using Abs_rel[OF assms(2,4)] unfolding D_def by blast
  have tb: "take_bit (length n) \<bar>N\<bar> = \<bar>N\<bar>" "take_bit (length d) \<bar>D\<bar> = \<bar>D\<bar>"
    using take_bit_abs_signed[OF len(1)] take_bit_abs_signed[OF len(2)] unfolding N_def D_def by simp_all
  let ?Q = "if D = 0 then - 1 else \<bar>N\<bar> div \<bar>D\<bar>" and ?R = "if D = 0 then 0 else \<bar>N\<bar> mod \<bar>D\<bar>"
  obtain s where s: "ae_UDivMod ev an ad = Some s" "length (quotient s) = length n" "length (remainder s) = length d"
      "vrel rel (quotient s) ?Q" "vrel rel (remainder s) ?R"
    using UDivMod_rel[OF an(3) ad(3), unfolded an(2) ad(2) tb abs_eq_0] by (elim exE conjE)
  obtain nr where nr: "ae_Neg ev (remainder s) = Some nr" "length nr = length d" "vrel rel nr (- ?R)"
    using Neg_rel[OF s(5)] s(3) by auto
  obtain r where r: "ae_IfBits ev (last n) nr (remainder s) = Some r" "length r = length d" "vrel rel r (if N < 0 then - ?R else ?R)"
    using IfBits_rel[OF neg(1) nr(3) s(5)] nr(2) s(3) by auto
  obtain nq where nq: "ae_Neg ev (quotient s) = Some nq" "length nq = length n" "vrel rel nq (- ?Q)"
    using Neg_rel[OF s(4)] s(2) by auto
  obtain q where q: "ae_IfBits ev (ae_Xor ev (last n) (last d)) nq (quotient s) = Some q" "length q = length n"
      "vrel rel q (if (N < 0) \<noteq> (D < 0) then - ?Q else ?Q)"
    using IfBits_rel[OF rel_Xor[OF neg] nq(3) s(4)] nq(2) s(2) by auto
  obtain k where k: "length n = Suc k" using len(1) gr0_implies_Suc by blast
  let ?lp = "replicate k (ev_One ev) @ [ev_Zero ev]" and ?ln = "replicate k (ev_Zero ev) @ [ev_One ev]"
  have lp: "vrel rel ?lp (2 ^ k - 1)" and ln: "vrel rel ?ln (- (2 ^ k))"
    using rel_One rel_Zero by (auto simp: vrel_def nth_append bit_simps simp flip: mask_eq_exp_minus_1)
  have "vrel rel [last n, last (ae_OrReduce ev d)] (of_bool (N < 0) + 2 * of_bool (D \<noteq> 0))"
    using neg(1) nz by (cases "N < 0"; cases "D \<noteq> 0") auto
  from Select_rel[OF this, of "Suc k" "[?lp, ?ln]" "[2 ^ k - 1, - (2 ^ k)]"
      "if (N < 0) \<noteq> (D < 0) then - ?Q else ?Q" "Some q"]
  obtain q' where q': "ae_SelectInternal ev [last n, last (ae_OrReduce ev d)] [?lp, ?ln] (Some q) = Some q'"
      "length q' = Suc k" "vrel rel q' (select_value (take_bit (Suc (Suc 0)) (of_bool (N < 0) + 2 * of_bool (D \<noteq> 0)))
        [2 ^ k - 1, - (2 ^ k)] (if (N < 0) \<noteq> (D < 0) then - ?Q else ?Q))"
    using lp ln q(2,3) k by (auto simp: cases_rel_def)
  have "ae_SDivMod ev n d = Some \<lparr>quotient = q', remainder = r\<rparr>"
    using an(1) ad(1) s(1) nr(1) r(1) nq(1) q(1,2) q'(1) assms(3,4) k
    by (cases "q = []") (simp_all add: ae_SDivMod_def ae_Select_def Let_def)
  moreover have vq: "select_value (take_bit (Suc (Suc 0)) (of_bool (N < 0) + 2 * of_bool (D \<noteq> 0))) [2 ^ k - 1, - (2 ^ k)]
      (if (N < 0) \<noteq> (D < 0) then - ?Q else ?Q) =
      (if D = 0 then if N < 0 then - (2 ^ (length n - 1)) else 2 ^ (length n - 1) - 1 else N sdiv D)"
    by (cases "D = 0"; cases "N < 0")
      (auto simp: select_value_def k signed_divide_int_def sgn_if take_bit_eq_mod)
  moreover have vr: "(if N < 0 then - ?R else ?R) = (if D = 0 then 0 else N smod D)"
    by (auto simp: signed_modulo_int_def sgn_if)
  ultimately show ?thesis using q'(2) q'(3)[unfolded vq] r(2) r(3)[unfolded vr] k
    by (intro exI[of _ "\<lparr>quotient = q', remainder = r\<rparr>"]) (simp only: DivisionResult.select_convs simp_thms)
qed

end

end
