(* ===== verification/Evaluator_Theorems.thy ===== *)
theory Evaluator_Theorems
  imports Evaluator_Div Bits_Theorems
begin

text \<open>
  The contract of the evaluator template on the evaluators of the model. The ternary evaluator
  meets it with \<open>tern_bit\<close>: whatever bits the operands may stand for, the result may stand for
  the bits of the arithmetic result, which is what the ternary analysis relies on. The boolean
  evaluator meets it with equality, so the template and \<^verbatim>\<open>bits_ops\<close> compute the same vectors.
\<close>

interpretation tern: evaluator_laws TernaryEvaluator tern_bit
  by unfold_locales
    (auto simp: TernaryEvaluator_def TernaryEvaluator_Not_def TernaryEvaluator_If_def ternary_And_def
      ternary_Or_def tern_bit_def split: TernaryValue.splits if_splits)

interpretation boolean: evaluator_laws "BoolEvaluator ite" "(=)" for ite
  by unfold_locales (auto simp: BoolEvaluator_def)

lemma ternary_not_ite [simp]: "\<not> kIsITEFundamental TernaryEvaluator"
  by (simp add: TernaryEvaluator_def)

section \<open>Soundness of the ternary evaluator\<close>

text \<open>C33. The adder and the subtractor on ternary vectors: the sum and the difference are sound, and
  the carry, borrow and signed overflow elements are sound for the conditions they report.\<close>

theorem ternary_add_sub_sound:
  assumes "vrel tern_bit a v" "vrel tern_bit b w" "length a = n" "length b = n" "0 < n"
  shows "(\<exists>s. ae_AddWithCarry TernaryEvaluator a b = Some s \<and> length (or_result s) = n \<and>
      vrel tern_bit (or_result s) (v + w) \<and> tern_bit (or_overflow s) (take_bit n v + take_bit n w \<ge> 2 ^ n)) \<and>
    (\<exists>s. ae_AddWithSignedOverflow TernaryEvaluator a b = Some s \<and> length (or_result s) = n \<and>
      vrel tern_bit (or_result s) (v + w) \<and>
      tern_bit (or_overflow s) (\<not> fits_signed n (signed_take_bit (n - 1) v + signed_take_bit (n - 1) w))) \<and>
    (\<exists>s. ae_SubWithUnsignedUnderflow TernaryEvaluator a b = Some s \<and> length (or_result s) = n \<and>
      vrel tern_bit (or_result s) (v - w) \<and> tern_bit (or_overflow s) (take_bit n v < take_bit n w)) \<and>
    (\<exists>s. ae_SubWithSignedUnderflow TernaryEvaluator a b = Some s \<and> length (or_result s) = n \<and>
      vrel tern_bit (or_result s) (v - w) \<and>
      tern_bit (or_overflow s) (\<not> fits_signed n (signed_take_bit (n - 1) v - signed_take_bit (n - 1) w)))"
proof -
  have "a \<noteq> []" using assms(3,5) by auto
  then show ?thesis
    using tern.AddWithCarry_rel[OF assms(1,2)] tern.AddWithSignedOverflow_rel[OF assms(1,2)]
      tern.SubWithUnsignedUnderflow_rel[OF assms(1,2)] tern.SubWithSignedUnderflow_rel[OF assms(1,2)] assms(3-5)
    by (intro conjI) (simp_all)
qed

theorem ternary_add_sub_sound_witness:
  "\<exists>s. ae_AddWithCarry TernaryEvaluator [kKnownOne, kUnknown] [kKnownOne, kKnownZero] = Some s \<and>
    vrel tern_bit (or_result s) 4"
  using ternary_add_sub_sound[of "[kKnownOne, kUnknown]" 3 "[kKnownOne, kKnownZero]" 1 2] by auto

text \<open>C29. Multiplication on ternary vectors. The Dadda multiplier returns for vectors of all widths, with the
  sum of the widths, and describes the exact product; with an output width it describes the product
  modulo that width and whether the product fits. Signed multiplication does the same for operands of
  1 to \<open>2 ^ 30 - 1\<close> bits (twice the width is an \<^verbatim>\<open>int\<close>) and a positive output width.\<close>

theorem ternary_mul_sound:
  assumes "vrel tern_bit a v" "vrel tern_bit b w"
  shows "(\<exists>r. ae_UMul TernaryEvaluator a b = Some r \<and> length r = length a + length b \<and>
      vrel tern_bit r (take_bit (length a) v * take_bit (length b) w)) \<and>
    (\<exists>s. ae_UMulWithOverflow TernaryEvaluator a b k = Some s \<and> length (or_result s) = k \<and>
      vrel tern_bit (or_result s) (take_bit (length a) v * take_bit (length b) w) \<and>
      tern_bit (or_overflow s) (take_bit (length a) v * take_bit (length b) w \<ge> 2 ^ k)) \<and>
    (a \<noteq> [] \<and> b \<noteq> [] \<and> length a < 2 ^ 30 \<and> length b < 2 ^ 30 \<longrightarrow>
      (\<exists>r. ae_SMul TernaryEvaluator a b = Some r \<and> length r = length a + length b \<and>
        vrel tern_bit r (signed_take_bit (length a - 1) v * signed_take_bit (length b - 1) w)) \<and>
      (0 < k \<longrightarrow> (\<exists>s. ae_SMulWithOverflow TernaryEvaluator a b k = Some s \<and> length (or_result s) = k \<and>
        vrel tern_bit (or_result s) (signed_take_bit (length a - 1) v * signed_take_bit (length b - 1) w) \<and>
        tern_bit (or_overflow s)
          (\<not> fits_signed k (signed_take_bit (length a - 1) v * signed_take_bit (length b - 1) w)))))"
  using tern.UMul_rel[OF assms] tern.UMulWithOverflow_rel[OF assms, of k] tern.SMul_rel[OF assms]
    tern.SMulWithOverflow_rel[OF assms, of k]
  by (intro conjI impI) (blast+)

theorem ternary_mul_sound_witness:
  "(\<exists>r. ae_UMul TernaryEvaluator [kKnownOne, kUnknown, kKnownOne] [kUnknown, kKnownOne] = Some r \<and>
    length r = 5 \<and> vrel tern_bit r 21) \<and>
   (\<exists>s. ae_UMulWithOverflow TernaryEvaluator [kKnownOne, kUnknown, kKnownOne] [kUnknown, kKnownOne] 4 = Some s \<and>
    length (or_result s) = 4 \<and> vrel tern_bit (or_result s) 21 \<and> tern_bit (or_overflow s) True)"
proof -
  let ?a = "[kKnownOne, kUnknown, kKnownOne]" and ?b = "[kUnknown, kKnownOne]"
  have r: "vrel tern_bit ?a 7" "vrel tern_bit ?b 3" by simp_all
  have p: "take_bit (length ?a) 7 * take_bit (length ?b) 3 = (21 :: int)" by (simp add: take_bit_eq_mod)
  have l: "length ?a + length ?b = 5" by simp
  note t = ternary_mul_sound[OF r, of 4, unfolded p l]
  show ?thesis using t[THEN conjunct1] t[THEN conjunct2, THEN conjunct1] by simp
qed

text \<open>C30. Long division on ternary vectors describes the quotient and the remainder, and for a divisor
  that is zero the results the IR defines.\<close>

theorem ternary_div_sound:
  assumes "vrel tern_bit a v" "vrel tern_bit b w"
  defines "N \<equiv> take_bit (length a) v" and "D \<equiv> take_bit (length b) w"
    and "SN \<equiv> signed_take_bit (length a - 1) v" and "SD \<equiv> signed_take_bit (length b - 1) w"
  shows "(\<exists>s. ae_UDivMod TernaryEvaluator a b = Some s \<and>
      length (quotient s) = length a \<and> length (remainder s) = length b \<and>
      vrel tern_bit (quotient s) (if D = 0 then - 1 else N div D) \<and>
      vrel tern_bit (remainder s) (if D = 0 then 0 else N mod D)) \<and>
    (a \<noteq> [] \<and> b \<noteq> [] \<longrightarrow> (\<exists>s. ae_SDivMod TernaryEvaluator a b = Some s \<and>
      length (quotient s) = length a \<and> length (remainder s) = length b \<and>
      vrel tern_bit (quotient s)
        (if SD = 0 then if SN < 0 then - (2 ^ (length a - 1)) else 2 ^ (length a - 1) - 1 else SN sdiv SD) \<and>
      vrel tern_bit (remainder s) (if SD = 0 then 0 else SN smod SD)))"
  using tern.UDivMod_rel[OF assms(1,2)] tern.SDivMod_rel[OF assms(1,2)]
  unfolding N_def D_def SN_def SD_def by blast

theorem ternary_div_sound_witness:
  "\<exists>s. ae_UDivMod TernaryEvaluator [kKnownOne, kUnknown, kKnownOne] [kKnownZero, kKnownOne] = Some s \<and>
    vrel tern_bit (quotient s) 3 \<and> vrel tern_bit (remainder s) 1"
  using ternary_div_sound[of "[kKnownOne, kUnknown, kKnownOne]" 7 "[kKnownZero, kKnownOne]" 2]
  by (auto simp: take_bit_Suc)

text \<open>The comparisons on ternary vectors describe the comparisons of the numbers.\<close>

theorem ternary_compare_sound:
  assumes "vrel tern_bit a v" "vrel tern_bit b w" "length a = n" "length b = n" "0 < n"
  shows "(\<exists>e. ae_Equals TernaryEvaluator a b = Some e \<and> tern_bit e (take_bit n v = take_bit n w)) \<and>
    (\<exists>e. ae_ULessThan TernaryEvaluator a b = Some e \<and> tern_bit e (take_bit n v < take_bit n w)) \<and>
    (\<exists>e. ae_ULessThanOrEqual TernaryEvaluator a b = Some e \<and> tern_bit e (take_bit n v \<le> take_bit n w)) \<and>
    (\<exists>e. ae_UGreaterThan TernaryEvaluator a b = Some e \<and> tern_bit e (take_bit n v > take_bit n w)) \<and>
    (\<exists>e. ae_UGreaterThanOrEqual TernaryEvaluator a b = Some e \<and> tern_bit e (take_bit n v \<ge> take_bit n w)) \<and>
    (\<exists>e. ae_SLessThan TernaryEvaluator a b = Some e \<and>
      tern_bit e (signed_take_bit (n - 1) v < signed_take_bit (n - 1) w))"
proof -
  have "a \<noteq> []" using assms(3,5) by auto
  then show ?thesis
    using tern.Equals_rel[OF assms(1,2)] tern.ULessThan_rel[OF assms(1,2)] tern.U_compare_rel[OF assms(1,2)]
      tern.SLessThan_rel[OF assms(1,2)] assms(3-5)
    by (intro conjI) (simp_all)
qed

text \<open>C34. Shifts and dynamic slices of a ternary vector by an amount that is itself a ternary vector.
  An amount past the width shifts everything out, and an update past the end leaves the vector as
  it is.\<close>

theorem ternary_shift_sound:
  assumes "vrel tern_bit xs v" "xs \<noteq> []" "length xs < 2 ^ 63" "vrel tern_bit amount a"
  defines "s \<equiv> nat (take_bit (length amount) a)"
  shows "(\<exists>r. ae_ShiftRightLogical TernaryEvaluator xs amount = Some r \<and> length r = length xs \<and>
      vrel tern_bit r (drop_bit s (take_bit (length xs) v))) \<and>
    (\<exists>r. ae_ShiftRightArith TernaryEvaluator xs amount = Some r \<and> length r = length xs \<and>
      vrel tern_bit r (drop_bit s (signed_take_bit (length xs - 1) v))) \<and>
    (\<exists>r. ae_ShiftLeftLogical TernaryEvaluator xs amount = Some r \<and> length r = length xs \<and>
      vrel tern_bit r (push_bit s v)) \<and>
    (width \<le> length xs \<longrightarrow> (\<exists>r. ae_DynamicBitSlice TernaryEvaluator xs amount width = Some r \<and> length r = width \<and>
      vrel tern_bit r (drop_bit s (take_bit (length xs) v)))) \<and>
    (vrel tern_bit ys u \<longrightarrow> (\<exists>r. ae_BitSliceUpdate_dynamic TernaryEvaluator xs amount ys = Some r \<and>
      length r = length xs \<and> vrel tern_bit r (window_value v s u (length ys))))"
  using tern.Shift_rel[OF assms(1-4)] tern.DynamicBitSlice_rel[OF assms(1-3) _ assms(4)]
    tern.BitSliceUpdate_dynamic_rel[OF assms(1-3) _ assms(4)]
  unfolding s_def by (intro conjI impI) (simp_all)

theorem ternary_shift_sound_witness:
  "\<exists>r. ae_ShiftLeftLogical TernaryEvaluator [kKnownOne, kUnknown, kKnownZero] [kUnknown, kKnownZero] = Some r \<and>
    vrel tern_bit r 6"
  using ternary_shift_sound[of "[kKnownOne, kUnknown, kKnownZero]" 3 "[kUnknown, kKnownZero]" 1 0 "[]" 0]
  by (auto simp: take_bit_eq_mod)

section \<open>The boolean evaluator and bits\_ops\<close>

text \<open>\<open>agree\<close>: both computations return and the vectors are equal bit by bit.\<close>

definition agree :: "bool \<Rightarrow> bits option \<Rightarrow> bool list option \<Rightarrow> bool" where
  "agree ite c r = (\<exists>b xs. c = Some b \<and> r = Some xs \<and> ae_BitsToVector (BoolEvaluator ite) b = Some xs)"

lemma vrel_eq_iff: "vrel (=) xs v \<longleftrightarrow> xs = map (bit v) [0..<length xs]"
  unfolding vrel_def list_eq_iff_nth_eq by simp

lemma bool_vector: "ae_BitsToVector (BoolEvaluator ite) (mkBitmap n v) = Some (map (bit (int v)) [0..<n])"
  using boolean.BitsToVector_rel[of ite n v] unfolding vrel_eq_iff by metis

lemma bool_vector_of_int: "ae_BitsToVector (BoolEvaluator ite) (bits_of_int n k) = Some (map (bit k) [0..<n])"
  by (simp add: bits_of_int_def bool_vector bit_take_bit_iff)

lemma agreeI:
  assumes "c = Some b" "\<exists>r. vo = Some r \<and> length r = n \<and> vrel (=) r k" "b = bits_of_int n k"
  shows "agree ite c vo"
  using assms by (auto simp: agree_def vrel_eq_iff bool_vector_of_int)

lemma bool_operand:
  assumes "is_bits a n v" "ae_BitsToVector (BoolEvaluator ite) a = Some x"
  shows "a = mkBitmap n v" "length x = n" "vrel (=) x (int v)"
  using assms by (auto simp: is_bits_iff bool_vector vrel_def)

lemma mk_of_int: "mkBitmap n v = bits_of_int n (int v)"
  by (simp add: bits_of_int_nat)

lemma mk_limits:
  "mkBitmap n (mask n) = bits_of_int n (- 1)" "mkBitmap n (mask (n - 1)) = bits_of_int n (2 ^ (n - 1) - 1)"
  "0 < n \<Longrightarrow> mkBitmap n (2 ^ (n - 1)) = bits_of_int n (- (2 ^ (n - 1)))"
  unfolding mk_of_int
  by (rule bits_of_int_cong; rule bit_eqI; auto simp: bit_simps minus_exp_eq_not_mask simp flip: mask_eq_exp_minus_1)+

text \<open>C31. Multiplication and division of \<^verbatim>\<open>bits_ops\<close>, which use machine words or OpenSSL numbers, and
  the gate-level Dadda multiplier and long division of the template compute the same vectors, the
  signed products for widths whose double is an \<^verbatim>\<open>int\<close>.\<close>

theorem bits_ops_template_equiv:
  assumes "bignum bn bv" "is_bits a n v" "is_bits b m w" "0 < n" "0 < m"
    and "ae_BitsToVector (BoolEvaluator ite) a = Some x" "ae_BitsToVector (BoolEvaluator ite) b = Some y"
  shows "agree ite (UMul bn a b) (ae_UMul (BoolEvaluator ite) x y) \<and>
    (n < 2 ^ 30 \<and> m < 2 ^ 30 \<longrightarrow> agree ite (SMul bn a b) (ae_SMul (BoolEvaluator ite) x y)) \<and>
    agree ite (UDiv bn a b) (ae_UDiv (BoolEvaluator ite) x y) \<and>
    agree ite (UMod bn a b) (ae_UMod (BoolEvaluator ite) x y) \<and>
    agree ite (SDiv bn a b) (ae_SDiv (BoolEvaluator ite) x y) \<and>
    agree ite (SMod bn a b) (ae_SMod (BoolEvaluator ite) x y)"
proof -
  note x = bool_operand[OF assms(2,6)] and y = bool_operand[OF assms(3,7)]
  have ne: "x \<noteq> []" "y \<noteq> []" using x(2) y(2) assms(4,5) by auto
  have sv: "signed_take_bit (n - 1) (int v) = sv n v" "signed_take_bit (m - 1) (int w) = sv m w"
    using assms(4,5) x(2) y(2) by (simp_all add: sv_def)
  have tb: "take_bit n (int v) = int (take_bit n v)" "take_bit m (int w) = int (take_bit m w)"
    by (simp_all add: take_bit_of_nat)
  note mk = bignum.UMul_mk[OF assms(1)] bignum.SMul_mk[OF assms(1)] bignum.UDiv_mk[OF assms(1)]
    bignum.UMod_mk[OF assms(1)] bignum.SDiv_mk[OF assms(1)] bignum.SMod_mk[OF assms(1)]
  obtain u where u: "ae_UDivMod (BoolEvaluator ite) x y = Some u" "length (quotient u) = n" "length (remainder u) = m"
      "vrel (=) (quotient u) (if take_bit m w = 0 then - 1 else int (take_bit n v div take_bit m w))"
      "vrel (=) (remainder u) (if take_bit m w = 0 then 0 else int (take_bit n v mod take_bit m w))"
    using boolean.UDivMod_rel[OF x(3) y(3), of ite] unfolding x(2) y(2) tb of_nat_eq_0_iff zdiv_int[symmetric] zmod_int[symmetric] by blast
  obtain s where s: "ae_SDivMod (BoolEvaluator ite) x y = Some s" "length (quotient s) = n" "length (remainder s) = m"
      "vrel (=) (quotient s) (if sv m w = 0 then if sv n v < 0 then - (2 ^ (n - 1)) else 2 ^ (n - 1) - 1 else sv n v sdiv sv m w)"
      "vrel (=) (remainder s) (if sv m w = 0 then 0 else sv n v smod sv m w)"
    using boolean.SDivMod_rel[OF x(3) y(3) ne, of ite] unfolding sv x(2) y(2) by blast
  have zero: "bits_of_int m 0 = mkBitmap m 0" using bits_of_int_nat[of m 0] by simp
  show ?thesis unfolding x(1) y(1) mk
  proof (intro conjI impI; rule agreeI[OF refl])
    show "\<exists>r. ae_UMul (BoolEvaluator ite) x y = Some r \<and> length r = n + m \<and> vrel (=) r (int (take_bit n v * take_bit m w))"
      using boolean.UMul_rel[OF x(3) y(3), of ite] unfolding tb x(2) y(2) of_nat_mult .
    show "\<exists>r. ae_SMul (BoolEvaluator ite) x y = Some r \<and> length r = n + m \<and> vrel (=) r (sv n v * sv m w)"
      if "n < 2 ^ 30 \<and> m < 2 ^ 30"
      using boolean.SMul_rel[OF x(3) y(3) ne, of ite] that unfolding sv x(2) y(2) by blast
    show "\<exists>r. ae_UDiv (BoolEvaluator ite) x y = Some r \<and> length r = n \<and>
        vrel (=) r (if take_bit m w = 0 then - 1 else int (take_bit n v div take_bit m w))"
      "\<exists>r. ae_UMod (BoolEvaluator ite) x y = Some r \<and> length r = m \<and>
        vrel (=) r (if take_bit m w = 0 then 0 else int (take_bit n v mod take_bit m w))"
      using u by (simp_all add: ae_UDiv_def ae_UMod_def)
    show "\<exists>r. ae_SDiv (BoolEvaluator ite) x y = Some r \<and> length r = n \<and>
        vrel (=) r (if sv m w = 0 then if sv n v < 0 then - (2 ^ (n - 1)) else 2 ^ (n - 1) - 1 else sv n v sdiv sv m w)"
      "\<exists>r. ae_SMod (BoolEvaluator ite) x y = Some r \<and> length r = m \<and>
        vrel (=) r (if sv m w = 0 then 0 else sv n v smod sv m w)"
      using s by (simp_all add: ae_SDiv_def ae_SMod_def)
  qed (use assms(4) in \<open>auto simp only: mk_limits bits_of_int_nat zero split: if_splits\<close>)
qed

theorem bits_ops_template_equiv_witness:
  "agree True (SDiv int_bn (mkBitmap 4 9) (mkBitmap 3 2))
     (ae_SDiv (BoolEvaluator True) [True, False, False, True] [False, True, False])"
  using bits_ops_template_equiv[OF int_bn.bignum_axioms, of "mkBitmap 4 9" 4 9 "mkBitmap 3 2" 3 2 True
      "[True, False, False, True]" "[False, True, False]"]
  by (simp add: bool_vector upt_rec bit_numeral_rec take_bit_eq_mod)

lemma vrel_eq_horner: "vrel (=) xs (horner_sum of_bool 2 xs)"
  by (simp add: vrel_def bit_horner_sum_bit_iff)

lemma vrel_eq_inj: "vrel (=) xs v \<Longrightarrow> vrel (=) ys v \<Longrightarrow> length xs = length ys \<Longrightarrow> xs = ys"
  unfolding vrel_eq_iff by metis

lemma bool_select:
  assumes "selector \<noteq> [] \<or> \<not> ite" "cs \<noteq> []" "length cs < 2 ^ 31" "\<forall>c\<in>set cs. length c = w"
    and "case dv of None \<Rightarrow> 2 ^ length selector \<le> length cs | Some d \<Rightarrow> length d = w"
  defines "k \<equiv> nat (horner_sum of_bool 2 selector)"
  shows "ae_Select (BoolEvaluator ite) selector cs dv = Some (if k < length cs then cs ! k else the dv)"
proof -
  let ?vs = "map (horner_sum of_bool 2) cs" and ?d = "case dv of None \<Rightarrow> 0 | Some d \<Rightarrow> horner_sum of_bool 2 d"
  let ?s = "horner_sum of_bool 2 selector :: int"
  have cs: "boolean.cases_rel w cs ?vs" using assms(4) vrel_eq_horner
    by (auto simp: boolean.cases_rel_def list_all2_conv_all_nth)
  have dv: "case dv of None \<Rightarrow> 2 ^ length selector \<le> length cs | Some e \<Rightarrow> length e = w \<and> vrel (=) e ?d"
    using assms(5) vrel_eq_horner by (auto split: option.splits)
  have ite: "selector \<noteq> [] \<or> \<not> kIsITEFundamental (BoolEvaluator ite)" "length cs < 2 ^ 64" using assms(1,3) by (auto simp: BoolEvaluator_def)
  obtain r where r: "ae_Select (BoolEvaluator ite) selector cs dv = Some r" "length r = w"
      "vrel (=) r (select_value (take_bit (length selector) ?s) ?vs ?d)"
    using boolean.Select_rel[OF vrel_eq_horner ite(1) cs assms(2) ite(2) _ dv] assms(3) by (auto simp: ae_Select_def)
  have b: "0 \<le> ?s" "?s < 2 ^ length selector"
    by (induction selector; simp) (rule horner_sum_of_bool_2_less)
  have s: "take_bit (length selector) ?s = ?s" "?s = int k" by (rule take_bit_int_eq_self[OF b]) (simp only: k_def int_nat_eq b(1) if_True)
  have "int k < int (2 ^ length selector)" using b(2) unfolding s(2) by simp
  then have kn: "k < 2 ^ length selector" by (simp only: of_nat_less_iff)
  let ?c = "if k < length cs then cs ! k else the dv"
  have "length ?c = w" "vrel (=) ?c (select_value (int k) ?vs ?d)"
    using assms(4,5) kn vrel_eq_horner by (auto simp: select_value_def split: option.splits)
  then show ?thesis using vrel_eq_inj[of r _ ?c] r s(1,2) by auto
qed

text \<open>C32. The two implementations of \<^verbatim>\<open>Select\<close> on booleans, the one built from one-hot terms and the one built from
  if-then-else elements, with fewer than \<open>2 ^ 31\<close> cases of one width and a default where the selector can
  name more: with a non-empty selector and at least one case both return the case that the selector
  names, or the default. They differ on the two inputs left: for an empty selector the one-hot
  implementation returns the first case and the other has no result, and without cases the other returns
  the default and the one-hot implementation has no result for a selector below 64 bits.\<close>

theorem select_implementations_equiv:
  assumes "length cs < 2 ^ 31" "\<forall>c\<in>set cs. length c = w"
    and "case dv of None \<Rightarrow> 2 ^ length selector \<le> length cs | Some d \<Rightarrow> length d = w"
  defines "k \<equiv> nat (horner_sum of_bool 2 selector)"
  shows "(selector \<noteq> [] \<and> cs \<noteq> [] \<longrightarrow>
      ae_Select (BoolEvaluator True) selector cs dv = Some (if k < length cs then cs ! k else the dv) \<and>
      ae_Select (BoolEvaluator False) selector cs dv = Some (if k < length cs then cs ! k else the dv)) \<and>
    (selector = [] \<and> cs \<noteq> [] \<longrightarrow>
      ae_Select (BoolEvaluator True) selector cs dv = None \<and> ae_Select (BoolEvaluator False) selector cs dv = Some (hd cs)) \<and>
    (cs = [] \<and> length selector < 64 \<longrightarrow>
      ae_Select (BoolEvaluator True) selector cs dv = dv \<and> ae_Select (BoolEvaluator False) selector cs dv = None)"
proof (intro conjI impI)
  show "ae_Select (BoolEvaluator True) selector cs dv = Some (if k < length cs then cs ! k else the dv)"
    "ae_Select (BoolEvaluator False) selector cs dv = Some (if k < length cs then cs ! k else the dv)" if "selector \<noteq> [] \<and> cs \<noteq> []"
    using bool_select[of selector True cs w dv] bool_select[of selector False cs w dv] assms(1-3) that unfolding k_def by blast+
  show "ae_Select (BoolEvaluator False) selector cs dv = Some (hd cs)" if "selector = [] \<and> cs \<noteq> []"
    using bool_select[of selector False cs w dv] assms(1-3) that by (auto simp: hd_conv_nth)
  show "ae_Select (BoolEvaluator True) selector cs dv = None" if "selector = [] \<and> cs \<noteq> []"
    using that by (auto simp: ae_Select_def ae_SelectInternal_def BoolEvaluator_def ae_SelectInternal_ite.simps Let_def split: Option.bind_splits)
  assume e: "cs = [] \<and> length selector < 64"
  then obtain d where d: "dv = Some d" using assms(3) by (cases dv) auto
  show "ae_Select (BoolEvaluator True) selector cs dv = dv"
    using e by (simp add: ae_Select_def ae_SelectInternal_def BoolEvaluator_def ae_SelectInternal_ite.simps)
  have "MinBitCountUnsigned (- 1) = 64" by code_simp
  then have "UBits (- 1) (length selector) = None" using e by (simp add: UBits_def UBitsWithStatus_def)
  then show "ae_Select (BoolEvaluator False) selector cs dv = None"
    using e d by (simp add: ae_Select_def ae_SelectInternal_def ae_SelectInternal_one_hot_def ae_one_hot_selector_def BoolEvaluator_def)
qed

theorem select_implementations_equiv_witness:
  "ae_Select (BoolEvaluator True) [True, True] [[True], [False], [True]] (Some [False]) = Some [False] \<and>
    ae_Select (BoolEvaluator False) [True, True] [[True], [False], [True]] (Some [False]) = Some [False]"
  using select_implementations_equiv[of "[[True], [False], [True]]" 1 "[True, True]" "Some [False]"] by simp

end
