(* ===== verification/Xls_Interval.thy ===== *)
theory Xls_Interval
  imports Bits_Ops
begin

text \<open>
  \<^verbatim>\<open>xls/ir/interval.h\<close> and \<^verbatim>\<open>interval.cc\<close>: intervals of bit vectors with inclusive bounds. An
  interval whose lower bound is above its upper bound is improper and wraps around the end. Every
  method that calls \<^verbatim>\<open>EnsureValid\<close> or checks its arguments can abort, which is \<open>None\<close>; a method that
  returns a \<^verbatim>\<open>std::optional\<close> has two options, the outer one for the abort.
\<close>

record Interval =
  is_valid :: bool
  lower_bound :: bits
  upper_bound :: bits

section \<open>Construction\<close>

definition Interval_default :: Interval where
  "Interval_default = \<lparr>is_valid = False, lower_bound = Bits 0, upper_bound = Bits 0\<rparr>"

definition mkInterval :: "bits \<Rightarrow> bits \<Rightarrow> Interval option" where
  "mkInterval lower upper = do {
     CHECK (ib_bit_count lower = ib_bit_count upper);
     Some \<lparr>is_valid = True, lower_bound = lower, upper_bound = upper\<rparr> }"

definition Interval_Closed :: "bits \<Rightarrow> bits \<Rightarrow> Interval option" where
  "Interval_Closed lower upper = mkInterval lower upper"

definition Interval_LeftOpen :: "bits \<Rightarrow> bits \<Rightarrow> Interval option" where
  "Interval_LeftOpen lower upper = do { l \<leftarrow> Increment lower; mkInterval l upper }"

definition Interval_RightOpen :: "bits \<Rightarrow> bits \<Rightarrow> Interval option" where
  "Interval_RightOpen lower upper = do { u \<leftarrow> Decrement upper; mkInterval lower u }"

definition Interval_Open :: "bits \<Rightarrow> bits \<Rightarrow> Interval option" where
  "Interval_Open lower upper = do { l \<leftarrow> Increment lower; u \<leftarrow> Decrement upper; mkInterval l u }"

definition Interval_BitCount :: "Interval \<Rightarrow> nat option" where
  "Interval_BitCount i = do { CHECK (is_valid i); Some (ib_bit_count (lower_bound i)) }"

definition Interval_Maximal :: "nat \<Rightarrow> Interval option" where
  "Interval_Maximal bit_width = do { z \<leftarrow> UBits 0 bit_width; mkInterval z (AllOnes bit_width) }"

definition Interval_Precise :: "bits \<Rightarrow> Interval option" where
  "Interval_Precise b = mkInterval b b"

definition Interval_ZeroExtend :: "Interval \<Rightarrow> nat \<Rightarrow> Interval option" where
  "Interval_ZeroExtend i bit_width = do {
     n \<leftarrow> Interval_BitCount i;
     CHECK (bit_width \<ge> n);
     l \<leftarrow> ZeroExtend (lower_bound i) bit_width;
     u \<leftarrow> ZeroExtend (upper_bound i) bit_width;
     mkInterval l u }"

section \<open>Queries\<close>

definition IsImproper :: "Interval \<Rightarrow> bool option" where
  "IsImproper i = do {
     CHECK (is_valid i);
     n \<leftarrow> Interval_BitCount i;
     if n = 0 then Some False else ULessThan (upper_bound i) (lower_bound i) }"

definition Interval_IsPrecise :: "Interval \<Rightarrow> bool option" where
  "Interval_IsPrecise i = do {
     CHECK (is_valid i);
     n \<leftarrow> Interval_BitCount i;
     if n = 0 then Some True else Bits_eq (lower_bound i) (upper_bound i) }"

definition Interval_GetPreciseValue :: "Interval \<Rightarrow> bits option option" where
  "Interval_GetPreciseValue i = do {
     p \<leftarrow> Interval_IsPrecise i;
     Some (if p then Some (lower_bound i) else None) }"

definition Interval_IsMaximal :: "Interval \<Rightarrow> bool option" where
  "Interval_IsMaximal i = do {
     CHECK (is_valid i);
     n \<leftarrow> Interval_BitCount i;
     if n = 0 then Some True
     else do {
       improper \<leftarrow> IsImproper i;
       if improper then do { u \<leftarrow> Increment (upper_bound i); UEqual u (lower_bound i) }
       else do {
         z \<leftarrow> IsZero (lower_bound i);
         if z then Bits_IsAllOnes (upper_bound i) else Some False } } }"

definition Interval_Covers :: "Interval \<Rightarrow> bits \<Rightarrow> bool option" where
  "Interval_Covers i point = do {
     CHECK (is_valid i);
     n \<leftarrow> Interval_BitCount i;
     CHECK (n = ib_bit_count point);
     if n = 0 then Some True
     else do {
       improper \<leftarrow> IsImproper i;
       l \<leftarrow> ULessThanOrEqual (lower_bound i) point;
       if improper then if l then Some True else ULessThanOrEqual point (upper_bound i)
       else if l then ULessThanOrEqual point (upper_bound i) else Some False } }"

definition Interval_CoversZero :: "Interval \<Rightarrow> bool option" where
  "Interval_CoversZero i = do { n \<leftarrow> Interval_BitCount i; z \<leftarrow> UBits 0 n; Interval_Covers i z }"

definition Interval_CoversOne :: "Interval \<Rightarrow> bool option" where
  "Interval_CoversOne i = do {
     n \<leftarrow> Interval_BitCount i;
     if n > 0 then do { one \<leftarrow> UBits 1 n; Interval_Covers i one } else Some False }"

definition Interval_CoversMax :: "Interval \<Rightarrow> bool option" where
  "Interval_CoversMax i = do { n \<leftarrow> Interval_BitCount i; Interval_Covers i (AllOnes n) }"

definition Interval_IsTrueWhenAndWith :: "Interval \<Rightarrow> bits \<Rightarrow> bool option" where
  "Interval_IsTrueWhenAndWith i v = do {
     n \<leftarrow> Interval_BitCount i;
     CHECK (ib_bit_count v = n);
     let rope = BitsRope n;
     common_prefix \<leftarrow> LongestCommonPrefixMSB [lower_bound i, upper_bound i];
     rope \<leftarrow> rope_push_back rope (AllOnes (n - ib_bit_count common_prefix));
     rope \<leftarrow> rope_push_back rope common_prefix;
     mask \<leftarrow> rope_Build rope;
     a \<leftarrow> And mask v;
     z \<leftarrow> IsZero a;
     Some (\<not> z) }"

section \<open>Relations between intervals\<close>

text \<open>The three checks every binary method starts with.\<close>

definition check_proper_pair :: "Interval \<Rightarrow> Interval \<Rightarrow> unit option" where
  "check_proper_pair lhs rhs = do {
     n \<leftarrow> Interval_BitCount lhs; m \<leftarrow> Interval_BitCount rhs;
     CHECK (n = m);
     a \<leftarrow> IsImproper lhs; CHECK (\<not> a);
     b \<leftarrow> IsImproper rhs; CHECK (\<not> b) }"

definition Interval_Overlaps :: "Interval \<Rightarrow> Interval \<Rightarrow> bool option" where
  "Interval_Overlaps lhs rhs = do {
     check_proper_pair lhs rhs;
     n \<leftarrow> Interval_BitCount lhs;
     if n = 0 then Some True
     else do {
       x \<leftarrow> UGreaterThanOrEqual (upper_bound lhs) (lower_bound rhs);
       if x then UGreaterThanOrEqual (upper_bound rhs) (lower_bound lhs) else Some False } }"

definition Interval_Disjoint :: "Interval \<Rightarrow> Interval \<Rightarrow> bool option" where
  "Interval_Disjoint lhs rhs = do { x \<leftarrow> Interval_Overlaps lhs rhs; Some (\<not> x) }"

definition Interval_Abuts :: "Interval \<Rightarrow> Interval \<Rightarrow> bool option" where
  "Interval_Abuts lhs rhs = do {
     check_proper_pair lhs rhs;
     n \<leftarrow> Interval_BitCount lhs;
     if n = 0 then Some False
     else do {
       let a = lower_bound lhs; let b = upper_bound lhs;
       let c = lower_bound rhs; let d = upper_bound rhs;
       bmax \<leftarrow> Bits_IsAllOnes b;
       bp_vs_c \<leftarrow> (if bmax then Some 1 else do { bp \<leftarrow> Increment b; bits_UCmp bp c });
       if \<not> bmax \<and> bp_vs_c = 0 then Some True
       else if \<not> bmax \<and> bp_vs_c < 0 then Some False
       else do {
         dmax \<leftarrow> Bits_IsAllOnes d;
         if dmax then Some False else do { dp \<leftarrow> Increment d; UEqual dp a } } } }"

definition Interval_ConvexHull :: "Interval \<Rightarrow> Interval \<Rightarrow> Interval option" where
  "Interval_ConvexHull lhs rhs = do {
     check_proper_pair lhs rhs;
     n \<leftarrow> Interval_BitCount lhs;
     if n = 0 then mkInterval (Bits 0) (Bits 0)
     else do {
       l \<leftarrow> UMin (lower_bound lhs) (lower_bound rhs);
       u \<leftarrow> UMax (upper_bound lhs) (upper_bound rhs);
       mkInterval l u } }"

definition Interval_Intersect :: "Interval \<Rightarrow> Interval \<Rightarrow> Interval option option" where
  "Interval_Intersect lhs rhs = do {
     check_proper_pair lhs rhs;
     l \<leftarrow> UMax (lower_bound lhs) (lower_bound rhs);
     u \<leftarrow> UMin (upper_bound lhs) (upper_bound rhs);
     intersection \<leftarrow> mkInterval l u;
     improper \<leftarrow> IsImproper intersection;
     Some (if improper then None else Some intersection) }"

definition Interval_Difference :: "Interval \<Rightarrow> Interval \<Rightarrow> Interval list option" where
  "Interval_Difference lhs rhs = do {
     check_proper_pair lhs rhs;
     intersection \<leftarrow> Interval_Intersect lhs rhs;
     case intersection of
       None \<Rightarrow> Some [lhs]
     | Some m \<Rightarrow> do {
         let a = lower_bound lhs; let b = lower_bound m;
         let c = upper_bound m; let d = upper_bound lhs;
         ab \<leftarrow> ULessThan a b;
         low \<leftarrow> (if ab then do { i \<leftarrow> Interval_RightOpen a b; Some [i] } else Some []);
         cd \<leftarrow> ULessThan c d;
         high \<leftarrow> (if cd then do { i \<leftarrow> Interval_LeftOpen c d; Some [i] } else Some []);
         Some (low @ high) } }"

definition Interval_Complement :: "Interval \<Rightarrow> Interval list option" where
  "Interval_Complement i = do {
     n \<leftarrow> Interval_BitCount i;
     m \<leftarrow> Interval_Maximal n;
     Interval_Difference m i }"

definition Interval_IsSubsetOf :: "Interval \<Rightarrow> Interval \<Rightarrow> bool option" where
  "Interval_IsSubsetOf lhs rhs = do {
     check_proper_pair lhs rhs;
     x \<leftarrow> ULessThanOrEqual (lower_bound rhs) (lower_bound lhs);
     if x then UGreaterThanOrEqual (upper_bound rhs) (upper_bound lhs) else Some False }"

text \<open>The order: lower bounds first, then upper bounds. The result is the sign of the comparison.\<close>

definition Interval_cmp :: "Interval \<Rightarrow> Interval \<Rightarrow> int option" where
  "Interval_cmp lhs rhs = do {
     lower_cmp \<leftarrow> bits_UCmp (lower_bound lhs) (lower_bound rhs);
     if lower_cmp = 0 then bits_UCmp (upper_bound lhs) (upper_bound rhs) else Some lower_cmp }"

definition Interval_less :: "Interval \<Rightarrow> Interval \<Rightarrow> bool option" where
  "Interval_less lhs rhs = do { c \<leftarrow> Interval_cmp lhs rhs; Some (c < 0) }"

definition Interval_eq :: "Interval \<Rightarrow> Interval \<Rightarrow> bool option" where
  "Interval_eq lhs rhs = do { c \<leftarrow> Interval_cmp lhs rhs; Some (c = 0) }"

section \<open>Size and values\<close>

partial_function (option) Interval_SizeBits :: "'bn bn_lib \<Rightarrow> Interval \<Rightarrow> bits option" where
  "Interval_SizeBits bn i = do {
     CHECK (is_valid i);
     wraps \<leftarrow> UGreaterThan (lower_bound i) (upper_bound i);
     n \<leftarrow> Interval_BitCount i;
     if wraps then do {
       z \<leftarrow> UBits 0 n;
       upper_part \<leftarrow> mkInterval (lower_bound i) (AllOnes n);
       x \<leftarrow> Interval_SizeBits bn upper_part;
       lower_part \<leftarrow> mkInterval z (upper_bound i);
       y \<leftarrow> Interval_SizeBits bn lower_part;
       Add bn x y }
     else do {
       difference \<leftarrow> Sub bn (upper_bound i) (lower_bound i);
       d \<leftarrow> ZeroExtend difference (n + 1);
       Increment d } }"

definition Interval_Size :: "'bn bn_lib \<Rightarrow> Interval \<Rightarrow> 64 word option option" where
  "Interval_Size bn i = do { s \<leftarrow> Interval_SizeBits bn i; TryUnsignedBitsToInt64 s }"

record ValuesIterator =
  cur_value :: bits
  is_first_and_maximal :: bool

definition ValuesIterator_None :: ValuesIterator where
  "ValuesIterator_None = \<lparr>cur_value = Bits 0, is_first_and_maximal = False\<rparr>"

definition ValuesIterator_next :: "ValuesIterator \<Rightarrow> ValuesIterator option" where
  "ValuesIterator_next it = do {
     v \<leftarrow> Increment (cur_value it);
     Some \<lparr>cur_value = v, is_first_and_maximal = False\<rparr> }"

definition ValuesIterator_eq :: "ValuesIterator \<Rightarrow> ValuesIterator \<Rightarrow> bool option" where
  "ValuesIterator_eq a b = do {
     e \<leftarrow> Bits_eq (cur_value a) (cur_value b);
     Some (e \<and> is_first_and_maximal a = is_first_and_maximal b) }"

definition Interval_begin :: "Interval \<Rightarrow> ValuesIterator option" where
  "Interval_begin i = do {
     CHECK (is_valid i);
     m \<leftarrow> Interval_IsMaximal i;
     Some \<lparr>cur_value = lower_bound i, is_first_and_maximal = m\<rparr> }"

definition Interval_end :: "Interval \<Rightarrow> ValuesIterator option" where
  "Interval_end i = do {
     CHECK (is_valid i);
     u \<leftarrow> Increment (upper_bound i);
     Some \<lparr>cur_value = u, is_first_and_maximal = False\<rparr> }"

text \<open>The range-based loop from \<^verbatim>\<open>begin()\<close> to \<^verbatim>\<open>end()\<close>, collecting the values.\<close>

partial_function (option) values_loop :: "ValuesIterator \<Rightarrow> ValuesIterator \<Rightarrow> bits list option" where
  "values_loop it e = do {
     stop \<leftarrow> ValuesIterator_eq it e;
     if stop then Some []
     else do {
       it' \<leftarrow> ValuesIterator_next it;
       rest \<leftarrow> values_loop it' e;
       Some (cur_value it # rest) } }"

definition Interval_Elements :: "'bn bn_lib \<Rightarrow> Interval \<Rightarrow> bits list option" where
  "Interval_Elements bn i = do {
     Interval_Size bn i;
     b \<leftarrow> Interval_begin i;
     e \<leftarrow> Interval_end i;
     values_loop b e }"

definition Interval_ToString :: "'bn bn_lib \<Rightarrow> Interval \<Rightarrow> string option" where
  "Interval_ToString bn i = do {
     l \<leftarrow> BitsToString bn (lower_bound i) kDefault False;
     u \<leftarrow> BitsToString bn (upper_bound i) kDefault False;
     Some (''['' @ l @ '', '' @ u @ '']'') }"

end
