(* ===== verification/Interval_Set.thy ===== *)
theory Interval_Set
  imports Xls_Interval
begin

text \<open>
  \<^verbatim>\<open>xls/ir/interval_set.h\<close> and \<^verbatim>\<open>interval_set.cc\<close>: sets of bit vectors as lists of intervals. The flag
  \<open>is_normalized\<close> records whether the list is sorted, proper and merged; the mutating methods
  clear it and \<^verbatim>\<open>Normalize\<close> sets it. An iterator into a list is the rest of the list from there on.
\<close>

record IntervalSet =
  is_normalized :: bool
  set_bit_count :: int
  intervals :: "Interval list"

section \<open>Construction\<close>

definition IntervalSet_default :: IntervalSet where
  "IntervalSet_default = \<lparr>is_normalized = True, set_bit_count = - 1, intervals = []\<rparr>"

definition IntervalSet_of_width :: "int \<Rightarrow> IntervalSet" where
  "IntervalSet_of_width bit_count = \<lparr>is_normalized = True, set_bit_count = bit_count, intervals = []\<rparr>"

definition IntervalSet_BitCount :: "IntervalSet \<Rightarrow> nat option" where
  "IntervalSet_BitCount s = do { CHECK (set_bit_count s \<ge> 0); Some (nat (set_bit_count s)) }"

definition Intervals :: "IntervalSet \<Rightarrow> Interval list option" where
  "Intervals s = do { CHECK (is_normalized s); Some (intervals s) }"

definition NumberOfIntervals :: "IntervalSet \<Rightarrow> nat" where
  "NumberOfIntervals s = length (intervals s)"

definition AddInterval :: "IntervalSet \<Rightarrow> Interval \<Rightarrow> IntervalSet option" where
  "AddInterval s i = do {
     n \<leftarrow> IntervalSet_BitCount s; m \<leftarrow> Interval_BitCount i;
     CHECK (n = m);
     Some (s\<lparr>is_normalized := False, intervals := intervals s @ [i]\<rparr>) }"

definition IntervalSet_Maximal :: "nat \<Rightarrow> IntervalSet option" where
  "IntervalSet_Maximal bit_count = do {
     i \<leftarrow> Interval_Maximal bit_count;
     s \<leftarrow> AddInterval (IntervalSet_of_width (int bit_count)) i;
     Some (s\<lparr>is_normalized := True\<rparr>) }"

definition IntervalSet_NonZero :: "int \<Rightarrow> IntervalSet option" where
  "IntervalSet_NonZero bit_count = do {
     CHECK (bit_count \<ge> 0);
     one \<leftarrow> UBits 1 (nat bit_count);
     i \<leftarrow> mkInterval one (AllOnes (nat bit_count));
     s \<leftarrow> AddInterval (IntervalSet_of_width bit_count) i;
     Some (s\<lparr>is_normalized := True\<rparr>) }"

definition IntervalSet_Precise :: "bits \<Rightarrow> IntervalSet option" where
  "IntervalSet_Precise b = do {
     i \<leftarrow> Interval_Precise b;
     s \<leftarrow> AddInterval (IntervalSet_of_width (int (ib_bit_count b))) i;
     Some (s\<lparr>is_normalized := True\<rparr>) }"

definition IntervalSet_Punctured :: "bits \<Rightarrow> IntervalSet option" where
  "IntervalSet_Punctured b = do {
     let n = ib_bit_count b;
     let s = IntervalSet_of_width (int n);
     z \<leftarrow> IsZero b;
     s \<leftarrow> (if z then Some s else do { i \<leftarrow> Interval_RightOpen (Bits n) b; AddInterval s i });
     m \<leftarrow> Bits_IsAllOnes b;
     s \<leftarrow> (if m then Some s else do { i \<leftarrow> Interval_LeftOpen b (AllOnes n); AddInterval s i });
     Some (s\<lparr>is_normalized := True\<rparr>) }"

definition SetIntervals :: "IntervalSet \<Rightarrow> Interval list \<Rightarrow> IntervalSet option" where
  "SetIntervals s is = do {
     n \<leftarrow> (case is of [] \<Rightarrow> Some (- 1) | i # _ \<Rightarrow> map_option int (Interval_BitCount i));
     foldM (\<lambda>i s. AddInterval s i) is (s\<lparr>is_normalized := False, intervals := [], set_bit_count := n\<rparr>) }"

section \<open>Normalize\<close>

text \<open>Improper intervals are replaced by their lower halves; the upper halves go to the end.\<close>

definition expand_step :: "bits \<Rightarrow> bits \<Rightarrow> nat \<Rightarrow> Interval list \<Rightarrow> Interval list option" where
  "expand_step z m k is = do {
     i \<leftarrow> nth_opt is k;
     improper \<leftarrow> IsImproper i;
     if improper then do {
       hi \<leftarrow> mkInterval (lower_bound i) m;
       lo \<leftarrow> mkInterval z (upper_bound i);
       set_opt (is @ [hi]) k lo }
     else Some is }"

definition expand_improper :: "nat \<Rightarrow> Interval list \<Rightarrow> Interval list option" where
  "expand_improper n is = do {
     flags \<leftarrow> mapM IsImproper is;
     if \<exists>f\<in>set flags. f then foldM (expand_step (Bits n) (AllOnes n)) [0..<length is] is
     else Some is }"

text \<open>\<^verbatim>\<open>absl::c_sort\<close> by \<^verbatim>\<open>operator<\<close>; intervals that compare equal are equal, so every sort agrees.\<close>

primrec interval_insert :: "Interval \<Rightarrow> Interval list \<Rightarrow> Interval list option" where
  "interval_insert x [] = Some [x]"
| "interval_insert x (y # ys) = do {
     lt \<leftarrow> Interval_less y x;
     if lt then do { r \<leftarrow> interval_insert x ys; Some (y # r) } else Some (x # y # ys) }"

definition interval_sort :: "Interval list \<Rightarrow> Interval list option" where
  "interval_sort is = foldM interval_insert (rev is) []"

text \<open>The merge in place: \<open>write_idx\<close> is the last interval kept so far.\<close>

definition merge_step :: "nat \<Rightarrow> Interval list \<times> nat \<Rightarrow> (Interval list \<times> nat) option" where
  "merge_step read_idx = (\<lambda>(is, write_idx). do {
     w \<leftarrow> nth_opt is write_idx;
     r \<leftarrow> nth_opt is read_idx;
     mergeable \<leftarrow> UAtLeastPredecessor (upper_bound w) (lower_bound r);
     if mergeable then do {
       gt \<leftarrow> UGreaterThan (upper_bound r) (upper_bound w);
       if gt then do {
         i \<leftarrow> Interval_Closed (lower_bound w) (upper_bound r);
         is \<leftarrow> set_opt is write_idx i;
         Some (is, write_idx) }
       else Some (is, write_idx) }
     else do {
       let write_idx = write_idx + 1;
       is \<leftarrow> (if write_idx \<noteq> read_idx then set_opt is write_idx r else Some is);
       Some (is, write_idx) } })"

definition vector_resize :: "Interval list \<Rightarrow> nat \<Rightarrow> Interval list" where
  "vector_resize is n = take n is @ replicate (n - length is) Interval_default"

definition Normalize :: "IntervalSet \<Rightarrow> IntervalSet option" where
  "Normalize s =
     (if is_normalized s then Some s
      else do {
        single \<leftarrow> (if length (intervals s) = 1 then map_option (\<lambda>i. \<not> i) (IsImproper (hd (intervals s))) else Some False);
        if single then Some (s\<lparr>is_normalized := True\<rparr>)
        else do {
          is \<leftarrow> expand_improper (nat (set_bit_count s)) (intervals s);
          is \<leftarrow> interval_sort is;
          (is, write_idx) \<leftarrow> foldM merge_step [1..<length is] (is, 0);
          Some (s\<lparr>is_normalized := True, intervals := vector_resize is (write_idx + 1)\<rparr>) } })"

section \<open>Bounds\<close>

definition IntervalSet_LowerBound :: "IntervalSet \<Rightarrow> bits option option" where
  "IntervalSet_LowerBound s = do {
     CHECK (set_bit_count s \<ge> 0);
     if is_normalized s then Some (if intervals s = [] then None else Some (lower_bound (hd (intervals s))))
     else foldM (\<lambda>i lower. case lower of
              Some l \<Rightarrow> do { lt \<leftarrow> ULessThan (lower_bound i) l; Some (Some (if lt then lower_bound i else l)) }
            | None \<Rightarrow> Some (Some (lower_bound i))) (intervals s) None }"

definition IntervalSet_UpperBound :: "IntervalSet \<Rightarrow> bits option option" where
  "IntervalSet_UpperBound s = do {
     CHECK (set_bit_count s \<ge> 0);
     if is_normalized s then Some (if intervals s = [] then None else Some (upper_bound (last (intervals s))))
     else foldM (\<lambda>i upper. case upper of
              Some u \<Rightarrow> do { gt \<leftarrow> UGreaterThan (upper_bound i) u; Some (Some (if gt then upper_bound i else u)) }
            | None \<Rightarrow> Some (Some (upper_bound i))) (intervals s) None }"

definition IntervalSet_ConvexHull :: "IntervalSet \<Rightarrow> Interval option option" where
  "IntervalSet_ConvexHull s = do {
     CHECK (set_bit_count s \<ge> 0);
     lower \<leftarrow> IntervalSet_LowerBound s;
     upper \<leftarrow> IntervalSet_UpperBound s;
     case (lower, upper) of
       (Some l, Some u) \<Rightarrow> do { i \<leftarrow> mkInterval l u; Some (Some i) }
     | _ \<Rightarrow> Some None }"

definition IntervalSet_ZeroExtend :: "IntervalSet \<Rightarrow> nat \<Rightarrow> IntervalSet option" where
  "IntervalSet_ZeroExtend s bit_width = do {
     n \<leftarrow> IntervalSet_BitCount s;
     CHECK (bit_width \<ge> n);
     is \<leftarrow> Intervals s;
     r \<leftarrow> foldM (\<lambda>i r. do { z \<leftarrow> Interval_ZeroExtend i bit_width; AddInterval r z }) is
            (IntervalSet_of_width (int bit_width));
     Normalize r }"

definition IntervalSet_Of :: "Interval list \<Rightarrow> IntervalSet option" where
  "IntervalSet_Of is =
     (case is of [] \<Rightarrow> None
      | i # _ \<Rightarrow> do {
          n \<leftarrow> Interval_BitCount i;
          r \<leftarrow> foldM (\<lambda>i r. AddInterval r i) is (IntervalSet_of_width (int n));
          Normalize r })"

definition IntervalSet_IsEmpty :: "IntervalSet \<Rightarrow> bool" where
  "IntervalSet_IsEmpty s = (intervals s = [])"

definition IntervalSet_IsMaximal :: "IntervalSet \<Rightarrow> bool option" where
  "IntervalSet_IsMaximal s = do {
     CHECK (is_normalized s);
     CHECK (set_bit_count s \<ge> 0);
     r \<leftarrow> loop (\<lambda>i _. do { m \<leftarrow> Interval_IsMaximal i; Some (if m then Return True else Continue ()) }) (intervals s) ();
     Some (step_result (\<lambda>_. False) r) }"

section \<open>Intersection and disjointness\<close>

function intersect_loop :: "Interval list \<Rightarrow> Interval list \<Rightarrow> Interval list \<Rightarrow> Interval list option" where
  "intersect_loop (l # ls) (r # rs) result = do {
     ub_cmp \<leftarrow> bits_UCmp (upper_bound l) (upper_bound r);
     low \<leftarrow> UMax (lower_bound l) (lower_bound r);
     let high = (if ub_cmp < 0 then upper_bound l else upper_bound r);
     le \<leftarrow> ULessThanOrEqual low high;
     result \<leftarrow> (if le then do { i \<leftarrow> mkInterval low high; Some (result @ [i]) } else Some result);
     if ub_cmp \<le> 0 \<and> ls = [] then Some result
     else if ub_cmp \<ge> 0 \<and> rs = [] then Some result
     else intersect_loop (if ub_cmp \<le> 0 then ls else l # ls) (if ub_cmp \<ge> 0 then rs else r # rs) result }"
| "intersect_loop [] rs result = None"
| "intersect_loop (l # ls) [] result = None"
  by pat_completeness auto
termination
  by (relation "measure (\<lambda>(ls, rs, result). length ls + length rs)") auto

definition IntervalSet_Intersect :: "IntervalSet \<Rightarrow> IntervalSet \<Rightarrow> IntervalSet option" where
  "IntervalSet_Intersect lhs rhs = do {
     n \<leftarrow> IntervalSet_BitCount lhs; m \<leftarrow> IntervalSet_BitCount rhs;
     CHECK (n = m);
     CHECK (is_normalized lhs);
     CHECK (is_normalized rhs);
     if IntervalSet_IsEmpty lhs \<or> IntervalSet_IsEmpty rhs then Some (IntervalSet_of_width (int n))
     else do {
       ls \<leftarrow> Intervals lhs; rs \<leftarrow> Intervals rhs;
       is \<leftarrow> intersect_loop ls rs [];
       Some \<lparr>is_normalized = True, set_bit_count = int n, intervals = is\<rparr> } }"

function disjoint_loop :: "Interval list \<Rightarrow> Interval list \<Rightarrow> bool option" where
  "disjoint_loop (l # ls) (r # rs) = do {
     overlaps \<leftarrow> Interval_Overlaps l r;
     if overlaps then Some False
     else do {
       lt \<leftarrow> Interval_less l r;
       if lt then disjoint_loop ls (r # rs) else disjoint_loop (l # ls) rs } }"
| "disjoint_loop [] rs = Some True"
| "disjoint_loop (l # ls) [] = Some True"
  by pat_completeness auto
termination
  by (relation "measure (\<lambda>(ls, rs). length ls + length rs)") auto

definition IntervalSet_Disjoint :: "IntervalSet \<Rightarrow> IntervalSet \<Rightarrow> bool option" where
  "IntervalSet_Disjoint lhs rhs = do {
     CHECK (is_normalized lhs \<and> is_normalized rhs);
     if IntervalSet_IsEmpty lhs \<or> IntervalSet_IsEmpty rhs then Some True
     else do {
       lm \<leftarrow> IntervalSet_IsMaximal lhs;
       rm \<leftarrow> (if lm then Some True else IntervalSet_IsMaximal rhs);
       if lm \<or> rm then Some False
       else do {
         lh \<leftarrow> IntervalSet_ConvexHull lhs; lhs_convex \<leftarrow> lh;
         rh \<leftarrow> IntervalSet_ConvexHull rhs; rhs_convex \<leftarrow> rh;
         d \<leftarrow> Interval_Disjoint lhs_convex rhs_convex;
         if d then Some True
         else do {
           ls \<leftarrow> Intervals lhs; rs \<leftarrow> Intervals rhs;
           disjoint_loop ls rs } } } }"

definition PositiveIntervals :: "IntervalSet \<Rightarrow> bool \<Rightarrow> IntervalSet option" where
  "PositiveIntervals s with_zero = do {
     CHECK (is_normalized s);
     if set_bit_count s < 1 \<or> (set_bit_count s = 1 \<and> \<not> with_zero) then Some (IntervalSet_of_width (set_bit_count s))
     else do {
       let n = nat (set_bit_count s);
       lo \<leftarrow> UBits (if with_zero then 0 else 1) n;
       hi \<leftarrow> MaxSigned n;
       i \<leftarrow> mkInterval lo hi;
       r \<leftarrow> IntervalSet_Of [i];
       IntervalSet_Intersect s r } }"

definition NegativeAbsoluteIntervals :: "'bn bn_lib \<Rightarrow> IntervalSet \<Rightarrow> IntervalSet option" where
  "NegativeAbsoluteIntervals bn s = do {
     CHECK (is_normalized s);
     if set_bit_count s < 1 then Some IntervalSet_default
     else do {
       let n = nat (set_bit_count s);
       lo \<leftarrow> MinSigned n;
       hi \<leftarrow> SBits (- 1) n;
       i \<leftarrow> mkInterval lo hi;
       r \<leftarrow> IntervalSet_Of [i];
       segment \<leftarrow> IntervalSet_Intersect s r;
       is \<leftarrow> Intervals segment;
       res \<leftarrow> foldM (\<lambda>i res. do {
                 l \<leftarrow> Negate bn (upper_bound i);
                 u \<leftarrow> Negate bn (lower_bound i);
                 j \<leftarrow> mkInterval l u;
                 AddInterval res j }) is (IntervalSet_of_width (set_bit_count s));
       Normalize res } }"

section \<open>Union\<close>

text \<open>The inner loop of \<^verbatim>\<open>CombineAndAdvance\<close>: past the intervals that end inside the current one.\<close>

primrec skip_contained :: "bits \<Rightarrow> Interval list \<Rightarrow> Interval list option" where
  "skip_contained upper [] = Some []"
| "skip_contained upper (h # hs) = do {
     le \<leftarrow> ULessThanOrEqual (upper_bound h) upper;
     if le then skip_contained upper hs else Some (h # hs) }"

lemma skip_contained_length: "skip_contained u hs = Some r \<Longrightarrow> length r \<le> length hs"
  by (induction hs) (auto split: Option.bind_splits if_splits)

function CombineAndAdvance ::
    "Interval list \<Rightarrow> Interval list \<Rightarrow> (bits \<times> Interval list \<times> Interval list) option" where
  "CombineAndAdvance low high = do {
     CHECK (high \<noteq> []);
     CHECK (low \<noteq> []);
     let l = hd low;
     ones \<leftarrow> Bits_IsAllOnes (upper_bound l);
     if ones then Some (upper_bound l, [], [])
     else do {
       outside \<leftarrow> UGreaterThan (lower_bound (hd high)) (upper_bound l);
       if outside then Some (upper_bound l, tl low, high)
       else do {
         high' \<leftarrow> skip_contained (upper_bound l) high;
         outside \<leftarrow> (if high' = [] then Some True else UGreaterThan (lower_bound (hd high')) (upper_bound l));
         if outside then Some (upper_bound l, tl low, high')
         else if tl low \<noteq> [] then do {
           (u, high'', low') \<leftarrow> CombineAndAdvance high' (tl low);
           Some (u, low', high'') }
         else Some (upper_bound (hd high'), [], tl high') } } }"
  by pat_completeness auto
termination
proof (relation "measure (\<lambda>(low, high). length low + length high)", goal_cases)
  case (2 low high)
  then show ?case by (cases low) (auto dest!: skip_contained_length split: if_splits)
qed simp

declare CombineAndAdvance.simps [simp del]

definition combine_push :: "Interval list \<Rightarrow> bits \<Rightarrow> bits \<Rightarrow> Interval list option" where
  "combine_push combined lower upper = do {
     adjacent \<leftarrow> (if combined = [] then Some False
                  else do { u \<leftarrow> Increment (upper_bound (last combined)); Bits_eq u lower });
     if adjacent then do { i \<leftarrow> mkInterval (lower_bound (last combined)) upper; Some (butlast combined @ [i]) }
     else do { i \<leftarrow> mkInterval lower upper; Some (combined @ [i]) } }"

text \<open>One round: the lower of the two first intervals decides which list leads.\<close>

definition combine_next ::
    "Interval list \<Rightarrow> Interval list \<Rightarrow> (bits \<times> bits \<times> Interval list \<times> Interval list) option" where
  "combine_next ls rs = do {
     lt \<leftarrow> ULessThan (lower_bound (hd ls)) (lower_bound (hd rs));
     if lt then do {
       (u, ls', rs') \<leftarrow> CombineAndAdvance ls rs;
       Some (lower_bound (hd ls), u, ls', rs') }
     else do {
       (u, rs', ls') \<leftarrow> CombineAndAdvance rs ls;
       Some (lower_bound (hd rs), u, ls', rs') } }"

partial_function (option) combine_loop ::
    "Interval list \<Rightarrow> Interval list \<Rightarrow> Interval list \<Rightarrow> (Interval list \<times> Interval list \<times> Interval list) option" where
  "combine_loop ls rs combined =
     (if ls \<noteq> [] \<and> rs \<noteq> [] then do {
        (lower, upper, ls, rs) \<leftarrow> combine_next ls rs;
        combined \<leftarrow> combine_push combined lower upper;
        combine_loop ls rs combined }
      else Some (ls, rs, combined))"

definition combine_rest_step :: "Interval \<Rightarrow> Interval list \<times> bool \<Rightarrow> (Interval list \<times> bool) option" where
  "combine_rest_step r = (\<lambda>(combined, first). do {
     adjacent \<leftarrow> (if first \<and> combined \<noteq> []
                  then do { u \<leftarrow> Increment (upper_bound (last combined)); Bits_eq u (lower_bound r) }
                  else Some False);
     if adjacent then do {
       i \<leftarrow> mkInterval (lower_bound (last combined)) (upper_bound r);
       Some (butlast combined @ [i], False) }
     else Some (combined @ [r], False) })"

definition Combine_normalized :: "IntervalSet \<Rightarrow> IntervalSet \<Rightarrow> IntervalSet option" where
  "Combine_normalized lhs rhs = do {
     n \<leftarrow> IntervalSet_BitCount lhs; m \<leftarrow> IntervalSet_BitCount rhs;
     CHECK (n = m);
     ls \<leftarrow> Intervals lhs; rs \<leftarrow> Intervals rhs;
     (ls, rs, combined) \<leftarrow> combine_loop ls rs [];
     (combined, _) \<leftarrow> foldM combine_rest_step (if ls = [] then rs else ls) (combined, True);
     Some \<lparr>is_normalized = True, set_bit_count = int n, intervals = combined\<rparr> }"

definition Combine :: "IntervalSet \<Rightarrow> IntervalSet \<Rightarrow> IntervalSet option" where
  "Combine lhs rhs = do {
     n \<leftarrow> IntervalSet_BitCount lhs; m \<leftarrow> IntervalSet_BitCount rhs;
     CHECK (n = m);
     if \<not> is_normalized lhs \<or> \<not> is_normalized rhs then do {
       l \<leftarrow> Normalize lhs; r \<leftarrow> Normalize rhs;
       Combine_normalized l r }
     else Combine_normalized lhs rhs }"

section \<open>Complement\<close>

definition complement_step :: "Interval \<Rightarrow> IntervalSet \<times> bits \<Rightarrow> (IntervalSet \<times> bits) option" where
  "complement_step i = (\<lambda>(result, last_taken). do {
     last_free \<leftarrow> Decrement (lower_bound i);
     same \<leftarrow> Bits_eq last_free last_taken;
     result \<leftarrow> (if same then Some result
                else do { j \<leftarrow> Interval_LeftOpen last_taken last_free; AddInterval result j });
     Some (result, upper_bound i) })"

definition IntervalSet_Complement :: "IntervalSet \<Rightarrow> IntervalSet option" where
  "IntervalSet_Complement s =
     (if IntervalSet_IsEmpty s then do { n \<leftarrow> IntervalSet_BitCount s; IntervalSet_Maximal n }
      else do {
        n \<leftarrow> IntervalSet_BitCount s;
        is \<leftarrow> Intervals s;
        (result, last_taken) \<leftarrow> foldM complement_step is (IntervalSet_of_width (int n), AllOnes n);
        ones \<leftarrow> Bits_IsAllOnes last_taken;
        result \<leftarrow> (if ones then Some result
                   else do { j \<leftarrow> Interval_LeftOpen last_taken (AllOnes n); AddInterval result j });
        Normalize result })"

end
