(* ===== verification/Interval_Rules.thy ===== *)
theory Interval_Rules
  imports Xls_Interval Bits_Arith
begin

text \<open>
  The contract of \<^verbatim>\<open>Interval\<close>. \<open>ivl n l u\<close> is the valid interval with the bounds \<open>l\<close> and \<open>u\<close>, and
  \<open>points\<close> the set of numbers an interval stands for; an improper interval wraps around. Each method
  is evaluated on \<open>ivl\<close>, so the methods of interval sets can be proved on pairs of numbers.
\<close>

definition ivl :: "nat \<Rightarrow> nat \<Rightarrow> nat \<Rightarrow> Interval" where
  "ivl n l u = \<lparr>is_valid = True, lower_bound = mkBitmap n l, upper_bound = mkBitmap n u\<rparr>"

definition wf_interval :: "Interval \<Rightarrow> bool" where
  "wf_interval i = (is_valid i \<and> wf_bitmap (lower_bound i) \<and> wf_bitmap (upper_bound i) \<and>
     ib_bit_count (lower_bound i) = ib_bit_count (upper_bound i))"

definition wrap_points :: "nat \<Rightarrow> nat \<Rightarrow> nat \<Rightarrow> nat set" where
  "wrap_points n l u = (if l \<le> u then {l..u} else {..u} \<union> {l..<2 ^ n})"

definition points :: "Interval \<Rightarrow> nat set" where
  "points i = wrap_points (ib_bit_count (lower_bound i)) (bm_val (lower_bound i)) (bm_val (upper_bound i))"

definition interval_width :: "Interval \<Rightarrow> nat" where
  "interval_width i = ib_bit_count (lower_bound i)"

definition proper :: "Interval \<Rightarrow> bool" where
  "proper i = (bm_val (lower_bound i) \<le> bm_val (upper_bound i))"

named_theorems ivl_rules \<open>methods of intervals on the form ivl\<close>

lemma wf_intervalE:
  assumes "wf_interval i"
  obtains l u where "i = ivl (interval_width i) l u" "l < 2 ^ interval_width i" "u < 2 ^ interval_width i"
proof -
  let ?n = "ib_bit_count (lower_bound i)"
  have "lower_bound i = mkBitmap ?n (bm_val (lower_bound i))" "upper_bound i = mkBitmap ?n (bm_val (upper_bound i))"
    using assms by (auto simp: wf_interval_def wf_bitmap_val) (metis wf_bitmap_val)
  then have "i = ivl ?n (bm_val (lower_bound i)) (bm_val (upper_bound i))"
    using assms by (cases i) (simp add: ivl_def wf_interval_def)
  moreover have "bm_val (upper_bound i) < 2 ^ ?n" using bm_val_less[of "upper_bound i"] assms by (simp add: wf_interval_def)
  ultimately show ?thesis using that bm_val_less[of "lower_bound i"] by (auto simp: interval_width_def)
qed

lemma ivl_simps [simp]:
  "is_valid (ivl n l u)" "lower_bound (ivl n l u) = mkBitmap n l" "upper_bound (ivl n l u) = mkBitmap n u"
  "interval_width (ivl n l u) = n"
  by (simp_all add: ivl_def interval_width_def)

lemma wf_ivl [simp]: "wf_interval (ivl n l u)"
  by (simp add: wf_interval_def)

lemma points_ivl: "l < 2 ^ n \<Longrightarrow> u < 2 ^ n \<Longrightarrow> points (ivl n l u) = wrap_points n l u"
  by (simp add: points_def take_bit_nat_eq_self)

lemma proper_ivl: "l < 2 ^ n \<Longrightarrow> u < 2 ^ n \<Longrightarrow> proper (ivl n l u) \<longleftrightarrow> l \<le> u"
  by (simp add: proper_def take_bit_nat_eq_self)

lemma ivl_eq_iff: "ivl n l u = ivl m l' u' \<longleftrightarrow>
    n = m \<and> take_bit n l = take_bit n l' \<and> take_bit n u = take_bit n u'"
  by (auto simp: ivl_def mkBitmap_eq_iff)

section \<open>Evaluation\<close>

lemma mkInterval_mk [ivl_rules]: "mkInterval (mkBitmap n l) (mkBitmap n u) = Some (ivl n l u)"
  by (simp add: mkInterval_def ivl_def)

lemma BitCount_ivl [ivl_rules]: "Interval_BitCount (ivl n l u) = Some n"
  by (simp add: Interval_BitCount_def)

lemma IsImproper_ivl [ivl_rules]: "l < 2 ^ n \<Longrightarrow> u < 2 ^ n \<Longrightarrow> IsImproper (ivl n l u) = Some (u < l)"
  by (auto simp: IsImproper_def ivl_rules UCmp_ops_mk take_bit_nat_eq_self)

lemma Maximal_ivl [ivl_rules]: "Interval_Maximal n = Some (ivl n 0 (2 ^ n - 1))"
  by (simp add: Interval_Maximal_def UBits_mk AllOnes_mk mkInterval_mk mask_eq_exp_minus_1)

lemma IsPrecise_ivl [ivl_rules]: "l < 2 ^ n \<Longrightarrow> u < 2 ^ n \<Longrightarrow> Interval_IsPrecise (ivl n l u) = Some (l = u)"
  by (auto simp: Interval_IsPrecise_def ivl_rules Bits_eq_mk take_bit_nat_eq_self)

lemma mask_nat: "mask n = (2 ^ n - 1 :: nat)"
  by (simp add: mask_eq_exp_minus_1)

lemma IsMaximal_ivl [ivl_rules]:
  assumes "l < 2 ^ n" "u < 2 ^ n"
  shows "Interval_IsMaximal (ivl n l u) = Some (wrap_points n l u = {..<2 ^ n})"
proof (cases "n = 0")
  case True
  then show ?thesis using assms by (auto simp: Interval_IsMaximal_def ivl_rules wrap_points_def)
next
  case False
  have all: "{l..u} = {..<2 ^ n} \<longleftrightarrow> l = 0 \<and> u = 2 ^ n - 1"
  proof
    assume e: "{l..u} = {..<2 ^ n}"
    then have "0 \<in> {l..u}" "2 ^ n - 1 \<in> {l..u}" by auto
    then show "l = 0 \<and> u = 2 ^ n - 1" using assms by auto
  qed (auto simp: Suc_le_eq less_Suc_eq_le[symmetric])
  have wrap: "{..u} \<union> {l..<2 ^ n} = {..<2 ^ n} \<longleftrightarrow> u + 1 = l" if "u < l"
  proof
    assume e: "{..u} \<union> {l..<2 ^ n} = {..<2 ^ n}"
    have "u + 1 \<in> {..<2 ^ n}" using that assms by auto
    then have "u + 1 \<in> {..u} \<union> {l..<2 ^ n}" using e by blast
    then show "u + 1 = l" using that by auto
  qed (use that assms in auto)
  have "u + 1 < 2 ^ n" if "u < l" using that assms by linarith
  then show ?thesis using False assms all wrap
    by (auto simp: Interval_IsMaximal_def ivl_rules wrap_points_def Increment_mk UCmp_ops_mk IsZero_mk
        Bits_IsAllOnes_mk take_bit_nat_eq_self mask_nat)
qed

lemma Covers_ivl [ivl_rules]:
  assumes "l < 2 ^ n" "u < 2 ^ n" "p < 2 ^ n"
  shows "Interval_Covers (ivl n l u) (mkBitmap n p) = Some (p \<in> wrap_points n l u)"
  using assms by (cases "n = 0") (auto simp: Interval_Covers_def ivl_rules wrap_points_def UCmp_ops_mk take_bit_nat_eq_self)

lemma Covers_special_ivl:
  assumes "l < 2 ^ n" "u < 2 ^ n"
  shows "Interval_CoversZero (ivl n l u) = Some (0 \<in> wrap_points n l u)"
    "Interval_CoversOne (ivl n l u) = Some (0 < n \<and> 1 \<in> wrap_points n l u)"
    "Interval_CoversMax (ivl n l u) = Some (2 ^ n - 1 \<in> wrap_points n l u)"
proof -
  have "0 < n \<Longrightarrow> UBits 1 n = Some (mkBitmap n 1)" "0 < n \<Longrightarrow> 1 < (2::nat) ^ n"
    using UBits_mk[of 1 n] one_less_power[of "2::nat" n] by auto
  then show "Interval_CoversZero (ivl n l u) = Some (0 \<in> wrap_points n l u)"
    "Interval_CoversOne (ivl n l u) = Some (0 < n \<and> 1 \<in> wrap_points n l u)"
    "Interval_CoversMax (ivl n l u) = Some (2 ^ n - 1 \<in> wrap_points n l u)"
    using assms by (auto simp: Interval_CoversZero_def Interval_CoversOne_def Interval_CoversMax_def ivl_rules
        UBits_mk AllOnes_mk mask_nat)
qed

lemma check_proper_pair_ivl [ivl_rules]:
  "\<lbrakk>l < 2 ^ n; u < 2 ^ n; l' < 2 ^ n; u' < 2 ^ n; l \<le> u; l' \<le> u'\<rbrakk> \<Longrightarrow>
   check_proper_pair (ivl n l u) (ivl n l' u') = Some ()"
  by (simp add: check_proper_pair_def ivl_rules CHECK_def)

lemma check_proper_pair_improper:
  "\<lbrakk>l < 2 ^ n; u < 2 ^ n; l' < 2 ^ n; u' < 2 ^ n; u < l \<or> u' < l'\<rbrakk> \<Longrightarrow>
   check_proper_pair (ivl n l u) (ivl n l' u') = None"
  by (auto simp: check_proper_pair_def ivl_rules CHECK_def)

lemma bits_of_int_pred: "0 < u \<Longrightarrow> bits_of_int n (int u - 1) = mkBitmap n (u - 1)"
  using bits_of_int_nat[of n "u - 1"] by (simp add: of_nat_diff del: bits_of_int_nat)

lemma Open_ivl [ivl_rules]:
  "Interval_LeftOpen (mkBitmap n l) (mkBitmap n u) = Some (ivl n (l + 1) u)"
  "0 < u \<Longrightarrow> Interval_RightOpen (mkBitmap n l) (mkBitmap n u) = Some (ivl n l (u - 1))"
  "0 < u \<Longrightarrow> Interval_Open (mkBitmap n l) (mkBitmap n u) = Some (ivl n (l + 1) (u - 1))"
  by (simp_all add: Interval_LeftOpen_def Interval_RightOpen_def Interval_Open_def Increment_mk Decrement_mk
      mkInterval_mk bits_of_int_pred)

lemma ZeroExtend_ivl [ivl_rules]:
  "\<lbrakk>l < 2 ^ n; u < 2 ^ n; n \<le> m\<rbrakk> \<Longrightarrow> Interval_ZeroExtend (ivl n l u) m = Some (ivl m l u)"
  by (simp add: Interval_ZeroExtend_def ivl_rules ZeroExtend_mk take_bit_nat_eq_self)

lemma cmp_ivl [ivl_rules]:
  assumes "l < 2 ^ n" "u < 2 ^ n" "l' < 2 ^ n" "u' < 2 ^ n"
  shows "Interval_less (ivl n l u) (ivl n l' u') = Some (l < l' \<or> l = l' \<and> u < u')"
    "Interval_eq (ivl n l u) (ivl n l' u') = Some (l = l' \<and> u = u')"
  using assms by (auto simp: Interval_less_def Interval_eq_def Interval_cmp_def UCmp_ops_mk take_bit_nat_eq_self sgn_if)

section \<open>Binary operations on proper intervals\<close>

lemma binary_ivl [ivl_rules]:
  assumes b: "l \<le> u" "u < 2 ^ n" "l' \<le> u'" "u' < 2 ^ n"
  shows "Interval_Overlaps (ivl n l u) (ivl n l' u') = Some (l' \<le> u \<and> l \<le> u')"
    "Interval_Disjoint (ivl n l u) (ivl n l' u') = Some (\<not> (l' \<le> u \<and> l \<le> u'))"
    "Interval_Abuts (ivl n l u) (ivl n l' u') = Some (u + 1 = l' \<or> u' + 1 = l)"
    "Interval_ConvexHull (ivl n l u) (ivl n l' u') = Some (ivl n (min l l') (max u u'))"
    "Interval_Intersect (ivl n l u) (ivl n l' u') =
       Some (if max l l' \<le> min u u' then Some (ivl n (max l l') (min u u')) else None)"
    "Interval_Difference (ivl n l u) (ivl n l' u') =
       Some (if max l l' \<le> min u u' then
               (if l < l' then [ivl n l (l' - 1)] else []) @ (if u' < u then [ivl n (u' + 1) u] else [])
             else [ivl n l u])"
    "Interval_IsSubsetOf (ivl n l u) (ivl n l' u') = Some (l' \<le> l \<and> u \<le> u')"
proof -
  have lt: "l < 2 ^ n" "l' < 2 ^ n" using b by simp_all
  have n0: "n = 0 \<Longrightarrow> l = 0 \<and> u = 0 \<and> l' = 0 \<and> u' = 0" using b lt by simp
  note ev = ivl_rules UCmp_ops_mk UMin_UMax_mk Increment_mk take_bit_nat_eq_self Bits_IsAllOnes_mk mask_nat
  show ov: "Interval_Overlaps (ivl n l u) (ivl n l' u') = Some (l' \<le> u \<and> l \<le> u')"
    using b lt n0 by (auto simp: Interval_Overlaps_def ev)
  then show "Interval_Disjoint (ivl n l u) (ivl n l' u') = Some (\<not> (l' \<le> u \<and> l \<le> u'))"
    by (simp add: Interval_Disjoint_def)
  have "u + 1 < 2 ^ n" if "u \<noteq> 2 ^ n - 1" using that b(2) by linarith
  moreover have "u' + 1 < 2 ^ n" if "u' \<noteq> 2 ^ n - 1" using that b(4) by linarith
  ultimately show "Interval_Abuts (ivl n l u) (ivl n l' u') = Some (u + 1 = l' \<or> u' + 1 = l)"
    using b lt n0 by (auto simp: Interval_Abuts_def ev sgn_if)
  show "Interval_ConvexHull (ivl n l u) (ivl n l' u') = Some (ivl n (min l l') (max u u'))"
    using b lt n0 by (auto simp: Interval_ConvexHull_def ev Bits_mk)
  have mm: "max l l' < 2 ^ n" "min u u' < 2 ^ n" using b lt by auto
  then show int: "Interval_Intersect (ivl n l u) (ivl n l' u') =
      Some (if max l l' \<le> min u u' then Some (ivl n (max l l') (min u u')) else None)"
    using b lt by (auto simp: Interval_Intersect_def ev not_le min_less_iff_disj less_max_iff_disj)
  show "Interval_Difference (ivl n l u) (ivl n l' u') =
       Some (if max l l' \<le> min u u' then
               (if l < l' then [ivl n l (l' - 1)] else []) @ (if u' < u then [ivl n (u' + 1) u] else [])
             else [ivl n l u])"
    using b lt mm by (auto simp: Interval_Difference_def int ev max_def min_def)
  show "Interval_IsSubsetOf (ivl n l u) (ivl n l' u') = Some (l' \<le> l \<and> u \<le> u')"
    using b lt by (auto simp: Interval_IsSubsetOf_def ev)
qed

lemma Complement_ivl [ivl_rules]:
  "\<lbrakk>l \<le> u; u < 2 ^ n\<rbrakk> \<Longrightarrow> Interval_Complement (ivl n l u) =
     Some ((if 0 < l then [ivl n 0 (l - 1)] else []) @ (if u < 2 ^ n - 1 then [ivl n (u + 1) (2 ^ n - 1)] else []))"
  by (auto simp: Interval_Complement_def ivl_rules)

section \<open>Size and values\<close>

lemma card_wrap_points:
  assumes "l < 2 ^ n" "u < 2 ^ n"
  shows "card (wrap_points n l u) = (if l \<le> u then u - l + 1 else (u + 1) + (2 ^ n - l))"
proof (cases "l \<le> u")
  case False
  then have "{..u} \<inter> {l..<2 ^ n} = {}" by auto
  then show ?thesis using False by (simp add: wrap_points_def card_Un_disjoint)
qed (simp add: wrap_points_def)

context bignum
begin

lemma SizeBits_proper:
  assumes "l \<le> u" "u < 2 ^ n"
  shows "Interval_SizeBits bn (ivl n l u) = Some (mkBitmap (n + 1) (u - l + 1))"
proof -
  have "bits_of_int n (int u - int l) = mkBitmap n (u - l)"
    using assms(1) bits_of_int_nat[of n "u - l"] by (simp add: of_nat_diff del: bits_of_int_nat)
  moreover have "l < 2 ^ n" "u - l < 2 ^ n" using assms by linarith+
  ultimately show ?thesis using assms
    by (subst Interval_SizeBits.simps)
      (simp add: ivl_rules UCmp_ops_mk Sub_mk ZeroExtend_mk Increment_mk take_bit_nat_eq_self)
qed

lemma SizeBits_ivl:
  assumes "l < 2 ^ n" "u < 2 ^ n"
  shows "Interval_SizeBits bn (ivl n l u) = Some (mkBitmap (n + 1) (card (wrap_points n l u)))"
proof (cases "l \<le> u")
  case True
  then show ?thesis using SizeBits_proper[OF True assms(2)] card_wrap_points[OF assms] by simp
next
  case False
  have m: "(2::nat) ^ n - 1 - l + 1 = 2 ^ n - l" using assms by linarith
  have "Interval_SizeBits bn (ivl n l (2 ^ n - 1)) = Some (mkBitmap (n + 1) (2 ^ n - l))"
    "Interval_SizeBits bn (ivl n 0 u) = Some (mkBitmap (n + 1) (u + 1))"
    using SizeBits_proper[of l "2 ^ n - 1" n] SizeBits_proper[of 0 u n] assms m by auto
  then show ?thesis using False assms card_wrap_points[OF assms]
    by (subst Interval_SizeBits.simps)
      (simp add: ivl_rules UCmp_ops_mk UBits_mk AllOnes_mk mask_nat take_bit_nat_eq_self Add_mk add.commute)
qed

lemma Size_ivl:
  assumes "l < 2 ^ n" "u < 2 ^ n"
  shows "Interval_Size bn (ivl n l u) =
    Some (if card (wrap_points n l u) < 2 ^ 63 then Some (word_of_nat (card (wrap_points n l u))) else None)"
proof -
  have "card (wrap_points n l u) \<le> card {..<(2::nat) ^ n}"
    using assms by (intro card_mono) (auto simp: wrap_points_def)
  then have "card (wrap_points n l u) < 2 ^ (n + 1)" by (simp add: le_less_trans)
  then show ?thesis by (simp add: Interval_Size_def SizeBits_ivl[OF assms] TryUnsignedBitsToInt64_mk take_bit_nat_eq_self)
qed

end

lemma take_bit_shift_eq_iff: "k < 2 ^ n \<Longrightarrow> take_bit n c = take_bit n (c + k) \<longleftrightarrow> k = 0" for c k :: nat
proof
  assume k: "k < 2 ^ n" and "take_bit n c = take_bit n (c + k)"
  then have "2 ^ n dvd (c + k) - c" by (metis le_add1 mod_eq_dvd_iff_nat take_bit_eq_mod)
  then show "k = 0" using k by (metis add_diff_cancel_left' dvd_imp_le gr0I not_le)
qed simp

lemma values_loop_run:
  "k < 2 ^ n \<Longrightarrow>
   values_loop \<lparr>cur_value = mkBitmap n c, is_first_and_maximal = False\<rparr>
     \<lparr>cur_value = mkBitmap n (c + k), is_first_and_maximal = False\<rparr> = Some (map (\<lambda>i. mkBitmap n (c + i)) [0..<k])"
proof (induction k arbitrary: c)
  case 0
  then show ?case by (subst values_loop.simps) (simp add: ValuesIterator_eq_def Bits_eq_mk)
next
  case (Suc k)
  have ne: "take_bit n c \<noteq> take_bit n (c + Suc k)" using take_bit_shift_eq_iff[OF Suc.prems, of c] by simp
  have "map (\<lambda>i. mkBitmap n (c + i)) [0..<Suc k] = mkBitmap n c # map (\<lambda>i. mkBitmap n (Suc c + i)) [0..<k]"
    by (simp add: upt_conv_Cons map_Suc_upt[symmetric] del: upt_Suc)
  then show ?case using Suc.IH[of "Suc c"] Suc.prems ne
    by (subst values_loop.simps) (simp add: ValuesIterator_eq_def ValuesIterator_next_def Bits_eq_mk Increment_mk)
qed

lemma maximal_card_iff:
  assumes "l < 2 ^ n" "u < 2 ^ n"
  shows "wrap_points n l u = {..<2 ^ n} \<longleftrightarrow> card (wrap_points n l u) = 2 ^ n" "card (wrap_points n l u) \<le> 2 ^ n"
    "0 < card (wrap_points n l u)"
proof -
  have sub: "wrap_points n l u \<subseteq> {..<2 ^ n}" using assms by (auto simp: wrap_points_def)
  then show "card (wrap_points n l u) \<le> 2 ^ n" using card_mono[OF _ sub] by simp
  show "wrap_points n l u = {..<2 ^ n} \<longleftrightarrow> card (wrap_points n l u) = 2 ^ n"
    using card_subset_eq[OF finite_lessThan sub] by (metis card_lessThan)
  show "0 < card (wrap_points n l u)" using card_wrap_points[OF assms] assms by auto
qed

lemma values_run:
  assumes "l < 2 ^ n" "u < 2 ^ n"
  shows "\<exists>b e. Interval_begin (ivl n l u) = Some b \<and> Interval_end (ivl n l u) = Some e \<and>
    values_loop b e = Some (map (\<lambda>i. mkBitmap n (l + i)) [0..<card (wrap_points n l u)])"
proof -
  let ?k = "card (wrap_points n l u)"
  let ?e = "\<lparr>cur_value = mkBitmap n (u + 1), is_first_and_maximal = False\<rparr>"
  have "l + ?k = (if l \<le> u then u + 1 else (u + 1) + 2 ^ n)" using assms card_wrap_points[OF assms] by simp
  then have "take_bit n (l + ?k) = take_bit n (u + 1)"
    by (simp only: take_bit_eq_mod mod_add_self2 split: if_split) simp
  then have e: "?e = \<lparr>cur_value = mkBitmap n (l + ?k), is_first_and_maximal = False\<rparr>"
    by (simp add: mkBitmap_eq_iff)
  have "values_loop \<lparr>cur_value = mkBitmap n l, is_first_and_maximal = (?k = 2 ^ n)\<rparr> ?e =
      Some (map (\<lambda>i. mkBitmap n (l + i)) [0..<?k])"
  proof (cases "?k = 2 ^ n")
    case False
    then show ?thesis using values_loop_run[of ?k n l] maximal_card_iff[OF assms] unfolding e by simp
  next
    case True
    then obtain k where k: "?k = Suc k" by (metis maximal_card_iff(3)[OF assms] gr0_implies_Suc)
    have "map (\<lambda>i. mkBitmap n (l + i)) [0..<Suc k] = mkBitmap n l # map (\<lambda>i. mkBitmap n (Suc l + i)) [0..<k]"
      by (simp add: upt_conv_Cons map_Suc_upt[symmetric] del: upt_Suc)
    moreover have "values_loop \<lparr>cur_value = mkBitmap n l, is_first_and_maximal = True\<rparr> ?e =
        Some (mkBitmap n l # map (\<lambda>i. mkBitmap n (Suc l + i)) [0..<k])"
      unfolding e using values_loop_run[of k n "Suc l"] k True
      by (subst values_loop.simps) (simp add: ValuesIterator_eq_def ValuesIterator_next_def Bits_eq_mk Increment_mk)
    ultimately show ?thesis using True k by (simp only: simp_thms)
  qed
  then show ?thesis using assms maximal_card_iff(1)[OF assms]
    by (simp add: Interval_begin_def Interval_end_def ivl_rules Increment_mk)
qed

section \<open>Masks\<close>

lemma differing_pair: "l < 2 ^ n \<Longrightarrow> u < 2 ^ n \<Longrightarrow> differing n [l, u] = l XOR u"
  by (simp add: differing_def take_bit_xor take_bit_nat_eq_self)

lemma same_half: "a div 2 = b div 2 \<Longrightarrow> odd a \<noteq> odd b \<Longrightarrow> a \<le> b \<Longrightarrow> b = a + 1 \<and> odd b" for a b :: nat
  by presburger

text \<open>A bit below the common prefix is set somewhere in the interval, one inside it is constant.\<close>

lemma interval_bit_iff:
  fixes l u :: nat
  assumes lu: "l \<le> u"
  shows "(\<exists>x\<in>{l..u}. bit x j) \<longleftrightarrow> j < nat_len (l XOR u) \<or> bit l j"
proof -
  let ?k = "nat_len (l XOR u)"
  have "\<not> bit (l XOR u) i" if "?k \<le> i" for i
    using that by (metis nat_lt_exp_iff_bits nat_lt_exp_len)
  then have same: "drop_bit ?k l = drop_bit ?k u" by (intro bit_eqI) (auto simp: bit_drop_bit_eq bit_xor_iff)
  have const: "bit x j = bit l j" if "x \<in> {l..u}" "?k \<le> j" for x
  proof -
    have "drop_bit ?k l \<le> drop_bit ?k x" "drop_bit ?k x \<le> drop_bit ?k u"
      using that(1) by (auto simp: drop_bit_eq_div div_le_mono)
    then have "bit (drop_bit ?k x) (j - ?k) = bit (drop_bit ?k l) (j - ?k)" using same by simp
    then show ?thesis using that(2) by (simp add: bit_drop_bit_eq)
  qed
  have "\<exists>x\<in>{l..u}. bit x j" if j: "j < ?k"
  proof -
    obtain d where d: "?k = Suc d" using j by (cases ?k) auto
    let ?L = "l div 2 ^ d" and ?U = "u div 2 ^ d"
    have "?L div 2 = ?U div 2" using same d by (simp only: drop_bit_eq_div power_Suc2 div_mult2_eq)
    moreover have "bit (l XOR u) d" using bit_nat_len[of "l XOR u"] d by (metis diff_Suc_1 nat_len_0 Zero_not_Suc)
    then have "odd ?L \<noteq> odd ?U" unfolding bit_xor_iff unfolding bit_iff_odd .
    moreover have "?L \<le> ?U" using lu by (rule div_le_mono)
    ultimately have LU: "?U = ?L + 1" "odd ?U" using same_half[of ?L ?U] by blast+
    show ?thesis
    proof (cases "j = d")
      case True
      then show ?thesis using lu LU(2) by (intro bexI[of _ u]) (auto simp: bit_iff_odd)
    next
      case False
      let ?x = "?L * 2 ^ d + (2 ^ d - 1)"
      have "l = ?L * 2 ^ d + l mod 2 ^ d" "l mod 2 ^ d < 2 ^ d" by (simp_all only: div_mult_mod_eq mod_less_divisor zero_less_power zero_less_numeral)
      then have "l \<le> ?x" by linarith
      moreover have "?U * 2 ^ d \<le> u" by simp
      then have "?x \<le> u" unfolding LU(1) by (simp add: algebra_simps)
      moreover have "take_bit d ?x = mask d" unfolding take_bit_eq_mod mask_nat mod_mult_self3 by simp
      then have "bit ?x j" using False j d by (metis bit_mask_iff bit_take_bit_iff less_SucE possible_bit_nat)
      ultimately show ?thesis by (intro bexI[of _ ?x]) auto
    qed
  qed
  then show ?thesis using const lu by (metis atLeastAtMost_iff le_refl not_le)
qed

lemma IsTrueWhenAndWith_ivl:
  assumes "l \<le> u" "u < 2 ^ n" "v < 2 ^ n"
  shows "Interval_IsTrueWhenAndWith (ivl n l u) (mkBitmap n v) = Some (\<exists>x\<in>{l..u}. x AND v \<noteq> 0)"
proof -
  let ?k = "nat_len (l XOR u)"
  let ?M = "mask ?k OR push_bit ?k (drop_bit ?k l)"
  have lt: "l < 2 ^ n" using assms by simp
  have "l XOR u < 2 ^ n" using lt assms(2) by (auto simp: nat_lt_exp_iff_bits bit_xor_iff)
  then have k: "?k \<le> n" by (simp add: nat_len_le_iff)
  have M: "Interval_IsTrueWhenAndWith (ivl n l u) (mkBitmap n v) = Some (take_bit n (?M AND v) \<noteq> 0)"
    using LongestCommonPrefixMSB_mk[of "[l, u]" n] differing_pair[OF lt assms(2)] k
    by (simp add: Interval_IsTrueWhenAndWith_def ivl_rules bm_spec)
  have nz: "w \<noteq> 0 \<longleftrightarrow> (\<exists>j. bit w j)" for w :: nat by (auto simp: bit_eq_iff)
  have vj: "bit v j \<Longrightarrow> j < n" for j using assms(3) by (meson nat_lt_exp_iff_bits not_le)
  have "bit (take_bit n (?M AND v)) j \<longleftrightarrow> (j < ?k \<or> bit l j) \<and> bit v j" for j
    by (auto simp: bit_take_bit_iff bit_and_iff bit_or_iff bit_mask_iff bit_push_bit_iff bit_drop_bit_eq
        simp del: take_bit_and dest: vj)
  then have "take_bit n (?M AND v) \<noteq> 0 \<longleftrightarrow> (\<exists>j. (j < ?k \<or> bit l j) \<and> bit v j)"
    unfolding nz by blast
  also have "\<dots> \<longleftrightarrow> (\<exists>x\<in>{l..u}. x AND v \<noteq> 0)"
    unfolding nz bit_and_iff interval_bit_iff[OF assms(1), symmetric] by blast
  finally show ?thesis using M by simp
qed

end
