(* ===== verification/Interval_Set_Rules.thy ===== *)
theory Interval_Set_Rules
  imports Interval_Set Interval_Rules "HOL-Library.Product_Lexorder"
begin

text \<open>
  The well-formedness invariant of interval sets and \<^verbatim>\<open>Normalize\<close>. A list of intervals is
  \<open>ivs n ps\<close> for a list of pairs of numbers; \<open>norm n ps\<close> is the normal form the header file
  describes: proper, sorted, neither overlapping nor abutting.
\<close>

abbreviation ivs :: "nat \<Rightarrow> (nat \<times> nat) list \<Rightarrow> Interval list" where
  "ivs n ps \<equiv> map (\<lambda>(l, u). ivl n l u) ps"

definition in_range :: "nat \<Rightarrow> (nat \<times> nat) list \<Rightarrow> bool" where
  "in_range n ps = (\<forall>(l, u)\<in>set ps. l < 2 ^ n \<and> u < 2 ^ n)"

definition norm :: "nat \<Rightarrow> (nat \<times> nat) list \<Rightarrow> bool" where
  "norm n ps = ((\<forall>(l, u)\<in>set ps. l \<le> u \<and> u < 2 ^ n) \<and> sorted_wrt (\<lambda>(l, u) (l', u'). u + 1 < l') ps)"

definition pts :: "nat \<Rightarrow> (nat \<times> nat) list \<Rightarrow> nat set" where
  "pts n ps = (\<Union>(l, u)\<in>set ps. wrap_points n l u)"

definition set_points :: "IntervalSet \<Rightarrow> nat set" where
  "set_points s = (\<Union>i\<in>set (intervals s). points i)"

definition wf_set :: "nat \<Rightarrow> IntervalSet \<Rightarrow> bool" where
  "wf_set n s = (set_bit_count s = int n \<and> (\<forall>i\<in>set (intervals s). wf_interval i \<and> interval_width i = n) \<and>
     (is_normalized s \<longrightarrow> (\<forall>i\<in>set (intervals s). proper i) \<and>
        sorted_wrt (\<lambda>i j. bm_val (upper_bound i) + 1 < bm_val (lower_bound j)) (intervals s)))"

lemma in_range_simps [simp]:
  "in_range n []" "in_range n ((l, u) # ps) \<longleftrightarrow> l < 2 ^ n \<and> u < 2 ^ n \<and> in_range n ps"
  "in_range n (ps @ qs) \<longleftrightarrow> in_range n ps \<and> in_range n qs"
  by (auto simp: in_range_def)

lemma in_rangeD: "in_range n ps \<Longrightarrow> k < length ps \<Longrightarrow> fst (ps ! k) < 2 ^ n \<and> snd (ps ! k) < 2 ^ n"
  by (cases "ps ! k") (auto simp: in_range_def dest!: nth_mem)

lemma pts_simps [simp]:
  "pts n [] = {}" "pts n ((l, u) # ps) = wrap_points n l u \<union> pts n ps" "pts n (ps @ qs) = pts n ps \<union> pts n qs"
  by (auto simp: pts_def)

lemma norm_in_range: "norm n ps \<Longrightarrow> in_range n ps"
  by (fastforce simp: norm_def in_range_def)

lemma norm_Cons: "norm n ((l, u) # ps) \<longleftrightarrow> l \<le> u \<and> u < 2 ^ n \<and> (\<forall>(l', u')\<in>set ps. u + 1 < l') \<and> norm n ps"
  by (auto simp: norm_def)

lemma norm_Nil [simp]: "norm n []"
  by (simp add: norm_def)

lemma points_ivs: "in_range n ps \<Longrightarrow> (\<Union>i\<in>set (ivs n ps). points i) = pts n ps"
proof (induction ps)
  case (Cons p ps)
  then show ?case by (cases p) (simp add: points_ivl)
qed simp

lemma wf_intervals_pairs:
  "\<forall>i\<in>set is. wf_interval i \<and> interval_width i = n \<Longrightarrow> \<exists>ps. is = ivs n ps \<and> in_range n ps"
proof (induction "is")
  case (Cons i "is")
  obtain ps where ps: "is = ivs n ps" "in_range n ps" using Cons by auto
  obtain l u where "i = ivl n l u" "l < 2 ^ n" "u < 2 ^ n" using Cons.prems wf_intervalE[of i] by auto
  then have "i # is = ivs n ((l, u) # ps) \<and> in_range n ((l, u) # ps)" using ps by simp
  then show ?case by (rule exI)
qed simp

lemma norm_intervals:
  "in_range n ps \<Longrightarrow> norm n ps \<longleftrightarrow> (\<forall>i\<in>set (ivs n ps). proper i) \<and>
     sorted_wrt (\<lambda>i j. bm_val (upper_bound i) + 1 < bm_val (lower_bound j)) (ivs n ps)"
proof (induction ps)
  case (Cons p ps)
  obtain l u where p: "p = (l, u)" by (cases p)
  have "bm_val (lower_bound (ivl n l' u')) = l'" if "(l', u') \<in> set ps" for l' u'
    using Cons.prems that by (auto simp: in_range_def take_bit_nat_eq_self)
  then show ?case using Cons by (fastforce simp: p norm_Cons proper_ivl take_bit_nat_eq_self split: prod.splits)
qed simp

lemma wf_setE:
  assumes "wf_set n s"
  obtains ps where "s = \<lparr>is_normalized = is_normalized s, set_bit_count = int n, intervals = ivs n ps\<rparr>"
    "in_range n ps" "is_normalized s \<Longrightarrow> norm n ps"
proof -
  obtain ps where ps: "intervals s = ivs n ps" "in_range n ps"
    using assms wf_intervals_pairs unfolding wf_set_def by blast
  then have "is_normalized s \<Longrightarrow> norm n ps" using assms norm_intervals[OF ps(2)] by (simp add: wf_set_def)
  moreover have "s = \<lparr>is_normalized = is_normalized s, set_bit_count = int n, intervals = ivs n ps\<rparr>"
    using assms ps(1) by (cases s) (simp add: wf_set_def)
  ultimately show ?thesis using that ps(2) by blast
qed

lemma wf_setI:
  "in_range n ps \<Longrightarrow> (b \<Longrightarrow> norm n ps) \<Longrightarrow> wf_set n \<lparr>is_normalized = b, set_bit_count = int n, intervals = ivs n ps\<rparr>"
  using norm_intervals by (auto simp: wf_set_def)

lemma wf_set_normI [intro]: "norm n ps \<Longrightarrow> wf_set n \<lparr>is_normalized = True, set_bit_count = int n, intervals = ivs n ps\<rparr>"
  using wf_setI norm_in_range by blast

lemma set_points_ivs: "in_range n ps \<Longrightarrow> set_points \<lparr>is_normalized = b, set_bit_count = m, intervals = ivs n ps\<rparr> = pts n ps"
  unfolding set_points_def using points_ivs by simp

section \<open>Expanding improper intervals\<close>

definition lower_part :: "nat \<times> nat \<Rightarrow> nat \<times> nat" where
  "lower_part = (\<lambda>(l, u). if u < l then (0, u) else (l, u))"

definition upper_parts :: "nat \<Rightarrow> (nat \<times> nat) list \<Rightarrow> (nat \<times> nat) list" where
  "upper_parts n ps = map (\<lambda>(l, u). (l, 2 ^ n - 1)) (filter (\<lambda>(l, u). u < l) ps)"

definition expanded :: "nat \<Rightarrow> (nat \<times> nat) list \<Rightarrow> (nat \<times> nat) list" where
  "expanded n ps = map lower_part ps @ upper_parts n ps"

lemma expanded_pts: "in_range n ps \<Longrightarrow> pts n (expanded n ps) = pts n ps"
proof (induction ps)
  case (Cons p ps)
  obtain l u where p: "p = (l, u)" by (cases p)
  have "wrap_points n l (2 ^ n - 1) \<union> wrap_points n 0 u = wrap_points n l u" if "u < l" "l < 2 ^ n"
    using that by (auto simp: wrap_points_def)
  then show ?case using Cons by (auto simp: expanded_def upper_parts_def lower_part_def p)
qed (simp add: expanded_def upper_parts_def)

definition all_proper :: "nat \<Rightarrow> (nat \<times> nat) list \<Rightarrow> bool" where
  "all_proper n ps = (\<forall>(l, u)\<in>set ps. l \<le> u \<and> u < 2 ^ n)"

lemma all_proper_simps [simp]:
  "all_proper n []" "all_proper n ((l, u) # ps) \<longleftrightarrow> l \<le> u \<and> u < 2 ^ n \<and> all_proper n ps"
  "all_proper n (ps @ qs) \<longleftrightarrow> all_proper n ps \<and> all_proper n qs"
  by (auto simp: all_proper_def)

lemma all_proper_in_range: "all_proper n ps \<Longrightarrow> in_range n ps"
  by (induction ps) auto

lemma norm_all_proper: "norm n ps \<Longrightarrow> all_proper n ps"
  by (simp add: norm_def all_proper_def)

lemma expanded_proper: "in_range n ps \<Longrightarrow> all_proper n (expanded n ps)"
  by (induction ps) (auto simp: expanded_def upper_parts_def lower_part_def)

lemma expand_step_ivs:
  assumes "in_range n ps" "k < length ps"
  shows "expand_step (Bits n) (AllOnes n) k (ivs n (map lower_part (take k ps) @ drop k ps @ upper_parts n (take k ps))) =
    Some (ivs n (map lower_part (take (Suc k) ps) @ drop (Suc k) ps @ upper_parts n (take (Suc k) ps)))"
proof -
  obtain l u where p: "ps ! k = (l, u)" by (cases "ps ! k")
  have lu: "l < 2 ^ n" "u < 2 ^ n" using in_rangeD[OF assms] p by simp_all
  have t: "take (Suc k) ps = take k ps @ [(l, u)]" using assms(2) p by (simp add: take_Suc_conv_app_nth)
  have d: "drop k ps = (l, u) # drop (Suc k) ps" using assms(2) p by (metis Cons_nth_drop_Suc)
  let ?a = "ivs n (map lower_part (take k ps))" and ?c = "ivs n (drop (Suc k) ps)" and ?e = "ivs n (upper_parts n (take k ps))"
  have len: "length ?a = k" using assms(2) by simp
  have "ivs n (map lower_part (take k ps) @ drop k ps @ upper_parts n (take k ps)) = ?a @ ivl n l u # ?c @ ?e"
    by (simp add: d)
  moreover have "nth_opt (?a @ ivl n l u # ?c @ ?e) k = Some (ivl n l u)"
    using len by (simp add: nth_opt_def nth_append)
  moreover have "set_opt ((?a @ ivl n l u # ?c @ ?e) @ [x]) k y = Some (?a @ y # ?c @ ?e @ [x])" for x y
    using len by (simp add: set_opt_def list_update_append)
  ultimately show ?thesis using lu
    by (simp only: expand_step_def Option.bind_lunit ivl_rules ivl_simps Bits_mk AllOnes_mk mask_nat
        if_True if_False t map_append upper_parts_def filter_append split: if_split)
      (simp add: lower_part_def)
qed

lemma expand_improper_ivs:
  assumes "in_range n ps"
  shows "expand_improper n (ivs n ps) = Some (ivs n (expanded n ps))"
proof -
  have flags: "mapM IsImproper (ivs n ps) = Some (map (\<lambda>(l, u). u < l) ps)"
    using assms by (induction ps) (auto simp: ivl_rules)
  show ?thesis
  proof (cases "\<exists>(l, u)\<in>set ps. u < l")
    case True
    have "k \<le> length ps \<Longrightarrow> foldM (expand_step (Bits n) (AllOnes n)) [0..<k] (ivs n ps) =
        Some (ivs n (map lower_part (take k ps) @ drop k ps @ upper_parts n (take k ps)))" for k
    proof (induction k)
      case 0
      then show ?case by (simp add: upper_parts_def)
    next
      case (Suc k)
      then show ?case using expand_step_ivs[OF assms, of k] by (simp only: upt_Suc_append le0 foldM_append) simp
    qed
    from this[of "length ps"] show ?thesis using True flags
      by (auto simp: expand_improper_def expanded_def case_prod_unfold)
  next
    case False
    then have "map lower_part ps = ps" "upper_parts n ps = []"
      by (auto simp: lower_part_def upper_parts_def filter_empty_conv intro!: map_idI)
    then show ?thesis using False flags by (auto simp: expand_improper_def expanded_def case_prod_unfold)
  qed
qed

section \<open>Sorting\<close>

lemma interval_insert_ivs:
  "l < 2 ^ n \<Longrightarrow> u < 2 ^ n \<Longrightarrow> in_range n ps \<Longrightarrow>
   interval_insert (ivl n l u) (ivs n ps) = Some (ivs n (insort (l, u) ps))"
proof (induction ps)
  case (Cons p ps)
  obtain l' u' where p: "p = (l', u')" by (cases p)
  have "(l, u) \<le> p \<longleftrightarrow> \<not> (l' < l \<or> l' = l \<and> u' < u)" by (auto simp: p less_eq_prod_def)
  then show ?case using Cons by (auto simp: p ivl_rules)
qed simp

lemma in_range_perm: "set ps = set qs \<Longrightarrow> in_range n ps = in_range n qs"
  by (simp add: in_range_def)

lemma interval_sort_ivs: "in_range n ps \<Longrightarrow> interval_sort (ivs n ps) = Some (ivs n (sort ps))"
proof -
  assume "in_range n ps"
  then have "foldM interval_insert (rev (ivs n ps)) [] = Some (ivs n (sort ps))"
  proof (induction ps)
    case (Cons p ps)
    have "in_range n (sort ps)" using Cons.prems in_range_perm[of "sort ps" ps] by (cases p) simp
    then show ?case using Cons interval_insert_ivs[of "fst p" n "snd p" "sort ps"]
      by (cases p) (simp add: foldM_append)
  qed simp
  then show ?thesis by (simp add: interval_sort_def)
qed

section \<open>Merging\<close>

fun merge_from :: "nat \<Rightarrow> nat \<Rightarrow> (nat \<times> nat) list \<Rightarrow> (nat \<times> nat) list" where
  "merge_from l u [] = [(l, u)]"
| "merge_from l u ((l', u') # ps) = (if l' \<le> u + 1 then merge_from l (max u u') ps else (l, u) # merge_from l' u' ps)"

lemma merge_from_correct:
  assumes "l \<le> u" "u < 2 ^ n" "all_proper n ps" "sorted (map fst ((l, u) # ps))"
  shows "norm n (merge_from l u ps)" "pts n (merge_from l u ps) = {l..u} \<union> pts n ps"
    "\<forall>(l', u')\<in>set (merge_from l u ps). l \<le> l'"
proof -
  have "norm n (merge_from l u ps) \<and> pts n (merge_from l u ps) = {l..u} \<union> pts n ps \<and>
      (\<forall>(l', u')\<in>set (merge_from l u ps). l \<le> l')"
    using assms
  proof (induction ps arbitrary: l u)
    case Nil
    then show ?case by (simp add: norm_Cons wrap_points_def)
  next
    case (Cons p ps)
    obtain l' u' where p: "p = (l', u')" by (cases p)
    have lu: "l \<le> l'" "l' \<le> u'" "u' < 2 ^ n" "sorted (map fst ((l', u') # ps))" "all_proper n ps"
      using Cons.prems by (auto simp: p)
    show ?case
    proof (cases "l' \<le> u + 1")
      case True
      have "sorted (map fst ((l, max u u') # ps))" using Cons.prems(4) by (auto simp: p)
      then have IH: "norm n (merge_from l (max u u') ps)" "pts n (merge_from l (max u u') ps) = {l..max u u'} \<union> pts n ps"
          "\<forall>(l', u')\<in>set (merge_from l (max u u') ps). l \<le> l'"
        using Cons.IH[of l "max u u'"] Cons.prems(1,2) lu by auto
      have "{l..max u u'} = {l..u} \<union> {l'..u'}" using True lu Cons.prems(1) by auto
      then show ?thesis using IH True lu by (auto simp: p wrap_points_def)
    next
      case False
      have IH: "norm n (merge_from l' u' ps)" "pts n (merge_from l' u' ps) = {l'..u'} \<union> pts n ps"
          "\<forall>(l'', u'')\<in>set (merge_from l' u' ps). l' \<le> l''"
        using Cons.IH[of l' u'] lu by auto
      then show ?thesis using False lu Cons.prems(1,2)
        by (fastforce simp: p norm_Cons wrap_points_def)
    qed
  qed
  then show "norm n (merge_from l u ps)" "pts n (merge_from l u ps) = {l..u} \<union> pts n ps"
    "\<forall>(l', u')\<in>set (merge_from l u ps). l \<le> l'" by blast+
qed

text \<open>The loop in place: the intervals up to \<open>write_idx\<close> are merged, those from \<open>k\<close> on unread.\<close>

definition merge_inv :: "nat \<Rightarrow> (nat \<times> nat) list \<Rightarrow> (nat \<times> nat) list \<Rightarrow> nat \<Rightarrow> Interval list \<times> nat \<Rightarrow> bool" where
  "merge_inv n ps result k = (\<lambda>(is, w). \<exists>pre l u. w = length pre \<and> w < k \<and> length is = length ps \<and>
     take (w + 1) is = ivs n (pre @ [(l, u)]) \<and> drop k is = ivs n (drop k ps) \<and> in_range n (pre @ [(l, u)]) \<and>
     pre @ merge_from l u (drop k ps) = result)"

lemma merge_step_inv:
  assumes "in_range n ps" "k < length ps" "merge_inv n ps result k s"
  shows "\<exists>s'. merge_step k s = Some s' \<and> merge_inv n ps result (Suc k) s'"
proof -
  obtain "is" pre l u where s: "s = (is, length pre)" "length pre < k" "length is = length ps"
      "take (length pre + 1) is = ivs n (pre @ [(l, u)])" "drop k is = ivs n (drop k ps)"
      "in_range n (pre @ [(l, u)])" "pre @ merge_from l u (drop k ps) = result"
    using assms(3) by (cases s) (auto simp: merge_inv_def)
  obtain l' u' where p: "ps ! k = (l', u')" by (cases "ps ! k")
  have lu: "l < 2 ^ n" "u < 2 ^ n" "l' < 2 ^ n" "u' < 2 ^ n" using s(6) in_rangeD[OF assms(1,2)] p by simp_all
  let ?w = "length pre"
  have wl: "?w < length is" using s(2,3) assms(2) by simp
  have isw: "is ! ?w = ivl n l u"
  proof -
    have "take (?w + 1) is ! ?w = ivl n l u" using s(4) by (simp add: nth_append)
    then show ?thesis by simp
  qed
  have d: "drop k ps = (l', u') # drop (Suc k) ps" using assms(2) p by (metis Cons_nth_drop_Suc)
  have isk: "is ! k = ivl n l' u'" and dk: "drop (Suc k) is = ivs n (drop (Suc k) ps)"
    using s(5) assms(2) s(3) Cons_nth_drop_Suc[of k "is"] by (auto simp: d)
  have pre: "take ?w is = ivs n pre" using arg_cong[OF s(4), of "take ?w"] by (simp add: min_def)
  have upd: "take (?w + 1) (is[?w := x]) = ivs n pre @ [x]" for x
    using wl pre by (simp add: take_Suc_conv_app_nth)
  have gets: "nth_opt is ?w = Some (ivl n l u)" "nth_opt is k = Some (ivl n l' u')"
    using isw isk wl s(3) assms(2) by (simp_all add: nth_opt_def)
  show ?thesis
  proof (cases "l' \<le> u + 1")
    case True
    let ?is = "if u < u' then is[?w := ivl n l u'] else is"
    have "merge_step k s = Some (?is, ?w)"
      using s(1) gets lu True wl
      by (simp add: merge_step_def UAtLeastPredecessor_mk UCmp_ops_mk take_bit_nat_eq_self Interval_Closed_def mkInterval_mk)
    moreover have "merge_inv n ps result (Suc k) (?is, ?w)"
      unfolding merge_inv_def prod.case
    proof (rule exI[of _ pre], rule exI[of _ l], rule exI[of _ "max u u'"], intro conjI)
      show "take (?w + 1) ?is = ivs n (pre @ [(l, max u u')])" using upd[of "ivl n l u'"] s(4) by (auto simp: max_def)
      show "pre @ merge_from l (max u u') (drop (Suc k) ps) = result" using s(7) True by (simp add: d)
    qed (use s lu dk in auto)
    ultimately show ?thesis by blast
  next
    case False
    let ?is = "if ?w + 1 \<noteq> k then is[?w + 1 := ivl n l' u'] else is"
    have k1: "?w + 1 < length is" using s(2,3) assms(2) by simp
    have "merge_step k s = Some (?is, ?w + 1)"
      using s(1) gets lu False k1 by (simp add: merge_step_def UAtLeastPredecessor_mk take_bit_nat_eq_self Let_def)
    moreover have "merge_inv n ps result (Suc k) (?is, ?w + 1)"
      unfolding merge_inv_def prod.case
    proof (rule exI[of _ "pre @ [(l, u)]"], rule exI[of _ l'], rule exI[of _ u'], intro conjI)
      have "take (Suc (?w + 1)) ?is = take (?w + 1) is @ [ivl n l' u']"
        using k1 isk by (simp add: take_Suc_conv_app_nth)
      then show "take (?w + 1 + 1) ?is = ivs n ((pre @ [(l, u)]) @ [(l', u')])" using s(4) by simp
      show "(pre @ [(l, u)]) @ merge_from l' u' (drop (Suc k) ps) = result" using s(7) False by (simp add: d)
    qed (use s lu dk in auto)
    ultimately show ?thesis by blast
  qed
qed

lemma merge_loop_ivs:
  assumes "in_range n ((l, u) # ps)"
  shows "\<exists>is w. foldM merge_step [1..<length (ivs n ((l, u) # ps))] (ivs n ((l, u) # ps), 0) = Some (is, w) \<and>
    vector_resize is (w + 1) = ivs n (merge_from l u ps)"
proof -
  let ?ps = "(l, u) # ps"
  have "merge_inv n ?ps (merge_from l u ps) 1 (ivs n ?ps, 0)"
    unfolding merge_inv_def prod.case
    by (rule exI[of _ "[]"], rule exI[of _ l], rule exI[of _ u]) (use assms in simp)
  then have "\<exists>s. foldM merge_step [1..<length ?ps] (ivs n ?ps, 0) = Some s \<and>
      merge_inv n ?ps (merge_from l u ps) (length ?ps) s"
    by (rule foldM_upt_inv[rotated]) (use merge_step_inv[OF assms] in auto)
  then obtain s where s: "foldM merge_step [1..<length ?ps] (ivs n ?ps, 0) = Some s"
      "merge_inv n ?ps (merge_from l u ps) (length ?ps) s"
    by blast
  obtain "is" pre l' u' where i: "s = (is, length pre)" "length pre < length ?ps" "length is = length ?ps"
      "take (length pre + 1) is = ivs n (pre @ [(l', u')])" "pre @ merge_from l' u' [] = merge_from l u ps"
    using s(2) by (cases s) (auto simp: merge_inv_def)
  have "vector_resize is (length pre + 1) = ivs n (merge_from l u ps)"
    using i(2-4) i(5)[symmetric] by (simp add: vector_resize_def)
  then show ?thesis using s(1) i(1) by auto
qed

lemma Normalize_ivs:
  assumes "in_range n ps" "ps \<noteq> []"
  shows "\<exists>qs. Normalize \<lparr>is_normalized = False, set_bit_count = int n, intervals = ivs n ps\<rparr> =
      Some \<lparr>is_normalized = True, set_bit_count = int n, intervals = ivs n qs\<rparr> \<and> norm n qs \<and> pts n qs = pts n ps"
proof (cases "length ps = 1 \<and> fst (hd ps) \<le> snd (hd ps)")
  case True
  then obtain l u where ps: "ps = [(l, u)]" "l \<le> u" by (cases ps) auto
  then have "norm n ps" using assms by (simp add: norm_Cons)
  moreover have "Normalize \<lparr>is_normalized = False, set_bit_count = int n, intervals = ivs n ps\<rparr> =
      Some \<lparr>is_normalized = True, set_bit_count = int n, intervals = ivs n ps\<rparr>"
    using assms ps by (simp add: Normalize_def ivl_rules)
  ultimately show ?thesis by blast
next
  case False
  let ?es = "sort (expanded n ps)"
  have pr: "all_proper n ?es" using expanded_proper[OF assms(1)] by (simp add: all_proper_def)
  have "?es \<noteq> []" using assms(2) 
    by (metis append_is_Nil_conv expanded_def list.map_disc_iff set_empty2 set_sort)
  then obtain l u es where es: "?es = (l, u) # es" by (metis list.exhaust surj_pair)
  have sorted: "sorted (map fst ((l, u) # es))"
    using sorted_sort[of "expanded n ps"] unfolding es
    by (simp only: sorted_map) (rule sorted_wrt_mono_rel[rotated], assumption, auto simp: less_eq_prod_def)
  note m = merge_from_correct[of l u n es, OF _ _ _ sorted]
  have lu: "l \<le> u" "u < 2 ^ n" "all_proper n es" using pr by (auto simp: es)
  have range: "in_range n ((l, u) # es)" using all_proper_in_range[OF pr] by (simp add: es)
  have single: "(if length (ivs n ps) = 1 then map_option (\<lambda>i. \<not> i) (IsImproper (hd (ivs n ps))) else Some False) = Some False"
    using False assms by (cases ps) (auto simp: ivl_rules)
  have srt: "interval_sort (ivs n (expanded n ps)) = Some (ivs n ((l, u) # es))"
    using interval_sort_ivs[OF all_proper_in_range[OF expanded_proper[OF assms(1)]]] es by simp
  obtain "is" w where loop: "foldM merge_step [1..<length (ivs n ((l, u) # es))] (ivs n ((l, u) # es), 0) = Some (is, w)"
      "vector_resize is (w + 1) = ivs n (merge_from l u es)"
    using merge_loop_ivs[OF range] by blast
  have "Normalize \<lparr>is_normalized = False, set_bit_count = int n, intervals = ivs n ps\<rparr> =
      Some \<lparr>is_normalized = True, set_bit_count = int n, intervals = ivs n (merge_from l u es)\<rparr>"
    unfolding Normalize_def IntervalSet.simps single
    by (simp only: if_False Option.bind_lunit nat_int expand_improper_ivs[OF assms(1)] srt loop prod.case)
  moreover have "pts n (merge_from l u es) = pts n ps"
  proof -
    have "pts n (merge_from l u es) = pts n ?es" unfolding es using m(2) lu by (simp add: wrap_points_def)
    also have "\<dots> = pts n (expanded n ps)" by (simp add: pts_def)
    finally show ?thesis using expanded_pts[OF assms(1)] by simp
  qed
  ultimately show ?thesis using m(1)[OF lu] by blast
qed

end
