(* ===== verification/Interval_Set_Algebra.thy ===== *)
theory Interval_Set_Algebra
  imports Interval_Set_Rules
begin

text \<open>
  The set operations of \<^verbatim>\<open>IntervalSet\<close> on the normal form. Each loop over two sorted lists is
  first reduced to a function on lists of pairs, which is then shown to compute the operation on
  the sets of points and to return the normal form.
\<close>

abbreviation nset :: "nat \<Rightarrow> (nat \<times> nat) list \<Rightarrow> IntervalSet" where
  "nset n ps \<equiv> \<lparr>is_normalized = True, set_bit_count = int n, intervals = ivs n ps\<rparr>"

lemma nset_access [simp]:
  "IntervalSet_BitCount \<lparr>is_normalized = b, set_bit_count = int n, intervals = is\<rparr> = Some n" "Intervals (nset n ps) = Some (ivs n ps)"
  "IntervalSet_IsEmpty (nset n ps) \<longleftrightarrow> ps = []"
  by (simp_all add: IntervalSet_BitCount_def Intervals_def IntervalSet_IsEmpty_def)

lemma norm_pts: "norm n ps \<Longrightarrow> pts n ps = (\<Union>(l, u)\<in>set ps. {l..u})"
  by (fastforce simp: norm_def pts_def wrap_points_def)

lemma norm_mem: "norm n ps \<Longrightarrow> (l, u) \<in> set ps \<Longrightarrow> l \<in> pts n ps \<and> u \<in> pts n ps"
  by (fastforce simp: norm_def norm_pts)

lemma norm_pts_Cons: "norm n ((l, u) # ps) \<Longrightarrow> pts n ((l, u) # ps) = {l..u} \<union> pts n ps"
  by (auto simp: norm_Cons wrap_points_def)

lemma norm_above: "norm n ((l, u) # ps) \<Longrightarrow> x \<in> pts n ps \<Longrightarrow> u + 1 < x"
  by (fastforce simp: norm_Cons norm_pts)

lemma norm_tl: "norm n (p # ps) \<Longrightarrow> norm n ps"
  by (cases p) (simp add: norm_Cons)

lemma norm_Cons_hd: "norm n ((l, u) # (l', u') # ps) \<longleftrightarrow> l \<le> u \<and> u + 1 < l' \<and> norm n ((l', u') # ps)"
  by (fastforce simp: norm_Cons)

section \<open>Intersection\<close>

function (sequential) isect :: "(nat \<times> nat) list \<Rightarrow> (nat \<times> nat) list \<Rightarrow> (nat \<times> nat) list" where
  "isect ((l, u) # ls) ((l', u') # rs) =
     (if max l l' \<le> min u u' then [(max l l', min u u')] else []) @
     isect (if u \<le> u' then ls else (l, u) # ls) (if u' \<le> u then rs else (l', u') # rs)"
| "isect _ _ = []"
  by pat_completeness auto
termination
  by (relation "measure (\<lambda>(ls, rs). length ls + length rs)") auto

lemma intersect_loop_ivs:
  "\<lbrakk>all_proper n ls; all_proper n rs; ls \<noteq> []; rs \<noteq> []\<rbrakk> \<Longrightarrow>
   intersect_loop (ivs n ls) (ivs n rs) acc = Some (acc @ ivs n (isect ls rs))"
proof (induction ls rs arbitrary: acc rule: isect.induct)
  case (1 l u ls l' u' rs)
  let ?ls = "if u \<le> u' then ls else (l, u) # ls" and ?rs = "if u' \<le> u then rs else (l', u') # rs"
  have lt: "l < 2 ^ n" "u < 2 ^ n" "l' < 2 ^ n" "u' < 2 ^ n" using "1.prems" by auto
  have cmp: "bits_UCmp (mkBitmap n u) (mkBitmap n u') = Some (sgn (int u - int u'))"
    using lt by (simp add: UCmp_ops_mk take_bit_nat_eq_self)
  let ?acc = "acc @ ivs n (if max l l' \<le> min u u' then [(max l l', min u u')] else [])"
  have step: "intersect_loop (ivs n ((l, u) # ls)) (ivs n ((l', u') # rs)) acc =
      (if ?ls = [] \<or> ?rs = [] then Some ?acc else intersect_loop (ivs n ?ls) (ivs n ?rs) ?acc)"
  proof -
    have "ULessThanOrEqual (mkBitmap n (max l l')) (mkBitmap n (if u < u' then u else u')) = Some (max l l' \<le> min u u')"
      using lt by (auto simp: UCmp_ops_mk take_bit_nat_eq_self min_def)
    moreover have "(if sgn (int u - int u') < 0 then mkBitmap n u else mkBitmap n u') = mkBitmap n (if u < u' then u else u')"
      by (simp add: sgn_if)
    moreover have "ivl n (max l l') (if u < u' then u else u') = ivl n (max l l') (min u u')" by (simp add: min_def)
    ultimately show ?thesis using lt
      by (simp only: list.map prod.case intersect_loop.simps(1) ivl_simps cmp Option.bind_lunit UMin_UMax_mk
          take_bit_nat_eq_self Let_def mkInterval_mk) (auto simp: sgn_if)
  qed
  show ?case
  proof (cases "?ls = [] \<or> ?rs = []")
    case True
    then have "isect ?ls ?rs = []" by (metis isect.simps(2,3) list.exhaust)
    then show ?thesis using True step by simp
  next
    case False
    have ap: "all_proper n ?ls" "all_proper n ?rs" using "1.prems" by auto
    have ne: "?ls \<noteq> []" "?rs \<noteq> []" using False by blast+
    show ?thesis unfolding step isect.simps(1)
      by (simp only: False if_False "1.IH"[OF ap ne] map_append append_assoc)
  qed
qed simp_all

lemma isect_correct:
  "norm n ls \<Longrightarrow> norm n rs \<Longrightarrow> norm n (isect ls rs) \<and> pts n (isect ls rs) = pts n ls \<inter> pts n rs"
proof (induction ls rs rule: isect.induct)
  case (1 l u ls l' u' rs)
  let ?ls = "if u \<le> u' then ls else (l, u) # ls" and ?rs = "if u' \<le> u then rs else (l', u') # rs"
  have b: "l \<le> u" "u < 2 ^ n" "l' \<le> u'" "u' < 2 ^ n" using "1.prems" by (auto simp: norm_Cons)
  have nl: "norm n ?ls" "norm n ?rs" using "1.prems" norm_tl[OF "1.prems"(1)] norm_tl[OF "1.prems"(2)] by simp_all
  have IH: "norm n (isect ?ls ?rs)" "pts n (isect ?ls ?rs) = pts n ?ls \<inter> pts n ?rs"
    using "1.IH" nl by blast+
  note up = norm_above[OF "1.prems"(1)] norm_above[OF "1.prems"(2)]
  have rest: "pts n ?ls \<inter> pts n ?rs \<union> ({l..u} \<inter> {l'..u'}) = pts n ((l, u) # ls) \<inter> pts n ((l', u') # rs)"
  proof -
    consider "u < u'" | "u' < u" | "u = u'" by linarith
    then show ?thesis
    proof cases
      case 1
      then show ?thesis unfolding norm_pts_Cons[OF "1.prems"(1)] using norm_pts_Cons[OF "1.prems"(2)] up(2) by fastforce
    next
      case 2
      then show ?thesis unfolding norm_pts_Cons[OF "1.prems"(2)] using norm_pts_Cons[OF "1.prems"(1)] up(1) by fastforce
    next
      case 3
      then show ?thesis unfolding norm_pts_Cons[OF "1.prems"(1)] norm_pts_Cons[OF "1.prems"(2)] using up by fastforce
    qed
  qed
  have above: "min u u' + 1 < x" if "x \<in> pts n ?ls \<inter> pts n ?rs" for x
    using that up by (auto simp: min_def split: if_splits)
  let ?q = "isect ?ls ?rs"
  show ?case
  proof (cases "max l l' \<le> min u u'")
    case False
    then have "{l..u} \<inter> {l'..u'} = {}" by auto
    then have "pts n ?q = pts n ((l, u) # ls) \<inter> pts n ((l', u') # rs)" using IH(2) rest by blast
    then show ?thesis unfolding isect.simps(1) using False IH(1) by (simp only: if_False append_Nil simp_thms)
  next
    case True
    have "\<forall>(a, c)\<in>set ?q. min u u' + 1 < a"
    proof clarify
      fix a c assume ac: "(a, c) \<in> set ?q"
      then have "a \<in> pts n ?q" using norm_mem[OF IH(1)] by blast
      then show "min u u' + 1 < a" using above IH(2) by blast
    qed
    then have nq: "norm n ((max l l', min u u') # ?q)" using IH(1) True b by (simp add: norm_Cons)
    moreover have "{max l l'..min u u'} = {l..u} \<inter> {l'..u'}" by auto
    then have "pts n ((max l l', min u u') # ?q) = pts n ((l, u) # ls) \<inter> pts n ((l', u') # rs)"
      unfolding norm_pts_Cons[OF nq] IH(2) using rest by blast
    ultimately show ?thesis unfolding isect.simps(1) using True by (simp only: if_True append_Cons append_Nil simp_thms)
  qed
qed simp_all

lemma Intersect_nset:
  assumes "norm n ls" "norm n rs"
  shows "IntervalSet_Intersect (nset n ls) (nset n rs) = Some (nset n (isect ls rs))"
proof (cases "ls = [] \<or> rs = []")
  case True
  then have "isect ls rs = []" by (metis isect.simps(2,3) list.exhaust)
  then show ?thesis using True by (simp add: IntervalSet_Intersect_def IntervalSet_of_width_def)
next
  case False
  then show ?thesis using intersect_loop_ivs[of n ls rs "[]"] norm_all_proper assms
    by (simp add: IntervalSet_Intersect_def)
qed

section \<open>The normal form is unique\<close>

lemma pts_bound: "in_range n ps \<Longrightarrow> pts n ps \<subseteq> {..<2 ^ n}"
  by (induction ps) (auto simp: wrap_points_def split: if_splits)

lemma norm_head:
  assumes "norm n ((l, u) # ps)"
  shows "l = Min (pts n ((l, u) # ps))" "u = Max {x. {l..x} \<subseteq> pts n ((l, u) # ps)}"
proof -
  have lu: "l \<le> u" "u < 2 ^ n" using assms by (auto simp: norm_Cons)
  note P = norm_pts_Cons[OF assms] and up = norm_above[OF assms]
  have fin: "finite (pts n ((l, u) # ps))"
    using pts_bound[OF norm_in_range[OF assms]] finite_subset by blast
  show "l = Min (pts n ((l, u) # ps))"
  proof (rule Min_eqI[symmetric, OF fin])
    fix y assume "y \<in> pts n ((l, u) # ps)"
    then show "l \<le> y" using up[of y] lu unfolding P by (cases "y \<in> {l..u}") auto
  qed (use lu in \<open>auto simp: P simp del: pts_simps\<close>)
  have "{x. {l..x} \<subseteq> pts n ((l, u) # ps)} = {..u}"
  proof (intro set_eqI iffI)
    fix x assume "x \<in> {x. {l..x} \<subseteq> pts n ((l, u) # ps)}"
    then have sub: "{l..x} \<subseteq> {l..u} \<union> pts n ps" using P by simp
    show "x \<in> {..u}"
    proof (rule ccontr)
      assume "x \<notin> {..u}"
      then have "u + 1 \<in> {l..x}" using lu by auto
      then show False using sub up[of "u + 1"] by auto
    qed
  next
    fix x assume "x \<in> {..u}"
    then show "x \<in> {x. {l..x} \<subseteq> pts n ((l, u) # ps)}" unfolding P by auto
  qed
  then show "u = Max {x. {l..x} \<subseteq> pts n ((l, u) # ps)}" 
    using Max_eqI[of "{..u}" u] by simp
qed

lemma norm_tail_pts: "norm n ((l, u) # ps) \<Longrightarrow> pts n ps = pts n ((l, u) # ps) - {l..u}"
  using norm_pts_Cons[of n l u ps] norm_above[of n l u ps] by fastforce

lemma norm_nonempty: "norm n (p # ps) \<Longrightarrow> pts n (p # ps) \<noteq> {}"
  using norm_mem[of n "p # ps" "fst p" "snd p"] by auto

lemma norm_unique: "norm n ps \<Longrightarrow> norm n qs \<Longrightarrow> pts n ps = pts n qs \<Longrightarrow> ps = qs"
proof (induction ps arbitrary: qs)
  case Nil
  then show ?case using norm_nonempty by (cases qs) auto
next
  case (Cons p ps)
  obtain q qs' where qs: "qs = q # qs'" using Cons.prems norm_nonempty by (cases qs) auto
  obtain l u l' u' where pq: "p = (l, u)" "q = (l', u')" by (cases p; cases q) auto
  note p = Cons.prems(1)[unfolded pq] and q = Cons.prems(2)[unfolded qs pq] and e = Cons.prems(3)[unfolded qs pq]
  have l: "l = l'" using norm_head(1)[OF p] norm_head(1)[OF q] e by metis
  have u: "u = u'" using norm_head(2)[OF p] norm_head(2)[OF q] e l by metis
  have "pts n ps = pts n qs'" using norm_tail_pts[OF p] norm_tail_pts[OF q] e l u by metis
  then show ?case using Cons.IH[OF norm_tl[OF p] norm_tl[OF q]] qs pq l u by simp
qed

section \<open>Disjointness\<close>

lemma disjoint_loop_ivs:
  "norm n ls \<Longrightarrow> norm n rs \<Longrightarrow> disjoint_loop (ivs n ls) (ivs n rs) = Some (pts n ls \<inter> pts n rs = {})"
proof (induction "length ls + length rs" arbitrary: ls rs rule: less_induct)
  case less
  show ?case
  proof (cases "ls = [] \<or> rs = []")
    case True
    then show ?thesis by (cases ls; cases rs) auto
  next
    case False
    then obtain l u ls' l' u' rs' where h: "ls = (l, u) # ls'" "rs = (l', u') # rs'" by (metis list.exhaust surj_pair)
    note nl = less.prems(1)[unfolded h] and nr = less.prems(2)[unfolded h]
    have b: "l \<le> u" "u < 2 ^ n" "l' \<le> u'" "u' < 2 ^ n" using nl nr by (auto simp: norm_Cons)
    note P = norm_pts_Cons[OF nl] norm_pts_Cons[OF nr] and up = norm_above[OF nl] norm_above[OF nr]
    have cmp: "Interval_less (ivl n l u) (ivl n l' u') = Some (l < l' \<or> l = l' \<and> u < u')" using b by (simp add: cmp_ivl)
    consider "l' \<le> u \<and> l \<le> u'" | "u < l'" | "u' < l" by linarith
    then show ?thesis
    proof cases
      case 1
      then have "max l l' \<in> pts n ls \<inter> pts n rs" using b unfolding h P by auto
      then show ?thesis using 1 b by (auto simp: h binary_ivl)
    next
      case 2
      then have "pts n ls \<inter> pts n rs = pts n ls' \<inter> pts n rs" unfolding h P using up(2) b by fastforce
      then show ?thesis using 2 b cmp less.hyps[of ls' rs] norm_tl[OF nl] less.prems(2) by (simp add: h binary_ivl)
    next
      case 3
      then have "pts n ls \<inter> pts n rs = pts n ls \<inter> pts n rs'" unfolding h P using up(1) b by fastforce
      then show ?thesis using 3 b cmp less.hyps[of ls rs'] norm_tl[OF nr] less.prems(1) by (simp add: h binary_ivl)
    qed
  qed
qed

lemma le_pred_exp: "x \<le> 2 ^ n - 1 \<longleftrightarrow> x < 2 ^ n" for x :: nat
  by (cases "(2::nat) ^ n") auto

lemma maximal_norm: "norm n [(0, 2 ^ n - 1)]" "pts n [(0, 2 ^ n - 1)] = {..<2 ^ n}"
  by (auto simp: norm_Cons wrap_points_def le_pred_exp[unfolded One_nat_def])

lemma IsMaximal_nset:
  assumes "norm n ps"
  shows "IntervalSet_IsMaximal (nset n ps) = Some (pts n ps = {..<2 ^ n})"
proof -
  have mx: "Interval_IsMaximal i = Some (points i = {..<2 ^ n})" if "i \<in> set (ivs n ps)" for i
    using that norm_in_range[OF assms] by (auto simp: in_range_def ivl_rules points_ivl)
  have "loop (\<lambda>i _. do { m \<leftarrow> Interval_IsMaximal i; Some (if m then Return True else Continue ()) }) (ivs n ps) () =
      Some (if \<exists>i\<in>set (ivs n ps). points i = {..<2 ^ n} then Return True else Continue ())"
    by (rule loop_any) (simp only: mx Option.bind_lunit)
  then have ev: "IntervalSet_IsMaximal (nset n ps) = Some (\<exists>i\<in>set (ivs n ps). points i = {..<2 ^ n})"
    by (simp add: IntervalSet_IsMaximal_def)
  have "pts n ps = {..<2 ^ n}" if "\<exists>i\<in>set (ivs n ps). points i = {..<2 ^ n}"
    using that pts_bound[OF norm_in_range[OF assms]] points_ivs[OF norm_in_range[OF assms]] by blast
  moreover have "\<exists>i\<in>set (ivs n ps). points i = {..<2 ^ n}" if "pts n ps = {..<2 ^ n}"
  proof -
    have "ps = [(0, 2 ^ n - 1)]" using norm_unique[OF assms maximal_norm(1)] that maximal_norm(2) by simp
    then show ?thesis using maximal_norm(2) by (simp add: points_ivl)
  qed
  ultimately have "(\<exists>i\<in>set (ivs n ps). points i = {..<2 ^ n}) = (pts n ps = {..<2 ^ n})" by (rule iffI)
  then show ?thesis using ev by (simp only:)
qed

lemma bounds_nset:
  assumes "ps \<noteq> []"
  shows "IntervalSet_LowerBound (nset n ps) = Some (Some (mkBitmap n (fst (hd ps))))"
    "IntervalSet_UpperBound (nset n ps) = Some (Some (mkBitmap n (snd (last ps))))"
    "IntervalSet_ConvexHull (nset n ps) = Some (Some (ivl n (fst (hd ps)) (snd (last ps))))"
proof -
  show "IntervalSet_LowerBound (nset n ps) = Some (Some (mkBitmap n (fst (hd ps))))"
    "IntervalSet_UpperBound (nset n ps) = Some (Some (mkBitmap n (snd (last ps))))"
    using assms by (auto simp: IntervalSet_LowerBound_def IntervalSet_UpperBound_def hd_map last_map case_prod_unfold)
  then show "IntervalSet_ConvexHull (nset n ps) = Some (Some (ivl n (fst (hd ps)) (snd (last ps))))"
    by (simp add: IntervalSet_ConvexHull_def mkInterval_mk)
qed

lemma hull_points:
  "norm n ps \<Longrightarrow> ps \<noteq> [] \<Longrightarrow> pts n ps \<subseteq> {fst (hd ps)..snd (last ps)} \<and> fst (hd ps) \<le> snd (last ps) \<and> snd (last ps) < 2 ^ n"
proof (induction ps)
  case (Cons p ps)
  obtain l u where p: "p = (l, u)" by (cases p)
  show ?case
  proof (cases "ps = []")
    case True
    then show ?thesis using Cons.prems by (auto simp: p norm_Cons wrap_points_def)
  next
    case False
    then have IH: "pts n ps \<subseteq> {fst (hd ps)..snd (last ps)}" "fst (hd ps) \<le> snd (last ps)" "snd (last ps) < 2 ^ n"
      using Cons.IH norm_tl[OF Cons.prems(1)] by auto
    have "u < fst (hd ps)" using Cons.prems(1) False by (cases ps) (auto simp: p norm_Cons)
    then show ?thesis using IH False Cons.prems(1) norm_pts_Cons[of n l u ps] by (auto simp: p norm_Cons)
  qed
qed simp

lemma Disjoint_nset:
  assumes "norm n ls" "norm n rs"
  shows "IntervalSet_Disjoint (nset n ls) (nset n rs) = Some (pts n ls \<inter> pts n rs = {})"
proof (cases "ls = [] \<or> rs = []")
  case True
  then show ?thesis by (auto simp: IntervalSet_Disjoint_def)
next
  case False
  have nel: "pts n ls \<noteq> {}" using False norm_nonempty assms(1) by (cases ls) blast+
  have ner: "pts n rs \<noteq> {}" using False norm_nonempty assms(2) by (cases rs) blast+
  note b = pts_bound[OF norm_in_range[OF assms(1)]] pts_bound[OF norm_in_range[OF assms(2)]]
  have m: "pts n ls \<inter> pts n rs \<noteq> {}" if "pts n ls = {..<2 ^ n} \<or> pts n rs = {..<2 ^ n}"
    using that nel ner b by auto
  have ne: "ls \<noteq> []" "rs \<noteq> []" using False by auto
  note hl = hull_points[OF assms(1) ne(1)] and hr = hull_points[OF assms(2) ne(2)]
  have "Interval_Disjoint (ivl n (fst (hd ls)) (snd (last ls))) (ivl n (fst (hd rs)) (snd (last rs))) =
      Some (\<not> (fst (hd rs) \<le> snd (last ls) \<and> fst (hd ls) \<le> snd (last rs)))"
    using binary_ivl(2) hl hr by simp
  moreover have "pts n ls \<inter> pts n rs = {}" if "\<not> (fst (hd rs) \<le> snd (last ls) \<and> fst (hd ls) \<le> snd (last rs))"
    using that hl hr by fastforce
  ultimately show ?thesis using False m IsMaximal_nset[OF assms(1)] IsMaximal_nset[OF assms(2)]
      disjoint_loop_ivs[OF assms] bounds_nset(3)[OF ne(1)] bounds_nset(3)[OF ne(2)]
    by (auto simp: IntervalSet_Disjoint_def)
qed

section \<open>Complement\<close>

lemma AddInterval_ivs [simp]:
  "AddInterval \<lparr>is_normalized = b, set_bit_count = int n, intervals = ivs n ps\<rparr> (ivl n l u) =
     Some \<lparr>is_normalized = False, set_bit_count = int n, intervals = ivs n (ps @ [(l, u)])\<rparr>"
  by (simp add: AddInterval_def ivl_rules)

lemma Normalize_any:
  assumes "in_range n ps" "ps \<noteq> [] \<or> b" "b \<Longrightarrow> norm n ps"
  shows "\<exists>qs. Normalize \<lparr>is_normalized = b, set_bit_count = int n, intervals = ivs n ps\<rparr> = Some (nset n qs) \<and>
    norm n qs \<and> pts n qs = pts n ps"
  using Normalize_ivs[OF assms(1)] assms(2,3) by (cases b) (auto simp: Normalize_def)

text \<open>The gaps below the intervals, from the number \<open>a\<close> on.\<close>

fun gaps :: "nat \<Rightarrow> (nat \<times> nat) list \<Rightarrow> (nat \<times> nat) list" where
  "gaps a [] = []"
| "gaps a ((l, u) # ps) = (if a < l then [(a, l - 1)] else []) @ gaps (u + 1) ps"

lemma complement_fold:
  "\<lbrakk>norm n ps; ps \<noteq> []; \<forall>(l, u)\<in>set ps. a \<le> l\<rbrakk> \<Longrightarrow>
   foldM complement_step (ivs n ps)
     (\<lparr>is_normalized = b, set_bit_count = int n, intervals = ivs n acc\<rparr>, bits_of_int n (int a - 1)) =
   Some (\<lparr>is_normalized = (b \<and> gaps a ps = []), set_bit_count = int n, intervals = ivs n (acc @ gaps a ps)\<rparr>,
     mkBitmap n (snd (last ps)))"
proof (induction ps arbitrary: a b acc)
  case (Cons p ps)
  obtain l u where p: "p = (l, u)" by (cases p)
  have lu: "a \<le> l" "l \<le> u" "u < 2 ^ n" using Cons.prems by (auto simp: p norm_Cons)
  have shift: "bits_of_int n (int x - 1) = mkBitmap n (x + (2 ^ n - 1))" for x
  proof -
    have "int (x + (2 ^ n - 1)) = (int x - 1) + 2 ^ n"
      by (simp only: of_nat_add) (simp add: of_nat_diff)
    then have "take_bit n (int x - 1) = take_bit n (int (x + (2 ^ n - 1)))"
      by (simp only: take_bit_eq_mod mod_add_self2)
    then have "bits_of_int n (int x - 1) = bits_of_int n (int (x + (2 ^ n - 1)))" by (rule bits_of_int_cong)
    then show ?thesis by (simp only: bits_of_int_nat)
  qed
  have eq: "Bits_eq (bits_of_int n (int l - 1)) (bits_of_int n (int a - 1)) = Some (a = l)"
  proof -
    have "take_bit n (a + (2 ^ n - 1)) = take_bit n (a + (2 ^ n - 1) + (l - a)) \<longleftrightarrow> l - a = 0"
      by (rule take_bit_shift_eq_iff) (use lu in linarith)
    moreover have "a + (2 ^ n - 1) + (l - a) = l + (2 ^ n - 1)" using lu by linarith
    ultimately show ?thesis using lu unfolding shift by (auto simp: Bits_eq_mk)
  qed
  have inc: "Interval_LeftOpen (bits_of_int n (int a - 1)) (bits_of_int n (int l - 1)) = Some (ivl n a (l - 1))" if "a < l"
  proof -
    have "bits_of_int n (int l - 1) = mkBitmap n (l - 1)" using that by (intro bits_of_int_pred) simp
    moreover have "ivl n (a + (2 ^ n - 1) + 1) (l - 1) = ivl n a (l - 1)"
      using zero_less_power[of "2::nat" n] by (simp add: ivl_eq_iff take_bit_eq_mod)
    ultimately show ?thesis by (simp add: shift Open_ivl)
  qed
  let ?g = "if a < l then [(a, l - 1)] else []"
  have step: "complement_step (ivl n l u)
      (\<lparr>is_normalized = b, set_bit_count = int n, intervals = ivs n acc\<rparr>, bits_of_int n (int a - 1)) =
      Some (\<lparr>is_normalized = (b \<and> ?g = []), set_bit_count = int n, intervals = ivs n (acc @ ?g)\<rparr>, bits_of_int n (int (u + 1) - 1))"
    using lu eq inc by (cases "a = l") (simp_all add: complement_step_def Decrement_mk)
  show ?case
  proof (cases "ps = []")
    case True
    then show ?thesis using step by (simp add: p)
  next
    case False
    have "\<forall>(l', u')\<in>set ps. u + 1 \<le> l'" using Cons.prems(1) by (fastforce simp: p norm_Cons)
    note IH = Cons.IH[OF norm_tl[OF Cons.prems(1)] False this, of "b \<and> ?g = []" "acc @ ?g"]
    show ?thesis unfolding p list.map prod.case foldM.simps step Option.bind_lunit
      by (simp only: IH gaps.simps append_is_Nil_conv append_assoc conj_assoc last_ConsR[OF False])
  qed
qed simp

lemma gaps_points:
  "\<lbrakk>norm n ps; ps \<noteq> []; \<forall>(l, u)\<in>set ps. a \<le> l\<rbrakk> \<Longrightarrow>
   all_proper n (gaps a ps) \<and> pts n (gaps a ps) = {a..snd (last ps)} - pts n ps"
proof (induction ps arbitrary: a)
  case (Cons p ps)
  obtain l u where p: "p = (l, u)" by (cases p)
  have lu: "a \<le> l" "l \<le> u" "u < 2 ^ n" using Cons.prems by (auto simp: p norm_Cons)
  let ?g = "if a < l then [(a, l - 1)] else []"
  have g: "all_proper n ?g" "pts n ?g = {a..<l}" using lu by (auto simp: wrap_points_def)
  note up = norm_above[OF Cons.prems(1)[unfolded p]] and P = norm_pts_Cons[OF Cons.prems(1)[unfolded p]]
  show ?case
  proof (cases "ps = []")
    case True
    have "{a..<l} = {a..u} - {l..u}" using lu by auto
    then show ?thesis using g P True
      by (simp only: p gaps.simps append_Nil2 last.simps if_True snd_conv pts_simps(1) Un_empty_right simp_thms)
  next
    case False
    have "\<forall>(l', u')\<in>set ps. u + 1 \<le> l'" using Cons.prems(1) by (fastforce simp: p norm_Cons)
    then have IH: "all_proper n (gaps (u + 1) ps)" "pts n (gaps (u + 1) ps) = {u + 1..snd (last ps)} - pts n ps"
      using Cons.IH[OF norm_tl[OF Cons.prems(1)] False] by blast+
    have "u < snd (last ps)" using up[of "snd (last ps)"] norm_mem[OF norm_tl[OF Cons.prems(1)], of "fst (last ps)" "snd (last ps)"] False
      by simp
    then have "{a..<l} \<union> ({u + 1..snd (last ps)} - pts n ps) = {a..snd (last ps)} - ({l..u} \<union> pts n ps)"
      using lu up by fastforce
    then show ?thesis using g IH False P
      by (simp only: p gaps.simps last_ConsR all_proper_simps(3) pts_simps(3) simp_thms not_False_eq_True)
  qed
qed simp

lemma Complement_nset:
  assumes "norm n ps"
  shows "\<exists>qs. IntervalSet_Complement (nset n ps) = Some (nset n qs) \<and> norm n qs \<and> pts n qs = {..<2 ^ n} - pts n ps"
proof (cases "ps = []")
  case True
  have "AddInterval (IntervalSet_of_width (int n)) (ivl n 0 (2 ^ n - 1)) =
      Some \<lparr>is_normalized = False, set_bit_count = int n, intervals = ivs n [(0, 2 ^ n - 1)]\<rparr>"
    using AddInterval_ivs[of True n "[]"] by (simp add: IntervalSet_of_width_def)
  then have "IntervalSet_Complement (nset n ps) = Some (nset n [(0, 2 ^ n - 1)])"
    using True by (simp add: IntervalSet_Complement_def IntervalSet_Maximal_def Maximal_ivl IntervalSet_IsEmpty_def)
  then show ?thesis using maximal_norm[of n] True by (metis Diff_empty pts_simps(1))
next
  case False
  let ?u = "snd (last ps)"
  have all: "\<forall>(l, u)\<in>set ps. 0 \<le> l" by auto
  have ones: "AllOnes n = bits_of_int n (int 0 - 1)"
    by (simp add: AllOnes_mk bits_of_int_def nat_mask_eq)
  have u: "?u < 2 ^ n" "pts n ps \<subseteq> {..?u}" using hull_points[OF assms False] by auto
  note fold = complement_fold[OF assms False all, of True "[]", unfolded list.map append_Nil, folded ones]
  have lo: "Interval_LeftOpen (mkBitmap n ?u) (AllOnes n) = Some (ivl n (?u + 1) (2 ^ n - 1))"
    by (simp only: AllOnes_mk mask_nat Open_ivl)
  note g = gaps_points[OF assms False all]
  let ?h = "if ?u = 2 ^ n - 1 then [] else [(?u + 1, 2 ^ n - 1)]"
  have h: "all_proper n ?h" "pts n ?h = {?u + 1..<2 ^ n}"
    using u(1) by (auto simp: wrap_points_def le_pred_exp[unfolded One_nat_def])
  have isones: "Bits_IsAllOnes (mkBitmap n ?u) = Some (?u = 2 ^ n - 1)"
    using u(1) by (simp add: Bits_IsAllOnes_mk take_bit_nat_eq_self mask_nat)
  let ?b = "gaps 0 ps = [] \<and> ?u = 2 ^ n - 1"
  have "IntervalSet_Complement (nset n ps) =
      Normalize \<lparr>is_normalized = ?b, set_bit_count = int n, intervals = ivs n (gaps 0 ps @ ?h)\<rparr>"
    using False fold isones lo AddInterval_ivs[of "gaps 0 ps = []" n "gaps 0 ps"]
    by (cases "?u = 2 ^ n - 1") (simp_all add: IntervalSet_Complement_def IntervalSet_of_width_def)
  moreover have "in_range n (gaps 0 ps @ ?h)" using g h by (intro all_proper_in_range) simp
  moreover have "pts n (gaps 0 ps @ ?h) = {..<2 ^ n} - pts n ps" using g h u by auto
  ultimately show ?thesis using Normalize_any[of n "gaps 0 ps @ ?h" ?b] by auto
qed

end
