(* ===== verification/Interval_Set_Union.thy ===== *)
theory Interval_Set_Union
  imports Interval_Set_Algebra
begin

text \<open>
  \<^verbatim>\<open>Combine\<close>, the merge of two normalized sets that was written for a hot spot of the compiler. One
  call of \<^verbatim>\<open>CombineAndAdvance\<close> takes off both lists everything that touches the lowest interval and
  returns where it ends; the loop pushes these pieces and merges the ones that abut.
\<close>

section \<open>Normal forms that grow at the end\<close>

lemma norm_le_last: "norm n ps \<Longrightarrow> (l, u) \<in> set ps \<Longrightarrow> u \<le> snd (last ps)"
  using hull_points[of n ps] norm_mem[of n ps l u] by (cases "ps = []") auto

lemma norm_snoc:
  "norm n (ps @ [(l, u)]) \<longleftrightarrow> norm n ps \<and> l \<le> u \<and> u < 2 ^ n \<and> (ps \<noteq> [] \<longrightarrow> snd (last ps) + 1 < l)"
proof
  assume "norm n (ps @ [(l, u)])"
  then show "norm n ps \<and> l \<le> u \<and> u < 2 ^ n \<and> (ps \<noteq> [] \<longrightarrow> snd (last ps) + 1 < l)"
    by (auto simp: norm_def sorted_wrt_append dest!: last_in_set)
next
  assume h: "norm n ps \<and> l \<le> u \<and> u < 2 ^ n \<and> (ps \<noteq> [] \<longrightarrow> snd (last ps) + 1 < l)"
  have "b + 1 < l" if "(a, b) \<in> set ps" for a b
    using norm_le_last[of n ps a b] that h by (cases "ps = []") auto
  then show "norm n (ps @ [(l, u)])" using h by (fastforce simp: norm_def sorted_wrt_append)
qed

lemma norm_append:
  assumes "norm n ps" "norm n qs" "ps \<noteq> [] \<Longrightarrow> \<forall>x\<in>pts n qs. snd (last ps) + 1 < x"
  shows "norm n (ps @ qs)"
proof -
  have "b + 1 < c" if "(a, b) \<in> set ps" "(c, d) \<in> set qs" for a b c d
    using norm_le_last[OF assms(1) that(1)] norm_mem[OF assms(2) that(2)] assms(3) that(1) by fastforce
  then show ?thesis using assms(1,2) by (fastforce simp: norm_def sorted_wrt_append)
qed

definition push :: "(nat \<times> nat) list \<Rightarrow> nat \<Rightarrow> nat \<Rightarrow> (nat \<times> nat) list" where
  "push acc l u = (if acc \<noteq> [] \<and> snd (last acc) + 1 = l then butlast acc @ [(fst (last acc), u)] else acc @ [(l, u)])"

lemma push_correct:
  assumes "norm n acc" "l \<le> u" "u < 2 ^ n" "acc \<noteq> [] \<Longrightarrow> snd (last acc) < l"
  shows "norm n (push acc l u)" "pts n (push acc l u) = pts n acc \<union> {l..u}" "push acc l u \<noteq> []" "snd (last (push acc l u)) = u"
proof -
  have "norm n (push acc l u) \<and> pts n (push acc l u) = pts n acc \<union> {l..u}"
  proof (cases "acc \<noteq> [] \<and> snd (last acc) + 1 = l")
    case True
    then obtain pre a b where acc: "acc = pre @ [(a, b)]" by (metis append_butlast_last_id surj_pair)
    have ab: "a \<le> b" "b + 1 = l" using assms(1) True by (auto simp: acc norm_snoc)
    then have "{a..b} \<union> {l..u} = {a..u}" using assms(2) by auto
    then show ?thesis using True assms(1-3) ab by (auto simp: push_def acc norm_snoc wrap_points_def)
  next
    case False
    then have "acc \<noteq> [] \<longrightarrow> snd (last acc) + 1 < l" using assms(4) by fastforce
    then show ?thesis using False assms(1-3) by (auto simp: push_def norm_snoc wrap_points_def)
  qed
  then show "norm n (push acc l u)" "pts n (push acc l u) = pts n acc \<union> {l..u}" by blast+
  show "push acc l u \<noteq> []" "snd (last (push acc l u)) = u" by (simp_all add: push_def)
qed

lemma combine_push_ivs:
  assumes "norm n acc" "l \<le> u" "u < 2 ^ n" "acc \<noteq> [] \<Longrightarrow> snd (last acc) < l"
  shows "combine_push (ivs n acc) (mkBitmap n l) (mkBitmap n u) = Some (ivs n (push acc l u))"
proof (cases "acc = []")
  case False
  then obtain pre a b where acc: "acc = pre @ [(a, b)]" by (metis append_butlast_last_id surj_pair)
  have "b < l" "l < 2 ^ n" using assms by (auto simp: acc)
  then have "Bits_eq (mkBitmap n (b + 1)) (mkBitmap n l) = Some (b + 1 = l)"
    by (simp add: Bits_eq_mk take_bit_nat_eq_self)
  then show ?thesis by (simp add: combine_push_def acc push_def Increment_mk mkInterval_mk)
qed (simp add: combine_push_def push_def mkInterval_mk)

section \<open>CombineAndAdvance\<close>

lemma skip_contained_ivs:
  "in_range n hs \<Longrightarrow> u < 2 ^ n \<Longrightarrow>
   skip_contained (mkBitmap n u) (ivs n hs) = Some (ivs n (dropWhile (\<lambda>(l, u'). u' \<le> u) hs))"
  by (induction hs) (auto simp: UCmp_ops_mk take_bit_nat_eq_self)

lemma norm_dropWhile: "norm n hs \<Longrightarrow> norm n (dropWhile P hs)"
  by (induction hs) (auto dest: norm_tl)

lemma dropWhile_points:
  "norm n hs \<Longrightarrow> \<forall>(l', u')\<in>set hs. l \<le> l' \<Longrightarrow>
   \<exists>X\<subseteq>{l..u}. pts n hs = X \<union> pts n (dropWhile (\<lambda>(l, u'). u' \<le> u) hs)"
proof (induction hs)
  case (Cons p hs)
  obtain a b where p: "p = (a, b)" by (cases p)
  show ?case
  proof (cases "b \<le> u")
    case True
    obtain X where "X \<subseteq> {l..u}" "pts n hs = X \<union> pts n (dropWhile (\<lambda>(l, u'). u' \<le> u) hs)"
      using Cons.IH[OF norm_tl[OF Cons.prems(1)]] Cons.prems(2) by auto
    moreover have "{a..b} \<subseteq> {l..u}" using True Cons.prems(2) by (auto simp: p)
    ultimately show ?thesis using True norm_pts_Cons[OF Cons.prems(1)[unfolded p]]
      by (intro exI[of _ "{a..b} \<union> X"]) (auto simp: p)
  qed (auto simp: p)
qed simp

lemma norm_lower_ge: "norm n ((l, u) # ps) \<Longrightarrow> (a, b) \<in> set ((l, u) # ps) \<Longrightarrow> l \<le> a"
  by (fastforce simp: norm_Cons)

lemma CombineAndAdvance_ivs:
  assumes "norm n ((l, u) # lo)" "norm n ((l', u') # hi)" "l \<le> l'"
  shows "\<exists>m lo2 hi2. CombineAndAdvance (ivs n ((l, u) # lo)) (ivs n ((l', u') # hi)) = Some (mkBitmap n m, ivs n lo2, ivs n hi2) \<and>
    norm n lo2 \<and> norm n hi2 \<and> u \<le> m \<and> m < 2 ^ n \<and>
    pts n ((l, u) # lo) \<union> pts n ((l', u') # hi) = {l..m} \<union> pts n lo2 \<union> pts n hi2 \<and>
    (\<forall>x\<in>pts n lo2 \<union> pts n hi2. m < x) \<and> length lo2 + length hi2 < length ((l, u) # lo) + length ((l', u') # hi)"
  using assms
proof (induction "length lo + length hi" arbitrary: l u lo l' u' hi rule: less_induct)
  case less
  note nl = less.prems(1) and nh = less.prems(2)
  have b: "l \<le> u" "u < 2 ^ n" "l' \<le> u'" "u' < 2 ^ n" using nl nh by (auto simp: norm_Cons)
  note P = norm_pts_Cons[OF nl] norm_pts_Cons[OF nh] and up = norm_above[OF nl] norm_above[OF nh]
  let ?low = "(l, u) # lo" and ?high = "(l', u') # hi"
  have ones: "Bits_IsAllOnes (mkBitmap n u) = Some (u = 2 ^ n - 1)"
    using b by (simp add: Bits_IsAllOnes_mk take_bit_nat_eq_self mask_nat)
  have gt: "UGreaterThan (mkBitmap n a) (mkBitmap n u) = Some (u < a)" if "a < 2 ^ n" for a
    using b that by (simp add: UCmp_ops_mk take_bit_nat_eq_self)
  define h where "h = dropWhile (\<lambda>(l, u'). u' \<le> u) ?high"
  have hn: "norm n h" unfolding h_def by (rule norm_dropWhile[OF nh])
  obtain X where X: "X \<subseteq> {l..u}" "pts n ?high = X \<union> pts n h"
    using dropWhile_points[OF nh, of l u] norm_lower_ge[OF nh] less.prems(3) unfolding h_def by fastforce
  have hlen: "length h \<le> length ?high" unfolding h_def by (rule length_dropWhile_le)
  have skip: "skip_contained (mkBitmap n u) (ivs n ?high) = Some (ivs n h)"
    unfolding h_def by (rule skip_contained_ivs) (use norm_in_range[OF nh] b in simp_all)
  have hh: "hd (ivs n h) = ivl n (fst (hd h)) (snd (hd h))" "fst (hd h) < 2 ^ n" if "h \<noteq> []"
    using that norm_in_range[OF hn] by (cases h; auto)+
  have unf: "CombineAndAdvance (ivs n ?low) (ivs n ?high) =
      (if u = 2 ^ n - 1 then Some (mkBitmap n u, [], [])
       else if u < l' then Some (mkBitmap n u, ivs n lo, ivs n ?high)
       else if h = [] \<or> u < fst (hd h) then Some (mkBitmap n u, ivs n lo, ivs n h)
       else if lo \<noteq> [] then do {
         (m, high'', low') \<leftarrow> CombineAndAdvance (ivs n h) (ivs n lo);
         Some (m, low', high'') }
       else Some (mkBitmap n (snd (hd h)), [], ivs n (tl h)))"
  proof -
    have "(if ivs n h = [] then Some True else UGreaterThan (lower_bound (hd (ivs n h))) (mkBitmap n u)) =
        Some (h = [] \<or> u < fst (hd h))"
      using hh gt by (cases "h = []") simp_all
    moreover have "lower_bound (hd (ivs n ?high)) = mkBitmap n l'" "l' < 2 ^ n" using b by simp_all
    moreover have "hd (ivs n ?low) = ivl n l u" "tl (ivs n ?low) = ivs n lo" "ivs n ?high \<noteq> []" "ivs n ?low \<noteq> []" by simp_all
    ultimately show ?thesis
      by (subst CombineAndAdvance.simps)
        (simp only: CHECK_bind if_True Let_def ivl_simps ones gt skip Option.bind_lunit not_False_eq_True map_is_Nil_conv,
          auto simp: hh map_tl)
  qed
  show ?case
  proof (cases "u = 2 ^ n - 1")
    case True
    have "pts n ?low \<union> pts n ?high = {l..u}"
    proof -
      have "pts n lo = {}" "pts n ?high \<subseteq> {l..u}"
        using up(1) pts_bound[OF norm_in_range[OF norm_tl[OF nl]]] pts_bound[OF norm_in_range[OF nh]] True
          up(2) less.prems(3) b unfolding P by (force simp: le_pred_exp[unfolded One_nat_def])+
      then show ?thesis unfolding P(1) by blast
    qed
    then show ?thesis unfolding unf using True b by (intro exI[of _ u] exI[of _ "[]"]) simp
  next
    case u: False
    show ?thesis
    proof (cases "u < l'")
      case True
      then have "\<forall>x\<in>pts n lo \<union> pts n ?high. u < x" using up b unfolding P(2) by fastforce
      then show ?thesis unfolding unf using True u b norm_tl[OF nl] nh P(1)
        by (intro exI[of _ u] exI[of _ lo] exI[of _ ?high]) auto
    next
      case l': False
      have tot: "pts n ?low \<union> pts n ?high = {l..u} \<union> pts n lo \<union> pts n h" unfolding P(1) X(2) using X(1) by auto
      show ?thesis
      proof (cases "h = [] \<or> u < fst (hd h)")
        case True
        have "u < x" if "x \<in> pts n h" for x
          using that True hull_points[OF hn] by (cases "h = []") auto
        then show ?thesis unfolding unf tot using True u l' b norm_tl[OF nl] hn hlen up(1)
          by (intro exI[of _ u] exI[of _ lo] exI[of _ h]) fastforce
      next
        case False
        then obtain a c hs where h: "h = (a, c) # hs" "a \<le> u" by (cases h) auto
        have c: "u < c" using hd_dropWhile[of "\<lambda>(l, u'). u' \<le> u" ?high] h(1) unfolding h_def[symmetric] by simp
        have "(a, c) \<in> set ?high" using h(1) set_dropWhileD[of "(a, c)" "\<lambda>(l, u'). u' \<le> u" ?high] unfolding h_def[symmetric] by simp
        then have a: "l \<le> a" using norm_lower_ge[OF nh] less.prems(3) by fastforce
        have eq: "{l..u} \<union> {a..m} = {l..m}" if "c \<le> m" for m using that a h(2) c b by auto
        note hn' = hn[unfolded h(1)]
        show ?thesis
        proof (cases lo)
          case Nil
          have "{l..u} \<union> pts n h = {l..c} \<union> pts n hs" unfolding h(1) norm_pts_Cons[OF hn'] using eq[of c] by blast
          then have "{l..u} \<union> pts n lo \<union> pts n h = {l..c} \<union> pts n [] \<union> pts n hs" using Nil by simp
          moreover have "CombineAndAdvance (ivs n ?low) (ivs n ?high) = Some (mkBitmap n c, ivs n [], ivs n hs)"
            unfolding unf using Nil u l' False h by simp
          moreover have "length [] + length hs < length ?low + length ?high" using hlen h(1) by simp
          moreover have "u \<le> c" "c < 2 ^ n" "\<forall>x\<in>pts n [] \<union> pts n hs. c < x"
            using c hn' norm_above[OF hn'] by (auto simp: norm_Cons dest: Suc_lessD)
          ultimately show ?thesis unfolding tot using norm_tl[OF hn'] norm_Nil by blast
        next
          case (Cons p lo')
          obtain x y where p: "p = (x, y)" by (cases p)
          have nlo: "norm n ((x, y) # lo')" using norm_tl[OF nl] Cons p by simp
          have "a \<le> x" using nl h(2) Cons p by (simp add: norm_Cons)
          moreover have "length hs + length lo' < length lo + length hi" using hlen h(1) Cons by simp
          ultimately obtain m lo2 hi2 where IH: "CombineAndAdvance (ivs n h) (ivs n lo) = Some (mkBitmap n m, ivs n lo2, ivs n hi2)"
              "norm n lo2" "norm n hi2" "c \<le> m" "m < 2 ^ n" "pts n h \<union> pts n lo = {a..m} \<union> pts n lo2 \<union> pts n hi2"
              "\<forall>x\<in>pts n lo2 \<union> pts n hi2. m < x" "length lo2 + length hi2 < length h + length lo"
            using less.hyps[OF _ hn' nlo] unfolding h(1) Cons p by blast
          have "{l..u} \<union> pts n lo \<union> pts n h = {l..m} \<union> pts n hi2 \<union> pts n lo2" using IH(6) eq[OF IH(4)] by blast
          moreover have "CombineAndAdvance (ivs n ?low) (ivs n ?high) = Some (mkBitmap n m, ivs n hi2, ivs n lo2)"
            unfolding unf using u l' False Cons IH(1) by simp
          moreover have "length hi2 + length lo2 < length ?low + length ?high" using IH(8) hlen by simp
          moreover have "u \<le> m" using c IH(4) by simp
          ultimately show ?thesis unfolding tot using IH(2,3,5,7) by blast
        qed
      qed
    qed
  qed
qed

section \<open>The loop\<close>

definition pending :: "(nat \<times> nat) list \<Rightarrow> nat set \<Rightarrow> bool" where
  "pending acc P = (acc \<noteq> [] \<longrightarrow> (\<forall>x\<in>P. snd (last acc) < x))"

lemma combine_step_ivs:
  assumes "norm n ls" "norm n rs" "ls \<noteq> []" "rs \<noteq> []"
  shows "\<exists>a m ls2 rs2. combine_next (ivs n ls) (ivs n rs) = Some (mkBitmap n a, mkBitmap n m, ivs n ls2, ivs n rs2) \<and>
    norm n ls2 \<and> norm n rs2 \<and> a \<le> m \<and> m < 2 ^ n \<and> a \<in> pts n ls \<union> pts n rs \<and>
    pts n ls \<union> pts n rs = {a..m} \<union> (pts n ls2 \<union> pts n rs2) \<and> (\<forall>x\<in>pts n ls2 \<union> pts n rs2. m < x) \<and>
    length ls2 + length rs2 < length ls + length rs"
proof -
  obtain l u lo l' u' hi where h: "ls = (l, u) # lo" "rs = (l', u') # hi" using assms(3,4) by (metis list.exhaust surj_pair)
  note nl = assms(1)[unfolded h] and nr = assms(2)[unfolded h]
  have b: "l \<le> u" "l < 2 ^ n" "l' \<le> u'" "l' < 2 ^ n" using nl nr by (auto simp: norm_Cons)
  have lt: "ULessThan (mkBitmap n l) (mkBitmap n l') = Some (l < l')" using b by (simp add: UCmp_ops_mk take_bit_nat_eq_self)
  have mem: "l \<in> pts n ls" "l' \<in> pts n rs" 
    using norm_mem[OF assms(1), of l u] norm_mem[OF assms(2), of l' u'] h by (auto simp del: pts_simps)
  show ?thesis
  proof (cases "l < l'")
    case True
    obtain m lo2 hi2 where c: "CombineAndAdvance (ivs n ls) (ivs n rs) = Some (mkBitmap n m, ivs n lo2, ivs n hi2)"
        "norm n lo2" "norm n hi2" "u \<le> m" "m < 2 ^ n" "pts n ls \<union> pts n rs = {l..m} \<union> pts n lo2 \<union> pts n hi2"
        "\<forall>x\<in>pts n lo2 \<union> pts n hi2. m < x" "length lo2 + length hi2 < length ls + length rs"
      using CombineAndAdvance_ivs[OF nl nr less_imp_le[OF True]] unfolding h by blast
    have "combine_next (ivs n ls) (ivs n rs) = Some (mkBitmap n l, mkBitmap n m, ivs n lo2, ivs n hi2)"
      using c(1) lt True by (simp add: combine_next_def h)
    moreover have "l \<le> m" using b(1) c(4) by simp
    ultimately show ?thesis using c(2,3,5-8) mem unfolding Un_assoc by blast
  next
    case False
    then have le: "l' \<le> l" by simp
    obtain m lo2 hi2 where c: "CombineAndAdvance (ivs n rs) (ivs n ls) = Some (mkBitmap n m, ivs n lo2, ivs n hi2)"
        "norm n lo2" "norm n hi2" "u' \<le> m" "m < 2 ^ n" "pts n rs \<union> pts n ls = {l'..m} \<union> pts n lo2 \<union> pts n hi2"
        "\<forall>x\<in>pts n lo2 \<union> pts n hi2. m < x" "length lo2 + length hi2 < length rs + length ls"
      using CombineAndAdvance_ivs[OF nr nl le] unfolding h by blast
    have "combine_next (ivs n ls) (ivs n rs) = Some (mkBitmap n l', mkBitmap n m, ivs n hi2, ivs n lo2)"
      using c(1) lt False by (simp add: combine_next_def h)
    moreover have "l' \<le> m" using b(3) c(4) by simp
    moreover have "pts n ls \<union> pts n rs = {l'..m} \<union> (pts n hi2 \<union> pts n lo2)" "length hi2 + length lo2 < length ls + length rs"
      using c(6,8) by auto
    ultimately show ?thesis using c(2,3,5,7) mem by blast
  qed
qed

lemma combine_loop_ivs:
  "\<lbrakk>norm n ls; norm n rs; norm n acc; pending acc (pts n ls \<union> pts n rs)\<rbrakk> \<Longrightarrow>
   \<exists>ls2 rs2 acc2. combine_loop (ivs n ls) (ivs n rs) (ivs n acc) = Some (ivs n ls2, ivs n rs2, ivs n acc2) \<and>
     (ls2 = [] \<or> rs2 = []) \<and> norm n ls2 \<and> norm n rs2 \<and> norm n acc2 \<and> pending acc2 (pts n ls2 \<union> pts n rs2) \<and>
     pts n acc2 \<union> (pts n ls2 \<union> pts n rs2) = pts n acc \<union> (pts n ls \<union> pts n rs)"
proof (induction "length ls + length rs" arbitrary: ls rs acc rule: less_induct)
  case less
  show ?case
  proof (cases "ls \<noteq> [] \<and> rs \<noteq> []")
    case False
    then have "combine_loop (ivs n ls) (ivs n rs) (ivs n acc) = Some (ivs n ls, ivs n rs, ivs n acc)"
      by (subst combine_loop.simps) auto
    then show ?thesis using less.prems False by blast
  next
    case True
    obtain a m ls2 rs2 where st: "combine_next (ivs n ls) (ivs n rs) = Some (mkBitmap n a, mkBitmap n m, ivs n ls2, ivs n rs2)"
        "norm n ls2" "norm n rs2" "a \<le> m" "m < 2 ^ n" "a \<in> pts n ls \<union> pts n rs"
        "pts n ls \<union> pts n rs = {a..m} \<union> (pts n ls2 \<union> pts n rs2)" "\<forall>x\<in>pts n ls2 \<union> pts n rs2. m < x"
        "length ls2 + length rs2 < length ls + length rs"
      using combine_step_ivs[OF less.prems(1,2)] True by (elim exE conjE) blast
    have below: "acc \<noteq> [] \<Longrightarrow> snd (last acc) < a" using less.prems(4) st(6) by (simp add: pending_def)
    note pu = push_correct[OF less.prems(3) st(4,5) below]
    have "pending (push acc a m) (pts n ls2 \<union> pts n rs2)" using st(8) pu(4) by (simp add: pending_def)
    from less.hyps[OF st(9,2,3) pu(1) this] obtain ls3 rs3 acc3 where
      r: "combine_loop (ivs n ls2) (ivs n rs2) (ivs n (push acc a m)) = Some (ivs n ls3, ivs n rs3, ivs n acc3)"
        "ls3 = [] \<or> rs3 = []" "norm n ls3" "norm n rs3" "norm n acc3" "pending acc3 (pts n ls3 \<union> pts n rs3)"
        "pts n acc3 \<union> (pts n ls3 \<union> pts n rs3) = pts n (push acc a m) \<union> (pts n ls2 \<union> pts n rs2)"
      by blast
    have "combine_loop (ivs n ls) (ivs n rs) (ivs n acc) = Some (ivs n ls3, ivs n rs3, ivs n acc3)"
      using True r(1) st(1) combine_push_ivs[OF less.prems(3) st(4,5) below]
      by (subst combine_loop.simps) (simp only: map_is_Nil_conv if_True simp_thms Option.bind_lunit prod.case)
    moreover have "pts n acc3 \<union> (pts n ls3 \<union> pts n rs3) = pts n acc \<union> (pts n ls \<union> pts n rs)"
      using r(7) pu(2) st(7) by blast
    ultimately show ?thesis using r(2-6) by blast
  qed
qed

lemma combine_rest_ivs:
  "\<lbrakk>norm n rs; norm n acc; pending acc (pts n rs)\<rbrakk> \<Longrightarrow>
   \<exists>qs b. foldM combine_rest_step (ivs n rs) (ivs n acc, True) = Some (ivs n qs, b) \<and> norm n qs \<and>
     pts n qs = pts n acc \<union> pts n rs"
proof -
  have rest: "foldM combine_rest_step (ivs n rs) (is, False) = Some (is @ ivs n rs, False)" for rs "is"
    by (induction rs arbitrary: "is") (auto simp: combine_rest_step_def)
  assume h: "norm n rs" "norm n acc" "pending acc (pts n rs)"
  show ?thesis
  proof (cases rs)
    case Nil
    then show ?thesis using h by auto
  next
    case (Cons p rs')
    obtain l u where p: "p = (l, u)" by (cases p)
    note nr = h(1)[unfolded Cons p]
    have lu: "l \<le> u" "u < 2 ^ n" using nr by (auto simp: norm_Cons)
    have below: "acc \<noteq> [] \<Longrightarrow> snd (last acc) < l"
      using h(3) norm_mem[OF h(1), of l u] Cons p by (simp add: pending_def del: pts_simps)
    note pu = push_correct[OF h(2) lu below]
    have "combine_rest_step (ivl n l u) (ivs n acc, True) = Some (ivs n (push acc l u), False)"
    proof (cases "acc = []")
      case False
      then obtain pre a c where acc: "acc = pre @ [(a, c)]" by (metis append_butlast_last_id surj_pair)
      have "c < l" "l < 2 ^ n" using below lu by (auto simp: acc)
      then have "Bits_eq (mkBitmap n (c + 1)) (mkBitmap n l) = Some (c + 1 = l)"
        by (simp add: Bits_eq_mk take_bit_nat_eq_self)
      then show ?thesis by (simp add: combine_rest_step_def acc push_def Increment_mk mkInterval_mk)
    qed (simp add: combine_rest_step_def push_def)
    then have run: "foldM combine_rest_step (ivs n rs) (ivs n acc, True) = Some (ivs n (push acc l u @ rs'), False)"
      using rest[of rs' "ivs n (push acc l u)"] by (simp add: Cons p)
    have "norm n (push acc l u @ rs')"
      using norm_append[OF pu(1) norm_tl[OF nr]] pu(4) norm_above[OF nr] by simp
    moreover have "pts n (push acc l u @ rs') = pts n acc \<union> pts n rs"
      using pu(2) norm_pts_Cons[OF nr] Cons p by auto
    ultimately show ?thesis using run by blast
  qed
qed

lemma Combine_normalized_nset:
  assumes "norm n ls" "norm n rs"
  shows "\<exists>qs. Combine_normalized (nset n ls) (nset n rs) = Some (nset n qs) \<and> norm n qs \<and> pts n qs = pts n ls \<union> pts n rs"
proof -
  have "pending [] (pts n ls \<union> pts n rs)" by (simp add: pending_def)
  from combine_loop_ivs[OF assms norm_Nil this] obtain ls2 rs2 acc where
    l: "combine_loop (ivs n ls) (ivs n rs) [] = Some (ivs n ls2, ivs n rs2, ivs n acc)" "ls2 = [] \<or> rs2 = []"
      "norm n ls2" "norm n rs2" "norm n acc" "pending acc (pts n ls2 \<union> pts n rs2)"
      "pts n acc \<union> (pts n ls2 \<union> pts n rs2) = pts n ls \<union> pts n rs"
    by auto
  let ?rest = "if ls2 = [] then rs2 else ls2"
  have r: "(if ivs n ls2 = [] then ivs n rs2 else ivs n ls2) = ivs n ?rest" "norm n ?rest" "pts n ?rest = pts n ls2 \<union> pts n rs2"
    using l(2-4) by auto
  obtain qs b where q: "foldM combine_rest_step (ivs n ?rest) (ivs n acc, True) = Some (ivs n qs, b)" "norm n qs"
      "pts n qs = pts n acc \<union> pts n ?rest"
    using combine_rest_ivs[OF r(2) l(5)] l(6) r(3) by auto
  have "Combine_normalized (nset n ls) (nset n rs) = Some (nset n qs)"
    unfolding Combine_normalized_def nset_access Option.bind_lunit l(1) prod.case r(1) q(1) by simp
  then show ?thesis using q(2,3) r(3) l(7) by auto
qed

lemma Combine_nset:
  assumes "norm n ls" "norm n rs"
  shows "\<exists>qs. Combine (nset n ls) (nset n rs) = Some (nset n qs) \<and> norm n qs \<and> pts n qs = pts n ls \<union> pts n rs"
  using Combine_normalized_nset[OF assms] by (simp add: Combine_def)

end
