(* ===== verification/Interval_Set_Queries.thy ===== *)
theory Interval_Set_Queries
  imports Interval_Set
begin

text \<open>
  The queries of \<^verbatim>\<open>IntervalSet\<close>: membership, size, indexing, printing, the exhaustive check of the
  normal form, equality, and the two iterators. The iterators keep the rest of the interval list
  in place of a pointer; two iterators into one list are at the same place when equally many
  intervals are left.
\<close>

section \<open>Membership and size\<close>

definition any_interval :: "(Interval \<Rightarrow> bool option) \<Rightarrow> IntervalSet \<Rightarrow> bool option" where
  "any_interval f s = do {
     r \<leftarrow> loop (\<lambda>i _. do { c \<leftarrow> f i; Some (if c then Return True else Continue ()) }) (intervals s) ();
     Some (step_result (\<lambda>_. False) r) }"

definition IntervalSet_Covers :: "IntervalSet \<Rightarrow> bits \<Rightarrow> bool option" where
  "IntervalSet_Covers s b = do {
     n \<leftarrow> IntervalSet_BitCount s;
     CHECK (ib_bit_count b = n);
     any_interval (\<lambda>i. Interval_Covers i b) s }"

definition IntervalSet_CoversZero :: "IntervalSet \<Rightarrow> bool option" where
  "IntervalSet_CoversZero s = do { n \<leftarrow> IntervalSet_BitCount s; z \<leftarrow> UBits 0 n; IntervalSet_Covers s z }"

definition IntervalSet_CoversOne :: "IntervalSet \<Rightarrow> bool option" where
  "IntervalSet_CoversOne s = do { n \<leftarrow> IntervalSet_BitCount s; one \<leftarrow> UBits 1 n; IntervalSet_Covers s one }"

definition IntervalSet_CoversMax :: "IntervalSet \<Rightarrow> bool option" where
  "IntervalSet_CoversMax s = do { n \<leftarrow> IntervalSet_BitCount s; IntervalSet_Covers s (AllOnes n) }"

definition IsTrueWhenMaskWith :: "IntervalSet \<Rightarrow> bits \<Rightarrow> bool option" where
  "IsTrueWhenMaskWith s v = do {
     n \<leftarrow> IntervalSet_BitCount s;
     CHECK (ib_bit_count v = n);
     any_interval (\<lambda>i. Interval_IsTrueWhenAndWith i v) s }"

definition IntervalSet_IsPrecise :: "IntervalSet \<Rightarrow> bool option" where
  "IntervalSet_IsPrecise s = do {
     CHECK (set_bit_count s \<ge> 0);
     if intervals s = [] then Some False
     else do {
       r \<leftarrow> loop (\<lambda>i precisely. do {
              same \<leftarrow> (case precisely of None \<Rightarrow> Some True | Some p \<Rightarrow> Interval_eq p i);
              if \<not> same then Some (Return False)
              else do {
                p \<leftarrow> Interval_IsPrecise i;
                Some (if p then Continue (Some i) else Return False) } }) (intervals s) None;
       Some (step_result (\<lambda>_. True) r) } }"

definition IntervalSet_GetPreciseValue :: "IntervalSet \<Rightarrow> bits option option" where
  "IntervalSet_GetPreciseValue s = do {
     CHECK (is_normalized s);
     p \<leftarrow> IntervalSet_IsPrecise s;
     if p then do {
       CHECK (length (intervals s) = 1);
       Interval_GetPreciseValue (hd (intervals s)) }
     else Some None }"

text \<open>The sum of the sizes as an \<^verbatim>\<open>int64_t\<close>; an overflow ends the loop without a value.\<close>

definition IntervalSet_Size :: "'bn bn_lib \<Rightarrow> IntervalSet \<Rightarrow> 64 word option option" where
  "IntervalSet_Size bn s = do {
     CHECK (is_normalized s);
     r \<leftarrow> loop (\<lambda>i total_size. do {
            size \<leftarrow> Interval_Size bn i;
            case size of
              None \<Rightarrow> Some (Return None)
            | Some k \<Rightarrow>
                let sum = sint total_size + sint k
                in Some (if sum = sint (word_of_int sum :: 64 word) then Continue (word_of_int sum) else Return None) })
          (intervals s) (0 :: 64 word);
     Some (step_result Some r) }"

definition IntervalSet_Index :: "'bn bn_lib \<Rightarrow> IntervalSet \<Rightarrow> bits \<Rightarrow> bits option option" where
  "IntervalSet_Index bn s index = do {
     CHECK (is_normalized s);
     n \<leftarrow> IntervalSet_BitCount s;
     CHECK (ib_bit_count index = n);
     so_far \<leftarrow> ZeroExtend index (n + 1);
     is \<leftarrow> Intervals s;
     r \<leftarrow> loop (\<lambda>i so_far. do {
            size \<leftarrow> Interval_SizeBits bn i;
            lt \<leftarrow> ULessThan so_far size;
            if lt then Some (Return (i, so_far))
            else do { d \<leftarrow> Sub bn so_far size; Some (Continue d) } }) is so_far;
     case r of
       Continue _ \<Rightarrow> Some None
     | Return (i, so_far) \<Rightarrow> do {
         low \<leftarrow> ZeroExtend (lower_bound i) (n + 1);
         result \<leftarrow> Add bn so_far low;
         m \<leftarrow> msb result;
         CHECK (\<not> m);
         v \<leftarrow> Slice result 0 n;
         Some (Some v) } }"

section \<open>Normal form, equality, printing\<close>

primrec adjacent_pairs :: "'a list \<Rightarrow> ('a \<times> 'a) list" where
  "adjacent_pairs [] = []"
| "adjacent_pairs (x # xs) = (case xs of [] \<Rightarrow> [] | y # _ \<Rightarrow> (x, y) # adjacent_pairs xs)"

definition ret_check :: "bool option \<Rightarrow> unit status_or option \<Rightarrow> unit status_or option" where
  "ret_check c k = do { b \<leftarrow> c; if b then k else Some (Inl Internal) }"

definition CheckIsNormalizedForTesting :: "IntervalSet \<Rightarrow> unit status_or option" where
  "CheckIsNormalizedForTesting s =
     ret_check (Some (is_normalized s))
      (ret_check (map_option (list_all (\<lambda>b. \<not> b)) (mapM (\<lambda>(x, y). Interval_less y x) (adjacent_pairs (intervals s))))
       (ret_check (map_option (list_all (\<lambda>b. \<not> b)) (mapM IsImproper (intervals s)))
        (ret_check (map_option (list_all (\<lambda>n. int n = set_bit_count s)) (mapM Interval_BitCount (intervals s)))
         (foldr (\<lambda>(x, y) k.
             ret_check (map_option (\<lambda>b. \<not> b) (Interval_Overlaps x y))
              (ret_check (map_option (\<lambda>b. \<not> b) (Interval_Abuts x y)) k))
           (adjacent_pairs (intervals s)) (Some (Inr ()))))))"

definition UnsafeFromNormalized :: "int \<Rightarrow> Interval list \<Rightarrow> IntervalSet option" where
  "UnsafeFromNormalized bit_count is = do {
     let result = \<lparr>is_normalized = True, set_bit_count = bit_count, intervals = is\<rparr>;
     st \<leftarrow> CheckIsNormalizedForTesting result;
     CHECK (st = Inr ());
     Some result }"

definition IntervalSet_eq :: "IntervalSet \<Rightarrow> IntervalSet \<Rightarrow> bool option" where
  "IntervalSet_eq lhs rhs = do {
     lhs \<leftarrow> Normalize lhs;
     rhs \<leftarrow> Normalize rhs;
     if set_bit_count lhs \<noteq> set_bit_count rhs then Some False
     else if length (intervals lhs) \<noteq> length (intervals rhs) then Some False
     else do {
       r \<leftarrow> loop (\<lambda>(x, y) _. do { e \<leftarrow> Interval_eq x y; Some (if e then Continue () else Return False) })
              (zip (intervals lhs) (intervals rhs)) ();
       Some (step_result (\<lambda>_. True) r) } }"

definition IntervalSet_ToString :: "'bn bn_lib \<Rightarrow> IntervalSet \<Rightarrow> string option" where
  "IntervalSet_ToString bn s = do {
     CHECK (set_bit_count s \<ge> 0);
     strings \<leftarrow> mapM (Interval_ToString bn) (intervals s);
     Some (''['' @ str_join '', '' strings @ '']'') }"

section \<open>The iterator over the values\<close>

record SetValuesIterator =
  cur_interval :: "Interval list"
  set_cur_value :: ValuesIterator
  set_cur_end :: ValuesIterator

definition Values :: "IntervalSet \<Rightarrow> (SetValuesIterator \<times> SetValuesIterator) option" where
  "Values s = do {
     is \<leftarrow> Intervals s;
     if is = [] then
       let none = \<lparr>cur_interval = [], set_cur_value = ValuesIterator_None, set_cur_end = ValuesIterator_None\<rparr>
       in Some (none, none)
     else do {
       fb \<leftarrow> Interval_begin (hd is); fe \<leftarrow> Interval_end (hd is);
       le \<leftarrow> Interval_end (last is);
       Some (\<lparr>cur_interval = is, set_cur_value = fb, set_cur_end = fe\<rparr>,
             \<lparr>cur_interval = [], set_cur_value = le, set_cur_end = le\<rparr>) } }"

definition SetValuesIterator_next :: "SetValuesIterator \<Rightarrow> SetValuesIterator option" where
  "SetValuesIterator_next it = do {
     CHECK (cur_interval it \<noteq> []);
     e \<leftarrow> ValuesIterator_eq (set_cur_value it) (set_cur_end it);
     CHECK (\<not> e);
     v \<leftarrow> ValuesIterator_next (set_cur_value it);
     e \<leftarrow> ValuesIterator_eq v (set_cur_end it);
     if e then
       let rest = tl (cur_interval it)
       in if rest \<noteq> [] then do {
            b \<leftarrow> Interval_begin (hd rest); e \<leftarrow> Interval_end (hd rest);
            Some \<lparr>cur_interval = rest, set_cur_value = b, set_cur_end = e\<rparr> }
          else Some (it\<lparr>cur_interval := rest, set_cur_value := v\<rparr>)
     else Some (it\<lparr>set_cur_value := v\<rparr>) }"

definition SetValuesIterator_eq :: "SetValuesIterator \<Rightarrow> SetValuesIterator \<Rightarrow> bool option" where
  "SetValuesIterator_eq a b =
     (if length (cur_interval a) = length (cur_interval b) then
        if cur_interval a = [] then Some True else ValuesIterator_eq (set_cur_value a) (set_cur_value b)
      else Some False)"

partial_function (option) set_values_loop :: "SetValuesIterator \<Rightarrow> SetValuesIterator \<Rightarrow> bits list option" where
  "set_values_loop it e = do {
     stop \<leftarrow> SetValuesIterator_eq it e;
     if stop then Some []
     else do {
       it' \<leftarrow> SetValuesIterator_next it;
       rest \<leftarrow> set_values_loop it' e;
       Some (cur_value (set_cur_value it) # rest) } }"

definition all_values :: "IntervalSet \<Rightarrow> bits list option" where
  "all_values s = do { (b, e) \<leftarrow> Values s; set_values_loop b e }"

section \<open>The iterator over signed intervals\<close>

record SignedIntervalIterator =
  signed_cur :: "Interval list"
  in_negatives :: bool

definition InSplit :: "SignedIntervalIterator \<Rightarrow> bool option" where
  "InSplit it =
     (if signed_cur it = [] then Some False
      else do {
        n \<leftarrow> Interval_BitCount (hd (signed_cur it));
        lo \<leftarrow> MinSigned n;
        c \<leftarrow> Interval_Covers (hd (signed_cur it)) lo;
        if c then do { hi \<leftarrow> MaxSigned n; Interval_Covers (hd (signed_cur it)) hi } else Some False })"

definition SignedIntervalIterator_deref :: "SignedIntervalIterator \<Rightarrow> Interval option" where
  "SignedIntervalIterator_deref it = do {
     CHECK (signed_cur it \<noteq> []);
     let raw = hd (signed_cur it);
     split \<leftarrow> InSplit it;
     if \<not> split then Some raw
     else do {
       n \<leftarrow> Interval_BitCount raw;
       if in_negatives it then do { lo \<leftarrow> MinSigned n; mkInterval lo (upper_bound raw) }
       else do { hi \<leftarrow> MaxSigned n; mkInterval (lower_bound raw) hi } } }"

definition SignedIntervalIterator_next :: "SignedIntervalIterator \<Rightarrow> SignedIntervalIterator option" where
  "SignedIntervalIterator_next it = do {
     CHECK (signed_cur it \<noteq> []);
     split \<leftarrow> InSplit it;
     if split \<and> \<not> in_negatives it then Some (it\<lparr>in_negatives := True\<rparr>)
     else Some (it\<lparr>signed_cur := tl (signed_cur it)\<rparr>) }"

definition SignedIntervalIterator_eq :: "SignedIntervalIterator \<Rightarrow> SignedIntervalIterator \<Rightarrow> bool option" where
  "SignedIntervalIterator_eq a b = do {
     x \<leftarrow> InSplit a;
     y \<leftarrow> (if x then InSplit b else Some False);
     if x \<and> y \<and> in_negatives a \<noteq> in_negatives b then Some False
     else Some (length (signed_cur a) = length (signed_cur b)) }"

definition SignedIntervals :: "IntervalSet \<Rightarrow> (SignedIntervalIterator \<times> SignedIntervalIterator) option" where
  "SignedIntervals s = do {
     is \<leftarrow> Intervals s;
     Some (\<lparr>signed_cur = is, in_negatives = False\<rparr>, \<lparr>signed_cur = [], in_negatives = True\<rparr>) }"

partial_function (option) signed_loop ::
    "SignedIntervalIterator \<Rightarrow> SignedIntervalIterator \<Rightarrow> Interval list option" where
  "signed_loop it e = do {
     stop \<leftarrow> SignedIntervalIterator_eq it e;
     if stop then Some []
     else do {
       i \<leftarrow> SignedIntervalIterator_deref it;
       it' \<leftarrow> SignedIntervalIterator_next it;
       rest \<leftarrow> signed_loop it' e;
       Some (i # rest) } }"

definition all_signed_intervals :: "IntervalSet \<Rightarrow> Interval list option" where
  "all_signed_intervals s = do { (b, e) \<leftarrow> SignedIntervals s; signed_loop b e }"

definition NumberOfSignedIntervals :: "IntervalSet \<Rightarrow> nat option" where
  "NumberOfSignedIntervals s = do {
     n \<leftarrow> IntervalSet_BitCount s;
     hi \<leftarrow> MaxSigned n;
     a \<leftarrow> IntervalSet_Covers s hi;
     b \<leftarrow> (if a then do { lo \<leftarrow> MinSigned n; IntervalSet_Covers s lo } else Some False);
     Some (if a \<and> b then NumberOfIntervals s + 1 else NumberOfIntervals s) }"

end
