(* ===== verification/Interval_Set_Contract.thy ===== *)
theory Interval_Set_Contract
  imports Interval_Set_Union Interval_Set_Queries
begin

text \<open>
  The contract an analysis relies on when it keeps sets of values: the operations are total on
  well-formed sets, compute the operations on the denoted sets, and keep one representation for
  each denoted set. The laws of the algebra then hold for the representations themselves. The
  normalized interval sets of one width are an instance.
\<close>

locale set_algebra =
  fixes inv :: "'s \<Rightarrow> bool" and denote :: "'s \<Rightarrow> nat set" and univ :: "nat set"
    and union inter :: "'s \<Rightarrow> 's \<Rightarrow> 's option" and compl :: "'s \<Rightarrow> 's option"
    and disjoint :: "'s \<Rightarrow> 's \<Rightarrow> bool option"
  assumes denote_univ: "inv a \<Longrightarrow> denote a \<subseteq> univ"
    and canonical: "inv a \<Longrightarrow> inv b \<Longrightarrow> denote a = denote b \<Longrightarrow> a = b"
    and union_ok: "inv a \<Longrightarrow> inv b \<Longrightarrow> \<exists>c. union a b = Some c \<and> inv c \<and> denote c = denote a \<union> denote b"
    and inter_ok: "inv a \<Longrightarrow> inv b \<Longrightarrow> \<exists>c. inter a b = Some c \<and> inv c \<and> denote c = denote a \<inter> denote b"
    and compl_ok: "inv a \<Longrightarrow> \<exists>c. compl a = Some c \<and> inv c \<and> denote c = univ - denote a"
    and disjoint_ok: "inv a \<Longrightarrow> inv b \<Longrightarrow> disjoint a b = Some (denote a \<inter> denote b = {})"
begin

lemma union_commute: "inv a \<Longrightarrow> inv b \<Longrightarrow> union a b = union b a"
  using union_ok[of a b] union_ok[of b a] canonical by (metis Un_commute)

lemma inter_commute: "inv a \<Longrightarrow> inv b \<Longrightarrow> inter a b = inter b a"
  using inter_ok[of a b] inter_ok[of b a] canonical by (metis Int_commute)

lemma union_idem: "inv a \<Longrightarrow> union a a = Some a"
  using union_ok[of a a] canonical by (metis Un_absorb)

lemma compl_compl:
  assumes "inv a"
  shows "Option.bind (compl a) compl = Some a"
proof -
  obtain c where c: "compl a = Some c" "inv c" "denote c = univ - denote a" using compl_ok[OF assms] by blast
  obtain d where d: "compl c = Some d" "inv d" "denote d = univ - denote c" using compl_ok[OF c(2)] by blast
  have "denote d = denote a" using c(3) d(3) denote_univ[OF assms] by blast
  then have "d = a" using canonical[OF d(2) assms] by blast
  then show ?thesis using c(1) d(1) by simp
qed

lemma de_morgan:
  assumes "inv a" "inv b"
  shows "Option.bind (union a b) compl = Option.bind (compl a) (\<lambda>x. Option.bind (compl b) (inter x))"
proof -
  obtain c where c: "union a b = Some c" "inv c" "denote c = denote a \<union> denote b" using union_ok[OF assms] by blast
  obtain d where d: "compl c = Some d" "inv d" "denote d = univ - denote c" using compl_ok[OF c(2)] by blast
  obtain x where x: "compl a = Some x" "inv x" "denote x = univ - denote a" using compl_ok[OF assms(1)] by blast
  obtain y where y: "compl b = Some y" "inv y" "denote y = univ - denote b" using compl_ok[OF assms(2)] by blast
  obtain z where z: "inter x y = Some z" "inv z" "denote z = denote x \<inter> denote y" using inter_ok[OF x(2) y(2)] by blast
  have "denote d = denote z" unfolding d(3) z(3) c(3) x(3) y(3) by blast
  then have "d = z" using canonical[OF d(2) z(2)] by blast
  then show ?thesis using c(1) d(1) x(1) y(1) z(1) by simp
qed

lemma subset_test:
  assumes "inv a" "inv b"
  shows "\<exists>c. compl b = Some c \<and> disjoint a c = Some (denote a \<subseteq> denote b)"
proof -
  obtain c where c: "compl b = Some c" "inv c" "denote c = univ - denote b" using compl_ok[OF assms(2)] by blast
  have "denote a \<inter> denote c = {} \<longleftrightarrow> denote a \<subseteq> denote b" using c(3) denote_univ[OF assms(1)] by blast
  then show ?thesis using c(1) disjoint_ok[OF assms(1) c(2)] by simp
qed

end

definition norm_set :: "nat \<Rightarrow> IntervalSet \<Rightarrow> bool" where
  "norm_set n s = (wf_set n s \<and> is_normalized s)"

lemma norm_setE:
  assumes "norm_set n s"
  obtains ps where "s = nset n ps" "norm n ps"
proof -
  from assms have "wf_set n s" "is_normalized s" by (auto simp: norm_set_def)
  then show ?thesis using that by (metis (full_types) wf_setE)
qed

lemma norm_set_nset: "norm n ps \<Longrightarrow> norm_set n (nset n ps)"
  using wf_set_normI by (simp add: norm_set_def)

lemma set_points_nset: "norm n ps \<Longrightarrow> set_points (nset n ps) = pts n ps"
  by (rule set_points_ivs[OF norm_in_range])

interpretation iset: set_algebra "norm_set n" set_points "{..<2 ^ n}" Combine IntervalSet_Intersect
    IntervalSet_Complement IntervalSet_Disjoint for n
proof
  fix a b assume a: "norm_set n a"
  obtain ps where ps: "a = nset n ps" "norm n ps" using norm_setE[OF a] .
  show "set_points a \<subseteq> {..<2 ^ n}" using pts_bound[OF norm_in_range[OF ps(2)]] ps by (simp add: set_points_nset)
  show "\<exists>c. IntervalSet_Complement a = Some c \<and> norm_set n c \<and> set_points c = {..<2 ^ n} - set_points a"
    using Complement_nset[OF ps(2)] ps set_points_nset norm_set_nset by (metis (no_types))
  assume b: "norm_set n b"
  obtain qs where qs: "b = nset n qs" "norm n qs" using norm_setE[OF b] .
  show "set_points a = set_points b \<Longrightarrow> a = b" using norm_unique[OF ps(2) qs(2)] ps qs set_points_nset by metis
  show "\<exists>c. Combine a b = Some c \<and> norm_set n c \<and> set_points c = set_points a \<union> set_points b"
    using Combine_nset[OF ps(2) qs(2)] ps qs set_points_nset norm_set_nset by (metis (no_types))
  show "\<exists>c. IntervalSet_Intersect a b = Some c \<and> norm_set n c \<and> set_points c = set_points a \<inter> set_points b"
    using Intersect_nset[OF ps(2) qs(2)] isect_correct[OF ps(2) qs(2)] ps qs set_points_nset norm_set_nset by (metis (no_types))
  show "IntervalSet_Disjoint a b = Some (set_points a \<inter> set_points b = {})"
    using Disjoint_nset[OF ps(2) qs(2)] ps qs set_points_nset by metis
qed

end
