(* ===== verification/Interval_Set_Values.thy ===== *)
theory Interval_Set_Values
  imports Interval_Set_Contract
begin

text \<open>
  The queries of \<^verbatim>\<open>IntervalSet\<close> on the normal form: iteration, indexing and size against the
  increasing list of the numbers in the set, membership and masks against the set, the test of the
  normal form, and equality.
\<close>

section \<open>The numbers in order\<close>

definition enum_pairs :: "(nat \<times> nat) list \<Rightarrow> nat list" where
  "enum_pairs ps = concat (map (\<lambda>(l, u). [l..<Suc u]) ps)"

lemma enum_pairs_simps [simp]:
  "enum_pairs [] = []" "enum_pairs ((l, u) # ps) = [l..<Suc u] @ enum_pairs ps"
  by (simp_all add: enum_pairs_def del: upt_Suc)

lemma set_enum_pairs: "norm n ps \<Longrightarrow> set (enum_pairs ps) = pts n ps"
  unfolding norm_pts by (auto simp: enum_pairs_def simp del: upt_Suc)

lemma sorted_enum_pairs: "norm n ps \<Longrightarrow> sorted_wrt (<) (enum_pairs ps)"
proof (induction ps)
  case (Cons p ps)
  obtain l u where p: "p = (l, u)" by (cases p)
  have "x \<le> u \<Longrightarrow> y \<in> set (enum_pairs ps) \<Longrightarrow> x < y" for x y
    using norm_above[of n l u ps y] set_enum_pairs[OF norm_tl[OF Cons.prems]] Cons.prems p by force
  then show ?case using Cons norm_tl[OF Cons.prems] by (auto simp: p sorted_wrt_append simp del: upt_Suc)
qed simp

lemma enum_pairs_sorted_list: "norm n ps \<Longrightarrow> enum_pairs ps = sorted_list_of_set (pts n ps)"
  using sorted_enum_pairs[of n ps] set_enum_pairs[of n ps]
  by (metis sorted_list_of_set.idem_if_sorted_distinct strict_sorted_iff)

lemma length_enum_pairs: "norm n ps \<Longrightarrow> length (enum_pairs ps) = card (pts n ps)"
  by (simp add: enum_pairs_sorted_list)

section \<open>Iteration\<close>

abbreviation vit :: "nat \<Rightarrow> nat \<Rightarrow> bool \<Rightarrow> ValuesIterator" where
  "vit n c f \<equiv> \<lparr>cur_value = mkBitmap n c, is_first_and_maximal = f\<rparr>"

lemma take_bit_upto:
  "c < 2 ^ n \<Longrightarrow> u < 2 ^ n \<Longrightarrow> take_bit n c = take_bit n (Suc u) \<longleftrightarrow> c = Suc u \<or> c = 0 \<and> Suc u = 2 ^ n" for c u :: nat
proof (cases "Suc u = 2 ^ n")
  case True
  then have "take_bit n (Suc u) = 0" by (simp only: take_bit_eq_mod mod_self)
  moreover assume "c < 2 ^ n"
  ultimately show ?thesis using True by (metis take_bit_nat_eq_self less_irrefl)
next
  case False
  moreover assume "u < 2 ^ n"
  ultimately have "Suc u < 2 ^ n" by linarith
  moreover assume "c < 2 ^ n"
  ultimately show ?thesis using False by (simp add: take_bit_nat_eq_self)
qed

lemma range_maximal_iff:
  assumes "l \<le> u" "u < 2 ^ n"
  shows "wrap_points n l u = {..<2 ^ n} \<longleftrightarrow> l = 0 \<and> Suc u = 2 ^ n"
proof -
  have lt: "l < 2 ^ n" using assms by simp
  have "card (wrap_points n l u) = u - l + 1" using card_wrap_points[OF lt assms(2)] assms(1) by simp
  then show ?thesis unfolding maximal_card_iff(1)[OF lt assms(2)] using assms by linarith
qed

lemma iterators_ivl:
  "\<lbrakk>l \<le> u; u < 2 ^ n\<rbrakk> \<Longrightarrow> Interval_begin (ivl n l u) = Some (vit n l (l = 0 \<and> Suc u = 2 ^ n))"
  "Interval_end (ivl n l u) = Some (vit n (Suc u) False)"
  by (simp_all add: Interval_begin_def Interval_end_def ivl_rules Increment_mk range_maximal_iff)

lemma set_values_loop_step:
  assumes "norm n ((l, u) # ps)" "l \<le> c" "c \<le> u" "f \<longleftrightarrow> c = 0 \<and> Suc u = 2 ^ n" "cur_interval e = []"
  shows "set_values_loop \<lparr>cur_interval = ivs n ((l, u) # ps), set_cur_value = vit n c f, set_cur_end = vit n (Suc u) False\<rparr> e =
    map_option (Cons (mkBitmap n c)) (
      if c < u then set_values_loop \<lparr>cur_interval = ivs n ((l, u) # ps), set_cur_value = vit n (Suc c) False, set_cur_end = vit n (Suc u) False\<rparr> e
      else case ps of [] \<Rightarrow> Some []
        | (l', u') # _ \<Rightarrow> set_values_loop \<lparr>cur_interval = ivs n ps, set_cur_value = vit n l' (l' = 0 \<and> Suc u' = 2 ^ n), set_cur_end = vit n (Suc u') False\<rparr> e)"
proof -
  have b: "l \<le> u" "u < 2 ^ n" "c < 2 ^ n" using assms(1-3) by (auto simp: norm_Cons)
  have stop: "take_bit n (Suc c) = take_bit n (Suc u) \<longleftrightarrow> c = u"
    using take_bit_upto[of "Suc c" n u] b assms(3) by (cases "c = u") (auto simp: Suc_le_eq)
  have chk: "\<not> (take_bit n c = take_bit n (Suc u) \<and> f = False)" using take_bit_upto[OF b(3,2)] assms(3,4) by auto
  have nil: "set_values_loop \<lparr>cur_interval = [], set_cur_value = x, set_cur_end = y\<rparr> e = Some []" for x y
    using assms(5) by (subst set_values_loop.simps) (simp add: SetValuesIterator_eq_def)
  have "SetValuesIterator_next \<lparr>cur_interval = ivs n ((l, u) # ps), set_cur_value = vit n c f, set_cur_end = vit n (Suc u) False\<rparr> =
      Some (if c < u then \<lparr>cur_interval = ivs n ((l, u) # ps), set_cur_value = vit n (Suc c) False, set_cur_end = vit n (Suc u) False\<rparr>
        else case ps of [] \<Rightarrow> \<lparr>cur_interval = [], set_cur_value = vit n (Suc c) False, set_cur_end = vit n (Suc u) False\<rparr>
        | (l', u') # _ \<Rightarrow> \<lparr>cur_interval = ivs n ps, set_cur_value = vit n l' (l' = 0 \<and> Suc u' = 2 ^ n), set_cur_end = vit n (Suc u') False\<rparr>)"
    using chk stop assms(1,3)
    by (cases ps) (auto simp: SetValuesIterator_next_def ValuesIterator_eq_def ValuesIterator_next_def Bits_eq_mk Increment_mk
        iterators_ivl norm_Cons CHECK_def split: prod.splits)
  then show ?thesis using assms(5) nil
    by (subst set_values_loop.simps) (auto simp: SetValuesIterator_eq_def map_option_case split: list.splits prod.splits option.splits)
qed

lemma set_values_loop_run:
  assumes "norm n ((l, u) # ps)" "l \<le> c" "c \<le> u" "f \<longleftrightarrow> c = 0 \<and> Suc u = 2 ^ n" "cur_interval e = []"
  shows "set_values_loop \<lparr>cur_interval = ivs n ((l, u) # ps), set_cur_value = vit n c f, set_cur_end = vit n (Suc u) False\<rparr> e =
    Some (map (mkBitmap n) ([c..<Suc u] @ enum_pairs ps))"
  using assms
proof (induction "length ps" arbitrary: l u ps c f)
  case 0
  then show ?case
  proof (induction "u - c" arbitrary: c f)
    case 0
    then show ?case using set_values_loop_step[OF "0.prems"(2-6)] by simp
  next
    case (Suc k)
    then have "c < u" by simp
    then show ?case using set_values_loop_step[OF Suc.prems(2-6)] Suc.hyps(1)[of "Suc c" False] Suc.prems Suc.hyps(2)
      by (simp add: upt_conv_Cons del: upt_Suc)
  qed
next
  case (Suc m)
  obtain l' u' qs where ps: "ps = (l', u') # qs" using Suc.hyps(2) by (metis list.exhaust length_0_conv nat.distinct(1) surj_pair)
  have nx: "norm n ps" using Suc.prems(1) by (simp add: norm_Cons)
  have IH: "set_values_loop \<lparr>cur_interval = ivs n ps, set_cur_value = vit n l' (l' = 0 \<and> Suc u' = 2 ^ n), set_cur_end = vit n (Suc u') False\<rparr> e =
      Some (map (mkBitmap n) (enum_pairs ps))"
    using Suc.hyps(1)[of qs l' u' l'] Suc.hyps(2) nx Suc.prems(5) by (simp add: ps norm_Cons del: upt_Suc)
  show ?case using Suc.prems
  proof (induction "u - c" arbitrary: c f)
    case 0
    then show ?case using set_values_loop_step[OF "0.prems"] IH by (simp add: ps del: upt_Suc) (simp add: upt_conv_Cons)
  next
    case (Suc k)
    then have "c < u" by simp
    then show ?case using set_values_loop_step[OF Suc.prems] Suc.hyps(1)[of "Suc c" False] Suc.prems Suc.hyps(2)
      by (simp add: upt_conv_Cons del: upt_Suc)
  qed
qed

lemma all_values_nset: "norm n ps \<Longrightarrow> all_values (nset n ps) = Some (map (mkBitmap n) (enum_pairs ps))"
proof (cases ps)
  case Nil
  then show ?thesis by (simp add: all_values_def Values_def Intervals_def Let_def) (subst set_values_loop.simps, simp add: SetValuesIterator_eq_def)
next
  case (Cons p qs)
  obtain l u where p: "p = (l, u)" by (cases p)
  obtain l' u' where last: "last ps = (l', u')" by (cases "last ps")
  assume "norm n ps"
  then show ?thesis
    using set_values_loop_run[of n l u qs l "l = 0 \<and> Suc u = 2 ^ n"] last
    by (simp add: Cons p all_values_def Values_def Intervals_def iterators_ivl norm_Cons last_map split: prod.splits del: upt_Suc)
qed

section \<open>Indexing and size\<close>

context bignum
begin

lemma index_loop:
  assumes "norm n ps" "k < 2 ^ n"
  shows "\<exists>r. loop (\<lambda>i so_far. do {
            size \<leftarrow> Interval_SizeBits bn i;
            lt \<leftarrow> ULessThan so_far size;
            if lt then Some (Return (i, so_far))
            else do { d \<leftarrow> Sub bn so_far size; Some (Continue d) } }) (ivs n ps) (mkBitmap (n + 1) k) = Some r \<and>
      (if k < length (enum_pairs ps)
       then \<exists>l u j. r = Return (ivl n l u, mkBitmap (n + 1) j) \<and> l + j = enum_pairs ps ! k \<and> l \<le> u \<and> u < 2 ^ n
       else \<exists>x. r = Continue x)"
  using assms
proof (induction ps arbitrary: k)
  case (Cons p ps)
  obtain l u where p: "p = (l, u)" by (cases p)
  have b: "l \<le> u" "u < 2 ^ n" "l < 2 ^ n" "norm n ps" using Cons.prems(1) by (auto simp: p norm_Cons)
  have sz: "u - l + 1 < 2 ^ (n + 1)" "k < 2 ^ (n + 1)" using b Cons.prems(2) by simp_all
  note ev = SizeBits_proper[OF b(1,2)] UCmp_ops_mk Sub_mk take_bit_nat_eq_self[OF sz(1)] take_bit_nat_eq_self[OF sz(2)]
  show ?case
  proof (cases "k < u - l + 1")
    case True
    then have "enum_pairs (p # ps) ! k = l + k" using b(1) by (simp add: p nth_append Suc_diff_le del: upt_Suc)
    then show ?thesis using True b ev by (auto simp: p)
  next
    case False
    then have d: "bits_of_int (n + 1) (int k - int (u - l + 1)) = mkBitmap (n + 1) (k - (u - l + 1))"
      using bits_of_int_nat[of "n + 1" "k - (u - l + 1)"] by (simp add: of_nat_diff del: bits_of_int_nat)
    have "length [l..<Suc u] = u - l + 1" using b(1) by simp
    then have e: "k < length (enum_pairs (p # ps)) \<longleftrightarrow> k - (u - l + 1) < length (enum_pairs ps)"
        "enum_pairs (p # ps) ! k = enum_pairs ps ! (k - (u - l + 1))"
      using False by (auto simp: p nth_append simp del: upt_Suc)
    show ?thesis using Cons.IH[OF b(4), of "k - (u - l + 1)"] Cons.prems(2) False ev d
      unfolding e by (simp add: p del: bits_of_int_nat)
  qed
qed simp

lemma Index_nset:
  assumes "norm n ps" "k < 2 ^ n"
  shows "IntervalSet_Index bn (nset n ps) (mkBitmap n k) =
    Some (if k < length (enum_pairs ps) then Some (mkBitmap n (enum_pairs ps ! k)) else None)"
proof -
  have z: "ZeroExtend (mkBitmap n x) (n + 1) = Some (mkBitmap (n + 1) x)" if "x < 2 ^ n" for x
    using that by (simp add: ZeroExtend_mk take_bit_nat_eq_self)
  show ?thesis
  proof (cases "k < length (enum_pairs ps)")
    case True
    then obtain l u j where r: "loop (\<lambda>i so_far. do {
            size \<leftarrow> Interval_SizeBits bn i;
            lt \<leftarrow> ULessThan so_far size;
            if lt then Some (Return (i, so_far))
            else do { d \<leftarrow> Sub bn so_far size; Some (Continue d) } }) (ivs n ps) (mkBitmap (n + 1) k) =
          Some (Return (ivl n l u, mkBitmap (n + 1) j))" "l + j = enum_pairs ps ! k" "l \<le> u" "u < 2 ^ n"
      using index_loop[OF assms] by auto
    have "enum_pairs ps ! k \<in> pts n ps" using True set_enum_pairs[OF assms(1)] by force
    then have lt: "enum_pairs ps ! k < 2 ^ n" using pts_bound[OF norm_in_range[OF assms(1)]] by auto
    then have "\<not> bit (enum_pairs ps ! k) n" by (meson nat_lt_exp_iff_bits le_refl)
    then show ?thesis using True r z assms(2)
      by (simp add: IntervalSet_Index_def Add_mk msb_mk Slice_mk add.commute)
  next
    case False
    then show ?thesis using index_loop[OF assms] z assms(2) by (auto simp: IntervalSet_Index_def)
  qed
qed

lemma Size_nset:
  assumes "norm n ps"
  shows "IntervalSet_Size bn (nset n ps) =
    Some (if length (enum_pairs ps) < 2 ^ 63 then Some (word_of_nat (length (enum_pairs ps))) else None)"
proof -
  define f where "f = (\<lambda>i (total_size :: 64 word). do {
            size \<leftarrow> Interval_Size bn i;
            case size of
              None \<Rightarrow> Some (Return (None :: 64 word option))
            | Some k \<Rightarrow>
                let sum = sint total_size + sint k
                in Some (if sum = sint (word_of_int sum :: 64 word) then Continue (word_of_int sum :: 64 word) else Return None) })"
  have step: "f (ivl n l u) (word_of_nat t) =
      Some (if t + (u - l + 1) < 2 ^ 63 then Continue (word_of_nat (t + (u - l + 1))) else Return None)"
    if b: "l \<le> u" "u < 2 ^ n" and t: "t < 2 ^ 63" for l u t
  proof -
    let ?k = "u - l + 1"
    have lt: "l < 2 ^ n" using b by simp
    have k: "Interval_Size bn (ivl n l u) = Some (if ?k < 2 ^ 63 then Some (word_of_nat ?k) else None)"
      using Size_ivl[OF lt b(2)] card_wrap_points[OF lt b(2)] b(1) by (simp only: if_True)
    have sum: "int t + int ?k = sint (word_of_int (int t + int ?k) :: 64 word) \<longleftrightarrow> t + ?k < 2 ^ 63"
      using sint_of_take_bit[of "t + ?k"] sint_lt[of "word_of_nat (t + ?k) :: 64 word"]
      by (simp only: of_nat_add[symmetric] of_int_of_nat_eq) auto
    show ?thesis using sint_of_take_bit[OF t] sint_of_take_bit[of ?k] sum
      by (cases "?k < 2 ^ 63") (simp_all only: f_def k Option.bind_lunit if_True if_False option.case Let_def of_nat_add[symmetric] of_int_of_nat_eq, simp)
  qed
  have "loop f (ivs n ps) (word_of_nat t) =
      Some (if t + length (enum_pairs ps) < 2 ^ 63 then Continue (word_of_nat (t + length (enum_pairs ps))) else Return None)"
    if "t < 2 ^ 63" for t
    using assms that
  proof (induction ps arbitrary: t)
    case (Cons p ps)
    obtain l u where p: "p = (l, u)" by (cases p)
    have b: "l \<le> u" "u < 2 ^ n" "norm n ps" using Cons.prems(1) by (auto simp: p norm_Cons)
    have len: "length (enum_pairs (p # ps)) = (u - l + 1) + length (enum_pairs ps)" using b(1) by (simp add: p)
    show ?case using Cons.IH[OF b(3), of "t + (u - l + 1)"] step[OF b(1,2) Cons.prems(2)]
      unfolding len by (simp add: p add.assoc)
  qed simp
  from this[of 0] show ?thesis unfolding IntervalSet_Size_def f_def[symmetric] by simp
qed

end

section \<open>Membership, masks, equality\<close>

lemma any_interval_ivs:
  assumes "\<And>l u. (l, u) \<in> set ps \<Longrightarrow> f (ivl n l u) = Some (P l u)"
  shows "any_interval f \<lparr>is_normalized = b, set_bit_count = m, intervals = ivs n ps\<rparr> = Some (\<exists>(l, u)\<in>set ps. P l u)"
proof -
  have "loop (\<lambda>i _. do { c \<leftarrow> f i; Some (if c then Return True else Continue ()) }) (ivs n ps) () =
      Some (if \<exists>(l, u)\<in>set ps. P l u then Return True else Continue ())"
    using assms by (induction ps) auto
  then show ?thesis by (simp add: any_interval_def)
qed

lemma Covers_ivs:
  assumes "in_range n ps" "p < 2 ^ n"
  shows "IntervalSet_Covers \<lparr>is_normalized = b, set_bit_count = int n, intervals = ivs n ps\<rparr> (mkBitmap n p) = Some (p \<in> pts n ps)"
proof -
  have "Interval_Covers (ivl n l u) (mkBitmap n p) = Some (p \<in> wrap_points n l u)" if "(l, u) \<in> set ps" for l u
    using that assms Covers_ivl[of l n u p] by (auto simp: in_range_def)
  then show ?thesis using any_interval_ivs[of ps "\<lambda>i. Interval_Covers i (mkBitmap n p)" n "\<lambda>l u. p \<in> wrap_points n l u"]
    by (auto simp: IntervalSet_Covers_def pts_def)
qed

lemma IsTrueWhenMaskWith_nset:
  assumes "norm n ps" "v < 2 ^ n"
  shows "IsTrueWhenMaskWith (nset n ps) (mkBitmap n v) = Some (\<exists>x\<in>pts n ps. x AND v \<noteq> 0)"
proof -
  have "Interval_IsTrueWhenAndWith (ivl n l u) (mkBitmap n v) = Some (\<exists>x\<in>{l..u}. x AND v \<noteq> 0)" if "(l, u) \<in> set ps" for l u
    using that assms IsTrueWhenAndWith_ivl[of l u n v] by (auto simp: norm_def)
  then show ?thesis unfolding norm_pts[OF assms(1)]
    using any_interval_ivs[of ps "\<lambda>i. Interval_IsTrueWhenAndWith i (mkBitmap n v)" n "\<lambda>l u. \<exists>x\<in>{l..u}. x AND v \<noteq> 0"]
    by (auto simp: IsTrueWhenMaskWith_def)
qed

lemma eq_loop_ivs:
  "in_range n ps \<Longrightarrow> in_range n qs \<Longrightarrow> length ps = length qs \<Longrightarrow>
   loop (\<lambda>(x, y) _. do { e \<leftarrow> Interval_eq x y; Some (if e then Continue () else Return False) }) (zip (ivs n ps) (ivs n qs)) () =
     Some (if ps = qs then Continue () else Return False)"
proof (induction ps arbitrary: qs)
  case (Cons p ps)
  obtain q qs' where "qs = q # qs'" using Cons.prems(3) by (cases qs) auto
  then show ?case using Cons.IH[of qs'] Cons.prems by (cases p; cases q) (auto simp: cmp_ivl)
qed simp

lemma IntervalSet_eq_nset:
  assumes "norm n ps" "norm n qs"
  shows "IntervalSet_eq (nset n ps) (nset n qs) = Some (pts n ps = pts n qs)"
proof -
  have "pts n ps = pts n qs \<longleftrightarrow> ps = qs" using norm_unique[OF assms] by blast
  then show ?thesis using eq_loop_ivs[OF assms[THEN norm_in_range]] by (auto simp: IntervalSet_eq_def Normalize_def)
qed

lemma IntervalSet_eq_Normalize:
  assumes "Normalize a = Some x" "Normalize b = Some y"
  shows "IntervalSet_eq a b = IntervalSet_eq x y"
proof -
  have "is_normalized t" if "Normalize s = Some t" for s t
    using that by (auto simp: Normalize_def split: if_splits Option.bind_splits prod.splits)
  from this[OF assms(1)] this[OF assms(2)] have "Normalize x = Some x" "Normalize y = Some y" by (simp_all add: Normalize_def)
  then show ?thesis using assms by (simp add: IntervalSet_eq_def)
qed

section \<open>The test of the normal form\<close>

lemma adjacent_pairs_ivs: "adjacent_pairs (ivs n ps) = map (\<lambda>((l, u), (l', u')). (ivl n l u, ivl n l' u')) (adjacent_pairs ps)"
proof (induction ps)
  case (Cons p ps)
  then show ?case by (cases p; cases ps) auto
qed simp

lemma norm_adjacent: "norm n ps \<Longrightarrow> ((l, u), (l', u')) \<in> set (adjacent_pairs ps) \<Longrightarrow>
    l \<le> u \<and> u < 2 ^ n \<and> u + 1 < l' \<and> l' \<le> u' \<and> u' < 2 ^ n"
proof (induction ps)
  case (Cons p ps)
  then show ?case by (cases p; cases ps) (auto simp: norm_Cons)
qed simp

lemma mapM_all_false:
  "(\<And>x. x \<in> set xs \<Longrightarrow> f x = Some False) \<Longrightarrow> map_option (list_all (\<lambda>b. \<not> b)) (mapM f xs) = Some True"
  by (simp add: mapM_pure[where g = "\<lambda>_. False"] list_all_iff)

lemma CheckIsNormalized_nset:
  assumes "norm n ps"
  shows "CheckIsNormalizedForTesting (nset n ps) = Some (Inr ())"
proof -
  let ?as = "adjacent_pairs (ivs n ps)"
  have 1: "map_option (list_all (\<lambda>b. \<not> b)) (mapM (\<lambda>(x, y). Interval_less y x) ?as) = Some True"
    by (rule mapM_all_false) (auto simp: adjacent_pairs_ivs cmp_ivl dest!: norm_adjacent[OF assms])
  have 2: "map_option (list_all (\<lambda>b. \<not> b)) (mapM IsImproper (ivs n ps)) = Some True"
    by (rule mapM_all_false) (use assms in \<open>fastforce simp: norm_def IsImproper_ivl\<close>)
  have 3: "map_option (list_all (\<lambda>k. k = n)) (mapM Interval_BitCount (ivs n ps)) = Some True"
    by (subst mapM_pure[where g = "\<lambda>_. n"]) (auto simp: BitCount_ivl list_all_iff)
  have 4: "foldr (\<lambda>(x, y) k. ret_check (map_option (\<lambda>b. \<not> b) (Interval_Overlaps x y))
              (ret_check (map_option (\<lambda>b. \<not> b) (Interval_Abuts x y)) k)) xs (Some (Inr ())) = Some (Inr ())"
    if "set xs \<subseteq> set ?as" for xs
    using that
  proof (induction xs)
    case (Cons q xs)
    then obtain l u l' u' where q: "q = (ivl n l u, ivl n l' u')" "((l, u), (l', u')) \<in> set (adjacent_pairs ps)"
      by (auto simp: adjacent_pairs_ivs)
    note b = norm_adjacent[OF assms q(2)]
    show ?case using Cons b binary_ivl(1,3)[of l u n l' u'] by (simp add: q(1) ret_check_def)
  qed simp
  show ?thesis using 4[of ?as] by (simp add: CheckIsNormalizedForTesting_def 1 2 3 ret_check_def)
qed

section \<open>Signed iteration\<close>

text \<open>The intervals cut between the largest and the smallest signed value.\<close>

definition cut_signed :: "nat \<Rightarrow> (nat \<times> nat) list \<Rightarrow> (nat \<times> nat) list" where
  "cut_signed h ps = concat (map (\<lambda>(l, u). if l < h \<and> h \<le> u then [(l, h - 1), (h, u)] else [(l, u)]) ps)"

lemma cut_signed_simps [simp]:
  "cut_signed h [] = []"
  "cut_signed h ((l, u) # ps) = (if l < h \<and> h \<le> u then [(l, h - 1), (h, u)] else [(l, u)]) @ cut_signed h ps"
  by (simp_all add: cut_signed_def)

abbreviation sit :: "nat \<Rightarrow> (nat \<times> nat) list \<Rightarrow> bool \<Rightarrow> SignedIntervalIterator" where
  "sit n ps neg \<equiv> \<lparr>signed_cur = ivs n ps, in_negatives = neg\<rparr>"

lemma half_exp: "0 < n \<Longrightarrow> (2::nat) ^ n = 2 * 2 ^ (n - 1)"
  by (cases n) simp_all

lemma InSplit_ivs:
  assumes "0 < n" "l \<le> u" "u < 2 ^ n"
  shows "InSplit (sit n ((l, u) # ps) neg) = Some (l < 2 ^ (n - 1) \<and> 2 ^ (n - 1) \<le> u)"
proof -
  have b: "l < 2 ^ n" "2 ^ (n - 1) < (2::nat) ^ n" "2 ^ (n - 1) - 1 < (2::nat) ^ n" "0 < (2::nat) ^ (n - 1)"
    using assms half_exp[OF assms(1)] by auto
  have w: "wrap_points n l u = {l..u}" using assms(2) by (simp add: wrap_points_def)
  have "(2 ^ (n - 1) \<in> {l..u} \<and> 2 ^ (n - 1) - 1 \<in> {l..u}) = (l < 2 ^ (n - 1) \<and> 2 ^ (n - 1) \<le> u)"
    by (simp only: atLeastAtMost_iff le_pred_exp) linarith
  then show ?thesis using Covers_ivl[OF b(1) assms(3) b(2)] Covers_ivl[OF b(1) assms(3) b(3)] assms(1)
    by (simp add: InSplit_def BitCount_ivl MinSigned_mk MaxSigned_mk mask_nat w del: One_nat_def) blast
qed

lemma signed_loop_run:
  assumes "0 < n" "norm n ps" "neg \<longrightarrow> (\<forall>(l, u)\<in>set ps. 2 ^ (n - 1) \<le> l)"
  shows "signed_loop (sit n ps neg) \<lparr>signed_cur = [], in_negatives = True\<rparr> = Some (ivs n (cut_signed (2 ^ (n - 1)) ps))"
  using assms(2,3)
proof (induction ps arbitrary: neg)
  case Nil
  then show ?case by (subst signed_loop.simps) (simp add: SignedIntervalIterator_eq_def InSplit_def)
next
  case (Cons p ps)
  obtain l u where p: "p = (l, u)" by (cases p)
  let ?h = "2 ^ (n - 1) :: nat" and ?e = "\<lparr>signed_cur = [], in_negatives = True\<rparr>"
  have lu: "l \<le> u" "u < 2 ^ n" "norm n ps" using Cons.prems by (auto simp: p norm_Cons)
  note split = InSplit_ivs[OF assms(1) lu(1,2), unfolded list.map prod.case]
  have ne: "SignedIntervalIterator_eq (sit n ((l, u) # ps) b) ?e = Some False" for b
    by (simp add: SignedIntervalIterator_eq_def split) (simp add: InSplit_def)
  have next_neg: "signed_loop (sit n ps b) ?e = Some (ivs n (cut_signed ?h ps))" if "b \<longrightarrow> neg \<or> ?h \<le> u" for b
  proof (rule Cons.IH[OF lu(3)], intro impI)
    assume b
    then have "neg \<or> ?h \<le> u" by (rule that[rule_format])
    then show "\<forall>(l', u')\<in>set ps. ?h \<le> l'"
      using Cons.prems by (fastforce simp: p norm_Cons)
  qed
  show ?case
  proof (cases "l < ?h \<and> ?h \<le> u")
    case False
    then have no: "(l < ?h \<and> ?h \<le> u) = False" by blast
    have "cut_signed ?h (p # ps) = (l, u) # cut_signed ?h ps" by (simp only: p cut_signed_simps no if_False append.simps)
    then show ?thesis using ne[of neg] next_neg[of neg]
      by (subst signed_loop.simps)
        (simp add: p split[unfolded no] SignedIntervalIterator_deref_def SignedIntervalIterator_next_def Let_def)
  next
    case True
    then have neg: "\<not> neg" using Cons.prems(2) by (auto simp: p)
    have snd: "signed_loop (sit n ((l, u) # ps) True) ?e = Some (ivl n ?h u # ivs n (cut_signed ?h ps))"
      using True ne[of True] next_neg[of True] assms(1)
      by (subst signed_loop.simps)
        (simp add: split SignedIntervalIterator_deref_def SignedIntervalIterator_next_def Let_def BitCount_ivl MinSigned_mk mkInterval_mk)
    show ?thesis using True neg ne[of False] snd assms(1)
      by (subst signed_loop.simps)
        (simp add: p split SignedIntervalIterator_deref_def SignedIntervalIterator_next_def Let_def BitCount_ivl MaxSigned_mk mask_nat mkInterval_mk)
  qed
qed

lemma all_signed_nset: "0 < n \<Longrightarrow> norm n ps \<Longrightarrow> all_signed_intervals (nset n ps) = Some (ivs n (cut_signed (2 ^ (n - 1)) ps))"
  using signed_loop_run[of n ps False] by (simp add: all_signed_intervals_def SignedIntervals_def)

lemma length_cut_signed:
  "norm n ps \<Longrightarrow> 0 < h \<Longrightarrow> length (cut_signed h ps) = length ps + (if h - 1 \<in> pts n ps \<and> h \<in> pts n ps then 1 else 0)"
proof (induction ps)
  case (Cons p ps)
  obtain l u where p: "p = (l, u)" by (cases p)
  have "norm n ((l, u) # ps)" using Cons.prems(1) p by simp
  note c = norm_pts_Cons[OF this] and a = norm_above[OF this]
  show ?case using Cons a[of h] a[of "h - 1"] norm_tl[OF Cons.prems(1)] unfolding p c by (auto simp: p norm_Cons)
qed simp

lemma NumberOfSigned_nset:
  assumes "0 < n" "norm n ps"
  shows "NumberOfSignedIntervals (nset n ps) = Some (length (cut_signed (2 ^ (n - 1)) ps))"
proof -
  have b: "2 ^ (n - 1) < (2::nat) ^ n" "2 ^ (n - 1) - 1 < (2::nat) ^ n" "0 < (2::nat) ^ (n - 1)"
    using half_exp[OF assms(1)] zero_less_power[of "2::nat" "n - 1"] by linarith+
  note cov = Covers_ivs[OF norm_in_range[OF assms(2)]]
  show ?thesis using cov[OF b(1)] cov[OF b(2)] length_cut_signed[OF assms(2) b(3)] assms(1)
    by (simp add: NumberOfSignedIntervals_def MinSigned_mk MaxSigned_mk mask_nat NumberOfIntervals_def)
qed

lemma cut_signed_correct:
  assumes "norm n ps" "0 < h"
  shows "(\<Union>(l, u)\<in>set (cut_signed h ps). {l..u}) = pts n ps"
    "\<forall>(l, u)\<in>set (cut_signed h ps). l \<le> u \<and> u < 2 ^ n \<and> (u < h \<or> h \<le> l)"
    "sorted_wrt (\<lambda>(l, u) (l', u'). u < l') (cut_signed h ps)"
proof -
  have pts: "norm n qs \<Longrightarrow> (\<Union>(l, u)\<in>set (cut_signed h qs). {l..u}) = pts n qs" for qs
  proof (induction qs)
    case (Cons p qs)
    obtain l u where p: "p = (l, u)" by (cases p)
    have "{l..h - 1} \<union> {h..u} = {l..u}" if "l < h" "h \<le> u" using that by auto
    then show ?case using Cons norm_tl[OF Cons.prems] norm_pts_Cons[of n l u qs] by (auto simp: p simp del: pts_simps)
  qed simp
  show "(\<Union>(l, u)\<in>set (cut_signed h ps). {l..u}) = pts n ps" by (rule pts[OF assms(1)])
  have bnd: "norm n qs \<Longrightarrow> \<forall>(l, u)\<in>set (cut_signed h qs). l \<le> u \<and> u < 2 ^ n \<and> (u < h \<or> h \<le> l)" for qs
  proof (induction qs)
    case (Cons p qs)
    obtain l u where p: "p = (l, u)" by (cases p)
    show ?case using Cons.IH[OF norm_tl[OF Cons.prems]] Cons.prems assms(2)
      by (cases "l < h \<and> h \<le> u") (simp_all add: p norm_Cons, linarith+)
  qed simp
  show "\<forall>(l, u)\<in>set (cut_signed h ps). l \<le> u \<and> u < 2 ^ n \<and> (u < h \<or> h \<le> l)" by (rule bnd[OF assms(1)])
  show "sorted_wrt (\<lambda>(l, u) (l', u'). u < l') (cut_signed h ps)"
    using assms(1)
  proof (induction ps)
    case (Cons p ps)
    obtain l u where p: "p = (l, u)" by (cases p)
    have n: "norm n ps" "norm n ((l, u) # ps)" using Cons.prems norm_tl p by auto
    have "u < l'" if "(l', u') \<in> set (cut_signed h ps)" for l' u'
    proof -
      have "l' \<in> pts n ps" using that bnd[OF n(1)] unfolding pts[OF n(1), symmetric] by fastforce
      then show ?thesis using norm_above[OF n(2)] by fastforce
    qed
    then show ?case using Cons.IH[OF n(1)] assms(2) by (fastforce simp: p)
  qed simp
qed

end
