(* ===== verification/Interval_Set_Reach.thy ===== *)
theory Interval_Set_Reach
  imports Interval_Set_Values
begin

text \<open>
  The states an \<^verbatim>\<open>IntervalSet\<close> can reach through its public methods, and the operations on sets
  that need not be normalized. A set with a width that is not normalized has at least one interval:
  only \<^verbatim>\<open>AddInterval\<close> and \<^verbatim>\<open>SetIntervals\<close> clear the flag.
\<close>

definition set_ok :: "nat \<Rightarrow> IntervalSet \<Rightarrow> bool" where
  "set_ok n s = (wf_set n s \<and> (is_normalized s \<or> intervals s \<noteq> []))"

lemma set_okE:
  assumes "set_ok n s"
  obtains ps where "s = \<lparr>is_normalized = is_normalized s, set_bit_count = int n, intervals = ivs n ps\<rparr>"
    "in_range n ps" "is_normalized s \<Longrightarrow> norm n ps" "ps \<noteq> [] \<or> is_normalized s"
proof -
  obtain ps where ps: "s = \<lparr>is_normalized = is_normalized s, set_bit_count = int n, intervals = ivs n ps\<rparr>"
      "in_range n ps" "is_normalized s \<Longrightarrow> norm n ps"
    using assms wf_setE unfolding set_ok_def by blast
  have "intervals s = ivs n ps" using ps(1) by (metis IntervalSet.select_convs(3))
  then have "ps \<noteq> [] \<or> is_normalized s" using assms by (auto simp: set_ok_def)
  then show ?thesis using that ps by blast
qed

lemma norm_set_ok: "norm_set n s \<Longrightarrow> set_ok n s"
  by (simp add: norm_set_def set_ok_def)

lemma set_ok_norm: "set_ok n s \<Longrightarrow> is_normalized s \<Longrightarrow> norm_set n s"
  by (simp add: norm_set_def set_ok_def)

lemma Normalize_ok:
  assumes "set_ok n s"
  shows "\<exists>t. Normalize s = Some t \<and> norm_set n t \<and> set_points t = set_points s"
proof -
  obtain ps where ps: "s = \<lparr>is_normalized = is_normalized s, set_bit_count = int n, intervals = ivs n ps\<rparr>"
      "in_range n ps" "is_normalized s \<Longrightarrow> norm n ps" "ps \<noteq> [] \<or> is_normalized s"
    by (rule set_okE[OF assms]) blast
  obtain qs where qs: "Normalize s = Some (nset n qs)" "norm n qs" "pts n qs = pts n ps"
    using Normalize_any[OF ps(2,4,3)] ps(1) by metis
  have "set_points s = pts n ps" using set_points_ivs[OF ps(2)] ps(1) by metis
  then show ?thesis using qs norm_set_nset set_points_nset by blast
qed

lemma wf_set_BitCount: "wf_set n s \<Longrightarrow> IntervalSet_BitCount s = Some n"
  by (simp add: wf_set_def IntervalSet_BitCount_def)

lemma Normalize_idle: "is_normalized s \<Longrightarrow> Normalize s = Some s"
  by (simp add: Normalize_def)

lemma Combine_Normalize:
  assumes "set_ok n a" "set_ok n b" "Normalize a = Some x" "Normalize b = Some y"
  shows "Combine a b = Combine x y"
proof -
  have "norm_set n x" "norm_set n y" using Normalize_ok assms by force+
  then have "is_normalized x" "is_normalized y" "wf_set n x" "wf_set n y" by (auto simp: norm_set_def)
  moreover have "wf_set n a" "wf_set n b" using assms by (simp_all add: set_ok_def)
  ultimately show ?thesis using assms(3,4) Normalize_idle[of a] Normalize_idle[of b]
    by (auto simp: Combine_def wf_set_BitCount)
qed

lemma Combine_ok:
  assumes "set_ok n a" "set_ok n b"
  shows "\<exists>c. Combine a b = Some c \<and> norm_set n c \<and> set_points c = set_points a \<union> set_points b"
proof -
  obtain x where x: "Normalize a = Some x" "norm_set n x" "set_points x = set_points a" using Normalize_ok[OF assms(1)] by blast
  obtain y where y: "Normalize b = Some y" "norm_set n y" "set_points y = set_points b" using Normalize_ok[OF assms(2)] by blast
  show ?thesis using iset.union_ok[OF x(2) y(2)] Combine_Normalize[OF assms x(1) y(1)] x(3) y(3) by simp
qed

lemma eq_ok:
  assumes "set_ok n a" "set_ok n b"
  shows "IntervalSet_eq a b = Some (set_points a = set_points b)"
proof -
  obtain x where x: "Normalize a = Some x" "norm_set n x" "set_points x = set_points a" using Normalize_ok[OF assms(1)] by blast
  obtain y where y: "Normalize b = Some y" "norm_set n y" "set_points y = set_points b" using Normalize_ok[OF assms(2)] by blast
  obtain ps where ps: "x = nset n ps" "norm n ps" using norm_setE[OF x(2)] .
  obtain qs where qs: "y = nset n qs" "norm n qs" using norm_setE[OF y(2)] .
  have "IntervalSet_eq a b = IntervalSet_eq x y" by (rule IntervalSet_eq_Normalize[OF x(1) y(1)])
  also have "\<dots> = Some (set_points x = set_points y)"
    unfolding ps(1) qs(1) set_points_nset[OF ps(2)] set_points_nset[OF qs(2)] by (rule IntervalSet_eq_nset[OF ps(2) qs(2)])
  finally show ?thesis unfolding x(3) y(3) .
qed

section \<open>Adding intervals\<close>

lemma AddInterval_ok:
  assumes "wf_set n s" "wf_interval i"
  shows "AddInterval s i = (if interval_width i = n then Some (s\<lparr>is_normalized := False, intervals := intervals s @ [i]\<rparr>) else None)"
    "interval_width i = n \<Longrightarrow> set_ok n (s\<lparr>is_normalized := False, intervals := intervals s @ [i]\<rparr>)"
    "set_points (s\<lparr>is_normalized := False, intervals := intervals s @ [i]\<rparr>) = set_points s \<union> points i"
proof -
  have "Interval_BitCount i = Some (interval_width i)"
    using assms(2) by (simp add: Interval_BitCount_def wf_interval_def interval_width_def)
  then show "AddInterval s i = (if interval_width i = n then Some (s\<lparr>is_normalized := False, intervals := intervals s @ [i]\<rparr>) else None)"
    by (simp add: AddInterval_def wf_set_BitCount[OF assms(1)] CHECK_def)
qed (use assms in \<open>auto simp: set_ok_def wf_set_def set_points_def\<close>)

lemma add_all_ok:
  "wf_set n s \<Longrightarrow> \<forall>i\<in>set is. wf_interval i \<and> interval_width i = n \<Longrightarrow> is \<noteq> [] \<or> set_ok n s \<Longrightarrow>
   \<exists>t. foldM (\<lambda>i s. AddInterval s i) is s = Some t \<and> set_ok n t \<and> set_points t = set_points s \<union> (\<Union>i\<in>set is. points i)"
proof (induction "is" arbitrary: s)
  case (Cons i "is")
  let ?s = "s\<lparr>is_normalized := False, intervals := intervals s @ [i]\<rparr>"
  have ok: "set_ok n ?s" "AddInterval s i = Some ?s" "set_points ?s = set_points s \<union> points i"
    using AddInterval_ok[OF Cons.prems(1), of i] Cons.prems(2) by simp_all
  then obtain t where "foldM (\<lambda>i s. AddInterval s i) is ?s = Some t" "set_ok n t"
      "set_points t = set_points ?s \<union> (\<Union>i\<in>set is. points i)"
    using Cons.IH[of ?s] Cons.prems(2) by (auto simp: set_ok_def)
  then show ?case using ok by (auto simp: Un_assoc)
qed simp

lemma SetIntervals_ok:
  assumes "is \<noteq> []" "\<forall>i\<in>set is. wf_interval i \<and> interval_width i = n"
  shows "\<exists>t. SetIntervals s is = Some t \<and> set_ok n t \<and> set_points t = (\<Union>i\<in>set is. points i)"
proof -
  obtain i js where is_eq: "is = i # js" using assms(1) by (cases "is") auto
  then have "Interval_BitCount i = Some n" using assms(2)
    by (auto simp: Interval_BitCount_def wf_interval_def interval_width_def)
  moreover have "wf_set n (s\<lparr>is_normalized := False, intervals := [], set_bit_count := int n\<rparr>)" by (simp add: wf_set_def)
  ultimately show ?thesis using add_all_ok[of n "s\<lparr>is_normalized := False, intervals := [], set_bit_count := int n\<rparr>" "is"] assms
    by (simp add: SetIntervals_def is_eq set_points_def)
qed

lemma wf_of_width [simp]: "norm_set n (IntervalSet_of_width (int n))" "set_points (IntervalSet_of_width (int n)) = {}"
  by (simp_all add: norm_set_def wf_set_def IntervalSet_of_width_def set_points_def)

lemma Of_ok:
  assumes "is \<noteq> []" "\<forall>i\<in>set is. wf_interval i \<and> interval_width i = n"
  shows "\<exists>t. IntervalSet_Of is = Some t \<and> norm_set n t \<and> set_points t = (\<Union>i\<in>set is. points i)"
proof -
  obtain i js where is_eq: "is = i # js" using assms(1) by (cases "is") auto
  then have bc: "Interval_BitCount i = Some n" using assms(2)
    by (auto simp: Interval_BitCount_def wf_interval_def interval_width_def)
  obtain t where t: "foldM (\<lambda>i s. AddInterval s i) is (IntervalSet_of_width (int n)) = Some t" "set_ok n t"
      "set_points t = (\<Union>i\<in>set is. points i)"
    using add_all_ok[of n "IntervalSet_of_width (int n)" "is"] assms wf_of_width[of n] by (auto simp: norm_set_def)
  have "IntervalSet_Of is = Normalize t"
    using t(1) unfolding IntervalSet_Of_def is_eq by (simp only: list.case bc Option.bind_lunit)
  then show ?thesis using Normalize_ok[OF t(2)] t(3) by simp
qed

section \<open>The factories\<close>

lemma of_width_nset: "IntervalSet_of_width (int n) = nset n []"
  by (simp add: IntervalSet_of_width_def)

lemma AddInterval_of_width [simp]:
  "AddInterval (IntervalSet_of_width (int n)) (ivl n l u) =
     Some \<lparr>is_normalized = False, set_bit_count = int n, intervals = ivs n [(l, u)]\<rparr>"
  unfolding of_width_nset AddInterval_ivs by simp

lemma Maximal_ok: "\<exists>s. IntervalSet_Maximal n = Some s \<and> norm_set n s \<and> set_points s = {..<2 ^ n}"
proof -
  have "IntervalSet_Maximal n = Some (nset n [(0, 2 ^ n - 1)])" by (simp add: IntervalSet_Maximal_def ivl_rules)
  then show ?thesis using maximal_norm[of n] norm_set_nset set_points_nset by metis
qed

lemma NonZero_ok: "0 < n \<Longrightarrow> \<exists>s. IntervalSet_NonZero (int n) = Some s \<and> norm_set n s \<and> set_points s = {0<..<2 ^ n}"
proof -
  assume "0 < n"
  then have "1 < (2::nat) ^ n" by (rule one_less_power[rotated]) simp
  then have "norm n [(1, 2 ^ n - 1)]" by (simp add: norm_Cons)
  moreover have "IntervalSet_NonZero (int n) = Some (nset n [(1, 2 ^ n - 1)])"
    using \<open>1 < 2 ^ n\<close> UBits_mk[of 1 n] by (simp add: IntervalSet_NonZero_def AllOnes_mk mask_nat ivl_rules)
  moreover have "pts n [(1, 2 ^ n - 1)] = {0<..<2 ^ n}" using \<open>1 < 2 ^ n\<close> by (auto simp: wrap_points_def)
  ultimately show ?thesis using norm_set_nset set_points_nset by metis
qed

lemma Precise_ok: "v < 2 ^ n \<Longrightarrow> \<exists>s. IntervalSet_Precise (mkBitmap n v) = Some s \<and> norm_set n s \<and> set_points s = {v}"
proof -
  assume "v < 2 ^ n"
  then have "norm n [(v, v)]" "pts n [(v, v)] = {v}" by (simp_all add: norm_Cons wrap_points_def)
  moreover have "IntervalSet_Precise (mkBitmap n v) = Some (nset n [(v, v)])"
    by (simp add: IntervalSet_Precise_def Interval_Precise_def ivl_rules)
  ultimately show ?thesis using norm_set_nset set_points_nset by metis
qed

lemma Punctured_ok:
  assumes "v < 2 ^ n"
  shows "\<exists>s. IntervalSet_Punctured (mkBitmap n v) = Some s \<and> norm_set n s \<and> set_points s = {..<2 ^ n} - {v}"
proof -
  let ?ps = "(if v = 0 then [] else [(0, v - 1)]) @ (if v = 2 ^ n - 1 then [] else [(v + 1, 2 ^ n - 1)])"
  have "norm n ?ps" using assms by (auto simp: norm_def)
  moreover have "pts n ?ps = {..<2 ^ n} - {v}" using assms by (auto simp: wrap_points_def split: if_splits)
  moreover have "IntervalSet_Punctured (mkBitmap n v) = Some (nset n ?ps)"
    using assms AddInterval_ivs[of False n "[(0, v - 1)]" "v + 1" "2 ^ n - 1"]
    by (auto simp: IntervalSet_Punctured_def IsZero_mk Bits_IsAllOnes_mk Bits_mk AllOnes_mk take_bit_nat_eq_self mask_nat ivl_rules)
      (auto simp: of_width_nset)
  ultimately show ?thesis using norm_set_nset set_points_nset by metis
qed

section \<open>Derived sets\<close>

lemma wf_set_cases: "wf_set n s \<Longrightarrow> i \<in> set (intervals s) \<Longrightarrow> \<exists>l u. i = ivl n l u \<and> l < 2 ^ n \<and> u < 2 ^ n"
  using wf_intervalE unfolding wf_set_def by metis

lemma add_image_ok:
  assumes "norm n ps" "\<And>l u. (l, u) \<in> set ps \<Longrightarrow> f (ivl n l u) = Some (g (l, u)) \<and> wf_interval (g (l, u)) \<and>
      interval_width (g (l, u)) = m \<and> points (g (l, u)) = h ` {l..u}"
  shows "\<exists>t r. foldM (\<lambda>i r. do { j \<leftarrow> f i; AddInterval r j }) (ivs n ps) (IntervalSet_of_width (int m)) = Some t \<and>
     Normalize t = Some r \<and> norm_set m r \<and> set_points r = h ` pts n ps"
proof -
  let ?js = "map g ps"
  have fold: "foldM (\<lambda>i r. do { j \<leftarrow> f i; AddInterval r j }) (ivs n ps) s = foldM (\<lambda>j r. AddInterval r j) ?js s" for s
    using assms(2)
  proof (induction ps arbitrary: s)
    case (Cons p ps)
    then have "f (ivl n (fst p) (snd p)) = Some (g p)" by (metis list.set_intros(1) prod.collapse)
    moreover have "foldM (\<lambda>i r. do { j \<leftarrow> f i; AddInterval r j }) (ivs n ps) = foldM (\<lambda>j r. AddInterval r j) (map g ps)"
      using Cons by (intro ext) simp
    ultimately show ?case by (simp add: case_prod_unfold)
  qed simp
  have "\<forall>j\<in>set ?js. wf_interval j \<and> interval_width j = m" using assms(2) by force
  moreover have "wf_set m (IntervalSet_of_width (int m))" "set_ok m (IntervalSet_of_width (int m))"
    using wf_of_width(1)[of m] norm_set_ok by (auto simp: norm_set_def)
  ultimately obtain t where t: "foldM (\<lambda>j r. AddInterval r j) ?js (IntervalSet_of_width (int m)) = Some t" "set_ok m t"
      "set_points t = (\<Union>j\<in>set ?js. points j)"
    using add_all_ok[of m "IntervalSet_of_width (int m)" ?js] by auto
  have "(\<Union>j\<in>set ?js. points j) = h ` pts n ps"
    unfolding norm_pts[OF assms(1)] image_UN using assms(2) by (auto intro!: SUP_cong)
  then show ?thesis using Normalize_ok[OF t(2)] t fold by auto
qed

lemma ZeroExtend_ok:
  assumes "norm_set n s" "n \<le> m"
  shows "\<exists>t. IntervalSet_ZeroExtend s m = Some t \<and> norm_set m t \<and> set_points t = set_points s"
proof -
  obtain ps where ps: "s = nset n ps" "norm n ps" using norm_setE[OF assms(1)] .
  have mono: "(2::nat) ^ n \<le> 2 ^ m" using assms(2) by simp
  have "Interval_ZeroExtend (ivl n l u) m = Some (ivl m l u) \<and> wf_interval (ivl m l u) \<and>
      interval_width (ivl m l u) = m \<and> points (ivl m l u) = id ` {l..u}" if "(l, u) \<in> set ps" for l u
  proof -
    have b: "l \<le> u" "u < 2 ^ n" "l < 2 ^ n" using that ps(2) by (auto simp: norm_def)
    then have "l < 2 ^ m" "u < 2 ^ m" using mono by linarith+
    then show ?thesis using ZeroExtend_ivl[OF b(3,2) assms(2)] b(1) by (simp add: points_ivl wrap_points_def)
  qed
  then obtain t r where "foldM (\<lambda>i r. do { j \<leftarrow> Interval_ZeroExtend i m; AddInterval r j }) (ivs n ps) (IntervalSet_of_width (int m)) = Some t"
     "Normalize t = Some r" "norm_set m r" "set_points r = id ` pts n ps"
    using add_image_ok[OF ps(2), of "\<lambda>i. Interval_ZeroExtend i m" "\<lambda>(l, u). ivl m l u" m id] by auto
  then show ?thesis using assms(2) by (simp add: IntervalSet_ZeroExtend_def ps(1) set_points_nset[OF ps(2)])
qed

lemma intersect_range:
  assumes "norm_set n s" "l \<le> u" "u < 2 ^ n"
  shows "\<exists>r t. IntervalSet_Of [ivl n l u] = Some r \<and> IntervalSet_Intersect s r = Some t \<and> norm_set n t \<and>
    set_points t = {x\<in>set_points s. l \<le> x \<and> x \<le> u}"
proof -
  obtain r where r: "IntervalSet_Of [ivl n l u] = Some r" "norm_set n r" "set_points r = points (ivl n l u)"
    using Of_ok[of "[ivl n l u]" n] by auto
  have "points (ivl n l u) = {l..u}" using assms(2,3) by (simp add: points_ivl wrap_points_def)
  then have "set_points s \<inter> set_points r = {x\<in>set_points s. l \<le> x \<and> x \<le> u}" using r(3) by auto
  then show ?thesis using iset.inter_ok[OF assms(1) r(2)] r(1) by auto
qed

lemma PositiveIntervals_ok:
  assumes "norm_set n s"
  shows "\<exists>t. PositiveIntervals s with_zero = Some t \<and> norm_set n t \<and>
    set_points t = (if n = 0 then {} else {x\<in>set_points s. x < 2 ^ (n - 1) \<and> (with_zero \<or> 0 < x)})"
proof -
  have s: "is_normalized s" "set_bit_count s = int n" using assms by (auto simp: norm_set_def wf_set_def)
  show ?thesis
  proof (cases "n = 0 \<or> n = 1 \<and> \<not> with_zero")
    case True
    then show ?thesis using s wf_of_width[of n] by (auto simp: PositiveIntervals_def)
  next
    case False
    let ?l = "if with_zero then 0 else 1 :: nat"
    have "(2::nat) ^ (n - 1) \<le> 2 ^ n" by (intro power_increasing) auto
    then have n: "(2::nat) ^ (n - 1) - 1 < 2 ^ n" using zero_less_power[of "2::nat" "n - 1"] by linarith
    have le: "?l \<le> 2 ^ (n - 1) - 1"
    proof (cases with_zero)
      case f: False
      then have "1 < (2::nat) ^ (n - 1)" using False by (intro one_less_power) auto
      then show ?thesis using f by simp
    qed simp
    have "1 < (2::nat) ^ n" using False by (intro one_less_power) auto
    then have "UBits (if with_zero then 0 else 1) n = Some (mkBitmap n ?l)" using UBits_mk[of 0 n] UBits_mk[of 1 n] by simp
    moreover have "(x \<le> 2 ^ (n - 1) - 1) = (x < 2 ^ (n - 1))" for x :: nat by (rule le_pred_exp)
    moreover have "(?l \<le> x) = (with_zero \<or> 0 < x)" for x by auto
    ultimately show ?thesis using intersect_range[OF assms le n] s False
      by (auto simp: PositiveIntervals_def MaxSigned_mk mask_nat mkInterval_mk conj_commute)
  qed
qed

lemma bits_of_int_neg: "0 < u \<Longrightarrow> u \<le> 2 ^ n \<Longrightarrow> bits_of_int n (- int u) = mkBitmap n (2 ^ n - u)"
proof -
  assume u: "0 < u" "u \<le> 2 ^ n"
  have "take_bit n (- int u) = take_bit n (int (2 ^ n - u))" using u by (simp add: of_nat_diff take_bit_eq_mod)
  then have "bits_of_int n (- int u) = bits_of_int n (int (2 ^ n - u))" by (rule bits_of_int_cong)
  then show ?thesis by (simp only: bits_of_int_nat)
qed

lemma reflect_range: "l \<le> u \<Longrightarrow> u \<le> N \<Longrightarrow> (\<lambda>x. N - x) ` {l..u} = {N - u..N - l}" for l u N :: nat
proof (intro equalityI subsetI)
  fix x assume "l \<le> u" "u \<le> N" "x \<in> {N - u..N - l}"
  then have "x = N - (N - x)" "N - x \<in> {l..u}" by auto
  then show "x \<in> (\<lambda>x. N - x) ` {l..u}" by blast
qed auto

context bignum
begin

lemma NegativeAbsoluteIntervals_ok:
  assumes "norm_set n s" "0 < n"
  shows "\<exists>t. NegativeAbsoluteIntervals bn s = Some t \<and> norm_set n t \<and>
    set_points t = (\<lambda>x. 2 ^ n - x) ` {x\<in>set_points s. 2 ^ (n - 1) \<le> x}"
proof -
  have s: "is_normalized s" "set_bit_count s = int n" using assms by (auto simp: norm_set_def wf_set_def)
  have pow: "(2::nat) ^ n = 2 * 2 ^ (n - 1)" using assms(2) by (cases n) simp_all
  then have le: "(2::nat) ^ (n - 1) \<le> 2 ^ n - 1" "2 ^ n - 1 < (2::nat) ^ n" by (auto simp: Suc_le_eq le_diff_conv2)
  have "fits_signed n (sint (- 1 :: 64 word))"
    using assms(2) less_trans[of "- 1 :: int" 0 "2 ^ (n - 1)"] by (simp add: fits_signed_def)
  then have sb: "SBits (- 1) n = Some (mkBitmap n (2 ^ n - 1))" using SBits_mk[of n "- 1"] bits_of_int_neg[of 1 n] by simp
  obtain r seg where seg: "IntervalSet_Of [ivl n (2 ^ (n - 1)) (2 ^ n - 1)] = Some r" "IntervalSet_Intersect s r = Some seg"
      "norm_set n seg" "set_points seg = {x\<in>set_points s. 2 ^ (n - 1) \<le> x \<and> x \<le> 2 ^ n - 1}"
    using intersect_range[OF assms(1) le] by blast
  have "set_points s \<subseteq> {..<2 ^ n}" by (rule iset.denote_univ[OF assms(1)])
  then have pts: "set_points seg = {x\<in>set_points s. 2 ^ (n - 1) \<le> x}" unfolding seg(4) le_pred_exp by auto
  obtain ps where ps: "seg = nset n ps" "norm n ps" using norm_setE[OF seg(3)] .
  have b: "l \<le> u \<and> u < 2 ^ n \<and> 2 ^ (n - 1) \<le> l" if "(l, u) \<in> set ps" for l u
  proof -
    have "l \<in> set_points seg" using norm_mem[OF ps(2) that] by (simp add: ps(1) set_points_nset[OF ps(2)])
    then show ?thesis using that ps(2) by (auto simp: norm_def pts)
  qed
  let ?f = "\<lambda>i. do { l \<leftarrow> Negate bn (upper_bound i); u \<leftarrow> Negate bn (lower_bound i); mkInterval l u }"
  have "?f (ivl n l u) = Some (ivl n (2 ^ n - u) (2 ^ n - l)) \<and> wf_interval (ivl n (2 ^ n - u) (2 ^ n - l)) \<and>
      interval_width (ivl n (2 ^ n - u) (2 ^ n - l)) = n \<and> points (ivl n (2 ^ n - u) (2 ^ n - l)) = (\<lambda>x. 2 ^ n - x) ` {l..u}"
    if m: "(l, u) \<in> set ps" for l u
  proof -
    have "0 < l" using b[OF m] by (meson less_le_trans zero_less_power zero_less_numeral)
    moreover have "(\<lambda>x. 2 ^ n - x) ` {l..u} = {2 ^ n - u..2 ^ n - l}" using b[OF m] by (intro reflect_range) auto
    ultimately show ?thesis using b[OF m] bits_of_int_neg[of l n] bits_of_int_neg[of u n]
      by (simp add: Negate_mk mkInterval_mk points_ivl wrap_points_def diff_le_mono2)
  qed
  then obtain t res where "foldM (\<lambda>i r. do { j \<leftarrow> ?f i; AddInterval r j }) (ivs n ps) (IntervalSet_of_width (int n)) = Some t"
     "Normalize t = Some res" "norm_set n res" "set_points res = (\<lambda>x. 2 ^ n - x) ` pts n ps"
    using add_image_ok[OF ps(2), of ?f "\<lambda>(l, u). ivl n (2 ^ n - u) (2 ^ n - l)" n "\<lambda>x. 2 ^ n - x"] by auto
  moreover have "pts n ps = {x\<in>set_points s. 2 ^ (n - 1) \<le> x}" using pts ps(1) set_points_nset[OF ps(2)] by simp
  ultimately show ?thesis using s assms(2) seg(1,2)
    by (simp add: NegativeAbsoluteIntervals_def MinSigned_mk sb mkInterval_mk ps(1))
qed

end

section \<open>Reachable sets\<close>

text \<open>One rule for each way the public interface makes or changes a set; the rules ask for nothing but that bits
  and intervals are well formed and that the call returns. The default constructor, \<^verbatim>\<open>SetIntervals\<close> of an empty
  span and a negative argument of the constructor make sets without a width.\<close>

inductive set_reach :: "'bn bn_lib \<Rightarrow> IntervalSet \<Rightarrow> bool" for bn where
  default: "set_reach bn IntervalSet_default"
| empty: "set_reach bn (IntervalSet_of_width w)"
| maximal: "IntervalSet_Maximal n = Some s \<Longrightarrow> set_reach bn s"
| non_zero: "IntervalSet_NonZero w = Some s \<Longrightarrow> set_reach bn s"
| precise: "wf_bitmap b \<Longrightarrow> IntervalSet_Precise b = Some s \<Longrightarrow> set_reach bn s"
| punctured: "wf_bitmap b \<Longrightarrow> IntervalSet_Punctured b = Some s \<Longrightarrow> set_reach bn s"
| of_intervals: "\<forall>i\<in>set is. wf_interval i \<Longrightarrow> IntervalSet_Of is = Some s \<Longrightarrow> set_reach bn s"
| add: "set_reach bn s \<Longrightarrow> wf_interval i \<Longrightarrow> AddInterval s i = Some t \<Longrightarrow> set_reach bn t"
| set_intervals: "set_reach bn s \<Longrightarrow> \<forall>i\<in>set is. wf_interval i \<Longrightarrow> SetIntervals s is = Some t \<Longrightarrow> set_reach bn t"
| normalize: "set_reach bn s \<Longrightarrow> Normalize s = Some t \<Longrightarrow> set_reach bn t"
| combine: "set_reach bn a \<Longrightarrow> set_reach bn b \<Longrightarrow> Combine a b = Some t \<Longrightarrow> set_reach bn t"
| intersect: "set_reach bn a \<Longrightarrow> set_reach bn b \<Longrightarrow> IntervalSet_Intersect a b = Some t \<Longrightarrow> set_reach bn t"
| complement: "set_reach bn s \<Longrightarrow> IntervalSet_Complement s = Some t \<Longrightarrow> set_reach bn t"
| zero_extend: "set_reach bn s \<Longrightarrow> IntervalSet_ZeroExtend s n = Some t \<Longrightarrow> set_reach bn t"
| positive: "set_reach bn s \<Longrightarrow> PositiveIntervals s with_zero = Some t \<Longrightarrow> set_reach bn t"
| negative: "set_reach bn s \<Longrightarrow> NegativeAbsoluteIntervals bn s = Some t \<Longrightarrow> set_reach bn t"

text \<open>A set without a width has no interval, or the one invalid interval that normalizing such a set appends.\<close>

definition widthless :: "IntervalSet \<Rightarrow> bool" where
  "widthless s = (set_bit_count s < 0 \<and> (intervals s = [] \<or> is_normalized s \<and> intervals s = [Interval_default]))"

definition set_shape :: "IntervalSet \<Rightarrow> bool" where
  "set_shape s = (widthless s \<or> (\<exists>n. set_ok n s))"

lemma widthless_BitCount [simp]: "widthless s \<Longrightarrow> IntervalSet_BitCount s = None"
  by (simp add: widthless_def IntervalSet_BitCount_def CHECK_def)

lemma widthless_stuck:
  assumes "widthless s"
  shows "AddInterval s i = None" "Combine s a = None" "Combine a s = None" "IntervalSet_Intersect s a = None"
    "IntervalSet_Intersect a s = None" "IntervalSet_Complement s = None" "IntervalSet_ZeroExtend s n = None"
  using assms by (simp_all add: AddInterval_def Combine_def IntervalSet_Intersect_def IntervalSet_Complement_def
      IntervalSet_ZeroExtend_def split: Option.bind_splits)

lemma widthless_next:
  assumes "widthless s"
  shows "Normalize s = Some t \<Longrightarrow> widthless t" "PositiveIntervals s with_zero = Some t \<Longrightarrow> widthless t"
    "NegativeAbsoluteIntervals bn s = Some t \<Longrightarrow> widthless t"
proof -
  show "widthless t" if "Normalize s = Some t"
    using assms that by (auto simp: widthless_def Normalize_def expand_improper_def vector_resize_def interval_sort_def
        split: if_splits Option.bind_splits)
qed (use assms in \<open>auto simp: widthless_def PositiveIntervals_def NegativeAbsoluteIntervals_def CHECK_def IntervalSet_of_width_def
      IntervalSet_default_def split: if_splits\<close>)

lemma set_ok_BitCount: "set_ok n s \<Longrightarrow> IntervalSet_BitCount s = Some n"
  by (simp add: set_ok_def wf_set_BitCount)

lemma same_width:
  assumes "set_ok n a" "set_ok m b"
  shows "Combine a b = Some t \<Longrightarrow> n = m" "IntervalSet_Intersect a b = Some t \<Longrightarrow> n = m"
  using set_ok_BitCount[OF assms(1)] set_ok_BitCount[OF assms(2)]
  by (auto simp: Combine_def IntervalSet_Intersect_def CHECK_def split: if_splits)

lemma add_all_widths:
  "wf_set n s \<Longrightarrow> \<forall>i\<in>set is. wf_interval i \<Longrightarrow> foldM (\<lambda>i s. AddInterval s i) is s = Some t \<Longrightarrow> \<forall>i\<in>set is. interval_width i = n"
proof (induction "is" arbitrary: s)
  case (Cons i "is")
  then obtain u where u: "AddInterval s i = Some u" "foldM (\<lambda>i s. AddInterval s i) is u = Some t" by (auto simp: bind_eq_Some_conv)
  then have "interval_width i = n" "wf_set n u"
    using AddInterval_ok[OF Cons.prems(1), of i] Cons.prems(2) by (auto simp: set_ok_def split: if_splits)
  then show ?case using Cons.IH[of u] u(2) Cons.prems(2) by simp
qed simp

lemma interval_width_BitCount: "wf_interval i \<Longrightarrow> Interval_BitCount i = Some (interval_width i)"
  by (simp add: Interval_BitCount_def wf_interval_def interval_width_def)

lemma intervals_shape:
  assumes "\<forall>i\<in>set is. wf_interval i"
  shows "SetIntervals s is = Some t \<Longrightarrow> set_shape t" "IntervalSet_Of is = Some t \<Longrightarrow> set_shape t"
proof -
  show "set_shape t" if r: "SetIntervals s is = Some t"
  proof (cases "is")
    case Nil
    then show ?thesis using r by (auto simp: SetIntervals_def set_shape_def widthless_def)
  next
    case (Cons i js)
    let ?s = "s\<lparr>is_normalized := False, intervals := [], set_bit_count := int (interval_width i)\<rparr>"
    have "foldM (\<lambda>i s. AddInterval s i) is ?s = Some t"
      using r assms interval_width_BitCount[of i] unfolding SetIntervals_def Cons by (simp del: foldM.simps)
    moreover have "wf_set (interval_width i) ?s" by (simp add: wf_set_def)
    ultimately have "\<forall>j\<in>set is. interval_width j = interval_width i" using add_all_widths[OF _ assms] by blast
    then show ?thesis using SetIntervals_ok[of "is" "interval_width i" s] assms r Cons by (auto simp: set_shape_def)
  qed
  show "set_shape t" if r: "IntervalSet_Of is = Some t"
  proof (cases "is")
    case (Cons i js)
    have "Option.bind (foldM (\<lambda>i s. AddInterval s i) is (IntervalSet_of_width (int (interval_width i)))) Normalize = Some t"
      using r assms interval_width_BitCount[of i] unfolding IntervalSet_Of_def Cons by (simp del: foldM.simps)
    then obtain u where "foldM (\<lambda>i s. AddInterval s i) is (IntervalSet_of_width (int (interval_width i))) = Some u"
      by (auto simp: bind_eq_Some_conv simp del: foldM.simps)
    then have "\<forall>j\<in>set is. interval_width j = interval_width i"
      using add_all_widths[of "interval_width i" _ "is" u] assms wf_of_width(1)[of "interval_width i"] by (auto simp: norm_set_def)
    then show ?thesis using Of_ok[of "is" "interval_width i"] assms r Cons by (auto simp: set_shape_def dest: norm_set_ok)
  qed (use r in \<open>simp add: IntervalSet_Of_def\<close>)
qed

lemma wf_bitmap_mk: "wf_bitmap b \<Longrightarrow> ib_bit_count b = n \<Longrightarrow> \<exists>v < 2 ^ n. b = mkBitmap n v"
  using wf_bitmap_val bm_val_less by metis

text \<open>The operations on normalized sets check the flag first, unless the set is empty.\<close>

lemma normalized_guard:
  "IntervalSet_Intersect a b = Some t \<Longrightarrow> is_normalized a \<and> is_normalized b"
  "PositiveIntervals s with_zero = Some t \<Longrightarrow> is_normalized s"
  "NegativeAbsoluteIntervals bn s = Some t \<Longrightarrow> is_normalized s"
  "IntervalSet_ZeroExtend s n = Some t \<Longrightarrow> is_normalized s"
  "set_ok n s \<Longrightarrow> IntervalSet_Complement s = Some t \<Longrightarrow> is_normalized s"
  by (auto simp: IntervalSet_Intersect_def PositiveIntervals_def NegativeAbsoluteIntervals_def IntervalSet_ZeroExtend_def
      IntervalSet_Complement_def Intervals_def CHECK_def IntervalSet_IsEmpty_def set_ok_def split: if_splits Option.bind_splits)

lemma ZeroExtend_guard: "IntervalSet_BitCount s = Some m \<Longrightarrow> IntervalSet_ZeroExtend s n = Some t \<Longrightarrow> m \<le> n"
  by (auto simp: IntervalSet_ZeroExtend_def CHECK_def split: if_splits)

lemma result_ok: "\<exists>t. x = Some t \<and> norm_set n t \<and> P t \<Longrightarrow> x = Some t \<Longrightarrow> set_ok n t"
  using norm_set_ok by auto

lemma shape_ok: "\<exists>t. x = Some t \<and> norm_set n t \<and> P t \<Longrightarrow> x = Some t \<Longrightarrow> set_shape t"
  using result_ok unfolding set_shape_def by blast

lemma set_shapeE:
  assumes "set_shape s"
  obtains "widthless s" | n where "set_ok n s"
  using assms unfolding set_shape_def by blast

lemma non_zero_shape: "IntervalSet_NonZero w = Some s \<Longrightarrow> set_shape s"
proof -
  assume r: "IntervalSet_NonZero w = Some s"
  then have "0 \<le> w" by (auto simp: IntervalSet_NonZero_def CHECK_def split: if_splits)
  moreover have "UBits 1 0 = None" by code_simp
  then have "w \<noteq> 0" using r by (auto simp: IntervalSet_NonZero_def)
  ultimately have "0 < nat w" "int (nat w) = w" by simp_all
  from shape_ok[OF NonZero_ok[OF this(1)]] this(2) r show "set_shape s" by simp
qed

lemma of_width_shape: "set_shape (IntervalSet_of_width w)"
proof (cases "0 \<le> w")
  case True
  then obtain n where "w = int n" using nonneg_int_cases by blast
  then show ?thesis using norm_set_ok[OF wf_of_width(1)[of n]] by (auto simp: set_shape_def)
qed (simp add: set_shape_def widthless_def IntervalSet_of_width_def)

lemma binary_shape:
  assumes "set_shape a" "set_shape b"
  shows "Combine a b = Some t \<Longrightarrow> set_shape t" "IntervalSet_Intersect a b = Some t \<Longrightarrow> set_shape t"
proof -
  have ok: "\<exists>n. set_ok n a \<and> set_ok n b" if r: "Combine a b = Some t \<or> IntervalSet_Intersect a b = Some t"
  proof -
    have "\<not> widthless a" "\<not> widthless b" using r widthless_stuck by fastforce+
    then obtain n m where "set_ok n a" "set_ok m b" using assms by (auto simp: set_shape_def)
    then show ?thesis using same_width[of n a m b t] r by blast
  qed
  show "set_shape t" if "Combine a b = Some t" using ok shape_ok[OF Combine_ok] that by blast
  show "set_shape t" if r: "IntervalSet_Intersect a b = Some t"
  proof -
    obtain n where n: "set_ok n a" "set_ok n b" using ok r by blast
    then have "norm_set n a" "norm_set n b" using normalized_guard(1)[OF r] set_ok_norm by blast+
    then show ?thesis by (rule shape_ok[OF iset.inter_ok]) (rule r)
  qed
qed

context bignum
begin

lemma unary_shape:
  assumes "set_shape s"
  shows "Normalize s = Some t \<Longrightarrow> set_shape t" "IntervalSet_Complement s = Some t \<Longrightarrow> set_shape t"
    "IntervalSet_ZeroExtend s m = Some t \<Longrightarrow> set_shape t" "PositiveIntervals s with_zero = Some t \<Longrightarrow> set_shape t"
    "NegativeAbsoluteIntervals bn s = Some t \<Longrightarrow> set_shape t"
  using assms
proof (atomize (full), elim set_shapeE, goal_cases)
  case 1
  then show ?case unfolding set_shape_def using widthless_next(1,2)[OF 1] widthless_next(3)[OF 1, of bn] by (simp add: widthless_stuck[OF 1])
next
  case (2 n)
  have norm: "norm_set n s" if "is_normalized s" using that 2 set_ok_norm by blast
  have "m \<ge> n" if "IntervalSet_ZeroExtend s m = Some t" using ZeroExtend_guard[OF set_ok_BitCount[OF 2] that] .
  moreover have "set_shape t" if r: "NegativeAbsoluteIntervals bn s = Some t"
  proof (cases "n = 0")
    case True
    then have "set_bit_count s < 1" using 2 by (simp add: set_ok_def wf_set_def)
    then show ?thesis using r by (auto simp: NegativeAbsoluteIntervals_def CHECK_def set_shape_def widthless_def IntervalSet_default_def split: if_splits)
  next
    case False
    then show ?thesis using shape_ok[OF NegativeAbsoluteIntervals_ok[OF norm]] normalized_guard(3)[OF r] r by blast
  qed
  moreover have "set_shape t" if "PositiveIntervals s with_zero = Some t"
    using shape_ok[OF PositiveIntervals_ok[OF norm[OF normalized_guard(2)[OF that]]] that] .
  moreover have "set_shape t" if "IntervalSet_Complement s = Some t"
    using shape_ok[OF iset.compl_ok[OF norm[OF normalized_guard(5)[OF 2 that]]] that] .
  moreover have "set_shape t" if "IntervalSet_ZeroExtend s m = Some t" "m \<ge> n"
    using shape_ok[OF ZeroExtend_ok[OF norm[OF normalized_guard(4)[OF that(1)]] that(2)] that(1)] .
  moreover have "set_shape t" if "Normalize s = Some t" using shape_ok[OF Normalize_ok[OF 2] that] .
  ultimately show ?case by simp
qed

lemma set_reach_shape: "set_reach bn s \<Longrightarrow> set_shape s"
proof (induction rule: set_reach.induct)
  case (precise b s)
  then show ?case using shape_ok[OF Precise_ok] wf_bitmap_mk by metis
next
  case (punctured b s)
  then show ?case using shape_ok[OF Punctured_ok] wf_bitmap_mk by metis
next
  case (add s i t)
  then obtain n where n: "set_ok n s" using widthless_stuck(1) by (force simp: set_shape_def)
  then have "wf_set n s" by (simp add: set_ok_def)
  then have "set_ok n t" using AddInterval_ok[OF _ add.hyps(2)] add.hyps(3) by (auto split: if_splits)
  then show ?case by (auto simp: set_shape_def)
next
  case default
  show ?case by (simp add: set_shape_def widthless_def IntervalSet_default_def)
qed (auto intro: of_width_shape shape_ok[OF Maximal_ok] non_zero_shape intervals_shape unary_shape binary_shape)

end

end
