(* ===== verification/Interval_Set_Theorems.thy ===== *)
theory Interval_Set_Theorems
  imports Interval_Set_Reach
begin

text \<open>
  The theorems on intervals and interval sets: each method against the set of numbers its
  arguments stand for.
\<close>

section \<open>Intervals\<close>

lemma proper_intervalE:
  assumes "wf_interval i" "proper i" "interval_width i = n"
  obtains l u where "i = ivl n l u" "l \<le> u" "u < 2 ^ n" "points i = {l..u}"
proof -
  obtain l u where i: "i = ivl n l u" "l < 2 ^ n" "u < 2 ^ n" using assms(3) wf_intervalE[OF assms(1)] by metis
  then have "l \<le> u" using assms(2) proper_ivl by simp
  then show ?thesis using that i points_ivl[OF i(2,3)] by (simp add: wrap_points_def)
qed

lemma abut_points:
  fixes l u l' u' :: nat
  assumes "l \<le> u" "l' \<le> u'"
  shows "u + 1 = l' \<or> u' + 1 = l \<longleftrightarrow> {l..u} \<inter> {l'..u'} = {} \<and> (\<exists>a b. {l..u} \<union> {l'..u'} = {a..b})"
proof
  assume r: "{l..u} \<inter> {l'..u'} = {} \<and> (\<exists>a b. {l..u} \<union> {l'..u'} = {a..b})"
  then obtain a b where ab: "{l..u} \<union> {l'..u'} = {a..b}" by blast
  have sep: "u < l' \<or> u' < l" using r assms by (auto simp: set_eq_iff) (meson le_cases not_le)
  have mem: "x \<in> {l..u} \<union> {l'..u'}" if "y \<in> {l..u} \<union> {l'..u'}" "z \<in> {l..u} \<union> {l'..u'}" "y \<le> x" "x \<le> z" for x y z
    using that unfolding ab by auto
  show "u + 1 = l' \<or> u' + 1 = l"
    using sep mem[of u l' "u + 1"] mem[of u' l "u' + 1"] assms by auto
next
  assume "u + 1 = l' \<or> u' + 1 = l"
  moreover have "{l..u} \<union> {l'..u'} = {l..u'}" if "u + 1 = l'" using that assms by auto
  moreover have "{l..u} \<union> {l'..u'} = {l'..u}" if "u' + 1 = l" using that assms by auto
  ultimately show "{l..u} \<inter> {l'..u'} = {} \<and> (\<exists>a b. {l..u} \<union> {l'..u'} = {a..b})" using assms by auto
qed

lemma hull_of_points:
  "l \<le> u \<Longrightarrow> l' \<le> u' \<Longrightarrow> Min ({l..u} \<union> {l'..u'}) = min l l' \<and> Max ({l..u} \<union> {l'..u'}) = max u u'" for l u l' u' :: nat
  by (auto intro!: Min_eqI Max_eqI)

text \<open>On two proper intervals of one width the relations of \<^verbatim>\<open>Interval\<close> are those of the sets of
  numbers they stand for: \<^verbatim>\<open>Overlaps\<close>, \<^verbatim>\<open>Disjoint\<close>, \<^verbatim>\<open>IsSubsetOf\<close>; \<^verbatim>\<open>Abuts\<close> holds when the two are
  disjoint and make one range together; \<^verbatim>\<open>ConvexHull\<close> is the smallest range around both;
  \<^verbatim>\<open>Intersect\<close> and \<^verbatim>\<open>Difference\<close> return proper intervals for the intersection (none when it is
  empty) and the difference, and \<^verbatim>\<open>Complement\<close> for the rest of the width.\<close>

theorem interval_relations_correct:
  assumes "wf_interval a" "proper a" "interval_width a = n" "wf_interval b" "proper b" "interval_width b = n"
  shows "Interval_Overlaps a b = Some (points a \<inter> points b \<noteq> {}) \<and>
    Interval_Disjoint a b = Some (points a \<inter> points b = {}) \<and>
    Interval_IsSubsetOf a b = Some (points a \<subseteq> points b) \<and>
    Interval_Abuts a b = Some (points a \<inter> points b = {} \<and> (\<exists>x y. points a \<union> points b = {x..y})) \<and>
    (\<exists>h. Interval_ConvexHull a b = Some h \<and> wf_interval h \<and> proper h \<and>
       points h = {Min (points a \<union> points b)..Max (points a \<union> points b)}) \<and>
    (\<exists>m. Interval_Intersect a b = Some m \<and>
       (case m of None \<Rightarrow> points a \<inter> points b = {}
        | Some i \<Rightarrow> wf_interval i \<and> proper i \<and> interval_width i = n \<and> points i = points a \<inter> points b)) \<and>
    (\<exists>ds. Interval_Difference a b = Some ds \<and> length ds \<le> 2 \<and>
       (\<forall>i\<in>set ds. wf_interval i \<and> proper i \<and> interval_width i = n) \<and> (\<Union>i\<in>set ds. points i) = points a - points b) \<and>
    (\<exists>cs. Interval_Complement a = Some cs \<and> (\<Union>i\<in>set cs. points i) = {..<2 ^ n} - points a)"
proof -
  obtain l u where a: "a = ivl n l u" "l \<le> u" "u < 2 ^ n" "points a = {l..u}" using proper_intervalE[OF assms(1-3)] .
  obtain l' u' where b: "b = ivl n l' u'" "l' \<le> u'" "u' < 2 ^ n" "points b = {l'..u'}" using proper_intervalE[OF assms(4-6)] .
  note ev = binary_ivl[OF a(2,3) b(2,3), folded a(1) b(1)]
  have lt: "l < 2 ^ n" "l' < 2 ^ n" using a(2,3) b(2,3) by simp_all
  have w: "wf_interval (ivl n x y) \<and> proper (ivl n x y) \<and> points (ivl n x y) = {x..y}" if "x \<le> y" "y < 2 ^ n" for x y
    using that by (simp add: proper_ivl points_ivl wrap_points_def)
  have meet: "{l..u} \<inter> {l'..u'} = {max l l'..min u u'}" by auto
  have hull: "min l l' \<le> max u u'" "max u u' < 2 ^ n" using a(2,3) b(2,3) by auto
  have overlap: "(l' \<le> u \<and> l \<le> u') = ({l..u} \<inter> {l'..u'} \<noteq> {})" using a(2) b(2) unfolding meet by auto
  have 1: "Interval_Overlaps a b = Some (points a \<inter> points b \<noteq> {})" "Interval_Disjoint a b = Some (points a \<inter> points b = {})"
    by (simp_all only: ev a(4) b(4) overlap not_not simp_thms)
  have 2: "Interval_IsSubsetOf a b = Some (points a \<subseteq> points b)" unfolding ev a(4) b(4) using a(2) by auto
  have 3: "Interval_Abuts a b = Some (points a \<inter> points b = {} \<and> (\<exists>x y. points a \<union> points b = {x..y}))"
    unfolding ev a(4) b(4) abut_points[OF a(2) b(2)] ..
  have 4: "\<exists>h. Interval_ConvexHull a b = Some h \<and> wf_interval h \<and> proper h \<and>
      points h = {Min (points a \<union> points b)..Max (points a \<union> points b)}"
    unfolding ev a(4) b(4) using w[OF hull] hull_of_points[OF a(2) b(2)] by auto
  have mu: "min u u' < 2 ^ n" using a(3) by simp
  have 5: "\<exists>m. Interval_Intersect a b = Some m \<and>
       (case m of None \<Rightarrow> points a \<inter> points b = {}
        | Some i \<Rightarrow> wf_interval i \<and> proper i \<and> interval_width i = n \<and> points i = points a \<inter> points b)"
    unfolding ev a(4) b(4) meet using w[OF _ mu, of "max l l'"] by auto
  have piece: "(\<forall>i\<in>set (if c then [ivl n x y] else []). wf_interval i \<and> proper i \<and> interval_width i = n) \<and>
      (\<Union>i\<in>set (if c then [ivl n x y] else []). points i) = (if c then {x..y} else {})"
    if "c \<Longrightarrow> x \<le> y" "y < 2 ^ n" for c x y using that w by simp
  have low: "l' - 1 < 2 ^ n" using lt(2) by simp
  have cut: "(if l < l' then {l..l' - 1} else {}) \<union> (if u' < u then {u' + 1..u} else {}) = {l..u} - {l'..u'}"
    if "max l l' \<le> min u u'" using that by auto
  have 6: "\<exists>ds. Interval_Difference a b = Some ds \<and> length ds \<le> 2 \<and>
       (\<forall>i\<in>set ds. wf_interval i \<and> proper i \<and> interval_width i = n) \<and> (\<Union>i\<in>set ds. points i) = points a - points b"
  proof (cases "max l l' \<le> min u u'")
    case True
    then show ?thesis unfolding ev a(4) b(4) cut[OF True, symmetric]
      using piece[OF _ low, of "l < l'" l] piece[OF _ a(3), of "u' < u" "u' + 1"]
      by (simp only: if_True option.inject ex_simps(1) set_append ball_Un UN_Un) auto
  next
    case False
    then have "{l..u} - {l'..u'} = {l..u}" by auto
    moreover have "Interval_Difference a b = Some [a]" using ev(6) False by (simp only: if_False)
    ultimately show ?thesis using assms(1-3) a(4) b(4) by simp
  qed
  have ul: "u < 2 ^ n - 1 \<Longrightarrow> u + 1 \<le> 2 ^ n - 1" "l - 1 < 2 ^ n" "2 ^ n - 1 < (2::nat) ^ n" using lt(1) by auto
  have 7: "\<exists>cs. Interval_Complement a = Some cs \<and> (\<Union>i\<in>set cs. points i) = {..<2 ^ n} - points a"
    unfolding a(1) Complement_ivl[OF a(2,3)]
    using w[OF _ ul(2), of 0] w[OF ul(1,3)] a(2,3,4) by (auto simp: a(1))
  show ?thesis using 1 2 3 4 5 6 7 by blast
qed

lemma wrap_points_run:
  assumes "l < 2 ^ n" "u < 2 ^ n"
  shows "inj_on (\<lambda>j. take_bit n (l + j)) {0..<card (wrap_points n l u)}"
    "(\<lambda>j. take_bit n (l + j)) ` {0..<card (wrap_points n l u)} = wrap_points n l u"
proof -
  let ?k = "card (wrap_points n l u)"
  have k: "?k \<le> 2 ^ n" using maximal_card_iff[OF assms] by auto
  show inj: "inj_on (\<lambda>j. take_bit n (l + j)) {0..<?k}"
  proof (rule linorder_inj_onI)
    fix a b assume "a < b" "a \<in> {0..<?k}" "b \<in> {0..<?k}"
    then show "take_bit n (l + a) \<noteq> take_bit n (l + b)"
      using take_bit_shift_eq_iff[of "b - a" n "l + a"] k by auto
  qed auto
  have "take_bit n (l + j) \<in> wrap_points n l u" if j: "j < ?k" for j
  proof (cases "l + j < 2 ^ n")
    case True
    then show ?thesis using j card_wrap_points[OF assms] by (auto simp: take_bit_nat_eq_self wrap_points_def split: if_splits)
  next
    case False
    have "l + j - 2 ^ n < 2 ^ n" using j k assms by linarith
    then have "take_bit n (l + j) = l + j - 2 ^ n"
      using False by (simp add: take_bit_eq_mod mod_if le_mod_geq)
    then show ?thesis using False j card_wrap_points[OF assms] assms by (auto simp: wrap_points_def split: if_splits)
  qed
  moreover have "card ((\<lambda>j. take_bit n (l + j)) ` {0..<?k}) = ?k" using card_image[OF inj] by simp
  moreover have "finite (wrap_points n l u)" by (simp add: wrap_points_def)
  ultimately show "(\<lambda>j. take_bit n (l + j)) ` {0..<?k} = wrap_points n l u"
    by (metis (no_types, lifting) atLeastLessThan_iff card_subset_eq image_subsetI)
qed

text \<open>Iterating over any valid interval, one that wraps around included, ends and yields every
  number of the interval exactly once, in order from its lower bound; \<^verbatim>\<open>Elements\<close> returns that
  sequence and \<^verbatim>\<open>Size\<close> its length, or nothing when it does not fit 63 bits.\<close>

theorem interval_values_correct:
  assumes "bignum bn bv" "wf_interval i" "interval_width i = n"
  shows "\<exists>vs. Interval_Elements bn i = Some vs \<and> distinct vs \<and>
    (\<forall>v\<in>set vs. wf_bitmap v \<and> ib_bit_count v = n) \<and> bm_val ` set vs = points i \<and> length vs = card (points i) \<and>
    hd vs = lower_bound i \<and> last vs = upper_bound i \<and>
    Interval_Size bn i = Some (if length vs < 2 ^ 63 then Some (word_of_nat (length vs)) else None)"
proof -
  obtain l u where i: "i = ivl n l u" "l < 2 ^ n" "u < 2 ^ n" using assms(3) wf_intervalE[OF assms(2)] by metis
  let ?k = "card (wrap_points n l u)"
  let ?vs = "map (\<lambda>j. mkBitmap n (l + j)) [0..<?k]"
  have k: "0 < ?k" "?k \<le> 2 ^ n" using maximal_card_iff[OF i(2,3)] by auto
  have el: "Interval_Elements bn i = Some ?vs"
    using values_run[OF i(2,3)] bignum.Size_ivl[OF assms(1) i(2,3)] unfolding i(1) by (auto simp: Interval_Elements_def)
  have end_eq: "take_bit n (l + (?k - 1)) = u"
  proof (cases "l \<le> u")
    case False
    then have "l + (?k - 1) = u + 2 ^ n" using i(2,3) card_wrap_points[OF i(2,3)] by simp
    then have "take_bit n (l + (?k - 1)) = take_bit n u" by (simp only: take_bit_eq_mod mod_add_self2)
    then show ?thesis using i(3) by (simp add: take_bit_nat_eq_self)
  qed (use i(3) card_wrap_points[OF i(2,3)] in \<open>simp add: take_bit_nat_eq_self\<close>)
  note inj = wrap_points_run(1)[OF i(2,3)] and img = wrap_points_run(2)[OF i(2,3)]
  have "distinct ?vs" unfolding distinct_map using inj by (auto simp: inj_on_def mkBitmap_eq_iff)
  moreover have "bm_val ` set ?vs = (\<lambda>j. take_bit n (l + j)) ` {0..<?k}" by (simp add: image_image)
  then have "bm_val ` set ?vs = points i" unfolding img i(1) points_ivl[OF i(2,3)] .
  moreover have "hd ?vs = lower_bound i" using k(1) by (simp add: i(1) hd_map)
  moreover have "last ?vs = upper_bound i" using k(1) end_eq i(3) by (simp add: i(1) last_map mkBitmap_eq_iff take_bit_nat_eq_self)
  moreover have "length ?vs = card (points i)" unfolding i(1) points_ivl[OF i(2,3)] by simp
  ultimately show ?thesis using el bignum.Size_ivl[OF assms(1) i(2,3)] unfolding i(1) by (intro exI[of _ ?vs]) auto
qed

section \<open>Interval sets\<close>

text \<open>C27. Invariant: every set made through the public methods, in any order and with any well-formed
  arguments, either has a width or not. With a width, its intervals are of that width, it is sorted,
  merged and free of improper intervals whenever its flag says normalized, and it can be normalized
  without an abort to a set with the same numbers. Without one (\<^verbatim>\<open>BitCount\<close> is negative, as after the default
  constructor or \<^verbatim>\<open>SetIntervals\<close> of an empty span) it has no valid interval.\<close>

theorem interval_set_invariant:
  assumes "bignum bn bv" "set_reach bn s"
  shows "(0 \<le> set_bit_count s \<longrightarrow> wf_set (nat (set_bit_count s)) s \<and>
      (is_normalized s \<longrightarrow> CheckIsNormalizedForTesting s = Some (Inr ())) \<and>
      (\<exists>t. Normalize s = Some t \<and> wf_set (nat (set_bit_count s)) t \<and> is_normalized t \<and> set_points t = set_points s)) \<and>
    (set_bit_count s < 0 \<longrightarrow> (\<forall>i\<in>set (intervals s). \<not> wf_interval i))"
proof (cases "widthless s")
  case True
  moreover have "\<not> wf_interval Interval_default" by code_simp
  ultimately show ?thesis by (auto simp: widthless_def)
next
  case False
  then obtain n where ok: "set_ok n s" using bignum.set_reach_shape[OF assms] by (auto simp: set_shape_def)
  then have n: "set_bit_count s = int n" by (simp add: set_ok_def wf_set_def)
  have "CheckIsNormalizedForTesting s = Some (Inr ())" if "is_normalized s"
    using norm_setE[OF set_ok_norm[OF ok that]] CheckIsNormalized_nset by metis
  then show ?thesis using ok Normalize_ok[OF ok] n by (auto simp: set_ok_def norm_set_def)
qed

theorem interval_set_invariant_witness:
  "\<exists>s. AddInterval (IntervalSet_of_width 3) (ivl 3 6 1) = Some s \<and> wf_set 3 s \<and> \<not> is_normalized s \<and>
    (\<exists>t. Normalize s = Some t \<and> is_normalized t \<and> set_points t = {0, 1, 6, 7})"
proof -
  obtain s where s: "AddInterval (IntervalSet_of_width (int 3)) (ivl 3 6 1) = Some s" "\<not> is_normalized s"
      "set_points s = points (ivl 3 6 1)" "set_bit_count s = 3"
    by (simp add: set_points_def del: of_nat_numeral)
  have "set_reach int_bn s" by (rule set_reach.add[OF set_reach.empty _ s(1)]) simp
  moreover have "points (ivl 3 6 1) = {0, 1, 6, 7}" by (auto simp: points_ivl wrap_points_def)
  ultimately show ?thesis using interval_set_invariant[OF int_bn.bignum_axioms, of s] s by auto
qed

text \<open>C26. Refinement: the interval sets implement the algebra of sets of numbers below \<open>2 ^ n\<close>. On
  well-formed sets \<^verbatim>\<open>Combine\<close> (normalized or not) returns the union, and on normalized ones
  \<^verbatim>\<open>Intersect\<close>, \<^verbatim>\<open>Complement\<close> and \<^verbatim>\<open>Disjoint\<close> return the intersection, the complement and the
  disjointness test; each result is in normal form again.\<close>

theorem interval_set_refines_sets:
  assumes "set_ok n a" "set_ok n b"
  shows "(\<exists>c. Combine a b = Some c \<and> norm_set n c \<and> set_points c = set_points a \<union> set_points b) \<and>
    (is_normalized a \<and> is_normalized b \<longrightarrow>
      (\<exists>c. IntervalSet_Intersect a b = Some c \<and> norm_set n c \<and> set_points c = set_points a \<inter> set_points b) \<and>
      IntervalSet_Disjoint a b = Some (set_points a \<inter> set_points b = {}) \<and>
      (\<exists>c. IntervalSet_Complement a = Some c \<and> norm_set n c \<and> set_points c = {..<2 ^ n} - set_points a))"
proof (intro conjI impI; (elim conjE)?)
  show "\<exists>c. Combine a b = Some c \<and> norm_set n c \<and> set_points c = set_points a \<union> set_points b"
    by (rule Combine_ok[OF assms])
  assume "is_normalized a" "is_normalized b"
  then have n: "norm_set n a" "norm_set n b" using assms set_ok_norm by blast+
  show "\<exists>c. IntervalSet_Intersect a b = Some c \<and> norm_set n c \<and> set_points c = set_points a \<inter> set_points b"
    "IntervalSet_Disjoint a b = Some (set_points a \<inter> set_points b = {})"
    "\<exists>c. IntervalSet_Complement a = Some c \<and> norm_set n c \<and> set_points c = {..<2 ^ n} - set_points a"
    using iset.inter_ok[OF n] iset.disjoint_ok[OF n] iset.compl_ok[OF n(1)] by blast+
qed

lemma set_ok_example: "set_ok 3 (nset 3 [(1, 2), (5, 6)])" "set_points (nset 3 [(1, 2), (5, 6)]) = {1, 2, 5, 6}"
  "set_ok 3 (nset 3 [(3, 5)])" "set_points (nset 3 [(3, 5)]) = {3, 4, 5}"
proof -
  have n: "norm 3 [(1, 2), (5, 6)]" "norm 3 [(3, 5)]" by (simp_all add: norm_def)
  then show "set_ok 3 (nset 3 [(1, 2), (5, 6)])" "set_ok 3 (nset 3 [(3, 5)])" using norm_set_ok norm_set_nset by blast+
  show "set_points (nset 3 [(1, 2), (5, 6)]) = {1, 2, 5, 6}" unfolding set_points_nset[OF n(1)] by (auto simp: wrap_points_def)
  show "set_points (nset 3 [(3, 5)]) = {3, 4, 5}" unfolding set_points_nset[OF n(2)] by (auto simp: wrap_points_def)
qed

theorem interval_set_refines_sets_witness:
  "(\<exists>c. Combine (nset 3 [(1, 2), (5, 6)]) (nset 3 [(3, 5)]) = Some c \<and> set_points c = {1, 2, 3, 4, 5, 6}) \<and>
   (\<exists>c. IntervalSet_Intersect (nset 3 [(1, 2), (5, 6)]) (nset 3 [(3, 5)]) = Some c \<and> set_points c = {5})"
proof -
  have "{1, 2, 5, 6} \<union> {3, 4, 5} = {1, 2, 3, 4, 5, 6 :: nat}" "{1, 2, 5, 6} \<inter> {3, 4, 5} = {5 :: nat}" by auto
  then show ?thesis using interval_set_refines_sets[OF set_ok_example(1,3)] unfolding set_ok_example(2,4) by auto
qed

text \<open>C28. Equivalence: \<^verbatim>\<open>operator==\<close> decides whether two sets of one width have the same numbers,
  normalized or not, and two normalized sets with the same numbers are the same object. So the
  laws of the algebra hold as equations between results: the complement of a union is the
  intersection of the complements, and the complement of the complement is the set itself.\<close>

theorem interval_set_equality:
  assumes "set_ok n a" "set_ok n b"
  shows "IntervalSet_eq a b = Some (set_points a = set_points b) \<and>
    (is_normalized a \<and> is_normalized b \<longrightarrow>
      (a = b \<longleftrightarrow> set_points a = set_points b) \<and>
      Option.bind (Combine a b) IntervalSet_Complement =
        Option.bind (IntervalSet_Complement a) (\<lambda>x. Option.bind (IntervalSet_Complement b) (IntervalSet_Intersect x)) \<and>
      Option.bind (IntervalSet_Complement a) IntervalSet_Complement = Some a \<and>
      Combine a b = Combine b a \<and> IntervalSet_Intersect a b = IntervalSet_Intersect b a)"
proof (intro conjI impI; (elim conjE)?)
  show "IntervalSet_eq a b = Some (set_points a = set_points b)" by (rule eq_ok[OF assms])
  assume "is_normalized a" "is_normalized b"
  then have n: "norm_set n a" "norm_set n b" using assms set_ok_norm by blast+
  show "a = b \<longleftrightarrow> set_points a = set_points b" using iset.canonical[OF n] by blast
  show "Combine a b = Combine b a" "IntervalSet_Intersect a b = IntervalSet_Intersect b a"
    by (rule iset.union_commute[OF n] iset.inter_commute[OF n])+
qed (use assms set_ok_norm iset.de_morgan iset.compl_compl in blast)+

theorem interval_set_equality_witness:
  "IntervalSet_eq (nset 3 [(1, 2), (5, 6)]) (nset 3 [(3, 5)]) = Some False \<and>
   Option.bind (IntervalSet_Complement (nset 3 [(1, 2), (5, 6)])) IntervalSet_Complement = Some (nset 3 [(1, 2), (5, 6)])"
proof -
  have "1 \<in> {1, 2, 5, 6 :: nat}" "1 \<notin> {3, 4, 5 :: nat}" by simp_all
  then have "{1, 2, 5, 6} \<noteq> {3, 4, 5 :: nat}" by metis
  then show ?thesis using interval_set_equality[OF set_ok_example(1,3)] unfolding set_ok_example(2,4) by simp
qed

text \<open>C40. The iterator of \<^verbatim>\<open>Values\<close> ends and yields the numbers of the set in increasing order,
  \<^verbatim>\<open>Index\<close> returns the number at a position of that order or nothing past its end, and \<^verbatim>\<open>Size\<close>
  returns how many there are, or nothing when that does not fit in 63 bits.\<close>

theorem interval_set_values_correct:
  assumes "bignum bn bv" "norm_set n s" "k < 2 ^ n"
  shows "all_values s = Some (map (mkBitmap n) (sorted_list_of_set (set_points s))) \<and>
    IntervalSet_Index bn s (mkBitmap n k) =
      Some (if k < card (set_points s) then Some (mkBitmap n (sorted_list_of_set (set_points s) ! k)) else None) \<and>
    IntervalSet_Size bn s = Some (if card (set_points s) < 2 ^ 63 then Some (word_of_nat (card (set_points s))) else None)"
proof -
  obtain ps where ps: "s = nset n ps" "norm n ps" using norm_setE[OF assms(2)] .
  have e: "sorted_list_of_set (set_points s) = enum_pairs ps" "card (set_points s) = length (enum_pairs ps)"
    using enum_pairs_sorted_list[OF ps(2)] length_enum_pairs[OF ps(2)] set_points_nset[OF ps(2)] ps(1) by simp_all
  show ?thesis unfolding e unfolding ps(1)
    using all_values_nset[OF ps(2)] bignum.Index_nset[OF assms(1) ps(2) assms(3)] bignum.Size_nset[OF assms(1) ps(2)] by blast
qed

theorem interval_set_values_correct_witness:
  "all_values (nset 3 [(1, 2), (5, 6)]) = Some (map (mkBitmap 3) [1, 2, 5, 6]) \<and>
   IntervalSet_Index int_bn (nset 3 [(1, 2), (5, 6)]) (mkBitmap 3 2) = Some (Some (mkBitmap 3 5)) \<and>
   IntervalSet_Index int_bn (nset 3 [(1, 2), (5, 6)]) (mkBitmap 3 4) = Some None"
proof -
  have n: "norm_set 3 (nset 3 [(1, 2), (5, 6)])" using set_ok_norm[OF set_ok_example(1)] by simp
  have l: "sorted_list_of_set {1, 2, 5, 6 :: nat} = [1, 2, 5, 6]" "card {1, 2, 5, 6 :: nat} = 4" by simp_all
  show ?thesis using interval_set_values_correct[OF int_bn.bignum_axioms n, of 2] interval_set_values_correct[OF int_bn.bignum_axioms n, of 4]
    unfolding set_ok_example(2) l by simp
qed

lemma bounds_points:
  assumes "norm n ps" "ps \<noteq> []"
  shows "Min (pts n ps) = fst (hd ps)" "Max (pts n ps) = snd (last ps)"
proof -
  have sub: "pts n ps \<subseteq> {fst (hd ps)..snd (last ps)}" using hull_points[OF assms] by blast
  then have fin: "finite (pts n ps)" using finite_subset finite_atLeastAtMost by blast
  have "hd ps \<in> set ps" "last ps \<in> set ps" using assms(2) by simp_all
  then have "fst (hd ps) \<in> pts n ps" "snd (last ps) \<in> pts n ps" using norm_mem[OF assms(1)] prod.collapse by metis+
  then show "Min (pts n ps) = fst (hd ps)" "Max (pts n ps) = snd (last ps)"
    using sub fin by (auto intro!: Min_eqI Max_eqI)
qed

text \<open>On a normalized set \<^verbatim>\<open>Covers\<close> is membership, \<^verbatim>\<open>IsTrueWhenMaskWith\<close> tells whether some number
  of the set has a bit in common with the mask, \<^verbatim>\<open>IsMaximal\<close> whether the set is all numbers of the
  width, and \<^verbatim>\<open>LowerBound\<close> and \<^verbatim>\<open>UpperBound\<close> return the least and the greatest number, or nothing
  for the empty set.\<close>

theorem interval_set_queries_correct:
  assumes "norm_set n s" "p < 2 ^ n"
  shows "IntervalSet_Covers s (mkBitmap n p) = Some (p \<in> set_points s) \<and>
    IsTrueWhenMaskWith s (mkBitmap n p) = Some (\<exists>x\<in>set_points s. x AND p \<noteq> 0) \<and>
    IntervalSet_IsMaximal s = Some (set_points s = {..<2 ^ n}) \<and>
    IntervalSet_LowerBound s = Some (if set_points s = {} then None else Some (mkBitmap n (Min (set_points s)))) \<and>
    IntervalSet_UpperBound s = Some (if set_points s = {} then None else Some (mkBitmap n (Max (set_points s))))"
proof -
  obtain ps where ps: "s = nset n ps" "norm n ps" using norm_setE[OF assms(1)] .
  note sp = set_points_nset[OF ps(2)]
  have bounds: "IntervalSet_LowerBound s = Some (if pts n ps = {} then None else Some (mkBitmap n (Min (pts n ps)))) \<and>
    IntervalSet_UpperBound s = Some (if pts n ps = {} then None else Some (mkBitmap n (Max (pts n ps))))"
  proof (cases "ps = []")
    case True
    then show ?thesis by (simp add: ps(1) IntervalSet_LowerBound_def IntervalSet_UpperBound_def)
  next
    case False
    then have "pts n ps \<noteq> {}" using norm_nonempty ps(2) by (metis list.exhaust)
    then show ?thesis using bounds_nset[OF False] bounds_points[OF ps(2) False] by (simp add: ps(1))
  qed
  show ?thesis using bounds Covers_ivs[OF norm_in_range[OF ps(2)] assms(2)] IsTrueWhenMaskWith_nset[OF ps(2) assms(2)]
      IsMaximal_nset[OF ps(2)]
    unfolding ps(1) sp by blast
qed

text \<open>The factories and the derived sets denote what they should: \<^verbatim>\<open>Of\<close> the union of the given
  intervals, \<^verbatim>\<open>Precise\<close> and \<^verbatim>\<open>Punctured\<close> a number and all but that number, \<^verbatim>\<open>ZeroExtend\<close> the same
  numbers at a larger width, \<^verbatim>\<open>PositiveIntervals\<close> the numbers that are positive (or zero) as signed
  values, and \<^verbatim>\<open>NegativeAbsoluteIntervals\<close> the absolute values of the negative ones.\<close>

theorem interval_set_derived_correct:
  assumes "bignum bn bv" "norm_set n s" "0 < n" "n \<le> m" "v < 2 ^ n" "is \<noteq> []"
    "\<forall>i\<in>set is. wf_interval i \<and> interval_width i = n"
  shows "(\<exists>t. IntervalSet_Of is = Some t \<and> norm_set n t \<and> set_points t = (\<Union>i\<in>set is. points i)) \<and>
    (\<exists>t. IntervalSet_Precise (mkBitmap n v) = Some t \<and> norm_set n t \<and> set_points t = {v}) \<and>
    (\<exists>t. IntervalSet_Punctured (mkBitmap n v) = Some t \<and> norm_set n t \<and> set_points t = {..<2 ^ n} - {v}) \<and>
    (\<exists>t. IntervalSet_ZeroExtend s m = Some t \<and> norm_set m t \<and> set_points t = set_points s) \<and>
    (\<exists>t. PositiveIntervals s with_zero = Some t \<and> norm_set n t \<and>
       set_points t = {x\<in>set_points s. x < 2 ^ (n - 1) \<and> (with_zero \<or> 0 < x)}) \<and>
    (\<exists>t. NegativeAbsoluteIntervals bn s = Some t \<and> norm_set n t \<and>
       set_points t = (\<lambda>x. 2 ^ n - x) ` {x\<in>set_points s. 2 ^ (n - 1) \<le> x})"
proof -
  have "\<exists>t. PositiveIntervals s with_zero = Some t \<and> norm_set n t \<and>
       set_points t = {x\<in>set_points s. x < 2 ^ (n - 1) \<and> (with_zero \<or> 0 < x)}"
    using PositiveIntervals_ok[OF assms(2), of with_zero] assms(3) by simp
  then show ?thesis using Of_ok[OF assms(6,7)] Precise_ok[OF assms(5)] Punctured_ok[OF assms(5)] ZeroExtend_ok[OF assms(2,4)]
      bignum.NegativeAbsoluteIntervals_ok[OF assms(1-3)] by (simp only: simp_thms)
qed

text \<open>Iterating over the signed intervals of a normalized set ends; the intervals come in
  increasing order, none holds both a non-negative and a negative value, together they hold the
  numbers of the set, and \<^verbatim>\<open>NumberOfSignedIntervals\<close> is how many there are.\<close>

theorem signed_intervals_correct:
  assumes "norm_set n s" "0 < n"
  shows "\<exists>is. all_signed_intervals s = Some is \<and> NumberOfSignedIntervals s = Some (length is) \<and>
    (\<Union>i\<in>set is. points i) = set_points s \<and>
    (\<forall>i\<in>set is. wf_interval i \<and> proper i \<and> (points i \<subseteq> {..<2 ^ (n - 1)} \<or> points i \<subseteq> {2 ^ (n - 1)..<2 ^ n})) \<and>
    sorted_wrt (\<lambda>i j. \<forall>x\<in>points i. \<forall>y\<in>points j. x < y) is"
proof -
  obtain ps where ps: "s = nset n ps" "norm n ps" using norm_setE[OF assms(1)] .
  let ?h = "2 ^ (n - 1) :: nat"
  let ?cs = "cut_signed ?h ps"
  have h: "0 < ?h" by simp
  note c = cut_signed_correct[OF ps(2) h]
  have pt: "points (ivl n l u) = {l..u} \<and> proper (ivl n l u) \<and> ({l..u} \<subseteq> {..<?h} \<or> {l..u} \<subseteq> {?h..<2 ^ n})"
    if "(l, u) \<in> set ?cs" for l u
  proof -
    have b: "l \<le> u" "u < 2 ^ n" "u < ?h \<or> ?h \<le> l" using c(2) that by auto
    then show ?thesis by (auto simp: points_ivl proper_ivl wrap_points_def)
  qed
  have "(\<Union>i\<in>set (ivs n ?cs). points i) = (\<Union>(l, u)\<in>set ?cs. {l..u})" using pt by (auto intro!: SUP_cong)
  then have "(\<Union>i\<in>set (ivs n ?cs). points i) = set_points s" unfolding c(1) ps(1) set_points_nset[OF ps(2)] .
  moreover have "\<forall>i\<in>set (ivs n ?cs). wf_interval i \<and> proper i \<and> (points i \<subseteq> {..<?h} \<or> points i \<subseteq> {?h..<2 ^ n})"
    using pt by force
  moreover have "sorted_wrt (\<lambda>i j. \<forall>x\<in>points i. \<forall>y\<in>points j. x < y) (ivs n ?cs)"
    unfolding sorted_wrt_map by (rule sorted_wrt_mono_rel[OF _ c(3)]) (use pt in fastforce)
  ultimately show ?thesis using all_signed_nset[OF assms(2) ps(2)] NumberOfSigned_nset[OF assms(2) ps(2)]
    unfolding ps(1) by (intro exI[of _ "ivs n ?cs"]) simp
qed

end
