(* ===== verification/Bdd_Model.thy ===== *)
theory Bdd_Model
  imports Big_Int Complex_Main "HOL-Library.Product_Lexorder"
begin

text \<open>
  \<^verbatim>\<open>xls/data_structures/binary_decision_diagram.h\<close> and \<^verbatim>\<open>.cc\<close>: binary decision diagrams in one vector
  of nodes with a free list, a table per variable that keeps nodes unique, and a cache of
  if-then-else results that turns lossy when it is full. Node and variable indices are integers
  with the negative sentinels of the code; a \<^verbatim>\<open>flat_hash_map\<close> is an association list with distinct
  keys. \<^verbatim>\<open>absl::HashOf\<close> is the parameter \<open>hash\<close>. The capacities of the containers, which only feed the
  memory estimate, are not part of the state.
\<close>

section \<open>Data\<close>

record BddNode =
  bdd_variable :: int
  bdd_high :: int
  bdd_low :: int
  bdd_path_count :: int

definition kInfeasible :: int where "kInfeasible = - 1"

definition kFreeNodeVariable :: int where "kFreeNodeVariable = - 2"

definition kNextFreeIsConsecutive :: int where "kNextFreeIsConsecutive = - 1"

definition bdd_zero :: int where "bdd_zero = 0"

definition bdd_one :: int where "bdd_one = 1"

definition int32_max :: int where "int32_max = 2 ^ 31 - 1"


record IteCacheEntry =
  e_cond :: int
  e_if_true :: int
  e_if_false :: int
  e_result :: int

datatype IteCache = ExactMap "((int \<times> int \<times> int) \<times> int) list" | LossyArray "IteCacheEntry list"

record Bdd =
  variable_base_nodes :: "int option list"
  nodes :: "BddNode list"
  free_node_head :: int
  nodes_size :: int
  node_map_by_var :: "((int \<times> int) \<times> int) list list"
  ite_cache :: IteCache
  max_paths :: int
  prev_nodes_size :: int

definition kDefaultMaxPaths :: int where "kDefaultMaxPaths = int32_max - 1"

definition BinaryDecisionDiagram :: "int \<Rightarrow> Bdd" where
  "BinaryDecisionDiagram mp =
     (let leaf = \<lparr>bdd_variable = - 1, bdd_high = - 1, bdd_low = - 1, bdd_path_count = 1\<rparr>
      in \<lparr>variable_base_nodes = [], nodes = [leaf, leaf], free_node_head = 2, nodes_size = 2,
          node_map_by_var = [], ite_cache = ExactMap [], max_paths = mp, prev_nodes_size = 2\<rparr>)"

section \<open>Nodes and the free list\<close>

definition IsFreeNode :: "BddNode \<Rightarrow> bool" where
  "IsFreeNode node = (bdd_variable node = kFreeNodeVariable)"

definition SetFreeNode :: "BddNode \<Rightarrow> int \<Rightarrow> BddNode" where
  "SetFreeNode node next_free = node\<lparr>bdd_variable := kFreeNodeVariable, bdd_high := next_free\<rparr>"

definition GetNextFreeNode :: "BddNode \<Rightarrow> int option" where
  "GetNextFreeNode node = do { CHECK (IsFreeNode node); Some (bdd_high node) }"

definition NextFree :: "int \<Rightarrow> int \<Rightarrow> int" where
  "NextFree next_free current_addr =
     (if next_free = kNextFreeIsConsecutive then current_addr + 1 else next_free)"

definition GetNode :: "Bdd \<Rightarrow> int \<Rightarrow> BddNode option" where
  "GetNode b node_index = do {
     e \<leftarrow> int_at (nodes b) node_index;
     CHECK (\<not> IsFreeNode e);
     Some e }"

definition bdd_path_count_of :: "Bdd \<Rightarrow> int \<Rightarrow> int option" where
  "bdd_path_count_of b expr =
     (if expr = kInfeasible then Some (sr_result (SaturatingAdd int64_type (max_paths b) 1))
      else do { n \<leftarrow> GetNode b expr; Some (bdd_path_count n) })"

definition IsVariableBaseNode :: "Bdd \<Rightarrow> int \<Rightarrow> bool option" where
  "IsVariableBaseNode b expr = do {
     n \<leftarrow> GetNode b expr;
     Some (bdd_high n = bdd_one \<and> bdd_low n = bdd_zero) }"

definition GetVariableBaseNode :: "Bdd \<Rightarrow> int \<Rightarrow> int option" where
  "GetVariableBaseNode b var = do { res \<leftarrow> int_at (variable_base_nodes b) var; res }"

definition free_fill :: BddNode where
  "free_fill = \<lparr>bdd_variable = kFreeNodeVariable, bdd_high = kNextFreeIsConsecutive, bdd_low = 0, bdd_path_count = 0\<rparr>"

definition CreateNode :: "BddNode \<Rightarrow> Bdd \<Rightarrow> (int \<times> Bdd) option" where
  "CreateNode node b = do {
     let slot = free_node_head b;
     CHECK (0 \<le> slot \<and> slot \<le> int (length (nodes b)));
     let ns = (if slot = int (length (nodes b)) then nodes b @ replicate (length (nodes b)) free_fill else nodes b);
     old \<leftarrow> int_at ns slot;
     CHECK (IsFreeNode old);
     next_free \<leftarrow> GetNextFreeNode old;
     Some (slot, b\<lparr>nodes := ns[nat slot := node], free_node_head := NextFree next_free slot,
                   nodes_size := nodes_size b + 1\<rparr>) }"

definition CreateVariableBaseNode :: "int \<Rightarrow> Bdd \<Rightarrow> (int \<times> Bdd) option" where
  "CreateVariableBaseNode var b =
     CreateNode \<lparr>bdd_variable = var, bdd_high = bdd_one, bdd_low = bdd_zero, bdd_path_count = 2\<rparr> b"

definition GetOrCreateNode :: "int \<Rightarrow> int \<Rightarrow> int \<Rightarrow> Bdd \<Rightarrow> (int \<times> Bdd) option" where
  "GetOrCreateNode var hi lo b =
     (if lo = hi then Some (lo, b)
      else if lo = bdd_zero \<and> hi = bdd_one then do {
        base \<leftarrow> int_at (variable_base_nodes b) var;
        i \<leftarrow> base;
        Some (i, b) }
      else do {
        node_map \<leftarrow> int_at (node_map_by_var b) var;
        case map_of node_map (hi, lo) of
          Some i \<Rightarrow> Some (i, b)
        | None \<Rightarrow> do {
            l \<leftarrow> GetNode b lo;
            h \<leftarrow> GetNode b hi;
            let paths = min (bdd_path_count l + bdd_path_count h) int32_max;
            (i, b) \<leftarrow> CreateNode \<lparr>bdd_variable = var, bdd_high = hi, bdd_low = lo, bdd_path_count = paths\<rparr> b;
            Some (i, b\<lparr>node_map_by_var := (node_map_by_var b)[nat var := ((hi, lo), i) # node_map]\<rparr>) } })"

definition NewVariable :: "Bdd \<Rightarrow> (int \<times> Bdd) option" where
  "NewVariable b = do {
     let var = int (length (variable_base_nodes b));
     (index, b) \<leftarrow> CreateVariableBaseNode var b;
     Some (index, b\<lparr>variable_base_nodes := variable_base_nodes b @ [Some index],
                    node_map_by_var := node_map_by_var b @ [[]]\<rparr>) }"

definition NewVariables_step :: "nat \<Rightarrow> int list \<times> Bdd \<Rightarrow> (int list \<times> Bdd) option" where
  "NewVariables_step next_var = (\<lambda>(indexes, b). do {
     (index, b) \<leftarrow> CreateVariableBaseNode (int next_var) b;
     Some (indexes @ [index], b\<lparr>variable_base_nodes := variable_base_nodes b @ [Some index]\<rparr>) })"

definition NewVariables :: "nat \<Rightarrow> Bdd \<Rightarrow> (int list \<times> Bdd) option" where
  "NewVariables count b = do {
     let next_var = length (variable_base_nodes b);
     let new_size = next_var + count;
     (indexes, b) \<leftarrow> foldM NewVariables_step [next_var..<new_size] ([], b);
     Some (indexes, b\<lparr>node_map_by_var :=
        take new_size (node_map_by_var b) @ replicate (new_size - length (node_map_by_var b)) []\<rparr>) }"

section \<open>The cache of if-then-else results\<close>

definition kLossyCacheSize :: nat where "kLossyCacheSize = 2 ^ 17"

definition kCutoverThreshold :: nat where "kCutoverThreshold = 2 ^ 17"

definition IteCacheEntry_default :: IteCacheEntry where
  "IteCacheEntry_default =
     \<lparr>e_cond = kInfeasible, e_if_true = kInfeasible, e_if_false = kInfeasible, e_result = kInfeasible\<rparr>"

type_synonym ite_hash = "int \<times> int \<times> int \<Rightarrow> nat"

definition cache_Index :: "ite_hash \<Rightarrow> int \<Rightarrow> int \<Rightarrow> int \<Rightarrow> nat" where
  "cache_Index hash c t f = hash (c, t, f) mod kLossyCacheSize"

definition cache_Get :: "ite_hash \<Rightarrow> IteCache \<Rightarrow> int \<Rightarrow> int \<Rightarrow> int \<Rightarrow> int option option" where
  "cache_Get hash cache c t f =
     (case cache of
        ExactMap m \<Rightarrow> Some (map_of m (c, t, f))
      | LossyArray a \<Rightarrow> do {
          e \<leftarrow> nth_opt a (cache_Index hash c t f);
          Some (if e_cond e = c \<and> e_if_true e = t \<and> e_if_false e = f then Some (e_result e) else None) })"

definition TransitionToLossy_step ::
    "ite_hash \<Rightarrow> (int \<times> int \<times> int) \<times> int \<Rightarrow> IteCacheEntry list \<Rightarrow> IteCacheEntry list option" where
  "TransitionToLossy_step hash = (\<lambda>((c, t, f), result) a. do {
     e \<leftarrow> nth_opt a (cache_Index hash c t f);
     if e = IteCacheEntry_default \<or> (c, t, f) > (e_cond e, e_if_true e, e_if_false e)
     then set_opt a (cache_Index hash c t f) \<lparr>e_cond = c, e_if_true = t, e_if_false = f, e_result = result\<rparr>
     else Some a })"

definition TransitionToLossy :: "ite_hash \<Rightarrow> ((int \<times> int \<times> int) \<times> int) list \<Rightarrow> IteCache option" where
  "TransitionToLossy hash m = do {
     a \<leftarrow> foldM (TransitionToLossy_step hash) m (replicate kLossyCacheSize IteCacheEntry_default);
     Some (LossyArray a) }"

definition cache_Insert :: "ite_hash \<Rightarrow> int \<Rightarrow> int \<Rightarrow> int \<Rightarrow> int \<Rightarrow> IteCache \<Rightarrow> IteCache option" where
  "cache_Insert hash c t f result cache =
     (case cache of
        ExactMap m \<Rightarrow>
          let m = (if map_of m (c, t, f) = None then ((c, t, f), result) # m else m)
          in if length m > kCutoverThreshold then TransitionToLossy hash m else Some (ExactMap m)
      | LossyArray a \<Rightarrow> do {
          a \<leftarrow> set_opt a (cache_Index hash c t f) \<lparr>e_cond = c, e_if_true = t, e_if_false = f, e_result = result\<rparr>;
          Some (LossyArray a) })"

definition insert_result :: "ite_hash \<Rightarrow> int \<Rightarrow> int \<Rightarrow> int \<Rightarrow> int \<Rightarrow> Bdd \<Rightarrow> (int \<times> Bdd) option" where
  "insert_result hash c t f result b = do {
     cache \<leftarrow> cache_Insert hash c t f result (ite_cache b);
     Some (result, b\<lparr>ite_cache := cache\<rparr>) }"

section \<open>If-then-else\<close>

definition IfThenElseTrivial :: "int \<Rightarrow> int \<Rightarrow> int \<Rightarrow> int option" where
  "IfThenElseTrivial c t f =
     (if c = bdd_one then Some t
      else if c = bdd_zero then Some f
      else if t = bdd_one \<and> f = bdd_zero then Some c
      else if t = f then Some t
      else if c = kInfeasible \<or> t = kInfeasible \<or> f = kInfeasible then Some kInfeasible
      else None)"

record IfThenElseExpr =
  ite_cond :: int
  ite_if_true :: int
  ite_if_false :: int

record ITEDecomposition =
  min_var :: int
  true_cofactor :: IfThenElseExpr
  false_cofactor :: IfThenElseExpr

text \<open>The node of a branch, \<^verbatim>\<open>nullptr\<close> for the two leaves.\<close>

definition branch_node :: "Bdd \<Rightarrow> int \<Rightarrow> BddNode option option" where
  "branch_node b i =
     (if i \<noteq> bdd_zero \<and> i \<noteq> bdd_one then do { n \<leftarrow> GetNode b i; Some (Some n) } else Some None)"

definition branch_cofactors :: "BddNode option \<Rightarrow> int \<Rightarrow> int \<Rightarrow> int \<times> int" where
  "branch_cofactors n v i =
     (case n of Some e \<Rightarrow> if bdd_variable e = v then (bdd_high e, bdd_low e) else (i, i) | None \<Rightarrow> (i, i))"

definition DecomposeITE :: "Bdd \<Rightarrow> int \<Rightarrow> int \<Rightarrow> int \<Rightarrow> ITEDecomposition option" where
  "DecomposeITE b c t f = do {
     cond_node \<leftarrow> GetNode b c;
     t_node \<leftarrow> branch_node b t;
     f_node \<leftarrow> branch_node b f;
     let v = bdd_variable cond_node;
     let v = (case t_node of Some n \<Rightarrow> min v (bdd_variable n) | None \<Rightarrow> v);
     let v = (case f_node of Some n \<Rightarrow> min v (bdd_variable n) | None \<Rightarrow> v);
     let (ch, cl) = branch_cofactors (Some cond_node) v c;
     let (th, tl) = branch_cofactors t_node v t;
     let (fh, fl) = branch_cofactors f_node v f;
     Some \<lparr>min_var = v,
           true_cofactor = \<lparr>ite_cond = ch, ite_if_true = th, ite_if_false = fh\<rparr>,
           false_cofactor = \<lparr>ite_cond = cl, ite_if_true = tl, ite_if_false = fl\<rparr>\<rparr> }"

partial_function (option) IfThenElse :: "ite_hash \<Rightarrow> int \<Rightarrow> int \<Rightarrow> int \<Rightarrow> Bdd \<Rightarrow> (int \<times> Bdd) option" where
  "IfThenElse hash c t f b =
     (case IfThenElseTrivial c t f of
        Some r \<Rightarrow> Some (r, b)
      | None \<Rightarrow> do {
          cached \<leftarrow> cache_Get hash (ite_cache b) c t f;
          case cached of
            Some r \<Rightarrow> Some (r, b)
          | None \<Rightarrow> do {
              d \<leftarrow> DecomposeITE b c t f;
              (tc, b) \<leftarrow> IfThenElse hash (ite_cond (true_cofactor d)) (ite_if_true (true_cofactor d))
                            (ite_if_false (true_cofactor d)) b;
              if tc = kInfeasible then insert_result hash c t f kInfeasible b
              else do {
                (fc, b) \<leftarrow> IfThenElse hash (ite_cond (false_cofactor d)) (ite_if_true (false_cofactor d))
                              (ite_if_false (false_cofactor d)) b;
                if fc = kInfeasible then insert_result hash c t f kInfeasible b
                else if tc = fc then do {
                  pc \<leftarrow> bdd_path_count_of b tc;
                  insert_result hash c t f (if pc > max_paths b then kInfeasible else tc) b }
                else do {
                  pt \<leftarrow> bdd_path_count_of b tc;
                  pf \<leftarrow> bdd_path_count_of b fc;
                  let total = SaturatingAdd int64_type pt pf;
                  if sr_did_overflow total \<or> sr_result total > max_paths b
                  then insert_result hash c t f kInfeasible b
                  else do {
                    (r, b) \<leftarrow> GetOrCreateNode (min_var d) tc fc b;
                    insert_result hash c t f r b } } } } })"

definition to_constant :: "int \<Rightarrow> bool option" where
  "to_constant node = (if node = bdd_zero then Some False else if node = bdd_one then Some True else None)"

partial_function (option) IfThenElseConstant ::
    "ite_hash \<Rightarrow> int \<Rightarrow> int \<Rightarrow> int \<Rightarrow> Bdd \<Rightarrow> (bool option \<times> Bdd) option" where
  "IfThenElseConstant hash c t f b =
     (case IfThenElseTrivial c t f of
        Some r \<Rightarrow> Some (if r = kInfeasible then None else to_constant r, b)
      | None \<Rightarrow>
          if t = bdd_zero \<and> f = bdd_one then Some (map_option Not (to_constant c), b)
          else do {
            cached \<leftarrow> cache_Get hash (ite_cache b) c t f;
            case cached of
              Some r \<Rightarrow> Some (to_constant r, b)
            | None \<Rightarrow> do {
                d \<leftarrow> DecomposeITE b c t f;
                (then_branch, b) \<leftarrow> IfThenElseConstant hash (ite_cond (true_cofactor d))
                    (ite_if_true (true_cofactor d)) (ite_if_false (true_cofactor d)) b;
                case then_branch of
                  None \<Rightarrow> Some (None, b)
                | Some v \<Rightarrow> do {
                    (else_branch, b) \<leftarrow> IfThenElseConstant hash (ite_cond (false_cofactor d))
                        (ite_if_true (false_cofactor d)) (ite_if_false (false_cofactor d)) b;
                    if else_branch \<noteq> Some v then Some (None, b)
                    else do {
                      (_, b) \<leftarrow> insert_result hash c t f (if v then bdd_one else bdd_zero) b;
                      Some (Some v, b) } } } })"

definition bdd_Not :: "ite_hash \<Rightarrow> int \<Rightarrow> Bdd \<Rightarrow> (int \<times> Bdd) option" where
  "bdd_Not hash expr = IfThenElse hash expr bdd_zero bdd_one"

definition bdd_Or :: "ite_hash \<Rightarrow> int \<Rightarrow> int \<Rightarrow> Bdd \<Rightarrow> (int \<times> Bdd) option" where
  "bdd_Or hash x y = IfThenElse hash x bdd_one y"

definition bdd_And :: "ite_hash \<Rightarrow> int \<Rightarrow> int \<Rightarrow> Bdd \<Rightarrow> (int \<times> Bdd) option" where
  "bdd_And hash x y = IfThenElse hash x y bdd_zero"

definition bdd_Implies :: "ite_hash \<Rightarrow> int \<Rightarrow> int \<Rightarrow> Bdd \<Rightarrow> (int \<times> Bdd) option" where
  "bdd_Implies hash x y = IfThenElse hash x y bdd_one"

definition DoesImply :: "ite_hash \<Rightarrow> int \<Rightarrow> int \<Rightarrow> Bdd \<Rightarrow> (bool \<times> Bdd) option" where
  "DoesImply hash x y b = do { (r, b) \<leftarrow> IfThenElseConstant hash x y bdd_one b; Some (r = Some True, b) }"

definition MutuallyExclusive :: "ite_hash \<Rightarrow> int \<Rightarrow> int \<Rightarrow> Bdd \<Rightarrow> (bool \<times> Bdd) option" where
  "MutuallyExclusive hash x y b = do { (r, b) \<leftarrow> IfThenElseConstant hash x y bdd_zero b; Some (r = Some False, b) }"

section \<open>Evaluation and printing\<close>

partial_function (option) Evaluate_loop :: "Bdd \<Rightarrow> (int \<rightharpoonup> bool) \<Rightarrow> int \<Rightarrow> bool status_or option" where
  "Evaluate_loop b variable_values result =
     (if result \<noteq> bdd_zero \<and> result \<noteq> bdd_one then do {
        n \<leftarrow> GetNode b result;
        var_node \<leftarrow> GetVariableBaseNode b (bdd_variable n);
        case variable_values var_node of
          None \<Rightarrow> Some (Inl InvalidArgument)
        | Some x \<Rightarrow> Evaluate_loop b variable_values (if x then bdd_high n else bdd_low n) }
      else Some (Inr (result = bdd_one)))"

definition bdd_Evaluate :: "Bdd \<Rightarrow> int \<Rightarrow> (int \<rightharpoonup> bool) \<Rightarrow> bool status_or option" where
  "bdd_Evaluate b expr variable_values =
     (if expr = kInfeasible then Some (Inl InvalidArgument) else Evaluate_loop b variable_values expr)"

partial_function (option) ToStringDnfHelper ::
    "Bdd \<Rightarrow> int \<Rightarrow> int \<times> string list \<times> string \<Rightarrow> (int \<times> string list \<times> string) option" where
  "ToStringDnfHelper b expr s = (case s of (minterms_to_emit, terms, str) \<Rightarrow>
     if minterms_to_emit < 0 then Some s
     else if expr = bdd_zero then Some s
     else if expr = bdd_one then
       Some (minterms_to_emit - 1, terms,
         if minterms_to_emit = 0 then str @ '' + ...''
         else if str = [] then str_join ''.'' terms
         else str @ '' + '' @ str_join ''.'' terms)
     else do {
       node \<leftarrow> GetNode b expr;
       (m, terms, str) \<leftarrow> ToStringDnfHelper b (bdd_high node)
          (minterms_to_emit, terms @ [''x'' @ dec_string (bdd_variable node)], str);
       CHECK (terms \<noteq> []);
       (m, terms, str) \<leftarrow> ToStringDnfHelper b (bdd_low node)
          (m, butlast terms @ [''!x'' @ dec_string (bdd_variable node)], str);
       CHECK (terms \<noteq> []);
       Some (m, butlast terms, str) })"

definition ToStringDnf :: "Bdd \<Rightarrow> int \<Rightarrow> int \<Rightarrow> string option" where
  "ToStringDnf b expr minterm_limit =
     (if expr = kInfeasible then Some ''infeasible''
      else if expr = bdd_zero then Some ''0''
      else if expr = bdd_one then Some ''1''
      else do {
        (_, _, result) \<leftarrow> ToStringDnfHelper b expr
           (if minterm_limit = 0 then it_max int64_type else minterm_limit, [], []);
        Some result })"

section \<open>Garbage collection\<close>

text \<open>The threshold, a \<^verbatim>\<open>double\<close>, is a rational; with the default of one half both comparisons are exact.\<close>

definition bitmap_Get :: "inline_bitmap \<Rightarrow> int \<Rightarrow> bool option" where
  "bitmap_Get bm i = (if 0 \<le> i then InlineBitmap_Get bm (nat i) else None)"

definition bitmap_Set :: "inline_bitmap \<Rightarrow> int \<Rightarrow> inline_bitmap option" where
  "bitmap_Set bm i = (if 0 \<le> i then InlineBitmap_Set bm (nat i) True else None)"

partial_function (option) gc_mark ::
    "Bdd \<Rightarrow> int list \<Rightarrow> inline_bitmap \<Rightarrow> inline_bitmap \<Rightarrow> int \<Rightarrow> (inline_bitmap \<times> inline_bitmap \<times> int) option" where
  "gc_mark b worklist live_nodes live_variables cnt_live =
     (case worklist of
        [] \<Rightarrow> Some (live_nodes, live_variables, cnt_live)
      | node # worklist \<Rightarrow> do {
          live \<leftarrow> bitmap_Get live_nodes node;
          if live then gc_mark b worklist live_nodes live_variables cnt_live
          else do {
            n \<leftarrow> GetNode b node;
            live_nodes \<leftarrow> bitmap_Set live_nodes node;
            live_variables \<leftarrow> bitmap_Set live_variables (bdd_variable n);
            let worklist = (if bdd_high n \<noteq> bdd_one \<and> bdd_high n \<noteq> bdd_zero then worklist @ [bdd_high n] else worklist);
            let worklist = (if bdd_low n \<noteq> bdd_one \<and> bdd_low n \<noteq> bdd_zero then worklist @ [bdd_low n] else worklist);
            gc_mark b worklist live_nodes live_variables (cnt_live + 1) } })"

definition gc_is_dead :: "Bdd \<Rightarrow> inline_bitmap \<Rightarrow> nat \<Rightarrow> bool option" where
  "gc_is_dead b live_nodes idx = do {
     live \<leftarrow> InlineBitmap_Get live_nodes idx;
     if live then Some False
     else do { n \<leftarrow> nth_opt (nodes b) idx; Some (\<not> IsFreeNode n) } }"

definition gc_free_step :: "int list \<Rightarrow> int \<Rightarrow> nat \<Rightarrow> BddNode list \<Rightarrow> BddNode list option" where
  "gc_free_step dead head i ns = do {
     first_dead \<leftarrow> nth_opt dead i;
     second \<leftarrow> (if i + 1 < length dead then nth_opt dead (i + 1) else Some head);
     n \<leftarrow> int_at ns first_dead;
     set_opt ns (nat first_dead) (SetFreeNode n second) }"

definition gc_clear_variable :: "inline_bitmap \<Rightarrow> nat \<Rightarrow> Bdd \<Rightarrow> Bdd option" where
  "gc_clear_variable live_variables idx b = do {
     live \<leftarrow> InlineBitmap_Get live_variables idx;
     if live then Some b
     else do {
       vs \<leftarrow> set_opt (variable_base_nodes b) idx None;
       ms \<leftarrow> set_opt (node_map_by_var b) idx [];
       Some (b\<lparr>variable_base_nodes := vs, node_map_by_var := ms\<rparr>) } }"

definition cache_entry_live :: "inline_bitmap \<Rightarrow> (int \<times> int \<times> int) \<times> int \<Rightarrow> bool option" where
  "cache_entry_live live_nodes = (\<lambda>((c, t, f), result). do {
     x \<leftarrow> bitmap_Get live_nodes c;
     y \<leftarrow> (if x then bitmap_Get live_nodes t else Some False);
     z \<leftarrow> (if y then bitmap_Get live_nodes f else Some False);
     if z then if result \<noteq> kInfeasible then bitmap_Get live_nodes result else Some True else Some False })"

definition cache_GarbageCollect :: "inline_bitmap \<Rightarrow> IteCache \<Rightarrow> IteCache option" where
  "cache_GarbageCollect live_nodes cache =
     (case cache of
        ExactMap m \<Rightarrow> do { m \<leftarrow> filterM (cache_entry_live live_nodes) m; Some (ExactMap m) }
      | LossyArray a \<Rightarrow> Some (LossyArray (replicate (length a) IteCacheEntry_default)))"

text \<open>The debug walk along the new free list.\<close>

partial_function (option) gc_debug_walk :: "Bdd \<Rightarrow> int \<Rightarrow> int list \<Rightarrow> inline_bitmap \<Rightarrow> unit option" where
  "gc_debug_walk b head it debug_seen =
     (if 0 \<le> head \<and> head < int (length (nodes b)) \<and> head \<noteq> kNextFreeIsConsecutive then do {
        seen \<leftarrow> bitmap_Get debug_seen head;
        CHECK (\<not> seen);
        debug_seen \<leftarrow> bitmap_Set debug_seen head;
        CHECK (it = [] \<or> head = hd it);
        n \<leftarrow> int_at (nodes b) head;
        CHECK (IsFreeNode n);
        cur_next \<leftarrow> GetNextFreeNode n;
        if cur_next = kNextFreeIsConsecutive then Some ()
        else gc_debug_walk b (NextFree cur_next head) (tl it) debug_seen }
      else Some ())"

definition gc_sweep :: "Bdd \<Rightarrow> inline_bitmap \<Rightarrow> inline_bitmap \<Rightarrow> int \<Rightarrow> (int list \<times> Bdd) option" where
  "gc_sweep b live_nodes live_variables cnt_live = do {
     dead \<leftarrow> filterM (gc_is_dead b live_nodes) [0..<length (nodes b)];
     let dead = map int dead;
     ns \<leftarrow> foldM (gc_free_step dead (free_node_head b)) [0..<length dead] (nodes b);
     CHECK (dead \<noteq> []);
     let b = b\<lparr>nodes := ns, free_node_head := hd dead\<rparr>;
     b \<leftarrow> foldM (gc_clear_variable live_variables) [0..<ib_bit_count live_variables] b;
     cache \<leftarrow> cache_GarbageCollect live_nodes (ite_cache b);
     let b = b\<lparr>ite_cache := cache\<rparr>;
     ms \<leftarrow> mapM (filterM (\<lambda>(key, value). bitmap_Get live_nodes value)) (node_map_by_var b);
     let b = b\<lparr>node_map_by_var := ms, nodes_size := cnt_live, prev_nodes_size := cnt_live\<rparr>;
     gc_debug_walk b (free_node_head b) dead (InlineBitmap (length (nodes b)) False);
     Some (dead, b) }"

definition bdd_GarbageCollect :: "int list \<Rightarrow> rat \<Rightarrow> Bdd \<Rightarrow> (int list status_or \<times> Bdd) option" where
  "bdd_GarbageCollect roots gc_threshold b =
     (if of_int (nodes_size b) * gc_threshold < of_int (prev_nodes_size b) then Some (Inr [], b)
      else do {
        live_nodes \<leftarrow> bitmap_Set (InlineBitmap (length (nodes b)) False) bdd_zero;
        live_nodes \<leftarrow> bitmap_Set live_nodes bdd_one;
        (live_nodes, live_variables, cnt_live) \<leftarrow>
           gc_mark b roots live_nodes (InlineBitmap (length (variable_base_nodes b)) False) 2;
        if of_int cnt_live / of_int (nodes_size b) \<ge> gc_threshold \<or> cnt_live = nodes_size b then Some (Inr [], b)
        else if \<not> nodes_size b > cnt_live then Some (Inl Internal, b)
        else do {
          (dead, b) \<leftarrow> gc_sweep b live_nodes live_variables cnt_live;
          Some (Inr dead, b) } })"

declare IfThenElse.simps [code] IfThenElseConstant.simps [code] Evaluate_loop.simps [code]
  ToStringDnfHelper.simps [code] gc_mark.simps [code] gc_debug_walk.simps [code]

end
