(* ===== verification/Bdd_Tree.thy ===== *)
theory Bdd_Tree
  imports Main
begin

text \<open>
  Decision trees, the abstract values of the nodes of a diagram. A tree is reduced and ordered when
  no node has equal children and the variables increase along every path; such a tree is determined
  by the boolean function it computes.
\<close>

datatype bdt = Leaf bool | Branch int bdt bdt

primrec bdt_eval :: "bdt \<Rightarrow> (int \<Rightarrow> bool) \<Rightarrow> bool" where
  "bdt_eval (Leaf x) a = x"
| "bdt_eval (Branch v h l) a = (if a v then bdt_eval h a else bdt_eval l a)"

primrec bdt_vars :: "bdt \<Rightarrow> int set" where
  "bdt_vars (Leaf x) = {}"
| "bdt_vars (Branch v h l) = insert v (bdt_vars h \<union> bdt_vars l)"

primrec bdt_paths :: "bdt \<Rightarrow> int" where
  "bdt_paths (Leaf x) = 1"
| "bdt_paths (Branch v h l) = bdt_paths h + bdt_paths l"

fun bdt_above :: "int \<Rightarrow> bdt \<Rightarrow> bool" where
  "bdt_above v (Leaf x) = True"
| "bdt_above v (Branch w h l) = (v < w)"

primrec robdd :: "bdt \<Rightarrow> bool" where
  "robdd (Leaf x) = True"
| "robdd (Branch v h l) = (h \<noteq> l \<and> bdt_above v h \<and> bdt_above v l \<and> robdd h \<and> robdd l)"

lemma bdt_paths_pos: "0 < bdt_paths t"
  by (induction t) auto

lemma robdd_vars_above: "robdd t \<Longrightarrow> bdt_above v t \<Longrightarrow> w \<in> bdt_vars t \<Longrightarrow> v < w"
proof (induction t arbitrary: v)
  case (Branch u h l)
  consider "w = u" | "w \<in> bdt_vars h" | "w \<in> bdt_vars l" using Branch.prems(3) by auto
  then show ?case using Branch.IH(1)[of u] Branch.IH(2)[of u] Branch.prems(1,2) by cases auto
qed simp

lemma bdt_eval_indep: "v \<notin> bdt_vars t \<Longrightarrow> bdt_eval t (a(v := x)) = bdt_eval t a"
  by (induction t) auto

lemma bdt_eval_above: "robdd t \<Longrightarrow> bdt_above v t \<Longrightarrow> bdt_eval t (a(v := x)) = bdt_eval t a"
  using bdt_eval_indep robdd_vars_above by blast

text \<open>A tree that ignores its top variable has equal children.\<close>

lemma cofactor_evals:
  assumes "robdd (Branch v h l)" "\<And>a x. bdt_eval (Branch v h l) (a(v := x)) = f a"
  shows "bdt_eval h a = f a" "bdt_eval l a = f a"
  using assms(2)[of a True] assms(2)[of a False] assms(1) by (simp_all add: bdt_eval_above)

theorem robdd_canonical:
  "robdd t \<Longrightarrow> robdd u \<Longrightarrow> (\<And>a. bdt_eval t a = bdt_eval u a) \<Longrightarrow> t = u"
proof (induction "size t + size u" arbitrary: t u rule: less_induct)
  case less
  have collapse: False
    if s: "s \<in> {t, u}" "s = Branch v h l" and f: "\<And>a x. bdt_eval s (a(v := x)) = f a" for s v h l f
  proof -
    have r: "robdd (Branch v h l)" using s less.prems by auto
    have "h = l"
    proof (rule less.hyps)
      show "size h + size l < size t + size u" using s by (auto)
      show "bdt_eval h a = bdt_eval l a" for a
        using cofactor_evals[OF r, of f] f s(2) by simp
    qed (use r in auto)
    then show False using r by simp
  qed
  show ?case
  proof (cases t)
    case (Leaf x)
    then show ?thesis
    proof (cases u)
      case (Branch v h l)
      have "bdt_eval u a = x" for a using less.prems(3) Leaf by simp
      then show ?thesis using collapse[of u v h l "\<lambda>_. x"] Branch by blast
    qed (use less.prems(3) in auto)
  next
    case t: (Branch v h l)
    show ?thesis
    proof (cases u)
      case (Leaf x)
      have "bdt_eval t a = x" for a using less.prems(3) Leaf by simp
      then show ?thesis using collapse[of t v h l "\<lambda>_. x"] t by blast
    next
      case u: (Branch w h' l')
      consider "v < w" | "w < v" | "v = w" by linarith
      then show ?thesis
      proof cases
        case 1
        then have "bdt_eval t (a(v := x)) = bdt_eval u a" for a x
          using less.prems bdt_eval_above[of u v a x] u by simp
        then show ?thesis using collapse[of t v h l] t by blast
      next
        case 2
        then have "bdt_above w t" using t by simp
        then have "bdt_eval u (a(w := x)) = bdt_eval t a" for a x
          using bdt_eval_above[OF less.prems(1)] less.prems(3) by metis
        then show ?thesis using collapse[of u w h' l'] u by blast
      next
        case 3
        have "bdt_eval h a = bdt_eval h' a" "bdt_eval l a = bdt_eval l' a" for a
          using less.prems(3)[of "a(v := True)"] less.prems(3)[of "a(v := False)"] less.prems(1,2) t u 3
          by (simp_all add: bdt_eval_above)
        then have "h = h'" "l = l'" using less.hyps[of h h'] less.hyps[of l l'] less.prems(1,2) t u by auto
        then show ?thesis using t u 3 by simp
      qed
    qed
  qed
qed

section \<open>The tree of a function and its number of paths\<close>

definition represents :: "bdt \<Rightarrow> ((int \<Rightarrow> bool) \<Rightarrow> bool) \<Rightarrow> bool" where
  "represents t g = (robdd t \<and> (\<forall>a. bdt_eval t a = g a))"

definition exceeds :: "int \<Rightarrow> ((int \<Rightarrow> bool) \<Rightarrow> bool) \<Rightarrow> bool" where
  "exceeds m g = (\<forall>t. represents t g \<longrightarrow> m < bdt_paths t)"

lemma represents_unique: "represents t g \<Longrightarrow> represents u g \<Longrightarrow> t = u"
  using robdd_canonical by (auto simp: represents_def)

lemma exceedsI: "represents t g \<Longrightarrow> m < bdt_paths t \<Longrightarrow> exceeds m g"
  using represents_unique by (auto simp: exceeds_def)

lemma representsI: "robdd t \<Longrightarrow> (\<And>a. bdt_eval t a = g a) \<Longrightarrow> represents t g"
  by (simp add: represents_def)

text \<open>A function of finitely many variables has a reduced ordered tree.\<close>

lemma represents_exists:
  "sorted vs \<Longrightarrow> distinct vs \<Longrightarrow> (\<And>a a'. (\<And>v. v \<in> set vs \<Longrightarrow> a v = a' v) \<Longrightarrow> g a = g a') \<Longrightarrow>
   \<exists>t. represents t g \<and> bdt_vars t \<subseteq> set vs"
proof (induction vs arbitrary: g)
  case Nil
  have "g a = g (\<lambda>_. False)" for a by (rule Nil.prems(3)) simp
  then have "represents (Leaf (g (\<lambda>_. False))) g" by (intro representsI) (simp, metis bdt_eval.simps(1))
  then show ?case by (intro exI[of _ "Leaf (g (\<lambda>_. False))"]) simp
next
  case (Cons v vs)
  have sub: "\<exists>t. represents t (\<lambda>a. g (a(v := x))) \<and> bdt_vars t \<subseteq> set vs" for x
  proof (rule Cons.IH)
    fix a a' :: "int \<Rightarrow> bool" assume "\<And>w. w \<in> set vs \<Longrightarrow> a w = a' w"
    then show "g (a(v := x)) = g (a'(v := x))" by (intro Cons.prems(3)) auto
  qed (use Cons.prems in auto)
  obtain h l where hl: "represents h (\<lambda>a. g (a(v := True)))" "bdt_vars h \<subseteq> set vs"
      "represents l (\<lambda>a. g (a(v := False)))" "bdt_vars l \<subseteq> set vs"
    using sub by metis
  have "bdt_above v t" if "bdt_vars t \<subseteq> set vs" for t
    using that Cons.prems(1,2) by (cases t) (auto simp: order_less_le)
  moreover have "g (a(v := a v)) = g a" for a by simp
  ultimately show ?case
  proof (cases "h = l")
    case True
    then have "g (a(v := True)) = g (a(v := False))" for a using hl(1,3) by (simp add: represents_def)
    then have "g (a(v := True)) = g a" for a using fun_upd_triv[of a v] by (metis (full_types))
    then show ?thesis using hl(1,2) by (intro exI[of _ h]) (auto simp: represents_def)
  next
    case False
    have "bdt_eval (Branch v h l) a = g a" for a
      using hl(1,3) fun_upd_triv[of a v] by (cases "a v") (auto simp: represents_def)
    then show ?thesis using hl False \<open>\<And>t. bdt_vars t \<subseteq> set vs \<Longrightarrow> bdt_above v t\<close>
      by (intro exI[of _ "Branch v h l"]) (auto simp: represents_def)
  qed
qed

lemma exceeds_cofactor:
  assumes e: "exceeds m g1 \<or> exceeds m g0" and g: "\<And>a. g a = (if a v then g1 a else g0 a)"
    and i1: "\<And>w a x. w \<le> v \<Longrightarrow> g1 (a(w := x)) = g1 a" and i0: "\<And>w a x. w \<le> v \<Longrightarrow> g0 (a(w := x)) = g0 a"
  shows "exceeds m g"
  unfolding exceeds_def
proof (intro allI impI)
  fix t assume t: "represents t g"
  then have ev: "bdt_eval t a = g a" for a by (simp add: represents_def)
  have indep: "bdt_eval t (a(w := x)) = bdt_eval t a" if "w < v" for w a x
    using that by (simp add: ev g i1 i0)
  consider h l where "t = Branch v h l" | "bdt_above v t"
  proof (cases t)
    case (Branch w h l)
    have "\<not> w < v"
    proof
      assume "w < v"
      from indep[OF this] have "bdt_eval (Branch w h l) (a(w := x)) = bdt_eval t a" for a x unfolding Branch .
      from cofactor_evals[of w h l, OF _ this] have "h = l" using t Branch robdd_canonical[of h l] by (simp add: represents_def)
      then show False using t Branch by (simp add: represents_def)
    qed
    then show thesis using that Branch by (cases "w = v") auto
  qed (use that in simp)
  then show "m < bdt_paths t"
  proof cases
    case 1
    then have r: "robdd h" "robdd l" "bdt_above v h" "bdt_above v l" using t by (auto simp: represents_def)
    have "bdt_eval h a = g1 a" "bdt_eval l a = g0 a" for a
      using ev[of "a(v := True)"] ev[of "a(v := False)"] r 1 by (simp_all add: g i1 i0 bdt_eval_above)
    then have "represents h g1" "represents l g0" using r by (simp_all add: represents_def)
    then have "m < bdt_paths h \<or> m < bdt_paths l" using e by (auto simp: exceeds_def)
    then show ?thesis using 1 bdt_paths_pos[of h] bdt_paths_pos[of l] by auto
  next
    case 2
    then have "bdt_eval t (a(v := x)) = bdt_eval t a" for a x
      using bdt_eval_above[OF conjunct1[OF t[unfolded represents_def]]] by blast
    then have "bdt_eval t a = g1 a" "bdt_eval t a = g0 a" for a
      using ev[of "a(v := True)"] ev[of "a(v := False)"] g[of "a(v := True)"] g[of "a(v := False)"] by (simp_all add: i1 i0)
    then have "represents t g1" "represents t g0" using t by (simp_all add: represents_def)
    then show ?thesis using e by (auto simp: exceeds_def)
  qed
qed

text \<open>A reduced ordered tree over $n$ variables has at most $2^n$ paths.\<close>

lemma robdd_paths_bound: "robdd t \<Longrightarrow> bdt_vars t \<subseteq> {v..<w} \<Longrightarrow> bdt_paths t \<le> 2 ^ nat (w - v)"
proof (induction t arbitrary: v)
  case (Branch u h l)
  have u: "v \<le> u" "u < w" using Branch.prems(2) by auto
  have "bdt_vars h \<subseteq> {u + 1..<w}" "bdt_vars l \<subseteq> {u + 1..<w}"
    using Branch.prems robdd_vars_above[of h u] robdd_vars_above[of l u] by fastforce+
  then have "bdt_paths h \<le> 2 ^ nat (w - (u + 1))" "bdt_paths l \<le> 2 ^ nat (w - (u + 1))" using Branch by auto
  moreover have "nat (w - u) = Suc (nat (w - (u + 1)))" using u by linarith
  ultimately have "bdt_paths (Branch u h l) \<le> 2 ^ nat (w - u)" by simp
  also have "\<dots> \<le> 2 ^ nat (w - v)" using u by (intro power_increasing) auto
  finally show ?case .
qed simp

end
