(* ===== verification/Bdd_Heap.thy ===== *)
theory Bdd_Heap
  imports Bdd_Model Bdd_Tree
begin

text \<open>
  The vector of nodes: which slots are allocated, the tree a node stands for, the free list, and
  what allocating a node changes.
\<close>

lemma bdd_consts [simp]:
  "kInfeasible = - 1" "kFreeNodeVariable = - 2" "kNextFreeIsConsecutive = - 1" "bdd_zero = 0" "bdd_one = 1"
  by (simp_all add: kInfeasible_def kFreeNodeVariable_def kNextFreeIsConsecutive_def bdd_zero_def bdd_one_def)

section \<open>Allocated nodes and their trees\<close>

definition alloc :: "BddNode list \<Rightarrow> int \<Rightarrow> bool" where
  "alloc ns i = (0 \<le> i \<and> nat i < length ns \<and> \<not> IsFreeNode (ns ! nat i))"

abbreviation node_at :: "BddNode list \<Rightarrow> int \<Rightarrow> BddNode" where
  "node_at ns i \<equiv> ns ! nat i"

inductive tree_of :: "BddNode list \<Rightarrow> int \<Rightarrow> bdt \<Rightarrow> bool" for ns where
  false_leaf: "tree_of ns 0 (Leaf False)"
| true_leaf: "tree_of ns 1 (Leaf True)"
| branch: "\<lbrakk>2 \<le> i; alloc ns i; tree_of ns (bdd_high (node_at ns i)) h; tree_of ns (bdd_low (node_at ns i)) l\<rbrakk>
    \<Longrightarrow> tree_of ns i (Branch (bdd_variable (node_at ns i)) h l)"

inductive_cases tree_of_LeafE: "tree_of ns i (Leaf x)"
inductive_cases tree_of_BranchE: "tree_of ns i (Branch v h l)"

definition sem :: "BddNode list \<Rightarrow> int \<Rightarrow> (int \<Rightarrow> bool) \<Rightarrow> bool" where
  "sem ns i a = (\<exists>t. tree_of ns i t \<and> bdt_eval t a)"

lemma tree_of_unique: "tree_of ns i t \<Longrightarrow> tree_of ns i u \<Longrightarrow> t = u"
proof (induction arbitrary: u rule: tree_of.induct)
  case false_leaf
  then show ?case by (cases rule: tree_of.cases) auto
next
  case true_leaf
  then show ?case by (cases rule: tree_of.cases) auto
next
  case (branch i h l)
  from branch.prems branch.hyps(1) branch.IH show ?case by (cases rule: tree_of.cases) auto
qed

lemma sem_tree: "tree_of ns i t \<Longrightarrow> sem ns i a = bdt_eval t a"
  using tree_of_unique by (auto simp: sem_def)

definition node_ok :: "BddNode list \<Rightarrow> nat \<Rightarrow> BddNode \<Rightarrow> bool" where
  "node_ok ns nv n = (0 \<le> bdd_variable n \<and> bdd_variable n < int nv \<and> bdd_high n \<noteq> bdd_low n \<and>
     (\<forall>j\<in>{bdd_high n, bdd_low n}. alloc ns j \<and> (2 \<le> j \<longrightarrow> bdd_variable n < bdd_variable (node_at ns j))) \<and>
     bdd_path_count n = min (bdd_path_count (node_at ns (bdd_high n)) + bdd_path_count (node_at ns (bdd_low n))) int32_max)"

definition nodes_ok :: "BddNode list \<Rightarrow> nat \<Rightarrow> bool" where
  "nodes_ok ns nv = (2 \<le> length ns \<and> alloc ns 0 \<and> alloc ns 1 \<and>
     bdd_path_count (ns ! 0) = 1 \<and> bdd_path_count (ns ! 1) = 1 \<and>
     (\<forall>i\<ge>2. alloc ns i \<longrightarrow> node_ok ns nv (node_at ns i)) \<and>
     (\<forall>i\<ge>2. \<forall>j\<ge>2. alloc ns i \<longrightarrow> alloc ns j \<longrightarrow> bdd_variable (node_at ns i) = bdd_variable (node_at ns j) \<longrightarrow>
        bdd_high (node_at ns i) = bdd_high (node_at ns j) \<longrightarrow> bdd_low (node_at ns i) = bdd_low (node_at ns j) \<longrightarrow> i = j))"

lemma alloc_nonneg: "alloc ns i \<Longrightarrow> 0 \<le> i" by (simp add: alloc_def)

lemma nodes_okD:
  assumes "nodes_ok ns nv" "alloc ns i" "2 \<le> i"
  shows "0 \<le> bdd_variable (node_at ns i)" "bdd_variable (node_at ns i) < int nv"
    "bdd_high (node_at ns i) \<noteq> bdd_low (node_at ns i)"
    "alloc ns (bdd_high (node_at ns i))" "alloc ns (bdd_low (node_at ns i))"
    "2 \<le> bdd_high (node_at ns i) \<Longrightarrow> bdd_variable (node_at ns i) < bdd_variable (node_at ns (bdd_high (node_at ns i)))"
    "2 \<le> bdd_low (node_at ns i) \<Longrightarrow> bdd_variable (node_at ns i) < bdd_variable (node_at ns (bdd_low (node_at ns i)))"
  using assms unfolding nodes_ok_def node_ok_def by auto

text \<open>The level of a node counts the variables below its own; leaves have level zero.\<close>

definition level :: "BddNode list \<Rightarrow> nat \<Rightarrow> int \<Rightarrow> nat" where
  "level ns nv i = (if 2 \<le> i then nat (int nv - bdd_variable (node_at ns i)) else 0)"

lemma level_children:
  assumes "nodes_ok ns nv" "alloc ns i" "2 \<le> i"
  shows "level ns nv (bdd_high (node_at ns i)) < level ns nv i" "level ns nv (bdd_low (node_at ns i)) < level ns nv i"
  using nodes_okD[OF assms] nodes_okD[OF assms(1) nodes_okD(4)[OF assms]] nodes_okD[OF assms(1) nodes_okD(5)[OF assms]] assms(3)
  by (auto simp: level_def)

lemma alloc_tree: "nodes_ok ns nv \<Longrightarrow> alloc ns i \<Longrightarrow> \<exists>t. tree_of ns i t"
proof (induction "level ns nv i" arbitrary: i rule: less_induct)
  case less
  consider "i = 0" | "i = 1" | "2 \<le> i" using alloc_nonneg[OF less.prems(2)] by linarith
  then show ?case
  proof cases
    case 3
    note c = level_children[OF less.prems 3] nodes_okD(4,5)[OF less.prems 3]
    obtain h l where "tree_of ns (bdd_high (node_at ns i)) h" "tree_of ns (bdd_low (node_at ns i)) l"
      using less.hyps[OF c(1) less.prems(1) c(3)] less.hyps[OF c(2) less.prems(1) c(4)] by blast
    then show ?thesis using tree_of.branch 3 less.prems(2) by blast
  qed (use tree_of.intros in blast)+
qed

lemma tree_of_inj: "nodes_ok ns nv \<Longrightarrow> tree_of ns i t \<Longrightarrow> tree_of ns j t \<Longrightarrow> i = j"
proof (induction t arbitrary: i j)
  case (Leaf x)
  then show ?case by (auto elim!: tree_of_LeafE)
next
  case (Branch v h l)
  from Branch.prems(2) obtain i: "2 \<le> i" "alloc ns i" "v = bdd_variable (node_at ns i)"
      "tree_of ns (bdd_high (node_at ns i)) h" "tree_of ns (bdd_low (node_at ns i)) l" by (rule tree_of_BranchE)
  from Branch.prems(3) obtain j: "2 \<le> j" "alloc ns j" "v = bdd_variable (node_at ns j)"
      "tree_of ns (bdd_high (node_at ns j)) h" "tree_of ns (bdd_low (node_at ns j)) l" by (rule tree_of_BranchE)
  have "bdd_high (node_at ns i) = bdd_high (node_at ns j)" "bdd_low (node_at ns i) = bdd_low (node_at ns j)"
    using Branch.IH(1)[OF Branch.prems(1) i(4) j(4)] Branch.IH(2)[OF Branch.prems(1) i(5) j(5)] .
  then show ?case using Branch.prems(1) i j unfolding nodes_ok_def by metis
qed

lemma tree_of_robdd: "nodes_ok ns nv \<Longrightarrow> tree_of ns i t \<Longrightarrow> robdd t"
proof (induction t arbitrary: i)
  case (Branch v h l)
  from Branch.prems(2) obtain i: "2 \<le> i" "alloc ns i" "v = bdd_variable (node_at ns i)"
      "tree_of ns (bdd_high (node_at ns i)) h" "tree_of ns (bdd_low (node_at ns i)) l" by (rule tree_of_BranchE)
  note ok = nodes_okD[OF Branch.prems(1) i(2,1)]
  have above: "bdt_above v t" if "tree_of ns j t" "2 \<le> j \<Longrightarrow> v < bdd_variable (node_at ns j)" for t j
    using that by (cases rule: tree_of.cases) auto
  have "h \<noteq> l" using ok(3) tree_of_inj[OF Branch.prems(1)] i(4,5) by blast
  then show ?case using Branch.IH(1)[OF Branch.prems(1) i(4)] Branch.IH(2)[OF Branch.prems(1) i(5)]
      above[OF i(4)] above[OF i(5)] ok(6,7) i(3) by simp
qed simp

lemma sem_canonical:
  assumes "nodes_ok ns nv" "alloc ns i" "alloc ns j" "\<And>a. sem ns i a = sem ns j a"
  shows "i = j"
proof -
  obtain t u where tu: "tree_of ns i t" "tree_of ns j u" using alloc_tree assms by metis
  have "t = u" using robdd_canonical tree_of_robdd[OF assms(1)] tu assms(4) sem_tree by metis
  then show ?thesis using tree_of_inj[OF assms(1)] tu by blast
qed

lemma int32_max_nonneg [simp]: "0 \<le> int32_max" by (simp add: int32_max_def)

lemma saturating_sum: "0 \<le> m \<Longrightarrow> 0 < x \<Longrightarrow> 0 < y \<Longrightarrow> min (min x m + min y m) m = min (x + y) m" for x y m :: int
  by (auto simp: min_def)

lemma tree_of_paths:
  "nodes_ok ns nv \<Longrightarrow> tree_of ns i t \<Longrightarrow> bdd_path_count (node_at ns i) = min (bdt_paths t) int32_max"
proof (induction t arbitrary: i)
  case (Leaf x)
  then show ?case by (auto simp: nodes_ok_def int32_max_def elim!: tree_of_LeafE)
next
  case (Branch v h l)
  from Branch.prems(2) obtain i: "2 \<le> i" "alloc ns i"
      "tree_of ns (bdd_high (node_at ns i)) h" "tree_of ns (bdd_low (node_at ns i)) l" by (rule tree_of_BranchE)
  have "node_ok ns nv (node_at ns i)" using Branch.prems(1) i unfolding nodes_ok_def by blast
  then show ?case using Branch.IH(1)[OF Branch.prems(1) i(3)] Branch.IH(2)[OF Branch.prems(1) i(4)]
    by (simp add: node_ok_def saturating_sum bdt_paths_pos)
qed

lemma sem_leaf [simp]: "sem ns 0 a = False" "sem ns 1 a = True" "sem ns (- 1) a = False"
  by (auto simp: sem_def intro: tree_of.intros elim: tree_of.cases)

lemma sem_branch:
  assumes "nodes_ok ns nv" "alloc ns i" "2 \<le> i"
  shows "sem ns i a = (if a (bdd_variable (node_at ns i)) then sem ns (bdd_high (node_at ns i)) a
    else sem ns (bdd_low (node_at ns i)) a)"
proof -
  obtain h l where t: "tree_of ns (bdd_high (node_at ns i)) h" "tree_of ns (bdd_low (node_at ns i)) l"
    using alloc_tree[OF assms(1)] nodes_okD(4,5)[OF assms] by blast
  show ?thesis using sem_tree[OF tree_of.branch[OF assms(3,2) t]] sem_tree[OF t(1)] sem_tree[OF t(2)] by simp
qed

text \<open>Functions below a level do not depend on the variables above it.\<close>

lemma sem_indep:
  assumes "nodes_ok ns nv" "alloc ns i" "2 \<le> i \<Longrightarrow> v < bdd_variable (node_at ns i)"
  shows "sem ns i (a(v := x)) = sem ns i a"
proof -
  obtain t where t: "tree_of ns i t" using alloc_tree assms by blast
  then have "bdt_above v t" using assms(3) by (cases rule: tree_of.cases) auto
  then show ?thesis using sem_tree[OF t] bdt_eval_above tree_of_robdd[OF assms(1) t] by simp
qed

section \<open>Growing the vector\<close>

definition grows :: "BddNode list \<Rightarrow> BddNode list \<Rightarrow> bool" where
  "grows ns ns' = (\<forall>i. alloc ns i \<longrightarrow> alloc ns' i \<and> node_at ns' i = node_at ns i)"

lemma grows_refl [simp]: "grows ns ns" by (simp add: grows_def)

lemma grows_trans: "grows ns ns' \<Longrightarrow> grows ns' ns'' \<Longrightarrow> grows ns ns''" by (simp add: grows_def)

lemma grows_alloc: "grows ns ns' \<Longrightarrow> alloc ns i \<Longrightarrow> alloc ns' i" by (simp add: grows_def)

lemma tree_of_grows: "tree_of ns i t \<Longrightarrow> grows ns ns' \<Longrightarrow> tree_of ns' i t"
proof (induction rule: tree_of.induct)
  case (branch i h l)
  then have "node_at ns' i = node_at ns i" "alloc ns' i" by (simp_all add: grows_def)
  then show ?case using tree_of.branch[of i ns' h l] branch by simp
qed (rule tree_of.intros)+

lemma sem_grows:
  assumes "nodes_ok ns nv" "grows ns ns'" "alloc ns i"
  shows "sem ns' i = sem ns i"
proof
  fix a
  obtain t where t: "tree_of ns i t" using alloc_tree[OF assms(1,3)] by blast
  show "sem ns' i a = sem ns i a" using sem_tree[OF t] sem_tree[OF tree_of_grows[OF t assms(2)]] by simp
qed

lemma level_grows: "grows ns ns' \<Longrightarrow> alloc ns i \<Longrightarrow> level ns' nv i = level ns nv i"
  by (simp add: level_def grows_def)

section \<open>The free list\<close>

definition free_slots :: "BddNode list \<Rightarrow> int set" where
  "free_slots ns = {i. 0 \<le> i \<and> nat i < length ns \<and> IsFreeNode (node_at ns i)}"

inductive free_chain :: "BddNode list \<Rightarrow> int \<Rightarrow> int list \<Rightarrow> bool" for ns where
  chain_end: "free_chain ns (int (length ns)) []"
| chain_next: "\<lbrakk>i \<in> free_slots ns; free_chain ns (NextFree (bdd_high (node_at ns i)) i) fs\<rbrakk> \<Longrightarrow> free_chain ns i (i # fs)"

inductive_cases free_chain_NilE: "free_chain ns i []"
inductive_cases free_chain_ConsE: "free_chain ns i (k # fs)"

definition heap_ok :: "Bdd \<Rightarrow> bool" where
  "heap_ok b = ((\<exists>fs. free_chain (nodes b) (free_node_head b) fs \<and> distinct fs \<and> set fs = free_slots (nodes b)) \<and>
     nodes_size b = int (card {i. alloc (nodes b) i}))"

lemma free_chain_update:
  "free_chain ns i fs \<Longrightarrow> k \<notin> set fs \<Longrightarrow> 0 \<le> k \<Longrightarrow> free_chain (ns[nat k := n]) i fs"
proof (induction rule: free_chain.induct)
  case chain_end
  show ?case using free_chain.chain_end[of "ns[nat k := n]"] by simp
next
  case (chain_next i fs)
  have "nat k \<noteq> nat i" using chain_next by (auto simp: free_slots_def)
  then have "node_at (ns[nat k := n]) i = node_at ns i" "i \<in> free_slots (ns[nat k := n])"
    using chain_next.hyps(1) by (auto simp: free_slots_def)
  then show ?case using free_chain.chain_next[of i "ns[nat k := n]"] chain_next by simp
qed

lemma free_chain_fresh:
  "j \<le> m \<Longrightarrow> free_chain (ns @ replicate m free_fill) (int (length ns + (m - j))) (map int [length ns + (m - j)..<length ns + m])"
proof (induction j)
  case 0
  then show ?case using free_chain.chain_end[of "ns @ replicate m free_fill"] by simp
next
  case (Suc j)
  let ?i = "length ns + (m - Suc j)"
  have "node_at (ns @ replicate m free_fill) (int ?i) = free_fill" using Suc.prems by (simp add: nth_append)
  then have i: "int ?i \<in> free_slots (ns @ replicate m free_fill)"
      "NextFree (bdd_high (node_at (ns @ replicate m free_fill) (int ?i))) (int ?i) = int (Suc ?i)"
    using Suc.prems by (auto simp: free_slots_def IsFreeNode_def free_fill_def NextFree_def)
  have eq: "length ns + (m - j) = Suc ?i" using Suc.prems by simp
  have "free_chain (ns @ replicate m free_fill) (int (Suc ?i)) (map int [Suc ?i..<length ns + m])"
    using Suc.IH Suc.prems unfolding eq by simp
  then have "free_chain (ns @ replicate m free_fill) (int ?i) (int ?i # map int [Suc ?i..<length ns + m])"
    using free_chain.chain_next[OF i(1)] i(2) by simp
  moreover have "[?i..<length ns + m] = ?i # [Suc ?i..<length ns + m]" using Suc.prems by (intro upt_conv_Cons) simp
  ultimately show ?case by (simp only: list.map)
qed

lemma alloc_append_free: "alloc (ns @ replicate m free_fill) i = alloc ns i"
  by (auto simp: alloc_def nth_append IsFreeNode_def free_fill_def)

lemma alloc_append_node: "alloc ns i \<Longrightarrow> node_at (ns @ replicate m free_fill) i = node_at ns i"
  by (simp add: alloc_def nth_append)

lemma finite_alloc: "finite {i. alloc ns i}"
proof -
  have "{i. alloc ns i} \<subseteq> {0..<int (length ns)}" by (auto simp: alloc_def)
  then show ?thesis using finite_subset by blast
qed

text \<open>What allocation does to a heap with a free list: some slot that was not allocated takes the node.\<close>

definition allocated :: "BddNode \<Rightarrow> int \<Rightarrow> BddNode list \<Rightarrow> BddNode list \<Rightarrow> bool" where
  "allocated n i ns ns' = (\<not> alloc ns i \<and> (\<forall>j. alloc ns' j \<longleftrightarrow> alloc ns j \<or> j = i) \<and> node_at ns' i = n \<and>
     (\<forall>j. alloc ns j \<longrightarrow> node_at ns' j = node_at ns j))"

lemma allocated_update:
  assumes "i \<in> free_slots ns" "\<not> IsFreeNode n"
  shows "allocated n i ns (ns[nat i := n])" "free_slots (ns[nat i := n]) = free_slots ns - {i}"
  using assms by (auto simp: allocated_def alloc_def free_slots_def nth_list_update)

lemma allocated_grows: "allocated n i ns ns' \<Longrightarrow> grows ns ns'"
  by (auto simp: allocated_def grows_def)

lemma allocated_append: "allocated n i (ns @ replicate m free_fill) ns' \<Longrightarrow> allocated n i ns ns'"
  unfolding allocated_def alloc_append_free using alloc_append_node by metis

lemma CreateNode_ok:
  assumes "heap_ok b" "2 \<le> length (nodes b)" "\<not> IsFreeNode n"
  shows "\<exists>i ns hd. CreateNode n b = Some (i, b\<lparr>nodes := ns, free_node_head := hd, nodes_size := nodes_size b + 1\<rparr>) \<and>
    allocated n i (nodes b) ns \<and> 2 \<le> length ns \<and>
    heap_ok (b\<lparr>nodes := ns, free_node_head := hd, nodes_size := nodes_size b + 1\<rparr>)"
proof -
  obtain fs where fs: "free_chain (nodes b) (free_node_head b) fs" "distinct fs" "set fs = free_slots (nodes b)"
    using assms(1) by (auto simp: heap_ok_def)
  let ?h = "free_node_head b"
  let ?ns = "if ?h = int (length (nodes b)) then nodes b @ replicate (length (nodes b)) free_fill else nodes b"
  have "\<exists>gs. free_chain ?ns ?h (?h # gs) \<and> distinct (?h # gs) \<and> set (?h # gs) = free_slots ?ns"
  proof (cases fs)
    case (Cons k gs)
    with fs(1) have "k = ?h" "?h \<in> free_slots (nodes b)" by (auto elim: free_chain_ConsE)
    then have "?ns = nodes b" by (auto simp: free_slots_def)
    then show ?thesis using fs Cons \<open>k = ?h\<close> by auto
  next
    case Nil
    let ?l = "length (nodes b)"
    have h: "?h = int ?l" using fs(1) Nil by (auto elim: free_chain_NilE)
    have "free_slots ?ns = int ` {?l..<?l + ?l}"
    proof (intro equalityI subsetI)
      fix x assume x: "x \<in> free_slots ?ns"
      then have "x \<notin> free_slots (nodes b)" "0 \<le> x" "nat x < ?l + ?l" "\<not> nat x < ?l"
        using fs(3) Nil h by (auto simp: free_slots_def nth_append)
      then show "x \<in> int ` {?l..<?l + ?l}" by (auto simp: image_iff intro!: bexI[of _ "nat x"])
    qed (auto simp: h free_slots_def nth_append IsFreeNode_def free_fill_def)
    moreover have "free_chain ?ns ?h (map int [?l..<?l + ?l])" using free_chain_fresh[of ?l ?l "nodes b"] h by simp
    moreover have "[?l..<?l + ?l] = ?l # [Suc ?l..<?l + ?l]" using assms(2) by (intro upt_conv_Cons) linarith
    then have "map int [?l..<?l + ?l] = ?h # map int [Suc ?l..<?l + ?l]" using h by (simp only: list.map)
    moreover have "distinct (map int [?l..<?l + ?l])" by (simp add: distinct_map)
    ultimately show ?thesis by (metis list.set_map set_upt)
  qed
  then obtain gs where gs': "free_chain ?ns ?h (?h # gs)" "distinct (?h # gs)" "set (?h # gs) = free_slots ?ns" by blast
  define ns where "ns = ?ns"
  note gs = gs'[folded ns_def]
  have h: "?h \<in> free_slots ns" using gs(3) by auto
  let ?hd = "NextFree (bdd_high (node_at ns ?h)) ?h" and ?ns' = "ns[nat ?h := n]"
  let ?b = "b\<lparr>nodes := ?ns', free_node_head := ?hd, nodes_size := nodes_size b + 1\<rparr>"
  have "free_chain ns ?hd gs" using gs(1) by (auto elim: free_chain_ConsE)
  then have chain: "free_chain ?ns' ?hd gs" using gs(2) h by (intro free_chain_update) (auto simp: free_slots_def)
  note al = allocated_update[OF h assms(3)]
  have "allocated n i ns ns' \<Longrightarrow> allocated n i (nodes b) ns'" for i ns'
    using allocated_append[of n i "nodes b" "length (nodes b)" ns'] by (simp add: ns_def split: if_splits)
  then have new: "allocated n ?h (nodes b) ?ns'" using al(1) .
  then have "{i. alloc ?ns' i} = insert ?h {i. alloc (nodes b) i}" "\<not> alloc (nodes b) ?h" by (auto simp: allocated_def)
  then have "nodes_size ?b = int (card {i. alloc (nodes ?b) i})" using assms(1) finite_alloc by (simp add: heap_ok_def)
  moreover have "set gs = free_slots (nodes ?b)" "distinct gs" using gs(2,3) al(2) by auto
  moreover have "free_chain (nodes ?b) (free_node_head ?b) gs" using chain by simp
  ultimately have "heap_ok ?b" unfolding heap_ok_def by blast
  moreover have "0 \<le> ?h \<and> ?h \<le> int (length (nodes b))" using h by (auto simp: free_slots_def ns_def split: if_splits)
  then have "CreateNode n b = Some (?h, ?b)"
    using h unfolding CreateNode_def Let_def GetNextFreeNode_def ns_def[symmetric] by (simp add: free_slots_def)
  moreover have "2 \<le> length ?ns'" using assms(2) by (simp add: ns_def)
  ultimately show ?thesis using new by blast
qed

end
