(* ===== verification/Bdd_Inv.thy ===== *)
theory Bdd_Inv
  imports Bdd_Heap
begin

text \<open>
  The invariant of a diagram: the nodes are ordered, reduced and unique, the tables index exactly
  the allocated nodes, the free list holds exactly the other slots, and every cached result is
  right. Creating nodes and variables keeps it and changes no existing node.
\<close>

section \<open>The invariant\<close>

definition is_node :: "BddNode list \<Rightarrow> int \<Rightarrow> int \<Rightarrow> int \<Rightarrow> int \<Rightarrow> bool" where
  "is_node ns i v h l = (2 \<le> i \<and> alloc ns i \<and> bdd_variable (node_at ns i) = v \<and>
     bdd_high (node_at ns i) = h \<and> bdd_low (node_at ns i) = l)"

definition bases_ok :: "BddNode list \<Rightarrow> int option list \<Rightarrow> bool" where
  "bases_ok ns vb = (\<forall>v<length vb. (\<forall>i. vb ! v = Some i \<longrightarrow> is_node ns i (int v) 1 0) \<and>
     (\<forall>i h l. is_node ns i (int v) h l \<longrightarrow> vb ! v \<noteq> None))"

definition maps_ok :: "BddNode list \<Rightarrow> ((int \<times> int) \<times> int) list list \<Rightarrow> bool" where
  "maps_ok ns nm = (\<forall>v<length nm. distinct (map fst (nm ! v)) \<and>
     (\<forall>h l i. map_of (nm ! v) (h, l) = Some i \<longleftrightarrow> is_node ns i (int v) h l \<and> (h, l) \<noteq> (1, 0)))"

definition struct_ok :: "Bdd \<Rightarrow> bool" where
  "struct_ok b = (nodes_ok (nodes b) (length (variable_base_nodes b)) \<and> heap_ok b \<and>
     bases_ok (nodes b) (variable_base_nodes b) \<and> maps_ok (nodes b) (node_map_by_var b) \<and>
     length (node_map_by_var b) = length (variable_base_nodes b))"

definition ite_sem :: "BddNode list \<Rightarrow> int \<Rightarrow> int \<Rightarrow> int \<Rightarrow> (int \<Rightarrow> bool) \<Rightarrow> bool" where
  "ite_sem ns c t f a = (if sem ns c a then sem ns t a else sem ns f a)"

lemma ite_sem_grows:
  "nodes_ok ns nv \<Longrightarrow> grows ns ns' \<Longrightarrow> alloc ns c \<Longrightarrow> alloc ns t \<Longrightarrow> alloc ns f \<Longrightarrow> ite_sem ns' c t f = ite_sem ns c t f"
  using sem_grows[of ns nv ns'] by (intro ext) (simp add: ite_sem_def)

definition entry_ok :: "BddNode list \<Rightarrow> int \<Rightarrow> int \<Rightarrow> int \<Rightarrow> int \<Rightarrow> int \<Rightarrow> bool" where
  "entry_ok ns mp c t f r = (alloc ns c \<and> alloc ns t \<and> alloc ns f \<and>
     (if r = - 1 then exceeds mp (ite_sem ns c t f)
      else alloc ns r \<and> (\<forall>a. sem ns r a = ite_sem ns c t f a)))"

definition cache_ok :: "BddNode list \<Rightarrow> int \<Rightarrow> IteCache \<Rightarrow> bool" where
  "cache_ok ns mp cache = (case cache of
      ExactMap m \<Rightarrow> (\<forall>((c, t, f), r)\<in>set m. entry_ok ns mp c t f r)
    | LossyArray a \<Rightarrow> length a = kLossyCacheSize \<and>
        (\<forall>e\<in>set a. e_cond e \<noteq> - 1 \<longrightarrow> entry_ok ns mp (e_cond e) (e_if_true e) (e_if_false e) (e_result e)))"

definition bdd_inv :: "Bdd \<Rightarrow> bool" where
  "bdd_inv b = (struct_ok b \<and> cache_ok (nodes b) (max_paths b) (ite_cache b))"

lemma struct_okD:
  assumes "struct_ok b"
  shows "nodes_ok (nodes b) (length (variable_base_nodes b))" "heap_ok b"
    "bases_ok (nodes b) (variable_base_nodes b)" "maps_ok (nodes b) (node_map_by_var b)"
    "length (node_map_by_var b) = length (variable_base_nodes b)"
  using assms by (simp_all add: struct_ok_def)

lemma bdd_invD: "bdd_inv b \<Longrightarrow> struct_ok b" "bdd_inv b \<Longrightarrow> cache_ok (nodes b) (max_paths b) (ite_cache b)"
  by (simp_all add: bdd_inv_def)

lemma GetNode_alloc: "alloc (nodes b) i \<Longrightarrow> GetNode b i = Some (node_at (nodes b) i)"
  by (simp add: GetNode_def alloc_def)

lemma is_node_sem:
  "nodes_ok ns nv \<Longrightarrow> is_node ns i v h l \<Longrightarrow> sem ns i a = (if a v then sem ns h a else sem ns l a)"
  using sem_branch by (auto simp: is_node_def)

lemma is_node_unique: "nodes_ok ns nv \<Longrightarrow> is_node ns i v h l \<Longrightarrow> is_node ns j v h l \<Longrightarrow> i = j"
  by (auto simp: is_node_def nodes_ok_def)

section \<open>The cache\<close>

lemma entry_ok_grows:
  "nodes_ok ns nv \<Longrightarrow> grows ns ns' \<Longrightarrow> entry_ok ns mp c t f r \<Longrightarrow> entry_ok ns' mp c t f r"
  using sem_grows[of ns nv ns'] grows_alloc[of ns ns'] ite_sem_grows[of ns nv ns' c t f] by (simp add: entry_ok_def split: if_splits)

lemma cache_ok_grows:
  "nodes_ok ns nv \<Longrightarrow> grows ns ns' \<Longrightarrow> cache_ok ns mp cache \<Longrightarrow> cache_ok ns' mp cache"
  using entry_ok_grows[of ns nv ns' mp] by (cases cache) (fastforce simp: cache_ok_def)+

lemma cache_Index_less: "cache_Index hash c t f < kLossyCacheSize"
  by (simp add: cache_Index_def kLossyCacheSize_def)

lemma cache_Get_ok:
  assumes "cache_ok ns mp cache" "c \<noteq> - 1"
  shows "\<exists>x. cache_Get hash cache c t f = Some x \<and> (\<forall>r. x = Some r \<longrightarrow> entry_ok ns mp c t f r)"
proof (cases cache)
  case (ExactMap m)
  then show ?thesis using assms by (fastforce simp: cache_Get_def cache_ok_def dest: map_of_SomeD)
next
  case (LossyArray a)
  let ?e = "a ! cache_Index hash c t f"
  have "?e \<in> set a" "cache_Index hash c t f < length a"
    using LossyArray assms cache_Index_less by (auto simp: cache_ok_def)
  moreover from this have "e_cond ?e \<noteq> - 1 \<Longrightarrow> entry_ok ns mp (e_cond ?e) (e_if_true ?e) (e_if_false ?e) (e_result ?e)"
    using LossyArray assms(1) by (simp add: cache_ok_def)
  ultimately show ?thesis using assms(2) LossyArray by (auto simp: cache_Get_def)
qed

lemma lossy_update:
  assumes "cache_ok ns mp (LossyArray a)" "entry_ok ns mp c t f r"
  shows "cache_ok ns mp (LossyArray (a[k := \<lparr>e_cond = c, e_if_true = t, e_if_false = f, e_result = r\<rparr>]))"
  using assms set_update_subset_insert[of a k] by (fastforce simp: cache_ok_def)

lemma TransitionToLossy_ok:
  assumes "cache_ok ns mp (ExactMap m)"
  shows "\<exists>cache'. TransitionToLossy hash m = Some cache' \<and> cache_ok ns mp cache'"
proof -
  have "cache_ok ns mp (LossyArray a) \<Longrightarrow> cache_ok ns mp (ExactMap m) \<Longrightarrow>
      \<exists>a'. foldM (TransitionToLossy_step hash) m a = Some a' \<and> cache_ok ns mp (LossyArray a')" for a m
  proof (induction m arbitrary: a)
    case (Cons x m)
    obtain c t f r where x: "x = ((c, t, f), r)" by (metis prod.exhaust)
    have "entry_ok ns mp c t f r" "cache_ok ns mp (ExactMap m)" using Cons.prems(2) by (auto simp: cache_ok_def x)
    moreover have "cache_Index hash c t f < length a" using Cons.prems(1) cache_Index_less by (simp add: cache_ok_def)
    ultimately have "\<exists>a'. TransitionToLossy_step hash x a = Some a' \<and> cache_ok ns mp (LossyArray a')"
      using Cons.prems(1) lossy_update by (simp add: x TransitionToLossy_step_def)
    then show ?case using Cons.IH \<open>cache_ok ns mp (ExactMap m)\<close> by auto
  qed simp
  moreover have "cache_ok ns mp (LossyArray (replicate kLossyCacheSize IteCacheEntry_default))"
    by (simp add: cache_ok_def IteCacheEntry_default_def)
  ultimately show ?thesis using assms by (fastforce simp: TransitionToLossy_def)
qed

lemma cache_Insert_ok:
  assumes "cache_ok ns mp cache" "entry_ok ns mp c t f r"
  shows "\<exists>cache'. cache_Insert hash c t f r cache = Some cache' \<and> cache_ok ns mp cache'"
proof (cases cache)
  case (ExactMap m)
  let ?m = "if map_of m (c, t, f) = None then ((c, t, f), r) # m else m"
  have "cache_ok ns mp (ExactMap ?m)" using assms by (auto simp: ExactMap cache_ok_def)
  then show ?thesis using TransitionToLossy_ok[of ns mp ?m hash] unfolding cache_Insert_def ExactMap IteCache.case Let_def
    by (cases "length ?m > kCutoverThreshold") (simp_all only: if_True if_False, blast)
next
  case (LossyArray a)
  then have "cache_Index hash c t f < length a" using assms(1) cache_Index_less by (simp add: cache_ok_def)
  then show ?thesis using lossy_update[of ns mp a c t f r] assms by (simp add: LossyArray cache_Insert_def)
qed

section \<open>Creating nodes\<close>

lemma is_node_allocated:
  assumes "allocated n k ns ns'" "2 \<le> k"
  shows "is_node ns' i v h l \<longleftrightarrow> is_node ns i v h l \<or>
    i = k \<and> bdd_variable n = v \<and> bdd_high n = h \<and> bdd_low n = l"
  using assms by (auto simp: is_node_def allocated_def)

lemma allocated_index: "nodes_ok ns nv \<Longrightarrow> allocated n k ns ns' \<Longrightarrow> 2 \<le> k"
proof -
  assume a: "nodes_ok ns nv" "allocated n k ns ns'"
  then have "alloc ns 0" "alloc ns 1" "\<not> alloc ns k" "alloc ns' k" by (auto simp: nodes_ok_def allocated_def)
  then have "k \<noteq> 0" "k \<noteq> 1" "0 \<le> k" by (auto dest: alloc_nonneg)
  then show "2 \<le> k" by linarith
qed

lemma nodes_ok_allocated:
  assumes ok: "nodes_ok ns nv" and al: "allocated n k ns ns'" "2 \<le> length ns'" and n: "node_ok ns nv n"
    and fresh: "\<And>i. \<not> is_node ns i (bdd_variable n) (bdd_high n) (bdd_low n)"
  shows "nodes_ok ns' nv"
proof -
  have k: "2 \<le> k" by (rule allocated_index[OF ok al(1)])
  have g: "grows ns ns'" by (rule allocated_grows[OF al(1)])
  have same: "node_at ns' i = node_at ns i" if "alloc ns i" for i using al(1) that by (simp add: allocated_def)
  have step: "node_ok ns' nv m" if "node_ok ns nv m" for m
    using that same g by (auto simp: node_ok_def grows_def)
  have leaves: "alloc ns 0" "alloc ns 1" using ok by (simp_all add: nodes_ok_def)
  have "node_ok ns' nv (node_at ns' i)" if "2 \<le> i" "alloc ns' i" for i
    using that al(1) step[OF n] step ok same unfolding allocated_def nodes_ok_def by metis
  moreover have "i = j" if "2 \<le> i" "2 \<le> j" "alloc ns' i" "alloc ns' j" "bdd_variable (node_at ns' i) = bdd_variable (node_at ns' j)"
      "bdd_high (node_at ns' i) = bdd_high (node_at ns' j)" "bdd_low (node_at ns' i) = bdd_low (node_at ns' j)" for i j
  proof -
    have "is_node ns' i (bdd_variable (node_at ns' j)) (bdd_high (node_at ns' j)) (bdd_low (node_at ns' j))"
      "is_node ns' j (bdd_variable (node_at ns' j)) (bdd_high (node_at ns' j)) (bdd_low (node_at ns' j))"
      using that by (auto simp: is_node_def)
    then show ?thesis using is_node_unique[OF ok] fresh unfolding is_node_allocated[OF al(1) k] by metis
  qed
  moreover have "bdd_path_count (ns' ! 0) = 1" "bdd_path_count (ns' ! 1) = 1"
    using same[OF leaves(1)] same[OF leaves(2)] ok by (simp_all add: nodes_ok_def)
  ultimately show ?thesis using al(2) leaves g unfolding nodes_ok_def grows_def by blast
qed

text \<open>What an operation that only adds nodes may change.\<close>

definition extends :: "Bdd \<Rightarrow> Bdd \<Rightarrow> bool" where
  "extends b b' = (grows (nodes b) (nodes b') \<and> variable_base_nodes b' = variable_base_nodes b \<and> max_paths b' = max_paths b)"

lemma extends_refl [simp]: "extends b b" by (simp add: extends_def)

lemma extends_trans: "extends b b' \<Longrightarrow> extends b' b'' \<Longrightarrow> extends b b''"
  using grows_trans by (auto simp: extends_def)

lemma GetOrCreateNode_ok:
  assumes ok: "struct_ok b" and v: "0 \<le> v" "v < int (length (variable_base_nodes b))" "variable_base_nodes b ! nat v \<noteq> None"
    and al: "alloc (nodes b) h" "alloc (nodes b) l"
    and ord: "2 \<le> h \<Longrightarrow> v < bdd_variable (node_at (nodes b) h)" "2 \<le> l \<Longrightarrow> v < bdd_variable (node_at (nodes b) l)"
  shows "\<exists>r b'. GetOrCreateNode v h l b = Some (r, b') \<and> struct_ok b' \<and> extends b b' \<and> ite_cache b' = ite_cache b \<and>
    alloc (nodes b') r \<and> (\<forall>a. sem (nodes b') r a = (if a v then sem (nodes b') h a else sem (nodes b') l a))"
proof -
  let ?ns = "nodes b" and ?nv = "length (variable_base_nodes b)" and ?m = "node_map_by_var b ! nat v"
  note so = struct_okD[OF ok]
  have nv: "nat v < ?nv" "int (nat v) = v" using v by auto
  show ?thesis
  proof (cases "l = h \<or> l = 0 \<and> h = 1")
    case True
    then show ?thesis
    proof
      assume "l = h"
      then show ?thesis using ok al by (simp add: GetOrCreateNode_def)
    next
      assume e: "l = 0 \<and> h = 1"
      obtain i where i: "variable_base_nodes b ! nat v = Some i" using v(3) by blast
      then have n: "is_node ?ns i v 1 0" using so(3) nv by (auto simp: bases_ok_def)
      then have "alloc ?ns i" by (simp add: is_node_def)
      then show ?thesis using e i ok nv v(1) is_node_sem[OF so(1) n] by (simp add: GetOrCreateNode_def)
    qed
  next
    case False
    then have dispatch: "GetOrCreateNode v h l b = (case map_of ?m (h, l) of Some i \<Rightarrow> Some (i, b) | None \<Rightarrow> do {
            lo \<leftarrow> GetNode b l; hi \<leftarrow> GetNode b h;
            let paths = min (bdd_path_count lo + bdd_path_count hi) int32_max;
            (i, b) \<leftarrow> CreateNode \<lparr>bdd_variable = v, bdd_high = h, bdd_low = l, bdd_path_count = paths\<rparr> b;
            Some (i, b\<lparr>node_map_by_var := (node_map_by_var b)[nat v := ((h, l), i) # ?m]\<rparr>) })"
      using nv v(1) so(5) by (auto simp: GetOrCreateNode_def)
    have lookup: "map_of ?m (h, l) = Some i \<longleftrightarrow> is_node ?ns i v h l" for i
      using so(4,5) nv False by (auto simp: maps_ok_def)
    show ?thesis
    proof (cases "map_of ?m (h, l)")
      case (Some i)
      then have n: "is_node ?ns i v h l" using lookup by blast
      then have "alloc ?ns i" by (simp add: is_node_def)
      then show ?thesis using Some ok is_node_sem[OF so(1) n] by (simp add: dispatch)
    next
      case None
      let ?n = "\<lparr>bdd_variable = v, bdd_high = h, bdd_low = l,
          bdd_path_count = min (bdd_path_count (node_at ?ns l) + bdd_path_count (node_at ?ns h)) int32_max\<rparr>"
      have "\<not> IsFreeNode ?n" using v(1) by (simp add: IsFreeNode_def)
      moreover have "2 \<le> length ?ns" using so(1) by (simp add: nodes_ok_def)
      ultimately obtain i ns hd where c: "CreateNode ?n b = Some (i, b\<lparr>nodes := ns, free_node_head := hd, nodes_size := nodes_size b + 1\<rparr>)"
          "allocated ?n i ?ns ns" "2 \<le> length ns" "heap_ok (b\<lparr>nodes := ns, free_node_head := hd, nodes_size := nodes_size b + 1\<rparr>)"
        using CreateNode_ok[OF so(2)] by blast
      let ?nm = "(node_map_by_var b)[nat v := ((h, l), i) # ?m]"
      let ?b = "b\<lparr>nodes := ns, free_node_head := hd, nodes_size := nodes_size b + 1, node_map_by_var := ?nm\<rparr>"
      have i: "2 \<le> i" by (rule allocated_index[OF so(1) c(2)])
      note new = is_node_allocated[OF c(2) i]
      have fresh: "\<not> is_node ?ns j v h l" for j using None lookup by fastforce
      have "node_ok ?ns ?nv ?n" using v al ord False by (auto simp: node_ok_def add.commute)
      then have nok: "nodes_ok ns ?nv" using nodes_ok_allocated[OF so(1) c(2,3)] fresh by simp
      have g: "grows ?ns ns" by (rule allocated_grows[OF c(2)])
      have "bases_ok ns (variable_base_nodes b)"
        unfolding bases_ok_def
      proof (intro allI impI conjI)
        fix w assume w: "w < ?nv"
        show "is_node ns j (int w) 1 0" if "variable_base_nodes b ! w = Some j" for j
          using so(3) w that new unfolding bases_ok_def by blast
        show "variable_base_nodes b ! w \<noteq> None" if "is_node ns j (int w) h' l'" for j h' l'
        proof (cases "is_node ?ns j (int w) h' l'")
          case True
          then show ?thesis using so(3) w unfolding bases_ok_def by blast
        next
          case False
          then have "v = int w" using that unfolding new by simp
          then show ?thesis using v(3) by simp
        qed
      qed
      moreover have "maps_ok ns ?nm"
        unfolding maps_ok_def
      proof (intro allI impI conjI)
        fix w assume "w < length ?nm"
        then have w: "w < length (node_map_by_var b)" by simp
        then have old: "distinct (map fst (node_map_by_var b ! w))"
            "\<And>h l i. map_of (node_map_by_var b ! w) (h, l) = Some i \<longleftrightarrow> is_node ?ns i (int w) h l \<and> (h, l) \<noteq> (1, 0)"
          using so(4) by (auto simp: maps_ok_def)
        show "distinct (map fst (?nm ! w))"
          using old None w by (cases "w = nat v") (auto simp: map_of_eq_None_iff[symmetric])
        show "map_of (?nm ! w) (h', l') = Some j \<longleftrightarrow> is_node ns j (int w) h' l' \<and> (h', l') \<noteq> (1, 0)" for h' l' j
          using old(2)[of h' l' j] None w new fresh[of j] False nv(2)
          by (cases "w = nat v"; cases "(h', l') = (h, l)") auto
      qed
      ultimately have "struct_ok ?b" using nok c(4) so(5) by (simp add: struct_ok_def heap_ok_def)
      moreover have "is_node ns i v h l" using new by simp
      then have "alloc ns i" "sem ns i a = (if a v then sem ns h a else sem ns l a)" for a
        using is_node_sem[OF nok] by (simp_all add: is_node_def)
      moreover have "GetOrCreateNode v h l b = Some (i, ?b)"
        using None al c(1) by (simp add: dispatch GetNode_alloc)
      ultimately show ?thesis using g by (auto simp: extends_def)
    qed
  qed
qed

end
