(* ===== verification/Bdd_Ite.thy ===== *)
theory Bdd_Ite
  imports Bdd_Inv
begin

text \<open>
  Variables and if-then-else. \<open>IfThenElse\<close> always returns on a diagram that satisfies the invariant,
  and the node it returns computes the if-then-else of its arguments, unless it gives up because
  of the limit on the number of paths.
\<close>

section \<open>The empty diagram and new variables\<close>

lemma BinaryDecisionDiagram_inv: "bdd_inv (BinaryDecisionDiagram mp)"
proof -
  let ?b = "BinaryDecisionDiagram mp"
  have al: "alloc (nodes ?b) i \<longleftrightarrow> i = 0 \<or> i = 1" for i
    by (auto simp: BinaryDecisionDiagram_def alloc_def IsFreeNode_def nth_Cons' Let_def)
  then have "{i. alloc (nodes ?b) i} = {0, 1}" by auto
  moreover have "free_slots (nodes ?b) = {}"
    by (auto simp: BinaryDecisionDiagram_def free_slots_def IsFreeNode_def nth_Cons' Let_def)
  moreover have "free_chain (nodes ?b) (free_node_head ?b) []"
    using free_chain.chain_end[of "nodes ?b"] by (simp add: BinaryDecisionDiagram_def Let_def)
  ultimately have "heap_ok ?b" by (auto simp: heap_ok_def BinaryDecisionDiagram_def Let_def)
  moreover have "nodes_ok (nodes ?b) 0" unfolding nodes_ok_def al by (auto simp: BinaryDecisionDiagram_def Let_def)
  ultimately show ?thesis
    by (simp add: bdd_inv_def struct_ok_def bases_ok_def maps_ok_def cache_ok_def BinaryDecisionDiagram_def Let_def)
qed

lemma nodes_ok_Suc: "nodes_ok ns nv \<Longrightarrow> nodes_ok ns (Suc nv)"
  by (auto simp: nodes_ok_def node_ok_def)

lemma NewVariable_ok:
  assumes "bdd_inv b"
  shows "\<exists>i b'. NewVariable b = Some (i, b') \<and> bdd_inv b' \<and> grows (nodes b) (nodes b') \<and>
    variable_base_nodes b' = variable_base_nodes b @ [Some i] \<and> max_paths b' = max_paths b \<and>
    is_node (nodes b') i (int (length (variable_base_nodes b))) 1 0"
proof -
  let ?nv = "length (variable_base_nodes b)" and ?ns = "nodes b"
  let ?n = "\<lparr>bdd_variable = int ?nv, bdd_high = 1, bdd_low = 0, bdd_path_count = 2\<rparr>"
  have so: "nodes_ok ?ns ?nv" "heap_ok b" "bases_ok ?ns (variable_base_nodes b)" "maps_ok ?ns (node_map_by_var b)"
      "length (node_map_by_var b) = ?nv" "cache_ok ?ns (max_paths b) (ite_cache b)"
    using assms struct_okD[of b] by (simp_all add: bdd_inv_def)
  have "\<not> IsFreeNode ?n" "2 \<le> length ?ns" using so(1) by (simp_all add: IsFreeNode_def nodes_ok_def)
  then obtain i ns hd where c: "CreateNode ?n b = Some (i, b\<lparr>nodes := ns, free_node_head := hd, nodes_size := nodes_size b + 1\<rparr>)"
      "allocated ?n i ?ns ns" "2 \<le> length ns" "heap_ok (b\<lparr>nodes := ns, free_node_head := hd, nodes_size := nodes_size b + 1\<rparr>)"
    using CreateNode_ok[OF so(2)] by blast
  have i: "2 \<le> i" by (rule allocated_index[OF so(1) c(2)])
  note new = is_node_allocated[OF c(2) i]
  have old: "\<not> is_node ?ns j (int ?nv) h l" for j h l using nodes_okD(2)[OF so(1), of j] by (auto simp: is_node_def)
  have "node_ok ?ns (Suc ?nv) ?n" using so(1) by (auto simp: node_ok_def nodes_ok_def int32_max_def)
  then have nok: "nodes_ok ns (Suc ?nv)" using nodes_ok_allocated[OF nodes_ok_Suc[OF so(1)] c(2,3)] old by simp
  have g: "grows ?ns ns" by (rule allocated_grows[OF c(2)])
  let ?vb = "variable_base_nodes b @ [Some i]" and ?nm = "node_map_by_var b @ [[]]"
  have "bases_ok ns ?vb" unfolding bases_ok_def
  proof (intro allI impI conjI)
    fix w assume w: "w < length ?vb"
    show "is_node ns j (int w) 1 0" if "?vb ! w = Some j" for j
      using so(3) w that unfolding bases_ok_def new by (cases "w = ?nv") (auto simp: nth_append)
    show "?vb ! w \<noteq> None" if "is_node ns j (int w) h' l'" for j h' l'
    proof (cases "w = ?nv")
      case False
      then have "w < ?nv" "is_node ?ns j (int w) h' l'" using w that unfolding new by auto
      then have "variable_base_nodes b ! w \<noteq> None" using so(3) unfolding bases_ok_def by blast
      then show ?thesis using \<open>w < ?nv\<close> by (simp add: nth_append)
    qed simp
  qed
  moreover have "maps_ok ns ?nm" unfolding maps_ok_def
  proof (intro allI impI)
    fix w assume w: "w < length ?nm"
    show "distinct (map fst (?nm ! w)) \<and>
        (\<forall>h l j. map_of (?nm ! w) (h, l) = Some j \<longleftrightarrow> is_node ns j (int w) h l \<and> (h, l) \<noteq> (1, 0))"
    proof (cases "w = ?nv")
      case True
      then show ?thesis using old so(5) unfolding new by (auto simp: nth_append)
    next
      case False
      then have "w < length (node_map_by_var b)" "?nm ! w = node_map_by_var b ! w"
          "is_node ns j (int w) h l = is_node ?ns j (int w) h l" for j h l
        using w so(5) unfolding new by (auto simp: nth_append)
      then show ?thesis using so(4) unfolding maps_ok_def by metis
    qed
  qed
  moreover have "is_node ns i (int ?nv) 1 0" using new by simp
  ultimately show ?thesis using nok c(1,4) g so(5) cache_ok_grows[OF so(1) g so(6)]
    by (simp add: NewVariable_def CreateVariableBaseNode_def bdd_inv_def struct_ok_def heap_ok_def)
qed

lemma CreateNode_map: "CreateNode n (b\<lparr>node_map_by_var := m\<rparr>) = map_option (\<lambda>(i, b). (i, b\<lparr>node_map_by_var := m\<rparr>)) (CreateNode n b)"
  by (auto simp: CreateNode_def Let_def map_option_case split: Option.bind_splits)

text \<open>The reference for the bulk operation: one variable after the other.\<close>

primrec NewVariable_times :: "nat \<Rightarrow> Bdd \<Rightarrow> (int list \<times> Bdd) option" where
  "NewVariable_times 0 b = Some ([], b)"
| "NewVariable_times (Suc k) b = do {
     (is, b) \<leftarrow> NewVariable_times k b;
     (i, b) \<leftarrow> NewVariable b;
     Some (is @ [i], b) }"

lemma NewVariable_effect: "NewVariable b = Some (i, b') \<Longrightarrow> variable_base_nodes b' = variable_base_nodes b @ [Some i] \<and>
    node_map_by_var b' = node_map_by_var b @ [[]]"
  by (auto simp: NewVariable_def CreateVariableBaseNode_def CreateNode_def Let_def split: Option.bind_splits if_splits)

lemma NewVariable_times_effect: "NewVariable_times k b = Some (is, b') \<Longrightarrow>
    length (variable_base_nodes b') = length (variable_base_nodes b) + k \<and>
    node_map_by_var b' = node_map_by_var b @ replicate k []"
proof (induction k arbitrary: "is" b')
  case (Suc k)
  then show ?case by (auto simp: replicate_append_same dest!: NewVariable_effect split: Option.bind_splits)
qed simp

lemma NewVariables_fold:
  "foldM NewVariables_step [length (variable_base_nodes b)..<length (variable_base_nodes b) + k] ([], b) =
     map_option (\<lambda>(is, c). (is, c\<lparr>node_map_by_var := node_map_by_var b\<rparr>)) (NewVariable_times k b)"
proof (induction k)
  case (Suc k)
  let ?v = "length (variable_base_nodes b)"
  have "NewVariables_step (?v + k) (is, c\<lparr>node_map_by_var := node_map_by_var b\<rparr>) =
      map_option (\<lambda>(i, d). (is @ [i], d\<lparr>node_map_by_var := node_map_by_var b\<rparr>)) (NewVariable c)"
    if "NewVariable_times k b = Some (is, c)" for "is" c
    using NewVariable_times_effect[OF that]
    by (auto simp: NewVariables_step_def NewVariable_def CreateVariableBaseNode_def CreateNode_map map_option_case split: Option.bind_splits option.splits)
  then show ?case using Suc by (auto simp: foldM_append map_option_case split: option.splits prod.splits)
qed simp

lemma NewVariables_times:
  assumes "length (node_map_by_var b) = length (variable_base_nodes b)"
  shows "NewVariables k b = NewVariable_times k b"
proof (cases "NewVariable_times k b")
  case (Some x)
  then obtain "is" c where c: "NewVariable_times k b = Some (is, c)" by (cases x) auto
  then have "node_map_by_var c = node_map_by_var b @ replicate k []" using NewVariable_times_effect by blast
  then have "c\<lparr>node_map_by_var := node_map_by_var b @ replicate k []\<rparr> = c" by (cases c) simp
  then show ?thesis using c NewVariables_fold[of b k] assms by (simp add: NewVariables_def)
qed (use NewVariables_fold[of b k] in \<open>simp add: NewVariables_def\<close>)

section \<open>Shannon expansion\<close>

definition feasible :: "Bdd \<Rightarrow> int \<Rightarrow> bool" where
  "feasible b i = (i = - 1 \<or> alloc (nodes b) i)"

lemma IfThenElseTrivial_Some:
  "IfThenElseTrivial c t f = Some r \<Longrightarrow> r \<noteq> - 1 \<Longrightarrow> sem ns r a = ite_sem ns c t f a"
  by (auto simp: IfThenElseTrivial_def ite_sem_def split: if_splits)

lemma IfThenElseTrivial_arg: "IfThenElseTrivial c t f = Some r \<Longrightarrow> r = - 1 \<or> r \<in> {c, t, f}"
  by (auto simp: IfThenElseTrivial_def split: if_splits)

lemma IfThenElseTrivial_feasible: "IfThenElseTrivial c t f = Some (- 1) \<Longrightarrow> - 1 \<in> {c, t, f}"
  by (auto simp: IfThenElseTrivial_def split: if_splits)

lemma IfThenElseTrivial_None:
  "IfThenElseTrivial c t f = None \<Longrightarrow> c \<notin> {- 1, 0, 1} \<and> t \<noteq> - 1 \<and> f \<noteq> - 1 \<and> t \<noteq> f"
  by (auto simp: IfThenElseTrivial_def split: if_splits)

text \<open>The cofactor of one argument with respect to a variable that is not below its own.\<close>

definition cofactor_of :: "BddNode list \<Rightarrow> int \<Rightarrow> int \<Rightarrow> int \<times> int" where
  "cofactor_of ns v i = (if 2 \<le> i \<and> bdd_variable (node_at ns i) = v
     then (bdd_high (node_at ns i), bdd_low (node_at ns i)) else (i, i))"

lemma cofactor_of_ok:
  assumes ok: "nodes_ok ns nv" and al: "alloc ns i" and le: "2 \<le> i \<Longrightarrow> v \<le> bdd_variable (node_at ns i)"
    and c: "cofactor_of ns v i = (h, l)"
  shows "alloc ns h" "alloc ns l" "sem ns i a = (if a v then sem ns h a else sem ns l a)"
    "2 \<le> h \<Longrightarrow> v < bdd_variable (node_at ns h)" "2 \<le> l \<Longrightarrow> v < bdd_variable (node_at ns l)"
    "level ns nv h \<le> level ns nv i" "level ns nv l \<le> level ns nv i"
    "2 \<le> i \<Longrightarrow> v = bdd_variable (node_at ns i) \<Longrightarrow> level ns nv h < level ns nv i \<and> level ns nv l < level ns nv i"
proof -
  have "alloc ns h \<and> alloc ns l \<and> sem ns i a = (if a v then sem ns h a else sem ns l a) \<and>
      (2 \<le> h \<longrightarrow> v < bdd_variable (node_at ns h)) \<and> (2 \<le> l \<longrightarrow> v < bdd_variable (node_at ns l)) \<and>
      level ns nv h \<le> level ns nv i \<and> level ns nv l \<le> level ns nv i \<and>
      (2 \<le> i \<longrightarrow> v = bdd_variable (node_at ns i) \<longrightarrow> level ns nv h < level ns nv i \<and> level ns nv l < level ns nv i)"
  proof (cases "2 \<le> i \<and> bdd_variable (node_at ns i) = v")
    case True
    then have i: "2 \<le> i" "bdd_variable (node_at ns i) = v" by auto
    have "h = bdd_high (node_at ns i)" "l = bdd_low (node_at ns i)" using True c by (auto simp: cofactor_of_def)
    then show ?thesis using nodes_okD[OF ok al i(1)] level_children[OF ok al i(1)] sem_branch[OF ok al i(1), of a] i(2) by auto
  next
    case False
    then have "h = i" "l = i" using c by (auto simp: cofactor_of_def)
    then show ?thesis using al le False by auto
  qed
  then show "alloc ns h" "alloc ns l" "sem ns i a = (if a v then sem ns h a else sem ns l a)"
    "2 \<le> h \<Longrightarrow> v < bdd_variable (node_at ns h)" "2 \<le> l \<Longrightarrow> v < bdd_variable (node_at ns l)"
    "level ns nv h \<le> level ns nv i" "level ns nv l \<le> level ns nv i"
    "2 \<le> i \<Longrightarrow> v = bdd_variable (node_at ns i) \<Longrightarrow> level ns nv h < level ns nv i \<and> level ns nv l < level ns nv i" by auto
qed

lemma branch_node_cofactor:
  assumes "alloc (nodes b) i"
  shows "branch_node b i = Some (if 2 \<le> i then Some (node_at (nodes b) i) else None)"
    "branch_cofactors (if 2 \<le> i then Some (node_at (nodes b) i) else None) v i = cofactor_of (nodes b) v i"
  using assms alloc_nonneg[OF assms]
  by (auto simp: branch_node_def branch_cofactors_def cofactor_of_def GetNode_alloc)

lemma DecomposeITE_ok:
  assumes "alloc (nodes b) c" "alloc (nodes b) t" "alloc (nodes b) f" "2 \<le> c"
  shows "\<exists>v. DecomposeITE b c t f = Some \<lparr>min_var = v,
      true_cofactor = \<lparr>ite_cond = fst (cofactor_of (nodes b) v c), ite_if_true = fst (cofactor_of (nodes b) v t),
        ite_if_false = fst (cofactor_of (nodes b) v f)\<rparr>,
      false_cofactor = \<lparr>ite_cond = snd (cofactor_of (nodes b) v c), ite_if_true = snd (cofactor_of (nodes b) v t),
        ite_if_false = snd (cofactor_of (nodes b) v f)\<rparr>\<rparr> \<and>
    (\<forall>i\<in>{c, t, f}. 2 \<le> i \<longrightarrow> v \<le> bdd_variable (node_at (nodes b) i)) \<and>
    (\<exists>i\<in>{c, t, f}. 2 \<le> i \<and> v = bdd_variable (node_at (nodes b) i))"
proof -
  let ?n = "\<lambda>i. if 2 \<le> i then Some (node_at (nodes b) i) else None"
  let ?var = "\<lambda>i. bdd_variable (node_at (nodes b) i)"
  let ?v1 = "if 2 \<le> t then min (?var c) (?var t) else ?var c"
  let ?v = "if 2 \<le> f then min ?v1 (?var f) else ?v1"
  note br = branch_node_cofactor[OF assms(2)] branch_node_cofactor[OF assms(3)]
  have cc: "branch_cofactors (Some (node_at (nodes b) c)) ?v c = cofactor_of (nodes b) ?v c"
    using branch_node_cofactor(2)[OF assms(1), of ?v] assms(4) by simp
  have "(case ?n t of Some n \<Rightarrow> min (?var c) (bdd_variable n) | None \<Rightarrow> ?var c) = ?v1"
    "(case ?n f of Some n \<Rightarrow> min ?v1 (bdd_variable n) | None \<Rightarrow> ?v1) = ?v" by auto
  then have "DecomposeITE b c t f = Some \<lparr>min_var = ?v,
      true_cofactor = \<lparr>ite_cond = fst (cofactor_of (nodes b) ?v c), ite_if_true = fst (cofactor_of (nodes b) ?v t),
        ite_if_false = fst (cofactor_of (nodes b) ?v f)\<rparr>,
      false_cofactor = \<lparr>ite_cond = snd (cofactor_of (nodes b) ?v c), ite_if_true = snd (cofactor_of (nodes b) ?v t),
        ite_if_false = snd (cofactor_of (nodes b) ?v f)\<rparr>\<rparr>"
    unfolding DecomposeITE_def GetNode_alloc[OF assms(1)] br(1,3) Option.bind_lunit Let_def
    by (simp only: cc br(2,4) case_prod_unfold)
  moreover have "\<forall>i\<in>{c, t, f}. 2 \<le> i \<longrightarrow> ?v \<le> ?var i" by auto
  moreover have "\<exists>i\<in>{c, t, f}. 2 \<le> i \<and> ?v = ?var i" using assms(4) by (auto simp: min_def)
  ultimately show ?thesis by blast
qed

section \<open>If-then-else\<close>

definition ite_result :: "Bdd \<Rightarrow> int \<Rightarrow> int \<Rightarrow> int \<Rightarrow> int \<Rightarrow> Bdd \<Rightarrow> bool" where
  "ite_result b c t f r b' = (bdd_inv b' \<and> extends b b' \<and>
     (if r = - 1 then exceeds (max_paths b) (ite_sem (nodes b) c t f) \<or> - 1 \<in> {c, t, f}
      else alloc (nodes b') r \<and> (\<forall>a. sem (nodes b') r a = ite_sem (nodes b) c t f a)))"

lemma insert_result_ok:
  assumes "bdd_inv b" "entry_ok (nodes b) (max_paths b) c t f r"
  shows "\<exists>cache. insert_result hash c t f r b = Some (r, b\<lparr>ite_cache := cache\<rparr>) \<and> bdd_inv (b\<lparr>ite_cache := cache\<rparr>)"
  using cache_Insert_ok[OF bdd_invD(2)[OF assms(1)] assms(2), of hash] bdd_invD(1)[OF assms(1)]
  by (auto simp: insert_result_def bdd_inv_def struct_ok_def heap_ok_def)

lemma insert_ite_result:
  assumes "bdd_inv b" "bdd_inv b'" "extends b b'" "alloc (nodes b) c" "alloc (nodes b) t" "alloc (nodes b) f"
    and "if r = - 1 then exceeds (max_paths b) (ite_sem (nodes b) c t f)
         else alloc (nodes b') r \<and> (\<forall>a. sem (nodes b') r a = ite_sem (nodes b) c t f a)"
  shows "\<exists>b''. insert_result hash c t f r b' = Some (r, b'') \<and> ite_result b c t f r b''"
proof -
  have g: "grows (nodes b) (nodes b')" "max_paths b' = max_paths b" using assms(3) by (simp_all add: extends_def)
  have nok: "nodes_ok (nodes b) (length (variable_base_nodes b))" using struct_okD(1)[OF bdd_invD(1)[OF assms(1)]] .
  have "entry_ok (nodes b') (max_paths b') c t f r"
    using assms(4-7) grows_alloc[OF g(1)] ite_sem_grows[OF nok g(1) assms(4-6)] g(2) by (simp add: entry_ok_def split: if_splits)
  from insert_result_ok[OF assms(2) this] obtain cache where
    cache: "insert_result hash c t f r b' = Some (r, b'\<lparr>ite_cache := cache\<rparr>)" "bdd_inv (b'\<lparr>ite_cache := cache\<rparr>)" by blast
  then have "ite_result b c t f r (b'\<lparr>ite_cache := cache\<rparr>)"
    using assms(3,7) by (auto simp: ite_result_def extends_def)
  then show ?thesis using cache(1) by blast
qed

lemma path_count_ok:
  assumes "bdd_inv b" "alloc (nodes b) i"
  shows "bdd_path_count_of b i = Some (bdd_path_count (node_at (nodes b) i)) \<and>
    0 < bdd_path_count (node_at (nodes b) i) \<and> bdd_path_count (node_at (nodes b) i) \<le> int32_max"
proof -
  have nok: "nodes_ok (nodes b) (length (variable_base_nodes b))" using struct_okD(1)[OF bdd_invD(1)[OF assms(1)]] .
  obtain t where "tree_of (nodes b) i t" using alloc_tree[OF nok assms(2)] by blast
  then show ?thesis using tree_of_paths[OF nok] bdt_paths_pos[of t] alloc_nonneg[OF assms(2)]
    by (auto simp: bdd_path_count_of_def GetNode_alloc[OF assms(2)] int32_max_def)
qed

lemma total_paths:
  assumes "0 < p" "p \<le> int32_max" "0 < q" "q \<le> int32_max"
  shows "sr_did_overflow (SaturatingAdd int64_type p q) = False" "sr_result (SaturatingAdd int64_type p q) = p + q"
proof -
  have "0 \<le> p + q" "p + q < 2 ^ 63" using assms by (simp_all add: int32_max_def)
  moreover from this have "signed_take_bit 63 (p + q) = p + q" by (simp add: signed_take_bit_int_eq_self)
  ultimately show "sr_did_overflow (SaturatingAdd int64_type p q) = False" "sr_result (SaturatingAdd int64_type p q) = p + q"
    by (simp_all add: SaturatingAdd_def builtin_overflow_def int64_type_def it_min_def it_max_def it_wrap_def)
qed

lemma top_variable_above:
  assumes ok: "nodes_ok ns nv" "alloc ns r" "2 \<le> r" and indep: "\<And>w a x. w \<le> v \<Longrightarrow> sem ns r (a(w := x)) = sem ns r a"
  shows "v < bdd_variable (node_at ns r)"
proof (rule ccontr)
  let ?w = "bdd_variable (node_at ns r)" and ?h = "bdd_high (node_at ns r)" and ?l = "bdd_low (node_at ns r)"
  assume "\<not> v < ?w"
  then have ind: "sem ns r (a(?w := x)) = sem ns r a" for a x by (intro indep) simp
  note n = nodes_okD[OF ok]
  have "sem ns ?h a = sem ns ?l a" for a
  proof -
    have "sem ns ?h a = sem ns r (a(?w := True))" "sem ns ?l a = sem ns r (a(?w := False))"
      using sem_branch[OF ok] sem_indep[OF ok(1) n(4) n(6)] sem_indep[OF ok(1) n(5) n(7)] by auto
    then show ?thesis using ind by simp
  qed
  then show False using sem_canonical[OF ok(1) n(4,5)] n(3) by blast
qed

lemma ite_sem_indep:
  assumes "nodes_ok ns nv" "\<And>i. i \<in> {c, t, f} \<Longrightarrow> alloc ns i \<and> (2 \<le> i \<longrightarrow> v < bdd_variable (node_at ns i))" "w \<le> v"
  shows "ite_sem ns c t f (a(w := x)) = ite_sem ns c t f a"
proof -
  have "sem ns i (a(w := x)) = sem ns i a" if "i \<in> {c, t, f}" for i
  proof (rule sem_indep[OF assms(1)])
    show "alloc ns i" using assms(2)[OF that] by (rule conjunct1)
    show "w < bdd_variable (node_at ns i)" if "2 \<le> i"
      using assms(2)[OF \<open>i \<in> {c, t, f}\<close>] that assms(3) by linarith
  qed
  then show ?thesis by (simp add: ite_sem_def)
qed

text \<open>The two cofactors of a non-trivial if-then-else.\<close>

lemma cofactors_ok:
  assumes inv: "bdd_inv b" and al: "alloc (nodes b) c" "alloc (nodes b) t" "alloc (nodes b) f" and c: "2 \<le> c"
  shows "\<exists>d. DecomposeITE b c t f = Some d \<and>
    0 \<le> min_var d \<and> min_var d < int (length (variable_base_nodes b)) \<and> variable_base_nodes b ! nat (min_var d) \<noteq> None \<and>
    (\<forall>e\<in>{true_cofactor d, false_cofactor d}.
       (\<forall>i\<in>{ite_cond e, ite_if_true e, ite_if_false e}. alloc (nodes b) i \<and> (2 \<le> i \<longrightarrow> min_var d < bdd_variable (node_at (nodes b) i))) \<and>
       (let lv = level (nodes b) (length (variable_base_nodes b)) in
        lv (ite_cond e) + lv (ite_if_true e) + lv (ite_if_false e) < lv c + lv t + lv f)) \<and>
    (\<forall>a. ite_sem (nodes b) c t f a = (let e = (if a (min_var d) then true_cofactor d else false_cofactor d)
        in ite_sem (nodes b) (ite_cond e) (ite_if_true e) (ite_if_false e) a))"
proof -
  let ?ns = "nodes b" and ?nv = "length (variable_base_nodes b)"
  note so = struct_okD[OF bdd_invD(1)[OF inv]]
  obtain v where v: "DecomposeITE b c t f = Some \<lparr>min_var = v,
      true_cofactor = \<lparr>ite_cond = fst (cofactor_of ?ns v c), ite_if_true = fst (cofactor_of ?ns v t),
        ite_if_false = fst (cofactor_of ?ns v f)\<rparr>,
      false_cofactor = \<lparr>ite_cond = snd (cofactor_of ?ns v c), ite_if_true = snd (cofactor_of ?ns v t),
        ite_if_false = snd (cofactor_of ?ns v f)\<rparr>\<rparr>"
      "\<And>i. i \<in> {c, t, f} \<Longrightarrow> 2 \<le> i \<Longrightarrow> v \<le> bdd_variable (node_at ?ns i)"
      "\<exists>i\<in>{c, t, f}. 2 \<le> i \<and> v = bdd_variable (node_at ?ns i)"
    using DecomposeITE_ok[OF al c] by blast
  obtain i where i: "i \<in> {c, t, f}" "2 \<le> i" "v = bdd_variable (node_at ?ns i)" using v(3) by blast
  have ial: "alloc ?ns i" using i(1) al by auto
  have nv: "0 \<le> v" "v < int ?nv" using nodes_okD(1,2)[OF so(1) ial i(2)] i(3) by auto
  have "is_node ?ns i (int (nat v)) (bdd_high (node_at ?ns i)) (bdd_low (node_at ?ns i))"
    using i ial nv by (simp add: is_node_def)
  moreover have "nat v < ?nv" using nv by linarith
  ultimately have base: "variable_base_nodes b ! nat v \<noteq> None" using so(3) unfolding bases_ok_def by blast
  have co: "alloc ?ns (fst (cofactor_of ?ns v j))" "alloc ?ns (snd (cofactor_of ?ns v j))"
      "sem ?ns j a = (if a v then sem ?ns (fst (cofactor_of ?ns v j)) a else sem ?ns (snd (cofactor_of ?ns v j)) a)"
      "2 \<le> fst (cofactor_of ?ns v j) \<Longrightarrow> v < bdd_variable (node_at ?ns (fst (cofactor_of ?ns v j)))"
      "2 \<le> snd (cofactor_of ?ns v j) \<Longrightarrow> v < bdd_variable (node_at ?ns (snd (cofactor_of ?ns v j)))"
      "level ?ns ?nv (fst (cofactor_of ?ns v j)) \<le> level ?ns ?nv j" "level ?ns ?nv (snd (cofactor_of ?ns v j)) \<le> level ?ns ?nv j"
      "2 \<le> j \<Longrightarrow> v = bdd_variable (node_at ?ns j) \<Longrightarrow> level ?ns ?nv (fst (cofactor_of ?ns v j)) < level ?ns ?nv j \<and>
         level ?ns ?nv (snd (cofactor_of ?ns v j)) < level ?ns ?nv j"
    if "j \<in> {c, t, f}" for j a
  proof -
    have "alloc ?ns j" using that al by auto
    note k = cofactor_of_ok[OF so(1) this v(2)[OF that] prod.collapse[symmetric]]
    show "alloc ?ns (fst (cofactor_of ?ns v j))" "alloc ?ns (snd (cofactor_of ?ns v j))"
      "sem ?ns j a = (if a v then sem ?ns (fst (cofactor_of ?ns v j)) a else sem ?ns (snd (cofactor_of ?ns v j)) a)"
      "2 \<le> fst (cofactor_of ?ns v j) \<Longrightarrow> v < bdd_variable (node_at ?ns (fst (cofactor_of ?ns v j)))"
      "2 \<le> snd (cofactor_of ?ns v j) \<Longrightarrow> v < bdd_variable (node_at ?ns (snd (cofactor_of ?ns v j)))"
      "level ?ns ?nv (fst (cofactor_of ?ns v j)) \<le> level ?ns ?nv j" "level ?ns ?nv (snd (cofactor_of ?ns v j)) \<le> level ?ns ?nv j"
      "2 \<le> j \<Longrightarrow> v = bdd_variable (node_at ?ns j) \<Longrightarrow> level ?ns ?nv (fst (cofactor_of ?ns v j)) < level ?ns ?nv j \<and>
         level ?ns ?nv (snd (cofactor_of ?ns v j)) < level ?ns ?nv j"
      using k by blast+
  qed
  have lev: "level ?ns ?nv (p (cofactor_of ?ns v c)) + level ?ns ?nv (p (cofactor_of ?ns v t)) + level ?ns ?nv (p (cofactor_of ?ns v f)) <
      level ?ns ?nv c + level ?ns ?nv t + level ?ns ?nv f" if "p = fst \<or> p = snd" for p
    using that i co(6-8)[of c] co(6-8)[of t] co(6-8)[of f] by auto
  have shannon: "ite_sem ?ns c t f a = (if a v then ite_sem ?ns (fst (cofactor_of ?ns v c)) (fst (cofactor_of ?ns v t)) (fst (cofactor_of ?ns v f)) a
      else ite_sem ?ns (snd (cofactor_of ?ns v c)) (snd (cofactor_of ?ns v t)) (snd (cofactor_of ?ns v f)) a)" for a
    using co(3)[of c a] co(3)[of t a] co(3)[of f a] by (simp add: ite_sem_def)
  show ?thesis unfolding v(1) using nv base co(1,2,4,5) lev[of fst] lev[of snd] shannon by simp
qed

end
