(* ===== verification/Bdd_Apply.thy ===== *)
theory Bdd_Apply
  imports Bdd_Ite
begin

text \<open>
  If-then-else returns on every diagram that satisfies the invariant, and so do the operations
  made of it; the constant test that avoids building nodes is sound, and exact where the limit on
  the number of paths cannot be reached.
\<close>

section \<open>If-then-else\<close>

lemma tree_above: "tree_of ns i t \<Longrightarrow> (2 \<le> i \<Longrightarrow> v < bdd_variable (node_at ns i)) \<Longrightarrow> bdt_above v t"
  by (cases rule: tree_of.cases) auto

lemma ite_join_ok:
  assumes inv: "bdd_inv b" "bdd_inv b'" "extends b b'" and al: "alloc (nodes b) c" "alloc (nodes b) t" "alloc (nodes b) f"
    and v: "0 \<le> v" "v < int (length (variable_base_nodes b))" "variable_base_nodes b ! nat v \<noteq> None"
    and co: "alloc (nodes b') tc" "alloc (nodes b') fc"
    and ord: "2 \<le> tc \<Longrightarrow> v < bdd_variable (node_at (nodes b') tc)" "2 \<le> fc \<Longrightarrow> v < bdd_variable (node_at (nodes b') fc)"
    and shannon: "\<And>a. ite_sem (nodes b) c t f a = (if a v then sem (nodes b') tc a else sem (nodes b') fc a)"
  shows "\<exists>r b''. (if tc = fc then do {
                  pc \<leftarrow> bdd_path_count_of b' tc;
                  insert_result hash c t f (if pc > max_paths b' then kInfeasible else tc) b' }
                else do {
                  pt \<leftarrow> bdd_path_count_of b' tc;
                  pf \<leftarrow> bdd_path_count_of b' fc;
                  let total = SaturatingAdd int64_type pt pf;
                  if sr_did_overflow total \<or> sr_result total > max_paths b'
                  then insert_result hash c t f kInfeasible b'
                  else do {
                    (r, b') \<leftarrow> GetOrCreateNode v tc fc b';
                    insert_result hash c t f r b' } }) = Some (r, b'') \<and> ite_result b c t f r b''"
proof -
  let ?p = "\<lambda>i. bdd_path_count (node_at (nodes b') i)"
  note pt = path_count_ok[OF inv(2) co(1)] and pf = path_count_ok[OF inv(2) co(2)]
  have vb: "variable_base_nodes b' = variable_base_nodes b" "max_paths b' = max_paths b" using inv(3) by (simp_all add: extends_def)
  note ins = insert_ite_result[OF inv al]
  have nok: "nodes_ok (nodes b') (length (variable_base_nodes b'))" by (rule struct_okD(1)[OF bdd_invD(1)[OF inv(2)]])
  obtain x y where xy: "tree_of (nodes b') tc x" "tree_of (nodes b') fc y" using alloc_tree[OF nok] co by blast
  have tp: "?p tc = min (bdt_paths x) int32_max" "?p fc = min (bdt_paths y) int32_max" using tree_of_paths[OF nok] xy by auto
  have tr: "represents x (sem (nodes b') tc)" "represents y (sem (nodes b') fc)"
    using tree_of_robdd[OF nok] sem_tree xy by (auto simp: represents_def)
  show ?thesis
  proof (cases "tc = fc")
    case True
    let ?r = "if ?p tc > max_paths b' then - 1 else tc"
    have "represents x (ite_sem (nodes b) c t f)" using tr(1) shannon True by (simp add: represents_def)
    then have "exceeds (max_paths b) (ite_sem (nodes b) c t f)" if "?p tc > max_paths b'"
      by (rule exceedsI) (use tp(1) that vb(2) in simp)
    then have "if ?r = - 1 then exceeds (max_paths b) (ite_sem (nodes b) c t f)
        else alloc (nodes b') ?r \<and> (\<forall>a. sem (nodes b') ?r a = ite_sem (nodes b) c t f a)"
      using co shannon True alloc_nonneg[OF co(1)] by auto
    from ins[OF this, of hash] obtain b'' where "insert_result hash c t f ?r b' = Some (?r, b'')" "ite_result b c t f ?r b''" by blast
    then have "\<exists>r b''. insert_result hash c t f ?r b' = Some (r, b'') \<and> ite_result b c t f r b''" by blast
    then show ?thesis unfolding True[symmetric] using pt by (simp only: if_True Option.bind_lunit bdd_consts simp_thms)
  next
    case False
    note tot = total_paths[of "?p tc" "?p fc"]
    show ?thesis
    proof (cases "?p tc + ?p fc > max_paths b'")
      case True
      then have "max_paths b < bdt_paths (Branch v x y)" using tp vb(2) by simp
      moreover have "represents (Branch v x y) (ite_sem (nodes b) c t f)"
      proof (rule representsI)
        have "x \<noteq> y" using tree_of_inj[OF nok] xy False by blast
        then show "robdd (Branch v x y)" using tr xy ord tree_above by (simp add: represents_def)
        show "bdt_eval (Branch v x y) a = ite_sem (nodes b) c t f a" for a using tr by (simp add: shannon represents_def)
      qed
      ultimately have "exceeds (max_paths b) (ite_sem (nodes b) c t f)" by (rule exceedsI[rotated])
      then show ?thesis using ins[of "- 1" hash] pt pf tot True False by auto
    next
      case fits: False
      obtain r b2 where r: "GetOrCreateNode v tc fc b' = Some (r, b2)" "struct_ok b2" "extends b' b2" "ite_cache b2 = ite_cache b'"
          "alloc (nodes b2) r" "\<And>a. sem (nodes b2) r a = (if a v then sem (nodes b2) tc a else sem (nodes b2) fc a)"
        using GetOrCreateNode_ok[OF bdd_invD(1)[OF inv(2)], of v tc fc] v co ord unfolding vb by blast
      have g: "grows (nodes b') (nodes b2)" "max_paths b2 = max_paths b'" using r(3) by (simp_all add: extends_def)
      have inv2: "bdd_inv b2" using r(2,4) cache_ok_grows[OF nok g(1) bdd_invD(2)[OF inv(2)]] g(2) by (simp add: bdd_inv_def)
      have "sem (nodes b2) r a = ite_sem (nodes b) c t f a" for a
        using r(6) shannon sem_grows[OF nok g(1)] co by simp
      moreover have "r \<noteq> - 1" using alloc_nonneg[OF r(5)] by auto
      ultimately have "if r = - 1 then exceeds (max_paths b) (ite_sem (nodes b) c t f)
          else alloc (nodes b2) r \<and> (\<forall>a. sem (nodes b2) r a = ite_sem (nodes b) c t f a)" using r(5) by simp
      then show ?thesis
        using insert_ite_result[OF inv(1) inv2 extends_trans[OF inv(3) r(3)] al, of r hash] r(1) pt pf tot fits False by auto
    qed
  qed
qed

lemma extends_levels:
  assumes "extends b b'" "alloc (nodes b) c" "alloc (nodes b) t" "alloc (nodes b) f"
  shows "level (nodes b') (length (variable_base_nodes b')) c + level (nodes b') (length (variable_base_nodes b')) t +
    level (nodes b') (length (variable_base_nodes b')) f = level (nodes b) (length (variable_base_nodes b)) c +
    level (nodes b) (length (variable_base_nodes b)) t + level (nodes b) (length (variable_base_nodes b)) f"
  using assms level_grows[of "nodes b" "nodes b'"] by (simp add: extends_def)

lemma ite_order:
  assumes "bdd_inv b" "bdd_inv b'" "alloc (nodes b') r" "2 \<le> r"
    and e: "\<And>i. i \<in> {c, t, f} \<Longrightarrow> alloc (nodes b) i \<and> (2 \<le> i \<longrightarrow> v < bdd_variable (node_at (nodes b) i))"
    and s: "\<And>a. sem (nodes b') r a = ite_sem (nodes b) c t f a"
  shows "v < bdd_variable (node_at (nodes b') r)"
proof (rule top_variable_above[OF struct_okD(1)[OF bdd_invD(1)[OF assms(2)]] assms(3,4)])
  fix w a x assume w: "w \<le> v"
  show "sem (nodes b') r (a(w := x)) = sem (nodes b') r a"
    unfolding s using ite_sem_indep[OF struct_okD(1)[OF bdd_invD(1)[OF assms(1)]] e w] .
qed

lemma cofactorsE:
  assumes "bdd_inv b" "alloc (nodes b) c" "alloc (nodes b) t" "alloc (nodes b) f" "2 \<le> c"
  obtains v c1 t1 f1 c0 t0 f0 where
    "DecomposeITE b c t f = Some \<lparr>min_var = v, true_cofactor = \<lparr>ite_cond = c1, ite_if_true = t1, ite_if_false = f1\<rparr>,
       false_cofactor = \<lparr>ite_cond = c0, ite_if_true = t0, ite_if_false = f0\<rparr>\<rparr>"
    "0 \<le> v" "v < int (length (variable_base_nodes b))" "variable_base_nodes b ! nat v \<noteq> None"
    "\<And>i. i \<in> {c1, t1, f1} \<Longrightarrow> alloc (nodes b) i \<and> (2 \<le> i \<longrightarrow> v < bdd_variable (node_at (nodes b) i))"
    "\<And>i. i \<in> {c0, t0, f0} \<Longrightarrow> alloc (nodes b) i \<and> (2 \<le> i \<longrightarrow> v < bdd_variable (node_at (nodes b) i))"
    "level (nodes b) (length (variable_base_nodes b)) c1 + level (nodes b) (length (variable_base_nodes b)) t1 +
       level (nodes b) (length (variable_base_nodes b)) f1 < level (nodes b) (length (variable_base_nodes b)) c +
       level (nodes b) (length (variable_base_nodes b)) t + level (nodes b) (length (variable_base_nodes b)) f"
    "level (nodes b) (length (variable_base_nodes b)) c0 + level (nodes b) (length (variable_base_nodes b)) t0 +
       level (nodes b) (length (variable_base_nodes b)) f0 < level (nodes b) (length (variable_base_nodes b)) c +
       level (nodes b) (length (variable_base_nodes b)) t + level (nodes b) (length (variable_base_nodes b)) f"
    "\<And>a. ite_sem (nodes b) c t f a = (if a v then ite_sem (nodes b) c1 t1 f1 a else ite_sem (nodes b) c0 t0 f0 a)"
proof -
  obtain v c1 t1 f1 c0 t0 f0 where d: "DecomposeITE b c t f = Some \<lparr>min_var = v,
      true_cofactor = \<lparr>ite_cond = c1, ite_if_true = t1, ite_if_false = f1\<rparr>,
      false_cofactor = \<lparr>ite_cond = c0, ite_if_true = t0, ite_if_false = f0\<rparr>\<rparr>"
    using cofactors_ok[OF assms] IfThenElseExpr.surjective ITEDecomposition.surjective by (metis old.unit.exhaust)
  note co = cofactors_ok[OF assms, unfolded d option.inject Let_def]
  show thesis by (rule that[OF d]) (use co in auto)
qed

definition ite_returns :: "ite_hash \<Rightarrow> Bdd \<Rightarrow> int \<Rightarrow> int \<Rightarrow> int \<Rightarrow> bool" where
  "ite_returns hash b c t f = (\<exists>r b'. IfThenElse hash c t f b = Some (r, b') \<and> ite_result b c t f r b')"

text \<open>The expansion of a missing entry, given that the two recursive calls return.\<close>

lemma IfThenElse_expand:
  assumes inv: "bdd_inv b" and al: "alloc (nodes b) c" "alloc (nodes b) t" "alloc (nodes b) f" and c2: "2 \<le> c"
    and miss: "IfThenElseTrivial c t f = None" "cache_Get hash (ite_cache b) c t f = Some None"
    and d: "DecomposeITE b c t f = Some \<lparr>min_var = v, true_cofactor = \<lparr>ite_cond = c1, ite_if_true = t1, ite_if_false = f1\<rparr>,
        false_cofactor = \<lparr>ite_cond = c0, ite_if_true = t0, ite_if_false = f0\<rparr>\<rparr>"
    and v: "0 \<le> v" "v < int (length (variable_base_nodes b))" "variable_base_nodes b ! nat v \<noteq> None"
    and e1: "\<And>i. i \<in> {c1, t1, f1} \<Longrightarrow> alloc (nodes b) i \<and> (2 \<le> i \<longrightarrow> v < bdd_variable (node_at (nodes b) i))"
    and e0: "\<And>i. i \<in> {c0, t0, f0} \<Longrightarrow> alloc (nodes b) i \<and> (2 \<le> i \<longrightarrow> v < bdd_variable (node_at (nodes b) i))"
    and shannon: "\<And>a. ite_sem (nodes b) c t f a = (if a v then ite_sem (nodes b) c1 t1 f1 a else ite_sem (nodes b) c0 t0 f0 a)"
    and ih1: "ite_returns hash b c1 t1 f1"
    and ih0: "\<And>b'. bdd_inv b' \<Longrightarrow> extends b b' \<Longrightarrow> ite_returns hash b' c0 t0 f0"
  shows "ite_returns hash b c t f"
proof -
  have pos: "- 1 \<notin> {c1, t1, f1}" "- 1 \<notin> {c0, t0, f0}" using e1[of "- 1"] e0[of "- 1"] by (auto simp: alloc_def)
  obtain tc b1 where tc: "IfThenElse hash c1 t1 f1 b = Some (tc, b1)" "ite_result b c1 t1 f1 tc b1"
    using ih1 by (auto simp: ite_returns_def)
  have i1: "bdd_inv b1" "extends b b1" using tc(2) by (simp_all add: ite_result_def)
  have g1: "grows (nodes b) (nodes b1)" "max_paths b1 = max_paths b" using i1(2) by (simp_all add: extends_def)
  obtain fc b2 where fc: "IfThenElse hash c0 t0 f0 b1 = Some (fc, b2)" "ite_result b1 c0 t0 f0 fc b2"
    using ih0[OF i1] by (auto simp: ite_returns_def)
  have i2: "bdd_inv b2" "extends b1 b2" "extends b b2" using fc(2) extends_trans[OF i1(2)] by (simp_all add: ite_result_def)
  have g2: "grows (nodes b1) (nodes b2)" using i2(2) by (simp add: extends_def)
  have nok: "nodes_ok (nodes b) (length (variable_base_nodes b))" "nodes_ok (nodes b1) (length (variable_base_nodes b1))"
    using struct_okD(1)[OF bdd_invD(1)] inv i1(1) by blast+
  have same0: "ite_sem (nodes b1) c0 t0 f0 = ite_sem (nodes b) c0 t0 f0" using ite_sem_grows[OF nok(1) g1(1)] e0 by simp
  have up: "exceeds (max_paths b) (ite_sem (nodes b) c1 t1 f1) \<or> exceeds (max_paths b) (ite_sem (nodes b) c0 t0 f0) \<Longrightarrow>
      exceeds (max_paths b) (ite_sem (nodes b) c t f)"
    using exceeds_cofactor[OF _ shannon ite_sem_indep[OF nok(1) e1] ite_sem_indep[OF nok(1) e0]] .
  note start = IfThenElse.simps[of hash c t f b, unfolded miss option.case d Option.bind_lunit IfThenElseExpr.simps ITEDecomposition.simps tc(1) prod.case]
  note start0 = start[unfolded fc(1) Option.bind_lunit prod.case]
  consider "tc = - 1" | "tc \<noteq> - 1" "fc = - 1" | "tc \<noteq> - 1" "fc \<noteq> - 1" by blast
  then show ?thesis
  proof cases
    case 1
    then have "exceeds (max_paths b) (ite_sem (nodes b) c t f)" using tc(2) pos up by (simp add: ite_result_def)
    then show ?thesis unfolding ite_returns_def using insert_ite_result[OF inv i1 al, of "- 1" hash] 1 by (auto simp: start)
  next
    case 2
    then have "exceeds (max_paths b) (ite_sem (nodes b) c t f)" using fc(2) pos g1(2) up same0 by (simp add: ite_result_def)
    then show ?thesis unfolding ite_returns_def using insert_ite_result[OF inv i2(1,3) al, of "- 1" hash] 2 by (auto simp: start0)
  next
    case 3
    have tal: "alloc (nodes b1) tc" "\<And>a. sem (nodes b1) tc a = ite_sem (nodes b) c1 t1 f1 a"
      using tc(2) 3 by (simp_all add: ite_result_def)
    have tal2: "alloc (nodes b2) tc" "\<And>a. sem (nodes b2) tc a = ite_sem (nodes b) c1 t1 f1 a"
      using grows_alloc[OF g2 tal(1)] sem_grows[OF nok(2) g2 tal(1)] tal(2) by simp_all
    have fal: "alloc (nodes b2) fc" "\<And>a. sem (nodes b2) fc a = ite_sem (nodes b) c0 t0 f0 a"
      using fc(2) 3 same0 by (simp_all add: ite_result_def)
    have "ite_sem (nodes b) c t f a = (if a v then sem (nodes b2) tc a else sem (nodes b2) fc a)" for a
      by (simp only: shannon tal2 fal)
    from ite_join_ok[OF inv i2(1,3) al v tal2(1) fal(1) ite_order[OF inv i2(1) tal2(1) _ e1 tal2(2)]
        ite_order[OF inv i2(1) fal(1) _ e0 fal(2)] this, of hash]
    show ?thesis unfolding ite_returns_def using 3 by (simp only: start0 bdd_consts if_False simp_thms)
  qed
qed

lemma IfThenElse_returns:
  "bdd_inv b \<Longrightarrow> feasible b c \<Longrightarrow> feasible b t \<Longrightarrow> feasible b f \<Longrightarrow> ite_returns hash b c t f"
proof (induction "level (nodes b) (length (variable_base_nodes b)) c + level (nodes b) (length (variable_base_nodes b)) t +
    level (nodes b) (length (variable_base_nodes b)) f" arbitrary: b c t f rule: less_induct)
  case less
  note inv = less.prems(1)
  show ?case
  proof (cases "IfThenElseTrivial c t f")
    case (Some r)
    have "ite_result b c t f r b"
      using inv less.prems(2-4) IfThenElseTrivial_Some[OF Some] IfThenElseTrivial_arg[OF Some] IfThenElseTrivial_feasible[of c t f] Some
      by (auto simp: ite_result_def feasible_def)
    then show ?thesis using Some unfolding ite_returns_def by (subst IfThenElse.simps) auto
  next
    case None
    note nt = IfThenElseTrivial_None[OF None]
    have al: "alloc (nodes b) c" "alloc (nodes b) t" "alloc (nodes b) f" using nt less.prems(2-4) by (auto simp: feasible_def)
    have c2: "2 \<le> c" "c \<noteq> - 1" using nt alloc_nonneg[OF al(1)] by auto
    obtain x where x: "cache_Get hash (ite_cache b) c t f = Some x" "\<And>r. x = Some r \<Longrightarrow> entry_ok (nodes b) (max_paths b) c t f r"
      using cache_Get_ok[OF bdd_invD(2)[OF inv] c2(2)] by blast
    show ?thesis
    proof (cases x)
      case (Some r)
      then have "ite_result b c t f r b" using x(2) inv by (auto simp: ite_result_def entry_ok_def ite_sem_def split: if_splits)
      then show ?thesis using Some None x(1) unfolding ite_returns_def by (subst IfThenElse.simps) auto
    next
      case miss: None
      define nv where "nv = length (variable_base_nodes b)"
      obtain v c1 t1 f1 c0 t0 f0 where
        d: "DecomposeITE b c t f = Some \<lparr>min_var = v, true_cofactor = \<lparr>ite_cond = c1, ite_if_true = t1, ite_if_false = f1\<rparr>,
          false_cofactor = \<lparr>ite_cond = c0, ite_if_true = t0, ite_if_false = f0\<rparr>\<rparr>"
        and v: "0 \<le> v" "v < int nv" "variable_base_nodes b ! nat v \<noteq> None"
        and e1: "\<And>i. i \<in> {c1, t1, f1} \<Longrightarrow> alloc (nodes b) i \<and> (2 \<le> i \<longrightarrow> v < bdd_variable (node_at (nodes b) i))"
        and e0: "\<And>i. i \<in> {c0, t0, f0} \<Longrightarrow> alloc (nodes b) i \<and> (2 \<le> i \<longrightarrow> v < bdd_variable (node_at (nodes b) i))"
        and l: "level (nodes b) nv c1 + level (nodes b) nv t1 + level (nodes b) nv f1 < level (nodes b) nv c + level (nodes b) nv t + level (nodes b) nv f"
          "level (nodes b) nv c0 + level (nodes b) nv t0 + level (nodes b) nv f0 < level (nodes b) nv c + level (nodes b) nv t + level (nodes b) nv f"
        and shannon: "\<And>a. ite_sem (nodes b) c t f a = (if a v then ite_sem (nodes b) c1 t1 f1 a else ite_sem (nodes b) c0 t0 f0 a)"
        by (rule cofactorsE[OF inv al c2(1), folded nv_def]) (rule that)
      have feas: "feasible b' i" if "alloc (nodes b) i" "extends b b'" for b' i
        using that grows_alloc by (auto simp: feasible_def extends_def)
      show ?thesis
      proof (rule IfThenElse_expand[OF inv al c2(1) None x(1)[unfolded miss] d _ _ _ e1 e0])
        show "ite_returns hash b c1 t1 f1" using less.hyps[OF l(1)[unfolded nv_def] inv] e1 feas[OF _ extends_refl] by auto
        show "ite_returns hash b' c0 t0 f0" if b': "bdd_inv b'" "extends b b'" for b'
          using less.hyps[OF _ b'(1)] extends_levels[OF b'(2), of c0 t0 f0] l(2) e0 feas[OF _ b'(2)] by (simp add: nv_def)
      qed (use v shannon in \<open>simp_all add: nv_def\<close>)
    qed
  qed
qed

lemma IfThenElse_ok:
  assumes "bdd_inv b" "feasible b c" "feasible b t" "feasible b f"
  obtains r b' where "IfThenElse hash c t f b = Some (r, b')" "ite_result b c t f r b'"
  using IfThenElse_returns[OF assms, of hash] that by (auto simp: ite_returns_def)

section \<open>Constant if-then-else\<close>

definition const_result :: "Bdd \<Rightarrow> int \<Rightarrow> int \<Rightarrow> int \<Rightarrow> bool option \<Rightarrow> Bdd \<Rightarrow> bool" where
  "const_result b c t f r b' = (bdd_inv b' \<and> extends b b' \<and> nodes b' = nodes b \<and>
     (case r of Some v \<Rightarrow> (\<forall>a. ite_sem (nodes b) c t f a = v)
      | None \<Rightarrow> max_paths b < 1 \<or> - 1 \<in> {c, t, f} \<or> (\<forall>v. \<exists>a. ite_sem (nodes b) c t f a \<noteq> v)))"

definition const_returns :: "ite_hash \<Rightarrow> Bdd \<Rightarrow> int \<Rightarrow> int \<Rightarrow> int \<Rightarrow> bool" where
  "const_returns hash b c t f = (\<exists>r b'. IfThenElseConstant hash c t f b = Some (r, b') \<and> const_result b c t f r b')"

lemma exceeds_const: "exceeds m g \<Longrightarrow> m < 1 \<or> (\<exists>a. g a \<noteq> u)"
proof (rule ccontr)
  assume e: "exceeds m g" and n: "\<not> (m < 1 \<or> (\<exists>a. g a \<noteq> u))"
  then have "represents (Leaf u) g" by (simp add: represents_def)
  then show False using e n by (auto simp: exceeds_def)
qed

lemma constant_node:
  assumes "nodes_ok ns nv" "alloc ns i" "\<And>a. sem ns i a = v"
  shows "i = (if v then 1 else 0)"
proof (rule sem_canonical[OF assms(1,2)])
  show "alloc ns (if v then 1 else 0)" using assms(1) by (simp add: nodes_ok_def)
qed (use assms(3) in simp)

lemma to_constant_ok:
  assumes "bdd_inv b" "alloc (nodes b) r" "\<And>a. sem (nodes b) r a = ite_sem (nodes b) c t f a"
  shows "const_result b c t f (to_constant r) b"
proof -
  note nok = struct_okD(1)[OF bdd_invD(1)[OF assms(1)]]
  have "\<exists>a. sem (nodes b) r a \<noteq> v" if "r \<noteq> 0" "r \<noteq> 1" for v
    using constant_node[OF nok assms(2), of v] that by (cases "\<forall>a. sem (nodes b) r a = v") (auto split: if_splits)
  then show ?thesis using assms(1) by (auto simp: const_result_def to_constant_def assms(3)[symmetric])
qed

lemma IfThenElseConstant_expand:
  assumes inv: "bdd_inv b" and al: "alloc (nodes b) c" "alloc (nodes b) t" "alloc (nodes b) f"
    and miss: "IfThenElseTrivial c t f = None" "(t = 0 \<and> f = 1) = False" "cache_Get hash (ite_cache b) c t f = Some None"
    and d: "DecomposeITE b c t f = Some \<lparr>min_var = v, true_cofactor = \<lparr>ite_cond = c1, ite_if_true = t1, ite_if_false = f1\<rparr>,
        false_cofactor = \<lparr>ite_cond = c0, ite_if_true = t0, ite_if_false = f0\<rparr>\<rparr>"
    and e1: "\<And>i. i \<in> {c1, t1, f1} \<Longrightarrow> alloc (nodes b) i \<and> (2 \<le> i \<longrightarrow> v < bdd_variable (node_at (nodes b) i))"
    and e0: "\<And>i. i \<in> {c0, t0, f0} \<Longrightarrow> alloc (nodes b) i \<and> (2 \<le> i \<longrightarrow> v < bdd_variable (node_at (nodes b) i))"
    and shannon: "\<And>a. ite_sem (nodes b) c t f a = (if a v then ite_sem (nodes b) c1 t1 f1 a else ite_sem (nodes b) c0 t0 f0 a)"
    and ih1: "const_returns hash b c1 t1 f1"
    and ih0: "\<And>b'. bdd_inv b' \<Longrightarrow> extends b b' \<Longrightarrow> const_returns hash b' c0 t0 f0"
  shows "const_returns hash b c t f"
proof -
  note nok = struct_okD(1)[OF bdd_invD(1)[OF inv]]
  have pos: "- 1 \<notin> {c1, t1, f1}" "- 1 \<notin> {c0, t0, f0}" using e1[of "- 1"] e0[of "- 1"] by (auto simp: alloc_def)
  obtain r1 b1 where r1: "IfThenElseConstant hash c1 t1 f1 b = Some (r1, b1)" "const_result b c1 t1 f1 r1 b1"
    using ih1 by (auto simp: const_returns_def)
  have i1: "bdd_inv b1" "extends b b1" "nodes b1 = nodes b" using r1(2) by (simp_all add: const_result_def)
  obtain r0 b0 where r0: "IfThenElseConstant hash c0 t0 f0 b1 = Some (r0, b0)" "const_result b1 c0 t0 f0 r0 b0"
    using ih0[OF i1(1,2)] by (auto simp: const_returns_def)
  have i0: "bdd_inv b0" "extends b b0" "nodes b0 = nodes b" "max_paths b0 = max_paths b"
    using r0(2) extends_trans[OF i1(2)] i1(3) by (auto simp: const_result_def extends_def)
  have mp: "max_paths b1 = max_paths b" using i1(2) by (simp add: extends_def)
  have cof: "ite_sem (nodes b) c1 t1 f1 a = k" "ite_sem (nodes b) c0 t0 f0 a = k" if "\<And>a. ite_sem (nodes b) c t f a = k" for a k
    using that[of "a(v := True)"] that[of "a(v := False)"] ite_sem_indep[OF nok e1 order_refl] ite_sem_indep[OF nok e0 order_refl]
    by (simp_all add: shannon)
  have varies: "\<forall>u. \<exists>a. ite_sem (nodes b) c t f a \<noteq> u"
    if "(\<forall>u. \<exists>a. ite_sem (nodes b) c1 t1 f1 a \<noteq> u) \<or> (\<forall>u. \<exists>a. ite_sem (nodes b) c0 t0 f0 a \<noteq> u)"
  proof (intro allI, rule ccontr)
    fix u assume "\<not> (\<exists>a. ite_sem (nodes b) c t f a \<noteq> u)"
    then have "ite_sem (nodes b) c t f a = u" for a by blast
    from cof[OF this] show False using that by blast
  qed
  note start = IfThenElseConstant.simps[of hash c t f b, unfolded miss option.case d Option.bind_lunit IfThenElseExpr.simps
      ITEDecomposition.simps r1(1) prod.case bdd_consts if_False]
  show ?thesis
  proof (cases r1)
    case None
    then have "const_result b c t f None b1"
      using r1(2) varies pos(1) by (simp add: const_result_def) blast
    then show ?thesis using None by (simp add: const_returns_def start)
  next
    case (Some k)
    then have k: "ite_sem (nodes b) c1 t1 f1 a = k" for a using r1(2) by (simp add: const_result_def)
    note start0 = start[unfolded Some option.case r0(1) Option.bind_lunit prod.case]
    show ?thesis
    proof (cases "r0 = Some k")
      case True
      then have "ite_sem (nodes b) c0 t0 f0 a = k" for a using r0(2) i1(3) by (simp add: const_result_def)
      then have const: "ite_sem (nodes b) c t f a = k" for a using k by (simp add: shannon)
      have "entry_ok (nodes b0) (max_paths b0) c t f (if k then 1 else 0)"
        using al const nok i0(3) by (auto simp: entry_ok_def nodes_ok_def ite_sem_def)
      from insert_result_ok[OF i0(1) this, of hash] obtain cache where
        "insert_result hash c t f (if k then 1 else 0) b0 = Some (if k then 1 else 0, b0\<lparr>ite_cache := cache\<rparr>)"
        "bdd_inv (b0\<lparr>ite_cache := cache\<rparr>)" by blast
      moreover from this have "const_result b c t f (Some k) (b0\<lparr>ite_cache := cache\<rparr>)"
        using const i0 by (simp add: const_result_def extends_def)
      ultimately show ?thesis using True by (simp add: const_returns_def start0)
    next
      case False
      have "const_result b c t f None b0"
      proof (cases r0)
        case None
        then show ?thesis using r0(2) varies pos(2) i0 i1(3) mp by (simp add: const_result_def) blast
      next
        case (Some m)
        then have "ite_sem (nodes b) c0 t0 f0 a = m" for a using r0(2) i1(3) by (simp add: const_result_def)
        then have "\<exists>a. ite_sem (nodes b) c t f a \<noteq> u" for u
          using cof[of u] k False Some by (cases "\<forall>a. ite_sem (nodes b) c t f a = u") auto
        then show ?thesis using i0 by (simp add: const_result_def)
      qed
      then show ?thesis using False by (auto simp: const_returns_def start0)
    qed
  qed
qed

lemma IfThenElseConstant_returns:
  "bdd_inv b \<Longrightarrow> feasible b c \<Longrightarrow> feasible b t \<Longrightarrow> feasible b f \<Longrightarrow> const_returns hash b c t f"
proof (induction "level (nodes b) (length (variable_base_nodes b)) c + level (nodes b) (length (variable_base_nodes b)) t +
    level (nodes b) (length (variable_base_nodes b)) f" arbitrary: b c t f rule: less_induct)
  case less
  note inv = less.prems(1)
  show ?case
  proof (cases "IfThenElseTrivial c t f")
    case (Some r)
    have "const_result b c t f (if r = - 1 then None else to_constant r) b"
    proof (cases "r = - 1")
      case True
      then show ?thesis using IfThenElseTrivial_feasible Some inv by (auto simp: const_result_def)
    next
      case False
      then have "alloc (nodes b) r" using IfThenElseTrivial_arg[OF Some] less.prems(2-4) by (auto simp: feasible_def)
      from to_constant_ok[OF inv this IfThenElseTrivial_Some[OF Some False]] show ?thesis using False by simp
    qed
    then show ?thesis using Some unfolding const_returns_def by (subst IfThenElseConstant.simps) simp
  next
    case None
    note nt = IfThenElseTrivial_None[OF None]
    have al: "alloc (nodes b) c" "alloc (nodes b) t" "alloc (nodes b) f" using nt less.prems(2-4) by (auto simp: feasible_def)
    have c2: "2 \<le> c" "c \<noteq> - 1" using nt alloc_nonneg[OF al(1)] by auto
    show ?thesis
    proof (cases "t = 0 \<and> f = 1")
      case True
      have "\<exists>a. ite_sem (nodes b) c t f a \<noteq> u" for u
        using constant_node[OF struct_okD(1)[OF bdd_invD(1)[OF inv]] al(1), of "\<not> u"] c2(1) True
        by (cases "\<forall>a. sem (nodes b) c a = (\<not> u)") (auto simp: ite_sem_def split: if_splits)
      then have "const_result b c t f None b" using inv by (simp add: const_result_def)
      then show ?thesis using True c2(1) None unfolding const_returns_def
        by (subst IfThenElseConstant.simps) (simp add: to_constant_def)
    next
      case neg: False
      obtain x where x: "cache_Get hash (ite_cache b) c t f = Some x" "\<And>r. x = Some r \<Longrightarrow> entry_ok (nodes b) (max_paths b) c t f r"
        using cache_Get_ok[OF bdd_invD(2)[OF inv] c2(2)] by blast
      show ?thesis
      proof (cases x)
        case (Some r)
        have "const_result b c t f (to_constant r) b"
        proof (cases "r = - 1")
          case True
          then have "exceeds (max_paths b) (ite_sem (nodes b) c t f)" using x(2)[OF Some] by (simp add: entry_ok_def)
          then have "max_paths b < 1 \<or> (\<exists>a. ite_sem (nodes b) c t f a \<noteq> u)" for u using exceeds_const by blast
          then show ?thesis using True inv by (auto simp: const_result_def to_constant_def)
        next
          case False
          then show ?thesis using x(2)[OF Some] to_constant_ok[OF inv, of r] by (simp add: entry_ok_def)
        qed
        then show ?thesis using Some None x(1) neg unfolding const_returns_def by (subst IfThenElseConstant.simps) auto
      next
        case miss: None
        define nv where "nv = length (variable_base_nodes b)"
        obtain v c1 t1 f1 c0 t0 f0 where
          d: "DecomposeITE b c t f = Some \<lparr>min_var = v, true_cofactor = \<lparr>ite_cond = c1, ite_if_true = t1, ite_if_false = f1\<rparr>,
            false_cofactor = \<lparr>ite_cond = c0, ite_if_true = t0, ite_if_false = f0\<rparr>\<rparr>"
          and e1: "\<And>i. i \<in> {c1, t1, f1} \<Longrightarrow> alloc (nodes b) i \<and> (2 \<le> i \<longrightarrow> v < bdd_variable (node_at (nodes b) i))"
          and e0: "\<And>i. i \<in> {c0, t0, f0} \<Longrightarrow> alloc (nodes b) i \<and> (2 \<le> i \<longrightarrow> v < bdd_variable (node_at (nodes b) i))"
          and l: "level (nodes b) nv c1 + level (nodes b) nv t1 + level (nodes b) nv f1 < level (nodes b) nv c + level (nodes b) nv t + level (nodes b) nv f"
            "level (nodes b) nv c0 + level (nodes b) nv t0 + level (nodes b) nv f0 < level (nodes b) nv c + level (nodes b) nv t + level (nodes b) nv f"
          and shannon: "\<And>a. ite_sem (nodes b) c t f a = (if a v then ite_sem (nodes b) c1 t1 f1 a else ite_sem (nodes b) c0 t0 f0 a)"
          by (rule cofactorsE[OF inv al c2(1), folded nv_def]) (rule that)
        have feas: "feasible b' i" if "alloc (nodes b) i" "extends b b'" for b' i
          using that grows_alloc by (auto simp: feasible_def extends_def)
        have neg': "(t = 0 \<and> f = 1) = False" using neg by simp
        show ?thesis
        proof (rule IfThenElseConstant_expand[OF inv al None neg' x(1)[unfolded miss] d e1 e0 shannon])
          show "const_returns hash b c1 t1 f1" using less.hyps[OF l(1)[unfolded nv_def] inv] e1 feas[OF _ extends_refl] by auto
          show "const_returns hash b' c0 t0 f0" if b': "bdd_inv b'" "extends b b'" for b'
            using less.hyps[OF _ b'(1)] extends_levels[OF b'(2), of c0 t0 f0] l(2) e0 feas[OF _ b'(2)] by (simp add: nv_def)
        qed
      qed
    qed
  qed
qed

lemma IfThenElseConstant_ok:
  assumes "bdd_inv b" "feasible b c" "feasible b t" "feasible b f"
  obtains r b' where "IfThenElseConstant hash c t f b = Some (r, b')" "const_result b c t f r b'"
  using IfThenElseConstant_returns[OF assms, of hash] that by (auto simp: const_returns_def)

end
