(* ===== verification/Bdd_Contract.thy ===== *)
theory Bdd_Contract
  imports Bdd_Apply
begin

text \<open>
  What the clients of a diagram rely on, as an interface: expressions denote boolean functions, later
  states keep them, if-then-else returns an expression of the right function or gives up, and equal
  functions are the same expression. The laws of boolean algebra then hold between the expressions
  themselves. The diagram of the code provides the interface.
\<close>

locale bdd_service =
  fixes inv :: "'s \<Rightarrow> bool" and expr :: "'s \<Rightarrow> 'e \<Rightarrow> bool" and den :: "'s \<Rightarrow> 'e \<Rightarrow> (int \<Rightarrow> bool) \<Rightarrow> bool"
    and later :: "'s \<Rightarrow> 's \<Rightarrow> bool" and ite :: "'e \<Rightarrow> 'e \<Rightarrow> 'e \<Rightarrow> 's \<Rightarrow> ('e \<times> 's) option"
    and bot :: 'e and top :: 'e and gave_up :: 'e
  assumes leaves: "inv s \<Longrightarrow> expr s bot \<and> expr s top" "\<not> den s bot a" "den s top a"
    and not_gave_up: "expr s e \<Longrightarrow> e \<noteq> gave_up"
    and later_trans: "later s s' \<Longrightarrow> later s' s'' \<Longrightarrow> later s s''"
    and later_keeps: "inv s \<Longrightarrow> later s s' \<Longrightarrow> expr s e \<Longrightarrow> expr s' e \<and> den s' e = den s e"
    and ite_denotes: "inv s \<Longrightarrow> expr s c \<Longrightarrow> expr s t \<Longrightarrow> expr s f \<Longrightarrow>
      \<exists>r s'. ite c t f s = Some (r, s') \<and> inv s' \<and> later s s' \<and>
        (r = gave_up \<or> expr s' r \<and> (\<forall>a. den s' r a = (if den s c a then den s t a else den s f a)))"
    and canonical: "inv s \<Longrightarrow> expr s x \<Longrightarrow> expr s y \<Longrightarrow> (\<And>a. den s x a = den s y a) \<Longrightarrow> x = y"
begin

lemma ite_result:
  assumes "inv s" "expr s c" "expr s t" "expr s f" "ite c t f s = Some (r, s')" "r \<noteq> gave_up"
  shows "inv s'" "later s s'" "expr s' r" "den s' r a = (if den s c a then den s t a else den s f a)"
  using ite_denotes[OF assms(1-4)] assms(5,6) by auto

lemma not_result:
  assumes "inv s" "expr s e" "ite e bot top s = Some (r, s')" "r \<noteq> gave_up"
  shows "inv s'" "later s s'" "expr s' r" "den s' r a = (\<not> den s e a)"
  using ite_result(1-3)[OF assms(1,2) _ _ assms(3,4)] ite_result(4)[OF assms(1,2) _ _ assms(3,4), of a] leaves(1)[OF assms(1)] leaves(2,3)[of s a] by auto

lemma or_result:
  assumes "inv s" "expr s x" "expr s y" "ite x top y s = Some (r, s')" "r \<noteq> gave_up"
  shows "inv s'" "later s s'" "expr s' r" "den s' r a = (den s x a \<or> den s y a)"
  using ite_result(1-3)[OF assms(1,2) _ assms(3) assms(4,5)] ite_result(4)[OF assms(1,2) _ assms(3) assms(4,5), of a] leaves(1)[OF assms(1)] leaves(2,3)[of s a] by auto

lemma and_result:
  assumes "inv s" "expr s x" "expr s y" "ite x y bot s = Some (r, s')" "r \<noteq> gave_up"
  shows "inv s'" "later s s'" "expr s' r" "den s' r a = (den s x a \<and> den s y a)"
  using ite_result(1-3)[OF assms(1,2,3) _ assms(4,5)] ite_result(4)[OF assms(1,2,3) _ assms(4,5), of a] leaves(1)[OF assms(1)] leaves(2,3)[of s a] by auto

lemma implies_result:
  assumes "inv s" "expr s x" "expr s y" "ite x y top s = Some (r, s')" "r \<noteq> gave_up"
  shows "inv s'" "later s s'" "expr s' r" "den s' r a = (den s x a \<longrightarrow> den s y a)"
  using ite_result(1-3)[OF assms(1,2,3) _ assms(4,5)] ite_result(4)[OF assms(1,2,3) _ assms(4,5), of a] leaves(1)[OF assms(1)] leaves(2,3)[of s a] by auto

lemma double_negation:
  assumes "inv s" "expr s e" "ite e bot top s = Some (n, s')" "n \<noteq> gave_up" "ite n bot top s' = Some (m, s'')" "m \<noteq> gave_up"
  shows "m = e"
proof (rule canonical)
  note n = not_result[OF assms(1-4)]
  note m = not_result[OF n(1,3) assms(5,6)]
  show "inv s''" "expr s'' m" by (fact m)+
  have k: "expr s'' e \<and> den s'' e = den s e" using later_keeps[OF assms(1) later_trans[OF n(2) m(2)] assms(2)] .
  then show "expr s'' e" ..
  show "den s'' m a = den s'' e a" for a using n(4) m(4) k by simp
qed

lemma de_morgan:
  assumes s: "inv s" "expr s x" "expr s y"
    and nx: "ite x bot top s = Some (nx, s1)" "nx \<noteq> gave_up" and ny: "ite y bot top s1 = Some (ny, s2)" "ny \<noteq> gave_up"
    and o: "ite nx top ny s2 = Some (d, s3)" "d \<noteq> gave_up" and n: "ite d bot top s3 = Some (r, s4)" "r \<noteq> gave_up"
    and c: "ite x y bot s4 = Some (k, s5)" "k \<noteq> gave_up"
  shows "k = r"
proof -
  note a = not_result[OF s(1,2) nx]
  note keep1 = later_keeps[OF s(1) a(2)]
  note b = not_result[OF a(1) conjunct1[OF keep1[OF s(3)]] ny]
  note keep2 = later_keeps[OF a(1) b(2)]
  note d = or_result[OF b(1) conjunct1[OF keep2[OF a(3)]] b(3) o]
  note e = not_result[OF d(1,3) n]
  have l: "later s s4" using later_trans a(2) b(2) d(2) e(2) by blast
  note keep4 = later_keeps[OF s(1) l]
  note f = and_result[OF e(1) conjunct1[OF keep4[OF s(2)]] conjunct1[OF keep4[OF s(3)]] c]
  note keep5 = later_keeps[OF e(1) f(2) e(3)]
  show ?thesis
  proof (rule canonical[OF f(1,3)])
    show "expr s5 r" using keep5 ..
    show "den s5 k a = den s5 r a" for a
      using a(4) b(4) d(4) e(4) f(4) keep1[OF s(3)] keep2[OF a(3)] keep4[OF s(2)] keep4[OF s(3)] keep5 by simp
  qed
qed

lemma implies_top_iff:
  assumes "inv s" "expr s x" "expr s y" "ite x y top s = Some (r, s')" "r \<noteq> gave_up"
  shows "r = top \<longleftrightarrow> (\<forall>a. den s x a \<longrightarrow> den s y a)"
proof
  note i = implies_result[OF assms]
  show "\<forall>a. den s x a \<longrightarrow> den s y a" if "r = top" using i(4) leaves(3) that by blast
  assume "\<forall>a. den s x a \<longrightarrow> den s y a"
  then show "r = top" using canonical[OF i(1,3)] i(4) leaves(1)[OF i(1)] leaves(3)[of s'] by simp
qed

end

interpretation bdd: bdd_service bdd_inv "\<lambda>b i. alloc (nodes b) i" "\<lambda>b. sem (nodes b)" extends "IfThenElse hash" 0 1 "- 1"
  for hash :: ite_hash
proof
  fix b b' b'' :: Bdd and e c t f x y :: int and a
  show "alloc (nodes b) 0 \<and> alloc (nodes b) 1" if "bdd_inv b"
    using struct_okD(1)[OF bdd_invD(1)[OF that]] by (simp add: nodes_ok_def)
  show "e \<noteq> - 1" if "alloc (nodes b) e" using alloc_nonneg[OF that] by auto
  show "extends b b''" if "extends b b'" "extends b' b''" using extends_trans[OF that] .
  show "alloc (nodes b') e \<and> sem (nodes b') e = sem (nodes b) e" if "bdd_inv b" "extends b b'" "alloc (nodes b) e"
  proof
    have g: "grows (nodes b) (nodes b')" using that(2) by (simp add: extends_def)
    show "alloc (nodes b') e" by (rule grows_alloc[OF g that(3)])
    show "sem (nodes b') e = sem (nodes b) e" by (rule sem_grows[OF struct_okD(1)[OF bdd_invD(1)[OF that(1)]] g that(3)])
  qed
  show "\<exists>r b'. IfThenElse hash c t f b = Some (r, b') \<and> bdd_inv b' \<and> extends b b' \<and>
      (r = - 1 \<or> alloc (nodes b') r \<and> (\<forall>a. sem (nodes b') r a = (if sem (nodes b) c a then sem (nodes b) t a else sem (nodes b) f a)))"
    if "bdd_inv b" "alloc (nodes b) c" "alloc (nodes b) t" "alloc (nodes b) f"
  proof -
    have "ite_returns hash b c t f" by (rule IfThenElse_returns) (use that in \<open>simp_all add: feasible_def\<close>)
    then show ?thesis by (auto simp: ite_returns_def ite_result_def ite_sem_def)
  qed
  show "x = y" if "bdd_inv b" "alloc (nodes b) x" "alloc (nodes b) y" "\<And>a. sem (nodes b) x a = sem (nodes b) y a"
    using sem_canonical[OF struct_okD(1)[OF bdd_invD(1)[OF that(1)]] that(2-4)] .
qed auto

end
