(* ===== verification/Bdd_Eval.thy ===== *)
theory Bdd_Eval
  imports Bdd_Inv
begin

text \<open>
  Evaluation of a node under an assignment to the base nodes of the variables, and its printing in
  disjunctive normal form, against the paths of its tree.
\<close>

section \<open>Evaluation\<close>

definition agrees :: "Bdd \<Rightarrow> (int \<rightharpoonup> bool) \<Rightarrow> (int \<Rightarrow> bool) \<Rightarrow> bool" where
  "agrees b vv a = (\<forall>v j x. v < length (variable_base_nodes b) \<longrightarrow> variable_base_nodes b ! v = Some j \<longrightarrow>
     vv j = Some x \<longrightarrow> a (int v) = x)"

definition evaluates :: "Bdd \<Rightarrow> (int \<rightharpoonup> bool) \<Rightarrow> int \<Rightarrow> bool status_or \<Rightarrow> bool" where
  "evaluates b vv i x = (case x of
      Inr r \<Rightarrow> \<forall>a. agrees b vv a \<longrightarrow> sem (nodes b) i a = r
    | Inl e \<Rightarrow> e = InvalidArgument \<and> (\<exists>j. Some j \<in> set (variable_base_nodes b) \<and> vv j = None))"

lemma base_of_node:
  assumes "struct_ok b" "alloc (nodes b) i" "2 \<le> i"
  obtains j where "GetVariableBaseNode b (bdd_variable (node_at (nodes b) i)) = Some j"
    "nat (bdd_variable (node_at (nodes b) i)) < length (variable_base_nodes b)"
    "variable_base_nodes b ! nat (bdd_variable (node_at (nodes b) i)) = Some j"
proof -
  let ?v = "bdd_variable (node_at (nodes b) i)"
  note so = struct_okD[OF assms(1)]
  note n = nodes_okD(1,2)[OF so(1) assms(2,3)]
  have "is_node (nodes b) i (int (nat ?v)) (bdd_high (node_at (nodes b) i)) (bdd_low (node_at (nodes b) i))"
    using assms n by (simp add: is_node_def)
  moreover have "nat ?v < length (variable_base_nodes b)" using n by linarith
  ultimately have "variable_base_nodes b ! nat ?v \<noteq> None" using so(3) unfolding bases_ok_def by blast
  then show thesis using that n \<open>nat ?v < _\<close> by (auto simp: GetVariableBaseNode_def)
qed

lemma Evaluate_loop_ok:
  "struct_ok b \<Longrightarrow> alloc (nodes b) i \<Longrightarrow> \<exists>x. Evaluate_loop b vv i = Some x \<and> evaluates b vv i x"
proof (induction "level (nodes b) (length (variable_base_nodes b)) i" arbitrary: i rule: less_induct)
  case less
  note nok = struct_okD(1)[OF less.prems(1)]
  consider "i = 0" | "i = 1" | "2 \<le> i" using alloc_nonneg[OF less.prems(2)] by linarith
  then show ?case
  proof cases
    case 3
    let ?n = "node_at (nodes b) i"
    obtain j where j: "GetVariableBaseNode b (bdd_variable ?n) = Some j"
        "nat (bdd_variable ?n) < length (variable_base_nodes b)" "variable_base_nodes b ! nat (bdd_variable ?n) = Some j"
      by (rule base_of_node[OF less.prems 3])
    have step: "Evaluate_loop b vv i = (case vv j of None \<Rightarrow> Some (Inl InvalidArgument)
        | Some x \<Rightarrow> Evaluate_loop b vv (if x then bdd_high ?n else bdd_low ?n))"
      using 3 GetNode_alloc[OF less.prems(2)] j(1) by (subst Evaluate_loop.simps) simp
    show ?thesis
    proof (cases "vv j")
      case None
      then show ?thesis using step nth_mem[OF j(2)] j(3) by (auto simp: evaluates_def)
    next
      case (Some x)
      let ?k = "if x then bdd_high ?n else bdd_low ?n"
      have k: "level (nodes b) (length (variable_base_nodes b)) ?k < level (nodes b) (length (variable_base_nodes b)) i" "alloc (nodes b) ?k"
        using level_children[OF nok less.prems(2) 3] nodes_okD(4,5)[OF nok less.prems(2) 3] by simp_all
      obtain y where y: "Evaluate_loop b vv ?k = Some y" "evaluates b vv ?k y" using less.hyps[OF k(1) less.prems(1) k(2)] by blast
      have "sem (nodes b) i a = sem (nodes b) ?k a" if "agrees b vv a" for a
      proof -
        have "a (int (nat (bdd_variable ?n))) = x" using that j(2,3) Some unfolding agrees_def by blast
        then show ?thesis using sem_branch[OF nok less.prems(2) 3] nodes_okD(1)[OF nok less.prems(2) 3] by simp
      qed
      then have "evaluates b vv i y" using y(2) by (auto simp: evaluates_def split: sum.splits)
      then show ?thesis using step Some y(1) by auto
    qed
  qed (subst Evaluate_loop.simps, auto simp: evaluates_def)+
qed

section \<open>Disjunctive normal form\<close>

primrec minterms :: "bdt \<Rightarrow> string list list" where
  "minterms (Leaf x) = (if x then [[]] else [])"
| "minterms (Branch v h l) = map ((#) (''x'' @ dec_string v)) (minterms h) @ map ((#) (''!x'' @ dec_string v)) (minterms l)"

definition emit_minterm :: "string list \<Rightarrow> int \<times> string \<Rightarrow> int \<times> string" where
  "emit_minterm ts = (\<lambda>(m, str). if m < 0 then (m, str)
     else (m - 1, if m = 0 then str @ '' + ...'' else if str = [] then str_join ''.'' ts else str @ '' + '' @ str_join ''.'' ts))"

lemma emit_negative: "m < 0 \<Longrightarrow> fold emit_minterm tss (m, str) = (m, str)"
  by (induction tss) (auto simp: emit_minterm_def)

lemma append_snoc_fun: "(@) (ts @ [x]) = (\<lambda>ys. ts @ x # ys)"
  by (rule ext) simp

lemma ToStringDnfHelper_ok:
  "nodes_ok (nodes b) nv \<Longrightarrow> tree_of (nodes b) i t \<Longrightarrow> fold emit_minterm (map ((@) terms) (minterms t)) (m, str) = (m', str') \<Longrightarrow>
   ToStringDnfHelper b i (m, terms, str) = Some (m', terms, str')"
proof (induction t arbitrary: i terms m str m' str')
  case (Leaf x)
  then show ?case by (subst ToStringDnfHelper.simps) (auto simp: emit_minterm_def elim!: tree_of_LeafE)
next
  case (Branch v h l)
  from Branch.prems(2) obtain i: "2 \<le> i" "alloc (nodes b) i" "v = bdd_variable (node_at (nodes b) i)"
      "tree_of (nodes b) (bdd_high (node_at (nodes b) i)) h" "tree_of (nodes b) (bdd_low (node_at (nodes b) i)) l" by (rule tree_of_BranchE)
  let ?th = "terms @ [''x'' @ dec_string v]" and ?tl = "terms @ [''!x'' @ dec_string v]"
  obtain m1 s1 where 1: "fold emit_minterm (map ((@) ?th) (minterms h)) (m, str) = (m1, s1)" by (cases "fold emit_minterm (map ((@) ?th) (minterms h)) (m, str)")
  have 2: "fold emit_minterm (map ((@) ?tl) (minterms l)) (m1, s1) = (m', str')"
    using Branch.prems(3) 1 unfolding append_snoc_fun by (simp add: comp_def)
  show ?case
  proof (cases "m < 0")
    case True
    then show ?thesis using Branch.prems(3) emit_negative by (subst ToStringDnfHelper.simps) auto
  next
    case False
    then show ?thesis using i Branch.IH(1)[OF Branch.prems(1) i(4) 1] Branch.IH(2)[OF Branch.prems(1) i(5) 2] GetNode_alloc[OF i(2)]
      by (subst ToStringDnfHelper.simps) simp
  qed
qed

lemma str_join_snoc: "str_join sep (xs @ [x]) = (if xs = [] then x else str_join sep xs @ sep @ x)"
  by (induction xs) auto

lemma str_join_empty: "\<forall>x\<in>set xs. x \<noteq> [] \<Longrightarrow> str_join sep xs = [] \<longleftrightarrow> xs = []"
  by (cases xs) auto

lemma emit_fold:
  assumes "0 \<le> m" "\<forall>x\<in>set ps. x \<noteq> []" "\<forall>ts\<in>set tss. str_join ''.'' ts \<noteq> []"
  shows "snd (fold emit_minterm tss (m, str_join '' + '' ps)) =
    str_join '' + '' (ps @ map (str_join ''.'') (take (nat m) tss)) @ (if m < int (length tss) then '' + ...'' else [])"
  using assms
proof (induction tss arbitrary: m ps)
  case (Cons ts tss)
  show ?case
  proof (cases "m = 0")
    case True
    then have "emit_minterm ts (m, str_join '' + '' ps) = (- 1, str_join '' + '' ps @ '' + ...'')" by (simp add: emit_minterm_def)
    then show ?thesis using emit_negative[of "- 1"] True by simp
  next
    case False
    let ?ps = "ps @ [str_join ''.'' ts]"
    have "emit_minterm ts (m, str_join '' + '' ps) = (m - 1, str_join '' + '' ?ps)"
      using False Cons.prems str_join_empty[of ps "'' + ''"] by (auto simp: emit_minterm_def str_join_snoc)
    moreover have "take (nat m) (ts # tss) = ts # take (nat (m - 1)) tss" using False Cons.prems(1) by (simp add: take_Cons' nat_diff_distrib)
    ultimately show ?thesis using Cons.IH[of "m - 1" ?ps] Cons.prems False by simp
  qed
qed simp

lemma minterms_nonempty: "ts \<in> set (minterms (Branch v h l)) \<Longrightarrow> str_join ''.'' ts \<noteq> []"
  by (auto split: if_splits)

definition dnf_string :: "string list list \<Rightarrow> nat \<Rightarrow> string" where
  "dnf_string ms limit = str_join '' + '' (map (str_join ''.'') (take limit ms)) @ (if limit < length ms then '' + ...'' else [])"

lemma ToStringDnf_ok:
  assumes "nodes_ok (nodes b) nv" "tree_of (nodes b) i (Branch v h l)" "0 \<le> limit"
  shows "ToStringDnf b i limit = Some (dnf_string (minterms (Branch v h l)) (if limit = 0 then 2 ^ 63 - 1 else nat limit))"
proof -
  let ?t = "Branch v h l" and ?m = "if limit = 0 then it_max int64_type else limit"
  obtain m' str' where e: "fold emit_minterm (map ((@) []) (minterms ?t)) (?m, []) = (m', str')"
    by (cases "fold emit_minterm (map ((@) []) (minterms ?t)) (?m, [])")
  have mx: "it_max int64_type = 2 ^ 63 - 1" by (simp add: int64_type_def it_max_def)
  then have nat_m: "nat ?m = (if limit = 0 then 2 ^ 63 - 1 else nat limit)" "0 \<le> ?m" using assms(3) by simp_all
  have "map ((@) []) (minterms ?t) = minterms ?t" by (simp add: map_idI)
  then have "str' = snd (fold emit_minterm (minterms ?t) (?m, str_join '' + '' []))" using e by (metis snd_conv str_join.simps(1))
  also have "\<dots> = dnf_string (minterms ?t) (nat ?m)"
    using emit_fold[of ?m "[]" "minterms ?t"] nat_m(2) minterms_nonempty[of _ v h l]
    unfolding dnf_string_def nat_less_iff[OF nat_m(2)] by (simp del: minterms.simps)
  finally have "str' = dnf_string (minterms ?t) (nat ?m)" .
  moreover have "2 \<le> i" using assms(2) by (rule tree_of_BranchE)
  ultimately show ?thesis using ToStringDnfHelper_ok[OF assms(1,2) e] unfolding nat_m(1) by (simp add: ToStringDnf_def)
qed

end
