(* ===== verification/Bdd_Gc.thy ===== *)
theory Bdd_Gc
  imports Bdd_Inv
begin

text \<open>
  Garbage collection. Marking ends with exactly the nodes reachable from the roots; sweeping frees
  the others and keeps the invariant, where the base node of every variable that keeps a node is
  itself reachable.
\<close>

section \<open>Bitmaps as sets of indices\<close>

definition bm_set :: "inline_bitmap \<Rightarrow> nat \<Rightarrow> int set \<Rightarrow> bool" where
  "bm_set bm n S = bm_repr bm n (\<lambda>i. int i \<in> S)"

lemma bm_set_Get: "bm_set bm n S \<Longrightarrow> 0 \<le> i \<Longrightarrow> i < int n \<Longrightarrow> bitmap_Get bm i = Some (i \<in> S)"
  using InlineBitmap_Get_repr[of bm n "\<lambda>i. int i \<in> S" "nat i"] by (simp add: bm_set_def bitmap_Get_def nat_less_iff)

lemma bm_set_Set:
  assumes "bm_set bm n S" "0 \<le> i" "i < int n"
  obtains bm' where "bitmap_Set bm i = Some bm'" "bm_set bm' n (insert i S)"
proof -
  have "nat i < n" using assms by linarith
  then obtain bm' where bm': "InlineBitmap_Set bm (nat i) True = Some bm'" "bm_repr bm' n ((\<lambda>i. int i \<in> S)(nat i := True))"
    using InlineBitmap_Set_repr[OF assms(1)[unfolded bm_set_def]] by blast
  moreover have "(\<lambda>i. int i \<in> S)(nat i := True) = (\<lambda>j. int j \<in> insert i S)" using assms(2) by (intro ext) auto
  ultimately show thesis using that assms(2) by (simp add: bm_set_def bitmap_Set_def)
qed

lemma bm_set_empty: "bm_set (InlineBitmap n False) n {}"
  using bm_repr_InlineBitmap[of n False] by (simp add: bm_set_def)

section \<open>Marking\<close>

inductive reach :: "BddNode list \<Rightarrow> int \<Rightarrow> int \<Rightarrow> bool" for ns where
  reach_refl: "reach ns i i"
| reach_high: "reach ns i j \<Longrightarrow> 2 \<le> j \<Longrightarrow> reach ns i (bdd_high (node_at ns j))"
| reach_low: "reach ns i j \<Longrightarrow> 2 \<le> j \<Longrightarrow> reach ns i (bdd_low (node_at ns j))"

definition gc_live :: "BddNode list \<Rightarrow> int list \<Rightarrow> int set" where
  "gc_live ns roots = {0, 1} \<union> {j. \<exists>r\<in>set roots. reach ns r j}"

definition kids_in :: "BddNode list \<Rightarrow> int set \<Rightarrow> int set \<Rightarrow> bool" where
  "kids_in ns L S = (\<forall>i\<in>L. 2 \<le> i \<longrightarrow> bdd_high (node_at ns i) \<in> S \<and> bdd_low (node_at ns i) \<in> S)"

definition node_vars :: "BddNode list \<Rightarrow> int set \<Rightarrow> int set" where
  "node_vars ns L = (\<lambda>i. bdd_variable (node_at ns i)) ` {i\<in>L. 2 \<le> i}"

lemma reach_trans: "reach ns j k \<Longrightarrow> reach ns i j \<Longrightarrow> reach ns i k"
  by (induction rule: reach.induct) (auto intro: reach.intros)

lemma reach_closed: "reach ns i j \<Longrightarrow> i \<in> L \<Longrightarrow> kids_in ns L L \<Longrightarrow> j \<in> L"
  by (induction rule: reach.induct) (auto simp: kids_in_def)

lemma reach_alloc: "reach ns i j \<Longrightarrow> nodes_ok ns nv \<Longrightarrow> alloc ns i \<Longrightarrow> alloc ns j"
  by (induction rule: reach.induct) (auto dest: nodes_okD)

lemma gc_live_alloc: "nodes_ok ns nv \<Longrightarrow> \<forall>r\<in>set roots. alloc ns r \<Longrightarrow> i \<in> gc_live ns roots \<Longrightarrow> alloc ns i"
  using reach_alloc[of ns _ i nv] by (auto simp: gc_live_def nodes_ok_def)

lemma gc_live_kids: "kids_in ns (gc_live ns roots) (gc_live ns roots)"
  by (auto simp: kids_in_def gc_live_def intro: reach.intros)

text \<open>The unmarked nodes and the worklist give the measure of the loop.\<close>

definition mark_measure :: "BddNode list \<Rightarrow> int set \<Rightarrow> int list \<Rightarrow> nat" where
  "mark_measure ns L wl = 3 * card ({i. alloc ns i} - L) + length wl"

lemma mark_measure_insert:
  assumes "alloc ns i" "i \<notin> L" "length wl' \<le> length wl + 2"
  shows "mark_measure ns (insert i L) wl' < mark_measure ns L (i # wl)"
proof -
  have "{i. alloc ns i} - L = insert i ({i. alloc ns i} - insert i L)" using assms by auto
  then have "card ({i. alloc ns i} - L) = Suc (card ({i. alloc ns i} - insert i L))"
    using finite_alloc[of ns] by (metis DiffD2 card_insert_disjoint finite_Diff insertI1)
  then show ?thesis using assms(3) by (simp add: mark_measure_def)
qed

definition pushed :: "BddNode \<Rightarrow> int list \<Rightarrow> int list" where
  "pushed n wl = (let wl = (if bdd_high n \<noteq> 1 \<and> bdd_high n \<noteq> 0 then wl @ [bdd_high n] else wl)
     in if bdd_low n \<noteq> 1 \<and> bdd_low n \<noteq> 0 then wl @ [bdd_low n] else wl)"

lemma pushed_props:
  "length (pushed n wl) \<le> length wl + 2" "set wl \<subseteq> set (pushed n wl)"
  "set (pushed n wl) \<subseteq> set wl \<union> {bdd_high n, bdd_low n}" "{bdd_high n, bdd_low n} \<subseteq> {0, 1} \<union> set (pushed n wl)"
  by (auto simp: pushed_def Let_def)

definition mark_inv :: "Bdd \<Rightarrow> inline_bitmap \<Rightarrow> inline_bitmap \<Rightarrow> int \<Rightarrow> int set \<Rightarrow> bool" where
  "mark_inv b lm lv cnt L = (bm_set lm (length (nodes b)) L \<and>
     bm_set lv (length (variable_base_nodes b)) (node_vars (nodes b) L) \<and>
     L \<subseteq> {i. alloc (nodes b) i} \<and> {0, 1} \<subseteq> L \<and> cnt = int (card L))"

lemma mark_inv_insert:
  assumes m: "mark_inv b lm lv cnt L" and ok: "struct_ok b" and i: "alloc (nodes b) i" "i \<notin> L"
  obtains lm' lv' where "bitmap_Set lm i = Some lm'" "bitmap_Set lv (bdd_variable (node_at (nodes b) i)) = Some lv'"
    "mark_inv b lm' lv' (cnt + 1) (insert i L)" "2 \<le> i"
proof -
  have "i \<noteq> 0" "i \<noteq> 1" "0 \<le> i" using m i alloc_nonneg by (auto simp: mark_inv_def)
  then have i2: "2 \<le> i" by linarith
  have il: "i < int (length (nodes b))" using i(1) by (auto simp: alloc_def)
  note n = nodes_okD(1,2)[OF struct_okD(1)[OF ok] i(1) i2]
  obtain lm' where lm: "bitmap_Set lm i = Some lm'" "bm_set lm' (length (nodes b)) (insert i L)"
    using bm_set_Set[of lm "length (nodes b)" L i] m \<open>0 \<le> i\<close> il by (auto simp: mark_inv_def)
  obtain lv' where lv: "bitmap_Set lv (bdd_variable (node_at (nodes b) i)) = Some lv'"
      "bm_set lv' (length (variable_base_nodes b)) (insert (bdd_variable (node_at (nodes b) i)) (node_vars (nodes b) L))"
    using bm_set_Set[of lv "length (variable_base_nodes b)" "node_vars (nodes b) L"] m n by (auto simp: mark_inv_def)
  have "{j \<in> insert i L. 2 \<le> j} = insert i {j \<in> L. 2 \<le> j}" using i2 by auto
  then have nv: "node_vars (nodes b) (insert i L) = insert (bdd_variable (node_at (nodes b) i)) (node_vars (nodes b) L)"
    by (simp add: node_vars_def)
  have "finite L" using m finite_subset[OF _ finite_alloc[of "nodes b"]] by (simp add: mark_inv_def)
  then have "mark_inv b lm' lv' (cnt + 1) (insert i L)" using m lm lv i by (auto simp: mark_inv_def nv)
  then show thesis using that lm(1) lv(1) i2 by blast
qed

lemma gc_mark_loop:
  "mark_inv b lm lv cnt L \<Longrightarrow> struct_ok b \<Longrightarrow> \<forall>i\<in>set wl. alloc (nodes b) i \<Longrightarrow> kids_in (nodes b) L (L \<union> set wl) \<Longrightarrow>
   \<exists>lm' lv' cnt' L'. gc_mark b wl lm lv cnt = Some (lm', lv', cnt') \<and> mark_inv b lm' lv' cnt' L' \<and>
     L \<union> set wl \<subseteq> L' \<and> kids_in (nodes b) L' L' \<and> L' \<subseteq> L \<union> {j. \<exists>r\<in>set wl. reach (nodes b) r j}"
proof (induction "mark_measure (nodes b) L wl" arbitrary: wl lm lv cnt L rule: less_induct)
  case less
  note m = less.prems(1)
  show ?case
  proof (cases wl)
    case Nil
    then have "gc_mark b wl lm lv cnt = Some (lm, lv, cnt)" by (simp add: gc_mark.simps)
    moreover have "kids_in (nodes b) L L" using less.prems(4) Nil by simp
    ultimately show ?thesis using m Nil by auto
  next
    case (Cons i ws)
    then have al: "alloc (nodes b) i" "\<forall>i\<in>set ws. alloc (nodes b) i" using less.prems(3) by auto
    have get: "bitmap_Get lm i = Some (i \<in> L)" using m al(1) by (intro bm_set_Get) (auto simp: mark_inv_def alloc_def)
    show ?thesis
    proof (cases "i \<in> L")
      case True
      have "kids_in (nodes b) L (L \<union> set ws)" using less.prems(4) True Cons by (auto simp: kids_in_def)
      moreover have "mark_measure (nodes b) L ws < mark_measure (nodes b) L wl" using Cons by (simp add: mark_measure_def)
      moreover have "gc_mark b wl lm lv cnt = gc_mark b ws lm lv cnt" using Cons get True by (subst gc_mark.simps) simp
      ultimately show ?thesis using less.hyps[of L ws lm lv cnt] m less.prems(2) al(2) True Cons by fastforce
    next
      case False
      obtain lm' lv' where s: "bitmap_Set lm i = Some lm'" "bitmap_Set lv (bdd_variable (node_at (nodes b) i)) = Some lv'"
          "mark_inv b lm' lv' (cnt + 1) (insert i L)" "2 \<le> i"
        by (rule mark_inv_insert[OF m less.prems(2) al(1) False])
      let ?n = "node_at (nodes b) i"
      let ?ws = "pushed ?n ws"
      have step: "gc_mark b wl lm lv cnt = gc_mark b ?ws lm' lv' (cnt + 1)"
        using get False s GetNode_alloc[OF al(1)] by (subst gc_mark.simps) (simp add: Cons pushed_def Let_def)
      have kids: "alloc (nodes b) (bdd_high ?n)" "alloc (nodes b) (bdd_low ?n)"
        using nodes_okD(4,5)[OF struct_okD(1)[OF less.prems(2)] al(1) s(4)] .
      have "\<forall>i\<in>set ?ws. alloc (nodes b) i" using al(2) kids pushed_props(3)[where n = ?n and wl = ws] by auto
      moreover have "{0, 1} \<subseteq> L" using m by (simp add: mark_inv_def)
      then have "kids_in (nodes b) (insert i L) (insert i L \<union> set ?ws)"
        using less.prems(4) pushed_props(2,4)[where n = ?n and wl = ws] Cons unfolding kids_in_def by fastforce
      ultimately obtain lm2 lv2 cnt2 L' where r: "gc_mark b ?ws lm' lv' (cnt + 1) = Some (lm2, lv2, cnt2)" "mark_inv b lm2 lv2 cnt2 L'"
          "insert i L \<union> set ?ws \<subseteq> L'" "kids_in (nodes b) L' L'" "L' \<subseteq> insert i L \<union> {j. \<exists>r\<in>set ?ws. reach (nodes b) r j}"
        using less.hyps[OF _ s(3) less.prems(2), of ?ws] mark_measure_insert[OF al(1) False pushed_props(1)[of ?n ws]] Cons by fastforce
      have pushed_reach: "\<exists>k\<in>set wl. reach (nodes b) k j" if "r \<in> set ?ws" "reach (nodes b) r j" for r j
      proof -
        have "r \<in> set ws \<or> reach (nodes b) i r" using pushed_props(3)[where n = ?n and wl = ws] that(1) reach.intros s(4) by blast
        then show ?thesis using that(2) reach_trans Cons by auto
      qed
      have "i \<in> {j. \<exists>r\<in>set wl. reach (nodes b) r j}" using Cons reach_refl[of "nodes b" i] by auto
      then have "L' \<subseteq> L \<union> {j. \<exists>r\<in>set wl. reach (nodes b) r j}" using r(5) pushed_reach by blast
      moreover have "L \<union> set wl \<subseteq> L'" using r(3) pushed_props(2)[where n = ?n and wl = ws] Cons by auto
      ultimately show ?thesis using step r by auto
    qed
  qed
qed

lemma gc_mark_ok:
  assumes "struct_ok b" "\<forall>r\<in>set roots. alloc (nodes b) r"
    "bm_set lm (length (nodes b)) {0, 1}" "bm_set lv (length (variable_base_nodes b)) {}"
  obtains lm' lv' where "gc_mark b roots lm lv 2 = Some (lm', lv', int (card (gc_live (nodes b) roots)))"
    "mark_inv b lm' lv' (int (card (gc_live (nodes b) roots))) (gc_live (nodes b) roots)"
proof -
  have "{i \<in> {0, 1 :: int}. 2 \<le> i} = {}" by auto
  then have "node_vars (nodes b) {0, 1} = {}" by (simp add: node_vars_def)
  moreover have "alloc (nodes b) 0" "alloc (nodes b) 1" using struct_okD(1)[OF assms(1)] by (simp_all add: nodes_ok_def)
  ultimately have "mark_inv b lm lv 2 {0, 1}" using assms(3,4) by (simp add: mark_inv_def)
  moreover have "kids_in (nodes b) {0, 1} ({0, 1} \<union> set roots)" by (simp add: kids_in_def)
  ultimately obtain lm' lv' cnt' L where r: "gc_mark b roots lm lv 2 = Some (lm', lv', cnt')" "mark_inv b lm' lv' cnt' L"
      "{0, 1} \<union> set roots \<subseteq> L" "kids_in (nodes b) L L" "L \<subseteq> {0, 1} \<union> {j. \<exists>r\<in>set roots. reach (nodes b) r j}"
    using gc_mark_loop[of b lm lv 2 "{0, 1}" roots] assms(1,2) by blast
  then have "L = gc_live (nodes b) roots" using reach_closed[OF _ _ r(4)] unfolding gc_live_def by blast
  moreover have "cnt' = int (card L)" using r(2) by (simp add: mark_inv_def)
  ultimately show thesis using that r(1,2) by blast
qed

end
