(* ===== verification/Bdd_Sweep.thy ===== *)
theory Bdd_Sweep
  imports Bdd_Gc
begin

text \<open>
  Sweeping: the dead nodes are chained in front of the free list, and the variables, tables and
  cache lose what refers to them.
\<close>

section \<open>The new free list\<close>

definition next_dead :: "int list \<Rightarrow> int \<Rightarrow> nat \<Rightarrow> int" where
  "next_dead dead head p = (if p + 1 < length dead then dead ! (p + 1) else head)"

definition freed :: "BddNode list \<Rightarrow> int list \<Rightarrow> int \<Rightarrow> nat \<Rightarrow> BddNode list \<Rightarrow> bool" where
  "freed ns dead head k ns' = (length ns' = length ns \<and>
     (\<forall>i. 0 \<le> i \<longrightarrow> i \<notin> set (take k dead) \<longrightarrow> node_at ns' i = node_at ns i) \<and>
     (\<forall>p<k. node_at ns' (dead ! p) = SetFreeNode (node_at ns (dead ! p)) (next_dead dead head p)))"

lemma gc_free_step_ok:
  assumes f: "freed ns dead head k ns'" and d: "distinct dead" "\<forall>i\<in>set dead. 0 \<le> i \<and> nat i < length ns" and k: "k < length dead"
  shows "\<exists>ns''. gc_free_step dead head k ns' = Some ns'' \<and> freed ns dead head (Suc k) ns''"
proof -
  let ?i = "dead ! k"
  have i: "0 \<le> ?i" "nat ?i < length ns'" using d(2) k f by (auto simp: freed_def)
  have "?i \<notin> set (take k dead)" using d(1) k by (auto simp: in_set_conv_nth nth_eq_iff_index_eq)
  then have same: "node_at ns' ?i = node_at ns ?i" using f i by (simp add: freed_def)
  let ?ns = "ns'[nat ?i := SetFreeNode (node_at ns ?i) (next_dead dead head k)]"
  have "nat (dead ! p) \<noteq> nat ?i" if "p < k" for p
    using that k d nth_eq_iff_index_eq[OF d(1), of p k] eq_nat_nat_iff[of "dead ! p" ?i] by auto
  then have "node_at ?ns (dead ! p) = SetFreeNode (node_at ns (dead ! p)) (next_dead dead head p)" if "p < k" for p
    using that f by (metis freed_def nth_list_update_neq)
  then have "node_at ?ns (dead ! p) = SetFreeNode (node_at ns (dead ! p)) (next_dead dead head p)" if "p < Suc k" for p
    using that i(2) less_antisym[OF _ that] by (cases "p = k") auto
  moreover have "node_at ?ns j = node_at ns j" if "0 \<le> j" "j \<notin> set (take (Suc k) dead)" for j
    using that f k i(1) by (auto simp: freed_def take_Suc_conv_app_nth)
  moreover have "length ?ns = length ns" using f by (simp add: freed_def)
  ultimately have "freed ns dead head (Suc k) ?ns" unfolding freed_def by blast
  moreover have "gc_free_step dead head k ns' = Some ?ns"
    using k i same by (auto simp: gc_free_step_def next_dead_def)
  ultimately show ?thesis by blast
qed

lemma gc_free_ok:
  assumes "distinct dead" "\<forall>i\<in>set dead. 0 \<le> i \<and> nat i < length ns"
  obtains ns' where "foldM (gc_free_step dead head) [0..<length dead] ns = Some ns'" "freed ns dead head (length dead) ns'"
proof -
  have "freed ns dead head 0 ns" by (simp add: freed_def)
  then have "\<exists>ns'. foldM (gc_free_step dead head) [0..<length dead] ns = Some ns' \<and> freed ns dead head (length dead) ns'"
    by (rule foldM_upt_inv[rotated]) (use gc_free_step_ok[OF _ assms] in auto)
  then show thesis using that by blast
qed

lemma freedD:
  assumes f: "freed ns dead head (length dead) ns'" and d: "\<forall>i\<in>set dead. 0 \<le> i \<and> nat i < length ns"
  shows "alloc ns' i \<longleftrightarrow> alloc ns i \<and> i \<notin> set dead" "alloc ns' i \<Longrightarrow> node_at ns' i = node_at ns i"
    "free_slots ns' = free_slots ns \<union> set dead" "p < length dead \<Longrightarrow> bdd_high (node_at ns' (dead ! p)) = next_dead dead head p"
proof -
  have dead: "IsFreeNode (node_at ns' i)" if mem: "i \<in> set dead" for i
  proof -
    obtain p where "p < length dead" "i = dead ! p" using mem by (auto simp: in_set_conv_nth)
    then show ?thesis using f by (simp add: freed_def SetFreeNode_def IsFreeNode_def)
  qed
  have other: "node_at ns' i = node_at ns i" if "i \<notin> set dead" "0 \<le> i" for i using f that by (simp add: freed_def)
  have len: "length ns' = length ns" using f by (simp add: freed_def)
  show al: "alloc ns' i \<longleftrightarrow> alloc ns i \<and> i \<notin> set dead" for i
    using dead[of i] other[of i] len by (cases "i \<in> set dead") (auto simp: alloc_def)
  show "alloc ns' i \<Longrightarrow> node_at ns' i = node_at ns i" using al other by (auto simp: alloc_def)
  show "free_slots ns' = free_slots ns \<union> set dead"
  proof (intro set_eqI)
    fix i show "i \<in> free_slots ns' \<longleftrightarrow> i \<in> free_slots ns \<union> set dead"
      using dead[of i] other[of i] len d by (cases "i \<in> set dead") (auto simp: free_slots_def)
  qed
  show "p < length dead \<Longrightarrow> bdd_high (node_at ns' (dead ! p)) = next_dead dead head p"
    using f by (simp add: freed_def SetFreeNode_def)
qed

lemma free_chain_frame:
  "free_chain ns i fs \<Longrightarrow> length ns' = length ns \<Longrightarrow> (\<And>j. j \<in> set fs \<Longrightarrow> node_at ns' j = node_at ns j) \<Longrightarrow> free_chain ns' i fs"
proof (induction rule: free_chain.induct)
  case chain_end
  then show ?case using free_chain.chain_end[of ns'] by simp
next
  case (chain_next i fs)
  then have "i \<in> free_slots ns'" "node_at ns' i = node_at ns i" by (auto simp: free_slots_def)
  then show ?case using free_chain.chain_next[of i ns'] chain_next by simp
qed

lemma free_chain_head: "free_chain ns i fs \<Longrightarrow> 0 \<le> i"
  by (induction rule: free_chain.induct) (auto simp: free_slots_def)

lemma freed_chain:
  assumes ok: "free_chain ns head fs" "set fs = free_slots ns" and f: "freed ns dead head (length dead) ns'"
    and d: "\<forall>i\<in>set dead. alloc ns i"
  shows "p \<le> length dead \<Longrightarrow> free_chain ns' (if p < length dead then dead ! p else head) (drop p dead @ fs)"
proof (induction "length dead - p" arbitrary: p)
  case 0
  have range: "\<forall>i\<in>set dead. 0 \<le> i \<and> nat i < length ns" using d by (simp add: alloc_def)
  have "node_at ns' j = node_at ns j" if "j \<in> set fs" for j
  proof -
    have "j \<notin> set dead" "0 \<le> j" using that ok(2) d by (auto simp: free_slots_def alloc_def)
    then show ?thesis using f by (simp add: freed_def)
  qed
  moreover have "length ns' = length ns" using f by (simp add: freed_def)
  ultimately show ?case using 0 free_chain_frame[OF ok(1)] by simp
next
  case (Suc m)
  have range: "\<forall>i\<in>set dead. 0 \<le> i \<and> nat i < length ns" using d by (simp add: alloc_def)
  note fd = freedD[OF f range]
  have p: "p < length dead" using Suc.hyps(2) by linarith
  have ih: "free_chain ns' (next_dead dead head p) (drop (Suc p) dead @ fs)"
    using Suc.hyps(1)[of "Suc p"] Suc.hyps(2) p by (cases "Suc p < length dead") (simp_all add: next_dead_def)
  have "NextFree (bdd_high (node_at ns' (dead ! p))) (dead ! p) = next_dead dead head p"
    using free_chain_head[OF ih] fd(4)[OF p] by (simp add: NextFree_def)
  moreover have "dead ! p \<in> free_slots ns'" using fd(3) p by simp
  ultimately have "free_chain ns' (dead ! p) (dead ! p # drop (Suc p) dead @ fs)" using free_chain.chain_next[of "dead ! p" ns'] ih by simp
  moreover have "dead ! p # drop (Suc p) dead @ fs = drop p dead @ fs" by (simp flip: Cons_nth_drop_Suc[OF p])
  ultimately show ?case using p by simp
qed

section \<open>The debug walk\<close>

lemma gc_debug_walk_ok:
  assumes "free_chain (nodes b) head fs" "distinct fs" "\<exists>gs. fs = it @ gs" "bm_set seen (length (nodes b)) S" "S \<inter> set fs = {}"
  shows "gc_debug_walk b head it seen = Some ()"
  using assms
proof (induction fs arbitrary: head it seen S rule: list.induct)
  case Nil
  then have "head = int (length (nodes b))" by (auto elim: free_chain_NilE)
  then show ?case by (subst gc_debug_walk.simps) simp
next
  case (Cons k fs)
  from Cons.prems(1) have h: "k = head" "head \<in> free_slots (nodes b)" "free_chain (nodes b) (NextFree (bdd_high (node_at (nodes b) head)) head) fs"
    by (auto elim: free_chain_ConsE)
  have r: "0 \<le> head" "head < int (length (nodes b))" "nat head < length (nodes b)" "IsFreeNode (node_at (nodes b) head)"
    using h(2) by (auto simp: free_slots_def)
  obtain seen' where s: "bitmap_Set seen head = Some seen'" "bm_set seen' (length (nodes b)) (insert head S)"
    by (rule bm_set_Set[OF Cons.prems(4) r(1,2)])
  have g: "bitmap_Get seen head = Some False" using bm_set_Get[OF Cons.prems(4) r(1,2)] Cons.prems(5) h(1) by auto
  have it: "it = [] \<or> head = hd it" "\<exists>gs. fs = tl it @ gs" using Cons.prems(3) h(1) by (cases it; auto)+
  have rest: "gc_debug_walk b (NextFree (bdd_high (node_at (nodes b) head)) head) (tl it) seen' = Some ()"
    using Cons.IH[OF h(3) _ it(2) s(2)] Cons.prems(2,5) h(1) by auto
  show ?case using r g s(1) it(1) rest by (subst gc_debug_walk.simps) (simp add: GetNextFreeNode_def)
qed

section \<open>Variables, tables and cache\<close>

definition swept_nodes :: "BddNode list \<Rightarrow> int set \<Rightarrow> BddNode list \<Rightarrow> bool" where
  "swept_nodes ns L ns' = ((\<forall>i. alloc ns' i \<longleftrightarrow> i \<in> L) \<and> (\<forall>i\<in>L. node_at ns' i = node_at ns i))"

lemma swept_grows: "swept_nodes ns L ns' \<Longrightarrow> L \<subseteq> {i. alloc ns i} \<Longrightarrow> grows ns' ns"
  by (auto simp: swept_nodes_def grows_def)

lemma swept_is_node: "swept_nodes ns L ns' \<Longrightarrow> L \<subseteq> {i. alloc ns i} \<Longrightarrow> is_node ns' i v h l \<longleftrightarrow> is_node ns i v h l \<and> i \<in> L"
  by (auto simp: swept_nodes_def is_node_def)

lemma swept_nodes_ok:
  assumes ok: "nodes_ok ns nv" and s: "swept_nodes ns L ns'" and L: "L \<subseteq> {i. alloc ns i}" "{0, 1} \<subseteq> L" "kids_in ns L L" and l: "length ns' = length ns"
  shows "nodes_ok ns' nv"
proof -
  have al: "alloc ns' i \<longleftrightarrow> i \<in> L" and same: "i \<in> L \<Longrightarrow> node_at ns' i = node_at ns i" for i
    using s by (auto simp: swept_nodes_def)
  have "node_ok ns' nv (node_at ns' i)" if "2 \<le> i" "i \<in> L" for i
  proof -
    have "node_ok ns nv (node_at ns i)" using ok L(1) that by (auto simp: nodes_ok_def)
    moreover have "bdd_high (node_at ns i) \<in> L" "bdd_low (node_at ns i) \<in> L" using L(3) that by (auto simp: kids_in_def)
    ultimately show ?thesis using same that al by (simp add: node_ok_def)
  qed
  moreover have "i = j" if "2 \<le> i" "2 \<le> j" "i \<in> L" "j \<in> L" "bdd_variable (node_at ns' i) = bdd_variable (node_at ns' j)"
      "bdd_high (node_at ns' i) = bdd_high (node_at ns' j)" "bdd_low (node_at ns' i) = bdd_low (node_at ns' j)" for i j
    using that ok L(1) same unfolding nodes_ok_def by (metis (no_types, lifting) mem_Collect_eq subsetD)
  moreover have "bdd_path_count (ns' ! 0) = 1" "bdd_path_count (ns' ! 1) = 1"
    using same[of 0] same[of 1] L(2) ok by (simp_all add: nodes_ok_def)
  ultimately show ?thesis using al L(2) ok l unfolding nodes_ok_def by simp
qed

definition cleared :: "int set \<Rightarrow> nat \<Rightarrow> 'a \<Rightarrow> 'a list \<Rightarrow> 'a list" where
  "cleared V k d xs = map (\<lambda>v. if v < k \<and> int v \<notin> V then d else xs ! v) [0..<length xs]"

lemma length_cleared [simp]: "length (cleared V k d xs) = length xs"
  by (simp add: cleared_def)

lemma cleared_0 [simp]: "cleared V 0 d xs = xs"
  by (simp add: cleared_def map_nth)

lemma cleared_nth: "v < length xs \<Longrightarrow> cleared V k d xs ! v = (if v < k \<and> int v \<notin> V then d else xs ! v)"
  by (simp add: cleared_def)

lemma cleared_Suc: "k < length xs \<Longrightarrow> cleared V (Suc k) d xs = (if int k \<in> V then cleared V k d xs else (cleared V k d xs)[k := d])"
  by (rule nth_equalityI) (auto simp: cleared_nth nth_list_update less_Suc_eq)

lemma gc_clear_ok:
  assumes "bm_set lv n V" "length (variable_base_nodes b) = n" "length (node_map_by_var b) = n" "k \<le> n"
  shows "foldM (gc_clear_variable lv) [0..<k] b = Some (b\<lparr>variable_base_nodes := cleared V k None (variable_base_nodes b),
    node_map_by_var := cleared V k [] (node_map_by_var b)\<rparr>)"
  using assms(4)
proof (induction k)
  case 0
  show ?case by simp
next
  case (Suc k)
  have "InlineBitmap_Get lv k = Some (int k \<in> V)" using bm_set_Get[OF assms(1), of "int k"] Suc.prems by (simp add: bitmap_Get_def)
  then show ?case using Suc assms(2,3) by (simp add: foldM_append gc_clear_variable_def cleared_Suc)
qed

lemma bases_ok_swept:
  assumes ok: "bases_ok ns vb" and s: "swept_nodes ns L ns'" and L: "L \<subseteq> {i. alloc ns i}"
    and base: "\<And>v i. v < length vb \<Longrightarrow> vb ! v = Some i \<Longrightarrow> int v \<in> node_vars ns L \<Longrightarrow> i \<in> L"
  shows "bases_ok ns' (cleared (node_vars ns L) (length vb) None vb)"
  unfolding bases_ok_def swept_is_node[OF s L]
proof (intro allI impI conjI)
  fix v assume "v < length (cleared (node_vars ns L) (length vb) None vb)"
  then have v: "v < length vb" "cleared (node_vars ns L) (length vb) None vb ! v = (if int v \<in> node_vars ns L then vb ! v else None)"
    by (simp_all add: cleared_nth)
  fix i
  show "is_node ns i (int v) 1 0" "i \<in> L" if "cleared (node_vars ns L) (length vb) None vb ! v = Some i"
    using that v ok base by (auto simp: bases_ok_def split: if_splits)
  fix h l assume n: "is_node ns i (int v) h l \<and> i \<in> L"
  then have "int v \<in> node_vars ns L" by (auto simp: node_vars_def is_node_def image_iff intro!: bexI[of _ i])
  then show "cleared (node_vars ns L) (length vb) None vb ! v \<noteq> None" using n v ok by (auto simp: bases_ok_def)
qed

lemma map_of_filter_values:
  "distinct (map fst xs) \<Longrightarrow> map_of (filter (\<lambda>(k, v). P v) xs) k = Some v \<longleftrightarrow> map_of xs k = Some v \<and> P v"
proof -
  assume d: "distinct (map fst xs)"
  then have "distinct (map fst (filter (\<lambda>(k, v). P v) xs))" by (rule distinct_map_filter)
  with d show ?thesis by (auto simp: map_of_eq_Some_iff)
qed

lemma maps_ok_swept:
  assumes ok: "maps_ok ns nm" and s: "swept_nodes ns L ns'" and L: "L \<subseteq> {i. alloc ns i}"
  shows "maps_ok ns' (map (filter (\<lambda>(k, v). v \<in> L)) (cleared (node_vars ns L) (length nm) [] nm))"
  unfolding maps_ok_def swept_is_node[OF s L]
proof (intro allI impI)
  fix v assume "v < length (map (filter (\<lambda>(k, v). v \<in> L)) (cleared (node_vars ns L) (length nm) [] nm))"
  then have v: "v < length nm" "cleared (node_vars ns L) (length nm) [] nm ! v = (if int v \<in> node_vars ns L then nm ! v else [])"
    "map (filter (\<lambda>(k, v). v \<in> L)) (cleared (node_vars ns L) (length nm) [] nm) ! v =
       filter (\<lambda>(k, v). v \<in> L) (cleared (node_vars ns L) (length nm) [] nm ! v)"
    by (simp_all add: cleared_nth)
  have old: "distinct (map fst (nm ! v))"
      "\<And>h l i. map_of (nm ! v) (h, l) = Some i \<longleftrightarrow> is_node ns i (int v) h l \<and> (h, l) \<noteq> (1, 0)"
    using ok v(1) by (auto simp: maps_ok_def)
  show "distinct (map fst (map (filter (\<lambda>(k, v). v \<in> L)) (cleared (node_vars ns L) (length nm) [] nm) ! v)) \<and>
      (\<forall>h l i. map_of (map (filter (\<lambda>(k, v). v \<in> L)) (cleared (node_vars ns L) (length nm) [] nm) ! v) (h, l) = Some i \<longleftrightarrow>
        (is_node ns i (int v) h l \<and> i \<in> L) \<and> (h, l) \<noteq> (1, 0))"
  proof (cases "int v \<in> node_vars ns L")
    case True
    then show ?thesis unfolding v(3) using v(2) old map_of_filter_values[OF old(1), of "\<lambda>v. v \<in> L"] distinct_map_filter[OF old(1)] by auto
  next
    case False
    then have "\<not> (is_node ns i (int v) h l \<and> i \<in> L)" for i h l by (auto simp: node_vars_def is_node_def image_iff)
    then show ?thesis unfolding v(3) using v(2) False by auto
  qed
qed

lemma entry_ok_swept:
  assumes "nodes_ok ns' nv" "swept_nodes ns L ns'" "L \<subseteq> {i. alloc ns i}" "entry_ok ns mp c t f r" "c \<in> L" "t \<in> L" "f \<in> L" "r \<noteq> - 1 \<longrightarrow> r \<in> L"
  shows "entry_ok ns' mp c t f r"
proof -
  have "sem ns i = sem ns' i" if "i \<in> L" for i
    using sem_grows[OF assms(1) swept_grows[OF assms(2,3)]] assms(2) that by (simp add: swept_nodes_def)
  then have "ite_sem ns c t f = ite_sem ns' c t f" "r \<in> L \<Longrightarrow> sem ns r = sem ns' r"
    using assms(5-7) by (auto simp: ite_sem_def intro!: ext)
  then show ?thesis using assms(2,4-8) by (auto simp: entry_ok_def swept_nodes_def)
qed

lemma cache_GarbageCollect_ok:
  assumes lm: "bm_set lm (length ns) L" and ok: "cache_ok ns mp cache" and s: "nodes_ok ns' nv" "swept_nodes ns L ns'" "L \<subseteq> {i. alloc ns i}"
  obtains cache' where "cache_GarbageCollect lm cache = Some cache'" "cache_ok ns' mp cache'"
proof (cases cache)
  case (ExactMap m)
  let ?P = "\<lambda>((c, t, f), r). c \<in> L \<and> t \<in> L \<and> f \<in> L \<and> (r \<noteq> - 1 \<longrightarrow> r \<in> L)"
  have get: "bitmap_Get lm i = Some (i \<in> L)" if "alloc ns i" for i using bm_set_Get[OF lm] that by (auto simp: alloc_def)
  have "cache_entry_live lm x = Some (?P x)" if "x \<in> set m" for x
  proof -
    obtain c t f r where x: "x = ((c, t, f), r)" by (metis prod.exhaust)
    then have "entry_ok ns mp c t f r" using ok ExactMap that by (auto simp: cache_ok_def)
    then show ?thesis by (auto simp: x cache_entry_live_def entry_ok_def get split: if_splits)
  qed
  then have "filterM (cache_entry_live lm) m = Some (filter ?P m)" by (rule filterM_pure)
  moreover have "cache_ok ns' mp (ExactMap (filter ?P m))"
    using ok ExactMap entry_ok_swept[OF s] by (fastforce simp: cache_ok_def)
  ultimately show thesis using that ExactMap by (simp add: cache_GarbageCollect_def)
next
  case (LossyArray a)
  then have "cache_ok ns' mp (LossyArray (replicate (length a) IteCacheEntry_default))"
    using ok by (auto simp: cache_ok_def IteCacheEntry_default_def)
  then show thesis using that LossyArray by (simp add: cache_GarbageCollect_def)
qed

section \<open>The whole sweep\<close>

definition bases_live :: "Bdd \<Rightarrow> int set \<Rightarrow> bool" where
  "bases_live b L = (\<forall>v i. v < length (variable_base_nodes b) \<longrightarrow> variable_base_nodes b ! v = Some i \<longrightarrow>
     int v \<in> node_vars (nodes b) L \<longrightarrow> i \<in> L)"

lemma bases_ok_swept_iff:
  assumes "struct_ok b" "swept_nodes (nodes b) L ns'" "L \<subseteq> {i. alloc (nodes b) i}"
  shows "bases_ok ns' (cleared (node_vars (nodes b) L) (length (variable_base_nodes b)) None (variable_base_nodes b)) \<longleftrightarrow> bases_live b L"
proof
  let ?vb = "variable_base_nodes b"
  assume r: "bases_ok ns' (cleared (node_vars (nodes b) L) (length ?vb) None ?vb)"
  show "bases_live b L" unfolding bases_live_def
  proof (intro allI impI)
    fix v i assume v: "v < length ?vb" "?vb ! v = Some i" "int v \<in> node_vars (nodes b) L"
    then have "cleared (node_vars (nodes b) L) (length ?vb) None ?vb ! v = Some i" by (simp add: cleared_nth)
    then have "is_node ns' i (int v) 1 0" using r v(1) by (auto simp: bases_ok_def)
    then show "i \<in> L" using swept_is_node[OF assms(2,3)] by blast
  qed
next
  assume "bases_live b L"
  then show "bases_ok ns' (cleared (node_vars (nodes b) L) (length (variable_base_nodes b)) None (variable_base_nodes b))"
    using bases_ok_swept[OF struct_okD(3)[OF assms(1)] assms(2,3)] unfolding bases_live_def by blast
qed

lemma gc_dead_ok:
  assumes "bm_set lm (length (nodes b)) L"
  shows "filterM (gc_is_dead b lm) [0..<length (nodes b)] =
    Some (filter (\<lambda>i. int i \<notin> L \<and> alloc (nodes b) (int i)) [0..<length (nodes b)])"
proof (rule filterM_pure)
  fix i assume "i \<in> set [0..<length (nodes b)]"
  then show "gc_is_dead b lm i = Some (int i \<notin> L \<and> alloc (nodes b) (int i))"
    using bm_set_Get[OF assms, of "int i"] by (auto simp: gc_is_dead_def bitmap_Get_def alloc_def)
qed

lemma gc_maps_ok:
  assumes lm: "bm_set lm (length ns) L" and ok: "maps_ok ns nm"
  shows "mapM (filterM (\<lambda>(key, value). bitmap_Get lm value)) (cleared V (length nm) [] nm) =
    Some (map (filter (\<lambda>(k, v). v \<in> L)) (cleared V (length nm) [] nm))"
proof (intro mapM_pure filterM_pure)
  fix m x assume "m \<in> set (cleared V (length nm) [] nm)" and x: "x \<in> set m"
  then obtain v where v: "v < length nm" "m = nm ! v"
    by (auto simp: in_set_conv_nth cleared_nth split: if_splits)
  obtain h l i where e: "x = ((h, l), i)" by (metis prod.exhaust)
  have "map_of (nm ! v) (h, l) = Some i" using ok v x e by (auto simp: maps_ok_def)
  then have "alloc ns i" using ok v(1) by (auto simp: maps_ok_def is_node_def)
  then have "bitmap_Get lm i = Some (i \<in> L)" using bm_set_Get[OF lm] by (auto simp: alloc_def)
  then show "(case x of (key, value) \<Rightarrow> bitmap_Get lm value) = Some (case x of (k, v) \<Rightarrow> v \<in> L)" by (simp add: e)
qed

lemma gc_sweep_ok:
  assumes inv: "bdd_inv b" and m: "mark_inv b lm lv cnt L" and kids: "kids_in (nodes b) L L" and ne: "L \<noteq> {i. alloc (nodes b) i}"
  obtains dead b' where "gc_sweep b lm lv cnt = Some (dead, b')"
    "sorted dead" "distinct dead" "set dead = {i. alloc (nodes b) i} - L" "swept_nodes (nodes b) L (nodes b')"
    "bdd_inv b' \<longleftrightarrow> bases_live b L" "max_paths b' = max_paths b" "nodes_ok (nodes b') (length (variable_base_nodes b'))"
proof -
  let ?ns = "nodes b" and ?nv = "length (variable_base_nodes b)"
  note so = struct_okD[OF bdd_invD(1)[OF inv]]
  have mi: "bm_set lm (length ?ns) L" "bm_set lv ?nv (node_vars ?ns L)" "L \<subseteq> {i. alloc ?ns i}" "{0, 1} \<subseteq> L" "cnt = int (card L)"
    using m by (simp_all add: mark_inv_def)
  define dead where "dead = map int (filter (\<lambda>i. int i \<notin> L \<and> alloc ?ns (int i)) [0..<length ?ns])"
  have dd: "sorted dead" "distinct dead" by (simp_all add: dead_def sorted_map distinct_map sorted_wrt_filter)
  have ds: "set dead = {i. alloc ?ns i} - L"
  proof (intro set_eqI)
    fix i show "i \<in> set dead \<longleftrightarrow> i \<in> {i. alloc ?ns i} - L"
      by (auto simp: dead_def image_iff alloc_def intro!: exI[of _ "nat i"])
  qed
  then have "dead \<noteq> []" using ne mi(3) by auto
  have range: "\<forall>i\<in>set dead. 0 \<le> i \<and> nat i < length ?ns" using ds by (auto simp: alloc_def)
  obtain ns' where ns': "foldM (gc_free_step dead (free_node_head b)) [0..<length dead] ?ns = Some ns'"
      "freed ?ns dead (free_node_head b) (length dead) ns'"
    by (rule gc_free_ok[OF dd(2) range])
  note fd = freedD[OF ns'(2) range]
  have sw: "swept_nodes ?ns L ns'" using fd(1,2) ds mi(3) unfolding swept_nodes_def by blast
  have nok: "nodes_ok ns' ?nv" using swept_nodes_ok[OF so(1) sw mi(3,4) kids] ns'(2) by (simp add: freed_def)
  obtain fs where fs: "free_chain ?ns (free_node_head b) fs" "distinct fs" "set fs = free_slots ?ns" using so(2) by (auto simp: heap_ok_def)
  have chain: "free_chain ns' (hd dead) (dead @ fs)"
    using freed_chain[OF fs(1,3) ns'(2), of 0] ds \<open>dead \<noteq> []\<close> by (auto simp: hd_conv_nth)
  have dis: "distinct (dead @ fs)" "set (dead @ fs) = free_slots ns'" using dd(2) fs(2,3) ds fd(3) by (auto simp: free_slots_def alloc_def)
  obtain cache' where cache: "cache_GarbageCollect lm (ite_cache b) = Some cache'" "cache_ok ns' (max_paths b) cache'"
    by (rule cache_GarbageCollect_ok[OF mi(1) bdd_invD(2)[OF inv] nok sw mi(3)])
  define vb where "vb = cleared (node_vars ?ns L) ?nv None (variable_base_nodes b)"
  define nm where "nm = cleared (node_vars ?ns L) ?nv [] (node_map_by_var b)"
  define b' where "b' = b\<lparr>nodes := ns', free_node_head := hd dead, variable_base_nodes := vb, ite_cache := cache',
      node_map_by_var := map (filter (\<lambda>(k, v). v \<in> L)) nm, nodes_size := cnt, prev_nodes_size := cnt\<rparr>"
  have walk: "gc_debug_walk b' (hd dead) dead (InlineBitmap (length ns') False) = Some ()"
    using gc_debug_walk_ok[of b' "hd dead" "dead @ fs" dead "InlineBitmap (length ns') False" "{}"] chain dis(1) bm_set_empty by (simp add: b'_def)
  have dead': "filterM (gc_is_dead b lm) [0..<length ?ns] = Some (filter (\<lambda>i. int i \<notin> L \<and> alloc ?ns (int i)) [0..<length ?ns])"
    by (rule gc_dead_ok[OF mi(1)])
  have count: "ib_bit_count lv = ?nv" using mi(2) bm_reprD(1) by (auto simp: bm_set_def)
  have "gc_sweep b lm lv cnt = Some (dead, b')"
    using \<open>dead \<noteq> []\<close> ns'(1) cache(1) walk so(5) gc_maps_ok[OF mi(1) so(4), of "node_vars ?ns L"]
      gc_clear_ok[OF mi(2), of "b\<lparr>nodes := ns', free_node_head := hd dead\<rparr>" ?nv]
    unfolding gc_sweep_def dead' Option.bind_lunit Let_def dead_def[symmetric] count
    by (simp add: b'_def vb_def nm_def)
  moreover have "heap_ok b'"
  proof -
    have "{i. alloc ns' i} = L" using sw by (auto simp: swept_nodes_def)
    then show ?thesis using chain dis mi(5) unfolding heap_ok_def b'_def by auto
  qed
  then have "bdd_inv b' \<longleftrightarrow> bases_live b L"
    using nok cache(2) so(5) maps_ok_swept[OF so(4) sw mi(3)] bases_ok_swept_iff[OF bdd_invD(1)[OF inv] sw mi(3)]
    by (simp add: bdd_inv_def struct_ok_def b'_def vb_def nm_def)
  ultimately show thesis using that[OF _ dd ds] sw nok by (simp add: b'_def vb_def)
qed

section \<open>Garbage collection\<close>

definition collected :: "Bdd \<Rightarrow> int list \<Rightarrow> int list \<Rightarrow> Bdd \<Rightarrow> bool" where
  "collected b roots dead b' = (sorted dead \<and> distinct dead \<and>
     set dead = {i. alloc (nodes b) i} - gc_live (nodes b) roots \<and>
     swept_nodes (nodes b) (gc_live (nodes b) roots) (nodes b') \<and>
     (bdd_inv b' \<longleftrightarrow> bases_live b (gc_live (nodes b) roots)) \<and> max_paths b' = max_paths b \<and>
     nodes_ok (nodes b') (length (variable_base_nodes b')))"

text \<open>The two tests that make the collector return early.\<close>

definition gc_skips :: "Bdd \<Rightarrow> int list \<Rightarrow> rat \<Rightarrow> bool" where
  "gc_skips b roots thr = (of_int (nodes_size b) * thr < of_int (prev_nodes_size b) \<or>
     of_int (int (card (gc_live (nodes b) roots))) / of_int (nodes_size b) \<ge> thr \<or> int (card (gc_live (nodes b) roots)) = nodes_size b)"

lemma GarbageCollect_ok:
  assumes inv: "bdd_inv b" and roots: "\<forall>r\<in>set roots. alloc (nodes b) r"
  obtains dead b' where "bdd_GarbageCollect roots thr b = Some (Inr dead, b')"
    "if gc_skips b roots thr then b' = b \<and> dead = [] else dead \<noteq> [] \<and> collected b roots dead b'"
proof (cases "of_int (nodes_size b) * thr < of_int (prev_nodes_size b)")
  case True
  then show thesis using that[of "[]" b] by (simp add: bdd_GarbageCollect_def gc_skips_def)
next
  case go: False
  let ?ns = "nodes b"
  define L where "L = gc_live ?ns roots"
  note so = struct_okD[OF bdd_invD(1)[OF inv]]
  have len: "2 \<le> length ?ns" using so(1) by (simp add: nodes_ok_def)
  obtain lm0 where lm0: "bitmap_Set (InlineBitmap (length ?ns) False) 0 = Some lm0" "bm_set lm0 (length ?ns) {0}"
    by (rule bm_set_Set[OF bm_set_empty, of 0 "length ?ns"]) (use len that in auto)
  obtain lm1 where lm1: "bitmap_Set lm0 1 = Some lm1" "bm_set lm1 (length ?ns) {0, 1}"
    by (rule bm_set_Set[OF lm0(2), of 1]) (use len that in \<open>auto simp: insert_commute\<close>)
  obtain lm lv where mark: "gc_mark b roots lm1 (InlineBitmap (length (variable_base_nodes b)) False) 2 = Some (lm, lv, int (card L))"
      "mark_inv b lm lv (int (card L)) L"
    by (rule gc_mark_ok[OF bdd_invD(1)[OF inv] roots lm1(2) bm_set_empty, folded L_def])
  have sub: "L \<subseteq> {i. alloc ?ns i}" using mark(2) by (simp add: mark_inv_def)
  have size: "nodes_size b = int (card {i. alloc ?ns i})" using so(2) by (simp add: heap_ok_def)
  note start = bdd_GarbageCollect_def[of roots thr b, unfolded bdd_consts lm0(1) lm1(1) mark(1) Option.bind_lunit prod.case]
  show thesis
  proof (cases "of_int (int (card L)) / of_int (nodes_size b) \<ge> thr \<or> int (card L) = nodes_size b")
    case True
    then have "gc_skips b roots thr" by (auto simp: gc_skips_def L_def)
    then show thesis using that[of "[]" b] go True unfolding start by (simp only: if_False if_True)
  next
    case False
    have "card L \<le> card {i. alloc ?ns i}" by (rule card_mono[OF finite_alloc sub])
    then have lt: "nodes_size b > int (card L)" "L \<noteq> {i. alloc ?ns i}" using False size by auto
    obtain dead b' where s: "gc_sweep b lm lv (int (card L)) = Some (dead, b')" "collected b roots dead b'"
      by (rule gc_sweep_ok[OF inv mark(2) gc_live_kids[of ?ns roots, folded L_def] lt(2)]) (simp add: collected_def L_def that)
    have "\<not> gc_skips b roots thr" using go False by (simp add: gc_skips_def L_def)
    moreover have "dead \<noteq> []" using s(2) lt(2) sub by (auto simp: collected_def L_def)
    ultimately show thesis using that[of dead b'] s go False lt(1) unfolding start by simp
  qed
qed

lemma collected_sem:
  assumes inv: "bdd_inv b" and c: "collected b roots dead b'" and roots: "\<forall>r\<in>set roots. alloc (nodes b) r"
    and i: "i \<in> gc_live (nodes b) roots"
  shows "alloc (nodes b') i" "sem (nodes b') i = sem (nodes b) i"
proof -
  have sw: "swept_nodes (nodes b) (gc_live (nodes b) roots) (nodes b')" and nok: "nodes_ok (nodes b') (length (variable_base_nodes b'))"
    using c by (simp_all add: collected_def)
  have sub: "gc_live (nodes b) roots \<subseteq> {i. alloc (nodes b) i}"
    using gc_live_alloc[OF struct_okD(1)[OF bdd_invD(1)[OF inv]] roots] by blast
  show a: "alloc (nodes b') i" using sw i by (simp add: swept_nodes_def)
  show "sem (nodes b') i = sem (nodes b) i" using sem_grows[OF nok swept_grows[OF sw sub] a] by simp
qed

text \<open>At the default threshold the collector works exactly when the diagram has doubled since the last
  collection and more than half of the nodes are dead.\<close>

lemma gc_skips_default:
  assumes "bdd_inv b"
  shows "gc_skips b roots (1 / 2) \<longleftrightarrow> nodes_size b < 2 * prev_nodes_size b \<or> nodes_size b \<le> 2 * int (card (gc_live (nodes b) roots))"
proof -
  let ?n = "nodes_size b" and ?l = "int (card (gc_live (nodes b) roots))"
  have "{0, 1} \<subseteq> {i. alloc (nodes b) i}" using struct_okD(1)[OF bdd_invD(1)[OF assms]] by (simp add: nodes_ok_def)
  then have "card {0, 1 :: int} \<le> card {i. alloc (nodes b) i}" by (rule card_mono[OF finite_alloc])
  then have n: "0 < ?n" using struct_okD(2)[OF bdd_invD(1)[OF assms]] by (simp add: heap_ok_def)
  have "of_int ?n * (1 / 2) < (of_int (prev_nodes_size b) :: rat) \<longleftrightarrow> (of_int ?n :: rat) < of_int (2 * prev_nodes_size b)" by (simp add: mult.commute)
  then have 1: "of_int ?n * (1 / 2) < (of_int (prev_nodes_size b) :: rat) \<longleftrightarrow> ?n < 2 * prev_nodes_size b" by (simp only: of_int_less_iff)
  have "(of_int ?l / of_int ?n :: rat) \<ge> 1 / 2 \<longleftrightarrow> (of_int ?n :: rat) \<le> of_int (2 * ?l)" using n by (simp add: field_simps)
  then have 2: "(of_int ?l / of_int ?n :: rat) \<ge> 1 / 2 \<longleftrightarrow> ?n \<le> 2 * ?l" by (simp only: of_int_le_iff)
  show ?thesis unfolding gc_skips_def 1 2 using n by linarith
qed

end
