(* ===== verification/Bdd_Theorems.thy ===== *)
theory Bdd_Theorems
  imports Bdd_Contract Bdd_Eval Bdd_Sweep
begin

text \<open>
  The properties of the binary decision diagrams: what holds in every state the operations reach,
  and what each operation does in such a state.
\<close>

section \<open>Auxiliary facts\<close>

lemma tree_vars: "nodes_ok ns nv \<Longrightarrow> tree_of ns i t \<Longrightarrow> bdt_vars t \<subseteq> {0..<int nv}"
proof (induction t arbitrary: i)
  case (Branch v h l)
  from Branch.prems(2) obtain "2 \<le> i" "alloc ns i" "v = bdd_variable (node_at ns i)"
      "tree_of ns (bdd_high (node_at ns i)) h" "tree_of ns (bdd_low (node_at ns i)) l" by (rule tree_of_BranchE)
  then show ?case using nodes_okD(1,2)[OF Branch.prems(1)] Branch.IH[OF Branch.prems(1)] by simp
qed simp

lemma bdt_eval_cong: "(\<And>v. v \<in> bdt_vars t \<Longrightarrow> a v = a' v) \<Longrightarrow> bdt_eval t a = bdt_eval t a'"
  by (induction t) auto

lemma sem_cong: "nodes_ok ns nv \<Longrightarrow> (\<And>v. v \<in> {0..<int nv} \<Longrightarrow> a v = a' v) \<Longrightarrow> sem ns i a = sem ns i a'"
  unfolding sem_def using tree_vars bdt_eval_cong by (metis subsetD)

lemma ite_tree: "nodes_ok ns nv \<Longrightarrow> \<exists>u. represents u (ite_sem ns c t f) \<and> bdt_vars u \<subseteq> {0..<int nv}"
proof -
  assume ok: "nodes_ok ns nv"
  have set: "set (map int [0..<nv]) = {0..<int nv}" by (simp add: image_int_atLeastLessThan)
  have dep: "ite_sem ns c t f a = ite_sem ns c t f a'" if "\<And>v. v \<in> set (map int [0..<nv]) \<Longrightarrow> a v = a' v" for a a'
  proof -
    have "sem ns i a = sem ns i a'" for i by (rule sem_cong[OF ok]) (rule that[unfolded set])
    then show ?thesis unfolding ite_sem_def by presburger
  qed
  have "sorted (map int [0..<nv])" "distinct (map int [0..<nv])" by (simp_all add: sorted_map distinct_map)
  from represents_exists[OF this, of "ite_sem ns c t f", OF dep] show ?thesis unfolding set .
qed

lemma ite_within_limit:
  assumes "bdd_inv b" "alloc (nodes b) c" "alloc (nodes b) t" "alloc (nodes b) f" "2 ^ length (variable_base_nodes b) \<le> max_paths b"
  obtains r b' where "IfThenElse hash c t f b = Some (r, b')" "bdd_inv b'" "extends b b'" "alloc (nodes b') r"
proof -
  let ?n = "length (variable_base_nodes b)"
  obtain u where u: "represents u (ite_sem (nodes b) c t f)" "bdt_vars u \<subseteq> {0..<int ?n}"
    using ite_tree struct_okD(1)[OF bdd_invD(1)[OF assms(1)]] by blast
  have "bdt_paths u \<le> 2 ^ ?n" using robdd_paths_bound[OF _ u(2)] u(1) by (simp add: represents_def)
  then have "\<not> exceeds (max_paths b) (ite_sem (nodes b) c t f)" using u(1) assms(5) by (auto simp: exceeds_def intro!: exI[of _ u])
  moreover have "- 1 \<notin> {c, t, f}" using assms(2-4) by (auto simp: alloc_def)
  moreover have "ite_returns hash b c t f" by (rule IfThenElse_returns) (use assms in \<open>simp_all add: feasible_def\<close>)
  ultimately show thesis using that by (auto simp: ite_returns_def ite_result_def split: if_splits)
qed

lemma NewVariable_times_ok:
  "bdd_inv b \<Longrightarrow> \<exists>xs b'. NewVariable_times k b = Some (xs, b') \<and> bdd_inv b' \<and> grows (nodes b) (nodes b') \<and> length xs = k \<and>
    variable_base_nodes b' = variable_base_nodes b @ map Some xs \<and>
    (\<forall>j<k. is_node (nodes b') (xs ! j) (int (length (variable_base_nodes b) + j)) 1 0)"
proof (induction k)
  case (Suc k)
  then obtain xs b1 where 1: "NewVariable_times k b = Some (xs, b1)" "bdd_inv b1" "grows (nodes b) (nodes b1)" "length xs = k"
      "variable_base_nodes b1 = variable_base_nodes b @ map Some xs"
      "\<forall>j<k. is_node (nodes b1) (xs ! j) (int (length (variable_base_nodes b) + j)) 1 0" by blast
  obtain i b2 where 2: "NewVariable b1 = Some (i, b2)" "bdd_inv b2" "grows (nodes b1) (nodes b2)"
      "variable_base_nodes b2 = variable_base_nodes b1 @ [Some i]" "is_node (nodes b2) i (int (length (variable_base_nodes b1))) 1 0"
    using NewVariable_ok[OF 1(2)] by blast
  have "is_node (nodes b2) j v h l" if "is_node (nodes b1) j v h l" for j v h l using that 2(3) by (auto simp: is_node_def grows_def)
  then have "is_node (nodes b2) ((xs @ [i]) ! j) (int (length (variable_base_nodes b) + j)) 1 0" if "j < Suc k" for j
    using 1(4,5,6) 2(5) that by (cases "j = k") (auto simp: nth_append)
  then show ?case using 1 2 grows_trans[OF 1(3) 2(3)] by auto
qed (use grows_refl in auto)

section \<open>Reachable diagrams\<close>

text \<open>Every operation that changes a diagram, on expressions of that diagram, in any order. The flag of a
  state records whether every collection so far was given the base nodes of all variables among its
  roots; no step asks for it.\<close>

definition base_nodes :: "Bdd \<Rightarrow> int set" where
  "base_nodes b = {i. Some i \<in> set (variable_base_nodes b)}"

inductive bdd_reachable :: "ite_hash \<Rightarrow> bool \<Rightarrow> Bdd \<Rightarrow> bool" for hash where
  reach_new: "bdd_reachable hash True (BinaryDecisionDiagram mp)"
| reach_variable: "bdd_reachable hash kept b \<Longrightarrow> NewVariable b = Some (i, b') \<Longrightarrow> bdd_reachable hash kept b'"
| reach_variables: "bdd_reachable hash kept b \<Longrightarrow> NewVariables k b = Some (xs, b') \<Longrightarrow> bdd_reachable hash kept b'"
| reach_ite: "bdd_reachable hash kept b \<Longrightarrow> feasible b c \<Longrightarrow> feasible b t \<Longrightarrow> feasible b f \<Longrightarrow>
    IfThenElse hash c t f b = Some (r, b') \<Longrightarrow> bdd_reachable hash kept b'"
| reach_constant: "bdd_reachable hash kept b \<Longrightarrow> feasible b c \<Longrightarrow> feasible b t \<Longrightarrow> feasible b f \<Longrightarrow>
    IfThenElseConstant hash c t f b = Some (q, b') \<Longrightarrow> bdd_reachable hash kept b'"
| reach_gc: "bdd_reachable hash kept b \<Longrightarrow> \<forall>i\<in>set roots. alloc (nodes b) i \<Longrightarrow>
    bdd_GarbageCollect roots thr b = Some (res, b') \<Longrightarrow> bdd_reachable hash (kept \<and> base_nodes b \<subseteq> set roots) b'"

lemma base_roots_live: "base_nodes b \<subseteq> set roots \<Longrightarrow> bases_live b (gc_live (nodes b) roots)"
proof -
  assume roots: "base_nodes b \<subseteq> set roots"
  have "i \<in> gc_live (nodes b) roots" if "v < length (variable_base_nodes b)" "variable_base_nodes b ! v = Some i" for v i
  proof -
    have "Some i \<in> set (variable_base_nodes b)" using that by (metis nth_mem)
    then show ?thesis using roots by (auto simp: base_nodes_def gc_live_def intro: reach.intros)
  qed
  then show ?thesis by (simp add: bases_live_def)
qed

lemma bdd_reachable_inv: "bdd_reachable hash kept b \<Longrightarrow> kept \<Longrightarrow> bdd_inv b"
proof (induction rule: bdd_reachable.induct)
  case (reach_new mp)
  show ?case by (rule BinaryDecisionDiagram_inv)
next
  case (reach_variable kept b i b')
  then show ?case using NewVariable_ok by fastforce
next
  case (reach_variables kept b k xs b')
  then show ?case using NewVariable_times_ok[of b k] NewVariables_times[OF struct_okD(5)[OF bdd_invD(1)], of b k] by auto
next
  case (reach_ite kept b c t f r b')
  then show ?case using IfThenElse_returns[of b c t f hash] by (auto simp: ite_returns_def ite_result_def)
next
  case (reach_constant kept b c t f q b')
  then show ?case using IfThenElseConstant_returns[of b c t f hash] by (auto simp: const_returns_def const_result_def)
next
  case (reach_gc kept b roots thr res b')
  then have inv: "bdd_inv b" and base: "base_nodes b \<subseteq> set roots" by simp_all
  obtain dead b2 where g: "bdd_GarbageCollect roots thr b = Some (Inr dead, b2)"
      "if gc_skips b roots thr then b2 = b \<and> dead = [] else dead \<noteq> [] \<and> collected b roots dead b2"
    by (rule GarbageCollect_ok[OF inv reach_gc.hyps(2)])
  then show ?case using reach_gc.hyps(3) inv base_roots_live[OF base] by (auto simp: collected_def split: if_splits)
qed

text \<open>A diagram with two variables, for the witnesses.\<close>

definition bdd_two :: Bdd where
  "bdd_two = snd (the (NewVariables 2 (BinaryDecisionDiagram 1000)))"

lemma bdd_two_eval: "NewVariables 2 (BinaryDecisionDiagram 1000) = Some ([2, 3], bdd_two)"
  by code_simp

lemma bdd_two_reachable: "bdd_reachable hash True bdd_two"
  using bdd_reachable.reach_variables[OF bdd_reachable.reach_new bdd_two_eval] .

lemma bdd_two_inv: "bdd_inv bdd_two"
  using bdd_reachable_inv[OF bdd_two_reachable] by simp

lemma bdd_two_alloc: "alloc (nodes bdd_two) i" if "i \<in> {0, 1, 2, 3}"
proof -
  have "alloc (nodes bdd_two) 0 \<and> alloc (nodes bdd_two) 1 \<and> alloc (nodes bdd_two) 2 \<and> alloc (nodes bdd_two) 3" by code_simp
  then show ?thesis using that by auto
qed

section \<open>Properties\<close>

text \<open>C3. A diagram reached from an empty one by any sequence of operations satisfies the invariant (nodes
  ordered, reduced and unique, tables, free list and cache in agreement with them) as long as every
  collection was given the base nodes of the variables among its roots; then two expressions of the
  diagram that compute the same function are the same index.\<close>

theorem bdd_reachable_canonical:
  assumes "bdd_reachable hash kept b" "kept"
  shows "bdd_inv b \<and> (\<forall>i j. alloc (nodes b) i \<and> alloc (nodes b) j \<and> (\<forall>a. sem (nodes b) i a = sem (nodes b) j a) \<longrightarrow> i = j)"
proof -
  have inv: "bdd_inv b" by (rule bdd_reachable_inv[OF assms])
  show ?thesis using inv sem_canonical[OF struct_okD(1)[OF bdd_invD(1)[OF inv]]] by blast
qed

theorem bdd_reachable_canonical_witness:
  "bdd_inv bdd_two \<and> (sem (nodes bdd_two) 2 \<noteq> sem (nodes bdd_two) 3)"
proof -
  from bdd_reachable_canonical[OF bdd_two_reachable[of "\<lambda>_. 0"]] show ?thesis
    using bdd_two_alloc[of 2] bdd_two_alloc[of 3] by force
qed

text \<open>The condition on the roots is needed: with the roots \<open>And(x0, x1)\<close> and \<open>Or(x0, x1)\<close> the collector frees the
  base node of \<open>x0\<close> and keeps its index in the table of base nodes.\<close>

definition bdd_and :: Bdd where
  "bdd_and = (snd (the (GetOrCreateNode 0 3 0 bdd_two)))\<lparr>ite_cache := ExactMap [((2, 3, 0), 4)]\<rparr>"

definition bdd_or :: Bdd where
  "bdd_or = (snd (the (GetOrCreateNode 0 1 3 bdd_and)))\<lparr>ite_cache := ExactMap [((2, 1, 3), 5), ((2, 3, 0), 4)]\<rparr>"

definition bdd_lost :: Bdd where
  "bdd_lost = snd (the (bdd_GarbageCollect [4, 5] 1 bdd_or))"

lemma ite_leaf: "IfThenElse hash 1 t f b = Some (t, b)" "IfThenElse hash 0 t f b = Some (f, b)"
  by (subst IfThenElse.simps; simp add: IfThenElseTrivial_def bdd_consts)+

lemma ite_node:
  assumes "IfThenElseTrivial c t f = None" "ite_cache b = ExactMap m" "map_of m (c, t, f) = None" "length m < 10"
    "DecomposeITE b c t f = Some \<lparr>min_var = v, true_cofactor = \<lparr>ite_cond = 1, ite_if_true = x, ite_if_false = x'\<rparr>,
       false_cofactor = \<lparr>ite_cond = 0, ite_if_true = y', ite_if_false = y\<rparr>\<rparr>"
    "x \<noteq> y" "0 \<le> x" "0 \<le> y" "bdd_path_count_of b x = Some p" "bdd_path_count_of b y = Some q"
    "\<not> (sr_did_overflow (SaturatingAdd int64_type p q) \<or> sr_result (SaturatingAdd int64_type p q) > max_paths b)"
    "GetOrCreateNode v x y b = Some (r, b')" "ite_cache b' = ite_cache b"
  shows "IfThenElse hash c t f b = Some (r, b'\<lparr>ite_cache := ExactMap (((c, t, f), r) # m)\<rparr>)"
  using assms by (subst IfThenElse.simps)
    (simp add: ite_leaf cache_Get_def insert_result_def cache_Insert_def kCutoverThreshold_def bdd_consts Let_def)

lemma bdd_and_eval: "IfThenElse hash 2 3 0 bdd_two = Some (4, bdd_and)"
  unfolding bdd_and_def
  by (rule ite_node[where v = 0 and x = 3 and x' = 0 and y' = 3 and y = 0 and p = 2 and q = 1]) code_simp+

lemma bdd_or_eval: "IfThenElse hash 2 1 3 bdd_and = Some (5, bdd_or)"
  unfolding bdd_or_def
  by (rule ite_node[where v = 0 and x = 1 and x' = 3 and y' = 1 and y = 3 and p = 1 and q = 2]) code_simp+

lemma bdd_lost_eval: "bdd_GarbageCollect [4, 5] 1 bdd_or = Some (Inr [2], bdd_lost)"
  by code_simp

lemma bdd_gc_frees_base:
  "bdd_reachable hash False bdd_lost \<and> variable_base_nodes bdd_lost ! 0 = Some 2 \<and> \<not> alloc (nodes bdd_lost) 2 \<and> \<not> bdd_inv bdd_lost"
proof -
  have "feasible bdd_two 2" "feasible bdd_two 3" "feasible bdd_two 0" "feasible bdd_and 2" "feasible bdd_and 1" "feasible bdd_and 3"
      "\<forall>i\<in>set [4, 5]. alloc (nodes bdd_or) i"
    by code_simp+
  note ok = this
  have "bdd_reachable hash (True \<and> base_nodes bdd_or \<subseteq> set [4, 5]) bdd_lost"
    using bdd_reachable.reach_gc[OF bdd_reachable.reach_ite[OF bdd_reachable.reach_ite[OF bdd_two_reachable ok(1-3) bdd_and_eval]
      ok(4-6) bdd_or_eval] ok(7) bdd_lost_eval] .
  moreover have "Some 2 \<in> set (variable_base_nodes bdd_or)" by code_simp
  then have "\<not> base_nodes bdd_or \<subseteq> set [4, 5]" by (auto simp: base_nodes_def)
  moreover have "variable_base_nodes bdd_lost ! 0 = Some 2 \<and> 0 < length (variable_base_nodes bdd_lost) \<and> \<not> alloc (nodes bdd_lost) 2" by code_simp
  moreover have "\<not> bdd_inv bdd_lost" using calculation(3) by (auto simp: bdd_inv_def struct_ok_def bases_ok_def is_node_def)
  ultimately show ?thesis by simp
qed

text \<open>C2. If-then-else always returns on a diagram that satisfies the invariant. The index it
  returns computes the if-then-else of the functions of its arguments; it is infeasible only when
  an argument is, or when the reduced ordered tree of that function has more paths than the limit.
  No existing node changes.\<close>

theorem ite_correct:
  assumes "bdd_inv b" "feasible b c" "feasible b t" "feasible b f"
  shows "\<exists>r b'. IfThenElse hash c t f b = Some (r, b') \<and> bdd_inv b' \<and> grows (nodes b) (nodes b') \<and>
    (if r = kInfeasible
     then kInfeasible \<in> {c, t, f} \<or> (\<exists>u. represents u (ite_sem (nodes b) c t f) \<and> max_paths b < bdt_paths u)
     else alloc (nodes b') r \<and> (\<forall>a. sem (nodes b') r a = (if sem (nodes b) c a then sem (nodes b) t a else sem (nodes b) f a)))"
proof -
  obtain u where u: "represents u (ite_sem (nodes b) c t f)" using ite_tree struct_okD(1)[OF bdd_invD(1)[OF assms(1)]] by blast
  show ?thesis using IfThenElse_returns[OF assms, of hash] u
    by (auto simp: ite_returns_def ite_result_def extends_def exceeds_def ite_sem_def split: if_splits)
qed

theorem ite_correct_witness:
  "\<exists>r b'. IfThenElse (\<lambda>_. 0) 2 3 0 bdd_two = Some (r, b') \<and> bdd_inv b' \<and> grows (nodes bdd_two) (nodes b')"
  using ite_correct[OF bdd_two_inv, of 2 3 0 "\<lambda>_. 0"] bdd_two_alloc[of 2] bdd_two_alloc[of 3] bdd_two_alloc[of 0]
  by (auto simp: feasible_def)

text \<open>The boolean operations refine those on functions, for expressions of a diagram that
  satisfies the invariant: a feasible result of negation, disjunction, conjunction or implication
  computes the negation, disjunction, conjunction or implication.\<close>

theorem bdd_operations_refine:
  assumes "bdd_inv b" "alloc (nodes b) x" "alloc (nodes b) y"
  shows "(\<forall>r b'. bdd_Not hash x b = Some (r, b') \<longrightarrow> r \<noteq> kInfeasible \<longrightarrow> (\<forall>a. sem (nodes b') r a = (\<not> sem (nodes b) x a))) \<and>
    (\<forall>r b'. bdd_Or hash x y b = Some (r, b') \<longrightarrow> r \<noteq> kInfeasible \<longrightarrow> (\<forall>a. sem (nodes b') r a = (sem (nodes b) x a \<or> sem (nodes b) y a))) \<and>
    (\<forall>r b'. bdd_And hash x y b = Some (r, b') \<longrightarrow> r \<noteq> kInfeasible \<longrightarrow> (\<forall>a. sem (nodes b') r a = (sem (nodes b) x a \<and> sem (nodes b) y a))) \<and>
    (\<forall>r b'. bdd_Implies hash x y b = Some (r, b') \<longrightarrow> r \<noteq> kInfeasible \<longrightarrow>
       (\<forall>a. sem (nodes b') r a = (sem (nodes b) x a \<longrightarrow> sem (nodes b) y a)) \<and> (r = bdd_one \<longleftrightarrow> (\<forall>a. sem (nodes b) x a \<longrightarrow> sem (nodes b) y a)))"
  unfolding bdd_Not_def bdd_Or_def bdd_And_def bdd_Implies_def bdd_consts
  using bdd.not_result(4)[OF assms(1,2)] bdd.or_result(4)[OF assms] bdd.and_result(4)[OF assms] bdd.implies_result(4)[OF assms] bdd.implies_top_iff[OF assms]
  by blast

text \<open>The laws of boolean algebra hold between indices: negating the disjunction of two
  negations and then taking the conjunction gives twice the same index, whatever nodes, cached
  results and free slots there are, unless one of the operations runs into the limit.\<close>

theorem bdd_de_morgan:
  assumes "bdd_inv b" "alloc (nodes b) x" "alloc (nodes b) y"
    and "bdd_Not hash x b = Some (nx, b1)" "bdd_Not hash y b1 = Some (ny, b2)" "bdd_Or hash nx ny b2 = Some (d, b3)"
    and "bdd_Not hash d b3 = Some (r, b4)" "bdd_And hash x y b4 = Some (k, b5)"
    and "kInfeasible \<notin> {nx, ny, d, r, k}"
  shows "k = r"
  by (rule bdd.de_morgan[OF assms(1-3), of hash nx b1 ny b2 d b3 r b4 k b5])
     (use assms(4-9) in \<open>simp_all add: bdd_Not_def bdd_Or_def bdd_And_def\<close>)

lemma constant_query:
  assumes "bdd_inv b" "alloc (nodes b) c" "alloc (nodes b) t" "alloc (nodes b) f" "1 \<le> max_paths b"
  shows "\<exists>q b'. IfThenElseConstant hash c t f b = Some (q, b') \<and> bdd_inv b' \<and> nodes b' = nodes b \<and>
      (\<forall>v. q = Some v \<longleftrightarrow> (\<forall>a. ite_sem (nodes b) c t f a = v))"
proof -
  have neg: "- 1 \<notin> {c, t, f}" using assms(2-4) alloc_nonneg by fastforce
  obtain q b' where q: "IfThenElseConstant hash c t f b = Some (q, b')" "const_result b c t f q b'"
    using IfThenElseConstant_returns[OF assms(1), of c t f hash] assms(2-4) by (auto simp: feasible_def const_returns_def)
  have "q = Some v \<longleftrightarrow> (\<forall>a. ite_sem (nodes b) c t f a = v)" for v
  proof (cases q)
    case None
    then show ?thesis using q(2) assms(5) neg by (auto simp: const_result_def)
  next
    case (Some w)
    then show ?thesis using q(2) by (auto simp: const_result_def)
  qed
  then show ?thesis using q by (auto simp: const_result_def)
qed

text \<open>C5. The constant queries decide without creating a node: with a limit of at least one path,
  \<open>IfThenElseConstant\<close> returns a truth value exactly when the if-then-else of its arguments is that value
  everywhere, and \<open>DoesImply\<close> answers exactly whether the one function implies the other, which is whether
  \<open>Implies\<close>, when it is feasible, returns the index of true. Every node stays as it is.\<close>

theorem bdd_queries_exact:
  assumes "bdd_inv b" "alloc (nodes b) x" "alloc (nodes b) y" "alloc (nodes b) z" "1 \<le> max_paths b"
  shows "(\<exists>q b'. IfThenElseConstant hash x y z b = Some (q, b') \<and> bdd_inv b' \<and> nodes b' = nodes b \<and>
      (\<forall>v. q = Some v \<longleftrightarrow> (\<forall>a. (if sem (nodes b) x a then sem (nodes b) y a else sem (nodes b) z a) = v))) \<and>
    (\<exists>b'. DoesImply hash x y b = Some (\<forall>a. sem (nodes b) x a \<longrightarrow> sem (nodes b) y a, b') \<and> bdd_inv b' \<and> nodes b' = nodes b) \<and>
    (\<forall>r b'. bdd_Implies hash x y b = Some (r, b') \<and> r \<noteq> kInfeasible \<longrightarrow>
      (r = bdd_one \<longleftrightarrow> (\<forall>a. sem (nodes b) x a \<longrightarrow> sem (nodes b) y a)))"
proof -
  have leaf: "alloc (nodes b) 1" using struct_okD(1)[OF bdd_invD(1)[OF assms(1)]] by (simp add: nodes_ok_def)
  have "\<exists>b'. DoesImply hash x y b = Some (\<forall>a. sem (nodes b) x a \<longrightarrow> sem (nodes b) y a, b') \<and> bdd_inv b' \<and> nodes b' = nodes b"
    using constant_query[OF assms(1-3) leaf assms(5), of hash] by (auto simp: DoesImply_def ite_sem_def)
  then show ?thesis using constant_query[OF assms, of hash, unfolded ite_sem_def] bdd_operations_refine[OF assms(1-3), of hash] by blast
qed

theorem bdd_queries_exact_witness:
  "\<exists>b'. DoesImply (\<lambda>_. 0) 2 3 bdd_two = Some (\<forall>a. sem (nodes bdd_two) 2 a \<longrightarrow> sem (nodes bdd_two) 3 a, b') \<and> nodes b' = nodes bdd_two"
proof -
  have "1 \<le> max_paths bdd_two" by code_simp
  from bdd_queries_exact[OF bdd_two_inv bdd_two_alloc bdd_two_alloc bdd_two_alloc this, of 2 3 0 "\<lambda>_. 0"] show ?thesis by auto
qed

text \<open>\<open>MutuallyExclusive\<close> answers exactly whether no assignment satisfies both functions.\<close>

lemma mutually_exclusive_exact:
  assumes "bdd_inv b" "alloc (nodes b) x" "alloc (nodes b) y" "1 \<le> max_paths b"
  shows "\<exists>b'. MutuallyExclusive hash x y b = Some (\<not> (\<exists>a. sem (nodes b) x a \<and> sem (nodes b) y a), b') \<and> bdd_inv b' \<and> nodes b' = nodes b"
proof -
  have "alloc (nodes b) 0" using struct_okD(1)[OF bdd_invD(1)[OF assms(1)]] by (simp add: nodes_ok_def)
  from constant_query[OF assms(1-3) this assms(4), of hash] show ?thesis by (auto simp: MutuallyExclusive_def ite_sem_def)
qed

text \<open>Creating variables in bulk is creating them one after the other; the indices returned
  compute the new variables, in order.\<close>

theorem new_variables_times:
  assumes "bdd_inv b"
  shows "NewVariables k b = NewVariable_times k b \<and>
    (\<exists>xs b'. NewVariables k b = Some (xs, b') \<and> length xs = k \<and> bdd_inv b' \<and> grows (nodes b) (nodes b') \<and>
      (\<forall>j<k. \<forall>a. sem (nodes b') (xs ! j) a = a (int (length (variable_base_nodes b) + j))))"
proof -
  have e: "NewVariables k b = NewVariable_times k b" by (rule NewVariables_times[OF struct_okD(5)[OF bdd_invD(1)[OF assms]]])
  obtain xs b' where n: "NewVariable_times k b = Some (xs, b')" "bdd_inv b'" "grows (nodes b) (nodes b')" "length xs = k"
      "\<forall>j<k. is_node (nodes b') (xs ! j) (int (length (variable_base_nodes b) + j)) 1 0"
    using NewVariable_times_ok[OF assms, of k] by blast
  have "\<forall>j<k. \<forall>a. sem (nodes b') (xs ! j) a = a (int (length (variable_base_nodes b) + j))"
    using is_node_sem[OF struct_okD(1)[OF bdd_invD(1)[OF n(2)]]] n(5) by (metis sem_leaf(1,2))
  then show ?thesis using e n by auto
qed

text \<open>Evaluation returns on every feasible expression. With a value for every variable that agrees
  with an assignment it returns the value of the function there; it fails only for an infeasible
  expression or when some base node has no value, and then with an invalid-argument error.\<close>

theorem bdd_evaluate_correct:
  assumes "bdd_inv b" "feasible b i"
  shows "\<exists>x. bdd_Evaluate b i vv = Some x \<and>
    (case x of
       Inr r \<Rightarrow> \<forall>a. agrees b vv a \<longrightarrow> sem (nodes b) i a = r
     | Inl e \<Rightarrow> e = InvalidArgument \<and> (i = kInfeasible \<or> (\<exists>j. Some j \<in> set (variable_base_nodes b) \<and> vv j = None)))"
proof (cases "i = - 1")
  case True
  then show ?thesis by (simp add: bdd_Evaluate_def)
next
  case False
  then have "alloc (nodes b) i" using assms(2) by (simp add: feasible_def)
  then obtain x where x: "Evaluate_loop b vv i = Some x" "evaluates b vv i x" using Evaluate_loop_ok[OF bdd_invD(1)[OF assms(1)]] by blast
  then show ?thesis using False by (cases x) (simp_all add: bdd_Evaluate_def evaluates_def)
qed

text \<open>The string of an expression that is not a leaf lists the paths of its tree to true, the
  high child first, as conjunctions of literals: all of them, or the first \<open>minterm_limit\<close> of them and
  three dots.\<close>

theorem bdd_dnf_correct:
  assumes "bdd_inv b" "tree_of (nodes b) i (Branch v h l)" "0 \<le> minterm_limit"
  shows "ToStringDnf b i minterm_limit =
    Some (dnf_string (minterms (Branch v h l)) (if minterm_limit = 0 then 2 ^ 63 - 1 else nat minterm_limit))"
  using ToStringDnf_ok[OF struct_okD(1)[OF bdd_invD(1)[OF assms(1)]] assms(2,3)] .

text \<open>The path count of an expression is the number of paths of its tree, saturated at the
  largest 32-bit integer; for an infeasible expression it exceeds the limit, or is the largest 64-bit
  integer.\<close>

theorem bdd_path_count_bound:
  assumes "bdd_inv b"
  shows "(\<forall>i u. tree_of (nodes b) i u \<longrightarrow> bdd_path_count_of b i = Some (min (bdt_paths u) int32_max)) \<and>
    (0 \<le> max_paths b \<and> max_paths b < 2 ^ 63 \<longrightarrow> bdd_path_count_of b kInfeasible = Some (min (max_paths b + 1) (2 ^ 63 - 1)))"
proof -
  note nok = struct_okD(1)[OF bdd_invD(1)[OF assms]]
  have "bdd_path_count_of b i = Some (min (bdt_paths u) int32_max)" if t: "tree_of (nodes b) i u" for i u
  proof -
    have "alloc (nodes b) i" using t nok by (cases rule: tree_of.cases) (auto simp: nodes_ok_def)
    then show ?thesis using tree_of_paths[OF nok t] alloc_nonneg by (fastforce simp: bdd_path_count_of_def GetNode_alloc)
  qed
  moreover have "sr_result (SaturatingAdd int64_type (max_paths b) 1) = min (max_paths b + 1) (2 ^ 63 - 1)"
    if "0 \<le> max_paths b" "max_paths b < 2 ^ 63"
  proof (cases "max_paths b = 2 ^ 63 - 1")
    case True
    then show ?thesis by (simp add: SaturatingAdd_def builtin_overflow_def int64_type_def it_min_def it_max_def it_wrap_def signed_take_bit_eq_if_negative)
  next
    case False
    then have "signed_take_bit 63 (max_paths b + 1) = max_paths b + 1" using that by (simp add: signed_take_bit_int_eq_self)
    then show ?thesis using that False by (simp add: SaturatingAdd_def builtin_overflow_def int64_type_def it_min_def it_max_def it_wrap_def)
  qed
  ultimately show ?thesis by (simp add: bdd_path_count_of_def)
qed

text \<open>C4. Garbage collection always returns. It either changes nothing, or it frees exactly the nodes that
  cannot be reached from the roots and keeps every other node with its function; then it keeps the
  invariant exactly when, for every variable that keeps a node, the base node of the variable can be
  reached as well. At the default threshold of one half it frees nodes exactly when the number of nodes is
  at least twice that after the last collection and more than half of the nodes are dead.\<close>

theorem bdd_gc_correct:
  assumes "bdd_inv b" "\<forall>r\<in>set roots. alloc (nodes b) r"
  shows "\<exists>dead b'. bdd_GarbageCollect roots gc_threshold b = Some (Inr dead, b') \<and>
    (if dead = [] then b' = b
     else sorted dead \<and> distinct dead \<and> set dead = {i. alloc (nodes b) i} - gc_live (nodes b) roots \<and>
       (\<forall>i. alloc (nodes b') i \<longleftrightarrow> i \<in> gc_live (nodes b) roots) \<and>
       (\<forall>i\<in>gc_live (nodes b) roots. sem (nodes b') i = sem (nodes b) i) \<and>
       (bdd_inv b' \<longleftrightarrow> bases_live b (gc_live (nodes b) roots))) \<and>
    (gc_threshold = 1 / 2 \<longrightarrow> (dead \<noteq> [] \<longleftrightarrow>
       2 * prev_nodes_size b \<le> nodes_size b \<and> 2 * int (card (gc_live (nodes b) roots)) < nodes_size b))"
proof -
  obtain dead b' where g: "bdd_GarbageCollect roots gc_threshold b = Some (Inr dead, b')"
      "if gc_skips b roots gc_threshold then b' = b \<and> dead = [] else dead \<noteq> [] \<and> collected b roots dead b'"
    by (rule GarbageCollect_ok[OF assms])
  have "gc_threshold = 1 / 2 \<longrightarrow> (dead \<noteq> [] \<longleftrightarrow>
       2 * prev_nodes_size b \<le> nodes_size b \<and> 2 * int (card (gc_live (nodes b) roots)) < nodes_size b)"
  proof
    assume "gc_threshold = 1 / 2"
    then show "dead \<noteq> [] \<longleftrightarrow> 2 * prev_nodes_size b \<le> nodes_size b \<and> 2 * int (card (gc_live (nodes b) roots)) < nodes_size b"
      using g(2) gc_skips_default[OF assms(1), of roots] by (simp only: if_splits) auto
  qed
  moreover have "if dead = [] then b' = b
     else sorted dead \<and> distinct dead \<and> set dead = {i. alloc (nodes b) i} - gc_live (nodes b) roots \<and>
       (\<forall>i. alloc (nodes b') i \<longleftrightarrow> i \<in> gc_live (nodes b) roots) \<and>
       (\<forall>i\<in>gc_live (nodes b) roots. sem (nodes b') i = sem (nodes b) i) \<and>
       (bdd_inv b' \<longleftrightarrow> bases_live b (gc_live (nodes b) roots))"
  proof (cases "gc_skips b roots gc_threshold")
    case False
    then have c: "collected b roots dead b'" using g(2) by simp
    from collected_sem(2)[OF assms(1) c assms(2)] c show ?thesis using g(2) False by (auto simp: collected_def swept_nodes_def)
  qed (use g(2) in simp)
  ultimately show ?thesis using g(1) by blast
qed

definition bdd_five :: Bdd where
  "bdd_five = snd (the (NewVariables 5 (BinaryDecisionDiagram 1000)))"

lemma bdd_five_eval: "NewVariables 5 (BinaryDecisionDiagram 1000) = Some ([2, 3, 4, 5, 6], bdd_five)"
  by code_simp

theorem bdd_gc_correct_witness:
  "\<exists>b'. bdd_GarbageCollect [2] (1 / 2) bdd_five = Some (Inr [3, 4, 5, 6], b') \<and> alloc (nodes b') 2 \<and>
    sem (nodes b') 2 = sem (nodes bdd_five) 2"
proof -
  have inv: "bdd_inv bdd_five" using bdd_reachable_inv[OF bdd_reachable.reach_variables[OF bdd_reachable.reach_new bdd_five_eval]] by simp
  have al: "\<forall>r\<in>set [2]. alloc (nodes bdd_five) r" by code_simp
  have e: "fst (the (bdd_GarbageCollect [2] (1 / 2) bdd_five)) = Inr [3, 4, 5, 6]" by code_simp
  have live: "2 \<in> gc_live (nodes bdd_five) [2]" by (auto simp: gc_live_def intro: reach.intros)
  have "bdd_GarbageCollect [2] (1 / 2) bdd_five = Some (Inr [3, 4, 5, 6], snd (the (bdd_GarbageCollect [2] (1 / 2) bdd_five)))"
    using bdd_gc_correct[OF inv al, of "1 / 2"] e by auto
  then show ?thesis using bdd_gc_correct[OF inv al, of "1 / 2"] live by auto
qed

end
