(* ===== verification/Bitmap_View.thy ===== *)
theory Bitmap_View
  imports Bits_Rules
begin

text \<open>
  The two view classes of \<^verbatim>\<open>xls/data_structures/inline_bitmap.h\<close>: a range of bits of a bitmap, read
  through \<^verbatim>\<open>BitmapView\<close> and written through \<^verbatim>\<open>MutableBitmapView\<close>. A view is a record of the bitmap it refers
  to and the range; writing through a mutable view gives the view of the updated bitmap. The
  constructor checks the start of the range only, so a view may reach past the end of its bitmap, and
  a read of it aborts.
\<close>

record bitmap_view =
  view_bitmap :: inline_bitmap
  start_bit :: nat
  view_bit_count :: nat

definition BitmapView :: "inline_bitmap \<Rightarrow> nat option \<Rightarrow> nat option \<Rightarrow> bitmap_view option" where
  "BitmapView bitmap start count = do {
     let start = (case start of None \<Rightarrow> 0 | Some s \<Rightarrow> s);
     CHECK (start \<le> ib_bit_count bitmap);
     let count = (case count of None \<Rightarrow> ib_bit_count bitmap - start | Some c \<Rightarrow> c);
     Some \<lparr>view_bitmap = bitmap, start_bit = start, view_bit_count = count\<rparr> }"

definition BitmapView_Get :: "bitmap_view \<Rightarrow> nat \<Rightarrow> bool option" where
  "BitmapView_Get v bit_index = do {
     CHECK (bit_index < view_bit_count v);
     InlineBitmap_Get (view_bitmap v) (start_bit v + bit_index) }"

definition BitmapView_Slice :: "bitmap_view \<Rightarrow> nat \<Rightarrow> nat \<Rightarrow> bitmap_view option" where
  "BitmapView_Slice v start count = BitmapView (view_bitmap v) (Some (start_bit v + start)) (Some count)"

definition BitmapView_ToBitmap :: "bitmap_view \<Rightarrow> inline_bitmap option" where
  "BitmapView_ToBitmap v =
     Overwrite (InlineBitmap (view_bit_count v) False) (view_bitmap v) (view_bit_count v) 0 (start_bit v)"

definition MutableBitmapView_Set :: "bitmap_view \<Rightarrow> nat \<Rightarrow> bool \<Rightarrow> bitmap_view option" where
  "MutableBitmapView_Set v bit_index value = do {
     CHECK (bit_index < view_bit_count v);
     bm \<leftarrow> InlineBitmap_Set (view_bitmap v) (start_bit v + bit_index) value;
     Some (v\<lparr>view_bitmap := bm\<rparr>) }"

definition MutableBitmapView_Overwrite :: "bitmap_view \<Rightarrow> inline_bitmap \<Rightarrow> nat \<Rightarrow> bitmap_view option" where
  "MutableBitmapView_Overwrite v other off = do {
     CHECK (off + ib_bit_count other \<le> view_bit_count v);
     bm \<leftarrow> Overwrite (view_bitmap v) other (ib_bit_count other) (start_bit v + off) 0;
     Some (v\<lparr>view_bitmap := bm\<rparr>) }"

definition MutableBitmapView_Overwrite_view :: "bitmap_view \<Rightarrow> bitmap_view \<Rightarrow> nat \<Rightarrow> bitmap_view option" where
  "MutableBitmapView_Overwrite_view v other off = do {
     CHECK (off + view_bit_count other \<le> view_bit_count v);
     bm \<leftarrow> Overwrite (view_bitmap v) (view_bitmap other) (view_bit_count other) (start_bit v + off) (start_bit other);
     Some (v\<lparr>view_bitmap := bm\<rparr>) }"

text \<open>\<^verbatim>\<open>Bits::FromBitmapView\<close>.\<close>

definition FromBitmapView :: "bitmap_view \<Rightarrow> bits option" where
  "FromBitmapView bitmap = BitmapView_ToBitmap bitmap"

section \<open>Views of canonical bitmaps\<close>

abbreviation mkView :: "nat \<Rightarrow> nat \<Rightarrow> nat \<Rightarrow> nat \<Rightarrow> bitmap_view" where
  "mkView n v s c \<equiv> \<lparr>view_bitmap = mkBitmap n v, start_bit = s, view_bit_count = c\<rparr>"

lemma BitmapView_whole [bm_spec]: "BitmapView (mkBitmap n v) None None = Some (mkView n v 0 n)"
  by (simp add: BitmapView_def)

lemma BitmapView_Slice_mk [bm_spec]:
  "s + k \<le> n \<Longrightarrow> BitmapView_Slice (mkView n v s c) k d = Some (mkView n v (s + k) d)"
  by (simp add: BitmapView_Slice_def BitmapView_def)

lemma FromBitmapView_mk [bm_spec]:
  assumes "s + c \<le> n"
  shows "FromBitmapView (mkView n v s c) = Some (mkBitmap c (drop_bit s v))"
proof -
  have "mkBitmap c (take_bit c (drop_bit s v)) = mkBitmap c (drop_bit s v)" by simp
  then show ?thesis using assms
    by (simp add: FromBitmapView_def BitmapView_ToBitmap_def InlineBitmap_mk Overwrite_mk del: mkBitmap_take_bit)
qed

text \<open>A view reads the bits of its range, and a write through it changes those bits and no other.\<close>

lemma BitmapView_Get_mk [bm_spec]:
  "i < c \<Longrightarrow> s + c \<le> n \<Longrightarrow> BitmapView_Get (mkView n v s c) i = Some (bit v (s + i))"
  by (simp add: BitmapView_Get_def bm_spec)

lemma MutableBitmapView_Overwrite_mk [bm_spec]:
  assumes "off + m \<le> c" "s + c \<le> n"
  shows "MutableBitmapView_Overwrite (mkView n v s c) (mkBitmap m w) off =
    Some (mkView n (take_bit (s + off) v OR push_bit (s + off) (take_bit m w)
                    OR push_bit (s + off + m) (drop_bit (s + off + m) v)) s c)"
  using assms by (simp add: MutableBitmapView_Overwrite_def Overwrite_mk)

lemma MutableBitmapView_read_back:
  assumes "off + m \<le> c" "s + c \<le> n"
  obtains v' where "MutableBitmapView_Overwrite (mkView n v s c) (mkBitmap m w) off = Some (mkView n v' s c)"
    "\<And>i. i < c \<Longrightarrow> BitmapView_Get (mkView n v' s c) i =
       Some (if off \<le> i \<and> i < off + m then bit w (i - off) else bit v (s + i))"
proof -
  let ?v = "take_bit (s + off) v OR push_bit (s + off) (take_bit m w) OR push_bit (s + off + m) (drop_bit (s + off + m) v)"
  have "BitmapView_Get (mkView n ?v s c) i = Some (if off \<le> i \<and> i < off + m then bit w (i - off) else bit v (s + i))"
    if "i < c" for i
    using that assms by (auto simp: BitmapView_Get_mk bit_simps)
  then show thesis using that[of ?v] MutableBitmapView_Overwrite_mk[OF assms] by blast
qed

end
