(* ===== verification/Xls_Type.thy ===== *)
theory Xls_Type
  imports Big_Int
begin

text \<open>
  \<^verbatim>\<open>xls/ir/type.h\<close> and \<^verbatim>\<open>type.cc\<close>: the types of the IR with the metadata every type object computes once,
  when it is built: its bit count, its leaf types in order, the tree index of every leaf and, for a
  tuple, the offset of the first leaf of every member. Bit counts and array sizes are \<open>nat\<close>; the
  entries of a tree index are integers, checked as the code checks them. A pointer to a type is the
  type itself; the theory of the type manager shows that this is what pointers to owned types are.
\<close>

section \<open>Types and their metadata\<close>

datatype Type = BitsType nat | TupleType "Type list" | ArrayType nat Type | TokenType

fun GetFlatBitCount :: "Type \<Rightarrow> nat" where
  "GetFlatBitCount (BitsType n) = n"
| "GetFlatBitCount TokenType = 0"
| "GetFlatBitCount (TupleType members) = sum_list (map GetFlatBitCount members)"
| "GetFlatBitCount (ArrayType array_size element_type) = array_size * GetFlatBitCount element_type"

fun leaf_types :: "Type \<Rightarrow> Type list" where
  "leaf_types (BitsType n) = [BitsType n]"
| "leaf_types TokenType = [TokenType]"
| "leaf_types (TupleType members) = concat (map leaf_types members)"
| "leaf_types (ArrayType array_size element_type) = concat (replicate array_size (leaf_types element_type))"

abbreviation leaf_count :: "Type \<Rightarrow> nat" where
  "leaf_count t \<equiv> length (leaf_types t)"

text \<open>One step of the loops of both constructors: the tree indices of a member, below its position.\<close>

definition member_indices :: "nat \<Rightarrow> int list list \<Rightarrow> int list list" where
  "member_indices i tree_indices = map ((#) (int i)) tree_indices"

fun tree_index_vectors :: "Type \<Rightarrow> int list list" where
  "tree_index_vectors (BitsType n) = [[]]"
| "tree_index_vectors TokenType = [[]]"
| "tree_index_vectors (TupleType members) =
     concat (map2 member_indices [0..<length members] (map tree_index_vectors members))"
| "tree_index_vectors (ArrayType array_size element_type) =
     concat (map (\<lambda>i. member_indices i (tree_index_vectors element_type)) [0..<array_size])"

fun member_leaf_offsets :: "Type list \<Rightarrow> nat list" where
  "member_leaf_offsets members = map (\<lambda>i. sum_list (map (\<lambda>t. leaf_count t) (take i members))) [0..<length members]"

definition leaf_type :: "Type \<Rightarrow> nat \<Rightarrow> Type option" where
  "leaf_type t leaf_index = nth_opt (leaf_types t) leaf_index"

definition tree_index :: "Type \<Rightarrow> nat \<Rightarrow> int list option" where
  "tree_index t leaf_index = nth_opt (tree_index_vectors t) leaf_index"

section \<open>Indexing\<close>

definition GetSubtypeAndOffset_step :: "int \<Rightarrow> Type \<times> nat \<Rightarrow> (Type \<times> nat) option" where
  "GetSubtypeAndOffset_step idx = (\<lambda>(cur, offset).
     case cur of
       ArrayType array_size elem_type \<Rightarrow> do {
         CHECK (0 \<le> idx);
         CHECK (idx < int array_size);
         Some (elem_type, offset + nat idx * leaf_count elem_type) }
     | TupleType members \<Rightarrow> do {
         CHECK (0 \<le> idx);
         CHECK (idx < int (length members));
         off \<leftarrow> nth_opt (member_leaf_offsets members) (nat idx);
         t \<leftarrow> nth_opt members (nat idx);
         Some (t, offset + off) }
     | _ \<Rightarrow> None)"

definition GetSubtypeAndOffset :: "Type \<Rightarrow> int list \<Rightarrow> (Type \<times> nat) option" where
  "GetSubtypeAndOffset t index = foldM GetSubtypeAndOffset_step index (t, 0)"

definition GetSubtype :: "Type \<Rightarrow> int list \<Rightarrow> Type option" where
  "GetSubtype t index = map_option fst (GetSubtypeAndOffset t index)"

definition GetLinearOffset :: "Type \<Rightarrow> int list \<Rightarrow> nat option" where
  "GetLinearOffset t index = map_option snd (GetSubtypeAndOffset t index)"

definition IsLeafType :: "Type \<Rightarrow> bool" where
  "IsLeafType t = (case t of BitsType _ \<Rightarrow> True | TokenType \<Rightarrow> True | _ \<Rightarrow> False)"

section \<open>Queries\<close>

fun IsEqualTo :: "Type \<Rightarrow> Type \<Rightarrow> bool" and IsEqualTo_members :: "Type list \<Rightarrow> Type list \<Rightarrow> bool" where
  "IsEqualTo (BitsType n) other = (case other of BitsType m \<Rightarrow> n = m | _ \<Rightarrow> False)"
| "IsEqualTo TokenType other = (other = TokenType)"
| "IsEqualTo (TupleType ts) other =
     (case other of TupleType us \<Rightarrow> length ts = length us \<and> IsEqualTo_members ts us | _ \<Rightarrow> False)"
| "IsEqualTo (ArrayType n t) other = (case other of ArrayType m u \<Rightarrow> n = m \<and> IsEqualTo t u | _ \<Rightarrow> False)"
| "IsEqualTo_members (t # ts) (u # us) = (IsEqualTo t u \<and> IsEqualTo_members ts us)"
| "IsEqualTo_members _ _ = True"

fun Type_ToString :: "Type \<Rightarrow> string" where
  "Type_ToString (BitsType n) = ''bits['' @ dec_string (int n) @ '']''"
| "Type_ToString TokenType = ''token''"
| "Type_ToString (TupleType members) = ''('' @ str_join '', '' (map Type_ToString members) @ '')''"
| "Type_ToString (ArrayType n t) = Type_ToString t @ ''['' @ dec_string (int n) @ '']''"

fun GetIndexedElementType :: "Type \<Rightarrow> nat \<Rightarrow> Type status_or" where
  "GetIndexedElementType t 0 = Inr t"
| "GetIndexedElementType (ArrayType n t) (Suc k) = GetIndexedElementType t k"
| "GetIndexedElementType _ (Suc k) = Inl InvalidArgument"

fun GetArrayDimensionCount :: "Type \<Rightarrow> nat" where
  "GetArrayDimensionCount (ArrayType n t) = GetArrayDimensionCount t + 1"
| "GetArrayDimensionCount _ = 0"

fun TypeHasToken :: "Type \<Rightarrow> bool" where
  "TypeHasToken TokenType = True"
| "TypeHasToken (ArrayType n t) = TypeHasToken t"
| "TypeHasToken (TupleType members) = list_ex TypeHasToken members"
| "TypeHasToken (BitsType n) = False"

section \<open>Function types and messages\<close>

record FunctionType =
  parameters :: "Type list"
  return_type :: Type

definition FunctionType_IsEqualTo :: "FunctionType \<Rightarrow> FunctionType \<Rightarrow> bool" where
  "FunctionType_IsEqualTo f g = (IsEqualTo (return_type f) (return_type g) \<and>
     length (parameters f) = length (parameters g) \<and> IsEqualTo_members (parameters f) (parameters g))"

definition FunctionType_ToString :: "FunctionType \<Rightarrow> string" where
  "FunctionType_ToString f = ''('' @ str_join '', '' (map Type_ToString (parameters f)) @ '') -> '' @ Type_ToString (return_type f)"

datatype TypeEnum = INVALID | BITS | TUPLE | ARRAY | TOKEN

text \<open>The message, with \<open>None\<close> for a field that is not set.\<close>

datatype TypeProto = TypeProto (type_enum: "TypeEnum option") (bit_count: "int option")
  (tuple_elements: "TypeProto list") (array_size: "int option") (array_element: "TypeProto option")

fun Type_ToProto :: "Type \<Rightarrow> TypeProto" where
  "Type_ToProto (BitsType n) = TypeProto (Some BITS) (Some (int n)) [] None None"
| "Type_ToProto TokenType = TypeProto (Some TOKEN) None [] None None"
| "Type_ToProto (TupleType members) = TypeProto (Some TUPLE) None (map Type_ToProto members) None None"
| "Type_ToProto (ArrayType n t) = TypeProto (Some ARRAY) None [] (Some (int n)) (Some (Type_ToProto t))"

record FunctionTypeProto =
  ftp_parameters :: "TypeProto list"
  ftp_return_type :: "TypeProto option"

definition FunctionType_ToProto :: "FunctionType \<Rightarrow> FunctionTypeProto" where
  "FunctionType_ToProto f = \<lparr>ftp_parameters = map Type_ToProto (parameters f),
     ftp_return_type = Some (Type_ToProto (return_type f))\<rparr>"

section \<open>Leaves and their indices\<close>

lemma length_tree_index_vectors: "length (tree_index_vectors t) = leaf_count t"
proof (induction t)
  case (TupleType members)
  have "length (concat (map2 member_indices [k..<k + length ms] (map tree_index_vectors ms))) = length (concat (map leaf_types ms))"
    if "set ms \<subseteq> set members" for k ms
    using that
  proof (induction ms arbitrary: k)
    case (Cons m ms)
    then show ?case using TupleType[of m] Cons.IH[of "Suc k"] by (simp add: upt_conv_Cons member_indices_def del: upt_Suc)
  qed simp
  from this[of members 0] show ?case by simp
next
  case (ArrayType n t)
  then show ?case by (simp add: length_concat comp_def member_indices_def sum_list_triv sum_list_replicate)
qed auto

lemma IsEqualTo_iff: "IsEqualTo t u \<longleftrightarrow> t = u" "length ts = length us \<Longrightarrow> IsEqualTo_members ts us \<longleftrightarrow> ts = us"
  by (induction t u and ts us rule: IsEqualTo_IsEqualTo_members.induct) (auto split: Type.splits)

text \<open>The leaves below an index are the leaves of its subtype, from its offset on.\<close>

lemma member_slice:
  assumes "i < length ms"
  shows "take (leaf_count (ms ! i)) (drop (sum_list (map (\<lambda>t. leaf_count t) (take i ms))) (concat (map leaf_types ms))) = leaf_types (ms ! i)"
    "sum_list (map (\<lambda>t. leaf_count t) (take i ms)) + leaf_count (ms ! i) \<le> length (concat (map leaf_types ms))"
proof -
  have "concat (map leaf_types ms) = concat (map leaf_types (take i ms)) @ leaf_types (ms ! i) @ concat (map leaf_types (drop (Suc i) ms))"
    using id_take_nth_drop[OF assms] by (metis concat.simps(2) concat_append list.simps(9) map_append)
  moreover have "length (concat (map leaf_types (take i ms))) = sum_list (map (\<lambda>t. leaf_count t) (take i ms))"
    by (simp add: length_concat comp_def)
  ultimately show "take (leaf_count (ms ! i)) (drop (sum_list (map (\<lambda>t. leaf_count t) (take i ms))) (concat (map leaf_types ms))) = leaf_types (ms ! i)"
    "sum_list (map (\<lambda>t. leaf_count t) (take i ms)) + leaf_count (ms ! i) \<le> length (concat (map leaf_types ms))" by simp_all
qed

text \<open>An array is indexed like the tuple of its elements.\<close>

lemma array_as_tuple:
  "leaf_types (ArrayType n t) = leaf_types (TupleType (replicate n t))"
  "tree_index_vectors (ArrayType n t) = tree_index_vectors (TupleType (replicate n t))"
  "GetSubtypeAndOffset_step i (ArrayType n t, k) = GetSubtypeAndOffset_step i (TupleType (replicate n t), k)"
proof -
  show "leaf_types (ArrayType n t) = leaf_types (TupleType (replicate n t))" by simp
  have "map2 member_indices [k..<k + n] (replicate n v) = map (\<lambda>i. member_indices i v) [k..<k + n]" for k v
    by (rule nth_equalityI) auto
  from this[of 0] show "tree_index_vectors (ArrayType n t) = tree_index_vectors (TupleType (replicate n t))" by simp
  show "GetSubtypeAndOffset_step i (ArrayType n t, k) = GetSubtypeAndOffset_step i (TupleType (replicate n t), k)"
    by (auto simp: GetSubtypeAndOffset_step_def sum_list_replicate nat_less_iff)
qed

lemma tuple_step:
  "i < length ms \<Longrightarrow> GetSubtypeAndOffset_step (int i) (TupleType ms, k) = Some (ms ! i, k + sum_list (map (\<lambda>t. leaf_count t) (take i ms)))"
  by (simp add: GetSubtypeAndOffset_step_def)

lemma tuple_step_Some:
  assumes "GetSubtypeAndOffset_step i (TupleType ms, k) = Some (u, m)"
  shows "0 \<le> i \<and> nat i < length ms \<and> u = ms ! nat i \<and> m = k + sum_list (map (\<lambda>t. leaf_count t) (take (nat i) ms))"
  using assms by (auto simp: GetSubtypeAndOffset_step_def nat_less_iff split: if_splits)

lemma step_cases:
  assumes "GetSubtypeAndOffset_step i (t, k) = Some (u, m)"
  obtains ms where "leaf_types t = leaf_types (TupleType ms)" "tree_index_vectors t = tree_index_vectors (TupleType ms)"
    "0 \<le> i" "nat i < length ms" "u = ms ! nat i" "m = k + sum_list (map (\<lambda>t. leaf_count t) (take (nat i) ms))"
proof (cases t)
  case (TupleType ms)
  then show thesis using that[of ms] tuple_step_Some assms by blast
next
  case (ArrayType n e)
  then show thesis using that[of "replicate n e"] tuple_step_Some assms array_as_tuple by metis
qed (use assms in \<open>auto simp: GetSubtypeAndOffset_step_def\<close>)

text \<open>The leaves below an index are the leaves of its subtype, from its offset on.\<close>

lemma foldM_slice:
  "foldM GetSubtypeAndOffset_step index (t, k) = Some (u, m) \<Longrightarrow>
   k \<le> m \<and> take (leaf_count u) (drop (m - k) (leaf_types t)) = leaf_types u \<and> m - k + leaf_count u \<le> leaf_count t"
proof (induction index arbitrary: t k)
  case (Cons i index)
  obtain t1 k1 where 1: "GetSubtypeAndOffset_step i (t, k) = Some (t1, k1)" "foldM GetSubtypeAndOffset_step index (t1, k1) = Some (u, m)"
    using Cons.prems by (auto simp: bind_eq_Some_conv)
  from 1(1) obtain ms where ms: "leaf_types t = leaf_types (TupleType ms)" "nat i < length ms" "t1 = ms ! nat i"
      "k1 = k + sum_list (map (\<lambda>t. leaf_count t) (take (nat i) ms))" by (rule step_cases)
  let ?d = "sum_list (map (\<lambda>t. leaf_count t) (take (nat i) ms))"
  note ih = Cons.IH[OF 1(2)]
  note sl = member_slice[OF ms(2), folded ms(3)]
  have d: "m - k = (m - k1) + ?d" using ih ms(4) by linarith
  have "take (leaf_count u) (drop (m - k1) (take (leaf_count t1) (drop ?d (leaf_types t)))) = leaf_types u"
    using ih sl(1) ms(1) by simp
  moreover have "min (leaf_count u) (leaf_count t1 - (m - k1)) = leaf_count u" using ih by linarith
  ultimately have "take (leaf_count u) (drop (m - k) (leaf_types t)) = leaf_types u"
    unfolding d drop_take take_take drop_drop by simp
  moreover have "m - k + leaf_count u \<le> leaf_count t"
    using ih sl(2) ms(4) arg_cong[OF ms(1)[unfolded leaf_types.simps(3)], of length] by linarith
  ultimately show ?case using ih ms(4) by linarith
qed simp

text \<open>Every leaf is found by its own index.\<close>

lemma concat_members:
  assumes "\<And>m. m \<in> set ms \<Longrightarrow> length (f m) = leaf_count m"
  shows "n \<le> length ms \<Longrightarrow> concat (map (\<lambda>i. zip (f (ms ! i)) [k + sum_list (map (\<lambda>t. leaf_count t) (take i ms))..<
      k + sum_list (map (\<lambda>t. leaf_count t) (take i ms)) + leaf_count (ms ! i)]) [0..<n]) =
    zip (concat (map f (take n ms))) [k..<k + sum_list (map (\<lambda>t. leaf_count t) (take n ms))]"
proof (induction n)
  case (Suc n)
  let ?s = "sum_list (map (\<lambda>t. leaf_count t) (take n ms))"
  have n: "take (Suc n) ms = take n ms @ [ms ! n]" using Suc.prems by (simp add: take_Suc_conv_app_nth)
  have len: "length (concat (map f (take n ms))) = ?s"
    using assms by (simp add: length_concat comp_def) (metis (mono_tags, lifting) in_set_takeD map_eq_conv)
  have "[k..<k + (?s + leaf_count (ms ! n))] = [k..<k + ?s] @ [k + ?s..<k + ?s + leaf_count (ms ! n)]"
    using upt_add_eq_append[of k "k + ?s" "leaf_count (ms ! n)"] by (simp add: add.assoc)
  then show ?case using Suc len by (simp add: n zip_append)
qed simp

lemma tuple_index_offsets:
  assumes ih: "\<And>m k. m \<in> set ms \<Longrightarrow>
    map (\<lambda>index. foldM GetSubtypeAndOffset_step index (m, k)) (tree_index_vectors m) = map Some (zip (leaf_types m) [k..<k + leaf_count m])"
  shows "map (\<lambda>index. foldM GetSubtypeAndOffset_step index (TupleType ms, k)) (tree_index_vectors (TupleType ms)) =
    map Some (zip (leaf_types (TupleType ms)) [k..<k + leaf_count (TupleType ms)])"
proof -
  let ?g = "\<lambda>index. foldM GetSubtypeAndOffset_step index (TupleType ms, k)"
  let ?o = "\<lambda>i. k + sum_list (map (\<lambda>t. leaf_count t) (take i ms))"
  have "map2 member_indices [0..<length ms] (map tree_index_vectors ms) = map (\<lambda>i. member_indices i (tree_index_vectors (ms ! i))) [0..<length ms]"
    by (rule nth_equalityI) auto
  then have "map ?g (tree_index_vectors (TupleType ms)) = concat (map (\<lambda>i. map ?g (member_indices i (tree_index_vectors (ms ! i)))) [0..<length ms])"
    by (simp add: map_concat comp_def)
  also have "\<dots> = concat (map (\<lambda>i. map Some (zip (leaf_types (ms ! i)) [?o i..<?o i + leaf_count (ms ! i)])) [0..<length ms])"
  proof (intro arg_cong[of _ _ concat] map_cong refl)
    fix i assume "i \<in> set [0..<length ms]"
    then have i: "i < length ms" by simp
    then show "map ?g (member_indices i (tree_index_vectors (ms ! i))) = map Some (zip (leaf_types (ms ! i)) [?o i..<?o i + leaf_count (ms ! i)])"
      using ih[of "ms ! i" "?o i"] by (simp add: member_indices_def comp_def tuple_step)
  qed
  also have "\<dots> = map Some (concat (map (\<lambda>i. zip (leaf_types (ms ! i)) [?o i..<?o i + leaf_count (ms ! i)]) [0..<length ms]))"
    by (simp add: map_concat comp_def)
  also have "\<dots> = map Some (zip (leaf_types (TupleType ms)) [k..<k + leaf_count (TupleType ms)])"
    using concat_members[of ms leaf_types "length ms" k] by (simp add: length_concat comp_def)
  finally show ?thesis .
qed

lemma tree_index_offsets:
  "map (\<lambda>index. foldM GetSubtypeAndOffset_step index (t, k)) (tree_index_vectors t) = map Some (zip (leaf_types t) [k..<k + leaf_count t])"
proof (induction t arbitrary: k)
  case (TupleType ms)
  then show ?case by (rule tuple_index_offsets)
next
  case (ArrayType n t)
  have "foldM GetSubtypeAndOffset_step index (ArrayType n t, k) = foldM GetSubtypeAndOffset_step index (TupleType (replicate n t), k)"
    if "index \<noteq> []" for index using that array_as_tuple(3) by (cases index) auto
  moreover have "[] \<notin> set (tree_index_vectors (TupleType (replicate n t)))" by (auto simp: member_indices_def set_zip)
  ultimately have "map (\<lambda>index. foldM GetSubtypeAndOffset_step index (ArrayType n t, k)) (tree_index_vectors (TupleType (replicate n t))) =
      map (\<lambda>index. foldM GetSubtypeAndOffset_step index (TupleType (replicate n t), k)) (tree_index_vectors (TupleType (replicate n t)))"
    by (intro map_cong refl) metis
  moreover have "map (\<lambda>index. foldM GetSubtypeAndOffset_step index (TupleType (replicate n t), k)) (tree_index_vectors (TupleType (replicate n t))) =
      map Some (zip (leaf_types (TupleType (replicate n t))) [k..<k + leaf_count (TupleType (replicate n t))])"
    by (rule tuple_index_offsets) (use ArrayType in simp)
  ultimately show ?case unfolding array_as_tuple(1,2) by (simp only:)
qed auto

lemma leaf_at_index:
  assumes "k < leaf_count t"
  shows "GetSubtypeAndOffset t (tree_index_vectors t ! k) = Some (leaf_types t ! k, k)"
proof -
  have "map (GetSubtypeAndOffset t) (tree_index_vectors t) ! k = map Some (zip (leaf_types t) [0..<leaf_count t]) ! k"
    using tree_index_offsets[of t 0] unfolding GetSubtypeAndOffset_def by simp
  then show ?thesis using assms by (simp add: length_tree_index_vectors)
qed

lemma leaf_index_mem:
  "foldM GetSubtypeAndOffset_step index (t, k) = Some (u, m) \<Longrightarrow> IsLeafType u \<Longrightarrow> index \<in> set (tree_index_vectors t)"
proof (induction index arbitrary: t k)
  case Nil
  then show ?case by (auto simp: IsLeafType_def split: Type.splits)
next
  case (Cons i index)
  obtain t1 k1 where 1: "GetSubtypeAndOffset_step i (t, k) = Some (t1, k1)" "foldM GetSubtypeAndOffset_step index (t1, k1) = Some (u, m)"
    using Cons.prems(1) by (auto simp: bind_eq_Some_conv)
  from 1(1) obtain ms where ms: "tree_index_vectors t = tree_index_vectors (TupleType ms)" "0 \<le> i" "nat i < length ms" "t1 = ms ! nat i"
    by (rule step_cases)
  have "index \<in> set (tree_index_vectors (ms ! nat i))" using Cons.IH[OF 1(2) Cons.prems(2)] ms(4) by simp
  then have "i # index \<in> set (member_indices (nat i) (tree_index_vectors (ms ! nat i)))" using ms(2) by (simp add: member_indices_def)
  moreover have "member_indices (nat i) (tree_index_vectors (ms ! nat i)) \<in> set (map2 member_indices [0..<length ms] (map tree_index_vectors ms))"
    using ms(3) by (force simp: set_zip)
  ultimately show ?case unfolding ms(1) tree_index_vectors.simps set_concat by (rule UN_I[rotated])
qed

lemma index_of_leaf:
  assumes "GetSubtypeAndOffset t index = Some (u, k)" "IsLeafType u"
  shows "k < leaf_count t \<and> tree_index_vectors t ! k = index \<and> leaf_types t ! k = u"
proof -
  have "index \<in> set (tree_index_vectors t)" using leaf_index_mem assms unfolding GetSubtypeAndOffset_def by blast
  then obtain j where j: "j < leaf_count t" "tree_index_vectors t ! j = index"
    by (auto simp: in_set_conv_nth length_tree_index_vectors)
  then show ?thesis using leaf_at_index[OF j(1)] assms(1) by simp
qed

lemma subtype_slice:
  assumes "GetSubtypeAndOffset t index = Some (u, k)"
  shows "take (leaf_count u) (drop k (leaf_types t)) = leaf_types u" "k + leaf_count u \<le> leaf_count t"
  using foldM_slice[of index t 0 u k] assms by (simp_all add: GetSubtypeAndOffset_def)

end
