(* ===== verification/Xls_Value.thy ===== *)
theory Xls_Value
  imports Bitmap_View Bits_Ops Xls_Type
begin

text \<open>
  \<^verbatim>\<open>xls/ir/value.h\<close> and \<^verbatim>\<open>value.cc\<close>: the values of the IR. The class keeps a kind and a payload that its
  constructors keep in step, so a value is one datatype with a constructor per kind; a token carries
  an empty vector of elements, as in the code, and an invalid value nothing. Reading the elements of
  a value that holds none throws, which is \<open>None\<close> here, as is the \<^verbatim>\<open>LOG(FATAL)\<close> on an invalid value.
  Where a method returns a status, errors are \<open>Inl\<close>; the content of a value whose \<open>PopulateFrom\<close>
  failed is not modelled.
\<close>

section \<open>Values\<close>

datatype ValueKind = kInvalid | kBits | kTuple | kArray | kToken

datatype Value = InvalidValue | BitsValue bits | TupleValue "Value list" | ArrayValue "Value list" | TokenValue

fun kind :: "Value \<Rightarrow> ValueKind" where
  "kind InvalidValue = kInvalid"
| "kind (BitsValue b) = kBits"
| "kind (TupleValue elements) = kTuple"
| "kind (ArrayValue elements) = kArray"
| "kind TokenValue = kToken"

fun ValueKindToString :: "ValueKind \<Rightarrow> string" where
  "ValueKindToString kInvalid = ''invalid''"
| "ValueKindToString kBits = ''bits''"
| "ValueKindToString kTuple = ''tuple''"
| "ValueKindToString kArray = ''array''"
| "ValueKindToString kToken = ''token''"

fun elements :: "Value \<Rightarrow> Value list option" where
  "elements (TupleValue es) = Some es"
| "elements (ArrayValue es) = Some es"
| "elements TokenValue = Some []"
| "elements _ = None"

definition element :: "Value \<Rightarrow> nat \<Rightarrow> Value option" where
  "element v i = do { es \<leftarrow> elements v; nth_opt es i }"

definition Value_size :: "Value \<Rightarrow> nat option" where
  "Value_size v = map_option length (elements v)"

definition Value_bits :: "Value \<Rightarrow> bits option" where
  "Value_bits v = (case v of BitsValue b \<Rightarrow> Some b | _ \<Rightarrow> None)"

definition GetElements :: "Value \<Rightarrow> Value list status_or" where
  "GetElements v = (case elements v of None \<Rightarrow> Inl InvalidArgument | Some es \<Rightarrow> Inr es)"

definition GetBitsWithStatus :: "Value \<Rightarrow> bits status_or" where
  "GetBitsWithStatus v = (case v of BitsValue b \<Rightarrow> Inr b | _ \<Rightarrow> Inl InvalidArgument)"

section \<open>Comparison of types and values\<close>

fun SameTypeAs :: "Value \<Rightarrow> Value \<Rightarrow> bool option"
  and SameTypeAs_elements :: "Value list \<Rightarrow> Value list \<Rightarrow> bool option" where
  "SameTypeAs (BitsValue a) other =
     (case other of BitsValue b \<Rightarrow> Some (ib_bit_count a = ib_bit_count b) | _ \<Rightarrow> Some False)"
| "SameTypeAs (TupleValue es) other =
     (case other of
        TupleValue fs \<Rightarrow> if length es \<noteq> length fs then Some False else SameTypeAs_elements es fs
      | _ \<Rightarrow> Some False)"
| "SameTypeAs (ArrayValue []) other =
     (case other of ArrayValue fs \<Rightarrow> if fs = [] then None else Some False | _ \<Rightarrow> Some False)"
| "SameTypeAs (ArrayValue (e # es)) other =
     (case other of
        ArrayValue fs \<Rightarrow> if length (e # es) = length fs then SameTypeAs e (hd fs) else Some False
      | _ \<Rightarrow> Some False)"
| "SameTypeAs TokenValue other = Some (kind other = kToken)"
| "SameTypeAs InvalidValue other = (if kind other = kInvalid then None else Some False)"
| "SameTypeAs_elements (e # es) (f # fs) = do {
     same \<leftarrow> SameTypeAs e f;
     if \<not> same then Some False else SameTypeAs_elements es fs }"
| "SameTypeAs_elements _ _ = Some True"

fun Value_eq :: "Value \<Rightarrow> Value \<Rightarrow> bool option"
  and Value_eq_elements :: "Value list \<Rightarrow> Value list \<Rightarrow> bool option" where
  "Value_eq (BitsValue a) other = (case other of BitsValue b \<Rightarrow> Bits_eq a b | _ \<Rightarrow> Some False)"
| "Value_eq (TupleValue es) other =
     (case other of
        TupleValue fs \<Rightarrow> if length es \<noteq> length fs then Some False else Value_eq_elements es fs
      | _ \<Rightarrow> Some False)"
| "Value_eq (ArrayValue es) other =
     (case other of
        ArrayValue fs \<Rightarrow> if length es \<noteq> length fs then Some False else Value_eq_elements es fs
      | _ \<Rightarrow> Some False)"
| "Value_eq TokenValue other = Some (kind other = kToken)"
| "Value_eq InvalidValue other = (if kind other = kInvalid then None else Some False)"
| "Value_eq_elements (e # es) (f # fs) = do {
     same \<leftarrow> Value_eq e f;
     if \<not> same then Some False else Value_eq_elements es fs }"
| "Value_eq_elements _ _ = Some True"

section \<open>Construction of arrays\<close>

definition Value_Array :: "Value list \<Rightarrow> Value status_or option" where
  "Value_Array es =
     (case es of
        [] \<Rightarrow> Some (Inl Unimplemented)
      | e # rest \<Rightarrow>
          ASSIGN_OR_RETURN (mapS (\<lambda>x. do { same \<leftarrow> SameTypeAs e x; RET_CHECK same }) rest)
            (\<lambda>_. Some (Inr (ArrayValue es))))"

definition ArrayOrDie :: "Value list \<Rightarrow> Value option" where
  "ArrayOrDie es = Option.bind (Value_Array es) StatusOr_value"

definition ArrayOwned :: "Value list \<Rightarrow> Value option" where
  "ArrayOwned es =
     (case es of
        [] \<Rightarrow> Some (ArrayValue [])
      | e # rest \<Rightarrow> do {
          mapM (\<lambda>x. do { same \<leftarrow> SameTypeAs e x; CHECK same }) rest;
          Some (ArrayValue es) })"

definition Value_Bool :: "bool \<Rightarrow> Value option" where
  "Value_Bool enabled = map_option BitsValue (UBits (of_bool enabled) 1)"

text \<open>The four shortcuts differ in how an element is converted.\<close>

definition UBitsArray :: "64 word list \<Rightarrow> nat \<Rightarrow> Value status_or option" where
  "UBitsArray xs count =
     (if xs = [] then Some (Inl Unimplemented)
      else ASSIGN_OR_RETURN (mapS (\<lambda>x. Some (map_sum id BitsValue (UBitsWithStatus x count))) xs) Value_Array)"

definition SBitsArray :: "64 word list \<Rightarrow> nat \<Rightarrow> Value status_or option" where
  "SBitsArray xs count =
     (if xs = [] then Some (Inl Unimplemented)
      else ASSIGN_OR_RETURN (mapS (\<lambda>x. Some (map_sum id BitsValue (SBitsWithStatus x count))) xs) Value_Array)"

text \<open>One row: the first row fixes the size, every later row must have it.\<close>

definition row_step ::
    "(64 word list \<Rightarrow> Value status_or option) \<Rightarrow> 64 word list \<Rightarrow> int \<times> Value list \<Rightarrow> (int \<times> Value list) status_or option" where
  "row_step make_row x = (\<lambda>(element_size, values).
     ASSIGN_OR_RETURN (make_row x) (\<lambda>x_as_value. do {
       n \<leftarrow> Value_size x_as_value;
       if element_size = -1 then Some (Inr (int n, values @ [x_as_value]))
       else if element_size \<noteq> int n then Some (Inl Internal)
       else Some (Inr (element_size, values @ [x_as_value])) }))"

definition UBits2DArray :: "64 word list list \<Rightarrow> nat \<Rightarrow> Value status_or option" where
  "UBits2DArray xs count =
     (if xs = [] then Some (Inl Unimplemented)
      else ASSIGN_OR_RETURN (foldS (row_step (\<lambda>x. UBitsArray x count)) xs (-1, []))
        (\<lambda>(_, values). Value_Array values))"

definition SBits2DArray :: "64 word list list \<Rightarrow> nat \<Rightarrow> Value status_or option" where
  "SBits2DArray xs count =
     (if xs = [] then Some (Inl Unimplemented)
      else ASSIGN_OR_RETURN (foldS (row_step (\<lambda>x. SBitsArray x count)) xs (-1, []))
        (\<lambda>(_, values). Value_Array values))"

section \<open>Queries\<close>

fun Value_GetFlatBitCount :: "Value \<Rightarrow> nat option" where
  "Value_GetFlatBitCount (BitsValue b) = Some (ib_bit_count b)"
| "Value_GetFlatBitCount TokenValue = Some 0"
| "Value_GetFlatBitCount (TupleValue es) =
     foldM (\<lambda>e total_size. do { n \<leftarrow> Value_GetFlatBitCount e; Some (total_size + n) }) es 0"
| "Value_GetFlatBitCount (ArrayValue []) = Some 0"
| "Value_GetFlatBitCount (ArrayValue (e # es)) = do {
     n \<leftarrow> Value_GetFlatBitCount e;
     Some (length (e # es) * n) }"
| "Value_GetFlatBitCount InvalidValue = None"

fun IsAllZeros :: "Value \<Rightarrow> bool option" where
  "IsAllZeros (BitsValue b) = IsZero b"
| "IsAllZeros (TupleValue es) = allM IsAllZeros es"
| "IsAllZeros (ArrayValue es) = allM IsAllZeros es"
| "IsAllZeros _ = None"

fun Value_IsAllOnes :: "Value \<Rightarrow> bool option" where
  "Value_IsAllOnes (BitsValue b) = Bits_IsAllOnes b"
| "Value_IsAllOnes (TupleValue es) = allM Value_IsAllOnes es"
| "Value_IsAllOnes (ArrayValue es) = allM Value_IsAllOnes es"
| "Value_IsAllOnes _ = None"

section \<open>Printing\<close>

fun Value_ToString :: "'bn bn_lib \<Rightarrow> format_preference \<Rightarrow> Value \<Rightarrow> string option" where
  "Value_ToString bn preference InvalidValue = Some ''<invalid value>''"
| "Value_ToString bn preference (BitsValue b) = do {
     s \<leftarrow> BitsToString bn b preference False;
     Some (''bits['' @ nat_dec (ib_bit_count b) @ '']:'' @ s) }"
| "Value_ToString bn preference (TupleValue es) = do {
     ss \<leftarrow> mapM (Value_ToString bn preference) es;
     Some (''('' @ str_join '', '' ss @ '')'') }"
| "Value_ToString bn preference (ArrayValue es) = do {
     ss \<leftarrow> mapM (Value_ToString bn preference) es;
     Some (''['' @ str_join '', '' ss @ '']'') }"
| "Value_ToString bn preference TokenValue = Some ''token''"

fun ToHumanString :: "'bn bn_lib \<Rightarrow> format_preference \<Rightarrow> Value \<Rightarrow> string option" where
  "ToHumanString bn preference InvalidValue = Some ''<invalid value>''"
| "ToHumanString bn preference (BitsValue b) = BitsToString bn b preference False"
| "ToHumanString bn preference (ArrayValue es) = do {
     ss \<leftarrow> mapM (ToHumanString bn preference) es;
     Some (''['' @ str_join '', '' ss @ '']'') }"
| "ToHumanString bn preference (TupleValue es) = do {
     ss \<leftarrow> mapM (ToHumanString bn preference) es;
     Some (''('' @ str_join '', '' ss @ '')'') }"
| "ToHumanString bn preference TokenValue = Some ''token''"

fun FuzzTestPrintSourceCode :: "Value \<Rightarrow> string option" where
  "FuzzTestPrintSourceCode (BitsValue b) = do {
     zero \<leftarrow> IsZero b;
     if zero then Some (''Value(Bits('' @ nat_dec (ib_bit_count b) @ ''))'')
     else do {
       ones \<leftarrow> Bits_IsAllOnes b;
       if ones then Some (''Value(Bits::AllOnes('' @ nat_dec (ib_bit_count b) @ ''))'')
       else if ib_bit_count b \<le> 64 then do {
         v \<leftarrow> ToUint64_value b;
         Some (''Value(UBits('' @ nat_dec (unat v) @ '', '' @ nat_dec (ib_bit_count b) @ ''))'') }
       else Some (''Value(Bits::FromBytes({'' @ str_join '', '' (map (\<lambda>w. nat_dec (unat w)) (ToBytes b)) @ ''}, '' @
              nat_dec (ib_bit_count b) @ ''))'') } }"
| "FuzzTestPrintSourceCode TokenValue = Some ''Value::Token()''"
| "FuzzTestPrintSourceCode (TupleValue es) = do {
     ss \<leftarrow> mapM FuzzTestPrintSourceCode es;
     Some (''Value::TupleOwned({'' @ str_join '', '' ss @ ''})'') }"
| "FuzzTestPrintSourceCode (ArrayValue es) = do {
     ss \<leftarrow> mapM FuzzTestPrintSourceCode es;
     Some (''Value::ArrayOwned({'' @ str_join '', '' ss @ ''})'') }"
| "FuzzTestPrintSourceCode InvalidValue = None"

section \<open>Serialisation\<close>

fun Value_FlattenTo :: "Value \<Rightarrow> bit_push_buffer \<Rightarrow> bit_push_buffer option" where
  "Value_FlattenTo (BitsValue b) buffer = FlattenTo b buffer"
| "Value_FlattenTo (TupleValue es) buffer = foldM Value_FlattenTo es buffer"
| "Value_FlattenTo (ArrayValue es) buffer = foldM Value_FlattenTo es buffer"
| "Value_FlattenTo TokenValue buffer = Some buffer"
| "Value_FlattenTo InvalidValue buffer = None"

text \<open>One element of \<^verbatim>\<open>PopulateFrom\<close>; the loop runs from the last element to the first, the state is the bit
  index and the elements done.\<close>

definition populate_step ::
    "(Value \<Rightarrow> bitmap_view \<Rightarrow> Value status_or option) \<Rightarrow> bitmap_view \<Rightarrow> Value \<Rightarrow> nat \<times> Value list \<Rightarrow> (nat \<times> Value list) status_or option" where
  "populate_step populate bitmap e = (\<lambda>(bit_index, done). do {
     element_bit_count \<leftarrow> Value_GetFlatBitCount e;
     slice \<leftarrow> BitmapView_Slice bitmap bit_index element_bit_count;
     ASSIGN_OR_RETURN (populate e slice) (\<lambda>e'. Some (Inr (bit_index + element_bit_count, e' # done))) })"

lemma populate_step_cong [fundef_cong]:
  "e = e' \<Longrightarrow> bm = bm' \<Longrightarrow> s = s' \<Longrightarrow> (\<And>v. f e' v = g e' v) \<Longrightarrow> populate_step f bm e s = populate_step g bm' e' s'"
  by (simp add: populate_step_def)

fun PopulateFrom :: "Value \<Rightarrow> bitmap_view \<Rightarrow> Value status_or option" where
  "PopulateFrom (BitsValue b) bitmap = do { b' \<leftarrow> FromBitmapView bitmap; Some (Inr (BitsValue b')) }"
| "PopulateFrom (TupleValue es) bitmap =
     ASSIGN_OR_RETURN (foldS (\<lambda>e s. populate_step PopulateFrom bitmap e s) (rev es) (0, []))
       (\<lambda>(bit_index, es'). ASSIGN_OR_RETURN (RET_CHECK (bit_index = view_bit_count bitmap))
          (\<lambda>_. Some (Inr (TupleValue es'))))"
| "PopulateFrom (ArrayValue es) bitmap =
     ASSIGN_OR_RETURN (foldS (\<lambda>e s. populate_step PopulateFrom bitmap e s) (rev es) (0, []))
       (\<lambda>(bit_index, es'). ASSIGN_OR_RETURN (RET_CHECK (bit_index = view_bit_count bitmap))
          (\<lambda>_. Some (Inr (ArrayValue es'))))"
| "PopulateFrom TokenValue bitmap = Some (Inr TokenValue)"
| "PopulateFrom InvalidValue bitmap = Some (Inl InvalidArgument)"

section \<open>Messages\<close>

datatype ValueProto = BitsProto int "8 word list" | TupleProto "ValueProto list" | TokenProto
  | ArrayProto "ValueProto list" | VARIANT_NOT_SET

fun AsProto :: "Value \<Rightarrow> ValueProto status_or option" where
  "AsProto (BitsValue b) = Some (Inr (BitsProto (int (ib_bit_count b)) (ToBytes b)))"
| "AsProto (TupleValue es) = ASSIGN_OR_RETURN (mapS AsProto es) (\<lambda>ps. Some (Inr (TupleProto ps)))"
| "AsProto (ArrayValue es) = ASSIGN_OR_RETURN (mapS AsProto es) (\<lambda>ps. Some (Inr (ArrayProto ps)))"
| "AsProto TokenValue = Some (Inr TokenProto)"
| "AsProto InvalidValue = Some (Inl Internal)"

text \<open>\<^verbatim>\<open>std::string::resize\<close> with a zero byte.\<close>

definition resize_bytes :: "8 word list \<Rightarrow> nat \<Rightarrow> 8 word list" where
  "resize_bytes data n = take n data @ replicate (n - length data) 0"

definition push_same_type :: "Value \<Rightarrow> Value list \<Rightarrow> Value list status_or option" where
  "push_same_type e values =
     (case values of
        [] \<Rightarrow> Some (Inr [e])
      | front # _ \<Rightarrow> do {
          same \<leftarrow> SameTypeAs front e;
          Some (if same then Inr (values @ [e]) else Inl InvalidArgument) })"

fun FromProto :: "int \<Rightarrow> ValueProto \<Rightarrow> Value status_or option" where
  "FromProto max_bit_size (BitsProto count data) =
     (if count \<le> 0 then Some (Inl InvalidArgument)
      else if count \<ge> max_bit_size then Some (Inl Internal)
      else do {
        let byte_size = nat (CeilOfRatio count 8);
        b \<leftarrow> FromBytes (if byte_size = length data then data else resize_bytes data byte_size) (nat count);
        Some (Inr (BitsValue b)) })"
| "FromProto max_bit_size (TupleProto ps) =
     ASSIGN_OR_RETURN (mapS (FromProto max_bit_size) ps) (\<lambda>values. Some (Inr (TupleValue values)))"
| "FromProto max_bit_size TokenProto = Some (Inr TokenValue)"
| "FromProto max_bit_size (ArrayProto ps) =
     (if ps = [] then Some (Inl InvalidArgument)
      else ASSIGN_OR_RETURN
        (foldS (\<lambda>p values. ASSIGN_OR_RETURN (FromProto max_bit_size p) (\<lambda>e. push_same_type e values)) ps [])
        (\<lambda>values. do { a \<leftarrow> ArrayOwned values; Some (Inr a) }))"
| "FromProto max_bit_size VARIANT_NOT_SET = Some (Inl InvalidArgument)"

fun TypeAsProto :: "Value \<Rightarrow> TypeProto status_or option" where
  "TypeAsProto (BitsValue b) = Some (Inr (TypeProto (Some BITS) (Some (int (ib_bit_count b))) [] None None))"
| "TypeAsProto (TupleValue es) =
     ASSIGN_OR_RETURN (mapS TypeAsProto es) (\<lambda>ps. Some (Inr (TypeProto (Some TUPLE) None ps None None)))"
| "TypeAsProto (ArrayValue []) = Some (Inl Internal)"
| "TypeAsProto (ArrayValue (e # es)) =
     ASSIGN_OR_RETURN (TypeAsProto e)
       (\<lambda>p. Some (Inr (TypeProto (Some ARRAY) None [] (Some (int (length (e # es)))) (Some p))))"
| "TypeAsProto TokenValue = Some (Inr (TypeProto (Some TOKEN) None [] None None))"
| "TypeAsProto InvalidValue = Some (Inl Internal)"

end
