(* ===== verification/Value_Utils.thy ===== *)
theory Value_Utils
  imports Xls_Value
begin

text \<open>
  \<^verbatim>\<open>xls/ir/value_utils\<close> and \<^verbatim>\<open>value_flattening\<close>: values of a given type, conformance of a value to a type,
  the conversion of floats, and the second flat encoding of values. That encoding puts element 0 of a
  tuple into the most significant bits, as \<^verbatim>\<open>Value::FlattenTo\<close> does, and element 0 of an array into the
  least significant ones, as \<^verbatim>\<open>FlattenTo\<close> does not. A float is its 32 bits, which is what the code's
  \<^verbatim>\<open>bit_cast\<close> reads. The conversions to and from leaf type trees are in the theory of those trees.
\<close>

section \<open>Values of a type\<close>

fun ValueOfType :: "(nat \<Rightarrow> bits option) \<Rightarrow> Type \<Rightarrow> Value option" where
  "ValueOfType fbits (BitsType n) = do { b \<leftarrow> fbits n; Some (BitsValue b) }"
| "ValueOfType fbits (TupleType members) = do {
     es \<leftarrow> mapM (ValueOfType fbits) members;
     Some (TupleValue es) }"
| "ValueOfType fbits (ArrayType n t) = do {
     es \<leftarrow> mapM (\<lambda>_. ValueOfType fbits t) [0..<n];
     r \<leftarrow> Value_Array es;
     StatusOr_value r }"
| "ValueOfType fbits TokenType = Some TokenValue"

definition ZeroOfType :: "Type \<Rightarrow> Value option" where
  "ZeroOfType t = ValueOfType (\<lambda>bit_count. UBits 0 bit_count) t"

definition AllOnesOfType :: "Type \<Rightarrow> Value option" where
  "AllOnesOfType t = ValueOfType (\<lambda>bit_count. if bit_count = 0 then Some (Bits 0) else SBits (- 1) bit_count) t"

fun ValueConformsToType :: "Value \<Rightarrow> Type \<Rightarrow> bool option"
  and ValuesConformToTypes :: "Value list \<Rightarrow> Type list \<Rightarrow> bool option" where
  "ValueConformsToType (BitsValue b) t =
     (case t of BitsType n \<Rightarrow> Some (ib_bit_count b = n) | _ \<Rightarrow> Some False)"
| "ValueConformsToType (ArrayValue []) t =
     (case t of ArrayType n u \<Rightarrow> Some (n = 0) | _ \<Rightarrow> Some False)"
| "ValueConformsToType (ArrayValue (e # es)) t =
     (case t of
        ArrayType n u \<Rightarrow> if n = length (e # es) then ValueConformsToType e u else Some False
      | _ \<Rightarrow> Some False)"
| "ValueConformsToType (TupleValue es) t =
     (case t of
        TupleType members \<Rightarrow> if length members \<noteq> length es then Some False else ValuesConformToTypes es members
      | _ \<Rightarrow> Some False)"
| "ValueConformsToType TokenValue t = Some (t = TokenType)"
| "ValueConformsToType InvalidValue t = None"
| "ValuesConformToTypes (e # es) (t # ts) = do {
     conforms \<leftarrow> ValueConformsToType e t;
     if \<not> conforms then Some False else ValuesConformToTypes es ts }"
| "ValuesConformToTypes _ _ = Some True"

section \<open>Floats\<close>

definition F32ToTuple :: "32 word \<Rightarrow> Value option" where
  "F32ToTuple x = do {
     let sign = (drop_bit 31 x \<noteq> 0);
     let exp = (ucast (drop_bit 23 x) :: 8 word);
     let fraction = (ucast ((ucast x :: 64 word) AND Mask 23) :: 32 word);
     s \<leftarrow> FromBytes [of_bool sign] 1;
     e \<leftarrow> FromBytes [exp] 8;
     f \<leftarrow> UBits (ucast fraction) 23;
     Some (TupleValue [BitsValue s, BitsValue e, BitsValue f]) }"

text \<open>One field of the tuple: its width is checked, its value read as \<^verbatim>\<open>uint32_t\<close>.\<close>

definition f32_field :: "Value \<Rightarrow> nat \<Rightarrow> nat \<Rightarrow> 32 word status_or option" where
  "f32_field v i width = do {
     e \<leftarrow> element v i;
     b \<leftarrow> Value_bits e;
     ASSIGN_OR_RETURN (RET_CHECK (ib_bit_count b = width)) (\<lambda>_.
       ASSIGN_OR_RETURN (ToUint64 b) (\<lambda>w. Some (Inr (ucast w)))) }"

definition TupleToF32 :: "Value \<Rightarrow> 32 word status_or option" where
  "TupleToF32 v =
     ASSIGN_OR_RETURN (RET_CHECK (kind v = kTuple)) (\<lambda>_. do {
       n \<leftarrow> Value_size v;
       ASSIGN_OR_RETURN (RET_CHECK (n = 3)) (\<lambda>_.
       ASSIGN_OR_RETURN (f32_field v 0 1) (\<lambda>sign.
       ASSIGN_OR_RETURN (f32_field v 1 8) (\<lambda>exp.
       ASSIGN_OR_RETURN (f32_field v 2 23) (\<lambda>fraction. do {
         CHECK ((ucast sign :: 64 word) = ucast sign AND Mask 1);
         CHECK ((ucast exp :: 64 word) = ucast exp AND Mask 8);
         CHECK ((ucast fraction :: 64 word) = ucast fraction AND Mask 23);
         Some (Inr (push_bit 31 sign OR push_bit 23 exp OR fraction)) })))) })"

section \<open>The flat encoding\<close>

fun GatherValueLeaves :: "Value \<Rightarrow> bits list \<Rightarrow> bits list option" where
  "GatherValueLeaves (BitsValue b) leaves = Some (leaves @ [b])"
| "GatherValueLeaves (TupleValue es) leaves = foldM GatherValueLeaves es leaves"
| "GatherValueLeaves (ArrayValue es) leaves = foldM GatherValueLeaves (rev es) leaves"
| "GatherValueLeaves _ leaves = None"

definition FlattenValueToBits :: "Value \<Rightarrow> bits option" where
  "FlattenValueToBits v = do { leaves \<leftarrow> GatherValueLeaves v []; Concat leaves }"

definition GetFlatBitIndexOfElement_tuple :: "Type list \<Rightarrow> nat \<Rightarrow> nat option" where
  "GetFlatBitIndexOfElement_tuple members index = do {
     CHECK (index < length members);
     Some (fold (\<lambda>i flat_index. flat_index + GetFlatBitCount (members ! i)) (rev [Suc index..<length members]) 0) }"

definition GetFlatBitIndexOfElement_array :: "nat \<Rightarrow> Type \<Rightarrow> nat \<Rightarrow> nat option" where
  "GetFlatBitIndexOfElement_array array_length element_type index = do {
     CHECK (index < array_length);
     Some (index * GetFlatBitCount element_type) }"

function UnflattenBitsToValue :: "bits \<Rightarrow> Type \<Rightarrow> Value status_or option" where
  "UnflattenBitsToValue b t =
     (if ib_bit_count b \<noteq> GetFlatBitCount t then Some (Inl InvalidArgument)
      else case t of
        BitsType n \<Rightarrow> Some (Inr (BitsValue b))
      | TupleType members \<Rightarrow>
          ASSIGN_OR_RETURN
            (mapS (\<lambda>i. do {
                index \<leftarrow> GetFlatBitIndexOfElement_tuple members i;
                s \<leftarrow> Slice b index (GetFlatBitCount (members ! i));
                UnflattenBitsToValue s (members ! i) }) [0..<length members])
            (\<lambda>es. Some (Inr (TupleValue es)))
      | ArrayType n u \<Rightarrow>
          ASSIGN_OR_RETURN
            (mapS (\<lambda>i. do {
                index \<leftarrow> GetFlatBitIndexOfElement_array n u i;
                s \<leftarrow> Slice b index (GetFlatBitCount u);
                UnflattenBitsToValue s u }) [0..<n])
            Value_Array
      | TokenType \<Rightarrow> Some (Inl InvalidArgument))"
  by pat_completeness auto
termination
  by (relation "measure (\<lambda>(b, t). size t)") (auto simp: less_Suc_eq_le intro: size_list_estimation'[OF nth_mem])

declare UnflattenBitsToValue.simps [simp del]

end
