(* ===== verification/Value_Rules.thy ===== *)
theory Value_Rules
  imports Value_Utils Bits_Ops_Rules
begin

text \<open>
  The typing of values. \<open>has_type v t\<close> says that \<open>v\<close> is a well-formed value of type \<open>t\<close>: its bit vectors are
  well formed, its arrays are homogeneous and not empty. The code never builds this judgment; it
  compares values with \<open>SameTypeAs\<close> and \<open>ValueConformsToType\<close>, which look at the first element of an
  array only, and the lemmas show that on well-formed values these agree with the judgment. The second
  half shows which constructors give well-formed values and when they fail.
\<close>

section \<open>Bit vectors as lists\<close>

text \<open>
  A bit vector is a list of bits, most significant bit first: \<open>mk_bl\<close> builds the vector and \<open>bl\<close> reads
  it back. Pushing into a buffer is appending, concatenation is concatenation, slices and views are
  sublists; the serialisation of values is proved on these rules alone.
\<close>

definition mk_bl :: "bool list \<Rightarrow> bits" where
  "mk_bl bs = mkBitmap (length bs) (horner_sum of_bool 2 (rev bs))"

definition bl :: "bits \<Rightarrow> bool list" where
  "bl b = map (bit (bm_val b)) (rev [0..<ib_bit_count b])"

lemma ib_bit_count_mk_bl [simp]: "ib_bit_count (mk_bl bs) = length bs"
  by (simp add: mk_bl_def)

lemma wf_mk_bl [simp]: "wf_bitmap (mk_bl bs)"
  by (simp add: mk_bl_def)

lemma length_bl [simp]: "length (bl b) = ib_bit_count b"
  by (simp add: bl_def)

lemma bit_horner_rev:
  "bit (horner_sum of_bool 2 (rev bs) :: nat) i \<longleftrightarrow> i < length bs \<and> bs ! (length bs - Suc i)"
  by (auto simp: bit_horner_sum_bit_iff rev_nth)

lemma map_bit_horner: "map (bit (horner_sum of_bool 2 (rev bs) :: nat)) (rev [0..<length bs]) = bs"
  by (rule nth_equalityI) (auto simp: rev_nth bit_horner_rev Suc_diff_Suc)

lemma mk_bl_eqI: "(\<And>i. i < length bs \<Longrightarrow> bit v i = bs ! (length bs - Suc i)) \<Longrightarrow> mkBitmap (length bs) v = mk_bl bs"
  unfolding mk_bl_def by (rule mkBitmap_eqI[OF mk_repr]) (simp add: bit_horner_rev)

lemma bl_mk_bl [simp]: "bl (mk_bl bs) = bs"
  by (rule nth_equalityI) (auto simp: bl_def mk_bl_def rev_nth bit_simps bit_horner_rev Suc_diff_Suc)

lemma mk_bl_bl [simp]: "wf_bitmap b \<Longrightarrow> mk_bl (bl b) = b"
proof -
  assume "wf_bitmap b"
  then have "b = mkBitmap (length (bl b)) (bm_val b)" by (simp add: wf_bitmap_val)
  also have "\<dots> = mk_bl (bl b)"
    by (rule mk_bl_eqI) (simp add: bl_def rev_nth Suc_diff_Suc)
  finally show ?thesis by simp
qed

lemma mk_bl_inject [simp]: "mk_bl a = mk_bl b \<longleftrightarrow> a = b"
  by (metis bl_mk_bl)

lemma wf_bitmap_bl_cases:
  assumes "wf_bitmap b"
  obtains bs where "b = mk_bl bs" "length bs = ib_bit_count b"
  using that[of "bl b"] assms by simp

lemma mkBitmap_mk_bl: "mkBitmap n v = mk_bl (map (bit v) (rev [0..<n]))"
  using mk_bl_eqI[of "map (bit v) (rev [0..<n])" v] by (simp add: rev_nth Suc_diff_Suc)

lemma ToBitmap_bl: "ToBitmap bs = Some (mk_bl bs)"
  by (simp add: ToBitmap_def FromBitsMsbIs0_mk mk_bl_def)

lemma FlattenTo_bl: "FlattenTo (mk_bl bs) buf = Some (buf @ bs)"
proof -
  have "FlattenTo (mk_bl bs) buf = Some (buf @ bl (mk_bl bs))"
    unfolding bl_def by (simp add: mk_bl_def FlattenTo_mk bit_simps)
  then show ?thesis by simp
qed

lemma mk_bl_slice:
  "mkBitmap (length b) (drop_bit (length c) (horner_sum of_bool 2 (rev (a @ b @ c)))) = mk_bl b"
proof (rule mk_bl_eqI)
  fix i assume "i < length b"
  then have "length (a @ b @ c) - Suc (length c + i) = length a + (length b - Suc i)" "length b - Suc i < length b" by simp_all
  then have "(a @ b @ c) ! (length (a @ b @ c) - Suc (length c + i)) = b ! (length b - Suc i)"
    by (simp only: nth_append_length_plus) (simp only: nth_append if_True)
  then show "bit (drop_bit (length c) (horner_sum of_bool 2 (rev (a @ b @ c))) :: nat) i = b ! (length b - Suc i)"
    using \<open>i < length b\<close> by (simp add: bit_drop_bit_eq bit_horner_rev del: rev_append)
qed

lemma Slice_bl: "Slice (mk_bl (a @ b @ c)) (length c) (length b) = Some (mk_bl b)"
proof -
  have "Slice (mk_bl (a @ b @ c)) (length c) (length b) =
      Some (mkBitmap (length b) (drop_bit (length c) (horner_sum of_bool 2 (rev (a @ b @ c)))))"
    unfolding mk_bl_def by (simp add: Slice_mk del: rev_append)
  also have "\<dots> = Some (mk_bl b)"
    by (simp only: mk_bl_slice)
  finally show ?thesis .
qed

lemma FromBitmapView_bl:
  "FromBitmapView \<lparr>view_bitmap = mk_bl (a @ b @ c), start_bit = length c, view_bit_count = length b\<rparr> = Some (mk_bl b)"
proof -
  have "FromBitmapView \<lparr>view_bitmap = mk_bl (a @ b @ c), start_bit = length c, view_bit_count = length b\<rparr> =
      Some (mkBitmap (length b) (drop_bit (length c) (horner_sum of_bool 2 (rev (a @ b @ c)))))"
    unfolding mk_bl_def by (simp add: FromBitmapView_mk del: rev_append)
  also have "\<dots> = Some (mk_bl b)"
    by (simp only: mk_bl_slice)
  finally show ?thesis .
qed

lemma concat_val_bl:
  "mkBitmap (sum_list (map fst xs)) (concat_val xs) = mk_bl (concat (map (\<lambda>(n, v). map (bit v) (rev [0..<n])) xs))"
proof (induction xs)
  case Nil
  then show ?case by (simp add: mk_bl_def)
next
  case (Cons x xs)
  obtain n v where x: "x = (n, v)" by fastforce
  let ?s = "sum_list (map fst xs)" and ?r = "concat (map (\<lambda>(n, v). map (bit v) (rev [0..<n])) xs)"
  have len: "length ?r = ?s" using arg_cong[OF Cons.IH, of ib_bit_count] by simp
  have low: "bit (concat_val xs) i = ?r ! (?s - Suc i)" if "i < ?s" for i
    using arg_cong[OF Cons.IH, of "\<lambda>b. bit (bm_val b) i"] that len by (simp add: mk_bl_def bit_simps bit_horner_sum_bit_iff rev_nth)
  have high: "\<not> bit (concat_val xs) i" if "?s \<le> i" for i
    using that concat_val_less[of xs] nat_lt_exp_iff_bits by blast
  have "mkBitmap (length (map (bit v) (rev [0..<n]) @ ?r)) (concat_val (x # xs)) = mk_bl (map (bit v) (rev [0..<n]) @ ?r)"
    by (rule mk_bl_eqI) (use low high in \<open>auto simp: x len bit_simps nth_append rev_nth not_less Suc_diff_Suc\<close>)
  then show ?case by (simp add: x len)
qed

lemma Concat_bl: "Concat (map mk_bl bss) = Some (mk_bl (concat bss))"
proof -
  have "Concat (map mk_bl bss) = Concat (map (\<lambda>(n, v). mkBitmap n v) (map (\<lambda>bs. (length bs, horner_sum of_bool 2 (rev bs))) bss))"
    by (simp add: mk_bl_def[abs_def] comp_def)
  also have "\<dots> = Some (mk_bl (concat bss))"
    unfolding Concat_mk concat_val_bl by (simp add: comp_def map_bit_horner)
  finally show ?thesis .
qed

section \<open>The typing judgment\<close>

fun has_type :: "Value \<Rightarrow> Type \<Rightarrow> bool" where
  "has_type (BitsValue b) t \<longleftrightarrow> wf_bitmap b \<and> t = BitsType (ib_bit_count b)"
| "has_type (TupleValue es) t \<longleftrightarrow> (case t of TupleType ts \<Rightarrow> list_all2 has_type es ts | _ \<Rightarrow> False)"
| "has_type (ArrayValue es) t \<longleftrightarrow>
     (case t of ArrayType n u \<Rightarrow> length es = n \<and> es \<noteq> [] \<and> list_all (\<lambda>e. has_type e u) es | _ \<Rightarrow> False)"
| "has_type TokenValue t \<longleftrightarrow> t = TokenType"
| "has_type InvalidValue t \<longleftrightarrow> False"

lemma has_type_cases [consumes 1, case_names Bits Tuple Array Token]:
  assumes "has_type v t"
  obtains b where "v = BitsValue b" "t = BitsType (ib_bit_count b)" "wf_bitmap b"
  | es ts where "v = TupleValue es" "t = TupleType ts" "list_all2 has_type es ts"
  | es u where "v = ArrayValue es" "t = ArrayType (length es) u" "es \<noteq> []" "\<And>e. e \<in> set es \<Longrightarrow> has_type e u"
  | "v = TokenValue" "t = TokenType"
  using assms by (cases v) (auto split: Type.splits simp: list_all_iff)

lemma has_type_induct [consumes 1, case_names Bits Tuple Array Token]:
  assumes "has_type v t"
    and "\<And>b. wf_bitmap b \<Longrightarrow> P (BitsValue b) (BitsType (ib_bit_count b))"
    and "\<And>es ts. list_all2 (\<lambda>e t. has_type e t \<and> P e t) es ts \<Longrightarrow> P (TupleValue es) (TupleType ts)"
    and "\<And>es u. es \<noteq> [] \<Longrightarrow> (\<And>e. e \<in> set es \<Longrightarrow> has_type e u \<and> P e u) \<Longrightarrow> P (ArrayValue es) (ArrayType (length es) u)"
    and "P TokenValue TokenType"
  shows "P v t"
  using assms(1)
proof (induction v arbitrary: t)
  case (TupleValue es)
  then obtain ts where t: "t = TupleType ts" "list_all2 has_type es ts" by (auto split: Type.splits)
  have "list_all2 (\<lambda>e t. has_type e t \<and> P e t) es ts"
    using t(2) TupleValue.IH by (auto simp: list_all2_conv_all_nth)
  then show ?case using assms(3) t(1) by simp
next
  case (ArrayValue es)
  then obtain u where "t = ArrayType (length es) u" "es \<noteq> []" "\<And>e. e \<in> set es \<Longrightarrow> has_type e u"
    by (auto split: Type.splits simp: list_all_iff)
  then show ?case using assms(4) ArrayValue.IH by simp
qed (use assms in auto)

lemma has_type_unique: "has_type v t \<Longrightarrow> has_type v u \<Longrightarrow> t = u"
proof (induction v t arbitrary: u rule: has_type_induct)
  case (Tuple es ts)
  then obtain us where "u = TupleType us" "list_all2 has_type es us" by (auto split: Type.splits)
  then show ?case using Tuple.IH by (auto simp: list_all2_conv_all_nth intro!: nth_equalityI)
next
  case (Array es t)
  then obtain w where "u = ArrayType (length es) w" "\<And>e. e \<in> set es \<Longrightarrow> has_type e w"
    by (auto split: Type.splits simp: list_all_iff)
  then show ?case using Array.IH[OF hd_in_set[OF Array.hyps]] hd_in_set[OF Array.hyps] by blast
qed auto

section \<open>Queries on well-formed values\<close>

lemma Value_GetFlatBitCount_typed: "has_type v t \<Longrightarrow> Value_GetFlatBitCount v = Some (GetFlatBitCount t)"
proof (induction v t rule: has_type_induct)
  case (Tuple es ts)
  have "foldM (\<lambda>e total. do { n \<leftarrow> Value_GetFlatBitCount e; Some (total + n) }) es k = Some (k + sum_list (map GetFlatBitCount ts))" for k
    using Tuple by (induction es ts arbitrary: k rule: list_all2_induct) (auto simp: add.assoc)
  then show ?case by simp
next
  case (Array es u)
  then show ?case by (cases es) auto
qed auto

lemma SameTypeAs_elements_typed:
  assumes "list_all2 (\<lambda>e t. has_type e t \<and> (\<forall>w u. has_type w u \<longrightarrow> SameTypeAs e w = Some (t = u))) es ts"
    and "list_all2 has_type fs us" "length es = length fs"
  shows "SameTypeAs_elements es fs = Some (ts = us)"
  using assms
proof (induction es ts arbitrary: fs us rule: list_all2_induct)
  case (Cons e es t ts)
  then show ?case by (cases fs) (auto simp: list_all2_Cons1)
qed simp

lemma SameTypeAs_typed: "has_type v t \<Longrightarrow> has_type w u \<Longrightarrow> SameTypeAs v w = Some (t = u)"
proof (induction v t arbitrary: w u rule: has_type_induct)
  case (Bits b)
  from Bits(2) show ?case by (cases rule: has_type_cases) auto
next
  case (Tuple es ts)
  have "list_all2 (\<lambda>e t. has_type e t \<and> (\<forall>w u. has_type w u \<longrightarrow> SameTypeAs e w = Some (t = u))) es ts"
    using Tuple.IH by (simp add: list_all2_mono)
  note el = SameTypeAs_elements_typed[OF this] and len = list_all2_lengthD[OF this]
  from Tuple.prems show ?case
  proof (cases rule: has_type_cases)
    case (Tuple fs us)
    have "length es = length fs" if "ts = us" using len list_all2_lengthD[OF Tuple(3)] that by simp
    then show ?thesis using el[OF Tuple(3)] Tuple(1,2) by auto
  qed auto
next
  case (Array es t)
  from Array.hyps obtain e rest where es: "es = e # rest" by (cases es) auto
  from Array.prems show ?case
  proof (cases rule: has_type_cases)
    case (Array fs u')
    then have "SameTypeAs e (hd fs) = Some (t = u')" using Array.IH[of e] es by simp
    then show ?thesis using Array es by auto
  qed (auto simp: es)
next
  case Token
  then show ?case by (cases rule: has_type_cases) auto
qed

lemma ValuesConformToTypes_typed:
  assumes "list_all2 (\<lambda>e t. has_type e t \<and> (\<forall>u. ValueConformsToType e u = Some (t = u))) es ts" "length us = length es"
  shows "ValuesConformToTypes es us = Some (ts = us)"
  using assms
proof (induction es ts arbitrary: us rule: list_all2_induct)
  case (Cons e es t ts)
  then show ?case by (cases us) auto
qed simp

lemma ValueConformsToType_typed: "has_type v t \<Longrightarrow> ValueConformsToType v u = Some (t = u)"
proof (induction v t arbitrary: u rule: has_type_induct)
  case (Tuple es ts)
  have "list_all2 (\<lambda>e t. has_type e t \<and> (\<forall>u. ValueConformsToType e u = Some (t = u))) es ts"
    using Tuple by (simp add: list_all2_mono)
  note el = ValuesConformToTypes_typed[OF this]
  show ?case using el list_all2_lengthD[OF Tuple] by (cases u) auto
next
  case (Array es t)
  then show ?case by (cases es; cases u) auto
qed (auto split: Type.splits)

lemma TypeAsProto_typed: "has_type v t \<Longrightarrow> TypeAsProto v = Some (Inr (Type_ToProto t))"
proof (induction v t rule: has_type_induct)
  case (Tuple es ts)
  then have "mapS TypeAsProto es = Some (Inr (map Type_ToProto ts))"
    by (induction es ts rule: list_all2_induct) auto
  then show ?case by simp
next
  case (Array es t)
  then show ?case by (cases es) auto
qed auto

lemma Bits_eq_wf:
  assumes "wf_bitmap a" "wf_bitmap b"
  shows "Bits_eq a b = Some (a = b)"
  using Bits_eq_mk[of "ib_bit_count a" "bm_val a" "ib_bit_count b" "bm_val b"]
    mkBitmap_eq_iff[of "ib_bit_count a" "bm_val a" "ib_bit_count b" "bm_val b"]
  unfolding wf_bitmap_val[OF assms(1)] wf_bitmap_val[OF assms(2)] by simp

lemma list_all2_typed: "list_all2 has_type es ts \<Longrightarrow> list_all (\<lambda>e. \<exists>t. has_type e t) es"
  by (induction es ts rule: list_all2_induct) auto

lemma Value_eq_typed: "has_type v t \<Longrightarrow> has_type w u \<Longrightarrow> Value_eq v w = Some (v = w)"
  and Value_eq_elements_typed:
    "list_all (\<lambda>e. \<exists>t. has_type e t) es \<Longrightarrow> list_all (\<lambda>e. \<exists>t. has_type e t) fs \<Longrightarrow> length es = length fs \<Longrightarrow>
     Value_eq_elements es fs = Some (es = fs)"
proof (induction v w and es fs arbitrary: t u rule: Value_eq_Value_eq_elements.induct)
  case (1 a other)
  then show ?case by (cases other) (simp_all add: Bits_eq_wf)
next
  case (2 es other)
  then show ?case by (cases other) (auto split: Type.splits dest: list_all2_typed)
next
  case (3 es other)
  then show ?case by (cases other) (auto split: Type.splits simp: list_all_iff)
next
  case (4 other)
  then show ?case by (cases other) auto
qed auto

section \<open>Construction\<close>

lemma Value_Array_typed:
  assumes "es \<noteq> []" "\<And>e. e \<in> set es \<Longrightarrow> has_type e t"
  shows "Value_Array es = Some (Inr (ArrayValue es))" "ArrayOwned es = Some (ArrayValue es)"
    "has_type (ArrayValue es) (ArrayType (length es) t)"
proof -
  obtain e rest where es: "es = e # rest" using assms(1) by (cases es) auto
  have s: "SameTypeAs e x = Some True" if "x \<in> set rest" for x
    using SameTypeAs_typed[of e t x t] assms(2) that es by simp
  have "mapS (\<lambda>x. do { same \<leftarrow> SameTypeAs e x; RET_CHECK same }) rest = Some (Inr (map (\<lambda>_. ()) rest))"
    by (rule mapS_pure) (simp add: s RET_CHECK_def)
  then show "Value_Array es = Some (Inr (ArrayValue es))" by (simp add: Value_Array_def es)
  have "mapM (\<lambda>x. do { same \<leftarrow> SameTypeAs e x; CHECK same }) rest = Some (map (\<lambda>_. ()) rest)"
    by (rule mapM_pure) (simp add: s CHECK_def)
  then show "ArrayOwned es = Some (ArrayValue es)" by (simp add: ArrayOwned_def es)
  show "has_type (ArrayValue es) (ArrayType (length es) t)" using assms by (simp add: list_all_iff)
qed

text \<open>\<^verbatim>\<open>Value::Array\<close> on well-formed values never aborts, and accepts exactly the homogeneous non-empty lists.\<close>

lemma Value_Array_cases:
  assumes "list_all2 has_type es ts"
  shows "Value_Array es =
    Some (if es = [] then Inl Unimplemented else if \<forall>t\<in>set ts. t = hd ts then Inr (ArrayValue es) else Inl Internal)"
proof (cases es)
  case Nil
  then show ?thesis by (simp add: Value_Array_def)
next
  case (Cons e rest)
  then obtain t ts' where ts: "ts = t # ts'" "has_type e t" "list_all2 has_type rest ts'"
    using assms by (auto simp: list_all2_Cons1)
  from ts(3) have "mapS (\<lambda>x. do { same \<leftarrow> SameTypeAs e x; RET_CHECK same }) rest =
      Some (if \<forall>u\<in>set ts'. u = t then Inr (map (\<lambda>_. ()) rest) else Inl Internal)"
    by (induction rest ts' rule: list_all2_induct) (auto simp: SameTypeAs_typed[OF ts(2)] RET_CHECK_def)
  then show ?thesis by (auto simp: Value_Array_def Cons ts(1))
qed

text \<open>The types that have values: no array in them is empty.\<close>

fun inhabited :: "Type \<Rightarrow> bool" where
  "inhabited (BitsType n) = True"
| "inhabited (TupleType ts) = list_all inhabited ts"
| "inhabited (ArrayType n t) = (0 < n \<and> inhabited t)"
| "inhabited TokenType = True"

lemma has_type_inhabited: "has_type v t \<Longrightarrow> inhabited t"
proof (induction v t rule: has_type_induct)
  case (Tuple es ts)
  then show ?case by (auto simp: list_all_iff list_all2_conv_all_nth in_set_conv_nth)
next
  case (Array es u)
  then show ?case using hd_in_set by fastforce
qed auto

lemma ValueOfType_typed:
  assumes "\<And>n. \<exists>b. fbits n = Some b \<and> wf_bitmap b \<and> ib_bit_count b = n"
  shows "inhabited t \<Longrightarrow> \<exists>v. ValueOfType fbits t = Some v \<and> has_type v t"
proof (induction t)
  case (BitsType n)
  then show ?case using assms[of n] by auto
next
  case (TupleType ts)
  then have "\<exists>es. mapM (ValueOfType fbits) ts = Some es \<and> list_all2 has_type es ts"
  proof (induction ts)
    case (Cons t ts)
    obtain v where "ValueOfType fbits t = Some v" "has_type v t" using Cons.prems by fastforce
    moreover obtain es where "mapM (ValueOfType fbits) ts = Some es" "list_all2 has_type es ts"
      using Cons by auto
    ultimately show ?case by simp
  qed simp
  then show ?case by auto
next
  case (ArrayType n t)
  then obtain v where v: "ValueOfType fbits t = Some v" "has_type v t" by auto
  have "mapM (\<lambda>_. ValueOfType fbits t) [0..<n] = Some (map (\<lambda>_. v) [0..<n])" by (rule mapM_pure) (simp add: v)
  moreover have "Value_Array (map (\<lambda>_. v) [0..<n]) = Some (Inr (ArrayValue (map (\<lambda>_. v) [0..<n])))"
    "has_type (ArrayValue (map (\<lambda>_. v) [0..<n])) (ArrayType n t)"
    using Value_Array_typed[of "map (\<lambda>_. v) [0..<n]" t] v ArrayType.prems by auto
  ultimately show ?case by simp
qed auto

lemma mapM_None: "mapM f xs = None \<longleftrightarrow> (\<exists>x\<in>set xs. f x = None)"
proof (induction xs)
  case (Cons x xs)
  then show ?case by (cases "f x"; cases "mapM f xs") auto
qed simp

lemma ValueOfType_None: "\<not> inhabited t \<Longrightarrow> ValueOfType fbits t = None"
proof (induction t)
  case (TupleType ts)
  then have "mapM (ValueOfType fbits) ts = None" by (auto simp: mapM_None list_all_iff)
  then show ?case by simp
next
  case (ArrayType n t)
  show ?case
  proof (cases "n = 0")
    case False
    then have "mapM (\<lambda>_. ValueOfType fbits t) [0..<n] = None" using ArrayType by (auto simp: mapM_None)
    then show ?thesis by simp
  qed (simp add: Value_Array_def)
qed auto

end
