(* ===== verification/Value_Serial.thy ===== *)
theory Value_Serial
  imports Value_Rules
begin

text \<open>
  The three serial forms of a value and their inverses: the bit buffer of \<^verbatim>\<open>FlattenTo\<close> and
  \<^verbatim>\<open>PopulateFrom\<close>, the bit vector of \<^verbatim>\<open>FlattenValueToBits\<close> and \<^verbatim>\<open>UnflattenBitsToValue\<close>, and the message of
  \<^verbatim>\<open>AsProto\<close> and \<^verbatim>\<open>FromProto\<close>. The first two differ in the order of array elements. Decoders are shown to
  answer on every input, with a well-formed value or an error.
\<close>

section \<open>The bit buffer\<close>

fun flat :: "Value \<Rightarrow> bool list" where
  "flat (BitsValue b) = bl b"
| "flat (TupleValue es) = concat (map flat es)"
| "flat (ArrayValue es) = concat (map flat es)"
| "flat _ = []"

lemma sum_list_uniform: "(\<And>x. x \<in> set xs \<Longrightarrow> f x = k) \<Longrightarrow> sum_list (map f xs) = length xs * (k :: nat)"
  by (induction xs) auto

lemma length_flat: "has_type v t \<Longrightarrow> length (flat v) = GetFlatBitCount t"
proof (induction v t rule: has_type_induct)
  case (Tuple es ts)
  then show ?case by (induction es ts rule: list_all2_induct) auto
next
  case (Array es u)
  then show ?case by (simp add: length_concat comp_def sum_list_uniform)
qed auto

lemma foldM_flat: "(\<And>e buf. e \<in> set es \<Longrightarrow> f e buf = Some (buf @ g e)) \<Longrightarrow> foldM f es buf = Some (buf @ concat (map g es))"
  by (induction es arbitrary: buf) auto

lemma list_all2_set1: "list_all2 P xs ys \<Longrightarrow> x \<in> set xs \<Longrightarrow> \<exists>y. P x y"
  by (auto simp: list_all2_conv_all_nth in_set_conv_nth)

lemma Value_FlattenTo_typed: "has_type v t \<Longrightarrow> Value_FlattenTo v buf = Some (buf @ flat v)"
proof (induction v t arbitrary: buf rule: has_type_induct)
  case (Bits b)
  then show ?case using FlattenTo_bl[of "bl b" buf] by simp
next
  case (Tuple es ts)
  then show ?case using list_all2_set1[OF Tuple] by (auto intro: foldM_flat)
next
  case (Array es u)
  then show ?case by (auto intro: foldM_flat)
qed auto

text \<open>The view of a bitmap between the bits \<open>a\<close> above it and the bits \<open>c\<close> below it.\<close>

abbreviation view_of :: "bool list \<Rightarrow> bool list \<Rightarrow> bool list \<Rightarrow> bitmap_view" where
  "view_of a b c \<equiv> \<lparr>view_bitmap = mk_bl (a @ b @ c), start_bit = length c, view_bit_count = length b\<rparr>"

lemma populate_fold:
  assumes "list_all2 (\<lambda>w v. Value_GetFlatBitCount w = Some (length (flat v)) \<and>
      (\<forall>a c. PopulateFrom w (view_of a (flat v) c) = Some (Inr v))) ws vs"
    and "length c = s + k"
  shows "foldS (\<lambda>e st. populate_step PopulateFrom \<lparr>view_bitmap = mk_bl (a @ concat (map flat vs) @ c), start_bit = s, view_bit_count = n\<rparr> e st)
      (rev ws) (k, done) = Some (Inr (k + length (concat (map flat vs)), vs @ done))"
  using assms
proof (induction ws vs arbitrary: a rule: list_all2_induct)
  case (Cons w ws v vs)
  let ?r = "concat (map flat vs)"
  have "PopulateFrom w \<lparr>view_bitmap = mk_bl (a @ flat v @ ?r @ c), start_bit = s + (k + length ?r), view_bit_count = length (flat v)\<rparr> = Some (Inr v)"
    using Cons(1)[THEN conjunct2, rule_format, of a "?r @ c"] Cons.prems by (simp add: add_ac)
  then show ?case using Cons.IH[of "a @ flat v"] Cons(1) Cons.prems
    by (simp add: foldS_append populate_step_def BitmapView_Slice_def BitmapView_def)
qed simp

lemma PopulateFrom_typed: "has_type w t \<Longrightarrow> has_type v t \<Longrightarrow> PopulateFrom w (view_of a (flat v) c) = Some (Inr v)"
proof (induction w t arbitrary: v a c rule: has_type_induct)
  case (Bits b)
  then obtain b' where "v = BitsValue b'" "wf_bitmap b'" by (cases v) (auto split: Type.splits)
  then show ?case using FromBitmapView_bl[of a "bl b'" c] by simp
next
  case (Tuple ws ts)
  from Tuple.prems obtain vs where vs: "v = TupleValue vs" "list_all2 has_type vs ts" by (cases v) (auto split: Type.splits)
  have "list_all2 (\<lambda>w v. Value_GetFlatBitCount w = Some (length (flat v)) \<and>
      (\<forall>a c. PopulateFrom w (view_of a (flat v) c) = Some (Inr v))) ws vs"
    using Tuple.IH vs(2) by (auto simp: list_all2_conv_all_nth Value_GetFlatBitCount_typed length_flat)
  from populate_fold[OF this, of c "length c" 0] show ?case by (simp add: vs(1))
next
  case (Array ws u)
  from Array.prems obtain vs where vs: "v = ArrayValue vs" "length vs = length ws" "\<And>e. e \<in> set vs \<Longrightarrow> has_type e u"
    by (cases v) (auto split: Type.splits simp: list_all_iff)
  have "list_all2 (\<lambda>w v. Value_GetFlatBitCount w = Some (length (flat v)) \<and>
      (\<forall>a c. PopulateFrom w (view_of a (flat v) c) = Some (Inr v))) ws vs"
    unfolding list_all2_conv_all_nth
    using Array.IH[OF nth_mem] vs(2,3) by (simp add: Value_GetFlatBitCount_typed[of _ u] length_flat[of _ u])
  from populate_fold[OF this, of c "length c" 0] show ?case by (simp add: vs(1))
next
  case Token
  then show ?case by (cases v) (auto split: Type.splits)
qed

section \<open>The bit vector\<close>

fun value_leaves :: "Value \<Rightarrow> bits list" where
  "value_leaves (BitsValue b) = [b]"
| "value_leaves (TupleValue es) = concat (map value_leaves es)"
| "value_leaves (ArrayValue es) = concat (map value_leaves (rev es))"
| "value_leaves _ = []"

definition flat_lsb :: "Value \<Rightarrow> bool list" where
  "flat_lsb v = concat (map bl (value_leaves v))"

lemma concat_map_concat: "concat (map f (concat xss)) = concat (map (\<lambda>xs. concat (map f xs)) xss)"
  by (induction xss) auto

lemma flat_lsb_simps [simp]:
  "flat_lsb (BitsValue b) = bl b"
  "flat_lsb (TupleValue es) = concat (map flat_lsb es)"
  "flat_lsb (ArrayValue es) = concat (map flat_lsb (rev es))"
  by (simp_all add: flat_lsb_def[abs_def] concat_map_concat comp_def)

lemma length_flat_lsb: "has_type v t \<Longrightarrow> length (flat_lsb v) = GetFlatBitCount t"
proof (induction v t rule: has_type_induct)
  case (Tuple es ts)
  then show ?case by (induction es ts rule: list_all2_induct) auto
next
  case (Array es u)
  then have "sum_list (map (\<lambda>e. length (flat_lsb e)) (rev es)) = length (rev es) * GetFlatBitCount u"
    by (intro sum_list_uniform) simp
  then show ?case by (simp add: length_concat comp_def)
qed (auto simp: flat_lsb_def)

lemma value_leaves_wf: "has_type v t \<Longrightarrow> b \<in> set (value_leaves v) \<Longrightarrow> wf_bitmap b"
proof (induction v t rule: has_type_induct)
  case (Tuple es ts)
  then show ?case using list_all2_set1[OF Tuple(1)] by fastforce
qed auto

lemma GatherValueLeaves_typed:
  "has_type v t \<Longrightarrow> \<not> TypeHasToken t \<Longrightarrow> GatherValueLeaves v leaves = Some (leaves @ value_leaves v)"
proof (induction v t arbitrary: leaves rule: has_type_induct)
  case (Tuple es ts)
  have "GatherValueLeaves e ls = Some (ls @ value_leaves e)" if "e \<in> set es" for e ls
  proof -
    obtain i where i: "i < length ts" "e = es ! i" using \<open>e \<in> set es\<close> list_all2_lengthD[OF Tuple.IH] by (auto simp: in_set_conv_nth)
    then have "\<not> TypeHasToken (ts ! i)" using Tuple.prems by (simp add: list_ex_iff)
    then show ?thesis using list_all2_nthD2[OF Tuple.IH i(1)] i(2) by blast
  qed
  then show ?case by (simp add: foldM_flat)
next
  case (Array es u)
  then show ?case by (auto intro: foldM_flat)
qed auto

lemma FlattenValueToBits_typed:
  assumes "has_type v t" "\<not> TypeHasToken t"
  shows "FlattenValueToBits v = Some (mk_bl (flat_lsb v))"
proof -
  have "map mk_bl (map bl (value_leaves v)) = value_leaves v"
    by (rule nth_equalityI) (auto simp: value_leaves_wf[OF assms(1)])
  then have "Concat (value_leaves v) = Some (mk_bl (flat_lsb v))"
    using Concat_bl[of "map bl (value_leaves v)"] by (simp add: flat_lsb_def)
  then show ?thesis using assms by (simp add: FlattenValueToBits_def GatherValueLeaves_typed)
qed

lemma GetFlatBitIndexOfElement_tuple_eq:
  assumes "i < length ms"
  shows "GetFlatBitIndexOfElement_tuple ms i = Some (sum_list (map GetFlatBitCount (drop (Suc i) ms)))"
proof -
  have "fold (\<lambda>i acc. acc + f (ms ! i)) (rev [k..<length ms]) 0 = sum_list (map f (drop k ms))" if "k \<le> length ms"
    for k and f :: "Type \<Rightarrow> nat"
    using that
  proof (induction "length ms - k" arbitrary: k)
    case (Suc n)
    then have "[k..<length ms] = k # [Suc k..<length ms]" "drop k ms = ms ! k # drop (Suc k) ms"
      by (simp_all add: upt_conv_Cons Cons_nth_drop_Suc)
    then show ?case using Suc(1)[of "Suc k"] Suc(2,3) by simp
  qed simp
  then show ?thesis using assms by (simp add: GetFlatBitIndexOfElement_tuple_def)
qed

lemma concat_split_nth:
  "i < length xs \<Longrightarrow> concat (map f xs) = concat (map f (take i xs)) @ f (xs ! i) @ concat (map f (drop (Suc i) xs))"
  using id_take_nth_drop[of i xs] by (metis concat.simps(2) concat_append list.simps(9) map_append)

lemma length_concat_typed:
  "list_all2 has_type es ts \<Longrightarrow> length (concat (map flat_lsb es)) = sum_list (map GetFlatBitCount ts)"
  by (induction es ts rule: list_all2_induct) (auto simp: length_flat_lsb)

lemma Slice_tuple:
  assumes "list_all2 has_type es ts" "i < length ts"
  shows "do { index \<leftarrow> GetFlatBitIndexOfElement_tuple ts i;
      Slice (mk_bl (concat (map flat_lsb es))) index (GetFlatBitCount (ts ! i)) } = Some (mk_bl (flat_lsb (es ! i)))"
proof -
  have i: "i < length es" "has_type (es ! i) (ts ! i)" using assms by (auto simp: list_all2_conv_all_nth)
  have "length (concat (map flat_lsb (drop (Suc i) es))) = sum_list (map GetFlatBitCount (drop (Suc i) ts))"
    using assms(1) by (intro length_concat_typed) (simp add: list_all2_dropI)
  then show ?thesis
    using Slice_bl[of "concat (map flat_lsb (take i es))" "flat_lsb (es ! i)" "concat (map flat_lsb (drop (Suc i) es))"]
      length_flat_lsb[OF i(2)] assms(2)
    by (simp add: GetFlatBitIndexOfElement_tuple_eq concat_split_nth[OF i(1), of flat_lsb])
qed

lemma length_concat_uniform:
  "(\<And>e. e \<in> set es \<Longrightarrow> has_type e u) \<Longrightarrow> length (concat (map flat_lsb es)) = length es * GetFlatBitCount u"
  by (induction es) (auto simp: length_flat_lsb)

lemma Slice_array:
  assumes "\<And>e. e \<in> set es \<Longrightarrow> has_type e u" "i < length es"
  shows "do { index \<leftarrow> GetFlatBitIndexOfElement_array (length es) u i;
      Slice (mk_bl (concat (map flat_lsb (rev es)))) index (GetFlatBitCount u) } = Some (mk_bl (flat_lsb (es ! i)))"
proof -
  let ?A = "concat (map flat_lsb (rev (drop (Suc i) es)))" and ?C = "concat (map flat_lsb (rev (take i es)))"
  have "rev es = rev (drop (Suc i) es) @ es ! i # rev (take i es)"
    using id_take_nth_drop[OF assms(2)] by (metis append.assoc append_Cons append_Nil rev.simps(2) rev_append)
  then have split: "concat (map flat_lsb (rev es)) = ?A @ flat_lsb (es ! i) @ ?C" by simp
  have "length ?C = length (rev (take i es)) * GetFlatBitCount u"
    by (rule length_concat_uniform) (metis assms(1) in_set_takeD set_rev)
  moreover have "length (flat_lsb (es ! i)) = GetFlatBitCount u" using assms by (simp add: length_flat_lsb)
  ultimately show ?thesis unfolding split
    using Slice_bl[of ?A "flat_lsb (es ! i)" ?C] assms(2) by (simp add: GetFlatBitIndexOfElement_array_def)
qed

lemma Unflatten_typed:
  "has_type v t \<Longrightarrow> \<not> TypeHasToken t \<Longrightarrow> UnflattenBitsToValue (mk_bl (flat_lsb v)) t = Some (Inr v)"
proof (induction v t rule: has_type_induct)
  case (Bits b)
  then show ?case by (simp add: UnflattenBitsToValue.simps)
next
  case (Tuple es ts)
  have ty: "list_all2 has_type es ts" using Tuple.IH by (rule list_all2_mono) simp
  let ?f = "\<lambda>i. do { index \<leftarrow> GetFlatBitIndexOfElement_tuple ts i;
      s \<leftarrow> Slice (mk_bl (concat (map flat_lsb es))) index (GetFlatBitCount (ts ! i)); UnflattenBitsToValue s (ts ! i) }"
  have "?f i = Some (Inr (es ! i))" if "i < length ts" for i
  proof -
    have "UnflattenBitsToValue (mk_bl (flat_lsb (es ! i))) (ts ! i) = Some (Inr (es ! i))"
      using Tuple that by (auto simp: list_all2_conv_all_nth list_ex_iff)
    then show ?thesis using Slice_tuple[OF ty that] by (auto simp: bind_eq_Some_conv)
  qed
  then have "mapS ?f [0..<length ts] = Some (Inr (map ((!) es) [0..<length ts]))" by (intro mapS_pure) simp
  then have "mapS ?f [0..<length ts] = Some (Inr es)" using map_nth[of es] list_all2_lengthD[OF ty] by (simp only:)
  then show ?case using length_concat_typed[OF ty] by (simp add: UnflattenBitsToValue.simps)
next
  case (Array es u)
  have ty: "has_type e u" if "e \<in> set es" for e using Array.IH that by simp
  let ?f = "\<lambda>i. do { index \<leftarrow> GetFlatBitIndexOfElement_array (length es) u i;
      s \<leftarrow> Slice (mk_bl (concat (map flat_lsb (rev es)))) index (GetFlatBitCount u); UnflattenBitsToValue s u }"
  have "?f i = Some (Inr (es ! i))" if "i < length es" for i
  proof -
    have "UnflattenBitsToValue (mk_bl (flat_lsb (es ! i))) u = Some (Inr (es ! i))" using Array that by simp
    then show ?thesis using Slice_array[OF ty that] by (auto simp: bind_eq_Some_conv)
  qed
  then have "mapS ?f [0..<length es] = Some (Inr (map ((!) es) [0..<length es]))" by (intro mapS_pure) simp
  then have "mapS ?f [0..<length es] = Some (Inr es)" by (simp only: map_nth)
  moreover have "length (concat (map flat_lsb (rev es))) = length es * GetFlatBitCount u"
    using length_concat_uniform[of "rev es" u] ty by simp
  ultimately show ?case using Value_Array_typed(1)[of es u] Array.hyps ty by (simp add: UnflattenBitsToValue.simps)
qed simp

text \<open>Every bit vector of the width of a type is the encoding of one of its values.\<close>

lemma flat_lsb_surj: "inhabited t \<Longrightarrow> \<not> TypeHasToken t \<Longrightarrow> length bs = GetFlatBitCount t \<Longrightarrow> \<exists>v. has_type v t \<and> flat_lsb v = bs"
proof (induction t arbitrary: bs)
  case (BitsType n)
  then show ?case by (intro exI[of _ "BitsValue (mk_bl bs)"]) simp
next
  case (TupleType ts)
  then have "\<exists>es. list_all2 has_type es ts \<and> concat (map flat_lsb es) = bs"
  proof (induction ts arbitrary: bs)
    case (Cons t ts)
    let ?n = "GetFlatBitCount t"
    obtain v where v: "has_type v t" "flat_lsb v = take ?n bs"
      using Cons.prems(1)[of t "take ?n bs"] Cons.prems(2-) by auto
    have "\<exists>es. list_all2 has_type es ts \<and> concat (map flat_lsb es) = drop ?n bs"
      using Cons.prems by (intro Cons.IH) auto
    then obtain es where "list_all2 has_type es ts" "concat (map flat_lsb es) = drop ?n bs" by blast
    then show ?case using v by (intro exI[of _ "v # es"]) simp
  qed simp
  then obtain es where "list_all2 has_type es ts" "concat (map flat_lsb es) = bs" by blast
  then show ?case by (intro exI[of _ "TupleValue es"]) simp
next
  case (ArrayType n t)
  have "length bs = n * GetFlatBitCount t \<Longrightarrow> \<exists>es. length es = n \<and> (\<forall>e\<in>set es. has_type e t) \<and> concat (map flat_lsb es) = bs" for n
  proof (induction n arbitrary: bs)
    case (Suc n)
    let ?n = "GetFlatBitCount t"
    obtain v where v: "has_type v t" "flat_lsb v = take ?n bs"
      using ArrayType.IH[of "take ?n bs"] ArrayType.prems(1,2) Suc.prems by auto
    obtain es where "length es = n" "\<forall>e\<in>set es. has_type e t" "concat (map flat_lsb es) = drop ?n bs"
      using Suc.IH[of "drop ?n bs"] Suc.prems by auto
    then show ?case using v by (intro exI[of _ "v # es"]) simp
  qed simp
  then obtain es where "length es = n" "\<forall>e\<in>set es. has_type e t" "concat (map flat_lsb es) = bs"
    using ArrayType.prems(3) by auto
  then show ?case using ArrayType.prems(1)
    by (intro exI[of _ "ArrayValue (rev es)"]) (auto simp: list_all_iff)
qed simp

lemma mapS_total:
  assumes "\<And>x. x \<in> set xs \<Longrightarrow> \<exists>r. f x = Some r"
  shows "\<exists>r. mapS f xs = Some r"
    "(\<exists>x\<in>set xs. \<exists>e. f x = Some (Inl e)) \<Longrightarrow> \<exists>e. mapS f xs = Some (Inl e)"
proof -
  have "\<exists>r. mapS f xs = Some r \<and> ((\<exists>x\<in>set xs. \<exists>e. f x = Some (Inl e)) \<longrightarrow> (\<exists>e. r = Inl e))"
    using assms
  proof (induction xs)
    case (Cons x xs)
    obtain r where r: "mapS f xs = Some r" "(\<exists>x\<in>set xs. \<exists>e. f x = Some (Inl e)) \<longrightarrow> (\<exists>e. r = Inl e)" using Cons by auto
    obtain q where "f x = Some q" using Cons.prems by auto
    then show ?case using r by (cases q; cases r) auto
  qed simp
  then show "\<exists>r. mapS f xs = Some r" "(\<exists>x\<in>set xs. \<exists>e. f x = Some (Inl e)) \<Longrightarrow> \<exists>e. mapS f xs = Some (Inl e)" by auto
qed

lemma Slice_wf:
  assumes "wf_bitmap b" "s + w \<le> ib_bit_count b"
  obtains b' where "Slice b s w = Some b'" "wf_bitmap b'" "ib_bit_count b' = w"
proof -
  have "Slice b s w = Some (mkBitmap w (drop_bit s (bm_val b)))"
    using Slice_mk[OF assms(2), of "bm_val b"] wf_bitmap_val[OF assms(1)] by simp
  then show thesis by (rule that) simp_all
qed

text \<open>A type without values, or with a token, is refused with an error, whatever the bits.\<close>

lemma Unflatten_error:
  "wf_bitmap b \<Longrightarrow> \<not> (inhabited t \<and> \<not> TypeHasToken t) \<Longrightarrow> \<exists>e. UnflattenBitsToValue b t = Some (Inl e)"
proof (induction t arbitrary: b)
  case (TupleType ts)
  show ?case
  proof (cases "ib_bit_count b = GetFlatBitCount (TupleType ts)")
    case True
    let ?f = "\<lambda>i. do { index \<leftarrow> GetFlatBitIndexOfElement_tuple ts i;
      s \<leftarrow> Slice b index (GetFlatBitCount (ts ! i)); UnflattenBitsToValue s (ts ! i) }"
    have f: "(\<exists>r. ?f i = Some r) \<and> (\<not> (inhabited (ts ! i) \<and> \<not> TypeHasToken (ts ! i)) \<longrightarrow> (\<exists>e. ?f i = Some (Inl e)))"
      if i: "i < length ts" for i
    proof -
      have "sum_list (map GetFlatBitCount ts) = sum_list (map GetFlatBitCount (take i ts)) + GetFlatBitCount (ts ! i) + sum_list (map GetFlatBitCount (drop (Suc i) ts))"
        using id_take_nth_drop[OF i] by (metis add.assoc list.simps(9) map_append sum_list.Cons sum_list.append)
      then have "sum_list (map GetFlatBitCount (drop (Suc i) ts)) + GetFlatBitCount (ts ! i) \<le> ib_bit_count b" using True by simp
      from Slice_wf[OF TupleType.prems(1) this] obtain s where s: "Slice b (sum_list (map GetFlatBitCount (drop (Suc i) ts))) (GetFlatBitCount (ts ! i)) = Some s"
          "wf_bitmap s" "ib_bit_count s = GetFlatBitCount (ts ! i)" by blast
      have "?f i = UnflattenBitsToValue s (ts ! i)" using s(1) i by (simp add: GetFlatBitIndexOfElement_tuple_eq)
      moreover have "\<exists>v. UnflattenBitsToValue s (ts ! i) = Some (Inr v)" if "inhabited (ts ! i)" "\<not> TypeHasToken (ts ! i)"
        using flat_lsb_surj[OF that, of "bl s"] Unflatten_typed[OF _ that(2)] s(2,3) mk_bl_bl by (metis length_bl)
      ultimately show ?thesis using TupleType.IH[OF nth_mem[OF i] s(2)] by metis
    qed
    obtain i where "i < length ts" "\<not> (inhabited (ts ! i) \<and> \<not> TypeHasToken (ts ! i))"
      using TupleType.prems(2) by (auto simp: list_all_iff list_ex_iff in_set_conv_nth)
    then have "\<exists>e. mapS ?f [0..<length ts] = Some (Inl e)" using f by (intro mapS_total(2) bexI[of _ i]) auto
    then show ?thesis using True by (auto simp: UnflattenBitsToValue.simps[of b])
  qed (simp add: UnflattenBitsToValue.simps)
next
  case (ArrayType n t)
  show ?case
  proof (cases "ib_bit_count b = GetFlatBitCount (ArrayType n t) \<and> 0 < n")
    case True
    let ?f = "\<lambda>i. do { index \<leftarrow> GetFlatBitIndexOfElement_array n t i; s \<leftarrow> Slice b index (GetFlatBitCount t); UnflattenBitsToValue s t }"
    have "\<exists>e. ?f i = Some (Inl e)" if i: "i < n" for i
    proof -
      have "(i + 1) * GetFlatBitCount t \<le> n * GetFlatBitCount t" using i by (intro mult_right_mono) simp_all
      then have "i * GetFlatBitCount t + GetFlatBitCount t \<le> ib_bit_count b" using True by simp
      from Slice_wf[OF ArrayType.prems(1) this] obtain s where s: "Slice b (i * GetFlatBitCount t) (GetFlatBitCount t) = Some s" "wf_bitmap s" by blast
      then show ?thesis using i True ArrayType.IH[OF s(2)] ArrayType.prems(2) by (simp add: GetFlatBitIndexOfElement_array_def)
    qed
    then have "\<exists>e. mapS ?f [0..<n] = Some (Inl e)" using True by (intro mapS_total(2)) fastforce+
    then show ?thesis using True by (auto simp: UnflattenBitsToValue.simps[of b])
  next
    case False
    then show ?thesis by (auto simp: UnflattenBitsToValue.simps[of b] Value_Array_def)
  qed
qed (simp_all add: UnflattenBitsToValue.simps)

end
