(* ===== verification/Value_Protos.thy ===== *)
theory Value_Protos
  imports Value_Rules
begin

text \<open>
  The messages of values and the tuples of floats. \<open>FromProto\<close> answers on every message, with an error
  or with a well-formed value whose widths are positive and below the limit, and those are the values
  that survive the round trip: the code refuses vectors of width 0 and of the width of the limit itself.
\<close>

section \<open>Messages\<close>

fun proto_type :: "int \<Rightarrow> Type \<Rightarrow> bool" where
  "proto_type max_bit_size (BitsType n) = (0 < n \<and> int n < max_bit_size)"
| "proto_type max_bit_size (TupleType ts) = list_all (proto_type max_bit_size) ts"
| "proto_type max_bit_size (ArrayType n t) = proto_type max_bit_size t"
| "proto_type max_bit_size TokenType = True"

lemma FromBytes_ToBytes: "wf_bitmap b \<Longrightarrow> FromBytes (ToBytes b) (ib_bit_count b) = Some b"
proof -
  assume wf: "wf_bitmap b"
  let ?n = "ib_bit_count b" and ?v = "bm_val b"
  have b: "mkBitmap ?n ?v = b" using wf by (rule wf_bitmap_val)
  have "ToBytes (mkBitmap ?n ?v) = map (\<lambda>j. word_of_nat (drop_bit (8 * j) (take_bit ?n ?v))) [0..<nbytes ?n]" by (rule ToBytes_mk)
  then have "FromBytes (ToBytes b) ?n = Some (mkBitmap ?n (take_bit ?n ?v))"
    unfolding b by (simp add: FromBytes_mk bytes_val_write)
  then show ?thesis using b by simp
qed

lemma length_ToBytes_wf: "wf_bitmap b \<Longrightarrow> length (ToBytes b) = nbytes (ib_bit_count b)"
  using length_ToBytes[of "ib_bit_count b" "bm_val b"] by (simp add: wf_bitmap_val)

lemma foldS_push_same:
  assumes "list_all2 (\<lambda>e p. has_type e u \<and> FromProto m p = Some (Inr e)) es ps" "\<And>x. x \<in> set acc \<Longrightarrow> has_type x u"
  shows "foldS (\<lambda>p acc. ASSIGN_OR_RETURN (FromProto m p) (\<lambda>e. push_same_type e acc)) ps acc = Some (Inr (acc @ es))"
  using assms
proof (induction es ps arbitrary: acc rule: list_all2_induct)
  case (Cons e es p ps)
  have "push_same_type e acc = Some (Inr (acc @ [e]))"
    using Cons(1) Cons.prems SameTypeAs_typed[of _ u e u] by (auto simp: push_same_type_def split: list.splits)
  moreover have "foldS (\<lambda>p acc. ASSIGN_OR_RETURN (FromProto m p) (\<lambda>e. push_same_type e acc)) ps (acc @ [e]) = Some (Inr ((acc @ [e]) @ es))"
    using Cons(1) Cons.prems by (intro Cons.IH) auto
  ultimately show ?case using Cons(1) by simp
qed simp

lemma proto_round_trip:
  "has_type v t \<Longrightarrow> proto_type m t \<Longrightarrow> \<exists>p. AsProto v = Some (Inr p) \<and> FromProto m p = Some (Inr v)"
proof (induction v t rule: has_type_induct)
  case (Bits b)
  have "nat (CeilOfRatio (int (ib_bit_count b)) 8) = nbytes (ib_bit_count b)" by simp
  then show ?case using Bits FromBytes_ToBytes[of b] length_ToBytes_wf[of b] by (simp add: Let_def)
next
  case (Tuple es ts)
  then have "\<exists>ps. mapS AsProto es = Some (Inr ps) \<and> mapS (FromProto m) ps = Some (Inr es)"
  proof (induction es ts rule: list_all2_induct)
    case (Cons e es t ts)
    obtain p where "AsProto e = Some (Inr p)" "FromProto m p = Some (Inr e)" using Cons(1,4) by auto
    moreover obtain ps where "mapS AsProto es = Some (Inr ps)" "mapS (FromProto m) ps = Some (Inr es)" using Cons(3,4) by auto
    ultimately show ?case by simp
  qed simp
  then show ?case by auto
next
  case (Array es u)
  have "\<exists>ps. mapS AsProto es = Some (Inr ps) \<and> list_all2 (\<lambda>e p. has_type e u \<and> FromProto m p = Some (Inr e)) es ps"
    using Array.IH Array.prems
  proof (induction es)
    case (Cons e es)
    obtain p where "AsProto e = Some (Inr p)" "FromProto m p = Some (Inr e)" "has_type e u" using Cons.prems by auto
    moreover obtain ps where "mapS AsProto es = Some (Inr ps)" "list_all2 (\<lambda>e p. has_type e u \<and> FromProto m p = Some (Inr e)) es ps"
      using Cons by auto
    ultimately show ?case by simp
  qed simp
  then obtain ps where ps: "mapS AsProto es = Some (Inr ps)" "list_all2 (\<lambda>e p. has_type e u \<and> FromProto m p = Some (Inr e)) es ps" by blast
  have "ps \<noteq> []" using Array.hyps list_all2_lengthD[OF ps(2)] by auto
  then show ?case using foldS_push_same[OF ps(2), of "[]"] ps(1) Value_Array_typed(2)[of es u] Array by simp
qed auto

lemma ArrayOwned_total:
  assumes "\<And>x. x \<in> set acc \<Longrightarrow> has_type x t" "acc \<noteq> []"
  shows "ArrayOwned acc = Some (ArrayValue acc) \<and> has_type (ArrayValue acc) (ArrayType (length acc) t)"
  using Value_Array_typed[OF assms(2,1)] by simp

text \<open>The values collected from the elements of an array message have one type.\<close>

lemma push_same_typed:
  assumes "has_type e u" "proto_type m u" "\<forall>x\<in>set acc. has_type x t" "acc \<noteq> [] \<Longrightarrow> proto_type m t"
  shows "\<exists>r. push_same_type e acc = Some r \<and>
    (\<forall>vs. r = Inr vs \<longrightarrow> vs \<noteq> [] \<and> (\<exists>t. (\<forall>x\<in>set vs. has_type x t) \<and> proto_type m t))"
proof (cases acc)
  case Nil
  then show ?thesis using assms(1,2) by (auto simp: push_same_type_def)
next
  case (Cons x xs)
  then have "SameTypeAs x e = Some (t = u)" using assms(1,3) by (simp add: SameTypeAs_typed)
  then show ?thesis using Cons assms by (auto simp: push_same_type_def intro!: exI[of _ t])
qed

lemma foldS_push_typed:
  assumes "\<And>p. p \<in> set ps \<Longrightarrow> \<exists>r. FromProto m p = Some r \<and> (\<forall>v. r = Inr v \<longrightarrow> (\<exists>t. has_type v t \<and> proto_type m t))"
    and "\<exists>t. (\<forall>x\<in>set acc. has_type x t) \<and> (acc \<noteq> [] \<longrightarrow> proto_type m t)"
  shows "\<exists>r. foldS (\<lambda>p acc. ASSIGN_OR_RETURN (FromProto m p) (\<lambda>e. push_same_type e acc)) ps acc = Some r \<and>
    (\<forall>vs. r = Inr vs \<longrightarrow> (vs = [] \<longrightarrow> ps = []) \<and> (\<exists>t. (\<forall>x\<in>set vs. has_type x t) \<and> (vs \<noteq> [] \<longrightarrow> proto_type m t)))"
  using assms
proof (induction ps arbitrary: acc)
  case (Cons p ps)
  let ?F = "\<lambda>p acc. ASSIGN_OR_RETURN (FromProto m p) (\<lambda>e. push_same_type e acc)"
  obtain r where r: "FromProto m p = Some r" "\<And>v. r = Inr v \<Longrightarrow> \<exists>t. has_type v t \<and> proto_type m t" using Cons.prems(1) by fastforce
  show ?case
  proof (cases r)
    case (Inr e)
    obtain u where u: "has_type e u" "proto_type m u" using r(2) Inr by blast
    obtain t0 where t0: "\<forall>x\<in>set acc. has_type x t0" "acc \<noteq> [] \<Longrightarrow> proto_type m t0" using Cons.prems(2) by blast
    obtain q where q: "push_same_type e acc = Some q"
        "\<And>vs. q = Inr vs \<Longrightarrow> vs \<noteq> [] \<and> (\<exists>t. (\<forall>x\<in>set vs. has_type x t) \<and> proto_type m t)"
      using push_same_typed[OF u t0] by blast
    show ?thesis
    proof (cases q)
      case (Inr vs)
      have nil: "foldS ?F [] vs = Some (Inr vs)" by simp
      obtain r' where r': "foldS ?F ps vs = Some r'"
          "\<And>ws. r' = Inr ws \<Longrightarrow> (ws = [] \<longrightarrow> ps = []) \<and> (\<exists>t. (\<forall>x\<in>set ws. has_type x t) \<and> (ws \<noteq> [] \<longrightarrow> proto_type m t))"
        using Cons.IH[of vs] Cons.prems(1) q(2)[OF Inr] by fastforce
      have "ws \<noteq> []" if "r' = Inr ws" for ws
        using r'(2)[OF that] r'(1) nil q(2)[OF Inr] that by (cases ps) auto
      then show ?thesis using r' r(1) \<open>r = Inr e\<close> q(1) Inr by auto
    qed (use r(1) \<open>r = Inr e\<close> q(1) in simp)
  qed (use r(1) in simp)
qed simp

lemma FromProto_total:
  "\<exists>r. FromProto m p = Some r \<and> (\<forall>v. r = Inr v \<longrightarrow> (\<exists>t. has_type v t \<and> proto_type m t))"
proof (induction p)
  case (BitsProto count data)
  show ?case
  proof (cases "0 < count \<and> count < m")
    case True
    let ?k = "nat (CeilOfRatio count 8)"
    have k: "?k = nbytes (nat count)" using CeilOfRatio_words(2)[of "nat count"] True by simp
    have "nbytes (nat count) \<le> length (if ?k = length data then data else resize_bytes data ?k)"
      by (simp add: k resize_bytes_def min_def)
    from FromBytes_mk[OF this] show ?thesis using True by (auto simp: Let_def)
  qed auto
next
  case (TupleProto ps)
  have "\<exists>r. mapS (FromProto m) ps = Some r \<and> (\<forall>vs. r = Inr vs \<longrightarrow> (\<exists>ts. list_all2 has_type vs ts \<and> list_all (proto_type m) ts))"
    using TupleProto
  proof (induction ps)
    case (Cons p ps)
    obtain r where r: "FromProto m p = Some r" "\<And>v. r = Inr v \<Longrightarrow> \<exists>t. has_type v t \<and> proto_type m t" using Cons.prems by fastforce
    obtain q where q: "mapS (FromProto m) ps = Some q" "\<And>vs. q = Inr vs \<Longrightarrow> \<exists>ts. list_all2 has_type vs ts \<and> list_all (proto_type m) ts"
      using Cons by (metis list.set_intros(2))
    show ?case
    proof (cases r)
      case (Inr v)
      show ?thesis
      proof (cases q)
        case (Inr vs)
        obtain t ts where "has_type v t \<and> proto_type m t" "list_all2 has_type vs ts \<and> list_all (proto_type m) ts"
          using r(2)[OF \<open>r = Inr v\<close>] q(2)[OF Inr] by blast
        then have "list_all2 has_type (v # vs) (t # ts) \<and> list_all (proto_type m) (t # ts)" by simp
        then show ?thesis using r(1) q(1) Inr \<open>r = Inr v\<close> by auto
      qed (use r(1) q(1) Inr in simp)
    qed (use r(1) in simp)
  qed simp
  then obtain r where r: "mapS (FromProto m) ps = Some r"
    "\<And>vs. r = Inr vs \<Longrightarrow> \<exists>ts. list_all2 has_type vs ts \<and> list_all (proto_type m) ts" by blast
  show ?case
  proof (cases r)
    case (Inr vs)
    then obtain ts where "list_all2 has_type vs ts" "list_all (proto_type m) ts" using r(2) by blast
    then show ?thesis using r(1) Inr by (auto intro!: exI[of _ "TupleType ts"])
  qed (use r in simp)
next
  case (ArrayProto ps)
  show ?case
  proof (cases "ps = []")
    case False
    obtain r where r: "foldS (\<lambda>p acc. ASSIGN_OR_RETURN (FromProto m p) (\<lambda>e. push_same_type e acc)) ps [] = Some r"
      "\<And>vs. r = Inr vs \<Longrightarrow> (vs = [] \<longrightarrow> ps = []) \<and> (\<exists>t. (\<forall>x\<in>set vs. has_type x t) \<and> (vs \<noteq> [] \<longrightarrow> proto_type m t))"
      using foldS_push_typed[of ps m "[]"] ArrayProto by fastforce
    show ?thesis
    proof (cases r)
      case (Inr vs)
      obtain t where "vs \<noteq> []" "\<And>x. x \<in> set vs \<Longrightarrow> has_type x t" "proto_type m t" using r(2)[OF Inr] False by blast
      then show ?thesis using ArrayOwned_total[of vs t] r(1) Inr False
        by (auto intro!: exI[of _ "ArrayType (length vs) t"])
    qed (use r False in simp)
  qed simp
qed auto

section \<open>Floats\<close>

lemma f32_field_typed:
  assumes "i < length es" "es ! i = BitsValue (mkBitmap w v)" "w \<le> 32"
  shows "f32_field (TupleValue es) i w = Some (Inr (word_of_nat (take_bit w v)))"
proof -
  have "take_bit w v < 2 ^ 64" using assms(3) by (intro take_bit_lt_word) simp
  then show ?thesis using assms ToUint64_mk[of w v]
    by (simp add: f32_field_def element_def Value_bits_def unsigned_of_nat min_def)
qed

lemma F32ToTuple_eq:
  "F32ToTuple x = Some (TupleValue [BitsValue (mkBitmap 1 (drop_bit 31 (unat x))), BitsValue (mkBitmap 8 (drop_bit 23 (unat x))),
     BitsValue (mkBitmap 23 (unat x))])"
proof -
  have "drop_bit 31 x = of_bool (bit x 31)"
  proof (rule bit_word_eqI)
    fix n
    have "\<not> bit x (31 + n)" if "n \<noteq> 0" using that bit_imp_le_length[of x "31 + n"] by auto
    then show "bit (drop_bit 31 x) n = bit (of_bool (bit x 31) :: 32 word) n"
      by (cases "n = 0") (simp_all add: bit_drop_bit_eq bit_of_bool_iff)
  qed
  then have s: "(drop_bit 31 x \<noteq> 0) = bit x 31" by simp
  have "FromBytes [of_bool (drop_bit 31 x \<noteq> 0)] 1 = Some (mkBitmap 1 (drop_bit 31 (unat x)))"
  proof -
    have "take_bit 1 (drop_bit 31 (unat x)) = of_bool (bit (unat x) 31)"
      by (simp add: bit_iff_odd_drop_bit mod_2_eq_odd)
    then show ?thesis by (simp add: FromBytes_mk mkBitmap_eq_iff s bit_unsigned_iff)
  qed
  moreover have "FromBytes [ucast (drop_bit 23 x)] 8 = Some (mkBitmap 8 (drop_bit 23 (unat x)))"
  proof -
    have "take_bit 8 (unat (ucast (drop_bit 23 x) :: 8 word)) = take_bit 8 (drop_bit 23 (unat x))"
      by (rule bit_eqI) (auto simp: bit_simps)
    then show ?thesis by (simp add: FromBytes_mk mkBitmap_eq_iff)
  qed
  moreover have "UBits (ucast (ucast ((ucast x :: 64 word) AND Mask 23) :: 32 word)) 23 = Some (mkBitmap 23 (unat x))"
  proof -
    have f: "unat (ucast (ucast ((ucast x :: 64 word) AND Mask 23) :: 32 word) :: 64 word) = take_bit 23 (unat x)"
      by (rule bit_eqI) (auto simp: bit_simps Mask_eq_mask)
    show ?thesis using take_bit_nat_less_exp[of 23 "unat x"] by (subst UBits_mk) (simp_all add: f mkBitmap_eq_iff)
  qed
  ultimately show ?thesis by (simp add: F32ToTuple_def Let_def)
qed

lemma f32_round_trip: "\<exists>v. F32ToTuple x = Some v \<and> TupleToF32 v = Some (Inr x)"
proof -
  let ?w = "word_of_nat :: nat \<Rightarrow> 32 word"
  let ?s = "drop_bit 31 (unat x)" and ?e = "drop_bit 23 (unat x)" and ?f = "unat x"
  let ?v = "TupleValue [BitsValue (mkBitmap 1 ?s), BitsValue (mkBitmap 8 ?e), BitsValue (mkBitmap 23 ?f)]"
  have fields: "f32_field ?v 0 1 = Some (Inr (word_of_nat (take_bit 1 ?s)))" "f32_field ?v 1 8 = Some (Inr (word_of_nat (take_bit 8 ?e)))"
      "f32_field ?v 2 23 = Some (Inr (word_of_nat (take_bit 23 ?f)))"
    by (rule f32_field_typed; simp)+
  have m: "(ucast (word_of_nat (take_bit w y) :: 32 word) :: 64 word) = ucast (word_of_nat (take_bit w y) :: 32 word) AND Mask w"
    if "w \<le> 64" for w and y :: nat
    using that by (intro bit_word_eqI) (auto simp: bit_simps)
  have "push_bit 31 (?w (take_bit 1 ?s)) OR push_bit 23 (?w (take_bit 8 ?e)) OR ?w (take_bit 23 ?f) = x"
  proof (rule bit_word_eqI)
    fix n assume "n < LENGTH(32)"
    then consider "n < 23" | "23 \<le> n" "n < 31" | "n = 31" by fastforce
    then show "bit (push_bit 31 (?w (take_bit 1 ?s)) OR push_bit 23 (?w (take_bit 8 ?e)) OR ?w (take_bit 23 ?f)) n = bit x n"
      by cases (auto simp: bit_simps simp del: One_nat_def take_bit_of_nat)
  qed
  then have "TupleToF32 ?v = Some (Inr x)"
    using m[of 1 ?s] m[of 8 ?e] m[of 23 ?f] by (simp add: TupleToF32_def Value_size_def fields del: One_nat_def take_bit_of_nat)
  then show ?thesis using F32ToTuple_eq by blast
qed

end
