(* ===== verification/Value_Theorems.thy ===== *)
theory Value_Theorems
  imports Value_Serial Value_Protos
begin

text \<open>The properties of values: their types, and their three serial forms.\<close>

text \<open>C19. On well-formed values the comparisons of the code agree with the typing judgment, although
  they look only at the first element of an array: SameTypeAs and ValueConformsToType decide equality
  of types, GetFlatBitCount and TypeAsProto give the width and the message of the type, and operator==
  decides equality.\<close>

theorem value_types_agree:
  assumes "has_type v t" "has_type w u"
  shows "SameTypeAs v w = Some (t = u) \<and> ValueConformsToType v u = Some (t = u) \<and>
    Value_GetFlatBitCount v = Some (GetFlatBitCount t) \<and> TypeAsProto v = Some (Inr (Type_ToProto t)) \<and>
    Value_eq v w = Some (v = w)"
  using assms SameTypeAs_typed ValueConformsToType_typed Value_GetFlatBitCount_typed TypeAsProto_typed Value_eq_typed(1)
  by blast

theorem value_types_agree_witness:
  "SameTypeAs (ArrayValue [TokenValue]) (ArrayValue [BitsValue (mkBitmap 3 5)]) =
     Some (ArrayType 1 TokenType = ArrayType 1 (BitsType 3))"
  by (rule value_types_agree[THEN conjunct1]) simp_all

text \<open>C35. The bit buffer round trip: a value flattened with FlattenTo and read back with PopulateFrom
  into any value of the same type is that value, and the buffer has exactly the bits of the type.\<close>

theorem value_flatten_roundtrip:
  assumes "has_type v t" "has_type w t"
  shows "\<exists>buf bm view. Value_FlattenTo v [] = Some buf \<and> length buf = GetFlatBitCount t \<and> ToBitmap buf = Some bm \<and>
    BitmapView bm None None = Some view \<and> PopulateFrom w view = Some (Inr v)"
proof (intro exI conjI)
  show "Value_FlattenTo v [] = Some (flat v)" using Value_FlattenTo_typed[OF assms(1)] by simp
  show "length (flat v) = GetFlatBitCount t" by (rule length_flat[OF assms(1)])
  show "ToBitmap (flat v) = Some (mk_bl (flat v))" by (rule ToBitmap_bl)
  show "BitmapView (mk_bl (flat v)) None None = Some \<lparr>view_bitmap = mk_bl (flat v), start_bit = 0, view_bit_count = length (flat v)\<rparr>"
    by (simp add: BitmapView_def)
  show "PopulateFrom w \<lparr>view_bitmap = mk_bl (flat v), start_bit = 0, view_bit_count = length (flat v)\<rparr> = Some (Inr v)"
    using PopulateFrom_typed[OF assms(2,1), of "[]" "[]"] by simp
qed

theorem value_flatten_roundtrip_witness:
  "\<exists>buf bm view. Value_FlattenTo (TupleValue [BitsValue (mkBitmap 3 5), TokenValue]) [] = Some buf \<and>
    length buf = GetFlatBitCount (TupleType [BitsType 3, TokenType]) \<and> ToBitmap buf = Some bm \<and>
    BitmapView bm None None = Some view \<and>
    PopulateFrom (TupleValue [BitsValue (mkBitmap 3 0), TokenValue]) view = Some (Inr (TupleValue [BitsValue (mkBitmap 3 5), TokenValue]))"
  by (rule value_flatten_roundtrip) simp_all

text \<open>C7. Unflattening a bit vector never aborts, and it returns a value exactly when the value has the
  type, the type has no token, and flattening the value gives the vector: the two functions are inverse
  to each other, and everything else is an error.\<close>

theorem value_unflatten_inverse:
  assumes "wf_bitmap b"
  shows "(\<exists>r. UnflattenBitsToValue b t = Some r) \<and>
    (UnflattenBitsToValue b t = Some (Inr v) \<longleftrightarrow> has_type v t \<and> \<not> TypeHasToken t \<and> FlattenValueToBits v = Some b)"
proof -
  have inv: "UnflattenBitsToValue b t = Some (Inr w)" if "has_type w t" "\<not> TypeHasToken t" "FlattenValueToBits w = Some b" for w
    using Unflatten_typed[OF that(1,2)] FlattenValueToBits_typed[OF that(1,2)] that(3) by simp
  consider "\<not> (inhabited t \<and> \<not> TypeHasToken t)" | "ib_bit_count b \<noteq> GetFlatBitCount t"
    | "inhabited t" "\<not> TypeHasToken t" "ib_bit_count b = GetFlatBitCount t" by blast
  then show ?thesis
  proof cases
    case 1
    then show ?thesis using Unflatten_error[OF assms 1] has_type_inhabited by fastforce
  next
    case 2
    then have "UnflattenBitsToValue b t = Some (Inl InvalidArgument)" by (simp add: UnflattenBitsToValue.simps)
    then show ?thesis using inv by auto
  next
    case 3
    then obtain w where w: "has_type w t" "flat_lsb w = bl b" using flat_lsb_surj[OF 3(1,2), of "bl b"] by auto
    have "FlattenValueToBits w = Some b" using FlattenValueToBits_typed[OF w(1) 3(2)] w(2) assms by simp
    then have u: "UnflattenBitsToValue b t = Some (Inr w)" using inv w(1) 3(2) by blast
    show ?thesis
    proof (intro conjI iffI)
      assume "UnflattenBitsToValue b t = Some (Inr v)"
      then have "v = w" using u by simp
      then show "has_type v t" "\<not> TypeHasToken t" "FlattenValueToBits v = Some b"
        using w(1) 3(2) \<open>FlattenValueToBits w = Some b\<close> by simp_all
    qed (use u inv in blast)+
  qed
qed

theorem value_unflatten_inverse_witness:
  "\<exists>b. wf_bitmap b \<and> (\<exists>r. UnflattenBitsToValue b (ArrayType 2 (BitsType 2)) = Some r)"
  by (intro exI[of _ "mkBitmap 4 6"] conjI value_unflatten_inverse[THEN conjunct1]) simp_all

text \<open>C36. FromProto answers on every message, with an error or with a well-formed value whose widths are
  positive and below the limit, and every such value survives the round trip through AsProto.\<close>

theorem value_proto_roundtrip:
  "(\<exists>r. FromProto limit p = Some r \<and> (\<forall>w. r = Inr w \<longrightarrow> (\<exists>u. has_type w u \<and> proto_type limit u))) \<and>
   (has_type v t \<and> proto_type limit t \<longrightarrow> (\<exists>q. AsProto v = Some (Inr q) \<and> FromProto limit q = Some (Inr v)))"
  using FromProto_total proto_round_trip by blast

theorem value_proto_roundtrip_witness:
  "\<exists>p. AsProto (ArrayValue [BitsValue (mkBitmap 9 300)]) = Some (Inr p) \<and>
    FromProto 64 p = Some (Inr (ArrayValue [BitsValue (mkBitmap 9 300)]))"
  by (rule value_proto_roundtrip[of _ _ _ "ArrayType 1 (BitsType 9)", THEN conjunct2, THEN mp]) simp

text \<open>A float survives the conversion to its tuple and back.\<close>

lemma float_tuple_roundtrip: "\<exists>v. F32ToTuple x = Some v \<and> TupleToF32 v = Some (Inr x)"
  by (rule f32_round_trip)

end
