(* ===== verification/Type_Manager.thy ===== *)
theory Type_Manager
  imports Value_Rules
begin

text \<open>
  \<^verbatim>\<open>xls/ir/type_manager.h\<close> and \<^verbatim>\<open>type_manager.cc\<close>: the arena that owns the types of a package and hands out
  one pointer per type. Types refer to each other by pointer here, so the theory has a heap of type
  objects: a pointer is an address, an object is allocated at the next free one, and several managers
  may allocate in the same heap. \<open>type_at\<close> reads the type a pointer stands for. The recursion of
  \<open>MapTypeFromOtherArena\<close> goes from an object to the objects it was built from, which were allocated
  before it; the guard that says so is what makes the definition total, and it always holds in a
  well-formed heap.
\<close>

section \<open>Type objects\<close>

type_synonym ptr = nat

datatype type_obj = BitsObj nat | ArrayObj nat ptr | TupleObj "ptr list" | TokenObj

record type_heap =
  type_objs :: "type_obj list"
  function_objs :: "(ptr list \<times> ptr) list"

definition alloc_type :: "type_heap \<Rightarrow> type_obj \<Rightarrow> ptr \<times> type_heap" where
  "alloc_type h obj = (length (type_objs h), h\<lparr>type_objs := type_objs h @ [obj]\<rparr>)"

definition alloc_function :: "type_heap \<Rightarrow> ptr list \<times> ptr \<Rightarrow> ptr \<times> type_heap" where
  "alloc_function h obj = (length (function_objs h), h\<lparr>function_objs := function_objs h @ [obj]\<rparr>)"

text \<open>The type behind a pointer: the members of an object lie below it.\<close>

function type_at :: "type_obj list \<Rightarrow> ptr \<Rightarrow> Type" where
  "type_at objs p =
     (case objs ! p of
        BitsObj n \<Rightarrow> BitsType n
      | ArrayObj n q \<Rightarrow> ArrayType n (if q < p then type_at objs q else TokenType)
      | TupleObj qs \<Rightarrow> TupleType (map (\<lambda>q. if q < p then type_at objs q else TokenType) qs)
      | TokenObj \<Rightarrow> TokenType)"
  by pat_completeness auto
termination
  by (relation "measure snd") auto

declare type_at.simps [simp del]

section \<open>The manager\<close>

record TypeManager =
  owned_types :: "ptr set"
  owned_function_types :: "ptr set"
  bit_count_to_type :: "nat \<rightharpoonup> ptr"
  array_types :: "nat \<times> ptr \<rightharpoonup> ptr"
  tuple_types :: "ptr list \<rightharpoonup> ptr"
  token_type :: ptr
  function_types :: "string \<rightharpoonup> ptr"

type_synonym 'a tm_result = "'a \<times> type_heap \<times> TypeManager"

definition new_TypeManager :: "type_heap \<Rightarrow> type_heap \<times> TypeManager" where
  "new_TypeManager h =
     (let (p, h) = alloc_type h TokenObj
      in (h, \<lparr>owned_types = {p}, owned_function_types = {}, bit_count_to_type = Map.empty, array_types = Map.empty,
              tuple_types = Map.empty, token_type = p, function_types = Map.empty\<rparr>))"

definition IsOwnedType :: "TypeManager \<Rightarrow> ptr \<Rightarrow> bool" where
  "IsOwnedType m p = (p \<in> owned_types m)"

definition IsOwnedFunctionType :: "TypeManager \<Rightarrow> ptr \<Rightarrow> bool" where
  "IsOwnedFunctionType m p = (p \<in> owned_function_types m)"

definition GetBitsType :: "nat \<Rightarrow> type_heap \<Rightarrow> TypeManager \<Rightarrow> ptr tm_result" where
  "GetBitsType count h m =
     (case bit_count_to_type m count of
        Some p \<Rightarrow> (p, h, m)
      | None \<Rightarrow>
          let (p, h) = alloc_type h (BitsObj count)
          in (p, h, m\<lparr>bit_count_to_type := (bit_count_to_type m)(count \<mapsto> p), owned_types := insert p (owned_types m)\<rparr>))"

definition GetArrayType :: "nat \<Rightarrow> ptr \<Rightarrow> type_heap \<Rightarrow> TypeManager \<Rightarrow> ptr tm_result option" where
  "GetArrayType n element_type h m =
     (case array_types m (n, element_type) of
        Some p \<Rightarrow> Some (p, h, m)
      | None \<Rightarrow> do {
          CHECK (IsOwnedType m element_type);
          let (p, h) = alloc_type h (ArrayObj n element_type);
          Some (p, h, m\<lparr>array_types := (array_types m)((n, element_type) \<mapsto> p), owned_types := insert p (owned_types m)\<rparr>) })"

definition GetTupleType :: "ptr list \<Rightarrow> type_heap \<Rightarrow> TypeManager \<Rightarrow> ptr tm_result option" where
  "GetTupleType element_types h m =
     (case tuple_types m element_types of
        Some p \<Rightarrow> Some (p, h, m)
      | None \<Rightarrow> do {
          mapM (\<lambda>q. CHECK (IsOwnedType m q)) element_types;
          let (p, h) = alloc_type h (TupleObj element_types);
          Some (p, h, m\<lparr>tuple_types := (tuple_types m)(element_types \<mapsto> p), owned_types := insert p (owned_types m)\<rparr>) })"

definition GetTokenType :: "TypeManager \<Rightarrow> ptr" where
  "GetTokenType m = token_type m"

definition function_type_at :: "type_heap \<Rightarrow> ptr list \<times> ptr \<Rightarrow> FunctionType" where
  "function_type_at h = (\<lambda>(args, ret). \<lparr>parameters = map (type_at (type_objs h)) args, return_type = type_at (type_objs h) ret\<rparr>)"

definition GetFunctionType :: "ptr list \<Rightarrow> ptr \<Rightarrow> type_heap \<Rightarrow> TypeManager \<Rightarrow> ptr tm_result option" where
  "GetFunctionType args_types ret h m = do {
     let key = FunctionType_ToString (function_type_at h (args_types, ret));
     case function_types m key of
       Some p \<Rightarrow> Some (p, h, m)
     | None \<Rightarrow> do {
         mapM (\<lambda>t. CHECK (IsOwnedType m t)) args_types;
         let (p, h) = alloc_function h (args_types, ret);
         Some (p, h, m\<lparr>function_types := (function_types m)(key \<mapsto> p),
                       owned_function_types := insert p (owned_function_types m)\<rparr>) } }"

section \<open>Types from elsewhere\<close>

text \<open>The loops over members thread the arena and collect the pointers.\<close>

definition collect_step ::
    "('a \<Rightarrow> type_heap \<Rightarrow> TypeManager \<Rightarrow> ptr tm_result status_or option) \<Rightarrow> 'a \<Rightarrow> ptr list tm_result \<Rightarrow> ptr list tm_result status_or option" where
  "collect_step f x = (\<lambda>(ps, h, m). ASSIGN_OR_RETURN (f x h m) (\<lambda>(p, h, m). Some (Inr (ps @ [p], h, m))))"

definition collect ::
    "('a \<Rightarrow> type_heap \<Rightarrow> TypeManager \<Rightarrow> ptr tm_result status_or option) \<Rightarrow> 'a list \<Rightarrow> type_heap \<Rightarrow> TypeManager \<Rightarrow> ptr list tm_result status_or option" where
  "collect f xs h m = foldS (collect_step f) xs ([], h, m)"

lemma collect_cong [fundef_cong]:
  assumes "xs = ys" "h = h'" "m = m'" "\<And>x h m. x \<in> set ys \<Longrightarrow> f x h m = g x h m"
  shows "collect f xs h m = collect g ys h' m'"
  unfolding collect_def using assms by (intro foldS_cong) (auto simp: collect_step_def)

definition ok :: "'a option \<Rightarrow> 'a status_or option" where
  "ok r = map_option Inr r"

function MapTypeFromOtherArena :: "ptr \<Rightarrow> type_heap \<Rightarrow> TypeManager \<Rightarrow> ptr tm_result status_or option" where
  "MapTypeFromOtherArena other h m =
     (if IsOwnedType m other then Some (Inr (other, h, m))
      else case type_objs h ! other of
        BitsObj n \<Rightarrow> Some (Inr (GetBitsType n h m))
      | ArrayObj n q \<Rightarrow>
          ASSIGN_OR_RETURN (if q < other then MapTypeFromOtherArena q h m else None)
            (\<lambda>(elem_type, h, m). ok (GetArrayType n elem_type h m))
      | TupleObj qs \<Rightarrow>
          ASSIGN_OR_RETURN (collect (\<lambda>q h m. if q < other then MapTypeFromOtherArena q h m else None) qs h m)
            (\<lambda>(member_types, h, m). ok (GetTupleType member_types h m))
      | TokenObj \<Rightarrow> Some (Inr (GetTokenType m, h, m)))"
  by pat_completeness auto
termination
  by (relation "measure fst") auto

declare MapTypeFromOtherArena.simps [simp del]

fun GetTypeFromProto :: "TypeProto \<Rightarrow> type_heap \<Rightarrow> TypeManager \<Rightarrow> ptr tm_result status_or option" where
  "GetTypeFromProto (TypeProto enum count members len element_proto) h m =
     (case enum of
        None \<Rightarrow> Some (Inl InvalidArgument)
      | Some BITS \<Rightarrow>
          (case count of
             None \<Rightarrow> Some (Inl InvalidArgument)
           | Some n \<Rightarrow> if n < 0 then Some (Inl InvalidArgument) else Some (Inr (GetBitsType (nat n) h m)))
      | Some TUPLE \<Rightarrow>
          ASSIGN_OR_RETURN (collect GetTypeFromProto members h m)
            (\<lambda>(elements, h, m). ok (GetTupleType elements h m))
      | Some ARRAY \<Rightarrow>
          (case len of
             None \<Rightarrow> Some (Inl InvalidArgument)
           | Some n \<Rightarrow>
               if n < 0 then Some (Inl InvalidArgument)
               else case element_proto of
                 None \<Rightarrow> Some (Inl InvalidArgument)
               | Some p \<Rightarrow>
                   ASSIGN_OR_RETURN (GetTypeFromProto p h m)
                     (\<lambda>(element_type, h, m). ok (GetArrayType (nat n) element_type h m)))
      | Some TOKEN \<Rightarrow> Some (Inr (GetTokenType m, h, m))
      | Some INVALID \<Rightarrow> Some (Inl InvalidArgument))"

definition GetFunctionTypeFromProto :: "FunctionTypeProto \<Rightarrow> type_heap \<Rightarrow> TypeManager \<Rightarrow> ptr tm_result status_or option" where
  "GetFunctionTypeFromProto proto h m =
     ASSIGN_OR_RETURN (collect GetTypeFromProto (ftp_parameters proto) h m) (\<lambda>(param_types, h, m).
       case ftp_return_type proto of
         None \<Rightarrow> Some (Inl InvalidArgument)
       | Some ret_proto \<Rightarrow>
           ASSIGN_OR_RETURN (GetTypeFromProto ret_proto h m)
             (\<lambda>(ret, h, m). ok (GetFunctionType param_types ret h m)))"

fun GetTypeForValue :: "Value \<Rightarrow> type_heap \<Rightarrow> TypeManager \<Rightarrow> ptr tm_result option" where
  "GetTypeForValue (BitsValue b) h m = Some (GetBitsType (ib_bit_count b) h m)"
| "GetTypeForValue (TupleValue es) h m = do {
     (element_types, h, m) \<leftarrow>
       foldM (\<lambda>e (ps, h, m). do { (p, h, m) \<leftarrow> GetTypeForValue e h m; Some (ps @ [p], h, m) }) es ([], h, m);
     GetTupleType element_types h m }"
| "GetTypeForValue (ArrayValue []) h m = None"
| "GetTypeForValue (ArrayValue (e # es)) h m = do {
     (p, h, m) \<leftarrow> GetTypeForValue e h m;
     GetArrayType (length (e # es)) p h m }"
| "GetTypeForValue TokenValue h m = Some (GetTokenType m, h, m)"
| "GetTypeForValue InvalidValue h m = None"

text \<open>\<^verbatim>\<open>UnflattenBitsToValue\<close> on a type message: the package it makes is a fresh manager.\<close>

definition UnflattenBitsToValue_proto :: "bits \<Rightarrow> TypeProto \<Rightarrow> Value status_or option" where
  "UnflattenBitsToValue_proto b type_proto =
     (let (h, m) = new_TypeManager \<lparr>type_objs = [], function_objs = []\<rparr>
      in ASSIGN_OR_RETURN (GetTypeFromProto type_proto h m)
           (\<lambda>(t, h, m). UnflattenBitsToValue b (type_at (type_objs h) t)))"

end
