(* ===== verification/Type_Manager_Rules.thy ===== *)
theory Type_Manager_Rules
  imports Type_Manager
begin

text \<open>
  The invariant of the type manager: the maps hold exactly the owned objects, one per structure, and
  owned objects are built from owned objects. It makes the pointers canonical, two owned pointers
  being equal when their types are, so that the compiler may compare types by address. The interface
  is the locale \<open>type_source\<close>: whatever gives the arena types, a message, a value or another arena,
  with the types it means. Its lemmas are about any such source.
\<close>

section \<open>The invariant\<close>

fun obj_refs :: "type_obj \<Rightarrow> ptr list" where
  "obj_refs (ArrayObj n q) = [q]"
| "obj_refs (TupleObj qs) = qs"
| "obj_refs _ = []"

definition heap_ok :: "type_obj list \<Rightarrow> bool" where
  "heap_ok objs \<longleftrightarrow> (\<forall>p<length objs. \<forall>q\<in>set (obj_refs (objs ! p)). q < p)"

fun interned :: "TypeManager \<Rightarrow> type_obj \<Rightarrow> ptr option" where
  "interned m (BitsObj n) = bit_count_to_type m n"
| "interned m (ArrayObj n q) = array_types m (n, q)"
| "interned m (TupleObj qs) = tuple_types m qs"
| "interned m TokenObj = Some (token_type m)"

definition arena_ok :: "type_heap \<Rightarrow> TypeManager \<Rightarrow> bool" where
  "arena_ok h m \<longleftrightarrow> heap_ok (type_objs h) \<and>
     (\<forall>p\<in>owned_types m. p < length (type_objs h) \<and> set (obj_refs (type_objs h ! p)) \<subseteq> owned_types m) \<and>
     (\<forall>obj p. interned m obj = Some p \<longleftrightarrow> p \<in> owned_types m \<and> type_objs h ! p = obj)"

text \<open>What later calls keep: the objects stay where they are, new ones lie above them.\<close>

definition extends :: "type_heap \<Rightarrow> TypeManager \<Rightarrow> type_heap \<Rightarrow> TypeManager \<Rightarrow> bool" where
  "extends h m h' m' \<longleftrightarrow> (\<exists>xs. type_objs h' = type_objs h @ xs) \<and> owned_types m \<subseteq> owned_types m' \<and>
     (\<forall>p\<in>owned_types m' - owned_types m. length (type_objs h) \<le> p) \<and> heap_ok (type_objs h') \<and>
     function_objs h' = function_objs h \<and> function_types m' = function_types m \<and>
     owned_function_types m' = owned_function_types m"

lemma arena_extends_refl: "arena_ok h m \<Longrightarrow> extends h m h m"
  by (auto simp: extends_def arena_ok_def)

lemma arena_extends_trans: "extends h m h' m' \<Longrightarrow> extends h' m' h'' m'' \<Longrightarrow> extends h m h'' m''"
proof -
  assume a: "extends h m h' m'" "extends h' m' h'' m''"
  then obtain xs ys where xs: "type_objs h' = type_objs h @ xs" "type_objs h'' = type_objs h' @ ys" by (auto simp: extends_def)
  have "length (type_objs h) \<le> p" if "p \<in> owned_types m'' - owned_types m" for p
  proof (cases "p \<in> owned_types m'")
    case True
    then show ?thesis using a(1) that by (simp add: extends_def)
  next
    case False
    then have "length (type_objs h') \<le> p" using a(2) that by (simp add: extends_def)
    then show ?thesis using xs(1) by simp
  qed
  then show ?thesis using a xs by (auto simp: extends_def)
qed

lemma arena_ok_interned: "arena_ok h m \<Longrightarrow> interned m obj = Some p \<longleftrightarrow> p \<in> owned_types m \<and> type_objs h ! p = obj"
  by (simp add: arena_ok_def)

lemma type_at_append:
  "heap_ok objs \<Longrightarrow> p < length objs \<Longrightarrow> type_at (objs @ xs) p = type_at objs p"
proof (induction p rule: less_induct)
  case (less p)
  have sub: "q < p" "type_at (objs @ xs) q = type_at objs q" if "q \<in> set (obj_refs (objs ! p))" for q
  proof -
    show "q < p" using less.prems that by (auto simp: heap_ok_def)
    then show "type_at (objs @ xs) q = type_at objs q" using less.IH[of q] less.prems by simp
  qed
  have nth: "(objs @ xs) ! p = objs ! p" using less.prems by (simp add: nth_append)
  show ?case unfolding type_at.simps[of _ p] nth using sub by (auto split: type_obj.splits)
qed

lemma type_at_extends:
  "extends h m h' m' \<Longrightarrow> heap_ok (type_objs h) \<Longrightarrow> p < length (type_objs h) \<Longrightarrow> type_at (type_objs h') p = type_at (type_objs h) p"
  by (auto simp: extends_def type_at_append)

lemma type_at_obj:
  assumes "heap_ok objs" "p < length objs"
  shows "type_at objs p = (case objs ! p of BitsObj n \<Rightarrow> BitsType n | ArrayObj n q \<Rightarrow> ArrayType n (type_at objs q)
    | TupleObj qs \<Rightarrow> TupleType (map (type_at objs) qs) | TokenObj \<Rightarrow> TokenType)"
proof -
  have "q < p" if "q \<in> set (obj_refs (objs ! p))" for q using assms that by (auto simp: heap_ok_def)
  then show ?thesis unfolding type_at.simps[of objs p] by (auto split: type_obj.splits)
qed

text \<open>Owned pointers are canonical.\<close>

lemma owned_ptr_eq:
  assumes "arena_ok h m" "p \<in> owned_types m" "q \<in> owned_types m" "type_at (type_objs h) p = type_at (type_objs h) q"
  shows "p = q"
  using assms(2-)
proof (induction p arbitrary: q rule: less_induct)
  case (less p)
  let ?o = "type_objs h"
  have ok: "heap_ok ?o" "p < length ?o" "q < length ?o" "set (obj_refs (?o ! p)) \<subseteq> owned_types m" "set (obj_refs (?o ! q)) \<subseteq> owned_types m"
    using assms(1) less.prems by (auto simp: arena_ok_def)
  have below: "r < p" if "r \<in> set (obj_refs (?o ! p))" for r using ok(1,2) that by (auto simp: heap_ok_def)
  note ty = less.prems(3)[unfolded type_at_obj[OF ok(1,2)] type_at_obj[OF ok(1,3)]]
  have ih: "r = s" if "r \<in> set (obj_refs (?o ! p))" "s \<in> set (obj_refs (?o ! q))" "type_at ?o r = type_at ?o s" for r s
    using less.IH[OF below] that ok(4,5) by blast
  have "?o ! p = ?o ! q"
  proof (cases "?o ! p")
    case (TupleObj rs)
    then obtain ss where ss: "?o ! q = TupleObj ss" "map (type_at ?o) rs = map (type_at ?o) ss" using ty by (auto split: type_obj.splits)
    have "rs = ss"
      using ss(2) ih TupleObj ss(1) by (intro nth_equalityI) (auto simp: list_eq_iff_nth_eq)
    then show ?thesis using TupleObj ss by simp
  next
    case (ArrayObj n r)
    then obtain s where "?o ! q = ArrayObj n s" "type_at ?o r = type_at ?o s" using ty by (auto split: type_obj.splits)
    then show ?thesis using ih ArrayObj by simp
  qed (use ty in \<open>auto split: type_obj.splits\<close>)
  moreover have "interned m (?o ! p) = Some p" "interned m (?o ! q) = Some q"
    by (simp_all only: arena_ok_interned[OF assms(1)] less.prems(1,2))
  ultimately show ?case by (metis option.inject)
qed

section \<open>The getters\<close>

definition gives :: "Type \<Rightarrow> type_heap \<Rightarrow> TypeManager \<Rightarrow> ptr tm_result \<Rightarrow> bool" where
  "gives t h m r \<longleftrightarrow> (case r of (p, h', m') \<Rightarrow>
     arena_ok h' m' \<and> extends h m h' m' \<and> p \<in> owned_types m' \<and> type_at (type_objs h') p = t)"

text \<open>A new object enters the heap, the owned set and the map of its kind.\<close>

lemma alloc_ok:
  assumes "arena_ok h m" "interned m obj = None" "set (obj_refs obj) \<subseteq> owned_types m"
    and "type_objs h' = type_objs h @ [obj]" "owned_types m' = insert (length (type_objs h)) (owned_types m)"
    and "\<And>x. interned m' x = (if x = obj then Some (length (type_objs h)) else interned m x)"
  shows "arena_ok h' m'" "heap_ok (type_objs h')"
proof -
  let ?o = "type_objs h" and ?n = "length (type_objs h)"
  have own: "p < ?n" "set (obj_refs (?o ! p)) \<subseteq> owned_types m" if "p \<in> owned_types m" for p using assms(1) that by (auto simp: arena_ok_def)
  have inter: "interned m x = Some p \<longleftrightarrow> p \<in> owned_types m \<and> ?o ! p = x" for x p using arena_ok_interned[OF assms(1)] .
  have nth: "type_objs h' ! p = (if p < ?n then ?o ! p else obj)" if "p \<le> ?n" for p using that by (simp add: assms(4) nth_append)
  show hp: "heap_ok (type_objs h')"
    using assms(1,3) own(1) by (auto simp: heap_ok_def arena_ok_def assms(4) nth_append less_Suc_eq)
  have "interned m' x = Some p \<longleftrightarrow> p \<in> owned_types m' \<and> type_objs h' ! p = x" for x p
  proof (cases "p = ?n")
    case True
    then show ?thesis using inter[of x ?n] own(1)[of ?n] by (auto simp: assms(5,6) nth)
  next
    case False
    then have "p \<in> owned_types m' \<longleftrightarrow> p \<in> owned_types m" by (simp add: assms(5))
    moreover have "\<not> (p \<in> owned_types m \<and> ?o ! p = obj)" using inter[of obj p] assms(2) by simp
    ultimately show ?thesis using False inter[of x p] own(1)[of p] by (auto simp: assms(6) nth)
  qed
  moreover have "p < length (type_objs h') \<and> set (obj_refs (type_objs h' ! p)) \<subseteq> owned_types m'" if "p \<in> owned_types m'" for p
    using that own[of p] assms(3) by (auto simp: assms(4,5) nth_append)
  ultimately show "arena_ok h' m'" using hp unfolding arena_ok_def by blast
qed

lemma gives_existing:
  assumes "arena_ok h m" "interned m obj = Some p"
  shows "gives (type_at (type_objs h) p) h m (p, h, m)" "p \<in> owned_types m" "type_objs h ! p = obj" "p < length (type_objs h)"
proof -
  show "p \<in> owned_types m" "type_objs h ! p = obj" using arena_ok_interned[OF assms(1)] assms(2) by blast+
  then show "p < length (type_objs h)" "gives (type_at (type_objs h) p) h m (p, h, m)"
    using assms(1) by (auto simp: gives_def arena_extends_refl arena_ok_def)
qed

text \<open>The three getters are one: look the object up, or allocate it.\<close>

lemma intern_gives:
  assumes ok: "arena_ok h m" and refs: "set (obj_refs obj) \<subseteq> owned_types m"
    and r: "r = (case interned m obj of Some p \<Rightarrow> (p, h, m) | None \<Rightarrow> (length (type_objs h), h\<lparr>type_objs := type_objs h @ [obj]\<rparr>, m'))"
    and new: "interned m obj = None \<Longrightarrow> owned_types m' = insert (length (type_objs h)) (owned_types m) \<and>
      (\<forall>x. interned m' x = (if x = obj then Some (length (type_objs h)) else interned m x)) \<and>
      function_types m' = function_types m \<and> owned_function_types m' = owned_function_types m"
    and t: "t = (case obj of BitsObj n \<Rightarrow> BitsType n | ArrayObj n q \<Rightarrow> ArrayType n (type_at (type_objs h) q)
      | TupleObj qs \<Rightarrow> TupleType (map (type_at (type_objs h)) qs) | TokenObj \<Rightarrow> TokenType)"
  shows "gives t h m r"
proof (cases "interned m obj")
  case (Some p)
  note ex = gives_existing[OF ok Some]
  have "heap_ok (type_objs h)" using ok by (simp add: arena_ok_def)
  then show ?thesis using ex r Some t by (simp add: type_at_obj)
next
  case None
  let ?h = "h\<lparr>type_objs := type_objs h @ [obj]\<rparr>" and ?n = "length (type_objs h)"
  have al: "arena_ok ?h m'" "heap_ok (type_objs ?h)" using alloc_ok[OF ok None refs, of ?h m'] new[OF None] by simp_all
  have hp: "heap_ok (type_objs h)" and lt: "q < ?n" if "q \<in> set (obj_refs obj)" for q
    using ok refs that by (auto simp: arena_ok_def)
  have hp: "heap_ok (type_objs h)" using ok by (simp add: arena_ok_def)
  have "type_at (type_objs ?h) ?n = t"
    using type_at_obj[OF al(2), of ?n] type_at_append[OF hp lt, of _ "[obj]"] by (auto simp: t split: type_obj.splits)
  moreover have "extends h m ?h m'" using new[OF None] al(2) by (auto simp: extends_def)
  ultimately show ?thesis using al(1) new[OF None] r None by (simp add: gives_def)
qed

lemma interned_update [simp]:
  "interned (m\<lparr>bit_count_to_type := (bit_count_to_type m)(n \<mapsto> p), owned_types := S\<rparr>) x = (if x = BitsObj n then Some p else interned m x)"
  "interned (m\<lparr>array_types := (array_types m)((n, q) \<mapsto> p), owned_types := S\<rparr>) x = (if x = ArrayObj n q then Some p else interned m x)"
  "interned (m\<lparr>tuple_types := (tuple_types m)(qs \<mapsto> p), owned_types := S\<rparr>) x = (if x = TupleObj qs then Some p else interned m x)"
  by (cases x; auto)+

lemma GetBitsType_gives:
  assumes "arena_ok h m"
  shows "gives (BitsType n) h m (GetBitsType n h m)"
  by (rule intern_gives[OF assms, where obj = "BitsObj n" and m' = "m\<lparr>bit_count_to_type := (bit_count_to_type m)(n \<mapsto> length (type_objs h)),
      owned_types := insert (length (type_objs h)) (owned_types m)\<rparr>"])
     (simp_all add: GetBitsType_def alloc_type_def split: option.split)

lemma GetArrayType_gives:
  assumes "arena_ok h m" "q \<in> owned_types m"
  shows "\<exists>r. GetArrayType n q h m = Some r \<and> gives (ArrayType n (type_at (type_objs h) q)) h m r"
proof (intro exI conjI)
  let ?m = "m\<lparr>array_types := (array_types m)((n, q) \<mapsto> length (type_objs h)), owned_types := insert (length (type_objs h)) (owned_types m)\<rparr>"
  let ?r = "case array_types m (n, q) of Some p \<Rightarrow> (p, h, m) | None \<Rightarrow> (length (type_objs h), h\<lparr>type_objs := type_objs h @ [ArrayObj n q]\<rparr>, ?m)"
  show "GetArrayType n q h m = Some ?r" using assms(2) by (simp add: GetArrayType_def alloc_type_def IsOwnedType_def split: option.split)
  show "gives (ArrayType n (type_at (type_objs h) q)) h m ?r"
    by (rule intern_gives[OF assms(1), where obj = "ArrayObj n q" and m' = ?m]) (use assms(2) in simp_all)
qed

lemma mapM_CHECK: "mapM (\<lambda>q. CHECK (P q)) qs = (if list_all P qs then Some (map (\<lambda>_. ()) qs) else None)"
  by (induction qs) auto

lemma GetTupleType_gives:
  assumes "arena_ok h m" "set qs \<subseteq> owned_types m"
  shows "\<exists>r. GetTupleType qs h m = Some r \<and> gives (TupleType (map (type_at (type_objs h)) qs)) h m r"
proof (intro exI conjI)
  let ?m = "m\<lparr>tuple_types := (tuple_types m)(qs \<mapsto> length (type_objs h)), owned_types := insert (length (type_objs h)) (owned_types m)\<rparr>"
  let ?r = "case tuple_types m qs of Some p \<Rightarrow> (p, h, m) | None \<Rightarrow> (length (type_objs h), h\<lparr>type_objs := type_objs h @ [TupleObj qs]\<rparr>, ?m)"
  have "list_all (IsOwnedType m) qs" using assms(2) by (auto simp: list_all_iff IsOwnedType_def)
  then show "GetTupleType qs h m = Some ?r" by (simp add: GetTupleType_def alloc_type_def mapM_CHECK split: option.split)
  show "gives (TupleType (map (type_at (type_objs h)) qs)) h m ?r"
    by (rule intern_gives[OF assms(1), where obj = "TupleObj qs" and m' = ?m]) (use assms(2) in simp_all)
qed

lemma GetTokenType_gives: "arena_ok h m \<Longrightarrow> gives TokenType h m (GetTokenType m, h, m)"
proof -
  assume ok: "arena_ok h m"
  have "interned m TokenObj = Some (token_type m)" by simp
  from gives_existing[OF ok this] ok show ?thesis by (simp add: GetTokenType_def type_at_obj arena_ok_def)
qed

lemma new_TypeManager_ok:
  assumes "heap_ok (type_objs h)"
  shows "case new_TypeManager h of (h', m) \<Rightarrow> arena_ok h' m \<and> type_objs h' = type_objs h @ [TokenObj]"
proof -
  have "interned (snd (new_TypeManager h)) obj = (if obj = TokenObj then Some (length (type_objs h)) else None)" for obj
    by (cases obj) (simp_all add: new_TypeManager_def alloc_type_def)
  moreover have "heap_ok (type_objs h @ [TokenObj])" using assms by (auto simp: heap_ok_def nth_append less_Suc_eq)
  ultimately show ?thesis by (auto simp: new_TypeManager_def alloc_type_def arena_ok_def)
qed

text \<open>An element that the manager does not own ends the process: no object can be built from it.\<close>

lemma GetArrayType_foreign: "arena_ok h m \<Longrightarrow> q \<notin> owned_types m \<Longrightarrow> GetArrayType n q h m = None"
proof -
  assume ok: "arena_ok h m" and q: "q \<notin> owned_types m"
  have "array_types m (n, q) = None"
  proof (rule ccontr)
    assume "array_types m (n, q) \<noteq> None"
    then obtain p where "interned m (ArrayObj n q) = Some p" by auto
    then have p: "p \<in> owned_types m" "type_objs h ! p = ArrayObj n q" using arena_ok_interned[OF ok] by blast+
    have "set (obj_refs (type_objs h ! p)) \<subseteq> owned_types m" using ok p(1) by (simp add: arena_ok_def)
    then show False using q p(2) by simp
  qed
  then show ?thesis using q by (simp add: GetArrayType_def IsOwnedType_def)
qed

end
