(* ===== verification/Type_Sources.thy ===== *)
theory Type_Sources
  imports Type_Manager_Rules
begin

text \<open>
  The three ways types enter an arena: from a message, from a value and from another arena. Each is shown
  to give the pointer of the type it means; the locale \<open>type_source\<close> states that contract and the
  locale \<open>type_sources\<close> puts two of them on one arena, where the pointers they give agree exactly when
  the types do.
\<close>

section \<open>The contract\<close>

locale type_source =
  fixes get :: "'a \<Rightarrow> type_heap \<Rightarrow> TypeManager \<Rightarrow> ptr tm_result status_or option"
    and meaning :: "'a \<Rightarrow> type_heap \<Rightarrow> Type option"
  assumes get: "arena_ok h m \<Longrightarrow> meaning x h = Some t \<Longrightarrow> \<exists>y. get x h m = Some (Inr y) \<and> gives t h m y"
    and stable: "arena_ok h m \<Longrightarrow> extends h m h' m' \<Longrightarrow> meaning x h = Some t \<Longrightarrow> meaning x h' = Some t"
begin

text \<open>A type the arena already owns is found again, and nothing else is returned for it.\<close>

lemma get_existing:
  assumes "arena_ok h m" "meaning x h = Some t" "q \<in> owned_types m" "type_at (type_objs h) q = t"
  shows "\<exists>h' m'. get x h m = Some (Inr (q, h', m')) \<and> arena_ok h' m' \<and> extends h m h' m'"
proof -
  obtain p h' m' where r: "get x h m = Some (Inr (p, h', m'))" "gives t h m (p, h', m')" using get[OF assms(1,2)] by auto
  have "q < length (type_objs h)" "heap_ok (type_objs h)" using assms(1,3) by (auto simp: arena_ok_def)
  then have "type_at (type_objs h') q = t" using r(2) assms(4) type_at_extends by (auto simp: gives_def)
  moreover have "q \<in> owned_types m'" using r(2) assms(3) by (auto simp: gives_def extends_def)
  ultimately have "p = q" using r(2) owned_ptr_eq by (auto simp: gives_def)
  then show ?thesis using r by (auto simp: gives_def)
qed

end

locale type_sources = s1: type_source get1 meaning1 + s2: type_source get2 meaning2
  for get1 :: "'a \<Rightarrow> type_heap \<Rightarrow> TypeManager \<Rightarrow> ptr tm_result status_or option" and meaning1
    and get2 :: "'b \<Rightarrow> type_heap \<Rightarrow> TypeManager \<Rightarrow> ptr tm_result status_or option" and meaning2
begin

lemma same_pointer:
  assumes ok: "arena_ok h m" and x: "meaning1 x h = Some t" and y: "meaning2 y h = Some u"
  obtains p h1 m1 q h2 m2 where "get1 x h m = Some (Inr (p, h1, m1))" "get2 y h1 m1 = Some (Inr (q, h2, m2))"
    "arena_ok h2 m2" "extends h m h2 m2" "p = q \<longleftrightarrow> t = u"
proof -
  obtain p h1 m1 where 1: "get1 x h m = Some (Inr (p, h1, m1))" "gives t h m (p, h1, m1)" using s1.get[OF ok x] by auto
  then have ok1: "arena_ok h1 m1" "extends h m h1 m1" "p \<in> owned_types m1" "type_at (type_objs h1) p = t" by (auto simp: gives_def)
  have "meaning2 y h1 = Some u" using s2.stable[OF ok ok1(2) y] .
  from s2.get[OF ok1(1) this] obtain q h2 m2 where 2: "get2 y h1 m1 = Some (Inr (q, h2, m2))" "gives u h1 m1 (q, h2, m2)" by auto
  then have ok2: "arena_ok h2 m2" "extends h1 m1 h2 m2" "q \<in> owned_types m2" "type_at (type_objs h2) q = u" by (auto simp: gives_def)
  have "p < length (type_objs h1)" "heap_ok (type_objs h1)" using ok1(1,3) by (auto simp: arena_ok_def)
  then have "type_at (type_objs h2) p = t" using type_at_extends[OF ok2(2)] ok1(4) by simp
  moreover have "p \<in> owned_types m2" using ok1(3) ok2(2) by (auto simp: extends_def)
  ultimately have "p = q \<longleftrightarrow> t = u" using owned_ptr_eq[OF ok2(1) _ ok2(3)] ok2(4) by metis
  then show thesis using that 1(1) 2(1) ok2(1) arena_extends_trans[OF ok1(2) ok2(2)] by blast
qed

end

section \<open>Collecting members\<close>

lemma collect_step_Inr: "f x h m = Some (Inr (p, h', m')) \<Longrightarrow> collect_step f x (ps, h, m) = Some (Inr (ps @ [p], h', m'))"
  by (simp add: collect_step_def)

lemma foldS_collect:
  assumes "\<And>x h' m'. x \<in> set xs \<Longrightarrow> arena_ok h' m' \<Longrightarrow> extends h m h' m' \<Longrightarrow>
      \<exists>r. f x h' m' = Some r \<and> (case T x of None \<Rightarrow> r = Inl InvalidArgument | Some t \<Rightarrow> \<exists>y. r = Inr y \<and> gives t h' m' y)"
    and "arena_ok h1 m1" "extends h m h1 m1" "set ps \<subseteq> owned_types m1" "map (type_at (type_objs h1)) ps = us"
  shows "\<exists>r. foldS (collect_step f) xs (ps, h1, m1) = Some r \<and>
    (case mapM T xs of None \<Rightarrow> r = Inl InvalidArgument
     | Some ts \<Rightarrow> \<exists>qs h' m'. r = Inr (qs, h', m') \<and> arena_ok h' m' \<and> extends h m h' m' \<and> set qs \<subseteq> owned_types m' \<and>
         map (type_at (type_objs h')) qs = us @ ts)"
  using assms
proof (induction xs arbitrary: ps h1 m1 us)
  case (Cons x xs)
  obtain r where r: "f x h1 m1 = Some r" "case T x of None \<Rightarrow> r = Inl InvalidArgument | Some t \<Rightarrow> \<exists>y. r = Inr y \<and> gives t h1 m1 y"
    using Cons.prems(1)[of x h1 m1] Cons.prems(2,3) by auto
  show ?case
  proof (cases "T x")
    case None
    then show ?thesis using r by (simp add: collect_step_def[of f x])
  next
    case (Some t)
    then obtain p h2 m2 where p: "r = Inr (p, h2, m2)" "gives t h1 m1 (p, h2, m2)" using r(2) by auto
    then have g: "arena_ok h2 m2" "extends h1 m1 h2 m2" "p \<in> owned_types m2" "type_at (type_objs h2) p = t" by (auto simp: gives_def)
    have ps: "q < length (type_objs h1)" if "q \<in> set ps" for q using Cons.prems(2,4) that by (auto simp: arena_ok_def)
    have hp: "heap_ok (type_objs h1)" using Cons.prems(2) by (simp add: arena_ok_def)
    have "map (type_at (type_objs h2)) (ps @ [p]) = us @ [t]"
      using Cons.prems(5) type_at_extends[OF g(2) hp ps] g(4) by auto
    moreover have "set (ps @ [p]) \<subseteq> owned_types m2" using Cons.prems(4) g(2,3) by (auto simp: extends_def)
    moreover have "\<exists>r. f y h' m' = Some r \<and> (case T y of None \<Rightarrow> r = Inl InvalidArgument | Some t \<Rightarrow> \<exists>z. r = Inr z \<and> gives t h' m' z)"
      if "y \<in> set xs" "arena_ok h' m'" "extends h m h' m'" for y h' m' using Cons.prems(1)[of y h' m'] that by simp
    ultimately have "\<exists>r. foldS (collect_step f) xs (ps @ [p], h2, m2) = Some r \<and>
        (case mapM T xs of None \<Rightarrow> r = Inl InvalidArgument
         | Some ts \<Rightarrow> \<exists>qs h' m'. r = Inr (qs, h', m') \<and> arena_ok h' m' \<and> extends h m h' m' \<and> set qs \<subseteq> owned_types m' \<and>
             map (type_at (type_objs h')) qs = (us @ [t]) @ ts)"
      using arena_extends_trans[OF Cons.prems(3) g(2)] g(1) by (intro Cons.IH) blast+
    then show ?thesis using r(1) p(1) Some by (auto simp: collect_step_Inr split: option.splits)
  qed
qed simp

lemmas collect_gives = foldS_collect[where ps = "[]" and us = "[]", folded collect_def, unfolded append_Nil, simplified]

lemma ok_Some [simp]: "ok (Some r) = Some (Inr r)"
  by (simp add: ok_def)

lemma gives_trans: "extends h m h' m' \<Longrightarrow> gives t h' m' r \<Longrightarrow> gives t h m r"
  by (auto simp: gives_def intro: arena_extends_trans)

text \<open>Building a tuple from the collected members.\<close>

lemma collect_tuple:
  assumes "arena_ok h m"
    and "\<And>x h' m'. x \<in> set xs \<Longrightarrow> arena_ok h' m' \<Longrightarrow> extends h m h' m' \<Longrightarrow>
      \<exists>r. f x h' m' = Some r \<and> (case T x of None \<Rightarrow> r = Inl InvalidArgument | Some t \<Rightarrow> \<exists>y. r = Inr y \<and> gives t h' m' y)"
  shows "\<exists>r. ASSIGN_OR_RETURN (collect f xs h m) (\<lambda>(ps, h, m). ok (GetTupleType ps h m)) = Some r \<and>
    (case mapM T xs of None \<Rightarrow> r = Inl InvalidArgument | Some ts \<Rightarrow> \<exists>y. r = Inr y \<and> gives (TupleType ts) h m y)"
proof -
  obtain r where r: "collect f xs h m = Some r" "case mapM T xs of None \<Rightarrow> r = Inl InvalidArgument
     | Some ts \<Rightarrow> \<exists>qs h' m'. r = Inr (qs, h', m') \<and> arena_ok h' m' \<and> extends h m h' m' \<and> set qs \<subseteq> owned_types m' \<and>
         map (type_at (type_objs h')) qs = ts"
    using collect_gives[of xs h m f T h m] assms arena_extends_refl[OF assms(1)] by blast
  show ?thesis
  proof (cases "mapM T xs")
    case (Some ts)
    then obtain qs h' m' where q: "r = Inr (qs, h', m')" "arena_ok h' m'" "extends h m h' m'" "set qs \<subseteq> owned_types m'"
      "map (type_at (type_objs h')) qs = ts" using r(2) by auto
    from GetTupleType_gives[OF q(2,4)] obtain y where "GetTupleType qs h' m' = Some y" "gives (TupleType ts) h' m' y" using q(5) by auto
    then show ?thesis using r(1) q(1) Some gives_trans[OF q(3)] by (simp del: split_paired_Ex)
  qed (use r in simp)
qed

section \<open>Messages\<close>

text \<open>The type a message means, if it means one. It means none when somewhere in it \<^verbatim>\<open>type_enum\<close> is missing or
  \<^verbatim>\<open>INVALID\<close>, or a field its kind needs is missing or negative (\<open>malformed\<close>).\<close>

fun proto_meaning :: "TypeProto \<Rightarrow> Type option" where
  "proto_meaning (TypeProto enum count members len element_proto) =
     (case enum of
        Some BITS \<Rightarrow> (case count of Some n \<Rightarrow> if 0 \<le> n then Some (BitsType (nat n)) else None | None \<Rightarrow> None)
      | Some TUPLE \<Rightarrow> map_option TupleType (mapM proto_meaning members)
      | Some ARRAY \<Rightarrow>
          (case (len, element_proto) of
             (Some n, Some p) \<Rightarrow> if 0 \<le> n then map_option (ArrayType (nat n)) (proto_meaning p) else None
           | _ \<Rightarrow> None)
      | Some TOKEN \<Rightarrow> Some TokenType
      | Some INVALID \<Rightarrow> None
      | None \<Rightarrow> None)"

fun malformed :: "TypeProto \<Rightarrow> bool" where
  "malformed (TypeProto enum count members len element_proto) =
     (case enum of
        None \<Rightarrow> True
      | Some INVALID \<Rightarrow> True
      | Some TOKEN \<Rightarrow> False
      | Some BITS \<Rightarrow> (case count of None \<Rightarrow> True | Some n \<Rightarrow> n < 0)
      | Some TUPLE \<Rightarrow> list_ex malformed members
      | Some ARRAY \<Rightarrow>
          (case len of None \<Rightarrow> True | Some n \<Rightarrow> n < 0) \<or> (case element_proto of None \<Rightarrow> True | Some p \<Rightarrow> malformed p))"

lemma proto_meaning_None: "proto_meaning p = None \<longleftrightarrow> malformed p"
proof (induction p)
  case (TypeProto enum count members len element_proto)
  have "mapM proto_meaning members = None \<longleftrightarrow> list_ex malformed members"
    using TypeProto.IH(1)
  proof (induction members)
    case (Cons a members)
    have "proto_meaning a = None \<longleftrightarrow> malformed a" by (rule Cons.prems) simp
    moreover have "mapM proto_meaning members = None \<longleftrightarrow> list_ex malformed members" by (rule Cons.IH) (use Cons.prems in simp)
    ultimately show ?case by (auto split: Option.bind_splits)
  qed simp
  then show ?case using TypeProto.IH(2) by (auto split: option.splits TypeEnum.splits)
qed

lemma proto_meaning_ToProto: "proto_meaning (Type_ToProto t) = Some t"
proof (induction t)
  case (TupleType ts)
  then have "mapM proto_meaning (map Type_ToProto ts) = Some ts" by (induction ts) auto
  then show ?case by simp
qed auto

lemma GetTypeFromProto_spec:
  "arena_ok h m \<Longrightarrow> \<exists>r. GetTypeFromProto p h m = Some r \<and>
     (case proto_meaning p of None \<Rightarrow> r = Inl InvalidArgument | Some t \<Rightarrow> \<exists>y. r = Inr y \<and> gives t h m y)"
proof (induction p arbitrary: h m)
  case (TypeProto enum count members len element_proto)
  show ?case
  proof (cases enum)
    case (Some e)
    show ?thesis
    proof (cases e)
      case BITS
      then show ?thesis using Some GetBitsType_gives[OF TypeProto.prems] by (auto split: option.splits simp del: split_paired_Ex)
    next
      case TUPLE
      then show ?thesis using collect_tuple[OF TypeProto.prems, of members GetTypeFromProto proto_meaning] TypeProto.IH(1) Some
        by (auto split: option.splits)
    next
      case TOKEN
      then show ?thesis using Some GetTokenType_gives[OF TypeProto.prems] by auto
    next
      case ARRAY
      show ?thesis
      proof (cases "len = None \<or> the len < 0 \<or> element_proto = None")
        case False
        then obtain n q where nq: "len = Some n" "0 \<le> n" "element_proto = Some q" by auto
        obtain r where r: "GetTypeFromProto q h m = Some r"
            "case proto_meaning q of None \<Rightarrow> r = Inl InvalidArgument | Some t \<Rightarrow> \<exists>y. r = Inr y \<and> gives t h m y"
          using TypeProto.IH(2)[of q, OF _ TypeProto.prems] nq(3) by auto
        show ?thesis
        proof (cases "proto_meaning q")
          case (Some t)
          then obtain p h' m' where p: "r = Inr (p, h', m')" "gives t h m (p, h', m')" using r(2) by auto
          then have g: "arena_ok h' m'" "extends h m h' m'" "p \<in> owned_types m'" "type_at (type_objs h') p = t" by (auto simp: gives_def)
          from GetArrayType_gives[OF g(1,3)] obtain y where "GetArrayType (nat n) p h' m' = Some y" "gives (ArrayType (nat n) t) h' m' y" using g(4) by metis
          then show ?thesis using r(1) p(1) gives_trans[OF g(2)] nq ARRAY \<open>enum = Some e\<close> Some by (simp del: split_paired_Ex)
        qed (use r nq ARRAY \<open>enum = Some e\<close> in simp)
      qed (use ARRAY Some in \<open>auto split: option.splits\<close>)
    qed (use Some in simp)
  qed simp
qed

interpretation proto: type_source GetTypeFromProto "\<lambda>p h. proto_meaning p"
proof
  show "\<exists>y. GetTypeFromProto p h m = Some (Inr y) \<and> gives t h m y" if "arena_ok h m" "proto_meaning p = Some t" for h m p t
    using GetTypeFromProto_spec[OF that(1), of p] that(2) by auto
qed

section \<open>Values\<close>

text \<open>The type of a well-formed value.\<close>

definition value_meaning :: "Value \<Rightarrow> Type option" where
  "value_meaning v = (if \<exists>t. has_type v t then Some (THE t. has_type v t) else None)"

lemma value_meaning_Some: "value_meaning v = Some t \<longleftrightarrow> has_type v t"
proof
  assume "value_meaning v = Some t"
  then obtain u where "has_type v u" "(THE t. has_type v t) = t" by (auto simp: value_meaning_def split: if_splits)
  then show "has_type v t" using theI[of "has_type v" u] has_type_unique by blast
next
  assume "has_type v t"
  moreover from this have "(THE u. has_type v u) = t" by (rule the_equality) (rule has_type_unique[OF _ \<open>has_type v t\<close>])
  ultimately show "value_meaning v = Some t" by (auto simp: value_meaning_def)
qed

lemma ok_bind: "ok (Option.bind r k) = ASSIGN_OR_RETURN (ok r) (\<lambda>x. ok (k x))"
  by (cases r) (simp_all add: ok_def)

lemma ok_foldM: "ok (foldM f xs s) = foldS (\<lambda>x s. ok (f x s)) xs s"
  by (induction xs arbitrary: s) (simp_all add: ok_bind)

lemma GetTypeForValue_tuple:
  "ok (GetTypeForValue (TupleValue es) h m) =
     ASSIGN_OR_RETURN (collect (\<lambda>e h m. ok (GetTypeForValue e h m)) es h m) (\<lambda>(ps, h, m). ok (GetTupleType ps h m))"
proof -
  have "(\<lambda>x. ok (case x of (ps, h, m) \<Rightarrow> GetTupleType ps h m)) = (\<lambda>(ps, h, m). ok (GetTupleType ps h m))" by (auto split: prod.splits)
  moreover have "(\<lambda>e s. ok (case s of (ps, h, m) \<Rightarrow> do { (p, h, m) \<leftarrow> GetTypeForValue e h m; Some (ps @ [p], h, m) })) =
      collect_step (\<lambda>e h m. ok (GetTypeForValue e h m))"
    by (auto simp: ok_bind fun_eq_iff collect_step_def intro!: ASSIGN_OR_RETURN_cong split: prod.splits)
  ultimately show ?thesis by (simp add: ok_bind ok_foldM collect_def)
qed

lemma GetTypeForValue_gives:
  "has_type v t \<Longrightarrow> arena_ok h m \<Longrightarrow> \<exists>r. GetTypeForValue v h m = Some r \<and> gives t h m r"
proof (induction v t arbitrary: h m rule: has_type_induct)
  case (Bits b)
  then show ?case using GetBitsType_gives by simp
next
  case (Tuple es ts)
  have T: "mapM value_meaning es = Some ts"
    using Tuple.IH by (induction es ts rule: list_all2_induct) (auto simp: value_meaning_Some[symmetric])
  have "\<exists>r. ok (GetTypeForValue e h' m') = Some r \<and> (case value_meaning e of None \<Rightarrow> r = Inl InvalidArgument | Some t \<Rightarrow> \<exists>y. r = Inr y \<and> gives t h' m' y)"
    if "e \<in> set es" "arena_ok h' m'" for e h' m'
  proof -
    obtain t where "has_type e t" "\<exists>r. GetTypeForValue e h' m' = Some r \<and> gives t h' m' r"
      using \<open>e \<in> set es\<close> Tuple.IH \<open>arena_ok h' m'\<close> by (auto simp: list_all2_conv_all_nth in_set_conv_nth)
    then show ?thesis by (auto simp: value_meaning_Some[symmetric])
  qed
  then have "\<exists>r. ok (GetTypeForValue (TupleValue es) h m) = Some (Inr r) \<and> gives (TupleType ts) h m r"
    unfolding GetTypeForValue_tuple using collect_tuple[OF Tuple.prems, of es "\<lambda>e h m. ok (GetTypeForValue e h m)" value_meaning] T by fastforce
  then show ?case by (auto simp: ok_def)
next
  case (Array es u)
  obtain e rest where es: "es = e # rest" using Array.hyps by (cases es) auto
  obtain p h' m' where p: "GetTypeForValue e h m = Some (p, h', m')" "gives u h m (p, h', m')"
    using Array.IH[of e] Array.prems es by fastforce
  then have g: "arena_ok h' m'" "extends h m h' m'" "p \<in> owned_types m'" "type_at (type_objs h') p = u" by (auto simp: gives_def)
  from GetArrayType_gives[OF g(1,3)] obtain y where "GetArrayType (length es) p h' m' = Some y" "gives (ArrayType (length es) u) h' m' y" using g(4) by metis
  then show ?case using p(1) es gives_trans[OF g(2)] by auto
next
  case Token
  then show ?case using GetTokenType_gives by simp
qed

text \<open>Values that need not be well formed: whatever the call returns, it gives a type.\<close>

lemma GetTypeForValue_any:
  "arena_ok h m \<Longrightarrow> GetTypeForValue v h m = Some r \<Longrightarrow> \<exists>t. gives t h m r"
proof (induction v arbitrary: h m r)
  case (BitsValue b)
  then show ?case using GetBitsType_gives by auto
next
  case (TupleValue es)
  define f where "f = (\<lambda>e (ps, h, m). do { (p, h, m) \<leftarrow> GetTypeForValue e h m; Some (ps @ [p], h, m) })"
  have fold: "arena_ok h' m' \<and> extends h m h' m' \<and> set ps' \<subseteq> owned_types m'"
    if "foldM f xs (ps, h1, m1) = Some (ps', h', m')" "arena_ok h1 m1" "extends h m h1 m1" "set ps \<subseteq> owned_types m1" "set xs \<subseteq> set es"
    for xs ps h1 m1 ps' h' m'
    using that
  proof (induction xs arbitrary: ps h1 m1)
    case (Cons x xs)
    then obtain p h2 m2 where p: "GetTypeForValue x h1 m1 = Some (p, h2, m2)" "foldM f xs (ps @ [p], h2, m2) = Some (ps', h', m')"
      by (auto simp: f_def bind_eq_Some_conv)
    obtain t where "gives t h1 m1 (p, h2, m2)" using TupleValue.IH[OF _ Cons.prems(2) p(1)] Cons.prems(5) by auto
    then have g: "arena_ok h2 m2" "extends h1 m1 h2 m2" "p \<in> owned_types m2" by (auto simp: gives_def)
    then have "set (ps @ [p]) \<subseteq> owned_types m2" using Cons.prems(4) by (auto simp: extends_def)
    then show ?case using Cons.IH[OF p(2) g(1) arena_extends_trans[OF Cons.prems(3) g(2)]] Cons.prems(5) by simp
  qed simp
  obtain ps h' m' where c: "foldM f es ([], h, m) = Some (ps, h', m')" "GetTupleType ps h' m' = Some r"
    using TupleValue.prems(2) unfolding f_def by (auto simp: bind_eq_Some_conv)
  have g: "arena_ok h' m'" "extends h m h' m'" "set ps \<subseteq> owned_types m'"
    using fold[OF c(1) TupleValue.prems(1) arena_extends_refl[OF TupleValue.prems(1)]] by auto
  show ?case using GetTupleType_gives[OF g(1,3)] c(2) gives_trans[OF g(2)] by (metis option.inject)
next
  case (ArrayValue xs)
  then obtain e es where xs: "xs = e # es" by (cases xs) auto
  obtain p h' m' where c: "GetTypeForValue e h m = Some (p, h', m')" "GetArrayType (length (e # es)) p h' m' = Some r"
    using ArrayValue.prems(2) xs by (auto simp: bind_eq_Some_conv)
  from ArrayValue.IH[OF _ ArrayValue.prems(1) c(1)] xs have g: "arena_ok h' m'" "extends h m h' m'" "p \<in> owned_types m'" by (auto simp: gives_def)
  show ?case using GetArrayType_gives[OF g(1,3), of "length (e # es)"] c(2) gives_trans[OF g(2)] by (metis option.inject)
next
  case TokenValue
  then show ?case using GetTokenType_gives by auto
qed auto

interpretation typed_value: type_source "\<lambda>v h m. ok (GetTypeForValue v h m)" "\<lambda>v h. value_meaning v"
proof
  show "\<exists>y. ok (GetTypeForValue v h m) = Some (Inr y) \<and> gives t h m y" if "arena_ok h m" "value_meaning v = Some t" for h m v t
    using GetTypeForValue_gives[OF that(2)[unfolded value_meaning_Some] that(1)] by (metis ok_Some)
qed

section \<open>Another arena\<close>

definition heap_meaning :: "ptr \<Rightarrow> type_heap \<Rightarrow> Type option" where
  "heap_meaning p h = (if p < length (type_objs h) then Some (type_at (type_objs h) p) else None)"

lemma MapTypeFromOtherArena_gives:
  "arena_ok h m \<Longrightarrow> p < length (type_objs h) \<Longrightarrow>
   \<exists>r. MapTypeFromOtherArena p h m = Some (Inr r) \<and> gives (type_at (type_objs h) p) h m r"
proof (induction p arbitrary: h m rule: less_induct)
  case (less p)
  let ?o = "type_objs h"
  have hp: "heap_ok ?o" using less.prems(1) by (simp add: arena_ok_def)
  have below: "q < p" if "q \<in> set (obj_refs (?o ! p))" for q using hp less.prems(2) that by (auto simp: heap_ok_def)
  note ty = type_at_obj[OF hp less.prems(2)]
  show ?case
  proof (cases "p \<in> owned_types m")
    case True
    then show ?thesis using less.prems by (simp add: MapTypeFromOtherArena.simps IsOwnedType_def gives_def arena_extends_refl)
  next
    case False
    note def = MapTypeFromOtherArena.simps[of p h m]
    show ?thesis
    proof (cases "?o ! p")
      case (BitsObj n)
      then show ?thesis using False GetBitsType_gives[OF less.prems(1)] ty by (simp add: def IsOwnedType_def)
    next
      case TokenObj
      then show ?thesis using False GetTokenType_gives[OF less.prems(1)] ty by (simp add: def IsOwnedType_def)
    next
      case (ArrayObj n q)
      then have q: "q < p" using below by simp
      obtain r h' m' where r: "MapTypeFromOtherArena q h m = Some (Inr (r, h', m'))" "gives (type_at ?o q) h m (r, h', m')"
        using less.IH[OF q less.prems(1)] q less.prems(2) by auto
      then have g: "arena_ok h' m'" "extends h m h' m'" "r \<in> owned_types m'" "type_at (type_objs h') r = type_at ?o q" by (auto simp: gives_def)
      from GetArrayType_gives[OF g(1,3)] obtain y where "GetArrayType n r h' m' = Some y" "gives (ArrayType n (type_at ?o q)) h' m' y" using g(4) by metis
      then show ?thesis using False ArrayObj r(1) q ty gives_trans[OF g(2)] by (simp add: def IsOwnedType_def)
    next
      case (TupleObj qs)
      let ?T = "\<lambda>q. Some (type_at ?o q)" and ?f = "\<lambda>q h m. if q < p then MapTypeFromOtherArena q h m else None"
      have step: "\<exists>r. ?f q h' m' = Some r \<and> (case ?T q of None \<Rightarrow> r = Inl InvalidArgument | Some t \<Rightarrow> \<exists>y. r = Inr y \<and> gives t h' m' y)"
        if q: "q \<in> set qs" "arena_ok h' m'" "extends h m h' m'" for q h' m'
      proof -
        have "q < p" "q < length ?o" using below[of q] TupleObj q(1) less.prems(2) by simp_all
        moreover have "q < length (type_objs h')" using \<open>q < length ?o\<close> q(3) by (auto simp: extends_def)
        ultimately show ?thesis using less.IH[of q, OF _ q(2)] type_at_extends[OF q(3) hp] by auto
      qed
      from collect_tuple[OF less.prems(1), of qs ?f ?T] step mapM_pure[of qs ?T "type_at ?o"]
      have "\<exists>r. ASSIGN_OR_RETURN (collect ?f qs h m) (\<lambda>(ps, h, m). ok (GetTupleType ps h m)) = Some (Inr r) \<and>
          gives (TupleType (map (type_at ?o) qs)) h m r" by (auto simp del: split_paired_Ex)
      then show ?thesis using False TupleObj ty by (simp add: def IsOwnedType_def)
    qed
  qed
qed

interpretation other_arena: type_source MapTypeFromOtherArena heap_meaning
proof
  show "\<exists>y. MapTypeFromOtherArena p h m = Some (Inr y) \<and> gives t h m y" if "arena_ok h m" "heap_meaning p h = Some t" for h m p t
    using MapTypeFromOtherArena_gives[OF that(1), of p] that(2) by (auto simp: heap_meaning_def split: if_splits)
  show "heap_meaning p h' = Some t" if "arena_ok h m" "extends h m h' m'" "heap_meaning p h = Some t" for h m h' m' p t
    using that type_at_extends[OF that(2), of p] by (auto simp: heap_meaning_def extends_def arena_ok_def split: if_splits)
qed

end
