(* ===== verification/Type_Strings.thy ===== *)
theory Type_Strings
  imports Xls_Type
begin

text \<open>
  The printed form of a type determines it. \<^verbatim>\<open>TypeManager\<close> relies on this: it keys its function types by
  \<^verbatim>\<open>FunctionType::ToString\<close>. A printed type is a base, a word that ends where it says it ends, and the
  dimensions of the arrays around it; what follows a type in any text never starts with a bracket.
\<close>

section \<open>Numbers\<close>

definition dec_val :: "string \<Rightarrow> nat" where
  "dec_val s = foldl (\<lambda>a c. a * 10 + (of_char c - 48)) 0 s"

lemma of_char_digit: "d < 10 \<Longrightarrow> (of_char (digit_char d) :: nat) = 48 + d"
  by (simp add: digit_char_def)

lemma dec_val_nat_dec: "dec_val (nat_dec m) = m"
proof (induction m rule: nat_dec.induct)
  case (1 m)
  then show ?case by (subst nat_dec.simps) (simp add: dec_val_def of_char_digit)
qed

lemma nat_dec_digits: "c \<in> set (nat_dec m) \<Longrightarrow> \<exists>d<10. c = digit_char d"
proof (induction m rule: nat_dec.induct)
  case (1 m)
  then show ?case by (subst (asm) (2) nat_dec.simps) (auto split: if_splits intro: exI[of _ "m mod 10"])
qed

lemma digit_char_bracket: "d < 10 \<Longrightarrow> digit_char d \<noteq> CHR '']''"
proof
  assume d: "d < 10" and "digit_char d = CHR '']''"
  then have "(of_char (digit_char d) :: nat) = of_char CHR '']''" by simp
  then show False using d by (simp add: of_char_digit)
qed

lemma bracketed_number:
  assumes "nat_dec m @ CHR '']'' # r = nat_dec n @ CHR '']'' # s"
  shows "m = n \<and> r = s"
proof -
  have tw: "takeWhile (\<lambda>c. c \<noteq> CHR '']'') (nat_dec k @ CHR '']'' # q) = nat_dec k" for k q
  proof -
    have "c \<noteq> CHR '']''" if "c \<in> set (nat_dec k)" for c
    proof -
      obtain d where "d < 10" "c = digit_char d" using nat_dec_digits[OF \<open>c \<in> set (nat_dec k)\<close>] by blast
      then show ?thesis by (simp add: digit_char_bracket)
    qed
    then have "takeWhile (\<lambda>c. c \<noteq> CHR '']'') (nat_dec k @ CHR '']'' # q) = nat_dec k @ takeWhile (\<lambda>c. c \<noteq> CHR '']'') (CHR '']'' # q)"
      by (intro takeWhile_append2) blast
    then show ?thesis by simp
  qed
  have "nat_dec m = nat_dec n" using arg_cong[OF assms, of "takeWhile (\<lambda>c. c \<noteq> CHR '']'')"] by (simp only: tw)
  then show ?thesis using assms by (metis append_same_eq dec_val_nat_dec list.inject same_append_eq)
qed

section \<open>Dimensions\<close>

fun array_base :: "Type \<Rightarrow> Type" where
  "array_base (ArrayType n t) = array_base t"
| "array_base t = t"

fun array_dims :: "Type \<Rightarrow> nat list" where
  "array_dims (ArrayType n t) = array_dims t @ [n]"
| "array_dims _ = []"

definition dims_string :: "nat list \<Rightarrow> string" where
  "dims_string ns = concat (map (\<lambda>n. ''['' @ nat_dec n @ '']'') ns)"

lemma dec_string_nat [simp]: "dec_string (int n) = nat_dec n"
  by (simp add: dec_string_def)

lemma Type_ToString_dims: "Type_ToString t = Type_ToString (array_base t) @ dims_string (array_dims t)"
  by (induction t) (auto simp: dims_string_def)

lemma no_dims: "[] = array_dims u \<Longrightarrow> array_base u = u"
  by (cases u) auto

lemma array_type_eq: "array_base t = array_base u \<Longrightarrow> array_dims t = array_dims u \<Longrightarrow> t = u"
proof (induction t arbitrary: u)
  case (ArrayType n t)
  then show ?case by (cases u) auto
qed (metis array_base.simps array_dims.simps no_dims)+

lemma dims_string_unique:
  assumes "dims_string ns @ r = dims_string ms @ s" "r = [] \<or> hd r \<noteq> CHR ''[''" "s = [] \<or> hd s \<noteq> CHR ''[''"
  shows "ns = ms \<and> r = s"
  using assms
proof (induction ns arbitrary: ms)
  case Nil
  then show ?case by (cases ms) (auto simp: dims_string_def)
next
  case (Cons n ns)
  show ?case
  proof (cases ms)
    case Nil
    then show ?thesis using Cons.prems by (auto simp: dims_string_def)
  next
    case (Cons k ks)
    then have "nat_dec n @ CHR '']'' # (dims_string ns @ r) = nat_dec k @ CHR '']'' # (dims_string ks @ s)"
      using Cons.prems(1) by (simp add: dims_string_def)
    then have "n = k" "dims_string ns @ r = dims_string ks @ s" using bracketed_number by blast+
    then show ?thesis using Cons Cons.IH[OF _ Cons.prems(2,3)] by simp
  qed
qed

section \<open>Types\<close>

lemma array_base_not_array: "array_base t \<noteq> ArrayType n u"
  by (induction t) auto

lemma array_base_cases:
  obtains n where "array_base t = BitsType n" | ts where "array_base t = TupleType ts" | "array_base t = TokenType"
  by (induction t) auto

lemma size_array_base: "size (array_base t) \<le> size t"
  by (induction t) auto

lemma Type_ToString_start: "\<exists>c cs. Type_ToString t = c # cs \<and> c \<in> {CHR ''b'', CHR ''t'', CHR ''(''}"
  by (induction t) auto

text \<open>The members of a tuple, when each of them is read back.\<close>

lemma members_unique:
  assumes "\<And>t u r s. t \<in> set ts \<Longrightarrow> Type_ToString t @ r = Type_ToString u @ s \<Longrightarrow> r = [] \<or> hd r \<noteq> CHR ''['' \<Longrightarrow>
      s = [] \<or> hd s \<noteq> CHR ''['' \<Longrightarrow> t = u \<and> r = s"
    and "str_join '', '' (map Type_ToString ts) @ CHR '')'' # r = str_join '', '' (map Type_ToString us) @ CHR '')'' # s"
  shows "ts = us \<and> r = s"
  using assms
proof (induction ts arbitrary: us)
  case Nil
  show ?case
  proof (cases us)
    case (Cons u us')
    then show ?thesis using Nil(2) Type_ToString_start[of u] by (auto split: if_splits)
  qed (use Nil in simp)
next
  case (Cons t ts)
  show ?case
  proof (cases us)
    case Nil
    then show ?thesis using Cons.prems(2) Type_ToString_start[of t] by (auto split: if_splits)
  next
    case us: (Cons u us')
    let ?rest = "\<lambda>ts r. if ts = [] then CHR '')'' # r else '', '' @ str_join '', '' (map Type_ToString ts) @ CHR '')'' # r"
    have "Type_ToString t @ ?rest ts r = Type_ToString u @ ?rest us' s" using Cons.prems(2) us by (auto split: if_splits)
    from Cons.prems(1)[OF _ this] have tu: "t = u" "?rest ts r = ?rest us' s" by (auto split: if_splits)
    have "ts = us' \<and> r = s"
    proof (cases "ts = []")
      case True
      then show ?thesis using tu(2) by (auto split: if_splits)
    next
      case False
      then have "us' \<noteq> []" using tu(2) by (auto split: if_splits)
      then have "str_join '', '' (map Type_ToString ts) @ CHR '')'' # r = str_join '', '' (map Type_ToString us') @ CHR '')'' # s"
        using tu(2) False by simp
      then show ?thesis by (intro Cons.IH) (use Cons.prems(1) in auto)
    qed
    then show ?thesis using tu(1) us by simp
  qed
qed

lemma Type_ToString_unique:
  "Type_ToString t @ r = Type_ToString u @ s \<Longrightarrow> r = [] \<or> hd r \<noteq> CHR ''['' \<Longrightarrow> s = [] \<or> hd s \<noteq> CHR ''['' \<Longrightarrow> t = u \<and> r = s"
proof (induction "size t" arbitrary: t u r s rule: less_induct)
  case less
  let ?r = "dims_string (array_dims t) @ r" and ?s = "dims_string (array_dims u) @ s"
  have eq: "Type_ToString (array_base t) @ ?r = Type_ToString (array_base u) @ ?s"
    using less.prems(1) Type_ToString_dims[of t] Type_ToString_dims[of u] by simp
  have "array_base t = array_base u \<and> ?r = ?s"
  proof (cases rule: array_base_cases[of t])
    case (1 n)
    moreover obtain m where m: "array_base u = BitsType m" using 1 eq by (cases rule: array_base_cases[of u]) simp_all
    ultimately have "nat_dec n @ CHR '']'' # ?r = nat_dec m @ CHR '']'' # ?s" using eq by simp
    from bracketed_number[OF this] show ?thesis using 1 m by simp
  next
    case (2 ts)
    obtain us where us: "array_base u = TupleType us" using 2 eq by (cases rule: array_base_cases[of u]) simp_all
    have "size t' < size t" if "t' \<in> set ts" for t'
      using size_array_base[of t] 2 size_list_estimation'[OF that, of "size t'" size] by simp
    note sub = less.hyps[OF this]
    have "str_join '', '' (map Type_ToString ts) @ CHR '')'' # ?r = str_join '', '' (map Type_ToString us) @ CHR '')'' # ?s"
      using eq 2 us by simp
    from members_unique[OF sub this] have "ts = us \<and> ?r = ?s" by blast
    then show ?thesis using 2 us by simp
  next
    case 3
    then show ?thesis using eq by (cases rule: array_base_cases[of u]) simp_all
  qed
  then show ?case using dims_string_unique[OF _ less.prems(2,3)] array_type_eq by blast
qed

lemma Type_ToString_inject: "Type_ToString t = Type_ToString u \<longleftrightarrow> t = u"
  using Type_ToString_unique[of t "[]" u "[]"] by auto

lemma FunctionType_ToString_inject: "FunctionType_ToString f = FunctionType_ToString g \<longleftrightarrow> f = g"
proof
  assume "FunctionType_ToString f = FunctionType_ToString g"
  then have "str_join '', '' (map Type_ToString (parameters f)) @ CHR '')'' # ('' -> '' @ Type_ToString (return_type f)) =
      str_join '', '' (map Type_ToString (parameters g)) @ CHR '')'' # ('' -> '' @ Type_ToString (return_type g))"
    by (simp add: FunctionType_ToString_def)
  from members_unique[OF Type_ToString_unique this]
  have "parameters f = parameters g" "Type_ToString (return_type f) = Type_ToString (return_type g)" by auto
  then show "f = g" by (simp add: Type_ToString_inject FunctionType.equality)
qed simp

end
