(* ===== verification/Type_World.thy ===== *)
theory Type_World
  imports Type_Sources Type_Strings
begin

text \<open>
  The states a program can reach with any number of type managers: each is created empty, and each of
  its operations that make types (the getters, those for messages and values, and the mapping from
  another arena) may be called at any time, in any order. The invariants are shown by
  rule induction: every manager keeps its own, no call disturbs another manager, and no pointer has two
  owners. Function types are canonical as well, because the text they are keyed by determines the type.
\<close>

section \<open>Function types\<close>

definition fn_ok :: "type_heap \<Rightarrow> TypeManager \<Rightarrow> bool" where
  "fn_ok h m \<longleftrightarrow>
     (\<forall>p\<in>owned_function_types m. p < length (function_objs h) \<and>
        set (fst (function_objs h ! p)) \<subseteq> {..<length (type_objs h)} \<and> snd (function_objs h ! p) < length (type_objs h)) \<and>
     (\<forall>key p. function_types m key = Some p \<longleftrightarrow>
        p \<in> owned_function_types m \<and> FunctionType_ToString (function_type_at h (function_objs h ! p)) = key)"

definition heap_grows :: "type_heap \<Rightarrow> type_heap \<Rightarrow> bool" where
  "heap_grows h h' \<longleftrightarrow> (\<exists>xs. type_objs h' = type_objs h @ xs) \<and> heap_ok (type_objs h') \<and>
     (\<exists>ys. function_objs h' = function_objs h @ ys)"

lemma extends_grows: "extends h m h' m' \<Longrightarrow> heap_grows h h'"
  by (auto simp: extends_def heap_grows_def)

lemma arena_ok_grows:
  assumes "arena_ok h m" "heap_grows h h'"
  shows "arena_ok h' m"
proof -
  obtain xs where xs: "type_objs h' = type_objs h @ xs" "heap_ok (type_objs h')" using assms(2) by (auto simp: heap_grows_def)
  have "type_objs h' ! p = type_objs h ! p" "p < length (type_objs h')" if "p \<in> owned_types m" for p
    using assms(1) that by (auto simp: arena_ok_def xs(1) nth_append)
  then show ?thesis using assms(1) xs(2) unfolding arena_ok_def by (metis (no_types, lifting))
qed

lemma function_type_at_grows:
  assumes "heap_ok (type_objs h)" "heap_grows h h'" "set (fst f) \<subseteq> {..<length (type_objs h)}" "snd f < length (type_objs h)"
  shows "function_type_at h' f = function_type_at h f"
proof -
  obtain xs where "type_objs h' = type_objs h @ xs" using assms(2) by (auto simp: heap_grows_def)
  then show ?thesis using assms(1,3,4) by (auto simp: function_type_at_def type_at_append split: prod.splits)
qed

lemma fn_ok_grows:
  assumes "fn_ok h m" "heap_ok (type_objs h)" "heap_grows h h'"
  shows "fn_ok h' m"
proof -
  obtain xs ys where xs: "type_objs h' = type_objs h @ xs" "function_objs h' = function_objs h @ ys" using assms(3) by (auto simp: heap_grows_def)
  have own: "p < length (function_objs h)" "set (fst (function_objs h ! p)) \<subseteq> {..<length (type_objs h)}" "snd (function_objs h ! p) < length (type_objs h)"
    if "p \<in> owned_function_types m" for p using assms(1) that by (simp_all add: fn_ok_def)
  have same: "function_objs h' ! p = function_objs h ! p" "function_type_at h' (function_objs h' ! p) = function_type_at h (function_objs h ! p)"
    if "p \<in> owned_function_types m" for p
    using own[OF that] function_type_at_grows[OF assms(2,3)] by (simp_all add: xs(2) nth_append)
  show ?thesis unfolding fn_ok_def
  proof (intro conjI ballI allI)
    fix p assume p: "p \<in> owned_function_types m"
    show "p < length (function_objs h')" using own[OF p] xs(2) by simp
    show "set (fst (function_objs h' ! p)) \<subseteq> {..<length (type_objs h')}" "snd (function_objs h' ! p) < length (type_objs h')"
      using own(2,3)[OF p] same(1)[OF p] xs(1) by fastforce+
  next
    fix key p
    have "function_types m key = Some p \<longleftrightarrow> p \<in> owned_function_types m \<and> FunctionType_ToString (function_type_at h (function_objs h ! p)) = key"
      using assms(1) by (simp add: fn_ok_def)
    then show "function_types m key = Some p \<longleftrightarrow> p \<in> owned_function_types m \<and> FunctionType_ToString (function_type_at h' (function_objs h' ! p)) = key"
      using same(2) by metis
  qed
qed

text \<open>The getter of function types.\<close>

lemma GetFunctionType_Some:
  assumes ok: "arena_ok h m" "fn_ok h m" and ret: "ret < length (type_objs h)"
    and r: "GetFunctionType args ret h m = Some (p, h', m')"
  shows "heap_grows h h' \<and> arena_ok h' m' \<and> fn_ok h' m' \<and> owned_types m' = owned_types m \<and> type_objs h' = type_objs h \<and>
    p \<in> owned_function_types m' \<and> function_type_at h' (function_objs h' ! p) = function_type_at h (args, ret)"
proof -
  let ?key = "FunctionType_ToString (function_type_at h (args, ret))"
  have hp: "heap_ok (type_objs h)" using ok(1) by (simp add: arena_ok_def)
  have fn: "function_types m k = Some q \<longleftrightarrow> q \<in> owned_function_types m \<and> FunctionType_ToString (function_type_at h (function_objs h ! q)) = k" for k q
    using ok(2) by (simp add: fn_ok_def)
  show ?thesis
  proof (cases "function_types m ?key")
    case (Some q)
    then have "p = q" "h' = h" "m' = m" using r by (simp_all add: GetFunctionType_def)
    moreover have "heap_grows h h" using hp by (simp add: heap_grows_def)
    moreover have "q \<in> owned_function_types m" "function_type_at h (function_objs h ! q) = function_type_at h (args, ret)"
      using fn[of ?key q] Some FunctionType_ToString_inject by blast+
    ultimately show ?thesis using ok by simp
  next
    case None
    let ?n = "length (function_objs h)"
    have own: "set args \<subseteq> owned_types m" and res: "p = ?n" "h' = h\<lparr>function_objs := function_objs h @ [(args, ret)]\<rparr>"
      "m' = m\<lparr>function_types := (function_types m)(?key \<mapsto> ?n), owned_function_types := insert ?n (owned_function_types m)\<rparr>"
      using r None by (auto simp: GetFunctionType_def alloc_function_def mapM_CHECK list_all_iff IsOwnedType_def split: if_splits)
    have grows: "heap_grows h h'" using hp by (simp add: heap_grows_def res(2))
    have below: "q < ?n" if "q \<in> owned_function_types m" for q using ok(2) that by (simp add: fn_ok_def)
    have fta: "function_type_at h' f = function_type_at h f" for f by (simp add: function_type_at_def res(2))
    have "arena_ok h' m'"
    proof -
      have "interned m' obj = interned m obj" for obj by (cases obj) (simp_all add: res(3))
      then show ?thesis using ok(1) by (simp add: arena_ok_def res(2,3))
    qed
    moreover have "fn_ok h' m'" unfolding fn_ok_def
    proof (intro conjI ballI allI)
      fix q assume "q \<in> owned_function_types m'"
      then consider "q = ?n" | "q \<in> owned_function_types m" by (auto simp: res(3))
      then show "q < length (function_objs h')" "set (fst (function_objs h' ! q)) \<subseteq> {..<length (type_objs h')}" "snd (function_objs h' ! q) < length (type_objs h')"
        using own ret ok(1) fn_ok_grows[OF ok(2) hp grows] by (cases; force simp: res(2) fn_ok_def arena_ok_def)+
    next
      fix k q
      show "function_types m' k = Some q \<longleftrightarrow> q \<in> owned_function_types m' \<and> FunctionType_ToString (function_type_at h' (function_objs h' ! q)) = k"
      proof (cases "q = ?n")
        case True
        then have "function_types m k \<noteq> Some q" using fn[of k q] below[of q] by blast
        then show ?thesis using True None by (auto simp: fta) (auto simp: res(2,3) split: if_splits)
      next
        case False
        then have "q \<in> owned_function_types m' \<longleftrightarrow> q \<in> owned_function_types m" by (simp add: res(3))
        moreover have "function_objs h' ! q = function_objs h ! q" if "q \<in> owned_function_types m" using below[OF that] by (simp add: res(2) nth_append)
        moreover have "k \<noteq> ?key" if "function_types m k = Some q" using that None by auto
        ultimately show ?thesis using fn[of k q] False None by (auto simp: fta) (auto simp: res(3) split: if_splits)
      qed
    qed
    ultimately show ?thesis using grows fta by (simp add: res)
  qed
qed

lemma owned_function_ptr_eq:
  assumes "fn_ok h m" "p \<in> owned_function_types m" "q \<in> owned_function_types m"
    and "function_type_at h (function_objs h ! p) = function_type_at h (function_objs h ! q)"
  shows "p = q"
proof -
  let ?k = "FunctionType_ToString (function_type_at h (function_objs h ! p))"
  have "function_types m ?k = Some p" "function_types m ?k = Some q" using assms by (simp_all add: fn_ok_def)
  then show ?thesis by simp
qed

section \<open>Reachable states\<close>

inductive world :: "type_heap \<Rightarrow> TypeManager list \<Rightarrow> bool" where
  world_empty: "world \<lparr>type_objs = [], function_objs = []\<rparr> []"
| world_new: "world h ms \<Longrightarrow> new_TypeManager h = (h', m) \<Longrightarrow> world h' (ms @ [m])"
| world_bits: "world h ms \<Longrightarrow> i < length ms \<Longrightarrow> GetBitsType n h (ms ! i) = (p, h', m') \<Longrightarrow> world h' (ms[i := m'])"
| world_array: "world h ms \<Longrightarrow> i < length ms \<Longrightarrow> GetArrayType n q h (ms ! i) = Some (p, h', m') \<Longrightarrow> world h' (ms[i := m'])"
| world_tuple: "world h ms \<Longrightarrow> i < length ms \<Longrightarrow> GetTupleType qs h (ms ! i) = Some (p, h', m') \<Longrightarrow> world h' (ms[i := m'])"
| world_function: "world h ms \<Longrightarrow> i < length ms \<Longrightarrow> ret < length (type_objs h) \<Longrightarrow>
    GetFunctionType args ret h (ms ! i) = Some (p, h', m') \<Longrightarrow> world h' (ms[i := m'])"
| world_value: "world h ms \<Longrightarrow> i < length ms \<Longrightarrow> GetTypeForValue v h (ms ! i) = Some (p, h', m') \<Longrightarrow> world h' (ms[i := m'])"
| world_proto: "world h ms \<Longrightarrow> i < length ms \<Longrightarrow> GetTypeFromProto proto h (ms ! i) = Some (Inr (p, h', m')) \<Longrightarrow> world h' (ms[i := m'])"
| world_function_proto: "world h ms \<Longrightarrow> i < length ms \<Longrightarrow>
    GetFunctionTypeFromProto fproto h (ms ! i) = Some (Inr (p, h', m')) \<Longrightarrow> world h' (ms[i := m'])"
| world_other: "world h ms \<Longrightarrow> i < length ms \<Longrightarrow> q < length (type_objs h) \<Longrightarrow>
    MapTypeFromOtherArena q h (ms ! i) = Some (Inr (p, h', m')) \<Longrightarrow> world h' (ms[i := m'])"

text \<open>A call that ends in an error has made the types of the members before the error, each through one of
  these steps, so it adds no other state.\<close>

definition world_ok :: "type_heap \<Rightarrow> TypeManager list \<Rightarrow> bool" where
  "world_ok h ms \<longleftrightarrow> heap_ok (type_objs h) \<and> (\<forall>m\<in>set ms. arena_ok h m \<and> fn_ok h m) \<and>
     (\<forall>i<length ms. \<forall>j<length ms. i \<noteq> j \<longrightarrow> owned_types (ms ! i) \<inter> owned_types (ms ! j) = {})"

lemma world_ok_step:
  assumes "world_ok h ms" "i < length ms" "heap_grows h h'" "arena_ok h' m'" "fn_ok h' m'"
    and "\<forall>p\<in>owned_types m' - owned_types (ms ! i). length (type_objs h) \<le> p"
  shows "world_ok h' (ms[i := m'])"
proof -
  have hp: "heap_ok (type_objs h)" "heap_ok (type_objs h')" using assms(1,3) by (auto simp: world_ok_def heap_grows_def)
  have old: "arena_ok h m \<and> fn_ok h m" if "m \<in> set ms" for m using assms(1) that by (simp add: world_ok_def)
  have "arena_ok h' m \<and> fn_ok h' m" if "m \<in> set (ms[i := m'])" for m
    using that set_update_subset_insert[of ms i m'] old arena_ok_grows[OF _ assms(3)] fn_ok_grows[OF _ hp(1) assms(3)] assms(4,5) by blast
  moreover have "owned_types m' \<inter> owned_types (ms ! j) = {}" if j: "j < length ms" "j \<noteq> i" for j
  proof -
    have "p < length (type_objs h)" if "p \<in> owned_types (ms ! j)" for p using old[of "ms ! j"] j(1) that by (simp add: arena_ok_def)
    moreover have "owned_types (ms ! i) \<inter> owned_types (ms ! j) = {}" using assms(1,2) j by (simp add: world_ok_def)
    ultimately show ?thesis using assms(6) by (metis Diff_iff disjoint_iff not_le)
  qed
  moreover have "owned_types (ms ! j) \<inter> owned_types (ms ! k) = {}" if "j < length ms" "k < length ms" "j \<noteq> k" for j k
    using assms(1) that by (simp add: world_ok_def)
  ultimately have "owned_types (ms[i := m'] ! j) \<inter> owned_types (ms[i := m'] ! k) = {}" if "j < length ms" "k < length ms" "j \<noteq> k" for j k
    using that assms(2) by (cases "j = i"; cases "k = i") (auto simp: Int_commute)
  then show ?thesis using hp(2) \<open>\<And>m. m \<in> set (ms[i := m']) \<Longrightarrow> arena_ok h' m \<and> fn_ok h' m\<close> by (simp add: world_ok_def)
qed

lemma world_ok_gives:
  assumes "world_ok h ms" "i < length ms" "gives t h (ms ! i) (p, h', m')"
  shows "world_ok h' (ms[i := m'])"
proof -
  have g: "arena_ok h' m'" "extends h (ms ! i) h' m'" using assms(3) by (auto simp: gives_def)
  have "fn_ok h (ms ! i)" "heap_ok (type_objs h)" using assms(1,2) by (auto simp: world_ok_def)
  from fn_ok_grows[OF this extends_grows[OF g(2)]] have "fn_ok h' m'" using g(2) by (simp add: extends_def fn_ok_def)
  then show ?thesis using world_ok_step[OF assms(1,2) extends_grows[OF g(2)] g(1)] g(2) by (simp add: extends_def)
qed

lemma GetTupleType_owned:
  assumes "arena_ok h m" "GetTupleType qs h m = Some r"
  shows "set qs \<subseteq> owned_types m"
proof (cases "tuple_types m qs")
  case (Some p)
  then have "interned m (TupleObj qs) = Some p" by simp
  from gives_existing(2,3)[OF assms(1) this] have "set (obj_refs (TupleObj qs)) \<subseteq> owned_types m"
    using assms(1) unfolding arena_ok_def by metis
  then show ?thesis by simp
next
  case None
  then show ?thesis using assms(2) by (auto simp: GetTupleType_def mapM_CHECK list_all_iff IsOwnedType_def split: if_splits)
qed

lemma world_ok_function_proto:
  assumes ok: "world_ok h ms" "i < length ms" and r: "GetFunctionTypeFromProto fproto h (ms ! i) = Some (Inr (p, h', m'))"
  shows "world_ok h' (ms[i := m'])"
proof -
  have m: "arena_ok h (ms ! i)" "fn_ok h (ms ! i)" "heap_ok (type_objs h)" using ok by (auto simp: world_ok_def)
  obtain c where c: "collect GetTypeFromProto (ftp_parameters fproto) h (ms ! i) = Some c"
      "case mapM proto_meaning (ftp_parameters fproto) of None \<Rightarrow> c = Inl InvalidArgument
       | Some ts \<Rightarrow> \<exists>qs h' m'. c = Inr (qs, h', m') \<and> arena_ok h' m' \<and> extends h (ms ! i) h' m' \<and> set qs \<subseteq> owned_types m' \<and>
           map (type_at (type_objs h')) qs = ts"
    using collect_gives[of "ftp_parameters fproto" h "ms ! i" GetTypeFromProto proto_meaning h "ms ! i"] m(1)
      GetTypeFromProto_spec arena_extends_refl[OF m(1)] by blast
  obtain qs h1 m1 where q: "c = Inr (qs, h1, m1)" "arena_ok h1 m1" "extends h (ms ! i) h1 m1"
    using r c by (cases "mapM proto_meaning (ftp_parameters fproto)") (auto simp: GetFunctionTypeFromProto_def)
  obtain rp where rp: "ftp_return_type fproto = Some rp" using r c(1) q(1) by (cases "ftp_return_type fproto") (auto simp: GetFunctionTypeFromProto_def)
  obtain y where y: "GetTypeFromProto rp h1 m1 = Some y"
      "case proto_meaning rp of None \<Rightarrow> y = Inl InvalidArgument | Some t \<Rightarrow> \<exists>z. y = Inr z \<and> gives t h1 m1 z"
    using GetTypeFromProto_spec[OF q(2), of rp] by blast
  obtain ret h2 m2 where t: "y = Inr (ret, h2, m2)" "arena_ok h2 m2" "extends h1 m1 h2 m2" "ret \<in> owned_types m2"
    using r c(1) q(1) rp y by (cases "proto_meaning rp") (auto simp: GetFunctionTypeFromProto_def gives_def)
  have ex: "extends h (ms ! i) h2 m2" using arena_extends_trans[OF q(3) t(3)] .
  have "fn_ok h2 (ms ! i)" using fn_ok_grows[OF m(2,3) extends_grows[OF ex]] .
  then have fn: "fn_ok h2 m2" using ex by (simp add: extends_def fn_ok_def)
  have f: "GetFunctionType qs ret h2 m2 = Some (p, h', m')"
    using r c(1) q(1) rp y(1) t(1) by (auto simp: GetFunctionTypeFromProto_def ok_def)
  have "ret < length (type_objs h2)" using t(2,4) by (auto simp: arena_ok_def)
  note g = GetFunctionType_Some[OF t(2) fn this f]
  have "heap_grows h h'" using extends_grows[OF ex] g by (auto simp: heap_grows_def)
  then show ?thesis using world_ok_step[OF ok, of h' m'] g ex by (simp add: extends_def)
qed

lemma world_invariant: "world h ms \<Longrightarrow> world_ok h ms"
proof (induction rule: world.induct)
  case world_empty
  then show ?case by (simp add: world_ok_def heap_ok_def)
next
  case (world_new h ms h' m)
  have hp: "heap_ok (type_objs h)" using world_new.IH by (simp add: world_ok_def)
  have new: "arena_ok h' m" "type_objs h' = type_objs h @ [TokenObj]" using new_TypeManager_ok[OF hp] world_new.hyps(2) by simp_all
  have m: "owned_types m = {length (type_objs h)}" "fn_ok h' m" "function_objs h' = function_objs h"
    using world_new.hyps(2) by (auto simp: new_TypeManager_def alloc_type_def fn_ok_def)
  have grows: "heap_grows h h'" using new m(3) by (simp add: heap_grows_def arena_ok_def)
  have "owned_types (ms ! i) \<inter> {length (type_objs h)} = {}" if "i < length ms" for i
    using world_new.IH that by (fastforce simp: world_ok_def arena_ok_def)
  moreover have "arena_ok h' m' \<and> fn_ok h' m'" if "m' \<in> set ms" for m'
    using world_new.IH that arena_ok_grows[OF _ grows] fn_ok_grows[OF _ hp grows] by (simp add: world_ok_def)
  moreover have "owned_types (ms ! i) \<inter> owned_types (ms ! j) = {}" if "i < length ms" "j < length ms" "i \<noteq> j" for i j
    using world_new.IH that by (simp add: world_ok_def)
  ultimately show ?case using new(1) m(1,2) unfolding world_ok_def
    by (auto simp: nth_append less_Suc_eq arena_ok_def)
next
  case (world_bits h ms i n p h' m')
  then have "arena_ok h (ms ! i)" by (simp add: world_ok_def)
  from GetBitsType_gives[OF this, of n] world_bits show ?case using world_ok_gives by metis
next
  case (world_array h ms i n q p h' m')
  then have ok: "arena_ok h (ms ! i)" by (simp add: world_ok_def)
  moreover have "q \<in> owned_types (ms ! i)" using GetArrayType_foreign[OF ok] world_array.hyps(3) by fastforce
  ultimately show ?case using GetArrayType_gives[of h "ms ! i" q n] world_array world_ok_gives by (metis option.inject)
next
  case (world_tuple h ms i qs p h' m')
  then have ok: "arena_ok h (ms ! i)" by (simp add: world_ok_def)
  from GetTupleType_gives[OF ok GetTupleType_owned[OF ok world_tuple.hyps(3)]] show ?case
    using world_tuple world_ok_gives by (metis option.inject)
next
  case (world_function h ms i ret args p h' m')
  then have ok: "arena_ok h (ms ! i)" "fn_ok h (ms ! i)" by (simp_all add: world_ok_def)
  note r = GetFunctionType_Some[OF ok world_function.hyps(3,4)]
  then show ?case using world_ok_step[OF world_function.IH world_function.hyps(2)] by simp
next
  case (world_value h ms i v p h' m')
  then have "arena_ok h (ms ! i)" by (simp add: world_ok_def)
  from GetTypeForValue_any[OF this world_value.hyps(3)] show ?case using world_ok_gives[OF world_value.IH world_value.hyps(2)] by blast
next
  case (world_proto h ms i pr p h' m')
  then have "arena_ok h (ms ! i)" by (simp add: world_ok_def)
  from GetTypeFromProto_spec[OF this, of pr] world_proto.hyps(3) obtain t where "gives t h (ms ! i) (p, h', m')"
    by (auto split: option.splits)
  then show ?case by (rule world_ok_gives[OF world_proto.IH world_proto.hyps(2)])
next
  case (world_function_proto h ms i fp p h' m')
  then show ?case using world_ok_function_proto by blast
next
  case (world_other h ms i q p h' m')
  then have "arena_ok h (ms ! i)" by (simp add: world_ok_def)
  from MapTypeFromOtherArena_gives[OF this world_other.hyps(3)] world_other.hyps(4) show ?case
    using world_ok_gives[OF world_other.IH world_other.hyps(2)] by auto
qed

end
