(* ===== verification/Type_Theorems.thy ===== *)
theory Type_Theorems
  imports Type_World
begin

text \<open>The properties of types and of the type manager.\<close>

lemma leaf_types_leaf: "u \<in> set (leaf_types t) \<Longrightarrow> IsLeafType u"
  by (induction t) (auto simp: IsLeafType_def split: if_splits)

text \<open>The leaves of a type and their indices: an index leads to the leaf type \<open>u\<close> at offset \<open>k\<close> exactly
  when \<open>u\<close> is the \<open>k\<close>th leaf type and the index the \<open>k\<close>th tree index, so that the precomputed vectors and
  the walk down the type agree and no index is listed twice.\<close>

theorem type_leaves_indexed:
  "GetSubtypeAndOffset t index = Some (u, k) \<and> IsLeafType u \<longleftrightarrow> tree_index t k = Some index \<and> leaf_type t k = Some u"
proof
  assume "GetSubtypeAndOffset t index = Some (u, k) \<and> IsLeafType u"
  then show "tree_index t k = Some index \<and> leaf_type t k = Some u"
    using index_of_leaf[of t index u k] by (simp add: tree_index_def leaf_type_def length_tree_index_vectors)
next
  assume "tree_index t k = Some index \<and> leaf_type t k = Some u"
  then have k: "k < leaf_count t" "tree_index_vectors t ! k = index" "leaf_types t ! k = u"
    by (auto simp: tree_index_def leaf_type_def nth_opt_def length_tree_index_vectors split: if_splits)
  then show "GetSubtypeAndOffset t index = Some (u, k) \<and> IsLeafType u"
    using leaf_at_index[OF k(1)] leaf_types_leaf[OF nth_mem[OF k(1)]] by simp
qed

section \<open>The manager\<close>

interpretation value_and_proto: type_sources "\<lambda>v h m. ok (GetTypeForValue v h m)" "\<lambda>v h. value_meaning v" GetTypeFromProto "\<lambda>p h. proto_meaning p"
  by unfold_locales

lemma world_arena: "world h ms \<Longrightarrow> i < length ms \<Longrightarrow> arena_ok h (ms ! i) \<and> fn_ok h (ms ! i)"
  using world_invariant by (auto simp: world_ok_def)


text \<open>MapTypeFromOtherArena returns for every pointer of the heap, whoever owns it: the result is a
  pointer of this manager to the same type, the pointer itself when it already owns it, and no other
  manager is disturbed.\<close>

lemma map_type_from_other_arena_ok:
  assumes "world h ms" "i < length ms" "p < length (type_objs h)"
  shows "\<exists>q h' m'. MapTypeFromOtherArena p h (ms ! i) = Some (Inr (q, h', m')) \<and> IsOwnedType m' q \<and>
    type_at (type_objs h') q = type_at (type_objs h) p \<and> (q = p \<longleftrightarrow> IsOwnedType (ms ! i) p) \<and>
    world_ok h' (ms[i := m'])"
proof -
  have ok: "arena_ok h (ms ! i)" using world_arena[OF assms(1,2)] by blast
  obtain q h' m' where r: "MapTypeFromOtherArena p h (ms ! i) = Some (Inr (q, h', m'))" "gives (type_at (type_objs h) p) h (ms ! i) (q, h', m')"
    using MapTypeFromOtherArena_gives[OF ok assms(3)] by auto
  have "q = p" if "IsOwnedType (ms ! i) p" using r(1) that by (simp add: MapTypeFromOtherArena.simps)
  moreover have "q \<noteq> p" if "\<not> IsOwnedType (ms ! i) p"
  proof
    assume "q = p"
    then have "p \<in> owned_types m' - owned_types (ms ! i)" using r(2) that by (simp add: gives_def IsOwnedType_def)
    moreover have "extends h (ms ! i) h' m'" using r(2) by (simp add: gives_def)
    ultimately have "length (type_objs h) \<le> p" unfolding extends_def by blast
    then show False using assms(3) by simp
  qed
  ultimately show ?thesis using r world_ok_gives[OF world_invariant[OF assms(1)] assms(2) r(2)] by (auto simp: gives_def IsOwnedType_def)
qed

text \<open>Two managers: the first owns the types of 8 and of 16 bits at addresses 1 and 2, and the second, whose
  token type is at 3, has mapped the type at address 1.\<close>

lemma world_two_managers:
  "\<exists>h m m'. world h [m, m'] \<and> IsOwnedType m 1 \<and> IsOwnedType m 2 \<and> IsOwnedType m' 4 \<and>
    type_at (type_objs h) 1 = BitsType 8 \<and> type_at (type_objs h) 2 = BitsType 16 \<and> type_at (type_objs h) 4 = BitsType 8"
proof -
  obtain h m where new: "new_TypeManager \<lparr>type_objs = [], function_objs = []\<rparr> = (h, m)" by fastforce
  obtain p h1 m1 where g1: "GetBitsType 8 h m = (p, h1, m1)" by (metis prod_cases3)
  obtain q h2 m2 where g2: "GetBitsType 16 h1 m1 = (q, h2, m2)" by (metis prod_cases3)
  obtain h3 m3 where n2: "new_TypeManager h2 = (h3, m3)" by fastforce
  have o: "type_objs h3 = [TokenObj, BitsObj 8, BitsObj 16, TokenObj]" "IsOwnedType m2 1" "IsOwnedType m2 2" "\<not> IsOwnedType m3 1"
    using new g1 g2 n2 by (auto simp: new_TypeManager_def GetBitsType_def alloc_type_def IsOwnedType_def split: option.splits)
  have "world h ([] @ [m])" by (rule world_new[OF world_empty new])
  from world_bits[OF this, of 0 8 p h1 m1] g1 have "world h1 [m1]" by simp
  from world_bits[OF this, of 0 16 q h2 m2] g2 have "world h2 [m2]" by simp
  from world_new[OF this n2] have w3: "world h3 [m2, m3]" by simp
  obtain r h4 m4 where g3: "GetBitsType 8 h3 m3 = (r, h4, m4)" by (metis prod_cases3)
  have r: "MapTypeFromOtherArena 1 h3 ([m2, m3] ! 1) = Some (Inr (r, h4, m4))" using o g3 by (subst MapTypeFromOtherArena.simps) simp
  have "world h4 [m2, m4]" using world_other[OF w3, of 1 1 r h4 m4] r o(1) by simp
  moreover have "r = 4" "IsOwnedType m4 4" "type_objs h4 = [TokenObj, BitsObj 8, BitsObj 16, TokenObj, BitsObj 8]"
    using g3 o(1) n2 by (auto simp: GetBitsType_def alloc_type_def IsOwnedType_def new_TypeManager_def)
  moreover have "type_at [TokenObj, BitsObj 8, BitsObj 16, TokenObj, BitsObj 8] 1 = BitsType 8"
      "type_at [TokenObj, BitsObj 8, BitsObj 16, TokenObj, BitsObj 8] 2 = BitsType 16"
      "type_at [TokenObj, BitsObj 8, BitsObj 16, TokenObj, BitsObj 8] 4 = BitsType 8" by code_simp+
  ultimately show ?thesis using o(2,3) by (intro exI[of _ h4] exI[of _ m2] exI[of _ m4]) simp
qed

text \<open>C6. In every state that any number of managers can reach, the pointers each manager owns are
  canonical: two pointers of one manager are equal exactly when their types are, which is what lets the
  compiler compare types by address, and no pointer is owned by two managers. The pointer of a well-formed
  value's type, and the pointer that another manager's type is mapped to, is owned by the manager asked
  and has that type; the mapping returns its argument exactly when the manager owns it already.\<close>

theorem type_pointers_canonical:
  assumes "world h ms" "i < length ms"
  shows "(\<forall>p q. IsOwnedType (ms ! i) p \<and> IsOwnedType (ms ! i) q \<longrightarrow> (p = q \<longleftrightarrow> type_at (type_objs h) p = type_at (type_objs h) q)) \<and>
    (\<forall>p. \<forall>j<length ms. j \<noteq> i \<and> IsOwnedType (ms ! i) p \<longrightarrow> \<not> IsOwnedType (ms ! j) p) \<and>
    (\<forall>v t. has_type v t \<longrightarrow> (\<exists>p h' m'. GetTypeForValue v h (ms ! i) = Some (p, h', m') \<and> world h' (ms[i := m']) \<and>
      IsOwnedType m' p \<and> type_at (type_objs h') p = t)) \<and>
    (\<forall>q<length (type_objs h). \<exists>p h' m'. MapTypeFromOtherArena q h (ms ! i) = Some (Inr (p, h', m')) \<and> world h' (ms[i := m']) \<and>
      IsOwnedType m' p \<and> type_at (type_objs h') p = type_at (type_objs h) q \<and> (p = q \<longleftrightarrow> IsOwnedType (ms ! i) q))"
proof (intro conjI allI impI)
  have ok: "arena_ok h (ms ! i)" using world_arena[OF assms] by blast
  show "p = q \<longleftrightarrow> type_at (type_objs h) p = type_at (type_objs h) q" if "IsOwnedType (ms ! i) p \<and> IsOwnedType (ms ! i) q" for p q
    using owned_ptr_eq[OF ok] that unfolding IsOwnedType_def by blast
  show "\<not> IsOwnedType (ms ! j) p" if "j < length ms" "j \<noteq> i \<and> IsOwnedType (ms ! i) p" for p j
    using world_invariant[OF assms(1)] assms(2) that unfolding world_ok_def IsOwnedType_def by blast
  show "\<exists>p h' m'. GetTypeForValue v h (ms ! i) = Some (p, h', m') \<and> world h' (ms[i := m']) \<and> IsOwnedType m' p \<and> type_at (type_objs h') p = t"
    if v: "has_type v t" for v t
  proof -
    obtain p h' m' where r: "GetTypeForValue v h (ms ! i) = Some (p, h', m')" "gives t h (ms ! i) (p, h', m')"
      using GetTypeForValue_gives[OF v ok] by auto
    then show ?thesis using world_value[OF assms r(1)] by (auto simp: gives_def IsOwnedType_def)
  qed
  show "\<exists>p h' m'. MapTypeFromOtherArena q h (ms ! i) = Some (Inr (p, h', m')) \<and> world h' (ms[i := m']) \<and>
      IsOwnedType m' p \<and> type_at (type_objs h') p = type_at (type_objs h) q \<and> (p = q \<longleftrightarrow> IsOwnedType (ms ! i) q)"
    if q: "q < length (type_objs h)" for q
    using map_type_from_other_arena_ok[OF assms q] world_other[OF assms q] by blast
qed

theorem type_pointers_canonical_witness:
  "\<exists>h m m'. world h [m, m'] \<and> IsOwnedType m 1 \<and> IsOwnedType m 2 \<and> IsOwnedType m' 4 \<and>
    type_at (type_objs h) 1 = BitsType 8 \<and> type_at (type_objs h) 2 = BitsType 16 \<and> type_at (type_objs h) 4 = BitsType 8 \<and>
    \<not> IsOwnedType m' 1 \<and> \<not> IsOwnedType m 4"
proof -
  obtain h m m' where w: "world h [m, m']" "IsOwnedType m 1" "IsOwnedType m 2" "IsOwnedType m' 4"
      "type_at (type_objs h) 1 = BitsType 8" "type_at (type_objs h) 2 = BitsType 16" "type_at (type_objs h) 4 = BitsType 8"
    using world_two_managers by blast
  have "\<not> IsOwnedType m' 1" using type_pointers_canonical[OF w(1), of 0, THEN conjunct2, THEN conjunct1, rule_format, of 1 1] w(2) by simp
  moreover have "\<not> IsOwnedType m 4"
    using type_pointers_canonical[OF w(1), of 0, THEN conjunct1, rule_format, of 1 4] w(2,5,7) by auto
  ultimately show ?thesis using w by blast
qed

text \<open>The type of a value and the type of its type message are one pointer: GetTypeForValue and
  GetTypeFromProto never abort on well-formed values and their messages, and the second call finds what
  the first made.\<close>

theorem value_and_message_types_agree:
  assumes "world h ms" "i < length ms" "has_type v t"
  shows "\<exists>p h1 m1 h2 m2 msg. GetTypeForValue v h (ms ! i) = Some (p, h1, m1) \<and> TypeAsProto v = Some (Inr msg) \<and>
    GetTypeFromProto msg h1 m1 = Some (Inr (p, h2, m2)) \<and> IsOwnedType m1 p \<and> type_at (type_objs h1) p = t"
proof -
  have ok: "arena_ok h (ms ! i)" using world_arena[OF assms(1,2)] by blast
  obtain p h1 m1 q h2 m2 where r: "ok (GetTypeForValue v h (ms ! i)) = Some (Inr (p, h1, m1))"
      "GetTypeFromProto (Type_ToProto t) h1 m1 = Some (Inr (q, h2, m2))" "p = q \<longleftrightarrow> t = t"
    by (rule value_and_proto.same_pointer[OF ok assms(3)[folded value_meaning_Some] proto_meaning_ToProto])
  have g: "GetTypeForValue v h (ms ! i) = Some (p, h1, m1)" using r(1) by (auto simp: ok_def)
  moreover obtain y where "GetTypeForValue v h (ms ! i) = Some y" "gives t h (ms ! i) y" using GetTypeForValue_gives[OF assms(3) ok] by blast
  ultimately have "IsOwnedType m1 p \<and> type_at (type_objs h1) p = t" by (auto simp: gives_def IsOwnedType_def)
  then show ?thesis using g r TypeAsProto_typed[OF assms(3)] by auto
qed



text \<open>Function types are keyed by their text, and the text determines the type: two calls of
  GetFunctionType return the same pointer exactly when parameter and return types are the same.\<close>

theorem function_types_canonical:
  assumes "world h ms" "i < length ms" "ret < length (type_objs h)" "ret' < length (type_objs h)"
    and "GetFunctionType args ret h (ms ! i) = Some (p, h1, m1)" "GetFunctionType args' ret' h1 m1 = Some (q, h2, m2)"
  shows "p = q \<longleftrightarrow> function_type_at h (args, ret) = function_type_at h (args', ret')"
proof -
  have ok: "arena_ok h (ms ! i)" "fn_ok h (ms ! i)" using world_arena[OF assms(1,2)] by blast+
  note 1 = GetFunctionType_Some[OF ok assms(3,5)]
  then have ok1: "arena_ok h1 m1" "fn_ok h1 m1" "ret' < length (type_objs h1)" using assms(4) by auto
  note 2 = GetFunctionType_Some[OF ok1 assms(6)]
  have p: "p < length (function_objs h1)" "p \<in> owned_function_types m2"
  proof -
    show "p < length (function_objs h1)" using 1 by (simp add: fn_ok_def)
    show "p \<in> owned_function_types m2" using 1 assms(6)
      by (auto simp: GetFunctionType_def Let_def alloc_function_def split: option.splits if_splits prod.splits)
         (auto simp: bind_eq_Some_conv)
  qed
  have same: "function_type_at h' f = function_type_at h f" if "type_objs h' = type_objs h" for h' f
    using that by (simp add: function_type_at_def)
  have objs: "type_objs h1 = type_objs h" "type_objs h2 = type_objs h" using 1 2 by simp_all
  have "function_objs h2 ! p = function_objs h1 ! p" using 2 p(1) by (auto simp: heap_grows_def nth_append)
  then have tp: "function_type_at h2 (function_objs h2 ! p) = function_type_at h (args, ret)"
    using 1 same[OF objs(1)] same[OF objs(2)] by simp
  have tq: "function_type_at h2 (function_objs h2 ! q) = function_type_at h (args', ret')" using 2 same[OF objs(1)] by simp
  have "fn_ok h2 m2" "q \<in> owned_function_types m2" using 2 by blast+
  then show ?thesis using owned_function_ptr_eq[of h2 m2 p q] p(2) tp tq by auto
qed

end
