(* ===== verification/Leaf_Type_Tree.thy ===== *)
theory Leaf_Type_Tree
  imports Value_Utils
begin

text \<open>
  \<^verbatim>\<open>xls/data_structures/leaf_type_tree\<close>: a value of some C++ type for every leaf of an XLS type, kept in one
  vector. A tree, and an immutable view of a tree or of a part of it, is a type with the elements of its
  leaves; a mutable view is a range of the vector of the tree it was made from, and writing through it
  gives the view with the vector updated. Types are compared by pointer in the code, which the theory of
  the type manager shows to be equality of types. Callbacks are functions on the state they change.
\<close>

section \<open>Trees and views\<close>

record 'a ltt =
  ltt_type :: Type
  ltt_elements :: "'a list"

definition LeafTypeTree_init :: "Type \<Rightarrow> 'a \<Rightarrow> 'a ltt" where
  "LeafTypeTree_init t init_value = \<lparr>ltt_type = t, ltt_elements = replicate (leaf_count t) init_value\<rparr>"

definition LeafTypeTree_span :: "Type \<Rightarrow> 'a list \<Rightarrow> 'a ltt option" where
  "LeafTypeTree_span t es = do { CHECK (length es = leaf_count t); Some \<lparr>ltt_type = t, ltt_elements = es\<rparr> }"

definition CreateFromVector :: "Type \<Rightarrow> 'a list \<Rightarrow> 'a ltt option" where
  "CreateFromVector t es = do { CHECK (length es = leaf_count t); Some \<lparr>ltt_type = t, ltt_elements = es\<rparr> }"

definition CreateSingleElementTree :: "Type \<Rightarrow> 'a \<Rightarrow> 'a ltt option" where
  "CreateSingleElementTree t e = do { CHECK (leaf_count t = 1); Some \<lparr>ltt_type = t, ltt_elements = [e]\<rparr> }"

text \<open>\<^verbatim>\<open>absl::Span::subspan\<close> ends the process when it starts past the end, and is cut off at the end.\<close>

definition subspan :: "'a list \<Rightarrow> nat \<Rightarrow> nat \<Rightarrow> 'a list option" where
  "subspan es start len = do { CHECK (start \<le> length es); Some (take len (drop start es)) }"

definition CreateFromSpans :: "Type \<Rightarrow> 'a list \<Rightarrow> int list \<Rightarrow> 'a ltt option" where
  "CreateFromSpans t es index =
     (if index = [] then Some \<lparr>ltt_type = t, ltt_elements = es\<rparr>
      else do {
        (subtype, linear_offset) \<leftarrow> GetSubtypeAndOffset t index;
        s \<leftarrow> subspan es linear_offset (leaf_count subtype);
        Some \<lparr>ltt_type = subtype, ltt_elements = s\<rparr> })"

definition AsView :: "'a ltt \<Rightarrow> int list \<Rightarrow> 'a ltt option" where
  "AsView tree index = CreateFromSpans (ltt_type tree) (ltt_elements tree) index"

definition ltt_Get :: "'a ltt \<Rightarrow> int list \<Rightarrow> 'a option" where
  "ltt_Get tree index = do { k \<leftarrow> GetLinearOffset (ltt_type tree) index; nth_opt (ltt_elements tree) k }"

definition ltt_Set :: "'a ltt \<Rightarrow> int list \<Rightarrow> 'a \<Rightarrow> 'a ltt option" where
  "ltt_Set tree index e = do {
     k \<leftarrow> GetLinearOffset (ltt_type tree) index;
     es \<leftarrow> set_opt (ltt_elements tree) k e;
     Some (tree\<lparr>ltt_elements := es\<rparr>) }"

section \<open>Mutable views\<close>

record 'a mview =
  mv_type :: Type
  mv_base :: "'a list"
  mv_offset :: nat
  mv_size :: nat

definition mv_elements :: "'a mview \<Rightarrow> 'a list" where
  "mv_elements v = take (mv_size v) (drop (mv_offset v) (mv_base v))"

definition mv_view :: "'a mview \<Rightarrow> 'a ltt" where
  "mv_view v = \<lparr>ltt_type = mv_type v, ltt_elements = mv_elements v\<rparr>"

definition AsMutableView :: "'a mview \<Rightarrow> int list \<Rightarrow> 'a mview option" where
  "AsMutableView v index =
     (if index = [] then Some v
      else do {
        (subtype, linear_offset) \<leftarrow> GetSubtypeAndOffset (mv_type v) index;
        CHECK (linear_offset \<le> mv_size v);
        Some \<lparr>mv_type = subtype, mv_base = mv_base v, mv_offset = mv_offset v + linear_offset,
              mv_size = min (leaf_count subtype) (mv_size v - linear_offset)\<rparr> })"

definition ltt_mview :: "'a ltt \<Rightarrow> 'a mview" where
  "ltt_mview tree = \<lparr>mv_type = ltt_type tree, mv_base = ltt_elements tree, mv_offset = 0, mv_size = length (ltt_elements tree)\<rparr>"

definition mv_update :: "'a mview \<Rightarrow> nat \<Rightarrow> 'a \<Rightarrow> 'a mview option" where
  "mv_update v k e = do {
     CHECK (k < mv_size v);
     es \<leftarrow> set_opt (mv_base v) (mv_offset v + k) e;
     Some (v\<lparr>mv_base := es\<rparr>) }"

definition mv_Get :: "'a mview \<Rightarrow> int list \<Rightarrow> 'a option" where
  "mv_Get v index = ltt_Get (mv_view v) index"

definition mv_Set :: "'a mview \<Rightarrow> int list \<Rightarrow> 'a \<Rightarrow> 'a mview option" where
  "mv_Set v index e = do { k \<leftarrow> GetLinearOffset (mv_type v) index; mv_update v k e }"

section \<open>The leaf iterator\<close>

record leaf_iterator =
  root_type :: Type
  prefix_size :: nat
  it_linear_index :: nat
  it_type_index :: "int list"

definition LeafTypeTreeIterator :: "Type \<Rightarrow> int list \<Rightarrow> leaf_iterator" where
  "LeafTypeTreeIterator t index_prefix =
     \<lparr>root_type = t, prefix_size = length index_prefix, it_linear_index = 0, it_type_index = index_prefix\<rparr>"

definition AtEnd :: "leaf_iterator \<Rightarrow> bool" where
  "AtEnd it \<longleftrightarrow> it_linear_index it = leaf_count (root_type it)"

definition it_leaf_type :: "leaf_iterator \<Rightarrow> Type option" where
  "it_leaf_type it = do { CHECK (\<not> AtEnd it); leaf_type (root_type it) (it_linear_index it) }"

definition linear_index :: "leaf_iterator \<Rightarrow> nat option" where
  "linear_index it = do { CHECK (\<not> AtEnd it); Some (it_linear_index it) }"

definition Advance :: "leaf_iterator \<Rightarrow> (bool \<times> leaf_iterator) option" where
  "Advance it = do {
     CHECK (\<not> AtEnd it);
     let it = it\<lparr>it_linear_index := it_linear_index it + 1, it_type_index := take (prefix_size it) (it_type_index it)\<rparr>;
     Some (\<not> AtEnd it, it) }"

text \<open>The index is computed on demand and kept in the iterator.\<close>

definition type_index :: "leaf_iterator \<Rightarrow> (int list \<times> leaf_iterator) option" where
  "type_index it = do {
     CHECK (\<not> AtEnd it);
     if prefix_size it = 0 then do {
       index \<leftarrow> tree_index (root_type it) (it_linear_index it);
       Some (index, it) }
     else if length (it_type_index it) > prefix_size it then Some (it_type_index it, it)
     else do {
       index \<leftarrow> tree_index (root_type it) (it_linear_index it);
       if index = [] then Some (it_type_index it, it)
       else let index = it_type_index it @ index in Some (index, it\<lparr>it_type_index := index\<rparr>) } }"

definition iterator_ToString :: "leaf_iterator \<Rightarrow> string option" where
  "iterator_ToString it =
     (if AtEnd it then Some (''root_type='' @ Type_ToString (root_type it) @ '', END'')
      else do {
        t \<leftarrow> leaf_type (root_type it) (it_linear_index it);
        (index, _) \<leftarrow> type_index it;
        Some (''root_type='' @ Type_ToString (root_type it) @ '', leaf_type='' @ Type_ToString t @
              '', type_index={'' @ str_join '','' (map dec_string index) @ ''}, linear_index='' @
              nat_dec (it_linear_index it)) })"

text \<open>The loop \<^verbatim>\<open>while (!it.AtEnd())\<close> of the functions below; the body sees the type, the position and the index of the leaf.\<close>

function for_each_leaf ::
    "(Type \<Rightarrow> nat \<Rightarrow> int list \<Rightarrow> 's \<Rightarrow> 's status_or option) \<Rightarrow> leaf_iterator \<Rightarrow> 's \<Rightarrow> 's status_or option" where
  "for_each_leaf f it s =
     (if AtEnd it then Some (Inr s)
      else do {
        t \<leftarrow> it_leaf_type it;
        k \<leftarrow> linear_index it;
        (index, it') \<leftarrow> type_index it;
        ASSIGN_OR_RETURN (f t k index s) (\<lambda>s. do { (_, it'') \<leftarrow> Advance it'; for_each_leaf f it'' s }) })"
  by pat_completeness auto
termination
proof (relation "measure (\<lambda>(f, it, s). leaf_count (root_type it) - it_linear_index it)")
  fix f :: "Type \<Rightarrow> nat \<Rightarrow> int list \<Rightarrow> 's \<Rightarrow> 's status_or option" and it s t k index it' s' b it'' p q
  assume a: "\<not> AtEnd it" "it_leaf_type it = Some t" "type_index it = Some p" "(index, it') = p" "Advance it' = Some q" "(b, it'') = q"
  have "it_linear_index it < leaf_count (root_type it)" using a(2) by (auto simp: it_leaf_type_def leaf_type_def nth_opt_def split: if_splits)
  moreover have "root_type it' = root_type it" "it_linear_index it' = it_linear_index it"
    using a(3,4) by (auto simp: type_index_def Let_def tree_index_def nth_opt_def split: if_splits)
  moreover have "root_type it'' = root_type it'" "it_linear_index it'' = Suc (it_linear_index it')"
    using a(5,6) by (auto simp: Advance_def Let_def split: if_splits)
  ultimately show "((f, it'', s'), (f, it, s)) \<in> measure (\<lambda>(f, it, s). leaf_count (root_type it) - it_linear_index it)" by simp
qed simp

declare for_each_leaf.simps [simp del]

end
