(* ===== verification/Leaf_Tree_Ops.thy ===== *)
theory Leaf_Tree_Ops
  imports Leaf_Type_Tree
begin

text \<open>
  The functions of the namespace \<^verbatim>\<open>leaf_type_tree\<close>, the printer and the conversions of \<^verbatim>\<open>value_utils\<close> between
  values and trees. A function passed in may return an error, which ends the loop that called it; an
  access past the end of a span, undefined in the code, is \<open>None\<close>.
\<close>

section \<open>Construction\<close>

definition CreateFromFunction :: "Type \<Rightarrow> (Type \<Rightarrow> 'a status_or option) \<Rightarrow> 'a ltt status_or option" where
  "CreateFromFunction t f =
     ASSIGN_OR_RETURN (mapS f (leaf_types t)) (\<lambda>es. Some (Inr \<lparr>ltt_type = t, ltt_elements = es\<rparr>))"

definition CreateFromFunction_index :: "Type \<Rightarrow> (Type \<Rightarrow> int list \<Rightarrow> 'a status_or option) \<Rightarrow> 'a ltt status_or option" where
  "CreateFromFunction_index t f =
     ASSIGN_OR_RETURN
       (for_each_leaf (\<lambda>leaf k index es. ASSIGN_OR_RETURN (f leaf index) (\<lambda>e. Some (Inr (es @ [e])))) (LeafTypeTreeIterator t []) [])
       (\<lambda>es. do { r \<leftarrow> CreateFromVector t es; Some (Inr r) })"

definition CreateArray :: "nat \<Rightarrow> Type \<Rightarrow> 'a ltt list \<Rightarrow> 'a ltt status_or option" where
  "CreateArray n elem_type es =
     ASSIGN_OR_RETURN (RET_CHECK (n = length es)) (\<lambda>_.
     ASSIGN_OR_RETURN (mapS (\<lambda>e. RET_CHECK (elem_type = ltt_type e)) es) (\<lambda>_.
       do { r \<leftarrow> CreateFromVector (ArrayType n elem_type) (concat (map ltt_elements es)); Some (Inr r) }))"

definition CreateTuple :: "Type list \<Rightarrow> 'a ltt list \<Rightarrow> 'a ltt status_or option" where
  "CreateTuple members es =
     ASSIGN_OR_RETURN (RET_CHECK (length members = length es)) (\<lambda>_.
     ASSIGN_OR_RETURN (mapS (\<lambda>(t, e). RET_CHECK (t = ltt_type e)) (zip members es)) (\<lambda>_.
       do { r \<leftarrow> CreateFromVector (TupleType members) (concat (map ltt_elements es)); Some (Inr r) }))"

text \<open>The first error of the checks is kept, but every element is looked at.\<close>

definition ConcatArray_check :: "Type \<Rightarrow> 'a ltt \<Rightarrow> unit status_or" where
  "ConcatArray_check elem_type v =
     (case ltt_type v of
        ArrayType m u \<Rightarrow> if IsEqualTo elem_type u then Inr () else Inl Internal
      | _ \<Rightarrow> Inl InvalidArgument)"

definition ConcatArray :: "nat \<Rightarrow> Type \<Rightarrow> 'a ltt list \<Rightarrow> 'a ltt status_or option" where
  "ConcatArray n elem_type es =
     ASSIGN_OR_RETURN
       (Some (fold (\<lambda>v res. case res of Inl e \<Rightarrow> Inl e | Inr _ \<Rightarrow> ConcatArray_check elem_type v) es (Inr ()))) (\<lambda>_.
     ASSIGN_OR_RETURN
       (RET_CHECK (leaf_count (ArrayType n elem_type) = fold (\<lambda>v acc. acc + leaf_count (ltt_type v)) es 0)) (\<lambda>_.
       do { r \<leftarrow> CreateFromVector (ArrayType n elem_type) (concat (map ltt_elements es)); Some (Inr r) }))"

definition SliceArray :: "nat \<Rightarrow> Type \<Rightarrow> 'a ltt \<Rightarrow> int \<Rightarrow> 'a ltt status_or option" where
  "SliceArray n elem_type source start =
     (case ltt_type source of
        ArrayType src_size u \<Rightarrow>
          ASSIGN_OR_RETURN (RET_CHECK (elem_type = u)) (\<lambda>_.
          ASSIGN_OR_RETURN (RET_CHECK (start \<ge> 0)) (\<lambda>_.
          ASSIGN_OR_RETURN (RET_CHECK (src_size > 0)) (\<lambda>_. do {
            parts \<leftarrow> mapM (\<lambda>i. do {
                let source_idx = min (sr_result (SaturatingAdd int64_type (int i) start)) (int src_size - 1);
                subspan (ltt_elements source) (nat source_idx * leaf_count u) (leaf_count u) }) [0..<n];
            r \<leftarrow> CreateFromVector (ArrayType n elem_type) (concat parts);
            Some (Inr r) })))
      | _ \<Rightarrow> None)"

section \<open>Traversal\<close>

definition ReplaceElements :: "'a mview \<Rightarrow> 'a ltt \<Rightarrow> 'a mview status_or option" where
  "ReplaceElements dest source =
     ASSIGN_OR_RETURN (RET_CHECK (mv_type dest = ltt_type source)) (\<lambda>_. do {
       dest \<leftarrow> foldM (\<lambda>i dest. do { e \<leftarrow> nth_opt (ltt_elements source) i; mv_update dest i e }) [0..<mv_size dest] dest;
       Some (Inr dest) })"

definition ZipIndex ::
    "'a ltt list \<Rightarrow> (Type \<Rightarrow> 'a list \<Rightarrow> int list \<Rightarrow> 'b status_or option) \<Rightarrow> 'b ltt status_or option" where
  "ZipIndex inputs f =
     (case inputs of
        [] \<Rightarrow> Some (Inl Internal)
      | input # rest \<Rightarrow>
          ASSIGN_OR_RETURN (mapS (\<lambda>x. RET_CHECK (ltt_type input = ltt_type x)) rest) (\<lambda>_.
          ASSIGN_OR_RETURN
            (for_each_leaf (\<lambda>t k index es. do {
                input_elements \<leftarrow> mapM (\<lambda>x. nth_opt (ltt_elements x) k) inputs;
                ASSIGN_OR_RETURN (f t input_elements index) (\<lambda>e. Some (Inr (es @ [e]))) })
              (LeafTypeTreeIterator (ltt_type input) []) [])
            (\<lambda>es. do { r \<leftarrow> CreateFromVector (ltt_type input) es; Some (Inr r) })))"

definition ZipIndex2 ::
    "'a ltt \<Rightarrow> 'b ltt \<Rightarrow> (Type \<Rightarrow> 'a \<Rightarrow> 'b \<Rightarrow> int list \<Rightarrow> 'c status_or option) \<Rightarrow> 'c ltt status_or option" where
  "ZipIndex2 a b f =
     ASSIGN_OR_RETURN (RET_CHECK (ltt_type a = ltt_type b)) (\<lambda>_.
     ASSIGN_OR_RETURN
       (for_each_leaf (\<lambda>t k index es. do {
           x \<leftarrow> nth_opt (ltt_elements a) k;
           y \<leftarrow> nth_opt (ltt_elements b) k;
           ASSIGN_OR_RETURN (f t x y index) (\<lambda>e. Some (Inr (es @ [e]))) })
         (LeafTypeTreeIterator (ltt_type a) []) [])
       (\<lambda>es. do { r \<leftarrow> CreateFromVector (ltt_type a) es; Some (Inr r) }))"

definition ZipStatus :: "'a ltt \<Rightarrow> 'b ltt \<Rightarrow> ('a \<Rightarrow> 'b \<Rightarrow> 'c status_or option) \<Rightarrow> 'c ltt status_or option" where
  "ZipStatus a b f = ZipIndex2 a b (\<lambda>t x y index. f x y)"

definition Zip :: "'a ltt \<Rightarrow> 'b ltt \<Rightarrow> ('a \<Rightarrow> 'b \<Rightarrow> 'c) \<Rightarrow> 'c ltt option" where
  "Zip a b f = do { r \<leftarrow> ZipStatus a b (\<lambda>x y. Some (Inr (f x y))); StatusOr_value r }"

definition MapIndex :: "'a ltt \<Rightarrow> (Type \<Rightarrow> 'a \<Rightarrow> int list \<Rightarrow> 'b status_or option) \<Rightarrow> 'b ltt status_or option" where
  "MapIndex tree f = ZipIndex [tree] (\<lambda>t es index. case es of e # _ \<Rightarrow> f t e index | [] \<Rightarrow> None)"

definition ltt_Map :: "'a ltt \<Rightarrow> ('a \<Rightarrow> 'b option) \<Rightarrow> 'b ltt option" where
  "ltt_Map tree f = do { es \<leftarrow> mapM f (ltt_elements tree); CreateFromVector (ltt_type tree) es }"

definition MapStatus :: "'a ltt \<Rightarrow> ('a \<Rightarrow> 'b status_or option) \<Rightarrow> 'b ltt status_or option" where
  "MapStatus tree f =
     ASSIGN_OR_RETURN (mapS f (ltt_elements tree))
       (\<lambda>es. do { r \<leftarrow> CreateFromVector (ltt_type tree) es; Some (Inr r) })"

definition UpdateFrom ::
    "'a mview \<Rightarrow> 'b ltt \<Rightarrow> (Type \<Rightarrow> 'a \<Rightarrow> 'b \<Rightarrow> int list \<Rightarrow> 'a status_or option) \<Rightarrow> int list \<Rightarrow> 'a mview status_or option" where
  "UpdateFrom tree other update index_prefix =
     for_each_leaf (\<lambda>t k index v. do {
         x \<leftarrow> nth_opt (mv_elements v) k;
         y \<leftarrow> nth_opt (ltt_elements other) k;
         ASSIGN_OR_RETURN (update t x y index) (\<lambda>x'. do { v \<leftarrow> mv_update v k x'; Some (Inr v) }) })
       (LeafTypeTreeIterator (mv_type tree) index_prefix) tree"

definition SimpleUpdateFrom :: "'a mview \<Rightarrow> 'b ltt \<Rightarrow> ('a \<Rightarrow> 'b \<Rightarrow> 'a) \<Rightarrow> 'a mview option" where
  "SimpleUpdateFrom tree other update = do {
     CHECK (mv_type tree = ltt_type other);
     foldM (\<lambda>i v. do { x \<leftarrow> nth_opt (mv_elements v) i; y \<leftarrow> nth_opt (ltt_elements other) i; mv_update v i (update x y) })
       [0..<mv_size tree] tree }"

definition Clone :: "'a ltt \<Rightarrow> 'a ltt option" where
  "Clone tree = LeafTypeTree_span (ltt_type tree) (ltt_elements tree)"

definition ForEachIndex ::
    "'a ltt \<Rightarrow> (Type \<Rightarrow> 'a \<Rightarrow> int list \<Rightarrow> 's \<Rightarrow> 's status_or option) \<Rightarrow> int list \<Rightarrow> 's \<Rightarrow> 's status_or option" where
  "ForEachIndex tree f index_prefix s =
     for_each_leaf (\<lambda>t k index s. do { x \<leftarrow> nth_opt (ltt_elements tree) k; f t x index s })
       (LeafTypeTreeIterator (ltt_type tree) index_prefix) s"

definition FindMatchingIndex ::
    "'a ltt \<Rightarrow> (Type \<Rightarrow> 'a \<Rightarrow> int list \<Rightarrow> bool status_or option) \<Rightarrow> int list option status_or option" where
  "FindMatchingIndex view matcher =
     ASSIGN_OR_RETURN
       (foldS (\<lambda>(t, e, index) found. case found of
            Some i \<Rightarrow> Some (Inr (Some i))
          | None \<Rightarrow> ASSIGN_OR_RETURN (matcher t e index) (\<lambda>b. Some (Inr (if b then Some index else None))))
         (zip (leaf_types (ltt_type view)) (zip (ltt_elements view) (tree_index_vectors (ltt_type view)))) None)
       (\<lambda>r. Some (Inr r))"

section \<open>Sub-arrays\<close>

text \<open>The loop runs from the last entry to the first; the answer says whether the index overflowed.\<close>

definition IncrementArrayIndex :: "int list \<Rightarrow> int list \<Rightarrow> (bool \<times> int list) option" where
  "IncrementArrayIndex bounds array_index = do {
     CHECK (length bounds = length array_index);
     Some (foldr (\<lambda>(bound, i) (carry, rest).
         if carry then if i + 1 < bound then (False, (i + 1) # rest) else (True, 0 # rest) else (False, i # rest))
       (zip bounds array_index) (True, [])) }"

record sub_array_size =
  sub_type :: Type
  sub_bounds :: "int list"
  sub_element_count :: nat

fun GetSubArraySize :: "Type \<Rightarrow> nat \<Rightarrow> sub_array_size status_or" where
  "GetSubArraySize t 0 = Inr \<lparr>sub_type = t, sub_bounds = [], sub_element_count = leaf_count t\<rparr>"
| "GetSubArraySize (ArrayType n t) (Suc depth) =
     map_sum id (\<lambda>s. s\<lparr>sub_bounds := int n # sub_bounds s\<rparr>) (GetSubArraySize t depth)"
| "GetSubArraySize _ (Suc depth) = Inl InvalidArgument"

partial_function (option) for_each_sub_array ::
    "('a ltt \<Rightarrow> int list \<Rightarrow> 's \<Rightarrow> 's status_or option) \<Rightarrow> sub_array_size \<Rightarrow> 'a list \<Rightarrow> nat \<Rightarrow> int list \<Rightarrow> 's \<Rightarrow> 's status_or option" where
  "for_each_sub_array f sub es linear array_index s =
     Option.bind (subspan es linear (sub_element_count sub)) (\<lambda>part.
     Option.bind (f \<lparr>ltt_type = sub_type sub, ltt_elements = part\<rparr> array_index s) (\<lambda>r.
       case r of
         Inl e \<Rightarrow> Some (Inl e)
       | Inr s \<Rightarrow>
           Option.bind (IncrementArrayIndex (sub_bounds sub) array_index) (\<lambda>(overflow, array_index).
             if overflow then Some (Inr s)
             else for_each_sub_array f sub es (linear + sub_element_count sub) array_index s)))"

definition ForEachSubArray ::
    "'a ltt \<Rightarrow> nat \<Rightarrow> ('a ltt \<Rightarrow> int list \<Rightarrow> 's \<Rightarrow> 's status_or option) \<Rightarrow> 's \<Rightarrow> 's status_or option" where
  "ForEachSubArray tree index_depth f s =
     ASSIGN_OR_RETURN (Some (GetSubArraySize (ltt_type tree) index_depth))
       (\<lambda>sub. for_each_sub_array f sub (ltt_elements tree) 0 (replicate index_depth 0) s)"

section \<open>Printing\<close>

definition join_pieces :: "string \<Rightarrow> string \<Rightarrow> bool \<Rightarrow> nat \<Rightarrow> string list \<Rightarrow> string" where
  "join_pieces open_s close_s multiline indent pieces =
     (let indentation = replicate indent CHR '' '' in
      if multiline
      then indentation @ open_s @ [CHR 0x0A] @ str_join ('','' @ [CHR 0x0A]) pieces @ [CHR 0x0A] @ indentation @ close_s
      else open_s @ str_join '', '' pieces @ close_s)"

fun ToStringHelper :: "Type \<Rightarrow> string list \<Rightarrow> bool \<Rightarrow> nat \<Rightarrow> nat \<Rightarrow> (string \<times> nat) option" where
  "ToStringHelper (ArrayType n t) es multiline indent k = do {
     (pieces, k) \<leftarrow> foldM (\<lambda>_ (pieces, k). do {
         (p, k) \<leftarrow> ToStringHelper t es multiline (indent + 2) k;
         Some (pieces @ [p], k) }) [0..<n] ([], k);
     Some (join_pieces ''['' '']'' multiline indent pieces, k) }"
| "ToStringHelper (TupleType members) es multiline indent k = do {
     (pieces, k) \<leftarrow> foldM (\<lambda>t (pieces, k). do {
         (p, k) \<leftarrow> ToStringHelper t es multiline (indent + 2) k;
         Some (pieces @ [p], k) }) members ([], k);
     Some (if multiline \<and> pieces = [] then replicate indent CHR '' '' @ ''()''
           else join_pieces ''('' '')'' multiline indent pieces, k) }"
| "ToStringHelper _ es multiline indent k = do {
     e \<leftarrow> nth_opt es k;
     Some ((if multiline then replicate indent CHR '' '' @ e else e), k + 1) }"

definition ltt_ToString :: "'a ltt \<Rightarrow> ('a \<Rightarrow> string) \<Rightarrow> bool \<Rightarrow> string option" where
  "ltt_ToString tree f multiline =
     map_option fst (ToStringHelper (ltt_type tree) (map f (ltt_elements tree)) multiline 0 0)"

section \<open>Shared trees\<close>

datatype 'a shared_ltt = SharedView "'a ltt" | SharedOwned "'a ltt"

definition Shared_AsView :: "'a shared_ltt \<Rightarrow> int list \<Rightarrow> 'a ltt option" where
  "Shared_AsView s index = (case s of
     SharedView v \<Rightarrow> AsView v index
   | SharedOwned t \<Rightarrow> do { v \<leftarrow> AsView t []; AsView v index })"

definition ToOwned :: "'a shared_ltt \<Rightarrow> 'a ltt option" where
  "ToOwned s = (case s of
     SharedOwned t \<Rightarrow> Some t
   | SharedView v \<Rightarrow> LeafTypeTree_span (ltt_type v) (ltt_elements v))"

section \<open>Values\<close>

fun ValueLeafNodes :: "Value \<Rightarrow> Value list \<Rightarrow> Value list option" where
  "ValueLeafNodes (BitsValue b) leaves = Some (leaves @ [BitsValue b])"
| "ValueLeafNodes TokenValue leaves = Some (leaves @ [TokenValue])"
| "ValueLeafNodes (TupleValue es) leaves = foldM ValueLeafNodes es leaves"
| "ValueLeafNodes (ArrayValue es) leaves = foldM ValueLeafNodes es leaves"
| "ValueLeafNodes InvalidValue leaves = None"

function LeafTypeTreeToValue :: "Type \<Rightarrow> Value list \<Rightarrow> Value status_or option" where
  "LeafTypeTreeToValue t es =
     (case t of
        TupleType members \<Rightarrow>
          ASSIGN_OR_RETURN
            (mapS (\<lambda>i. do {
                view \<leftarrow> AsView \<lparr>ltt_type = t, ltt_elements = es\<rparr> [int i];
                LeafTypeTreeToValue (members ! i) (ltt_elements view) }) [0..<length members])
            (\<lambda>vs. Some (Inr (TupleValue vs)))
      | ArrayType n u \<Rightarrow>
          ASSIGN_OR_RETURN
            (mapS (\<lambda>i. do {
                view \<leftarrow> AsView \<lparr>ltt_type = t, ltt_elements = es\<rparr> [int i];
                LeafTypeTreeToValue u (ltt_elements view) }) [0..<n])
            (\<lambda>vs. do { a \<leftarrow> ArrayOrDie vs; Some (Inr a) })
      | _ \<Rightarrow> do { v \<leftarrow> ltt_Get \<lparr>ltt_type = t, ltt_elements = es\<rparr> []; Some (Inr v) })"
  by pat_completeness auto
termination
  by (relation "measure (\<lambda>(t, es). size t)") (auto simp: less_Suc_eq_le intro: size_list_estimation'[OF nth_mem])

declare LeafTypeTreeToValue.simps [simp del]

definition ValueToLeafTypeTree :: "Value \<Rightarrow> Type \<Rightarrow> Value ltt status_or option" where
  "ValueToLeafTypeTree v t = do {
     conforms \<leftarrow> ValueConformsToType v t;
     ASSIGN_OR_RETURN (RET_CHECK conforms) (\<lambda>_.
       if IsLeafType t then do { r \<leftarrow> CreateSingleElementTree t v; Some (Inr r) }
       else do {
         leaf_nodes \<leftarrow> ValueLeafNodes v [];
         r \<leftarrow> CreateFromVector t leaf_nodes;
         Some (Inr r) }) }"

definition ValueToBitsLeafTypeTree :: "Value \<Rightarrow> Type \<Rightarrow> bits ltt status_or option" where
  "ValueToBitsLeafTypeTree v t = do {
     conforms \<leftarrow> ValueConformsToType v t;
     ASSIGN_OR_RETURN (RET_CHECK conforms) (\<lambda>_.
       case t of
         BitsType n \<Rightarrow> do { b \<leftarrow> Value_bits v; r \<leftarrow> CreateSingleElementTree t b; Some (Inr r) }
       | _ \<Rightarrow>
           ASSIGN_OR_RETURN (RET_CHECK (\<not> TypeHasToken t)) (\<lambda>_.
           ASSIGN_OR_RETURN (ValueToLeafTypeTree v t) (\<lambda>val. do {
             r \<leftarrow> ltt_Map val (\<lambda>x. do { CHECK (kind x = kBits); Value_bits x });
             Some (Inr r) }))) }"

end
