(* ===== verification/Leaf_Tree_Rules.thy ===== *)
theory Leaf_Tree_Rules
  imports Leaf_Tree_Ops Value_Rules
begin

text \<open>
  What the trees keep: a well-formed tree has one element per leaf of its type. The iterator visits every
  leaf once, with its own type and index; views of views are views at the joined index; the parts of a
  tree that was built from parts are those parts; and a value is what its tree of leaves says it is.
\<close>

definition wf_ltt :: "'a ltt \<Rightarrow> bool" where
  "wf_ltt tree \<longleftrightarrow> length (ltt_elements tree) = leaf_count (ltt_type tree)"

section \<open>The iterator\<close>

text \<open>The iterator at leaf \<open>k\<close>, before the index has been asked for.\<close>

abbreviation iter_at :: "Type \<Rightarrow> int list \<Rightarrow> nat \<Rightarrow> leaf_iterator" where
  "iter_at t prefix k \<equiv> \<lparr>root_type = t, prefix_size = length prefix, it_linear_index = k, it_type_index = prefix\<rparr>"

lemma type_index_at:
  assumes "k < leaf_count t"
  obtains it where "type_index (iter_at t prefix k) = Some (prefix @ tree_index_vectors t ! k, it)"
    "Advance it = Some (Suc k < leaf_count t, iter_at t prefix (Suc k))"
proof -
  have "tree_index t k = Some (tree_index_vectors t ! k)" using assms by (simp add: tree_index_def length_tree_index_vectors)
  moreover have "(Suc k \<noteq> leaf_count t) = (Suc k < leaf_count t)" using assms by linarith
  ultimately show thesis using assms that by (cases "prefix = []"; cases "tree_index_vectors t ! k = []")
    (auto simp: type_index_def AtEnd_def Advance_def Let_def)
qed

lemma for_each_leaf_at:
  "k \<le> leaf_count t \<Longrightarrow> for_each_leaf f (iter_at t prefix k) s =
     foldS (\<lambda>k s. f (leaf_types t ! k) k (prefix @ tree_index_vectors t ! k) s) [k..<leaf_count t] s"
proof (induction "leaf_count t - k" arbitrary: k s)
  case 0
  then show ?case by (simp add: for_each_leaf.simps AtEnd_def)
next
  case (Suc n)
  then have k: "k < leaf_count t" by simp
  obtain it where it: "type_index (iter_at t prefix k) = Some (prefix @ tree_index_vectors t ! k, it)"
    "Advance it = Some (Suc k < leaf_count t, iter_at t prefix (Suc k))" using type_index_at[OF k] .
  have "it_leaf_type (iter_at t prefix k) = Some (leaf_types t ! k)" "linear_index (iter_at t prefix k) = Some k" "\<not> AtEnd (iter_at t prefix k)"
    using k by (simp_all add: it_leaf_type_def linear_index_def AtEnd_def leaf_type_def)
  then show ?case using it k Suc(1)[of "Suc k"] Suc(2) by (simp add: for_each_leaf.simps[of f "iter_at t prefix k"] upt_conv_Cons)
qed

lemma for_each_leaf_all:
  "for_each_leaf f (LeafTypeTreeIterator t prefix) s =
     foldS (\<lambda>k s. f (leaf_types t ! k) k (prefix @ tree_index_vectors t ! k) s) [0..<leaf_count t] s"
  using for_each_leaf_at[of 0 t f prefix s] by (simp add: LeafTypeTreeIterator_def)

lemma foldS_snoc:
  "foldS (\<lambda>x es. ASSIGN_OR_RETURN (h x) (\<lambda>e. Some (Inr (es @ [e])))) xs acc =
     ASSIGN_OR_RETURN (mapS h xs) (\<lambda>es. Some (Inr (acc @ es)))"
proof (induction xs arbitrary: acc)
  case (Cons x xs)
  show ?case
  proof (cases "h x")
    case (Some r)
    then show ?thesis by (cases r; cases "mapS h xs"; cases "the (mapS h xs)") (auto simp: Cons)
  qed simp
qed simp

lemma mapS_length: "mapS f xs = Some (Inr ys) \<Longrightarrow> length ys = length xs"
  by (simp add: mapS_ok list_all2_lengthD)

lemma CreateFromVector_wf: "length es = leaf_count t \<Longrightarrow> CreateFromVector t es = Some \<lparr>ltt_type = t, ltt_elements = es\<rparr>"
  by (simp add: CreateFromVector_def)

text \<open>The loop that builds one element per leaf is a map over the leaves.\<close>

lemma for_each_leaf_map:
  assumes "\<And>k es. k < leaf_count t \<Longrightarrow> f (leaf_types t ! k) k (tree_index_vectors t ! k) es = ASSIGN_OR_RETURN (g k) (\<lambda>e. Some (Inr (es @ [e])))"
  shows "ASSIGN_OR_RETURN (for_each_leaf f (LeafTypeTreeIterator t []) []) (\<lambda>es. do { r \<leftarrow> CreateFromVector t es; Some (Inr r) }) =
    ASSIGN_OR_RETURN (mapS g [0..<leaf_count t]) (\<lambda>es. Some (Inr \<lparr>ltt_type = t, ltt_elements = es\<rparr>))"
proof -
  have "for_each_leaf f (LeafTypeTreeIterator t []) [] = foldS (\<lambda>k es. ASSIGN_OR_RETURN (g k) (\<lambda>e. Some (Inr (es @ [e])))) [0..<leaf_count t] []"
    unfolding for_each_leaf_all by (rule foldS_cong) (simp_all add: assms)
  also have "\<dots> = ASSIGN_OR_RETURN (mapS g [0..<leaf_count t]) (\<lambda>es. Some (Inr es))" by (simp add: foldS_snoc)
  finally show ?thesis
    by (cases "mapS g [0..<leaf_count t]"; cases "the (mapS g [0..<leaf_count t])")
       (auto simp: CreateFromVector_wf mapS_length)
qed

lemma ZipIndex2_eq:
  assumes "wf_ltt a" "wf_ltt b" "ltt_type a = ltt_type b"
  shows "ZipIndex2 a b f = ASSIGN_OR_RETURN
    (mapS (\<lambda>k. f (leaf_types (ltt_type a) ! k) (ltt_elements a ! k) (ltt_elements b ! k) (tree_index_vectors (ltt_type a) ! k)) [0..<leaf_count (ltt_type a)])
    (\<lambda>es. Some (Inr \<lparr>ltt_type = ltt_type a, ltt_elements = es\<rparr>))"
proof -
  have len: "length (ltt_elements a) = leaf_count (ltt_type a)" "length (ltt_elements b) = leaf_count (ltt_type a)"
    using assms by (simp_all add: wf_ltt_def)
  show ?thesis unfolding ZipIndex2_def using assms(3)
    by (simp, intro for_each_leaf_map) (simp add: len)
qed

lemma CreateFromFunction_index_eq:
  "CreateFromFunction_index t f = ASSIGN_OR_RETURN (mapS (\<lambda>k. f (leaf_types t ! k) (tree_index_vectors t ! k)) [0..<leaf_count t])
    (\<lambda>es. Some (Inr \<lparr>ltt_type = t, ltt_elements = es\<rparr>))"
  unfolding CreateFromFunction_index_def by (rule for_each_leaf_map) simp

section \<open>Indices\<close>

lemma step_shift:
  "GetSubtypeAndOffset_step i (t, k) = map_option (\<lambda>(u, m). (u, k + m)) (GetSubtypeAndOffset_step i (t, 0))"
  by (cases t) (simp_all add: GetSubtypeAndOffset_step_def nth_opt_def)

lemma foldM_shift:
  "foldM GetSubtypeAndOffset_step index (t, k) = map_option (\<lambda>(u, m). (u, k + m)) (foldM GetSubtypeAndOffset_step index (t, 0))"
proof (induction index arbitrary: t k)
  case (Cons i index)
  show ?case
  proof (cases "GetSubtypeAndOffset_step i (t, 0)")
    case (Some r)
    obtain u m where r: "r = (u, m)" by fastforce
    show ?thesis using Some r Cons.IH[of u "k + m"] Cons.IH[of u m]
      by (simp add: step_shift[of i t k] option.map_comp comp_def case_prod_beta add.assoc)
  qed (simp add: step_shift[of i t k])
qed simp

lemma GetSubtypeAndOffset_append:
  assumes "GetSubtypeAndOffset t i = Some (u, k)"
  shows "GetSubtypeAndOffset t (i @ j) = map_option (\<lambda>(v, m). (v, k + m)) (GetSubtypeAndOffset u j)"
  using assms foldM_shift[of j u k] by (simp add: GetSubtypeAndOffset_def foldM_append)

lemma AsView_eq:
  assumes "wf_ltt tree"
  shows "AsView tree index = map_option (\<lambda>(u, k). \<lparr>ltt_type = u, ltt_elements = take (leaf_count u) (drop k (ltt_elements tree))\<rparr>)
    (GetSubtypeAndOffset (ltt_type tree) index)"
proof (cases "index = []")
  case True
  then show ?thesis using assms by (cases tree) (simp add: AsView_def CreateFromSpans_def GetSubtypeAndOffset_def wf_ltt_def)
next
  case False
  show ?thesis
  proof (cases "GetSubtypeAndOffset (ltt_type tree) index")
    case (Some r)
    then obtain u k where "r = (u, k)" by fastforce
    moreover have "k \<le> length (ltt_elements tree)"
      using subtype_slice(2)[of "ltt_type tree" index u k] Some assms calculation by (simp add: wf_ltt_def)
    ultimately show ?thesis using False Some by (simp add: AsView_def CreateFromSpans_def subspan_def)
  qed (use False in \<open>simp add: AsView_def CreateFromSpans_def\<close>)
qed

lemma AsView_wf:
  assumes "wf_ltt tree" "AsView tree index = Some v"
  shows "wf_ltt v"
proof -
  obtain u k where u: "GetSubtypeAndOffset (ltt_type tree) index = Some (u, k)" "v = \<lparr>ltt_type = u, ltt_elements = take (leaf_count u) (drop k (ltt_elements tree))\<rparr>"
    using assms by (auto simp: AsView_eq)
  then show ?thesis using subtype_slice(2)[OF u(1)] assms(1) by (simp add: wf_ltt_def)
qed

text \<open>A view of a view is a view at the joined index.\<close>

lemma AsView_append:
  assumes wf: "wf_ltt tree" and v: "AsView tree i = Some v"
  shows "AsView v j = AsView tree (i @ j)"
proof -
  obtain u k where u: "GetSubtypeAndOffset (ltt_type tree) i = Some (u, k)" "v = \<lparr>ltt_type = u, ltt_elements = take (leaf_count u) (drop k (ltt_elements tree))\<rparr>"
    using assms by (auto simp: AsView_eq)
  show ?thesis
  proof (cases "GetSubtypeAndOffset u j")
    case (Some r)
    then obtain w m where r: "GetSubtypeAndOffset u j = Some (w, m)" by fastforce
    have "m + leaf_count w \<le> leaf_count u" using subtype_slice(2)[OF r] .
    then have "take (leaf_count w) (drop m (take (leaf_count u) (drop k es))) = take (leaf_count w) (drop (k + m) es)" for es :: "'a list"
      by (simp add: drop_take take_take drop_drop min_def add.commute)
    then show ?thesis using AsView_eq[OF AsView_wf[OF wf v], of j] AsView_eq[OF wf, of "i @ j"] GetSubtypeAndOffset_append[OF u(1), of j] u(2) r by simp
  qed (use AsView_eq[OF AsView_wf[OF wf v], of j] AsView_eq[OF wf, of "i @ j"] GetSubtypeAndOffset_append[OF u(1), of j] u(2) in simp)
qed

lemma ltt_Get_leaf:
  assumes "wf_ltt tree" "k < leaf_count (ltt_type tree)"
  shows "ltt_Get tree (tree_index_vectors (ltt_type tree) ! k) = Some (ltt_elements tree ! k)"
  using assms leaf_at_index[OF assms(2)] by (simp add: ltt_Get_def GetLinearOffset_def wf_ltt_def)

lemma ltt_Set_leaf:
  assumes "wf_ltt tree" "k < leaf_count (ltt_type tree)"
  shows "ltt_Set tree (tree_index_vectors (ltt_type tree) ! k) e = Some (tree\<lparr>ltt_elements := (ltt_elements tree)[k := e]\<rparr>)"
  using assms leaf_at_index[OF assms(2)] by (simp add: ltt_Set_def GetLinearOffset_def wf_ltt_def)

section \<open>Parts\<close>

lemma concat_part:
  assumes "list_all2 (\<lambda>t xs. length xs = leaf_count t) ts xss" "i < length ts"
  shows "take (leaf_count (ts ! i)) (drop (sum_list (map (\<lambda>t. leaf_count t) (take i ts))) (concat xss)) = xss ! i"
proof -
  have len: "length xss = length ts" "i < length xss" using assms list_all2_lengthD by fastforce+
  have "concat xss = concat (take i xss) @ xss ! i @ concat (drop (Suc i) xss)"
    using id_take_nth_drop[OF len(2)] by (metis concat.simps(2) concat_append)
  moreover have "length (concat ys) = sum_list (map (\<lambda>t. leaf_count t) us)" if "list_all2 (\<lambda>t xs. length xs = leaf_count t) us ys" for us and ys :: "'a list list"
    using that by (induction us ys rule: list_all2_induct) auto
  from this[OF list_all2_takeI[OF assms(1)]] have "length (concat (take i xss)) = sum_list (map (\<lambda>t. leaf_count t) (take i ts))" .
  moreover have "length (xss ! i) = leaf_count (ts ! i)" using assms by (simp add: list_all2_conv_all_nth)
  ultimately show ?thesis by simp
qed

lemma length_parts: "list_all2 (\<lambda>t xs. length xs = leaf_count t) ts xss \<Longrightarrow> length (concat xss) = length (concat (map leaf_types ts))"
  by (induction ts xss rule: list_all2_induct) auto

lemma AsView_member:
  assumes "wf_ltt tree" "ltt_type tree = TupleType ts" "i < length ts"
  shows "AsView tree [int i] = Some \<lparr>ltt_type = ts ! i,
    ltt_elements = take (leaf_count (ts ! i)) (drop (sum_list (map (\<lambda>t. leaf_count t) (take i ts))) (ltt_elements tree))\<rparr>"
  using assms tuple_step[of i ts 0] by (simp add: AsView_eq GetSubtypeAndOffset_def)

lemma AsView_element:
  assumes "wf_ltt tree" "ltt_type tree = ArrayType n t" "i < n"
  shows "AsView tree [int i] = Some \<lparr>ltt_type = t, ltt_elements = take (leaf_count t) (drop (i * leaf_count t) (ltt_elements tree))\<rparr>"
  using assms by (simp add: AsView_eq GetSubtypeAndOffset_def GetSubtypeAndOffset_step_def)

lemma mapS_RET_CHECK: "mapS (\<lambda>x. RET_CHECK (P x)) xs = Some (if list_all P xs then Inr (map (\<lambda>_. ()) xs) else Inl Internal)"
  by (induction xs) (auto simp: RET_CHECK_def)

lemma CreateTuple_parts:
  assumes "list_all wf_ltt es" "map ltt_type es = ts"
  shows "\<exists>tree. CreateTuple ts es = Some (Inr tree) \<and> wf_ltt tree \<and> ltt_type tree = TupleType ts \<and>
    (\<forall>i<length es. AsView tree [int i] = Some (es ! i))"
proof -
  let ?tree = "\<lparr>ltt_type = TupleType ts, ltt_elements = concat (map ltt_elements es)\<rparr>"
  have la: "list_all2 (\<lambda>t xs. length xs = leaf_count t) ts (map ltt_elements es)"
    using assms by (auto simp: list_all2_conv_all_nth list_all_length wf_ltt_def)
  have wf: "wf_ltt ?tree" using length_parts[OF la] by (simp add: wf_ltt_def)
  have "list_all (\<lambda>(t, e). t = ltt_type e) (zip ts es)" using assms(2) by (auto simp: list_all_length)
  then have "mapS (\<lambda>(t, e). RET_CHECK (t = ltt_type e)) (zip ts es) = Some (Inr (map (\<lambda>_. ()) (zip ts es)))"
    using mapS_RET_CHECK[of "\<lambda>(t, e). t = ltt_type e" "zip ts es"] by (simp add: case_prod_unfold)
  moreover have "CreateFromVector (TupleType ts) (concat (map ltt_elements es)) = Some ?tree" using wf by (simp add: CreateFromVector_def wf_ltt_def)
  moreover have "length ts = length es" using assms(2) by auto
  ultimately have "CreateTuple ts es = Some (Inr ?tree)" by (simp add: CreateTuple_def)
  moreover have "AsView ?tree [int i] = Some (es ! i)" if "i < length es" for i
    using AsView_member[OF wf, of ts i] concat_part[OF la, of i] that assms(2) by auto
  ultimately show ?thesis using wf by auto
qed

lemma CreateArray_parts:
  assumes "list_all wf_ltt es" "list_all (\<lambda>e. ltt_type e = t) es"
  shows "\<exists>tree. CreateArray (length es) t es = Some (Inr tree) \<and> wf_ltt tree \<and> ltt_type tree = ArrayType (length es) t \<and>
    (\<forall>i<length es. AsView tree [int i] = Some (es ! i))"
proof -
  let ?tree = "\<lparr>ltt_type = ArrayType (length es) t, ltt_elements = concat (map ltt_elements es)\<rparr>"
  have la: "list_all2 (\<lambda>t xs. length xs = leaf_count t) (replicate (length es) t) (map ltt_elements es)"
    using assms by (auto simp: list_all2_conv_all_nth list_all_length wf_ltt_def)
  have wf: "wf_ltt ?tree" using length_parts[OF la] by (simp add: wf_ltt_def)
  have "list_all (\<lambda>e. t = ltt_type e) es" using assms(2) by (auto simp: list_all_iff)
  then have "CreateArray (length es) t es = Some (Inr ?tree)"
    using wf by (simp add: CreateArray_def mapS_RET_CHECK CreateFromVector_def wf_ltt_def)
  moreover have "AsView ?tree [int i] = Some (es ! i)" if "i < length es" for i
  proof -
    have "es ! i = \<lparr>ltt_type = t, ltt_elements = ltt_elements (es ! i)\<rparr>" using assms(2) that by (simp add: list_all_length)
    then show ?thesis using AsView_element[OF wf, of "length es" t i] concat_part[OF la, of i] that by (simp add: sum_list_replicate)
  qed
  ultimately show ?thesis using wf by auto
qed

text \<open>An array from its elements, when the vectors are already cut.\<close>

lemma array_wf:
  assumes "length parts = n" "\<And>p. p \<in> set parts \<Longrightarrow> length p = leaf_count t"
  shows "wf_ltt \<lparr>ltt_type = ArrayType n t, ltt_elements = concat parts\<rparr>"
proof -
  have "list_all2 (\<lambda>t xs. length xs = leaf_count t) (replicate n t) parts" using assms by (auto simp: list_all2_conv_all_nth)
  from length_parts[OF this] show ?thesis by (simp add: wf_ltt_def)
qed

lemma array_elements:
  assumes "length parts = n" "\<And>p. p \<in> set parts \<Longrightarrow> length p = leaf_count t" "i < n"
  shows "AsView \<lparr>ltt_type = ArrayType n t, ltt_elements = concat parts\<rparr> [int i] = Some \<lparr>ltt_type = t, ltt_elements = parts ! i\<rparr>"
proof -
  have la: "list_all2 (\<lambda>t xs. length xs = leaf_count t) (replicate n t) parts"
    using assms(1,2) by (auto simp: list_all2_conv_all_nth)
  show ?thesis
    using AsView_element[OF array_wf[OF assms(1,2)], of n t i] concat_part[OF la, of i] assms(3) by (simp add: sum_list_replicate)
qed

lemma saturating_index:
  assumes "0 \<le> start" "start < 2 ^ 63" "int i < 2 ^ 63" "0 < n" "int n < 2 ^ 63"
  shows "nat (min (sr_result (SaturatingAdd int64_type (int i) start)) (int n - 1)) = min (i + nat start) (n - 1)"
proof -
  have "sr_result (SaturatingAdd int64_type (int i) start) = min (int i + start) (2 ^ 63 - 1)"
  proof (cases "int i + start < 2 ^ 63")
    case True
    then have "signed_take_bit 63 (int i + start) = int i + start" using assms(1) by (simp add: signed_take_bit_int_eq_self)
    then show ?thesis using True assms(1) by (simp add: SaturatingAdd_def builtin_overflow_def int64_type_def it_min_def it_max_def it_wrap_def)
  next
    case False
    then show ?thesis using assms(1) by (simp add: SaturatingAdd_def builtin_overflow_def int64_type_def it_min_def it_max_def it_wrap_def)
  qed
  then show ?thesis using assms by (simp add: min_def nat_le_iff) linarith
qed

text \<open>A slice past the end repeats the last element of the source.\<close>

lemma SliceArray_elements:
  assumes "wf_ltt source" "ltt_type source = ArrayType m t" "0 < m" "int m < 2 ^ 63" "int n < 2 ^ 63" "0 \<le> start" "start < 2 ^ 63"
  shows "\<exists>tree. SliceArray n t source start = Some (Inr tree) \<and> ltt_type tree = ArrayType n t \<and> wf_ltt tree \<and>
    (\<forall>i<n. AsView tree [int i] = AsView source [int (min (i + nat start) (m - 1))])"
proof -
  let ?idx = "\<lambda>i. min (i + nat start) (m - 1)"
  let ?part = "\<lambda>i. take (leaf_count t) (drop (?idx i * leaf_count t) (ltt_elements source))"
  have bound: "?idx i * leaf_count t + leaf_count t \<le> length (ltt_elements source)" for i
  proof -
    have "(?idx i + 1) * leaf_count t \<le> m * leaf_count t" using assms(3) by (intro mult_right_mono) auto
    then show ?thesis using assms(1,2) by (simp add: wf_ltt_def length_concat sum_list_replicate)
  qed
  have "subspan (ltt_elements source) (nat (min (sr_result (SaturatingAdd int64_type (int i) start)) (int m - 1)) * leaf_count t) (leaf_count t) = Some (?part i)"
    if "i < n" for i
  proof -
    have "int i < 2 ^ 63" using that assms(5) by linarith
    then show ?thesis using saturating_index[OF assms(6,7) _ assms(3,4)] bound[of i] by (simp add: subspan_def)
  qed
  then have "mapM (\<lambda>i. let source_idx = min (sr_result (SaturatingAdd int64_type (int i) start)) (int m - 1)
      in subspan (ltt_elements source) (nat source_idx * leaf_count t) (leaf_count t)) [0..<n] = Some (map ?part [0..<n])"
    by (intro mapM_pure) (simp add: Let_def)
  moreover have len: "length p = leaf_count t" if "p \<in> set (map ?part [0..<n])" for p
  proof -
    obtain i where "p = ?part i" using \<open>p \<in> set (map ?part [0..<n])\<close> by auto
    then show ?thesis using bound[of i] by (simp only: length_take length_drop) linarith
  qed
  note wf = array_wf[of "map ?part [0..<n]" n t, OF _ len, simplified length_map length_upt minus_nat.diff_0, OF refl]
  from wf have "length (concat (map ?part [0..<n])) = leaf_count (ArrayType n t)" by (simp only: wf_ltt_def ltt.simps)
  ultimately have "SliceArray n t source start = Some (Inr \<lparr>ltt_type = ArrayType n t, ltt_elements = concat (map ?part [0..<n])\<rparr>)"
    using assms(2,3,6) by (simp add: SliceArray_def CreateFromVector_wf)
  moreover have "AsView \<lparr>ltt_type = ArrayType n t, ltt_elements = concat (map ?part [0..<n])\<rparr> [int i] = AsView source [int (?idx i)]" if "i < n" for i
  proof -
    have "AsView \<lparr>ltt_type = ArrayType n t, ltt_elements = concat (map ?part [0..<n])\<rparr> [int i] = Some \<lparr>ltt_type = t, ltt_elements = map ?part [0..<n] ! i\<rparr>"
      by (rule array_elements) (simp, rule len, assumption, rule \<open>i < n\<close>)
    moreover have "AsView source [int (?idx i)] = Some \<lparr>ltt_type = t, ltt_elements = ?part i\<rparr>"
      by (rule AsView_element[OF assms(1,2)]) (use assms(3) in simp)
    ultimately show ?thesis using \<open>i < n\<close> by simp
  qed
  ultimately show ?thesis using wf by (intro exI conjI) (assumption | simp)+
qed

section \<open>Writing through a view\<close>

text \<open>A write through a view of a subtree is the write to the tree at the joined index.\<close>

lemma mv_Set_leaf:
  assumes wf: "wf_ltt tree" and v: "AsMutableView (ltt_mview tree) i = Some v"
    and leaf: "GetSubtypeAndOffset (mv_type v) j = Some (u, k)" "IsLeafType u"
  shows "\<exists>v'. mv_Set v j e = Some v' \<and> ltt_Set tree (i @ j) e = Some (tree\<lparr>ltt_elements := mv_base v'\<rparr>)"
proof -
  obtain w m where w: "GetSubtypeAndOffset (ltt_type tree) i = Some (w, m)" "mv_type v = w" "mv_base v = ltt_elements tree"
      "mv_offset v = m" "mv_size v = leaf_count w"
  proof (cases "i = []")
    case True
    then show thesis using v wf that[of "ltt_type tree" 0] by (auto simp: AsMutableView_def ltt_mview_def GetSubtypeAndOffset_def wf_ltt_def)
  next
    case False
    then obtain w m where wm: "GetSubtypeAndOffset (ltt_type tree) i = Some (w, m)"
        "v = \<lparr>mv_type = w, mv_base = ltt_elements tree, mv_offset = m, mv_size = min (leaf_count w) (length (ltt_elements tree) - m)\<rparr>"
      using v by (auto simp: AsMutableView_def ltt_mview_def bind_eq_Some_conv split: if_splits)
    have "leaf_count w \<le> length (ltt_elements tree) - m" using subtype_slice(2)[OF wm(1)] wf by (simp add: wf_ltt_def)
    then show thesis using that[OF wm(1)] wm(2) by (simp add: min_def)
  qed
  have k: "k < leaf_count w" using index_of_leaf[OF leaf(1)[unfolded w(2)] leaf(2)] by simp
  have bound: "m + k < length (ltt_elements tree)" using subtype_slice(2)[OF w(1)] wf k by (simp add: wf_ltt_def)
  have "GetLinearOffset (ltt_type tree) (i @ j) = Some (m + k)"
    using GetSubtypeAndOffset_append[OF w(1), of j] leaf(1) w(2) by (simp add: GetLinearOffset_def)
  moreover have "GetLinearOffset (mv_type v) j = Some k" using leaf(1) by (simp add: GetLinearOffset_def)
  ultimately show ?thesis using k bound w by (simp add: mv_Set_def mv_update_def ltt_Set_def)
qed

section \<open>Values\<close>

fun leaf_values :: "Value \<Rightarrow> Value list" where
  "leaf_values (TupleValue es) = concat (map leaf_values es)"
| "leaf_values (ArrayValue es) = concat (map leaf_values es)"
| "leaf_values v = [v]"

lemma leaf_values_typed: "has_type v t \<Longrightarrow> list_all2 has_type (leaf_values v) (leaf_types t)"
proof (induction v t rule: has_type_induct)
  case (Tuple es ts)
  then show ?case by (induction es ts rule: list_all2_induct) (auto intro: list_all2_appendI)
next
  case (Array es u)
  have "list_all2 has_type (concat (map leaf_values es)) (concat (replicate (length es) (leaf_types u)))"
    using Array.IH by (induction es) (auto intro: list_all2_appendI)
  then show ?case by simp
qed auto

lemma foldM_concat: "(\<And>x acc. x \<in> set xs \<Longrightarrow> f x acc = Some (acc @ g x)) \<Longrightarrow> foldM f xs acc = Some (acc @ concat (map g xs))"
  by (induction xs arbitrary: acc) auto

lemma ValueLeafNodes_typed: "has_type v t \<Longrightarrow> ValueLeafNodes v leaves = Some (leaves @ leaf_values v)"
proof (induction v t arbitrary: leaves rule: has_type_induct)
  case (Tuple es ts)
  have "ValueLeafNodes e ls = Some (ls @ leaf_values e)" if "e \<in> set es" for e ls
    using Tuple that by (auto simp: list_all2_conv_all_nth in_set_conv_nth)
  then show ?case by (simp add: foldM_concat)
next
  case (Array es u)
  then show ?case by (auto intro: foldM_concat)
qed auto

lemma ValueToLeafTypeTree_typed:
  assumes "has_type v t"
  shows "ValueToLeafTypeTree v t = Some (Inr \<lparr>ltt_type = t, ltt_elements = leaf_values v\<rparr>)"
proof -
  have len: "length (leaf_values v) = leaf_count t" using leaf_values_typed[OF assms] by (rule list_all2_lengthD)
  show ?thesis
  proof (cases "IsLeafType t")
    case True
    from assms show ?thesis
      by (cases rule: has_type_cases) (use True in \<open>auto simp: ValueToLeafTypeTree_def CreateSingleElementTree_def IsLeafType_def\<close>)
  next
    case False
    then show ?thesis using assms len
      by (simp add: ValueToLeafTypeTree_def ValueConformsToType_typed ValueLeafNodes_typed CreateFromVector_wf)
  qed
qed

lemma LeafTypeTreeToValue_typed: "has_type v t \<Longrightarrow> LeafTypeTreeToValue t (leaf_values v) = Some (Inr v)"
proof (induction v t rule: has_type_induct)
  case (Tuple es ts)
  let ?tree = "\<lparr>ltt_type = TupleType ts, ltt_elements = concat (map leaf_values es)\<rparr>"
  have la: "list_all2 (\<lambda>t xs. length xs = leaf_count t) ts (map leaf_values es)"
    using Tuple.IH list_all2_lengthD[OF leaf_values_typed] by (auto simp: list_all2_conv_all_nth)
  have wf: "wf_ltt ?tree" using length_parts[OF la] by (simp add: wf_ltt_def)
  have len: "length ts = length es" using list_all2_lengthD[OF Tuple.IH] by simp
  let ?f = "\<lambda>i. do { view \<leftarrow> AsView ?tree [int i]; LeafTypeTreeToValue (ts ! i) (ltt_elements view) }"
  have "?f i = Some (Inr (es ! i))" if "i < length ts" for i
    using AsView_member[OF wf, of ts i] concat_part[OF la that] list_all2_nthD2[OF Tuple.IH that] len that by simp
  then have "mapS ?f [0..<length ts] = Some (Inr (map ((!) es) [0..<length ts]))" by (intro mapS_pure) simp
  then have "mapS ?f [0..<length ts] = Some (Inr es)" by (simp only: len map_nth)
  then show ?case by (simp add: LeafTypeTreeToValue.simps)
next
  case (Array es u)
  let ?tree = "\<lparr>ltt_type = ArrayType (length es) u, ltt_elements = concat (map leaf_values es)\<rparr>"
  have parts: "length p = leaf_count u" if "p \<in> set (map leaf_values es)" for p
    using that Array.IH list_all2_lengthD[OF leaf_values_typed] by auto
  let ?f = "\<lambda>i. do { view \<leftarrow> AsView ?tree [int i]; LeafTypeTreeToValue u (ltt_elements view) }"
  have "?f i = Some (Inr (es ! i))" if "i < length es" for i
    using array_elements[of "map leaf_values es" "length es" u i] parts that Array.IH by simp
  then have "mapS ?f [0..<length es] = Some (Inr (map ((!) es) [0..<length es]))" by (intro mapS_pure) simp
  then have "mapS ?f [0..<length es] = Some (Inr es)" by (simp only: map_nth)
  moreover have "ArrayOrDie es = Some (ArrayValue es)" using Value_Array_typed(1)[of es u] Array by (simp add: ArrayOrDie_def)
  ultimately show ?case by (simp add: LeafTypeTreeToValue.simps)
qed (simp_all add: LeafTypeTreeToValue.simps ltt_Get_def GetLinearOffset_def GetSubtypeAndOffset_def)

end
