(* ===== verification/Leaf_Tree_Theorems.thy ===== *)
theory Leaf_Tree_Theorems
  imports Leaf_Tree_Rules
begin

text \<open>The properties of leaf type trees.\<close>

text \<open>Views compose: a view at an index of a well-formed tree is a well-formed tree of the subtype there,
  and looking into it at a further index is looking into the tree at the joined index.\<close>

theorem leaf_tree_views_compose:
  assumes "wf_ltt tree" "AsView tree i = Some v"
  shows "wf_ltt v \<and> GetSubtype (ltt_type tree) i = Some (ltt_type v) \<and> AsView v j = AsView tree (i @ j)"
proof -
  have "GetSubtype (ltt_type tree) i = Some (ltt_type v)" using assms by (auto simp: AsView_eq GetSubtype_def)
  then show ?thesis using AsView_wf[OF assms] AsView_append[OF assms] by blast
qed

text \<open>C21. Writing a leaf through a mutable view of any subtree changes the tree exactly as writing it at the
  joined index would.\<close>

theorem leaf_tree_write_through_view:
  assumes "wf_ltt tree" "AsMutableView (ltt_mview tree) i = Some v"
    and "GetSubtypeAndOffset (mv_type v) j = Some (u, k)" "IsLeafType u"
  shows "\<exists>v'. mv_Set v j e = Some v' \<and> ltt_Set tree (i @ j) e = Some (tree\<lparr>ltt_elements := mv_base v'\<rparr>)"
  using mv_Set_leaf[OF assms] .

theorem leaf_tree_write_through_view_witness:
  "\<exists>v v'. AsMutableView (ltt_mview \<lparr>ltt_type = TupleType [BitsType 1, ArrayType 2 TokenType], ltt_elements = [10, 20, 30 :: int]\<rparr>) [1] = Some v \<and>
    mv_Set v [0] 5 = Some v' \<and> ltt_Set \<lparr>ltt_type = TupleType [BitsType 1, ArrayType 2 TokenType], ltt_elements = [10, 20, 30]\<rparr> ([1] @ [0]) 5 =
      Some (\<lparr>ltt_type = TupleType [BitsType 1, ArrayType 2 TokenType], ltt_elements = [10, 20, 30]\<rparr>\<lparr>ltt_elements := mv_base v'\<rparr>)"
proof -
  let ?tree = "\<lparr>ltt_type = TupleType [BitsType 1, ArrayType 2 TokenType], ltt_elements = [10, 20, 30 :: int]\<rparr>"
  let ?v = "\<lparr>mv_type = ArrayType 2 TokenType, mv_base = [10, 20, 30 :: int], mv_offset = 1, mv_size = 2\<rparr>"
  have wf: "wf_ltt ?tree" by (simp add: wf_ltt_def numeral_2_eq_2)
  have v: "AsMutableView (ltt_mview ?tree) [1] = Some ?v" by code_simp
  have leaf: "GetSubtypeAndOffset (mv_type ?v) [0] = Some (TokenType, 0)" by code_simp
  show ?thesis using leaf_tree_write_through_view[OF wf v leaf, of 5] v by (auto simp: IsLeafType_def)
qed

text \<open>C39. SliceArray takes the elements of the source from the start index on and repeats the last one past
  its end; the sum of the two indices saturates, so that no start index makes it wrap.\<close>

theorem slice_array_clamps:
  assumes "wf_ltt source" "ltt_type source = ArrayType m t" "0 < m" "int m < 2 ^ 63" "int n < 2 ^ 63" "0 \<le> start" "start < 2 ^ 63"
  shows "\<exists>tree. SliceArray n t source start = Some (Inr tree) \<and> ltt_type tree = ArrayType n t \<and> wf_ltt tree \<and>
    (\<forall>i<n. AsView tree [int i] = AsView source [int (min (i + nat start) (m - 1))])"
  using SliceArray_elements[OF assms] .

theorem slice_array_clamps_witness:
  "\<exists>tree. SliceArray 3 TokenType \<lparr>ltt_type = ArrayType 2 TokenType, ltt_elements = [7, 8 :: int]\<rparr> (2 ^ 63 - 1) = Some (Inr tree) \<and>
    ltt_type tree = ArrayType 3 TokenType \<and> wf_ltt tree \<and>
    AsView tree [0] = AsView \<lparr>ltt_type = ArrayType 2 TokenType, ltt_elements = [7, 8]\<rparr> [1]"
proof -
  have wf: "wf_ltt \<lparr>ltt_type = ArrayType 2 TokenType, ltt_elements = [7, 8 :: int]\<rparr>" by (simp add: wf_ltt_def numeral_2_eq_2)
  show ?thesis using slice_array_clamps[OF wf, of 2 TokenType 3 "2 ^ 63 - 1"] by (auto dest: spec[of _ 0])
qed



text \<open>C20. A value is what its tree of leaves says: ValueToLeafTypeTree accepts every well-formed value of
  the type, its leaves have the leaf types of the type, and LeafTypeTreeToValue gives the value back.\<close>

theorem value_leaf_tree_roundtrip:
  assumes "has_type v t"
  shows "\<exists>tree. ValueToLeafTypeTree v t = Some (Inr tree) \<and> wf_ltt tree \<and> ltt_type tree = t \<and>
    list_all2 has_type (ltt_elements tree) (leaf_types t) \<and> LeafTypeTreeToValue t (ltt_elements tree) = Some (Inr v)"
    (is "\<exists>tree. ?P tree")
proof -
  have "?P \<lparr>ltt_type = t, ltt_elements = leaf_values v\<rparr>"
    using ValueToLeafTypeTree_typed[OF assms] LeafTypeTreeToValue_typed[OF assms] leaf_values_typed[OF assms] list_all2_lengthD
    by (fastforce simp: wf_ltt_def)
  then show ?thesis by blast
qed

theorem value_leaf_tree_roundtrip_witness:
  "\<exists>tree. ValueToLeafTypeTree (TupleValue [TokenValue, TupleValue []]) (TupleType [TokenType, TupleType []]) = Some (Inr tree) \<and>
    LeafTypeTreeToValue (TupleType [TokenType, TupleType []]) (ltt_elements tree) = Some (Inr (TupleValue [TokenValue, TupleValue []]))"
  using value_leaf_tree_roundtrip[of "TupleValue [TokenValue, TupleValue []]" "TupleType [TokenType, TupleType []]"] by auto

section \<open>Concatenation\<close>

text \<open>The check of ConcatArray counts leaves, and an element without leaves counts for nothing: three elements
  are accepted as an array of five.\<close>

lemma concat_array_without_leaves:
  "ConcatArray 5 (TupleType []) [\<lparr>ltt_type = ArrayType 3 (TupleType []), ltt_elements = [] :: int list\<rparr>] =
     Some (Inr \<lparr>ltt_type = ArrayType 5 (TupleType []), ltt_elements = []\<rparr>)"
  by code_simp

end
