(* ===== verification/Interval_Ops.thy ===== *)
theory Interval_Ops
  imports Interval_Set_Theorems Ternary_Theorems Abstract_Multiplier
begin

text \<open>
  \<^verbatim>\<open>xls/ir/interval_ops.cc\<close>, first part: conversions between interval sets and ternary vectors and the
  tests and counts on them, with the product of ranges they iterate over. An iterator range is the list of what it yields.
\<close>

section \<open>Products of ranges\<close>

text \<open>\<^verbatim>\<open>IteratorProduct\<close> of \<^verbatim>\<open>common/iter_util.h\<close>: an odometer whose first digit turns fastest. An iterator is the rest
  of its range; the callback carries the variables it captures and may stop the iteration.\<close>

fun product_incr :: "'a list list \<Rightarrow> 'a list list \<Rightarrow> bool \<times> 'a list list" where
  "product_incr (it # number) (r # iters) =
     (if tl it \<noteq> [] then (False, tl it # number)
      else let (wrapped, number') = product_incr number iters in (wrapped, r # number'))"
| "product_incr _ _ = (True, [])"

partial_function (option) product_loop ::
    "('a list \<Rightarrow> 's \<Rightarrow> (bool \<times> 's) option) \<Rightarrow> 'a list list \<Rightarrow> 'a list list \<Rightarrow> 's \<Rightarrow> (bool \<times> 's) option" where
  "product_loop f iters number s = do {
     (stop, s) \<leftarrow> f (map hd number) s;
     if stop then Some (True, s)
     else let (wrapped, number) = product_incr number iters
          in if wrapped then Some (False, s) else product_loop f iters number s }"

definition IteratorProduct :: "'a list list \<Rightarrow> ('a list \<Rightarrow> 's \<Rightarrow> (bool \<times> 's) option) \<Rightarrow> 's \<Rightarrow> (bool \<times> 's) option" where
  "IteratorProduct iters f s =
     (if iters = [] then Some (False, s)
      else if [] \<in> set iters then Some (False, s)
      else product_loop f iters iters s)"

section \<open>Ternary vectors\<close>

definition ExtractTernaryInterval :: "Interval \<Rightarrow> TernaryVector option" where
  "ExtractTernaryInterval interval = do {
     lcp \<leftarrow> LongestCommonPrefixMSB [lower_bound interval, upper_bound interval];
     size \<leftarrow> Interval_BitCount interval;
     foldM (\<lambda>j result. do {
         b \<leftarrow> Get lcp j;
         set_opt result (size - ib_bit_count lcp + j) (if b then kKnownOne else kKnownZero) })
       [0..<ib_bit_count lcp] (replicate size kUnknown) }"

definition ExtractTernaryVector :: "IntervalSet \<Rightarrow> TernaryVector option" where
  "ExtractTernaryVector s = do {
     CHECK (is_normalized s);
     CHECK (\<not> IntervalSet_IsEmpty s);
     is \<leftarrow> Intervals s;
     result \<leftarrow> ExtractTernaryInterval (hd is);
     foldM (\<lambda>i result. do { t \<leftarrow> ExtractTernaryInterval i; UpdateWithIntersection result t }) (tl is) result }"

record KnownBits =
  known_bits :: bits
  known_bit_values :: bits

definition ExtractKnownBits :: "IntervalSet \<Rightarrow> KnownBits option" where
  "ExtractKnownBits s = do {
     result \<leftarrow> ExtractTernaryVector s;
     k \<leftarrow> ToKnownBits result;
     v \<leftarrow> ToKnownBitsValues result False;
     Some \<lparr>known_bits = k, known_bit_values = v\<rparr> }"

text \<open>The unknown bits above the trailing ones, at most the last \<open>max_interval_bits + 1\<close> of them.\<close>

definition x_location_step :: "TernaryVector \<Rightarrow> nat \<Rightarrow> nat \<Rightarrow> nat list \<Rightarrow> nat list" where
  "x_location_step tern max_interval_bits i x_locations =
     (if tern ! i = kUnknown then
        let x_locations = x_locations @ [i]
        in if length x_locations > max_interval_bits + 1 then tl x_locations else x_locations
      else x_locations)"

fun skip_contiguous :: "nat \<Rightarrow> nat list \<Rightarrow> nat \<times> nat list" where
  "skip_contiguous lsb_xs (x # x_locations) =
     (if lsb_xs = x then skip_contiguous (lsb_xs + 1) x_locations else (lsb_xs, x # x_locations))"
| "skip_contiguous lsb_xs [] = (lsb_xs, [])"

definition extend_unknown :: "TernaryVector \<Rightarrow> nat \<Rightarrow> nat \<times> nat list" where
  "extend_unknown tern max_interval_bits =
     (let lsb_xs = length (takeWhile (\<lambda>t. \<not> IsKnown t) tern);
          x_locations = fold (x_location_step tern max_interval_bits) [lsb_xs..<length tern] []
      in if length x_locations > max_interval_bits
         then skip_contiguous (hd x_locations + 1) (tl x_locations)
         else (lsb_xs, x_locations))"

definition ternary_group :: "bits \<Rightarrow> bits \<Rightarrow> nat \<Rightarrow> bits \<Rightarrow> Interval option" where
  "ternary_group lb ub lsb_xs v = do {
     lo \<leftarrow> Concat [v, Bits lsb_xs];
     lo \<leftarrow> UMax lb lo;
     hi \<leftarrow> Concat [v, AllOnes lsb_xs];
     hi \<leftarrow> UMin ub hi;
     Interval_Closed lo hi }"

partial_function (option) all_bits_loop :: "RealizedTernaryIterator \<Rightarrow> bits list option" where
  "all_bits_loop it = do {
     at_end \<leftarrow> ternary_iterator_eq it ternary_end;
     if at_end then Some []
     else do {
       x \<leftarrow> ternary_deref it;
       it \<leftarrow> Advance it 1;
       xs \<leftarrow> all_bits_loop it;
       Some (x # xs) } }"

definition FromTernary :: "TernaryVector \<Rightarrow> int \<Rightarrow> IntervalSet option" where
  "FromTernary tern max_interval_bits = do {
     CHECK (max_interval_bits \<ge> 0);
     if IsFullyKnown tern then do { b \<leftarrow> ToKnownBitsValues tern False; IntervalSet_Precise b }
     else do {
       lb \<leftarrow> ToKnownBitsValues tern False;
       ub \<leftarrow> ToKnownBitsValues tern True;
       let (lsb_xs, x_locations) = extend_unknown tern (nat max_interval_bits);
       let pre = drop lsb_xs tern;
       if x_locations = [] \<or> lsb_xs = length tern then do {
         high_bits \<leftarrow> ToKnownBitsValues pre False;
         i \<leftarrow> ternary_group lb ub lsb_xs high_bits;
         IntervalSet_Of [i] }
       else do {
         it \<leftarrow> ternary_begin pre;
         vs \<leftarrow> all_bits_loop it;
         is \<leftarrow> mapM (ternary_group lb ub lsb_xs) vs;
         UnsafeFromNormalized (int (length tern)) is } } }"

section \<open>Does a set meet a ternary vector?\<close>

definition could_be_le :: "TernaryVector \<Rightarrow> bits \<Rightarrow> bool option" where
  "could_be_le t L = do {
     r \<leftarrow> loop (\<lambda>i _. do {
            b \<leftarrow> Get L i;
            Some (if b then if t ! i \<noteq> kKnownOne then Return True else Continue ()
                  else if t ! i = kKnownOne then Return False else Continue ()) }) (rev [0..<length t]) ();
     Some (step_result (\<lambda>_. True) r) }"

definition could_be_ge :: "TernaryVector \<Rightarrow> bits \<Rightarrow> bool option" where
  "could_be_ge t U = do {
     r \<leftarrow> loop (\<lambda>i _. do {
            b \<leftarrow> Get U i;
            Some (if b then if t ! i = kKnownZero then Return False else Continue ()
                  else if t ! i \<noteq> kKnownZero then Return True else Continue ()) }) (rev [0..<length t]) ();
     Some (step_result (\<lambda>_. True) r) }"

definition CoversTernary_interval :: "Interval \<Rightarrow> TernaryVector \<Rightarrow> bool option" where
  "CoversTernary_interval interval ternary = do {
     n \<leftarrow> Interval_BitCount interval;
     if n \<noteq> length ternary then Some False
     else if IsFullyKnown ternary then do { v \<leftarrow> ToKnownBitsValues ternary False; Interval_Covers interval v }
     else do {
       precise \<leftarrow> Interval_IsPrecise interval;
       if precise then IsCompatible_bits ternary (lower_bound interval)
       else do {
         lcp \<leftarrow> LongestCommonPrefixMSB [lower_bound interval, upper_bound interval];
         let k = ib_bit_count lcp;
         is_proper \<leftarrow> GetFromMsb (upper_bound interval) k;
         let pre = drop (length ternary - k) ternary;
         compatible \<leftarrow> IsCompatible_bits pre lcp;
         if is_proper \<and> \<not> compatible then Some False
         else do {
           pv \<leftarrow> ToKnownBitsValues pre False;
           same \<leftarrow> Bits_eq pv lcp;
           if \<not> is_proper \<and> \<not> (IsFullyKnown pre \<and> same) then Some True
           else do {
             x \<leftarrow> nth_opt ternary (length ternary - k - 1);
             L \<leftarrow> Slice (lower_bound interval) 0 (length ternary - k - 1);
             U \<leftarrow> Slice (upper_bound interval) 0 (length ternary - k - 1);
             let t = take (length ternary - k - 1) ternary;
             if IsKnown x then
               if (x = kKnownZero) = is_proper then could_be_ge t L else could_be_le t U
             else do {
               le \<leftarrow> could_be_le t U;
               if le then Some True else could_be_ge t L } } } } } }"

definition CoversTernary :: "IntervalSet \<Rightarrow> TernaryVector \<Rightarrow> bool option" where
  "CoversTernary s ternary = do {
     n \<leftarrow> IntervalSet_BitCount s;
     if n \<noteq> length ternary then Some False
     else do {
       is \<leftarrow> Intervals s;
       r \<leftarrow> loop (\<lambda>i _. do { c \<leftarrow> CoversTernary_interval i ternary; Some (if c then Return True else Continue ()) }) is ();
       Some (step_result (\<lambda>_. False) r) } }"

section \<open>Population counts\<close>

definition MaxPopCountLessThanOrEqualTo :: "bits \<Rightarrow> nat option" where
  "MaxPopCountLessThanOrEqualTo limit = do {
     z \<leftarrow> IsZero limit;
     m \<leftarrow> Bits_IsAllOnes limit;
     if z then Some 0
     else if m then Some (ib_bit_count limit)
     else do {
       clz \<leftarrow> CountLeadingZeros limit;
       let significant_bits = ib_bit_count limit - clz;
       low \<leftarrow> Slice limit 0 significant_bits;
       ones \<leftarrow> Bits_IsAllOnes low;
       Some (if ones then significant_bits else significant_bits - 1) } }"

definition MaxPopCount_interval :: "Interval \<Rightarrow> nat option" where
  "MaxPopCount_interval interval = do {
     precise \<leftarrow> Interval_IsPrecise interval;
     if precise then PopCount (lower_bound interval)
     else do {
       let lower = lower_bound interval;
       let upper = upper_bound interval;
       pre \<leftarrow> LongestCommonPrefixMSB [lower, upper];
       prefix_pop \<leftarrow> PopCount pre;
       let divergence_bit_index = ib_bit_count lower - 1 - ib_bit_count pre;
       let candidate_lower = prefix_pop + divergence_bit_index;
       candidate_upper \<leftarrow>
         (if divergence_bit_index = 0 then Some (prefix_pop + 1)
          else do {
            upper_remainder \<leftarrow> Slice upper 0 divergence_bit_index;
            k \<leftarrow> MaxPopCountLessThanOrEqualTo upper_remainder;
            Some (prefix_pop + 1 + k) });
       Some (max candidate_lower candidate_upper) } }"

definition MaxPopCount :: "IntervalSet \<Rightarrow> nat option" where
  "MaxPopCount s = do {
     is \<leftarrow> Intervals s;
     foldM (\<lambda>i max_pop_count. do { k \<leftarrow> MaxPopCount_interval i; Some (max max_pop_count k) }) is 0 }"

definition MinPopCount_interval :: "Interval \<Rightarrow> nat option" where
  "MinPopCount_interval interval = do {
     precise \<leftarrow> Interval_IsPrecise interval;
     if precise then PopCount (lower_bound interval)
     else do {
       let lower = lower_bound interval;
       pre \<leftarrow> LongestCommonPrefixMSB [lower, upper_bound interval];
       let divergence_bit_index = ib_bit_count lower - 1 - ib_bit_count pre;
       low_zero \<leftarrow> (if divergence_bit_index = 0 then Some True
          else do { low \<leftarrow> Slice lower 0 divergence_bit_index; IsZero low });
       k \<leftarrow> PopCount pre;
       Some (if low_zero then k else k + 1) } }"

definition MinPopCount :: "IntervalSet \<Rightarrow> nat option" where
  "MinPopCount s =
     (if IntervalSet_IsEmpty s then Some 0
      else do {
        n \<leftarrow> IntervalSet_BitCount s;
        is \<leftarrow> Intervals s;
        foldM (\<lambda>i min_pop_count. do { k \<leftarrow> MinPopCount_interval i; Some (min min_pop_count k) }) is n })"

end
