(* ===== verification/Interval_Engine.thy ===== *)
theory Interval_Engine
  imports Interval_Ops
begin

text \<open>
  \<^verbatim>\<open>xls/ir/interval_ops.cc\<close>, second part: reducing a set to fewer intervals, and the engine behind the
  arithmetic. An operation is given by its calculation on bit vectors, which reports when the exact
  result left the width, and by the behavior of its arguments; the engine evaluates it on small sets
  value by value, and otherwise on the bounds of every combination of intervals.
\<close>

definition kMaxExactCalculations :: int where "kMaxExactCalculations = 16"
definition kMaxIntervalSegments :: nat where "kMaxIntervalSegments = 16"
definition kMaxVariadicOperations :: nat where "kMaxVariadicOperations = 1000000"

section \<open>Fewer intervals\<close>

record GapInfo =
  distance :: bits
  prev_interval_idx :: nat

definition gap_cmp :: "GapInfo \<Rightarrow> GapInfo \<Rightarrow> bool option" where
  "gap_cmp l r = do {
     cmp \<leftarrow> bits_UCmp (distance l) (distance r);
     Some (if cmp \<noteq> 0 then cmp > 0 else prev_interval_idx l > prev_interval_idx r) }"

text \<open>\<^verbatim>\<open>std::nth_element\<close> moves the first elements of the sorted order to the front, in some order; it is the
  sort here, and the indices of the front elements are sorted afterwards.\<close>

primrec gap_insert :: "GapInfo \<Rightarrow> GapInfo list \<Rightarrow> GapInfo list option" where
  "gap_insert x [] = Some [x]"
| "gap_insert x (y # ys) = do {
     lt \<leftarrow> gap_cmp y x;
     if lt then do { r \<leftarrow> gap_insert x ys; Some (y # r) } else Some (x # y # ys) }"

definition nth_element :: "GapInfo list \<Rightarrow> nat \<Rightarrow> GapInfo list option" where
  "nth_element gap_list k = do { CHECK (k \<le> length gap_list); foldM gap_insert gap_list [] }"

definition merge_survivor :: "Interval list \<Rightarrow> nat \<Rightarrow> nat \<times> Interval list \<Rightarrow> (nat \<times> Interval list) option" where
  "merge_survivor is end_idx = (\<lambda>(start_idx, final_intervals). do {
     a \<leftarrow> nth_opt is start_idx;
     b \<leftarrow> nth_opt is end_idx;
     i \<leftarrow> mkInterval (lower_bound a) (upper_bound b);
     Some (end_idx + 1, final_intervals @ [i]) })"

definition MinimizeIntervals :: "'bn bn_lib \<Rightarrow> IntervalSet \<Rightarrow> nat \<Rightarrow> IntervalSet option" where
  "MinimizeIntervals bn interval_set limit =
     (if IntervalSet_IsEmpty interval_set then Some interval_set
      else do {
        s \<leftarrow> Normalize interval_set;
        if NumberOfIntervals s \<le> limit then Some s
        else if limit = 1 then do {
          hull \<leftarrow> IntervalSet_ConvexHull s;
          h \<leftarrow> hull;
          UnsafeFromNormalized (set_bit_count s) [h] }
        else do {
          CHECK (limit \<ge> 1);
          is \<leftarrow> Intervals s;
          gap_list \<leftarrow> mapM (\<lambda>i. do {
              d \<leftarrow> Sub bn (lower_bound (is ! (i + 1))) (upper_bound (is ! i));
              Some \<lparr>distance = d, prev_interval_idx = i\<rparr> }) [0..<length is - 1];
          gap_list \<leftarrow> nth_element gap_list (limit - 1);
          let surviving_indices = sort (map prev_interval_idx (take (limit - 1) gap_list));
          (start_idx, final_intervals) \<leftarrow> foldM (merge_survivor is) surviving_indices (0, []);
          a \<leftarrow> nth_opt is start_idx;
          i \<leftarrow> mkInterval (lower_bound a) (upper_bound (last is));
          UnsafeFromNormalized (set_bit_count s) (final_intervals @ [i]) } })"

section \<open>The behavior of arguments\<close>

datatype Tonicity = Monotone | Antitone

fun Opposite :: "Tonicity \<Rightarrow> Tonicity" where
  "Opposite Monotone = Antitone" | "Opposite Antitone = Monotone"

record ArgumentBehavior =
  tonicity :: Tonicity
  size_preserving :: bool
  sign_sensitive :: bool
  sign_sensitive_tonicity :: "nat list"

definition SignSensitive :: "ArgumentBehavior \<Rightarrow> ArgumentBehavior" where
  "SignSensitive b = b\<lparr>size_preserving := sign_sensitive b, sign_sensitive := True\<rparr>"

definition AddSignSensitiveTonicity :: "ArgumentBehavior \<Rightarrow> nat \<Rightarrow> ArgumentBehavior" where
  "AddSignSensitiveTonicity b i = b\<lparr>sign_sensitive_tonicity := sign_sensitive_tonicity b @ [i]\<rparr>"

definition kMonotoneSizePreserving :: ArgumentBehavior where
  "kMonotoneSizePreserving =
     \<lparr>tonicity = Monotone, size_preserving = True, sign_sensitive = False, sign_sensitive_tonicity = []\<rparr>"

definition kMonotoneNonSizePreserving :: ArgumentBehavior where
  "kMonotoneNonSizePreserving =
     \<lparr>tonicity = Monotone, size_preserving = False, sign_sensitive = False, sign_sensitive_tonicity = []\<rparr>"

definition kAntitoneSizePreserving :: ArgumentBehavior where
  "kAntitoneSizePreserving =
     \<lparr>tonicity = Antitone, size_preserving = True, sign_sensitive = False, sign_sensitive_tonicity = []\<rparr>"

definition kAntitoneNonSizePreserving :: ArgumentBehavior where
  "kAntitoneNonSizePreserving =
     \<lparr>tonicity = Antitone, size_preserving = False, sign_sensitive = False, sign_sensitive_tonicity = []\<rparr>"

record OverflowResult =
  ov_result :: bits
  first_overflow_bit :: bool
  second_overflow_bit :: bool

type_synonym calculation = "bits list \<Rightarrow> OverflowResult option"

section \<open>Small sets, value by value\<close>

definition exact_combo :: "calculation \<Rightarrow> bits list \<Rightarrow> IntervalSet \<Rightarrow> (bool \<times> IntervalSet) option" where
  "exact_combo calc vs results = do {
     r \<leftarrow> calc vs;
     i \<leftarrow> Interval_Precise (ov_result r);
     results \<leftarrow> AddInterval results i;
     Some (False, results) }"

definition MaybePerformExactCalculation ::
    "'bn bn_lib \<Rightarrow> calculation \<Rightarrow> ArgumentBehavior list \<Rightarrow> IntervalSet list \<Rightarrow> nat \<Rightarrow> IntervalSet option option" where
  "MaybePerformExactCalculation bn calc behaviors input_operands result_bit_size =
     (if list_all size_preserving behaviors then Some None
      else do {
        required \<leftarrow> loop (\<lambda>is required_calculations. do {
             size \<leftarrow> IntervalSet_Size bn is;
             Some (case size of
                 None \<Rightarrow> Return ()
               | Some k \<Rightarrow>
                   if sint k > kMaxExactCalculations \<or> sint k \<le> 0 \<or> required_calculations * sint k > kMaxExactCalculations
                   then Return () else Continue (required_calculations * sint k)) }) input_operands 1;
        case required of
          Return _ \<Rightarrow> Some None
        | Continue _ \<Rightarrow> do {
            vss \<leftarrow> mapM all_values input_operands;
            (_, results) \<leftarrow> IteratorProduct vss (exact_combo calc) (IntervalSet_of_width (int result_bit_size));
            results \<leftarrow> Normalize results;
            Some (Some results) } })"

section \<open>Fewer combinations\<close>

record SafeMultiplyResult =
  sm_overflow :: bool
  sm_result :: nat

definition SafeMultiply :: "SafeMultiplyResult \<Rightarrow> nat \<Rightarrow> SafeMultiplyResult" where
  "SafeMultiply a b =
     (if sm_overflow a then \<lparr>sm_overflow = True, sm_result = 0\<rparr>
      else let product = sm_result a * b
           in if product > 2 ^ 64 - 1 then \<lparr>sm_overflow = True, sm_result = 0\<rparr>
              else \<lparr>sm_overflow = False, sm_result = product\<rparr>)"

text \<open>One gap against the smallest gap so far.\<close>

definition gap_step ::
    "'bn bn_lib \<Rightarrow> nat \<Rightarrow> nat \<Rightarrow> Interval list \<Rightarrow> nat \<Rightarrow> (nat \<times> bits) option \<Rightarrow> (nat \<times> bits) option option" where
  "gap_step bn max_bit_width i is j best = do {
     gap_size \<leftarrow> Sub bn (lower_bound (is ! (j + 1))) (upper_bound (is ! j));
     extended_gap_size \<leftarrow> ZeroExtend gap_size max_bit_width;
     case best of
       None \<Rightarrow> Some (Some (i, extended_gap_size))
     | Some (_, min_gap_size) \<Rightarrow> do {
         lt \<leftarrow> ULessThan extended_gap_size min_gap_size;
         Some (if lt then Some (i, extended_gap_size) else best) } }"

definition best_gap :: "'bn bn_lib \<Rightarrow> nat \<Rightarrow> IntervalSet list \<Rightarrow> (nat \<times> bits) option option" where
  "best_gap bn max_bit_width results =
     foldM (\<lambda>i best.
         if NumberOfIntervals (results ! i) \<le> 1 then Some best
         else do {
           is \<leftarrow> Intervals (results ! i);
           foldM (gap_step bn max_bit_width i is) [0..<NumberOfIntervals (results ! i) - 1] best })
       [0..<length results] None"

definition ReduceIntervalFragmentationForOp :: "'bn bn_lib \<Rightarrow> IntervalSet list \<Rightarrow> IntervalSet list option" where
  "ReduceIntervalFragmentationForOp bn interval_sets = do {
     counts \<leftarrow> loop (\<lambda>is (max_bit_width, total_intervals). do {
          n \<leftarrow> IntervalSet_BitCount is;
          Some (if NumberOfIntervals is = 0 then Return ()
                else Continue (max max_bit_width n, total_intervals + NumberOfIntervals is)) }) interval_sets (0, 0);
     case counts of
       Return _ \<Rightarrow> Some interval_sets
     | Continue (max_bit_width, total_intervals) \<Rightarrow>
         if interval_sets = [] then Some interval_sets
         else do {
           r \<leftarrow> loop (\<lambda>_ results.
                  let m = foldl SafeMultiply \<lparr>sm_overflow = False, sm_result = 1\<rparr> (map NumberOfIntervals results)
                  in if \<not> sm_overflow m \<and> sm_result m \<le> kMaxVariadicOperations then Some (Return results)
                     else do {
                       best \<leftarrow> best_gap bn max_bit_width results;
                       (best_set_idx, _) \<leftarrow> best;
                       s \<leftarrow> nth_opt results best_set_idx;
                       s \<leftarrow> MinimizeIntervals bn s (NumberOfIntervals s - 1);
                       results \<leftarrow> set_opt results best_set_idx s;
                       Some (Continue results) }) [0..<total_intervals] interval_sets;
           case r of Return results \<Rightarrow> Some results | Continue _ \<Rightarrow> None } }"

section \<open>All combinations of intervals\<close>

datatype Sign = kPositive | kNegative | kSignUnknown

definition operand_sign :: "ArgumentBehavior \<Rightarrow> Interval \<Rightarrow> Sign option" where
  "operand_sign b interval =
     (if sign_sensitive b then do {
        l \<leftarrow> msb (lower_bound interval);
        u \<leftarrow> msb (upper_bound interval);
        CHECK (l = u);
        Some (if l then kNegative else kPositive) }
      else Some kSignUnknown)"

definition operand_bounds :: "Sign list \<Rightarrow> ArgumentBehavior \<Rightarrow> Interval \<Rightarrow> (bits \<times> bits) option" where
  "operand_bounds signs b interval = do {
     ton \<leftarrow> foldM (\<lambda>j ton. do {
          s \<leftarrow> nth_opt signs j;
          CHECK (s \<noteq> kSignUnknown);
          Some (if s = kNegative then Opposite ton else ton) }) (sign_sensitive_tonicity b) (tonicity b);
     Some (case ton of
         Monotone \<Rightarrow> (lower_bound interval, upper_bound interval)
       | Antitone \<Rightarrow> (upper_bound interval, lower_bound interval)) }"

definition handle_combo ::
    "calculation \<Rightarrow> ArgumentBehavior list \<Rightarrow> bool \<Rightarrow> nat \<Rightarrow> Interval list \<Rightarrow> IntervalSet \<Rightarrow> (bool \<times> IntervalSet) option" where
  "handle_combo calc behaviors overflow_is_size_preserving result_bit_size combo result_intervals = do {
     signs \<leftarrow> mapM (\<lambda>(b, i). operand_sign b i) (zip behaviors combo);
     bounds \<leftarrow> mapM (\<lambda>(b, i). operand_bounds signs b i) (zip behaviors combo);
     lower \<leftarrow> calc (map fst bounds);
     upper \<leftarrow> calc (map snd bounds);
     if (\<not> first_overflow_bit lower \<and> \<not> first_overflow_bit upper) \<or> overflow_is_size_preserving then do {
       i \<leftarrow> mkInterval (ov_result lower) (ov_result upper);
       r \<leftarrow> AddInterval result_intervals i;
       Some (False, r) }
     else do {
       gt \<leftarrow> UGreaterThan (ov_result upper) (ov_result lower);
       if (first_overflow_bit lower \<and> first_overflow_bit upper) \<or> second_overflow_bit lower \<or> second_overflow_bit upper \<or> gt
       then do {
         i \<leftarrow> Interval_Maximal result_bit_size;
         r \<leftarrow> AddInterval result_intervals i;
         Some (True, r) }
       else do {
         i \<leftarrow> mkInterval (ov_result lower) (AllOnes result_bit_size);
         r \<leftarrow> AddInterval result_intervals i;
         j \<leftarrow> mkInterval (Bits result_bit_size) (ov_result upper);
         r \<leftarrow> AddInterval r j;
         Some (False, r) } } }"

definition size_preserving_step :: "ArgumentBehavior \<times> IntervalSet \<Rightarrow> bool \<times> nat \<Rightarrow> (bool \<times> nat) option" where
  "size_preserving_step = (\<lambda>(b, s) (overflow_is_size_preserving, count_non_precise).
     if \<not> overflow_is_size_preserving then Some (overflow_is_size_preserving, count_non_precise)
     else do {
       p \<leftarrow> IntervalSet_IsPrecise s;
       Some (size_preserving b \<or> p, if p then count_non_precise else count_non_precise + 1) })"

definition PerformVariadicOp ::
    "'bn bn_lib \<Rightarrow> calculation \<Rightarrow> ArgumentBehavior list \<Rightarrow> IntervalSet list \<Rightarrow> nat \<Rightarrow> IntervalSet option" where
  "PerformVariadicOp bn calc behaviors input_operands result_bit_size = do {
     CHECK (length input_operands = length behaviors);
     exact_result \<leftarrow> MaybePerformExactCalculation bn calc behaviors input_operands result_bit_size;
     case exact_result of
       Some r \<Rightarrow> Some r
     | None \<Rightarrow> do {
         operands \<leftarrow> ReduceIntervalFragmentationForOp bn input_operands;
         precise \<leftarrow> mapM IntervalSet_IsPrecise operands;
         if list_all (\<lambda>p. p) precise then do {
           real_values \<leftarrow> mapM (\<lambda>s. do { v \<leftarrow> IntervalSet_GetPreciseValue s; v }) operands;
           r \<leftarrow> calc real_values;
           IntervalSet_Precise (ov_result r) }
         else do {
           let any_sign_sensitive = list_ex sign_sensitive behaviors;
           (all_preserving, count_non_precise) \<leftarrow> foldM size_preserving_step (zip behaviors operands) (True, 0);
           let overflow_is_size_preserving = (all_preserving \<and> count_non_precise = 1);
           iss \<leftarrow> mapM (if any_sign_sensitive then all_signed_intervals else Intervals) operands;
           (_, result_intervals) \<leftarrow>
             IteratorProduct iss (handle_combo calc behaviors overflow_is_size_preserving result_bit_size)
               (IntervalSet_of_width (int result_bit_size));
           result_intervals \<leftarrow> Normalize result_intervals;
           MinimizeIntervals bn result_intervals kMaxIntervalSegments } } }"

definition no_overflow :: "bits \<Rightarrow> OverflowResult" where
  "no_overflow b = \<lparr>ov_result = b, first_overflow_bit = False, second_overflow_bit = False\<rparr>"

definition PerformBinOp ::
    "'bn bn_lib \<Rightarrow> (bits \<Rightarrow> bits \<Rightarrow> OverflowResult option) \<Rightarrow> IntervalSet \<Rightarrow> ArgumentBehavior \<Rightarrow>
     IntervalSet \<Rightarrow> ArgumentBehavior \<Rightarrow> nat \<Rightarrow> IntervalSet option" where
  "PerformBinOp bn calc lhs lhs_behavior rhs rhs_behavior result_bit_size =
     PerformVariadicOp bn (\<lambda>bs. do { CHECK (length bs = 2); calc (bs ! 0) (bs ! 1) })
       [lhs_behavior, rhs_behavior] [lhs, rhs] result_bit_size"

definition PerformUnaryOp ::
    "'bn bn_lib \<Rightarrow> (bits \<Rightarrow> OverflowResult option) \<Rightarrow> IntervalSet \<Rightarrow> ArgumentBehavior \<Rightarrow> nat \<Rightarrow> IntervalSet option" where
  "PerformUnaryOp bn calc arg behavior result_bit_size =
     PerformVariadicOp bn (\<lambda>bs. do { CHECK (length bs = 1); calc (bs ! 0) }) [behavior] [arg] result_bit_size"

end
