(* ===== verification/Interval_Minimize.thy ===== *)
theory Interval_Minimize
  imports Interval_Engine "HOL-Library.Multiset"
begin

text \<open>
  Rules for \<^verbatim>\<open>MinimizeIntervals\<close> and \<^verbatim>\<open>ReduceIntervalFragmentationForOp\<close>. Closing gaps between the intervals of
  a normal form gives a normal form that contains it and has the same bounds; the gaps that stay are the
  largest ones. The reduction never runs out of gaps before the product of the counts is small enough.
\<close>

section \<open>Closing gaps\<close>

text \<open>The intervals that remain when only the gaps after the given positions stay.\<close>

fun merged :: "(nat \<times> nat) list \<Rightarrow> nat \<Rightarrow> nat list \<Rightarrow> (nat \<times> nat) list" where
  "merged ps start [] = [(fst (ps ! start), snd (last ps))]"
| "merged ps start (e # es) = (fst (ps ! start), snd (ps ! e)) # merged ps (e + 1) es"

lemma norm_nth:
  assumes "norm n ps" "i < length ps"
  shows "fst (ps ! i) \<le> snd (ps ! i)" "snd (ps ! i) < 2 ^ n"
proof -
  obtain l u where lu: "ps ! i = (l, u)" by fastforce
  then have "(l, u) \<in> set ps" using assms(2) by (metis nth_mem)
  then show "fst (ps ! i) \<le> snd (ps ! i)" "snd (ps ! i) < 2 ^ n" using assms(1) lu by (auto simp: norm_def)
qed

lemma norm_nth_less:
  assumes "norm n ps" "i < j" "j < length ps"
  shows "snd (ps ! i) + 1 < fst (ps ! j)"
proof -
  have "(\<lambda>(l, u) (l', u'). u + 1 < l') (ps ! i) (ps ! j)"
    using assms sorted_wrt_nth_less[of "\<lambda>(l, u) (l', u'). u + 1 < l'" ps i j] by (simp add: norm_def)
  then show ?thesis by (simp add: case_prod_unfold)
qed

lemma norm_nth_mono:
  assumes "norm n ps" "i \<le> j" "j < length ps"
  shows "fst (ps ! i) \<le> fst (ps ! j)" "snd (ps ! i) \<le> snd (ps ! j)" "fst (ps ! i) \<le> snd (ps ! j)"
proof -
  have "fst (ps ! i) \<le> fst (ps ! j) \<and> snd (ps ! i) \<le> snd (ps ! j)"
  proof (cases "i = j")
    case False
    then show ?thesis
      using norm_nth_less[OF assms(1), of i j] norm_nth[OF assms(1), of i] norm_nth[OF assms(1), of j] assms(2,3)
      by simp
  qed simp
  then show "fst (ps ! i) \<le> fst (ps ! j)" "snd (ps ! i) \<le> snd (ps ! j)" "fst (ps ! i) \<le> snd (ps ! j)"
    using norm_nth(1)[OF assms(1), of j] assms(3) by auto
qed

lemma norm_drop: "norm n ps \<Longrightarrow> norm n (drop k ps)"
  by (auto simp: norm_def dest: in_set_dropD intro: sorted_wrt_drop)

lemma mem_pts_drop:
  assumes "norm n ps"
  shows "x \<in> pts n (drop k ps) \<longleftrightarrow> (\<exists>i<length ps. k \<le> i \<and> fst (ps ! i) \<le> x \<and> x \<le> snd (ps ! i))"
proof -
  have "x \<in> pts n (drop k ps) \<longleftrightarrow> (\<exists>p\<in>set (drop k ps). fst p \<le> x \<and> x \<le> snd p)"
    unfolding norm_pts[OF norm_drop[OF assms]] by (simp add: case_prod_unfold)
  also have "\<dots> \<longleftrightarrow> (\<exists>i<length ps. k \<le> i \<and> fst (ps ! i) \<le> x \<and> x \<le> snd (ps ! i))"
  proof
    assume "\<exists>p\<in>set (drop k ps). fst p \<le> x \<and> x \<le> snd p"
    then obtain i where "i < length ps - k" "fst (ps ! (k + i)) \<le> x" "x \<le> snd (ps ! (k + i))"
      by (auto simp: in_set_conv_nth)
    then show "\<exists>i<length ps. k \<le> i \<and> fst (ps ! i) \<le> x \<and> x \<le> snd (ps ! i)" by (intro exI[of _ "k + i"]) simp
  next
    assume "\<exists>i<length ps. k \<le> i \<and> fst (ps ! i) \<le> x \<and> x \<le> snd (ps ! i)"
    then obtain i where "i < length ps" "k \<le> i" "fst (ps ! i) \<le> x" "x \<le> snd (ps ! i)" by blast
    then show "\<exists>p\<in>set (drop k ps). fst p \<le> x \<and> x \<le> snd p"
      using nth_mem[of "i - k" "drop k ps"] by (intro bexI[of _ "ps ! i"]) simp_all
  qed
  finally show ?thesis .
qed

lemma merged_correct:
  assumes "norm n ps" "start < length ps" "sorted_wrt (<) es" "\<forall>e\<in>set es. start \<le> e \<and> e + 1 < length ps"
  shows "norm n (merged ps start es) \<and> pts n (drop start ps) \<subseteq> pts n (merged ps start es) \<and>
    (\<forall>(l, u)\<in>set (merged ps start es). fst (ps ! start) \<le> l) \<and> length (merged ps start es) = length es + 1 \<and>
    fst (hd (merged ps start es)) = fst (ps ! start) \<and> snd (last (merged ps start es)) = snd (last ps)"
  using assms(2-4)
proof (induction es arbitrary: start)
  case Nil
  let ?k = "length ps - 1"
  have "last ps = ps ! ?k" using Nil by (metis last_conv_nth list.size(3) not_less0)
  moreover have "fst (ps ! start) \<le> snd (ps ! ?k)" "snd (ps ! ?k) < 2 ^ n"
    using norm_nth_mono[OF assms(1), of start ?k] norm_nth[OF assms(1), of ?k] Nil by auto
  moreover have "fst (ps ! start) \<le> x \<and> x \<le> snd (ps ! ?k)"
    if "i < length ps" "start \<le> i" "fst (ps ! i) \<le> x" "x \<le> snd (ps ! i)" for i x
    using that norm_nth_mono[OF assms(1), of start i] norm_nth_mono[OF assms(1), of i ?k] by linarith
  ultimately show ?case
    by (auto simp: norm_def wrap_points_def mem_pts_drop[OF assms(1)])
next
  case (Cons e es)
  have e: "start \<le> e" "e + 1 < length ps" using Cons.prems by auto
  have "\<forall>x\<in>set es. e + 1 \<le> x \<and> x + 1 < length ps" using Cons.prems by auto
  with Cons.IH[OF e(2)] Cons.prems(2) have IHa: "norm n (merged ps (e + 1) es) \<and> pts n (drop (e + 1) ps) \<subseteq> pts n (merged ps (e + 1) es) \<and>
    (\<forall>(l, u)\<in>set (merged ps (e + 1) es). fst (ps ! (e + 1)) \<le> l) \<and> length (merged ps (e + 1) es) = length es + 1 \<and>
    snd (last (merged ps (e + 1) es)) = snd (last ps)" by simp
  have IH: "norm n (merged ps (e + 1) es)" "pts n (drop (e + 1) ps) \<subseteq> pts n (merged ps (e + 1) es)"
    "\<forall>(l, u)\<in>set (merged ps (e + 1) es). fst (ps ! (e + 1)) \<le> l" "length (merged ps (e + 1) es) = length es + 1"
    "merged ps (e + 1) es \<noteq> []" "snd (last (merged ps (e + 1) es)) = snd (last ps)"
    using IHa by auto
  have le: "fst (ps ! start) \<le> snd (ps ! e)" "snd (ps ! e) < 2 ^ n" "snd (ps ! e) + 1 < fst (ps ! (e + 1))"
    using norm_nth_mono[OF assms(1), of start e] norm_nth[OF assms(1), of e] norm_nth_less[OF assms(1), of e "e + 1"] e
    by auto
  have cover: "pts n (drop start ps) \<subseteq> {fst (ps ! start)..snd (ps ! e)} \<union> pts n (merged ps (e + 1) es)"
  proof
    fix x assume "x \<in> pts n (drop start ps)"
    then obtain i where i: "i < length ps" "start \<le> i" "fst (ps ! i) \<le> x" "x \<le> snd (ps ! i)"
      by (auto simp: mem_pts_drop[OF assms(1)])
    show "x \<in> {fst (ps ! start)..snd (ps ! e)} \<union> pts n (merged ps (e + 1) es)"
    proof (cases "i \<le> e")
      case True
      then show ?thesis using i e norm_nth_mono[OF assms(1), of start i] norm_nth_mono[OF assms(1), of i e] by simp
    next
      case False
      then have "x \<in> pts n (drop (e + 1) ps)" using i by (auto simp: mem_pts_drop[OF assms(1)] intro!: exI[of _ i])
      then show ?thesis using IH(2) by blast
    qed
  qed
  have "\<forall>(l, u)\<in>set (merged ps (e + 1) es). snd (ps ! e) + 1 < l" using IH(3) le(3) by fastforce
  moreover have "fst (ps ! start) \<le> fst (ps ! (e + 1))" using le by linarith
  ultimately show ?case using IH le cover by (auto simp: norm_Cons wrap_points_def)
qed

text \<open>The loop over the surviving positions computes \<open>merged\<close>.\<close>

lemma merge_survivor_ivs:
  assumes "start < length ps" "\<forall>e\<in>set es. e + 1 < length ps"
  shows "\<exists>k acc'. foldM (merge_survivor (ivs n ps)) es (start, ivs n acc) = Some (k, ivs n acc') \<and> k < length ps \<and>
    acc' @ [(fst (ps ! k), snd (last ps))] = acc @ merged ps start es"
  using assms
proof (induction es arbitrary: start acc)
  case Nil
  then show ?case by simp
next
  case (Cons e es)
  obtain l u l' u' where lu: "ps ! start = (l, u)" "ps ! e = (l', u')" by (metis prod.exhaust)
  have "merge_survivor (ivs n ps) e (start, ivs n acc) = Some (e + 1, ivs n (acc @ [(l, u')]))"
    using Cons.prems lu by (simp add: merge_survivor_def nth_opt_def mkInterval_mk)
  then show ?case using Cons.IH[of "e + 1" "acc @ [(l, u')]"] Cons.prems lu by simp
qed

section \<open>The largest gaps\<close>

definition gap_key :: "GapInfo \<Rightarrow> nat \<times> nat" where
  "gap_key g = (bm_val (distance g), prev_interval_idx g)"

definition gap_of :: "nat \<Rightarrow> (nat \<times> nat) list \<Rightarrow> nat \<Rightarrow> GapInfo" where
  "gap_of n ps i = \<lparr>distance = mkBitmap n (fst (ps ! (i + 1)) - snd (ps ! i)), prev_interval_idx = i\<rparr>"

lemma gap_cmp_key:
  assumes "wf_bitmap (distance a)" "wf_bitmap (distance b)" "ib_bit_count (distance a) = ib_bit_count (distance b)"
  shows "gap_cmp a b = Some (gap_key b < gap_key a)"
proof -
  obtain n v w where "distance a = mkBitmap n v" "distance b = mkBitmap n w"
    using assms by (metis wf_bitmap_mk)
  then show ?thesis by (auto simp: gap_cmp_def gap_key_def UCmp_ops_mk less_prod_def sgn_if)
qed

definition wf_gap :: "nat \<Rightarrow> GapInfo \<Rightarrow> bool" where
  "wf_gap n g = (wf_bitmap (distance g) \<and> ib_bit_count (distance g) = n)"

lemma gap_insert_sorted:
  assumes "wf_gap n x" "\<forall>y\<in>set ys. wf_gap n y" "sorted_wrt (\<lambda>a b. gap_key b \<le> gap_key a) ys"
  shows "\<exists>zs. gap_insert x ys = Some zs \<and> mset zs = add_mset x (mset ys) \<and> sorted_wrt (\<lambda>a b. gap_key b \<le> gap_key a) zs"
  using assms(2,3)
proof (induction ys)
  case (Cons y ys)
  have cmp: "gap_cmp y x = Some (gap_key x < gap_key y)"
    using assms(1) Cons.prems by (simp add: gap_cmp_key wf_gap_def)
  show ?case
  proof (cases "gap_key x < gap_key y")
    case True
    obtain zs where zs: "gap_insert x ys = Some zs" "mset zs = add_mset x (mset ys)"
        "sorted_wrt (\<lambda>a b. gap_key b \<le> gap_key a) zs"
      using Cons by auto
    have "set zs = insert x (set ys)" using zs(2) by (metis set_mset_add_mset_insert set_mset_mset)
    then show ?thesis using True zs cmp Cons.prems by auto
  next
    case False
    then show ?thesis using cmp Cons.prems by (auto intro: order_trans)
  qed
qed simp

lemma nth_element_sorted:
  assumes "\<forall>y\<in>set ys. wf_gap n y" "k \<le> length ys"
  shows "\<exists>zs. nth_element ys k = Some zs \<and> mset zs = mset ys \<and> sorted_wrt (\<lambda>a b. gap_key b \<le> gap_key a) zs"
proof -
  have "\<exists>zs. foldM gap_insert ys acc = Some zs \<and> mset zs = mset ys + mset acc \<and> sorted_wrt (\<lambda>a b. gap_key b \<le> gap_key a) zs"
    if "sorted_wrt (\<lambda>a b. gap_key b \<le> gap_key a) acc" "\<forall>y\<in>set acc. wf_gap n y" for acc
    using assms(1) that
  proof (induction ys arbitrary: acc)
    case (Cons y ys)
    obtain zs where zs: "gap_insert y acc = Some zs" "mset zs = add_mset y (mset acc)" "sorted_wrt (\<lambda>a b. gap_key b \<le> gap_key a) zs"
      using gap_insert_sorted[of n y acc] Cons.prems by auto
    have "set zs = insert y (set acc)" using zs(2) by (metis set_mset_add_mset_insert set_mset_mset)
    then show ?case using Cons.IH[of zs] Cons.prems zs by simp
  qed simp
  from this[of "[]"] show ?thesis using assms(2) by (simp add: nth_element_def CHECK_def)
qed

lemma UnsafeFromNormalized_ivs: "norm n qs \<Longrightarrow> UnsafeFromNormalized (int n) (ivs n qs) = Some (nset n qs)"
  using CheckIsNormalized_nset[of n qs] by (simp add: UnsafeFromNormalized_def CHECK_def)

lemma NumberOfIntervals_ivs [simp]:
  "NumberOfIntervals \<lparr>is_normalized = b, set_bit_count = m, intervals = ivs n ps\<rparr> = length ps"
  by (simp add: NumberOfIntervals_def)

lemma ivs_nth_bounds:
  "i < length ps \<Longrightarrow> lower_bound (ivs n ps ! i) = mkBitmap n (fst (ps ! i))"
  "i < length ps \<Longrightarrow> upper_bound (ivs n ps ! i) = mkBitmap n (snd (ps ! i))"
  "ps \<noteq> [] \<Longrightarrow> upper_bound (last (ivs n ps)) = mkBitmap n (snd (last ps))"
  by (simp_all add: case_prod_unfold last_map)

lemma set_ok_nonempty:
  assumes "set_ok n s"
  shows "set_points s = {} \<longleftrightarrow> intervals s = []"
proof -
  obtain ps where ps: "s = \<lparr>is_normalized = is_normalized s, set_bit_count = int n, intervals = ivs n ps\<rparr>" "in_range n ps"
    using assms by (elim set_okE)
  have "set_points s = pts n ps" using ps by (metis set_points_ivs)
  moreover have "intervals s = ivs n ps" using ps(1) by (metis IntervalSet.select_convs(3))
  moreover have "pts n ps = {} \<longleftrightarrow> ps = []" using ps(2) by (cases ps) (auto simp: wrap_points_def split: if_splits)
  ultimately show ?thesis by simp
qed

definition surviving :: "nat \<Rightarrow> (nat \<times> nat) list \<Rightarrow> nat list \<Rightarrow> bool" where
  "surviving k ps es = (sorted_wrt (<) es \<and> length es = k \<and> (\<forall>e\<in>set es. e + 1 < length ps) \<and>
     (\<forall>e\<in>set es. \<forall>i. i + 1 < length ps \<longrightarrow> i \<notin> set es \<longrightarrow>
        fst (ps ! (i + 1)) - snd (ps ! i) \<le> fst (ps ! (e + 1)) - snd (ps ! e)))"

lemma surviving_gaps:
  assumes "norm n ps" "k < length ps"
  shows "\<exists>zs. nth_element (map (gap_of n ps) [0..<length ps - 1]) k = Some zs \<and>
    surviving k ps (sort (map prev_interval_idx (take k zs)))"
proof -
  let ?gs = "map (gap_of n ps) [0..<length ps - 1]" and ?d = "\<lambda>i. fst (ps ! (i + 1)) - snd (ps ! i)"
  have wf: "\<forall>y\<in>set ?gs. wf_gap n y" by (auto simp: gap_of_def wf_gap_def)
  have k: "k \<le> length ?gs" using assms(2) by simp
  obtain zs where zs: "nth_element ?gs k = Some zs" "mset zs = mset ?gs" "sorted_wrt (\<lambda>a b. gap_key b \<le> gap_key a) zs"
    using nth_element_sorted[OF wf k] by blast
  have len: "length zs = length ps - 1" using zs(2) by (metis mset_eq_length length_map length_upt minus_nat.diff_0)
  have mem: "set zs = set ?gs" using zs(2) by (metis set_mset_mset)
  have idx: "mset (map prev_interval_idx zs) = mset [0..<length ps - 1]"
    using zs(2) by (metis (no_types, lifting) mset_map list.map_comp gap_of_def GapInfo.simps(2) comp_apply map_idI)
  then have dist: "distinct (map prev_interval_idx zs)" by (metis mset_eq_imp_distinct_iff distinct_upt)
  let ?es = "map prev_interval_idx (take k zs)"
  have "fst (ps ! (i + 1)) < 2 ^ n" if "i + 1 < length ps" for i using norm_nth[OF assms(1) that] by linarith
  then have key: "gap_key (gap_of n ps i) = (?d i, i)" if "i + 1 < length ps" for i
    using that by (simp add: gap_key_def gap_of_def take_bit_nat_eq_self less_imp_diff_less)
  have top: "?d i \<le> ?d e" if e: "e \<in> set ?es" and i: "i + 1 < length ps" "i \<notin> set ?es" for e i
  proof -
    have "gap_of n ps i \<in> set zs" using i(1) mem by auto
    moreover have "gap_of n ps i \<notin> set (take k zs)" using i(2) by (force simp: gap_of_def)
    ultimately have "gap_of n ps i \<in> set (drop k zs)" by (metis Un_iff append_take_drop_id set_append)
    moreover obtain g where g: "g \<in> set (take k zs)" "prev_interval_idx g = e" using e by auto
    moreover have "g \<in> set ?gs" using g(1) mem by (metis in_set_takeD)
    then have "g = gap_of n ps e" "e + 1 < length ps" using g(2) by (auto simp: gap_of_def)
    moreover have "sorted_wrt (\<lambda>a b. gap_key b \<le> gap_key a) (take k zs @ drop k zs)" using zs(3) by simp
    ultimately have "gap_key (gap_of n ps i) \<le> gap_key (gap_of n ps e)" by (auto simp only: sorted_wrt_append)
    then show ?thesis using key[OF i(1)] key[OF \<open>e + 1 < length ps\<close>] by (auto simp: less_eq_prod_def)
  qed
  have "set ?es \<subseteq> set [0..<length ps - 1]"
    using idx by (metis mset_eq_setD set_map image_mono set_take_subset)
  then have "\<forall>e\<in>set ?es. e + 1 < length ps" by auto
  moreover have "distinct ?es" using dist by (simp add: take_map[symmetric])
  then have "sorted_wrt (<) (sort ?es)" by (simp add: strict_sorted_iff)
  ultimately show ?thesis using zs(1) top len assms(2) by (auto simp: surviving_def)
qed

section \<open>Lists of operands\<close>

text \<open>Operands as pairs of a width and a list of bounds.\<close>

type_synonym operand = "nat \<times> (nat \<times> nat) list"

definition osets :: "operand list \<Rightarrow> IntervalSet list" where
  "osets xs = map (\<lambda>(n, ps). nset n ps) xs"

definition wf_operand :: "operand \<Rightarrow> bool" where
  "wf_operand x = norm (fst x) (snd x)"

definition widened :: "operand \<Rightarrow> operand \<Rightarrow> bool" where
  "widened x y = (fst y = fst x \<and> wf_operand y \<and> pts (fst x) (snd x) \<subseteq> pts (fst x) (snd y) \<and> (snd y = [] \<longleftrightarrow> snd x = []))"

definition best_ok :: "nat \<Rightarrow> (nat \<Rightarrow> bool) \<Rightarrow> (nat \<times> bits) option \<Rightarrow> bool" where
  "best_ok w P best = (case best of None \<Rightarrow> True | Some (i, g) \<Rightarrow> P i \<and> (\<exists>v. g = mkBitmap w v))"

lemma osets_simps [simp]: "osets [] = []" "osets ((n, ps) # xs) = nset n ps # osets xs" "length (osets xs) = length xs"
  by (simp_all add: osets_def)

lemma osets_nth: "i < length xs \<Longrightarrow> osets xs ! i = nset (fst (xs ! i)) (snd (xs ! i))"
  by (simp add: osets_def case_prod_unfold)

lemma osets_update: "osets (xs[i := (n, ps)]) = (osets xs)[i := nset n ps]"
  by (simp add: osets_def map_update)

lemma wf_operand_simp [simp]: "wf_operand (n, ps) = norm n ps"
  by (simp add: wf_operand_def)

lemma SafeMultiply_ones: "\<forall>c\<in>set cs. c = 1 \<Longrightarrow> foldl SafeMultiply \<lparr>sm_overflow = False, sm_result = 1\<rparr> cs = \<lparr>sm_overflow = False, sm_result = 1\<rparr>"
  by (induction cs) (simp_all add: SafeMultiply_def)

lemma sum_list_lengths:
  "(\<And>x. x \<in> set xs \<Longrightarrow> snd x \<noteq> []) \<Longrightarrow> length xs \<le> sum_list (map (\<lambda>x. length (snd x)) xs)" for xs :: "operand list"
proof (induction xs)
  case (Cons x xs)
  have "1 \<le> length (snd x)" using Cons.prems[of x] by (simp add: Suc_le_eq)
  moreover have "length xs \<le> sum_list (map (\<lambda>x. length (snd x)) xs)" using Cons by simp
  ultimately show ?case by simp
qed simp

text \<open>The body of the loop of \<^verbatim>\<open>ReduceIntervalFragmentationForOp\<close>.\<close>

definition reduce_step :: "'bn bn_lib \<Rightarrow> nat \<Rightarrow> nat \<Rightarrow> IntervalSet list \<Rightarrow> (IntervalSet list, IntervalSet list) step option" where
  "reduce_step bn w = (\<lambda>_ results.
     let m = foldl SafeMultiply \<lparr>sm_overflow = False, sm_result = 1\<rparr> (map NumberOfIntervals results)
     in if \<not> sm_overflow m \<and> sm_result m \<le> kMaxVariadicOperations then Some (Return results)
        else do {
          best \<leftarrow> best_gap bn w results;
          (best_set_idx, _) \<leftarrow> best;
          s \<leftarrow> nth_opt results best_set_idx;
          s \<leftarrow> MinimizeIntervals bn s (NumberOfIntervals s - 1);
          results \<leftarrow> set_opt results best_set_idx s;
          Some (Continue results) })"

context bignum
begin

lemma gap_list_ivs:
  assumes "norm n ps"
  shows "mapM (\<lambda>i. do {
      d \<leftarrow> Sub bn (lower_bound (ivs n ps ! (i + 1))) (upper_bound (ivs n ps ! i));
      Some \<lparr>distance = d, prev_interval_idx = i\<rparr> }) [0..<length ps - 1] = Some (map (gap_of n ps) [0..<length ps - 1])"
proof (rule mapM_pure)
  fix i assume "i \<in> set [0..<length ps - 1]"
  then have i: "i < length ps" "i + 1 < length ps" by auto
  have "int (fst (ps ! (i + 1))) - int (snd (ps ! i)) = int (fst (ps ! (i + 1)) - snd (ps ! i))"
    using norm_nth_less[OF assms, of i "i + 1"] i by simp
  then have "bits_of_int n (int (fst (ps ! (i + 1))) - int (snd (ps ! i))) = mkBitmap n (fst (ps ! (i + 1)) - snd (ps ! i))"
    by (simp only: bits_of_int_nat)
  then show "do { d \<leftarrow> Sub bn (lower_bound (ivs n ps ! (i + 1))) (upper_bound (ivs n ps ! i));
      Some \<lparr>distance = d, prev_interval_idx = i\<rparr> } = Some (gap_of n ps i)"
    using i by (simp only: ivs_nth_bounds Sub_mk gap_of_def Option.bind.simps)
qed

lemma MinimizeIntervals_merged:
  assumes "norm n ps" "1 < limit" "limit < length ps"
  shows "\<exists>es. MinimizeIntervals bn (nset n ps) limit = Some (nset n (merged ps 0 es)) \<and> surviving (limit - 1) ps es"
proof -
  obtain zs where zs: "nth_element (map (gap_of n ps) [0..<length ps - 1]) (limit - 1) = Some zs"
      "surviving (limit - 1) ps (sort (map prev_interval_idx (take (limit - 1) zs)))"
    using surviving_gaps[OF assms(1) less_imp_diff_less[OF assms(3)]] by blast
  let ?es = "sort (map prev_interval_idx (take (limit - 1) zs))"
  have es: "\<forall>e\<in>set ?es. e + 1 < length ps" "sorted_wrt (<) ?es" using zs(2) by (simp_all add: surviving_def)
  obtain k acc where k: "foldM (merge_survivor (ivs n ps)) ?es (0, ivs n []) = Some (k, ivs n acc)" "k < length ps"
      "acc @ [(fst (ps ! k), snd (last ps))] = [] @ merged ps 0 ?es"
    using merge_survivor_ivs[of 0 ps ?es n "[]"] es(1) assms(3) by fastforce
  have "0 < length ps" using assms(3) by linarith
  then have norm: "norm n (merged ps 0 ?es)" using merged_correct[OF assms(1), of 0 ?es] es by simp
  have "ivs n acc @ [ivl n (fst (ps ! k)) (snd (last ps))] = ivs n (merged ps 0 ?es)"
    using arg_cong[OF k(3), of "ivs n"] by simp
  moreover obtain a b where "ps ! k = (a, b)" by fastforce
  moreover have "nth_opt (ivs n ps) k = Some (ivs n ps ! k)" using k(2) by (simp add: nth_opt_def)
  moreover have "ps \<noteq> []" "\<not> length ps \<le> limit" "limit \<noteq> 1" using assms by auto
  ultimately have "MinimizeIntervals bn (nset n ps) limit = Some (nset n (merged ps 0 ?es))"
    using assms gap_list_ivs[OF assms(1)] zs(1) k(1,2) UnsafeFromNormalized_ivs[OF norm]
    by (simp add: MinimizeIntervals_def Normalize_idle CHECK_def ivs_nth_bounds mkInterval_mk Let_def)
  then show ?thesis using zs(2) by blast
qed

lemma MinimizeIntervals_nset:
  assumes "norm n ps" "0 < limit"
  shows "\<exists>qs. MinimizeIntervals bn (nset n ps) limit = Some (nset n qs) \<and> norm n qs \<and> pts n ps \<subseteq> pts n qs \<and>
    length qs = min (length ps) limit \<and> (ps \<noteq> [] \<longrightarrow> fst (hd qs) = fst (hd ps) \<and> snd (last qs) = snd (last ps))"
proof -
  consider (few) "length ps \<le> limit" | (one) "limit = 1" "limit < length ps" | (many) "1 < limit" "limit < length ps"
    using assms(2) by linarith
  then show ?thesis
  proof cases
    case few
    then show ?thesis using assms by (auto simp: MinimizeIntervals_def Normalize_idle)
  next
    case one
    let ?q = "(fst (hd ps), snd (last ps))"
    have "ps \<noteq> []" using one by auto
    then have h: "ps \<noteq> []" "pts n ps \<subseteq> {fst (hd ps)..snd (last ps)}" "fst (hd ps) \<le> snd (last ps)" "snd (last ps) < 2 ^ n"
      using hull_points[OF assms(1)] by auto
    then have "norm n [?q]" by (simp add: norm_def)
    then show ?thesis using one h UnsafeFromNormalized_ivs[of n "[?q]"]
      by (auto simp: MinimizeIntervals_def Normalize_idle bounds_nset wrap_points_def intro!: exI[of _ "[?q]"])
  next
    case many
    obtain es where es: "MinimizeIntervals bn (nset n ps) limit = Some (nset n (merged ps 0 es))" "surviving (limit - 1) ps es"
      using MinimizeIntervals_merged[OF assms(1) many] by blast
    have "ps \<noteq> []" using many by auto
    then have "ps \<noteq> []" "hd ps = ps ! 0" by (simp_all add: hd_conv_nth)
    then show ?thesis using es many merged_correct[OF assms(1), of 0 es]
      by (auto simp: surviving_def intro!: exI[of _ "merged ps 0 es"])
  qed
qed

lemma MinimizeIntervals_ok:
  assumes "set_ok n s" "0 < limit"
  shows "\<exists>t. MinimizeIntervals bn s limit = Some t \<and> norm_set n t \<and> set_points s \<subseteq> set_points t \<and>
    NumberOfIntervals t \<le> limit"
proof -
  obtain t where t: "Normalize s = Some t" "norm_set n t" "set_points t = set_points s" using Normalize_ok[OF assms(1)] by blast
  then obtain ps where ps: "t = nset n ps" "norm n ps" by (auto elim: norm_setE)
  have same: "MinimizeIntervals bn s limit = MinimizeIntervals bn t limit"
  proof (cases "is_normalized s")
    case True
    then show ?thesis using t(1) Normalize_idle by simp
  next
    case False
    have "set_points s \<noteq> {}" "intervals s \<noteq> []"
      using set_ok_nonempty[OF assms(1)] False assms(1) by (auto simp: set_ok_def)
    moreover have "ps \<noteq> []" using calculation(1) t(3) ps by (auto simp: set_points_nset)
    ultimately show ?thesis using t(1) ps(1) by (simp add: MinimizeIntervals_def Normalize_idle IntervalSet_IsEmpty_def)
  qed
  obtain qs where "MinimizeIntervals bn t limit = Some (nset n qs)" "norm n qs" "pts n ps \<subseteq> pts n qs" "length qs = min (length ps) limit"
    using MinimizeIntervals_nset[OF ps(2) assms(2)] ps(1) by blast
  then show ?thesis using same t ps by (auto simp: set_points_nset norm_set_nset)
qed

lemma gap_step_ok:
  assumes "norm n ps" "j + 1 < length ps" "n \<le> w" "best_ok w P best" "P i"
  shows "\<exists>b. gap_step bn w i (ivs n ps) j best = Some (Some b) \<and> best_ok w P (Some b)"
proof -
  let ?d = "int (fst (ps ! Suc j)) - int (snd (ps ! j))"
  have "gap_step bn w i (ivs n ps) j best = (case best of
       None \<Rightarrow> Some (Some (i, mkBitmap w (take_bit n (nat (take_bit n ?d)))))
     | Some (_, m) \<Rightarrow> do { lt \<leftarrow> ULessThan (mkBitmap w (take_bit n (nat (take_bit n ?d)))) m;
         Some (if lt then Some (i, mkBitmap w (take_bit n (nat (take_bit n ?d)))) else best) })"
    using assms(2,3) by (simp add: gap_step_def ivs_nth_bounds Sub_mk bits_of_int_def ZeroExtend_mk del: nth_map split: option.split)
  then show ?thesis using assms(4,5) by (auto simp: best_ok_def UCmp_ops_mk split: option.splits)
qed

lemma best_gap_ok:
  assumes "\<forall>x\<in>set xs. wf_operand x \<and> fst x \<le> w"
  shows "\<exists>b. best_gap bn w (osets xs) = Some b \<and> best_ok w (\<lambda>i. i < length xs \<and> 1 < length (snd (xs ! i))) b \<and>
    (b = None \<longrightarrow> (\<forall>x\<in>set xs. length (snd x) \<le> 1))"
proof -
  let ?P = "\<lambda>i. i < length xs \<and> 1 < length (snd (xs ! i))"
  let ?f = "\<lambda>i best. if NumberOfIntervals (osets xs ! i) \<le> 1 then Some best
         else do { is \<leftarrow> Intervals (osets xs ! i);
           foldM (gap_step bn w i is) [0..<NumberOfIntervals (osets xs ! i) - 1] best }"
  have inner: "\<exists>b. foldM (gap_step bn w i (ivs n ps)) [0..<length ps - 1] best = Some (Some b) \<and> best_ok w ?P (Some b)"
    if "norm n ps" "1 < length ps" "n \<le> w" "best_ok w ?P best" "?P i" for i n ps best
  proof -
    have "\<exists>s'. foldM (gap_step bn w i (ivs n ps)) [0..<length ps - 1] best = Some s' \<and> best_ok w ?P s' \<and> (0 < length ps - 1 \<longrightarrow> s' \<noteq> None)"
    proof (rule foldM_upt_inv[where P = "\<lambda>k b. best_ok w ?P b \<and> (0 < k \<longrightarrow> b \<noteq> None)"])
      fix k s assume "k < length ps - 1" "best_ok w ?P s \<and> (0 < k \<longrightarrow> s \<noteq> None)"
      moreover have "k + 1 < length ps" using calculation(1) by simp
      ultimately show "\<exists>s'. gap_step bn w i (ivs n ps) k s = Some s' \<and> best_ok w ?P s' \<and> (0 < Suc k \<longrightarrow> s' \<noteq> None)"
        using gap_step_ok[OF that(1) _ that(3), of k ?P s i] that(5) by auto
    qed (use that(4) in auto)
    then show ?thesis using that(2) by auto
  qed
  have "\<exists>b. foldM ?f [0..<length xs] None = Some b \<and> best_ok w ?P b \<and> (b = None \<longrightarrow> (\<forall>i<length xs. length (snd (xs ! i)) \<le> 1))"
  proof (rule foldM_upt_inv[where P = "\<lambda>k b. best_ok w ?P b \<and> (b = None \<longrightarrow> (\<forall>i<k. length (snd (xs ! i)) \<le> 1))"])
    fix k s assume k: "k < length xs" and s: "best_ok w ?P s \<and> (s = None \<longrightarrow> (\<forall>i<k. length (snd (xs ! i)) \<le> 1))"
    obtain n ps where x: "xs ! k = (n, ps)" by fastforce
    then have "(n, ps) \<in> set xs" using k by (metis nth_mem)
    then have wf: "norm n ps" "n \<le> w" using assms by auto
    show "\<exists>s'. ?f k s = Some s' \<and> best_ok w ?P s' \<and> (s' = None \<longrightarrow> (\<forall>i<Suc k. length (snd (xs ! i)) \<le> 1))"
    proof (cases "length ps \<le> 1")
      case True
      then show ?thesis using s k x by (auto simp: osets_nth less_Suc_eq)
    next
      case False
      then show ?thesis using inner[OF wf(1) _ wf(2), of s k] s k x by (auto simp: osets_nth)
    qed
  qed (auto simp: best_ok_def)
  then show ?thesis by (simp add: best_gap_def all_set_conv_all_nth)
qed

lemma reduce_step_ok:
  assumes "\<forall>x\<in>set xs. wf_operand x \<and> fst x \<le> w \<and> snd x \<noteq> []"
  shows "reduce_step bn w k (osets xs) = Some (Return (osets xs)) \<or>
    (\<exists>ys. reduce_step bn w k (osets xs) = Some (Continue (osets ys)) \<and> list_all2 widened xs ys \<and>
       sum_list (map (\<lambda>x. length (snd x)) xs) = Suc (sum_list (map (\<lambda>x. length (snd x)) ys)))"
proof -
  let ?m = "foldl SafeMultiply \<lparr>sm_overflow = False, sm_result = 1\<rparr> (map NumberOfIntervals (osets xs))"
  show ?thesis
  proof (cases "\<not> sm_overflow ?m \<and> sm_result ?m \<le> kMaxVariadicOperations")
    case False
    have "\<not> (\<forall>x\<in>set xs. length (snd x) \<le> 1)"
    proof
      assume "\<forall>x\<in>set xs. length (snd x) \<le> 1"
      then have "length (snd x) = 1" if "x \<in> set xs" for x
        using assms that by (cases "snd x") fastforce+
      then have "\<forall>c\<in>set (map NumberOfIntervals (osets xs)). c = 1" by (auto simp: osets_def)
      then show False using SafeMultiply_ones[of "map NumberOfIntervals (osets xs)"] False by (simp add: kMaxVariadicOperations_def)
    qed
    then obtain i g where b: "best_gap bn w (osets xs) = Some (Some (i, g))" "i < length xs" "1 < length (snd (xs ! i))"
      using best_gap_ok[of xs w] assms by (auto simp: best_ok_def split: option.splits)
    obtain n ps where x: "xs ! i = (n, ps)" by fastforce
    then have n: "norm n ps" using assms b(2) by (metis nth_mem wf_operand_simp)
    obtain qs where qs: "MinimizeIntervals bn (nset n ps) (length ps - 1) = Some (nset n qs)" "norm n qs" "pts n ps \<subseteq> pts n qs"
        "length qs = length ps - 1"
      using MinimizeIntervals_nset[OF n, of "length ps - 1"] b(3) x by auto
    let ?ys = "xs[i := (n, qs)]"
    have "reduce_step bn w k (osets xs) = Some (Continue (osets ?ys))"
      using False b x qs(1) by (simp add: reduce_step_def Let_def nth_opt_def set_opt_def osets_nth osets_update)
    moreover have "widened (n, ps) (n, qs)" using qs b(3) x by (auto simp: widened_def)
    then have "list_all2 widened xs ?ys"
      using assms b(2,3) x by (auto simp: list_all2_conv_all_nth nth_list_update widened_def)
    moreover have "sum_list (map (\<lambda>x. length (snd x)) xs) = Suc (sum_list (map (\<lambda>x. length (snd x)) ?ys))"
      using b(2,3) x qs(4) elem_le_sum_list[of i "map (\<lambda>x. length (snd x)) xs"]
      by (simp add: map_update sum_list_update)
    ultimately show ?thesis by blast
  qed (simp add: reduce_step_def)
qed

lemma widened_trans: "widened x y \<Longrightarrow> widened y z \<Longrightarrow> widened x z"
  by (auto simp: widened_def)

lemma reduce_loop_ok:
  assumes "\<forall>x\<in>set xs. wf_operand x \<and> fst x \<le> w \<and> snd x \<noteq> []" "sum_list (map (\<lambda>x. length (snd x)) xs) < length ks + length xs"
  shows "\<exists>ys. loop (reduce_step bn w) ks (osets xs) = Some (Return (osets ys)) \<and> list_all2 widened xs ys"
  using assms
proof (induction ks arbitrary: xs)
  case Nil
  then show ?case using sum_list_lengths[of xs] by auto
next
  case (Cons k ks)
  from reduce_step_ok[OF Cons.prems(1), of k] show ?case
  proof (elim disjE exE conjE)
    assume "reduce_step bn w k (osets xs) = Some (Return (osets xs))"
    moreover have "list_all2 widened xs xs" using Cons.prems(1) by (auto simp: list_all2_conv_all_nth widened_def)
    ultimately show ?thesis by auto
  next
    fix ys assume ys: "reduce_step bn w k (osets xs) = Some (Continue (osets ys))" "list_all2 widened xs ys"
      "sum_list (map (\<lambda>x. length (snd x)) xs) = Suc (sum_list (map (\<lambda>x. length (snd x)) ys))"
    have len: "length ys = length xs" using ys(2) by (simp add: list_all2_lengthD)
    have "\<forall>y\<in>set ys. wf_operand y \<and> fst y \<le> w \<and> snd y \<noteq> []"
      using ys(2) Cons.prems(1) by (simp add: list_all2_conv_all_nth all_set_conv_all_nth widened_def)
    moreover have "sum_list (map (\<lambda>x. length (snd x)) ys) < length ks + length ys" using Cons.prems(2) ys(3) len by simp
    ultimately obtain zs where "loop (reduce_step bn w) ks (osets ys) = Some (Return (osets zs))" "list_all2 widened ys zs"
      using Cons.IH by blast
    then show ?thesis using ys(1,2) by (auto intro: list_all2_trans[OF widened_trans])
  qed
qed

lemma counts_ok:
  "\<exists>r. loop (\<lambda>is (max_bit_width, total_intervals). do {
          n \<leftarrow> IntervalSet_BitCount is;
          Some (if NumberOfIntervals is = 0 then Return ()
                else Continue (max max_bit_width n, total_intervals + NumberOfIntervals is)) }) (osets xs) (w, t) = Some r \<and>
     (\<forall>w' t'. r = Continue (w', t') \<longrightarrow> w \<le> w' \<and> (\<forall>x\<in>set xs. fst x \<le> w' \<and> snd x \<noteq> []) \<and>
        t' = t + sum_list (map (\<lambda>x. length (snd x)) xs))"
proof (induction xs arbitrary: w t)
  case (Cons x xs)
  obtain n ps where "x = (n, ps)" by fastforce
  then show ?case using Cons.IH[of "max w n" "t + length ps"] by fastforce
qed simp

lemma Reduce_ok:
  assumes "\<forall>x\<in>set xs. wf_operand x"
  shows "\<exists>ys. ReduceIntervalFragmentationForOp bn (osets xs) = Some (osets ys) \<and> list_all2 widened xs ys"
proof -
  let ?counts = "\<lambda>is (max_bit_width, total_intervals). do {
          n \<leftarrow> IntervalSet_BitCount is;
          Some (if NumberOfIntervals is = 0 then Return ()
                else Continue (max max_bit_width n, total_intervals + NumberOfIntervals is)) }"
  have same: "list_all2 widened xs xs" using assms by (auto simp: list_all2_conv_all_nth widened_def)
  obtain r where r: "loop ?counts (osets xs) (0, 0) = Some r"
      "\<forall>w' t'. r = Continue (w', t') \<longrightarrow> (\<forall>x\<in>set xs. fst x \<le> w' \<and> snd x \<noteq> []) \<and> t' = sum_list (map (\<lambda>x. length (snd x)) xs)"
    using counts_ok[of xs 0 0] by auto
  show ?thesis
  proof (cases r)
    case (Return u)
    then show ?thesis using r(1) same by (auto simp: ReduceIntervalFragmentationForOp_def)
  next
    case (Continue wt)
    obtain w t where wt: "wt = (w, t)" by fastforce
    show ?thesis
    proof (cases "xs = []")
      case True
      then show ?thesis using r(1) Continue wt same by (auto simp: ReduceIntervalFragmentationForOp_def)
    next
      case False
      then obtain ys where ys: "loop (reduce_step bn w) [0..<t] (osets xs) = Some (Return (osets ys))" "list_all2 widened xs ys"
        using reduce_loop_ok[of xs w "[0..<t]"] r(2) Continue wt assms by auto
      have "osets xs \<noteq> []" using False by (simp add: osets_def)
      then have "ReduceIntervalFragmentationForOp bn (osets xs) = Some (osets ys)"
        using r(1) Continue wt ys(1) by (simp add: ReduceIntervalFragmentationForOp_def reduce_step_def)
      then show ?thesis using ys(2) by blast
    qed
  qed
qed

end

section \<open>The least approximation\<close>

text \<open>
  \<^verbatim>\<open>MinimizeIntervals\<close> adds as few values as possible: no set with at most as many intervals that
  contains the given one is smaller. The gaps between the intervals are counted: a set with \<open>k\<close> intervals
  can leave at most \<open>k - 1\<close> of them open, and the function leaves the largest ones open.
\<close>

subsection \<open>Gaps\<close>

definition open_gap :: "(nat \<times> nat) list \<Rightarrow> nat \<Rightarrow> nat set" where
  "open_gap ps i = {snd (ps ! i) <..< fst (ps ! (i + 1))}"

lemma merged_pts:
  assumes "norm n ps" "start < length ps" "sorted_wrt (<) es" "\<forall>e\<in>set es. start \<le> e \<and> e + 1 < length ps"
  shows "pts n (merged ps start es) = {fst (ps ! start)..snd (last ps)} - (\<Union>e\<in>set es. open_gap ps e)"
  using assms(2-4)
proof (induction es arbitrary: start)
  case Nil
  have "ps \<noteq> []" using Nil by auto
  then have "fst (ps ! start) \<le> snd (last ps)" using norm_nth_mono(3)[OF assms(1), of start "length ps - 1"] Nil by (simp add: last_conv_nth)
  then show ?case by (simp add: wrap_points_def)
next
  case (Cons e es)
  have e: "start \<le> e" "e + 1 < length ps" "\<forall>x\<in>set es. e + 1 \<le> x \<and> x + 1 < length ps" using Cons.prems by auto
  have IH: "pts n (merged ps (e + 1) es) = {fst (ps ! (e + 1))..snd (last ps)} - (\<Union>e\<in>set es. open_gap ps e)"
    using Cons.IH[OF e(2) _ e(3)] Cons.prems(2) by simp
  have le: "fst (ps ! start) \<le> snd (ps ! e)" "snd (ps ! e) + 1 < fst (ps ! (e + 1))"
    using norm_nth_mono(3)[OF assms(1) e(1)] norm_nth_less[OF assms(1), of e "e + 1"] e(2) by auto
  have "ps \<noteq> []" using e(2) by auto
  then have last: "fst (ps ! (e + 1)) \<le> snd (last ps)" using norm_nth_mono(3)[OF assms(1), of "e + 1" "length ps - 1"] e(2) by (simp add: last_conv_nth)
  have far: "snd (ps ! e) < y" if "x \<in> set es" "y \<in> open_gap ps x" for x y
    using that e(3) norm_nth_mono(2)[OF assms(1), of e x] by (fastforce simp: open_gap_def)
  have gap: "y \<in> open_gap ps e \<longleftrightarrow> snd (ps ! e) < y \<and> y < fst (ps ! (e + 1))" for y by (simp add: open_gap_def)
  have "x \<in> pts n (merged ps start (e # es)) \<longleftrightarrow> x \<in> {fst (ps ! start)..snd (last ps)} - (\<Union>e\<in>set (e # es). open_gap ps e)" for x
  proof (cases "x \<le> snd (ps ! e)")
    case True
    then have "x \<notin> open_gap ps e" "\<forall>y\<in>set es. x \<notin> open_gap ps y" using far gap by (auto dest: leD)
    then show ?thesis using True IH le last by (auto simp: wrap_points_def)
  next
    case False
    then show ?thesis using IH le last gap[of x] by (auto simp: wrap_points_def)
  qed
  then show ?case by blast
qed

lemma gaps_disjoint:
  assumes "norm n ps" "i + 1 < length ps" "j + 1 < length ps" "i \<noteq> j"
  shows "open_gap ps i \<inter> open_gap ps j = {}"
proof -
  have "fst (ps ! (i + 1)) \<le> snd (ps ! j)" if "i < j" "j + 1 < length ps" for i j
    using that norm_nth_mono(3)[OF assms(1), of "i + 1" j] by simp
  then have "open_gap ps i \<inter> open_gap ps j = {}" if "i < j" "j + 1 < length ps" for i j
    using that by (fastforce simp: open_gap_def)
  then show ?thesis using assms(2-4) by (metis Int_commute linorder_neqE_nat)
qed

lemma card_without_gaps:
  assumes "norm n ps" "ps \<noteq> []" "E \<subseteq> {i. i + 1 < length ps}"
  shows "card ({fst (ps ! 0)..snd (last ps)} - (\<Union>e\<in>E. open_gap ps e)) =
    card {fst (ps ! 0)..snd (last ps)} - (\<Sum>e\<in>E. card (open_gap ps e))"
proof -
  have fin: "finite E" using assms(3) by (rule finite_subset) (simp add: finite_nat_set_iff_bounded, metis add_lessD1 Suc_eq_plus1 add.commute)
  have "open_gap ps e \<subseteq> {fst (ps ! 0)..snd (last ps)}" if "e \<in> E" for e
  proof -
    have "e + 1 < length ps" using that assms(3) by blast
    then have "fst (ps ! 0) \<le> snd (ps ! e)" "fst (ps ! (e + 1)) \<le> snd (last ps)"
      using norm_nth_mono(3)[OF assms(1), of 0 e] norm_nth_mono(3)[OF assms(1), of "e + 1" "length ps - 1"] assms(2)
      by (simp_all add: last_conv_nth)
    then show ?thesis by (auto simp: open_gap_def)
  qed
  then have "(\<Union>e\<in>E. open_gap ps e) \<subseteq> {fst (ps ! 0)..snd (last ps)}" by blast
  moreover have "card (\<Union>e\<in>E. open_gap ps e) = (\<Sum>e\<in>E. card (open_gap ps e))"
    using fin gaps_disjoint[OF assms(1)] assms(3) by (intro card_UN_disjoint) (auto simp: open_gap_def)
  ultimately show ?thesis by (simp add: card_Diff_subset finite_subset[OF _ finite_atLeastAtMost])
qed

subsection \<open>Every set with few intervals closes enough gaps\<close>

definition open_gaps :: "nat \<Rightarrow> (nat \<times> nat) list \<Rightarrow> (nat \<times> nat) list \<Rightarrow> nat set" where
  "open_gaps n ps qs = {i. i + 1 < length ps \<and> \<not> open_gap ps i \<subseteq> pts n qs}"

lemma mem_pts_nth:
  assumes "norm n ps"
  shows "x \<in> pts n ps \<longleftrightarrow> (\<exists>i<length ps. fst (ps ! i) \<le> x \<and> x \<le> snd (ps ! i))"
  using mem_pts_drop[OF assms, of x 0] by simp

lemma open_gaps_count:
  assumes "norm n ps" "ps \<noteq> []" "norm n qs" "pts n ps \<subseteq> pts n qs"
  shows "card (open_gaps n ps qs) + 1 \<le> length qs"
proof -
  let ?L = "length ps - 1" and ?I = "insert (length ps - 1) (open_gaps n ps qs)"
  have bound: "open_gaps n ps qs \<subseteq> {..<?L}" by (auto simp: open_gaps_def)
  then have fin: "finite (open_gaps n ps qs)" by (rule finite_subset) simp
  have "\<exists>j<length qs. fst (qs ! j) \<le> fst (ps ! i) \<and> fst (ps ! i) \<le> snd (qs ! j)" if "i \<in> ?I" for i
  proof -
    have "i < length ps" using that bound assms(2) by auto
    then have "fst (ps ! i) \<in> pts n ps" using norm_nth(1)[OF assms(1)] by (auto simp: mem_pts_nth[OF assms(1)])
    then show ?thesis using assms(4) mem_pts_nth[OF assms(3)] by blast
  qed
  then obtain j where j: "\<And>i. i \<in> ?I \<Longrightarrow> j i < length qs \<and> fst (qs ! j i) \<le> fst (ps ! i) \<and> fst (ps ! i) \<le> snd (qs ! j i)" by metis
  have differ: "j i \<noteq> j i'" if i: "i \<in> ?I" "i' \<in> ?I" "i < i'" for i i'
  proof
    assume eq: "j i = j i'"
    have i': "i' < length ps" using i(2) bound assms(2) by auto
    then have "i \<in> open_gaps n ps qs" using i by auto
    then obtain g where g: "snd (ps ! i) < g" "g < fst (ps ! (i + 1))" "g \<notin> pts n qs" "i + 1 < length ps"
      unfolding open_gaps_def open_gap_def by fastforce
    have "fst (ps ! i) \<le> g" "g \<le> fst (ps ! i')"
      using g norm_nth(1)[OF assms(1), of i] norm_nth_mono(1)[OF assms(1), of "i + 1" i'] i(3) i' by auto
    then have "fst (qs ! j i) \<le> g \<and> g \<le> snd (qs ! j i)" using j[OF i(1)] j[OF i(2)] eq by auto
    then show False using g(3) j[OF i(1)] mem_pts_nth[OF assms(3)] by blast
  qed
  have "inj_on j ?I" by (rule inj_onI) (metis differ linorder_neqE_nat)
  then have "card ?I \<le> card {..<length qs}" using j by (intro card_inj_on_le[of j]) auto
  moreover have "?L \<notin> open_gaps n ps qs" using bound by auto
  ultimately show ?thesis using fin by simp
qed

lemma open_gaps_cover:
  assumes "norm n ps" "ps \<noteq> []" "pts n ps \<subseteq> pts n qs"
  shows "{fst (ps ! 0)..snd (last ps)} - (\<Union>e\<in>open_gaps n ps qs. open_gap ps e) \<subseteq> pts n qs"
proof
  fix x assume x: "x \<in> {fst (ps ! 0)..snd (last ps)} - (\<Union>e\<in>open_gaps n ps qs. open_gap ps e)"
  let ?es = "[0..<length ps - 1]"
  have "pts n (merged ps 0 ?es) = {fst (ps ! 0)..snd (last ps)} - (\<Union>e\<in>set ?es. open_gap ps e)"
    using assms(1,2) by (intro merged_pts) auto
  moreover have "merged ps k [k..<length ps - 1] = drop k ps" if "k < length ps" for k
    using that
  proof (induction "length ps - 1 - k" arbitrary: k)
    case 0
    then have "k = length ps - 1" by simp
    then show ?case using assms(2) 0(2) Cons_nth_drop_Suc[of k ps] by (simp add: last_conv_nth)
  next
    case (Suc d)
    then have "merged ps (k + 1) [k + 1..<length ps - 1] = drop (k + 1) ps" by simp
    then show ?case using Suc by (simp add: upt_conv_Cons Cons_nth_drop_Suc)
  qed
  ultimately have ps: "pts n ps = {fst (ps ! 0)..snd (last ps)} - (\<Union>e\<in>set ?es. open_gap ps e)" using assms(2) by fastforce
  show "x \<in> pts n qs"
  proof (cases "x \<in> pts n ps")
    case False
    then obtain e where "e \<in> set ?es" "x \<in> open_gap ps e" using x ps by blast
    then have "e + 1 < length ps" "x \<in> open_gap ps e" by auto
    then show ?thesis using x by (auto simp: open_gaps_def)
  qed (use assms(3) in blast)
qed

subsection \<open>The largest gaps stay open\<close>

lemma sum_largest:
  fixes d :: "nat \<Rightarrow> nat"
  assumes "finite E" "finite I" "card I \<le> card E" "\<And>e i. e \<in> E \<Longrightarrow> i \<in> I - E \<Longrightarrow> d i \<le> d e"
  shows "sum d I \<le> sum d E"
proof -
  have split: "sum d I = sum d (I \<inter> E) + sum d (I - E)" "sum d E = sum d (I \<inter> E) + sum d (E - I)"
    using assms(1,2) by (metis sum.Int_Diff, metis Int_commute sum.Int_Diff)
  have "card (I \<inter> E) + card (I - E) \<le> card (I \<inter> E) + card (E - I)"
    using assms(1-3) by (metis Int_commute card_Int_Diff)
  then have le: "card (I - E) \<le> card (E - I)" by simp
  have "sum d (I - E) \<le> sum d (E - I)"
  proof (cases "E - I = {}")
    case True
    then have "card (I - E) = 0" using le by (metis card.empty le_zero_eq)
    then have "I - E = {}" using assms(2) by simp
    then have "sum d (I - E) = 0" by (metis sum.empty)
    then show ?thesis by simp
  next
    case False
    define m where "m = Min (d ` (E - I))"
    have "m \<in> d ` (E - I)" unfolding m_def using False assms(1) by (intro Min_in) auto
    then have "d i \<le> m" if "i \<in> I - E" for i using assms(4) that by auto
    then have "sum d (I - E) \<le> card (I - E) * m" using sum_bounded_above[of "I - E" d m] by simp
    also have "\<dots> \<le> card (E - I) * m" using le by (rule mult_le_mono1)
    also have "\<dots> \<le> sum d (E - I)" using sum_bounded_below[of "E - I" m d] assms(1) by (simp add: m_def)
    finally show ?thesis .
  qed
  then show ?thesis using split by simp
qed

lemma merged_least:
  assumes "norm n ps" "ps \<noteq> []" "surviving k ps es" "norm n qs" "pts n ps \<subseteq> pts n qs" "length qs \<le> k + 1"
  shows "card (pts n (merged ps 0 es)) \<le> card (pts n qs)"
proof -
  let ?d = "\<lambda>i. card (open_gap ps i)" and ?I = "open_gaps n ps qs" and ?hull = "{fst (ps ! 0)..snd (last ps)}"
  have es: "sorted_wrt (<) es" "length es = k" "\<forall>e\<in>set es. 0 \<le> e \<and> e + 1 < length ps" using assms(3) by (auto simp: surviving_def)
  have I: "?I \<subseteq> {i. i + 1 < length ps}" "finite ?I"
    by (auto simp: open_gaps_def intro: finite_subset[of _ "{..<length ps}"])
  have "distinct es" using es(1) by (simp add: strict_sorted_iff)
  then have "card ?I \<le> card (set es)" using open_gaps_count[OF assms(1,2,4,5)] es(2) assms(6) by (simp add: distinct_card)
  moreover have "?d i \<le> ?d e" if "e \<in> set es" "i \<in> ?I - set es" for e i
  proof -
    have "i + 1 < length ps" "i \<notin> set es" using that(2) I(1) by auto
    then have "fst (ps ! (i + 1)) - snd (ps ! i) \<le> fst (ps ! (e + 1)) - snd (ps ! e)" using assms(3) that(1) by (simp add: surviving_def)
    then show ?thesis by (simp add: open_gap_def)
  qed
  ultimately have sums: "sum ?d ?I \<le> sum ?d (set es)" using I(2) by (intro sum_largest) auto
  have "pts n (merged ps 0 es) = ?hull - (\<Union>e\<in>set es. open_gap ps e)" using merged_pts[OF assms(1) _ es(1,3)] assms(2) by simp
  then have "card (pts n (merged ps 0 es)) = card ?hull - sum ?d (set es)" using card_without_gaps[OF assms(1,2), of "set es"] es(3) by auto
  also have "\<dots> \<le> card ?hull - sum ?d ?I" using sums by simp
  also have "\<dots> = card (?hull - (\<Union>e\<in>?I. open_gap ps e))" using card_without_gaps[OF assms(1,2) I(1)] by simp
  also have "\<dots> \<le> card (pts n qs)" using open_gaps_cover[OF assms(1,2,5)] pts_bound[OF norm_in_range[OF assms(4)]]
    by (intro card_mono) (auto intro: finite_subset)
  finally show ?thesis .
qed

context bignum
begin

lemma MinimizeIntervals_least_nset:
  assumes "norm n ps" "0 < limit" "norm n qs" "pts n ps \<subseteq> pts n qs" "length qs \<le> limit" "MinimizeIntervals bn (nset n ps) limit = Some t"
  shows "card (set_points t) \<le> card (set_points (nset n qs))"
proof -
  consider (few) "length ps \<le> limit" | (one) "limit = 1" "limit < length ps" | (many) "1 < limit" "limit < length ps"
    using assms(2) by linarith
  then show ?thesis
  proof cases
    case few
    then have "t = nset n ps" using assms(1,6) by (auto simp: MinimizeIntervals_def Normalize_idle split: if_splits)
    then show ?thesis using assms(1,3,4) pts_bound[OF norm_in_range[OF assms(3)]]
      by (auto simp: set_points_nset intro!: card_mono intro: finite_subset)
  next
    case one
    have ne: "ps \<noteq> []" using one by auto
    have "merged ps 0 [] = [(fst (hd ps), snd (last ps))]" "surviving 0 ps []" using ne by (simp_all add: hd_conv_nth surviving_def)
    moreover have "norm n (merged ps 0 [])" using merged_correct[OF assms(1), of 0 "[]"] ne by simp
    ultimately have "t = nset n (merged ps 0 [])" "surviving 0 ps []" "norm n (merged ps 0 [])"
      using assms(6) one ne UnsafeFromNormalized_ivs[of n "[(fst (hd ps), snd (last ps))]"]
      by (simp_all add: MinimizeIntervals_def Normalize_idle bounds_nset)
    then show ?thesis using merged_least[OF assms(1) ne _ assms(3,4), of 0 "[]"] assms(3,5) one by (simp only: set_points_nset)
  next
    case many
    obtain es where es: "t = nset n (merged ps 0 es)" "surviving (limit - 1) ps es"
      using MinimizeIntervals_merged[OF assms(1) many] assms(6) by auto
    have ne: "ps \<noteq> []" using many by auto
    then have "norm n (merged ps 0 es)" using merged_correct[OF assms(1), of 0 es] es(2) by (simp add: surviving_def)
    then show ?thesis using merged_least[OF assms(1) ne es(2) assms(3,4)] es(1) assms(3,5) many by (simp add: set_points_nset)
  qed
qed

lemma MinimizeIntervals_least:
  assumes "norm_set n s" "0 < limit" "norm_set n u" "set_points s \<subseteq> set_points u" "NumberOfIntervals u \<le> limit" "MinimizeIntervals bn s limit = Some t"
  shows "card (set_points t) \<le> card (set_points u)"
proof -
  obtain ps qs where "s = nset n ps" "norm n ps" "u = nset n qs" "norm n qs" using assms(1,3) by (auto elim!: norm_setE)
  then show ?thesis using MinimizeIntervals_least_nset[of n ps limit qs t] assms(2,4-6) by (simp add: set_points_nset)
qed

end

end
