(* ===== verification/Interval_Engine_Rules.thy ===== *)
theory Interval_Engine_Rules
  imports Interval_Minimize
begin

text \<open>
  What \<^verbatim>\<open>PerformVariadicOp\<close> promises. The odometer visits every combination once; the locale \<open>interval_op\<close>
  states what a calculation and the behavior of its arguments must satisfy, and concludes that the result
  is a set in normal form that contains the image of the operands. The operations provide it in
  \<open>Interval_Arith_Rules\<close>.
\<close>

section \<open>Products\<close>

fun combos :: "'a list list \<Rightarrow> 'a list list" where
  "combos [] = [[]]"
| "combos (xs # xss) = concat (map (\<lambda>ys. map (\<lambda>x. x # ys) xs) (combos xss))"

lemma set_combos: "ys \<in> set (combos xss) \<longleftrightarrow> list_all2 (\<lambda>y xs. y \<in> set xs) ys xss"
  by (induction xss arbitrary: ys) (auto simp: list_all2_Cons2)

lemma combos_nonempty: "combos xss = [] \<longleftrightarrow> [] \<in> set xss"
  by (induction xss) auto

lemma hd_combos: "[] \<notin> set xss \<Longrightarrow> hd (combos xss) = map hd xss"
proof (induction xss)
  case (Cons xs xss)
  then obtain c cs where c: "combos xss = c # cs" by (cases "combos xss") (auto simp: combos_nonempty)
  then show ?case using Cons by (cases xs) auto
qed simp

text \<open>Visiting a list until the visitor stops.\<close>

primrec visit :: "('a \<Rightarrow> 's \<Rightarrow> (bool \<times> 's) option) \<Rightarrow> 'a list \<Rightarrow> 's \<Rightarrow> (bool \<times> 's) option" where
  "visit f [] s = Some (False, s)"
| "visit f (x # xs) s = do { (stop, s) \<leftarrow> f x s; if stop then Some (True, s) else visit f xs s }"

text \<open>The combinations the odometer has still to show, the one it shows first.\<close>

fun remaining :: "'a list list \<Rightarrow> 'a list list \<Rightarrow> 'a list list" where
  "remaining (it # number) (r # iters) =
     map (\<lambda>x. x # map hd number) it @ concat (map (\<lambda>ys. map (\<lambda>x. x # ys) r) (tl (remaining number iters)))"
| "remaining _ _ = [[]]"

lemma remaining_start: "[] \<notin> set xss \<Longrightarrow> remaining xss xss = combos xss"
proof (induction xss)
  case (Cons xs xss)
  then obtain c cs where c: "combos xss = c # cs" by (cases "combos xss") (auto simp: combos_nonempty)
  then show ?case using Cons hd_combos[of xss] by simp
qed simp

lemma remaining_Cons:
  assumes "length number = length iters" "[] \<notin> set number"
  shows "\<exists>cs. remaining number iters = map hd number # cs"
proof (cases number)
  case (Cons it number')
  then obtain x xs r iters' where "it = x # xs" "iters = r # iters'" using assms by (cases it; cases iters) auto
  then show ?thesis using Cons by simp
qed (use assms in auto)

lemma product_incr_remaining:
  assumes "length number = length iters" "[] \<notin> set number" "[] \<notin> set iters" "product_incr number iters = (w, number')"
  shows "if w then tl (remaining number iters) = [] \<and> number' = iters
    else tl (remaining number iters) = remaining number' iters \<and> length number' = length iters \<and> [] \<notin> set number'"
  using assms
proof (induction number iters arbitrary: w number' rule: product_incr.induct)
  case (1 it number r iters)
  obtain x xs where it: "it = x # xs" using "1.prems"(2) by (cases it) auto
  show ?case
  proof (cases "xs = []")
    case False
    then have "w = False" "number' = xs # number" using "1.prems"(4) it by auto
    then show ?thesis using it False "1.prems" by (cases xs) auto
  next
    case True
    obtain num where inc: "product_incr number iters = (w, num)" "number' = r # num"
      using "1.prems"(4) it True by (auto split: prod.splits)
    have IH: "if w then tl (remaining number iters) = [] \<and> num = iters
        else tl (remaining number iters) = remaining num iters \<and> length num = length iters \<and> [] \<notin> set num"
      using "1.IH"[OF _ _ _ _ inc(1)] it True "1.prems" by auto
    have tl: "tl (remaining (it # number) (r # iters)) = concat (map (\<lambda>ys. map (\<lambda>x. x # ys) r) (tl (remaining number iters)))"
      using it True by simp
    show ?thesis
    proof (cases w)
      case True
      then show ?thesis using tl IH inc(2) by simp
    next
      case False
      then obtain cs where cs: "remaining num iters = map hd num # cs" using IH remaining_Cons[of num iters] by auto
      then show ?thesis using tl IH inc(2) False "1.prems"(3) by auto
    qed
  qed
qed auto

lemma product_loop_visit:
  assumes "length number = length iters" "[] \<notin> set number" "[] \<notin> set iters"
  shows "product_loop f iters number s = visit f (remaining number iters) s"
  using assms
proof (induction "length (remaining number iters)" arbitrary: number s rule: less_induct)
  case less
  obtain cs where cs: "remaining number iters = map hd number # cs" using remaining_Cons[of number iters] less.prems by blast
  obtain w num where inc: "product_incr number iters = (w, num)" by fastforce
  note step = product_incr_remaining[OF less.prems inc]
  show ?case
  proof (cases w)
    case True
    then show ?thesis using cs inc step by (subst product_loop.simps) (auto intro!: Option.bind_cong)
  next
    case False
    then have "product_loop f iters num t = visit f cs t" for t
      using less.hyps[of num t] less.prems cs step by simp
    then show ?thesis using cs inc False by (subst product_loop.simps) (auto intro!: Option.bind_cong)
  qed
qed

lemma IteratorProduct_visit: "iters \<noteq> [] \<Longrightarrow> IteratorProduct iters f s = visit f (combos iters) s"
  using combos_nonempty[of iters] by (auto simp: IteratorProduct_def product_loop_visit remaining_start)

lemma visit_inv:
  assumes "\<And>x s. x \<in> set xs \<Longrightarrow> Inv s \<Longrightarrow> \<exists>stop s'. f x s = Some (stop, s') \<and> Inv s' \<and> D s \<subseteq> D s' \<and> X x \<subseteq> D s' \<and> (stop \<longrightarrow> D s' = U)"
    "Inv s" "\<And>x. x \<in> set xs \<Longrightarrow> X x \<subseteq> U"
  shows "\<exists>stop s'. visit f xs s = Some (stop, s') \<and> Inv s' \<and> D s \<subseteq> D s' \<and> (\<Union>x\<in>set xs. X x) \<subseteq> D s'"
  using assms
proof (induction xs arbitrary: s)
  case (Cons x xs)
  obtain stop s' where s': "f x s = Some (stop, s')" "Inv s'" "D s \<subseteq> D s'" "X x \<subseteq> D s'" "stop \<longrightarrow> D s' = U"
    using Cons.prems(1)[of x s] Cons.prems(2) by auto
  show ?case
  proof (cases stop)
    case True
    then have "(\<Union>x\<in>set (x # xs). X x) \<subseteq> D s'" using s'(5) Cons.prems(3) by blast
    then show ?thesis using s' True by auto
  next
    case False
    obtain stop2 s2 where "visit f xs s' = Some (stop2, s2)" "Inv s2" "D s' \<subseteq> D s2" "(\<Union>x\<in>set xs. X x) \<subseteq> D s2"
      using Cons.IH[OF _ s'(2)] Cons.prems(1,3) by (metis list.set_intros(2))
    then show ?thesis using s' False by auto
  qed
qed auto

section \<open>Boxes\<close>

text \<open>One interval for each operand, the values inside, and the corners the engine evaluates.\<close>

type_synonym box = "(nat \<times> nat) list"

definition wf_box :: "nat list \<Rightarrow> box \<Rightarrow> bool" where
  "wf_box ns ps = list_all2 (\<lambda>n (l, u). l \<le> u \<and> u < 2 ^ n) ns ps"

definition in_box :: "box \<Rightarrow> nat list \<Rightarrow> bool" where
  "in_box ps vs = list_all2 (\<lambda>(l, u) v. l \<le> v \<and> v \<le> u) ps vs"

definition sign_pure :: "nat list \<Rightarrow> box \<Rightarrow> bool" where
  "sign_pure ns ps = list_all2 (\<lambda>n (l, u). u < 2 ^ (n - 1) \<or> 2 ^ (n - 1) \<le> l) ns ps"

definition box_neg :: "nat list \<Rightarrow> box \<Rightarrow> nat \<Rightarrow> bool" where
  "box_neg ns ps j = (2 ^ (ns ! j - 1) \<le> fst (ps ! j))"

definition box_tonicity :: "nat list \<Rightarrow> box \<Rightarrow> ArgumentBehavior \<Rightarrow> Tonicity" where
  "box_tonicity ns ps b = fold (\<lambda>j t. if box_neg ns ps j then Opposite t else t) (sign_sensitive_tonicity b) (tonicity b)"

definition corner :: "bool \<Rightarrow> ArgumentBehavior list \<Rightarrow> nat list \<Rightarrow> box \<Rightarrow> nat list" where
  "corner up bs ns ps = map (\<lambda>(b, (l, u)). if (box_tonicity ns ps b = Monotone) = up then u else l) (zip bs ps)"

definition bmaps :: "nat list \<Rightarrow> nat list \<Rightarrow> bits list" where
  "bmaps ns vs = map2 mkBitmap ns vs"

lemma box_simps [simp]:
  "wf_box [] ps \<longleftrightarrow> ps = []" "wf_box (n # ns) ((l, u) # ps) \<longleftrightarrow> l \<le> u \<and> u < 2 ^ n \<and> wf_box ns ps" "\<not> wf_box (n # ns) []"
  "in_box [] vs \<longleftrightarrow> vs = []" "in_box ((l, u) # ps) (v # vs) \<longleftrightarrow> l \<le> v \<and> v \<le> u \<and> in_box ps vs" "\<not> in_box (p # ps) []"
  "sign_pure [] ps \<longleftrightarrow> ps = []" "sign_pure (n # ns) ((l, u) # ps) \<longleftrightarrow> (u < 2 ^ (n - 1) \<or> 2 ^ (n - 1) \<le> l) \<and> sign_pure ns ps"
  "bmaps [] vs = []" "bmaps (n # ns) (v # vs) = mkBitmap n v # bmaps ns vs"
  by (simp_all add: wf_box_def in_box_def sign_pure_def bmaps_def)

lemma box_lengths: "wf_box ns ps \<Longrightarrow> length ps = length ns" "in_box ps vs \<Longrightarrow> length vs = length ps"
  by (auto simp: wf_box_def in_box_def dest: list_all2_lengthD)

lemma corner_in_box:
  assumes "wf_box ns ps" "length bs = length ns"
  shows "in_box ps (corner up bs ns ps)"
proof -
  have "length ps = length bs" using box_lengths(1)[OF assms(1)] assms(2) by simp
  moreover have "fst (ps ! i) \<le> snd (ps ! i)" if "i < length ps" for i
    using assms(1) that by (auto simp: wf_box_def list_all2_conv_all_nth case_prod_unfold)
  ultimately show ?thesis by (auto simp: in_box_def list_all2_conv_all_nth corner_def case_prod_unfold)
qed

lemma in_box_range: "wf_box ns ps \<Longrightarrow> in_box ps vs \<Longrightarrow> list_all2 (\<lambda>n v. v < 2 ^ n) ns vs"
  by (fastforce simp: wf_box_def in_box_def list_all2_conv_all_nth case_prod_unfold)

lemma opposite_cases: "t \<noteq> Monotone \<longleftrightarrow> t = Antitone" "(Opposite t = Monotone) = (t \<noteq> Monotone)"
  by (cases t; simp)+

definition box_sign :: "ArgumentBehavior list \<Rightarrow> nat list \<Rightarrow> box \<Rightarrow> nat \<Rightarrow> Sign" where
  "box_sign bs ns ps j = (if sign_sensitive (bs ! j) then if box_neg ns ps j then kNegative else kPositive else kSignUnknown)"

lemma sign_bit_iff: "0 < n \<Longrightarrow> v < 2 ^ n \<Longrightarrow> bit v (n - 1) \<longleftrightarrow> 2 ^ (n - 1) \<le> v" for v :: nat
proof -
  assume n: "0 < n" and v: "v < 2 ^ n"
  have "v div 2 ^ (n - 1) < 2" using v half_exp[OF n] by (simp add: div_less_iff_less_mult)
  then have "v div 2 ^ (n - 1) = 0 \<or> v div 2 ^ (n - 1) = 1" by linarith
  moreover have "v div 2 ^ (n - 1) = 0 \<longleftrightarrow> v < 2 ^ (n - 1)" by (simp add: div_eq_0_iff)
  ultimately show ?thesis unfolding bit_iff_odd not_less[symmetric] by (metis even_zero odd_one zero_neq_one)
qed

lemma operand_sign_ivl:
  assumes "l \<le> u" "u < 2 ^ n" "sign_sensitive b \<Longrightarrow> 0 < n \<and> (u < 2 ^ (n - 1) \<or> 2 ^ (n - 1) \<le> l)"
  shows "operand_sign b (ivl n l u) = Some (if sign_sensitive b then if 2 ^ (n - 1) \<le> l then kNegative else kPositive else kSignUnknown)"
proof -
  have "l < 2 ^ n" using assms(1,2) by linarith
  then show ?thesis using assms sign_bit_iff[of n l] sign_bit_iff[of n u] by (auto simp: operand_sign_def msb_mk CHECK_def)
qed

lemma operand_bounds_ivl:
  assumes "\<And>j. j \<in> set (sign_sensitive_tonicity b) \<Longrightarrow> j < length signs \<and> signs ! j = (if box_neg ns ps j then kNegative else kPositive)"
  shows "operand_bounds signs b (ivl n l u) = Some (if box_tonicity ns ps b = Monotone then (mkBitmap n l, mkBitmap n u) else (mkBitmap n u, mkBitmap n l))"
proof -
  have "foldM (\<lambda>j ton. do {
          s \<leftarrow> nth_opt signs j;
          CHECK (s \<noteq> kSignUnknown);
          Some (if s = kNegative then Opposite ton else ton) }) (sign_sensitive_tonicity b) (tonicity b) =
      Some (box_tonicity ns ps b)"
    unfolding box_tonicity_def using assms by (intro foldM_pure) (auto simp: nth_opt_def CHECK_def)
  then show ?thesis by (simp add: operand_bounds_def split: Tonicity.split)
qed

section \<open>Wrap-around\<close>

definition wrapped :: "nat \<Rightarrow> int \<Rightarrow> nat" where
  "wrapped m k = nat (k mod 2 ^ m)"

lemma wrapped_less [simp]: "wrapped m k < 2 ^ m"
  by (simp add: wrapped_def nat_less_iff)

lemma bits_of_int_wrapped: "bits_of_int m k = mkBitmap m (wrapped m k)"
  by (simp add: bits_of_int_def wrapped_def take_bit_eq_mod)

lemma wrapped_nat: "wrapped m (int v) = take_bit m v"
  by (simp add: wrapped_def take_bit_eq_mod zmod_int nat_mod_distrib nat_power_eq)

lemma block_cases:
  fixes L U x M :: int
  assumes "0 < M" "L \<le> x" "x \<le> U" "U div M \<le> L div M + 1"
  shows "L mod M \<le> x mod M \<or> x mod M \<le> U mod M"
proof -
  have "L div M \<le> x div M" "x div M \<le> U div M" using assms(1-3) by (simp_all add: zdiv_mono1)
  then consider "x div M = L div M" | "x div M = U div M" using assms(4) by linarith
  then show ?thesis
  proof cases
    case 1
    then have "x - x mod M = L - L mod M" by (simp add: minus_mod_eq_mult_div)
    then show ?thesis using assms(2) by linarith
  next
    case 2
    then have "x - x mod M = U - U mod M" by (simp add: minus_mod_eq_mult_div)
    then show ?thesis using assms(3) by linarith
  qed
qed

lemma narrow_blocks:
  fixes L U M :: int
  assumes "0 < M" "L \<le> U" "U - L < M"
  shows "U div M \<le> L div M + 1" "L mod M \<le> U mod M \<Longrightarrow> U div M = L div M"
proof -
  have "U div M * M + U mod M - (L div M * M + L mod M) < M" using assms(3) by simp
  then have d: "(U div M - L div M) * M < M + L mod M - U mod M" by (simp add: algebra_simps)
  moreover have "L mod M < M" "0 \<le> U mod M" using assms(1) by simp_all
  ultimately have "(U div M - L div M) * M < 2 * M" by linarith
  then show "U div M \<le> L div M + 1" using assms(1) by (simp add: mult_less_cancel_right)
  assume "L mod M \<le> U mod M"
  then have "(U div M - L div M) * M < 1 * M" using d by linarith
  then have "U div M \<le> L div M" using assms(1) by (simp only: mult_less_cancel_right) linarith
  moreover have "L div M \<le> U div M" using assms(1,2) by (rule zdiv_mono1[rotated])
  ultimately show "U div M = L div M" by linarith
qed

lemma split_wrapped:
  assumes "L \<le> x" "x \<le> U" "U div 2 ^ m \<le> L div 2 ^ m + 1"
  shows "wrapped m x \<in> {wrapped m L..2 ^ m - 1} \<union> {0..wrapped m U}"
proof -
  have "L mod 2 ^ m \<le> x mod 2 ^ m \<or> x mod 2 ^ m \<le> U mod 2 ^ m" using block_cases[OF _ assms] by simp
  then have "wrapped m L \<le> wrapped m x \<or> wrapped m x \<le> wrapped m U" by (auto simp: wrapped_def nat_mono)
  moreover have "wrapped m x \<le> 2 ^ m - 1" by (simp only: le_pred_exp wrapped_less)
  ultimately show ?thesis by auto
qed

lemma narrow_wrapped:
  assumes "L \<le> x" "x \<le> U" "U - L < 2 ^ m"
  shows "wrapped m x \<in> wrap_points m (wrapped m L) (wrapped m U)"
proof (cases "wrapped m L \<le> wrapped m U")
  case False
  then show ?thesis using split_wrapped[OF assms(1,2) narrow_blocks(1)] assms wrapped_less[of m x] by (auto simp: wrap_points_def)
next
  case True
  then have "L mod 2 ^ m \<le> U mod 2 ^ m" by (simp add: wrapped_def nat_le_eq_zle)
  then have eq: "U div 2 ^ m = L div 2 ^ m" using narrow_blocks(2)[of "2 ^ m" L U] assms by simp
  have "L div 2 ^ m \<le> x div 2 ^ m" "x div 2 ^ m \<le> U div 2 ^ m" using assms by (simp_all add: zdiv_mono1)
  then have "x - x mod 2 ^ m = L - L mod 2 ^ m" "x - x mod 2 ^ m = U - U mod 2 ^ m"
    using eq by (simp_all add: minus_mod_eq_mult_div)
  then have "L mod 2 ^ m \<le> x mod 2 ^ m" "x mod 2 ^ m \<le> U mod 2 ^ m" using assms by linarith+
  then show ?thesis using True by (auto simp: wrap_points_def wrapped_def nat_mono)
qed

lemma map_over_nth: "map (\<lambda>i. f (xs ! i)) [0..<length xs] = map f xs"
  by (rule nth_equalityI) simp_all

lemma mapM_nth: "(\<And>i. i < length xs \<Longrightarrow> f (xs ! i) = Some (g i)) \<Longrightarrow> mapM f xs = Some (map g [0..<length xs])"
proof (induction xs arbitrary: g)
  case (Cons x xs)
  have "f x = Some (g 0)" "mapM f xs = Some (map (\<lambda>i. g (Suc i)) [0..<length xs])"
    using Cons.prems[of 0] Cons.IH[of "\<lambda>i. g (Suc i)"] Cons.prems[of "Suc i" for i] by auto
  then show ?case by (simp add: upt_conv_Cons map_Suc_upt[symmetric] comp_def del: upt_Suc)
qed simp

lemma set_ok_range: "set_ok n s \<Longrightarrow> set_points s \<subseteq> {..<2 ^ n}"
  by (elim set_okE) (metis pts_bound set_points_ivs)

lemma AddInterval_ivl:
  assumes "set_ok m r" "l < 2 ^ m" "u < 2 ^ m"
  shows "\<exists>r'. AddInterval r (ivl m l u) = Some r' \<and> set_ok m r' \<and> set_points r' = set_points r \<union> wrap_points m l u"
  using AddInterval_ok[of m r "ivl m l u"] assms by (simp add: set_ok_def points_ivl)

section \<open>Precise operands\<close>

definition precise :: "operand \<Rightarrow> bool" where
  "precise x = (\<exists>v. snd x = [(v, v)])"

lemma IsPrecise_nset:
  assumes "norm n ps"
  shows "IntervalSet_IsPrecise (nset n ps) = Some (precise (n, ps))"
proof (cases ps rule: list.exhaust)
  case (Cons p qs)
  obtain l u where p: "p = (l, u)" by fastforce
  then have lu: "l < 2 ^ n" "u < 2 ^ n" using assms Cons by (auto simp: norm_Cons)
  show ?thesis
  proof (cases qs)
    case Nil
    then show ?thesis using Cons p lu by (auto simp: IntervalSet_IsPrecise_def CHECK_def IsPrecise_ivl precise_def)
  next
    case (Cons q rs)
    obtain l' u' where "q = (l', u')" by fastforce
    then show ?thesis using \<open>ps = p # qs\<close> Cons p lu assms
      by (auto simp: IntervalSet_IsPrecise_def CHECK_def IsPrecise_ivl precise_def cmp_ivl norm_Cons_hd norm_Cons)
  qed
qed (simp add: IntervalSet_IsPrecise_def CHECK_def precise_def)

lemma GetPreciseValue_nset:
  assumes "norm n ps"
  shows "IntervalSet_GetPreciseValue (nset n ps) = Some (if precise (n, ps) then Some (mkBitmap n (fst (hd ps))) else None)"
proof -
  have "v < 2 ^ n" if "ps = [(v, v)]" for v using assms that by (simp add: norm_Cons)
  then show ?thesis
    by (auto simp: IntervalSet_GetPreciseValue_def IsPrecise_nset[OF assms] CHECK_def precise_def Interval_GetPreciseValue_def ivl_rules)
qed

lemma size_preserving_fold:
  assumes "length bs = length xs" "\<forall>x\<in>set xs. wf_operand x"
  shows "\<exists>ap c. foldM size_preserving_step (zip bs (osets xs)) (True, c0) = Some (ap, c) \<and>
    (ap \<longrightarrow> (\<forall>i<length bs. size_preserving (bs ! i) \<or> precise (xs ! i)) \<and> c = c0 + length (filter (\<lambda>x. \<not> precise x) xs))"
  using assms
proof (induction bs xs arbitrary: c0 rule: list_induct2)
  case (Cons b bs x xs)
  obtain n ps where x: "x = (n, ps)" by fastforce
  let ?c = "if precise x then c0 else c0 + 1"
  have step: "size_preserving_step (b, nset n ps) (True, c0) = Some (size_preserving b \<or> precise x, ?c)"
    using Cons.prems x by (simp add: size_preserving_step_def IsPrecise_nset)
  show ?case
  proof (cases "size_preserving b \<or> precise x")
    case True
    obtain ap c where "foldM size_preserving_step (zip bs (osets xs)) (True, ?c) = Some (ap, c)"
        "ap \<longrightarrow> (\<forall>i<length bs. size_preserving (bs ! i) \<or> precise (xs ! i)) \<and> c = ?c + length (filter (\<lambda>x. \<not> precise x) xs)"
      using Cons.IH[of ?c] Cons.prems by auto
    then show ?thesis using step True x by (auto simp: less_Suc_eq_0_disj)
  next
    case False
    have "foldM size_preserving_step zs (False, k) = Some (False, k)" for zs k
      by (induction zs) (simp_all add: size_preserving_step_def case_prod_unfold)
    then show ?thesis using step False x by auto
  qed
qed auto

lemma one_exception:
  assumes "length (filter (\<lambda>x. \<not> P x) xs) = 1"
  shows "\<exists>k. \<forall>i<length xs. i \<noteq> k \<longrightarrow> P (xs ! i)"
proof -
  have "card {i. i < length xs \<and> \<not> P (xs ! i)} = 1" using assms by (simp add: length_filter_conv_card)
  then obtain k where "{i. i < length xs \<and> \<not> P (xs ! i)} = {k}" by (auto simp: card_1_singleton_iff)
  then show ?thesis by (intro exI[of _ k]) blast
qed

text \<open>The intervals of an operand, cut where the sign changes when signs matter.\<close>

definition cuts :: "bool \<Rightarrow> operand \<Rightarrow> (nat \<times> nat) list" where
  "cuts sg x = (if sg then cut_signed (2 ^ (fst x - 1)) (snd x) else snd x)"

lemma cuts_correct:
  assumes "wf_operand x"
  shows "(\<Union>(l, u)\<in>set (cuts sg x). {l..u}) = pts (fst x) (snd x)"
    "\<forall>(l, u)\<in>set (cuts sg x). l \<le> u \<and> u < 2 ^ fst x \<and> (sg \<longrightarrow> u < 2 ^ (fst x - 1) \<or> 2 ^ (fst x - 1) \<le> l)"
  using cut_signed_correct[of "fst x" "snd x" "2 ^ (fst x - 1)"] assms
  by (auto simp: cuts_def wf_operand_def norm_pts norm_def)

lemma cuts_precise: "precise x \<Longrightarrow> (l, u) \<in> set (cuts sg x) \<Longrightarrow> l = u"
  by (auto simp: cuts_def precise_def split: if_splits)

lemma cut_intervals:
  assumes "\<forall>x\<in>set xs. wf_operand x \<and> (sg \<longrightarrow> 0 < fst x)"
  shows "mapM (if sg then all_signed_intervals else Intervals) (osets xs) = Some (map (\<lambda>x. ivs (fst x) (cuts sg x)) xs)"
proof -
  have "mapM (if sg then all_signed_intervals else Intervals) (osets xs) =
      Some (map (\<lambda>i. ivs (fst (xs ! i)) (cuts sg (xs ! i))) [0..<length (osets xs)])"
    using assms by (intro mapM_nth) (auto simp: osets_nth cuts_def all_signed_nset wf_operand_def)
  then show ?thesis using map_over_nth[of "\<lambda>x. ivs (fst x) (cuts sg x)" xs] by simp
qed

section \<open>The engine\<close>

definition ivls :: "nat list \<Rightarrow> box \<Rightarrow> Interval list" where
  "ivls ns ps = map2 (\<lambda>n (l, u). ivl n l u) ns ps"

definition single_point :: "box \<Rightarrow> nat \<Rightarrow> bool" where
  "single_point ps i = (fst (ps ! i) = snd (ps ! i))"

definition preserving_box :: "ArgumentBehavior list \<Rightarrow> box \<Rightarrow> bool" where
  "preserving_box bs ps = ((\<forall>i<length bs. size_preserving (bs ! i) \<or> single_point ps i) \<and>
     (\<exists>k. \<forall>i<length bs. i \<noteq> k \<longrightarrow> single_point ps i))"

locale interval_op =
  fixes calc :: calculation and bs :: "ArgumentBehavior list" and ns :: "nat list" and m :: nat and F :: "nat list \<Rightarrow> int"
  assumes arity: "length bs = length ns" "ns \<noteq> []"
    and calc_ok: "list_all2 (\<lambda>n v. v < 2 ^ n) ns vs \<Longrightarrow> \<exists>r. calc (bmaps ns vs) = Some r \<and> ov_result r = bits_of_int m (F vs)"
    and sign_refs: "b \<in> set bs \<Longrightarrow> j \<in> set (sign_sensitive_tonicity b) \<Longrightarrow> j < length bs \<and> sign_sensitive (bs ! j)"
    and sign_widths: "list_ex sign_sensitive bs \<Longrightarrow> n \<in> set ns \<Longrightarrow> 0 < n"
    and tonic: "\<lbrakk>wf_box ns ps; list_ex sign_sensitive bs \<longrightarrow> sign_pure ns ps; in_box ps vs\<rbrakk> \<Longrightarrow>
      F (corner False bs ns ps) \<le> F vs \<and> F vs \<le> F (corner True bs ns ps)"
    and no_wrap: "\<lbrakk>wf_box ns ps; list_ex sign_sensitive bs \<longrightarrow> sign_pure ns ps;
      calc (bmaps ns (corner False bs ns ps)) = Some lo; calc (bmaps ns (corner True bs ns ps)) = Some hi;
      \<not> first_overflow_bit lo; \<not> first_overflow_bit hi\<rbrakk> \<Longrightarrow> F (corner True bs ns ps) - F (corner False bs ns ps) < 2 ^ m"
    and preserving: "\<lbrakk>wf_box ns ps; list_ex sign_sensitive bs \<longrightarrow> sign_pure ns ps; preserving_box bs ps\<rbrakk> \<Longrightarrow>
      F (corner True bs ns ps) - F (corner False bs ns ps) < 2 ^ m"
    and one_wrap: "\<lbrakk>wf_box ns ps; list_ex sign_sensitive bs \<longrightarrow> sign_pure ns ps;
      calc (bmaps ns (corner False bs ns ps)) = Some lo; calc (bmaps ns (corner True bs ns ps)) = Some hi;
      \<not> (first_overflow_bit lo \<and> first_overflow_bit hi); first_overflow_bit lo \<or> first_overflow_bit hi;
      \<not> second_overflow_bit lo; \<not> second_overflow_bit hi\<rbrakk> \<Longrightarrow>
      F (corner True bs ns ps) div 2 ^ m \<le> F (corner False bs ns ps) div 2 ^ m + 1"
begin

definition image :: "box \<Rightarrow> nat set" where
  "image ps = {wrapped m (F vs) |vs. in_box ps vs}"

lemma combo_bounds:
  assumes "wf_box ns ps" "list_ex sign_sensitive bs \<longrightarrow> sign_pure ns ps"
  shows "\<exists>signs bounds. mapM (\<lambda>(b, i). operand_sign b i) (zip bs (ivls ns ps)) = Some signs \<and>
    mapM (\<lambda>(b, i). operand_bounds signs b i) (zip bs (ivls ns ps)) = Some bounds \<and>
    map fst bounds = bmaps ns (corner False bs ns ps) \<and> map snd bounds = bmaps ns (corner True bs ns ps)"
proof -
  let ?xs = "zip bs (ivls ns ps)"
  have len: "length ps = length ns" "length ?xs = length bs" using box_lengths(1)[OF assms(1)] arity by (simp_all add: ivls_def)
  have nth: "?xs ! i = (bs ! i, ivl (ns ! i) (fst (ps ! i)) (snd (ps ! i)))" if "i < length bs" for i
    using that len arity by (simp add: ivls_def case_prod_unfold)
  have box: "fst (ps ! i) \<le> snd (ps ! i)" "snd (ps ! i) < 2 ^ (ns ! i)" if "i < length bs" for i
    using assms(1) that arity by (auto simp: wf_box_def list_all2_conv_all_nth case_prod_unfold)
  have sgn: "0 < ns ! i \<and> (snd (ps ! i) < 2 ^ (ns ! i - 1) \<or> 2 ^ (ns ! i - 1) \<le> fst (ps ! i))"
    if "i < length bs" "sign_sensitive (bs ! i)" for i
  proof -
    have ex: "list_ex sign_sensitive bs" using that by (auto simp: list_ex_iff)
    then have "sign_pure ns ps" "0 < ns ! i" using assms(2) sign_widths that arity by auto
    then show ?thesis using that arity by (auto simp: sign_pure_def list_all2_conv_all_nth case_prod_unfold)
  qed
  have signs: "mapM (\<lambda>(b, i). operand_sign b i) ?xs = Some (map (box_sign bs ns ps) [0..<length bs])"
    using mapM_nth[of ?xs "\<lambda>(b, i). operand_sign b i" "box_sign bs ns ps"] len nth box sgn
    by (simp add: operand_sign_ivl box_sign_def box_neg_def)
  have bounds: "mapM (\<lambda>(b, i). operand_bounds (map (box_sign bs ns ps) [0..<length bs]) b i) ?xs =
      Some (map (\<lambda>i. if box_tonicity ns ps (bs ! i) = Monotone then (mkBitmap (ns ! i) (fst (ps ! i)), mkBitmap (ns ! i) (snd (ps ! i)))
        else (mkBitmap (ns ! i) (snd (ps ! i)), mkBitmap (ns ! i) (fst (ps ! i)))) [0..<length bs])"
  proof (subst mapM_nth)
    fix i assume "i < length ?xs"
    then have i: "i < length bs" using len by simp
    then have "operand_bounds (map (box_sign bs ns ps) [0..<length bs]) (bs ! i) (ivl (ns ! i) (fst (ps ! i)) (snd (ps ! i))) =
      Some (if box_tonicity ns ps (bs ! i) = Monotone then (mkBitmap (ns ! i) (fst (ps ! i)), mkBitmap (ns ! i) (snd (ps ! i)))
        else (mkBitmap (ns ! i) (snd (ps ! i)), mkBitmap (ns ! i) (fst (ps ! i))))"
      using sign_refs[of "bs ! i"] by (intro operand_bounds_ivl) (auto simp: box_sign_def)
    then show "(case ?xs ! i of (b, j) \<Rightarrow> operand_bounds (map (box_sign bs ns ps) [0..<length bs]) b j) =
      Some ((\<lambda>i. if box_tonicity ns ps (bs ! i) = Monotone then (mkBitmap (ns ! i) (fst (ps ! i)), mkBitmap (ns ! i) (snd (ps ! i)))
        else (mkBitmap (ns ! i) (snd (ps ! i)), mkBitmap (ns ! i) (fst (ps ! i)))) i)"
      using nth[OF i] by simp
  qed (simp only: len)
  show ?thesis using signs bounds len arity
    by (intro exI conjI) (assumption | (rule nth_equalityI, simp_all add: bmaps_def corner_def case_prod_unfold))+
qed

lemma handle_combo_ok:
  assumes box: "wf_box ns ps" "list_ex sign_sensitive bs \<longrightarrow> sign_pure ns ps" and r: "set_ok m r"
    and osp: "osp \<Longrightarrow> preserving_box bs ps"
  shows "\<exists>stop r'. handle_combo calc bs osp m (ivls ns ps) r = Some (stop, r') \<and> set_ok m r' \<and>
    set_points r \<subseteq> set_points r' \<and> image ps \<subseteq> set_points r' \<and> (stop \<longrightarrow> set_points r' = {..<2 ^ m})"
proof -
  let ?L = "F (corner False bs ns ps)" and ?U = "F (corner True bs ns ps)"
  obtain signs bounds where sb: "mapM (\<lambda>(b, i). operand_sign b i) (zip bs (ivls ns ps)) = Some signs"
      "mapM (\<lambda>(b, i). operand_bounds signs b i) (zip bs (ivls ns ps)) = Some bounds"
      "map fst bounds = bmaps ns (corner False bs ns ps)" "map snd bounds = bmaps ns (corner True bs ns ps)"
    using combo_bounds[OF box] by blast
  have "list_all2 (\<lambda>n v. v < 2 ^ n) ns (corner up bs ns ps)" for up
    using in_box_range[OF box(1) corner_in_box[OF box(1) arity(1)]] .
  then obtain lo hi where c: "calc (bmaps ns (corner False bs ns ps)) = Some lo" "ov_result lo = mkBitmap m (wrapped m ?L)"
      "calc (bmaps ns (corner True bs ns ps)) = Some hi" "ov_result hi = mkBitmap m (wrapped m ?U)"
    using calc_ok unfolding bits_of_int_wrapped by metis
  note ev = sb c mkInterval_mk
  have between: "?L \<le> F vs" "F vs \<le> ?U" if "in_box ps vs" for vs using tonic[OF box that] by auto
  show ?thesis
  proof (cases "(\<not> first_overflow_bit lo \<and> \<not> first_overflow_bit hi) \<or> osp")
    case True
    then have "?U - ?L < 2 ^ m" using no_wrap[OF box c(1,3)] preserving[OF box osp] by blast
    then have "image ps \<subseteq> wrap_points m (wrapped m ?L) (wrapped m ?U)"
      using narrow_wrapped[OF between] by (auto simp: image_def)
    moreover obtain r' where "AddInterval r (ivl m (wrapped m ?L) (wrapped m ?U)) = Some r'" "set_ok m r'"
        "set_points r' = set_points r \<union> wrap_points m (wrapped m ?L) (wrapped m ?U)"
      using AddInterval_ivl[OF r, of "wrapped m ?L" "wrapped m ?U"] by auto
    ultimately show ?thesis using True by (auto simp: handle_combo_def ev)
  next
    case False
    then have f: "first_overflow_bit lo \<or> first_overflow_bit hi" by simp
    have gt: "UGreaterThan (ov_result hi) (ov_result lo) = Some (wrapped m ?L < wrapped m ?U)"
      by (simp add: c UCmp_ops_mk take_bit_nat_eq_self)
    show ?thesis
    proof (cases "(first_overflow_bit lo \<and> first_overflow_bit hi) \<or> second_overflow_bit lo \<or> second_overflow_bit hi \<or> wrapped m ?L < wrapped m ?U")
      case True
      obtain r' where "AddInterval r (ivl m 0 (2 ^ m - 1)) = Some r'" "set_ok m r'" "set_points r' = set_points r \<union> wrap_points m 0 (2 ^ m - 1)"
        using AddInterval_ivl[OF r, of 0 "2 ^ m - 1"] by auto
      moreover have "wrap_points m 0 (2 ^ m - 1) = {..<2 ^ m}" by (auto simp: wrap_points_def le_pred_exp[unfolded One_nat_def])
      moreover have "image ps \<subseteq> {..<2 ^ m}" by (auto simp: image_def)
      ultimately show ?thesis using True False set_ok_range[OF r] gt
        by (auto simp: handle_combo_def ev Maximal_ivl)
    next
      case F: False
      have "?U div 2 ^ m \<le> ?L div 2 ^ m + 1" using one_wrap[OF box c(1,3) _ f] F by blast
      then have "wrapped m (F vs) \<in> {wrapped m ?L..2 ^ m - 1} \<union> {0..wrapped m ?U}" if "in_box ps vs" for vs
        using split_wrapped[OF between[OF that]] by blast
      then have "image ps \<subseteq> {wrapped m ?L..2 ^ m - 1} \<union> {0..wrapped m ?U}" unfolding image_def by blast
      moreover have "wrapped m ?L \<le> 2 ^ m - 1" by (simp only: le_pred_exp wrapped_less)
      then have "wrap_points m (wrapped m ?L) (2 ^ m - 1) = {wrapped m ?L..2 ^ m - 1}" by (simp add: wrap_points_def)
      moreover obtain r1 where r1: "AddInterval r (ivl m (wrapped m ?L) (2 ^ m - 1)) = Some r1" "set_ok m r1"
          "set_points r1 = set_points r \<union> wrap_points m (wrapped m ?L) (2 ^ m - 1)"
        using AddInterval_ivl[OF r, of "wrapped m ?L" "2 ^ m - 1"] by auto
      moreover obtain r2 where "AddInterval r1 (ivl m 0 (wrapped m ?U)) = Some r2" "set_ok m r2"
          "set_points r2 = set_points r1 \<union> wrap_points m 0 (wrapped m ?U)"
        using AddInterval_ivl[OF r1(2), of 0 "wrapped m ?U"] by auto
      ultimately show ?thesis using F False gt
        by (auto simp: handle_combo_def ev Bits_mk AllOnes_mk mask_nat wrap_points_def)
    qed
  qed
qed

text \<open>All combinations of intervals.\<close>

definition pairs_of :: "Interval list \<Rightarrow> box" where
  "pairs_of is = map (\<lambda>i. (bm_val (lower_bound i), bm_val (upper_bound i))) is"

lemma pairs_of_ivls: "wf_box ns ps \<Longrightarrow> pairs_of (ivls ns ps) = ps"
  by (rule nth_equalityI)
    (auto simp: pairs_of_def ivls_def wf_box_def list_all2_conv_all_nth case_prod_unfold take_bit_nat_eq_self)

lemma cuts_box:
  assumes "\<forall>x\<in>set xs. wf_operand x" "list_all2 (\<lambda>p x. p \<in> set (cuts sg x)) ps xs"
  shows "wf_box (map fst xs) ps" "sg \<Longrightarrow> sign_pure (map fst xs) ps"
proof -
  have "wf_box (map fst xs) ps \<and> (sg \<longrightarrow> sign_pure (map fst xs) ps)" using assms
  proof (induction xs arbitrary: ps)
    case (Cons x xs)
    obtain l u qs where ps: "ps = (l, u) # qs" "(l, u) \<in> set (cuts sg x)" "list_all2 (\<lambda>p x. p \<in> set (cuts sg x)) qs xs"
      using Cons.prems(2) by (auto simp: list_all2_Cons2)
    have "l \<le> u \<and> u < 2 ^ fst x \<and> (sg \<longrightarrow> u < 2 ^ (fst x - 1) \<or> 2 ^ (fst x - 1) \<le> l)"
      using cuts_correct(2)[of x sg] ps(2) Cons.prems(1) by auto
    then show ?case using Cons.IH[OF _ ps(3)] Cons.prems(1) ps(1) by simp
  qed simp
  then show "wf_box (map fst xs) ps" "sg \<Longrightarrow> sign_pure (map fst xs) ps" by auto
qed

lemma combo_boxes:
  assumes "list_all2 (\<lambda>i is. i \<in> set is) c (map (\<lambda>x. ivs (fst x) (cuts sg x)) xs)"
  shows "\<exists>ps. c = ivls (map fst xs) ps \<and> list_all2 (\<lambda>p x. p \<in> set (cuts sg x)) ps xs"
  using assms
proof (induction xs arbitrary: c)
  case (Cons x xs)
  obtain i js l u where i: "c = i # js" "i = ivl (fst x) l u" "(l, u) \<in> set (cuts sg x)"
      "list_all2 (\<lambda>i is. i \<in> set is) js (map (\<lambda>x. ivs (fst x) (cuts sg x)) xs)"
    using Cons.prems by (auto simp: list_all2_Cons2)
  obtain ps where "js = ivls (map fst xs) ps" "list_all2 (\<lambda>p x. p \<in> set (cuts sg x)) ps xs" using Cons.IH[OF i(4)] by blast
  then show ?case using i by (intro exI[of _ "(l, u) # ps"]) (auto simp: ivls_def)
qed (auto simp: ivls_def)

lemma box_cover:
  assumes "\<forall>x\<in>set xs. wf_operand x" "list_all2 (\<lambda>v x. v \<in> pts (fst x) (snd x)) vs xs"
  shows "\<exists>ps. list_all2 (\<lambda>p x. p \<in> set (cuts sg x)) ps xs \<and> in_box ps vs"
  using assms
proof (induction xs arbitrary: vs)
  case (Cons x xs)
  obtain v ws where v: "vs = v # ws" "v \<in> pts (fst x) (snd x)" "list_all2 (\<lambda>v x. v \<in> pts (fst x) (snd x)) ws xs"
    using Cons.prems(2) by (auto simp: list_all2_Cons2)
  obtain l u where "(l, u) \<in> set (cuts sg x)" "l \<le> v" "v \<le> u" using cuts_correct(1)[of x sg] v(2) Cons.prems(1) by fastforce
  moreover obtain ps where "list_all2 (\<lambda>p x. p \<in> set (cuts sg x)) ps xs" "in_box ps ws"
    using Cons.IH[OF _ v(3)] Cons.prems(1) by auto
  ultimately show ?case using v(1) by (intro exI[of _ "(l, u) # ps"]) simp
qed simp

lemma combos_ok:
  assumes wf: "\<forall>x\<in>set xs. wf_operand x" "map fst xs = ns" and sg: "sg = list_ex sign_sensitive bs"
    and osp: "osp \<Longrightarrow> (\<forall>i<length bs. size_preserving (bs ! i) \<or> precise (xs ! i)) \<and> (\<exists>k. \<forall>i<length bs. i \<noteq> k \<longrightarrow> precise (xs ! i))"
  shows "\<exists>stop r. IteratorProduct (map (\<lambda>x. ivs (fst x) (cuts sg x)) xs) (handle_combo calc bs osp m) (IntervalSet_of_width (int m)) =
      Some (stop, r) \<and> set_ok m r \<and>
    (\<forall>vs. list_all2 (\<lambda>v x. v \<in> pts (fst x) (snd x)) vs xs \<longrightarrow> wrapped m (F vs) \<in> set_points r)"
proof -
  let ?iss = "map (\<lambda>x. ivs (fst x) (cuts sg x)) xs"
  have ne: "?iss \<noteq> []" "length xs = length bs" using wf(2) arity by auto
  have step: "\<exists>stop s'. handle_combo calc bs osp m c s = Some (stop, s') \<and> set_ok m s' \<and> set_points s \<subseteq> set_points s' \<and>
      image (pairs_of c) \<subseteq> set_points s' \<and> (stop \<longrightarrow> set_points s' = {..<2 ^ m})"
    if c: "c \<in> set (combos ?iss)" and s: "set_ok m s" for c s
  proof -
    obtain ps where ps: "c = ivls ns ps" "wf_box ns ps" "sg \<longrightarrow> sign_pure ns ps" "list_all2 (\<lambda>p x. p \<in> set (cuts sg x)) ps xs"
      using combo_boxes[of c sg xs] cuts_box[OF wf(1), of sg] c wf(2) unfolding set_combos by blast
    have "precise (xs ! i) \<Longrightarrow> single_point ps i" if "i < length bs" for i
      using list_all2_nthD2[OF ps(4), of i] that ne(2) cuts_precise[of "xs ! i" "fst (ps ! i)" "snd (ps ! i)" sg]
      by (simp add: single_point_def)
    then have "osp \<Longrightarrow> preserving_box bs ps" using osp unfolding preserving_box_def by blast
    then show ?thesis using handle_combo_ok[OF ps(2) _ s] ps sg pairs_of_ivls[OF ps(2)] by simp
  qed
  have "\<exists>stop r. visit (handle_combo calc bs osp m) (combos ?iss) (IntervalSet_of_width (int m)) = Some (stop, r) \<and> set_ok m r \<and>
      set_points (IntervalSet_of_width (int m)) \<subseteq> set_points r \<and> (\<Union>c\<in>set (combos ?iss). image (pairs_of c)) \<subseteq> set_points r"
    by (rule visit_inv[where U = "{..<2 ^ m}"]) (use step in \<open>auto simp: image_def intro: norm_set_ok\<close>)
  then obtain stop r where r: "visit (handle_combo calc bs osp m) (combos ?iss) (IntervalSet_of_width (int m)) = Some (stop, r)"
      "set_ok m r" "(\<Union>c\<in>set (combos ?iss). image (pairs_of c)) \<subseteq> set_points r" by blast
  have "wrapped m (F vs) \<in> set_points r" if vs: "list_all2 (\<lambda>v x. v \<in> pts (fst x) (snd x)) vs xs" for vs
  proof -
    obtain ps where ps: "list_all2 (\<lambda>p x. p \<in> set (cuts sg x)) ps xs" "in_box ps vs" using box_cover[OF wf(1) vs] by blast
    have c: "list_all2 (\<lambda>i is. i \<in> set is) (ivls ns ps) ?iss"
      using ps(1) wf(2) ne(2) arity by (auto simp: list_all2_conv_all_nth ivls_def case_prod_unfold)
    have "wf_box ns ps" using cuts_box(1)[OF wf(1) ps(1)] wf(2) by simp
    then have "wrapped m (F vs) \<in> image (pairs_of (ivls ns ps))" using ps(2) by (auto simp: pairs_of_ivls image_def)
    then show ?thesis using r(3) c set_combos by blast
  qed
  then show ?thesis unfolding IteratorProduct_visit[OF ne(1)] using r(1,2) by (intro exI[of _ stop] exI[of _ r]) blast
qed

lemma sizes_loop:
  assumes "bignum bn bv" "\<forall>x\<in>set xs. wf_operand x"
  shows "\<exists>r. loop (\<lambda>is required_calculations. do {
             size \<leftarrow> IntervalSet_Size bn is;
             Some (case size of
                 None \<Rightarrow> Return ()
               | Some k \<Rightarrow>
                   if sint k > kMaxExactCalculations \<or> sint k \<le> 0 \<or> required_calculations * sint k > kMaxExactCalculations
                   then Return () else Continue (required_calculations * sint k)) }) (osets xs) c = Some r"
  using assms(2)
proof (induction xs arbitrary: c)
  case (Cons x xs)
  obtain n ps where x: "x = (n, ps)" by fastforce
  then show ?case using Cons by (auto simp: bignum.Size_nset[OF assms(1)] split: step.splits)
qed simp

lemma exact_combo_ok:
  assumes "list_all2 (\<lambda>n v. v < 2 ^ n) ns vs" "set_ok m r"
  shows "\<exists>r'. exact_combo calc (bmaps ns vs) r = Some (False, r') \<and> set_ok m r' \<and> set_points r' = insert (wrapped m (F vs)) (set_points r)"
proof -
  obtain c where c: "calc (bmaps ns vs) = Some c" "ov_result c = mkBitmap m (wrapped m (F vs))"
    using calc_ok[OF assms(1)] unfolding bits_of_int_wrapped by blast
  obtain r' where "AddInterval r (ivl m (wrapped m (F vs)) (wrapped m (F vs))) = Some r'" "set_ok m r'"
      "set_points r' = set_points r \<union> wrap_points m (wrapped m (F vs)) (wrapped m (F vs))"
    using AddInterval_ivl[OF assms(2), of "wrapped m (F vs)" "wrapped m (F vs)"] by auto
  then show ?thesis using c by (auto simp: exact_combo_def Interval_Precise_def mkInterval_mk wrap_points_def)
qed

definition results :: "operand list \<Rightarrow> nat set" where
  "results xs = {wrapped m (F vs) |vs. list_all2 (\<lambda>v x. v \<in> pts (fst x) (snd x)) vs xs}"

lemma value_combos:
  assumes "\<forall>x\<in>set xs. wf_operand x"
  shows "list_all2 (\<lambda>b bs. b \<in> set bs) c (map (\<lambda>x. map (mkBitmap (fst x)) (enum_pairs (snd x))) xs) \<longleftrightarrow>
    (\<exists>vs. c = bmaps (map fst xs) vs \<and> list_all2 (\<lambda>v x. v \<in> pts (fst x) (snd x)) vs xs)"
  using assms
proof (induction xs arbitrary: c)
  case (Cons x xs)
  have e: "set (enum_pairs (snd x)) = pts (fst x) (snd x)" using Cons.prems by (simp add: set_enum_pairs wf_operand_def)
  have "list_all2 (\<lambda>b bs. b \<in> set bs) c (map (\<lambda>x. map (mkBitmap (fst x)) (enum_pairs (snd x))) (x # xs)) \<longleftrightarrow>
      (\<exists>v c'. c = mkBitmap (fst x) v # c' \<and> v \<in> pts (fst x) (snd x) \<and>
         list_all2 (\<lambda>b bs. b \<in> set bs) c' (map (\<lambda>x. map (mkBitmap (fst x)) (enum_pairs (snd x))) xs))"
    by (auto simp: list_all2_Cons2 e)
  also have "\<dots> \<longleftrightarrow> (\<exists>v vs. c = mkBitmap (fst x) v # bmaps (map fst xs) vs \<and> v \<in> pts (fst x) (snd x) \<and>
      list_all2 (\<lambda>v x. v \<in> pts (fst x) (snd x)) vs xs)"
    using Cons.IH Cons.prems by auto
  also have "\<dots> \<longleftrightarrow> (\<exists>vs. c = bmaps (map fst (x # xs)) vs \<and> list_all2 (\<lambda>v x. v \<in> pts (fst x) (snd x)) vs (x # xs))"
    by (force simp: list_all2_Cons2)
  finally show ?case .
qed (auto simp: bmaps_def)

lemma values_in_range:
  assumes "\<forall>x\<in>set xs. wf_operand x" "list_all2 (\<lambda>v x. v \<in> pts (fst x) (snd x)) vs xs"
  shows "list_all2 (\<lambda>n v. v < 2 ^ n) (map fst xs) vs"
  using assms
proof (induction xs arbitrary: vs)
  case (Cons x xs)
  have "pts (fst x) (snd x) \<subseteq> {..<2 ^ fst x}" using Cons.prems(1) pts_bound[OF norm_in_range] by (simp add: wf_operand_def)
  then show ?case using Cons by (auto simp: list_all2_Cons2)
qed simp

lemma exact_ok:
  assumes bn: "bignum bn bv" and wf: "\<forall>x\<in>set xs. wf_operand x" "map fst xs = ns"
  shows "MaybePerformExactCalculation bn calc bs (osets xs) m = Some None \<or>
    (\<exists>t. MaybePerformExactCalculation bn calc bs (osets xs) m = Some (Some t) \<and> norm_set m t \<and> set_points t = results xs)"
proof -
  let ?vss = "map (\<lambda>x. map (mkBitmap (fst x)) (enum_pairs (snd x))) xs"
  have ne: "?vss \<noteq> []" using wf(2) arity by auto
  have vals: "mapM all_values (osets xs) = Some ?vss"
  proof -
    have "mapM all_values (osets xs) = Some (map (\<lambda>i. map (mkBitmap (fst (xs ! i))) (enum_pairs (snd (xs ! i)))) [0..<length (osets xs)])"
      using wf(1) by (intro mapM_nth) (auto simp: osets_nth wf_operand_def intro!: all_values_nset)
    then show ?thesis using map_over_nth[of "\<lambda>x. map (mkBitmap (fst x)) (enum_pairs (snd x))" xs] by simp
  qed
  have step: "\<exists>stop s'. exact_combo calc c s = Some (stop, s') \<and> (set_ok m s' \<and> set_points s' \<subseteq> results xs) \<and>
      set_points s \<subseteq> set_points s' \<and> {wrapped m (F vs) |vs. c = bmaps ns vs \<and> list_all2 (\<lambda>n v. v < 2 ^ n) ns vs} \<subseteq> set_points s' \<and>
      (stop \<longrightarrow> set_points s' = UNIV)"
    if c: "c \<in> set (combos ?vss)" and s: "set_ok m s \<and> set_points s \<subseteq> results xs" for c s
  proof -
    obtain vs where vs: "c = bmaps ns vs" "list_all2 (\<lambda>v x. v \<in> pts (fst x) (snd x)) vs xs" using value_combos[OF wf(1), of c] c wf(2) by (auto simp: set_combos)
    have rng: "list_all2 (\<lambda>n v. v < 2 ^ n) ns vs" using values_in_range[OF wf(1) vs(2)] wf(2) by simp
    have "ws = vs" if "bmaps ns vs = bmaps ns ws" "list_all2 (\<lambda>n v. v < 2 ^ n) ns ws" for ws
      using rng that(2,1) by (auto simp: list_eq_iff_nth_eq list_all2_conv_all_nth bmaps_def mkBitmap_eq_iff take_bit_nat_eq_self)
    moreover obtain r' where "exact_combo calc (bmaps ns vs) s = Some (False, r')" "set_ok m r'"
        "set_points r' = insert (wrapped m (F vs)) (set_points s)"
      using exact_combo_ok[OF rng] s by blast
    moreover have "wrapped m (F vs) \<in> results xs" using vs(2) by (auto simp: results_def)
    ultimately show ?thesis using vs(1) s by auto
  qed
  have "\<exists>stop r. visit (exact_combo calc) (combos ?vss) (IntervalSet_of_width (int m)) = Some (stop, r) \<and>
      (set_ok m r \<and> set_points r \<subseteq> results xs) \<and> set_points (IntervalSet_of_width (int m)) \<subseteq> set_points r \<and>
      (\<Union>c\<in>set (combos ?vss). {wrapped m (F vs) |vs. c = bmaps ns vs \<and> list_all2 (\<lambda>n v. v < 2 ^ n) ns vs}) \<subseteq> set_points r"
    by (rule visit_inv[where U = UNIV]) (use step in \<open>auto intro: norm_set_ok\<close>)
  then obtain stop r where r: "visit (exact_combo calc) (combos ?vss) (IntervalSet_of_width (int m)) = Some (stop, r)"
      "set_ok m r" "set_points r \<subseteq> results xs"
      "(\<Union>c\<in>set (combos ?vss). {wrapped m (F vs) |vs. c = bmaps ns vs \<and> list_all2 (\<lambda>n v. v < 2 ^ n) ns vs}) \<subseteq> set_points r"
    by blast
  have "results xs \<subseteq> set_points r"
  proof
    fix y assume "y \<in> results xs"
    then obtain vs where vs: "y = wrapped m (F vs)" "list_all2 (\<lambda>v x. v \<in> pts (fst x) (snd x)) vs xs" by (auto simp: results_def)
    then have "bmaps ns vs \<in> set (combos ?vss)" "list_all2 (\<lambda>n v. v < 2 ^ n) ns vs"
      using value_combos[OF wf(1), of "bmaps ns vs"] values_in_range[OF wf(1)] wf(2) by (auto simp: set_combos)
    then show "y \<in> set_points r" using r(4) vs(1) by blast
  qed
  moreover obtain t where t: "Normalize r = Some t" "norm_set m t" "set_points t = set_points r" using Normalize_ok[OF r(2)] by blast
  ultimately have pts: "set_points t = results xs" using r(3) by simp
  have run: "IteratorProduct ?vss (exact_combo calc) (IntervalSet_of_width (int m)) = Some (stop, r)"
    using r(1) by (simp only: IteratorProduct_visit[OF ne])
  show ?thesis
  proof (cases "list_all size_preserving bs")
    case False
    then show ?thesis using sizes_loop[OF bn wf(1), of 1] vals run t(1,2) pts
      by (auto simp: MaybePerformExactCalculation_def split: step.split)
  qed (simp add: MaybePerformExactCalculation_def)
qed

lemma widened_results:
  assumes "list_all2 widened xs ys"
  shows "map fst ys = map fst xs" "\<forall>y\<in>set ys. wf_operand y" "results xs \<subseteq> results ys"
proof -
  have w: "length ys = length xs" "\<And>i. i < length xs \<Longrightarrow> widened (xs ! i) (ys ! i)" using assms by (auto simp: list_all2_conv_all_nth)
  then show "map fst ys = map fst xs" by (intro nth_equalityI) (simp_all add: widened_def)
  show "\<forall>y\<in>set ys. wf_operand y" using w by (simp add: all_set_conv_all_nth widened_def)
  have "list_all2 (\<lambda>v x. v \<in> pts (fst x) (snd x)) vs ys" if "list_all2 (\<lambda>v x. v \<in> pts (fst x) (snd x)) vs xs" for vs
  proof -
    have "vs ! i \<in> pts (fst (ys ! i)) (snd (ys ! i))" if "i < length vs" "length vs = length xs" "vs ! i \<in> pts (fst (xs ! i)) (snd (xs ! i))" for i
      using w(2)[of i] that by (auto simp: widened_def)
    then show ?thesis using that w(1) by (simp add: list_all2_conv_all_nth)
  qed
  then show "results xs \<subseteq> results ys" by (auto simp: results_def)
qed

lemma precise_operands:
  assumes wf: "\<forall>x\<in>set xs. wf_operand x" "map fst xs = ns"
  shows "mapM IntervalSet_IsPrecise (osets xs) = Some (map precise xs)"
    "\<forall>x\<in>set xs. precise x \<Longrightarrow> \<exists>vs. mapM (\<lambda>s. do { v \<leftarrow> IntervalSet_GetPreciseValue s; v }) (osets xs) = Some (bmaps ns vs) \<and>
      list_all2 (\<lambda>n v. v < 2 ^ n) ns vs \<and> results xs \<subseteq> {wrapped m (F vs)}"
proof -
  have wfi: "norm (fst (xs ! i)) (snd (xs ! i))" if "i < length xs" for i using wf(1) that by (simp add: wf_operand_def)
  have "mapM IntervalSet_IsPrecise (osets xs) = Some (map (\<lambda>i. precise (xs ! i)) [0..<length (osets xs)])"
    using wfi by (intro mapM_nth) (simp add: osets_nth IsPrecise_nset)
  then show "mapM IntervalSet_IsPrecise (osets xs) = Some (map precise xs)" using map_over_nth[of precise xs] by simp
  assume p: "\<forall>x\<in>set xs. precise x"
  let ?v = "\<lambda>x. fst (hd (snd x))"
  have "mapM (\<lambda>s. do { v \<leftarrow> IntervalSet_GetPreciseValue s; v }) (osets xs) =
      Some (map (\<lambda>i. mkBitmap (fst (xs ! i)) (?v (xs ! i))) [0..<length (osets xs)])"
    using wfi p by (intro mapM_nth) (simp add: osets_nth GetPreciseValue_nset)
  moreover have "map (\<lambda>i. mkBitmap (fst (xs ! i)) (?v (xs ! i))) [0..<length (osets xs)] = bmaps ns (map ?v xs)"
    unfolding wf(2)[symmetric] by (rule nth_equalityI) (simp_all add: bmaps_def)
  moreover have one: "pts (fst x) (snd x) = {?v x}" if "x \<in> set xs" for x
    using p that by (auto simp: precise_def wrap_points_def)
  have vals: "vs = map ?v xs" if vs: "list_all2 (\<lambda>v x. v \<in> pts (fst x) (snd x)) vs xs" for vs
  proof (rule nth_equalityI)
    fix i assume i: "i < length vs"
    then have "xs ! i \<in> set xs" "vs ! i \<in> pts (fst (xs ! i)) (snd (xs ! i))" using vs by (auto simp: list_all2_conv_all_nth)
    then show "vs ! i = map ?v xs ! i" using one vs i by (auto dest: list_all2_lengthD)
  qed (use vs in \<open>auto dest: list_all2_lengthD\<close>)
  have "results xs \<subseteq> {wrapped m (F (map ?v xs))}" using vals by (auto simp: results_def)
  moreover have "list_all2 (\<lambda>v x. v \<in> pts (fst x) (snd x)) (map ?v xs) xs" using one nth_mem[of _ xs] by (simp add: list_all2_conv_all_nth)
  then have "list_all2 (\<lambda>n v. v < 2 ^ n) ns (map ?v xs)" using values_in_range[OF wf(1)] wf(2) by simp
  ultimately show "\<exists>vs. mapM (\<lambda>s. do { v \<leftarrow> IntervalSet_GetPreciseValue s; v }) (osets xs) = Some (bmaps ns vs) \<and>
      list_all2 (\<lambda>n v. v < 2 ^ n) ns vs \<and> results xs \<subseteq> {wrapped m (F vs)}"
    by (intro exI[of _ "map ?v xs"]) simp
qed

lemma PerformVariadicOp_ok:
  assumes bn: "bignum bn bv" and wf: "\<forall>x\<in>set xs. wf_operand x" "map fst xs = ns"
  shows "\<exists>t. PerformVariadicOp bn calc bs (osets xs) m = Some t \<and> norm_set m t \<and> results xs \<subseteq> set_points t"
  using exact_ok[OF bn wf]
proof
  assume "\<exists>t. MaybePerformExactCalculation bn calc bs (osets xs) m = Some (Some t) \<and> norm_set m t \<and> set_points t = results xs"
  moreover have "length xs = length bs" using arity(1) wf(2) by (metis length_map)
  ultimately show ?thesis by (auto simp: PerformVariadicOp_def CHECK_def)
next
  assume none: "MaybePerformExactCalculation bn calc bs (osets xs) m = Some None"
  have len: "length xs = length bs" using wf(2) arity by auto
  obtain ys where ys: "ReduceIntervalFragmentationForOp bn (osets xs) = Some (osets ys)" "list_all2 widened xs ys"
    using bignum.Reduce_ok[OF bn wf(1)] by blast
  note w = widened_results[OF ys(2)]
  have nsy: "map fst ys = ns" and leny: "length bs = length ys"
    using w(1) wf(2) len list_all2_lengthD[OF ys(2)] by simp_all
  note prec = precise_operands[OF w(2) nsy]
  show ?thesis
  proof (cases "\<forall>y\<in>set ys. precise y")
    case True
    then obtain vs where vs: "mapM (\<lambda>s. do { v \<leftarrow> IntervalSet_GetPreciseValue s; v }) (osets ys) = Some (bmaps ns vs)"
        "list_all2 (\<lambda>n v. v < 2 ^ n) ns vs" "results ys \<subseteq> {wrapped m (F vs)}" using prec(2) by blast
    obtain c where "calc (bmaps ns vs) = Some c" "ov_result c = mkBitmap m (wrapped m (F vs))"
      using calc_ok[OF vs(2)] unfolding bits_of_int_wrapped by blast
    moreover obtain t where "IntervalSet_Precise (mkBitmap m (wrapped m (F vs))) = Some t" "norm_set m t" "set_points t = {wrapped m (F vs)}"
      using Precise_ok[of "wrapped m (F vs)" m] by auto
    ultimately show ?thesis using none len ys(1) prec(1) True vs w(3)
      by (auto simp: PerformVariadicOp_def CHECK_def list_all_iff)
  next
    case False
    let ?sg = "list_ex sign_sensitive bs"
    obtain ap c where ap: "foldM size_preserving_step (zip bs (osets ys)) (True, 0) = Some (ap, c)"
        "ap \<Longrightarrow> (\<forall>i<length bs. size_preserving (bs ! i) \<or> precise (ys ! i))" "ap \<Longrightarrow> c = length (filter (\<lambda>x. \<not> precise x) ys)"
      using size_preserving_fold[OF leny w(2), of 0] by auto
    have osp: "(\<forall>i<length bs. size_preserving (bs ! i) \<or> precise (ys ! i)) \<and> (\<exists>k. \<forall>i<length bs. i \<noteq> k \<longrightarrow> precise (ys ! i))"
      if "ap \<and> c = 1" using ap that one_exception[of precise ys] leny by simp
    have "\<forall>x\<in>set ys. ?sg \<longrightarrow> 0 < fst x" using sign_widths nsy by (metis image_eqI list.set_map)
    then have cut: "mapM (if ?sg then all_signed_intervals else Intervals) (osets ys) = Some (map (\<lambda>x. ivs (fst x) (cuts ?sg x)) ys)"
      using cut_intervals[of ys ?sg] w(2) by blast
    obtain stop r where r: "IteratorProduct (map (\<lambda>x. ivs (fst x) (cuts ?sg x)) ys) (handle_combo calc bs (ap \<and> c = 1) m)
        (IntervalSet_of_width (int m)) = Some (stop, r)" "set_ok m r"
        "\<forall>vs. list_all2 (\<lambda>v x. v \<in> pts (fst x) (snd x)) vs ys \<longrightarrow> wrapped m (F vs) \<in> set_points r"
      using combos_ok[OF w(2) nsy refl osp] by blast
    obtain n where n: "Normalize r = Some n" "norm_set m n" "set_points n = set_points r" using Normalize_ok[OF r(2)] by blast
    obtain t where t: "MinimizeIntervals bn n kMaxIntervalSegments = Some t" "norm_set m t" "set_points n \<subseteq> set_points t"
      using bignum.MinimizeIntervals_ok[OF bn norm_set_ok[OF n(2)], of kMaxIntervalSegments] by (auto simp: kMaxIntervalSegments_def)
    have "results ys \<subseteq> set_points r" using r(3) by (auto simp: results_def)
    then have "results xs \<subseteq> set_points t" using w(3) n(3) t(3) by blast
    moreover have "\<not> list_all (\<lambda>p. p) (map precise ys)" using False by (auto simp: list_all_iff)
    ultimately have "PerformVariadicOp bn calc bs (osets xs) m = Some t"
      using none len ys(1) prec(1) ap(1) cut r(1) n(1) t(1) by (simp add: PerformVariadicOp_def CHECK_def)
    then show ?thesis using t(2) \<open>results xs \<subseteq> set_points t\<close> by blast
  qed
qed

end

end
