(* ===== verification/Interval_Arith.thy ===== *)
theory Interval_Arith
  imports Interval_Engine
begin

text \<open>
  \<^verbatim>\<open>xls/ir/interval_ops.cc\<close>, third part: the operations of the IR on interval sets. The names of the
  namespace \<^verbatim>\<open>interval_ops\<close> have the prefix \<open>iops\<close>.
\<close>

section \<open>Arithmetic\<close>

definition add_calc :: "'bn bn_lib \<Rightarrow> bits \<Rightarrow> bits \<Rightarrow> OverflowResult option" where
  "add_calc bn lhs rhs = do {
     let padded_size = max (ib_bit_count lhs) (ib_bit_count rhs) + 1;
     padded_lhs \<leftarrow> ZeroExtend lhs padded_size;
     padded_rhs \<leftarrow> ZeroExtend rhs padded_size;
     padded_result \<leftarrow> Add bn padded_lhs padded_rhs;
     overflow \<leftarrow> GetFromMsb padded_result 0;
     r \<leftarrow> Truncate padded_result (padded_size - 1);
     Some \<lparr>ov_result = r, first_overflow_bit = overflow, second_overflow_bit = False\<rparr> }"

definition iops_Add :: "'bn bn_lib \<Rightarrow> IntervalSet \<Rightarrow> IntervalSet \<Rightarrow> IntervalSet option" where
  "iops_Add bn a b = do {
     n \<leftarrow> IntervalSet_BitCount a;
     PerformBinOp bn (add_calc bn) a kMonotoneSizePreserving b kMonotoneSizePreserving n }"

definition sub_calc :: "'bn bn_lib \<Rightarrow> bits \<Rightarrow> bits \<Rightarrow> OverflowResult option" where
  "sub_calc bn lhs rhs = do {
     r \<leftarrow> Sub bn lhs rhs;
     lt \<leftarrow> ULessThan lhs rhs;
     Some \<lparr>ov_result = r, first_overflow_bit = lt, second_overflow_bit = False\<rparr> }"

definition iops_Sub :: "'bn bn_lib \<Rightarrow> IntervalSet \<Rightarrow> IntervalSet \<Rightarrow> IntervalSet option" where
  "iops_Sub bn a b = do {
     n \<leftarrow> IntervalSet_BitCount a;
     PerformBinOp bn (sub_calc bn) a kMonotoneSizePreserving b kAntitoneSizePreserving n }"

definition iops_Neg :: "'bn bn_lib \<Rightarrow> IntervalSet \<Rightarrow> IntervalSet option" where
  "iops_Neg bn a = do {
     n \<leftarrow> IntervalSet_BitCount a;
     PerformUnaryOp bn (\<lambda>b. map_option no_overflow (Negate bn b)) a kAntitoneSizePreserving n }"

definition umul_calc :: "'bn bn_lib \<Rightarrow> nat \<Rightarrow> bits \<Rightarrow> bits \<Rightarrow> OverflowResult option" where
  "umul_calc bn output_bitwidth lhs rhs = do {
     r \<leftarrow> UMul bn lhs rhs;
     clz \<leftarrow> CountLeadingZeros r;
     let msb_set_bit = int (ib_bit_count r) - int clz - 1;
     Some \<lparr>ov_result = WithSize r output_bitwidth False, first_overflow_bit = (msb_set_bit \<ge> int output_bitwidth),
           second_overflow_bit = (msb_set_bit \<ge> int output_bitwidth + 1)\<rparr> }"

definition iops_UMul :: "'bn bn_lib \<Rightarrow> IntervalSet \<Rightarrow> IntervalSet \<Rightarrow> nat \<Rightarrow> IntervalSet option" where
  "iops_UMul bn a b output_bitwidth =
     PerformBinOp bn (umul_calc bn output_bitwidth) a kMonotoneNonSizePreserving b kMonotoneNonSizePreserving output_bitwidth"

definition udiv_op :: "'bn bn_lib \<Rightarrow> IntervalSet \<Rightarrow> IntervalSet \<Rightarrow> nat \<Rightarrow> IntervalSet option" where
  "udiv_op bn a b n =
     PerformBinOp bn (\<lambda>l r. map_option no_overflow (UDiv bn l r)) a kMonotoneNonSizePreserving b kAntitoneNonSizePreserving n"

definition iops_UDiv :: "'bn bn_lib \<Rightarrow> IntervalSet \<Rightarrow> IntervalSet \<Rightarrow> IntervalSet option" where
  "iops_UDiv bn a b = do {
     n \<leftarrow> IntervalSet_BitCount a;
     z \<leftarrow> IntervalSet_CoversZero b;
     if \<not> z then udiv_op bn a b n
     else do {
       m \<leftarrow> IntervalSet_BitCount b;
       nz \<leftarrow> IntervalSet_NonZero (int m);
       nonzero_divisor \<leftarrow> IntervalSet_Intersect b nz;
       results \<leftarrow> (if IntervalSet_IsEmpty nonzero_divisor then Some (IntervalSet_of_width (int n))
                  else udiv_op bn a nonzero_divisor n);
       i \<leftarrow> Interval_Precise (AllOnes n);
       results \<leftarrow> AddInterval results i;
       Normalize results } }"

definition iops_UMod :: "IntervalSet \<Rightarrow> IntervalSet \<Rightarrow> IntervalSet option" where
  "iops_UMod a b = do {
     n \<leftarrow> IntervalSet_BitCount a;
     m \<leftarrow> IntervalSet_BitCount b;
     CHECK (n = m);
     if IntervalSet_IsEmpty a \<or> IntervalSet_IsEmpty b then Some (IntervalSet_of_width (int n))
     else do {
       ub \<leftarrow> IntervalSet_UpperBound b;
       bu \<leftarrow> ub;
       z \<leftarrow> IsZero bu;
       if z then do { i \<leftarrow> Interval_Precise (Bits n); IntervalSet_Of [i] }
       else do {
         ua \<leftarrow> IntervalSet_UpperBound a;
         au \<leftarrow> ua;
         d \<leftarrow> Decrement bu;
         upper_bound \<leftarrow> UMin au d;
         i \<leftarrow> Interval_Closed (Bits n) upper_bound;
         IntervalSet_Of [i] } } }"

definition iops_SMul :: "'bn bn_lib \<Rightarrow> IntervalSet \<Rightarrow> IntervalSet \<Rightarrow> nat \<Rightarrow> IntervalSet option" where
  "iops_SMul bn a b output_bitwidth = do {
     pos_a \<leftarrow> PositiveIntervals a False;
     pos_b \<leftarrow> PositiveIntervals b False;
     neg_a \<leftarrow> NegativeAbsoluteIntervals bn a;
     neg_b \<leftarrow> NegativeAbsoluteIntervals bn b;
     pos_pos \<leftarrow> iops_UMul bn pos_a pos_b output_bitwidth;
     neg_neg \<leftarrow> iops_UMul bn neg_a neg_b output_bitwidth;
     positives \<leftarrow> Combine pos_pos neg_neg;
     za \<leftarrow> IntervalSet_CoversZero a;
     zb \<leftarrow> IntervalSet_CoversZero b;
     positives \<leftarrow> (if za \<or> zb then do {
          z \<leftarrow> UBits 0 output_bitwidth;
          i \<leftarrow> Interval_Precise z;
          s \<leftarrow> IntervalSet_Of [i];
          Combine positives s }
        else Some positives);
     pos_neg \<leftarrow> iops_UMul bn pos_a neg_b output_bitwidth;
     neg_pos \<leftarrow> iops_UMul bn neg_a pos_b output_bitwidth;
     s \<leftarrow> Combine pos_neg neg_pos;
     negatives \<leftarrow> iops_Neg bn s;
     Combine positives negatives }"

text \<open>The bound test that decides which results of a division by zero are added.\<close>

definition bound_msb :: "bits option \<Rightarrow> bool \<Rightarrow> bool option" where
  "bound_msb bound missing = (case bound of None \<Rightarrow> Some missing | Some b \<Rightarrow> msb b)"

definition iops_SDiv :: "'bn bn_lib \<Rightarrow> IntervalSet \<Rightarrow> IntervalSet \<Rightarrow> IntervalSet option" where
  "iops_SDiv bn a b = do {
     pos_a \<leftarrow> PositiveIntervals a False;
     pos_b \<leftarrow> PositiveIntervals b False;
     neg_a \<leftarrow> NegativeAbsoluteIntervals bn a;
     neg_b \<leftarrow> NegativeAbsoluteIntervals bn b;
     pos_pos \<leftarrow> iops_UDiv bn pos_a pos_b;
     neg_neg \<leftarrow> iops_UDiv bn neg_a neg_b;
     positives \<leftarrow> Combine pos_pos neg_neg;
     pos_neg \<leftarrow> iops_UDiv bn pos_a neg_b;
     neg_pos \<leftarrow> iops_UDiv bn neg_a pos_b;
     s \<leftarrow> Combine pos_neg neg_pos;
     negatives \<leftarrow> iops_Neg bn s;
     res \<leftarrow> Combine positives negatives;
     n \<leftarrow> IntervalSet_BitCount a;
     za \<leftarrow> IntervalSet_CoversZero a;
     res \<leftarrow> (if za then do { z \<leftarrow> UBits 0 n; i \<leftarrow> Interval_Precise z; AddInterval res i } else Some res);
     zb \<leftarrow> IntervalSet_CoversZero b;
     res \<leftarrow> (if zb then do {
          lb \<leftarrow> IntervalSet_LowerBound a;
          lneg \<leftarrow> bound_msb lb False;
          res \<leftarrow> (if \<not> lneg then do { m \<leftarrow> MaxSigned n; i \<leftarrow> Interval_Precise m; AddInterval res i } else Some res);
          ub \<leftarrow> IntervalSet_UpperBound a;
          uneg \<leftarrow> bound_msb ub True;
          if uneg then do { m \<leftarrow> MinSigned n; i \<leftarrow> Interval_Precise m; AddInterval res i } else Some res }
        else Some res);
     Normalize res }"

definition absolute_bound :: "'bn bn_lib \<Rightarrow> IntervalSet \<Rightarrow> nat \<Rightarrow> bits option" where
  "absolute_bound bn s n = do {
     is \<leftarrow> all_signed_intervals s;
     foldM (\<lambda>i bound. do {
         l \<leftarrow> Abs bn (lower_bound i);
         bound \<leftarrow> UMax bound l;
         u \<leftarrow> Abs bn (upper_bound i);
         UMax bound u }) is (Bits n) }"

definition iops_SMod :: "'bn bn_lib \<Rightarrow> IntervalSet \<Rightarrow> IntervalSet \<Rightarrow> IntervalSet option" where
  "iops_SMod bn a b = do {
     n \<leftarrow> IntervalSet_BitCount a;
     m \<leftarrow> IntervalSet_BitCount b;
     CHECK (n = m);
     if IntervalSet_IsEmpty a \<or> IntervalSet_IsEmpty b then Some (IntervalSet_of_width (int n))
     else do {
       absolute_b_bound \<leftarrow> absolute_bound bn b m;
       z \<leftarrow> IsZero absolute_b_bound;
       if z then do { i \<leftarrow> Interval_Precise (Bits n); IntervalSet_Of [i] }
       else do {
         absolute_a_bound \<leftarrow> absolute_bound bn a n;
         d \<leftarrow> Decrement absolute_b_bound;
         bound \<leftarrow> UMin absolute_a_bound d;
         l \<leftarrow> Negate bn bound;
         i \<leftarrow> Interval_Closed l bound;
         IntervalSet_Of [i] } } }"

section \<open>Shifts\<close>

definition shll_calc :: "bits \<Rightarrow> bits \<Rightarrow> OverflowResult option" where
  "shll_calc lhs rhs = do {
     z \<leftarrow> IsZero rhs;
     if z then Some (no_overflow lhs)
     else do {
       amount \<leftarrow> UnsignedBitsToSaturatedInt64 rhs;
       let shift_amount = sint amount;
       lhs_zero \<leftarrow> IsZero lhs;
       if shift_amount \<ge> int (ib_bit_count lhs) then do {
         one \<leftarrow> (if lhs_zero then Some False else IsOne lhs);
         Some \<lparr>ov_result = Bits (ib_bit_count lhs), first_overflow_bit = (\<not> lhs_zero),
               second_overflow_bit = (\<not> lhs_zero \<and> (shift_amount > int (ib_bit_count lhs) \<or> \<not> one))\<rparr> }
       else do {
         shifted_out \<leftarrow> Slice lhs (ib_bit_count lhs - nat shift_amount) (nat shift_amount);
         r \<leftarrow> ShiftLeftLogical lhs (nat shift_amount);
         out_zero \<leftarrow> IsZero shifted_out;
         out_one \<leftarrow> IsOne shifted_out;
         Some \<lparr>ov_result = r, first_overflow_bit = (\<not> out_zero), second_overflow_bit = (\<not> out_zero \<and> \<not> out_one)\<rparr> } } }"

definition iops_Shll :: "'bn bn_lib \<Rightarrow> IntervalSet \<Rightarrow> IntervalSet \<Rightarrow> IntervalSet option" where
  "iops_Shll bn a b = do {
     n \<leftarrow> IntervalSet_BitCount a;
     PerformBinOp bn shll_calc a kMonotoneNonSizePreserving b kMonotoneNonSizePreserving n }"

text \<open>The amount of a right shift, or nothing when it is larger than every \<^verbatim>\<open>int64_t\<close>.\<close>

definition right_shift_amount :: "bits \<Rightarrow> nat option option" where
  "right_shift_amount rhs = do {
     shift_amount \<leftarrow> ToUint64 rhs;
     Some (case shift_amount of Inl _ \<Rightarrow> None | Inr w \<Rightarrow> if unat w > 2 ^ 63 - 1 then None else Some (unat w)) }"

definition shrl_calc :: "bits \<Rightarrow> bits \<Rightarrow> OverflowResult option" where
  "shrl_calc lhs rhs = do {
     amount \<leftarrow> right_shift_amount rhs;
     case amount of
       None \<Rightarrow> Some (no_overflow (Bits (ib_bit_count lhs)))
     | Some k \<Rightarrow> map_option no_overflow (ShiftRightLogical lhs k) }"

definition iops_Shrl :: "'bn bn_lib \<Rightarrow> IntervalSet \<Rightarrow> IntervalSet \<Rightarrow> IntervalSet option" where
  "iops_Shrl bn a b = do {
     n \<leftarrow> IntervalSet_BitCount a;
     PerformBinOp bn shrl_calc a kMonotoneNonSizePreserving b kAntitoneNonSizePreserving n }"

definition shra_calc :: "bits \<Rightarrow> bits \<Rightarrow> OverflowResult option" where
  "shra_calc lhs rhs = do {
     amount \<leftarrow> right_shift_amount rhs;
     case amount of
       None \<Rightarrow> do { m \<leftarrow> msb lhs; Some (no_overflow (if m then AllOnes (ib_bit_count lhs) else Bits (ib_bit_count lhs))) }
     | Some k \<Rightarrow> map_option no_overflow (ShiftRightArith lhs k) }"

definition iops_Shra :: "'bn bn_lib \<Rightarrow> IntervalSet \<Rightarrow> IntervalSet \<Rightarrow> IntervalSet option" where
  "iops_Shra bn a b = do {
     n \<leftarrow> IntervalSet_BitCount a;
     PerformBinOp bn shra_calc a (SignSensitive kMonotoneNonSizePreserving)
       b (AddSignSensitiveTonicity kAntitoneNonSizePreserving 0) n }"

section \<open>Widths\<close>

definition iops_SignExtend :: "'bn bn_lib \<Rightarrow> IntervalSet \<Rightarrow> nat \<Rightarrow> IntervalSet option" where
  "iops_SignExtend bn a width =
     PerformUnaryOp bn (\<lambda>b. map_option no_overflow (SignExtend b width)) a (SignSensitive kMonotoneNonSizePreserving) width"

definition iops_ZeroExtend :: "'bn bn_lib \<Rightarrow> IntervalSet \<Rightarrow> nat \<Rightarrow> IntervalSet option" where
  "iops_ZeroExtend bn a width =
     PerformUnaryOp bn (\<lambda>b. map_option no_overflow (ZeroExtend b width)) a kMonotoneSizePreserving width"

definition iops_Truncate :: "'bn bn_lib \<Rightarrow> IntervalSet \<Rightarrow> nat \<Rightarrow> IntervalSet option" where
  "iops_Truncate bn a width = do {
     is \<leftarrow> Intervals a;
     r \<leftarrow> loop (\<lambda>i res. do {
            d \<leftarrow> Sub bn (upper_bound i) (lower_bound i);
            gt \<leftarrow> UGreaterThan d (AllOnes width);
            if gt then do { m \<leftarrow> IntervalSet_Maximal width; Some (Return m) }
            else do {
              low \<leftarrow> Slice (lower_bound i) 0 width;
              high \<leftarrow> Slice (upper_bound i) 0 width;
              j \<leftarrow> mkInterval low high;
              res \<leftarrow> AddInterval res j;
              Some (Continue res) } }) is (IntervalSet_of_width (int width));
     case r of Return m \<Rightarrow> Some m | Continue res \<Rightarrow> Normalize res }"

definition iops_BitSlice :: "'bn bn_lib \<Rightarrow> IntervalSet \<Rightarrow> 64 word \<Rightarrow> nat \<Rightarrow> IntervalSet option" where
  "iops_BitSlice bn a start width = do {
     u \<leftarrow> UBits start 64;
     s \<leftarrow> IntervalSet_Precise u;
     r \<leftarrow> iops_Shrl bn a s;
     iops_Truncate bn r width }"

end
