(* ===== verification/Interval_Arith_Rules.thy ===== *)
theory Interval_Arith_Rules
  imports Interval_Engine_Rules Interval_Arith
begin

text \<open>
  The arithmetic operations as instances of the engine. The locales \<open>unary_op\<close> and \<open>binary_op\<close> are the forms
  of \<open>interval_op\<close> for one and two operands; each operation gives the integer function its calculation computes
  modulo the result width, and the contract follows.
\<close>

section \<open>Unary and binary operations\<close>

text \<open>An operation is sound when it returns a set in normal form that contains every result.\<close>

definition sound_unary :: "IntervalSet option \<Rightarrow> nat \<Rightarrow> (nat \<Rightarrow> nat) \<Rightarrow> IntervalSet \<Rightarrow> bool" where
  "sound_unary r m f a = (\<exists>t. r = Some t \<and> norm_set m t \<and> (\<forall>x\<in>set_points a. f x \<in> set_points t))"

definition sound_binary :: "IntervalSet option \<Rightarrow> nat \<Rightarrow> (nat \<Rightarrow> nat \<Rightarrow> nat) \<Rightarrow> IntervalSet \<Rightarrow> IntervalSet \<Rightarrow> bool" where
  "sound_binary r m f a b = (\<exists>t. r = Some t \<and> norm_set m t \<and> (\<forall>x\<in>set_points a. \<forall>y\<in>set_points b. f x y \<in> set_points t))"

locale binary_op =
  fixes calc2 :: "bits \<Rightarrow> bits \<Rightarrow> OverflowResult option" and b1 b2 :: ArgumentBehavior and n1 n2 m :: nat
    and G :: "nat \<Rightarrow> nat \<Rightarrow> int"
  assumes plain: "\<not> sign_sensitive b1" "\<not> sign_sensitive b2" "sign_sensitive_tonicity b1 = []" "sign_sensitive_tonicity b2 = []"
    and calc2_ok: "x < 2 ^ n1 \<Longrightarrow> y < 2 ^ n2 \<Longrightarrow>
      \<exists>r. calc2 (mkBitmap n1 x) (mkBitmap n2 y) = Some r \<and> ov_result r = bits_of_int m (G x y)"
    and tonic1: "x \<le> x' \<Longrightarrow> x' < 2 ^ n1 \<Longrightarrow> y < 2 ^ n2 \<Longrightarrow> if tonicity b1 = Monotone then G x y \<le> G x' y else G x' y \<le> G x y"
    and tonic2: "x < 2 ^ n1 \<Longrightarrow> y \<le> y' \<Longrightarrow> y' < 2 ^ n2 \<Longrightarrow> if tonicity b2 = Monotone then G x y \<le> G x y' else G x y' \<le> G x y"
    and no_wrap2: "\<lbrakk>x < 2 ^ n1; y < 2 ^ n2; x' < 2 ^ n1; y' < 2 ^ n2; calc2 (mkBitmap n1 x) (mkBitmap n2 y) = Some lo;
      calc2 (mkBitmap n1 x') (mkBitmap n2 y') = Some hi; \<not> first_overflow_bit lo; \<not> first_overflow_bit hi\<rbrakk> \<Longrightarrow>
      G x' y' - G x y < 2 ^ m"
    and one_wrap2: "\<lbrakk>x < 2 ^ n1; y < 2 ^ n2; x' < 2 ^ n1; y' < 2 ^ n2; calc2 (mkBitmap n1 x) (mkBitmap n2 y) = Some lo;
      calc2 (mkBitmap n1 x') (mkBitmap n2 y') = Some hi; \<not> (first_overflow_bit lo \<and> first_overflow_bit hi);
      first_overflow_bit lo \<or> first_overflow_bit hi; \<not> second_overflow_bit lo; \<not> second_overflow_bit hi; G x y \<le> G x' y'\<rbrakk> \<Longrightarrow>
      G x' y' div 2 ^ m \<le> G x y div 2 ^ m + 1"
    and preserving1: "size_preserving b1 \<Longrightarrow> x < 2 ^ n1 \<Longrightarrow> x' < 2 ^ n1 \<Longrightarrow> y < 2 ^ n2 \<Longrightarrow> G x' y - G x y < 2 ^ m"
    and preserving2: "size_preserving b2 \<Longrightarrow> x < 2 ^ n1 \<Longrightarrow> y < 2 ^ n2 \<Longrightarrow> y' < 2 ^ n2 \<Longrightarrow> G x y' - G x y < 2 ^ m"
begin

definition low1 :: "nat \<Rightarrow> nat \<Rightarrow> nat" where "low1 l u = (if tonicity b1 = Monotone then l else u)"
definition low2 :: "nat \<Rightarrow> nat \<Rightarrow> nat" where "low2 l u = (if tonicity b2 = Monotone then l else u)"

lemma corners: "corner False [b1, b2] ns [(l, u), (l', u')] = [low1 l u, low2 l' u']"
    "corner True [b1, b2] ns [(l, u), (l', u')] = [low1 u l, low2 u' l']"
  by (auto simp: corner_def box_tonicity_def plain low1_def low2_def)

lemma low_range: "l \<le> u \<Longrightarrow> u < 2 ^ n1 \<Longrightarrow> low1 l u < 2 ^ n1 \<and> low1 u l < 2 ^ n1"
    "l \<le> u \<Longrightarrow> u < 2 ^ n2 \<Longrightarrow> low2 l u < 2 ^ n2 \<and> low2 u l < 2 ^ n2"
  by (auto simp: low1_def low2_def)

lemma between:
  assumes "l \<le> x" "x \<le> u" "u < 2 ^ n1" "l' \<le> y" "y \<le> u'" "u' < 2 ^ n2"
  shows "G (low1 l u) (low2 l' u') \<le> G x y" "G x y \<le> G (low1 u l) (low2 u' l')"
proof -
  have r: "x < 2 ^ n1" "y < 2 ^ n2" "l < 2 ^ n1" "l' < 2 ^ n2" using assms by linarith+
  have "G (low1 l u) y \<le> G x y" "G x y \<le> G (low1 u l) y"
    using tonic1[of l x y] tonic1[of x u y] assms r by (auto simp: low1_def)
  moreover have "G (low1 l u) (low2 l' u') \<le> G (low1 l u) y" "G (low1 u l) y \<le> G (low1 u l) (low2 u' l')"
    using tonic2[of "low1 l u" l' y] tonic2[of "low1 l u" y u'] tonic2[of "low1 u l" l' y] tonic2[of "low1 u l" y u'] assms r
      low_range(1)[of l u] by (auto simp: low2_def split: if_splits)
  ultimately show "G (low1 l u) (low2 l' u') \<le> G x y" "G x y \<le> G (low1 u l) (low2 u' l')" by linarith+
qed

lemma binary_box: "wf_box [n1, n2] ps \<Longrightarrow> \<exists>l u l' u'. ps = [(l, u), (l', u')] \<and> l \<le> u \<and> u < 2 ^ n1 \<and> l' \<le> u' \<and> u' < 2 ^ n2"
  by (auto simp: wf_box_def list_all2_Cons1)

end

sublocale binary_op \<subseteq> interval_op "\<lambda>bs. do { CHECK (length bs = 2); calc2 (bs ! 0) (bs ! 1) }" "[b1, b2]" "[n1, n2]" m
  "\<lambda>vs. G (vs ! 0) (vs ! 1)"
proof unfold_locales
  show "length [b1, b2] = length [n1, n2]" "[n1, n2] \<noteq> []" by simp_all
next
  fix vs :: "nat list" assume "list_all2 (\<lambda>n v. v < 2 ^ n) [n1, n2] vs"
  then show "\<exists>r. (do { CHECK (length (bmaps [n1, n2] vs) = 2); calc2 (bmaps [n1, n2] vs ! 0) (bmaps [n1, n2] vs ! 1) }) = Some r \<and>
      ov_result r = bits_of_int m (G (vs ! 0) (vs ! 1))"
    using calc2_ok by (auto simp: list_all2_Cons1 CHECK_def)
next
  fix b j assume "b \<in> set [b1, b2]" "j \<in> set (sign_sensitive_tonicity b)"
  then show "j < length [b1, b2] \<and> sign_sensitive ([b1, b2] ! j)" using plain by auto
next
  fix n assume "list_ex sign_sensitive [b1, b2]"
  then show "0 < n" using plain by simp
next
  fix ps :: box and vs assume "wf_box [n1, n2] ps" "in_box ps vs"
  then show "G (corner False [b1, b2] [n1, n2] ps ! 0) (corner False [b1, b2] [n1, n2] ps ! 1) \<le> G (vs ! 0) (vs ! 1) \<and>
      G (vs ! 0) (vs ! 1) \<le> G (corner True [b1, b2] [n1, n2] ps ! 0) (corner True [b1, b2] [n1, n2] ps ! 1)"
    using between by (auto dest!: binary_box simp: corners in_box_def list_all2_Cons1)
next
  fix ps lo hi assume "wf_box [n1, n2] ps" 
    "(do { CHECK (length (bmaps [n1, n2] (corner False [b1, b2] [n1, n2] ps)) = 2);
      calc2 (bmaps [n1, n2] (corner False [b1, b2] [n1, n2] ps) ! 0) (bmaps [n1, n2] (corner False [b1, b2] [n1, n2] ps) ! 1) }) = Some lo"
    "(do { CHECK (length (bmaps [n1, n2] (corner True [b1, b2] [n1, n2] ps)) = 2);
      calc2 (bmaps [n1, n2] (corner True [b1, b2] [n1, n2] ps) ! 0) (bmaps [n1, n2] (corner True [b1, b2] [n1, n2] ps) ! 1) }) = Some hi"
    "\<not> first_overflow_bit lo" "\<not> first_overflow_bit hi"
  then show "G (corner True [b1, b2] [n1, n2] ps ! 0) (corner True [b1, b2] [n1, n2] ps ! 1) -
      G (corner False [b1, b2] [n1, n2] ps ! 0) (corner False [b1, b2] [n1, n2] ps ! 1) < 2 ^ m"
    using no_wrap2 low_range by (auto dest!: binary_box simp: corners CHECK_def)
next
  fix ps assume "wf_box [n1, n2] ps" "preserving_box [b1, b2] ps"
  then obtain l u l' u' where p: "ps = [(l, u), (l', u')]" "l \<le> u" "u < 2 ^ n1" "l' \<le> u'" "u' < 2 ^ n2"
      "(size_preserving b1 \<and> l' = u') \<or> (size_preserving b2 \<and> l = u) \<or> l = u \<and> l' = u'"
    by (auto dest!: binary_box simp: preserving_box_def single_point_def less_Suc_eq all_conj_distrib)
  then show "G (corner True [b1, b2] [n1, n2] ps ! 0) (corner True [b1, b2] [n1, n2] ps ! 1) -
      G (corner False [b1, b2] [n1, n2] ps ! 0) (corner False [b1, b2] [n1, n2] ps ! 1) < 2 ^ m"
    using preserving1 preserving2 low_range[of l u] low_range[of l' u'] by (auto simp: corners low1_def low2_def)
next
  fix ps lo hi assume "wf_box [n1, n2] ps" 
    "(do { CHECK (length (bmaps [n1, n2] (corner False [b1, b2] [n1, n2] ps)) = 2);
      calc2 (bmaps [n1, n2] (corner False [b1, b2] [n1, n2] ps) ! 0) (bmaps [n1, n2] (corner False [b1, b2] [n1, n2] ps) ! 1) }) = Some lo"
    "(do { CHECK (length (bmaps [n1, n2] (corner True [b1, b2] [n1, n2] ps)) = 2);
      calc2 (bmaps [n1, n2] (corner True [b1, b2] [n1, n2] ps) ! 0) (bmaps [n1, n2] (corner True [b1, b2] [n1, n2] ps) ! 1) }) = Some hi"
    "\<not> (first_overflow_bit lo \<and> first_overflow_bit hi)" "first_overflow_bit lo \<or> first_overflow_bit hi"
    "\<not> second_overflow_bit lo" "\<not> second_overflow_bit hi"
  note a = this
  obtain l u l' u' where p: "ps = [(l, u), (l', u')]" "l \<le> u" "u < 2 ^ n1" "l' \<le> u'" "u' < 2 ^ n2"
    using binary_box[OF a(1)] by blast
  have "G (low1 l u) (low2 l' u') \<le> G (low1 u l) (low2 u' l')" using between[of l l u l' l' u'] p by simp
  then show "G (corner True [b1, b2] [n1, n2] ps ! 0) (corner True [b1, b2] [n1, n2] ps ! 1) div 2 ^ m \<le>
      G (corner False [b1, b2] [n1, n2] ps ! 0) (corner False [b1, b2] [n1, n2] ps ! 1) div 2 ^ m + 1"
    using one_wrap2[of "low1 l u" "low2 l' u'" "low1 u l" "low2 u' l'" lo hi] low_range(1)[of l u] low_range(2)[of l' u'] a p
    by (simp add: corners CHECK_def)
qed

context binary_op
begin

lemma PerformBinOp_ok:
  assumes "bignum bn bv" "norm_set n1 a" "norm_set n2 b"
  shows "sound_binary (PerformBinOp bn calc2 a b1 b b2 m) m (\<lambda>x y. wrapped m (G x y)) a b"
proof -
  obtain ps qs where ps: "a = nset n1 ps" "norm n1 ps" "b = nset n2 qs" "norm n2 qs" using assms(2,3) by (auto elim!: norm_setE)
  let ?xs = "[(n1, ps), (n2, qs)]"
  have wf: "\<forall>x\<in>set ?xs. wf_operand x" "map fst ?xs = [n1, n2]" using ps by auto
  obtain t where "PerformVariadicOp bn (\<lambda>bs. do { CHECK (length bs = 2); calc2 (bs ! 0) (bs ! 1) }) [b1, b2] (osets ?xs) m = Some t"
      "norm_set m t" "results ?xs \<subseteq> set_points t"
    using PerformVariadicOp_ok[OF assms(1) wf] by blast
  moreover have "wrapped m (G x y) \<in> results ?xs" if "x \<in> pts n1 ps" "y \<in> pts n2 qs" for x y
    using that unfolding results_def by (intro CollectI exI[of _ "[x, y]"]) simp
  ultimately show ?thesis using ps by (auto simp: sound_binary_def PerformBinOp_def set_points_nset)
qed

end

locale unary_op =
  fixes calc1 :: "bits \<Rightarrow> OverflowResult option" and b1 :: ArgumentBehavior and n1 m :: nat and G :: "nat \<Rightarrow> int"
  assumes plain: "sign_sensitive_tonicity b1 = []" "sign_sensitive b1 \<Longrightarrow> 0 < n1"
    and calc1_ok: "x < 2 ^ n1 \<Longrightarrow> \<exists>r. calc1 (mkBitmap n1 x) = Some r \<and> ov_result r = bits_of_int m (G x) \<and> \<not> first_overflow_bit r"
    and tonic1: "x \<le> x' \<Longrightarrow> x' < 2 ^ n1 \<Longrightarrow> sign_sensitive b1 \<longrightarrow> x' < 2 ^ (n1 - 1) \<or> 2 ^ (n1 - 1) \<le> x \<Longrightarrow>
      if tonicity b1 = Monotone then G x \<le> G x' else G x' \<le> G x"
    and no_wrap1: "x < 2 ^ n1 \<Longrightarrow> x' < 2 ^ n1 \<Longrightarrow> sign_sensitive b1 \<longrightarrow> (x < 2 ^ (n1 - 1) \<longleftrightarrow> x' < 2 ^ (n1 - 1)) \<Longrightarrow> G x' - G x < 2 ^ m"
begin

definition low1 :: "nat \<Rightarrow> nat \<Rightarrow> nat" where "low1 l u = (if tonicity b1 = Monotone then l else u)"

lemma corners: "corner False [b1] ns [(l, u)] = [low1 l u]" "corner True [b1] ns [(l, u)] = [low1 u l]"
  by (auto simp: corner_def box_tonicity_def plain low1_def)

lemma unary_box:
  "wf_box [n1] ps \<Longrightarrow> list_ex sign_sensitive [b1] \<longrightarrow> sign_pure [n1] ps \<Longrightarrow>
   \<exists>l u. ps = [(l, u)] \<and> l \<le> u \<and> u < 2 ^ n1 \<and> (sign_sensitive b1 \<longrightarrow> u < 2 ^ (n1 - 1) \<or> 2 ^ (n1 - 1) \<le> l)"
  by (auto simp: wf_box_def sign_pure_def list_all2_Cons1)

lemma corner_distance:
  assumes "wf_box [n1] ps" "list_ex sign_sensitive [b1] \<longrightarrow> sign_pure [n1] ps"
  shows "G (corner True [b1] [n1] ps ! 0) - G (corner False [b1] [n1] ps ! 0) < 2 ^ m"
proof -
  obtain l u where p: "ps = [(l, u)]" "l \<le> u" "u < 2 ^ n1" "sign_sensitive b1 \<longrightarrow> u < 2 ^ (n1 - 1) \<or> 2 ^ (n1 - 1) \<le> l"
    using unary_box[OF assms] by blast
  then have "sign_sensitive b1 \<longrightarrow> (l < 2 ^ (n1 - 1) \<longleftrightarrow> u < 2 ^ (n1 - 1))" by linarith
  then show ?thesis using no_wrap1[of l u] no_wrap1[of u l] p by (auto simp: corners low1_def)
qed

end

sublocale unary_op \<subseteq> interval_op "\<lambda>bs. do { CHECK (length bs = 1); calc1 (bs ! 0) }" "[b1]" "[n1]" m "\<lambda>vs. G (vs ! 0)"
proof unfold_locales
  show "length [b1] = length [n1]" "[n1] \<noteq> []" by simp_all
next
  fix vs :: "nat list" assume "list_all2 (\<lambda>n v. v < 2 ^ n) [n1] vs"
  then show "\<exists>r. (do { CHECK (length (bmaps [n1] vs) = 1); calc1 (bmaps [n1] vs ! 0) }) = Some r \<and> ov_result r = bits_of_int m (G (vs ! 0))"
    using calc1_ok by (fastforce simp: list_all2_Cons1 CHECK_def)
next
  fix b j assume "b \<in> set [b1]" "j \<in> set (sign_sensitive_tonicity b)"
  then show "j < length [b1] \<and> sign_sensitive ([b1] ! j)" using plain by auto
next
  fix n assume "list_ex sign_sensitive [b1]" "n \<in> set [n1]"
  then show "0 < n" using plain by simp
next
  fix ps :: box and vs assume "wf_box [n1] ps" "list_ex sign_sensitive [b1] \<longrightarrow> sign_pure [n1] ps" "in_box ps vs"
  then obtain l u x where p: "ps = [(l, u)]" "u < 2 ^ n1" "sign_sensitive b1 \<longrightarrow> u < 2 ^ (n1 - 1) \<or> 2 ^ (n1 - 1) \<le> l"
      "vs = [x]" "l \<le> x" "x \<le> u"
    by (auto dest!: unary_box simp: in_box_def list_all2_Cons1)
  then have "sign_sensitive b1 \<longrightarrow> x < 2 ^ (n1 - 1) \<or> 2 ^ (n1 - 1) \<le> l" "sign_sensitive b1 \<longrightarrow> u < 2 ^ (n1 - 1) \<or> 2 ^ (n1 - 1) \<le> x"
    by linarith+
  then show "G (corner False [b1] [n1] ps ! 0) \<le> G (vs ! 0) \<and> G (vs ! 0) \<le> G (corner True [b1] [n1] ps ! 0)"
    using tonic1[of l x] tonic1[of x u] p by (auto simp: corners low1_def)
next
  fix ps :: box and lo hi assume box: "wf_box [n1] ps" "list_ex sign_sensitive [b1] \<longrightarrow> sign_pure [n1] ps"
    and c: "(do { CHECK (length (bmaps [n1] (corner False [b1] [n1] ps)) = 1); calc1 (bmaps [n1] (corner False [b1] [n1] ps) ! 0) }) = Some lo"
     "(do { CHECK (length (bmaps [n1] (corner True [b1] [n1] ps)) = 1); calc1 (bmaps [n1] (corner True [b1] [n1] ps) ! 0) }) = Some hi"
  show "G (corner True [b1] [n1] ps ! 0) - G (corner False [b1] [n1] ps ! 0) < 2 ^ m" using corner_distance[OF box] .
  assume "first_overflow_bit lo \<or> first_overflow_bit hi"
  moreover obtain l u where p: "ps = [(l, u)]" "l \<le> u" "u < 2 ^ n1" using unary_box[OF box] by blast
  moreover have "l < 2 ^ n1" using p by linarith
  then have "\<not> first_overflow_bit lo" "\<not> first_overflow_bit hi"
    using c p calc1_ok[of l] calc1_ok[of u] by (auto simp: corners low1_def CHECK_def split: if_splits)
  ultimately show "G (corner True [b1] [n1] ps ! 0) div 2 ^ m \<le> G (corner False [b1] [n1] ps ! 0) div 2 ^ m + 1" by simp
next
  fix ps :: box assume box: "wf_box [n1] ps" "list_ex sign_sensitive [b1] \<longrightarrow> sign_pure [n1] ps"
  show "G (corner True [b1] [n1] ps ! 0) - G (corner False [b1] [n1] ps ! 0) < 2 ^ m" using corner_distance[OF box] .
qed

context unary_op
begin

lemma PerformUnaryOp_ok:
  assumes "bignum bn bv" "norm_set n1 a"
  shows "sound_unary (PerformUnaryOp bn calc1 a b1 m) m (\<lambda>x. wrapped m (G x)) a"
proof -
  obtain ps where ps: "a = nset n1 ps" "norm n1 ps" using assms(2) by (auto elim!: norm_setE)
  have wf: "\<forall>x\<in>set [(n1, ps)]. wf_operand x" "map fst [(n1, ps)] = [n1]" using ps by auto
  obtain t where "PerformVariadicOp bn (\<lambda>bs. do { CHECK (length bs = 1); calc1 (bs ! 0) }) [b1] (osets [(n1, ps)]) m = Some t"
      "norm_set m t" "results [(n1, ps)] \<subseteq> set_points t"
    using PerformVariadicOp_ok[OF assms(1) wf] by blast
  moreover have "wrapped m (G x) \<in> results [(n1, ps)]" if "x \<in> pts n1 ps" for x
    using that unfolding results_def by (intro CollectI exI[of _ "[x]"]) simp
  ultimately show ?thesis using ps by (auto simp: sound_unary_def PerformUnaryOp_def set_points_nset)
qed

end

section \<open>Calculations\<close>

lemma first_carry: "x < 2 ^ n \<Longrightarrow> y < 2 ^ n \<Longrightarrow> bit (x + y) n \<longleftrightarrow> 2 ^ n \<le> x + y" for x y :: nat
  using sign_bit_iff[of "n + 1" "x + y"] by simp

lemma IsOne_mk: "v < 2 ^ n \<Longrightarrow> IsOne (mkBitmap n v) = Some (v = 1)"
proof -
  assume v: "v < 2 ^ n"
  let ?S = "{i. i < n \<and> bit v i}"
  have bits: "i < n" if "bit v i" for i using v that by (meson nat_lt_exp_iff_bits not_le)
  show ?thesis
  proof (cases "card ?S = 1 \<and> bit v 0")
    case True
    then obtain k where k: "?S = {k}" by (auto simp: card_1_singleton_iff)
    have mem: "i \<in> ?S \<longleftrightarrow> bit v i" for i using bits by auto
    then have "k = 0" using True unfolding k by (metis singletonD)
    then have "bit v i \<longleftrightarrow> i = 0" for i using mem[of i] unfolding k by simp
    then have "v = 1" by (intro bit_eqI) (simp only: bit_1_iff)
    moreover have "0 < n" using True bits[of 0] by simp
    ultimately show ?thesis using True by (simp add: IsOne_def PopCount_mk Get_mk)
  next
    case False
    have "v \<noteq> 1"
    proof
      assume one: "v = 1"
      then have "0 < n" using v by (cases n) auto
      then have "?S = {0}" unfolding one bit_1_iff by auto
      then have "card ?S = 1" by simp
      moreover have "bit v 0" unfolding one bit_1_iff ..
      ultimately show False using False by blast
    qed
    moreover have "n \<noteq> 0" if "card ?S = 1" using that by (intro notI) simp
    ultimately show ?thesis using False by (auto simp: IsOne_def PopCount_mk Get_mk)
  qed
qed

lemma saturated_amount: "y < 2 ^ n \<Longrightarrow> UnsignedBitsToSaturatedInt64 (mkBitmap n y) = Some (word_of_nat (min y (2 ^ 63 - 1)))"
  by (simp add: UnsignedBitsToSaturatedInt64_def TryUnsignedBitsToInt64_mk take_bit_nat_eq_self min_def)

lemma right_shift_amount_mk:
  "y < 2 ^ n \<Longrightarrow> right_shift_amount (mkBitmap n y) = Some (if y < 2 ^ 63 then Some y else None)"
  by (auto simp: right_shift_amount_def ToUint64_mk take_bit_nat_eq_self unat_of_nat)

lemma shrl_calc_mk:
  assumes "x < 2 ^ n" "y < 2 ^ k" "n \<le> 2 ^ 63"
  shows "shrl_calc (mkBitmap n x) (mkBitmap k y) = Some (no_overflow (mkBitmap n (x div 2 ^ y)))"
proof (cases "y < 2 ^ 63")
  case False
  then have "2 ^ n \<le> (2::nat) ^ y" using assms(3) by (intro power_increasing) auto
  then have "x < 2 ^ y" using assms(1) by (rule order_less_le_trans[rotated])
  then show ?thesis using False assms by (simp add: shrl_calc_def right_shift_amount_mk Bits_mk)
qed (use assms in \<open>simp add: shrl_calc_def right_shift_amount_mk ShiftRightLogical_mk take_bit_nat_eq_self drop_bit_eq_div\<close>)

context bignum
begin

lemma add_calc_mk:
  "x < 2 ^ n \<Longrightarrow> y < 2 ^ n \<Longrightarrow> add_calc bn (mkBitmap n x) (mkBitmap n y) =
     Some \<lparr>ov_result = bits_of_int n (int x + int y), first_overflow_bit = (2 ^ n \<le> x + y), second_overflow_bit = False\<rparr>"
  using first_carry[of x n y] bits_of_int_nat[of n "x + y"]
  by (simp add: add_calc_def ZeroExtend_mk Add_mk GetFromMsb_mk Truncate_mk take_bit_nat_eq_self del: bits_of_int_nat)

lemma sub_calc_mk:
  "x < 2 ^ n \<Longrightarrow> y < 2 ^ n \<Longrightarrow> sub_calc bn (mkBitmap n x) (mkBitmap n y) =
     Some \<lparr>ov_result = bits_of_int n (int x - int y), first_overflow_bit = (x < y), second_overflow_bit = False\<rparr>"
  by (simp add: sub_calc_def Sub_mk UCmp_ops_mk take_bit_nat_eq_self)

lemma umul_calc_mk:
  assumes "x < 2 ^ n" "y < 2 ^ k"
  shows "umul_calc bn m (mkBitmap n x) (mkBitmap k y) =
     Some \<lparr>ov_result = bits_of_int m (int x * int y), first_overflow_bit = (2 ^ m \<le> x * y), second_overflow_bit = (2 ^ (m + 1) \<le> x * y)\<rparr>"
proof -
  have xy: "x * y < 2 ^ (n + k)" using assms by (simp add: power_add mult_strict_mono)
  then have "nat_len (x * y) \<le> n + k" by (simp add: nat_len_le_iff)
  then have "int (n + k) - int (n + k - nat_len (x * y)) - 1 = int (nat_len (x * y)) - 1" by linarith
  moreover have "int j \<le> int (nat_len (x * y)) - 1 \<longleftrightarrow> 2 ^ j \<le> x * y" for j
    using nat_len_le_iff[of "x * y" j] by linarith
  moreover from this[of "m + 1"] have "int m + 1 \<le> int (nat_len (x * y)) - 1 \<longleftrightarrow> 2 ^ (m + 1) \<le> x * y" by (simp add: add.commute)
  ultimately show ?thesis using assms xy bits_of_int_nat[of m "x * y"]
    by (simp add: umul_calc_def UMul_mk take_bit_nat_eq_self CountLeadingZeros_mk WithSize_mk Let_def del: bits_of_int_nat)
qed

end

text \<open>A left shift overflows as the product with the power of two does.\<close>

lemma shll_calc_mk:
  assumes "x < 2 ^ n" "y < 2 ^ k" "n < 2 ^ 63 - 1"
  shows "\<exists>r. shll_calc (mkBitmap n x) (mkBitmap k y) = Some r \<and> ov_result r = mkBitmap n (x * 2 ^ y) \<and>
    (first_overflow_bit r \<longleftrightarrow> 2 ^ n \<le> x * 2 ^ y) \<and> (second_overflow_bit r \<longleftrightarrow> 2 ^ (n + 1) \<le> x * 2 ^ y)"
proof (cases "y = 0")
  case True
  then show ?thesis using assms by (simp add: shll_calc_def IsZero_mk no_overflow_def)
next
  case y: False
  let ?a = "min y (2 ^ 63 - 1)"
  have amount: "sint (word_of_nat ?a :: 64 word) = int ?a" by (rule sint_of_take_bit) simp
  have big: "int ?a \<ge> int n \<longleftrightarrow> n \<le> y" "int ?a > int n \<longleftrightarrow> n < y" using assms(3) by auto
  show ?thesis
  proof (cases "n \<le> y")
    case True
    obtain d where d: "y = n + d" using True le_Suc_ex by blast
    have "2 ^ (n + 1) \<le> x * 2 ^ y \<longleftrightarrow> x \<noteq> 0 \<and> (n < y \<or> x \<noteq> 1)"
    proof -
      have "2 ^ (n + 1) \<le> x * 2 ^ y \<longleftrightarrow> 2 ^ n * 2 \<le> 2 ^ n * (x * 2 ^ d)" using d by (simp add: power_add mult.commute mult.left_commute)
      also have "\<dots> \<longleftrightarrow> 2 \<le> x * 2 ^ d" by (simp only: mult_le_cancel1) simp
      also have "\<dots> \<longleftrightarrow> x \<noteq> 0 \<and> (0 < d \<or> x \<noteq> 1)"
      proof (cases "x = 0 \<or> d = 0")
        case False
        then have "1 * 2 ^ 1 \<le> x * 2 ^ d" by (intro mult_le_mono power_increasing) auto
        then show ?thesis using False by simp
      qed auto
      finally show ?thesis using d by simp
    qed
    moreover have "2 ^ n \<le> x * 2 ^ y \<longleftrightarrow> x \<noteq> 0"
    proof
      assume "x \<noteq> 0"
      then have "1 * 2 ^ n \<le> x * 2 ^ y" using True by (intro mult_le_mono power_increasing) auto
      then show "2 ^ n \<le> x * 2 ^ y" by simp
    qed (cases "x = 0"; simp)
    moreover have "mkBitmap n (x * 2 ^ y) = Bits n" using d by (simp add: Bits_mk mkBitmap_eq_iff take_bit_eq_mod power_add)
    ultimately show ?thesis using y True assms big amount
      by (auto simp: shll_calc_def IsZero_mk saturated_amount take_bit_nat_eq_self IsOne_mk)
  next
    case False
    then have yn: "y < n" and a: "?a = y" using assms(3) by auto
    let ?o = "x div 2 ^ (n - y)"
    have e: "(2::nat) ^ n = 2 ^ (n - y) * 2 ^ y" using yn by (simp add: power_add[symmetric])
    have o: "?o < 2 ^ y" using assms(1) e by (simp add: less_mult_imp_div_less mult.commute)
    have "2 ^ n \<le> x * 2 ^ y \<longleftrightarrow> 2 ^ (n - y) \<le> x" unfolding e by simp
    moreover have "2 ^ (n + 1) \<le> x * 2 ^ y \<longleftrightarrow> 2 * 2 ^ (n - y) \<le> x" using e by (simp add: mult.assoc[symmetric])
    moreover have "?o = 0 \<longleftrightarrow> x < 2 ^ (n - y)" by (simp add: div_eq_0_iff)
    moreover have "?o \<ge> 2 \<longleftrightarrow> 2 * 2 ^ (n - y) \<le> x" by (simp add: less_eq_div_iff_mult_less_eq)
    ultimately have f: "?o \<noteq> 0 \<longleftrightarrow> 2 ^ n \<le> x * 2 ^ y" "?o \<noteq> 0 \<and> ?o \<noteq> 1 \<longleftrightarrow> 2 ^ (n + 1) \<le> x * 2 ^ y" by linarith+
    have "Slice (mkBitmap n x) (n - y) y = Some (mkBitmap y ?o)" using yn by (simp add: Slice_mk drop_bit_eq_div)
    then show ?thesis using y yn a assms big amount o f
      by (simp add: shll_calc_def IsZero_mk saturated_amount take_bit_nat_eq_self IsOne_mk ShiftLeftLogical_mk push_bit_eq_mult)
  qed
qed

section \<open>The operations\<close>

lemmas behaviors = kMonotoneSizePreserving_def kMonotoneNonSizePreserving_def kAntitoneSizePreserving_def
  kAntitoneNonSizePreserving_def

lemma int_less_exp: "int x < 2 ^ n \<longleftrightarrow> x < 2 ^ n"
  by simp

lemma difference_bounds:
  "x < 2 ^ n \<Longrightarrow> int x - int y < 2 ^ n"
  "\<not> 2 ^ n \<le> x + y \<Longrightarrow> int x + int y - (int x' + int y') < 2 ^ n"
  "x < 2 ^ n \<Longrightarrow> \<not> x' < y' \<Longrightarrow> int x - int y - (int x' - int y') < 2 ^ n"
  "\<not> 2 ^ n \<le> x * y \<Longrightarrow> int x * int y - int x' * int y' < 2 ^ n"
proof -
  show "x < 2 ^ n \<Longrightarrow> int x - int y < 2 ^ n" using int_less_exp[of x n] by linarith
  show "\<not> 2 ^ n \<le> x + y \<Longrightarrow> int x + int y - (int x' + int y') < 2 ^ n" using int_less_exp[of "x + y" n] by linarith
  show "x < 2 ^ n \<Longrightarrow> \<not> x' < y' \<Longrightarrow> int x - int y - (int x' - int y') < 2 ^ n" using int_less_exp[of x n] by linarith
  have "0 \<le> int x' * int y'" by simp
  moreover have "int x * int y < 2 ^ n" if "\<not> 2 ^ n \<le> x * y" using int_less_exp[of "x * y" n] that by simp
  ultimately show "\<not> 2 ^ n \<le> x * y \<Longrightarrow> int x * int y - int x' * int y' < 2 ^ n" by linarith
qed

lemma block_bounds:
  assumes "a < 2 * 2 ^ n" "0 \<le> k"
  shows "int a div 2 ^ n \<le> k div 2 ^ n + 1"
proof -
  have "a div 2 ^ n < 2" using assms(1) by (simp add: div_less_iff_less_mult)
  moreover have "int a div 2 ^ n = int (a div 2 ^ n)" by (simp add: zdiv_int)
  moreover have "0 \<le> k div 2 ^ n" using assms(2) by (simp add: pos_imp_zdiv_nonneg_iff)
  ultimately show ?thesis by linarith
qed

lemma adjacent_blocks:
  fixes a b :: int
  assumes "b < 2 ^ n" "- (2 ^ n) \<le> a"
  shows "b div 2 ^ n \<le> a div 2 ^ n + 1"
proof -
  have "b div 2 ^ n \<le> (2 ^ n - 1) div 2 ^ n" "(- (2 ^ n)) div 2 ^ n \<le> a div 2 ^ n"
    using assms by (intro zdiv_mono1; simp)+
  moreover have "(- (2 ^ n)) div 2 ^ n = (- 1 :: int)" using nonzero_mult_div_cancel_right[of "2 ^ n" "- 1 :: int"] by simp
  moreover have "(2 ^ n - 1 :: int) div 2 ^ n = 0" by (simp add: div_pos_pos_trivial)
  ultimately show ?thesis by linarith
qed

lemma block_bounds_sub:
  assumes "x' < 2 ^ n" "y < 2 ^ n"
  shows "(int x' - int y') div 2 ^ n \<le> (int x - int y) div 2 ^ n + 1"
  using int_less_exp[of x' n] int_less_exp[of y n] assms by (intro adjacent_blocks) linarith+

sublocale bignum \<subseteq> add_op: binary_op "add_calc bn" kMonotoneSizePreserving kMonotoneSizePreserving n n n "\<lambda>x y. int x + int y" for n
  using block_bounds[of "x + y" n for x y]
  by unfold_locales (auto simp: behaviors add_calc_mk difference_bounds)

sublocale bignum \<subseteq> sub_op: binary_op "sub_calc bn" kMonotoneSizePreserving kAntitoneSizePreserving n n n "\<lambda>x y. int x - int y" for n
  by unfold_locales (auto simp: behaviors sub_calc_mk difference_bounds block_bounds_sub)

sublocale bignum \<subseteq> neg_op: unary_op "\<lambda>b. map_option no_overflow (Negate bn b)" kAntitoneSizePreserving n n "\<lambda>x. - int x" for n
  by unfold_locales (auto simp: behaviors Negate_mk no_overflow_def difference_bounds)

text \<open>A quotient by zero is all ones, which keeps division antitone in the divisor.\<close>

definition div_value :: "nat \<Rightarrow> nat \<Rightarrow> nat \<Rightarrow> int" where
  "div_value n x y = (if y = 0 then 2 ^ n - 1 else int (x div y))"

lemma div_value_bounds: "x < 2 ^ n \<Longrightarrow> 0 \<le> div_value n x y \<and> div_value n x y < 2 ^ n"
proof -
  assume "x < 2 ^ n"
  then have "x div y < 2 ^ n" by (metis div_le_dividend order_le_less_trans)
  then show ?thesis by (auto simp: div_value_def)
qed

lemma div_value_tonic:
  "x \<le> x' \<Longrightarrow> div_value n x y \<le> div_value n x' y"
  "x < 2 ^ n \<Longrightarrow> y \<le> y' \<Longrightarrow> div_value n x y' \<le> div_value n x y"
proof -
  show "x \<le> x' \<Longrightarrow> div_value n x y \<le> div_value n x' y" by (simp add: div_value_def div_le_mono)
  assume x: "x < 2 ^ n" and y: "y \<le> y'"
  show "div_value n x y' \<le> div_value n x y"
    using div_value_bounds[OF x, of y'] y by (cases "y = 0") (auto simp: div_value_def div_le_mono2)
qed

lemma bits_of_div_value: "mkBitmap n (if y = 0 then mask n else x div y) = bits_of_int n (div_value n x y)"
  using bits_of_int_nat[of n "mask n"] by (simp add: div_value_def mask_nat of_nat_diff del: bits_of_int_nat) simp

sublocale bignum \<subseteq> umul_op: binary_op "umul_calc bn m" kMonotoneNonSizePreserving kMonotoneNonSizePreserving n k m
  "\<lambda>x y. int x * int y" for n k m
  using block_bounds[of "x * y" m for x y]
  by unfold_locales (auto simp: behaviors umul_calc_mk difference_bounds mult_mono)

sublocale bignum \<subseteq> udiv_op: binary_op "\<lambda>l r. map_option no_overflow (UDiv bn l r)" kMonotoneNonSizePreserving kAntitoneNonSizePreserving
  n k n "div_value n" for n k
proof unfold_locales
  fix x y x' y' :: nat
  assume "x < 2 ^ n" "x' < 2 ^ n"
  then show "div_value n x' y' - div_value n x y < 2 ^ n" using div_value_bounds[of x n y] div_value_bounds[of x' n y'] by linarith
next
  fix x y :: nat assume "x < 2 ^ n" "y < 2 ^ k"
  then show "\<exists>r. map_option no_overflow (UDiv bn (mkBitmap n x) (mkBitmap k y)) = Some r \<and> ov_result r = bits_of_int n (div_value n x y)"
    by (simp add: UDiv_mk no_overflow_def take_bit_nat_eq_self bits_of_div_value[symmetric])
qed (auto simp: behaviors UDiv_mk no_overflow_def div_value_tonic)

lemma shll_binary_op:
  assumes shift_width: "n < 2 ^ 63 - 1"
  shows "binary_op shll_calc kMonotoneNonSizePreserving kMonotoneNonSizePreserving n k n (\<lambda>x y. int x * 2 ^ y)"
proof unfold_locales
  fix x y :: nat assume "x < 2 ^ n" "y < 2 ^ k"
  then show "\<exists>r. shll_calc (mkBitmap n x) (mkBitmap k y) = Some r \<and> ov_result r = bits_of_int n (int x * 2 ^ y)"
    using shll_calc_mk[of x n y k] shift_width bits_of_int_nat[of n "x * 2 ^ y"] by auto
next
  fix x y x' y' :: nat and lo hi
  assume r: "x < 2 ^ n" "y < 2 ^ k" "x' < 2 ^ n" "y' < 2 ^ k"
    and c: "shll_calc (mkBitmap n x) (mkBitmap k y) = Some lo" "shll_calc (mkBitmap n x') (mkBitmap k y') = Some hi"
  have f: "first_overflow_bit lo \<longleftrightarrow> 2 ^ n \<le> x * 2 ^ y" "first_overflow_bit hi \<longleftrightarrow> 2 ^ n \<le> x' * 2 ^ y'"
      "second_overflow_bit hi \<longleftrightarrow> 2 ^ (n + 1) \<le> x' * 2 ^ y'"
    using shll_calc_mk[of x n y k] shll_calc_mk[of x' n y' k] r c shift_width by auto
  show "int x' * 2 ^ y' - int x * 2 ^ y < 2 ^ n" if "\<not> first_overflow_bit lo" "\<not> first_overflow_bit hi"
    using that f difference_bounds(4)[of n x' "2 ^ y'" x "2 ^ y"] by simp
  show "int x' * 2 ^ y' div 2 ^ n \<le> int x * 2 ^ y div 2 ^ n + 1" if "\<not> second_overflow_bit hi"
    using that f block_bounds[of "x' * 2 ^ y'" n "int x * 2 ^ y"] by simp
qed (auto simp: behaviors mult_mono power_increasing)

lemma shrl_binary_op:
  assumes "n \<le> 2 ^ 63"
  shows "binary_op shrl_calc kMonotoneNonSizePreserving kAntitoneNonSizePreserving n k n (\<lambda>x y. int (x div 2 ^ y))"
proof unfold_locales
  fix x y x' y' :: nat
  assume "x' < 2 ^ n"
  then have "x' div 2 ^ y' < 2 ^ n" by (metis div_le_dividend order_le_less_trans)
  then show "int (x' div 2 ^ y') - int (x div 2 ^ y) < 2 ^ n" by (rule difference_bounds(1))
next
  fix x y y' :: nat assume "y \<le> y'"
  then show "if tonicity kAntitoneNonSizePreserving = Monotone then int (x div 2 ^ y) \<le> int (x div 2 ^ y') else int (x div 2 ^ y') \<le> int (x div 2 ^ y)"
    by (simp add: behaviors div_le_mono2 power_increasing del: of_nat_div of_nat_power)
next
  fix x x' y :: nat assume "x \<le> x'"
  then show "if tonicity kMonotoneNonSizePreserving = Monotone then int (x div 2 ^ y) \<le> int (x' div 2 ^ y) else int (x' div 2 ^ y) \<le> int (x div 2 ^ y)"
    by (simp add: behaviors div_le_mono del: of_nat_div of_nat_power)
next
  fix x y :: nat assume "x < 2 ^ n" "y < 2 ^ k"
  then show "\<exists>r. shrl_calc (mkBitmap n x) (mkBitmap k y) = Some r \<and> ov_result r = bits_of_int n (int (x div 2 ^ y))"
    using shrl_calc_mk[OF _ _ assms] unfolding bits_of_int_nat by (simp add: no_overflow_def)
qed (use shrl_calc_mk[OF _ _ assms] in \<open>auto simp: behaviors no_overflow_def\<close>)

lemma zero_extend_unary_op:
  assumes "n \<le> m"
  shows "unary_op (\<lambda>b. map_option no_overflow (ZeroExtend b m)) kMonotoneSizePreserving n m int"
proof unfold_locales
  fix x x' :: nat assume "x' < 2 ^ n"
  then have "x' < 2 ^ m" using assms by (meson order_less_le_trans power_increasing one_le_numeral)
  then show "int x' - int x < 2 ^ m" by (rule difference_bounds(1))
qed (use assms in \<open>auto simp: behaviors ZeroExtend_mk no_overflow_def take_bit_nat_eq_self\<close>)

lemma sv_mono: "x \<le> x' \<Longrightarrow> x' < 2 ^ n \<Longrightarrow> x' < 2 ^ (n - 1) \<or> 2 ^ (n - 1) \<le> x \<Longrightarrow> 0 < n \<Longrightarrow> sv n x \<le> sv n x'"
  using sign_bit_iff[of n x] sign_bit_iff[of n x'] by (auto simp: sv_cases take_bit_nat_eq_self)

lemma sign_extend_unary_op:
  assumes "0 < n" "n \<le> m"
  shows "unary_op (\<lambda>b. map_option no_overflow (SignExtend b m)) (SignSensitive kMonotoneNonSizePreserving) n m (sv n)"
proof unfold_locales
  fix x x' :: nat assume "x < 2 ^ n" "x' < 2 ^ n"
    "sign_sensitive (SignSensitive kMonotoneNonSizePreserving) \<longrightarrow> (x < 2 ^ (n - 1) \<longleftrightarrow> x' < 2 ^ (n - 1))"
  then have "sv n x' - sv n x = int x' - int x"
    using sign_bit_iff[of n x] sign_bit_iff[of n x'] assms(1) by (auto simp: sv_cases take_bit_nat_eq_self SignSensitive_def)
  moreover have "x' < 2 ^ m" using \<open>x' < 2 ^ n\<close> assms(2) by (meson order_less_le_trans power_increasing one_le_numeral)
  ultimately show "sv n x' - sv n x < 2 ^ m" using difference_bounds(1)[of x' m x] by simp
qed (use assms sv_mono in \<open>auto simp: behaviors SignSensitive_def SignExtend_mk no_overflow_def\<close>)

text \<open>An arithmetic right shift: antitone in the amount for nonnegative values, monotone for negative ones.\<close>

definition shra_value :: "nat \<Rightarrow> nat \<Rightarrow> nat \<Rightarrow> int" where
  "shra_value n x y = sv n x div 2 ^ y"

lemma shra_value_bounds: "0 < n \<Longrightarrow> - (2 ^ (n - 1)) \<le> shra_value n x y \<and> shra_value n x y < 2 ^ (n - 1)"
proof -
  assume n: "0 < n"
  then have sv: "- (2 ^ (n - 1)) \<le> sv n x" "sv n x < 2 ^ (n - 1)" using sv_fits[of n x] by (simp_all add: fits_signed_def)
  show ?thesis
  proof (cases "0 \<le> sv n x")
    case True
    then have "0 \<le> sv n x div 2 ^ y" "sv n x div 2 ^ y \<le> sv n x div 1" by (simp_all only: pos_imp_zdiv_nonneg_iff zdiv_mono2 zero_less_power zero_less_one one_le_power zero_less_numeral one_le_numeral)
    moreover have "- (2 ^ (n - 1)) \<le> (0::int)" by simp
    ultimately show ?thesis using sv by (simp add: shra_value_def)
  next
    case False
    then have "sv n x div 1 \<le> sv n x div 2 ^ y" by (intro zdiv_mono2_neg) auto
    moreover have "sv n x div 2 ^ y < 0" using False by (simp add: pos_imp_zdiv_neg_iff not_le)
    moreover have "(0::int) < 2 ^ (n - 1)" by simp
    ultimately show ?thesis using sv by (simp add: shra_value_def)
  qed
qed

lemma shra_calc_mk:
  assumes "0 < n" "x < 2 ^ n" "y < 2 ^ k" "n \<le> 2 ^ 63"
  shows "shra_calc (mkBitmap n x) (mkBitmap k y) = Some (no_overflow (bits_of_int n (shra_value n x y)))"
proof (cases "y < 2 ^ 63")
  case True
  then show ?thesis using assms
    by (simp add: shra_calc_def right_shift_amount_mk ShiftRightArith_mk shra_value_def drop_bit_eq_div)
next
  case False
  then have "(2::int) ^ (n - 1) \<le> 2 ^ y" using assms(4) by (intro power_increasing) auto
  moreover have "- (2 ^ (n - 1)) \<le> sv n x" "sv n x < 2 ^ (n - 1)" using sv_fits[of n x] assms(1) by (simp_all add: fits_signed_def)
  ultimately have sv: "- (2 ^ y) \<le> sv n x" "sv n x < 2 ^ y" by linarith+
  have neg: "sv n x < 0 \<longleftrightarrow> bit x (n - 1)" using assms(1) by (simp add: sv_neg_iff)
  show ?thesis
  proof (cases "sv n x < 0")
    case True
    have "(- (2 ^ y)) div 2 ^ y \<le> sv n x div 2 ^ y" using sv(1) by (intro zdiv_mono1) auto
    moreover have "(- (2 ^ y)) div 2 ^ y = (- 1 :: int)" using nonzero_mult_div_cancel_right[of "2 ^ y" "- 1 :: int"] by simp
    moreover have "sv n x div 2 ^ y < 0" using True by (simp add: pos_imp_zdiv_neg_iff)
    ultimately have "sv n x div 2 ^ y = - 1" by linarith
    moreover have "bits_of_int n (- 1) = AllOnes n" by (simp add: AllOnes_mk bits_of_int_def mask_nat take_bit_minus_one_eq_mask mask_eq_exp_minus_1 nat_diff_distrib nat_power_eq)
    ultimately show ?thesis using False True neg assms by (simp add: shra_calc_def right_shift_amount_mk msb_mk shra_value_def)
  next
    case nonneg: False
    then have "sv n x div 2 ^ y = 0" using sv(2) by simp
    then show ?thesis using False nonneg neg assms bits_of_int_nat[of n 0]
      by (simp add: shra_calc_def right_shift_amount_mk msb_mk shra_value_def Bits_mk)
  qed
qed

lemma shra_value_tonic:
  assumes "0 < n"
  shows "x \<le> x' \<Longrightarrow> x' < 2 ^ n \<Longrightarrow> x' < 2 ^ (n - 1) \<or> 2 ^ (n - 1) \<le> x \<Longrightarrow> shra_value n x y \<le> shra_value n x' y"
    "x < 2 ^ (n - 1) \<Longrightarrow> y \<le> y' \<Longrightarrow> shra_value n x y' \<le> shra_value n x y"
    "x < 2 ^ n \<Longrightarrow> 2 ^ (n - 1) \<le> x \<Longrightarrow> y \<le> y' \<Longrightarrow> shra_value n x y \<le> shra_value n x y'"
proof -
  show "x \<le> x' \<Longrightarrow> x' < 2 ^ n \<Longrightarrow> x' < 2 ^ (n - 1) \<or> 2 ^ (n - 1) \<le> x \<Longrightarrow> shra_value n x y \<le> shra_value n x' y"
    using sv_mono[of x x' n] assms by (simp add: shra_value_def zdiv_mono1)
  have p: "y \<le> y' \<Longrightarrow> (2::int) ^ y \<le> 2 ^ y'" by (rule power_increasing) simp_all
  assume y: "y \<le> y'"
  show "shra_value n x y' \<le> shra_value n x y" if "x < 2 ^ (n - 1)"
  proof -
    have "x < 2 ^ n" using that by (meson diff_le_self order_less_le_trans power_increasing one_le_numeral)
    then have "0 \<le> sv n x" using sign_bit_iff[of n x] that assms sv_neg_iff[of n x] by linarith
    then show ?thesis unfolding shra_value_def using p[OF y] by (intro zdiv_mono2) auto
  qed
  show "shra_value n x y \<le> shra_value n x y'" if "x < 2 ^ n" "2 ^ (n - 1) \<le> x"
  proof -
    have "sv n x < 0" using sign_bit_iff[of n x] that assms sv_neg_iff[of n x] by blast
    then show ?thesis unfolding shra_value_def using p[OF y] by (intro zdiv_mono2_neg) auto
  qed
qed

definition kShiftedArgument :: ArgumentBehavior where
  "kShiftedArgument = SignSensitive kMonotoneNonSizePreserving"

definition kAmountArgument :: ArgumentBehavior where
  "kAmountArgument = AddSignSensitiveTonicity kAntitoneNonSizePreserving 0"

lemma shra_interval_op:
  assumes w: "0 < n" "0 < k" "n \<le> 2 ^ 63"
  shows "interval_op (\<lambda>bs. do { CHECK (length bs = 2); shra_calc (bs ! 0) (bs ! 1) }) [kShiftedArgument, kAmountArgument] [n, k] n
    (\<lambda>vs. shra_value n (vs ! 0) (vs ! 1))"
proof unfold_locales
  let ?bs = "[kShiftedArgument, kAmountArgument]"
  note b = kShiftedArgument_def kAmountArgument_def SignSensitive_def AddSignSensitiveTonicity_def behaviors
  have corner: "corner up ?bs [n, k] [(l, u), (l', u')] = [if up then u else l, if (2 ^ (n - 1) \<le> l) = up then u' else l']" for up l u l' u'
    by (auto simp: corner_def box_tonicity_def box_neg_def b)
  show "length ?bs = length [n, k]" "[n, k] \<noteq> []" by simp_all
  show "\<exists>r. (do { CHECK (length (bmaps [n, k] vs) = 2); shra_calc (bmaps [n, k] vs ! 0) (bmaps [n, k] vs ! 1) }) = Some r \<and>
      ov_result r = bits_of_int n (shra_value n (vs ! 0) (vs ! 1))" if "list_all2 (\<lambda>n v. v < 2 ^ n) [n, k] vs" for vs
    using that w by (auto simp: list_all2_Cons1 CHECK_def shra_calc_mk no_overflow_def)
  show "j < length ?bs \<and> sign_sensitive (?bs ! j)" if "c \<in> set ?bs" "j \<in> set (sign_sensitive_tonicity c)" for c j
    using that by (auto simp: b)
  show "0 < i" if "i \<in> set [n, k]" for i using that w by auto
  show "shra_value n (corner False ?bs [n, k] ps ! 0) (corner False ?bs [n, k] ps ! 1) \<le> shra_value n (vs ! 0) (vs ! 1) \<and>
      shra_value n (vs ! 0) (vs ! 1) \<le> shra_value n (corner True ?bs [n, k] ps ! 0) (corner True ?bs [n, k] ps ! 1)"
    if box: "wf_box [n, k] ps" "list_ex sign_sensitive ?bs \<longrightarrow> sign_pure [n, k] ps" "in_box ps vs" for ps vs
  proof -
    have "list_ex sign_sensitive ?bs" by (simp add: b)
    then obtain l u l' u' x y where p: "ps = [(l, u), (l', u')]" "vs = [x, y]" "l \<le> x" "x \<le> u" "u < 2 ^ n" "l' \<le> y" "y \<le> u'"
        "u < 2 ^ (n - 1) \<or> 2 ^ (n - 1) \<le> l"
      using box by (auto simp: wf_box_def sign_pure_def in_box_def list_all2_Cons1)
    have x: "shra_value n l z \<le> shra_value n x z" "shra_value n x z \<le> shra_value n u z" for z
      using shra_value_tonic(1)[OF w(1), of l x z] shra_value_tonic(1)[OF w(1), of x u z] p by auto
    show ?thesis
    proof (cases "2 ^ (n - 1) \<le> l")
      case True
      then show ?thesis using x[of l'] x[of u'] x[of y] shra_value_tonic(3)[OF w(1), of l l' y] shra_value_tonic(3)[OF w(1), of u y u'] p
        by (simp add: corner)
    next
      case False
      then show ?thesis using x[of l'] x[of u'] x[of y] shra_value_tonic(2)[OF w(1), of l y u'] shra_value_tonic(2)[OF w(1), of u l' y] p
        by (simp add: corner)
    qed
  qed
  have e: "(2::int) ^ n = 2 * 2 ^ (n - 1)" using w(1) by (simp add: power_eq_if)
  have bounds: "shra_value n x y < 2 ^ n" "- (2 ^ n) \<le> shra_value n x y" for x y
    using shra_value_bounds[OF w(1), of x y] e by linarith+
  have dist: "shra_value n x' y' - shra_value n x y < 2 ^ n" for x y x' y'
    using shra_value_bounds[OF w(1), of x y] shra_value_bounds[OF w(1), of x' y'] e by linarith
  show "shra_value n (corner True ?bs [n, k] ps ! 0) (corner True ?bs [n, k] ps ! 1) -
      shra_value n (corner False ?bs [n, k] ps ! 0) (corner False ?bs [n, k] ps ! 1) < 2 ^ n" for ps by (rule dist)
  show "shra_value n (corner True ?bs [n, k] ps ! 0) (corner True ?bs [n, k] ps ! 1) -
      shra_value n (corner False ?bs [n, k] ps ! 0) (corner False ?bs [n, k] ps ! 1) < 2 ^ n" for ps by (rule dist)
  show "shra_value n (corner True ?bs [n, k] ps ! 0) (corner True ?bs [n, k] ps ! 1) div 2 ^ n \<le>
      shra_value n (corner False ?bs [n, k] ps ! 0) (corner False ?bs [n, k] ps ! 1) div 2 ^ n + 1" for ps
    by (rule adjacent_blocks[OF bounds])
qed

section \<open>Soundness of the operations\<close>

lemma norm_set_BitCount: "norm_set n s \<Longrightarrow> IntervalSet_BitCount s = Some n"
  by (simp add: norm_set_def wf_set_BitCount)

lemma norm_set_less: "norm_set n s \<Longrightarrow> x \<in> set_points s \<Longrightarrow> x < 2 ^ n"
  using set_ok_range[OF norm_set_ok] by blast

lemma sound_binary_cong:
  "sound_binary r m f a b \<Longrightarrow> (\<And>x y. x \<in> set_points a \<Longrightarrow> y \<in> set_points b \<Longrightarrow> f x y = g x y) \<Longrightarrow> sound_binary r m g a b"
  by (auto simp: sound_binary_def)

lemma sound_unary_cong:
  "sound_unary r m f a \<Longrightarrow> (\<And>x. x \<in> set_points a \<Longrightarrow> f x = g x) \<Longrightarrow> sound_unary r m g a"
  by (auto simp: sound_unary_def)

lemma sound_unaryE:
  assumes "sound_unary r m f a"
  obtains t where "r = Some t" "norm_set m t" "\<And>x. x \<in> set_points a \<Longrightarrow> f x \<in> set_points t"
  using assms by (auto simp: sound_unary_def)

lemma sound_binaryE:
  assumes "sound_binary r m f a b"
  obtains t where "r = Some t" "norm_set m t" "\<And>x y. x \<in> set_points a \<Longrightarrow> y \<in> set_points b \<Longrightarrow> f x y \<in> set_points t"
  using assms by (auto simp: sound_binary_def)

lemma wrapped_sum: "wrapped m (int x + int y) = (x + y) mod 2 ^ m"
  using wrapped_nat[of m "x + y"] by (simp add: take_bit_eq_mod)

lemma wrapped_prod: "wrapped m (int x * int y) = (x * y) mod 2 ^ m"
  using wrapped_nat[of m "x * y"] by (simp add: take_bit_eq_mod)

lemma wrapped_small: "v < 2 ^ m \<Longrightarrow> wrapped m (int v) = v"
  by (simp add: wrapped_nat take_bit_nat_eq_self)

lemma wrapped_cong: "k mod 2 ^ m = l mod 2 ^ m \<Longrightarrow> wrapped m k = wrapped m l"
  by (simp add: wrapped_def)

context bignum
begin

lemma Add_sound:
  assumes "norm_set n a" "norm_set n b"
  shows "sound_binary (iops_Add bn a b) n (\<lambda>x y. (x + y) mod 2 ^ n) a b"
  using add_op.PerformBinOp_ok[OF bignum_axioms assms] by (simp add: iops_Add_def norm_set_BitCount[OF assms(1)] wrapped_sum)

lemma Sub_sound:
  assumes "norm_set n a" "norm_set n b"
  shows "sound_binary (iops_Sub bn a b) n (\<lambda>x y. wrapped n (int x - int y)) a b"
  using sub_op.PerformBinOp_ok[OF bignum_axioms assms] by (simp add: iops_Sub_def norm_set_BitCount[OF assms(1)])

lemma Neg_sound:
  assumes "norm_set n a"
  shows "sound_unary (iops_Neg bn a) n (\<lambda>x. wrapped n (- int x)) a"
  using neg_op.PerformUnaryOp_ok[OF bignum_axioms assms] by (simp add: iops_Neg_def norm_set_BitCount[OF assms])

lemma UMul_sound:
  assumes "norm_set n a" "norm_set k b"
  shows "sound_binary (iops_UMul bn a b m) m (\<lambda>x y. (x * y) mod 2 ^ m) a b"
  using umul_op.PerformBinOp_ok[OF bignum_axioms assms, of m] by (simp add: iops_UMul_def wrapped_prod)

lemma Shll_sound:
  assumes "norm_set n a" "norm_set k b" "n < 2 ^ 63 - 1"
  shows "sound_binary (iops_Shll bn a b) n (\<lambda>x y. (x * 2 ^ y) mod 2 ^ n) a b"
  using binary_op.PerformBinOp_ok[OF shll_binary_op[OF assms(3), of k] bignum_axioms assms(1,2)] wrapped_prod[of n x "2 ^ y" for x y]
  by (simp add: iops_Shll_def norm_set_BitCount[OF assms(1)])

lemma Shrl_sound:
  assumes "norm_set n a" "norm_set k b" "n \<le> 2 ^ 63"
  shows "sound_binary (iops_Shrl bn a b) n (\<lambda>x y. x div 2 ^ y) a b"
proof -
  have "x div 2 ^ y < 2 ^ n" if "x \<in> set_points a" for x y
    using norm_set_less[OF assms(1) that] by (metis div_le_dividend order_le_less_trans)
  then show ?thesis
    using binary_op.PerformBinOp_ok[OF shrl_binary_op[OF assms(3), of k] bignum_axioms assms(1,2)]
    by (auto simp: iops_Shrl_def norm_set_BitCount[OF assms(1)] wrapped_small elim!: sound_binary_cong simp del: of_nat_div of_nat_power)
qed

lemma Shra_sound:
  assumes "norm_set n a" "norm_set k b" "0 < n" "0 < k" "n \<le> 2 ^ 63"
  shows "sound_binary (iops_Shra bn a b) n (\<lambda>x y. wrapped n (sv n x div 2 ^ y)) a b"
proof -
  obtain ps qs where ps: "a = nset n ps" "norm n ps" "b = nset k qs" "norm k qs" using assms(1,2) by (auto elim!: norm_setE)
  let ?xs = "[(n, ps), (k, qs)]"
  have wf: "\<forall>x\<in>set ?xs. wf_operand x" "map fst ?xs = [n, k]" using ps by auto
  note op = shra_interval_op[OF assms(3-5)]
  obtain t where t: "PerformVariadicOp bn (\<lambda>bs. do { CHECK (length bs = 2); shra_calc (bs ! 0) (bs ! 1) }) [kShiftedArgument, kAmountArgument] (osets ?xs) n = Some t"
      "norm_set n t" "interval_op.results n (\<lambda>vs. shra_value n (vs ! 0) (vs ! 1)) ?xs \<subseteq> set_points t"
    using interval_op.PerformVariadicOp_ok[OF op bignum_axioms wf] by blast
  have "wrapped n (shra_value n x y) \<in> interval_op.results n (\<lambda>vs. shra_value n (vs ! 0) (vs ! 1)) ?xs" if "x \<in> pts n ps" "y \<in> pts k qs" for x y
    using that unfolding interval_op.results_def[OF op] by (intro CollectI exI[of _ "[x, y]"]) simp
  then show ?thesis using t ps
    by (auto simp: sound_binary_def iops_Shra_def PerformBinOp_def set_points_nset shra_value_def kShiftedArgument_def kAmountArgument_def)
qed

lemma ZeroExtend_sound:
  assumes "norm_set n a" "n \<le> m"
  shows "sound_unary (iops_ZeroExtend bn a m) m (\<lambda>x. x) a"
proof -
  have "x < 2 ^ m" if "x \<in> set_points a" for x
    using norm_set_less[OF assms(1) that] assms(2) by (meson order_less_le_trans power_increasing one_le_numeral)
  then show ?thesis using unary_op.PerformUnaryOp_ok[OF zero_extend_unary_op[OF assms(2)] bignum_axioms assms(1)]
    by (auto simp: iops_ZeroExtend_def wrapped_small elim!: sound_unary_cong)
qed

lemma SignExtend_sound:
  assumes "norm_set n a" "0 < n" "n \<le> m"
  shows "sound_unary (iops_SignExtend bn a m) m (\<lambda>x. wrapped m (sv n x)) a"
  using unary_op.PerformUnaryOp_ok[OF sign_extend_unary_op[OF assms(2,3)] bignum_axioms assms(1)] by (simp add: iops_SignExtend_def)

end

section \<open>Few values\<close>

text \<open>
  When the operands have few values, \<^verbatim>\<open>MaybePerformExactCalculation\<close> answers and the result has no
  other values than the results: the bound is on the product of the numbers of values.
\<close>

definition value_count :: "operand \<Rightarrow> nat" where
  "value_count x = card (pts (fst x) (snd x))"

lemma sizes_loop_small:
  assumes "bignum bn bv" "\<forall>x\<in>set xs. wf_operand x \<and> 0 < value_count x" "0 < c" "c * prod_list (map value_count xs) \<le> 16"
  shows "\<exists>r. loop (\<lambda>is required_calculations. do {
             size \<leftarrow> IntervalSet_Size bn is;
             Some (case size of
                 None \<Rightarrow> Return ()
               | Some k \<Rightarrow>
                   if sint k > kMaxExactCalculations \<or> sint k \<le> 0 \<or> required_calculations * sint k > kMaxExactCalculations
                   then Return () else Continue (required_calculations * sint k)) }) (osets xs) (int c) = Some (Continue r)"
  using assms(2-4)
proof (induction xs arbitrary: c)
  case (Cons x xs)
  obtain n ps where x: "x = (n, ps)" by fastforce
  let ?k = "value_count x" and ?p = "prod_list (map value_count xs)"
  have p: "0 < ?p" using Cons.prems(1) by (induction xs) auto
  have k: "0 < ?k" "norm n ps" using Cons.prems(1) x by auto
  have "c * ?k * ?p \<le> 16" using Cons.prems(3) by (simp add: mult.assoc)
  moreover have "c * ?k * 1 \<le> c * ?k * ?p" using p by (intro mult_le_mono2) simp
  moreover have "1 * ?k \<le> c * ?k" using Cons.prems(2) by (intro mult_le_mono1) simp
  ultimately have small: "c * ?k * ?p \<le> 16" "c * ?k \<le> 16" "?k \<le> 16" by linarith+
  have "sint (word_of_nat ?k :: 64 word) = int ?k" using small(3) by (simp add: signed_of_nat signed_take_bit_int_eq_self)
  moreover have "IntervalSet_Size bn (nset n ps) = Some (Some (word_of_nat ?k))"
    using bignum.Size_nset[OF assms(1) k(2)] small(3) length_enum_pairs[OF k(2)] by (simp add: value_count_def x)
  moreover have "int c * int ?k \<le> 16" using small(2) by (metis of_nat_le_iff of_nat_mult of_nat_numeral)
  ultimately show ?case using Cons.IH[of "c * ?k"] Cons.prems(1,2) k(1) small x by (simp add: kMaxExactCalculations_def)
qed simp

context interval_op
begin

lemma exact_small:
  assumes bn: "bignum bn bv" and wf: "\<forall>x\<in>set xs. wf_operand x" "map fst xs = ns" and mixed: "\<not> list_all size_preserving bs"
    and few: "\<forall>x\<in>set xs. 0 < value_count x" "prod_list (map value_count xs) \<le> 16"
  shows "\<exists>t. PerformVariadicOp bn calc bs (osets xs) m = Some t \<and> norm_set m t \<and> set_points t = results xs"
proof -
  have "MaybePerformExactCalculation bn calc bs (osets xs) m \<noteq> Some None"
    using sizes_loop_small[OF bn, of xs 1] wf(1) few mixed
    by (auto simp: MaybePerformExactCalculation_def split: bind_splits)
  then obtain t where "MaybePerformExactCalculation bn calc bs (osets xs) m = Some (Some t)" "norm_set m t" "set_points t = results xs"
    using exact_ok[OF bn wf] by blast
  moreover have "length xs = length bs" using arity(1) wf(2) by (metis length_map)
  ultimately show ?thesis by (simp add: PerformVariadicOp_def CHECK_def)
qed

end

text \<open>An operation is exact on two sets when it returns the set of the results and nothing else.\<close>

definition exact_binary :: "IntervalSet option \<Rightarrow> nat \<Rightarrow> (nat \<Rightarrow> nat \<Rightarrow> nat) \<Rightarrow> IntervalSet \<Rightarrow> IntervalSet \<Rightarrow> bool" where
  "exact_binary r m f a b = (\<exists>t. r = Some t \<and> norm_set m t \<and> set_points t = {f x y |x y. x \<in> set_points a \<and> y \<in> set_points b})"

definition few_pairs :: "IntervalSet \<Rightarrow> IntervalSet \<Rightarrow> bool" where
  "few_pairs a b = (set_points a \<noteq> {} \<and> set_points b \<noteq> {} \<and> card (set_points a) * card (set_points b) \<le> 16)"

lemma finite_pts: "norm n ps \<Longrightarrow> finite (pts n ps)"
  using pts_bound[OF norm_in_range] by (rule finite_subset) simp_all

lemma exact_binary_cong:
  "exact_binary r m f a b \<Longrightarrow> (\<And>x y. x \<in> set_points a \<Longrightarrow> y \<in> set_points b \<Longrightarrow> f x y = g x y) \<Longrightarrow> exact_binary r m g a b"
  unfolding exact_binary_def by (smt (verit) Collect_cong)

lemma exact_pairs:
  assumes op: "interval_op calc bs [n1, n2] m F" and bn: "bignum bn bv" and a: "norm_set n1 a" and b: "norm_set n2 b"
    and mixed: "\<not> list_all size_preserving bs" and few: "few_pairs a b"
  shows "exact_binary (PerformVariadicOp bn calc bs [a, b] m) m (\<lambda>x y. wrapped m (F [x, y])) a b"
proof -
  obtain ps qs where ps: "a = nset n1 ps" "norm n1 ps" "b = nset n2 qs" "norm n2 qs" using a b by (auto elim!: norm_setE)
  let ?xs = "[(n1, ps), (n2, qs)]"
  have wf: "\<forall>x\<in>set ?xs. wf_operand x" "map fst ?xs = [n1, n2]" using ps by auto
  have "\<forall>x\<in>set ?xs. 0 < value_count x" "prod_list (map value_count ?xs) \<le> 16"
    using few ps finite_pts by (auto simp: few_pairs_def value_count_def set_points_nset card_gt_0_iff)
  then obtain t where t: "PerformVariadicOp bn calc bs (osets ?xs) m = Some t" "norm_set m t" "set_points t = interval_op.results m F ?xs"
    using interval_op.exact_small[OF op bn wf mixed] by blast
  have "interval_op.results m F ?xs = {wrapped m (F [x, y]) |x y. x \<in> pts n1 ps \<and> y \<in> pts n2 qs}"
    unfolding interval_op.results_def[OF op] by (auto simp: list_all2_Cons2)
  then show ?thesis using t ps by (simp add: exact_binary_def set_points_nset)
qed

context binary_op
begin

lemma PerformBinOp_exact:
  assumes "bignum bn bv" "norm_set n1 a" "norm_set n2 b" "\<not> (size_preserving b1 \<and> size_preserving b2)" "few_pairs a b"
  shows "exact_binary (PerformBinOp bn calc2 a b1 b b2 m) m (\<lambda>x y. wrapped m (G x y)) a b"
  using exact_pairs[OF interval_op_axioms assms(1-3)] assms(4,5) by (simp add: PerformBinOp_def)

end

context bignum
begin

lemma UMul_exact:
  assumes "norm_set n a" "norm_set k b" "few_pairs a b"
  shows "exact_binary (iops_UMul bn a b m) m (\<lambda>x y. (x * y) mod 2 ^ m) a b"
  using umul_op.PerformBinOp_exact[OF bignum_axioms assms(1,2) _ assms(3), of m]
  by (simp add: iops_UMul_def wrapped_prod behaviors)

lemma Shll_exact:
  assumes "norm_set n a" "norm_set k b" "n < 2 ^ 63 - 1" "few_pairs a b"
  shows "exact_binary (iops_Shll bn a b) n (\<lambda>x y. (x * 2 ^ y) mod 2 ^ n) a b"
  using binary_op.PerformBinOp_exact[OF shll_binary_op[OF assms(3), of k] bignum_axioms assms(1,2) _ assms(4)] wrapped_prod[of n x "2 ^ y" for x y]
  by (simp add: iops_Shll_def norm_set_BitCount[OF assms(1)] behaviors)

end

end
