(* ===== verification/Interval_Div_Rules.thy ===== *)
theory Interval_Div_Rules
  imports Interval_Arith_Rules
begin

text \<open>
  Soundness of the operations built from others: division and remainder, the signed operations, which
  split their operands by sign, truncation and slices.
\<close>

section \<open>Queries and bounds\<close>

lemma Covers_norm_set:
  assumes "norm_set n s" "p < 2 ^ n"
  shows "IntervalSet_Covers s (mkBitmap n p) = Some (p \<in> set_points s)"
proof -
  obtain ps where "s = nset n ps" "norm n ps" using assms(1) by (rule norm_setE)
  then show ?thesis using Covers_ivs[OF norm_in_range assms(2)] by (simp add: set_points_nset)
qed

lemma CoversZero_norm_set: "norm_set n s \<Longrightarrow> IntervalSet_CoversZero s = Some (0 \<in> set_points s)"
  by (simp add: IntervalSet_CoversZero_def norm_set_BitCount UBits_0 Covers_norm_set)

lemma IsEmpty_norm_set: "norm_set n s \<Longrightarrow> IntervalSet_IsEmpty s \<longleftrightarrow> set_points s = {}"
  using set_ok_nonempty[OF norm_set_ok] by (simp add: IntervalSet_IsEmpty_def)

lemma bounds_norm_set:
  assumes "norm_set n s" "set_points s \<noteq> {}"
  shows "\<exists>l u. IntervalSet_LowerBound s = Some (Some (mkBitmap n l)) \<and> IntervalSet_UpperBound s = Some (Some (mkBitmap n u)) \<and>
    IntervalSet_ConvexHull s = Some (Some (ivl n l u)) \<and> l \<in> set_points s \<and> u \<in> set_points s \<and> set_points s \<subseteq> {l..u}"
proof -
  obtain ps where ps: "s = nset n ps" "norm n ps" using assms(1) by (rule norm_setE)
  then have ne: "ps \<noteq> []" using assms(2) by (auto simp: set_points_nset)
  then obtain l u where hd: "hd ps = (l, u)" "(l, u) \<in> set ps" by (metis hd_in_set prod.exhaust)
  obtain l' u' where last: "last ps = (l', u')" "(l', u') \<in> set ps" using ne by (metis last_in_set prod.exhaust)
  have "l \<in> pts n ps" "u' \<in> pts n ps" using norm_mem[OF ps(2)] hd(2) last(2) by auto
  moreover have "pts n ps \<subseteq> {l..u'}" using hull_points[OF ps(2) ne] hd last by simp
  ultimately show ?thesis using bounds_nset[OF ne, of n] hd last ps by (auto simp: set_points_nset)
qed

lemma add_point:
  assumes "set_ok n r" "v < 2 ^ n"
  shows "\<exists>t. AddInterval r (ivl n v v) = Some t \<and> set_ok n t \<and> set_points t = insert v (set_points r)"
  using AddInterval_ivl[OF assms(1,2,2)] by (auto simp: wrap_points_def)

lemma precise_interval: "Interval_Precise (mkBitmap n v) = Some (ivl n v v)"
  by (simp add: Interval_Precise_def mkInterval_mk)

lemma closed_interval: "Interval_Closed (mkBitmap n l) (mkBitmap n u) = Some (ivl n l u)"
  by (simp add: Interval_Closed_def mkInterval_mk)

lemma Of_single: "l < 2 ^ n \<Longrightarrow> u < 2 ^ n \<Longrightarrow> \<exists>t. IntervalSet_Of [ivl n l u] = Some t \<and> norm_set n t \<and> set_points t = wrap_points n l u"
  using Of_ok[of "[ivl n l u]" n] by (simp add: points_ivl)

section \<open>Division and remainder\<close>

lemma wrapped_div_value:
  "x < 2 ^ n \<Longrightarrow> wrapped n (div_value n x y) = (if y = 0 then 2 ^ n - 1 else x div y)"
proof -
  assume x: "x < 2 ^ n"
  have "x div y < 2 ^ n" using x by (metis div_le_dividend order_le_less_trans)
  moreover have "(2::int) ^ n - 1 = int (2 ^ n - 1)" by (simp add: of_nat_diff)
  ultimately show ?thesis using wrapped_small[of "x div y" n] wrapped_small[of "2 ^ n - 1" n] by (simp add: div_value_def)
qed

context bignum
begin

lemma udiv_op_sound:
  assumes "norm_set n a" "norm_set k b"
  shows "sound_binary (udiv_op bn a b n) n (\<lambda>x y. if y = 0 then 2 ^ n - 1 else x div y) a b"
  using udiv_op.PerformBinOp_ok[OF bignum_axioms assms] wrapped_div_value norm_set_less[OF assms(1)]
  by (auto simp: Interval_Arith.udiv_op_def elim!: sound_binary_cong)

lemma UDiv_sound:
  assumes "norm_set n a" "norm_set k b" "0 < k"
  shows "sound_binary (iops_UDiv bn a b) n (\<lambda>x y. if y = 0 then 2 ^ n - 1 else x div y) a b"
proof (cases "0 \<in> set_points b")
  case False
  then show ?thesis using udiv_op_sound[OF assms(1,2)]
    by (simp add: iops_UDiv_def norm_set_BitCount[OF assms(1)] CoversZero_norm_set[OF assms(2)])
next
  case True
  obtain nz where nz: "IntervalSet_NonZero (int k) = Some nz" "norm_set k nz" "set_points nz = {0<..<2 ^ k}"
    using NonZero_ok[OF assms(3)] by blast
  obtain d where d: "IntervalSet_Intersect b nz = Some d" "norm_set k d" "set_points d = {y\<in>set_points b. 0 < y}"
    using iset.inter_ok[OF assms(2) nz(2)] nz(3) norm_set_less[OF assms(2)] by (auto simp: set_eq_iff)
  obtain r where r: "(if IntervalSet_IsEmpty d then Some (IntervalSet_of_width (int n)) else udiv_op bn a d n) = Some r" "norm_set n r"
      "\<And>x y. x \<in> set_points a \<Longrightarrow> y \<in> set_points b \<Longrightarrow> 0 < y \<Longrightarrow> x div y \<in> set_points r"
  proof (cases "set_points d = {}")
    case True
    then show ?thesis using that[of "IntervalSet_of_width (int n)"] d(3) IsEmpty_norm_set[OF d(2)] by auto
  next
    case False
    obtain t where t: "udiv_op bn a d n = Some t" "norm_set n t"
        "\<And>x y. x \<in> set_points a \<Longrightarrow> y \<in> set_points d \<Longrightarrow> (if y = 0 then 2 ^ n - 1 else x div y) \<in> set_points t"
      using udiv_op_sound[OF assms(1) d(2)] by (elim sound_binaryE) blast
    have "x div y \<in> set_points t" if "x \<in> set_points a" "y \<in> set_points b" "0 < y" for x y using t(3)[of x y] d(3) that by simp
    then show ?thesis using that[of t] t(1,2) False IsEmpty_norm_set[OF d(2)] by simp
  qed
  obtain s where s: "AddInterval r (ivl n (2 ^ n - 1) (2 ^ n - 1)) = Some s" "set_ok n s" "set_points s = insert (2 ^ n - 1) (set_points r)"
    using add_point[OF norm_set_ok[OF r(2)], of "2 ^ n - 1"] by auto
  obtain t where "Normalize s = Some t" "norm_set n t" "set_points t = set_points s" using Normalize_ok[OF s(2)] by blast
  then show ?thesis using True nz(1) d(1) r s
    by (auto simp: sound_binary_def iops_UDiv_def norm_set_BitCount[OF assms(1)] norm_set_BitCount[OF assms(2)]
        CoversZero_norm_set[OF assms(2)] AllOnes_mk mask_nat precise_interval)
qed

lemma UMod_sound:
  assumes "norm_set n a" "norm_set n b"
  shows "sound_binary (iops_UMod a b) n (\<lambda>x y. if y = 0 then 0 else x mod y) a b"
proof (cases "set_points a = {} \<or> set_points b = {}")
  case True
  then show ?thesis using wf_of_width[of n]
    by (auto simp: sound_binary_def iops_UMod_def norm_set_BitCount[OF assms(1)] norm_set_BitCount[OF assms(2)] CHECK_def
        IsEmpty_norm_set[OF assms(1)] IsEmpty_norm_set[OF assms(2)])
next
  case False
  obtain ua where ua: "IntervalSet_UpperBound a = Some (Some (mkBitmap n ua))" "\<And>x. x \<in> set_points a \<Longrightarrow> x \<le> ua" "ua < 2 ^ n"
    using bounds_norm_set[OF assms(1)] False norm_set_less[OF assms(1)] by (metis atLeastAtMost_iff subsetD)
  obtain ub where ub: "IntervalSet_UpperBound b = Some (Some (mkBitmap n ub))" "\<And>x. x \<in> set_points b \<Longrightarrow> x \<le> ub" "ub < 2 ^ n"
    using bounds_norm_set[OF assms(2)] False norm_set_less[OF assms(2)] by (metis atLeastAtMost_iff subsetD)
  let ?u = "if ub = 0 then 0 else min ua (ub - 1)"
  have lt: "?u < 2 ^ n" using ua(3) by auto
  obtain t where t: "IntervalSet_Of [ivl n 0 ?u] = Some t" "norm_set n t" "set_points t = wrap_points n 0 ?u" using Of_single[OF _ lt, of 0] by auto
  have pred: "ub \<noteq> 0 \<Longrightarrow> Decrement (mkBitmap n ub) = Some (mkBitmap n (ub - 1))" using bits_of_int_pred[of ub n] by (simp add: Decrement_mk)
  have "iops_UMod a b = Some t"
    using False ua(1,3) ub(1,3) t(1) pred
    by (auto simp: iops_UMod_def norm_set_BitCount[OF assms(1)] norm_set_BitCount[OF assms(2)] CHECK_def IsEmpty_norm_set[OF assms(1)]
        IsEmpty_norm_set[OF assms(2)] IsZero_mk take_bit_nat_eq_self Bits_mk precise_interval closed_interval UMin_UMax_mk split: if_splits)
  moreover have "(if y = 0 then 0 else x mod y) \<in> wrap_points n 0 ?u" if "x \<in> set_points a" "y \<in> set_points b" for x y
  proof -
    have "x mod y \<le> x" "y \<noteq> 0 \<Longrightarrow> x mod y < y" by simp_all
    then have "y \<noteq> 0 \<Longrightarrow> x mod y \<le> ua \<and> x mod y \<le> ub - 1 \<and> ub \<noteq> 0" using ua(2)[OF that(1)] ub(2)[OF that(2)] by linarith
    then show ?thesis by (auto simp: wrap_points_def)
  qed
  ultimately show ?thesis using t by (auto simp: sound_binary_def)
qed

lemma sv_nonneg: "x < 2 ^ (n - 1) \<Longrightarrow> sv n x = int x" for x :: nat
proof -
  assume x: "x < 2 ^ (n - 1)"
  then have "x < 2 ^ n" by (meson diff_le_self order_less_le_trans power_increasing one_le_numeral)
  then show ?thesis using x sign_bit_iff[of n x] by (auto simp: sv_cases take_bit_nat_eq_self)
qed

lemma sv_negative: "0 < n \<Longrightarrow> 2 ^ (n - 1) \<le> x \<Longrightarrow> x < 2 ^ n \<Longrightarrow> sv n x = - int (2 ^ n - x)" for x :: nat
  using sign_bit_iff[of n x] by (simp add: sv_cases take_bit_nat_eq_self of_nat_diff)

lemma signed_parts:
  assumes "norm_set n a" "0 < n"
  shows "\<exists>pos neg. PositiveIntervals a False = Some pos \<and> NegativeAbsoluteIntervals bn a = Some neg \<and> norm_set n pos \<and> norm_set n neg \<and>
    (\<forall>x\<in>set_points a. x = 0 \<or> (\<exists>v\<in>set_points pos. 0 < v \<and> sv n x = int v) \<or> (\<exists>v\<in>set_points neg. 0 < v \<and> sv n x = - int v))"
proof -
  obtain pos where pos: "PositiveIntervals a False = Some pos" "norm_set n pos" "set_points pos = {x\<in>set_points a. x < 2 ^ (n - 1) \<and> 0 < x}"
    using PositiveIntervals_ok[OF assms(1), of False] assms(2) by auto
  obtain neg where neg: "NegativeAbsoluteIntervals bn a = Some neg" "norm_set n neg" "set_points neg = (\<lambda>x. 2 ^ n - x) ` {x\<in>set_points a. 2 ^ (n - 1) \<le> x}"
    using NegativeAbsoluteIntervals_ok[OF assms] by auto
  have "x = 0 \<or> (\<exists>v\<in>set_points pos. 0 < v \<and> sv n x = int v) \<or> (\<exists>v\<in>set_points neg. 0 < v \<and> sv n x = - int v)" if x: "x \<in> set_points a" for x
  proof (cases "x < 2 ^ (n - 1)")
    case True
    then show ?thesis using x pos(3) sv_nonneg by auto
  next
    case False
    have "2 ^ n - x \<in> set_points neg" "0 < 2 ^ n - x" "sv n x = - int (2 ^ n - x)"
      using x neg(3) False sv_negative[OF assms(2), of x] norm_set_less[OF assms(1) x] by auto
    then show ?thesis by blast
  qed
  then show ?thesis using pos neg by blast
qed

lemma wrapped_neg: "wrapped m (- int (wrapped m k)) = wrapped m (- k)"
  by (rule wrapped_cong) (simp add: wrapped_def mod_minus_eq)

lemma SMul_sound:
  assumes a: "norm_set n a" "0 < n" and b: "norm_set k b" "0 < k"
  shows "sound_binary (iops_SMul bn a b m) m (\<lambda>x y. wrapped m (sv n x * sv k y)) a b"
proof -
  obtain pa na where A: "PositiveIntervals a False = Some pa" "NegativeAbsoluteIntervals bn a = Some na" "norm_set n pa" "norm_set n na"
      "\<forall>x\<in>set_points a. x = 0 \<or> (\<exists>v\<in>set_points pa. 0 < v \<and> sv n x = int v) \<or> (\<exists>v\<in>set_points na. 0 < v \<and> sv n x = - int v)"
    using signed_parts[OF a] by blast
  obtain pb nb where B: "PositiveIntervals b False = Some pb" "NegativeAbsoluteIntervals bn b = Some nb" "norm_set k pb" "norm_set k nb"
      "\<forall>x\<in>set_points b. x = 0 \<or> (\<exists>v\<in>set_points pb. 0 < v \<and> sv k x = int v) \<or> (\<exists>v\<in>set_points nb. 0 < v \<and> sv k x = - int v)"
    using signed_parts[OF b] by blast
  obtain pp where pp: "iops_UMul bn pa pb m = Some pp" "norm_set m pp" "\<And>x y. x \<in> set_points pa \<Longrightarrow> y \<in> set_points pb \<Longrightarrow> x * y mod 2 ^ m \<in> set_points pp"
    using UMul_sound[OF A(3) B(3), of m] by (elim sound_binaryE) blast
  obtain nn where nn: "iops_UMul bn na nb m = Some nn" "norm_set m nn" "\<And>x y. x \<in> set_points na \<Longrightarrow> y \<in> set_points nb \<Longrightarrow> x * y mod 2 ^ m \<in> set_points nn"
    using UMul_sound[OF A(4) B(4), of m] by (elim sound_binaryE) blast
  obtain pn where pn: "iops_UMul bn pa nb m = Some pn" "norm_set m pn" "\<And>x y. x \<in> set_points pa \<Longrightarrow> y \<in> set_points nb \<Longrightarrow> x * y mod 2 ^ m \<in> set_points pn"
    using UMul_sound[OF A(3) B(4), of m] by (elim sound_binaryE) blast
  obtain np where np: "iops_UMul bn na pb m = Some np" "norm_set m np" "\<And>x y. x \<in> set_points na \<Longrightarrow> y \<in> set_points pb \<Longrightarrow> x * y mod 2 ^ m \<in> set_points np"
    using UMul_sound[OF A(4) B(3), of m] by (elim sound_binaryE) blast
  obtain p1 where p1: "Combine pp nn = Some p1" "norm_set m p1" "set_points p1 = set_points pp \<union> set_points nn"
    using Combine_ok[OF norm_set_ok[OF pp(2)] norm_set_ok[OF nn(2)]] by blast
  obtain z where z: "IntervalSet_Of [ivl m 0 0] = Some z" "norm_set m z" "set_points z = {0}" using Of_single[of 0 m 0] by (auto simp: wrap_points_def)
  obtain p2 where p2: "(if 0 \<in> set_points a \<or> 0 \<in> set_points b then Combine p1 z else Some p1) = Some p2" "norm_set m p2"
      "set_points p1 \<subseteq> set_points p2" "0 \<in> set_points a \<or> 0 \<in> set_points b \<Longrightarrow> 0 \<in> set_points p2"
    using Combine_ok[OF norm_set_ok[OF p1(2)] norm_set_ok[OF z(2)]] p1(2) z(3) by (cases "0 \<in> set_points a \<or> 0 \<in> set_points b") auto
  obtain s where s: "Combine pn np = Some s" "norm_set m s" "set_points s = set_points pn \<union> set_points np"
    using Combine_ok[OF norm_set_ok[OF pn(2)] norm_set_ok[OF np(2)]] by blast
  obtain ng where ng: "iops_Neg bn s = Some ng" "norm_set m ng" "\<And>x. x \<in> set_points s \<Longrightarrow> wrapped m (- int x) \<in> set_points ng"
    using Neg_sound[OF s(2)] by (elim sound_unaryE) blast
  obtain t where t: "Combine p2 ng = Some t" "norm_set m t" "set_points t = set_points p2 \<union> set_points ng"
    using Combine_ok[OF norm_set_ok[OF p2(2)] norm_set_ok[OF ng(2)]] by blast
  have run: "iops_SMul bn a b m = Some t"
    using A(1,2) B(1,2) pp(1) nn(1) pn(1) np(1) p1(1) z(1) p2(1) s(1) ng(1) t(1)
    by (auto simp: iops_SMul_def CoversZero_norm_set[OF a(1)] CoversZero_norm_set[OF b(1)] UBits_0 precise_interval split: if_splits)
  have neg: "wrapped m (- (int v * int w)) \<in> set_points ng" if "v * w mod 2 ^ m \<in> set_points s" for v w
    using ng(3)[OF that] wrapped_neg[of m "int v * int w"] by (simp only: wrapped_prod)
  have "wrapped m (sv n x * sv k y) \<in> set_points t" if xy: "x \<in> set_points a" "y \<in> set_points b" for x y
  proof (cases "x = 0 \<or> y = 0")
    case True
    then have "0 \<in> set_points a \<or> 0 \<in> set_points b" and z: "sv n x * sv k y = 0" using xy sv_nonneg[of 0] by auto
    then show ?thesis using p2(4) t(3) unfolding z by (simp add: wrapped_def)
  next
    case False
    then have x: "(\<exists>v\<in>set_points pa. 0 < v \<and> sv n x = int v) \<or> (\<exists>v\<in>set_points na. 0 < v \<and> sv n x = - int v)"
      and y: "(\<exists>w\<in>set_points pb. 0 < w \<and> sv k y = int w) \<or> (\<exists>w\<in>set_points nb. 0 < w \<and> sv k y = - int w)"
      using bspec[OF A(5) xy(1)] bspec[OF B(5) xy(2)] by blast+
    from x y show ?thesis
    proof (elim disjE bexE conjE)
      fix v w assume "v \<in> set_points pa" "sv n x = int v" "w \<in> set_points pb" "sv k y = int w"
      then show ?thesis using pp(3)[of v w] p1(3) p2(3) t(3) by (auto simp: wrapped_prod)
    next
      fix v w assume "v \<in> set_points pa" "sv n x = int v" "w \<in> set_points nb" "sv k y = - int w"
      then show ?thesis using pn(3)[of v w] s(3) neg[of v w] t(3) by simp
    next
      fix v w assume "v \<in> set_points na" "sv n x = - int v" "w \<in> set_points pb" "sv k y = int w"
      then show ?thesis using np(3)[of v w] s(3) neg[of v w] t(3) by simp
    next
      fix v w assume "v \<in> set_points na" "sv n x = - int v" "w \<in> set_points nb" "sv k y = - int w"
      then show ?thesis using nn(3)[of v w] p1(3) p2(3) t(3) by (auto simp: wrapped_prod)
    qed
  qed
  then show ?thesis using run t(2) by (auto simp: sound_binary_def)
qed

lemma sdiv_signs:
  "int v sdiv int w = int (v div w)" "- int v sdiv - int w = int (v div w)"
  "int v sdiv - int w = - int (v div w)" "- int v sdiv int w = - int (v div w)" if "0 < v" "0 < w"
  using that by (simp_all add: signed_divide_int_def zdiv_int)

text \<open>The value of a signed division: by zero it is the largest or the smallest value.\<close>

definition sdiv_value :: "nat \<Rightarrow> nat \<Rightarrow> nat \<Rightarrow> nat \<Rightarrow> nat" where
  "sdiv_value n k x y = (if y = 0 then if sv n x < 0 then 2 ^ (n - 1) else 2 ^ (n - 1) - 1 else wrapped n (sv n x sdiv sv k y))"

lemma quotients_signed:
  assumes a: "norm_set n a" "0 < n" and b: "norm_set k b" "0 < k"
  shows "\<exists>pa pb na nb pp nn p pn np s ng r. PositiveIntervals a False = Some pa \<and> PositiveIntervals b False = Some pb \<and>
    NegativeAbsoluteIntervals bn a = Some na \<and> NegativeAbsoluteIntervals bn b = Some nb \<and> iops_UDiv bn pa pb = Some pp \<and>
    iops_UDiv bn na nb = Some nn \<and> Combine pp nn = Some p \<and> iops_UDiv bn pa nb = Some pn \<and> iops_UDiv bn na pb = Some np \<and>
    Combine pn np = Some s \<and> iops_Neg bn s = Some ng \<and> Combine p ng = Some r \<and> norm_set n r \<and>
    (\<forall>x\<in>set_points a. \<forall>y\<in>set_points b. x \<noteq> 0 \<longrightarrow> y \<noteq> 0 \<longrightarrow> wrapped n (sv n x sdiv sv k y) \<in> set_points r)"
proof -
  obtain pa na where A: "PositiveIntervals a False = Some pa" "NegativeAbsoluteIntervals bn a = Some na" "norm_set n pa" "norm_set n na"
      "\<forall>x\<in>set_points a. x = 0 \<or> (\<exists>v\<in>set_points pa. 0 < v \<and> sv n x = int v) \<or> (\<exists>v\<in>set_points na. 0 < v \<and> sv n x = - int v)"
    using signed_parts[OF a] by blast
  obtain pb nb where B: "PositiveIntervals b False = Some pb" "NegativeAbsoluteIntervals bn b = Some nb" "norm_set k pb" "norm_set k nb"
      "\<forall>x\<in>set_points b. x = 0 \<or> (\<exists>v\<in>set_points pb. 0 < v \<and> sv k x = int v) \<or> (\<exists>v\<in>set_points nb. 0 < v \<and> sv k x = - int v)"
    using signed_parts[OF b] by blast
  let ?q = "\<lambda>x y. if y = 0 then 2 ^ n - 1 else x div y"
  obtain pp where pp: "iops_UDiv bn pa pb = Some pp" "norm_set n pp" "\<And>x y. x \<in> set_points pa \<Longrightarrow> y \<in> set_points pb \<Longrightarrow> ?q x y \<in> set_points pp"
    using UDiv_sound[OF A(3) B(3) b(2)] by (elim sound_binaryE) blast
  obtain nn where nn: "iops_UDiv bn na nb = Some nn" "norm_set n nn" "\<And>x y. x \<in> set_points na \<Longrightarrow> y \<in> set_points nb \<Longrightarrow> ?q x y \<in> set_points nn"
    using UDiv_sound[OF A(4) B(4) b(2)] by (elim sound_binaryE) blast
  obtain pn where pn: "iops_UDiv bn pa nb = Some pn" "norm_set n pn" "\<And>x y. x \<in> set_points pa \<Longrightarrow> y \<in> set_points nb \<Longrightarrow> ?q x y \<in> set_points pn"
    using UDiv_sound[OF A(3) B(4) b(2)] by (elim sound_binaryE) blast
  obtain np where np: "iops_UDiv bn na pb = Some np" "norm_set n np" "\<And>x y. x \<in> set_points na \<Longrightarrow> y \<in> set_points pb \<Longrightarrow> ?q x y \<in> set_points np"
    using UDiv_sound[OF A(4) B(3) b(2)] by (elim sound_binaryE) blast
  obtain p where p: "Combine pp nn = Some p" "norm_set n p" "set_points p = set_points pp \<union> set_points nn"
    using Combine_ok[OF norm_set_ok[OF pp(2)] norm_set_ok[OF nn(2)]] by blast
  obtain s where s: "Combine pn np = Some s" "norm_set n s" "set_points s = set_points pn \<union> set_points np"
    using Combine_ok[OF norm_set_ok[OF pn(2)] norm_set_ok[OF np(2)]] by blast
  obtain ng where ng: "iops_Neg bn s = Some ng" "norm_set n ng" "\<And>x. x \<in> set_points s \<Longrightarrow> wrapped n (- int x) \<in> set_points ng"
    using Neg_sound[OF s(2)] by (elim sound_unaryE) blast
  obtain r where r: "Combine p ng = Some r" "norm_set n r" "set_points r = set_points p \<union> set_points ng"
    using Combine_ok[OF norm_set_ok[OF p(2)] norm_set_ok[OF ng(2)]] by blast
  have "wrapped n (sv n x sdiv sv k y) \<in> set_points r" if xy: "x \<in> set_points a" "y \<in> set_points b" "x \<noteq> 0" "y \<noteq> 0" for x y
  proof -
    have x: "(\<exists>v\<in>set_points pa. 0 < v \<and> sv n x = int v) \<or> (\<exists>v\<in>set_points na. 0 < v \<and> sv n x = - int v)" using bspec[OF A(5) xy(1)] xy(3) by blast
    have y: "(\<exists>w\<in>set_points pb. 0 < w \<and> sv k y = int w) \<or> (\<exists>w\<in>set_points nb. 0 < w \<and> sv k y = - int w)" using bspec[OF B(5) xy(2)] xy(4) by blast
    have pos: "wrapped n (int (v div w)) \<in> set_points r" if "v div w \<in> set_points p" for v w
      using that wrapped_small[OF norm_set_less[OF p(2) that]] r(3) by simp
    have neg: "wrapped n (- int (v div w)) \<in> set_points r" if "v div w \<in> set_points s" for v w using ng(3)[OF that] r(3) by simp
    from x y show ?thesis
    proof (elim disjE bexE conjE)
      fix v w assume "v \<in> set_points pa" "0 < v" "sv n x = int v" "w \<in> set_points pb" "0 < w" "sv k y = int w"
      then show ?thesis using pp(3)[of v w] p(3) pos[of v w] sdiv_signs[of v w] by auto
    next
      fix v w assume "v \<in> set_points pa" "0 < v" "sv n x = int v" "w \<in> set_points nb" "0 < w" "sv k y = - int w"
      then show ?thesis using pn(3)[of v w] s(3) neg[of v w] sdiv_signs[of v w] by auto
    next
      fix v w assume "v \<in> set_points na" "0 < v" "sv n x = - int v" "w \<in> set_points pb" "0 < w" "sv k y = int w"
      then show ?thesis using np(3)[of v w] s(3) neg[of v w] sdiv_signs[of v w] by auto
    next
      fix v w assume "v \<in> set_points na" "0 < v" "sv n x = - int v" "w \<in> set_points nb" "0 < w" "sv k y = - int w"
      then show ?thesis using nn(3)[of v w] p(3) pos[of v w] sdiv_signs[of v w] by auto
    qed
  qed
  then show ?thesis using A(1,2) B(1,2) pp(1) nn(1) pn(1) np(1) p(1) s(1) ng(1) r(1,2) by (intro exI conjI) auto
qed

lemma add_point_if:
  assumes "set_ok n r" "v < 2 ^ n"
  shows "\<exists>t. (if c then AddInterval r (ivl n v v) else Some r) = Some t \<and> set_ok n t \<and> set_points r \<subseteq> set_points t \<and> (c \<longrightarrow> v \<in> set_points t)"
  using add_point[OF assms] assms(1) by (cases c) auto

lemma bound_msb_norm_set:
  assumes "norm_set n a" "0 < n"
  shows "\<exists>lb ub lneg uneg. IntervalSet_LowerBound a = Some lb \<and> IntervalSet_UpperBound a = Some ub \<and> bound_msb lb False = Some lneg \<and>
    bound_msb ub True = Some uneg \<and> (\<forall>x\<in>set_points a. (0 \<le> sv n x \<longrightarrow> \<not> lneg) \<and> (sv n x < 0 \<longrightarrow> uneg))"
proof (cases "set_points a = {}")
  case True
  obtain ps where ps: "a = nset n ps" "norm n ps" using assms(1) by (rule norm_setE)
  then have "ps = []" using True set_ok_nonempty[OF norm_set_ok[OF assms(1)]] by simp
  then show ?thesis using ps True by (auto simp: bound_msb_def IntervalSet_LowerBound_def IntervalSet_UpperBound_def CHECK_def)
next
  case False
  obtain l u where lu: "IntervalSet_LowerBound a = Some (Some (mkBitmap n l))" "IntervalSet_UpperBound a = Some (Some (mkBitmap n u))"
      "l \<in> set_points a" "u \<in> set_points a" "set_points a \<subseteq> {l..u}"
    using bounds_norm_set[OF assms(1) False] by blast
  have sgn: "bit x (n - 1) \<longleftrightarrow> 2 ^ (n - 1) \<le> x" if "x \<in> set_points a" for x
    using sign_bit_iff[OF assms(2) norm_set_less[OF assms(1) that]] .
  have "(0 \<le> sv n x \<longrightarrow> \<not> bit l (n - 1)) \<and> (sv n x < 0 \<longrightarrow> bit u (n - 1))" if "x \<in> set_points a" for x
  proof -
    have "l \<le> x" "x \<le> u" using lu(5) that by auto
    moreover have "sv n x < 0 \<longleftrightarrow> 2 ^ (n - 1) \<le> x" using sv_neg_iff[of n x] sgn[OF that] assms(2) by simp
    ultimately show ?thesis unfolding sgn[OF lu(3)] sgn[OF lu(4)] by linarith
  qed
  then show ?thesis using lu(1,2) assms(2) by (auto simp: bound_msb_def msb_mk)
qed

lemma SDiv_sound:
  assumes a: "norm_set n a" "0 < n" and b: "norm_set k b" "0 < k"
  shows "sound_binary (iops_SDiv bn a b) n (sdiv_value n k) a b"
proof -
  obtain pa pb na nb pp nn p pn np s ng r where Q: "PositiveIntervals a False = Some pa" "PositiveIntervals b False = Some pb"
      "NegativeAbsoluteIntervals bn a = Some na" "NegativeAbsoluteIntervals bn b = Some nb" "iops_UDiv bn pa pb = Some pp"
      "iops_UDiv bn na nb = Some nn" "Combine pp nn = Some p" "iops_UDiv bn pa nb = Some pn" "iops_UDiv bn na pb = Some np"
      "Combine pn np = Some s" "iops_Neg bn s = Some ng" "Combine p ng = Some r" and r: "norm_set n r"
      "\<forall>x\<in>set_points a. \<forall>y\<in>set_points b. x \<noteq> 0 \<longrightarrow> y \<noteq> 0 \<longrightarrow> wrapped n (sv n x sdiv sv k y) \<in> set_points r"
    using quotients_signed[OF a b] by (elim exE conjE) (rule that; assumption)
  obtain lb ub lneg uneg where B: "IntervalSet_LowerBound a = Some lb" "IntervalSet_UpperBound a = Some ub" "bound_msb lb False = Some lneg"
      "bound_msb ub True = Some uneg" "\<forall>x\<in>set_points a. (0 \<le> sv n x \<longrightarrow> \<not> lneg) \<and> (sv n x < 0 \<longrightarrow> uneg)"
    using bound_msb_norm_set[OF a] by blast
  let ?hi = "2 ^ (n - 1) - 1" and ?lo = "2 ^ (n - 1)"
  have lt: "?lo < (2::nat) ^ n" "?hi < (2::nat) ^ n" using a(2) by (simp_all add: less_imp_diff_less)
  obtain r1 where r1: "(if 0 \<in> set_points a then AddInterval r (ivl n 0 0) else Some r) = Some r1" "set_ok n r1" "set_points r \<subseteq> set_points r1"
      "0 \<in> set_points a \<Longrightarrow> 0 \<in> set_points r1"
    using add_point_if[OF norm_set_ok[OF r(1)], of 0 "0 \<in> set_points a"] by auto
  obtain r2 where r2: "(if \<not> lneg then AddInterval r1 (ivl n ?hi ?hi) else Some r1) = Some r2" "set_ok n r2" "set_points r1 \<subseteq> set_points r2"
      "\<not> lneg \<Longrightarrow> ?hi \<in> set_points r2"
    using add_point_if[OF r1(2) lt(2), of "\<not> lneg"] by auto
  obtain r3 where r3: "(if uneg then AddInterval r2 (ivl n ?lo ?lo) else Some r2) = Some r3" "set_ok n r3" "set_points r2 \<subseteq> set_points r3"
      "uneg \<Longrightarrow> ?lo \<in> set_points r3"
    using add_point_if[OF r2(2) lt(1), of uneg] by auto
  let ?r = "if 0 \<in> set_points b then r3 else r1"
  have "set_ok n ?r" using r1(2) r3(2) by simp
  then obtain t where t: "Normalize ?r = Some t" "norm_set n t" "set_points t = set_points ?r" using Normalize_ok by blast
  have e1: "(if 0 \<in> set_points a then do { z \<leftarrow> UBits 0 n; i \<leftarrow> Interval_Precise z; AddInterval r i } else Some r) = Some r1"
    using r1(1) by (simp only: UBits_0 precise_interval Option.bind.simps)
  have e2: "(if \<not> lneg then do { m \<leftarrow> MaxSigned n; i \<leftarrow> Interval_Precise m; AddInterval r1 i } else Some r1) = Some r2"
    using r2(1) by (simp only: MaxSigned_mk mask_nat precise_interval Option.bind.simps)
  have e3: "(if uneg then do { m \<leftarrow> MinSigned n; i \<leftarrow> Interval_Precise m; AddInterval r2 i } else Some r2) = Some r3"
    using r3(1) by (simp only: MinSigned_mk[OF a(2)] precise_interval Option.bind.simps)
  have run: "iops_SDiv bn a b = Some t"
    unfolding iops_SDiv_def using t(1)
    by (cases "0 \<in> set_points b")
      (simp_all only: Q B(1-4) e1 e2 e3 norm_set_BitCount[OF a(1)] CoversZero_norm_set[OF a(1)] CoversZero_norm_set[OF b(1)]
        Option.bind.simps if_True if_False)
  have sub: "set_points r \<subseteq> set_points t" using order_trans[OF r1(3) order_trans[OF r2(3) r3(3)]] r1(3) t(3) by simp
  have "sdiv_value n k x y \<in> set_points t" if xy: "x \<in> set_points a" "y \<in> set_points b" for x y
  proof -
    consider (zero) "y = 0" | (zx) "y \<noteq> 0" "x = 0" | (both) "y \<noteq> 0" "x \<noteq> 0" by blast
    then show ?thesis
    proof cases
      case zero
      then show ?thesis using xy B(5) r2(3,4) r3(3,4) t(3) by (auto simp: sdiv_value_def)
    next
      case zx
      then have "sdiv_value n k x y = 0" by (simp add: sdiv_value_def sv_nonneg signed_divide_int_def wrapped_def)
      then show ?thesis using zx xy r1(4) r2(3) r3(3) t(3) by auto
    next
      case both
      then show ?thesis using xy r(2) sub by (auto simp: sdiv_value_def)
    qed
  qed
  then show ?thesis using run t(2) by (auto simp: sound_binary_def)
qed

text \<open>The largest absolute value of a set.\<close>

lemma abs_sv_between:
  assumes "l \<le> x" "x \<le> u" "u < 2 ^ n" "u < 2 ^ (n - 1) \<or> 2 ^ (n - 1) \<le> l" "0 < n"
  shows "\<bar>sv n x\<bar> \<le> max \<bar>sv n l\<bar> \<bar>sv n u\<bar>"
  using sv_mono[of l x n] sv_mono[of x u n] assms by (auto simp: max_def)

lemma abs_sv_bound: "0 < n \<Longrightarrow> \<bar>sv n x\<bar> \<le> 2 ^ (n - 1)"
  using fits_signed_abs[OF sv_fits] .

lemma Abs_nat: "0 < n \<Longrightarrow> Abs bn (mkBitmap n v) = Some (mkBitmap n (nat \<bar>sv n v\<bar>))"
  using bits_of_int_nat[of n "nat \<bar>sv n v\<bar>"] by (simp add: Abs_mk del: bits_of_int_nat)

lemma absolute_bound_fold:
  assumes "0 < n" "\<forall>(l, u)\<in>set ps. l \<le> u \<and> u < 2 ^ n \<and> (u < 2 ^ (n - 1) \<or> 2 ^ (n - 1) \<le> l)" "b \<le> 2 ^ (n - 1)"
  shows "\<exists>c. foldM (\<lambda>i bound. do {
         l \<leftarrow> Abs bn (lower_bound i);
         bound \<leftarrow> UMax bound l;
         u \<leftarrow> Abs bn (upper_bound i);
         UMax bound u }) (ivs n ps) (mkBitmap n b) = Some (mkBitmap n c) \<and> b \<le> c \<and> c \<le> 2 ^ (n - 1) \<and>
    (\<forall>(l, u)\<in>set ps. \<forall>x\<in>{l..u}. \<bar>sv n x\<bar> \<le> int c)"
  using assms(2,3)
proof (induction ps arbitrary: b)
  case (Cons p ps)
  obtain l u where p: "p = (l, u)" by fastforce
  let ?c = "max (max b (nat \<bar>sv n l\<bar>)) (nat \<bar>sv n u\<bar>)"
  have half: "2 ^ (n - 1) < (2::nat) ^ n" using assms(1) by simp
  have small: "nat \<bar>sv n v\<bar> \<le> 2 ^ (n - 1)" for v using abs_sv_bound[OF assms(1), of v] by (simp add: nat_le_iff)
  then have lt: "nat \<bar>sv n v\<bar> < 2 ^ n" "b < 2 ^ n" for v using half Cons.prems(2) order_le_less_trans by blast+
  then have step: "do { l' \<leftarrow> Abs bn (mkBitmap n l); bound \<leftarrow> UMax (mkBitmap n b) l'; u' \<leftarrow> Abs bn (mkBitmap n u); UMax bound u' } = Some (mkBitmap n ?c)"
    by (simp add: Abs_nat[OF assms(1)] UMin_UMax_mk take_bit_nat_eq_self max_def)
  have "?c \<le> 2 ^ (n - 1)" using small Cons.prems(2) by simp
  then obtain c where c: "foldM (\<lambda>i bound. do { l \<leftarrow> Abs bn (lower_bound i); bound \<leftarrow> UMax bound l; u \<leftarrow> Abs bn (upper_bound i); UMax bound u })
      (ivs n ps) (mkBitmap n ?c) = Some (mkBitmap n c)" "?c \<le> c" "c \<le> 2 ^ (n - 1)" "\<forall>(l, u)\<in>set ps. \<forall>x\<in>{l..u}. \<bar>sv n x\<bar> \<le> int c"
    using Cons.IH[of ?c] Cons.prems(1) by auto
  have ends: "\<bar>sv n l\<bar> \<le> int c" "\<bar>sv n u\<bar> \<le> int c" "b \<le> c" using c(2) by linarith+
  have "u < 2 ^ n" "u < 2 ^ (n - 1) \<or> 2 ^ (n - 1) \<le> l" using Cons.prems(1) p by auto
  then have "\<bar>sv n x\<bar> \<le> int c" if "l \<le> x" "x \<le> u" for x
    using abs_sv_between[OF that, of n] assms(1) ends(1,2) by (meson max.boundedI order_trans)
  then have all: "\<forall>(l, u)\<in>set (p # ps). \<forall>x\<in>{l..u}. \<bar>sv n x\<bar> \<le> int c" using c(4) p by simp
  have "foldM (\<lambda>i bound. do { l \<leftarrow> Abs bn (lower_bound i); bound \<leftarrow> UMax bound l; u \<leftarrow> Abs bn (upper_bound i); UMax bound u })
      (ivs n (p # ps)) (mkBitmap n b) = Some (mkBitmap n c)"
    using step c(1) p by simp
  then show ?case using all c(3) ends(3) by blast
qed auto

lemma absolute_bound_ok:
  assumes "norm_set n s" "0 < n"
  shows "\<exists>c. absolute_bound bn s n = Some (mkBitmap n c) \<and> c \<le> 2 ^ (n - 1) \<and> (\<forall>x\<in>set_points s. \<bar>sv n x\<bar> \<le> int c)"
proof -
  obtain ps where ps: "s = nset n ps" "norm n ps" using assms(1) by (rule norm_setE)
  let ?qs = "cut_signed (2 ^ (n - 1)) ps"
  have q: "(\<Union>(l, u)\<in>set ?qs. {l..u}) = pts n ps" "\<forall>(l, u)\<in>set ?qs. l \<le> u \<and> u < 2 ^ n \<and> (u < 2 ^ (n - 1) \<or> 2 ^ (n - 1) \<le> l)"
    using cut_signed_correct[OF ps(2), of "2 ^ (n - 1)"] by auto
  obtain c where c: "absolute_bound bn s n = Some (mkBitmap n c)" "c \<le> 2 ^ (n - 1)" "\<forall>(l, u)\<in>set ?qs. \<forall>x\<in>{l..u}. \<bar>sv n x\<bar> \<le> int c"
    using absolute_bound_fold[OF assms(2) q(2), of 0] ps by (auto simp: absolute_bound_def all_signed_nset[OF assms(2)] Bits_mk)
  have "\<bar>sv n x\<bar> \<le> int c" if x: "x \<in> pts n ps" for x
  proof -
    obtain l u where "(l, u) \<in> set ?qs" "x \<in> {l..u}" using x unfolding q(1)[symmetric] by auto
    then show ?thesis using c(3) by auto
  qed
  then show ?thesis using c(1,2) ps by (auto simp: set_points_nset)
qed

lemma smod_bound: "\<bar>k smod l\<bar> \<le> \<bar>k\<bar>" "l \<noteq> 0 \<Longrightarrow> \<bar>k smod l\<bar> < \<bar>l\<bar>" for k l :: int
proof -
  have "\<bar>k smod l\<bar> = \<bar>k\<bar> mod \<bar>l\<bar>" by (cases "k = 0"; cases "l = 0") (simp_all add: smod_int_alt_def abs_mult abs_sgn_eq)
  then show "\<bar>k smod l\<bar> \<le> \<bar>k\<bar>" "l \<noteq> 0 \<Longrightarrow> \<bar>k smod l\<bar> < \<bar>l\<bar>" by (simp_all add: zmod_le_nonneg_dividend)
qed

lemma SMod_sound:
  assumes a: "norm_set n a" and b: "norm_set n b" and n: "0 < n"
  shows "sound_binary (iops_SMod bn a b) n (\<lambda>x y. if y = 0 then 0 else wrapped n (sv n x smod sv n y)) a b"
proof (cases "set_points a = {} \<or> set_points b = {}")
  case True
  then show ?thesis using wf_of_width[of n]
    by (auto simp: sound_binary_def iops_SMod_def norm_set_BitCount[OF a] norm_set_BitCount[OF b] CHECK_def IsEmpty_norm_set[OF a] IsEmpty_norm_set[OF b])
next
  case False
  obtain ca where ca: "absolute_bound bn a n = Some (mkBitmap n ca)" "ca \<le> 2 ^ (n - 1)" "\<forall>x\<in>set_points a. \<bar>sv n x\<bar> \<le> int ca"
    using absolute_bound_ok[OF a n] by blast
  obtain cb where cb: "absolute_bound bn b n = Some (mkBitmap n cb)" "cb \<le> 2 ^ (n - 1)" "\<forall>x\<in>set_points b. \<bar>sv n x\<bar> \<le> int cb"
    using absolute_bound_ok[OF b n] by blast
  have e: "(2::nat) ^ n = 2 * 2 ^ (n - 1)" using half_exp[OF n] .
  then have lt: "ca < 2 ^ n" "cb < 2 ^ n" using ca(2) cb(2) by (simp_all add: order_le_less_trans)
  let ?c = "if cb = 0 then 0 else min ca (cb - 1)"
  have c2: "2 * ?c < 2 ^ n" "?c < 2 ^ n" using cb(2) e by auto
  obtain t where t: "IntervalSet_Of [ivl n (wrapped n (- int ?c)) ?c] = Some t" "norm_set n t"
      "set_points t = wrap_points n (wrapped n (- int ?c)) ?c"
    using Of_single[OF wrapped_less c2(2)] by blast
  have pred: "cb \<noteq> 0 \<Longrightarrow> Decrement (mkBitmap n cb) = Some (mkBitmap n (cb - 1))" using bits_of_int_pred[of cb n] by (simp add: Decrement_mk)
  have "wrapped n 0 = 0" by (simp add: wrapped_def)
  then have run: "iops_SMod bn a b = Some t"
    using False ca(1) cb(1) lt t(1) pred
    by (auto simp: iops_SMod_def norm_set_BitCount[OF a] norm_set_BitCount[OF b] CHECK_def IsEmpty_norm_set[OF a] IsEmpty_norm_set[OF b]
        IsZero_mk take_bit_nat_eq_self Bits_mk precise_interval closed_interval UMin_UMax_mk Negate_mk bits_of_int_wrapped split: if_splits)
  have "wrapped n k \<in> set_points t" if "\<bar>k\<bar> \<le> int ?c" for k
  proof -
    have "int ?c - - int ?c < 2 ^ n" using c2(1) int_less_exp[of "2 * ?c" n] by linarith
    moreover have "- int ?c \<le> k" "k \<le> int ?c" using that by linarith+
    ultimately show ?thesis using narrow_wrapped[of "- int ?c" k "int ?c" n] unfolding wrapped_small[OF c2(2)] t(3) by blast
  qed
  moreover have "\<bar>sv n x smod sv n y\<bar> \<le> int ?c" if xy: "x \<in> set_points a" "y \<in> set_points b" "y \<noteq> 0" for x y
  proof -
    have y: "sv n y \<noteq> 0" using xy(3) norm_set_less[OF b xy(2)] by (simp add: sv_eq_0_iff take_bit_nat_eq_self)
    then have "\<bar>sv n x smod sv n y\<bar> \<le> int ca" "\<bar>sv n x smod sv n y\<bar> < int cb"
      using smod_bound(1)[of "sv n x" "sv n y"] smod_bound(2)[OF y, of "sv n x"] bspec[OF ca(3) xy(1)] bspec[OF cb(3) xy(2)] by linarith+
    then show ?thesis by auto
  qed
  ultimately have "(if y = 0 then 0 else wrapped n (sv n x smod sv n y)) \<in> set_points t" if "x \<in> set_points a" "y \<in> set_points b" for x y
    using that \<open>wrapped n 0 = 0\<close> by (metis abs_zero of_nat_0_le_iff)
  then show ?thesis using run t(2) by (auto simp: sound_binary_def)
qed

section \<open>Truncation and slices\<close>

lemma Truncate_sound:
  assumes "norm_set n a" "w \<le> n"
  shows "sound_unary (iops_Truncate bn a w) w (\<lambda>x. x mod 2 ^ w) a"
proof -
  obtain ps where ps: "a = nset n ps" "norm n ps" using assms(1) by (rule norm_setE)
  let ?body = "\<lambda>i res. do {
            d \<leftarrow> Sub bn (upper_bound i) (lower_bound i);
            gt \<leftarrow> UGreaterThan d (AllOnes w);
            if gt then do { m \<leftarrow> IntervalSet_Maximal w; Some (Return m) }
            else do {
              low \<leftarrow> Slice (lower_bound i) 0 w;
              high \<leftarrow> Slice (upper_bound i) 0 w;
              j \<leftarrow> mkInterval low high;
              res \<leftarrow> AddInterval res j;
              Some (Continue res) } }"
  obtain mx where mx: "IntervalSet_Maximal w = Some mx" "norm_set w mx" "set_points mx = {..<2 ^ w}" using Maximal_ok[of w] by blast
  have run: "\<exists>r. loop ?body (ivs n ps) s = Some r \<and> (case r of Return m \<Rightarrow> m = mx
      | Continue s' \<Rightarrow> set_ok w s' \<and> set_points s \<subseteq> set_points s' \<and> (\<forall>x\<in>pts n ps. x mod 2 ^ w \<in> set_points s'))" if "set_ok w s" for s
    using ps(2) that
  proof (induction ps arbitrary: s)
    case (Cons p ps)
    obtain l u where p: "p = (l, u)" by fastforce
    then have lu: "l \<le> u" "u < 2 ^ n" "norm n ps" using Cons.prems(1) by (auto simp: norm_Cons)
    have "bits_of_int n (int u - int l) = mkBitmap n (u - l)" using lu(1) bits_of_int_nat[of n "u - l"] by (simp add: of_nat_diff del: bits_of_int_nat)
    moreover have "u - l < 2 ^ n" using lu by linarith
    ultimately have gt: "Sub bn (mkBitmap n u) (mkBitmap n l) = Some (mkBitmap n (u - l))"
        "UGreaterThan (mkBitmap n (u - l)) (AllOnes w) = Some (2 ^ w - 1 < u - l)"
      by (simp_all add: Sub_mk AllOnes_mk UCmp_ops_mk take_bit_nat_eq_self mask_nat)
    show ?case
    proof (cases "2 ^ w - 1 < u - l")
      case True
      then show ?thesis using p gt mx(1) by auto
    next
      case False
      let ?l = "wrapped w (int l)" and ?u = "wrapped w (int u)"
      obtain s' where s': "AddInterval s (ivl w ?l ?u) = Some s'" "set_ok w s'" "set_points s' = set_points s \<union> wrap_points w ?l ?u"
        using AddInterval_ivl[OF Cons.prems(2), of ?l ?u] by auto
      have "int u - int l < 2 ^ w" using False lu(1) int_less_exp[of "u - l" w] by (simp add: of_nat_diff not_less le_pred_exp[unfolded One_nat_def])
      then have in_part: "x mod 2 ^ w \<in> wrap_points w ?l ?u" if "l \<le> x" "x \<le> u" for x
        using narrow_wrapped[of "int l" "int x" "int u" w] that wrapped_nat[of w x] by (simp add: take_bit_eq_mod)
      have "mkBitmap w l = mkBitmap w ?l" "mkBitmap w u = mkBitmap w ?u" by (simp_all add: wrapped_nat mkBitmap_eq_iff)
      then have "?body (ivl n l u) s = Some (Continue s')" using gt False s'(1) assms(2) by (simp add: Slice_mk mkInterval_mk)
      then have step: "loop ?body (ivs n (p # ps)) s = loop ?body (ivs n ps) s'" using p by simp
      have pts: "pts n (p # ps) = {l..u} \<union> pts n ps" using p lu(1) by (simp add: wrap_points_def)
      obtain r where r: "loop ?body (ivs n ps) s' = Some r" "case r of Return m \<Rightarrow> m = mx
          | Continue s'' \<Rightarrow> set_ok w s'' \<and> set_points s' \<subseteq> set_points s'' \<and> (\<forall>x\<in>pts n ps. x mod 2 ^ w \<in> set_points s'')"
        using Cons.IH[OF lu(3) s'(2)] by blast
      show ?thesis
      proof (cases r)
        case (Continue s'')
        then have "\<forall>x\<in>pts n (p # ps). x mod 2 ^ w \<in> set_points s''" using r(2) s'(3) in_part unfolding pts by auto
        then show ?thesis unfolding step using r Continue s'(3) by auto
      qed (use r step in auto)
    qed
  qed auto
  obtain r where r: "loop ?body (ivs n ps) (IntervalSet_of_width (int w)) = Some r" "case r of Return m \<Rightarrow> m = mx
      | Continue s' \<Rightarrow> set_ok w s' \<and> (\<forall>x\<in>pts n ps. x mod 2 ^ w \<in> set_points s')"
    using run[OF norm_set_ok[OF wf_of_width(1)]] by (elim exE conjE) (simp split: step.splits)
  show ?thesis
  proof (cases r)
    case (Return m)
    then show ?thesis using r mx ps by (auto simp: sound_unary_def iops_Truncate_def)
  next
    case (Continue s)
    then obtain t where "Normalize s = Some t" "norm_set w t" "set_points t = set_points s" using Normalize_ok[of w s] r(2) by auto
    then show ?thesis using Continue r ps by (auto simp: sound_unary_def iops_Truncate_def set_points_nset)
  qed
qed

lemma BitSlice_sound:
  assumes "norm_set n a" "w \<le> n" "n \<le> 2 ^ 63"
  shows "sound_unary (iops_BitSlice bn a start w) w (\<lambda>x. x div 2 ^ unat start mod 2 ^ w) a"
proof -
  have lt: "unat start < 2 ^ 64" using unsigned_less[of start] by simp
  obtain s where s: "IntervalSet_Precise (mkBitmap 64 (unat start)) = Some s" "norm_set 64 s" "set_points s = {unat start}"
    using Precise_ok[OF lt] by blast
  obtain r where r: "iops_Shrl bn a s = Some r" "norm_set n r" "\<And>x y. x \<in> set_points a \<Longrightarrow> y \<in> set_points s \<Longrightarrow> x div 2 ^ y \<in> set_points r"
    using Shrl_sound[OF assms(1) s(2) assms(3)] by (elim sound_binaryE) blast
  then show ?thesis using Truncate_sound[OF r(2) assms(2)] s lt
    by (auto simp: sound_unary_def iops_BitSlice_def UBits_mk)
qed

end

end
