(* ===== verification/Interval_Bitwise.thy ===== *)
theory Interval_Bitwise
  imports Interval_Arith
begin

text \<open>
  \<^verbatim>\<open>xls/ir/interval_ops.cc\<close>, last part: encoding and decoding, concatenation, bitwise operations through
  ternary vectors, reductions, comparisons, gates, one-hot, and the number of bits a set needs.
\<close>

section \<open>Decode and encode\<close>

definition iops_Decode :: "IntervalSet \<Rightarrow> nat \<Rightarrow> IntervalSet option" where
  "iops_Decode a width = do {
     vs \<leftarrow> all_values a;
     r \<leftarrow> loop (\<lambda>b res. do {
            u \<leftarrow> ToUint64 b;
            let k = (case u of Inr w \<Rightarrow> unat w | Inl _ \<Rightarrow> width);
            if k \<ge> width then do {
              z \<leftarrow> UBits 0 width;
              i \<leftarrow> Interval_Precise z;
              res \<leftarrow> AddInterval res i;
              Some (Return res) }
            else do {
              p \<leftarrow> PowerOfTwo k width;
              i \<leftarrow> Interval_Precise p;
              res \<leftarrow> AddInterval res i;
              Some (Continue res) } }) vs (IntervalSet_of_width (int width));
     Normalize (step_result (\<lambda>res. res) r) }"

definition encode_value :: "bits \<Rightarrow> nat \<Rightarrow> 64 word option" where
  "encode_value b input_width =
     foldM (\<lambda>i out_value. do {
         x \<leftarrow> Get b i;
         Some (if x then out_value OR word_of_nat i else out_value) }) [0..<input_width] 0"

text \<open>One bit of the ternary approximation: the shift of the index is defined below 64.\<close>

definition encode_ternary_bit :: "TernaryVector \<Rightarrow> nat \<Rightarrow> TernaryValue option" where
  "encode_ternary_bit input_ternary j = do {
     CHECK (j < 64 \<or> input_ternary = []);
     r \<leftarrow> loop (\<lambda>i any_unknown.
            Some (if \<not> bit i j then Continue any_unknown
                  else case input_ternary ! i of
                      kKnownZero \<Rightarrow> Continue any_unknown
                    | kKnownOne \<Rightarrow> Return ()
                    | kUnknown \<Rightarrow> Continue True)) [0..<length input_ternary] False;
     Some (case r of Return _ \<Rightarrow> kKnownOne | Continue any_unknown \<Rightarrow> if any_unknown then kUnknown else kKnownZero) }"

definition iops_Encode :: "'bn bn_lib \<Rightarrow> IntervalSet \<Rightarrow> nat \<Rightarrow> IntervalSet option" where
  "iops_Encode bn a width =
     (if IntervalSet_IsEmpty a then Some (IntervalSet_of_width (int width))
      else do {
        CHECK (is_normalized a);
        input_width \<leftarrow> IntervalSet_BitCount a;
        sz \<leftarrow> IntervalSet_Size bn a;
        if (case sz of Some k \<Rightarrow> sint k \<le> kMaxExactCalculations | None \<Rightarrow> False) then do {
          vs \<leftarrow> all_values a;
          res \<leftarrow> foldM (\<lambda>b res. do {
               out_value \<leftarrow> encode_value b input_width;
               u \<leftarrow> UBits out_value width;
               i \<leftarrow> Interval_Precise u;
               AddInterval res i }) vs (IntervalSet_of_width (int width));
          Normalize res }
        else do {
          input_ternary \<leftarrow> ExtractTernaryVector a;
          output_ternary \<leftarrow> mapM (encode_ternary_bit input_ternary) [0..<width];
          FromTernary output_ternary 4 } })"

section \<open>Concatenation\<close>

record ImpreciseOperand =
  operand_set :: IntervalSet
  bit_offset :: nat

record concat_state =
  lower_bits :: inline_bitmap
  upper_bits :: inline_bitmap
  concat_intervals :: "Interval list"

definition concat_push :: "concat_state \<Rightarrow> concat_state option" where
  "concat_push s = do {
     let lower = lower_bits s;
     let upper = upper_bits s;
     let is = concat_intervals s;
     merge \<leftarrow> (if is = [] then Some False else UAtLeastPredecessor (upper_bound (last is)) lower);
     if merge then do {
       gt \<leftarrow> UGreaterThan upper (upper_bound (last is));
       if gt then do {
         i \<leftarrow> mkInterval (lower_bound (last is)) upper;
         Some (s\<lparr>concat_intervals := butlast is @ [i]\<rparr>) }
       else Some s }
     else do {
       i \<leftarrow> mkInterval lower upper;
       Some (s\<lparr>concat_intervals := is @ [i]\<rparr>) } }"

primrec ConcatHelper :: "ImpreciseOperand list \<Rightarrow> concat_state \<Rightarrow> concat_state option" where
  "ConcatHelper [] s = concat_push s"
| "ConcatHelper (op # ops) s = do {
     is \<leftarrow> Intervals (operand_set op);
     foldM (\<lambda>i s. do {
         n \<leftarrow> Interval_BitCount i;
         lo \<leftarrow> Overwrite (lower_bits s) (lower_bound i) n (bit_offset op) 0;
         hi \<leftarrow> Overwrite (upper_bits s) (upper_bound i) n (bit_offset op) 0;
         ConcatHelper ops (s\<lparr>lower_bits := lo, upper_bits := hi\<rparr>) }) is s }"

definition prefilter_step :: "nat \<Rightarrow> IntervalSet \<Rightarrow> nat \<times> IntervalSet list \<Rightarrow> (nat \<times> IntervalSet list) option" where
  "prefilter_step max_segments op = (\<lambda>(accumulated_intervals, filtered).
     if NumberOfIntervals op \<le> 1 \<or> accumulated_intervals * NumberOfIntervals op \<le> max_segments
     then Some (accumulated_intervals * NumberOfIntervals op, filtered @ [op])
     else do {
       hull \<leftarrow> IntervalSet_ConvexHull op;
       h \<leftarrow> hull;
       n \<leftarrow> IntervalSet_BitCount op;
       s \<leftarrow> UnsafeFromNormalized (int n) [h];
       Some (accumulated_intervals, filtered @ [s]) })"

definition PreFilterConcatOperands :: "IntervalSet list \<Rightarrow> nat \<Rightarrow> IntervalSet list option" where
  "PreFilterConcatOperands operands max_segments =
     map_option snd (foldM (prefilter_step max_segments) operands (1, []))"

text \<open>The precise operands go into the workspace, the others are collected with their offsets.\<close>

definition place_operand ::
    "IntervalSet \<Rightarrow> nat \<times> inline_bitmap \<times> ImpreciseOperand list \<Rightarrow> (nat \<times> inline_bitmap \<times> ImpreciseOperand list) option" where
  "place_operand op = (\<lambda>(current_offset, lower, imprecise_operands). do {
     v \<leftarrow> IntervalSet_GetPreciseValue op;
     n \<leftarrow> IntervalSet_BitCount op;
     case v of
       Some b \<Rightarrow> do {
         lower \<leftarrow> Overwrite lower b (ib_bit_count b) current_offset 0;
         Some (current_offset + n, lower, imprecise_operands) }
     | None \<Rightarrow> Some (current_offset + n, lower, imprecise_operands @ [\<lparr>operand_set = op, bit_offset = current_offset\<rparr>]) })"

definition iops_Concat :: "'bn bn_lib \<Rightarrow> IntervalSet list \<Rightarrow> IntervalSet option" where
  "iops_Concat bn sets = do {
     r \<leftarrow> loop (\<lambda>s total. if IntervalSet_IsEmpty s then Some (Return ())
                         else do { n \<leftarrow> IntervalSet_BitCount s; Some (Continue (total + n)) }) sets 0;
     case r of
       Return _ \<Rightarrow> Some (IntervalSet_of_width 0)
     | Continue result_bit_size \<Rightarrow>
         if result_bit_size = 0 then Some (IntervalSet_of_width 0)
         else do {
           operands \<leftarrow> PreFilterConcatOperands sets kMaxIntervalSegments;
           (_, lower, imprecise_operands) \<leftarrow>
             foldM place_operand (rev operands) (0, InlineBitmap result_bit_size False, []);
           if imprecise_operands = [] then IntervalSet_Precise lower
           else do {
             s \<leftarrow> ConcatHelper (rev imprecise_operands) \<lparr>lower_bits = lower, upper_bits = lower, concat_intervals = []\<rparr>;
             t \<leftarrow> UnsafeFromNormalized (int result_bit_size) (concat_intervals s);
             MinimizeIntervals bn t kMaxIntervalSegments } } }"

section \<open>Bitwise operations\<close>

definition OneBitRangeToTernary :: "IntervalSet \<Rightarrow> TernaryValue option" where
  "OneBitRangeToTernary is = do {
     n \<leftarrow> IntervalSet_BitCount is;
     CHECK (n = 1);
     p \<leftarrow> IntervalSet_IsPrecise is;
     if p then do { z \<leftarrow> IntervalSet_CoversZero is; Some (if z then kKnownZero else kKnownOne) }
     else Some kUnknown }"

definition TernaryToOneBitRange :: "TernaryValue \<Rightarrow> IntervalSet option" where
  "TernaryToOneBitRange v =
     (case v of
        kKnownZero \<Rightarrow> do { b \<leftarrow> UBits 0 1; IntervalSet_Precise b }
      | kKnownOne \<Rightarrow> do { b \<leftarrow> UBits 1 1; IntervalSet_Precise b }
      | kUnknown \<Rightarrow> IntervalSet_Maximal 1)"

definition iops_Not :: "IntervalSet \<Rightarrow> IntervalSet option" where
  "iops_Not a = do {
     n \<leftarrow> IntervalSet_BitCount a;
     if IntervalSet_IsEmpty a then Some (IntervalSet_of_width (int n))
     else if n = 1 then do {
       t \<leftarrow> OneBitRangeToTernary a;
       TernaryToOneBitRange (ev_Not TernaryEvaluator t) }
     else do {
       vec \<leftarrow> ExtractTernaryVector a;
       FromTernary (ae_BitwiseNot TernaryEvaluator vec) 4 } }"

text \<open>What \<^verbatim>\<open>And\<close>, \<^verbatim>\<open>Or\<close> and \<^verbatim>\<open>Xor\<close> share: checks, the one-bit case, and the ternary case.\<close>

definition bitwise_prologue ::
    "(TernaryValue \<Rightarrow> TernaryValue \<Rightarrow> TernaryValue) \<Rightarrow> IntervalSet \<Rightarrow> IntervalSet \<Rightarrow> (nat \<Rightarrow> IntervalSet option) \<Rightarrow> IntervalSet option" where
  "bitwise_prologue op a b rest = do {
     n \<leftarrow> IntervalSet_BitCount a;
     m \<leftarrow> IntervalSet_BitCount b;
     CHECK (n = m);
     if IntervalSet_IsEmpty a \<or> IntervalSet_IsEmpty b then Some (IntervalSet_of_width (int n))
     else if n = 1 then do {
       s \<leftarrow> OneBitRangeToTernary a;
       t \<leftarrow> OneBitRangeToTernary b;
       TernaryToOneBitRange (op s t) }
     else rest n }"

definition bitwise_ternary ::
    "(TernaryVector list \<Rightarrow> TernaryVector option) \<Rightarrow> IntervalSet \<Rightarrow> IntervalSet \<Rightarrow> IntervalSet option" where
  "bitwise_ternary op a b = do {
     s \<leftarrow> ExtractTernaryVector a;
     t \<leftarrow> ExtractTernaryVector b;
     res \<leftarrow> op [s, t];
     FromTernary res 4 }"

definition precise_ubits :: "64 word \<Rightarrow> nat \<Rightarrow> IntervalSet option" where
  "precise_ubits v n = do { b \<leftarrow> UBits v n; IntervalSet_Precise b }"

definition precise_sbits :: "64 word \<Rightarrow> nat \<Rightarrow> IntervalSet option" where
  "precise_sbits v n = do { b \<leftarrow> SBits v n; IntervalSet_Precise b }"

definition ones_or_zero :: "nat \<Rightarrow> IntervalSet option" where
  "ones_or_zero n = do {
     z \<leftarrow> UBits 0 n;
     i \<leftarrow> Interval_Precise z;
     m \<leftarrow> SBits (- 1) n;
     j \<leftarrow> Interval_Precise m;
     IntervalSet_Of [i, j] }"

definition iops_And :: "IntervalSet \<Rightarrow> IntervalSet \<Rightarrow> IntervalSet option" where
  "iops_And a b = bitwise_prologue (ev_And TernaryEvaluator) a b (\<lambda>n. do {
     only_ones \<leftarrow> precise_sbits (- 1) n;
     e1 \<leftarrow> IntervalSet_eq a only_ones;
     e2 \<leftarrow> IntervalSet_eq b only_ones;
     if e1 then Some b
     else if e2 then Some a
     else do {
       mask_select \<leftarrow> ones_or_zero n;
       m1 \<leftarrow> IntervalSet_eq a mask_select;
       m2 \<leftarrow> IntervalSet_eq b mask_select;
       if m1 then do { z \<leftarrow> precise_ubits 0 n; Combine b z }
       else if m2 then do { z \<leftarrow> precise_ubits 0 n; Combine a z }
       else bitwise_ternary (ae_BitwiseAnd TernaryEvaluator) a b } })"

definition iops_Or :: "IntervalSet \<Rightarrow> IntervalSet \<Rightarrow> IntervalSet option" where
  "iops_Or a b = bitwise_prologue (ev_Or TernaryEvaluator) a b (\<lambda>n. do {
     only_zero \<leftarrow> precise_ubits 0 n;
     e1 \<leftarrow> IntervalSet_eq a only_zero;
     e2 \<leftarrow> IntervalSet_eq b only_zero;
     if e1 then Some b
     else if e2 then Some a
     else do {
       mask_select \<leftarrow> ones_or_zero n;
       m1 \<leftarrow> IntervalSet_eq a mask_select;
       m2 \<leftarrow> IntervalSet_eq b mask_select;
       if m1 then do { z \<leftarrow> precise_sbits (- 1) n; Combine b z }
       else if m2 then do { z \<leftarrow> precise_sbits (- 1) n; Combine a z }
       else bitwise_ternary (ae_BitwiseOr TernaryEvaluator) a b } })"

definition iops_Xor :: "IntervalSet \<Rightarrow> IntervalSet \<Rightarrow> IntervalSet option" where
  "iops_Xor a b = bitwise_prologue (ae_Xor TernaryEvaluator) a b (\<lambda>n. do {
     only_zero \<leftarrow> precise_ubits 0 n;
     e1 \<leftarrow> IntervalSet_eq a only_zero;
     e2 \<leftarrow> IntervalSet_eq b only_zero;
     if e1 then Some b
     else if e2 then Some a
     else bitwise_ternary (ae_BitwiseXor TernaryEvaluator) a b })"

section \<open>Reductions\<close>

definition iops_AndReduce :: "IntervalSet \<Rightarrow> IntervalSet option" where
  "iops_AndReduce a =
     (if IntervalSet_IsEmpty a then Some (IntervalSet_of_width 1)
      else do {
        m \<leftarrow> IntervalSet_CoversMax a;
        p \<leftarrow> IntervalSet_IsPrecise a;
        if \<not> m then TernaryToOneBitRange kKnownZero
        else if p then TernaryToOneBitRange kKnownOne
        else TernaryToOneBitRange kUnknown })"

definition iops_OrReduce :: "IntervalSet \<Rightarrow> IntervalSet option" where
  "iops_OrReduce a =
     (if IntervalSet_IsEmpty a then Some (IntervalSet_of_width 1)
      else do {
        z \<leftarrow> IntervalSet_CoversZero a;
        p \<leftarrow> IntervalSet_IsPrecise a;
        if \<not> z then TernaryToOneBitRange kKnownOne
        else if p then TernaryToOneBitRange kKnownZero
        else TernaryToOneBitRange kUnknown })"

text \<open>The parity of an interval with one value.\<close>

definition precise_parity :: "Interval \<Rightarrow> bits option option" where
  "precise_parity i = do {
     p \<leftarrow> Interval_IsPrecise i;
     if \<not> p then Some None
     else do {
       v \<leftarrow> Interval_GetPreciseValue i;
       b \<leftarrow> v;
       x \<leftarrow> XorReduce b;
       Some (Some x) } }"

definition iops_XorReduce :: "IntervalSet \<Rightarrow> IntervalSet option" where
  "iops_XorReduce a =
     (if IntervalSet_IsEmpty a then Some (IntervalSet_of_width 1)
      else do {
        is \<leftarrow> Intervals a;
        first \<leftarrow> precise_parity (hd is);
        case first of
          None \<Rightarrow> TernaryToOneBitRange kUnknown
        | Some output \<Rightarrow> do {
            r \<leftarrow> loop (\<lambda>i _. do {
                   x \<leftarrow> precise_parity i;
                   case x of
                     None \<Rightarrow> Some (Return ())
                   | Some y \<Rightarrow> do { e \<leftarrow> Bits_eq y output; Some (if e then Continue () else Return ()) } }) (tl is) ();
            case r of
              Return _ \<Rightarrow> TernaryToOneBitRange kUnknown
            | Continue _ \<Rightarrow> do {
                one \<leftarrow> IsOne output;
                TernaryToOneBitRange (if one then kKnownOne else kKnownZero) } } })"

section \<open>Comparisons\<close>

text \<open>The checks every comparison starts with.\<close>

definition compare_prologue :: "IntervalSet \<Rightarrow> IntervalSet \<Rightarrow> (nat \<Rightarrow> IntervalSet option) \<Rightarrow> IntervalSet option" where
  "compare_prologue a b rest = do {
     n \<leftarrow> IntervalSet_BitCount a;
     m \<leftarrow> IntervalSet_BitCount b;
     CHECK (n = m);
     if IntervalSet_IsEmpty a \<or> IntervalSet_IsEmpty b then Some (IntervalSet_of_width 1) else rest n }"

definition iops_Eq :: "IntervalSet \<Rightarrow> IntervalSet \<Rightarrow> IntervalSet option" where
  "iops_Eq a b = compare_prologue a b (\<lambda>n. do {
     p \<leftarrow> IntervalSet_IsPrecise a;
     q \<leftarrow> IntervalSet_IsPrecise b;
     if p \<and> q then do {
       va \<leftarrow> IntervalSet_GetPreciseValue a; x \<leftarrow> va;
       vb \<leftarrow> IntervalSet_GetPreciseValue b; y \<leftarrow> vb;
       e \<leftarrow> UEqual x y;
       TernaryToOneBitRange (if e then kKnownOne else kKnownZero) }
     else do {
       d \<leftarrow> IntervalSet_Disjoint a b;
       TernaryToOneBitRange (if d then kKnownZero else kUnknown) } })"

definition iops_Ne :: "IntervalSet \<Rightarrow> IntervalSet \<Rightarrow> IntervalSet option" where
  "iops_Ne a b = do { e \<leftarrow> iops_Eq a b; iops_Not e }"

definition is_value :: "IntervalSet \<Rightarrow> bits \<Rightarrow> bool option" where
  "is_value s b = do {
     p \<leftarrow> IntervalSet_IsPrecise s;
     if p then do { v \<leftarrow> IntervalSet_GetPreciseValue s; x \<leftarrow> v; Bits_eq x b } else Some False }"

definition iops_ULt :: "IntervalSet \<Rightarrow> IntervalSet \<Rightarrow> IntervalSet option" where
  "iops_ULt a b = compare_prologue a b (\<lambda>n. do {
     m \<leftarrow> is_value a (AllOnes n);
     z \<leftarrow> is_value b (Bits n);
     if m \<or> z then TernaryToOneBitRange kKnownZero
     else do {
       ha \<leftarrow> IntervalSet_ConvexHull a; lhs_hull \<leftarrow> ha;
       hb \<leftarrow> IntervalSet_ConvexHull b; rhs_hull \<leftarrow> hb;
       lt \<leftarrow> ULessThan (upper_bound lhs_hull) (lower_bound rhs_hull);
       ge \<leftarrow> ULessThanOrEqual (upper_bound rhs_hull) (lower_bound lhs_hull);
       if lt then TernaryToOneBitRange kKnownOne
       else if ge then TernaryToOneBitRange kKnownZero
       else TernaryToOneBitRange kUnknown } })"

definition iops_UGt :: "IntervalSet \<Rightarrow> IntervalSet \<Rightarrow> IntervalSet option" where
  "iops_UGt a b = iops_ULt b a"

definition iops_ULe :: "IntervalSet \<Rightarrow> IntervalSet \<Rightarrow> IntervalSet option" where
  "iops_ULe a b = do { r \<leftarrow> iops_ULt b a; iops_Not r }"

definition iops_UGe :: "IntervalSet \<Rightarrow> IntervalSet \<Rightarrow> IntervalSet option" where
  "iops_UGe a b = do { r \<leftarrow> iops_ULt a b; iops_Not r }"

text \<open>The sign bits of the two bounds of a set.\<close>

definition bound_signs :: "IntervalSet \<Rightarrow> (bool \<times> bool) option" where
  "bound_signs v = do {
     lb \<leftarrow> IntervalSet_LowerBound v; l \<leftarrow> lb; x \<leftarrow> GetFromMsb l 0;
     ub \<leftarrow> IntervalSet_UpperBound v; u \<leftarrow> ub; y \<leftarrow> GetFromMsb u 0;
     Some (x, y) }"

definition iops_SLt :: "'bn bn_lib \<Rightarrow> IntervalSet \<Rightarrow> IntervalSet \<Rightarrow> IntervalSet option" where
  "iops_SLt bn a b = compare_prologue a b (\<lambda>n. do {
     CHECK (is_normalized a);
     CHECK (is_normalized b);
     (la, ua) \<leftarrow> bound_signs a;
     (lb, ub) \<leftarrow> bound_signs b;
     if (\<not> la \<and> \<not> ua \<and> \<not> lb \<and> \<not> ub) \<or> (la \<and> ua \<and> lb \<and> ub) then iops_ULt a b
     else do {
       p \<leftarrow> PowerOfTwo (n - 1) n;
       offset \<leftarrow> IntervalSet_Precise p;
       x \<leftarrow> iops_Add bn a offset;
       y \<leftarrow> iops_Add bn b offset;
       iops_ULt x y } })"

definition iops_SGt :: "'bn bn_lib \<Rightarrow> IntervalSet \<Rightarrow> IntervalSet \<Rightarrow> IntervalSet option" where
  "iops_SGt bn a b = iops_SLt bn b a"

definition iops_SLe :: "'bn bn_lib \<Rightarrow> IntervalSet \<Rightarrow> IntervalSet \<Rightarrow> IntervalSet option" where
  "iops_SLe bn a b = do { r \<leftarrow> iops_SLt bn b a; iops_Not r }"

definition iops_SGe :: "'bn bn_lib \<Rightarrow> IntervalSet \<Rightarrow> IntervalSet \<Rightarrow> IntervalSet option" where
  "iops_SGe bn a b = do { r \<leftarrow> iops_SLt bn a b; iops_Not r }"

section \<open>Gate, one-hot, needed bits\<close>

definition iops_Gate :: "IntervalSet \<Rightarrow> IntervalSet \<Rightarrow> IntervalSet option" where
  "iops_Gate cond val = do {
     n \<leftarrow> IntervalSet_BitCount val;
     if IntervalSet_IsEmpty cond \<or> IntervalSet_IsEmpty val then Some (IntervalSet_of_width (int n))
     else do {
       p \<leftarrow> IntervalSet_IsPrecise cond;
       z \<leftarrow> IntervalSet_CoversZero cond;
       if p then if z then IntervalSet_Precise (Bits n) else Some val
       else if z then do { s \<leftarrow> IntervalSet_Precise (Bits n); Combine val s }
       else Some val } }"

datatype LsbOrMsb = kLsb | kMsb

text \<open>The vector of \<^verbatim>\<open>OneHotTestVector\<close>: one at the tested bit, zero at the bits of higher priority.\<close>

definition OneHotTestVector :: "nat \<Rightarrow> LsbOrMsb \<Rightarrow> nat \<Rightarrow> TernaryVector" where
  "OneHotTestVector width lsb_or_msb test_bit =
     map (\<lambda>i. if i = test_bit then kKnownOne
              else if (case lsb_or_msb of kMsb \<Rightarrow> i > test_bit | kLsb \<Rightarrow> i < test_bit) then kKnownZero
              else kUnknown) [0..<width]"

definition iops_OneHot :: "'bn bn_lib \<Rightarrow> IntervalSet \<Rightarrow> LsbOrMsb \<Rightarrow> nat \<Rightarrow> IntervalSet option" where
  "iops_OneHot bn val lsb_or_msb max_intervals = do {
     n \<leftarrow> IntervalSet_BitCount val;
     if IntervalSet_IsEmpty val then Some (IntervalSet_of_width (int (n + 1)))
     else do {
       result \<leftarrow> foldM (\<lambda>i result. do {
            c \<leftarrow> CoversTernary val (OneHotTestVector n lsb_or_msb i);
            if c then do {
              p \<leftarrow> PowerOfTwo i (n + 1);
              iv \<leftarrow> Interval_Precise p;
              AddInterval result iv }
            else Some result }) [0..<n] (IntervalSet_of_width (int (n + 1)));
       z \<leftarrow> IntervalSet_CoversZero val;
       result \<leftarrow> (if z then do {
            p \<leftarrow> PowerOfTwo n (n + 1);
            iv \<leftarrow> Interval_Precise p;
            AddInterval result iv }
          else Some result);
       MinimizeIntervals bn result max_intervals } }"

definition MinimumBitCount :: "IntervalSet \<Rightarrow> nat option" where
  "MinimumBitCount a =
     (if IntervalSet_IsEmpty a then Some 0
      else do {
        n \<leftarrow> IntervalSet_BitCount a;
        ub \<leftarrow> IntervalSet_UpperBound a;
        u \<leftarrow> ub;
        clz \<leftarrow> CountLeadingZeros u;
        Some (n - clz) })"

definition MinimumSignedBitCount :: "IntervalSet \<Rightarrow> nat option" where
  "MinimumSignedBitCount a =
     (if IntervalSet_IsEmpty a then Some 0
      else do {
        v \<leftarrow> IntervalSet_GetPreciseValue a;
        z \<leftarrow> (case v of None \<Rightarrow> Some False | Some b \<Rightarrow> IsZero b);
        if z then Some 0
        else do {
          n \<leftarrow> IntervalSet_BitCount a;
          lo \<leftarrow> MinSigned n;
          hi \<leftarrow> MaxSigned n;
          c1 \<leftarrow> IntervalSet_Covers a lo;
          c2 \<leftarrow> IntervalSet_Covers a hi;
          if c1 \<or> c2 then Some n
          else do {
            zero \<leftarrow> SBits 0 n;
            i \<leftarrow> Interval_Closed zero hi;
            s \<leftarrow> IntervalSet_Of [i];
            positive \<leftarrow> IntervalSet_Intersect a s;
            minus_one \<leftarrow> SBits (- 1) n;
            j \<leftarrow> Interval_Closed lo minus_one;
            t \<leftarrow> IntervalSet_Of [j];
            negative \<leftarrow> IntervalSet_Intersect a t;
            p \<leftarrow> (if IntervalSet_IsEmpty positive then Some 0 else MinimumBitCount positive);
            q \<leftarrow> (if IntervalSet_IsEmpty negative then Some 0
                 else do {
                   lb \<leftarrow> IntervalSet_LowerBound negative;
                   l \<leftarrow> lb;
                   clo \<leftarrow> CountLeadingOnes l;
                   Some (n - clo) });
            Some (max p q + 1) } } })"

end
