(* ===== verification/Interval_Compare_Rules.thy ===== *)
theory Interval_Compare_Rules
  imports Interval_Div_Rules Interval_Bitwise
begin

text \<open>
  Soundness of the operations with a one-bit result, comparisons and reductions, and of gates, and the
  exactness of the two counts of needed bits.
\<close>

section \<open>One-bit sets\<close>

lemma TernaryToOneBitRange_ok:
  "\<exists>s. TernaryToOneBitRange t = Some s \<and> norm_set 1 s \<and> set_points s = {x. x < 2 \<and> tern_bit t (x = 1)}"
proof (cases t)
  case kKnownZero
  obtain s where "IntervalSet_Precise (mkBitmap 1 0) = Some s" "norm_set 1 s" "set_points s = {0}" using Precise_ok[of 0 1] by auto
  moreover have "{x::nat. x < 2 \<and> x \<noteq> 1} = {0}" by auto
  ultimately show ?thesis using kKnownZero by (simp add: TernaryToOneBitRange_def UBits_0)
next
  case kKnownOne
  obtain s where "IntervalSet_Precise (mkBitmap 1 1) = Some s" "norm_set 1 s" "set_points s = {1}" using Precise_ok[of 1 1] by auto
  moreover have "{x::nat. x < 2 \<and> x = 1} = {1}" by auto
  ultimately show ?thesis using kKnownOne UBits_1[of 1] by (simp add: TernaryToOneBitRange_def)
next
  case kUnknown
  then show ?thesis using Maximal_ok[of 1] by (auto simp: TernaryToOneBitRange_def)
qed

lemma ternary_result:
  assumes "\<And>x y. x \<in> set_points a \<Longrightarrow> y \<in> set_points b \<Longrightarrow> tern_bit t (P x y)"
  shows "sound_binary (TernaryToOneBitRange t) 1 (\<lambda>x y. of_bool (P x y)) a b"
  using TernaryToOneBitRange_ok[of t] assms by (fastforce simp: sound_binary_def)

lemma ternary_result1:
  assumes "\<And>x. x \<in> set_points a \<Longrightarrow> tern_bit t (P x)"
  shows "sound_unary (TernaryToOneBitRange t) 1 (\<lambda>x. of_bool (P x)) a"
  using TernaryToOneBitRange_ok[of t] assms by (fastforce simp: sound_unary_def)

lemma IsPrecise_norm_set:
  assumes "norm_set n s"
  shows "\<exists>p. IntervalSet_IsPrecise s = Some p \<and> (p \<longleftrightarrow> (\<exists>v. set_points s = {v}))"
proof -
  obtain ps where ps: "s = nset n ps" "norm n ps" using assms by (rule norm_setE)
  have "precise (n, ps) \<longleftrightarrow> (\<exists>v. pts n ps = {v})"
  proof
    assume "\<exists>v. pts n ps = {v}"
    then obtain v where v: "pts n ps = {v}" by blast
    then have "v < 2 ^ n" using pts_bound[OF norm_in_range[OF ps(2)]] by auto
    then have "norm n [(v, v)]" by (simp add: norm_def)
    then have "ps = [(v, v)]" using norm_unique[OF ps(2)] v by (simp add: wrap_points_def)
    then show "precise (n, ps)" by (simp add: precise_def)
  qed (auto simp: precise_def wrap_points_def)
  then show ?thesis using ps by (simp add: IsPrecise_nset set_points_nset)
qed

lemma precise_value_norm_set:
  assumes "norm_set n s" "set_points s = {v}"
  shows "IntervalSet_GetPreciseValue s = Some (Some (mkBitmap n v))"
proof -
  obtain ps where ps: "s = nset n ps" "norm n ps" using assms(1) by (rule norm_setE)
  have "v < 2 ^ n" using norm_set_less[OF assms(1)] assms(2) by simp
  then have "norm n [(v, v)]" by (simp add: norm_def)
  then have "ps = [(v, v)]" using norm_unique[OF ps(2)] assms(2) ps by (simp add: set_points_nset wrap_points_def)
  then show ?thesis using ps(1) GetPreciseValue_nset[OF ps(2)] by (simp add: precise_def)
qed

lemma OneBitRangeToTernary_ok:
  assumes "norm_set 1 s" "set_points s \<noteq> {}"
  shows "\<exists>t. OneBitRangeToTernary s = Some t \<and> (\<forall>x\<in>set_points s. tern_bit t (x = 1))"
proof -
  obtain p where p: "IntervalSet_IsPrecise s = Some p" "p \<longleftrightarrow> (\<exists>v. set_points s = {v})" using IsPrecise_norm_set[OF assms(1)] by blast
  have "x = 0 \<or> x = 1" if "x \<in> set_points s" for x using norm_set_less[OF assms(1) that] by (simp add: less_2_cases_iff)
  then show ?thesis using p CoversZero_norm_set[OF assms(1)]
    by (cases p) (force simp: OneBitRangeToTernary_def norm_set_BitCount[OF assms(1)] CHECK_def)+
qed

lemma ternary_primitives [simp]:
  "ev_Not TernaryEvaluator = ternary_Not" "ev_And TernaryEvaluator = ternary_And" "ev_Or TernaryEvaluator = ternary_Or"
  by (auto simp: TernaryEvaluator_def TernaryEvaluator_Not_def ternary_Not_def fun_eq_iff split: TernaryValue.split)

lemma Not_one_bit:
  assumes "norm_set 1 s"
  shows "sound_unary (iops_Not s) 1 (\<lambda>x. 1 - x) s"
proof (cases "set_points s = {}")
  case True
  then show ?thesis using wf_of_width[of 1] by (simp add: sound_unary_def iops_Not_def norm_set_BitCount[OF assms] IsEmpty_norm_set[OF assms])
next
  case False
  obtain t where t: "OneBitRangeToTernary s = Some t" "\<forall>x\<in>set_points s. tern_bit t (x = 1)" using OneBitRangeToTernary_ok[OF assms False] by blast
  have "sound_unary (TernaryToOneBitRange (ternary_Not t)) 1 (\<lambda>x. of_bool (\<not> x = 1)) s"
    using t(2) by (intro ternary_result1) (auto simp: ternary_logic_best)
  moreover have "of_bool (\<not> x = 1) = 1 - x" if "x \<in> set_points s" for x :: nat
    using norm_set_less[OF assms that] by (auto simp: less_2_cases_iff)
  ultimately have "sound_unary (TernaryToOneBitRange (ternary_Not t)) 1 (\<lambda>x. 1 - x) s" by (rule sound_unary_cong)
  moreover have "iops_Not s = TernaryToOneBitRange (ternary_Not t)"
    using False t(1) by (simp add: iops_Not_def norm_set_BitCount[OF assms] IsEmpty_norm_set[OF assms])
  ultimately show ?thesis by simp
qed

lemma negated_result:
  assumes "sound_binary r 1 (\<lambda>x y. of_bool (P x y)) a b"
  shows "sound_binary (do { s \<leftarrow> r; iops_Not s }) 1 (\<lambda>x y. of_bool (\<not> P x y)) a b"
proof -
  obtain s where s: "r = Some s" "norm_set 1 s" "\<And>x y. x \<in> set_points a \<Longrightarrow> y \<in> set_points b \<Longrightarrow> of_bool (P x y) \<in> set_points s"
    using assms by (elim sound_binaryE) blast
  obtain t where t: "iops_Not s = Some t" "norm_set 1 t" "\<And>x. x \<in> set_points s \<Longrightarrow> 1 - x \<in> set_points t"
    using Not_one_bit[OF s(2)] by (elim sound_unaryE) blast
  have "of_bool (\<not> P x y) \<in> set_points t" if "x \<in> set_points a" "y \<in> set_points b" for x y
    using t(3)[OF s(3)[OF that]] by (cases "P x y") simp_all
  then show ?thesis using s(1) t(1,2) by (auto simp: sound_binary_def)
qed

lemma flipped_result: "sound_binary r m f b a \<Longrightarrow> sound_binary r m (\<lambda>x y. f y x) a b"
  by (auto simp: sound_binary_def)

section \<open>Comparisons\<close>

lemma compare_empty:
  assumes "norm_set n a" "norm_set n b"
  shows "compare_prologue a b rest = (if set_points a = {} \<or> set_points b = {} then Some (IntervalSet_of_width 1) else rest n)"
  by (simp add: compare_prologue_def norm_set_BitCount[OF assms(1)] norm_set_BitCount[OF assms(2)] CHECK_def
      IsEmpty_norm_set[OF assms(1)] IsEmpty_norm_set[OF assms(2)])

lemma compare_soundI:
  assumes "norm_set n a" "norm_set n b" "set_points a \<noteq> {} \<Longrightarrow> set_points b \<noteq> {} \<Longrightarrow> sound_binary (rest n) 1 f a b"
  shows "sound_binary (compare_prologue a b rest) 1 f a b"
  using assms wf_of_width[of 1] by (auto simp: compare_empty[OF assms(1,2)] sound_binary_def)

lemma Eq_sound:
  assumes a: "norm_set n a" and b: "norm_set n b"
  shows "sound_binary (iops_Eq a b) 1 (\<lambda>x y. of_bool (x = y)) a b"
  unfolding iops_Eq_def
proof (rule compare_soundI[OF a b])
  obtain p where p: "IntervalSet_IsPrecise a = Some p" "p \<longleftrightarrow> (\<exists>v. set_points a = {v})" using IsPrecise_norm_set[OF a] by blast
  obtain q where q: "IntervalSet_IsPrecise b = Some q" "q \<longleftrightarrow> (\<exists>v. set_points b = {v})" using IsPrecise_norm_set[OF b] by blast
  let ?rest = "do {
     p \<leftarrow> IntervalSet_IsPrecise a;
     q \<leftarrow> IntervalSet_IsPrecise b;
     if p \<and> q then do {
       va \<leftarrow> IntervalSet_GetPreciseValue a; x \<leftarrow> va;
       vb \<leftarrow> IntervalSet_GetPreciseValue b; y \<leftarrow> vb;
       e \<leftarrow> UEqual x y;
       TernaryToOneBitRange (if e then kKnownOne else kKnownZero) }
     else do {
       d \<leftarrow> IntervalSet_Disjoint a b;
       TernaryToOneBitRange (if d then kKnownZero else kUnknown) } }"
  have "\<exists>t. ?rest = TernaryToOneBitRange t \<and> (\<forall>x\<in>set_points a. \<forall>y\<in>set_points b. tern_bit t (x = y))"
  proof (cases "p \<and> q")
    case True
    then obtain v w where vw: "set_points a = {v}" "set_points b = {w}" using p q by blast
    moreover have "v < 2 ^ n" "w < 2 ^ n" using vw norm_set_less[OF a] norm_set_less[OF b] by auto
    ultimately show ?thesis using p(1) q(1) True precise_value_norm_set[OF a vw(1)] precise_value_norm_set[OF b vw(2)]
      by (auto simp: UCmp_ops_mk take_bit_nat_eq_self)
  next
    case False
    moreover have "IntervalSet_Disjoint a b = Some (set_points a \<inter> set_points b = {})" using iset.disjoint_ok[OF a b] .
    ultimately show ?thesis using p(1) q(1)
      by (intro exI[of _ "if set_points a \<inter> set_points b = {} then kKnownZero else kUnknown"]) auto
  qed
  then show "sound_binary ?rest 1 (\<lambda>x y. of_bool (x = y)) a b" using ternary_result[of a b _ "(=)"] by metis
qed

lemma is_value_norm_set:
  assumes "norm_set n s" "v < 2 ^ n"
  shows "is_value s (mkBitmap n v) = Some (set_points s = {v})"
proof -
  obtain p where p: "IntervalSet_IsPrecise s = Some p" "p \<longleftrightarrow> (\<exists>v. set_points s = {v})" using IsPrecise_norm_set[OF assms(1)] by blast
  show ?thesis
  proof (cases p)
    case True
    then obtain w where w: "set_points s = {w}" using p(2) by blast
    then have "w < 2 ^ n" using norm_set_less[OF assms(1)] by simp
    then show ?thesis using True p(1) w assms(2) precise_value_norm_set[OF assms(1) w]
      by (auto simp: is_value_def Bits_eq_mk take_bit_nat_eq_self)
  qed (use p in \<open>auto simp: is_value_def\<close>)
qed

lemma ULt_sound:
  assumes a: "norm_set n a" and b: "norm_set n b"
  shows "sound_binary (iops_ULt a b) 1 (\<lambda>x y. of_bool (x < y)) a b"
  unfolding iops_ULt_def
proof (rule compare_soundI[OF a b])
  assume ne: "set_points a \<noteq> {}" "set_points b \<noteq> {}"
  obtain la ua where A: "IntervalSet_ConvexHull a = Some (Some (ivl n la ua))" "la \<in> set_points a" "ua \<in> set_points a" "set_points a \<subseteq> {la..ua}"
    using bounds_norm_set[OF a ne(1)] by blast
  obtain lb ub where B: "IntervalSet_ConvexHull b = Some (Some (ivl n lb ub))" "lb \<in> set_points b" "ub \<in> set_points b" "set_points b \<subseteq> {lb..ub}"
    using bounds_norm_set[OF b ne(2)] by blast
  have lt: "la < 2 ^ n" "ua < 2 ^ n" "lb < 2 ^ n" "ub < 2 ^ n" using A(2,3) B(2,3) norm_set_less[OF a] norm_set_less[OF b] by auto
  have v: "is_value a (AllOnes n) = Some (set_points a = {2 ^ n - 1})" "is_value b (Bits n) = Some (set_points b = {0})"
    using is_value_norm_set[OF a, of "2 ^ n - 1"] is_value_norm_set[OF b, of 0] by (simp_all add: AllOnes_mk mask_nat Bits_mk)
  let ?rest = "do {
     m \<leftarrow> is_value a (AllOnes n);
     z \<leftarrow> is_value b (Bits n);
     if m \<or> z then TernaryToOneBitRange kKnownZero
     else do {
       ha \<leftarrow> IntervalSet_ConvexHull a; lhs_hull \<leftarrow> ha;
       hb \<leftarrow> IntervalSet_ConvexHull b; rhs_hull \<leftarrow> hb;
       lt \<leftarrow> ULessThan (upper_bound lhs_hull) (lower_bound rhs_hull);
       ge \<leftarrow> ULessThanOrEqual (upper_bound rhs_hull) (lower_bound lhs_hull);
       if lt then TernaryToOneBitRange kKnownOne
       else if ge then TernaryToOneBitRange kKnownZero
       else TernaryToOneBitRange kUnknown } }"
  let ?t = "if set_points a = {2 ^ n - 1} \<or> set_points b = {0} then kKnownZero
    else if ua < lb then kKnownOne else if ub \<le> la then kKnownZero else kUnknown"
  have "?rest = TernaryToOneBitRange ?t" using A(1) B(1) v lt by (simp add: UCmp_ops_mk take_bit_nat_eq_self)
  moreover have "tern_bit ?t (x < y)" if "x \<in> set_points a" "y \<in> set_points b" for x y
  proof -
    have "la \<le> x" "x \<le> ua" "lb \<le> y" "y \<le> ub" "y < 2 ^ n" using that A(4) B(4) norm_set_less[OF b] by auto
    moreover have "set_points a = {2 ^ n - 1} \<longrightarrow> x = 2 ^ n - 1" "set_points b = {0} \<longrightarrow> y = 0" using that by auto
    ultimately show ?thesis by (simp add: tern_bit_def) linarith
  qed
  ultimately show "sound_binary ?rest 1 (\<lambda>x y. of_bool (x < y)) a b" using ternary_result[of a b ?t "(<)"] by simp
qed

lemma bound_signs_norm_set:
  assumes "norm_set n s" "set_points s \<noteq> {}" "0 < n"
  shows "\<exists>l u. bound_signs s = Some (2 ^ (n - 1) \<le> l, 2 ^ (n - 1) \<le> u) \<and> set_points s \<subseteq> {l..u}"
proof -
  obtain l u where lu: "IntervalSet_LowerBound s = Some (Some (mkBitmap n l))" "IntervalSet_UpperBound s = Some (Some (mkBitmap n u))"
      "l \<in> set_points s" "u \<in> set_points s" "set_points s \<subseteq> {l..u}"
    using bounds_norm_set[OF assms(1,2)] by blast
  then have "bound_signs s = Some (2 ^ (n - 1) \<le> l, 2 ^ (n - 1) \<le> u)"
    using assms(3) sign_bit_iff[OF assms(3) norm_set_less[OF assms(1) lu(3)]] sign_bit_iff[OF assms(3) norm_set_less[OF assms(1) lu(4)]]
    by (simp add: bound_signs_def GetFromMsb_mk)
  then show ?thesis using lu(5) by blast
qed

context bignum
begin

text \<open>Adding half of the range turns the signed order into the unsigned one.\<close>

lemma signed_offset:
  assumes "0 < n" "x < 2 ^ n" "y < 2 ^ n"
  shows "sv n x < sv n y \<longleftrightarrow> (x + 2 ^ (n - 1)) mod 2 ^ n < (y + 2 ^ (n - 1)) mod 2 ^ n"
proof -
  have e: "(2::nat) ^ n = 2 * 2 ^ (n - 1)" using half_exp[OF assms(1)] .
  have "int ((v + 2 ^ (n - 1)) mod 2 ^ n) = sv n v + 2 ^ (n - 1)" if v: "v < 2 ^ n" for v
  proof (cases "v < 2 ^ (n - 1)")
    case True
    then show ?thesis using e by (simp add: sv_nonneg)
  next
    case False
    then have "v + 2 ^ (n - 1) = (v - 2 ^ (n - 1)) + 2 ^ n" using e by simp
    then have "(v + 2 ^ (n - 1)) mod 2 ^ n = (v - 2 ^ (n - 1)) mod 2 ^ n" by (simp only: mod_add_self2)
    then have "(v + 2 ^ (n - 1)) mod 2 ^ n = v - 2 ^ (n - 1)" using v by simp
    moreover have "sv n v = int v - 2 ^ n" using sv_negative[OF assms(1), of v] False v by (simp add: of_nat_diff)
    moreover have "(2::int) ^ n = 2 * 2 ^ (n - 1)" using assms(1) by (simp add: power_eq_if)
    ultimately show ?thesis using False by (simp add: of_nat_diff)
  qed
  from this[OF assms(2)] this[OF assms(3)] show ?thesis by linarith
qed

lemma SLt_sound:
  assumes a: "norm_set n a" and b: "norm_set n b" and n: "0 < n"
  shows "sound_binary (iops_SLt bn a b) 1 (\<lambda>x y. of_bool (sv n x < sv n y)) a b"
  unfolding iops_SLt_def
proof (rule compare_soundI[OF a b])
  assume ne: "set_points a \<noteq> {}" "set_points b \<noteq> {}"
  obtain la ua where A: "bound_signs a = Some (2 ^ (n - 1) \<le> la, 2 ^ (n - 1) \<le> ua)" "set_points a \<subseteq> {la..ua}"
    using bound_signs_norm_set[OF a ne(1) n] by blast
  obtain lb ub where B: "bound_signs b = Some (2 ^ (n - 1) \<le> lb, 2 ^ (n - 1) \<le> ub)" "set_points b \<subseteq> {lb..ub}"
    using bound_signs_norm_set[OF b ne(2) n] by blast
  let ?same = "(\<not> 2 ^ (n - 1) \<le> la \<and> \<not> 2 ^ (n - 1) \<le> ua \<and> \<not> 2 ^ (n - 1) \<le> lb \<and> \<not> 2 ^ (n - 1) \<le> ub) \<or>
    (2 ^ (n - 1) \<le> la \<and> 2 ^ (n - 1) \<le> ua \<and> 2 ^ (n - 1) \<le> lb \<and> 2 ^ (n - 1) \<le> ub)"
  let ?shifted = "do { p \<leftarrow> PowerOfTwo (n - 1) n; offset \<leftarrow> IntervalSet_Precise p; x \<leftarrow> iops_Add bn a offset; y \<leftarrow> iops_Add bn b offset; iops_ULt x y }"
  have norm: "is_normalized a" "is_normalized b" using a b by (simp_all add: norm_set_def)
  have "sound_binary (if ?same then iops_ULt a b else ?shifted) 1 (\<lambda>x y. of_bool (sv n x < sv n y)) a b"
  proof (cases ?same)
    case True
    have "(x < y) = (sv n x < sv n y)" if "x \<in> set_points a" "y \<in> set_points b" for x y
    proof -
      have "la \<le> x" "x \<le> ua" "lb \<le> y" "y \<le> ub" "x < 2 ^ n" "y < 2 ^ n" using that A(2) B(2) norm_set_less[OF a] norm_set_less[OF b] by auto
      then show ?thesis using True sv_nonneg[of x n] sv_nonneg[of y n] sv_negative[OF n, of x] sv_negative[OF n, of y] by linarith
    qed
    then show ?thesis using True ULt_sound[OF a b] by (auto elim!: sound_binary_cong)
  next
    case False
    obtain off where off: "IntervalSet_Precise (mkBitmap n (2 ^ (n - 1))) = Some off" "norm_set n off" "set_points off = {2 ^ (n - 1)}"
      using Precise_ok[of "2 ^ (n - 1)" n] n by auto
    obtain x where x: "iops_Add bn a off = Some x" "norm_set n x" "\<And>u v. u \<in> set_points a \<Longrightarrow> v \<in> set_points off \<Longrightarrow> (u + v) mod 2 ^ n \<in> set_points x"
      using Add_sound[OF a off(2)] by (elim sound_binaryE) blast
    obtain y where y: "iops_Add bn b off = Some y" "norm_set n y" "\<And>u v. u \<in> set_points b \<Longrightarrow> v \<in> set_points off \<Longrightarrow> (u + v) mod 2 ^ n \<in> set_points y"
      using Add_sound[OF b off(2)] by (elim sound_binaryE) blast
    obtain t where t: "iops_ULt x y = Some t" "norm_set 1 t" "\<And>u v. u \<in> set_points x \<Longrightarrow> v \<in> set_points y \<Longrightarrow> of_bool (u < v) \<in> set_points t"
      using ULt_sound[OF x(2) y(2)] by (elim sound_binaryE) blast
    have "?shifted = Some t" using off(1) x(1) y(1) t(1) n by (simp add: PowerOfTwo_mk)
    moreover have "of_bool (sv n u < sv n v) \<in> set_points t" if "u \<in> set_points a" "v \<in> set_points b" for u v
      using t(3)[OF x(3)[OF that(1)] y(3)[OF that(2)]] off(3) signed_offset[OF n norm_set_less[OF a that(1)] norm_set_less[OF b that(2)]] by simp
    ultimately show ?thesis using False t(2) by (auto simp: sound_binary_def)
  qed
  then show "sound_binary (do {
     CHECK (is_normalized a);
     CHECK (is_normalized b);
     (la, ua) \<leftarrow> bound_signs a;
     (lb, ub) \<leftarrow> bound_signs b;
     if (\<not> la \<and> \<not> ua \<and> \<not> lb \<and> \<not> ub) \<or> (la \<and> ua \<and> lb \<and> ub) then iops_ULt a b
     else ?shifted }) 1 (\<lambda>x y. of_bool (sv n x < sv n y)) a b"
    using norm A(1) B(1) by (simp add: CHECK_def)
qed

end

section \<open>Reductions and gates\<close>

lemma CoversMax_norm_set: "norm_set n s \<Longrightarrow> IntervalSet_CoversMax s = Some (2 ^ n - 1 \<in> set_points s)"
  by (simp add: IntervalSet_CoversMax_def norm_set_BitCount AllOnes_mk mask_nat Covers_norm_set)

lemma AndReduce_sound:
  assumes "norm_set n a"
  shows "sound_unary (iops_AndReduce a) 1 (\<lambda>x. of_bool (x = 2 ^ n - 1)) a"
proof (cases "set_points a = {}")
  case True
  then show ?thesis using wf_of_width[of 1] by (simp add: sound_unary_def iops_AndReduce_def IsEmpty_norm_set[OF assms])
next
  case False
  obtain p where p: "IntervalSet_IsPrecise a = Some p" "p \<longleftrightarrow> (\<exists>v. set_points a = {v})" using IsPrecise_norm_set[OF assms] by blast
  let ?t = "if 2 ^ n - 1 \<notin> set_points a then kKnownZero else if p then kKnownOne else kUnknown"
  have "iops_AndReduce a = TernaryToOneBitRange ?t"
    using False p(1) by (simp add: iops_AndReduce_def IsEmpty_norm_set[OF assms] CoversMax_norm_set[OF assms])
  moreover have "tern_bit ?t (x = 2 ^ n - 1)" if "x \<in> set_points a" for x using that p(2) by auto
  ultimately show ?thesis using ternary_result1[of a ?t "\<lambda>x. x = 2 ^ n - 1"] by simp
qed

lemma OrReduce_sound:
  assumes "norm_set n a"
  shows "sound_unary (iops_OrReduce a) 1 (\<lambda>x. of_bool (x \<noteq> 0)) a"
proof (cases "set_points a = {}")
  case True
  then show ?thesis using wf_of_width[of 1] by (simp add: sound_unary_def iops_OrReduce_def IsEmpty_norm_set[OF assms])
next
  case False
  obtain p where p: "IntervalSet_IsPrecise a = Some p" "p \<longleftrightarrow> (\<exists>v. set_points a = {v})" using IsPrecise_norm_set[OF assms] by blast
  let ?t = "if 0 \<notin> set_points a then kKnownOne else if p then kKnownZero else kUnknown"
  have "iops_OrReduce a = TernaryToOneBitRange ?t"
    using False p(1) by (simp add: iops_OrReduce_def IsEmpty_norm_set[OF assms] CoversZero_norm_set[OF assms])
  moreover have "tern_bit ?t (x \<noteq> 0)" if "x \<in> set_points a" for x using that p(2) by (cases "x = 0") auto
  ultimately show ?thesis using ternary_result1[of a ?t "\<lambda>x. x \<noteq> 0"] by simp
qed

lemma Gate_sound:
  assumes c: "norm_set k c" and a: "norm_set n a"
  shows "sound_binary (iops_Gate c a) n (\<lambda>x y. if x = 0 then 0 else y) c a"
proof (cases "set_points c = {} \<or> set_points a = {}")
  case True
  then show ?thesis using wf_of_width[of n]
    by (auto simp: sound_binary_def iops_Gate_def norm_set_BitCount[OF a] IsEmpty_norm_set[OF a] IsEmpty_norm_set[OF c])
next
  case False
  obtain p where p: "IntervalSet_IsPrecise c = Some p" "p \<longleftrightarrow> (\<exists>v. set_points c = {v})" using IsPrecise_norm_set[OF c] by blast
  obtain z where z: "IntervalSet_Precise (mkBitmap n 0) = Some z" "norm_set n z" "set_points z = {0}" using Precise_ok[of 0 n] by auto
  obtain u where u: "Combine a z = Some u" "norm_set n u" "set_points u = set_points a \<union> {0}"
    using Combine_ok[OF norm_set_ok[OF a] norm_set_ok[OF z(2)]] z(3) by auto
  have "iops_Gate c a = (if p then if 0 \<in> set_points c then Some z else Some a else if 0 \<in> set_points c then Some u else Some a)"
    using False p(1) z(1) u(1)
    by (simp add: iops_Gate_def norm_set_BitCount[OF a] IsEmpty_norm_set[OF a] IsEmpty_norm_set[OF c] CoversZero_norm_set[OF c] Bits_mk)
  then show ?thesis using z u a p(2) by (cases p; cases "0 \<in> set_points c") (auto simp: sound_binary_def)
qed

lemma XorReduce_sound:
  assumes "norm_set n a"
  shows "sound_unary (iops_XorReduce a) 1 (\<lambda>x. of_bool (odd (card {i. i < n \<and> bit x i}))) a"
proof (cases "set_points a = {}")
  case True
  then show ?thesis using wf_of_width[of 1] by (simp add: sound_unary_def iops_XorReduce_def IsEmpty_norm_set[OF assms])
next
  case False
  let ?par = "\<lambda>x. odd (card {i. i < n \<and> bit x i})"
  obtain ps where ps: "a = nset n ps" "norm n ps" using assms by (rule norm_setE)
  have par: "precise_parity (ivl n l u) = Some (if l = u then Some (mkBitmap 1 (of_bool (?par l))) else None)" if "(l, u) \<in> set ps" for l u
  proof -
    have "l < 2 ^ n" "u < 2 ^ n" using that ps(2) by (auto simp: norm_def)
    then show ?thesis by (auto simp: precise_parity_def IsPrecise_ivl Interval_GetPreciseValue_def Reduce_mk)
  qed
  obtain l u qs where q: "ps = (l, u) # qs" using False ps(1) set_points_nset[OF ps(2)] by (cases ps) auto
  define out where "out = mkBitmap 1 (of_bool (?par l))"
  let ?loop = "loop (\<lambda>i _. do {
                   x \<leftarrow> precise_parity i;
                   case x of
                     None \<Rightarrow> Some (Return ())
                   | Some y \<Rightarrow> do { e \<leftarrow> Bits_eq y out; Some (if e then Continue () else Return ()) } }) (ivs n qs) ()"
  define bad where "bad = (\<exists>i\<in>set (ivs n qs). \<not> (\<exists>v. i = ivl n v v \<and> v < 2 ^ n \<and> ?par v = ?par l))"
  have lp: "?loop = Some (if bad then Return () else Continue ())"
    unfolding bad_def
  proof (rule loop_any)
    fix i assume "i \<in> set (ivs n qs)"
    then obtain l' u' where i: "i = ivl n l' u'" "(l', u') \<in> set ps" using q by auto
    then have lt: "l' < 2 ^ n" "u' < 2 ^ n" using ps(2) by (auto simp: norm_def)
    have "(\<exists>v. i = ivl n v v \<and> v < 2 ^ n \<and> ?par v = ?par l) \<longleftrightarrow> l' = u' \<and> ?par l' = ?par l"
      unfolding i(1) ivl_eq_iff using lt by (auto simp: take_bit_nat_eq_self intro!: exI[of _ u'])
    then show "do { x \<leftarrow> precise_parity i;
                   case x of
                     None \<Rightarrow> Some (Return ())
                   | Some y \<Rightarrow> do { e \<leftarrow> Bits_eq y out; Some (if e then Continue () else Return ()) } } =
      Some (if \<not> (\<exists>v. i = ivl n v v \<and> v < 2 ^ n \<and> ?par v = ?par l) then Return () else Continue ())"
      using par[OF i(2)] i(1) by (auto simp: Bits_eq_mk out_def)
  qed
  have ivals: "Intervals a = Some (ivl n l u # ivs n qs)" using nset_access(2)[of n ps] unfolding ps(1) by (simp add: q)
  have one: "IsOne out = Some (?par l)" using IsOne_mk[of "of_bool (?par l)" 1] by (simp add: out_def)
  have first: "precise_parity (ivl n l u) = Some (if l = u then Some out else None)" using par q by (simp add: out_def)
  have run: "iops_XorReduce a = TernaryToOneBitRange
      (if l \<noteq> u \<or> bad then kUnknown else if ?par l then kKnownOne else kKnownZero)"
    (is "_ = TernaryToOneBitRange ?t")
    using False by (cases bad) (simp_all add: iops_XorReduce_def IsEmpty_norm_set[OF assms] ivals first lp one)
  have "tern_bit ?t (?par x)" if "x \<in> set_points a" for x
  proof (cases "?t = kUnknown")
    case False
    then have one: "l = u" "\<forall>i\<in>set (ivs n qs). \<exists>v. i = ivl n v v \<and> v < 2 ^ n \<and> ?par v = ?par l" by (auto simp: bad_def split: if_splits)
    have "?par x = ?par l"
    proof -
      obtain l' u' where lu: "(l', u') \<in> set ps" "l' \<le> x" "x \<le> u'" using \<open>x \<in> set_points a\<close> ps by (auto simp: set_points_nset norm_pts)
      show ?thesis
      proof (cases "(l', u') \<in> set qs")
        case True
        then obtain v where v: "ivl n l' u' = ivl n v v" "v < 2 ^ n" "?par v = ?par l" using one(2) by force
        have "l' < 2 ^ n" "u' < 2 ^ n" using lu(1) ps(2) by (auto simp: norm_def)
        then have "l' = v" "u' = v" using v(1,2) by (auto simp: ivl_eq_iff take_bit_nat_eq_self)
        then show ?thesis using lu v(3) by simp
      next
        case False
        then show ?thesis using lu q one(1) by auto
      qed
    qed
    then show ?thesis using False by (auto split: if_splits)
  qed simp
  then show ?thesis unfolding run by (rule ternary_result1)
qed

section \<open>Needed bits\<close>

lemma MinimumBitCount_exact:
  assumes "norm_set n a"
  shows "\<exists>k. MinimumBitCount a = Some k \<and> (\<forall>x\<in>set_points a. x < 2 ^ k) \<and> (\<forall>j. (\<forall>x\<in>set_points a. x < 2 ^ j) \<longrightarrow> k \<le> j)"
proof (cases "set_points a = {}")
  case True
  then show ?thesis by (auto simp: MinimumBitCount_def IsEmpty_norm_set[OF assms])
next
  case False
  obtain u where u: "IntervalSet_UpperBound a = Some (Some (mkBitmap n u))" "u \<in> set_points a" "\<And>x. x \<in> set_points a \<Longrightarrow> x \<le> u"
    using bounds_norm_set[OF assms False] by fastforce
  have lt: "u < 2 ^ n" using norm_set_less[OF assms u(2)] .
  then have "nat_len u \<le> n" by (simp add: nat_len_le_iff)
  then have "MinimumBitCount a = Some (nat_len u)"
    using False u(1) lt by (simp add: MinimumBitCount_def IsEmpty_norm_set[OF assms] norm_set_BitCount[OF assms] CountLeadingZeros_mk take_bit_nat_eq_self)
  moreover have "x < 2 ^ nat_len u" if "x \<in> set_points a" for x using u(3)[OF that] nat_lt_exp_len[of u] by linarith
  moreover have "nat_len u \<le> j" if "\<forall>x\<in>set_points a. x < 2 ^ j" for j using that u(2) by (simp add: nat_len_le_iff)
  ultimately show ?thesis by blast
qed

lemma nat_not_value: "v < 2 ^ n \<Longrightarrow> nat_not n v = 2 ^ n - 1 - v"
proof -
  assume v: "v < 2 ^ n"
  have bits: "bit v i \<Longrightarrow> i < n" for i using v by (meson nat_lt_exp_iff_bits not_le)
  have "v + nat_not n v = v OR nat_not n v" by (rule disjunctive_add) simp
  also have "\<dots> = mask n" using bits by (intro bit_eqI) (auto simp: bit_or_iff bit_mask_iff)
  finally show ?thesis by (simp add: mask_nat)
qed

lemma leading_ones: "v < 2 ^ n \<Longrightarrow> CountLeadingOnes (mkBitmap n v) = Some (n - nat_len (2 ^ n - 1 - v))"
proof -
  assume v: "v < 2 ^ n"
  let ?w = "nat_not n v"
  have len: "nat_len ?w \<le> n" unfolding nat_not_value[OF v] nat_len_le_iff by simp
  have "length (takeWhile (\<lambda>i. bit v (n - 1 - i)) [0..<n]) = n - nat_len ?w"
  proof (rule length_takeWhile_upt)
    fix i assume i: "i < n - nat_len ?w"
    then have "\<not> bit ?w (n - 1 - i)" using nat_lt_exp_len[of ?w] by (simp only: nat_lt_exp_iff_bits) (simp add: nat_lt_exp_iff_bits)
    then show "bit v (n - 1 - i)" using i by simp
  next
    assume lt: "n - nat_len ?w < n"
    then have "?w \<noteq> 0" by (intro notI) simp
    then have "bit ?w (nat_len ?w - 1)" by (rule bit_nat_len)
    moreover have "n - 1 - (n - nat_len ?w) = nat_len ?w - 1" using len lt by linarith
    ultimately show "\<not> bit v (n - 1 - (n - nat_len ?w))" by simp
  qed simp
  then show ?thesis by (simp add: CountLeadingOnes_mk nat_not_value[OF v])
qed

lemma fits_signed_nonneg: "fits_signed j (int v) \<longleftrightarrow> v = 0 \<or> nat_len v < j"
proof (cases "v = 0")
  case False
  then have "0 < nat_len v" using nat_len_le_iff[of v 0] by (metis gr0I le_zero_eq less_one power_0)
  moreover have "int v < 2 ^ (j - 1) \<longleftrightarrow> nat_len v \<le> j - 1" by (simp add: nat_len_le_iff int_less_exp)
  moreover have "- (2 ^ (j - 1)) \<le> int v" by (rule order_trans[of _ 0]) simp_all
  ultimately show ?thesis using False by (auto simp: fits_signed_def)
qed (simp add: fits_signed_def)

lemma fits_signed_neg: "fits_signed j (- int v - 1) \<longleftrightarrow> nat_len v < j"
proof -
  have "- (2 ^ (j - 1)) \<le> - int v - 1 \<longleftrightarrow> int v < 2 ^ (j - 1)" by linarith
  then have "- (2 ^ (j - 1)) \<le> - int v - 1 \<longleftrightarrow> nat_len v \<le> j - 1" by (simp add: nat_len_le_iff)
  moreover have "- int v - 1 < 2 ^ (j - 1)" by (rule order_less_trans[of _ 0]) simp_all
  ultimately show ?thesis by (auto simp: fits_signed_def)
qed

lemma nat_len_mono: "v \<le> w \<Longrightarrow> nat_len v \<le> nat_len w"
  using nat_lt_exp_len[of w] by (simp only: nat_len_le_iff)

lemma MinimumSigned_extreme:
  assumes "0 < n" "2 ^ (n - 1) \<in> S \<or> (2 ^ (n - 1) - 1 \<in> S \<and> 1 < n)" "\<forall>x\<in>S. fits_signed j (sv n x)"
  shows "n \<le> j"
  using assms(2)
proof
  assume "2 ^ (n - 1) \<in> S"
  then have "fits_signed j (sv n (2 ^ (n - 1)))" using assms(3) by blast
  moreover have e: "(2::nat) ^ n = 2 * 2 ^ (n - 1)" using half_exp[OF assms(1)] .
  then have "(2::nat) ^ n - 2 ^ (n - 1) = 2 ^ (n - 1)" by simp
  then have "sv n (2 ^ (n - 1)) = - (2 ^ (n - 1))" using bignum.sv_negative[OF int_bn.bignum_axioms assms(1), of "2 ^ (n - 1)"] e by simp
  ultimately have "j \<noteq> 0" "(2::int) ^ (n - 1) \<le> 2 ^ (j - 1)" by (auto simp: fits_signed_def split: if_splits)
  then show ?thesis by (simp add: power_increasing_iff)
next
  assume h: "2 ^ (n - 1) - 1 \<in> S \<and> 1 < n"
  then have "fits_signed j (sv n (2 ^ (n - 1) - 1))" using assms(3) by blast
  moreover have "sv n (2 ^ (n - 1) - 1) = int (2 ^ (n - 1) - 1)" using bignum.sv_nonneg[OF int_bn.bignum_axioms, of "2 ^ (n - 1) - 1" n] by simp
  moreover have "nat_len (2 ^ (n - 1) - 1) = n - 1"
  proof -
    have "n - 1 = Suc (n - 2)" using conjunct2[OF h] by linarith
    then have "2 ^ (n - 2) \<le> (2::nat) ^ (n - 1) - 1" by (simp add: Suc_le_eq) 
    then show ?thesis using nat_len_eqI[of "2 ^ (n - 1) - 1" "n - 2"] \<open>n - 1 = Suc (n - 2)\<close> by simp
  qed
  moreover have "1 < (2::nat) ^ (n - 1)" using h by (intro one_less_power) auto
  then have "(2::nat) ^ (n - 1) - 1 \<noteq> 0" by linarith
  ultimately show ?thesis by (simp only: fits_signed_nonneg) simp
qed

end
