(* ===== verification/Interval_Ternary_Rules.thy ===== *)
theory Interval_Ternary_Rules
  imports Interval_Compare_Rules Evaluator_Theorems Bits_Contracts
begin

text \<open>
  Interval sets and ternary vectors. \<^verbatim>\<open>ExtractTernaryVector\<close> describes every value of a set, and
  \<^verbatim>\<open>FromTernary\<close> returns a set in normal form with every value of a vector, although it passes its
  intervals on without normalizing them. So the bitwise operations, which go through ternary vectors,
  are sound.
\<close>

unbundle bit_operations_syntax

section \<open>From intervals to ternary vectors\<close>

lemma ExtractTernaryInterval_ok:
  assumes "l \<le> u" "u < 2 ^ n"
  shows "\<exists>t. ExtractTernaryInterval (ivl n l u) = Some t \<and> length t = n \<and> (\<forall>x\<in>{l..u}. tern_ok t x)"
proof -
  obtain k where k: "k \<le> n" "LongestCommonPrefixMSB [mkBitmap n l, mkBitmap n u] = Some (mkBitmap k (drop_bit (n - k) l))"
      "\<forall>i<n. n - k \<le> i \<longrightarrow> bit u i = bit l i"
    using longest_common_prefix_correct[of "[l, u]" n] by auto
  let ?known = "\<lambda>i. if bit l i then kKnownOne else kKnownZero"
  let ?P = "\<lambda>j r. length r = n \<and> (\<forall>i<n. r ! i = kUnknown \<or> n - k \<le> i \<and> r ! i = ?known i)"
  have "\<exists>t. foldM (\<lambda>j result. do { b \<leftarrow> Get (mkBitmap k (drop_bit (n - k) l)) j;
      set_opt result (n - k + j) (if b then kKnownOne else kKnownZero) }) [0..<k] (replicate n kUnknown) = Some t \<and> ?P k t"
  proof (rule foldM_upt_inv[where P = ?P])
    fix j r assume j: "j < k" and r: "?P j r"
    have i: "n - k + j < n" using j k(1) by simp
    then have "set_opt r (n - k + j) (?known (n - k + j)) = Some (r[n - k + j := ?known (n - k + j)])" using r by simp
    moreover have "?P (Suc j) (r[n - k + j := ?known (n - k + j)])"
    proof (intro conjI allI impI)
      fix i assume "i < n"
      then show "r[n - k + j := ?known (n - k + j)] ! i = kUnknown \<or> n - k \<le> i \<and> r[n - k + j := ?known (n - k + j)] ! i = ?known i"
        using r by (cases "i = n - k + j") simp_all
    qed (use r in simp)
    ultimately show "\<exists>r'. do { b \<leftarrow> Get (mkBitmap k (drop_bit (n - k) l)) j;
        set_opt r (n - k + j) (if b then kKnownOne else kKnownZero) } = Some r' \<and> ?P (Suc j) r'"
      using j by (simp add: Get_mk bit_drop_bit_eq)
  qed simp_all
  then obtain t where t: "ExtractTernaryInterval (ivl n l u) = Some t" "?P k t"
    using k(1,2) by (auto simp: ExtractTernaryInterval_def ivl_rules)
  have "drop_bit (n - k) u = drop_bit (n - k) l"
  proof (rule bit_eqI)
    fix i
    have "\<not> bit u j \<and> \<not> bit l j" if "n \<le> j" for j
      using that assms nat_lt_exp_iff_bits[of u n] nat_lt_exp_iff_bits[of l n] by auto
    then show "bit (drop_bit (n - k) u) i = bit (drop_bit (n - k) l) i" using k(3) by (cases "n - k + i < n") (auto simp: bit_drop_bit_eq)
  qed
  then have same: "drop_bit (n - k) x = drop_bit (n - k) l" if "x \<in> {l..u}" for x
    using that div_le_mono[of l x "2 ^ (n - k)"] div_le_mono[of x u "2 ^ (n - k)"] by (simp add: drop_bit_eq_div)
  have "bit x i = bit l i" if "x \<in> {l..u}" "n - k \<le> i" for x i
    using arg_cong[OF same[OF that(1)], of "\<lambda>w. bit w (i - (n - k))"] that(2) by (simp add: bit_drop_bit_eq)
  then have "tern_ok t x" if "x \<in> {l..u}" for x
    using that t(2) unfolding tern_ok_def by (metis tern_bit_simps)
  then show ?thesis using t by blast
qed

lemma UpdateWithIntersection_ok:
  assumes "length l = length r"
  shows "\<exists>t. UpdateWithIntersection l r = Some t \<and> length t = length l \<and> (\<forall>v. tern_ok l v \<or> tern_ok r v \<longrightarrow> tern_ok t v)"
proof -
  let ?f = "\<lambda>i (lhs :: TernaryVector). if lhs ! i \<noteq> r ! i then lhs[i := kUnknown] else lhs"
  have "length (fold ?f [0..<k] l) = length l \<and> (\<forall>i<length l. fold ?f [0..<k] l ! i = kUnknown \<or>
      fold ?f [0..<k] l ! i = l ! i \<and> (i < k \<longrightarrow> l ! i = r ! i))" if "k \<le> length l" for k
    using that by (induction k) (auto simp: nth_list_update less_Suc_eq)
  note nth = this[OF order_refl]
  define t where "t = fold ?f [0..<length l] l"
  have t: "length t = length l" "\<And>i. i < length l \<Longrightarrow> t ! i = kUnknown \<or> t ! i = l ! i \<and> l ! i = r ! i" using nth unfolding t_def by blast+
  have "tern_bit (t ! i) b" if "i < length l" "tern_bit (l ! i) b \<or> tern_bit (r ! i) b" for b i
    using t(2)[OF that(1)] that(2) by auto
  then have "tern_ok t v" if "tern_ok l v \<or> tern_ok r v" for v using that t(1) assms by (auto simp: tern_ok_def)
  moreover have "UpdateWithIntersection l r = Some t" using assms by (simp add: UpdateWithIntersection_def CHECK_def t_def)
  ultimately show ?thesis using t(1) by blast
qed

lemma ExtractTernaryVector_ok:
  assumes "norm_set n s" "set_points s \<noteq> {}"
  shows "\<exists>t. ExtractTernaryVector s = Some t \<and> length t = n \<and> (\<forall>x\<in>set_points s. tern_ok t x)"
proof -
  obtain ps where ps: "s = nset n ps" "norm n ps" using assms(1) by (rule norm_setE)
  have step: "\<exists>t. foldM (\<lambda>i result. do { t \<leftarrow> ExtractTernaryInterval i; UpdateWithIntersection result t }) (ivs n qs) r = Some t \<and>
      length t = n \<and> (\<forall>x. tern_ok r x \<or> x \<in> pts n qs \<longrightarrow> tern_ok t x)" if "norm n qs" "length r = n" for qs r
    using that
  proof (induction qs arbitrary: r)
    case (Cons q qs)
    obtain l u where q: "q = (l, u)" by fastforce
    then have lu: "l \<le> u" "u < 2 ^ n" "norm n qs" using Cons.prems(1) by (auto simp: norm_Cons)
    obtain t where t: "ExtractTernaryInterval (ivl n l u) = Some t" "length t = n" "\<forall>x\<in>{l..u}. tern_ok t x"
      using ExtractTernaryInterval_ok[OF lu(1,2)] by blast
    obtain r' where r': "UpdateWithIntersection r t = Some r'" "length r' = n" "\<forall>v. tern_ok r v \<or> tern_ok t v \<longrightarrow> tern_ok r' v"
      using UpdateWithIntersection_ok[of r t] Cons.prems(2) t(2) by auto
    show ?case using Cons.IH[OF lu(3) r'(2)] t r' lu(1) q by (fastforce simp: wrap_points_def)
  qed simp
  obtain q qs where qs: "ps = q # qs" using assms(2) ps using set_points_nset[OF ps(2)] by (cases ps) auto
  obtain l u where q: "q = (l, u)" by fastforce
  then have lu: "l \<le> u" "u < 2 ^ n" "norm n qs" using ps(2) qs by (auto simp: norm_Cons)
  obtain t where t: "ExtractTernaryInterval (ivl n l u) = Some t" "length t = n" "\<forall>x\<in>{l..u}. tern_ok t x"
    using ExtractTernaryInterval_ok[OF lu(1,2)] by blast
  obtain w where w: "foldM (\<lambda>i result. do { t \<leftarrow> ExtractTernaryInterval i; UpdateWithIntersection result t }) (ivs n qs) t = Some w"
      "length w = n" "\<forall>x. tern_ok t x \<or> x \<in> pts n qs \<longrightarrow> tern_ok w x"
    using step[OF lu(3) t(2)] by blast
  have "ExtractTernaryVector s = Some w"
    using w(1) t(1) ps(1) qs q by (simp add: ExtractTernaryVector_def CHECK_def IntervalSet_IsEmpty_def Intervals_def)
  moreover have "tern_ok w x" if "x \<in> set_points s" for x
    using that t(3) w(3) lu(1) set_points_nset[OF ps(2)] ps(1) qs q by (auto simp: wrap_points_def)
  ultimately show ?thesis using w(2) by blast
qed

section \<open>The least and the greatest value of a vector\<close>

definition tmin :: "TernaryVector \<Rightarrow> nat" where
  "tmin t = nat_of_bits (length t) (\<lambda>i. t ! i = kKnownOne)"

definition tmax :: "TernaryVector \<Rightarrow> nat" where
  "tmax t = nat_of_bits (length t) (\<lambda>i. t ! i = kKnownOne \<or> t ! i = kUnknown)"

lemma bits_le: "(\<And>i. bit a i \<Longrightarrow> bit b i) \<Longrightarrow> a \<le> b" for a b :: nat
proof -
  assume "\<And>i. bit a i \<Longrightarrow> bit b i"
  then have "a AND b = a" by (intro bit_eqI) (auto simp: bit_and_iff)
  then show ?thesis by (metis and_nat_def nat_int AND_upper2 of_nat_0_le_iff of_nat_and_eq of_nat_le_iff)
qed

lemma tmin_tmax_less [simp]: "tmin t < 2 ^ length t" "tmax t < 2 ^ length t"
  by (simp_all add: tmin_def tmax_def nat_of_bits_less)

lemma tmin_le: "tern_ok t v \<Longrightarrow> tmin t \<le> v"
  by (rule bits_le) (auto simp: tmin_def tern_ok_def)

lemma tmax_ge: "tern_ok t v \<Longrightarrow> v < 2 ^ length t \<Longrightarrow> v \<le> tmax t"
  by (rule bits_le) (auto simp: tmax_def tern_ok_def tern_bit_def nat_lt_exp_iff_bits not_le; metis not_le)

lemma tern_ok_tmin: "tern_ok t (tmin t)"
  by (auto simp: tern_ok_def tern_bit_def tmin_def)

lemma tmin_tmax_drop: "tmin t div 2 ^ x = tmin (drop x t)" "tmax t div 2 ^ x = tmax (drop x t)"
  unfolding drop_bit_eq_div[symmetric] by (rule bit_eqI, auto simp: tmin_def tmax_def bit_drop_bit_eq)+

lemma tern_ok_drop: "tern_ok t v \<Longrightarrow> tern_ok (drop x t) (v div 2 ^ x)"
  unfolding drop_bit_eq_div[symmetric] by (simp add: tern_ok_def bit_drop_bit_eq)

lemma known_values: "IsFullyKnown t \<Longrightarrow> tmax t = tmin t"
  by (rule bit_eqI) (auto simp: tmin_def tmax_def IsFullyKnown_def list_all_length IsKnown_def)

lemma KnownBitsValues_min_max:
  "ToKnownBitsValues t False = Some (mkBitmap (length t) (tmin t))" "ToKnownBitsValues t True = Some (mkBitmap (length t) (tmax t))"
  by (simp_all add: ToKnownBitsValues_mk tmin_def tmax_def)

section \<open>Which bits are extended\<close>

definition unknown_at :: "TernaryVector \<Rightarrow> nat \<Rightarrow> bool" where
  "unknown_at t i = (t ! i = kUnknown)"

lemma x_locations_last:
  "a \<le> b \<Longrightarrow> fold (x_location_step t m) [a..<b] [] =
     drop (length (filter (unknown_at t) [a..<b]) - (m + 1)) (filter (unknown_at t) [a..<b])"
proof (induction b rule: nat_induct_at_least)
  case (Suc b)
  let ?L = "filter (unknown_at t) [a..<b]"
  have "fold (x_location_step t m) [a..<Suc b] [] = x_location_step t m b (drop (length ?L - (m + 1)) ?L)" using Suc by simp
  also have "\<dots> = drop (length (filter (unknown_at t) [a..<Suc b]) - (m + 1)) (filter (unknown_at t) [a..<Suc b])"
  proof (cases "length ?L \<le> m")
    case True
    then show ?thesis using Suc.hyps by (simp add: x_location_step_def unknown_at_def Let_def)
  next
    case False
    let ?D = "drop (length ?L - (m + 1)) ?L"
    have "?D \<noteq> []" "length ?D = m + 1" using False by auto
    moreover have "tl ?D = drop (length ?L - m) ?L" using False by (simp add: tl_drop drop_Suc[symmetric] Suc_diff_Suc)
    ultimately show ?thesis using Suc.hyps False by (simp add: x_location_step_def unknown_at_def Let_def Suc_diff_le)
  qed
  finally show ?case .
qed simp

lemma skip_contiguous_ok:
  assumes "skip_contiguous x xs = (y, ys)" "sorted_wrt (<) xs" "\<forall>z\<in>set xs. x \<le> z \<and> z < B" "x \<le> B"
  shows "x \<le> y \<and> y \<le> B \<and> set ys = {z \<in> set xs. y \<le> z} \<and> y \<notin> set ys"
  using assms
proof (induction xs arbitrary: x)
  case (Cons z xs)
  show ?case
  proof (cases "x = z")
    case True
    have "skip_contiguous (x + 1) xs = (y, ys)" "sorted_wrt (<) xs" "\<forall>w\<in>set xs. x + 1 \<le> w \<and> w < B" "x + 1 \<le> B"
      using Cons.prems True by auto
    note IH = Cons.IH[OF this]
    then have "z < y" using True by linarith
    then have "{w \<in> set (z # xs). y \<le> w} = {w \<in> set xs. y \<le> w}" by auto
    then show ?thesis using IH by (metis add_leD1)
  next
    case False
    then have "x < z" using Cons.prems(3) by auto
    moreover have "\<forall>w\<in>set xs. z < w" using Cons.prems(2) by simp
    moreover have "y = x" "ys = z # xs" using Cons.prems(1) False by auto
    ultimately show ?thesis using Cons.prems(4) by auto
  qed
qed simp

lemma sorted_filter_upt: "sorted_wrt (<) (filter P [a..<b])"
  by (intro sorted_wrt_filter) simp

lemma extend_unknown_ok:
  assumes "extend_unknown t m = (x, xs)"
  shows "x \<le> length t" "xs = [] \<Longrightarrow> IsFullyKnown (drop x t)" "xs \<noteq> [] \<Longrightarrow> x < length t \<and> t ! x \<noteq> kUnknown"
proof -
  define a where "a = length (takeWhile (\<lambda>v. \<not> IsKnown v) t)"
  define L where "L = filter (unknown_at t) [a..<length t]"
  define K where "K = drop (length L - (m + 1)) L"
  have a: "a \<le> length t" "a < length t \<Longrightarrow> t ! a \<noteq> kUnknown"
    using nth_length_takeWhile[of "\<lambda>v. \<not> IsKnown v" t] by (auto simp: a_def length_takeWhile_le IsKnown_def)
  have res: "(x, xs) = (if length K > m then skip_contiguous (hd K + 1) (tl K) else (a, K))"
    using assms x_locations_last[OF a(1), of t m]
    unfolding extend_unknown_def Let_def a_def[symmetric] L_def[symmetric] K_def[symmetric] by (simp split: if_splits)
  have K: "sorted_wrt (<) K" "set K \<subseteq> {i. i < length t \<and> t ! i = kUnknown}"
    using sorted_filter_upt[of "unknown_at t" a "length t"] set_drop_subset[of "length L - (m + 1)" L]
    by (auto simp: K_def L_def unknown_at_def sorted_wrt_drop)
  have all: "i \<in> set K" if hi: "i < length t" "t ! i = kUnknown" "\<exists>j\<in>set K. j \<le> i" for i
  proof -
    obtain j where j: "j \<in> set K" "j \<le> i" using hi(3) by blast
    then have "j \<in> set L" by (auto simp: K_def dest: in_set_dropD)
    then have i: "i \<in> set L" using hi(1,2) j(2) by (auto simp: L_def unknown_at_def)
    then obtain p where p: "p < length L" "L ! p = i" by (auto simp: in_set_conv_nth)
    obtain q where q: "length L - (m + 1) \<le> q" "q < length L" "L ! q = j" using j(1) by (auto simp: K_def in_set_conv_nth) (metis add.commute le_add1 less_diff_conv)
    have "q \<le> p"
      using sorted_wrt_nth_less[OF sorted_filter_upt[of "unknown_at t" a "length t", folded L_def], of p q] p q j(2) by (metis leD not_le_imp_less)
    then show ?thesis using p q(1) by (auto simp: K_def in_set_conv_nth intro!: exI[of _ "p - (length L - (m + 1))"])
  qed
  have "x \<le> length t \<and> (xs = [] \<longrightarrow> IsFullyKnown (drop x t)) \<and> (xs \<noteq> [] \<longrightarrow> x < length t \<and> t ! x \<noteq> kUnknown)"
  proof (cases "length K > m")
    case True
    then obtain h K' where h: "K = h # K'" by (cases K) auto
    have "\<forall>z\<in>set K'. h + 1 \<le> z \<and> z < length t" "h + 1 \<le> length t" "sorted_wrt (<) K'" using K h by auto
    moreover have "skip_contiguous (h + 1) K' = (x, xs)" using res True h by simp
    ultimately have "h + 1 \<le> x \<and> x \<le> length t \<and> set xs = {z \<in> set K'. x \<le> z} \<and> x \<notin> set xs" by (intro skip_contiguous_ok)
    then have x: "h + 1 \<le> x" "x \<le> length t" "\<And>i. i \<in> set xs \<longleftrightarrow> i \<in> set K' \<and> x \<le> i" "x \<notin> set xs" by blast+
    have later: "i \<in> set xs" if "i < length t" "t ! i = kUnknown" "x \<le> i" for i
      using all[OF that(1,2)] that(3) h x(1,3) by auto
    have "x < length t \<and> t ! x \<noteq> kUnknown" if "xs \<noteq> []"
    proof -
      have "hd xs \<in> set xs" using that by simp
      then have "x \<le> hd xs" "hd xs < length t" using x(3) K(2) h by auto
      then show ?thesis using later[of x] x(4) by auto
    qed
    moreover have "IsFullyKnown (drop x t)" if "xs = []"
      using later[of "x + i" for i] that by (fastforce simp: IsFullyKnown_def list_all_length IsKnown_def)
    ultimately show ?thesis using x(2) by blast
  next
    case False
    then have "(x, xs) = (a, K)" using res by simp
    moreover have "length L \<le> m" using False by (simp add: K_def)
    then have "K = L" by (simp add: K_def)
    ultimately have KL: "x = a" "xs = L" by simp_all
    have "L = [] \<Longrightarrow> IsFullyKnown (drop a t)" by (auto simp: L_def filter_empty_conv IsFullyKnown_def list_all_length IsKnown_def unknown_at_def)
    moreover have "L \<noteq> [] \<Longrightarrow> a < length t" by (cases "a < length t") (simp_all add: L_def)
    ultimately show ?thesis using KL a by blast
  qed
  then show "x \<le> length t" "xs = [] \<Longrightarrow> IsFullyKnown (drop x t)" "xs \<noteq> [] \<Longrightarrow> x < length t \<and> t ! x \<noteq> kUnknown" by blast+
qed

section \<open>From ternary vectors to intervals\<close>

lemma all_bits_range_for: "range_for fuel it = Some xs \<Longrightarrow> all_bits_loop it = Some xs"
proof (induction fuel arbitrary: it xs)
  case (Suc fuel)
  then show ?case by (subst all_bits_loop.simps) (auto split: bind_splits if_splits)
qed simp

lemma all_bits_values:
  "\<exists>it. ternary_begin t = Some it \<and> all_bits_loop it = Some (map (\<lambda>r. mkBitmap (length t) (deposit t r)) [0..<2 ^ unknowns t])"
  using all_bits_range_for[OF range_for_from[of 0 "2 ^ unknowns t" t "2 ^ unknowns t + 1"]] by (simp add: ternary_begin_mk at_rank_def)

definition group :: "TernaryVector \<Rightarrow> nat \<Rightarrow> nat \<Rightarrow> nat \<times> nat" where
  "group t x v = (max (tmin t) (v * 2 ^ x), min (tmax t) (v * 2 ^ x + (2 ^ x - 1)))"

lemma ternary_group_mk:
  assumes "x \<le> length t" "v < 2 ^ (length t - x)"
  shows "ternary_group (mkBitmap (length t) (tmin t)) (mkBitmap (length t) (tmax t)) x (mkBitmap (length t - x) v) =
    Some (ivl (length t) (fst (group t x v)) (snd (group t x v)))"
proof -
  let ?n = "length t"
  have "push_bit x v + mask x = push_bit x v OR mask x" by (rule disjunctive_add) (auto simp: bit_push_bit_iff bit_mask_iff)
  then have "v * 2 ^ x OR (2 ^ x - 1) = v * 2 ^ x + (2 ^ x - 1)" by (simp add: push_bit_eq_mult mask_eq_exp_minus_1)
  moreover have "v * 2 ^ x + (2 ^ x - 1) < 2 ^ ?n" "v * 2 ^ x < 2 ^ ?n"
  proof -
    have "(v + 1) * 2 ^ x \<le> 2 ^ (?n - x) * 2 ^ x" using assms(2) by (intro mult_le_mono1) simp
    then have "(v + 1) * 2 ^ x \<le> 2 ^ ?n" using assms(1) by (simp flip: power_add)
    then have "v * 2 ^ x + 2 ^ x \<le> 2 ^ ?n" by simp
    moreover have "0 < (2 :: nat) ^ x" by simp
    ultimately show "v * 2 ^ x + (2 ^ x - 1) < 2 ^ ?n" "v * 2 ^ x < 2 ^ ?n" by linarith+
  qed
  ultimately show ?thesis using assms(1)
    by (simp add: ternary_group_def Bits_mk AllOnes_mk Concat2_mk UMin_UMax_mk take_bit_nat_eq_self closed_interval group_def mask_eq_exp_minus_1
      push_bit_eq_mult)
qed

text \<open>The groups of the values of the high bits, in order, are a normal form when the lowest high bit is known.\<close>

lemma group_bounds:
  assumes "x \<le> length t" "tern_ok (drop x t) v" "v < 2 ^ (length t - x)"
  shows "fst (group t x v) \<le> snd (group t x v)" "snd (group t x v) < 2 ^ length t" "v * 2 ^ x \<le> fst (group t x v)"
    "snd (group t x v) < (v + 1) * 2 ^ x"
proof -
  have lo: "tmin t div 2 ^ x \<le> v" "v \<le> tmax t div 2 ^ x" using tmin_le[OF assms(2)] tmax_ge[OF assms(2)] assms(1,3) by (simp_all add: tmin_tmax_drop)
  have p: "0 < (2 :: nat) ^ x" by simp
  have "tmin t < (v + 1) * 2 ^ x" using lo(1) p by (metis Suc_eq_plus1 div_less_iff_less_mult le_imp_less_Suc)
  moreover have "v * 2 ^ x \<le> tmax t" using lo(2) p by (metis less_eq_div_iff_mult_less_eq)
  moreover have "tmin t \<le> tmax t" using tmax_ge[OF tern_ok_tmin] by simp
  moreover have "(v + 1) * 2 ^ x = v * 2 ^ x + 2 ^ x" by simp
  ultimately show "fst (group t x v) \<le> snd (group t x v)" "snd (group t x v) < (v + 1) * 2 ^ x" "v * 2 ^ x \<le> fst (group t x v)"
    "snd (group t x v) < 2 ^ length t"
    using p tmin_tmax_less(2)[of t] unfolding group_def fst_conv snd_conv by linarith+
qed

lemma group_covers:
  assumes "tern_ok t w" "w < 2 ^ length t"
  shows "fst (group t x (w div 2 ^ x)) \<le> w \<and> w \<le> snd (group t x (w div 2 ^ x))"
proof -
  have "w div 2 ^ x * 2 ^ x + w mod 2 ^ x = w" "w mod 2 ^ x < 2 ^ x" by (rule div_mult_mod_eq) simp
  then show ?thesis using tmin_le[OF assms(1)] tmax_ge[OF assms] unfolding group_def fst_conv snd_conv by linarith
qed

lemma groups_norm:
  assumes "x < length t" "t ! x \<noteq> kUnknown"
  shows "norm (length t) (map (\<lambda>r. group t x (deposit (drop x t) r)) [0..<2 ^ unknowns (drop x t)])"
proof -
  let ?p = "drop x t" and ?d = "\<lambda>r. deposit (drop x t) r"
  have d: "tern_ok ?p (?d r)" "?d r < 2 ^ (length t - x)" for r using tern_ok_deposit[of ?p r] deposit_less[of ?p r] by simp_all
  note b = group_bounds[OF less_imp_le[OF assms(1)] d]
  have apart: "?d r + 2 \<le> ?d s" if "r < s" "s < 2 ^ unknowns ?p" for r s
  proof -
    have "tern_bit (t ! x) (odd (?d r))" "tern_bit (t ! x) (odd (?d s))"
      using d(1)[of r] d(1)[of s] assms(1) by (auto simp: tern_ok_def bit_0 dest: spec[of _ 0])
    then have "odd (?d r) = odd (?d s)" using assms(2) by (auto simp: tern_bit_def)
    then show ?thesis using deposit_mono[OF that] by presburger
  qed
  have "snd (group t x (?d r)) + 1 < fst (group t x (?d s))" if "r < s" "s < 2 ^ unknowns ?p" for r s
  proof -
    have "(?d r + 1) * 2 ^ x + 2 ^ x \<le> ?d s * 2 ^ x"
      using mult_le_mono1[OF apart[OF that], of "2 ^ x"] by (simp add: algebra_simps)
    moreover have "0 < (2 :: nat) ^ x" by simp
    ultimately show ?thesis using b(4)[of r] b(3)[of s] by linarith
  qed
  then show ?thesis using b(1,2) by (auto simp: norm_def sorted_wrt_iff_nth_less case_prod_unfold)
qed

lemma FromTernary_ok:
  assumes "0 \<le> m"
  shows "\<exists>s. FromTernary t m = Some s \<and> norm_set (length t) s \<and> (\<forall>v<2 ^ length t. tern_ok t v \<longrightarrow> v \<in> set_points s)"
proof (cases "IsFullyKnown t")
  case True
  then have "v = tmin t" if "v < 2 ^ length t" "tern_ok t v" for v using tmin_le[OF that(2)] tmax_ge[OF that(2,1)] known_values by simp
  moreover obtain s where "IntervalSet_Precise (mkBitmap (length t) (tmin t)) = Some s" "norm_set (length t) s" "set_points s = {tmin t}"
    using Precise_ok[OF tmin_tmax_less(1)] by blast
  ultimately show ?thesis using True assms by (auto simp: FromTernary_def CHECK_def KnownBitsValues_min_max)
next
  case False
  let ?n = "length t"
  obtain x xs where x: "extend_unknown t (nat m) = (x, xs)" by fastforce
  note ex = extend_unknown_ok[OF x]
  show ?thesis
  proof (cases "xs = [] \<or> x = ?n")
    case True
    let ?v = "tmin (drop x t)"
    have v: "?v < 2 ^ (?n - x)" using tmin_tmax_less(1)[of "drop x t"] by simp
    note b = group_bounds[OF ex(1) tern_ok_tmin v]
    have known: "IsFullyKnown (drop x t)" using True ex(2) by (auto simp: IsFullyKnown_def)
    have only: "w div 2 ^ x = ?v" if "w < 2 ^ ?n" "tern_ok t w" for w
    proof -
      have "w div 2 ^ x < 2 ^ (?n - x)" using that(1) ex(1) by (simp add: div_less_iff_less_mult flip: power_add)
      then show ?thesis
        using tmin_le[OF tern_ok_drop[OF that(2), of x]] tmax_ge[OF tern_ok_drop[OF that(2), of x]] known_values[OF known] by simp
    qed
    obtain s where s: "IntervalSet_Of [ivl ?n (fst (group t x ?v)) (snd (group t x ?v))] = Some s" "norm_set ?n s"
        "set_points s = wrap_points ?n (fst (group t x ?v)) (snd (group t x ?v))"
      using Of_single[of "fst (group t x ?v)" ?n "snd (group t x ?v)"] b by auto
    have "w \<in> set_points s" if "w < 2 ^ ?n" "tern_ok t w" for w
      using group_covers[OF that(2,1), of x] only[OF that] b(1) s(3) by (simp add: wrap_points_def)
    moreover have "FromTernary t m = Some s"
      using False True assms x s(1) ternary_group_mk[OF ex(1) v] by (simp add: FromTernary_def CHECK_def KnownBitsValues_min_max Let_def)
    ultimately show ?thesis using s(2) by blast
  next
    case several: False
    let ?qs = "map (\<lambda>r. group t x (deposit (drop x t) r)) [0..<2 ^ unknowns (drop x t)]"
    have lt: "x < ?n" "t ! x \<noteq> kUnknown" using ex(3) several by auto
    note norm = groups_norm[OF lt]
    obtain it where it: "ternary_begin (drop x t) = Some it"
        "all_bits_loop it = Some (map (\<lambda>r. mkBitmap (?n - x) (deposit (drop x t) r)) [0..<2 ^ unknowns (drop x t)])"
      using all_bits_values[of "drop x t"] by auto
    have "ternary_group (mkBitmap ?n (tmin t)) (mkBitmap ?n (tmax t)) x (mkBitmap (?n - x) (deposit (drop x t) r)) =
        Some (ivl ?n (fst (group t x (deposit (drop x t) r))) (snd (group t x (deposit (drop x t) r))))" for r
      using ternary_group_mk[OF ex(1)] deposit_less[of "drop x t" r] by simp
    then have "mapM (ternary_group (mkBitmap ?n (tmin t)) (mkBitmap ?n (tmax t)) x)
        (map (\<lambda>r. mkBitmap (?n - x) (deposit (drop x t) r)) [0..<2 ^ unknowns (drop x t)]) = Some (ivs ?n ?qs)"
      by (simp add: mapM_Some_iff list_all2_map1 list_all2_map2 list.rel_refl case_prod_unfold)
    then have "FromTernary t m = Some (nset ?n ?qs)"
      using False several assms x it UnsafeFromNormalized_ivs[OF norm] by (simp add: FromTernary_def CHECK_def KnownBitsValues_min_max Let_def)
    moreover have "w \<in> pts ?n ?qs" if "w < 2 ^ ?n" "tern_ok t w" for w
    proof -
      have "w div 2 ^ x < 2 ^ (?n - x)" using that(1) ex(1) by (simp add: div_less_iff_less_mult flip: power_add)
      then have "w div 2 ^ x \<in> deposit (drop x t) ` {..<2 ^ unknowns (drop x t)}"
        unfolding ternary_values using tern_ok_drop[OF that(2)] by simp
      then obtain r where "r < 2 ^ unknowns (drop x t)" "w div 2 ^ x = deposit (drop x t) r" by blast
      then have "group t x (w div 2 ^ x) \<in> set ?qs" by simp
      then show ?thesis using group_covers[OF that(2,1), of x] unfolding norm_pts[OF norm] by (auto simp: case_prod_unfold)
    qed
    ultimately show ?thesis using norm_set_nset[OF norm] set_points_nset[OF norm] by auto
  qed
qed

section \<open>Bitwise operations\<close>

lemma vrel_tern_ok: "vrel tern_bit t (int v) \<longleftrightarrow> tern_ok t v"
  by (simp add: vrel_def tern_ok_def bit_of_nat_iff_bit)

lemma Not_sound:
  assumes "norm_set n a"
  shows "sound_unary (iops_Not a) n (\<lambda>x. 2 ^ n - 1 - x) a"
proof (cases "set_points a = {} \<or> n = 1")
  case True
  show ?thesis
  proof (cases "n = 1")
    case one: True
    then show ?thesis using Not_one_bit assms by simp
  next
    case False
    then show ?thesis using True wf_of_width[of n]
      by (simp add: sound_unary_def iops_Not_def norm_set_BitCount[OF assms] IsEmpty_norm_set[OF assms])
  qed
next
  case False
  obtain t where t: "ExtractTernaryVector a = Some t" "length t = n" "\<forall>x\<in>set_points a. tern_ok t x"
    using ExtractTernaryVector_ok[OF assms] False by blast
  let ?r = "ae_BitwiseNot TernaryEvaluator t"
  have len: "length ?r = n" using t(2) by (simp add: ae_BitwiseNot_def)
  obtain s where s: "FromTernary ?r 4 = Some s" "norm_set n s" "\<forall>v<2 ^ n. tern_ok ?r v \<longrightarrow> v \<in> set_points s"
    using FromTernary_ok[of 4 ?r] len by auto
  have "2 ^ n - 1 - x \<in> set_points s" if x: "x \<in> set_points a" for x
  proof -
    have "vrel tern_bit ?r (NOT (int x))" using t(3) x by (intro tern.BitwiseNot_rel) (simp add: vrel_tern_ok)
    then have "tern_ok ?r (nat_not n x)" using len by (auto simp: vrel_def tern_ok_def bit_not_iff bit_of_nat_iff_bit)
    then show ?thesis using s(3) nat_not_value[OF norm_set_less[OF assms x]] by (simp add: less_imp_diff_less)
  qed
  then show ?thesis using False t(1) s
    by (simp add: sound_unary_def iops_Not_def norm_set_BitCount[OF assms] IsEmpty_norm_set[OF assms])
qed

lemma bitwise_soundI:
  assumes a: "norm_set n a" and b: "norm_set n b"
    and bit: "\<And>s t p q. tern_bit s p \<Longrightarrow> tern_bit t q \<Longrightarrow> tern_bit (op s t) (g p q)"
    and one: "\<And>x y. x < 2 \<Longrightarrow> y < 2 \<Longrightarrow> f x y = of_bool (g (x = 1) (y = 1))"
    and rest: "set_points a \<noteq> {} \<Longrightarrow> set_points b \<noteq> {} \<Longrightarrow> sound_binary (rest n) n f a b"
  shows "sound_binary (bitwise_prologue op a b rest) n f a b"
proof -
  note counts = norm_set_BitCount[OF a] norm_set_BitCount[OF b] IsEmpty_norm_set[OF a] IsEmpty_norm_set[OF b] CHECK_def
  consider "set_points a = {} \<or> set_points b = {}" | "set_points a \<noteq> {}" "set_points b \<noteq> {}" "n = 1" | "set_points a \<noteq> {}" "set_points b \<noteq> {}" "n \<noteq> 1"
    by blast
  then show ?thesis
  proof cases
    assume "set_points a = {} \<or> set_points b = {}"
    then show ?thesis using wf_of_width[of n] by (auto simp: bitwise_prologue_def counts sound_binary_def)
  next
    assume ne: "set_points a \<noteq> {}" "set_points b \<noteq> {}" and n: "n = 1"
    obtain s t where st: "OneBitRangeToTernary a = Some s" "\<forall>x\<in>set_points a. tern_bit s (x = 1)"
        "OneBitRangeToTernary b = Some t" "\<forall>x\<in>set_points b. tern_bit t (x = 1)"
      using OneBitRangeToTernary_ok[OF a[unfolded n] ne(1)] OneBitRangeToTernary_ok[OF b[unfolded n] ne(2)] by blast
    have "sound_binary (TernaryToOneBitRange (op s t)) 1 (\<lambda>x y. of_bool (g (x = 1) (y = 1))) a b"
      using st bit by (intro ternary_result) blast
    then have "sound_binary (TernaryToOneBitRange (op s t)) 1 f a b"
      using one norm_set_less[OF a] norm_set_less[OF b] n by (elim sound_binary_cong) simp
    then show ?thesis using ne st n by (simp add: bitwise_prologue_def counts)
  next
    assume "set_points a \<noteq> {}" "set_points b \<noteq> {}" "n \<noteq> 1"
    then show ?thesis using rest by (simp add: bitwise_prologue_def counts)
  qed
qed

lemma bitwise_ternary_sound:
  assumes a: "norm_set n a" and b: "norm_set n b" and ne: "set_points a \<noteq> {}" "set_points b \<noteq> {}"
    and op: "\<And>s t x y. length s = n \<Longrightarrow> length t = n \<Longrightarrow> vrel tern_bit s (int x) \<Longrightarrow> vrel tern_bit t (int y) \<Longrightarrow>
      \<exists>r. op [s, t] = Some r \<and> length r = n \<and> vrel tern_bit r (int (f x y))"
    and range: "\<And>x y. x < 2 ^ n \<Longrightarrow> y < 2 ^ n \<Longrightarrow> f x y < 2 ^ n"
  shows "sound_binary (bitwise_ternary op a b) n f a b"
proof -
  obtain s t where s: "ExtractTernaryVector a = Some s" "length s = n" "\<And>x. x \<in> set_points a \<Longrightarrow> tern_ok s x"
      and t: "ExtractTernaryVector b = Some t" "length t = n" "\<And>x. x \<in> set_points b \<Longrightarrow> tern_ok t x"
    using ExtractTernaryVector_ok[OF a ne(1)] ExtractTernaryVector_ok[OF b ne(2)] by blast
  have step: "\<exists>r. op [s, t] = Some r \<and> length r = n \<and> tern_ok r (f x y)" if "x \<in> set_points a" "y \<in> set_points b" for x y
    using op[OF s(2) t(2), of x y] s(3)[OF that(1)] t(3)[OF that(2)] by (simp add: vrel_tern_ok)
  obtain r where r: "op [s, t] = Some r" "length r = n" using step ne by blast
  obtain w where w: "FromTernary r 4 = Some w" "norm_set n w" "\<forall>v<2 ^ n. tern_ok r v \<longrightarrow> v \<in> set_points w"
    using FromTernary_ok[of 4 r] r(2) by auto
  have "f x y \<in> set_points w" if "x \<in> set_points a" "y \<in> set_points b" for x y
    using step[OF that] r(1) w(3) range norm_set_less[OF a that(1)] norm_set_less[OF b that(2)] by auto
  then show ?thesis using s(1) t(1) r(1) w(1,2) by (simp add: bitwise_ternary_def sound_binary_def)
qed

lemma ternary_bitwise_ops:
  assumes "norm_set n a" "norm_set n b" "set_points a \<noteq> {}" "set_points b \<noteq> {}"
  shows "sound_binary (bitwise_ternary (ae_BitwiseAnd TernaryEvaluator) a b) n (AND) a b"
    "sound_binary (bitwise_ternary (ae_BitwiseOr TernaryEvaluator) a b) n (OR) a b"
    "sound_binary (bitwise_ternary (ae_BitwiseXor TernaryEvaluator) a b) n (XOR) a b"
proof -
  have range: "x AND y < 2 ^ n" "x OR y < 2 ^ n" "x XOR y < 2 ^ n" if "x < 2 ^ n" "y < 2 ^ n" for x y :: nat
    using that by (auto simp: nat_lt_exp_iff_bits bit_simps)
  show "sound_binary (bitwise_ternary (ae_BitwiseAnd TernaryEvaluator) a b) n (AND) a b"
    "sound_binary (bitwise_ternary (ae_BitwiseOr TernaryEvaluator) a b) n (OR) a b"
    "sound_binary (bitwise_ternary (ae_BitwiseXor TernaryEvaluator) a b) n (XOR) a b"
    by (rule bitwise_ternary_sound[OF assms], metis tern.Bitwise_rel of_nat_and_eq of_nat_or_eq of_nat_xor_eq, rule range; assumption)+
qed

text \<open>The sets \<^verbatim>\<open>And\<close> and \<^verbatim>\<open>Or\<close> compare their operands with.\<close>

lemma special_sets:
  assumes "0 < n"
  shows "\<exists>s. precise_sbits (- 1) n = Some s \<and> norm_set n s \<and> set_points s = {2 ^ n - 1}"
    "\<exists>s. precise_ubits 0 n = Some s \<and> norm_set n s \<and> set_points s = {0}"
    "\<exists>s. ones_or_zero n = Some s \<and> norm_set n s \<and> set_points s = {0, 2 ^ n - 1}"
proof -
  have "fits_signed n (sint (- 1 :: 64 word))"
    using assms less_trans[of "- 1 :: int" 0 "2 ^ (n - 1)"] by (simp add: fits_signed_def)
  then have sb: "SBits (- 1) n = Some (mkBitmap n (2 ^ n - 1))" using SBits_mk[of n "- 1"] bits_of_int_neg[of 1 n] assms by simp
  have lt: "2 ^ n - 1 < (2 :: nat) ^ n" by simp
  show "\<exists>s. precise_sbits (- 1) n = Some s \<and> norm_set n s \<and> set_points s = {2 ^ n - 1}"
    using Precise_ok[OF lt] sb by (simp add: precise_sbits_def)
  show "\<exists>s. precise_ubits 0 n = Some s \<and> norm_set n s \<and> set_points s = {0}"
    using Precise_ok[of 0 n] by (simp add: precise_ubits_def UBits_0)
  obtain s where "IntervalSet_Of [ivl n 0 0, ivl n (2 ^ n - 1) (2 ^ n - 1)] = Some s" "norm_set n s"
      "set_points s = points (ivl n 0 0) \<union> points (ivl n (2 ^ n - 1) (2 ^ n - 1))"
    using Of_ok[of "[ivl n 0 0, ivl n (2 ^ n - 1) (2 ^ n - 1)]" n] by auto
  moreover have "points (ivl n 0 0) = {0}" "points (ivl n (2 ^ n - 1) (2 ^ n - 1)) = {2 ^ n - 1}"
    by (simp_all add: points_ivl wrap_points_def)
  ultimately show "\<exists>s. ones_or_zero n = Some s \<and> norm_set n s \<and> set_points s = {0, 2 ^ n - 1}"
    using sb by (auto simp: ones_or_zero_def UBits_0 precise_interval)
qed

lemma and_or_mask:
  fixes x :: nat
  assumes "x < 2 ^ n"
  shows "(2 ^ n - 1) AND x = x" "x AND (2 ^ n - 1) = x" "(2 ^ n - 1) OR x = 2 ^ n - 1" "x OR (2 ^ n - 1) = 2 ^ n - 1"
proof -
  have x: "i < n" if "bit x i" for i using assms that by (meson nat_lt_exp_iff_bits not_le)
  show "(2 ^ n - 1) AND x = x" "x AND (2 ^ n - 1) = x" "(2 ^ n - 1) OR x = 2 ^ n - 1" "x OR (2 ^ n - 1) = 2 ^ n - 1"
    unfolding mask_eq_exp_minus_1[symmetric] using x by (auto intro!: bit_eqI simp: bit_simps)
qed

text \<open>An operation with a unit \<open>e\<close> and an absorbing element \<open>z\<close> returns the other operand for \<open>e\<close> and adds \<open>z\<close> to the
  other operand for the pair of both.\<close>

lemma masked_sound:
  assumes a: "norm_set n a" and b: "norm_set n b" and ne: "set_points a \<noteq> {}" "set_points b \<noteq> {}"
    and sets: "\<exists>s. only = Some s \<and> norm_set n s \<and> set_points s = {e}" "\<exists>s. sel = Some s \<and> norm_set n s \<and> set_points s = {z, e}"
      "\<exists>s. zero = Some s \<and> norm_set n s \<and> set_points s = {z}"
    and unit: "\<And>x. x < 2 ^ n \<Longrightarrow> f e x = x \<and> f x e = x \<and> f z x = z \<and> f x z = z"
    and tern: "sound_binary r n f a b"
  shows "sound_binary (do {
     only_ones \<leftarrow> only;
     e1 \<leftarrow> IntervalSet_eq a only_ones;
     e2 \<leftarrow> IntervalSet_eq b only_ones;
     if e1 then Some b
     else if e2 then Some a
     else do {
       mask_select \<leftarrow> sel;
       m1 \<leftarrow> IntervalSet_eq a mask_select;
       m2 \<leftarrow> IntervalSet_eq b mask_select;
       if m1 then do { z \<leftarrow> zero; Combine b z }
       else if m2 then do { z \<leftarrow> zero; Combine a z }
       else r } }) n f a b" (is "sound_binary ?r n f a b")
proof -
  obtain s t u where s: "only = Some s" "norm_set n s" "set_points s = {e}" and t: "sel = Some t" "norm_set n t" "set_points t = {z, e}"
      and u: "zero = Some u" "norm_set n u" "set_points u = {z}"
    using sets by blast
  note lt = norm_set_less[OF a] norm_set_less[OF b]
  obtain ca cb where ca: "Combine a u = Some ca" "norm_set n ca" "set_points ca = set_points a \<union> {z}"
      and cb: "Combine b u = Some cb" "norm_set n cb" "set_points cb = set_points b \<union> {z}"
    using iset.union_ok[OF a u(2)] iset.union_ok[OF b u(2)] u(3) by metis
  have "?r = (if set_points a = {e} then Some b else if set_points b = {e} then Some a
      else if set_points a = {z, e} then Some cb else if set_points b = {z, e} then Some ca else r)"
    using s t u(1) ca(1) cb(1) by (simp add: eq_ok[OF norm_set_ok[OF a] norm_set_ok[OF s(2)]] eq_ok[OF norm_set_ok[OF b] norm_set_ok[OF s(2)]]
        eq_ok[OF norm_set_ok[OF a] norm_set_ok[OF t(2)]] eq_ok[OF norm_set_ok[OF b] norm_set_ok[OF t(2)]])
  moreover have "sound_binary (Some b) n f a b" if "set_points a = {e}" using that b unit lt by (simp add: sound_binary_def)
  moreover have "sound_binary (Some a) n f a b" if "set_points b = {e}" using that a unit lt by (simp add: sound_binary_def)
  moreover have "sound_binary (Some cb) n f a b" if "set_points a = {z, e}" using that cb unit lt by (simp add: sound_binary_def)
  moreover have "sound_binary (Some ca) n f a b" if "set_points b = {z, e}" using that ca unit lt by (simp add: sound_binary_def)
  ultimately show ?thesis using tern by (simp split: if_split)
qed

lemma And_sound:
  assumes a: "norm_set n a" and b: "norm_set n b" and n: "0 < n"
  shows "sound_binary (iops_And a b) n (AND) a b"
  unfolding iops_And_def
proof (rule bitwise_soundI[OF a b, where g = "(\<and>)"])
  assume ne: "set_points a \<noteq> {}" "set_points b \<noteq> {}"
  show "sound_binary (do {
     only_ones \<leftarrow> precise_sbits (- 1) n;
     e1 \<leftarrow> IntervalSet_eq a only_ones;
     e2 \<leftarrow> IntervalSet_eq b only_ones;
     if e1 then Some b
     else if e2 then Some a
     else do {
       mask_select \<leftarrow> ones_or_zero n;
       m1 \<leftarrow> IntervalSet_eq a mask_select;
       m2 \<leftarrow> IntervalSet_eq b mask_select;
       if m1 then do { z \<leftarrow> precise_ubits 0 n; Combine b z }
       else if m2 then do { z \<leftarrow> precise_ubits 0 n; Combine a z }
       else bitwise_ternary (ae_BitwiseAnd TernaryEvaluator) a b } }) n (AND) a b"
    by (rule masked_sound[OF a b ne special_sets(1)[OF n] special_sets(3)[OF n] special_sets(2)[OF n] _ ternary_bitwise_ops(1)[OF a b ne]])
      (simp add: and_or_mask[simplified])
next
  show "tern_bit (ev_And TernaryEvaluator s t) (p \<and> q)" if "tern_bit s p" "tern_bit t q" for s t p q
    using that by (auto simp: ternary_logic_best)
  show "x AND y = of_bool (x = 1 \<and> y = 1)" if "x < 2" "y < 2" for x y :: nat
    using that by (auto simp: less_2_cases_iff)
qed

lemma Or_sound:
  assumes a: "norm_set n a" and b: "norm_set n b" and n: "0 < n"
  shows "sound_binary (iops_Or a b) n (OR) a b"
  unfolding iops_Or_def
proof (rule bitwise_soundI[OF a b, where g = "(\<or>)"])
  assume ne: "set_points a \<noteq> {}" "set_points b \<noteq> {}"
  have sel: "\<exists>s. ones_or_zero n = Some s \<and> norm_set n s \<and> set_points s = {2 ^ n - 1, 0}"
    using special_sets(3)[OF n] by (simp add: insert_commute)
  show "sound_binary (do {
     only_zero \<leftarrow> precise_ubits 0 n;
     e1 \<leftarrow> IntervalSet_eq a only_zero;
     e2 \<leftarrow> IntervalSet_eq b only_zero;
     if e1 then Some b
     else if e2 then Some a
     else do {
       mask_select \<leftarrow> ones_or_zero n;
       m1 \<leftarrow> IntervalSet_eq a mask_select;
       m2 \<leftarrow> IntervalSet_eq b mask_select;
       if m1 then do { z \<leftarrow> precise_sbits (- 1) n; Combine b z }
       else if m2 then do { z \<leftarrow> precise_sbits (- 1) n; Combine a z }
       else bitwise_ternary (ae_BitwiseOr TernaryEvaluator) a b } }) n (OR) a b"
    by (rule masked_sound[OF a b ne special_sets(2)[OF n] sel special_sets(1)[OF n] _ ternary_bitwise_ops(2)[OF a b ne]])
      (simp add: and_or_mask[simplified])
next
  show "tern_bit (ev_Or TernaryEvaluator s t) (p \<or> q)" if "tern_bit s p" "tern_bit t q" for s t p q
    using that by (auto simp: ternary_logic_best)
  show "x OR y = of_bool (x = 1 \<or> y = 1)" if "x < 2" "y < 2" for x y :: nat
    using that by (auto simp: less_2_cases_iff)
qed

lemma Xor_sound:
  assumes a: "norm_set n a" and b: "norm_set n b"
  shows "sound_binary (iops_Xor a b) n (XOR) a b"
  unfolding iops_Xor_def
proof (rule bitwise_soundI[OF a b, where g = "(\<noteq>)"])
  assume ne: "set_points a \<noteq> {}" "set_points b \<noteq> {}"
  obtain s where s: "precise_ubits 0 n = Some s" "norm_set n s" "set_points s = {0}"
    using Precise_ok[of 0 n] by (auto simp: precise_ubits_def UBits_0)
  have "sound_binary (Some b) n (XOR) a b" if "set_points a = {0}" using that b by (simp add: sound_binary_def)
  moreover have "sound_binary (Some a) n (XOR) a b" if "set_points b = {0}" using that a by (simp add: sound_binary_def)
  ultimately show "sound_binary (do {
     only_zero \<leftarrow> precise_ubits 0 n;
     e1 \<leftarrow> IntervalSet_eq a only_zero;
     e2 \<leftarrow> IntervalSet_eq b only_zero;
     if e1 then Some b
     else if e2 then Some a
     else bitwise_ternary (ae_BitwiseXor TernaryEvaluator) a b }) n (XOR) a b"
    using s ternary_bitwise_ops(3)[OF a b ne]
    by (simp add: eq_ok[OF norm_set_ok[OF a] norm_set_ok[OF s(2)]] eq_ok[OF norm_set_ok[OF b] norm_set_ok[OF s(2)]])
next
  show "tern_bit (ae_Xor TernaryEvaluator s t) (p \<noteq> q)" if "tern_bit s p" "tern_bit t q" for s t p q
    using that by (rule tern.rel_Xor)
  show "x XOR y = of_bool ((x = 1) \<noteq> (y = 1))" if "x < 2" "y < 2" for x y :: nat
    using that by (auto simp: less_2_cases_iff)
qed

end
