(* ===== verification/Interval_Codes_Rules.thy ===== *)
theory Interval_Codes_Rules
  imports Interval_Ternary_Rules
begin

text \<open>
  Decoding and encoding, one-hot, the number of bits a set needs, and concatenation: the operations
  that walk over values, bits or operands instead of using the engine.
\<close>

unbundle bit_operations_syntax

section \<open>Decode\<close>

definition decoded :: "nat \<Rightarrow> nat \<Rightarrow> nat" where
  "decoded w x = (if x < w then 2 ^ x else 0)"

lemma decode_loop:
  assumes "sorted_wrt (<) vs" "\<forall>v\<in>set vs. v < 2 ^ n" "set_ok w s" "w \<le> 2 ^ 64"
  shows "\<exists>r. loop (\<lambda>b res. do {
            u \<leftarrow> ToUint64 b;
            let k = (case u of Inr w \<Rightarrow> unat w | Inl _ \<Rightarrow> w);
            if k \<ge> w then do {
              z \<leftarrow> UBits 0 w;
              i \<leftarrow> Interval_Precise z;
              res \<leftarrow> AddInterval res i;
              Some (Return res) }
            else do {
              p \<leftarrow> PowerOfTwo k w;
              i \<leftarrow> Interval_Precise p;
              res \<leftarrow> AddInterval res i;
              Some (Continue res) } }) (map (mkBitmap n) vs) s = Some r \<and>
    set_ok w (step_result (\<lambda>res. res) r) \<and> set_points (step_result (\<lambda>res. res) r) = set_points s \<union> decoded w ` set vs"
  using assms(1-3)
proof (induction vs arbitrary: s)
  case (Cons v vs)
  have v: "take_bit n v = v" using Cons.prems(2) by (simp add: take_bit_nat_eq_self)
  have word: "unat (word_of_nat v :: 64 word) = v" if "v < 2 ^ 64" using that by (simp add: unsigned_of_nat take_bit_nat_eq_self)
  show ?case
  proof (cases "v < w")
    case True
    then have small: "v < 2 ^ 64" "2 ^ v < (2 :: nat) ^ w" using assms(4) by auto
    obtain s' where s': "AddInterval s (ivl w (2 ^ v) (2 ^ v)) = Some s'" "set_ok w s'" "set_points s' = insert (2 ^ v) (set_points s)"
      using add_point[OF Cons.prems(3) small(2)] by blast
    have "sorted_wrt (<) vs" "\<forall>v\<in>set vs. v < 2 ^ n" using Cons.prems by auto
    from Cons.IH[OF this s'(2)] show ?thesis
      using True small word s'(1,3) v by (auto simp: ToUint64_mk PowerOfTwo_mk precise_interval decoded_def)
  next
    case False
    obtain s' where s': "AddInterval s (ivl w 0 0) = Some s'" "set_ok w s'" "set_points s' = insert 0 (set_points s)"
      using add_point[OF Cons.prems(3), of 0] by auto
    have "decoded w ` set (v # vs) = {0}" using False Cons.prems(1) by (force simp: decoded_def)
    then show ?thesis using False word s' v by (auto simp: ToUint64_mk UBits_0 precise_interval Let_def)
  qed
qed simp

lemma Decode_exact:
  assumes "norm_set n a" "w \<le> 2 ^ 64"
  shows "\<exists>t. iops_Decode a w = Some t \<and> norm_set w t \<and> set_points t = decoded w ` set_points a"
proof -
  obtain ps where ps: "a = nset n ps" "norm n ps" using assms(1) by (rule norm_setE)
  have vs: "sorted_wrt (<) (enum_pairs ps)" "\<forall>v\<in>set (enum_pairs ps). v < 2 ^ n" "set (enum_pairs ps) = set_points a"
    using sorted_enum_pairs[OF ps(2)] set_enum_pairs[OF ps(2)] set_points_nset[OF ps(2)] ps(1) norm_set_less[OF assms(1)] by auto
  have e: "set_ok w (IntervalSet_of_width (int w))" "set_points (IntervalSet_of_width (int w)) = {}"
    using wf_of_width[of w] by (auto intro: norm_set_ok)
  obtain r where r: "iops_Decode a w = Normalize (step_result (\<lambda>res. res) r)" "set_ok w (step_result (\<lambda>res. res) r)"
      "set_points (step_result (\<lambda>res. res) r) = decoded w ` set_points a"
    using decode_loop[OF vs(1,2) e(1) assms(2)] all_values_nset[OF ps(2)] e(2) vs(3) ps(1) unfolding iops_Decode_def by auto
  then show ?thesis using Normalize_ok[OF r(2)] by auto
qed

section \<open>Encode\<close>

definition encoded :: "nat \<Rightarrow> nat \<Rightarrow> nat" where
  "encoded n x = fold (\<lambda>i v. if bit x i then v OR i else v) [0..<n] 0"

lemma bit_encoded: "bit (encoded n x) j \<longleftrightarrow> (\<exists>i<n. bit x i \<and> bit i j)"
  unfolding encoded_def by (induction n) (auto simp: bit_or_iff less_Suc_eq)

lemma encoded_less: "n \<le> 2 ^ w \<Longrightarrow> encoded n x < 2 ^ w"
  unfolding nat_lt_exp_iff_bits bit_encoded by (meson less_le_trans nat_lt_exp_iff_bits)

lemma encode_value_mk:
  assumes "n \<le> 2 ^ 64"
  shows "encode_value (mkBitmap n x) n = Some (word_of_nat (encoded n x))"
proof -
  have "foldM (\<lambda>i out_value. do { b \<leftarrow> Get (mkBitmap n x) i; Some (if b then out_value OR word_of_nat i else out_value) }) [0..<k] (0 :: 64 word) =
      Some (word_of_nat (fold (\<lambda>i v. if bit x i then v OR i else v) [0..<k] 0))" if "k \<le> n" for k
    using that by (induction k) (simp_all add: foldM_append Get_mk of_nat_or_eq)
  then show ?thesis unfolding encode_value_def encoded_def by blast
qed

lemma encode_ternary_bit_ok:
  assumes "j < 64" "tern_ok t x"
  shows "\<exists>r. encode_ternary_bit t j = Some r \<and> tern_bit r (bit (encoded (length t) x) j)"
proof -
  let ?f = "\<lambda>i any_unknown. Some (if \<not> bit i j then Continue any_unknown
                  else case t ! i of kKnownZero \<Rightarrow> Continue any_unknown | kKnownOne \<Rightarrow> Return () | kUnknown \<Rightarrow> Continue True)"
  have "\<exists>r. loop ?f is u = Some r \<and>
      (case r of Return _ \<Rightarrow> \<exists>i\<in>set is. bit i j \<and> t ! i = kKnownOne
       | Continue u' \<Rightarrow> (u' \<longleftrightarrow> u \<or> (\<exists>i\<in>set is. bit i j \<and> t ! i = kUnknown)) \<and> (\<forall>i\<in>set is. bit i j \<longrightarrow> t ! i \<noteq> kKnownOne))" for "is" u
  proof (induction "is" arbitrary: u)
    case (Cons i "is")
    from Cons.IH[of u] Cons.IH[of True] show ?case by (cases "t ! i") (auto split: step.splits)
  qed simp
  then obtain r where r: "loop ?f [0..<length t] False = Some r"
      "case r of Return _ \<Rightarrow> \<exists>i<length t. bit i j \<and> t ! i = kKnownOne
       | Continue u \<Rightarrow> (u \<longleftrightarrow> (\<exists>i<length t. bit i j \<and> t ! i = kUnknown)) \<and> (\<forall>i<length t. bit i j \<longrightarrow> t ! i \<noteq> kKnownOne)"
    by (fastforce split: step.splits)
  have ok: "tern_bit (t ! i) (bit x i)" if "i < length t" for i using assms(2) that by (simp add: tern_ok_def)
  show ?thesis
  proof (cases r)
    case (Return u)
    then show ?thesis using r ok assms(1) by (fastforce simp: encode_ternary_bit_def CHECK_def bit_encoded)
  next
    case (Continue u)
    have "\<not> bit (encoded (length t) x) j" if "\<not> u"
    proof
      assume "bit (encoded (length t) x) j"
      then obtain i where "i < length t" "bit x i" "bit i j" by (auto simp: bit_encoded)
      then show False using ok[of i] r(2) Continue that by (cases "t ! i") auto
    qed
    then show ?thesis using r(1) Continue assms(1) by (auto simp: encode_ternary_bit_def CHECK_def)
  qed
qed

context bignum
begin

lemma Encode_sound:
  assumes a: "norm_set n a" and w: "n \<le> 2 ^ w" "w \<le> 64"
  shows "sound_unary (iops_Encode bn a w) w (encoded n) a"
proof (cases "set_points a = {}")
  case True
  then show ?thesis using wf_of_width[of w] by (simp add: sound_unary_def iops_Encode_def IsEmpty_norm_set[OF a])
next
  case False
  obtain ps where ps: "a = nset n ps" "norm n ps" using a by (rule norm_setE)
  have "(2 :: nat) ^ w \<le> 2 ^ 64" using w(2) by (intro power_increasing) simp_all
  then have n64: "n \<le> 2 ^ 64" and small: "encoded n x < 2 ^ 64" for x using w(1) encoded_less[OF w(1), of x] by linarith+
  have "unat (word_of_nat (encoded n x) :: 64 word) = encoded n x" for x using small[of x] by (simp add: unsigned_of_nat take_bit_nat_eq_self)
  then have u: "UBits (word_of_nat (encoded n x)) w = Some (mkBitmap w (encoded n x))" for x
    using UBits_mk[of "word_of_nat (encoded n x)" w] encoded_less[OF w(1), of x] by simp
  have fold: "\<exists>r. foldM (\<lambda>b res. do { out_value \<leftarrow> encode_value b n; u \<leftarrow> UBits out_value w; i \<leftarrow> Interval_Precise u; AddInterval res i })
      (map (mkBitmap n) vs) s = Some r \<and> set_ok w r \<and> set_points r = set_points s \<union> encoded n ` set vs" if "set_ok w s" for vs s
    using that
  proof (induction vs arbitrary: s)
    case (Cons v vs)
    obtain s' where "AddInterval s (ivl w (encoded n v) (encoded n v)) = Some s'" "set_ok w s'" "set_points s' = insert (encoded n v) (set_points s)"
      using add_point[OF Cons.prems encoded_less[OF w(1)]] by blast
    then show ?case using Cons.IH[of s'] by (auto simp: encode_value_mk[OF n64] u precise_interval)
  qed simp
  have e: "set_ok w (IntervalSet_of_width (int w))" using wf_of_width[of w] by (auto intro: norm_set_ok)
  obtain r where r: "foldM (\<lambda>b res. do { out_value \<leftarrow> encode_value b n; u \<leftarrow> UBits out_value w; i \<leftarrow> Interval_Precise u; AddInterval res i })
      (map (mkBitmap n) (enum_pairs ps)) (IntervalSet_of_width (int w)) = Some r" "set_ok w r" "encoded n ` set_points a \<subseteq> set_points r"
    using fold[OF e, of "enum_pairs ps"] set_enum_pairs[OF ps(2)] set_points_nset[OF ps(2)] ps(1) by auto
  obtain r' where r': "Normalize r = Some r'" "norm_set w r'" "set_points r' = set_points r" using Normalize_ok[OF r(2)] by blast
  obtain t where t: "ExtractTernaryVector a = Some t" "length t = n" "\<forall>x\<in>set_points a. tern_ok t x"
    using ExtractTernaryVector_ok[OF a False] by blast
  have bits: "\<exists>v. encode_ternary_bit t j = Some v \<and> tern_bit v (bit (encoded n x) j)" if "x \<in> set_points a" "j < w" for x j
    using encode_ternary_bit_ok[of j t x] t(2,3) that w(2) by auto
  obtain x0 where "x0 \<in> set_points a" using False by blast
  then have "\<exists>f. \<forall>j<w. encode_ternary_bit t j = Some (f j)" using bits by metis
  then obtain f where f: "\<forall>j<w. encode_ternary_bit t j = Some (f j)" by blast
  let ?out = "map f [0..<w]"
  have out: "mapM (encode_ternary_bit t) [0..<w] = Some ?out" using f by (simp add: mapM_Some_iff list_all2_conv_all_nth)
  obtain s where s: "FromTernary ?out 4 = Some s" "norm_set w s" "\<forall>v<2 ^ w. tern_ok ?out v \<longrightarrow> v \<in> set_points s"
    using FromTernary_ok[of 4 ?out] by auto
  have "tern_ok ?out (encoded n x)" if "x \<in> set_points a" for x using bits[OF that] f by (auto simp: tern_ok_def)
  then have "encoded n x \<in> set_points s" if "x \<in> set_points a" for x using s(3) encoded_less[OF w(1)] that by blast
  moreover have "iops_Encode bn a w = Some r' \<or> iops_Encode bn a w = Some s"
  proof -
    obtain sz where "IntervalSet_Size bn a = Some sz" using Size_nset[OF ps(2)] ps(1) by blast
    moreover have "all_values a = Some (map (mkBitmap n) (enum_pairs ps))" "is_normalized a" using all_values_nset[OF ps(2)] ps(1) by simp_all
    ultimately show ?thesis using False r(1) r'(1) t(1) out s(1)
      by (simp add: iops_Encode_def IsEmpty_norm_set[OF a] norm_set_BitCount[OF a] CHECK_def)
  qed
  ultimately show ?thesis using r(3) r'(2,3) s(2) by (auto simp: sound_unary_def)
qed

end

section \<open>Signed bits\<close>

lemma precise_zero_norm_set:
  assumes "norm_set n a"
  shows "\<exists>v. IntervalSet_GetPreciseValue a = Some v \<and> (case v of None \<Rightarrow> Some False | Some b \<Rightarrow> IsZero b) = Some (set_points a = {0})"
proof -
  obtain ps where ps: "a = nset n ps" "norm n ps" using assms by (rule norm_setE)
  obtain p where p: "IntervalSet_IsPrecise a = Some p" "p \<longleftrightarrow> (\<exists>v. set_points a = {v})" using IsPrecise_norm_set[OF assms] by blast
  show ?thesis
  proof (cases p)
    case True
    then obtain v where "set_points a = {v}" using p(2) by blast
    then show ?thesis using precise_value_norm_set[OF assms] norm_set_less[OF assms, of v] by (simp add: IsZero_mk take_bit_nat_eq_self)
  next
    case False
    then have "\<not> precise (n, ps)" using p(1) IsPrecise_nset[OF ps(2)] ps(1) by simp
    then show ?thesis using GetPreciseValue_nset[OF ps(2)] ps(1) False p(2) by auto
  qed
qed

lemma unsigned_part:
  assumes "norm_set n s"
  shows "\<exists>p. (if set_points s = {} then Some 0 else MinimumBitCount s) = Some p \<and> (\<forall>x\<in>set_points s. x < 2 ^ p) \<and>
    (\<forall>j. (\<forall>x\<in>set_points s. x < 2 ^ j) \<longrightarrow> p \<le> j)"
  using MinimumBitCount_exact[OF assms] by (cases "set_points s = {}") auto

lemma negative_part:
  assumes "norm_set n s"
  shows "\<exists>q. (if set_points s = {} then Some 0
        else do { lb \<leftarrow> IntervalSet_LowerBound s; l \<leftarrow> lb; clo \<leftarrow> CountLeadingOnes l; Some (n - clo) }) = Some q \<and>
      (\<forall>x\<in>set_points s. nat_len (2 ^ n - 1 - x) \<le> q) \<and> (set_points s \<noteq> {} \<longrightarrow> (\<exists>x\<in>set_points s. nat_len (2 ^ n - 1 - x) = q)) \<and>
      (set_points s = {} \<longrightarrow> q = 0)"
proof (cases "set_points s = {}")
  case False
  then obtain l where l: "IntervalSet_LowerBound s = Some (Some (mkBitmap n l))" "l \<in> set_points s" "\<And>x. x \<in> set_points s \<Longrightarrow> l \<le> x"
    using bounds_norm_set[OF assms] by fastforce
  have "nat_len (2 ^ n - 1 - l) \<le> n" by (simp add: nat_len_le_iff)
  moreover have "nat_len (2 ^ n - 1 - x) \<le> nat_len (2 ^ n - 1 - l)" if "x \<in> set_points s" for x
    using l(3)[OF that] by (intro nat_len_mono diff_le_mono2)
  ultimately show ?thesis using False l(1,2) leading_ones[OF norm_set_less[OF assms l(2)]] by auto
qed simp

lemma MinimumSignedBitCount_exact:
  assumes a: "norm_set n a" and n: "0 < n"
  shows "\<exists>k. MinimumSignedBitCount a = Some k \<and> (\<forall>x\<in>set_points a. fits_signed k (sv n x)) \<and>
    (\<forall>j. (\<forall>x\<in>set_points a. fits_signed j (sv n x)) \<longrightarrow> k \<le> j)"
proof -
  let ?S = "set_points a" and ?h = "2 ^ (n - 1) :: nat"
  let ?P = "{x\<in>?S. x < ?h}" and ?N = "{x\<in>?S. ?h \<le> x}"
  have e: "(2::nat) ^ n = 2 * ?h" using half_exp[OF n] .
  have nonneg: "sv n x = int x" if "x < ?h" for x using int_bn.sv_nonneg[OF that] .
  have neg: "sv n x = - int (2 ^ n - 1 - x) - 1" if "?h \<le> x" "x < 2 ^ n" for x using int_bn.sv_negative[OF n that] that by linarith
  note lt = norm_set_less[OF a]
  have h: "?h < 2 ^ n" "?h - 1 < 2 ^ n" "?h \<le> 2 ^ n - 1" "2 ^ n - 1 < (2::nat) ^ n" 
  proof -
    have "0 < ?h" by simp
    then show "?h < 2 ^ n" "?h - 1 < 2 ^ n" "?h \<le> 2 ^ n - 1" "2 ^ n - 1 < (2::nat) ^ n" using e by linarith+
  qed
  obtain r pos where pos: "IntervalSet_Of [ivl n 0 (?h - 1)] = Some r" "IntervalSet_Intersect a r = Some pos" "norm_set n pos"
      "set_points pos = {x\<in>?S. 0 \<le> x \<and> x \<le> ?h - 1}"
    using intersect_range[OF a _ h(2), of 0] by blast
  obtain r' ng where ng: "IntervalSet_Of [ivl n ?h (2 ^ n - 1)] = Some r'" "IntervalSet_Intersect a r' = Some ng" "norm_set n ng"
      "set_points ng = {x\<in>?S. ?h \<le> x \<and> x \<le> 2 ^ n - 1}"
    using intersect_range[OF a h(3,4)] by blast
  have P: "set_points pos = {x\<in>?S. x < ?h}" 
  proof -
    have "x \<le> ?h - 1 \<longleftrightarrow> x < ?h" for x using zero_less_power[of "2 :: nat" "n - 1"] by linarith
    then show ?thesis using pos(4) by simp
  qed
  have N: "set_points ng = {x\<in>?S. ?h \<le> x}" 
  proof -
    have "x \<le> 2 ^ n - 1" if "x \<in> ?S" for x using lt[OF that] by linarith
    then show ?thesis using ng(4) by blast
  qed
  have "fits_signed n (sint (- 1 :: 64 word))" "fits_signed n (sint (0 :: 64 word))"
    using n less_trans[of "- 1 :: int" 0 "2 ^ (n - 1)"] by (simp_all add: fits_signed_def)
  then have sb: "SBits (- 1) n = Some (mkBitmap n (2 ^ n - 1))" "SBits 0 n = Some (mkBitmap n 0)"
    using SBits_mk[of n "- 1"] SBits_mk[of n 0] bits_of_int_neg[of 1 n] n by (simp_all add: bits_of_int_def)
  have run: "MinimumSignedBitCount a = (if ?h \<in> ?S \<or> ?h - 1 \<in> ?S then Some n else do {
      p \<leftarrow> (if ?P = {} then Some 0 else MinimumBitCount pos);
      q \<leftarrow> (if ?N = {} then Some 0 else do { lb \<leftarrow> IntervalSet_LowerBound ng; l \<leftarrow> lb; clo \<leftarrow> CountLeadingOnes l; Some (n - clo) });
      Some (max p q + 1) })" if ne: "?S \<noteq> {}" "?S \<noteq> {0}"
  proof -
    obtain v where "IntervalSet_GetPreciseValue a = Some v" "(case v of None \<Rightarrow> Some False | Some b \<Rightarrow> IsZero b) = Some False"
      using precise_zero_norm_set[OF a] ne(2) by auto
    then show ?thesis using ne(1) n pos(1,2) ng(1,2) sb Covers_norm_set[OF a h(1)] Covers_norm_set[OF a h(2)]
      unfolding MinimumSignedBitCount_def
      by (simp only: Option.bind_lunit norm_set_BitCount[OF a] MinSigned_mk[OF n] MaxSigned_mk mask_nat if_False closed_interval
          IsEmpty_norm_set[OF a] IsEmpty_norm_set[OF pos(3)] IsEmpty_norm_set[OF ng(3)] P N)
  qed
  consider (empty) "?S = {}" | (zero) "?S = {0}" | (extreme) "?S \<noteq> {}" "?S \<noteq> {0}" "?h \<in> ?S \<or> ?h - 1 \<in> ?S"
    | (inner) "?S \<noteq> {}" "?S \<noteq> {0}" "?h \<notin> ?S" "?h - 1 \<notin> ?S" by blast
  then show ?thesis
  proof cases
    case empty
    then have "MinimumSignedBitCount a = Some 0" by (simp add: MinimumSignedBitCount_def IsEmpty_norm_set[OF a])
    then show ?thesis using empty by auto
  next
    case zero
    then have "MinimumSignedBitCount a = Some 0"
      by (simp add: MinimumSignedBitCount_def IsEmpty_norm_set[OF a] precise_value_norm_set[OF a] IsZero_mk)
    then show ?thesis using zero nonneg[of 0] by (auto simp: fits_signed_def)
  next
    case extreme
    have "?h \<in> ?S \<or> (?h - 1 \<in> ?S \<and> 1 < n)"
    proof (cases "n = 1")
      case True
      then have "?S \<subseteq> {0, 1}" using lt by (fastforce simp: less_2_cases_iff)
      then show ?thesis using extreme(1,2) True by auto
    qed (use extreme(3) n in auto)
    then have "n \<le> j" if "\<forall>x\<in>?S. fits_signed j (sv n x)" for j using MinimumSigned_extreme[OF n _ that] by blast
    then show ?thesis using run extreme sv_fits by auto
  next
    case inner
    obtain p where p: "(if ?P = {} then Some 0 else MinimumBitCount pos) = Some p" "\<forall>x\<in>?P. x < 2 ^ p"
        "\<And>j. \<forall>x\<in>?P. x < 2 ^ j \<Longrightarrow> p \<le> j"
      using unsigned_part[OF pos(3)] unfolding P by blast
    obtain q where q: "(if ?N = {} then Some 0 else do { lb \<leftarrow> IntervalSet_LowerBound ng; l \<leftarrow> lb; clo \<leftarrow> CountLeadingOnes l; Some (n - clo) }) = Some q"
        "\<forall>x\<in>?N. nat_len (2 ^ n - 1 - x) \<le> q" "?N \<noteq> {} \<Longrightarrow> \<exists>x\<in>?N. nat_len (2 ^ n - 1 - x) = q" "?N = {} \<Longrightarrow> q = 0"
      using negative_part[OF ng(3)] unfolding N by blast
    have min: "max p q < j" if fits: "\<forall>x\<in>?S. fits_signed j (sv n x)" for j
    proof -
      have len: "nat_len (2 ^ n - 1 - x) < j" if "x \<in> ?N" for x 
      proof -
        have x: "x \<in> ?S" "?h \<le> x" using that by simp_all
        then have "fits_signed j (sv n x)" using fits by blast
        then show ?thesis unfolding neg[OF x(2) lt[OF x(1)]] fits_signed_neg .
      qed
      have small: "x = 0 \<or> nat_len x < j" if "x \<in> ?P" for x 
      proof -
        have x: "x \<in> ?S" "x < ?h" using that by simp_all
        then have "fits_signed j (sv n x)" using fits by blast
        then show ?thesis unfolding nonneg[OF x(2)] fits_signed_nonneg .
      qed
      have "\<not> ?S \<subseteq> {0}" using inner(1,2) subset_singletonD by metis
      then obtain x where x: "x \<in> ?S" "x \<noteq> 0" by blast
      have "0 < j"
      proof (cases "x < ?h")
        case True
        then show ?thesis using small[of x] x by auto
      next
        case False
        then show ?thesis using len[of x] x by auto
      qed
      note j = this
      have "x < 2 ^ (j - 1)" if "x \<in> ?P" for x using small[OF that] j nat_len_le_iff[of x "j - 1"] by auto
      then have "p \<le> j - 1" using p(3) by blast
      moreover have "q < j" using q(3,4) len j by (cases "?N = {}") auto
      ultimately show ?thesis using j by simp
    qed
    have "fits_signed (max p q + 1) (sv n x)" if x: "x \<in> ?S" for x
    proof (cases "x < ?h")
      case True
      then have "nat_len x \<le> p" using p(2) x by (simp add: nat_len_le_iff)
      then have "nat_len x < max p q + 1" by linarith
      then show ?thesis unfolding nonneg[OF True] fits_signed_nonneg by blast
    next
      case False
      then have "nat_len (2 ^ n - 1 - x) \<le> q" using q(2) x by simp
      then have "nat_len (2 ^ n - 1 - x) < max p q + 1" by linarith
      moreover have "?h \<le> x" using False by simp
      ultimately show ?thesis using neg[OF _ lt[OF x]] fits_signed_neg by metis
    qed
    moreover have "MinimumSignedBitCount a = Some (max p q + 1)" unfolding run[OF inner(1,2)] using inner(3,4) p(1) q(1) by simp
    ultimately show ?thesis using min by (fastforce simp: Suc_le_eq)
  qed
qed

section \<open>Does a set meet a ternary vector?\<close>

lemma IsCompatible_bits_mk: "IsCompatible_bits t (mkBitmap (length t) v) = Some (tern_ok t v)"
proof -
  have "\<exists>r. loop (\<lambda>i _. if t ! i = kUnknown then Some (Continue ())
      else do { x \<leftarrow> Get (mkBitmap (length t) v) i; Some (if x \<noteq> (t ! i = kKnownOne) then Return False else Continue ()) }) is () = Some r \<and>
      step_result (\<lambda>_. True) r = (\<forall>i\<in>set is. tern_bit (t ! i) (bit v i))" if "set is \<subseteq> {..<length t}" for "is"
    using that by (induction "is") (auto simp: Get_mk tern_bit_def)
  from this[of "[0..<length t]"] show ?thesis by (auto simp: IsCompatible_bits_def tern_ok_def subset_eq)
qed

lemma take_bit_le_Suc:
  "take_bit (Suc m) a \<le> take_bit (Suc m) b \<longleftrightarrow> (if bit a m = bit b m then take_bit m a \<le> take_bit m b else bit b m)" for a b :: nat
proof -
  have lt: "take_bit m a < 2 ^ m" "take_bit m b < 2 ^ m" by simp_all
  then have "\<not> 2 ^ m + take_bit m a \<le> take_bit m b" "take_bit m a \<le> 2 ^ m + take_bit m b" by linarith+
  then show ?thesis by (cases "bit a m"; cases "bit b m") (simp_all add: take_bit_Suc_from_most)
qed

lemma could_be_le_mk: "could_be_le t (mkBitmap (length t) L) = Some (tmin t \<le> take_bit (length t) L)"
proof -
  have "\<exists>r. loop (\<lambda>i _. do { b \<leftarrow> Get (mkBitmap (length t) L) i;
        Some (if b then if t ! i \<noteq> kKnownOne then Return True else Continue ()
                  else if t ! i = kKnownOne then Return False else Continue ()) }) (rev [0..<m]) () = Some r \<and>
      step_result (\<lambda>_. True) r = (take_bit m (tmin t) \<le> take_bit m L)" if "m \<le> length t" for m
    using that
  proof (induction m)
    case (Suc m)
    then show ?case by (cases "bit L m"; cases "t ! m = kKnownOne") (auto simp: Get_mk take_bit_le_Suc tmin_def)
  qed simp
  from this[OF order_refl] show ?thesis by (auto simp: could_be_le_def take_bit_nat_eq_self)
qed

lemma could_be_ge_mk: "could_be_ge t (mkBitmap (length t) U) = Some (take_bit (length t) U \<le> tmax t)"
proof -
  have z: "t ! i = kKnownZero \<longleftrightarrow> \<not> (t ! i = kKnownOne \<or> t ! i = kUnknown)" for i by (cases "t ! i") auto
  have "\<exists>r. loop (\<lambda>i _. do { b \<leftarrow> Get (mkBitmap (length t) U) i;
        Some (if b then if t ! i = kKnownZero then Return False else Continue ()
                  else if t ! i \<noteq> kKnownZero then Return True else Continue ()) }) (rev [0..<m]) () = Some r \<and>
      step_result (\<lambda>_. True) r = (take_bit m U \<le> take_bit m (tmax t))" if "m \<le> length t" for m
    using that
  proof (induction m)
    case (Suc m)
    then show ?case using z[of m] by (cases "bit U m"; cases "t ! m = kKnownZero") (auto simp: Get_mk take_bit_le_Suc tmax_def)
  qed simp
  from this[OF order_refl] show ?thesis by (auto simp: could_be_ge_def take_bit_nat_eq_self)
qed

lemma tern_ok_tmax: "tern_ok t (tmax t)"
  by (auto simp: tern_ok_def tern_bit_def tmax_def)

lemma tern_ok_split:
  assumes "d < length t"
  shows "tern_ok t x \<longleftrightarrow> tern_ok (drop (Suc d) t) (x div 2 ^ Suc d) \<and> tern_bit (t ! d) (bit x d) \<and> tern_ok (take d t) (x mod 2 ^ d)"
proof
  assume "tern_ok t x"
  then show "tern_ok (drop (Suc d) t) (x div 2 ^ Suc d) \<and> tern_bit (t ! d) (bit x d) \<and> tern_ok (take d t) (x mod 2 ^ d)"
    using tern_ok_drop[of t x "Suc d"] assms by (auto simp: tern_ok_def[of t] tern_ok_def[of "take d t"] take_bit_eq_mod[symmetric] bit_take_bit_iff)
next
  assume a: "tern_ok (drop (Suc d) t) (x div 2 ^ Suc d) \<and> tern_bit (t ! d) (bit x d) \<and> tern_ok (take d t) (x mod 2 ^ d)"
  have "tern_bit (t ! i) (bit x i)" if i: "i < length t" for i
  proof -
    consider "i < d" | "i = d" | k where "i = Suc d + k" using less_Suc_eq_le le_Suc_ex by (metis linorder_neqE_nat Suc_leI)
    then show ?thesis
    proof cases
      assume "i < d"
      then have "tern_bit (take d t ! i) (bit (x mod 2 ^ d) i)" using a assms by (auto simp: tern_ok_def)
      then show ?thesis using \<open>i < d\<close> by (simp add: take_bit_eq_mod[symmetric] bit_take_bit_iff)
    next
      fix k assume k: "i = Suc d + k"
      then have "tern_bit (drop (Suc d) t ! k) (bit (x div 2 ^ Suc d) k)" using a i by (auto simp: tern_ok_def)
      then show ?thesis using k i assms unfolding drop_bit_eq_div[symmetric] by (simp add: bit_drop_bit_eq)
    qed (use a in simp)
  qed
  then show "tern_ok t x" by (simp add: tern_ok_def)
qed

text \<open>Two different bounds share their high bits \<open>H\<close> down to a position where the upper bound has the first one.\<close>

lemma common_prefix_split:
  assumes "l < u" "u < 2 ^ n"
  shows "\<exists>d H L U. d < n \<and> L < 2 ^ d \<and> U < 2 ^ d \<and> l = H * 2 ^ Suc d + L \<and> u = H * 2 ^ Suc d + 2 ^ d + U \<and>
    LongestCommonPrefixMSB [mkBitmap n l, mkBitmap n u] = Some (mkBitmap (n - Suc d) H)"
proof -
  obtain k where k: "k \<le> n" "LongestCommonPrefixMSB [mkBitmap n l, mkBitmap n u] = Some (mkBitmap k (drop_bit (n - k) l))"
      "\<forall>i<n. n - k \<le> i \<longrightarrow> bit u i = bit l i" "k < n \<Longrightarrow> bit u (n - k - 1) \<noteq> bit l (n - k - 1)"
    using longest_common_prefix_correct[of "[l, u]" n] by auto
  have same: "drop_bit (n - k) u = drop_bit (n - k) l"
  proof (rule bit_eqI)
    fix i
    have "\<not> bit u j \<and> \<not> bit l j" if "n \<le> j" for j
      using that assms nat_lt_exp_iff_bits[of u n] nat_lt_exp_iff_bits[of l n] by auto
    then show "bit (drop_bit (n - k) u) i = bit (drop_bit (n - k) l) i" using k(3) by (cases "n - k + i < n") (auto simp: bit_drop_bit_eq)
  qed
  have "k < n"
  proof (rule ccontr)
    assume "\<not> k < n"
    then show False using same k(1) assms(1) by simp
  qed
  define d where "d = n - k - 1"
  have d: "n - k = Suc d" "d < n" "k = n - Suc d" using \<open>k < n\<close> by (auto simp: d_def)
  have split: "x = drop_bit (Suc d) x * 2 ^ Suc d + (of_bool (bit x d) * 2 ^ d + take_bit d x)" for x :: nat
  proof -
    have "take_bit (Suc d) x = of_bool (bit x d) * 2 ^ d + take_bit d x" by (simp add: take_bit_Suc_from_most)
    moreover have "x = drop_bit (Suc d) x * 2 ^ Suc d + take_bit (Suc d) x" by (simp only: drop_bit_eq_div take_bit_eq_mod div_mult_mod_eq)
    ultimately show ?thesis by linarith
  qed
  have lt: "take_bit d l < 2 ^ d" "take_bit d u < 2 ^ d" by simp_all
  have bits: "bit u d" "\<not> bit l d"
  proof -
    have "bit u d \<noteq> bit l d" using k(4)[OF \<open>k < n\<close>] by (simp add: d_def)
    moreover have "\<not> (bit l d \<and> \<not> bit u d)"
    proof
      assume b: "bit l d \<and> \<not> bit u d"
      have "l = drop_bit (Suc d) l * 2 ^ Suc d + (2 ^ d + take_bit d l)" using split[of l] b by simp
      moreover have "u = drop_bit (Suc d) l * 2 ^ Suc d + take_bit d u" using split[of u] b same d(1) by simp
      ultimately show False using assms(1) lt by linarith
    qed
    ultimately show "bit u d" "\<not> bit l d" by auto
  qed
  have "l = drop_bit (Suc d) l * 2 ^ Suc d + take_bit d l" using split[of l] bits by simp
  moreover have "u = drop_bit (Suc d) l * 2 ^ Suc d + 2 ^ d + take_bit d u" using split[of u] bits same d(1) by simp
  moreover have "LongestCommonPrefixMSB [mkBitmap n l, mkBitmap n u] = Some (mkBitmap (n - Suc d) (drop_bit (Suc d) l))" using k(2) d by simp
  ultimately show ?thesis using d(2) lt by blast
qed

lemma digits:
  fixes x y :: nat
  assumes "y < 2 ^ d" "x = H * 2 ^ Suc d + of_bool b * 2 ^ d + y"
  shows "x div 2 ^ Suc d = H" "bit x d = b" "x mod 2 ^ d = y"
proof -
  have x: "x = (2 * H + of_bool b) * 2 ^ d + y" unfolding assms(2) by (simp add: algebra_simps)
  then have q: "x div 2 ^ d = 2 * H + of_bool b" using assms(1) by simp
  show "x mod 2 ^ d = y" unfolding x using assms(1) by simp
  show "bit x d = b" unfolding bit_iff_odd q by simp
  show "x div 2 ^ Suc d = H" unfolding power_Suc2 div_mult2_eq q by simp
qed

lemma digits_split: "x = x div 2 ^ Suc d * 2 ^ Suc d + of_bool (bit x d) * 2 ^ d + x mod 2 ^ d" for x :: nat
proof -
  have "x div 2 ^ d = x div 2 ^ Suc d * 2 + of_bool (bit x d)" unfolding bit_iff_odd power_Suc2 div_mult2_eq by (simp add: of_bool_odd_eq_mod_2)
  then have "x div 2 ^ d * 2 ^ d = x div 2 ^ Suc d * 2 ^ Suc d + of_bool (bit x d) * 2 ^ d" by (simp add: algebra_simps)
  then show ?thesis by (metis div_mult_mod_eq)
qed

lemma between_digits:
  fixes x :: nat
  assumes "L < 2 ^ d" "U < 2 ^ d"
  shows "x \<in> {H * 2 ^ Suc d + L..H * 2 ^ Suc d + 2 ^ d + U} \<longleftrightarrow>
    x div 2 ^ Suc d = H \<and> (if bit x d then x mod 2 ^ d \<le> U else L \<le> x mod 2 ^ d)"
proof -
  let ?M = "(2 :: nat) ^ Suc d" and ?h = "x div 2 ^ Suc d"
  have x: "x = ?h * ?M + of_bool (bit x d) * 2 ^ d + x mod 2 ^ d" by (rule digits_split)
  have y: "x mod 2 ^ d < 2 ^ d" and M: "?M = 2 * 2 ^ d" by simp_all
  have b: "of_bool (bit x d) * 2 ^ d \<le> (2 :: nat) ^ d" by simp
  consider "?h < H" | "?h = H" | "H < ?h" by linarith
  then show ?thesis
  proof cases
    assume "?h < H"
    then have "(?h + 1) * ?M \<le> H * ?M" by (intro mult_le_mono1) simp
    then have "x < H * ?M + L" using x y b M unfolding distrib_right by linarith
    then show ?thesis using \<open>?h < H\<close> by auto
  next
    assume "H < ?h"
    then have "(H + 1) * ?M \<le> ?h * ?M" by (intro mult_le_mono1) simp
    then have "H * ?M + 2 ^ d + U < x" using x assms(2) M unfolding distrib_right by linarith
    then show ?thesis using \<open>H < ?h\<close> by auto
  next
    assume e: "?h = H"
    have "x \<in> {H * ?M + L..H * ?M + 2 ^ d + U} \<longleftrightarrow> (if bit x d then x mod 2 ^ d \<le> U else L \<le> x mod 2 ^ d)"
    proof (cases "bit x d")
      case True
      then have "x = H * ?M + 2 ^ d + x mod 2 ^ d" using x e by simp
      then show ?thesis using True assms(1) unfolding atLeastAtMost_iff by (simp only: if_True) linarith
    next
      case False
      then have "x = H * ?M + x mod 2 ^ d" using x e by simp
      then show ?thesis using False y unfolding atLeastAtMost_iff by (simp only: if_False) linarith
    qed
    then show ?thesis using e by simp
  qed
qed

lemma CoversTernary_interval_exact:
  assumes "l \<le> u" "u < 2 ^ length t"
  shows "CoversTernary_interval (ivl (length t) l u) t = Some (\<exists>x\<in>{l..u}. tern_ok t x)"
proof -
  let ?n = "length t"
  have l: "l < 2 ^ ?n" using assms by simp
  consider (known) "IsFullyKnown t" | (precise) "\<not> IsFullyKnown t" "l = u" | (range) "\<not> IsFullyKnown t" "l < u" using assms(1) by linarith
  then show ?thesis
  proof cases
    case known
    have "tern_ok t x \<longleftrightarrow> x = tmin t" if "x \<in> {l..u}" for x
      using that assms(2) tmin_le[of t x] tmax_ge[of t x] known_values[OF known] tern_ok_tmin[of t] by auto
    then have "(\<exists>x\<in>{l..u}. tern_ok t x) \<longleftrightarrow> tmin t \<in> {l..u}" by auto
    then show ?thesis using known assms l
      by (simp add: CoversTernary_interval_def ivl_rules KnownBitsValues_min_max wrap_points_def)
  next
    case precise
    then show ?thesis using assms l by (simp add: CoversTernary_interval_def ivl_rules IsCompatible_bits_mk)
  next
    case range
    obtain d H L U where d: "d < ?n" "L < 2 ^ d" "U < 2 ^ d" "l = H * 2 ^ Suc d + L" "u = H * 2 ^ Suc d + 2 ^ d + U"
        "LongestCommonPrefixMSB [mkBitmap ?n l, mkBitmap ?n u] = Some (mkBitmap (?n - Suc d) H)"
      using common_prefix_split[OF range(2) assms(2)] by blast
    let ?pre = "drop (Suc d) t" and ?low = "take d t"
    have lo: "l = H * 2 ^ Suc d + of_bool False * 2 ^ d + L" and hi: "u = H * 2 ^ Suc d + of_bool True * 2 ^ d + U" using d(4,5) by simp_all
    note D = digits[OF d(2) lo] digits[OF d(3) hi]
    have "(\<exists>x\<in>{l..u}. tern_ok t x) \<longleftrightarrow> tern_ok ?pre H \<and>
        (tern_bit (t ! d) True \<and> tmin ?low \<le> U \<or> tern_bit (t ! d) False \<and> L \<le> tmax ?low)" (is "?A \<longleftrightarrow> ?B")
    proof
      assume ?A
      then obtain x where x: "x \<in> {l..u}" "tern_ok t x" by blast
      have "x mod 2 ^ d < 2 ^ d" by simp
      moreover note between_digits[OF d(2,3), of x H, folded d(4,5)] tern_ok_split[OF d(1), of x]
      moreover have "tmin ?low \<le> x mod 2 ^ d" "x mod 2 ^ d \<le> tmax ?low" if "tern_ok ?low (x mod 2 ^ d)"
        using tmin_le[OF that] tmax_ge[OF that] d(1) by simp_all
      ultimately show ?B using x by (cases "bit x d") auto
    next
      assume B: ?B
      have pick: "H * 2 ^ Suc d + of_bool b * 2 ^ d + y \<in> {l..u} \<and> tern_ok t (H * 2 ^ Suc d + of_bool b * 2 ^ d + y)"
        if "y < 2 ^ d" "tern_ok ?low y" "tern_bit (t ! d) b" "if b then y \<le> U else L \<le> y" for b y
        using that B digits[OF that(1) refl, of H b] between_digits[OF d(2,3), of "H * 2 ^ Suc d + of_bool b * 2 ^ d + y" H, folded d(4,5)]
          tern_ok_split[OF d(1), of "H * 2 ^ Suc d + of_bool b * 2 ^ d + y"] by auto
      have min: "tmin ?low < 2 ^ d" "tmax ?low < 2 ^ d" using tmin_tmax_less[of ?low] d(1) by simp_all
      show ?A using B pick[OF min(1) tern_ok_tmin, of True] pick[OF min(2) tern_ok_tmax, of False] by auto
    qed
    moreover have pre: "IsCompatible_bits ?pre (mkBitmap (?n - Suc d) H) = Some (tern_ok ?pre H)" using IsCompatible_bits_mk[of ?pre H] by simp
    moreover have "could_be_le ?low (mkBitmap d u) = Some (tmin ?low \<le> U)" "could_be_ge ?low (mkBitmap d l) = Some (L \<le> tmax ?low)"
      using could_be_le_mk[of ?low u] could_be_ge_mk[of ?low l] D(3,6) d(1) by (simp_all add: take_bit_eq_mod)
    moreover have "?n - (?n - Suc d) = Suc d" "?n - (?n - Suc d) - 1 = d" "?n - Suc d < ?n" using d(1) by simp_all
    moreover have "tern_bit (t ! d) True \<longleftrightarrow> t ! d \<noteq> kKnownZero" "tern_bit (t ! d) False \<longleftrightarrow> t ! d \<noteq> kKnownOne" by (cases "t ! d"; simp)+
    ultimately show ?thesis using range(1,2) assms(2) l d(1,6) D(2,5)
      by (cases "t ! d") (simp_all add: CoversTernary_interval_def ivl_rules GetFromMsb_mk Slice_mk Let_def IsKnown_def KnownBitsValues_min_max Bits_eq_mk)
  qed
qed

lemma CoversTernary_exact:
  assumes "norm_set n s" "length t = n"
  shows "CoversTernary s t = Some (\<exists>x\<in>set_points s. tern_ok t x)"
proof -
  obtain ps where ps: "s = nset n ps" "norm n ps" using assms(1) by (rule norm_setE)
  have "\<exists>r. loop (\<lambda>i _. do { c \<leftarrow> CoversTernary_interval i t; Some (if c then Return True else Continue ()) }) (ivs n qs) () = Some r \<and>
      step_result (\<lambda>_. False) r = (\<exists>x\<in>pts n qs. tern_ok t x)" if "norm n qs" for qs
    using that
  proof (induction qs)
    case (Cons q qs)
    obtain l u where q: "q = (l, u)" by fastforce
    then have lu: "l \<le> u" "u < 2 ^ n" "norm n qs" using Cons.prems by (auto simp: norm_Cons)
    have "CoversTernary_interval (ivl n l u) t = Some (\<exists>x\<in>{l..u}. tern_ok t x)"
      using CoversTernary_interval_exact[OF lu(1), of t] lu(2) assms(2) by simp
    then show ?case using Cons.IH[OF lu(3)] q lu(1) by (auto simp: wrap_points_def bex_Un)
  qed simp
  from this[OF ps(2)] show ?thesis
    using norm_set_BitCount[OF assms(1)] assms(2) set_points_nset[OF ps(2)] ps(1) by (auto simp: CoversTernary_def Intervals_def)
qed

section \<open>One-hot\<close>

text \<open>The value of the one-hot operation: the highest-priority bit that is set, or the extra bit for zero.\<close>

definition one_hot :: "LsbOrMsb \<Rightarrow> nat \<Rightarrow> nat \<Rightarrow> nat" where
  "one_hot p n x = (if x = 0 then 2 ^ n else case p of kMsb \<Rightarrow> 2 ^ (nat_len x - 1) | kLsb \<Rightarrow> 2 ^ (LEAST i. bit x i))"

lemma test_vector_ok:
  assumes "i < n" "x < 2 ^ n"
  shows "tern_ok (OneHotTestVector n p i) x \<longleftrightarrow> x \<noteq> 0 \<and> one_hot p n x = 2 ^ i"
proof -
  have bits: "bit x j \<Longrightarrow> j < n" for j using assms(2) by (meson nat_lt_exp_iff_bits not_le)
  have T: "tern_ok (OneHotTestVector n p i) x \<longleftrightarrow>
      bit x i \<and> (\<forall>j<n. (case p of kMsb \<Rightarrow> j > i | kLsb \<Rightarrow> j < i) \<longrightarrow> \<not> bit x j)"
    using assms(1) by (cases p) (auto simp: tern_ok_def OneHotTestVector_def tern_bit_def)
  show ?thesis
  proof (cases p)
    case kLsb
    have "(\<forall>j<n. j < i \<longrightarrow> \<not> bit x j) \<and> bit x i \<longleftrightarrow> x \<noteq> 0 \<and> (LEAST j. bit x j) = i"
    proof
      assume a: "(\<forall>j<n. j < i \<longrightarrow> \<not> bit x j) \<and> bit x i"
      then have "(LEAST j. bit x j) = i" by (intro Least_equality) (auto simp: not_less[symmetric] dest: bits)
      moreover have "x \<noteq> 0" using a by (intro notI) simp
      ultimately show "x \<noteq> 0 \<and> (LEAST j. bit x j) = i" by blast
    next
      assume a: "x \<noteq> 0 \<and> (LEAST j. bit x j) = i"
      then obtain j where "bit x j" using bit_nat_len by blast
      then have "bit x (LEAST j. bit x j)" by (rule LeastI)
      then show "(\<forall>j<n. j < i \<longrightarrow> \<not> bit x j) \<and> bit x i" using a by (auto dest: not_less_Least)
    qed
    then show ?thesis using T kLsb by (auto simp: one_hot_def)
  next
    case kMsb
    have "bit x i \<and> (\<forall>j<n. i < j \<longrightarrow> \<not> bit x j) \<longleftrightarrow> x \<noteq> 0 \<and> nat_len x - 1 = i"
    proof
      assume a: "bit x i \<and> (\<forall>j<n. i < j \<longrightarrow> \<not> bit x j)"
      then have "x < 2 ^ Suc i" unfolding nat_lt_exp_iff_bits using bits by (metis Suc_le_lessD)
      moreover have "2 ^ i \<le> x" using a bit_nat_iff by (metis nat_lt_exp_iff_bits not_le order_refl)
      ultimately have "nat_len x = Suc i" by (intro nat_len_eqI) auto
      moreover have "x \<noteq> 0" using a by (intro notI) simp
      ultimately show "x \<noteq> 0 \<and> nat_len x - 1 = i" by simp
    next
      assume a: "x \<noteq> 0 \<and> nat_len x - 1 = i"
      then have "bit x i" using bit_nat_len by blast
      moreover have "\<not> bit x j" if "i < j" for j
      proof -
        have "nat_len x \<le> j" using that a by linarith
        then show ?thesis using nat_lt_exp_len[of x] nat_lt_exp_iff_bits[of x "nat_len x"] by blast
      qed
      ultimately show "bit x i \<and> (\<forall>j<n. i < j \<longrightarrow> \<not> bit x j)" by blast
    qed
    then show ?thesis using T kMsb by (auto simp: one_hot_def)
  qed
qed

lemma one_hot_positions:
  assumes "S \<subseteq> {..<2 ^ n}"
  shows "one_hot p n ` S = {2 ^ i |i. i < n \<and> (\<exists>x\<in>S. tern_ok (OneHotTestVector n p i) x)} \<union> (if 0 \<in> S then {2 ^ n} else {})"
proof -
  have pos: "\<exists>i<n. one_hot p n x = 2 ^ i" if "x \<in> S" "x \<noteq> 0" for x
  proof -
    have x: "x < 2 ^ n" using assms that(1) by auto
    have b: "bit x (nat_len x - 1)" using bit_nat_len that(2) by blast
    then have "bit x (LEAST i. bit x i)" by (rule LeastI)
    then have "nat_len x - 1 < n" "(LEAST i. bit x i) < n" using b x by (meson nat_lt_exp_iff_bits not_le)+
    then show ?thesis using that(2) by (cases p) (auto simp: one_hot_def)
  qed
  have "one_hot p n x \<in> {2 ^ i |i. i < n \<and> (\<exists>x\<in>S. tern_ok (OneHotTestVector n p i) x)} \<union> (if 0 \<in> S then {2 ^ n} else {})" if x: "x \<in> S" for x
  proof (cases "x = 0")
    case False
    then obtain i where "i < n" "one_hot p n x = 2 ^ i" using pos x by blast
    then show ?thesis using x False assms test_vector_ok[of i n x p] by auto
  qed (use x in \<open>simp add: one_hot_def\<close>)
  then have "one_hot p n ` S \<subseteq> {2 ^ i |i. i < n \<and> (\<exists>x\<in>S. tern_ok (OneHotTestVector n p i) x)} \<union> (if 0 \<in> S then {2 ^ n} else {})" by blast
  moreover have "2 ^ i \<in> one_hot p n ` S" if "i < n" "x \<in> S" "tern_ok (OneHotTestVector n p i) x" for i x
  proof -
    have "x < 2 ^ n" using assms that(2) by auto
    then have "one_hot p n x = 2 ^ i" using test_vector_ok[OF that(1), of x p] that(3) by blast
    then show ?thesis using that(2) by (metis imageI)
  qed
  moreover have "2 ^ n \<in> one_hot p n ` S" if "0 \<in> S" using that by (auto simp: one_hot_def image_iff intro!: bexI[of _ 0])
  then have "(if 0 \<in> S then {2 ^ n} else {}) \<subseteq> one_hot p n ` S" by simp
  ultimately show ?thesis by blast
qed

context bignum
begin

lemma OneHot_sound:
  assumes a: "norm_set n a" and k: "0 < k"
  shows "sound_unary (iops_OneHot bn a p k) (n + 1) (one_hot p n) a"
proof (cases "set_points a = {}")
  case True
  then show ?thesis using wf_of_width[of "n + 1"] by (simp add: sound_unary_def iops_OneHot_def norm_set_BitCount[OF a] IsEmpty_norm_set[OF a])
next
  case False
  let ?hit = "\<lambda>i. \<exists>x\<in>set_points a. tern_ok (OneHotTestVector n p i) x"
  let ?step = "\<lambda>i result. do { c \<leftarrow> CoversTernary a (OneHotTestVector n p i);
            if c then do { p \<leftarrow> PowerOfTwo i (n + 1); iv \<leftarrow> Interval_Precise p; AddInterval result iv } else Some result }"
  have cov: "CoversTernary a (OneHotTestVector n p i) = Some (?hit i)" for i
    by (rule CoversTernary_exact[OF a]) (simp add: OneHotTestVector_def)
  have e: "set_ok (n + 1) (IntervalSet_of_width (int (n + 1)))" "set_points (IntervalSet_of_width (int (n + 1))) = {}"
    using wf_of_width[of "n + 1"] by (auto intro: norm_set_ok)
  have lt: "(2 :: nat) ^ i < 2 ^ (n + 1)" if "i \<le> n" for i using that by (intro power_strict_increasing) simp_all
  have "\<exists>r. foldM ?step [0..<n] (IntervalSet_of_width (int (n + 1))) = Some r \<and>
      (set_ok (n + 1) r \<and> set_points r = {2 ^ i |i. i < n \<and> ?hit i})"
  proof (rule foldM_upt_inv[where P = "\<lambda>m r. set_ok (n + 1) r \<and> set_points r = {2 ^ i |i. i < m \<and> ?hit i}"])
    fix m r assume m: "m < n" and r: "set_ok (n + 1) r \<and> set_points r = {2 ^ i |i. i < m \<and> ?hit i}"
    obtain r' where "AddInterval r (ivl (n + 1) (2 ^ m) (2 ^ m)) = Some r'" "set_ok (n + 1) r'" "set_points r' = insert (2 ^ m) (set_points r)"
      using add_point[OF _ lt, of r m] r m by auto
    then show "\<exists>r'. ?step m r = Some r' \<and> set_ok (n + 1) r' \<and> set_points r' = {2 ^ i |i. i < Suc m \<and> ?hit i}"
      using r m cov[of m] by (cases "?hit m") (auto simp: PowerOfTwo_mk precise_interval less_Suc_eq simp del: One_nat_def)
  qed (use e in auto)
  then obtain r where r: "foldM ?step [0..<n] (IntervalSet_of_width (int (n + 1))) = Some r" "set_ok (n + 1) r" "set_points r = {2 ^ i |i. i < n \<and> ?hit i}"
    by blast
  obtain r' where r': "AddInterval r (ivl (n + 1) (2 ^ n) (2 ^ n)) = Some r'" "set_ok (n + 1) r'" "set_points r' = insert (2 ^ n) (set_points r)"
    using add_point[OF r(2) lt[OF order_refl]] by blast
  define s where "s = (if 0 \<in> set_points a then r' else r)"
  have "set_points a \<subseteq> {..<2 ^ n}" using norm_set_less[OF a] by auto
  then have s: "set_ok (n + 1) s" "set_points s = one_hot p n ` set_points a"
    using r r' by (auto simp: s_def one_hot_positions)
  have "(if 0 \<in> set_points a then do { p \<leftarrow> PowerOfTwo n (n + 1); iv \<leftarrow> Interval_Precise p; AddInterval r iv } else Some r) = Some s"
    using r'(1) by (simp add: PowerOfTwo_mk precise_interval s_def)
  then have "iops_OneHot bn a p k = MinimizeIntervals bn s k"
    using False r(1) unfolding iops_OneHot_def by (simp only: norm_set_BitCount[OF a] IsEmpty_norm_set[OF a] CoversZero_norm_set[OF a] Option.bind_lunit if_False)
  then show ?thesis using MinimizeIntervals_ok[OF s(1) k] s(2) by (auto simp: sound_unary_def)
qed

end

section \<open>Population counts\<close>

definition pop :: "nat \<Rightarrow> nat" where
  "pop x = card {i. bit x i}"

lemma finite_bits: "finite {i. bit x i}" for x :: nat
proof -
  have "{i. bit x i} \<subseteq> {..<nat_len x}" using nat_lt_exp_len[of x] unfolding nat_lt_exp_iff_bits by (auto simp: not_le[symmetric])
  then show ?thesis by (rule finite_subset) simp
qed

lemma pop_rec: "pop x = of_bool (odd x) + pop (x div 2)"
proof -
  have "{i. bit x i} = (if odd x then {0} else {}) \<union> Suc ` {i. bit (x div 2) i}"
    by (auto simp: bit_0 bit_Suc image_iff split: if_splits) (metis bit_0 bit_Suc not0_implies_Suc)+
  moreover have "card (Suc ` {i. bit (x div 2) i}) = pop (x div 2)" unfolding pop_def by (rule card_image) simp
  ultimately show ?thesis using finite_bits[of "x div 2"] by (auto simp: pop_def card_insert_if)
qed

lemma pop_0 [simp]: "pop 0 = 0"
  by (simp add: pop_def)

lemma pop_append: "y < 2 ^ d \<Longrightarrow> pop (h * 2 ^ d + y) = pop h + pop y"
proof (induction d arbitrary: y)
  case (Suc d)
  have "(h * 2 ^ Suc d + y) div 2 = h * 2 ^ d + y div 2" "odd (h * 2 ^ Suc d + y) = odd y" by simp_all
  then show ?case using Suc.IH[of "y div 2"] Suc.prems pop_rec[of "h * 2 ^ Suc d + y"] pop_rec[of y] by simp
qed simp

lemma pop_digits:
  assumes "y < 2 ^ d"
  shows "pop (H * 2 ^ Suc d + of_bool b * 2 ^ d + y) = pop H + of_bool b + pop y"
proof -
  have "of_bool b * 2 ^ d + y < 2 ^ Suc d" using assms by (cases b) simp_all
  then have "pop (H * 2 ^ Suc d + (of_bool b * 2 ^ d + y)) = pop H + pop (of_bool b * 2 ^ d + y)" by (rule pop_append)
  moreover have "pop (of_bool b) = of_bool b" using pop_rec[of "of_bool b"] by (cases b) simp_all
  ultimately show ?thesis using pop_append[OF assms, of "of_bool b"] by (simp add: add.assoc)
qed

lemma pop_le: "y < 2 ^ d \<Longrightarrow> pop y \<le> d" "y < 2 ^ d \<Longrightarrow> pop y = d \<Longrightarrow> y = 2 ^ d - 1" "pop (2 ^ d - 1) = d" "pop y = 0 \<longleftrightarrow> y = 0"
proof -
  have sub: "{i. bit y i} \<subseteq> {..<d}" if "y < 2 ^ d" using that unfolding nat_lt_exp_iff_bits by (auto simp: not_le[symmetric])
  then show "y < 2 ^ d \<Longrightarrow> pop y \<le> d" using card_mono[of "{..<d}" "{i. bit y i}"] by (simp add: pop_def)
  have "{i. bit (mask d :: nat) i} = {..<d}" by (auto simp: bit_mask_iff)
  then have "pop (mask d) = d" unfolding pop_def by simp
  then show "pop (2 ^ d - 1) = d" by (simp add: mask_eq_exp_minus_1)
  show "y = 2 ^ d - 1" if "y < 2 ^ d" "pop y = d"
  proof -
    have "{i. bit y i} = {..<d}" using card_subset_eq[OF _ sub[OF that(1)]] that(2) by (simp add: pop_def)
    then have "y = mask d" by (intro bit_eqI) (auto simp: bit_mask_iff)
    then show ?thesis by (simp add: mask_eq_exp_minus_1)
  qed
  show "pop y = 0 \<longleftrightarrow> y = 0" using finite_bits[of y] bit_nat_len[of y] by (auto simp: pop_def)
qed

lemma PopCount_pop: "v < 2 ^ n \<Longrightarrow> PopCount (mkBitmap n v) = Some (pop v)"
proof -
  assume v: "v < 2 ^ n"
  have "{i. i < n \<and> bit v i} = {i. bit v i}" using v unfolding nat_lt_exp_iff_bits by (auto simp: not_le[symmetric])
  then show ?thesis by (simp add: PopCount_mk pop_def)
qed

lemma MaxPopCountLessThanOrEqualTo_exact:
  assumes "U < 2 ^ d"
  shows "\<exists>m. MaxPopCountLessThanOrEqualTo (mkBitmap d U) = Some m \<and> (\<forall>y\<le>U. pop y \<le> m) \<and> (\<exists>y\<le>U. pop y = m)"
proof -
  let ?s = "nat_len U"
  have s: "?s \<le> d" "U < 2 ^ ?s" using assms nat_lt_exp_len by (simp_all add: nat_len_le_iff)
  have tb: "take_bit d U = U" "take_bit ?s U = U" using assms s(2) by (simp_all add: take_bit_nat_eq_self)
  consider (zero) "U = 0" | (ones) "U \<noteq> 0" "U = 2 ^ ?s - 1" | (other) "U \<noteq> 0" "U \<noteq> 2 ^ ?s - 1" by blast
  then show ?thesis
  proof cases
    case zero
    then show ?thesis by (auto simp: MaxPopCountLessThanOrEqualTo_def IsZero_mk Bits_IsAllOnes_mk)
  next
    case ones
    have "MaxPopCountLessThanOrEqualTo (mkBitmap d U) = Some ?s"
    proof (cases "U = mask d")
      case True
      then have "pop U = d" using pop_le(3)[of d] by (simp add: mask_eq_exp_minus_1)
      then have "d \<le> ?s" using pop_le(1)[OF s(2)] by simp
      then show ?thesis using True ones(1) s(1) tb by (simp add: MaxPopCountLessThanOrEqualTo_def IsZero_mk Bits_IsAllOnes_mk)
    next
      case False
      then show ?thesis using ones s(1) tb
        by (simp add: MaxPopCountLessThanOrEqualTo_def IsZero_mk Bits_IsAllOnes_mk CountLeadingZeros_mk Slice_mk mask_eq_exp_minus_1)
    qed
    moreover have "pop y \<le> ?s" if "y \<le> U" for y using pop_le(1)[of y ?s] that s(2) by simp
    moreover have "pop U = ?s" using ones(2) pop_le(3)[of ?s] by simp
    ultimately show ?thesis by blast
  next
    case other
    have "U \<noteq> mask d"
    proof
      assume "U = mask d"
      then have "pop U = d" using pop_le(3)[of d] by (simp add: mask_eq_exp_minus_1)
      then have "pop U = ?s" using pop_le(1)[OF s(2)] s(1) by simp
      then show False using pop_le(2)[OF s(2)] other(2) by blast
    qed
    then have "MaxPopCountLessThanOrEqualTo (mkBitmap d U) = Some (?s - 1)"
      using other s(1) tb by (simp add: MaxPopCountLessThanOrEqualTo_def IsZero_mk Bits_IsAllOnes_mk CountLeadingZeros_mk Slice_mk mask_eq_exp_minus_1)
    moreover have "pop y \<le> ?s - 1" if y: "y \<le> U" for y
    proof -
      have ys: "y < 2 ^ ?s" using y s(2) by simp
      have "pop y \<noteq> ?s"
      proof
        assume "pop y = ?s"
        then have "y = 2 ^ ?s - 1" using pop_le(2)[OF ys] by blast
        then show False using y s(2) other(2) by linarith
      qed
      then show ?thesis using pop_le(1)[OF ys] by simp
    qed
    moreover have "2 ^ (?s - 1) - 1 \<le> U" using bit_nat_len[of U] other(1) by (metis bits_le bit_exp_iff diff_le_self order_trans possible_bit_nat)
    ultimately show ?thesis using pop_le(3)[of "?s - 1"] by blast
  qed
qed

lemma pop_interval_exact:
  assumes "l \<le> u" "u < 2 ^ n"
  shows "\<exists>m. MaxPopCount_interval (ivl n l u) = Some m \<and> (\<forall>x\<in>{l..u}. pop x \<le> m) \<and> (\<exists>x\<in>{l..u}. pop x = m)"
    and "\<exists>m. MinPopCount_interval (ivl n l u) = Some m \<and> (\<forall>x\<in>{l..u}. m \<le> pop x) \<and> (\<exists>x\<in>{l..u}. pop x = m)"
proof -
  have l: "l < 2 ^ n" using assms by simp
  have "(\<exists>m. MaxPopCount_interval (ivl n l u) = Some m \<and> (\<forall>x\<in>{l..u}. pop x \<le> m) \<and> (\<exists>x\<in>{l..u}. pop x = m)) \<and>
    (\<exists>m. MinPopCount_interval (ivl n l u) = Some m \<and> (\<forall>x\<in>{l..u}. m \<le> pop x) \<and> (\<exists>x\<in>{l..u}. pop x = m))"
  proof (cases "l = u")
    case True
    then show ?thesis using l by (simp add: MaxPopCount_interval_def MinPopCount_interval_def ivl_rules PopCount_pop)
  next
    case False
    then have "l < u" using assms(1) by simp
    then obtain d H L U where d: "d < n" "L < 2 ^ d" "U < 2 ^ d" "l = H * 2 ^ Suc d + L" "u = H * 2 ^ Suc d + 2 ^ d + U"
        "LongestCommonPrefixMSB [mkBitmap n l, mkBitmap n u] = Some (mkBitmap (n - Suc d) H)"
      using common_prefix_split[OF _ assms(2)] by blast
    have lo: "l = H * 2 ^ Suc d + of_bool False * 2 ^ d + L" and hi: "u = H * 2 ^ Suc d + of_bool True * 2 ^ d + U" using d(4,5) by simp_all
    note D = digits[OF d(2) lo] digits[OF d(3) hi]
    have low: "mkBitmap d u = mkBitmap d U" "mkBitmap d l = mkBitmap d L"
      using D(3,6) d(2,3) by (simp_all add: mkBitmap_eq_iff take_bit_eq_mod)
    have H: "H < 2 ^ (n - Suc d)" using l D(1) d(1) by (metis Suc_leI div_less_iff_less_mult le_add_diff_inverse2 power_add zero_less_numeral zero_less_power)
    have idx: "n - 1 - (n - Suc d) = d" using d(1) by simp
    have pops: "pop x = pop H + of_bool (bit x d) + pop (x mod 2 ^ d) \<and> (if bit x d then x mod 2 ^ d \<le> U else L \<le> x mod 2 ^ d) \<and> x mod 2 ^ d < 2 ^ d"
      if "x \<in> {l..u}" for x
    proof -
      have b: "x div 2 ^ Suc d = H" "if bit x d then x mod 2 ^ d \<le> U else L \<le> x mod 2 ^ d"
        using that between_digits[OF d(2,3), of x H] unfolding d(4,5) by blast+
      have "x mod 2 ^ d < 2 ^ d" by simp
      then show ?thesis using pop_digits[of "x mod 2 ^ d" d H "bit x d"] digits_split[of x d] b by simp
    qed
    have pick: "\<exists>x\<in>{l..u}. pop x = pop H + of_bool b + pop y" if "y < 2 ^ d" "if b then y \<le> U else L \<le> y" for b y
    proof
      show "pop (H * 2 ^ Suc d + of_bool b * 2 ^ d + y) = pop H + of_bool b + pop y" by (rule pop_digits[OF that(1)])
      show "H * 2 ^ Suc d + of_bool b * 2 ^ d + y \<in> {l..u}"
        using that(2) unfolding d(4,5) between_digits[OF d(2,3)] digits[OF that(1) refl, of H b] by blast
    qed
    have full: "pop (2 ^ d - 1) = d" "2 ^ d - 1 < (2 :: nat) ^ d" "L \<le> 2 ^ d - 1" using pop_le(3)[of d] d(2) by auto
    obtain k where k: "(if d = 0 then Some (pop H + 1) else do { upper_remainder \<leftarrow> Slice (mkBitmap n u) 0 d;
        k \<leftarrow> MaxPopCountLessThanOrEqualTo upper_remainder; Some (pop H + 1 + k) }) = Some (pop H + 1 + k)"
        "\<forall>y\<le>U. pop y \<le> k" "\<exists>y\<le>U. pop y = k"
    proof (cases "d = 0")
      case True
      then show ?thesis using that[of 0] d(3) by simp
    next
      case False
      obtain k where k: "MaxPopCountLessThanOrEqualTo (mkBitmap d U) = Some k" "\<forall>y\<le>U. pop y \<le> k" "\<exists>y\<le>U. pop y = k"
        using MaxPopCountLessThanOrEqualTo_exact[OF d(3)] by blast
      show ?thesis by (rule that[OF _ k(2,3)]) (use False d(1) low(1) k(1) in \<open>simp add: Slice_mk\<close>)
    qed
    have "MaxPopCount_interval (ivl n l u) = Some (max (pop H + d) (pop H + 1 + k))"
      unfolding MaxPopCount_interval_def Let_def ivl_simps IsPrecise_ivl[OF l assms(2)] ib_bit_count_mkBitmap
      by (simp only: Option.bind_lunit False if_False d(6) PopCount_pop[OF H] idx k(1) ib_bit_count_mkBitmap)
    moreover have "pop x \<le> max (pop H + d) (pop H + 1 + k)" if "x \<in> {l..u}" for x
      using pops[OF that] k(2) pop_le(1)[of "x mod 2 ^ d" d] by (cases "bit x d") (auto simp: le_max_iff_disj)
    moreover have "\<exists>x\<in>{l..u}. pop x = max (pop H + d) (pop H + 1 + k)"
    proof -
      obtain y where "y \<le> U" "pop y = k" using k(3) by blast
      then show ?thesis using pick[of y True] pick[of "2 ^ d - 1" False] full d(3) by (cases "pop H + d \<le> pop H + 1 + k") (simp_all add: max_def)
    qed
    ultimately have mx: "\<exists>m. MaxPopCount_interval (ivl n l u) = Some m \<and> (\<forall>x\<in>{l..u}. pop x \<le> m) \<and> (\<exists>x\<in>{l..u}. pop x = m)" by blast
    have z: "(if d = 0 then Some True else do { low \<leftarrow> Slice (mkBitmap n l) 0 d; IsZero low }) = Some (L = 0)"
      using d(1,2) low(2) by (auto simp: Slice_mk IsZero_mk take_bit_nat_eq_self)
    have "MinPopCount_interval (ivl n l u) = Some (if L = 0 then pop H else pop H + 1)"
      unfolding MinPopCount_interval_def Let_def ivl_simps IsPrecise_ivl[OF l assms(2)] ib_bit_count_mkBitmap
      by (simp only: Option.bind_lunit False if_False d(6) PopCount_pop[OF H] idx z ib_bit_count_mkBitmap)
    moreover have "(if L = 0 then pop H else pop H + 1) \<le> pop x" if "x \<in> {l..u}" for x
      using pops[OF that] pop_le(4)[of "x mod 2 ^ d"] by (cases "bit x d") (auto simp: Suc_le_eq)
    moreover have "\<exists>x\<in>{l..u}. pop x = (if L = 0 then pop H else pop H + 1)"
      using pick[of 0 False] pick[of 0 True] by (cases "L = 0") simp_all
    ultimately show ?thesis using mx by blast
  qed
  then show "\<exists>m. MaxPopCount_interval (ivl n l u) = Some m \<and> (\<forall>x\<in>{l..u}. pop x \<le> m) \<and> (\<exists>x\<in>{l..u}. pop x = m)"
    and "\<exists>m. MinPopCount_interval (ivl n l u) = Some m \<and> (\<forall>x\<in>{l..u}. m \<le> pop x) \<and> (\<exists>x\<in>{l..u}. pop x = m)" by blast+
qed

lemma PopCounts_exact:
  assumes "norm_set n s" "set_points s \<noteq> {}"
  shows "MaxPopCount s = Some (Max (pop ` set_points s))" "MinPopCount s = Some (Min (pop ` set_points s))"
proof -
  obtain ps where ps: "s = nset n ps" "norm n ps" using assms(1) by (rule norm_setE)
  have S: "set_points s = pts n ps" using set_points_nset[OF ps(2)] ps(1) by simp
  have maxs: "\<exists>m. foldM (\<lambda>i k. do { j \<leftarrow> MaxPopCount_interval i; Some (max k j) }) (ivs n qs) k = Some m \<and>
      k \<le> m \<and> (\<forall>x\<in>pts n qs. pop x \<le> m) \<and> (m = k \<or> (\<exists>x\<in>pts n qs. pop x = m))" if "norm n qs" for qs k
    using that
  proof (induction qs arbitrary: k)
    case (Cons q qs)
    obtain l u where q: "q = (l, u)" by fastforce
    then have lu: "l \<le> u" "u < 2 ^ n" "norm n qs" using Cons.prems by (auto simp: norm_Cons)
    then have P: "pts n (q # qs) = {l..u} \<union> pts n qs" using q by (simp add: wrap_points_def)
    obtain m where m: "MaxPopCount_interval (ivl n l u) = Some m" "\<forall>x\<in>{l..u}. pop x \<le> m" "\<exists>x\<in>{l..u}. pop x = m"
      using pop_interval_exact[OF lu(1,2)] by blast
    obtain w where w: "foldM (\<lambda>i k. do { j \<leftarrow> MaxPopCount_interval i; Some (max k j) }) (ivs n qs) (max k m) = Some w"
        "max k m \<le> w" "\<forall>x\<in>pts n qs. pop x \<le> w" "w = max k m \<or> (\<exists>x\<in>pts n qs. pop x = w)"
      using Cons.IH[OF lu(3), of "max k m"] by blast
    have "foldM (\<lambda>i k. do { j \<leftarrow> MaxPopCount_interval i; Some (max k j) }) (ivs n (q # qs)) k = Some w" using w(1) m(1) q by simp
    moreover have "\<forall>x\<in>pts n (q # qs). pop x \<le> w" unfolding P using m(2) w(2,3) by fastforce
    moreover have "w = k \<or> (\<exists>x\<in>pts n (q # qs). pop x = w)" unfolding P using w(4) m(3) by (auto simp: max_def split: if_splits)
    ultimately show ?case using w(2) by auto
  qed simp
  have mins: "\<exists>m. foldM (\<lambda>i k. do { j \<leftarrow> MinPopCount_interval i; Some (min k j) }) (ivs n qs) k = Some m \<and>
      m \<le> k \<and> (\<forall>x\<in>pts n qs. m \<le> pop x) \<and> (m = k \<or> (\<exists>x\<in>pts n qs. pop x = m))" if "norm n qs" for qs k
    using that
  proof (induction qs arbitrary: k)
    case (Cons q qs)
    obtain l u where q: "q = (l, u)" by fastforce
    then have lu: "l \<le> u" "u < 2 ^ n" "norm n qs" using Cons.prems by (auto simp: norm_Cons)
    then have P: "pts n (q # qs) = {l..u} \<union> pts n qs" using q by (simp add: wrap_points_def)
    obtain m where m: "MinPopCount_interval (ivl n l u) = Some m" "\<forall>x\<in>{l..u}. m \<le> pop x" "\<exists>x\<in>{l..u}. pop x = m"
      using pop_interval_exact[OF lu(1,2)] by blast
    obtain w where w: "foldM (\<lambda>i k. do { j \<leftarrow> MinPopCount_interval i; Some (min k j) }) (ivs n qs) (min k m) = Some w"
        "w \<le> min k m" "\<forall>x\<in>pts n qs. w \<le> pop x" "w = min k m \<or> (\<exists>x\<in>pts n qs. pop x = w)"
      using Cons.IH[OF lu(3), of "min k m"] by blast
    have "foldM (\<lambda>i k. do { j \<leftarrow> MinPopCount_interval i; Some (min k j) }) (ivs n (q # qs)) k = Some w" using w(1) m(1) q by simp
    moreover have "\<forall>x\<in>pts n (q # qs). w \<le> pop x" unfolding P using m(2) w(2,3) by fastforce
    moreover have "w = k \<or> (\<exists>x\<in>pts n (q # qs). pop x = w)" unfolding P using w(4) m(3) by (auto simp: min_def split: if_splits)
    ultimately show ?case using w(2) by auto
  qed simp
  have fin: "finite (pop ` pts n ps)" "pts n ps \<noteq> {}" using finite_pts[OF ps(2)] assms(2) S by auto
  obtain m where m: "foldM (\<lambda>i k. do { j \<leftarrow> MaxPopCount_interval i; Some (max k j) }) (ivs n ps) 0 = Some m"
      "\<forall>x\<in>pts n ps. pop x \<le> m" "m = 0 \<or> (\<exists>x\<in>pts n ps. pop x = m)"
    using maxs[OF ps(2), of 0] by blast
  then have "\<exists>x\<in>pts n ps. pop x = m" using fin(2) by fastforce
  then have "Max (pop ` pts n ps) = m" using m(2) fin(1) by (intro Max_eqI) auto
  then show "MaxPopCount s = Some (Max (pop ` set_points s))" using m(1) S ps(1) by (simp add: MaxPopCount_def Intervals_def)
  obtain w where w: "foldM (\<lambda>i k. do { j \<leftarrow> MinPopCount_interval i; Some (min k j) }) (ivs n ps) n = Some w"
      "\<forall>x\<in>pts n ps. w \<le> pop x" "w = n \<or> (\<exists>x\<in>pts n ps. pop x = w)"
    using mins[OF ps(2), of n] by blast
  have "pop x \<le> n" if "x \<in> pts n ps" for x using pop_le(1)[of x n] norm_set_less[OF assms(1)] that S by simp
  then have "\<exists>x\<in>pts n ps. pop x = w" using w(2,3) fin(2) by (meson ex_in_conv le_antisym)
  then have "Min (pop ` pts n ps) = w" using w(2) fin(1) by (intro Min_eqI) auto
  then show "MinPopCount s = Some (Min (pop ` set_points s))"
    using w(1) S ps(1) assms norm_set_BitCount[OF assms(1)] IsEmpty_norm_set[OF assms(1)] by (simp add: MinPopCount_def Intervals_def)
qed

section \<open>Concatenation\<close>

text \<open>A field of the result: offset, width, and the intervals of the operand that goes there.\<close>

type_synonym field = "nat \<times> operand"

definition in_field :: "field \<Rightarrow> nat \<Rightarrow> bool" where
  "in_field f i = (fst f \<le> i \<and> i < fst f + fst (snd f))"

definition imprecise_operand :: "field \<Rightarrow> ImpreciseOperand" where
  "imprecise_operand f = \<lparr>operand_set = nset (fst (snd f)) (snd (snd f)), bit_offset = fst f\<rparr>"

text \<open>Fields from the most significant one, below a position.\<close>

fun fields_below :: "nat \<Rightarrow> field list \<Rightarrow> bool" where
  "fields_below P [] = True"
| "fields_below P ((d, n, ps) # fs) = (d + n \<le> P \<and> norm n ps \<and> fields_below d fs)"

fun fields_value :: "field list \<Rightarrow> nat list \<Rightarrow> nat" where
  "fields_value ((d, x) # fs) (v # vs) = v * 2 ^ d + fields_value fs vs"
| "fields_value _ _ = 0"

definition choice :: "field list \<Rightarrow> nat list \<Rightarrow> bool" where
  "choice fs vs = list_all2 (\<lambda>f v. v \<in> pts (fst (snd f)) (snd (snd f))) fs vs"

definition clear :: "nat \<Rightarrow> field list \<Rightarrow> bool" where
  "clear t fs = (\<forall>f\<in>set fs. \<forall>i. in_field f i \<longrightarrow> \<not> bit t i)"

definition same_outside :: "nat \<Rightarrow> field list \<Rightarrow> nat \<Rightarrow> nat \<Rightarrow> bool" where
  "same_outside N fs a t = (\<forall>i<N. (\<forall>f\<in>set fs. \<not> in_field f i) \<longrightarrow> bit a i = bit t i)"

lemma bit_set_field:
  fixes t :: nat
  assumes "l < 2 ^ n" "\<And>i. d \<le> i \<Longrightarrow> i < d + n \<Longrightarrow> \<not> bit t i"
  shows "bit (t + l * 2 ^ d) i \<longleftrightarrow> (if d \<le> i \<and> i < d + n then bit l (i - d) else bit t i)"
proof -
  have l: "bit l j \<Longrightarrow> j < n" for j using assms(1) by (meson nat_lt_exp_iff_bits not_le)
  have "t + push_bit d l = t OR push_bit d l"
    using assms(2) l by (intro disjunctive_add) (metis add_diff_inverse_nat bit_push_bit_iff_nat nat_add_left_cancel_less not_le)
  then show ?thesis using assms(2) l[of "i - d"] by (auto simp: push_bit_eq_mult bit_or_iff bit_push_bit_iff simp flip: push_bit_eq_mult)
qed

lemma Overwrite_field:
  assumes "d + n \<le> N"
  shows "\<exists>a'. Overwrite (mkBitmap N a) (mkBitmap n l) n d 0 = Some (mkBitmap N a') \<and>
    (\<forall>i. bit a' i \<longleftrightarrow> (if d \<le> i \<and> i < d + n then bit l (i - d) else bit a i))"
proof (intro exI conjI allI)
  let ?a = "take_bit d a OR push_bit d (take_bit n l) OR push_bit (d + n) (drop_bit (d + n) a)"
  show "Overwrite (mkBitmap N a) (mkBitmap n l) n d 0 = Some (mkBitmap N ?a)" using Overwrite_mk[OF assms, of 0 n a l] by simp
  show "bit ?a i \<longleftrightarrow> (if d \<le> i \<and> i < d + n then bit l (i - d) else bit a i)" for i by (auto simp: bit_simps)
qed

lemma concat_push_ok:
  assumes "norm N qs" "lo \<le> hi" "hi < 2 ^ N" "\<forall>q\<in>set qs. fst q < lo"
  shows "\<exists>qs'. concat_push \<lparr>lower_bits = mkBitmap N lo, upper_bits = mkBitmap N hi, concat_intervals = ivs N qs\<rparr> =
      Some \<lparr>lower_bits = mkBitmap N lo, upper_bits = mkBitmap N hi, concat_intervals = ivs N qs'\<rparr> \<and>
    norm N qs' \<and> pts N qs \<union> {lo..hi} \<subseteq> pts N qs' \<and> (\<forall>q\<in>set qs'. fst q \<le> lo)"
proof (cases qs rule: rev_cases)
  case Nil
  then show ?thesis using assms(2,3) by (intro exI[of _ "[(lo, hi)]"]) (simp add: concat_push_def Let_def mkInterval_mk norm_def wrap_points_def)
next
  case (snoc rs q)
  obtain l u where q: "q = (l, u)" by fastforce
  have lu: "l \<le> u" "u < 2 ^ N" "l < lo" "norm N rs" "rs \<noteq> [] \<Longrightarrow> snd (last rs) + 1 < l"
    using assms(1,4) snoc q by (auto simp: norm_snoc)
  have lt: "lo < 2 ^ N" using assms(2,3) by simp
  have tb: "take_bit N u = u" "take_bit N lo = lo" "take_bit N hi = hi" using lu(2) lt assms(3) by (simp_all add: take_bit_nat_eq_self)
  have rs: "fst q \<le> lo" if "q \<in> set rs" for q using that assms(4) snoc by (auto intro: less_imp_le)
  consider (extend) "lo \<le> u + 1" "u < hi" | (inside) "lo \<le> u + 1" "hi \<le> u" | (new) "u + 1 < lo" by linarith
  then show ?thesis
  proof cases
    case extend
    then show ?thesis using snoc q lu assms(2,3) tb rs
      by (intro exI[of _ "rs @ [(l, hi)]"]) (auto simp: concat_push_def Let_def mkInterval_mk UAtLeastPredecessor_mk UCmp_ops_mk norm_snoc wrap_points_def)
  next
    case inside
    then show ?thesis using snoc q lu assms(1-3) tb rs
      by (intro exI[of _ qs]) (auto simp: concat_push_def Let_def UAtLeastPredecessor_mk UCmp_ops_mk wrap_points_def)
  next
    case new
    have "norm N (qs @ [(lo, hi)])" unfolding norm_snoc using new snoc q assms(1-3) by simp
    then show ?thesis using new snoc q lu assms tb rs
      by (intro exI[of _ "qs @ [(lo, hi)]"]) (auto simp: concat_push_def Let_def mkInterval_mk UAtLeastPredecessor_mk wrap_points_def)
  qed
qed

lemma fields_below_offset: "fields_below P fs \<Longrightarrow> f \<in> set fs \<Longrightarrow> in_field f i \<Longrightarrow> i < P"
  by (induction P fs rule: fields_below.induct) (auto simp: in_field_def intro: less_le_trans)

text \<open>Writing a bound into its field leaves the fields below it clear.\<close>

lemma write_field:
  assumes "fields_below P ((d, n, ps) # fs)" "P \<le> N" "clear t ((d, n, ps) # fs)" "t < 2 ^ N" "v < 2 ^ n" "same_outside N ((d, n, ps) # fs) a t"
  shows "clear (t + v * 2 ^ d) fs" "t + v * 2 ^ d < 2 ^ N"
    and "\<exists>a'. Overwrite (mkBitmap N a) (mkBitmap n v) n d 0 = Some (mkBitmap N a') \<and> same_outside N fs a' (t + v * 2 ^ d)"
    and "\<And>a'. same_outside N fs a' (t + v * 2 ^ d) \<Longrightarrow> same_outside N ((d, n, ps) # fs) a' t"
proof -
  have bits: "bit (t + v * 2 ^ d) i \<longleftrightarrow> (if d \<le> i \<and> i < d + n then bit v (i - d) else bit t i)" for i
    using assms(3) by (intro bit_set_field[OF assms(5)]) (auto simp: clear_def in_field_def)
  show "clear (t + v * 2 ^ d) fs"
    using assms(1,3) fields_below_offset[of d fs] unfolding clear_def bits by fastforce
  show "t + v * 2 ^ d < 2 ^ N"
    using assms(1,2,4) unfolding nat_lt_exp_iff_bits bits by auto
  obtain a' where "Overwrite (mkBitmap N a) (mkBitmap n v) n d 0 = Some (mkBitmap N a')"
      "\<forall>i. bit a' i \<longleftrightarrow> (if d \<le> i \<and> i < d + n then bit v (i - d) else bit a i)"
    using Overwrite_field[of d n N a v] assms(1,2) by auto
  then show "\<exists>a'. Overwrite (mkBitmap N a) (mkBitmap n v) n d 0 = Some (mkBitmap N a') \<and> same_outside N fs a' (t + v * 2 ^ d)"
    using assms(6) bits by (auto simp: same_outside_def in_field_def)
  show "same_outside N ((d, n, ps) # fs) a' t" if "same_outside N fs a' (t + v * 2 ^ d)" for a'
    using that bits by (auto simp: same_outside_def in_field_def)
qed

definition helper_step :: "nat \<Rightarrow> field list \<Rightarrow> Interval \<Rightarrow> concat_state \<Rightarrow> concat_state option" where
  "helper_step d fs i s = do {
         n \<leftarrow> Interval_BitCount i;
         lo \<leftarrow> Overwrite (lower_bits s) (lower_bound i) n d 0;
         hi \<leftarrow> Overwrite (upper_bits s) (upper_bound i) n d 0;
         ConcatHelper (map imprecise_operand fs) (s\<lparr>lower_bits := lo, upper_bits := hi\<rparr>) }"

text \<open>What the recursion keeps and adds: the bits outside the fields, and an interval around every choice of values.\<close>

definition helper_post :: "nat \<Rightarrow> nat \<Rightarrow> field list \<Rightarrow> nat \<Rightarrow> nat \<Rightarrow> (nat \<times> nat) list \<Rightarrow> (nat list \<Rightarrow> bool) \<Rightarrow> concat_state option \<Rightarrow> bool" where
  "helper_post N P fs t t' qs C r = (\<exists>a b qs'. r = Some \<lparr>lower_bits = mkBitmap N a, upper_bits = mkBitmap N b, concat_intervals = ivs N qs'\<rparr> \<and>
     same_outside N fs a t \<and> same_outside N fs b t' \<and> norm N qs' \<and> pts N qs \<subseteq> pts N qs' \<and>
     (\<forall>vs. C vs \<longrightarrow> {t + fields_value fs vs..t' + fields_value fs vs} \<subseteq> pts N qs') \<and> (\<forall>q\<in>set qs'. fst q < t + 2 ^ P))"

lemma ConcatHelper_ok:
  assumes "fields_below P fs" "P \<le> N" "clear t fs" "clear t' fs" "t \<le> t'" "t' < 2 ^ N" "same_outside N fs a t" "same_outside N fs b t'"
    "norm N qs" "\<forall>q\<in>set qs. fst q < t"
  shows "helper_post N P fs t t' qs (choice fs)
    (ConcatHelper (map imprecise_operand fs) \<lparr>lower_bits = mkBitmap N a, upper_bits = mkBitmap N b, concat_intervals = ivs N qs\<rparr>)"
  using assms
proof (induction fs arbitrary: P t t' a b qs)
  case Nil
  have "mkBitmap N a = mkBitmap N t" "mkBitmap N b = mkBitmap N t'"
    using Nil.prems(7,8) by (auto simp: same_outside_def mkBitmap_eq_iff intro!: bit_eqI simp: bit_take_bit_iff)
  then show ?case using concat_push_ok[OF Nil.prems(9,5,6,10)]
    by (fastforce simp: helper_post_def choice_def same_outside_def intro: le_less_trans)
next
  case (Cons f fs)
  obtain d n ps where f: "f = (d, n, ps)" by (metis prod.exhaust)
  note IH = Cons.IH[unfolded helper_post_def]
  note below = Cons.prems(1)[unfolded f] and N = Cons.prems(2) and clear = Cons.prems(3,4)[unfolded f] and tt = Cons.prems(5,6)
  have dn: "d + n \<le> P" "norm n ps" "fields_below d fs" using below by auto
  have inner: "helper_post N P (f # fs) t t' qs (\<lambda>vs. choice ((d, n, rs) # fs) vs) (foldM (helper_step d fs) (ivs n rs)
      \<lparr>lower_bits = mkBitmap N a, upper_bits = mkBitmap N b, concat_intervals = ivs N qs\<rparr>)"
    if "norm n rs" "same_outside N (f # fs) a t" "same_outside N (f # fs) b t'" "norm N qs"
      "\<forall>q\<in>set qs. fst q < t + 2 ^ P \<and> (\<forall>r\<in>set rs. fst q < t + fst r * 2 ^ d)" for rs a b qs
    using that
  proof (induction rs arbitrary: a b qs)
    case Nil
    then show ?case by (auto simp: helper_post_def choice_def list_all2_Cons1)
  next
    case (Cons r rs)
    obtain x y where r: "r = (x, y)" by fastforce
    have xy: "x \<le> y" "y < 2 ^ n" "x < 2 ^ n" "norm n rs" "\<forall>r\<in>set rs. y + 1 < fst r" using Cons.prems(1) r by (auto simp: norm_Cons)
    have t: "t < 2 ^ N" using tt by simp
    note lo = write_field[OF below N clear(1) t xy(3) Cons.prems(2)[unfolded f]] and hi = write_field[OF below N clear(2) tt(2) xy(2) Cons.prems(3)[unfolded f]]
    obtain a1 b1 where ab: "Overwrite (mkBitmap N a) (mkBitmap n x) n d 0 = Some (mkBitmap N a1)" "same_outside N fs a1 (t + x * 2 ^ d)"
        "Overwrite (mkBitmap N b) (mkBitmap n y) n d 0 = Some (mkBitmap N b1)" "same_outside N fs b1 (t' + y * 2 ^ d)"
      using lo(3) hi(3) by blast
    have le: "t + x * 2 ^ d \<le> t' + y * 2 ^ d" using tt(1) xy(1) by (intro add_mono mult_le_mono1)
    have "d \<le> N" "\<forall>q\<in>set qs. fst q < t + x * 2 ^ d" using dn(1) N Cons.prems(5) r by auto
    then obtain a2 b2 qs2 where two: "ConcatHelper (map imprecise_operand fs) \<lparr>lower_bits = mkBitmap N a1, upper_bits = mkBitmap N b1, concat_intervals = ivs N qs\<rparr> =
          Some \<lparr>lower_bits = mkBitmap N a2, upper_bits = mkBitmap N b2, concat_intervals = ivs N qs2\<rparr>"
        "same_outside N fs a2 (t + x * 2 ^ d)" "same_outside N fs b2 (t' + y * 2 ^ d)" "norm N qs2" "pts N qs \<subseteq> pts N qs2"
        "\<forall>vs. choice fs vs \<longrightarrow> {t + x * 2 ^ d + fields_value fs vs..t' + y * 2 ^ d + fields_value fs vs} \<subseteq> pts N qs2"
        "\<forall>q\<in>set qs2. fst q < t + x * 2 ^ d + 2 ^ d"
      using IH[OF dn(3) _ lo(1) hi(1) le hi(2) ab(2,4) Cons.prems(4)] by blast
    have later: "fst q < t + 2 ^ P \<and> (\<forall>r\<in>set rs. fst q < t + fst r * 2 ^ d)" if q: "q \<in> set qs2" for q
    proof -
      have lt: "fst q < t + (x + 1) * 2 ^ d" using two(7) q by (simp add: ac_simps)
      have "(x + 1) * 2 ^ d \<le> 2 ^ n * 2 ^ d" using xy(3) by (intro mult_le_mono1) simp
      also have "\<dots> \<le> 2 ^ P" using dn(1) by (simp add: power_add[symmetric] power_increasing add.commute)
      finally have "fst q < t + 2 ^ P" using lt by linarith
      moreover have "(x + 1) * 2 ^ d \<le> fst r * 2 ^ d" if "r \<in> set rs" for r using xy(1,5) that by (intro mult_le_mono1) fastforce
      then have "\<forall>r\<in>set rs. fst q < t + fst r * 2 ^ d" using lt by fastforce
      ultimately show ?thesis by blast
    qed
    have outer: "same_outside N (f # fs) a2 t" "same_outside N (f # fs) b2 t'" unfolding f by (rule lo(4)[OF two(2)] hi(4)[OF two(3)])+
    obtain a3 b3 qs3 where three: "foldM (helper_step d fs) (ivs n rs) \<lparr>lower_bits = mkBitmap N a2, upper_bits = mkBitmap N b2, concat_intervals = ivs N qs2\<rparr> =
          Some \<lparr>lower_bits = mkBitmap N a3, upper_bits = mkBitmap N b3, concat_intervals = ivs N qs3\<rparr>"
        "same_outside N (f # fs) a3 t" "same_outside N (f # fs) b3 t'" "norm N qs3" "pts N qs2 \<subseteq> pts N qs3"
        "\<forall>vs. choice ((d, n, rs) # fs) vs \<longrightarrow> {t + fields_value (f # fs) vs..t' + fields_value (f # fs) vs} \<subseteq> pts N qs3"
        "\<forall>q\<in>set qs3. fst q < t + 2 ^ P"
      using Cons.IH[OF xy(4) outer two(4)] later unfolding helper_post_def by blast
    have "helper_step d fs (ivl n x y) \<lparr>lower_bits = mkBitmap N a, upper_bits = mkBitmap N b, concat_intervals = ivs N qs\<rparr> =
        Some \<lparr>lower_bits = mkBitmap N a2, upper_bits = mkBitmap N b2, concat_intervals = ivs N qs2\<rparr>"
      using ab(1,3) two(1) by (simp add: helper_step_def ivl_rules)
    then have run: "foldM (helper_step d fs) (ivs n (r # rs)) \<lparr>lower_bits = mkBitmap N a, upper_bits = mkBitmap N b, concat_intervals = ivs N qs\<rparr> =
        Some \<lparr>lower_bits = mkBitmap N a3, upper_bits = mkBitmap N b3, concat_intervals = ivs N qs3\<rparr>"
      using three(1) r by simp
    have "{t + fields_value (f # fs) vs..t' + fields_value (f # fs) vs} \<subseteq> pts N qs3" if vs: "choice ((d, n, r # rs) # fs) vs" for vs
    proof -
      obtain v ws where v: "vs = v # ws" "v \<in> pts n (r # rs)" "choice fs ws" using vs by (auto simp: choice_def list_all2_Cons1)
      show ?thesis
      proof (cases "v \<in> pts n rs")
        case True
        then show ?thesis using three(6) v by (simp add: choice_def)
      next
        case False
        then have "x \<le> v" "v \<le> y" using v(2) r xy(1) by (auto simp: wrap_points_def)
        then have "x * 2 ^ d \<le> v * 2 ^ d" "v * 2 ^ d \<le> y * 2 ^ d" by simp_all
        then have "{t + fields_value (f # fs) vs..t' + fields_value (f # fs) vs} \<subseteq>
            {t + x * 2 ^ d + fields_value fs ws..t' + y * 2 ^ d + fields_value fs ws}"
          unfolding v(1) f by auto
        then show ?thesis using two(6) v(3) three(5) by blast
      qed
    qed
    then show ?case using run three two(5) unfolding helper_post_def by blast
  qed
  have "ConcatHelper (map imprecise_operand (f # fs)) s = foldM (helper_step d fs) (ivs n ps) s" for s
    by (simp add: imprecise_operand_def f Intervals_def helper_step_def[abs_def])
  moreover have "\<forall>q\<in>set qs. fst q < t + 2 ^ P \<and> (\<forall>r\<in>set ps. fst q < t + fst r * 2 ^ d)"
    using Cons.prems(10) by (auto intro: trans_less_add1)
  ultimately show ?case using inner[OF dn(2) Cons.prems(7-9)] by (simp only: f)
qed

subsection \<open>Operands and their places\<close>

fun lsb_value :: "nat \<Rightarrow> nat list \<Rightarrow> nat list \<Rightarrow> nat" where
  "lsb_value d (n # ns) (v # vs) = v * 2 ^ d + lsb_value (d + n) ns vs"
| "lsb_value d _ _ = 0"

lemma lsb_value_snoc:
  "length ns = length vs \<Longrightarrow> lsb_value d (ns @ [n]) (vs @ [v]) = lsb_value d ns vs + v * 2 ^ (d + sum_list ns)"
  by (induction ns vs arbitrary: d rule: list_induct2) (simp_all add: add.assoc)

lemma concat_val_lsb:
  assumes "list_all2 (\<lambda>n v. v < 2 ^ n) ns vs"
  shows "concat_val (zip ns vs) = lsb_value 0 (rev ns) (rev vs)"
  using assms
proof (induction ns vs rule: list_all2_induct)
  case (Cons n ns v vs)
  have len: "length ns = length vs" using Cons.hyps(2) by (rule list_all2_lengthD)
  let ?S = "sum_list ns" and ?r = "concat_val (zip ns vs)"
  have "map fst (zip ns vs) = ns" using len by simp
  then have lt: "?r < 2 ^ ?S" using concat_val_less[of "zip ns vs"] by simp
  have "bit ?r i \<Longrightarrow> i < ?S" for i using lt by (meson nat_lt_exp_iff_bits not_le)
  then have "push_bit ?S v OR ?r = push_bit ?S v + ?r"
    by (intro disjunctive_add[symmetric]) (auto simp: bit_push_bit_iff not_le[symmetric])
  then show ?case using Cons.hyps(1) Cons.IH len \<open>map fst (zip ns vs) = ns\<close>
    by (simp add: lsb_value_snoc take_bit_nat_eq_self push_bit_eq_mult)
qed simp

lemma fields_below_snoc:
  "fields_below P fs \<Longrightarrow> \<forall>f\<in>set fs. d + n \<le> fst f \<Longrightarrow> norm n ps \<Longrightarrow> d + n \<le> P \<Longrightarrow> fields_below P (fs @ [(d, n, ps)])"
  by (induction P fs rule: fields_below.induct) auto

lemma fields_value_snoc:
  "length fs = length vs \<Longrightarrow> fields_value (fs @ [(d, x)]) (vs @ [v]) = fields_value fs vs + v * 2 ^ d"
  by (induction fs vs rule: list_induct2) auto

lemma place_operand_precise:
  assumes "norm n ps" "ps = [(v, v)]" "base < 2 ^ d" "d + n \<le> N"
  shows "place_operand (nset n ps) (d, mkBitmap N base, impr) = Some (d + n, mkBitmap N (base + v * 2 ^ d), impr)"
    "base + v * 2 ^ d < 2 ^ (d + n)"
proof -
  have v: "v < 2 ^ n" using assms(1,2) by (simp add: norm_Cons)
  have bits: "bit (base + v * 2 ^ d) i \<longleftrightarrow> (if d \<le> i \<and> i < d + n then bit v (i - d) else bit base i)" for i
    using assms(3) unfolding nat_lt_exp_iff_bits by (intro bit_set_field[OF v]) auto
  obtain a' where a': "Overwrite (mkBitmap N base) (mkBitmap n v) n d 0 = Some (mkBitmap N a')"
      "\<forall>i. bit a' i \<longleftrightarrow> (if d \<le> i \<and> i < d + n then bit v (i - d) else bit base i)"
    using Overwrite_field[OF assms(4)] by blast
  then have "a' = base + v * 2 ^ d" using bits by (intro bit_eqI) simp
  then show "place_operand (nset n ps) (d, mkBitmap N base, impr) = Some (d + n, mkBitmap N (base + v * 2 ^ d), impr)"
    using a'(1) assms(2) GetPreciseValue_nset[OF assms(1)] norm_set_BitCount[OF norm_set_nset[OF assms(1)]]
    by (simp add: place_operand_def precise_def)
  show "base + v * 2 ^ d < 2 ^ (d + n)" unfolding nat_lt_exp_iff_bits bits using assms(3) unfolding nat_lt_exp_iff_bits by auto
qed

lemma place_operand_imprecise:
  assumes "norm n ps" "\<not> precise (n, ps)"
  shows "place_operand (nset n ps) (d, lower, impr) = Some (d + n, lower, impr @ [imprecise_operand (d, n, ps)])"
  using GetPreciseValue_nset[OF assms(1)] norm_set_BitCount[OF norm_set_nset[OF assms(1)]] assms(2)
  by (simp add: place_operand_def imprecise_operand_def)

definition placed :: "nat \<Rightarrow> nat \<Rightarrow> nat \<Rightarrow> operand list \<Rightarrow> nat \<Rightarrow> field list \<Rightarrow> bool" where
  "placed N d base xs base' fs = (base' < 2 ^ (d + sum_list (map fst xs)) \<and> (\<exists>q. base' = base + q * 2 ^ d) \<and>
     fields_below (d + sum_list (map fst xs)) (rev fs) \<and> (\<forall>f\<in>set fs. d \<le> fst f) \<and> clear base' fs \<and>
     (\<forall>vs. list_all2 (\<lambda>x v. v \<in> pts (fst x) (snd x)) xs vs \<longrightarrow>
        (\<exists>ws. choice (rev fs) ws \<and> base + lsb_value d (map fst xs) vs = base' + fields_value (rev fs) ws)))"

lemma placed_precise:
  assumes "placed N (d + n) (base + v * 2 ^ d) xs base' fs"
  shows "placed N d base ((n, [(v, v)]) # xs) base' fs"
proof -
  obtain q where "base' = base + v * 2 ^ d + q * 2 ^ (d + n)" using assms by (auto simp: placed_def)
  then have "base' = base + (v + q * 2 ^ n) * 2 ^ d" by (simp add: algebra_simps power_add)
  moreover have "\<exists>ws. choice (rev fs) ws \<and> base + lsb_value d (map fst ((n, [(v, v)]) # xs)) vs = base' + fields_value (rev fs) ws"
    if vs: "list_all2 (\<lambda>x v. v \<in> pts (fst x) (snd x)) ((n, [(v, v)]) # xs) vs" for vs
  proof -
    obtain vs' where "vs = v # vs'" "list_all2 (\<lambda>x v. v \<in> pts (fst x) (snd x)) xs vs'" using vs by (auto simp: list_all2_Cons1 wrap_points_def)
    then show ?thesis using assms by (auto simp: placed_def add.assoc)
  qed
  ultimately show ?thesis using assms by (auto simp: placed_def add.assoc intro: add_leD1)
qed

lemma placed_imprecise:
  assumes "placed N (d + n) base xs base' fs" "norm n ps" "base < 2 ^ d"
  shows "placed N d base ((n, ps) # xs) base' ((d, n, ps) # fs)"
proof -
  obtain q where q: "base' = base + q * 2 ^ (d + n)" using assms(1) by (auto simp: placed_def)
  have "bit base' i = bit base i" if "i < d + n" for i
    unfolding q using that assms(3) bit_set_field[OF nat_lt_exp_len, of "d + n" q base i] unfolding nat_lt_exp_iff_bits by auto
  then have "\<not> bit base' i" if "d \<le> i" "i < d + n" for i using that assms(3) unfolding nat_lt_exp_iff_bits by auto
  then have "clear base' ((d, n, ps) # fs)" using assms(1) by (auto simp: placed_def clear_def in_field_def)
  moreover have "base' = base + q * 2 ^ n * 2 ^ d" using q by (simp add: power_add)
  moreover have "fields_below (d + n + sum_list (map fst xs)) (rev fs @ [(d, n, ps)])"
    using assms(1,2) by (intro fields_below_snoc) (auto simp: placed_def)
  moreover have "\<exists>ws. choice (rev ((d, n, ps) # fs)) ws \<and> base + lsb_value d (map fst ((n, ps) # xs)) vs = base' + fields_value (rev ((d, n, ps) # fs)) ws"
    if vs: "list_all2 (\<lambda>x v. v \<in> pts (fst x) (snd x)) ((n, ps) # xs) vs" for vs
  proof -
    obtain v vs' where v: "vs = v # vs'" "v \<in> pts n ps" "list_all2 (\<lambda>x v. v \<in> pts (fst x) (snd x)) xs vs'" using vs by (auto simp: list_all2_Cons1)
    then obtain ws where ws: "choice (rev fs) ws" "base + lsb_value (d + n) (map fst xs) vs' = base' + fields_value (rev fs) ws"
      using assms(1) by (auto simp: placed_def)
    have len: "length (rev fs) = length ws" using ws(1) unfolding choice_def by (rule list_all2_lengthD)
    have "choice (rev ((d, n, ps) # fs)) (ws @ [v])" using ws(1) v(2) by (auto simp: choice_def intro: list_all2_appendI)
    moreover have "base + lsb_value d (map fst ((n, ps) # xs)) vs = base' + fields_value (rev ((d, n, ps) # fs)) (ws @ [v])"
      using ws(2) v(1) fields_value_snoc[OF len, of d "(n, ps)" v] by simp
    ultimately show ?thesis by blast
  qed
  ultimately show ?thesis using assms(1) unfolding placed_def by (auto simp: add.assoc intro: add_leD1)
qed

lemma place_operands_ok:
  assumes "\<forall>x\<in>set xs. wf_operand x" "base < 2 ^ d" "d + sum_list (map fst xs) \<le> N"
  shows "\<exists>base' fs. foldM place_operand (osets xs) (d, mkBitmap N base, impr) =
      Some (d + sum_list (map fst xs), mkBitmap N base', impr @ map imprecise_operand fs) \<and> placed N d base xs base' fs"
  using assms
proof (induction xs arbitrary: d base impr)
  case Nil
  then show ?case by (auto simp: placed_def clear_def choice_def intro!: exI[of _ base] exI[of _ "[]"] exI[of _ 0])
next
  case (Cons x xs)
  obtain n ps where x: "x = (n, ps)" by fastforce
  have norm: "norm n ps" and wf: "\<forall>x\<in>set xs. wf_operand x" and N: "d + n + sum_list (map fst xs) \<le> N" "d + n \<le> N"
    using Cons.prems x by auto
  show ?case
  proof (cases "precise (n, ps)")
    case True
    then obtain v where v: "ps = [(v, v)]" by (auto simp: precise_def)
    note pl = place_operand_precise[OF norm v Cons.prems(2) N(2)]
    obtain base' fs where b: "foldM place_operand (osets xs) (d + n, mkBitmap N (base + v * 2 ^ d), impr) =
        Some (d + n + sum_list (map fst xs), mkBitmap N base', impr @ map imprecise_operand fs)" "placed N (d + n) (base + v * 2 ^ d) xs base' fs"
      using Cons.IH[OF wf pl(2) N(1)] by blast
    have "placed N d base (x # xs) base' fs" unfolding x v by (rule placed_precise[OF b(2)])
    then show ?thesis using b(1) pl(1) x by (auto simp: add.assoc)
  next
    case False
    have lt: "base < 2 ^ (d + n)" using Cons.prems(2) by (rule less_le_trans) (simp add: power_increasing)
    obtain base' fs where b: "foldM place_operand (osets xs) (d + n, mkBitmap N base, impr @ [imprecise_operand (d, n, ps)]) =
        Some (d + n + sum_list (map fst xs), mkBitmap N base', (impr @ [imprecise_operand (d, n, ps)]) @ map imprecise_operand fs)" "placed N (d + n) base xs base' fs"
      using Cons.IH[OF wf lt N(1)] by blast
    have "placed N d base (x # xs) base' ((d, n, ps) # fs)" unfolding x by (rule placed_imprecise[OF b(2) norm Cons.prems(2)])
    then show ?thesis using b(1) place_operand_imprecise[OF norm False] x by (intro exI[of _ base'] exI[of _ "(d, n, ps) # fs"]) (simp add: add.assoc)
  qed
qed

lemma prefilter_ok:
  assumes "\<forall>x\<in>set xs. wf_operand x \<and> snd x \<noteq> []"
  shows "\<exists>k' ys. foldM (prefilter_step m) (osets xs) (k, fl) = Some (k', fl @ osets ys) \<and> list_all2 widened xs ys"
  using assms
proof (induction xs arbitrary: k fl)
  case (Cons x xs)
  obtain n ps where x: "x = (n, ps)" by fastforce
  have norm: "norm n ps" and ne: "ps \<noteq> []" using Cons.prems x by auto
  have s: "norm_set n (nset n ps)" "set_points (nset n ps) = pts n ps" using norm_set_nset[OF norm] set_points_nset[OF norm] by auto
  have "pts n ps \<noteq> {}" using norm_mem[OF norm] ne by (cases ps) auto
  then obtain l u where lu: "IntervalSet_ConvexHull (nset n ps) = Some (Some (ivl n l u))" "l \<in> pts n ps" "u \<in> pts n ps" "pts n ps \<subseteq> {l..u}"
    using bounds_norm_set[OF s(1)] s(2) by auto
  have lt: "l \<le> u" "u < 2 ^ n" using lu norm_set_less[OF s(1)] s(2) by auto
  then have n1: "norm n [(l, u)]" by (simp add: norm_def)
  have "\<exists>k' y. prefilter_step m (nset n ps) (k, fl) = Some (k', fl @ [nset (fst y) (snd y)]) \<and> widened x y"
  proof (cases "length ps \<le> 1 \<or> k * length ps \<le> m")
    case True
    then have "prefilter_step m (nset n ps) (k, fl) = Some (k * length ps, fl @ [nset n ps])" by (simp add: prefilter_step_def)
    then show ?thesis using norm x by (intro exI[of _ "k * length ps"] exI[of _ "(n, ps)"]) (simp add: widened_def)
  next
    case False
    then have "prefilter_step m (nset n ps) (k, fl) = Some (k, fl @ [nset n [(l, u)]])"
      using lu(1) norm_set_BitCount[OF s(1)] UnsafeFromNormalized_ivs[OF n1] by (simp add: prefilter_step_def)
    then show ?thesis using n1 x ne lu(4) lt by (intro exI[of _ k] exI[of _ "(n, [(l, u)])"]) (auto simp: widened_def wrap_points_def)
  qed
  then obtain k' y where y: "prefilter_step m (nset n ps) (k, fl) = Some (k', fl @ [nset (fst y) (snd y)])" "widened x y" by blast
  have "\<forall>x\<in>set xs. wf_operand x \<and> snd x \<noteq> []" using Cons.prems by simp
  from Cons.IH[OF this, of k' "fl @ [nset (fst y) (snd y)]"]
  obtain k'' ys where "foldM (prefilter_step m) (osets xs) (k', fl @ [nset (fst y) (snd y)]) = Some (k'', (fl @ [nset (fst y) (snd y)]) @ osets ys)"
      "list_all2 widened xs ys" by blast
  then show ?case using y x by (intro exI[of _ k''] exI[of _ "y # ys"]) (simp add: osets_def case_prod_unfold)
qed simp

lemma operands_of_sets:
  assumes "list_all2 norm_set ns ss" "\<forall>s\<in>set ss. set_points s \<noteq> {}"
  shows "\<exists>xs. osets xs = ss \<and> map fst xs = ns \<and> (\<forall>x\<in>set xs. wf_operand x \<and> snd x \<noteq> [])"
  using assms
proof (induction rule: list_all2_induct)
  case (Cons n ns s ss)
  obtain ps where ps: "s = nset n ps" "norm n ps" using Cons.hyps(1) by (rule norm_setE)
  have "ps \<noteq> []" using Cons.prems set_points_nset[OF ps(2)] ps(1) by auto
  moreover obtain xs where "osets xs = ss" "map fst xs = ns" "\<forall>x\<in>set xs. wf_operand x \<and> snd x \<noteq> []" using Cons by auto
  ultimately show ?case using ps by (intro exI[of _ "(n, ps) # xs"]) simp
qed simp

lemma Concat_total:
  assumes "list_all2 norm_set ns ss"
  shows "loop (\<lambda>s total. if IntervalSet_IsEmpty s then Some (Return ())
      else do { n \<leftarrow> IntervalSet_BitCount s; Some (Continue (total + n)) }) ss k =
    Some (if \<exists>s\<in>set ss. set_points s = {} then Return () else Continue (k + sum_list ns))"
  using assms by (induction arbitrary: k rule: list_all2_induct)
    (auto simp: IsEmpty_norm_set norm_set_BitCount add.assoc)

text \<open>With an empty operand, and with a total width of 0, the result is the empty set of width 0.\<close>

lemma Concat_degenerate:
  assumes "list_all2 norm_set ns ss" "(\<exists>s\<in>set ss. set_points s = {}) \<or> sum_list ns = 0"
  shows "iops_Concat bn ss = Some (IntervalSet_of_width 0)"
  using assms(2) by (simp only: iops_Concat_def Concat_total[OF assms(1)] Option.bind_lunit) auto

context bignum
begin

lemma Concat_sound:
  assumes "\<forall>x\<in>set xs. wf_operand x \<and> snd x \<noteq> []" "0 < sum_list (map fst xs)"
  shows "\<exists>t. iops_Concat bn (osets xs) = Some t \<and> norm_set (sum_list (map fst xs)) t \<and>
    (\<forall>vs. list_all2 (\<lambda>x v. v \<in> pts (fst x) (snd x)) xs vs \<longrightarrow> concat_val (zip (map fst xs) vs) \<in> set_points t)"
proof -
  let ?N = "sum_list (map fst xs)"
  obtain k ys where ys: "foldM (prefilter_step kMaxIntervalSegments) (osets xs) (1, []) = Some (k, osets ys)" "list_all2 widened xs ys"
    using prefilter_ok[OF assms(1), of kMaxIntervalSegments 1 "[]"] by auto
  have widths: "map fst ys = map fst xs" and wf: "\<forall>y\<in>set (rev ys). wf_operand y"
    using ys(2) by (induction rule: list_all2_induct) (simp_all add: widened_def)
  have sum: "sum_list (map fst (rev ys)) = ?N" using widths by (simp add: rev_map[symmetric])
  obtain base fs where b: "foldM place_operand (rev (osets ys)) (0, mkBitmap ?N 0, []) = Some (?N, mkBitmap ?N base, map imprecise_operand fs)"
      "placed ?N 0 0 (rev ys) base fs"
    using place_operands_ok[OF wf, of 0 0 ?N "[]"] sum by (auto simp: osets_def rev_map)
  have base: "base < 2 ^ ?N" "fields_below ?N (rev fs)" "clear base (rev fs)" using b(2) sum by (auto simp: placed_def clear_def)
  have val: "\<exists>ws. choice (rev fs) ws \<and> concat_val (zip (map fst xs) vs) = base + fields_value (rev fs) ws"
    if vs: "list_all2 (\<lambda>x v. v \<in> pts (fst x) (snd x)) xs vs" for vs
  proof -
    have "list_all2 (\<lambda>n v. v < 2 ^ n) (map fst xs) vs"
      using vs assms(1) pts_bound[OF norm_in_range] by (fastforce simp: list_all2_conv_all_nth wf_operand_def)
    then have e: "concat_val (zip (map fst xs) vs) = lsb_value 0 (map fst (rev ys)) (rev vs)" by (simp add: concat_val_lsb widths rev_map[symmetric])
    have "list_all2 (\<lambda>x v. v \<in> pts (fst x) (snd x)) ys vs" using vs ys(2) by (fastforce simp: list_all2_conv_all_nth widened_def)
    then have "list_all2 (\<lambda>x v. v \<in> pts (fst x) (snd x)) (rev ys) (rev vs)" by simp
    then show ?thesis using b(2) e unfolding placed_def by auto
  qed
  have sets: "list_all2 norm_set (map fst xs) (osets xs)"
    using assms(1) by (induction xs) (auto simp: osets_def wf_operand_def intro: norm_set_nset)
  have "set_points (nset n ps) \<noteq> {}" if "(n, ps) \<in> set xs" for n ps
    using that assms(1) IsEmpty_norm_set[OF norm_set_nset, of n ps] by (auto simp: wf_operand_def IntervalSet_IsEmpty_def)
  then have "\<not> (\<exists>s\<in>set (osets xs). set_points s = {})" by (auto simp: osets_def)
  then have total: "loop (\<lambda>s total. if IntervalSet_IsEmpty s then Some (Return ())
      else do { n \<leftarrow> IntervalSet_BitCount s; Some (Continue (total + n)) }) (osets xs) 0 = Some (Continue ?N)"
    using Concat_total[OF sets, of 0] by simp
  have nonzero: "\<not> (\<forall>x\<in>set xs. fst x = 0)" using assms(2) by (induction xs) auto
  have run: "iops_Concat bn (osets xs) = (if fs = [] then IntervalSet_Precise (mkBitmap ?N base) else do {
      s \<leftarrow> ConcatHelper (map imprecise_operand (rev fs)) \<lparr>lower_bits = mkBitmap ?N base, upper_bits = mkBitmap ?N base, concat_intervals = []\<rparr>;
      t \<leftarrow> UnsafeFromNormalized (int ?N) (concat_intervals s);
      MinimizeIntervals bn t kMaxIntervalSegments })"
    using total ys(1) b(1)
    by (simp add: nonzero iops_Concat_def PreFilterConcatOperands_def InlineBitmap_mk rev_map)
  show ?thesis
  proof (cases "fs = []")
    case True
    obtain t where "IntervalSet_Precise (mkBitmap ?N base) = Some t" "norm_set ?N t" "set_points t = {base}" using Precise_ok[OF base(1)] by blast
    moreover have "concat_val (zip (map fst xs) vs) = base" if "list_all2 (\<lambda>x v. v \<in> pts (fst x) (snd x)) xs vs" for vs
      using val[OF that] True by auto
    ultimately show ?thesis using run True by auto
  next
    case False
    have "same_outside ?N (rev fs) base base" by (simp add: same_outside_def)
    then obtain a' b' qs where q: "ConcatHelper (map imprecise_operand (rev fs)) \<lparr>lower_bits = mkBitmap ?N base, upper_bits = mkBitmap ?N base, concat_intervals = []\<rparr> =
          Some \<lparr>lower_bits = mkBitmap ?N a', upper_bits = mkBitmap ?N b', concat_intervals = ivs ?N qs\<rparr>" "norm ?N qs"
        "\<And>ws. choice (rev fs) ws \<Longrightarrow> base + fields_value (rev fs) ws \<in> pts ?N qs"
      using ConcatHelper_ok[OF base(2) order_refl base(3,3) order_refl base(1), of base base "[]"] unfolding helper_post_def by fastforce
    obtain t where t: "MinimizeIntervals bn (nset ?N qs) kMaxIntervalSegments = Some t" "norm_set ?N t" "pts ?N qs \<subseteq> set_points t"
      using MinimizeIntervals_ok[OF norm_set_ok[OF norm_set_nset[OF q(2)]], of kMaxIntervalSegments] set_points_nset[OF q(2)] by (auto simp: kMaxIntervalSegments_def)
    have "iops_Concat bn (osets xs) = Some t" using run False q(1) UnsafeFromNormalized_ivs[OF q(2)] t(1) by simp
    moreover have "concat_val (zip (map fst xs) vs) \<in> set_points t" if "list_all2 (\<lambda>x v. v \<in> pts (fst x) (snd x)) xs vs" for vs
      using val[OF that] q(3) t(3) by auto
    ultimately show ?thesis using t(2) by blast
  qed
qed

lemma Concat_sets_sound:
  assumes "list_all2 norm_set ns ss" "\<forall>s\<in>set ss. set_points s \<noteq> {}" "0 < sum_list ns"
  shows "\<exists>t. iops_Concat bn ss = Some t \<and> norm_set (sum_list ns) t \<and>
    (\<forall>vs. list_all2 (\<lambda>s v. v \<in> set_points s) ss vs \<longrightarrow> concat_val (zip ns vs) \<in> set_points t)"
proof -
  obtain xs where xs: "osets xs = ss" "map fst xs = ns" "\<forall>x\<in>set xs. wf_operand x \<and> snd x \<noteq> []"
    using operands_of_sets[OF assms(1,2)] by blast
  have "list_all2 (\<lambda>x v. v \<in> pts (fst x) (snd x)) xs vs" if "list_all2 (\<lambda>s v. v \<in> set_points s) ss vs" for vs
    using that[folded xs(1), unfolded osets_def list_all2_map1]
    by (rule list.rel_mono_strong) (use xs(3) in \<open>auto simp: set_points_nset\<close>)
  then show ?thesis using Concat_sound[OF xs(3)] assms(3) unfolding xs(1,2) by blast
qed

end

end
