(* ===== verification/Interval_Ops_Theorems.thy ===== *)
theory Interval_Ops_Theorems
  imports Interval_Codes_Rules
begin

text \<open>
  The properties of \<^verbatim>\<open>xls/ir/interval_ops.cc\<close>. Every operation on interval sets returns a set in normal form
  that contains the result for all values of the operands (\<open>sound_unary\<close>, \<open>sound_binary\<close>), whichever of
  its strategies it takes: the exact calculation, the reduction of fragmented operands, the wrapped or
  the maximal interval of a combination, and the final minimization.
\<close>

lemma sound_binary_at:
  "sound_binary r m f a b \<Longrightarrow> x \<in> set_points a \<Longrightarrow> y \<in> set_points b \<Longrightarrow> \<exists>t. r = Some t \<and> norm_set m t \<and> f x y \<in> set_points t"
  by (elim sound_binaryE) blast

lemma sound_unary_at:
  "sound_unary r m f a \<Longrightarrow> x \<in> set_points a \<Longrightarrow> \<exists>t. r = Some t \<and> norm_set m t \<and> f x \<in> set_points t"
  by (elim sound_unaryE) blast

lemma example_sets:
  "norm_set 8 (nset 8 [(2, 3), (250, 255)])" "2 \<in> set_points (nset 8 [(2, 3), (250, 255)])" "250 \<in> set_points (nset 8 [(2, 3), (250, 255)])"
  "norm_set 8 (nset 8 [(0, 10)])" "0 \<in> set_points (nset 8 [(0, 10)])" "9 \<in> set_points (nset 8 [(0, 10)])"
proof -
  have n: "norm 8 [(2, 3), (250, 255)]" "norm 8 [(0, 10)]" by (simp_all add: norm_def)
  then show "norm_set 8 (nset 8 [(2, 3), (250, 255)])" "norm_set 8 (nset 8 [(0, 10)])" using norm_set_nset by blast+
  show "2 \<in> set_points (nset 8 [(2, 3), (250, 255)])" "250 \<in> set_points (nset 8 [(2, 3), (250, 255)])"
    "0 \<in> set_points (nset 8 [(0, 10)])" "9 \<in> set_points (nset 8 [(0, 10)])"
    unfolding set_points_nset[OF n(1)] set_points_nset[OF n(2)] by (simp_all add: wrap_points_def)
qed

unbundle bit_operations_syntax

section \<open>Arithmetic\<close>

text \<open>C8. \<^verbatim>\<open>Add\<close>, \<^verbatim>\<open>Sub\<close>, \<^verbatim>\<open>Neg\<close>, \<^verbatim>\<open>UMul\<close> and \<^verbatim>\<open>SMul\<close> on interval sets of every width return, and the set they
  return contains the modular sum, difference, negation and product (at any output width) of all
  values of the operands, wrap-around included.\<close>

theorem interval_arith_sound:
  assumes "bignum bn bv" "norm_set n a" "norm_set n b" "norm_set k c"
  shows "sound_binary (iops_Add bn a b) n (\<lambda>x y. (x + y) mod 2 ^ n) a b \<and>
    sound_binary (iops_Sub bn a b) n (\<lambda>x y. wrapped n (int x - int y)) a b \<and>
    sound_unary (iops_Neg bn a) n (\<lambda>x. wrapped n (- int x)) a \<and>
    sound_binary (iops_UMul bn a c m) m (\<lambda>x y. (x * y) mod 2 ^ m) a c \<and>
    (0 < n \<and> 0 < k \<longrightarrow> sound_binary (iops_SMul bn a c m) m (\<lambda>x y. wrapped m (sv n x * sv k y)) a c)"
  using bignum.Add_sound[OF assms(1-3)] bignum.Sub_sound[OF assms(1-3)] bignum.Neg_sound[OF assms(1,2)]
    bignum.UMul_sound[OF assms(1,2,4)] bignum.SMul_sound[OF assms(1,2) _ assms(4)] by blast

theorem interval_arith_sound_witness:
  "(\<exists>t. iops_Add int_bn (nset 8 [(2, 3), (250, 255)]) (nset 8 [(0, 10)]) = Some t \<and> norm_set 8 t \<and> 3 \<in> set_points t) \<and>
   (\<exists>t. iops_UMul int_bn (nset 8 [(2, 3), (250, 255)]) (nset 8 [(0, 10)]) 12 = Some t \<and> norm_set 12 t \<and> 2250 \<in> set_points t)"
proof -
  note s = interval_arith_sound[OF int_bn.bignum_axioms example_sets(1,4,4), of 12]
  show ?thesis using sound_binary_at[OF s[THEN conjunct1] example_sets(3,6)]
    sound_binary_at[OF s[THEN conjunct2, THEN conjunct2, THEN conjunct2, THEN conjunct1] example_sets(3,6)] by simp
qed

text \<open>C9. Division on interval sets: \<^verbatim>\<open>UDiv\<close>, \<^verbatim>\<open>UMod\<close>, \<^verbatim>\<open>SDiv\<close> and \<^verbatim>\<open>SMod\<close> return a set that contains quotient and
  remainder for all values of the operands, with the result the evaluation of a zero divisor
  has, and with truncation toward zero of the signed quotient.\<close>

theorem interval_division_sound:
  assumes "bignum bn bv" "norm_set n a" "norm_set n b" "norm_set k c" "0 < k"
  shows "sound_binary (iops_UDiv bn a c) n (\<lambda>x y. if y = 0 then 2 ^ n - 1 else x div y) a c \<and>
    sound_binary (iops_UMod a b) n (\<lambda>x y. if y = 0 then 0 else x mod y) a b \<and>
    (0 < n \<longrightarrow> sound_binary (iops_SDiv bn a c) n (\<lambda>x y.
        if y = 0 then if sv n x < 0 then 2 ^ (n - 1) else 2 ^ (n - 1) - 1 else wrapped n (sv n x sdiv sv k y)) a c \<and>
      sound_binary (iops_SMod bn a b) n (\<lambda>x y. if y = 0 then 0 else wrapped n (sv n x smod sv n y)) a b)"
  using bignum.UDiv_sound[OF assms(1,2,4,5)] bignum.UMod_sound[OF assms(1-3)] bignum.SMod_sound[OF assms(1-3)]
    bignum.SDiv_sound[OF assms(1,2) _ assms(4,5), unfolded bignum.sdiv_value_def[OF assms(1), abs_def]] by blast

theorem interval_division_sound_witness:
  "(\<exists>t. iops_UDiv int_bn (nset 8 [(2, 3), (250, 255)]) (nset 8 [(0, 10)]) = Some t \<and> norm_set 8 t \<and> 27 \<in> set_points t) \<and>
   (\<exists>t. iops_UMod (nset 8 [(2, 3), (250, 255)]) (nset 8 [(0, 10)]) = Some t \<and> norm_set 8 t \<and> 7 \<in> set_points t)"
proof -
  note s = interval_division_sound[OF int_bn.bignum_axioms example_sets(1,4,4)]
  have k: "0 < (8 :: nat)" by simp
  show ?thesis using sound_binary_at[OF s[OF k, THEN conjunct1] example_sets(3,6)]
    sound_binary_at[OF s[OF k, THEN conjunct2, THEN conjunct1] example_sets(3,6)] by simp
qed

section \<open>Shifts and widths\<close>

text \<open>C10. Shifts and changes of width: \<^verbatim>\<open>Shll\<close>, \<^verbatim>\<open>Shrl\<close>, \<^verbatim>\<open>Shra\<close>, \<^verbatim>\<open>ZeroExtend\<close>, \<^verbatim>\<open>SignExtend\<close>, \<^verbatim>\<open>Truncate\<close> and
  \<^verbatim>\<open>BitSlice\<close> return a set that contains all results, also for shift amounts past the width
  and for amounts that need more than 64 bits.\<close>

theorem interval_shift_sound:
  assumes "bignum bn bv" "norm_set n a" "norm_set k c" "n < 2 ^ 63 - 1"
  shows "sound_binary (iops_Shll bn a c) n (\<lambda>x y. (x * 2 ^ y) mod 2 ^ n) a c \<and>
    sound_binary (iops_Shrl bn a c) n (\<lambda>x y. x div 2 ^ y) a c \<and>
    (0 < n \<and> 0 < k \<longrightarrow> sound_binary (iops_Shra bn a c) n (\<lambda>x y. wrapped n (sv n x div 2 ^ y)) a c) \<and>
    (n \<le> w \<longrightarrow> sound_unary (iops_ZeroExtend bn a w) w (\<lambda>x. x) a) \<and>
    (0 < n \<and> n \<le> w \<longrightarrow> sound_unary (iops_SignExtend bn a w) w (\<lambda>x. wrapped w (sv n x)) a) \<and>
    (w \<le> n \<longrightarrow> sound_unary (iops_Truncate bn a w) w (\<lambda>x. x mod 2 ^ w) a \<and>
      sound_unary (iops_BitSlice bn a start w) w (\<lambda>x. x div 2 ^ unat start mod 2 ^ w) a)"
proof -
  have n: "n \<le> 2 ^ 63" using assms(4) by simp
  note rules = bignum.Shll_sound[OF assms] bignum.Shrl_sound[OF assms(1-3) n] bignum.Shra_sound[OF assms(1-3) _ _ n]
    bignum.ZeroExtend_sound[OF assms(1,2)] bignum.SignExtend_sound[OF assms(1,2)] bignum.Truncate_sound[OF assms(1,2)]
    bignum.BitSlice_sound[OF assms(1,2) _ n]
  show ?thesis by (intro conjI impI; (elim conjE)?; (assumption | rule rules)+)
qed

theorem interval_shift_sound_witness:
  "(\<exists>t. iops_Shll int_bn (nset 8 [(2, 3), (250, 255)]) (nset 8 [(0, 10)]) = Some t \<and> norm_set 8 t \<and> 0 \<in> set_points t) \<and>
   (\<exists>t. iops_SignExtend int_bn (nset 8 [(2, 3), (250, 255)]) 16 = Some t \<and> norm_set 16 t \<and> 65530 \<in> set_points t)"
proof -
  note s = interval_shift_sound[OF int_bn.bignum_axioms example_sets(1,4), of 16 0]
  have u: "sound_unary (iops_SignExtend int_bn (nset 8 [(2, 3), (250, 255)]) 16) 16 (\<lambda>x. wrapped 16 (sv 8 x)) (nset 8 [(2, 3), (250, 255)])"
    and b: "sound_binary (iops_Shll int_bn (nset 8 [(2, 3), (250, 255)]) (nset 8 [(0, 10)])) 8 (\<lambda>x y. (x * 2 ^ y) mod 2 ^ 8)
      (nset 8 [(2, 3), (250, 255)]) (nset 8 [(0, 10)])"
    using s by simp_all
  have "wrapped 16 (sv 8 250) = 65530" by (simp add: int_bn.sv_negative[of 8 250] wrapped_def)
  then show ?thesis using sound_unary_at[OF u example_sets(3)] sound_binary_at[OF b example_sets(2,6)] by simp
qed

section \<open>Comparisons, reductions and gates\<close>

text \<open>C11. The comparisons on interval sets never exclude the true answer: the one-bit set each
  returns contains the outcome for all values of the operands.\<close>

theorem interval_compare_sound:
  assumes "bignum bn bv" "norm_set n a" "norm_set n b"
  shows "sound_binary (iops_Eq a b) 1 (\<lambda>x y. of_bool (x = y)) a b \<and>
    sound_binary (iops_Ne a b) 1 (\<lambda>x y. of_bool (x \<noteq> y)) a b \<and>
    sound_binary (iops_ULt a b) 1 (\<lambda>x y. of_bool (x < y)) a b \<and>
    sound_binary (iops_UGt a b) 1 (\<lambda>x y. of_bool (x > y)) a b \<and>
    sound_binary (iops_ULe a b) 1 (\<lambda>x y. of_bool (x \<le> y)) a b \<and>
    sound_binary (iops_UGe a b) 1 (\<lambda>x y. of_bool (x \<ge> y)) a b \<and>
    (0 < n \<longrightarrow>
      sound_binary (iops_SLt bn a b) 1 (\<lambda>x y. of_bool (sv n x < sv n y)) a b \<and>
      sound_binary (iops_SGt bn a b) 1 (\<lambda>x y. of_bool (sv n x > sv n y)) a b \<and>
      sound_binary (iops_SLe bn a b) 1 (\<lambda>x y. of_bool (sv n x \<le> sv n y)) a b \<and>
      sound_binary (iops_SGe bn a b) 1 (\<lambda>x y. of_bool (sv n x \<ge> sv n y)) a b)"
proof -
  note lt = ULt_sound[OF assms(2,3)] and gt = flipped_result[OF ULt_sound[OF assms(3,2)]]
  have slt: "sound_binary (iops_SLt bn a b) 1 (\<lambda>x y. of_bool (sv n x < sv n y)) a b"
    and sgt: "sound_binary (iops_SLt bn b a) 1 (\<lambda>x y. of_bool (sv n y < sv n x)) a b" if "0 < n"
    using bignum.SLt_sound[OF assms that] flipped_result[OF bignum.SLt_sound[OF assms(1,3,2) that]] by blast+
  show ?thesis
    using Eq_sound[OF assms(2,3)] negated_result[OF Eq_sound[OF assms(2,3)]] lt gt negated_result[OF lt] negated_result[OF gt]
      slt sgt negated_result[OF slt] negated_result[OF sgt]
    by (simp add: iops_Ne_def iops_UGt_def iops_ULe_def iops_UGe_def iops_SGt_def iops_SLe_def iops_SGe_def not_less)
qed

theorem interval_compare_sound_witness:
  "(\<exists>t. iops_ULt (nset 8 [(2, 3), (250, 255)]) (nset 8 [(0, 10)]) = Some t \<and> norm_set 1 t \<and> 1 \<in> set_points t \<and> 0 \<in> set_points t) \<and>
   (\<exists>t. iops_SLt int_bn (nset 8 [(2, 3), (250, 255)]) (nset 8 [(0, 10)]) = Some t \<and> norm_set 1 t \<and> 1 \<in> set_points t)"
proof -
  let ?a = "nset 8 [(2, 3), (250, 255)]" and ?b = "nset 8 [(0, 10)]"
  note s = interval_compare_sound[OF int_bn.bignum_axioms example_sets(1,4)]
  have u: "sound_binary (iops_ULt ?a ?b) 1 (\<lambda>x y. of_bool (x < y)) ?a ?b"
    and l: "sound_binary (iops_SLt int_bn ?a ?b) 1 (\<lambda>x y. of_bool (sv 8 x < sv 8 y)) ?a ?b"
    using s by simp_all
  have "sv 8 250 < sv 8 0" by (simp add: int_bn.sv_negative[of 8 250] int_bn.sv_nonneg)
  then show ?thesis using sound_binary_at[OF u example_sets(2,6)] sound_binary_at[OF u example_sets(3,6)]
    sound_binary_at[OF l example_sets(3,5)] by auto
qed

text \<open>C14. The reductions \<^verbatim>\<open>AndReduce\<close>, \<^verbatim>\<open>OrReduce\<close> and \<^verbatim>\<open>XorReduce\<close> and the \<^verbatim>\<open>Gate\<close> are sound, and
  \<^verbatim>\<open>MinimumBitCount\<close> is the least number of bits into which all values of the set fit.\<close>

theorem interval_reduce_sound:
  assumes "norm_set n a" "norm_set k c"
  shows "sound_unary (iops_AndReduce a) 1 (\<lambda>x. of_bool (x = 2 ^ n - 1)) a \<and>
    sound_unary (iops_OrReduce a) 1 (\<lambda>x. of_bool (x \<noteq> 0)) a \<and>
    sound_unary (iops_XorReduce a) 1 (\<lambda>x. of_bool (odd (card {i. i < n \<and> bit x i}))) a \<and>
    sound_binary (iops_Gate c a) n (\<lambda>x y. if x = 0 then 0 else y) c a \<and>
    (\<exists>w. MinimumBitCount a = Some w \<and> (\<forall>x\<in>set_points a. x < 2 ^ w) \<and> (\<forall>j. (\<forall>x\<in>set_points a. x < 2 ^ j) \<longrightarrow> w \<le> j))"
  by (intro conjI AndReduce_sound[OF assms(1)] OrReduce_sound[OF assms(1)] XorReduce_sound[OF assms(1)] Gate_sound[OF assms(2,1)]
    MinimumBitCount_exact[OF assms(1)])

theorem interval_reduce_sound_witness:
  "(\<exists>t. iops_OrReduce (nset 8 [(0, 10)]) = Some t \<and> norm_set 1 t \<and> 0 \<in> set_points t \<and> 1 \<in> set_points t) \<and>
   (\<exists>t. iops_Gate (nset 8 [(0, 10)]) (nset 8 [(0, 10)]) = Some t \<and> norm_set 8 t \<and> 9 \<in> set_points t) \<and>
   (\<exists>w. MinimumBitCount (nset 8 [(0, 10)]) = Some w \<and> (9 :: nat) < 2 ^ w)"
proof -
  note s = interval_reduce_sound[OF example_sets(4,4)]
  note o = s[THEN conjunct2, THEN conjunct1] and g = s[THEN conjunct2, THEN conjunct2, THEN conjunct2, THEN conjunct1]
  have "\<exists>w. MinimumBitCount (nset 8 [(0, 10)]) = Some w \<and> (9 :: nat) < 2 ^ w"
    using s[THEN conjunct2, THEN conjunct2, THEN conjunct2, THEN conjunct2] example_sets(6) by blast
  then show ?thesis using sound_unary_at[OF o example_sets(5)] sound_unary_at[OF o example_sets(6)]
    sound_binary_at[OF g example_sets(6,6)] by auto
qed

section \<open>Bitwise operations\<close>

text \<open>C15. \<^verbatim>\<open>Not\<close>, \<^verbatim>\<open>And\<close>, \<^verbatim>\<open>Or\<close> and \<^verbatim>\<open>Xor\<close> on interval sets of every positive width return a set in normal form
  that contains the bitwise result for all values of the operands, in the special cases for one bit,
  all ones, zero and mask selection, and through the conversion to ternary vectors and back.\<close>

theorem interval_bitwise_sound:
  assumes "norm_set n a" "norm_set n b" "0 < n"
  shows "sound_unary (iops_Not a) n (\<lambda>x. 2 ^ n - 1 - x) a \<and>
    sound_binary (iops_And a b) n (AND) a b \<and>
    sound_binary (iops_Or a b) n (OR) a b \<and>
    sound_binary (iops_Xor a b) n (XOR) a b"
  by (intro conjI Not_sound[OF assms(1)] And_sound[OF assms] Or_sound[OF assms] Xor_sound[OF assms(1,2)])

theorem interval_bitwise_sound_witness:
  "(\<exists>t. iops_And (nset 8 [(2, 3), (250, 255)]) (nset 8 [(0, 10)]) = Some t \<and> norm_set 8 t \<and> 8 \<in> set_points t) \<and>
   (\<exists>t. iops_Not (nset 8 [(2, 3), (250, 255)]) = Some t \<and> norm_set 8 t \<and> 253 \<in> set_points t)"
proof -
  note s = interval_bitwise_sound[OF example_sets(1,4)]
  have n: "0 < (8 :: nat)" by simp
  have "250 AND 9 = (8 :: nat)" by (simp add: and_nat_unfold)
  then show ?thesis using sound_binary_at[OF s[OF n, THEN conjunct2, THEN conjunct1] example_sets(3,6)]
    sound_unary_at[OF s[OF n, THEN conjunct1] example_sets(2)] by simp
qed

section \<open>Codes, counts and concatenation\<close>

text \<open>C16. \<^verbatim>\<open>Concat\<close> of interval sets in normal form, on every input. Where no operand is empty and the total
  width is not 0 it returns a set in normal form of the total width that contains the concatenation of
  every choice of values of the operands: precise operands are written once, the intervals of the others
  are combined, and where the combinations become too many an operand is widened to its convex hull.
  With an empty operand, and at a total width of 0, it returns the empty set of width 0, whatever the
  widths of the operands are.\<close>

theorem interval_concat_sound:
  assumes "bignum bn bv" "list_all2 norm_set ns ss"
  shows "if (\<exists>s\<in>set ss. set_points s = {}) \<or> sum_list ns = 0
    then iops_Concat bn ss = Some (IntervalSet_of_width 0) \<and> set_points (IntervalSet_of_width 0) = {}
    else \<exists>t. iops_Concat bn ss = Some t \<and> norm_set (sum_list ns) t \<and>
      (\<forall>vs. list_all2 (\<lambda>s v. v \<in> set_points s) ss vs \<longrightarrow> concat_val (zip ns vs) \<in> set_points t)"
proof (cases "(\<exists>s\<in>set ss. set_points s = {}) \<or> sum_list ns = 0")
  case True
  have "set_points (IntervalSet_of_width 0) = {}" by (simp add: IntervalSet_of_width_def set_points_def)
  then show ?thesis using Concat_degenerate[OF assms(2) True] True by (simp only: if_True simp_thms)
next
  case False
  then have "\<forall>s\<in>set ss. set_points s \<noteq> {}" "0 < sum_list ns" by (blast, linarith)
  from bignum.Concat_sets_sound[OF assms this] show ?thesis using False by (simp only: if_False)
qed

theorem interval_concat_sound_witness:
  "\<exists>t. iops_Concat int_bn [nset 8 [(2, 3), (250, 255)], nset 8 [(0, 10)]] = Some t \<and> norm_set 16 t \<and> 64009 \<in> set_points t"
proof -
  let ?ss = "[nset 8 [(2, 3), (250, 255)], nset 8 [(0, 10)]]"
  have "list_all2 norm_set [8, 8] ?ss" "\<forall>s\<in>set ?ss. set_points s \<noteq> {}" using example_sets by auto
  then have "\<not> ((\<exists>s\<in>set ?ss. set_points s = {}) \<or> sum_list [8, 8] = (0 :: nat))" "list_all2 norm_set [8, 8] ?ss" by auto
  from interval_concat_sound[OF int_bn.bignum_axioms this(2)] this(1) obtain t where
    t: "iops_Concat int_bn ?ss = Some t" "norm_set 16 t" "\<forall>vs. list_all2 (\<lambda>s v. v \<in> set_points s) ?ss vs \<longrightarrow> concat_val (zip [8, 8] vs) \<in> set_points t"
    by auto
  have "concat_val (zip [8, 8] [250, 9]) = 64009" by (simp add: push_bit_eq_mult take_bit_eq_mod or_nat_unfold)
  then have "64009 \<in> set_points t" using t(3)[rule_format, of "[250, 9]"] example_sets(3,6) by simp
  then show ?thesis using t(1,2) by blast
qed

text \<open>C17. \<^verbatim>\<open>Decode\<close> is exact: the set it returns has the decoded values and no other. \<^verbatim>\<open>Encode\<close> contains the encoding of
  every value (the disjunction of the positions of its set bits), and \<^verbatim>\<open>OneHot\<close> the one-hot form of every
  value at either priority, the extra top bit for zero included.\<close>

theorem interval_codes_sound:
  assumes "bignum bn bv" "norm_set n a"
  shows "(w \<le> 2 ^ 64 \<longrightarrow> (\<exists>t. iops_Decode a w = Some t \<and> norm_set w t \<and> set_points t = (\<lambda>x. if x < w then 2 ^ x else 0) ` set_points a)) \<and>
    (n \<le> 2 ^ w \<and> w \<le> 64 \<longrightarrow> sound_unary (iops_Encode bn a w) w (encoded n) a) \<and>
    (0 < k \<longrightarrow> sound_unary (iops_OneHot bn a p k) (n + 1) (one_hot p n) a)"
  using Decode_exact[OF assms(2), of w, unfolded decoded_def[abs_def]] bignum.Encode_sound[OF assms, of w] bignum.OneHot_sound[OF assms, of k p] by blast

theorem interval_codes_sound_witness:
  "(\<exists>t. iops_Decode (nset 8 [(2, 3), (250, 255)]) 4 = Some t \<and> set_points t = {0, 4, 8}) \<and>
   (\<exists>t. iops_Encode int_bn (nset 8 [(0, 10)]) 3 = Some t \<and> norm_set 3 t \<and> 3 \<in> set_points t) \<and>
   (\<exists>t. iops_OneHot int_bn (nset 8 [(0, 10)]) kMsb 16 = Some t \<and> norm_set 9 t \<and> 256 \<in> set_points t)"
proof -
  note a = interval_codes_sound[OF int_bn.bignum_axioms example_sets(1), of 4, THEN conjunct1]
    and b = interval_codes_sound[OF int_bn.bignum_axioms example_sets(4), of 3 16 kMsb, THEN conjunct2]
  have n: "norm 8 [(2, 3), (250, 255)]" by (simp add: norm_def)
  have "set_points (nset 8 [(2, 3), (250, 255)]) = {2, 3} \<union> {250..255}"
    unfolding set_points_nset[OF n] by (auto simp: wrap_points_def)
  moreover define f :: "nat \<Rightarrow> nat" where "f = (\<lambda>x. if x < 4 then 2 ^ x else 0)"
  have "f ` {250..255} = {0}" by (subst image_cong[OF refl, where g = "\<lambda>_. 0"]) (simp_all add: f_def image_constant_conv)
  moreover have "f 2 = 4" "f 3 = 8" by (simp_all add: f_def)
  ultimately have "f ` set_points (nset 8 [(2, 3), (250, 255)]) = {0, 4, 8}" by (simp add: image_Un insert_commute)
  moreover have "encoded 8 9 = 3" by (simp add: encoded_def upt_rec or_nat_unfold bit_iff_odd)
  moreover have "one_hot kMsb 8 0 = 256" by (simp add: one_hot_def)
  ultimately show ?thesis using a[folded f_def] sound_unary_at[OF b[THEN conjunct1, rule_format] example_sets(6)]
    sound_unary_at[OF b[THEN conjunct2, rule_format] example_sets(5)] by auto
qed

text \<open>C18. The measures of an interval set are exact: \<^verbatim>\<open>MinimumSignedBitCount\<close> is the least width in which every value,
  read as signed, fits; \<^verbatim>\<open>MaxPopCount\<close> and \<^verbatim>\<open>MinPopCount\<close> are the greatest and the least number of set bits of a
  value; \<^verbatim>\<open>CoversTernary\<close> tells whether some value matches the ternary vector.\<close>

theorem interval_counts_exact:
  assumes "norm_set n a" "set_points a \<noteq> {}"
  shows "(0 < n \<longrightarrow> (\<exists>k. MinimumSignedBitCount a = Some k \<and> (\<forall>x\<in>set_points a. fits_signed k (sv n x)) \<and>
      (\<forall>j. (\<forall>x\<in>set_points a. fits_signed j (sv n x)) \<longrightarrow> k \<le> j))) \<and>
    MaxPopCount a = Some (Max ((\<lambda>x. card {i. bit x i}) ` set_points a)) \<and>
    MinPopCount a = Some (Min ((\<lambda>x. card {i. bit x i}) ` set_points a)) \<and>
    (length t = n \<longrightarrow> CoversTernary a t = Some (\<exists>x\<in>set_points a. tern_ok t x))"
  using MinimumSignedBitCount_exact[OF assms(1)] PopCounts_exact[OF assms, unfolded pop_def[abs_def]] CoversTernary_exact[OF assms(1)] by blast

theorem interval_counts_exact_witness:
  "(\<exists>k. MinimumSignedBitCount (nset 8 [(0, 10)]) = Some k \<and> fits_signed k 9) \<and>
   MinPopCount (nset 8 [(0, 10)]) = Some 0 \<and> CoversTernary (nset 8 [(0, 10)]) (replicate 8 kUnknown) = Some True"
proof -
  let ?s = "nset 8 [(0, 10)]"
  have "set_points ?s \<noteq> {}" using example_sets(5) by blast
  note c = interval_counts_exact[OF example_sets(4) this, of "replicate 8 kUnknown"]
  have "finite (set_points ?s)" using norm_set_less[OF example_sets(4)] by (auto intro: bounded_nat_set_is_finite)
  moreover have "card {i. bit (0 :: nat) i} = 0" by simp
  then have "0 \<in> (\<lambda>x. card {i. bit x i}) ` set_points ?s" using example_sets(5) by (metis imageI)
  ultimately have "Min ((\<lambda>x. card {i. bit x i}) ` set_points ?s) \<le> 0" by (intro Min_le finite_imageI)
  moreover have "tern_ok (replicate 8 kUnknown) 9" by (simp add: tern_ok_def)
  moreover have "sv 8 9 = 9" by (simp add: int_bn.sv_nonneg)
  moreover obtain k where "MinimumSignedBitCount ?s = Some k" "fits_signed k (sv 8 9)"
    using c[THEN conjunct1] example_sets(6) by auto
  ultimately show ?thesis using c[THEN conjunct2] example_sets(6) by auto
qed

section \<open>Precision\<close>

text \<open>C12. \<^verbatim>\<open>MinimizeIntervals\<close> returns a set in normal form with at most the given number of intervals that
  contains its argument, and no such set has fewer values: it is the best approximation.\<close>

theorem minimize_intervals_optimal:
  assumes "bignum bn bv" "norm_set n s" "0 < limit"
  shows "\<exists>t. MinimizeIntervals bn s limit = Some t \<and> norm_set n t \<and> set_points s \<subseteq> set_points t \<and> NumberOfIntervals t \<le> limit \<and>
    (\<forall>u. norm_set n u \<and> set_points s \<subseteq> set_points u \<and> NumberOfIntervals u \<le> limit \<longrightarrow> card (set_points t) \<le> card (set_points u))"
  using bignum.MinimizeIntervals_ok[OF assms(1) norm_set_ok[OF assms(2)] assms(3)] bignum.MinimizeIntervals_least[OF assms] by blast

theorem minimize_intervals_optimal_witness:
  "\<exists>t. MinimizeIntervals int_bn (nset 8 [(2, 3), (250, 255)]) 1 = Some t \<and> NumberOfIntervals t \<le> 1 \<and>
     2 \<in> set_points t \<and> 250 \<in> set_points t"
  using minimize_intervals_optimal[OF int_bn.bignum_axioms example_sets(1), of 1] example_sets(2,3) by fastforce

text \<open>C13. When the operands have at most 16 pairs of values, \<^verbatim>\<open>UMul\<close> and \<^verbatim>\<open>Shll\<close> are exact: the set they
  return has the results and no other value.\<close>

theorem interval_exact_small:
  assumes "bignum bn bv" "norm_set n a" "norm_set k c"
    and "set_points a \<noteq> {}" "set_points c \<noteq> {}" "card (set_points a) * card (set_points c) \<le> 16"
  shows "(\<exists>t. iops_UMul bn a c m = Some t \<and> norm_set m t \<and>
      set_points t = {(x * y) mod 2 ^ m |x y. x \<in> set_points a \<and> y \<in> set_points c}) \<and>
    (n < 2 ^ 63 - 1 \<longrightarrow> (\<exists>t. iops_Shll bn a c = Some t \<and> norm_set n t \<and>
      set_points t = {(x * 2 ^ y) mod 2 ^ n |x y. x \<in> set_points a \<and> y \<in> set_points c}))"
proof -
  have few: "few_pairs a c" using assms(4-6) by (simp add: few_pairs_def)
  show ?thesis
    using bignum.UMul_exact[OF assms(1-3) few, of m] bignum.Shll_exact[OF assms(1-3) _ few] unfolding exact_binary_def by blast
qed

theorem interval_exact_small_witness:
  "\<exists>t. iops_UMul int_bn (nset 8 [(2, 3)]) (nset 8 [(100, 101)]) 8 = Some t \<and> set_points t = {200, 202, 44, 47}"
proof -
  have n: "norm 8 [(2, 3)]" "norm 8 [(100, 101)]" by (simp_all add: norm_def)
  have p: "set_points (nset 8 [(2, 3)]) = {2, 3}" "set_points (nset 8 [(100, 101)]) = {100, 101}"
    unfolding set_points_nset[OF n(1)] set_points_nset[OF n(2)] by (auto simp: wrap_points_def)
  have pairs: "{f x y |x y. x \<in> A \<and> y \<in> B} = (\<Union>x\<in>A. f x ` B)" for f :: "nat \<Rightarrow> nat \<Rightarrow> nat" and A B by blast
  have "{(x * y) mod 2 ^ 8 |x y. x \<in> {2, 3} \<and> y \<in> {100, 101}} = {200, 202, 44, 47 :: nat}"
    unfolding pairs by (simp add: insert_commute)
  then show ?thesis
    using interval_exact_small[OF int_bn.bignum_axioms norm_set_nset[OF n(1)] norm_set_nset[OF n(2)], unfolded p, of 8] by auto
qed

end
