(* ===== verification/Spec2Isabelle.thy ===== *)
theory Spec2Isabelle
  imports Ternary_Theorems Bits_Contracts Evaluator_Theorems Interval_Set_Theorems Bdd_Theorems
    Value_Theorems Type_Theorems Leaf_Tree_Theorems Interval_Ops_Theorems
begin

text \<open>
  XLS is a compiler from high-level descriptions of hardware to Verilog. This development models its
  data layer: the bit vectors, values and types every other part computes with, and the abstract
  domains (ternary vectors, intervals, decision diagrams, gate-level evaluation) its optimizer reasons
  with. The theories follow the source files under \<^verbatim>\<open>src/xls\<close>; a definition has the name of the
  function it translates, with the class or a short prefix added where the bare name is taken.

  \<^bold>\<open>How the code is modelled.\<close> A class is a record or datatype and a method a function that returns the
  new object. A failed \<^verbatim>\<open>CHECK\<close>, an access out of range or a thrown exception is the value \<open>None\<close>;
  \<^verbatim>\<open>absl::StatusOr\<close> is the sum \<open>status_or\<close>, whose left values are the error codes without their
  messages. Where both occur the type is \<open>'a status_or option\<close>. Theory \<open>Xls_Prelude\<close> has the
  corresponding control structures: \<open>CHECK\<close>, \<open>ASSIGN_OR_RETURN\<close>, \<open>RET_CHECK\<close>, and loops that may abort
  (\<open>foldM\<close>, \<open>mapM\<close>), return early (\<open>loop\<close>) or stop at an error (\<open>foldS\<close>, \<open>mapS\<close>). Machine words are
  \<open>64 word\<close>, \<open>32 word\<close> and \<open>8 word\<close>; saturating arithmetic keeps its type's bounds; sizes and indices
  are \<open>nat\<close>, or \<open>int\<close> where the code can make them negative. Loops whose end is not structural are
  \<open>function\<close>s with a measure or \<open>partial_function\<close>s, and the theorems state that they return.

  \<^bold>\<open>Bit vectors.\<close> \<open>Math_Util\<close> (\<^verbatim>\<open>common/math_util.h\<close>, \<^verbatim>\<open>bits_util.h\<close>), \<open>Inline_Bitmap\<close> and \<open>Bitmap_View\<close>
  (\<^verbatim>\<open>data_structures/inline_bitmap\<close>), \<open>Xls_Bits\<close> (\<^verbatim>\<open>ir/bits\<close>, \<^verbatim>\<open>bit_push_buffer\<close>), \<open>Big_Int\<close> (\<^verbatim>\<open>ir/big_int\<close>) and
  \<open>Bits_Ops\<close> (\<^verbatim>\<open>ir/bits_ops\<close>). A bitmap is a list of 64-bit words; the class invariant \<open>wf_bitmap\<close> says that
  the bits past the width are zero, and \<open>mkBitmap n v\<close> is the canonical bitmap of a number. The theories
  \<open>Bitmap_Spec\<close>, \<open>Bitmap_Rules\<close>, \<open>Bitmap_Bytes\<close>, \<open>Bits_Rules\<close>, \<open>Bits_Ops_Rules\<close> and \<open>Bits_Arith\<close> show what every
  operation computes on it, as rewrite rules in the collection \<open>bm_spec\<close>; \<open>Bits_Theorems\<close> and \<open>Bits_Contracts\<close>
  state the results over the abstraction relations \<open>is_bits\<close> and \<open>is_sbits\<close>. The BIGNUM functions of
  BoringSSL are a parameter \<open>bn_lib\<close>; the locale \<open>bignum\<close> states what they are documented to compute, and
  integers provide it.

  \<^bold>\<open>Ternary vectors and the evaluator template.\<close> \<open>Ternary_Ops\<close> (\<^verbatim>\<open>ir/ternary\<close>) with \<open>Ternary_Rules\<close> and
  \<open>Ternary_Theorems\<close>: a vector stands for the numbers it is compatible with. \<open>Abstract_Evaluator\<close> and
  \<open>Abstract_Multiplier\<close> (\<^verbatim>\<open>ir/abstract_evaluator.h\<close>) are the gate-level operations over a record of
  primitives. The locale \<open>evaluator_laws\<close> states what a derived class promises of its primitives, and the
  theories \<open>Evaluator_Sound\<close> to \<open>Evaluator_Div\<close> prove every operation once inside it: adders, shifts,
  selects, the Dadda multiplier, long division. \<open>Evaluator_Theorems\<close> interprets it for the ternary
  evaluator (\<^verbatim>\<open>passes/ternary_evaluator.h\<close>) and for booleans.

  \<^bold>\<open>Intervals.\<close> \<open>Xls_Interval\<close> and \<open>Interval_Rules\<close> (\<^verbatim>\<open>ir/interval\<close>), \<open>Interval_Set\<close> and
  \<open>Interval_Set_Queries\<close> (\<^verbatim>\<open>ir/interval_set\<close>), improper intervals and the normalization flag included.
  The locale \<open>set_algebra\<close> of \<open>Interval_Set_Contract\<close> is the interface to the sets of numbers; the class
  provides it. \<open>Interval_Set_Reach\<close> has the inductive set of the objects the public methods can make, the
  sets without a width included (default constructed, or set to an empty span), which never hold a
  valid interval.

  \<^bold>\<open>Interval operations.\<close> \<open>Interval_Ops\<close>, \<open>Interval_Engine\<close>, \<open>Interval_Arith\<close> and \<open>Interval_Bitwise\<close>
  (\<^verbatim>\<open>ir/interval_ops\<close>, \<^verbatim>\<open>common/iter_util.h\<close>) are the transfer functions of range analysis: conversion to and
  from ternary vectors, the engine that evaluates an operation at the bounds of its operands' intervals,
  and the operations. A set in normal form (\<open>norm_set\<close>) stands for its values (\<open>set_points\<close>); an operation is sound
  (\<open>sound_unary\<close>, \<open>sound_binary\<close>) when it returns a set in normal form with the result for all values of its
  operands. \<open>Interval_Minimize\<close> treats the reduction to fewer intervals, which is optimal;
  \<open>Interval_Engine_Rules\<close> has the locale \<open>interval_op\<close>, the contract of a calculation the engine runs
  (monotone or antitone in each operand, with its overflow bit), and proves the engine once from it;
  \<open>unary_op\<close> and \<open>binary_op\<close> specialize it, and \<open>Interval_Arith_Rules\<close> discharges them for the code's calculations.
  \<open>Interval_Div_Rules\<close>, \<open>Interval_Compare_Rules\<close>, \<open>Interval_Ternary_Rules\<close> (bitwise operations through ternary
  vectors) and \<open>Interval_Codes_Rules\<close> (codes, counts, concatenation) treat the other operations;
  \<open>Interval_Ops_Theorems\<close> states the results. Widths are positive where the code reads a sign or where it
  aborts at width 0; shifts need a width below \<open>2 ^ 63 - 1\<close>, \<^verbatim>\<open>Encode\<close> an output of at most 64 bits.

  \<^bold>\<open>Binary decision diagrams.\<close> \<open>Bdd_Model\<close> (\<^verbatim>\<open>data_structures/binary_decision_diagram\<close>) has the whole class:
  the vector of nodes with its free list, the unique tables, the cache and its transition to a lossy
  array, if-then-else, evaluation, printing and garbage collection. \<^verbatim>\<open>absl::HashOf\<close> is a parameter, of
  which nothing is assumed. \<open>Bdd_Tree\<close> to \<open>Bdd_Sweep\<close> show that nodes are reduced ordered trees, that
  if-then-else always returns, and what a collection keeps; the locale \<open>bdd_service\<close> states the laws
  clients use, and \<open>Bdd_Theorems\<close> has the reachable states. A collection may be given any roots; a flag
  that the code does not have records whether all of them so far contained the base nodes of the
  variables, which is what the invariant depends on, and an example shows a base node freed without it.

  \<^bold>\<open>Types and values.\<close> \<open>Xls_Type\<close> (\<^verbatim>\<open>ir/type\<close>), \<open>Xls_Value\<close> (\<^verbatim>\<open>ir/value\<close>) and \<open>Value_Utils\<close> (\<^verbatim>\<open>ir/value_utils\<close>,
  \<^verbatim>\<open>value_flattening\<close>). \<open>Value_Rules\<close> has the typing judgment \<open>has_type\<close>; \<open>Value_Serial\<close> and \<open>Value_Protos\<close>
  treat the three serial forms of a value; \<open>Value_Theorems\<close> states their round trips. In \<open>Type_Manager\<close>
  (\<^verbatim>\<open>ir/type_manager\<close>) types are objects of a heap that several managers share. \<open>Type_Manager_Rules\<close> has the
  invariant \<open>arena_ok\<close>; the locale \<open>type_source\<close> of \<open>Type_Sources\<close> is the contract of everything that gives a
  manager its types (messages, values, other managers), \<open>type_sources\<close> combines two of them; \<open>Type_Strings\<close>
  shows that the printed type, a key of the manager, determines the type; \<open>Type_World\<close> has the step
  relation of any number of managers: the getters, the types of values and of messages, and the copy of a
  type from another arena; \<open>Type_Theorems\<close> has the results.

  \<^bold>\<open>Leaf type trees.\<close> \<open>Leaf_Type_Tree\<close> and \<open>Leaf_Tree_Ops\<close> (\<^verbatim>\<open>data_structures/leaf_type_tree\<close>): trees, views and
  mutable views, which carry the elements they alias, the leaf iterator and the traversals; rules and
  properties are in \<open>Leaf_Tree_Rules\<close> and \<open>Leaf_Tree_Theorems\<close>.

  \<^bold>\<open>Bounds.\<close> No fuel is used. Sizes do not wrap at \<open>2 ^ 63\<close>, node indices of a diagram not at \<open>2 ^ 31\<close>;
  an \<^verbatim>\<open>int\<close> index over the elements of a vector (\<^verbatim>\<open>AddWithCarry\<close>) does not wrap either. Where the template
  computes a size in \<^verbatim>\<open>int\<close> (shifts of 1 in \<^verbatim>\<open>Select\<close> and \<^verbatim>\<open>Decode\<close>, the doubled width in \<^verbatim>\<open>SMul\<close>) the model has the
  overflow, and the theorems assume fewer than \<open>2 ^ 31\<close> cases and factors below \<open>2 ^ 30\<close> bits. Other theorems in which a
  width or count enters machine arithmetic assume that it fits. Debug checks that a release build leaves
  out (the arguments of \<^verbatim>\<open>Mask\<close> and \<^verbatim>\<open>CeilOrFloorOfRatio\<close>) are preconditions, which the calls in the model satisfy.

  \<^bold>\<open>Not modelled.\<close> Hashing, streams, logging and fuzzing hooks; moves, which are copies; the state an
  operation has partly changed when it returns an error status, which no caller reads. The IR graph,
  the passes, the interpreter, the DSLX front end, scheduling, code generation and the JIT are other
  subsystems, built on the data modelled here.
\<close>

end
